(* ===== verification/Prelude.thy ===== *)
theory Prelude
  imports Main "HOL-Library.Word" "HOL-Library.Monad_Syntax"
begin

text \<open>
  Shared vocabulary of the development: the reading of Rust results, machine integers,
  byte slices and little-endian fields, and the generic lemmas the component theories use.

  \<^item> A Rust function that may panic, or spin for ever on a lock its own caller holds, is a HOL
    function into \<open>'a option\<close>: \<open>None\<close> means that the call does not return. A Rust
    \<open>Option<T>\<close> result of such a function is an inner \<open>option\<close>. \<open>None\<close> stands also for behaviour that Rust leaves
    undefined, a write through a raw pointer outside of its object, so that a result \<open>Some\<close> excludes it.
  \<^item> The kernel, the user library and easy-fs are built with the release profile
    (\<^verbatim>\<open>os/Makefile\<close>, \<^verbatim>\<open>MODE := release\<close>), in which integer arithmetic wraps. Bytes and bit
    fields are \<open>word\<close>s; addresses and the other \<open>u32\<close> and \<open>usize\<close> quantities are \<open>nat\<close> with the
    reduction modulo the width written out by \<open>u32\<close>, \<open>u32_sub\<close>, \<open>usize\<close> and \<open>usize_sub\<close>.
\<close>

unbundle bit_operations_syntax

named_theorems slice_simps \<open>rewriting reads of byte slices\<close>
named_theorems width_simps \<open>dropping reductions modulo a width that are the identity\<close>

section \<open>Panics\<close>

definition ensure :: "bool \<Rightarrow> unit option" where
  "ensure P = (if P then Some () else None)"

lemma ensure_bind [simp]: "(ensure P \<bind> f) = (if P then f () else None)"
  by (simp add: ensure_def)

lemma ensure_Some [simp]: "ensure P = Some u \<longleftrightarrow> P"
  by (simp add: ensure_def)

lemma bind_SomeD:
  "Option.bind x f = Some y \<Longrightarrow> \<exists>a. x = Some a \<and> f a = Some y"
  by (cases x) auto

lemma bind_SomeE [elim!]:
  assumes "Option.bind x f = Some y"
  obtains a where "x = Some a" and "f a = Some y"
  using assms by (cases x) auto

section \<open>Indexing with a bound check, and iterators\<close>

definition index_get :: "'a list \<Rightarrow> nat \<Rightarrow> 'a option" where
  \<comment> \<open>\<open>a[i]\<close>: panics out of range\<close>
  "index_get a i = (if i < length a then Some (a ! i) else None)"

definition index_set :: "'a list \<Rightarrow> nat \<Rightarrow> 'a \<Rightarrow> 'a list option" where
  \<comment> \<open>\<open>a[i] = x\<close>: panics out of range\<close>
  "index_set a i x = (if i < length a then Some (a[i := x]) else None)"

fun next_unwrap :: "'a list \<Rightarrow> ('a \<times> 'a list) option" where
  \<comment> \<open>\<open>iter.next().unwrap()\<close>: panics at the end of the iterator\<close>
  "next_unwrap [] = None"
| "next_unwrap (x # xs) = Some (x, xs)"

lemma index_get_Some [simp]: "i < length a \<Longrightarrow> index_get a i = Some (a ! i)"
  by (simp add: index_get_def)

lemma index_set_Some [simp]: "i < length a \<Longrightarrow> index_set a i x = Some (a[i := x])"
  by (simp add: index_set_def)

section \<open>Fixed-width integers written on nat\<close>

definition u32 :: "nat \<Rightarrow> nat" where
  "u32 n = n mod 2 ^ 32"

definition u32_sub :: "nat \<Rightarrow> nat \<Rightarrow> nat" where
  "u32_sub a b = u32 (a + 2 ^ 32 - b)"

definition usize :: "nat \<Rightarrow> nat" where
  "usize n = n mod 2 ^ 64"

definition usize_sub :: "nat \<Rightarrow> nat \<Rightarrow> nat" where
  "usize_sub a b = (a + 2 ^ 64 - b mod 2 ^ 64) mod 2 ^ 64"

lemma u32_id [width_simps]: "n < 2 ^ 32 \<Longrightarrow> u32 n = n"
  by (simp add: u32_def)

lemma u32_less [simp]: "u32 n < 2 ^ 32"
  by (simp add: u32_def)

lemma u32_le: "u32 n \<le> n"
  by (simp add: u32_def)

lemma usize_id [width_simps]: "n < 2 ^ 64 \<Longrightarrow> usize n = n"
  by (simp add: usize_def)

lemma usize_sub_id [width_simps]: "b \<le> a \<Longrightarrow> a < 2 ^ 64 \<Longrightarrow> usize_sub a b = a - b"
proof -
  assume a: "b \<le> a" "a < 2 ^ 64"
  then have "b mod 2 ^ 64 = b" "a + 2 ^ 64 - b = (a - b) + 2 ^ 64" "(a - b) mod 2 ^ 64 = a - b"
    by simp_all
  then show ?thesis
    unfolding usize_sub_def by (simp only: mod_add_self2)
qed

lemma u32_sub_id [width_simps]:
  assumes "b \<le> a" and "a < 2 ^ 32"
  shows "u32_sub a b = a - b"
proof -
  have "a + 2 ^ 32 - b = (a - b) + 2 ^ 32"
    using assms by simp
  then have "u32_sub a b = (a - b) mod 2 ^ 32"
    by (simp only: u32_sub_def u32_def mod_add_self2)
  then show ?thesis
    using assms by simp
qed

section \<open>Positions in blocks of equal size\<close>

lemma block_position:
  assumes "a * n \<le> j" and "j < a * n + p" and "p \<le> (n :: nat)"
  shows "j div n = a" and "j mod n = j - a * n"
proof -
  obtain k where j: "j = a * n + k" and k: "k < n"
    using assms by (metis add_less_cancel_left le_Suc_ex less_le_trans)
  then show "j div n = a" and "j mod n = j - a * n"
    by simp_all
qed

lemma position_split:
  assumes "0 < (m :: nat)"
  obtains q r where "k = q * m + r" and "r < m" and "k div m = q" and "k mod m = r"
  using assms that [of "k div m" "k mod m"] by simp

lemma div_block: "c < (k :: nat) \<Longrightarrow> (a * k + c) div k = a"
  by simp

lemma ceil_div:
  assumes "b < (k :: nat)"
  shows "(a * k + b + k - 1) div k = a + (if b = 0 then 0 else 1)"
proof (cases "b = 0")
  case True
  then have "a * k + b + k - 1 = a * k + (k - 1)"
    using assms by simp
  then show ?thesis
    using True assms div_block [of "k - 1" k a] by simp
next
  case False
  then have "a * k + b + k - 1 = (a + 1) * k + (b - 1)"
    using assms by simp
  then show ?thesis
    using False assms div_block [of "b - 1" k "a + 1"] by simp
qed

section \<open>Byte slices\<close>

type_synonym byte = "8 word"
type_synonym bytes = "byte list"

definition slice :: "nat \<Rightarrow> nat \<Rightarrow> 'a list \<Rightarrow> 'a list" where
  "slice off n xs = take n (drop off xs)"

definition splice :: "nat \<Rightarrow> 'a list \<Rightarrow> 'a list \<Rightarrow> 'a list" where
  \<comment> \<open>\<open>dst[off..off + src.len()].copy_from_slice(src)\<close> for a range inside \<open>dst\<close>\<close>
  "splice off src dst = take off dst @ src @ drop (off + length src) dst"

lemma length_slice [simp]: "length (slice off n xs) = min n (length xs - off)"
  by (simp add: slice_def)

lemma length_splice [simp]:
  "off + length src \<le> length dst \<Longrightarrow> length (splice off src dst) = length dst"
  by (simp add: splice_def)

lemma splice_Nil [simp]: "splice off [] dst = dst"
  by (simp add: splice_def)

lemma slice_0 [simp]: "slice off 0 xs = []"
  by (simp add: slice_def)

lemma slice_full [simp]: "length xs \<le> n \<Longrightarrow> slice 0 n xs = xs"
  by (simp add: slice_def)

lemma nth_slice [simp]:
  "i < n \<Longrightarrow> off + i < length xs \<Longrightarrow> slice off n xs ! i = xs ! (off + i)"
  by (simp add: slice_def)

lemma nth_splice:
  assumes "off + length src \<le> length dst" and "i < length dst"
  shows "splice off src dst ! i =
    (if off \<le> i \<and> i < off + length src then src ! (i - off) else dst ! i)"
  using assms by (auto simp: splice_def nth_append min_def)

lemma slice_splice_same [slice_simps]:
  assumes "off + length src \<le> length dst" and "n = length src"
  shows "slice off n (splice off src dst) = src"
  using assms by (simp add: slice_def splice_def)

lemma slice_splice_other [slice_simps]:
  assumes "off + length src \<le> length dst"
    and "off' + n \<le> off \<or> off + length src \<le> off'"
    and "off' + n \<le> length dst"
  shows "slice off' n (splice off src dst) = slice off' n dst"
  using assms by (intro nth_equalityI) (auto simp: nth_splice)

lemma splice_slice_id:
  "off + n \<le> length xs \<Longrightarrow> splice off (slice off n xs) xs = xs"
  by (intro nth_equalityI) (auto simp: nth_splice)

lemma slice_slice: "b + m \<le> n \<Longrightarrow> slice b m (slice a n xs) = slice (a + b) m xs"
  by (simp add: slice_def drop_take min_def add.commute)

lemma splice_over_splice:
  assumes "off + length src \<le> length dst" and "length src' = length src"
  shows "splice off src' (splice off src dst) = splice off src' dst"
  using assms by (intro nth_equalityI) (auto simp: nth_splice)

lemma splice_splice_adjacent:
  assumes "off + length xs + length ys \<le> length dst"
  shows "splice (off + length xs) ys (splice off xs dst) = splice off (xs @ ys) dst"
  using assms by (simp add: splice_def ac_simps)

lemma slice_append_slice: "slice a m xs @ slice (a + m) n xs = slice a (m + n) xs"
  by (simp add: slice_def take_add add.commute)

subsection \<open>Concatenations of pieces of one length\<close>

lemma length_concat_pieces:
  "\<forall>x \<in> set xs. length (f x) = m \<Longrightarrow> length (concat (map f xs)) = length xs * m"
  by (induction xs) auto

lemma nth_concat_pieces:
  assumes "\<forall>x \<in> set xs. length (f x) = m" and "k < length xs * m"
  shows "concat (map f xs) ! k = f (xs ! (k div m)) ! (k mod m)"
  using assms
proof (induction xs arbitrary: k)
  case Nil
  then show ?case by simp
next
  case (Cons x xs)
  have m: "0 < m"
    using Cons.prems(2) by (cases m) auto
  show ?case
  proof (cases "k < m")
    case True
    then show ?thesis
      using Cons.prems by (simp add: nth_append)
  next
    case False
    then have "k div m = Suc ((k - m) div m)" and "k mod m = (k - m) mod m"
      using m by (simp_all add: le_div_geq le_mod_geq)
    moreover have "k - m < length xs * m"
      using Cons.prems(2) False by simp
    ultimately show ?thesis
      using Cons False by (simp add: nth_append)
  qed
qed

lemma concat_pieces_update:
  assumes len: "\<forall>x \<in> set xs. length (f x) = m" and dist: "distinct xs" and j: "j < length xs"
    and p: "off + length p \<le> m" and f': "\<And>x. f' x = (if x = xs ! j then splice off p (f x) else f x)"
  shows "concat (map f' xs) = splice (j * m + off) p (concat (map f xs))"
proof (cases "p = []")
  case True
  then have "f' = f"
    using f' by auto
  with True show ?thesis by simp
next
  case False
  then have m: "0 < m"
    using p by (cases m) auto
  have len': "\<forall>x \<in> set xs. length (f' x) = m"
    using len p j by (auto simp: f')
  have "Suc j * m \<le> length xs * m"
    using j by (intro mult_le_mono1) simp
  then have room: "j * m + off + length p \<le> length (concat (map f xs))"
    using p by (simp add: length_concat_pieces [OF len])
  have "concat (map f' xs) ! k = splice (j * m + off) p (concat (map f xs)) ! k"
    if k: "k < length xs * m" for k
  proof -
    have q: "k div m < length xs" and r: "k mod m < m"
      using k m by (simp_all add: div_less_iff_less_mult)
    have eq: "k div m = j \<and> off \<le> k mod m \<and> k mod m < off + length p \<longleftrightarrow>
        j * m + off \<le> k \<and> k < j * m + off + length p"
    proof
      assume "j * m + off \<le> k \<and> k < j * m + off + length p"
      then show "k div m = j \<and> off \<le> k mod m \<and> k mod m < off + length p"
        using block_position [of j m k m] p by auto
    next
      assume "k div m = j \<and> off \<le> k mod m \<and> k mod m < off + length p"
      then show "j * m + off \<le> k \<and> k < j * m + off + length p"
        using div_mult_mod_eq [of k m] by auto
    qed
    have l: "length (f (xs ! (k div m))) = m"
      using len q by simp
    have inj: "xs ! (k div m) = xs ! j \<longleftrightarrow> k div m = j"
      using dist q j by (simp add: nth_eq_iff_index_eq)
    have "concat (map f' xs) ! k = f' (xs ! (k div m)) ! (k mod m)"
      using nth_concat_pieces [OF len' k] .
    also have "\<dots> = (if k div m = j \<and> off \<le> k mod m \<and> k mod m < off + length p
        then p ! (k mod m - off) else f (xs ! (k div m)) ! (k mod m))"
      using l p r by (auto simp: f' inj nth_splice)
    also have "\<dots> = splice (j * m + off) p (concat (map f xs)) ! k"
    proof (cases "k div m = j \<and> off \<le> k mod m \<and> k mod m < off + length p")
      case True
      then have "k mod m - off = k - (j * m + off)"
        using div_mult_mod_eq [of k m] by auto
      then show ?thesis
        using True eq room k by (simp add: nth_splice length_concat_pieces [OF len])
    next
      case False
      then show ?thesis
        using eq room k nth_concat_pieces [OF len k]
        by (auto simp: nth_splice length_concat_pieces [OF len])
    qed
    finally show ?thesis .
  qed
  then show ?thesis
    using room by (intro nth_equalityI) (simp_all add: length_concat_pieces [OF len'] length_concat_pieces [OF len])
qed

section \<open>Little-endian fields\<close>

fun le_bytes :: "nat \<Rightarrow> nat \<Rightarrow> bytes" where
  "le_bytes 0 v = []"
| "le_bytes (Suc k) v = of_nat (v mod 256) # le_bytes k (v div 256)"

fun le_nat :: "bytes \<Rightarrow> nat" where
  "le_nat [] = 0"
| "le_nat (b # bs) = unat b + 256 * le_nat bs"

lemma length_le_bytes [simp]: "length (le_bytes k v) = k"
  by (induction k arbitrary: v) auto

lemma unat_byte_less: "unat (b :: byte) < 256"
  using unsigned_less [of b] by simp

lemma le_nat_bound: "le_nat bs < 256 ^ length bs"
proof (induction bs)
  case Nil
  then show ?case by simp
next
  case (Cons b bs)
  have "unat b + 256 * le_nat bs < 256 * (le_nat bs + 1)"
    using unat_byte_less [of b] by simp
  also have "\<dots> \<le> 256 * 256 ^ length bs"
    using Cons.IH by simp
  finally show ?case by simp
qed

lemma le_nat_le_bytes: "le_nat (le_bytes k v) = v mod 256 ^ k"
proof (induction k arbitrary: v)
  case 0
  then show ?case by simp
next
  case (Suc k)
  have "unat (of_nat (v mod 256) :: byte) = v mod 256"
    by (simp add: unat_of_nat)
  with Suc show ?case
    by (simp add: mod_mult2_eq)
qed

lemma le_bytes_le_nat: "le_bytes (length bs) (le_nat bs) = bs"
proof (induction bs)
  case Nil
  then show ?case by simp
next
  case (Cons b bs)
  have m: "of_nat ((unat b + 256 * le_nat bs) mod 256) = b"
    using unat_byte_less [of b] by simp
  have d: "(unat b + 256 * le_nat bs) div 256 = le_nat bs"
    using unat_byte_less [of b] by simp
  show ?case
    using Cons by (simp only: le_nat.simps list.size add_Suc_right add_0_right le_bytes.simps m d)
qed

lemma le_nat_le_bytes4 [width_simps]: "v < 2 ^ 32 \<Longrightarrow> le_nat (le_bytes 4 v) = v"
  by (simp add: le_nat_le_bytes)

lemma le_nat_4_bound: "length bs = 4 \<Longrightarrow> le_nat bs < 2 ^ 32"
  using le_nat_bound [of bs] by simp

end
