(* ===== verification/BlockCache.thy ===== *)
theory BlockCache
  imports Prelude "HOL-Library.AList"
begin

text \<open>
  The block cache of easy-fs (\<^verbatim>\<open>easy-fs/src/block_cache.rs\<close>) over a block device
  (\<^verbatim>\<open>easy-fs/src/block_dev.rs\<close>).

  A block device is a partial map from block numbers to 512-byte blocks: \<open>read_block\<close> and
  \<open>write_block\<close> panic outside its domain, as the \<open>expect\<close> and \<open>assert_matches\<close> calls
  of the two implementations of the trait do. The manager keeps at most 16 cached blocks in a
  queue; an entry whose \<open>Arc\<close> is held by a client is listed in \<open>held\<close> and is not evicted.
  The clients of the crate always take the lock of a cached block together with its \<open>Arc\<close> and
  drop both together, so \<open>held\<close> also is the set of locked blocks, and asking for a block that
  is held spins for ever.

  The main result is a refinement: through \<open>unheld held view\<close> the whole machinery is a plain disk
  (a map from block numbers to contents) from which the locked blocks are removed. The other
  theories of the file system are written over that disk.
\<close>

section \<open>The block device\<close>

definition BLOCK_SZ :: nat where
  "BLOCK_SZ = 512"

lemma BLOCK_SZ_pos [simp]: "0 < BLOCK_SZ"
  by (simp add: BLOCK_SZ_def)

type_synonym block = bytes
type_synonym disk = "nat \<rightharpoonup> block"

definition wf_disk :: "disk \<Rightarrow> bool" where
  "wf_disk d \<longleftrightarrow> (\<forall>blk \<in> ran d. length blk = BLOCK_SZ)"

definition read_block :: "disk \<Rightarrow> nat \<Rightarrow> block option" where
  "read_block dev block_id = dev block_id"

definition write_block :: "disk \<Rightarrow> nat \<Rightarrow> block \<Rightarrow> disk option" where
  "write_block dev block_id buf =
     (if block_id \<in> dom dev then Some (dev(block_id \<mapsto> buf)) else None)"

lemma wf_diskI [intro?]: "(\<And>b blk. d b = Some blk \<Longrightarrow> length blk = BLOCK_SZ) \<Longrightarrow> wf_disk d"
  by (auto simp: wf_disk_def ran_def)

lemma wf_diskD: "wf_disk d \<Longrightarrow> d b = Some blk \<Longrightarrow> length blk = BLOCK_SZ"
  by (auto simp: wf_disk_def ran_def)

lemma wf_disk_upd [simp]: "wf_disk d \<Longrightarrow> length blk = BLOCK_SZ \<Longrightarrow> wf_disk (d(b \<mapsto> blk))"
  by (auto simp: wf_disk_def ran_def)

lemma wf_disk_del [simp]: "wf_disk d \<Longrightarrow> wf_disk (d(b := None))"
  by (auto simp: wf_disk_def ran_def)

section \<open>One cached block\<close>

record BlockCache =
  cache :: bytes
  block_id :: nat
  modified :: bool

definition BlockCache_new :: "nat \<Rightarrow> disk \<Rightarrow> BlockCache option" where
  "BlockCache_new bid dev = do {
     buf \<leftarrow> read_block dev bid;
     Some \<lparr>cache = buf, block_id = bid, modified = False\<rparr> }"

definition get_ref :: "BlockCache \<Rightarrow> nat \<Rightarrow> nat \<Rightarrow> bytes option" where
  \<comment> \<open>the bytes of a value of \<open>type_size\<close> bytes at \<open>offset\<close>\<close>
  "get_ref c type_size offset = do {
     ensure (offset + type_size \<le> BLOCK_SZ);
     Some (slice offset type_size (cache c)) }"

definition get_mut :: "BlockCache \<Rightarrow> nat \<Rightarrow> nat \<Rightarrow> (bytes \<times> BlockCache) option" where
  "get_mut c type_size offset = do {
     ensure (offset + type_size \<le> BLOCK_SZ);
     Some (slice offset type_size (cache c), c\<lparr>modified := True\<rparr>) }"

definition sync :: "BlockCache \<Rightarrow> disk \<Rightarrow> (BlockCache \<times> disk) option" where
  "sync c dev =
     (if modified c then do {
        dev' \<leftarrow> write_block dev (block_id c) (cache c);
        Some (c\<lparr>modified := False\<rparr>, dev') }
      else Some (c, dev))"

definition read :: "BlockCache \<Rightarrow> nat \<Rightarrow> nat \<Rightarrow> (bytes \<Rightarrow> 'v option) \<Rightarrow> 'v option" where
  "read c type_size offset f = do { v \<leftarrow> get_ref c type_size offset; f v }"

definition modify :: "BlockCache \<Rightarrow> nat \<Rightarrow> nat \<Rightarrow> (bytes \<Rightarrow> ('v \<times> bytes) option) \<Rightarrow> ('v \<times> BlockCache) option" where
  "modify c type_size offset f = do {
     (v, c') \<leftarrow> get_mut c type_size offset;
     (r, v') \<leftarrow> f v;
     Some (r, c'\<lparr>cache := splice offset v' (cache c')\<rparr>) }"

definition BlockCache_drop :: "BlockCache \<Rightarrow> disk \<Rightarrow> disk option" where
  "BlockCache_drop c dev = do { (c', dev') \<leftarrow> sync c dev; Some dev' }"

section \<open>The cache manager\<close>

definition BLOCK_CACHE_SIZE :: nat where
  "BLOCK_CACHE_SIZE = 16"

record BlockCacheManager =
  device :: disk
  queue :: "(nat \<times> BlockCache) list"
  held :: "nat list"

definition BlockCacheManager_new :: "disk \<Rightarrow> BlockCacheManager" where
  "BlockCacheManager_new dev = \<lparr>device = dev, queue = [], held = []\<rparr>"

definition strong_count :: "BlockCacheManager \<Rightarrow> nat \<Rightarrow> nat" where
  "strong_count m bid = 1 + count_list (held m) bid"

fun drain_first :: "('a \<Rightarrow> bool) \<Rightarrow> 'a list \<Rightarrow> ('a \<times> 'a list) option" where
  \<comment> \<open>\<open>iter().enumerate().find(p)\<close> followed by \<open>drain(idx..=idx)\<close>\<close>
  "drain_first p [] = None"
| "drain_first p (x # xs) =
     (if p x then Some (x, xs)
      else do { (y, ys) \<leftarrow> drain_first p xs; Some (y, x # ys) })"

definition evict :: "BlockCacheManager \<Rightarrow> BlockCacheManager option" where
  "evict m = do {
     (victim, rest) \<leftarrow> drain_first (\<lambda>(i, _). strong_count m i = 1) (queue m);
     dev' \<leftarrow> BlockCache_drop (snd victim) (device m);
     Some (m\<lparr>queue := rest, device := dev'\<rparr>) }"

definition get_block_cache :: "nat \<Rightarrow> BlockCacheManager \<Rightarrow> BlockCacheManager option" where
  "get_block_cache bid m =
     (case map_of (queue m) bid of
        Some _ \<Rightarrow> Some (m\<lparr>held := bid # held m\<rparr>)
      | None \<Rightarrow> do {
          m' \<leftarrow> (if length (queue m) = BLOCK_CACHE_SIZE then evict m else Some m);
          c \<leftarrow> BlockCache_new bid (device m');
          Some (m'\<lparr>queue := queue m' @ [(bid, c)], held := bid # held m'\<rparr>) })"

fun sync_queue :: "(nat \<times> BlockCache) list \<Rightarrow> disk \<Rightarrow> ((nat \<times> BlockCache) list \<times> disk) option" where
  "sync_queue [] dev = Some ([], dev)"
| "sync_queue ((i, c) # q) dev = do {
     (c', dev') \<leftarrow> sync c dev;
     (q', dev'') \<leftarrow> sync_queue q dev';
     Some ((i, c') # q', dev'') }"

definition block_cache_sync_all :: "BlockCacheManager \<Rightarrow> BlockCacheManager option" where
  "block_cache_sync_all m = do {
     ensure (held m = []);
     (q, dev) \<leftarrow> sync_queue (queue m) (device m);
     Some (m\<lparr>queue := q, device := dev\<rparr>) }"

text \<open>
  \<open>get_block_cache(..).lock()\<close>: the caller gets the block, and spins for ever when it is
  locked already. \<open>store_block\<close> is what a \<open>modify\<close> closure leaves in the locked entry, and
  \<open>unlock_block\<close> the drop of guard and \<open>Arc\<close> at the end of the statement.
\<close>

definition lock_block :: "nat \<Rightarrow> BlockCacheManager \<Rightarrow> (block \<times> BlockCacheManager) option" where
  "lock_block bid m = do {
     ensure (bid \<notin> set (held m));
     m' \<leftarrow> get_block_cache bid m;
     c \<leftarrow> map_of (queue m') bid;
     Some (cache c, m') }"

definition store_block :: "nat \<Rightarrow> block \<Rightarrow> BlockCacheManager \<Rightarrow> BlockCacheManager" where
  "store_block bid blk m =
     m\<lparr>queue := AList.update bid \<lparr>cache = blk, block_id = bid, modified = True\<rparr> (queue m)\<rparr>"

definition unlock_block :: "nat \<Rightarrow> BlockCacheManager \<Rightarrow> BlockCacheManager" where
  "unlock_block bid m = m\<lparr>held := remove1 bid (held m)\<rparr>"

section \<open>Invariant and abstraction\<close>

definition entry_ok :: "disk \<Rightarrow> nat \<times> BlockCache \<Rightarrow> bool" where
  "entry_ok dev e \<longleftrightarrow>
     block_id (snd e) = fst e \<and> fst e \<in> dom dev \<and> length (cache (snd e)) = BLOCK_SZ \<and>
     (\<not> modified (snd e) \<longrightarrow> dev (fst e) = Some (cache (snd e)))"

definition cache_inv :: "BlockCacheManager \<Rightarrow> bool" where
  "cache_inv m \<longleftrightarrow>
     wf_disk (device m) \<and> distinct (map fst (queue m)) \<and>
     length (queue m) \<le> BLOCK_CACHE_SIZE \<and> (\<forall>e \<in> set (queue m). entry_ok (device m) e) \<and>
     distinct (held m) \<and> set (held m) \<subseteq> fst ` set (queue m)"

definition view :: "BlockCacheManager \<Rightarrow> disk" where
  \<comment> \<open>the contents of every block as the file system sees it\<close>
  "view m = (\<lambda>b. case map_of (queue m) b of Some c \<Rightarrow> Some (cache c) | None \<Rightarrow> device m b)"

lemma cache_invD:
  assumes "cache_inv m"
  shows "wf_disk (device m)" and "distinct (map fst (queue m))"
    and "length (queue m) \<le> BLOCK_CACHE_SIZE"
    and "\<And>e. e \<in> set (queue m) \<Longrightarrow> entry_ok (device m) e"
    and "distinct (held m)" and "set (held m) \<subseteq> fst ` set (queue m)"
  using assms by (auto simp: cache_inv_def)

lemma view_held [simp]: "view (m\<lparr>held := h\<rparr>) = view m"
  by (auto simp: view_def fun_eq_iff split: option.splits)

lemma cache_inv_new: "wf_disk dev \<Longrightarrow> cache_inv (BlockCacheManager_new dev)"
  by (simp add: cache_inv_def BlockCacheManager_new_def)

subsection \<open>Writing one entry back\<close>

lemma sync_entry:
  assumes "entry_ok dev (i, c)"
  shows "sync c dev = Some (c\<lparr>modified := False\<rparr>, dev(i \<mapsto> cache c))"
proof (cases "modified c")
  case True
  with assms show ?thesis
    by (auto simp: sync_def write_block_def entry_ok_def)
next
  case False
  then have "c\<lparr>modified := False\<rparr> = c"
    by (cases c) simp
  with assms False show ?thesis
    by (auto simp: sync_def entry_ok_def fun_upd_idem)
qed

lemma BlockCache_drop_entry:
  "entry_ok dev (i, c) \<Longrightarrow> BlockCache_drop c dev = Some (dev(i \<mapsto> cache c))"
  by (simp add: BlockCache_drop_def sync_entry)

lemma entry_ok_other:
  "entry_ok dev e \<Longrightarrow> fst e \<noteq> i \<Longrightarrow> entry_ok (dev(i \<mapsto> blk)) e"
  by (auto simp: entry_ok_def)

subsection \<open>Eviction\<close>

lemma drain_first_Some:
  "drain_first p xs = Some (y, ys) \<Longrightarrow> \<exists>us vs. xs = us @ y # vs \<and> ys = us @ vs \<and> p y"
proof (induction xs arbitrary: ys)
  case Nil
  then show ?case by simp
next
  case (Cons x xs)
  show ?case
  proof (cases "p x")
    case True
    with Cons.prems show ?thesis by (auto intro: exI [of _ "[]"])
  next
    case False
    with Cons.prems obtain zs where zs: "drain_first p xs = Some (y, zs)" "ys = x # zs"
      by auto
    from Cons.IH [OF zs(1)] obtain us vs where "xs = us @ y # vs" "zs = us @ vs" "p y"
      by blast
    with zs(2) show ?thesis by (auto intro: exI [of _ "x # us"])
  qed
qed

lemma drain_first_exists: "\<exists>x \<in> set xs. p x \<Longrightarrow> \<exists>y ys. drain_first p xs = Some (y, ys)"
  by (induction xs) fastforce+

lemma evict_keeps:
  assumes inv: "cache_inv m" and ev: "evict m = Some m'"
  shows "cache_inv m' \<and> view m' = view m \<and> held m' = held m \<and>
    Suc (length (queue m')) = length (queue m)"
proof -
  from ev obtain i c rest dev' where
      dr: "drain_first (\<lambda>(i, _). strong_count m i = 1) (queue m) = Some ((i, c), rest)"
    and dev': "BlockCache_drop c (device m) = Some dev'"
    and m': "m' = m\<lparr>queue := rest, device := dev'\<rparr>"
    by (auto simp: evict_def)
  from drain_first_Some [OF dr] obtain us vs where q: "queue m = us @ (i, c) # vs"
    and rest: "rest = us @ vs" and cnt: "strong_count m i = 1"
    by auto
  note invD = cache_invD [OF inv]
  have ok: "entry_ok (device m) (i, c)"
    using invD(4) q by simp
  have dev': "dev' = (device m)(i \<mapsto> cache c)"
    using dev' BlockCache_drop_entry [OF ok] by simp
  have lc: "length (cache c) = BLOCK_SZ"
    using ok by (simp add: entry_ok_def)
  have nh: "i \<notin> set (held m)"
    using cnt by (simp add: strong_count_def count_list_0_iff)
  have other: "\<forall>e \<in> set us \<union> set vs. fst e \<noteq> i"
    using invD(2) q by auto
  have "cache_inv m'"
    using invD q other nh lc
    by (auto simp: cache_inv_def m' rest dev' intro!: entry_ok_other)
  moreover have "map_of us i = None" and "map_of vs i = None"
    using other by (auto simp: map_of_eq_None_iff)
  then have "view m' = view m"
    by (auto simp: view_def m' rest dev' q fun_eq_iff map_add_def split: option.splits)
  ultimately show ?thesis
    by (simp add: m' rest q)
qed

lemma evict_total:
  assumes inv: "cache_inv m" and room: "length (held m) < length (queue m)"
  shows "\<exists>m'. evict m = Some m'"
proof -
  note invD = cache_invD [OF inv]
  have "card (set (held m)) < card (fst ` set (queue m))"
    using room invD(2,5) by (simp add: distinct_card card_image distinct_map)
  then have "\<not> fst ` set (queue m) \<subseteq> set (held m)"
    using card_mono [of "set (held m)" "fst ` set (queue m)"] by auto
  then have "\<exists>e \<in> set (queue m). (\<lambda>(i, _). strong_count m i = 1) e"
    by (auto simp: strong_count_def count_list_0_iff)
  from drain_first_exists [OF this] obtain i c rest where
      dr: "drain_first (\<lambda>(i, _). strong_count m i = 1) (queue m) = Some ((i, c), rest)"
    by (metis surj_pair)
  have "entry_ok (device m) (i, c)"
    using drain_first_Some [OF dr] invD(4) by auto
  with dr show ?thesis
    by (simp add: evict_def BlockCache_drop_entry)
qed

subsection \<open>Fetching, locking and releasing a block\<close>

lemma get_block_cache_keeps:
  assumes inv: "cache_inv m" and get: "get_block_cache bid m = Some m'"
    and free: "bid \<notin> set (held m)"
  shows "cache_inv m' \<and> view m' = view m \<and> held m' = bid # held m \<and>
    (\<exists>c. map_of (queue m') bid = Some c)"
proof (cases "map_of (queue m) bid")
  case (Some c)
  with get have m': "m' = m\<lparr>held := bid # held m\<rparr>"
    by (simp add: get_block_cache_def)
  have "bid \<in> fst ` set (queue m)"
    using map_of_SomeD [OF Some] by (metis fst_conv imageI)
  with inv Some free show ?thesis
    by (simp add: m' cache_inv_def)
next
  case None
  with get obtain m1 c where
      m1: "(if length (queue m) = BLOCK_CACHE_SIZE then evict m else Some m) = Some m1"
    and c: "BlockCache_new bid (device m1) = Some c"
    and m': "m' = m1\<lparr>queue := queue m1 @ [(bid, c)], held := bid # held m1\<rparr>"
    by (auto simp: get_block_cache_def)
  have m1_keeps: "cache_inv m1 \<and> view m1 = view m \<and> held m1 = held m \<and>
      length (queue m1) < BLOCK_CACHE_SIZE"
    using m1 evict_keeps [OF inv, of m1] inv
    by (auto simp: cache_inv_def split: if_splits)
  then have nin: "bid \<notin> fst ` set (queue m1)"
  proof -
    have "set (queue m1) \<subseteq> set (queue m)"
      using m1 by (auto simp: evict_def split: if_splits dest!: drain_first_Some)
    then show ?thesis
      using None by (auto simp: map_of_eq_None_iff)
  qed
  note invD = cache_invD [OF m1_keeps [THEN conjunct1]]
  have new: "entry_ok (device m1) (bid, c)" and dc: "device m1 bid = Some (cache c)"
    using c invD(1) by (auto simp: BlockCache_new_def entry_ok_def read_block_def dest: wf_diskD)
  have "cache_inv m'"
    using m1_keeps nin new free by (auto simp: cache_inv_def m')
  moreover have none: "map_of (queue m1) bid = None"
    using nin by (simp add: map_of_eq_None_iff)
  then have "view m' = view m1"
    using dc by (auto simp: view_def m' fun_eq_iff map_add_def split: option.splits)
  moreover have "map_of (queue m') bid = Some c"
    using none by (simp add: m' map_add_def)
  ultimately show ?thesis
    using m1_keeps by (auto simp: m')
qed

lemma get_block_cache_total:
  assumes inv: "cache_inv m" and vw: "view m bid = Some blk"
    and room: "length (held m) < BLOCK_CACHE_SIZE"
  shows "\<exists>m'. get_block_cache bid m = Some m'"
proof (cases "map_of (queue m) bid")
  case (Some c)
  then show ?thesis by (simp add: get_block_cache_def)
next
  case None
  obtain m1 where
    m1: "(if length (queue m) = BLOCK_CACHE_SIZE then evict m else Some m) = Some m1"
    using evict_total [OF inv] room by (cases "length (queue m) = BLOCK_CACHE_SIZE") auto
  have "device m1 bid = Some blk"
  proof -
    have "view m1 = view m" and "set (queue m1) \<subseteq> set (queue m)"
      using m1 evict_keeps [OF inv, of m1]
      by (auto simp: evict_def split: if_splits dest!: drain_first_Some)
    moreover from this have "map_of (queue m1) bid = None"
      using None by (auto simp: map_of_eq_None_iff)
    then have "view m1 bid = device m1 bid"
      by (simp add: view_def)
    ultimately show ?thesis
      using vw by simp
  qed
  with None m1 show ?thesis
    by (auto simp: get_block_cache_def BlockCache_new_def read_block_def)
qed

lemma lock_block_keeps:
  assumes inv: "cache_inv m" and lk: "lock_block bid m = Some (blk, m')"
  shows "cache_inv m' \<and> bid \<notin> set (held m) \<and> view m bid = Some blk \<and>
    view m' = view m \<and> held m' = bid # held m"
proof -
  from lk obtain c where free: "bid \<notin> set (held m)" and get: "get_block_cache bid m = Some m'"
    and c: "map_of (queue m') bid = Some c" "blk = cache c"
    by (auto simp: lock_block_def split: if_splits)
  note k = get_block_cache_keeps [OF inv get free]
  have "view m' bid = Some blk"
    using c by (simp add: view_def)
  with k free show ?thesis
    by simp
qed

lemma lock_block_total:
  assumes inv: "cache_inv m" and free: "bid \<notin> set (held m)" and vw: "view m bid = Some blk"
    and room: "length (held m) < BLOCK_CACHE_SIZE"
  shows "\<exists>m'. lock_block bid m = Some (blk, m')"
proof -
  from get_block_cache_total [OF inv vw room] obtain m' where
    get: "get_block_cache bid m = Some m'" by blast
  with get_block_cache_keeps [OF inv get free] free obtain blk' where
    lk: "lock_block bid m = Some (blk', m')"
    by (auto simp: lock_block_def)
  moreover have "blk' = blk"
    using lock_block_keeps [OF inv lk] vw by simp
  ultimately show ?thesis by blast
qed

lemma store_block_keeps:
  assumes inv: "cache_inv m" and hd: "bid \<in> set (held m)" and len: "length blk = BLOCK_SZ"
  shows "cache_inv (store_block bid blk m) \<and>
    view (store_block bid blk m) = (view m)(bid \<mapsto> blk) \<and>
    held (store_block bid blk m) = held m"
proof -
  let ?c = "\<lparr>cache = blk, block_id = bid, modified = True\<rparr>"
  let ?q = "AList.update bid ?c (queue m)"
  note invD = cache_invD [OF inv]
  have key: "bid \<in> fst ` set (queue m)"
    using hd invD(6) by blast
  have new: "entry_ok (device m) (bid, ?c)"
    using key invD(4) len by (auto simp: entry_ok_def)
  have ids: "map fst ?q = map fst (queue m)"
    using key by (simp add: update_keys)
  have "\<forall>e \<in> set ?q. entry_ok (device m) e"
  proof
    fix e assume e: "e \<in> set ?q"
    then have "map_of ?q (fst e) = Some (snd e)"
      using ids invD(2) by (metis map_of_eq_Some_iff prod.collapse)
    then have "e \<in> set (queue m) \<or> e = (bid, ?c)"
      by (cases e) (auto simp: update_conv' split: if_splits dest: map_of_SomeD)
    then show "entry_ok (device m) e"
      using new invD(4) by blast
  qed
  moreover have "length ?q = length (queue m)" and "fst ` set ?q = fst ` set (queue m)"
    using ids by (metis length_map, metis list.set_map)
  ultimately show ?thesis
    using invD ids
    by (auto simp: store_block_def cache_inv_def view_def update_conv' fun_eq_iff
        split: option.split)
qed

lemma unlock_block_keeps:
  assumes inv: "cache_inv m"
  shows "cache_inv (unlock_block bid m) \<and> view (unlock_block bid m) = view m \<and>
    held (unlock_block bid m) = remove1 bid (held m)"
  using cache_invD [OF inv] notin_set_remove1 [of _ "held m" bid]
  by (auto simp: unlock_block_def cache_inv_def distinct_remove1)

subsection \<open>Writing everything back\<close>

lemma sync_queue_writes_back:
  assumes "\<forall>e \<in> set q. entry_ok dev e" and "distinct (map fst q)"
  shows "sync_queue q dev =
    Some (map (\<lambda>(i, c). (i, c\<lparr>modified := False\<rparr>)) q,
          (\<lambda>b. case map_of q b of Some c \<Rightarrow> Some (cache c) | None \<Rightarrow> dev b))"
  using assms
proof (induction q arbitrary: dev)
  case Nil
  then show ?case by simp
next
  case (Cons e q)
  obtain i c where e: "e = (i, c)" by (cases e)
  let ?dev = "dev(i \<mapsto> cache c)"
  have "\<forall>e \<in> set q. entry_ok ?dev e" and ni: "map_of q i = None"
    using Cons.prems by (auto simp: e map_of_eq_None_iff intro!: entry_ok_other)
  with Cons have "sync_queue q ?dev =
    Some (map (\<lambda>(i, c). (i, c\<lparr>modified := False\<rparr>)) q,
          (\<lambda>b. case map_of q b of Some c \<Rightarrow> Some (cache c) | None \<Rightarrow> ?dev b))"
    by simp
  moreover have "sync c dev = Some (c\<lparr>modified := False\<rparr>, ?dev)"
    using Cons.prems by (simp add: e sync_entry)
  ultimately show ?case
    using ni by (auto simp: e fun_eq_iff split: option.split)
qed

section \<open>The plain disk the rest of the file system is written over\<close>

text \<open>
  \<open>with_block b f\<close> is \<open>get_block_cache(b).lock().modify(..)\<close> on the plain disk: while the
  closure runs, block \<open>b\<close> is locked, so a nested access to it would spin for ever; on the
  plain disk the block is simply absent. \<open>peek_block\<close> is the same for \<open>read\<close>.
\<close>

definition with_block :: "nat \<Rightarrow> (block \<Rightarrow> disk \<Rightarrow> (('r \<times> block) \<times> disk) option) \<Rightarrow> disk \<Rightarrow> ('r \<times> disk) option" where
  "with_block b f d = do {
     blk \<leftarrow> d b;
     ((r, blk'), d') \<leftarrow> f blk (d(b := None));
     Some (r, d'(b \<mapsto> blk')) }"

definition peek_block :: "nat \<Rightarrow> (block \<Rightarrow> disk \<Rightarrow> 'r option) \<Rightarrow> disk \<Rightarrow> 'r option" where
  "peek_block b f d = do { blk \<leftarrow> d b; f blk (d(b := None)) }"

definition read_only :: "(disk \<Rightarrow> 'r option) \<Rightarrow> disk \<Rightarrow> ('r \<times> disk) option" where
  "read_only f d = map_option (\<lambda>r. (r, d)) (f d)"

lemma with_block_pure:
  "d b = Some blk \<Longrightarrow>
    with_block b (\<lambda>blk d. Some (g blk, d)) d = Some (fst (g blk), d(b \<mapsto> snd (g blk)))"
  by (simp add: with_block_def case_prod_unfold)

lemma read_only_Some: "read_only f d = Some (r, d') \<longleftrightarrow> f d = Some r \<and> d' = d"
  by (auto simp: read_only_def)

definition cache_with_block :: "nat \<Rightarrow> (block \<Rightarrow> BlockCacheManager \<Rightarrow> (('r \<times> block) \<times> BlockCacheManager) option)
    \<Rightarrow> BlockCacheManager \<Rightarrow> ('r \<times> BlockCacheManager) option" where
  "cache_with_block b f m = do {
     (blk, m1) \<leftarrow> lock_block b m;
     ((r, blk'), m2) \<leftarrow> f blk m1;
     Some (r, unlock_block b (store_block b blk' m2)) }"

definition cache_peek_block :: "nat \<Rightarrow> (block \<Rightarrow> BlockCacheManager \<Rightarrow> ('r \<times> BlockCacheManager) option)
    \<Rightarrow> BlockCacheManager \<Rightarrow> ('r \<times> BlockCacheManager) option" where
  "cache_peek_block b f m = do {
     (blk, m1) \<leftarrow> lock_block b m;
     (r, m2) \<leftarrow> f blk m1;
     Some (r, unlock_block b m2) }"

text \<open>
  \<open>store_sim invar held vw cap k F f\<close>: whenever the plain-disk computation \<open>f\<close> returns, the
  computation \<open>F\<close> on the concrete store returns the same value, provided at most \<open>cap - k\<close>
  blocks are locked; it keeps the invariant, the locked blocks and their contents, and its
  final state abstracts to the final disk of \<open>f\<close>.
\<close>

definition unheld :: "('s \<Rightarrow> nat list) \<Rightarrow> ('s \<Rightarrow> disk) \<Rightarrow> 's \<Rightarrow> disk" where
  "unheld hld vw s = (\<lambda>b. if b \<in> set (hld s) then None else vw s b)"

definition store_sim :: "('s \<Rightarrow> bool) \<Rightarrow> ('s \<Rightarrow> nat list) \<Rightarrow> ('s \<Rightarrow> disk) \<Rightarrow> nat \<Rightarrow> nat
    \<Rightarrow> ('s \<Rightarrow> ('r \<times> 's) option) \<Rightarrow> (disk \<Rightarrow> ('r \<times> disk) option) \<Rightarrow> bool" where
  "store_sim invar hld vw cap k F f \<longleftrightarrow>
     (\<forall>s r d'. invar s \<longrightarrow> length (hld s) + k \<le> cap \<longrightarrow> f (unheld hld vw s) = Some (r, d') \<longrightarrow>
        (\<exists>s'. F s = Some (r, s') \<and> invar s' \<and> hld s' = hld s \<and> unheld hld vw s' = d' \<and>
              (\<forall>b \<in> set (hld s). vw s' b = vw s b)))"

lemma store_simE:
  assumes "store_sim invar hld vw cap k F f" and "invar s" and "length (hld s) + k \<le> cap"
    and "f (unheld hld vw s) = Some (r, d')"
  obtains s' where "F s = Some (r, s')" and "invar s'" and "hld s' = hld s"
    and "unheld hld vw s' = d'" and "\<forall>b \<in> set (hld s). vw s' b = vw s b"
  using assms unfolding store_sim_def by blast

locale block_store =
  fixes lock :: "nat \<Rightarrow> 's \<Rightarrow> (block \<times> 's) option"
    and store :: "nat \<Rightarrow> block \<Rightarrow> 's \<Rightarrow> 's"
    and unlock :: "nat \<Rightarrow> 's \<Rightarrow> 's"
    and invar :: "'s \<Rightarrow> bool"
    and hld :: "'s \<Rightarrow> nat list"
    and vw :: "'s \<Rightarrow> disk"
    and cap :: nat
  assumes lock_keeps: "invar s \<Longrightarrow> lock b s = Some (blk, s') \<Longrightarrow>
      invar s' \<and> b \<notin> set (hld s) \<and> vw s b = Some blk \<and> vw s' = vw s \<and> hld s' = b # hld s"
    and lock_total: "invar s \<Longrightarrow> b \<notin> set (hld s) \<Longrightarrow> vw s b = Some blk \<Longrightarrow>
      length (hld s) < cap \<Longrightarrow> \<exists>s'. lock b s = Some (blk, s')"
    and store_keeps: "invar s \<Longrightarrow> b \<in> set (hld s) \<Longrightarrow> length blk = BLOCK_SZ \<Longrightarrow>
      invar (store b blk s) \<and> vw (store b blk s) = (vw s)(b \<mapsto> blk) \<and> hld (store b blk s) = hld s"
    and unlock_keeps: "invar s \<Longrightarrow>
      invar (unlock b s) \<and> vw (unlock b s) = vw s \<and> hld (unlock b s) = remove1 b (hld s)"
    and block_length: "invar s \<Longrightarrow> vw s b = Some blk \<Longrightarrow> length blk = BLOCK_SZ"
begin

lemma lock_abs:
  assumes "invar s" and "unheld hld vw s b = Some blk" and "length (hld s) < cap"
  obtains s' where "lock b s = Some (blk, s')" and "invar s'" and "hld s' = b # hld s"
    and "vw s' = vw s" and "unheld hld vw s' = (unheld hld vw s)(b := None)"
    and "b \<notin> set (hld s)" and "length blk = BLOCK_SZ"
proof -
  have free: "b \<notin> set (hld s)" and v: "vw s b = Some blk"
    using assms(2) by (auto simp: unheld_def split: if_splits)
  obtain s' where lk: "lock b s = Some (blk, s')"
    using lock_total [OF assms(1) free v assms(3)] by blast
  note k = lock_keeps [OF assms(1) lk]
  show ?thesis
    by (rule that [of s']) (use k lk free block_length [OF assms(1) v] in \<open>auto simp: unheld_def fun_eq_iff\<close>)
qed

lemma sim_return: "store_sim invar hld vw cap k (\<lambda>s. Some (r, s)) (\<lambda>d. Some (r, d))"
  by (simp add: store_sim_def)

lemma sim_bind:
  assumes "store_sim invar hld vw cap k F f" and "\<And>x. store_sim invar hld vw cap k (G x) (g x)"
  shows "store_sim invar hld vw cap k (\<lambda>s. F s \<bind> (\<lambda>(x, s'). G x s')) (\<lambda>d. f d \<bind> (\<lambda>(x, d'). g x d'))"
  unfolding store_sim_def
proof (intro allI impI)
  fix s r d'
  assume invar: "invar s" and room: "length (hld s) + k \<le> cap"
    and fg: "f (unheld hld vw s) \<bind> (\<lambda>(x, d'). g x d') = Some (r, d')"
  from fg obtain x d1 where f: "f (unheld hld vw s) = Some (x, d1)" and g: "g x d1 = Some (r, d')"
    by auto
  from store_simE [OF assms(1) invar room f] obtain s1 where
    s1: "F s = Some (x, s1)" "invar s1" "hld s1 = hld s"
      "unheld hld vw s1 = d1" "\<forall>b \<in> set (hld s). vw s1 b = vw s b" .
  obtain s2 where "G x s1 = Some (r, s2)" "invar s2"
      "hld s2 = hld s1" "unheld hld vw s2 = d'" "\<forall>b \<in> set (hld s1). vw s2 b = vw s1 b"
    using store_simE [OF assms(2) [of x] s1(2), of r d'] s1(3,4) room g by metis
  with s1 show "\<exists>s'. F s \<bind> (\<lambda>(x, s'). G x s') = Some (r, s') \<and> invar s' \<and> hld s' = hld s \<and>
      unheld hld vw s' = d' \<and> (\<forall>b \<in> set (hld s). vw s' b = vw s b)"
    by auto
qed

lemma sim_with_block:
  assumes sim: "\<And>blk. store_sim invar hld vw cap k (F blk) (f blk)"
    and len: "\<And>blk d r blk' d'. f blk d = Some ((r, blk'), d') \<Longrightarrow> length blk = BLOCK_SZ \<Longrightarrow>
      length blk' = BLOCK_SZ"
  shows "store_sim invar hld vw cap (Suc k)
    (\<lambda>s. do { (blk, s1) \<leftarrow> lock b s; ((r, blk'), s2) \<leftarrow> F blk s1; Some (r, unlock b (store b blk' s2)) })
    (with_block b f)"
  unfolding store_sim_def
proof (intro allI impI)
  fix s r d'
  assume invar: "invar s" and room: "length (hld s) + Suc k \<le> cap"
    and wb: "with_block b f (unheld hld vw s) = Some (r, d')"
  from wb obtain blk blk' d1 where blk: "unheld hld vw s b = Some blk"
    and f: "f blk ((unheld hld vw s)(b := None)) = Some ((r, blk'), d1)" and d': "d' = d1(b \<mapsto> blk')"
    by (auto simp: with_block_def)
  obtain s1 where s1: "lock b s = Some (blk, s1)" "invar s1" "hld s1 = b # hld s" "vw s1 = vw s"
      "unheld hld vw s1 = (unheld hld vw s)(b := None)" "b \<notin> set (hld s)" "length blk = BLOCK_SZ"
    using lock_abs [OF invar blk] room by auto
  have room1: "length (hld s1) + k \<le> cap" and f1: "f blk (unheld hld vw s1) = Some ((r, blk'), d1)"
    using s1(3,5) room f by simp_all
  from store_simE [OF sim s1(2) room1 f1] obtain s2 where
    s2: "F blk s1 = Some ((r, blk'), s2)" "invar s2" "hld s2 = hld s1" "unheld hld vw s2 = d1"
      "\<forall>b \<in> set (hld s1). vw s2 b = vw s1 b" .
  let ?s3 = "store b blk' s2"
  have s3: "invar ?s3" "vw ?s3 = (vw s2)(b \<mapsto> blk')" "hld ?s3 = b # hld s"
    using store_keeps [OF s2(2), of b blk'] len [OF f] s1 s2(3) by auto
  have s4: "invar (unlock b ?s3)" "vw (unlock b ?s3) = vw ?s3" "hld (unlock b ?s3) = hld s"
    using unlock_keeps [OF s3(1), of b] s3(3) by auto
  have "unheld hld vw (unlock b ?s3) = d'"
    using s4(2,3) s3(2) s2(3) s1(3,6)
    by (auto simp: unheld_def d' fun_eq_iff s2(4) [symmetric])
  moreover have "\<forall>x \<in> set (hld s). vw (unlock b ?s3) x = vw s x"
    using s4 s3 s2(5) s1 by auto
  ultimately show "\<exists>s'. do { (blk, s1) \<leftarrow> lock b s; ((r, blk'), s2) \<leftarrow> F blk s1;
        Some (r, unlock b (store b blk' s2)) } = Some (r, s') \<and> invar s' \<and> hld s' = hld s \<and>
      unheld hld vw s' = d' \<and> (\<forall>b \<in> set (hld s). vw s' b = vw s b)"
    using s1(1) s2(1) s4 by auto
qed

lemma sim_peek_block:
  assumes sim: "\<And>blk. store_sim invar hld vw cap k (F blk) (read_only (f blk))"
  shows "store_sim invar hld vw cap (Suc k)
    (\<lambda>s. do { (blk, s1) \<leftarrow> lock b s; (r, s2) \<leftarrow> F blk s1; Some (r, unlock b s2) })
    (read_only (peek_block b f))"
  unfolding store_sim_def
proof (intro allI impI)
  fix s r d'
  assume invar: "invar s" and room: "length (hld s) + Suc k \<le> cap"
    and pb: "read_only (peek_block b f) (unheld hld vw s) = Some (r, d')"
  from pb have d': "d' = unheld hld vw s" and pb': "peek_block b f (unheld hld vw s) = Some r"
    by (simp_all add: read_only_Some)
  from pb' obtain blk where blk: "unheld hld vw s b = Some blk"
    and f: "f blk ((unheld hld vw s)(b := None)) = Some r"
    unfolding peek_block_def by blast
  obtain s1 where s1: "lock b s = Some (blk, s1)" "invar s1" "hld s1 = b # hld s" "vw s1 = vw s"
      "unheld hld vw s1 = (unheld hld vw s)(b := None)" "b \<notin> set (hld s)"
    using room by (auto intro: lock_abs [OF invar blk])
  have room1: "length (hld s1) + k \<le> cap"
    and f1: "read_only (f blk) (unheld hld vw s1) = Some (r, unheld hld vw s1)"
    using f s1(3,5) room by (simp_all add: read_only_def)
  from store_simE [OF sim s1(2) room1 f1] obtain s2 where
    s2: "F blk s1 = Some (r, s2)" "invar s2" "hld s2 = hld s1"
      "unheld hld vw s2 = unheld hld vw s1" "\<forall>b \<in> set (hld s1). vw s2 b = vw s1 b" .
  have s4: "invar (unlock b s2)" "vw (unlock b s2) = vw s2" "hld (unlock b s2) = hld s"
    using unlock_keeps [OF s2(2), of b] s2(3) s1(3) by auto
  have "unheld hld vw (unlock b s2) = d'"
  proof
    fix x
    have "vw s2 b = vw s b" and "unheld hld vw s2 x = unheld hld vw s1 x"
      using s2(4,5) s1(3,4) by simp_all
    then show "unheld hld vw (unlock b s2) x = d' x"
      using s4(2,3) s2(3) s1(3,4) by (cases "x = b") (auto simp: unheld_def d' split: if_splits)
  qed
  moreover have "\<forall>x \<in> set (hld s). vw (unlock b s2) x = vw s x"
    using s4 s2(5) s1 by auto
  ultimately show "\<exists>s'. do { (blk, s1) \<leftarrow> lock b s; (r, s2) \<leftarrow> F blk s1; Some (r, unlock b s2) } = Some (r, s') \<and>
      invar s' \<and> hld s' = hld s \<and> unheld hld vw s' = d' \<and> (\<forall>b \<in> set (hld s). vw s' b = vw s b)"
    using s1(1) s2(1) s4 by auto
qed

end

abbreviation cache_refines :: "nat \<Rightarrow> (BlockCacheManager \<Rightarrow> ('r \<times> BlockCacheManager) option)
    \<Rightarrow> (disk \<Rightarrow> ('r \<times> disk) option) \<Rightarrow> bool" where
  "cache_refines \<equiv> store_sim cache_inv held view BLOCK_CACHE_SIZE"

lemma view_block_length: "cache_inv m \<Longrightarrow> view m b = Some blk \<Longrightarrow> length blk = BLOCK_SZ"
  by (auto simp: view_def cache_inv_def entry_ok_def dest: wf_diskD dest!: map_of_SomeD
      split: option.splits)

interpretation bcm: block_store lock_block store_block unlock_block cache_inv held view BLOCK_CACHE_SIZE
  using lock_block_keeps lock_block_total store_block_keeps unlock_block_keeps view_block_length
  by unfold_locales blast+


lemma cache_peek_block_refines:
  assumes "\<And>blk. cache_refines k (F blk) (read_only (f blk))"
  shows "cache_refines (Suc k) (cache_peek_block b F) (read_only (peek_block b f))"
  using bcm.sim_peek_block [OF assms] by (simp add: cache_peek_block_def [abs_def])

section \<open>Properties\<close>

text \<open>
  C24. The block cache refines the plain disk: if a closure on the cached block refines the
  closure on the plain block, needing room for \<open>k\<close> more locked blocks, then locking the block
  through the cache manager, running the closure and storing its result refines the same section
  on the plain disk with room for \<open>k + 1\<close>. Loading, eviction and write-back never show.
\<close>

theorem cache_with_block_refines:
  assumes "\<And>blk. cache_refines k (F blk) (f blk)"
    and "\<And>blk d r blk' d'. f blk d = Some ((r, blk'), d') \<Longrightarrow> length blk = BLOCK_SZ \<Longrightarrow>
      length blk' = BLOCK_SZ"
  shows "cache_refines (Suc k) (cache_with_block b F) (with_block b f)"
  using bcm.sim_with_block [OF assms] by (simp add: cache_with_block_def [abs_def])

theorem cache_with_block_refines_witness:
  "cache_refines 1 (cache_with_block 3 (\<lambda>blk m. Some ((hd blk, map (\<lambda>_. 7) blk), m)))
    (with_block 3 (\<lambda>blk d. Some ((hd blk, map (\<lambda>_. 7) blk), d)))"
  using cache_with_block_refines
    [of 0 "\<lambda>blk m. Some ((hd blk, map (\<lambda>_. 7) blk), m)"
      "\<lambda>blk d. Some ((hd blk, map (\<lambda>_. 7) blk), d)" 3, OF bcm.sim_return]
  by auto

text \<open>
  Nothing is lost: a computation that refines a plain-disk computation returning \<open>d'\<close>, run
  on a fresh cache over a device and followed by \<open>block_cache_sync_all\<close>, returns, and leaves
  the device itself equal to \<open>d'\<close> with no entry marked modified.
\<close>

theorem sync_all_writes_everything_back:
  assumes "cache_refines k F f" and "k \<le> BLOCK_CACHE_SIZE" and "wf_disk dev"
    and "f dev = Some (r, d')"
  shows "\<exists>m m'. F (BlockCacheManager_new dev) = Some (r, m) \<and>
    block_cache_sync_all m = Some m' \<and> device m' = d' \<and> cache_inv m' \<and>
    (\<forall>e \<in> set (queue m'). \<not> modified (snd e))"
proof -
  let ?m0 = "BlockCacheManager_new dev"
  have m0: "cache_inv ?m0" "held ?m0 = []" "unheld held view ?m0 = dev"
    using cache_inv_new [OF assms(3)] by (simp_all add: unheld_def view_def BlockCacheManager_new_def)
  obtain m where m: "F ?m0 = Some (r, m)" "cache_inv m" "held m = []" "unheld held view m = d'"
    using store_simE [OF assms(1) m0(1), of r d'] m0 assms(2,4) by auto
  have d': "view m = d'"
    using m(3,4) by (simp add: unheld_def)
  note invD = cache_invD [OF m(2)]
  let ?q = "map (\<lambda>(i, c). (i, c\<lparr>modified := False\<rparr>)) (queue m)"
  have sy: "sync_queue (queue m) (device m) = Some (?q, d')"
    using sync_queue_writes_back [of "queue m" "device m"] invD(2,4) d'
    by (simp add: view_def)
  have vlen: "\<And>b blk. d' b = Some blk \<Longrightarrow> length blk = BLOCK_SZ"
    using view_block_length [OF m(2)] d' by simp
  have ents: "\<forall>e \<in> set (queue m). d' (fst e) = Some (cache (snd e))"
    using invD(2) by (auto simp: d' [symmetric] view_def)
  then have "\<forall>e \<in> set ?q. entry_ok d' e"
    using invD(4) vlen by (fastforce simp: entry_ok_def)
  moreover have "distinct (map fst ?q)"
    using invD(2) by (simp add: comp_def case_prod_unfold)
  ultimately have "cache_inv (m\<lparr>queue := ?q, device := d'\<rparr>)"
    using invD m(3) vlen by (auto simp: cache_inv_def intro!: wf_diskI)
  moreover have "block_cache_sync_all m = Some (m\<lparr>queue := ?q, device := d'\<rparr>)"
    using sy m(3) by (simp add: block_cache_sync_all_def)
  ultimately show ?thesis
    using m(1) by auto
qed

theorem sync_all_writes_everything_back_witness:
  "\<exists>m m'. cache_with_block 3 (\<lambda>blk m. Some ((hd blk, map (\<lambda>_. 7) blk), m))
      (BlockCacheManager_new [3 \<mapsto> replicate BLOCK_SZ 5]) = Some (5, m) \<and>
    block_cache_sync_all m = Some m' \<and> device m' = [3 \<mapsto> replicate BLOCK_SZ 7] \<and>
    cache_inv m' \<and> (\<forall>e \<in> set (queue m'). \<not> modified (snd e))"
proof -
  let ?f = "with_block 3 (\<lambda>blk d. Some ((hd blk, map (\<lambda>_. 7) blk), d)) :: disk \<Rightarrow> _"
  have sim: "cache_refines 1 (cache_with_block 3 (\<lambda>blk m. Some ((hd blk, map (\<lambda>_. 7) blk), m))) ?f"
    using bcm.sim_with_block [of 0 "\<lambda>blk m. Some ((hd blk, map (\<lambda>_. 7) blk), m)"
      "\<lambda>blk d. Some ((hd blk, map (\<lambda>_. 7) blk), d)" 3, OF bcm.sim_return]
    by (auto simp: cache_with_block_def [abs_def])
  have k: "(1::nat) \<le> BLOCK_CACHE_SIZE" by (simp add: BLOCK_CACHE_SIZE_def)
  have wf: "wf_disk [3 \<mapsto> replicate BLOCK_SZ (5 :: byte)]" by (simp add: wf_disk_def)
  have run: "?f [3 \<mapsto> replicate BLOCK_SZ 5] = Some (5, [3 \<mapsto> replicate BLOCK_SZ 7])"
    by (simp add: with_block_def map_replicate_const)
  show ?thesis
    using sync_all_writes_everything_back [OF sim k wf run] .
qed

end
