(* ===== verification/Allocator.thy ===== *)
theory Allocator
  imports Prelude
begin

text \<open>
  The contract that the identifier allocators of the system share: the frame allocator of the
  kernel (\<^verbatim>\<open>os/src/mm/frame_allocator.rs\<close>), the pid, kernel-stack and thread-id allocator
  (\<^verbatim>\<open>os/src/task/id.rs\<close>) and the inode and data bitmaps of easy-fs
  (\<^verbatim>\<open>easy-fs/src/bitmap.rs\<close>). Each of them is an interpretation of the locale; what clients
  need (several allocations in a row are fresh and pairwise different, giving an identifier back
  restores the allocator, a double free panics) is proved here once.
\<close>

fun alloc_many :: "('s \<Rightarrow> (nat \<times> 's) option) \<Rightarrow> nat \<Rightarrow> 's \<Rightarrow> (nat list \<times> 's) option" where
  \<comment> \<open>\<open>for _ in 0..n { v.push(alloc()) }\<close>\<close>
  "alloc_many alloc 0 s = Some ([], s)"
| "alloc_many alloc (Suc n) s = do {
     (i, s') \<leftarrow> alloc s;
     (is, s'') \<leftarrow> alloc_many alloc n s';
     Some (i # is, s'') }"

fun dealloc_many :: "(nat \<Rightarrow> 's \<Rightarrow> 's option) \<Rightarrow> nat list \<Rightarrow> 's \<Rightarrow> 's option" where
  \<comment> \<open>\<open>for i in v { dealloc(i) }\<close>\<close>
  "dealloc_many dealloc [] s = Some s"
| "dealloc_many dealloc (i # is) s = do { s' \<leftarrow> dealloc i s; dealloc_many dealloc is s' }"

lemma alloc_many_length: "alloc_many alloc n s = Some (is, s') \<Longrightarrow> length is = n"
  by (induction n arbitrary: s "is") auto

locale id_allocator =
  fixes alloc :: "'s \<Rightarrow> (nat \<times> 's) option"
    and dealloc :: "nat \<Rightarrow> 's \<Rightarrow> 's option"
    and used :: "'s \<Rightarrow> nat set"
    and pool :: "'s \<Rightarrow> nat set"
    and invar :: "'s \<Rightarrow> bool"
  assumes alloc_fresh: "invar s \<Longrightarrow> alloc s = Some (i, s') \<Longrightarrow>
      invar s' \<and> i \<in> pool s \<and> i \<notin> used s \<and> used s' = insert i (used s) \<and> pool s' = pool s"
    and alloc_full: "invar s \<Longrightarrow> alloc s = None \<Longrightarrow> pool s \<subseteq> used s"
    and dealloc_used: "invar s \<Longrightarrow> i \<in> used s \<Longrightarrow>
      \<exists>s'. dealloc i s = Some s' \<and> invar s' \<and> used s' = used s - {i} \<and> pool s' = pool s"
    and dealloc_unused: "invar s \<Longrightarrow> i \<in> pool s \<Longrightarrow> i \<notin> used s \<Longrightarrow> dealloc i s = None"
begin

lemma alloc_many_fresh:
  assumes "invar s" and "alloc_many alloc n s = Some (is, s')"
  shows "invar s' \<and> distinct is \<and> set is \<inter> used s = {} \<and> set is \<subseteq> pool s \<and>
    used s' = used s \<union> set is \<and> pool s' = pool s"
  using assms
proof (induction n arbitrary: s "is")
  case 0
  then show ?case by simp
next
  case (Suc n)
  then obtain i s1 is1 where i: "alloc s = Some (i, s1)"
    and rest: "alloc_many alloc n s1 = Some (is1, s')" and is_eq: "is = i # is1"
    by auto
  note a = alloc_fresh [OF Suc.prems(1) i]
  note b = Suc.IH [OF conjunct1 [OF a] rest]
  show ?case
    using a b by (auto simp: is_eq)
qed

lemma alloc_many_total:
  assumes "invar s" and "finite (pool s)" and "n + card (used s \<inter> pool s) \<le> card (pool s)"
  shows "\<exists>is s'. alloc_many alloc n s = Some (is, s')"
  using assms
proof (induction n arbitrary: s)
  case 0
  then show ?case by simp
next
  case (Suc n)
  have "\<not> pool s \<subseteq> used s"
    using Suc.prems by (auto simp: Int_absorb1)
  then obtain i s1 where i: "alloc s = Some (i, s1)"
    using alloc_full [OF Suc.prems(1)] by (cases "alloc s") auto
  note a = alloc_fresh [OF Suc.prems(1) i]
  have "insert i (used s) \<inter> pool s = insert i (used s \<inter> pool s)"
    using a by auto
  then have "n + card (used s1 \<inter> pool s1) \<le> card (pool s1)"
    using a Suc.prems(2,3) by simp
  with Suc.IH [of s1] a Suc.prems(2) i show ?case
    by auto
qed

lemma dealloc_many_used:
  assumes "invar s" and "distinct is" and "set is \<subseteq> used s"
  shows "\<exists>s'. dealloc_many dealloc is s = Some s' \<and> invar s' \<and> used s' = used s - set is \<and>
    pool s' = pool s"
  using assms
proof (induction "is" arbitrary: s)
  case Nil
  then show ?case by simp
next
  case (Cons i "is")
  then obtain s1 where s1: "dealloc i s = Some s1" "invar s1" "used s1 = used s - {i}" "pool s1 = pool s"
    using dealloc_used [of s i] by auto
  have "set is \<subseteq> used s1"
    using Cons.prems s1(3) by auto
  with Cons.IH [OF s1(2)] Cons.prems s1 show ?case
    by auto
qed

lemma alloc_then_dealloc_many:
  assumes "invar s" and "alloc_many alloc n s = Some (is, s')"
  shows "\<exists>s''. dealloc_many dealloc is s' = Some s'' \<and> invar s'' \<and> used s'' = used s \<and> pool s'' = pool s"
proof -
  note a = alloc_many_fresh [OF assms]
  have "used s' - set is = used s"
    using a by auto
  then show ?thesis
    using dealloc_many_used [of s' "is"] a by auto
qed

lemma double_dealloc:
  assumes "invar s" and "used s \<subseteq> pool s" and "dealloc i s = Some s'" and "i \<in> used s"
  shows "dealloc i s' = None"
  using dealloc_used [OF assms(1,4)] assms dealloc_unused [of s' i] by auto

end

end
