(* ===== verification/Bitmap.thy ===== *)
theory Bitmap
  imports BlockCache Allocator
begin

text \<open>
  The allocation bitmaps of easy-fs (\<^verbatim>\<open>easy-fs/src/bitmap.rs\<close>): a run of blocks on the disk,
  each read as 64 words of 64 bits. \<open>Bitmap_alloc\<close> finds the first word that is not all ones
  and sets its lowest clear bit; \<open>Bitmap_dealloc\<close> clears a bit and panics when it is clear
  already. The bits form a set (\<open>bitmap_used\<close>), and on it the two are an identifier
  allocator in the sense of the locale of theory \<open>Allocator\<close>.
\<close>

section \<open>Words of a bitmap block\<close>

definition get_u64 :: "block \<Rightarrow> nat \<Rightarrow> 64 word" where
  "get_u64 blk i = of_nat (le_nat (slice (8 * i) 8 blk))"

definition set_u64 :: "nat \<Rightarrow> 64 word \<Rightarrow> block \<Rightarrow> block" where
  "set_u64 i w blk = splice (8 * i) (le_bytes 8 (unat w)) blk"

definition u64_MAX :: "64 word" where
  "u64_MAX = - 1"

definition trailing_ones :: "64 word \<Rightarrow> nat" where
  "trailing_ones w = length (takeWhile (bit w) [0..<64])"

section \<open>The bitmap\<close>

definition BLOCK_BITS :: nat where
  "BLOCK_BITS = BLOCK_SZ * 8"

record Bitmap =
  start_block_id :: nat
  blocks :: nat

definition Bitmap_new :: "nat \<Rightarrow> nat \<Rightarrow> Bitmap" where
  "Bitmap_new s b = \<lparr>start_block_id = s, blocks = b\<rparr>"

definition alloc_in_block :: "block \<Rightarrow> nat option \<times> block" where
  "alloc_in_block bitmap_block =
     (case find (\<lambda>i. get_u64 bitmap_block i \<noteq> u64_MAX) [0..<64] of
        Some bits64_pos \<Rightarrow>
          (let bits64 = get_u64 bitmap_block bits64_pos;
               inner_pos = trailing_ones bits64
           in (Some (bits64_pos * 64 + inner_pos),
               set_u64 bits64_pos (bits64 OR push_bit inner_pos 1) bitmap_block))
      | None \<Rightarrow> (None, bitmap_block))"

fun alloc_from :: "Bitmap \<Rightarrow> nat list \<Rightarrow> disk \<Rightarrow> (nat option \<times> disk) option" where
  "alloc_from bm [] d = Some (None, d)"
| "alloc_from bm (idx # idxs) d = do {
     (pos, d') \<leftarrow> with_block (idx + start_block_id bm) (\<lambda>blk d. Some (alloc_in_block blk, d)) d;
     (case pos of
        Some p \<Rightarrow> Some (Some (idx * BLOCK_BITS + p), d')
      | None \<Rightarrow> alloc_from bm idxs d') }"

definition Bitmap_alloc :: "Bitmap \<Rightarrow> disk \<Rightarrow> (nat option \<times> disk) option" where
  "Bitmap_alloc bm d = alloc_from bm [0..<blocks bm] d"

definition decompsition :: "nat \<Rightarrow> nat \<times> nat \<times> nat" where
  "decompsition b =
     (let block_pos = b div BLOCK_BITS; b' = b mod BLOCK_BITS
      in (block_pos, b' div 64, b' mod 64))"

definition Bitmap_dealloc :: "Bitmap \<Rightarrow> nat \<Rightarrow> disk \<Rightarrow> disk option" where
  "Bitmap_dealloc bm b d =
     (let (block_pos, bits64_pos, inner_pos) = decompsition b in do {
        (_, d') \<leftarrow> with_block (block_pos + start_block_id bm)
          (\<lambda>blk d. do {
             ensure (get_u64 blk bits64_pos AND push_bit inner_pos 1 > 0);
             Some (((), set_u64 bits64_pos (get_u64 blk bits64_pos AND NOT (push_bit inner_pos 1)) blk), d) })
          d;
        Some d' })"

definition maxmium :: "Bitmap \<Rightarrow> nat" where
  "maxmium bm = blocks bm * BLOCK_BITS"

section \<open>Bits of a block\<close>

lemma slice_set_u64:
  assumes "length blk = BLOCK_SZ" and "i < 64" and "j < 64"
  shows "slice (8 * j) 8 (set_u64 i w blk) =
    (if i = j then le_bytes 8 (unat w) else slice (8 * j) 8 blk)"
  using assms by (auto simp: set_u64_def BLOCK_SZ_def intro!: slice_simps)

lemma get_set_u64:
  assumes "length blk = BLOCK_SZ" and "i < 64" and "j < 64"
  shows "get_u64 (set_u64 i w blk) j = (if i = j then w else get_u64 blk j)"
proof -
  have "unat w < 2 ^ LENGTH(64)"
    by (rule unsigned_less)
  then have "unat w mod 256 ^ 8 = unat w"
    by simp
  then show ?thesis
    using slice_set_u64 [OF assms] by (simp add: get_u64_def le_nat_le_bytes)
qed

lemma length_set_u64 [simp]:
  "length blk = BLOCK_SZ \<Longrightarrow> i < 64 \<Longrightarrow> length (set_u64 i w blk) = BLOCK_SZ"
  by (simp add: set_u64_def BLOCK_SZ_def)

definition block_bit :: "block \<Rightarrow> nat \<Rightarrow> bool" where
  "block_bit blk j \<longleftrightarrow> bit (get_u64 blk (j div 64)) (j mod 64)"

lemma block_bit_set:
  assumes "length blk = BLOCK_SZ" and "j < BLOCK_BITS" and "k < BLOCK_BITS"
  shows "block_bit (set_u64 (k div 64) w blk) j =
    (if j div 64 = k div 64 then bit w (j mod 64) else block_bit blk j)"
  using assms by (auto simp: block_bit_def get_set_u64 BLOCK_BITS_def BLOCK_SZ_def)

lemma not_all_ones:
  assumes "w \<noteq> u64_MAX"
  shows "trailing_ones w < 64 \<and> \<not> bit w (trailing_ones w) \<and> (\<forall>j < trailing_ones w. bit w j)"
proof -
  let ?t = "takeWhile (bit w) [0..<64]"
  obtain j where j: "j < 64" "\<not> bit w j"
    using assms by (auto simp: u64_MAX_def bit_eq_iff)
  have "length ?t < 64"
  proof (rule ccontr)
    assume "\<not> length ?t < 64"
    then have "?t = [0..<64]"
      using length_takeWhile_le [of "bit w" "[0..<64]"]
      by (metis diff_zero le_neq_implies_less length_upt takeWhile_eq_take take_all order_refl)
    then have "\<forall>x \<in> set [0..<64]. bit w x"
      by (metis set_takeWhileD)
    with j show False by auto
  qed
  moreover from this have "\<not> bit w ([0..<64] ! length ?t)"
    by (intro nth_length_takeWhile) simp
  moreover have "\<forall>j < length ?t. bit w j"
  proof (intro allI impI)
    fix j assume j: "j < length ?t"
    then have "?t ! j = j"
      using \<open>length ?t < 64\<close> by (simp add: takeWhile_nth)
    with nth_mem [OF j] show "bit w j"
      by (metis set_takeWhileD)
  qed
  ultimately show ?thesis
    by (simp add: trailing_ones_def)
qed


lemma push_bit_one_gt: "(0 :: 64 word) < w AND 2 ^ n \<longleftrightarrow> bit w n"
  by (simp add: word_neq_0_conv [symmetric] and_exp_eq_0_iff_not_bit)

lemma alloc_in_block_None:
  assumes "fst (alloc_in_block blk) = None"
  shows "snd (alloc_in_block blk) = blk \<and> (\<forall>j < BLOCK_BITS. block_bit blk j)"
proof -
  from assms have none: "find (\<lambda>i. get_u64 blk i \<noteq> u64_MAX) [0..<64] = None"
    by (auto simp: alloc_in_block_def Let_def split: option.splits)
  then have "\<forall>i < 64. get_u64 blk i = - 1"
    by (auto simp: find_None_iff u64_MAX_def)
  then have "\<forall>j < BLOCK_BITS. block_bit blk j"
    by (auto simp: block_bit_def BLOCK_BITS_def BLOCK_SZ_def)
  with none show ?thesis
    by (simp add: alloc_in_block_def)
qed

lemma alloc_in_block_Some:
  assumes "length blk = BLOCK_SZ" and "alloc_in_block blk = (Some p, blk')"
  shows "p < BLOCK_BITS \<and> \<not> block_bit blk p \<and> (\<forall>j < p. block_bit blk j) \<and>
    length blk' = BLOCK_SZ \<and> (\<forall>j < BLOCK_BITS. block_bit blk' j \<longleftrightarrow> j = p \<or> block_bit blk j)"
proof -
  from assms(2) obtain i where i: "find (\<lambda>i. get_u64 blk i \<noteq> u64_MAX) [0..<64] = Some i"
    by (auto simp: alloc_in_block_def split: option.splits)
  from i have i64: "i < 64" and ne: "get_u64 blk i \<noteq> u64_MAX"
    and bef: "\<forall>k < i. get_u64 blk k = - 1"
    by (auto simp: find_Some_iff u64_MAX_def)
  let ?w = "get_u64 blk i"
  let ?t = "trailing_ones ?w"
  note t = not_all_ones [OF ne]
  have p: "p = i * 64 + ?t" and blk': "blk' = set_u64 i (?w OR push_bit ?t 1) blk"
    using assms(2) i by (auto simp: alloc_in_block_def Let_def)
  have pd: "p div 64 = i" "p mod 64 = ?t"
    using t by (simp_all add: p)
  have pb: "p < BLOCK_BITS"
    using t i64 by (simp add: p BLOCK_BITS_def BLOCK_SZ_def)
  have "\<forall>j < p. block_bit blk j"
  proof (intro allI impI)
    fix j assume j: "j < p"
    show "block_bit blk j"
    proof (cases "j div 64 < i")
      case True
      then show ?thesis using bef by (simp add: block_bit_def)
    next
      case False
      then have "j div 64 = i" and "j mod 64 < ?t"
        using block_position [of i 64 j ?t] j t by (auto simp: p div_less_iff_less_mult)
      then show ?thesis using t by (simp add: block_bit_def)
    qed
  qed
  moreover have "\<forall>j < BLOCK_BITS. block_bit blk' j \<longleftrightarrow> j = p \<or> block_bit blk j"
  proof (intro allI impI)
    fix j assume j: "j < BLOCK_BITS"
    have "block_bit blk' j = (if j div 64 = i then bit (?w OR push_bit ?t 1) (j mod 64) else block_bit blk j)"
      using block_bit_set [OF assms(1) j pb] pd by (simp add: blk')
    moreover have "j = p \<longleftrightarrow> j div 64 = i \<and> j mod 64 = ?t"
      using pd by (metis div_mult_mod_eq)
    ultimately show "block_bit blk' j \<longleftrightarrow> j = p \<or> block_bit blk j"
      using t by (auto simp: block_bit_def bit_simps)
  qed
  ultimately show ?thesis
    using pb pd t i64 assms(1) by (simp add: blk' block_bit_def)
qed

section \<open>The bitmap as a set\<close>

definition wf_bitmap :: "Bitmap \<Rightarrow> disk \<Rightarrow> bool" where
  "wf_bitmap bm d \<longleftrightarrow>
     (\<forall>idx < blocks bm. \<exists>blk. d (idx + start_block_id bm) = Some blk \<and> length blk = BLOCK_SZ)"

definition bitmap_bit :: "Bitmap \<Rightarrow> disk \<Rightarrow> nat \<Rightarrow> bool" where
  "bitmap_bit bm d i \<longleftrightarrow> i < maxmium bm \<and>
     (case d (i div BLOCK_BITS + start_block_id bm) of
        Some blk \<Rightarrow> block_bit blk (i mod BLOCK_BITS) | None \<Rightarrow> False)"

definition bitmap_used :: "Bitmap \<Rightarrow> disk \<Rightarrow> nat set" where
  "bitmap_used bm d = {i. bitmap_bit bm d i}"

definition bitmap_area :: "Bitmap \<Rightarrow> nat set" where
  "bitmap_area bm = {start_block_id bm ..< start_block_id bm + blocks bm}"

lemma BLOCK_BITS_pos [simp]: "0 < BLOCK_BITS"
  by (simp add: BLOCK_BITS_def)

lemma wf_bitmapD:
  "wf_bitmap bm d \<Longrightarrow> idx < blocks bm \<Longrightarrow>
     \<exists>blk. d (idx + start_block_id bm) = Some blk \<and> length blk = BLOCK_SZ"
  by (simp add: wf_bitmap_def)

lemma wf_bitmap_upd:
  "wf_bitmap bm d \<Longrightarrow> length blk = BLOCK_SZ \<Longrightarrow> wf_bitmap bm (d(b \<mapsto> blk))"
  by (auto simp: wf_bitmap_def)

lemma maxmium_div: "i < maxmium bm \<longleftrightarrow> i div BLOCK_BITS < blocks bm"
  by (simp add: maxmium_def div_less_iff_less_mult)

lemma bitmap_bit_upd:
  assumes "idx < blocks bm"
  shows "bitmap_bit bm (d(idx + start_block_id bm \<mapsto> blk)) i \<longleftrightarrow>
    i < maxmium bm \<and> (if i div BLOCK_BITS = idx then block_bit blk (i mod BLOCK_BITS)
                      else bitmap_bit bm d i)"
  using assms by (auto simp: bitmap_bit_def)

text \<open>Changing one block of the bitmap adds or removes the bits it changes.\<close>

lemma bitmap_used_upd:
  assumes "idx < blocks bm" and "d (idx + start_block_id bm) = Some blk" and "p < BLOCK_BITS"
    and "\<forall>j < BLOCK_BITS. j \<noteq> p \<longrightarrow> block_bit blk' j = block_bit blk j"
  shows "bitmap_used bm (d(idx + start_block_id bm \<mapsto> blk')) =
    (if block_bit blk' p then insert (idx * BLOCK_BITS + p) (bitmap_used bm d)
     else bitmap_used bm d - {idx * BLOCK_BITS + p})"
proof -
  have pos: "i = idx * BLOCK_BITS + p \<longleftrightarrow> i div BLOCK_BITS = idx \<and> i mod BLOCK_BITS = p" for i
    using assms(3) by (metis div_mult_mod_eq div_mult_self3 add.commute add_cancel_right_left div_less
        mod_less mod_mult_self1 BLOCK_BITS_pos gr_implies_not0)
  have mx: "idx * BLOCK_BITS + p < maxmium bm"
    using assms(1,3) pos by (simp add: maxmium_div)
  have "bitmap_bit bm (d(idx + start_block_id bm \<mapsto> blk')) i \<longleftrightarrow>
      (if i = idx * BLOCK_BITS + p then block_bit blk' p else bitmap_bit bm d i)" for i
    using assms mx pos [of i]
    by (auto simp: bitmap_bit_upd bitmap_bit_def)
  then show ?thesis
    by (auto simp: bitmap_used_def)
qed

section \<open>Allocation and deallocation\<close>

definition alloc_spec :: "Bitmap \<Rightarrow> disk \<Rightarrow> nat option \<Rightarrow> disk \<Rightarrow> bool" where
  "alloc_spec bm d r d' \<longleftrightarrow>
     wf_bitmap bm d' \<and> dom d' = dom d \<and> (\<forall>b. b \<notin> bitmap_area bm \<longrightarrow> d' b = d b) \<and>
     (case r of
        None \<Rightarrow> d' = d \<and> bitmap_used bm d = {..<maxmium bm}
      | Some i \<Rightarrow> i < maxmium bm \<and> i \<notin> bitmap_used bm d \<and> {..<i} \<subseteq> bitmap_used bm d \<and>
                  bitmap_used bm d' = insert i (bitmap_used bm d))"

lemma alloc_step_Some:
  assumes wf: "wf_bitmap bm d" and a: "a < blocks bm"
    and low: "\<forall>i < a * BLOCK_BITS. bitmap_bit bm d i"
    and blk: "d (a + start_block_id bm) = Some blk" "alloc_in_block blk = (Some p, blk')"
  shows "alloc_spec bm d (Some (a * BLOCK_BITS + p)) (d(a + start_block_id bm \<mapsto> blk'))"
proof -
  have len: "length blk = BLOCK_SZ"
    using wf_bitmapD [OF wf a] blk(1) by simp
  note al = alloc_in_block_Some [OF len blk(2)]
  let ?i = "a * BLOCK_BITS + p"
  have id: "?i div BLOCK_BITS = a" "?i mod BLOCK_BITS = p"
    using al by simp_all
  have notused: "\<not> bitmap_bit bm d ?i"
    using al id blk(1) by (simp add: bitmap_bit_def)
  have mx: "?i < maxmium bm"
    using a id by (simp add: maxmium_div)
  have below: "bitmap_bit bm d j" if j: "j < ?i" for j
  proof (cases "j < a * BLOCK_BITS")
    case False
    then have "j div BLOCK_BITS = a" "j mod BLOCK_BITS < p"
      using block_position [of a BLOCK_BITS j p] j al by auto
    then show ?thesis
      using blk(1) al j mx by (simp add: bitmap_bit_def)
  qed (use low in simp)
  have "bitmap_used bm (d(a + start_block_id bm \<mapsto> blk')) = insert ?i (bitmap_used bm d)"
    using bitmap_used_upd [of a bm d blk p blk'] a blk(1) al by auto
  then show ?thesis
    using mx notused below wf_bitmap_upd [OF wf, of blk'] al blk(1) a
    by (auto simp: alloc_spec_def bitmap_used_def bitmap_area_def)
qed

lemma alloc_from_spec:
  assumes "wf_bitmap bm d" and "a \<le> blocks bm" and "\<forall>i < a * BLOCK_BITS. bitmap_bit bm d i"
  shows "\<exists>r d'. alloc_from bm [a..<blocks bm] d = Some (r, d') \<and> alloc_spec bm d r d'"
  using assms
proof (induction "blocks bm - a" arbitrary: a)
  case 0
  then have "bitmap_used bm d = {..<maxmium bm}"
    by (auto simp: bitmap_used_def maxmium_def bitmap_bit_def)
  with 0 show ?case
    by (simp add: alloc_spec_def)
next
  case (Suc n)
  then have a: "a < blocks bm" and up: "[a..<blocks bm] = a # [Suc a..<blocks bm]"
    by (simp_all add: upt_conv_Cons)
  obtain blk where blk: "d (a + start_block_id bm) = Some blk" "length blk = BLOCK_SZ"
    using wf_bitmapD [OF Suc.prems(1) a] by blast
  obtain r blk' where al: "alloc_in_block blk = (r, blk')" by fastforce
  show ?case
  proof (cases r)
    case (Some p)
    then show ?thesis
      using alloc_step_Some [OF Suc.prems(1) a Suc.prems(3) blk(1)] al blk(1)
      by (auto simp: up with_block_pure)
  next
    case None
    then have full: "blk' = blk" "\<forall>j < BLOCK_BITS. block_bit blk j"
      using alloc_in_block_None [of blk] al by auto
    have "\<forall>i < Suc a * BLOCK_BITS. bitmap_bit bm d i"
    proof (intro allI impI)
      fix i assume i: "i < Suc a * BLOCK_BITS"
      show "bitmap_bit bm d i"
      proof (cases "i < a * BLOCK_BITS")
        case False
        then have "i div BLOCK_BITS = a"
          using block_position(1) [of a BLOCK_BITS i BLOCK_BITS] i by simp
        then show ?thesis
          using full blk(1) a by (simp add: bitmap_bit_def maxmium_div)
      qed (use Suc.prems(3) in simp)
    qed
    then show ?thesis
      using Suc.hyps(1) [of "Suc a"] Suc.hyps(2) Suc.prems(1) a blk(1) al None full(1)
      by (simp add: up with_block_pure fun_upd_idem)
  qed
qed

lemma Bitmap_alloc_spec:
  assumes "wf_bitmap bm d"
  shows "\<exists>r d'. Bitmap_alloc bm d = Some (r, d') \<and> alloc_spec bm d r d'"
  using alloc_from_spec [OF assms, of 0] by (simp add: Bitmap_alloc_def)

lemma Bitmap_dealloc_eq:
  assumes "wf_bitmap bm d" and "i < maxmium bm"
    and "d (i div BLOCK_BITS + start_block_id bm) = Some blk"
  shows "Bitmap_dealloc bm i d =
    (if bitmap_bit bm d i
     then Some (d(i div BLOCK_BITS + start_block_id bm \<mapsto>
       set_u64 (i mod BLOCK_BITS div 64)
         (get_u64 blk (i mod BLOCK_BITS div 64) AND NOT (push_bit (i mod BLOCK_BITS mod 64) 1)) blk))
     else None)"
  using assms
  by (simp add: Bitmap_dealloc_def decompsition_def with_block_def push_bit_one_gt bitmap_bit_def
      block_bit_def Let_def)

lemma Bitmap_dealloc_spec:
  assumes wf: "wf_bitmap bm d" and i: "i \<in> bitmap_used bm d"
  shows "\<exists>d'. Bitmap_dealloc bm i d = Some d' \<and> wf_bitmap bm d' \<and> dom d' = dom d \<and>
    (\<forall>b. b \<notin> bitmap_area bm \<longrightarrow> d' b = d b) \<and> bitmap_used bm d' = bitmap_used bm d - {i}"
proof -
  let ?a = "i div BLOCK_BITS" and ?p = "i mod BLOCK_BITS"
  have mx: "i < maxmium bm" and set: "bitmap_bit bm d i"
    using i by (auto simp: bitmap_used_def bitmap_bit_def)
  then have a: "?a < blocks bm"
    by (simp add: maxmium_div)
  obtain blk where blk: "d (?a + start_block_id bm) = Some blk" "length blk = BLOCK_SZ"
    using wf_bitmapD [OF wf a] by blast
  let ?w = "get_u64 blk (?p div 64) AND NOT (push_bit (?p mod 64) 1)"
  let ?blk = "set_u64 (?p div 64) ?w blk"
  have pb: "?p < BLOCK_BITS" and p64: "?p div 64 < 64"
    using mod_less_divisor [OF BLOCK_BITS_pos, of i] by (simp_all add: BLOCK_BITS_def BLOCK_SZ_def)
  have bits: "block_bit ?blk j = (j \<noteq> ?p \<and> block_bit blk j)" if j: "j < BLOCK_BITS" for j
  proof -
    have "j = ?p \<longleftrightarrow> j div 64 = ?p div 64 \<and> j mod 64 = ?p mod 64"
      by (metis div_mult_mod_eq)
    then show ?thesis
      using block_bit_set [OF blk(2) j pb, of ?w]
      by (auto simp: block_bit_def bit_simps)
  qed
  have "bitmap_used bm (d(?a + start_block_id bm \<mapsto> ?blk)) = bitmap_used bm d - {i}"
    using bitmap_used_upd [of ?a bm d blk ?p ?blk] a blk(1) bits pb by simp
  moreover have "Bitmap_dealloc bm i d = Some (d(?a + start_block_id bm \<mapsto> ?blk))"
    using Bitmap_dealloc_eq [OF wf mx blk(1)] set by simp
  ultimately show ?thesis
    using wf_bitmap_upd [OF wf, of ?blk] blk p64 a by (auto simp: bitmap_area_def)
qed

text \<open>The allocator contract, as \<open>alloc_inode\<close> and \<open>alloc_data\<close> use it: they unwrap.\<close>

definition bitmap_take :: "Bitmap \<Rightarrow> disk \<Rightarrow> (nat \<times> disk) option" where
  "bitmap_take bm d = do { (r, d') \<leftarrow> Bitmap_alloc bm d; i \<leftarrow> r; Some (i, d') }"

lemma bitmap_take_spec:
  assumes wf: "wf_bitmap bm d"
  shows "bitmap_take bm d = None \<Longrightarrow> bitmap_used bm d = {..<maxmium bm}"
    and "bitmap_take bm d = Some (i, d') \<Longrightarrow> alloc_spec bm d (Some i) d'"
proof -
  obtain r d1 where r: "Bitmap_alloc bm d = Some (r, d1)" "alloc_spec bm d r d1"
    using Bitmap_alloc_spec [OF wf] by blast
  show "bitmap_take bm d = None \<Longrightarrow> bitmap_used bm d = {..<maxmium bm}"
    using r by (cases r) (simp_all add: bitmap_take_def alloc_spec_def)
  show "bitmap_take bm d = Some (i, d') \<Longrightarrow> alloc_spec bm d (Some i) d'"
    using r by (cases r) (simp_all add: bitmap_take_def)
qed

interpretation bitmap: id_allocator "bitmap_take bm" "Bitmap_dealloc bm" "bitmap_used bm"
  "\<lambda>_. {..<maxmium bm}" "wf_bitmap bm" for bm
proof unfold_locales
  fix s i s'
  assume "wf_bitmap bm s" and "bitmap_take bm s = Some (i, s')"
  then show "wf_bitmap bm s' \<and> i \<in> {..<maxmium bm} \<and> i \<notin> bitmap_used bm s \<and>
      bitmap_used bm s' = insert i (bitmap_used bm s) \<and> {..<maxmium bm} = {..<maxmium bm}"
    using bitmap_take_spec(2) by (fastforce simp: alloc_spec_def)
next
  fix s
  assume "wf_bitmap bm s" and "bitmap_take bm s = None"
  then show "{..<maxmium bm} \<subseteq> bitmap_used bm s"
    using bitmap_take_spec(1) by simp
next
  fix s i
  assume "wf_bitmap bm s" and "i \<in> bitmap_used bm s"
  then show "\<exists>s'. Bitmap_dealloc bm i s = Some s' \<and> wf_bitmap bm s' \<and>
      bitmap_used bm s' = bitmap_used bm s - {i} \<and> {..<maxmium bm} = {..<maxmium bm}"
    using Bitmap_dealloc_spec by blast
next
  fix s i
  assume wf: "wf_bitmap bm s" and i: "i \<in> {..<maxmium bm}" and "i \<notin> bitmap_used bm s"
  then show "Bitmap_dealloc bm i s = None"
    using wf_bitmapD [OF wf, of "i div BLOCK_BITS"] Bitmap_dealloc_eq [OF wf]
    by (auto simp: maxmium_div bitmap_used_def)
qed

section \<open>Properties\<close>

text \<open>
  \<open>Bitmap::alloc\<close> on a bitmap whose blocks are on the disk always returns. It answers
  \<open>None\<close> exactly when every bit is set, and then changes nothing; otherwise it answers the least
  clear bit, sets that bit and no other, and leaves every block outside the bitmap as it was.
\<close>

theorem Bitmap_alloc_least_free:
  assumes "wf_bitmap bm d"
  shows "\<exists>r d'. Bitmap_alloc bm d = Some (r, d') \<and> wf_bitmap bm d' \<and>
    (\<forall>b. b \<notin> bitmap_area bm \<longrightarrow> d' b = d b) \<and>
    (r = None \<longleftrightarrow> bitmap_used bm d = {..<maxmium bm}) \<and> (r = None \<longrightarrow> d' = d) \<and>
    (\<forall>i. r = Some i \<longrightarrow> i < maxmium bm \<and> i \<notin> bitmap_used bm d \<and> {..<i} \<subseteq> bitmap_used bm d \<and>
       bitmap_used bm d' = insert i (bitmap_used bm d))"
proof -
  obtain r d1 where r: "Bitmap_alloc bm d = Some (r, d1)" "alloc_spec bm d r d1"
    using Bitmap_alloc_spec [OF assms] by blast
  then show ?thesis
    by (cases r) (auto simp: alloc_spec_def)
qed

theorem Bitmap_alloc_least_free_witness:
  "let bm = Bitmap_new 3 1; d = [3 \<mapsto> replicate BLOCK_SZ 255] in
   wf_bitmap bm d \<and> (\<exists>r d'. Bitmap_alloc bm d = Some (r, d') \<and>
    (r = None \<longleftrightarrow> bitmap_used bm d = {..<maxmium bm}))"
proof -
  have "wf_bitmap (Bitmap_new 3 1) [3 \<mapsto> replicate BLOCK_SZ 255]"
    by (simp add: wf_bitmap_def Bitmap_new_def)
  from Bitmap_alloc_least_free [OF this] this show ?thesis
    unfolding Let_def by blast
qed

text \<open>
  \<open>Bitmap::dealloc\<close> of a bit of the bitmap returns exactly when the bit is set (the assertion
  catches a double free); then it clears that bit and no other and touches no block outside the
  bitmap. A freed bit is handed out again by \<open>alloc\<close> before any greater one.
\<close>

theorem Bitmap_dealloc_exact:
  assumes "wf_bitmap bm d" and "i < maxmium bm"
  shows "case Bitmap_dealloc bm i d of
      None \<Rightarrow> i \<notin> bitmap_used bm d
    | Some d' \<Rightarrow> i \<in> bitmap_used bm d \<and> wf_bitmap bm d' \<and>
        bitmap_used bm d' = bitmap_used bm d - {i} \<and>
        (\<forall>b. b \<notin> bitmap_area bm \<longrightarrow> d' b = d b) \<and>
        (\<exists>j d''. Bitmap_alloc bm d' = Some (Some j, d'') \<and> j \<le> i)"
proof (cases "i \<in> bitmap_used bm d")
  case False
  then show ?thesis
    using bitmap.dealloc_unused [OF assms(1)] assms(2) by simp
next
  case True
  obtain d' where d': "Bitmap_dealloc bm i d = Some d'" "wf_bitmap bm d'" "dom d' = dom d"
    "\<forall>b. b \<notin> bitmap_area bm \<longrightarrow> d' b = d b" "bitmap_used bm d' = bitmap_used bm d - {i}"
    using Bitmap_dealloc_spec [OF assms(1) True] by blast
  obtain r d2 where r: "Bitmap_alloc bm d' = Some (r, d2)" "alloc_spec bm d' r d2"
    using Bitmap_alloc_spec [OF d'(2)] by blast
  have "bitmap_used bm d' \<noteq> {..<maxmium bm}"
    using d'(5) assms(2) by auto
  then obtain j where j: "r = Some j" "{..<j} \<subseteq> bitmap_used bm d'"
    using r(2) by (cases r) (auto simp: alloc_spec_def)
  have "j \<le> i"
    using j(2) d'(5) by (metis Diff_iff insertI1 lessThan_iff linorder_not_le subset_eq)
  with d' True r(1) j(1) show ?thesis
    by auto
qed

theorem Bitmap_dealloc_exact_witness:
  "let bm = Bitmap_new 3 1; d = [3 \<mapsto> replicate BLOCK_SZ 0] in
   wf_bitmap bm d \<and> (7::nat) < maxmium bm \<and>
   (case Bitmap_dealloc bm 7 d of None \<Rightarrow> 7 \<notin> bitmap_used bm d | Some d' \<Rightarrow> 7 \<in> bitmap_used bm d)"
proof -
  have "wf_bitmap (Bitmap_new 3 1) [3 \<mapsto> replicate BLOCK_SZ 0]"
    and "7 < maxmium (Bitmap_new 3 1)"
    by (simp_all add: wf_bitmap_def Bitmap_new_def maxmium_def BLOCK_BITS_def BLOCK_SZ_def)
  from Bitmap_dealloc_exact [OF this] this show ?thesis
    unfolding Let_def by (auto split: option.splits)
qed

end
