(* ===== verification/Layout.thy ===== *)
theory Layout
  imports BlockCache Allocator Utf8
begin

text \<open>
  The on-disk layout of easy-fs (\<^verbatim>\<open>easy-fs/src/layout.rs\<close>): the super block, disk inodes with
  26 direct, one single-indirect and one double-indirect index, and directory entries, each with
  its encoding in bytes, and the operations of a disk inode that allocate, free, read and write
  its blocks. The operations run on the plain disk of theory \<open>BlockCache\<close>; a block whose lock is
  held is absent from that disk, so locking it again gives \<open>None\<close>.
\<close>

section \<open>Constants\<close>

definition EFS_MAGIC :: nat where "EFS_MAGIC = 0x3b800001"
definition INODE_DIRECT_COUNT :: nat where "INODE_DIRECT_COUNT = 26"
definition NAME_LENGTH_LIMIT :: nat where "NAME_LENGTH_LIMIT = 27"
definition INODE_INDIRECT1_COUNT :: nat where "INODE_INDIRECT1_COUNT = BLOCK_SZ div 4"
definition INODE_INDIRECT2_COUNT :: nat where
  "INODE_INDIRECT2_COUNT = INODE_INDIRECT1_COUNT * INODE_INDIRECT1_COUNT"
definition DIRECT_BOUND :: nat where "DIRECT_BOUND = INODE_DIRECT_COUNT"
definition INDIRECT1_BOUND :: nat where "INDIRECT1_BOUND = DIRECT_BOUND + INODE_INDIRECT1_COUNT"
definition DIRENT_SZ :: nat where "DIRENT_SZ = 32"

named_theorems layout_consts \<open>the numeric values of the layout constants\<close>

lemma layout_values [layout_consts]:
  "INODE_DIRECT_COUNT = 26" "NAME_LENGTH_LIMIT = 27" "INODE_INDIRECT1_COUNT = 128"
  "INODE_INDIRECT2_COUNT = 16384" "DIRECT_BOUND = 26" "INDIRECT1_BOUND = 154" "DIRENT_SZ = 32"
  "BLOCK_SZ = 512"
  by (simp_all add: INODE_DIRECT_COUNT_def NAME_LENGTH_LIMIT_def INODE_INDIRECT1_COUNT_def
      INODE_INDIRECT2_COUNT_def DIRECT_BOUND_def INDIRECT1_BOUND_def DIRENT_SZ_def BLOCK_SZ_def)

section \<open>The super block\<close>

record SuperBlock =
  magic :: nat
  sb_total_blocks :: nat
  inode_bitmap_blocks :: nat
  inode_area_blocks :: nat
  data_bitmap_blocks :: nat
  data_area_blocks :: nat

definition SuperBlock_initialize :: "nat \<Rightarrow> nat \<Rightarrow> nat \<Rightarrow> nat \<Rightarrow> nat \<Rightarrow> SuperBlock" where
  "SuperBlock_initialize tb ibb iab dbb dab =
     \<lparr>magic = EFS_MAGIC, sb_total_blocks = tb, inode_bitmap_blocks = ibb, inode_area_blocks = iab,
      data_bitmap_blocks = dbb, data_area_blocks = dab\<rparr>"

definition is_valid :: "SuperBlock \<Rightarrow> bool" where
  "is_valid sb \<longleftrightarrow> magic sb = EFS_MAGIC"

definition SuperBlock_to_bytes :: "SuperBlock \<Rightarrow> bytes" where
  \<comment> \<open>\<open>#[repr(C)]\<close>: six little-endian \<open>u32\<close>, 24 bytes\<close>
  "SuperBlock_to_bytes sb =
     le_bytes 4 (magic sb) @ le_bytes 4 (sb_total_blocks sb) @ le_bytes 4 (inode_bitmap_blocks sb) @
     le_bytes 4 (inode_area_blocks sb) @ le_bytes 4 (data_bitmap_blocks sb) @
     le_bytes 4 (data_area_blocks sb)"

definition u32_at :: "nat \<Rightarrow> bytes \<Rightarrow> nat" where
  "u32_at i bs = le_nat (slice (4 * i) 4 bs)"

definition SuperBlock_of_bytes :: "bytes \<Rightarrow> SuperBlock" where
  "SuperBlock_of_bytes bs =
     \<lparr>magic = u32_at 0 bs, sb_total_blocks = u32_at 1 bs, inode_bitmap_blocks = u32_at 2 bs,
      inode_area_blocks = u32_at 3 bs, data_bitmap_blocks = u32_at 4 bs, data_area_blocks = u32_at 5 bs\<rparr>"

section \<open>Index blocks\<close>

text \<open>\<open>type IndirectBlock = [u32; BLOCK_SZ / 4]\<close>, viewed in place in a block.\<close>

type_synonym IndirectBlock = "nat list"

definition IndirectBlock_of_bytes :: "block \<Rightarrow> IndirectBlock" where
  "IndirectBlock_of_bytes blk = map (\<lambda>i. u32_at i blk) [0..<INODE_INDIRECT1_COUNT]"

definition IndirectBlock_to_bytes :: "IndirectBlock \<Rightarrow> block" where
  "IndirectBlock_to_bytes xs = concat (map (le_bytes 4) xs)"

section \<open>Disk inodes\<close>

datatype DiskInodeType = File | Directory

record DiskInode =
  di_size :: nat
  di_nlink :: nat
  di_rsv :: nat
  di_direct :: "nat list"
  di_indirect1 :: nat
  di_indirect2 :: nat
  di_type :: DiskInodeType

definition INODE_SIZE :: nat where
  \<comment> \<open>\<open>size_of::<DiskInode>()\<close>: 31 \<open>u32\<close>, the type byte, three bytes of padding\<close>
  "INODE_SIZE = 128"

definition DiskInodeType_byte :: "DiskInodeType \<Rightarrow> byte" where
  "DiskInodeType_byte t = (case t of File \<Rightarrow> 0 | Directory \<Rightarrow> 1)"

definition DiskInode_to_bytes :: "DiskInode \<Rightarrow> bytes" where
  \<comment> \<open>the 125 bytes of the fields; the padding after them is never written\<close>
  "DiskInode_to_bytes di =
     IndirectBlock_to_bytes ([di_size di, di_nlink di, di_rsv di] @ di_direct di @ [di_indirect1 di, di_indirect2 di])
     @ [DiskInodeType_byte (di_type di)]"

definition DiskInode_of_bytes :: "bytes \<Rightarrow> DiskInode option" where
  \<comment> \<open>a discriminant other than the two of the enum is undefined behaviour: no result\<close>
  "DiskInode_of_bytes bs = do {
     ensure (bs ! 124 = 0 \<or> bs ! 124 = 1);
     Some \<lparr>di_size = u32_at 0 bs, di_nlink = u32_at 1 bs, di_rsv = u32_at 2 bs,
           di_direct = map (\<lambda>i. u32_at (3 + i) bs) [0..<INODE_DIRECT_COUNT],
           di_indirect1 = u32_at 29 bs, di_indirect2 = u32_at 30 bs,
           di_type = (if bs ! 124 = 0 then File else Directory)\<rparr> }"

definition DiskInode_initialize :: "DiskInodeType \<Rightarrow> DiskInode \<Rightarrow> DiskInode" where
  "DiskInode_initialize t di =
     di\<lparr>di_size := 0, di_nlink := 1, di_direct := replicate (length (di_direct di)) 0,
        di_indirect1 := 0, di_indirect2 := 0, di_type := t\<rparr>"

definition is_dir :: "DiskInode \<Rightarrow> bool" where
  "is_dir di \<longleftrightarrow> di_type di = Directory"

definition is_file :: "DiskInode \<Rightarrow> bool" where
  "is_file di \<longleftrightarrow> di_type di = File"

definition get_block_id :: "DiskInode \<Rightarrow> nat \<Rightarrow> disk \<Rightarrow> nat option" where
  "get_block_id di inner_id d =
     (if inner_id < DIRECT_BOUND then index_get (di_direct di) inner_id
      else if inner_id < INDIRECT1_BOUND then
        peek_block (di_indirect1 di)
          (\<lambda>blk _. index_get (IndirectBlock_of_bytes blk) (inner_id - INODE_DIRECT_COUNT)) d
      else (let l = inner_id - INDIRECT1_BOUND in do {
        indirect1 \<leftarrow> peek_block (di_indirect2 di)
          (\<lambda>blk _. index_get (IndirectBlock_of_bytes blk) (l div INODE_INDIRECT1_COUNT)) d;
        peek_block indirect1
          (\<lambda>blk _. index_get (IndirectBlock_of_bytes blk) (l mod INODE_INDIRECT1_COUNT)) d }))"

definition data_blocks_of_size :: "nat \<Rightarrow> nat" where
  "data_blocks_of_size sz = u32 (sz + BLOCK_SZ - 1) div BLOCK_SZ"

definition data_blocks :: "DiskInode \<Rightarrow> nat" where
  "data_blocks di = data_blocks_of_size (di_size di)"

definition total_blocks :: "nat \<Rightarrow> nat" where
  "total_blocks sz =
     (let n = data_blocks_of_size sz in
      u32 (n + (if n > DIRECT_BOUND then 1 else 0) +
        (if n > INDIRECT1_BOUND
         then 1 + (n - INDIRECT1_BOUND + INODE_INDIRECT1_COUNT - 1) div INODE_INDIRECT1_COUNT
         else 0)))"

definition blocks_num_needed :: "DiskInode \<Rightarrow> nat \<Rightarrow> nat option" where
  "blocks_num_needed di new_size = do {
     ensure (new_size \<ge> di_size di);
     Some (u32_sub (total_blocks new_size) (total_blocks (di_size di))) }"

subsection \<open>Growing\<close>

function fill :: "nat \<Rightarrow> nat \<Rightarrow> nat list \<Rightarrow> nat list \<Rightarrow> (nat list \<times> nat \<times> nat list) option" where
  \<comment> \<open>\<open>while curr < bound { a[curr] = iter.next().unwrap(); curr += 1; }\<close>\<close>
  "fill cur bound a it =
     (if cur < bound then do {
        (x, it') \<leftarrow> next_unwrap it;
        a' \<leftarrow> index_set a cur x;
        fill (cur + 1) bound a' it' }
      else Some (a, cur, it))"
  by pat_completeness auto
termination
  by (relation "measure (\<lambda>(c, b, _). b - c)") auto

declare fill.simps [simp del]

function fill_indirect2 :: "nat \<Rightarrow> nat \<Rightarrow> IndirectBlock \<Rightarrow> nat list \<Rightarrow> disk \<Rightarrow> (IndirectBlock \<times> disk) option" where
  "fill_indirect2 curr_total new_total indirect2 it d =
     (if curr_total < new_total then
       (let a1 = new_total div INODE_INDIRECT1_COUNT;
            b1 = new_total mod INODE_INDIRECT1_COUNT;
            a0 = curr_total div INODE_INDIRECT1_COUNT;
            b0 = curr_total mod INODE_INDIRECT1_COUNT;
            stop = (if a0 < a1 then INODE_INDIRECT1_COUNT else b1)
        in do {
          (indirect2', it') \<leftarrow>
            (if b0 = 0 then do {
               (x, it') \<leftarrow> next_unwrap it;
               l2 \<leftarrow> index_set indirect2 a0 x;
               Some (l2, it') }
             else Some (indirect2, it));
          entry \<leftarrow> index_get indirect2' a0;
          (it'', d') \<leftarrow> with_block entry
            (\<lambda>blk d. do {
               (a, _, it'') \<leftarrow> fill b0 stop (IndirectBlock_of_bytes blk) it';
               Some ((it'', IndirectBlock_to_bytes a), d) }) d;
          fill_indirect2 (curr_total + (stop - b0)) new_total indirect2' it'' d' })
      else Some (indirect2, d))"
  by pat_completeness auto

lemma l2_progress:
  assumes "c < (n :: nat)" and "0 < k"
  shows "c mod k < (if c div k < n div k then k else n mod k)"
proof (cases "c div k < n div k")
  case True
  then show ?thesis using assms(2) by simp
next
  case False
  then have "c div k = n div k"
    using div_le_mono [of c n k] assms(1) by simp
  then have "c mod k < n mod k"
    using assms(1) by (metis div_mult_mod_eq nat_add_left_cancel_less)
  with False show ?thesis by simp
qed

termination fill_indirect2
proof (relation "measure (\<lambda>(c, n, _). n - c)", goal_cases)
  case 1
  then show ?case by simp
next
  case (2 c n)
  have "c mod INODE_INDIRECT1_COUNT <
      (if c div INODE_INDIRECT1_COUNT < n div INODE_INDIRECT1_COUNT then INODE_INDIRECT1_COUNT
       else n mod INODE_INDIRECT1_COUNT)"
    using l2_progress [OF 2(1), of INODE_INDIRECT1_COUNT] by (simp add: layout_consts)
  then show ?case
    using 2(1,2,3,4,5,6) by (simp only: in_measure prod.case)
qed

definition increase_indirect2 :: "nat \<Rightarrow> nat \<Rightarrow> nat list \<Rightarrow> DiskInode \<Rightarrow> disk \<Rightarrow> (DiskInode \<times> disk) option" where
  \<comment> \<open>from the allocation of the double-indirect block; totals count from the end of indirect1\<close>
  "increase_indirect2 curr_total new_total it di d =
     (if new_total > INODE_INDIRECT1_COUNT then do {
        (di, it) \<leftarrow>
          (if curr_total = INODE_INDIRECT1_COUNT then do {
             (x, it) \<leftarrow> next_unwrap it;
             Some (di\<lparr>di_indirect2 := x\<rparr>, it) }
           else Some (di, it));
        (_, d) \<leftarrow> with_block (di_indirect2 di)
          (\<lambda>blk d. do {
             (l2, d') \<leftarrow> fill_indirect2 (curr_total - INODE_INDIRECT1_COUNT) (new_total - INODE_INDIRECT1_COUNT)
               (IndirectBlock_of_bytes blk) it d;
             Some (((), IndirectBlock_to_bytes l2), d') }) d;
        Some (di, d) }
      else Some (di, d))"

definition increase_indirect1 :: "nat \<Rightarrow> nat \<Rightarrow> nat list \<Rightarrow> DiskInode \<Rightarrow> disk \<Rightarrow> (DiskInode \<times> disk) option" where
  \<comment> \<open>from the allocation of the single-indirect block\<close>
  "increase_indirect1 curr_total new_total it di d =
     (if new_total > INODE_DIRECT_COUNT then do {
        (di, it) \<leftarrow>
          (if curr_total = INODE_DIRECT_COUNT then do {
             (x, it) \<leftarrow> next_unwrap it;
             Some (di\<lparr>di_indirect1 := x\<rparr>, it) }
           else Some (di, it));
        let curr_total = curr_total - INODE_DIRECT_COUNT;
        let new_total = new_total - INODE_DIRECT_COUNT;
        ((curr_total, it), d) \<leftarrow> with_block (di_indirect1 di)
          (\<lambda>blk d. do {
             (a, c, it') \<leftarrow> fill curr_total (min INODE_INDIRECT1_COUNT new_total)
               (IndirectBlock_of_bytes blk) it;
             Some (((c, it'), IndirectBlock_to_bytes a), d) }) d;
        increase_indirect2 curr_total new_total it di d }
      else Some (di, d))"

definition increase_size :: "nat \<Rightarrow> nat list \<Rightarrow> DiskInode \<Rightarrow> disk \<Rightarrow> (DiskInode \<times> disk) option" where
  "increase_size new_size new_blocks di d = do {
     ensure (new_size > di_size di);
     needed \<leftarrow> blocks_num_needed di new_size;
     ensure (length new_blocks \<ge> needed);
     let curr_total = data_blocks di;
     let di = di\<lparr>di_size := new_size\<rparr>;
     let new_total = data_blocks di;
     (direct, curr_total, it) \<leftarrow>
       fill curr_total (min INODE_DIRECT_COUNT new_total) (di_direct di) new_blocks;
     increase_indirect1 curr_total new_total it (di\<lparr>di_direct := direct\<rparr>) d }"

subsection \<open>Clearing\<close>

function clear_direct :: "nat \<Rightarrow> nat \<Rightarrow> nat list \<Rightarrow> nat list \<Rightarrow> (nat list \<times> nat list) option" where
  "clear_direct current bound direct v =
     (if current < bound then do {
        x \<leftarrow> index_get direct current;
        direct' \<leftarrow> index_set direct current 0;
        clear_direct (current + 1) bound direct' (v @ [x]) }
      else Some (direct, v))"
  by pat_completeness auto
termination
  by (relation "measure (\<lambda>(c, b, _). b - c)") auto

function collect :: "nat \<Rightarrow> nat \<Rightarrow> IndirectBlock \<Rightarrow> nat list \<Rightarrow> nat list option" where
  "collect current bound indirect1 v =
     (if current < bound then do {
        x \<leftarrow> index_get indirect1 current;
        collect (current + 1) bound indirect1 (v @ [x]) }
      else Some v)"
  by pat_completeness auto
termination
  by (relation "measure (\<lambda>(c, b, _). b - c)") auto

fun collect_full :: "nat list \<Rightarrow> nat list \<Rightarrow> disk \<Rightarrow> (nat list \<times> disk) option" where
  \<comment> \<open>\<open>for entry in indirect2.iter_mut().take(a1)\<close>\<close>
  "collect_full [] v d = Some (v, d)"
| "collect_full (entry # es) v d = do {
     (v', d') \<leftarrow> with_block entry
       (\<lambda>blk d. Some ((v @ [entry] @ IndirectBlock_of_bytes blk, blk), d)) d;
     collect_full es v' d' }"

definition clear_indirect2 :: "nat \<Rightarrow> nat list \<Rightarrow> DiskInode \<Rightarrow> disk \<Rightarrow> (nat list \<times> DiskInode \<times> disk) option" where
  "clear_indirect2 n v di d =
     (if n > INODE_INDIRECT1_COUNT then do {
        let v = v @ [di_indirect2 di];
        let n = n - INODE_INDIRECT1_COUNT;
        ensure (n \<le> INODE_INDIRECT2_COUNT);
        let a1 = n div INODE_INDIRECT1_COUNT;
        let b1 = n mod INODE_INDIRECT1_COUNT;
        (v, d) \<leftarrow> with_block (di_indirect2 di)
          (\<lambda>blk d. do {
             let indirect2 = IndirectBlock_of_bytes blk;
             (v, d) \<leftarrow> collect_full (take a1 indirect2) v d;
             (v, d) \<leftarrow>
               (if b1 > 0 then do {
                  entry \<leftarrow> index_get indirect2 a1;
                  with_block entry
                    (\<lambda>blk d. Some ((v @ [entry] @ take b1 (IndirectBlock_of_bytes blk), blk), d)) d }
                else Some (v, d));
             Some ((v, blk), d) }) d;
        Some (v, di\<lparr>di_indirect2 := 0\<rparr>, d) }
      else Some (v, di, d))"

definition clear_indirect1 :: "nat \<Rightarrow> nat list \<Rightarrow> DiskInode \<Rightarrow> disk \<Rightarrow> (nat list \<times> DiskInode \<times> disk) option" where
  "clear_indirect1 n v di d =
     (if n > INODE_DIRECT_COUNT then do {
        let v = v @ [di_indirect1 di];
        let n = n - INODE_DIRECT_COUNT;
        (v, d) \<leftarrow> with_block (di_indirect1 di)
          (\<lambda>blk d. do {
             v \<leftarrow> collect 0 (min n INODE_INDIRECT1_COUNT) (IndirectBlock_of_bytes blk) v;
             Some ((v, blk), d) }) d;
        clear_indirect2 n v (di\<lparr>di_indirect1 := 0\<rparr>) d }
      else Some (v, di, d))"

definition clear_size :: "DiskInode \<Rightarrow> disk \<Rightarrow> (nat list \<times> DiskInode \<times> disk) option" where
  "clear_size di d = do {
     let n = data_blocks di;
     let di = di\<lparr>di_size := 0\<rparr>;
     (direct, v) \<leftarrow> clear_direct 0 (min n INODE_DIRECT_COUNT) (di_direct di) [];
     clear_indirect1 n v (di\<lparr>di_direct := direct\<rparr>) d }"

subsection \<open>Reading and writing\<close>

function read_loop :: "DiskInode \<Rightarrow> nat \<Rightarrow> nat \<Rightarrow> nat \<Rightarrow> nat \<Rightarrow> bytes \<Rightarrow> disk \<Rightarrow> (nat \<times> bytes) option" where
  "read_loop di start start_block stop read_size buf d =
     (let end_of_current_block = min ((start div BLOCK_SZ + 1) * BLOCK_SZ) stop;
          block_read_size = end_of_current_block - start
      in do {
        b \<leftarrow> get_block_id di (u32 start_block) d;
        buf' \<leftarrow> peek_block b
          (\<lambda>data_block _. Some (splice read_size (slice (start mod BLOCK_SZ) block_read_size data_block) buf)) d;
        (if end_of_current_block = stop then Some (read_size + block_read_size, buf')
         else read_loop di end_of_current_block (start_block + 1) stop (read_size + block_read_size) buf' d) })"
  by pat_completeness auto

lemma block_progress: "min ((start div BLOCK_SZ + 1) * BLOCK_SZ) stop \<noteq> stop \<Longrightarrow>
  start < min ((start div BLOCK_SZ + 1) * BLOCK_SZ) stop \<and> min ((start div BLOCK_SZ + 1) * BLOCK_SZ) stop < stop"
proof -
  have "start < (start div BLOCK_SZ + 1) * BLOCK_SZ"
    using dividend_less_div_times [of BLOCK_SZ start] by (simp add: add.commute)
  then show "min ((start div BLOCK_SZ + 1) * BLOCK_SZ) stop \<noteq> stop \<Longrightarrow> ?thesis"
    by (simp add: min_def split: if_splits)
qed

termination read_loop
  using block_progress
  by (relation "measure (\<lambda>(_, s, _, e, _). e - s)") fastforce+

definition read_at :: "DiskInode \<Rightarrow> nat \<Rightarrow> bytes \<Rightarrow> disk \<Rightarrow> (nat \<times> bytes) option" where
  "read_at di offset buf d =
     (let stop = min (usize (offset + length buf)) (di_size di) in
      if offset \<ge> stop then Some (0, buf)
      else read_loop di offset (offset div BLOCK_SZ) stop 0 buf d)"

function write_loop :: "DiskInode \<Rightarrow> nat \<Rightarrow> nat \<Rightarrow> nat \<Rightarrow> nat \<Rightarrow> bytes \<Rightarrow> disk \<Rightarrow> (nat \<times> disk) option" where
  "write_loop di start start_block stop write_size buf d =
     (let end_of_current_block = min ((start div BLOCK_SZ + 1) * BLOCK_SZ) stop;
          block_write_size = end_of_current_block - start
      in do {
        b \<leftarrow> get_block_id di (u32 start_block) d;
        (_, d') \<leftarrow> with_block b
          (\<lambda>data_block d. Some (((), splice (start mod BLOCK_SZ) (slice write_size block_write_size buf) data_block), d)) d;
        (if end_of_current_block = stop then Some (write_size + block_write_size, d')
         else write_loop di end_of_current_block (start_block + 1) stop (write_size + block_write_size) buf d') })"
  by pat_completeness auto

termination write_loop
  using block_progress
  by (relation "measure (\<lambda>(_, s, _, e, _). e - s)") fastforce+

definition write_at :: "DiskInode \<Rightarrow> nat \<Rightarrow> bytes \<Rightarrow> disk \<Rightarrow> (nat \<times> disk) option" where
  "write_at di offset buf d =
     (let stop = min (usize (offset + length buf)) (di_size di) in do {
        ensure (offset \<le> stop);
        write_loop di offset (offset div BLOCK_SZ) stop 0 buf d })"

declare fill_indirect2.simps [simp del] clear_direct.simps [simp del]
  collect.simps [simp del] read_loop.simps [simp del] write_loop.simps [simp del]

section \<open>Directory entries\<close>

record DirEntry =
  de_name :: bytes
  inode_number :: nat

definition DirEntry_new_empty :: DirEntry where
  "DirEntry_new_empty = \<lparr>de_name = replicate (NAME_LENGTH_LIMIT + 1) 0, inode_number = 0\<rparr>"

definition DirEntry_new :: "bytes \<Rightarrow> nat \<Rightarrow> DirEntry option" where
  "DirEntry_new nm ino = do {
     ensure (length nm \<le> NAME_LENGTH_LIMIT);
     Some \<lparr>de_name = splice 0 nm (replicate (NAME_LENGTH_LIMIT + 1) 0), inode_number = ino\<rparr> }"

definition as_bytes :: "DirEntry \<Rightarrow> bytes" where
  "as_bytes e = de_name e @ le_bytes 4 (inode_number e)"

definition DirEntry_of_bytes :: "bytes \<Rightarrow> DirEntry" where
  \<comment> \<open>the entry after a read into \<open>as_bytes_mut()\<close>\<close>
  "DirEntry_of_bytes bs =
     \<lparr>de_name = take (NAME_LENGTH_LIMIT + 1) bs, inode_number = u32_at 7 bs\<rparr>"

definition DirEntry_name :: "DirEntry \<Rightarrow> bytes option" where
  "DirEntry_name e = do {
     ensure (0 \<in> set (de_name e));
     let s = takeWhile (\<lambda>c. c \<noteq> 0) (de_name e);
     ensure (utf8_valid s);
     Some s }"

section \<open>A fresh directory\<close>

definition dot :: bytes where "dot = [46]"
definition dotdot :: bytes where "dotdot = [46, 46]"

definition initialize_dir ::
    "nat \<Rightarrow> nat \<Rightarrow> (disk \<Rightarrow> (nat \<times> disk) option) \<Rightarrow> DiskInode \<Rightarrow> disk \<Rightarrow> (DiskInode \<times> disk) option" where
  "initialize_dir self_inode parent_inode data_alloc di d = do {
     ensure (is_dir di);
     let file_count = di_size di div DIRENT_SZ;
     let new_size = u32 ((file_count + 2) * DIRENT_SZ);
     blocks_needed \<leftarrow> blocks_num_needed di new_size;
     (new_blocks, d) \<leftarrow> alloc_many data_alloc blocks_needed d;
     (di, d) \<leftarrow> increase_size new_size new_blocks di d;
     e1 \<leftarrow> DirEntry_new dot self_inode;
     e2 \<leftarrow> DirEntry_new dotdot parent_inode;
     (_, d) \<leftarrow> write_at di (file_count * DIRENT_SZ) (as_bytes e1 @ as_bytes e2) d;
     Some (di, d) }"

section \<open>Encodings\<close>

lemma u32_at_less: "4 * i + 4 \<le> length bs \<Longrightarrow> u32_at i bs < 4294967296"
  using le_nat_4_bound [of "slice (4 * i) 4 bs"] by (simp add: u32_at_def)

lemma length_IndirectBlock_of_bytes [simp]: "length (IndirectBlock_of_bytes blk) = INODE_INDIRECT1_COUNT"
  by (simp add: IndirectBlock_of_bytes_def)

lemma length_IndirectBlock_to_bytes [simp]: "length (IndirectBlock_to_bytes xs) = 4 * length xs"
  by (simp add: IndirectBlock_to_bytes_def length_concat comp_def sum_list_triv)

lemma IndirectBlock_to_bytes_Cons:
  "IndirectBlock_to_bytes (x # xs) = le_bytes 4 x @ IndirectBlock_to_bytes xs"
  by (simp add: IndirectBlock_to_bytes_def)

lemma u32_at_append1: "4 * i + 4 \<le> length xs \<Longrightarrow> u32_at i (xs @ ys) = u32_at i xs"
  by (simp add: u32_at_def slice_def)

lemma u32_at_to_bytes:
  assumes "i < length xs" and "xs ! i < 2 ^ 32"
  shows "u32_at i (IndirectBlock_to_bytes xs @ ys) = xs ! i"
  using assms
proof (induction xs arbitrary: i)
  case Nil
  then show ?case by simp
next
  case (Cons x xs)
  show ?case
  proof (cases i)
    case 0
    then show ?thesis
      using Cons.prems
      by (simp add: u32_at_def slice_def IndirectBlock_to_bytes_Cons le_nat_le_bytes4)
  next
    case (Suc j)
    then have "u32_at i (IndirectBlock_to_bytes (x # xs) @ ys) = u32_at j (IndirectBlock_to_bytes xs @ ys)"
      by (simp add: u32_at_def slice_def IndirectBlock_to_bytes_Cons)
    with Suc Cons show ?thesis by simp
  qed
qed

lemma IndirectBlock_of_to_bytes [simp]:
  assumes "length xs = INODE_INDIRECT1_COUNT" and "\<forall>x \<in> set xs. x < 2 ^ 32"
  shows "IndirectBlock_of_bytes (IndirectBlock_to_bytes xs) = xs"
  using assms u32_at_to_bytes [of _ xs "[]"]
  by (intro nth_equalityI) (simp_all add: IndirectBlock_of_bytes_def)

lemma to_bytes_slices:
  assumes "length bs = 4 * n"
  shows "IndirectBlock_to_bytes (map (\<lambda>i. u32_at i bs) [0..<n]) = bs"
  using assms
proof (induction n arbitrary: bs)
  case 0
  then show ?case by (simp add: IndirectBlock_to_bytes_def)
next
  case (Suc n)
  have a: "map (\<lambda>i. u32_at i bs) [0..<n] = map (\<lambda>i. u32_at i (take (4 * n) bs)) [0..<n]"
    by (simp add: u32_at_def slice_def drop_take min_def)
  have b: "slice (4 * n) 4 bs = drop (4 * n) bs"
    using Suc.prems by (simp add: slice_def)
  have "le_bytes 4 (u32_at n bs) = drop (4 * n) bs"
    using le_bytes_le_nat [of "drop (4 * n) bs"] Suc.prems by (simp add: u32_at_def b)
  moreover have "IndirectBlock_to_bytes (map (\<lambda>i. u32_at i bs) [0..<n]) = take (4 * n) bs"
    unfolding a using Suc.IH [of "take (4 * n) bs"] Suc.prems by simp
  ultimately show ?case
    by (simp add: IndirectBlock_to_bytes_def)
qed

lemma IndirectBlock_to_of_bytes [simp]:
  "length blk = BLOCK_SZ \<Longrightarrow> IndirectBlock_to_bytes (IndirectBlock_of_bytes blk) = blk"
  unfolding IndirectBlock_of_bytes_def by (rule to_bytes_slices) (simp add: layout_consts)

lemma IndirectBlock_of_bytes_less:
  "length blk = BLOCK_SZ \<Longrightarrow> x \<in> set (IndirectBlock_of_bytes blk) \<Longrightarrow> x < 2 ^ 32"
  by (auto simp: IndirectBlock_of_bytes_def layout_consts intro!: u32_at_less)

definition wf_fields :: "DiskInode \<Rightarrow> bool" where
  \<comment> \<open>the field types of the struct\<close>
  "wf_fields di \<longleftrightarrow> di_size di < 2 ^ 32 \<and> di_nlink di < 2 ^ 32 \<and> di_rsv di < 2 ^ 32 \<and>
     length (di_direct di) = INODE_DIRECT_COUNT \<and> (\<forall>x \<in> set (di_direct di). x < 2 ^ 32) \<and>
     di_indirect1 di < 2 ^ 32 \<and> di_indirect2 di < 2 ^ 32"

lemma length_DiskInode_to_bytes [simp]: "wf_fields di \<Longrightarrow> length (DiskInode_to_bytes di) = 125"
  by (simp add: DiskInode_to_bytes_def wf_fields_def layout_consts)

lemma DiskInode_of_bytes_wf:
  assumes "DiskInode_of_bytes bs = Some di" and "length bs = INODE_SIZE"
  shows "wf_fields di"
  using assms by (auto simp: DiskInode_of_bytes_def wf_fields_def layout_consts INODE_SIZE_def
      split: if_splits intro!: u32_at_less)

lemma DiskInode_of_to_bytes:
  assumes "wf_fields di"
  shows "DiskInode_of_bytes (DiskInode_to_bytes di @ pad) = Some di"
proof -
  let ?xs = "[di_size di, di_nlink di, di_rsv di] @ di_direct di @ [di_indirect1 di, di_indirect2 di]"
  let ?bs = "DiskInode_to_bytes di @ pad"
  have len: "length ?xs = 31" and b: "\<forall>x \<in> set ?xs. x < 2 ^ 32"
    using assms by (auto simp: wf_fields_def layout_consts)
  have u: "u32_at i ?bs = ?xs ! i" if "i < 31" for i
    unfolding DiskInode_to_bytes_def append_assoc
    using u32_at_to_bytes [of i ?xs] len b that by (metis (no_types, lifting) append_assoc nth_mem)
  have t: "?bs ! 124 = DiskInodeType_byte (di_type di)"
    using len by (simp add: DiskInode_to_bytes_def nth_append)
  have dl: "length (di_direct di) = 26"
    using assms by (simp add: wf_fields_def layout_consts)
  have d: "map (\<lambda>i. u32_at (3 + i) ?bs) [0..<INODE_DIRECT_COUNT] = di_direct di"
    using dl by (intro nth_equalityI) (simp_all add: u nth_append layout_consts)
  have v: "u32_at 0 ?bs = di_size di" "u32_at 1 ?bs = di_nlink di" "u32_at 2 ?bs = di_rsv di"
    "u32_at 29 ?bs = di_indirect1 di" "u32_at 30 ?bs = di_indirect2 di"
    using u [of 0] u [of 1] u [of 2] u [of 29] u [of 30] dl by (simp_all add: nth_append)
  show ?thesis
    unfolding DiskInode_of_bytes_def d v t
    by (cases "di_type di") (simp_all add: DiskInodeType_byte_def)
qed

lemma SuperBlock_of_to_bytes:
  assumes "magic sb < 2 ^ 32" "sb_total_blocks sb < 2 ^ 32" "inode_bitmap_blocks sb < 2 ^ 32"
    "inode_area_blocks sb < 2 ^ 32" "data_bitmap_blocks sb < 2 ^ 32" "data_area_blocks sb < 2 ^ 32"
  shows "SuperBlock_of_bytes (SuperBlock_to_bytes sb @ rest) = sb"
proof -
  let ?xs = "[magic sb, sb_total_blocks sb, inode_bitmap_blocks sb, inode_area_blocks sb,
    data_bitmap_blocks sb, data_area_blocks sb]"
  have eq: "SuperBlock_to_bytes sb = IndirectBlock_to_bytes ?xs"
    by (simp add: SuperBlock_to_bytes_def IndirectBlock_to_bytes_def)
  have u: "u32_at i (SuperBlock_to_bytes sb @ rest) = ?xs ! i" if "i < 6" for i
  proof -
    have "i < length ?xs"
      using that by simp
    moreover from nth_mem [OF this] have "?xs ! i < 2 ^ 32"
      using assms by auto
    ultimately show ?thesis
      unfolding eq by (rule u32_at_to_bytes)
  qed
  show ?thesis
    using u [of 0] u [of 1] u [of 2] u [of 3] u [of 4] u [of 5]
    by (simp add: SuperBlock_of_bytes_def)
qed

lemma length_as_bytes: "DirEntry_new nm ino = Some e \<Longrightarrow> length (as_bytes e) = DIRENT_SZ"
  by (auto simp: DirEntry_new_def as_bytes_def layout_consts split: if_splits)

lemma DirEntry_of_as_bytes:
  assumes "DirEntry_new nm ino = Some e" and "ino < 2 ^ 32"
  shows "DirEntry_of_bytes (as_bytes e) = e"
proof -
  have "length (de_name e) = 28" and "inode_number e = ino"
    using assms by (auto simp: DirEntry_new_def layout_consts split: if_splits)
  then show ?thesis
    using assms(2)
    by (cases e) (simp add: DirEntry_of_bytes_def as_bytes_def u32_at_def slice_def layout_consts
        le_nat_le_bytes4)
qed

lemma DirEntry_name_new:
  assumes "DirEntry_new nm ino = Some e" and "0 \<notin> set nm" and "utf8_valid nm"
  shows "DirEntry_name e = Some nm"
proof -
  have e: "de_name e = nm @ replicate (28 - length nm) 0" and len: "length nm \<le> 27"
    using assms by (auto simp: DirEntry_new_def layout_consts splice_def split: if_splits)
  have "takeWhile (\<lambda>c. c \<noteq> 0) (de_name e) = nm @ takeWhile (\<lambda>c. c \<noteq> 0) (replicate (28 - length nm) (0 :: byte))"
    unfolding e using assms(2) by (intro takeWhile_append2) auto
  then have "takeWhile (\<lambda>c. c \<noteq> 0) (de_name e) = nm"
    by (simp add: takeWhile_eq_Nil_iff)
  moreover have "0 \<in> set (de_name e)"
    using len by (simp add: e)
  ultimately show ?thesis
    using assms(3) by (simp add: DirEntry_name_def)
qed

end
