(* ===== verification/InodeTree.thy ===== *)
theory InodeTree
  imports Layout
begin

text \<open>
  The block tree of a disk inode. \<open>inode_tree\<close> lists the blocks a disk inode with \<open>n\<close> data blocks
  uses, in the order the comment of \<open>increase_size\<close> gives, each tagged as a data block
  (\<open>True\<close>) or an index block (\<open>False\<close>). \<open>increase_size\<close> appends to that list,
  \<open>clear_size\<close> returns it, \<open>get_block_id\<close> indexes its data part and \<open>total_blocks\<close> is its
  length.
\<close>

section \<open>Closed forms of the loops\<close>

lemma fill_eq:
  assumes "cur \<le> bound" and "bound \<le> length a" and "bound - cur \<le> length it"
  shows "fill cur bound a it = Some (splice cur (take (bound - cur) it) a, bound, drop (bound - cur) it)"
  using assms
proof (induction "bound - cur" arbitrary: cur a it)
  case 0
  then show ?case
    by (subst fill.simps) (simp add: splice_def)
next
  case (Suc k)
  then obtain x it' where it: "it = x # it'"
    by (cases it) auto
  have len: "length (take (bound - Suc cur) it') = bound - Suc cur"
    using Suc it by simp
  have tk: "take (bound - cur) it = x # take (bound - Suc cur) it'"
    using Suc.hyps(2) by (simp add: it Suc_diff_Suc [symmetric] del: diff_Suc_Suc)
  have "splice (cur + 1) (take (bound - Suc cur) it') (a[cur := x]) = splice cur (take (bound - cur) it) a"
    using Suc.prems Suc.hyps(2) len
    by (simp add: splice_def tk take_Suc_conv_app_nth)
  moreover have "drop (bound - Suc cur) it' = drop (bound - cur) it"
    using Suc.hyps(2) by (simp add: it Suc_diff_Suc [symmetric] del: diff_Suc_Suc)
  ultimately show ?case
    using Suc.hyps(1) [of "cur + 1" "a[cur := x]" it'] Suc.hyps(2) Suc.prems it
    by (subst fill.simps) simp
qed

lemma fill_noop: "bound \<le> cur \<Longrightarrow> fill cur bound a it = Some (a, cur, it)"
  by (subst fill.simps) simp

lemma take_splice: "n \<le> length a \<Longrightarrow> take (n + length ys) (splice n ys a) = take n a @ ys"
  by (simp add: splice_def)

lemma set_splice: "set (splice n ys a) \<subseteq> set a \<union> set ys"
  using set_take_subset [of n a] set_drop_subset [of "n + length ys" a] by (auto simp: splice_def)

section \<open>The tree\<close>

abbreviation index_block :: "disk \<Rightarrow> nat \<Rightarrow> IndirectBlock" where
  "index_block d b \<equiv> IndirectBlock_of_bytes (the (d b))"

type_synonym tagged = "(bool \<times> nat) list"

abbreviation data_tags :: "nat list \<Rightarrow> tagged" where
  "data_tags \<equiv> map (Pair True)"

definition l1_tree :: "disk \<Rightarrow> nat \<Rightarrow> nat \<Rightarrow> tagged" where
  \<comment> \<open>an index block with its first \<open>n\<close> data blocks\<close>
  "l1_tree d n b = (False, b) # data_tags (take n (index_block d b))"

definition l2_tree :: "nat \<Rightarrow> IndirectBlock \<Rightarrow> disk \<Rightarrow> tagged" where
  "l2_tree n l2 d =
     concat (map (l1_tree d INODE_INDIRECT1_COUNT) (take (n div INODE_INDIRECT1_COUNT) l2)) @
     (if n mod INODE_INDIRECT1_COUNT = 0 then []
      else l1_tree d (n mod INODE_INDIRECT1_COUNT) (l2 ! (n div INODE_INDIRECT1_COUNT)))"

definition indirect2_tree :: "nat \<Rightarrow> nat \<Rightarrow> disk \<Rightarrow> tagged" where
  "indirect2_tree b n d =
     (if n > INODE_INDIRECT1_COUNT
      then (False, b) # l2_tree (n - INODE_INDIRECT1_COUNT) (index_block d b) d else [])"

definition indirect1_tree :: "DiskInode \<Rightarrow> nat \<Rightarrow> disk \<Rightarrow> tagged" where
  "indirect1_tree di n d =
     (if n > INODE_DIRECT_COUNT
      then l1_tree d (n - INODE_DIRECT_COUNT) (di_indirect1 di) @
           indirect2_tree (di_indirect2 di) (n - INODE_DIRECT_COUNT) d else [])"

definition inode_tree :: "DiskInode \<Rightarrow> nat \<Rightarrow> disk \<Rightarrow> tagged" where
  "inode_tree di n d = data_tags (take n (di_direct di)) @ indirect1_tree di n d"

definition MAX_BLOCKS :: nat where
  "MAX_BLOCKS = INDIRECT1_BOUND + INODE_INDIRECT2_COUNT"

definition tree_total :: "nat \<Rightarrow> nat" where
  "tree_total n =
     n + (if n > INODE_DIRECT_COUNT then 1 else 0) +
     (if n > INDIRECT1_BOUND
      then 1 + (n - INDIRECT1_BOUND + INODE_INDIRECT1_COUNT - 1) div INODE_INDIRECT1_COUNT else 0)"

definition blocks_ok :: "nat list \<Rightarrow> disk \<Rightarrow> bool" where
  \<comment> \<open>pairwise different block numbers of the device that fit in a \<open>u32\<close>\<close>
  "blocks_ok bs d \<longleftrightarrow> distinct bs \<and> (\<forall>b \<in> set bs. b < 2 ^ 32 \<and> b \<in> dom d)"

definition grows :: "tagged \<Rightarrow> disk \<Rightarrow> nat list \<Rightarrow> tagged \<Rightarrow> disk \<Rightarrow> bool" where
  \<comment> \<open>a tree takes in the blocks \<open>used\<close>; only index blocks of the new tree are written\<close>
  "grows T d used T' d' \<longleftrightarrow>
     (\<exists>ts. T' = T @ ts \<and> map snd ts = used) \<and> wf_disk d' \<and> dom d' = dom d \<and>
     (\<forall>b. (False, b) \<notin> set T' \<longrightarrow> d' b = d b)"

lemma index_split:
  obtains a b where "n = a * INODE_INDIRECT1_COUNT + b" and "b < INODE_INDIRECT1_COUNT"
proof
  show "n = n div INODE_INDIRECT1_COUNT * INODE_INDIRECT1_COUNT + n mod INODE_INDIRECT1_COUNT"
    by (simp only: div_mult_mod_eq)
  show "n mod INODE_INDIRECT1_COUNT < INODE_INDIRECT1_COUNT"
    by (simp add: layout_consts)
qed

lemma l1_tree_full: "l1_tree d INODE_INDIRECT1_COUNT b = (False, b) # data_tags (index_block d b)"
  by (simp add: l1_tree_def)

lemma l2_tree_step:
  assumes "a < length l2" and "0 < k" and "k \<le> INODE_INDIRECT1_COUNT"
  shows "l2_tree (a * INODE_INDIRECT1_COUNT + k) l2 d = l2_tree (a * INODE_INDIRECT1_COUNT) l2 d @ l1_tree d k (l2 ! a)"
proof (cases "k = INODE_INDIRECT1_COUNT")
  case True
  have "a * INODE_INDIRECT1_COUNT + k = Suc a * INODE_INDIRECT1_COUNT"
    using True by simp
  then show ?thesis
    using assms True by (simp add: l2_tree_def take_Suc_conv_app_nth del: mult_Suc)
next
  case False
  then have k: "k < INODE_INDIRECT1_COUNT"
    using assms by simp
  then have "(a * INODE_INDIRECT1_COUNT + k) div INODE_INDIRECT1_COUNT = a"
    and "(a * INODE_INDIRECT1_COUNT + k) mod INODE_INDIRECT1_COUNT = k"
    by simp_all
  then show ?thesis
    using assms(2) k by (simp add: l2_tree_def)
qed

lemma l2_tree_at:
  "n = a * INODE_INDIRECT1_COUNT + b \<Longrightarrow> b < INODE_INDIRECT1_COUNT \<Longrightarrow>
   l2_tree n l2 d = concat (map (l1_tree d INODE_INDIRECT1_COUNT) (take a l2)) @
     (if b = 0 then [] else l1_tree d b (l2 ! a))"
  by (simp add: l2_tree_def)

lemma l1_tree_cong: "d b = d' b \<Longrightarrow> l1_tree d n b = l1_tree d' n b"
  by (simp add: l1_tree_def)

lemma l2_tree_cong:
  assumes "\<And>b. (False, b) \<in> set (l2_tree n l2 d) \<Longrightarrow> d b = d' b"
  shows "l2_tree n l2 d = l2_tree n l2 d'"
proof -
  let ?a = "n div INODE_INDIRECT1_COUNT"
  have "l1_tree d k b = l1_tree d' k b" if "b \<in> set (take ?a l2)" for b k
    using assms [of b] that by (intro l1_tree_cong) (simp add: l2_tree_def l1_tree_def image_iff)
  moreover have "l1_tree d k (l2 ! ?a) = l1_tree d' k (l2 ! ?a)" if "n mod INODE_INDIRECT1_COUNT \<noteq> 0" for k
    using assms [of "l2 ! ?a"] that by (intro l1_tree_cong) (simp add: l2_tree_def l1_tree_def)
  ultimately show ?thesis
    by (simp add: l2_tree_def cong: map_cong)
qed

lemma length_l2_tree:
  assumes "n \<le> INODE_INDIRECT1_COUNT * length l2"
  shows "length (l2_tree n l2 d) = n + (n + INODE_INDIRECT1_COUNT - 1) div INODE_INDIRECT1_COUNT"
proof -
  obtain a b where n: "n = a * INODE_INDIRECT1_COUNT + b" and b: "b < INODE_INDIRECT1_COUNT"
    by (rule index_split)
  have a: "a \<le> length l2"
    using assms n by (simp add: layout_consts)
  have len: "length (concat (map (l1_tree d INODE_INDIRECT1_COUNT) (take a l2))) = a * 129"
    using a by (simp add: length_concat comp_def l1_tree_def sum_list_triv layout_consts)
  have "(n + INODE_INDIRECT1_COUNT - 1) div INODE_INDIRECT1_COUNT = a + (if b = 0 then 0 else 1)"
    unfolding n using ceil_div [OF b] .
  then show ?thesis
    unfolding l2_tree_at [OF n b] length_append len using b
    by (simp add: n l1_tree_def layout_consts)
qed

section \<open>Growing the double-indirect tree\<close>

lemma grows_trans:
  assumes "grows T d u T1 d1" and "grows T1 d1 u' T2 d2"
  shows "grows T d (u @ u') T2 d2"
proof -
  from assms obtain ts ts' where "T1 = T @ ts" "map snd ts = u" "T2 = T1 @ ts'" "map snd ts' = u'"
    unfolding grows_def by blast
  then have "T2 = T @ (ts @ ts') \<and> map snd (ts @ ts') = u @ u'"
    by simp
  moreover have "set T1 \<subseteq> set T2"
    using \<open>T2 = T1 @ ts'\<close> by simp
  ultimately show ?thesis
    using assms unfolding grows_def by (metis subsetD)
qed

lemma grows_refl: "wf_disk d \<Longrightarrow> grows T d [] T d"
  by (simp add: grows_def)

lemma grows_blocks_ok:
  assumes "grows T d (take k it) T1 d1" and "blocks_ok (map snd T @ it) d"
  shows "blocks_ok (map snd T1 @ drop k it) d1"
proof -
  have "map snd T1 @ drop k it = map snd T @ it" and "dom d1 = dom d"
    using assms(1) by (auto simp: grows_def)
  then show ?thesis
    using assms(2) by (simp add: blocks_ok_def)
qed

lemma blocks_ok_append: "blocks_ok (xs @ ys) d \<longleftrightarrow> blocks_ok xs d \<and> blocks_ok ys d \<and> set xs \<inter> set ys = {}"
  by (auto simp: blocks_ok_def)

lemma blocks_ok_Cons: "blocks_ok (x # xs) d \<longleftrightarrow> x < 2 ^ 32 \<and> x \<in> dom d \<and> x \<notin> set xs \<and> blocks_ok xs d"
  by (auto simp: blocks_ok_def)

lemma blocks_ok_take: "blocks_ok xs d \<Longrightarrow> blocks_ok (take k xs) d"
  by (auto simp: blocks_ok_def dest: in_set_takeD)

lemma blocks_ok_del: "blocks_ok bs d \<Longrightarrow> x \<notin> set bs \<Longrightarrow> blocks_ok bs (d(x := None))"
  by (auto simp: blocks_ok_def)

definition write_index :: "disk \<Rightarrow> nat \<Rightarrow> nat \<Rightarrow> nat list \<Rightarrow> disk" where
  \<comment> \<open>the disk after entries \<open>ys\<close> are stored from position \<open>n\<close> of the index block \<open>b\<close>\<close>
  "write_index d b n ys = d(b \<mapsto> IndirectBlock_to_bytes (splice n ys (index_block d b)))"

lemma wf_disk_write_index:
  "wf_disk d \<Longrightarrow> n + length ys \<le> INODE_INDIRECT1_COUNT \<Longrightarrow> wf_disk (write_index d b n ys)"
  by (simp add: write_index_def layout_consts)

lemma index_block_write_index:
  assumes "wf_disk d" and "b \<in> dom d" and "n + length ys \<le> INODE_INDIRECT1_COUNT"
    and "\<forall>y \<in> set ys. y < 2 ^ 32"
  shows "index_block (write_index d b n ys) b = splice n ys (index_block d b)"
proof -
  obtain blk where blk: "d b = Some blk" "length blk = BLOCK_SZ"
    using assms(1,2) wf_diskD by blast
  have "\<forall>x \<in> set (splice n ys (IndirectBlock_of_bytes blk)). x < 2 ^ 32"
    using set_splice [of n ys "IndirectBlock_of_bytes blk"] assms(4)
      IndirectBlock_of_bytes_less [OF blk(2)] by blast
  then show ?thesis
    using assms(3) by (simp add: write_index_def blk)
qed

lemma l1_tree_write_index:
  assumes "wf_disk d" and "b \<in> dom d" and "n + length ys \<le> INODE_INDIRECT1_COUNT"
    and "\<forall>y \<in> set ys. y < 2 ^ 32"
  shows "l1_tree (write_index d b n ys) (n + length ys) b = l1_tree d n b @ data_tags ys"
  using assms by (simp add: l1_tree_def index_block_write_index take_splice)

lemma write_index_other: "b' \<noteq> b \<Longrightarrow> write_index d b n ys b' = d b'"
  by (simp add: write_index_def)

lemma dom_write_index: "b \<in> dom d \<Longrightarrow> dom (write_index d b n ys) = dom d"
  by (auto simp: write_index_def)

lemma fill_block:
  assumes wf: "wf_disk d" and b: "b \<in> dom d" and "n \<le> stop" and "stop \<le> INODE_INDIRECT1_COUNT"
    and "stop - n \<le> length it"
  shows "with_block b (\<lambda>blk d. do {
           (a, c, it') \<leftarrow> fill n stop (IndirectBlock_of_bytes blk) it;
           Some ((f c it', IndirectBlock_to_bytes a), d) }) d =
         Some (f stop (drop (stop - n) it), write_index d b n (take (stop - n) it))"
  using assms by (auto simp: with_block_def fill_eq write_index_def)

lemma l2_step:
  assumes wf: "wf_disk d" and len: "length l2 = INODE_INDIRECT1_COUNT" and l2: "\<forall>x \<in> set l2. x < 2 ^ 32"
    and cur: "cur = a * INODE_INDIRECT1_COUNT + b" and b: "b < stop" and stop: "stop \<le> INODE_INDIRECT1_COUNT"
    and a: "a < INODE_INDIRECT1_COUNT"
    and ok: "blocks_ok (map snd (l2_tree cur l2 d) @ it) d"
    and pre: "pre = (if b = 0 then 1 else 0)" and enough: "pre + (stop - b) \<le> length it"
    and l2': "l2' = (if b = 0 then l2[a := hd it] else l2)"
    and d1: "d1 = write_index d (l2' ! a) b (take (stop - b) (drop pre it))"
  shows "grows (l2_tree cur l2 d) d (take (pre + (stop - b)) it)
      (l2_tree (a * INODE_INDIRECT1_COUNT + stop) l2' d1) d1" (is "grows ?T d ?u ?T' d1")
    and "l2' ! a \<in> dom d" and "length l2' = INODE_INDIRECT1_COUNT" and "\<forall>x \<in> set l2'. x < 2 ^ 32"
proof -
  let ?e = "l2' ! a" and ?ys = "take (stop - b) (drop pre it)"
  let ?C = "concat (map (l1_tree d INODE_INDIRECT1_COUNT) (take a l2))"
  have b128: "b < INODE_INDIRECT1_COUNT"
    using b stop by simp
  note T = l2_tree_at [OF cur b128]
  have ysl: "b + length ?ys = stop"
    using enough b by simp
  have itok: "blocks_ok it d" and dj: "set (map snd ?T) \<inter> set it = {}" and Tok: "blocks_ok (map snd ?T) d"
    using ok by (auto simp: blocks_ok_append)
  have ne: "b = 0 \<Longrightarrow> it \<noteq> []"
    using pre enough by auto
  have e: "?e = (if b = 0 then hd it else l2 ! a)"
    using a len by (simp add: l2')
  have e_in: "?e \<in> set (map snd ?T) \<or> b = 0 \<and> ?e \<in> set it"
    using ne by (cases "b = 0") (auto simp: e T l1_tree_def)
  then show edom: "?e \<in> dom d"
    using Tok itok unfolding blocks_ok_def by blast
  show "length l2' = INODE_INDIRECT1_COUNT"
    using len by (simp add: l2')
  show l2'32: "\<forall>x \<in> set l2'. x < 2 ^ 32"
    using l2 itok ne set_update_subset_insert [of l2 a "hd it"] hd_in_set [of it]
    by (auto simp: l2' blocks_ok_def)
  have fresh: "?e \<notin> set (map snd ?C)"
  proof (cases "b = 0")
    case True
    then have "?e \<in> set it"
      using ne by (simp add: e)
    with dj show ?thesis
      by (auto simp: T True)
  next
    case False
    then have "distinct (map snd ?C @ map snd (l1_tree d b (l2 ! a)))"
      using Tok by (simp add: T blocks_ok_def)
    then show ?thesis
      using False by (auto simp: e l1_tree_def)
  qed
  have "b' \<noteq> ?e" if "b' \<in> set (take a l2)" for b'
    using fresh that by (force simp: l1_tree_def image_iff)
  then have C: "concat (map (l1_tree d1 INODE_INDIRECT1_COUNT) (take a l2)) = ?C"
    by (auto intro!: arg_cong [of _ _ concat] l1_tree_cong simp: d1 write_index_other)
  have ys32: "\<forall>y \<in> set ?ys. y < 2 ^ 32"
    using itok by (auto simp: blocks_ok_def dest!: in_set_takeD in_set_dropD)
  have l1: "l1_tree d1 stop ?e = l1_tree d b ?e @ data_tags ?ys"
    using l1_tree_write_index [OF wf edom _ ys32, of b] ysl stop by (simp add: d1)
  have "?T' = ?C @ l1_tree d1 stop ?e"
    using l2_tree_step [of a l2' stop d1] a len b stop C
    by (simp add: l2_tree_def l2')
  also have "\<dots> = ?T @ (if b = 0 then [(False, hd it)] else []) @ data_tags ?ys"
    unfolding l1 by (simp add: T e l1_tree_def)
  finally have T': "?T' = ?T @ (if b = 0 then [(False, hd it)] else []) @ data_tags ?ys" .
  have "take (pre + (stop - b)) it = (if b = 0 then [hd it] else []) @ ?ys"
    using ne by (cases it) (auto simp: pre)
  then have "map snd ((if b = 0 then [(False, hd it)] else []) @ data_tags ?ys) = ?u"
    by (simp add: comp_def)
  moreover have "(False, ?e) \<in> set ?T'"
    unfolding T' by (auto simp: e T l1_tree_def)
  moreover have "wf_disk d1"
    using wf_disk_write_index [OF wf] ysl stop by (simp add: d1)
  moreover have "d1 b' = d b'" if "(False, b') \<notin> set ?T'" for b'
    using calculation(2) that by (metis d1 write_index_other)
  ultimately show "grows ?T d ?u ?T' d1"
    using T' dom_write_index [OF edom] unfolding grows_def d1 by blast
qed

definition l2_total :: "nat \<Rightarrow> nat" where
  "l2_total n = n + (n + INODE_INDIRECT1_COUNT - 1) div INODE_INDIRECT1_COUNT"

lemma l2_total_at:
  "b < INODE_INDIRECT1_COUNT \<Longrightarrow>
   l2_total (a * INODE_INDIRECT1_COUNT + b) = a * INODE_INDIRECT1_COUNT + b + a + (if b = 0 then 0 else 1)"
  unfolding l2_total_def by (simp only: ceil_div)

lemma l2_total_step:
  assumes "b < stop" and "stop \<le> INODE_INDIRECT1_COUNT"
  shows "l2_total (a * INODE_INDIRECT1_COUNT + stop) =
    l2_total (a * INODE_INDIRECT1_COUNT + b) + ((if b = 0 then 1 else 0) + (stop - b))"
proof (cases "stop = INODE_INDIRECT1_COUNT")
  case True
  then have "a * INODE_INDIRECT1_COUNT + stop = (a + 1) * INODE_INDIRECT1_COUNT + 0"
    by simp
  then show ?thesis
    using assms True l2_total_at [of b a] l2_total_at [of 0 "a + 1"]
    by (simp add: layout_consts add.commute)
next
  case False
  then show ?thesis
    using assms by (simp add: l2_total_at)
qed

lemma l2_total_mono: "m \<le> n \<Longrightarrow> l2_total m \<le> l2_total n"
  by (auto simp: l2_total_def intro!: add_mono div_le_mono)

lemma fill_indirect2_unfold:
  assumes lt: "cur < new" and cur: "cur = a * INODE_INDIRECT1_COUNT + b" and b: "b < INODE_INDIRECT1_COUNT"
    and stop: "stop = (if a < new div INODE_INDIRECT1_COUNT then INODE_INDIRECT1_COUNT else new mod INODE_INDIRECT1_COUNT)"
    and wf: "wf_disk d" and len: "length l2 = INODE_INDIRECT1_COUNT" and a: "a < INODE_INDIRECT1_COUNT"
    and bs: "b \<le> stop" "stop \<le> INODE_INDIRECT1_COUNT"
    and pre: "pre = (if b = 0 then 1 else 0)" and enough: "pre + (stop - b) \<le> length it"
    and l2': "l2' = (if b = 0 then l2[a := hd it] else l2)" and e: "l2' ! a \<in> dom d"
  shows "fill_indirect2 cur new l2 it d =
    fill_indirect2 (a * INODE_INDIRECT1_COUNT + stop) new l2' (drop (pre + (stop - b)) it)
      (write_index d (l2' ! a) b (take (stop - b) (drop pre it)))"
proof -
  have ab: "cur div INODE_INDIRECT1_COUNT = a" "cur mod INODE_INDIRECT1_COUNT = b"
    using b by (simp_all add: cur)
  have first: "(if b = 0 then do { (x, it') \<leftarrow> next_unwrap it; l2 \<leftarrow> index_set l2 a x; Some (l2, it') }
      else Some (l2, it)) = Some (l2', drop pre it)"
    using enough a len by (cases it) (auto simp: pre l2' split: if_splits)
  have get: "index_get l2' a = Some (l2' ! a)"
    using a len by (simp add: l2')
  have fill: "with_block (l2' ! a) (\<lambda>blk d. do {
           (x, c, it'') \<leftarrow> fill b stop (IndirectBlock_of_bytes blk) (drop pre it);
           Some ((it'', IndirectBlock_to_bytes x), d) }) d =
      Some (drop (stop - b) (drop pre it), write_index d (l2' ! a) b (take (stop - b) (drop pre it)))"
    using fill_block [OF wf e bs, of "drop pre it" "\<lambda>_ it. it"] enough by simp
  have cur': "cur + (stop - b) = a * INODE_INDIRECT1_COUNT + stop"
    using bs(1) by (simp add: cur)
  show ?thesis
    using lt
    by (subst fill_indirect2.simps)
      (simp add: Let_def ab stop [symmetric] first get fill cur' add.commute)
qed

lemma fill_indirect2_grows:
  assumes "cur \<le> new" and "new \<le> INODE_INDIRECT2_COUNT" and "length l2 = INODE_INDIRECT1_COUNT"
    and "\<forall>x \<in> set l2. x < 2 ^ 32" and "wf_disk d"
    and "blocks_ok (map snd (l2_tree cur l2 d) @ it) d" and "l2_total new - l2_total cur \<le> length it"
  shows "\<exists>l2' d'. fill_indirect2 cur new l2 it d = Some (l2', d') \<and>
    grows (l2_tree cur l2 d) d (take (l2_total new - l2_total cur) it) (l2_tree new l2' d') d' \<and>
    length l2' = INODE_INDIRECT1_COUNT \<and> (\<forall>x \<in> set l2'. x < 2 ^ 32)"
  using assms
proof (induction "new - cur" arbitrary: cur l2 it d rule: less_induct)
  case less
  show ?case
  proof (cases "cur = new")
    case True
    then show ?thesis
      using less.prems by (subst fill_indirect2.simps) (simp add: grows_refl)
  next
    case False
    then have lt: "cur < new"
      using less.prems by simp
    obtain a b where cur: "cur = a * INODE_INDIRECT1_COUNT + b" and b: "b < INODE_INDIRECT1_COUNT"
      by (rule index_split)
    define stop where "stop = (if a < new div INODE_INDIRECT1_COUNT then INODE_INDIRECT1_COUNT
      else new mod INODE_INDIRECT1_COUNT)"
    have ab: "cur div INODE_INDIRECT1_COUNT = a" "cur mod INODE_INDIRECT1_COUNT = b"
      using b by (simp_all add: cur)
    have bs: "b < stop" "stop \<le> INODE_INDIRECT1_COUNT"
      using l2_progress [OF lt, of INODE_INDIRECT1_COUNT] b ab by (auto simp: stop_def)
    have a: "a < INODE_INDIRECT1_COUNT"
      using lt less.prems(2) by (simp add: cur layout_consts)
    have nx: "a * INODE_INDIRECT1_COUNT + stop \<le> new"
    proof (cases "a < new div INODE_INDIRECT1_COUNT")
      case True
      then have "(a + 1) * INODE_INDIRECT1_COUNT \<le> new"
        by (metis Suc_eq_plus1 Suc_leI div_times_less_eq_dividend mult_le_mono1 order_trans)
      with True show ?thesis by (simp add: stop_def)
    next
      case False
      then have "a = new div INODE_INDIRECT1_COUNT"
        using div_le_mono [of cur new INODE_INDIRECT1_COUNT] lt ab by simp
      with False show ?thesis by (simp add: stop_def)
    qed
    define pre where "pre = (if b = 0 then 1 else (0 :: nat))"
    define l2' where "l2' = (if b = 0 then l2[a := hd it] else l2)"
    define d1 where "d1 = write_index d (l2' ! a) b (take (stop - b) (drop pre it))"
    have tot: "l2_total (a * INODE_INDIRECT1_COUNT + stop) = l2_total cur + (pre + (stop - b))"
      using l2_total_step [OF bs] by (simp add: cur pre_def)
    have enough: "pre + (stop - b) \<le> length it"
      using less.prems(7) l2_total_mono [OF nx] tot by linarith
    note step = l2_step [OF less.prems(5,3,4) cur bs a less.prems(6) pre_def enough l2'_def d1_def]
    have unf: "fill_indirect2 cur new l2 it d =
        fill_indirect2 (a * INODE_INDIRECT1_COUNT + stop) new l2' (drop (pre + (stop - b)) it) d1"
      unfolding d1_def
      using fill_indirect2_unfold [OF lt cur b stop_def less.prems(5,3) a less_imp_le [OF bs(1)] bs(2) pre_def enough
          l2'_def step(2)] .
    have dec: "new - (a * INODE_INDIRECT1_COUNT + stop) < new - cur"
      using bs(1) nx by (simp add: cur)
    have rest: "l2_total new - l2_total (a * INODE_INDIRECT1_COUNT + stop) \<le> length (drop (pre + (stop - b)) it)"
      using less.prems(7) tot by simp
    have wf1: "wf_disk d1"
      using step(1) by (simp add: grows_def)
    from less.hyps [OF dec nx less.prems(2) step(3,4) wf1 grows_blocks_ok [OF step(1) less.prems(6)] rest]
    obtain l3 d3 where r: "fill_indirect2 (a * INODE_INDIRECT1_COUNT + stop) new l2' (drop (pre + (stop - b)) it) d1 = Some (l3, d3)"
      "grows (l2_tree (a * INODE_INDIRECT1_COUNT + stop) l2' d1) d1
        (take (l2_total new - l2_total (a * INODE_INDIRECT1_COUNT + stop)) (drop (pre + (stop - b)) it))
        (l2_tree new l3 d3) d3"
      "length l3 = INODE_INDIRECT1_COUNT" "\<forall>x \<in> set l3. x < 2 ^ 32"
      by blast
    have "take (pre + (stop - b)) it @
        take (l2_total new - l2_total (a * INODE_INDIRECT1_COUNT + stop)) (drop (pre + (stop - b)) it) =
        take (l2_total new - l2_total cur) it"
      using l2_total_mono [OF nx] tot by (simp add: take_add [symmetric])
    with grows_trans [OF step(1) r(2)] r unf show ?thesis
      by simp
  qed
qed

lemma locked_fill_indirect2:
  assumes wf: "wf_disk d" and x: "x < 2 ^ 32" "x \<in> dom d" and le: "cur \<le> new" "new \<le> INODE_INDIRECT2_COUNT"
    and ok: "blocks_ok (map snd ((False, x) # l2_tree cur (index_block d x) d) @ it) d"
    and enough: "l2_total new - l2_total cur \<le> length it"
  shows "\<exists>d'. with_block x (\<lambda>blk d. do {
        (l2, d') \<leftarrow> fill_indirect2 cur new (IndirectBlock_of_bytes blk) it d;
        Some (((), IndirectBlock_to_bytes l2), d') }) d = Some ((), d') \<and>
      grows ((False, x) # l2_tree cur (index_block d x) d) d (take (l2_total new - l2_total cur) it)
        ((False, x) # l2_tree new (index_block d' x) d') d'"
proof -
  let ?l2 = "index_block d x" and ?D = "d(x := None)"
  obtain blk where blk: "d x = Some blk" "length blk = BLOCK_SZ"
    using wf x(2) wf_diskD by blast
  have nx: "x \<notin> set (map snd (l2_tree cur ?l2 d) @ it)"
    and ok': "blocks_ok (map snd (l2_tree cur ?l2 d) @ it) d"
    using ok by (simp_all add: blocks_ok_Cons)
  have T: "l2_tree cur ?l2 d = l2_tree cur ?l2 ?D"
    using nx by (intro l2_tree_cong) force
  have okD: "blocks_ok (map snd (l2_tree cur ?l2 ?D) @ it) ?D"
    unfolding T [symmetric] by (rule blocks_ok_del [OF ok' nx])
  obtain l2' D' where f: "fill_indirect2 cur new ?l2 it ?D = Some (l2', D')"
    "grows (l2_tree cur ?l2 ?D) ?D (take (l2_total new - l2_total cur) it) (l2_tree new l2' D') D'"
    "length l2' = INODE_INDIRECT1_COUNT" "\<forall>x \<in> set l2'. x < 2 ^ 32"
    using fill_indirect2_grows [OF le, of ?l2 ?D it] okD enough wf
      IndirectBlock_of_bytes_less [OF blk(2)] by (auto simp: blk)
  let ?d' = "D'(x \<mapsto> IndirectBlock_to_bytes l2')"
  have dom: "dom D' = dom d - {x}"
    using f(2) by (auto simp: grows_def)
  have "blocks_ok (map snd (l2_tree new l2' D') @ drop (l2_total new - l2_total cur) it) D'"
    by (rule grows_blocks_ok [OF f(2) okD])
  then have "set (map snd (l2_tree new l2' D')) \<subseteq> dom D'"
    by (auto simp: blocks_ok_def)
  then have x': "x \<notin> set (map snd (l2_tree new l2' D'))"
    using dom by auto
  have T': "l2_tree new l2' D' = l2_tree new (index_block ?d' x) ?d'"
  proof -
    have "index_block ?d' x = l2'"
      using f(3,4) by simp
    moreover have "l2_tree new l2' D' = l2_tree new l2' ?d'"
      using x' by (intro l2_tree_cong) force
    ultimately show ?thesis by metis
  qed
  have "grows ((False, x) # l2_tree cur ?l2 d) d (take (l2_total new - l2_total cur) it)
      ((False, x) # l2_tree new (index_block ?d' x) ?d') ?d'"
  proof -
    have "dom ?d' = dom d"
      using dom x(2) by auto
    moreover have "wf_disk ?d'"
      using f(2,3) by (simp add: grows_def layout_consts)
    moreover have "?d' b = d b" if "(False, b) \<notin> set ((False, x) # l2_tree new l2' D')" for b
    proof -
      have "b \<noteq> x" and "D' b = ?D b"
        using that f(2) by (auto simp: grows_def)
      then show ?thesis by simp
    qed
    ultimately show ?thesis
      unfolding T' [symmetric] T using f(2) unfolding grows_def by auto
  qed
  then show ?thesis
    using f(1) blk(1) by (auto simp: with_block_def)
qed

section \<open>Growing the rest of the tree\<close>

definition t2_total :: "nat \<Rightarrow> nat" where
  "t2_total n = (if n > INODE_INDIRECT1_COUNT then 1 + l2_total (n - INODE_INDIRECT1_COUNT) else 0)"

definition t1_total :: "nat \<Rightarrow> nat" where
  "t1_total n = (if n > INODE_DIRECT_COUNT
     then 1 + min INODE_INDIRECT1_COUNT (n - INODE_DIRECT_COUNT) + t2_total (n - INODE_DIRECT_COUNT) else 0)"

lemma l2_total_0 [simp]: "l2_total 0 = 0"
  by (simp add: l2_total_def layout_consts)

lemma l2_tree_0 [simp]: "l2_tree 0 l2 d = []"
  by (simp add: l2_tree_def)

lemma increase_indirect2_grows:
  assumes wf: "wf_disk d" and le: "INODE_INDIRECT1_COUNT \<le> c \<or> m \<le> INODE_INDIRECT1_COUNT" "c \<le> m"
      "m \<le> INODE_INDIRECT1_COUNT + INODE_INDIRECT2_COUNT"
    and ok: "blocks_ok (map snd (indirect2_tree (di_indirect2 di) c d) @ it) d"
    and enough: "t2_total m - t2_total c \<le> length it"
  shows "\<exists>x d'. increase_indirect2 c m it di d = Some (di\<lparr>di_indirect2 := x\<rparr>, d') \<and>
    (x = di_indirect2 di \<or> x \<in> set it) \<and>
    grows (indirect2_tree (di_indirect2 di) c d) d (take (t2_total m - t2_total c) it)
      (indirect2_tree x m d') d'"
proof (cases "m > INODE_INDIRECT1_COUNT")
  case False
  then have "increase_indirect2 c m it di d = Some (di\<lparr>di_indirect2 := di_indirect2 di\<rparr>, d)"
    by (simp add: increase_indirect2_def)
  moreover have "grows (indirect2_tree (di_indirect2 di) c d) d (take (t2_total m - t2_total c) it)
      (indirect2_tree (di_indirect2 di) m d) d"
    using False le(2) wf by (simp add: indirect2_tree_def t2_total_def grows_refl)
  ultimately show ?thesis by blast
next
  case True
  then have c: "INODE_INDIRECT1_COUNT \<le> c"
    using le(1) by simp
  let ?c = "c - INODE_INDIRECT1_COUNT" and ?m = "m - INODE_INDIRECT1_COUNT"
  define x where "x = (if c = INODE_INDIRECT1_COUNT then hd it else di_indirect2 di)"
  define it' where "it' = (if c = INODE_INDIRECT1_COUNT then tl it else it)"
  have ne: "c = INODE_INDIRECT1_COUNT \<Longrightarrow> it = x # it'"
    using enough True by (cases it) (auto simp: t2_total_def x_def it'_def)
  have T: "(False, x) # l2_tree ?c (index_block d x) d =
      indirect2_tree (di_indirect2 di) c d @ (if c = INODE_INDIRECT1_COUNT then [(False, x)] else [])"
    using c by (auto simp: indirect2_tree_def x_def)
  have ok': "blocks_ok (map snd ((False, x) # l2_tree ?c (index_block d x) d) @ it') d"
    unfolding T using ok ne c by (auto simp: it'_def)
  then have x: "x < 2 ^ 32" "x \<in> dom d"
    by (simp_all add: blocks_ok_Cons)
  have need: "t2_total m - t2_total c =
      (if c = INODE_INDIRECT1_COUNT then 1 else 0) + (l2_total ?m - l2_total ?c)"
    using True c by (auto simp: t2_total_def)
  have en: "l2_total ?m - l2_total ?c \<le> length it'"
    using enough need ne by (auto simp: it'_def split: if_splits)
  have cm: "?c \<le> ?m" "?m \<le> INODE_INDIRECT2_COUNT"
    using le by simp_all
  obtain d' where r: "with_block x (\<lambda>blk d. do {
        (l2, d') \<leftarrow> fill_indirect2 ?c ?m (IndirectBlock_of_bytes blk) it' d;
        Some (((), IndirectBlock_to_bytes l2), d') }) d = Some ((), d')"
      "grows ((False, x) # l2_tree ?c (index_block d x) d) d (take (l2_total ?m - l2_total ?c) it')
        ((False, x) # l2_tree ?m (index_block d' x) d') d'"
    using locked_fill_indirect2 [OF wf x cm ok' en] by blast
  have "increase_indirect2 c m it di d = Some (di\<lparr>di_indirect2 := x\<rparr>, d')"
  proof (cases "c = INODE_INDIRECT1_COUNT")
    case c128: True
    show ?thesis
      using True r(1) by (simp add: increase_indirect2_def c128 ne [OF c128])
  next
    case False
    then show ?thesis
      using True r(1) by (simp add: increase_indirect2_def x_def it'_def)
  qed
  moreover have "x = di_indirect2 di \<or> x \<in> set it"
    using ne by (metis list.set_intros(1) x_def)
  moreover have "take (t2_total m - t2_total c) it =
      (if c = INODE_INDIRECT1_COUNT then [x] else []) @ take (l2_total ?m - l2_total ?c) it'"
    using ne by (cases it) (auto simp: need it'_def)
  then have "grows (indirect2_tree (di_indirect2 di) c d) d (take (t2_total m - t2_total c) it)
      (indirect2_tree x m d') d'"
    using r(2) True unfolding T grows_def indirect2_tree_def [of x]
    by (auto simp: split: if_splits)
  ultimately show ?thesis by blast
qed

lemma fill_block':
  assumes wf: "wf_disk d" and b: "b \<in> dom d" and "n \<le> m" and "min INODE_INDIRECT1_COUNT m - n \<le> length it"
  shows "with_block b (\<lambda>blk d. do {
           (a, c, it') \<leftarrow> fill n (min INODE_INDIRECT1_COUNT m) (IndirectBlock_of_bytes blk) it;
           Some (((c, it'), IndirectBlock_to_bytes a), d) }) d =
         Some ((max n (min INODE_INDIRECT1_COUNT m), drop (min INODE_INDIRECT1_COUNT m - n) it),
           (if n \<le> INODE_INDIRECT1_COUNT then write_index d b n (take (min INODE_INDIRECT1_COUNT m - n) it) else d))"
proof (cases "n \<le> INODE_INDIRECT1_COUNT")
  case True
  then show ?thesis
    using fill_block [OF wf b, of n "min INODE_INDIRECT1_COUNT m" it Pair] assms(3,4)
    by (simp add: max_absorb2)
next
  case False
  then have "min INODE_INDIRECT1_COUNT m \<le> n"
    by simp
  then show ?thesis
    using False wf b
    by (auto simp: with_block_def fill_noop max_absorb1 fun_upd_idem dest: wf_diskD)
qed

lemma indirect2_tree_cong:
  assumes "\<And>b. (False, b) \<in> set (indirect2_tree x n d) \<Longrightarrow> d b = d' b"
  shows "indirect2_tree x n d = indirect2_tree x n d'"
proof (cases "n > INODE_INDIRECT1_COUNT")
  case True
  then have x: "d x = d' x"
    using assms [of x] by (simp add: indirect2_tree_def)
  have "l2_tree (n - INODE_INDIRECT1_COUNT) (index_block d x) d = l2_tree (n - INODE_INDIRECT1_COUNT) (index_block d x) d'"
    using True by (intro l2_tree_cong assms) (simp add: indirect2_tree_def)
  with x show ?thesis
    by (simp add: indirect2_tree_def)
qed (simp add: indirect2_tree_def)

lemma grows_append_left:
  assumes "grows T d u T' d'"
  shows "grows (S @ T) d u (S @ T') d'"
  using assms by (auto simp: grows_def)

lemma t2_total_le: "n \<le> INODE_INDIRECT1_COUNT \<Longrightarrow> t2_total n = 0"
  by (simp add: t2_total_def)

lemma t2_total_mono: "m \<le> n \<Longrightarrow> t2_total m \<le> t2_total n"
  by (auto simp: t2_total_def intro: l2_total_mono)

lemma indirect2_tree_le: "n \<le> INODE_INDIRECT1_COUNT \<Longrightarrow> indirect2_tree x n d = []"
  by (simp add: indirect2_tree_def)

text \<open>The single-indirect block with \<open>c\<close> data blocks grows to hold \<open>min 128 m\<close> of them.\<close>

lemma indirect1_fill_grows:
  assumes wf: "wf_disk d" and cm: "c \<le> m" and ok: "blocks_ok (map snd (l1_tree d c x @ indirect2_tree y c d) @ it) d"
    and enough: "min INODE_INDIRECT1_COUNT m - c \<le> length it"
    and c': "c' = max c (min INODE_INDIRECT1_COUNT m)" and k: "k = min INODE_INDIRECT1_COUNT m - c"
    and d1: "d1 = (if c \<le> INODE_INDIRECT1_COUNT then write_index d x c (take k it) else d)"
  shows "grows (l1_tree d c x @ indirect2_tree y c d) d (take k it) (l1_tree d1 c' x @ indirect2_tree y c' d1) d1"
proof (cases "c \<le> INODE_INDIRECT1_COUNT")
  case False
  then have "c' = c" and "k = 0"
    by (simp_all add: c' k)
  then show ?thesis
    using False wf by (simp add: d1 grows_refl)
next
  case True
  then have c'le: "c' = c + length (take k it)" "c' \<le> INODE_INDIRECT1_COUNT"
    using cm enough by (auto simp: c' k)
  have x: "x \<in> dom d"
    using ok by (simp add: l1_tree_def blocks_ok_Cons)
  have ys: "\<forall>y \<in> set (take k it). y < 2 ^ 32"
    using ok by (auto simp: blocks_ok_def dest: in_set_takeD)
  have "l1_tree d1 c' x = l1_tree d c x @ data_tags (take k it)"
    using l1_tree_write_index [OF wf x _ ys, of c] c'le True by (simp add: d1)
  then show ?thesis
    using True c'le wf_disk_write_index [OF wf, of c "take k it" x] dom_write_index [OF x]
      write_index_other [of _ x d]
    by (auto simp: grows_def indirect2_tree_le d1 comp_def l1_tree_def)
qed

lemma indirect1_stages:
  assumes wf: "wf_disk d" and cm: "c \<le> m" "m \<le> INODE_INDIRECT1_COUNT + INODE_INDIRECT2_COUNT"
    and ok: "blocks_ok (map snd (l1_tree d c (di_indirect1 di) @ indirect2_tree (di_indirect2 di) c d) @ it) d"
    and enough: "(min INODE_INDIRECT1_COUNT m - c) + (t2_total m - t2_total c) \<le> length it"
  shows "\<exists>y d'. do {
        ((c', it'), d1) \<leftarrow> with_block (di_indirect1 di)
          (\<lambda>blk d. do {
             (a, c', it') \<leftarrow> fill c (min INODE_INDIRECT1_COUNT m) (IndirectBlock_of_bytes blk) it;
             Some (((c', it'), IndirectBlock_to_bytes a), d) }) d;
        increase_indirect2 c' m it' di d1 } = Some (di\<lparr>di_indirect2 := y\<rparr>, d') \<and>
      (y = di_indirect2 di \<or> y \<in> set it) \<and>
      grows (l1_tree d c (di_indirect1 di) @ indirect2_tree (di_indirect2 di) c d) d
        (take ((min INODE_INDIRECT1_COUNT m - c) + (t2_total m - t2_total c)) it)
        (l1_tree d' m (di_indirect1 di) @ indirect2_tree y m d') d'"
proof -
  let ?x = "di_indirect1 di" and ?y = "di_indirect2 di"
  define c' where "c' = max c (min INODE_INDIRECT1_COUNT m)"
  define k where "k = min INODE_INDIRECT1_COUNT m - c"
  define d1 where "d1 = (if c \<le> INODE_INDIRECT1_COUNT then write_index d ?x c (take k it) else d)"
  have x: "?x \<in> dom d"
    using ok by (simp add: l1_tree_def blocks_ok_Cons)
  have ken: "min INODE_INDIRECT1_COUNT m - c \<le> length it"
    using enough by simp
  note A = indirect1_fill_grows [OF wf cm(1) ok ken c'_def k_def d1_def]
  note okA = grows_blocks_ok [OF A ok]
  have c': "INODE_INDIRECT1_COUNT \<le> c' \<or> m \<le> INODE_INDIRECT1_COUNT" "c' \<le> m"
    using cm by (auto simp: c'_def)
  have t2c: "t2_total c' = t2_total c"
    by (auto simp: c'_def max_def min_def t2_total_le)
  have "blocks_ok (map snd (indirect2_tree ?y c' d1) @ drop k it) d1"
    using okA by (auto simp: blocks_ok_append)
  moreover have "t2_total m - t2_total c' \<le> length (drop k it)"
    using enough t2c by (simp add: k_def)
  ultimately obtain y d2 where B: "increase_indirect2 c' m (drop k it) di d1 = Some (di\<lparr>di_indirect2 := y\<rparr>, d2)"
      "y = ?y \<or> y \<in> set (drop k it)"
      "grows (indirect2_tree ?y c' d1) d1 (take (t2_total m - t2_total c') (drop k it)) (indirect2_tree y m d2) d2"
    using increase_indirect2_grows [OF _ c' cm(2), of d1 di "drop k it"] A by (auto simp: grows_def)
  note AB = grows_trans [OF A grows_append_left [OF B(3)]]
  have "blocks_ok (map snd (l1_tree d1 c' ?x @ indirect2_tree y m d2) @
      drop (t2_total m - t2_total c') (drop k it)) d2"
    by (rule grows_blocks_ok [OF grows_append_left [OF B(3)] okA])
  then have "?x \<notin> set (map snd (indirect2_tree y m d2))"
    by (auto simp: blocks_ok_def l1_tree_def)
  then have "(False, ?x) \<notin> set (indirect2_tree y m d2)"
    by force
  then have "d2 ?x = d1 ?x"
    using B(3) by (simp add: grows_def)
  then have l1: "l1_tree d2 m ?x = l1_tree d1 c' ?x"
    using c' cm(1) by (auto simp: l1_tree_def c'_def min_def)
  have "take k it @ take (t2_total m - t2_total c') (drop k it) =
      take ((min INODE_INDIRECT1_COUNT m - c) + (t2_total m - t2_total c)) it"
    by (simp add: take_add k_def t2c)
  with AB have "grows (l1_tree d c ?x @ indirect2_tree ?y c d) d
      (take ((min INODE_INDIRECT1_COUNT m - c) + (t2_total m - t2_total c)) it)
      (l1_tree d2 m ?x @ indirect2_tree y m d2) d2"
    by (simp add: l1)
  moreover have "y = ?y \<or> y \<in> set it"
    using B(2) by (auto dest: in_set_dropD)
  moreover note wb = fill_block' [OF wf x cm(1) ken, folded k_def c'_def, folded d1_def]
  ultimately show ?thesis
    using B(1) by (auto simp: wb)
qed

lemma increase_indirect1_grows:
  assumes wf: "wf_disk d" and nm: "INODE_DIRECT_COUNT \<le> n \<or> m \<le> INODE_DIRECT_COUNT" "n \<le> m" "m \<le> MAX_BLOCKS"
    and ok: "blocks_ok (map snd (indirect1_tree di n d) @ it) d"
    and enough: "t1_total m - t1_total n \<le> length it"
  shows "\<exists>x y d'. increase_indirect1 n m it di d = Some (di\<lparr>di_indirect1 := x, di_indirect2 := y\<rparr>, d') \<and>
    {x, y} \<subseteq> {di_indirect1 di, di_indirect2 di} \<union> set it \<and>
    grows (indirect1_tree di n d) d (take (t1_total m - t1_total n) it)
      (indirect1_tree (di\<lparr>di_indirect1 := x, di_indirect2 := y\<rparr>) m d') d'"
proof (cases "m > INODE_DIRECT_COUNT")
  case False
  then have "increase_indirect1 n m it di d =
      Some (di\<lparr>di_indirect1 := di_indirect1 di, di_indirect2 := di_indirect2 di\<rparr>, d)"
    by (simp add: increase_indirect1_def)
  moreover have "grows (indirect1_tree di n d) d (take (t1_total m - t1_total n) it)
      (indirect1_tree (di\<lparr>di_indirect1 := di_indirect1 di, di_indirect2 := di_indirect2 di\<rparr>) m d) d"
    using False nm(2) wf by (simp add: indirect1_tree_def t1_total_def grows_refl)
  ultimately show ?thesis by blast
next
  case True
  then have n: "INODE_DIRECT_COUNT \<le> n"
    using nm(1) by simp
  let ?c = "n - INODE_DIRECT_COUNT" and ?m = "m - INODE_DIRECT_COUNT"
  define x where "x = (if n = INODE_DIRECT_COUNT then hd it else di_indirect1 di)"
  define it' where "it' = (if n = INODE_DIRECT_COUNT then tl it else it)"
  let ?di = "di\<lparr>di_indirect1 := x\<rparr>"
  have ne: "n = INODE_DIRECT_COUNT \<Longrightarrow> it = x # it'"
    using enough True by (cases it) (auto simp: t1_total_def x_def it'_def)
  have T: "l1_tree d ?c x @ indirect2_tree (di_indirect2 di) ?c d =
      indirect1_tree di n d @ (if n = INODE_DIRECT_COUNT then [(False, x)] else [])"
    using n by (auto simp: indirect1_tree_def l1_tree_def indirect2_tree_le x_def)
  have ok': "blocks_ok (map snd (l1_tree d ?c (di_indirect1 ?di) @ indirect2_tree (di_indirect2 ?di) ?c d) @ it') d"
    using ok ne T by (auto simp: it'_def split: if_splits)
  let ?need = "(min INODE_INDIRECT1_COUNT ?m - ?c) + (t2_total ?m - t2_total ?c)"
  have need: "t1_total m - t1_total n = (if n = INODE_DIRECT_COUNT then 1 else 0) + ?need"
    using True n nm(2) t2_total_mono [of ?c ?m] t2_total_le [of 0]
    by (auto simp: t1_total_def min_def t2_total_le)
  have en: "?need \<le> length it'"
    using enough need by (cases it) (auto simp: it'_def)
  have cm: "?c \<le> ?m" "?m \<le> INODE_INDIRECT1_COUNT + INODE_INDIRECT2_COUNT"
    using nm by (simp_all add: MAX_BLOCKS_def layout_consts)
  obtain y d' where r: "do {
        ((c', it'), d1) \<leftarrow> with_block (di_indirect1 ?di)
          (\<lambda>blk d. do {
             (a, c', it'') \<leftarrow> fill ?c (min INODE_INDIRECT1_COUNT ?m) (IndirectBlock_of_bytes blk) it';
             Some (((c', it''), IndirectBlock_to_bytes a), d) }) d;
        increase_indirect2 c' ?m it' ?di d1 } = Some (?di\<lparr>di_indirect2 := y\<rparr>, d')"
      "y = di_indirect2 ?di \<or> y \<in> set it'"
      "grows (l1_tree d ?c (di_indirect1 ?di) @ indirect2_tree (di_indirect2 ?di) ?c d) d (take ?need it')
        (l1_tree d' ?m (di_indirect1 ?di) @ indirect2_tree y ?m d') d'"
    using indirect1_stages [OF wf cm ok' en] by (elim exE conjE) (rule that)
  have "increase_indirect1 n m it di d = Some (di\<lparr>di_indirect1 := x, di_indirect2 := y\<rparr>, d')"
  proof (cases "n = INODE_DIRECT_COUNT")
    case n26: True
    show ?thesis
      using True r(1) by (simp add: increase_indirect1_def n26 ne [OF n26] Let_def case_prod_unfold)
  next
    case False
    then show ?thesis
      using True r(1) by (simp add: increase_indirect1_def x_def it'_def Let_def case_prod_unfold)
  qed
  moreover have "{x, y} \<subseteq> {di_indirect1 di, di_indirect2 di} \<union> set it"
    using ne r(2) by (cases it) (auto simp: x_def it'_def split: if_splits)
  moreover have "take (t1_total m - t1_total n) it =
      (if n = INODE_DIRECT_COUNT then [x] else []) @ take ?need it'"
    using ne by (cases it) (auto simp: need it'_def)
  then have "grows (indirect1_tree di n d) d (take (t1_total m - t1_total n) it)
      (indirect1_tree (di\<lparr>di_indirect1 := x, di_indirect2 := y\<rparr>) m d') d'"
    using r(3) True unfolding grows_def indirect1_tree_def [of "di\<lparr>di_indirect1 := x, di_indirect2 := y\<rparr>"]
    by (simp add: T split: if_splits)
  ultimately show ?thesis by blast
qed

section \<open>Growing an inode\<close>

lemma data_blocks_bound:
  assumes "sz \<le> MAX_BLOCKS * BLOCK_SZ"
  shows "data_blocks_of_size sz = (sz + BLOCK_SZ - 1) div BLOCK_SZ" and "data_blocks_of_size sz \<le> MAX_BLOCKS"
proof -
  have "sz + BLOCK_SZ - 1 < 2 ^ 32"
    using assms by (simp add: MAX_BLOCKS_def layout_consts)
  then show eq: "data_blocks_of_size sz = (sz + BLOCK_SZ - 1) div BLOCK_SZ"
    by (simp add: data_blocks_of_size_def width_simps)
  have "(sz + BLOCK_SZ - 1) div BLOCK_SZ \<le> (MAX_BLOCKS * BLOCK_SZ + 0 + BLOCK_SZ - 1) div BLOCK_SZ"
    using assms by (intro div_le_mono) simp
  also have "\<dots> = MAX_BLOCKS"
    using ceil_div [of 0 BLOCK_SZ MAX_BLOCKS] by simp
  finally show "data_blocks_of_size sz \<le> MAX_BLOCKS"
    by (simp add: eq)
qed

lemma data_blocks_mono:
  "sz \<le> sz' \<Longrightarrow> sz' \<le> MAX_BLOCKS * BLOCK_SZ \<Longrightarrow> data_blocks_of_size sz \<le> data_blocks_of_size sz'"
  by (simp add: data_blocks_bound div_le_mono)

lemma tree_total_eq: "tree_total n = min INODE_DIRECT_COUNT n + t1_total n"
  by (auto simp: tree_total_def t1_total_def t2_total_def l2_total_def layout_consts)

lemma t1_total_mono: "m \<le> n \<Longrightarrow> t1_total m \<le> t1_total n"
  using t2_total_mono [of "m - INODE_DIRECT_COUNT" "n - INODE_DIRECT_COUNT"]
  by (auto simp: t1_total_def intro!: add_mono)

lemma tree_total_mono: "m \<le> n \<Longrightarrow> tree_total m \<le> tree_total n"
  using t1_total_mono [of m n] by (auto simp: tree_total_eq intro!: add_mono)

lemma total_blocks_eq:
  assumes "sz \<le> MAX_BLOCKS * BLOCK_SZ"
  shows "total_blocks sz = tree_total (data_blocks_of_size sz)" and "total_blocks sz < 2 ^ 32"
proof -
  have "tree_total (data_blocks_of_size sz) \<le> tree_total MAX_BLOCKS"
    using data_blocks_bound(2) [OF assms] by (rule tree_total_mono)
  also have "\<dots> < 2 ^ 32"
    by (simp add: tree_total_def MAX_BLOCKS_def layout_consts)
  finally have "tree_total (data_blocks_of_size sz) < 2 ^ 32" .
  then show "total_blocks sz = tree_total (data_blocks_of_size sz)"
    by (simp add: total_blocks_def tree_total_def Let_def width_simps DIRECT_BOUND_def)
  show "total_blocks sz < 2 ^ 32"
    by (simp add: total_blocks_def Let_def u32_def)
qed

lemma blocks_num_needed_eq:
  assumes "di_size di \<le> sz" and "sz \<le> MAX_BLOCKS * BLOCK_SZ"
  shows "blocks_num_needed di sz = Some (tree_total (data_blocks_of_size sz) - tree_total (data_blocks di))"
proof -
  have "total_blocks (di_size di) \<le> total_blocks sz"
    using assms by (simp add: total_blocks_eq(1) tree_total_mono data_blocks_mono)
  then show ?thesis
    using assms total_blocks_eq [of sz] total_blocks_eq [of "di_size di"]
    by (simp add: blocks_num_needed_def data_blocks_def u32_sub_id)
qed

lemma direct_fill_grows:
  assumes wf: "wf_disk d" and len: "length (di_direct di) = INODE_DIRECT_COUNT" and nm: "n \<le> m"
    and enough: "min INODE_DIRECT_COUNT m - n \<le> length it"
    and k: "k = min INODE_DIRECT_COUNT m - n" and c: "c = max n (min INODE_DIRECT_COUNT m)"
    and dd: "dd = (if n \<le> INODE_DIRECT_COUNT then splice n (take k it) (di_direct di) else di_direct di)"
  shows "fill n (min INODE_DIRECT_COUNT m) (di_direct di) it = Some (dd, c, drop k it)"
    and "grows (inode_tree di n d) d (take k it) (inode_tree (di\<lparr>di_direct := dd\<rparr>) c d) d"
    and "length dd = INODE_DIRECT_COUNT" and "set dd \<subseteq> set (di_direct di) \<union> set it"
proof -
  have kl: "n \<le> INODE_DIRECT_COUNT \<Longrightarrow> n + length (take k it) = c \<and> c \<le> INODE_DIRECT_COUNT"
    using enough nm by (auto simp: k c)
  show "fill n (min INODE_DIRECT_COUNT m) (di_direct di) it = Some (dd, c, drop k it)"
    using len nm enough fill_eq [of n "min INODE_DIRECT_COUNT m" "di_direct di" it]
      fill_noop [of "min INODE_DIRECT_COUNT m" n]
    by (cases "n \<le> INODE_DIRECT_COUNT") (auto simp: dd k c max_absorb1 max_absorb2)
  show "length dd = INODE_DIRECT_COUNT"
    using kl len by (auto simp: dd)
  show "set dd \<subseteq> set (di_direct di) \<union> set it"
    using set_splice [of n "take k it" "di_direct di"] set_take_subset [of k it] by (auto simp: dd)
  show "grows (inode_tree di n d) d (take k it) (inode_tree (di\<lparr>di_direct := dd\<rparr>) c d) d"
  proof (cases "n \<le> INODE_DIRECT_COUNT")
    case True
    then have "take c dd = take n (di_direct di) @ take k it"
      using kl len take_splice [of n "di_direct di" "take k it"] by (simp add: dd)
    then show ?thesis
      using True kl wf by (simp add: grows_def inode_tree_def indirect1_tree_def comp_def)
  next
    case False
    then show ?thesis
      using wf by (simp add: dd c k grows_refl)
  qed
qed

lemma inode_tree_fields: "inode_tree (di\<lparr>di_size := s\<rparr>) n d = inode_tree di n d"
  by (simp add: inode_tree_def indirect1_tree_def)

lemma increase_size_grows:
  assumes wf: "wf_disk d" "wf_fields di" and sz: "di_size di < new_size" "new_size \<le> MAX_BLOCKS * BLOCK_SZ"
    and n: "n = data_blocks di" and m: "m = data_blocks_of_size new_size"
    and ok: "blocks_ok (map snd (inode_tree di n d) @ nb) d"
    and enough: "tree_total m - tree_total n \<le> length nb"
  shows "\<exists>di' d'. increase_size new_size nb di d = Some (di', d') \<and> wf_fields di' \<and>
    di_size di' = new_size \<and> di_nlink di' = di_nlink di \<and> di_type di' = di_type di \<and>
    grows (inode_tree di n d) d (take (tree_total m - tree_total n) nb) (inode_tree di' m d') d'"
proof -
  let ?di = "di\<lparr>di_size := new_size\<rparr>"
  have nm: "n \<le> m" "m \<le> MAX_BLOCKS"
    using sz data_blocks_mono [of "di_size di" new_size] data_blocks_bound(2)
    by (simp_all add: n m data_blocks_def)
  define k where "k = min INODE_DIRECT_COUNT m - n"
  define c where "c = max n (min INODE_DIRECT_COUNT m)"
  define dd where "dd = (if n \<le> INODE_DIRECT_COUNT then splice n (take k nb) (di_direct ?di) else di_direct ?di)"
  have t1c: "t1_total c = t1_total n"
    by (auto simp: c_def t1_total_def max_def min_def)
  have t1mono: "t1_total n \<le> t1_total m"
    using nm(1) by (rule t1_total_mono)
  have need: "tree_total m - tree_total n = k + (t1_total m - t1_total c)"
    using nm(1) t1mono by (auto simp: tree_total_eq k_def t1c min_def)
  have ken: "min INODE_DIRECT_COUNT m - n \<le> length nb"
    using enough need by (simp add: k_def)
  have len: "length (di_direct ?di) = INODE_DIRECT_COUNT"
    using wf(2) by (simp add: wf_fields_def)
  note A = direct_fill_grows [OF wf(1) len nm(1) ken k_def c_def dd_def]
  let ?dj = "?di\<lparr>di_direct := dd\<rparr>"
  have ok': "blocks_ok (map snd (inode_tree ?di n d) @ nb) d"
    using ok by (simp add: inode_tree_fields)
  note okA = grows_blocks_ok [OF A(2) ok']
  have cm: "INODE_DIRECT_COUNT \<le> c \<or> m \<le> INODE_DIRECT_COUNT" "c \<le> m"
    using nm by (auto simp: c_def)
  have okB: "blocks_ok (map snd (indirect1_tree ?dj c d) @ drop k nb) d"
    using okA by (auto simp: inode_tree_def blocks_ok_append)
  have enB: "t1_total m - t1_total c \<le> length (drop k nb)"
    using enough need by simp
  obtain x y d' where B: "increase_indirect1 c m (drop k nb) ?dj d = Some (?dj\<lparr>di_indirect1 := x, di_indirect2 := y\<rparr>, d')"
    "{x, y} \<subseteq> {di_indirect1 ?dj, di_indirect2 ?dj} \<union> set (drop k nb)"
    "grows (indirect1_tree ?dj c d) d (take (t1_total m - t1_total c) (drop k nb))
      (indirect1_tree (?dj\<lparr>di_indirect1 := x, di_indirect2 := y\<rparr>) m d') d'"
    using increase_indirect1_grows [OF wf(1) cm nm(2) okB enB] by blast
  let ?d3 = "?dj\<lparr>di_indirect1 := x, di_indirect2 := y\<rparr>"
  have "take m dd = take c dd"
    using cm A(3) by (auto simp: c_def min_def)
  then have T3: "inode_tree ?d3 m d' = data_tags (take c dd) @ indirect1_tree ?d3 m d'"
    by (simp add: inode_tree_def)
  have "take k nb @ take (t1_total m - t1_total c) (drop k nb) = take (tree_total m - tree_total n) nb"
    by (simp add: need take_add)
  then have G: "grows (inode_tree di n d) d (take (tree_total m - tree_total n) nb) (inode_tree ?d3 m d') d'"
    using grows_trans [OF A(2) [unfolded inode_tree_def [of "?di\<lparr>di_direct := dd\<rparr>"]]
        grows_append_left [OF B(3), of "data_tags (take c (di_direct ?dj))"]] T3
    by (simp add: inode_tree_fields)
  have nb32: "\<forall>b \<in> set nb. b < 2 ^ 32"
    using ok by (auto simp: blocks_ok_def)
  then have "{x, y} \<subseteq> {b. b < 2 ^ 32}"
    using B(2) wf(2) by (auto simp: wf_fields_def dest: in_set_dropD)
  moreover have "\<forall>b \<in> set dd. b < 2 ^ 32"
    using A(4) nb32 wf(2) by (auto simp: wf_fields_def)
  moreover have "new_size < 2 ^ 32"
    using sz(2) by (simp add: MAX_BLOCKS_def layout_consts)
  ultimately have wf3: "wf_fields ?d3"
    using wf(2) A(3) by (simp add: wf_fields_def)
  have "blocks_num_needed di new_size = Some (tree_total m - tree_total n)"
    using blocks_num_needed_eq [of di new_size] sz by (simp add: n m)
  then have "increase_size new_size nb di d = Some (?d3, d')"
    using sz(1) enough A(1) B(1)
    by (simp add: increase_size_def Let_def n [symmetric] m [symmetric] data_blocks_def [of "_ \<lparr>di_size := _\<rparr>"])
  with wf3 G show ?thesis
    by simp
qed

end
