(* ===== verification/InodeData.thy ===== *)
theory InodeData
  imports InodeTree
begin

text \<open>
  The contents of a disk inode: \<open>content\<close> is the byte string a well-formed disk inode holds.
  \<open>read_at\<close> reads a slice of it, \<open>write_at\<close> overwrites one, \<open>increase_size\<close> extends it and
  \<open>clear_size\<close> gives back exactly the blocks of the tree.
\<close>

section \<open>Block numbers of the data\<close>

definition data_ids :: "tagged \<Rightarrow> nat list" where
  "data_ids T = map snd (filter fst T)"

lemma data_ids_append [simp]: "data_ids (S @ T) = data_ids S @ data_ids T"
  by (simp add: data_ids_def)

lemma data_ids_tags [simp]: "data_ids (data_tags xs) = xs"
  by (induction xs) (simp_all add: data_ids_def)

lemma data_ids_simps [simp]: "data_ids [] = []" "data_ids ((False, b) # T) = data_ids T"
  by (simp_all add: data_ids_def)

lemma data_ids_concat: "data_ids (concat Ts) = concat (map data_ids Ts)"
  by (induction Ts) simp_all

lemma data_ids_l1 [simp]: "data_ids (l1_tree d n b) = take n (index_block d b)"
  by (simp add: l1_tree_def)

lemma data_ids_subset: "set (data_ids T) \<subseteq> set (map snd T)"
  by (auto simp: data_ids_def)

lemma data_ids_distinct: "distinct (map snd T) \<Longrightarrow> distinct (data_ids T)"
  by (simp add: data_ids_def distinct_map_filter)

lemma data_not_index:
  assumes "distinct (map snd T)" and "b \<in> set (data_ids T)"
  shows "(False, b) \<notin> set T"
  using assms by (force simp: data_ids_def distinct_map inj_on_def)

lemma data_ids_l2:
  assumes "n \<le> INODE_INDIRECT1_COUNT * length l2" and "k < n"
  shows "length (data_ids (l2_tree n l2 d)) = n"
    and "data_ids (l2_tree n l2 d) ! k =
      index_block d (l2 ! (k div INODE_INDIRECT1_COUNT)) ! (k mod INODE_INDIRECT1_COUNT)"
proof -
  obtain a b where n: "n = a * INODE_INDIRECT1_COUNT + b" and b: "b < INODE_INDIRECT1_COUNT"
    by (rule index_split)
  have a: "a \<le> length l2" "b \<noteq> 0 \<Longrightarrow> a < length l2"
    using assms(1) by (auto simp: n layout_consts)
  let ?C = "concat (map (index_block d) (take a l2))"
  have C: "data_ids (concat (map (l1_tree d INODE_INDIRECT1_COUNT) (take a l2))) = ?C"
    by (simp add: data_ids_concat comp_def)
  have lenC: "length ?C = a * INODE_INDIRECT1_COUNT"
    using length_concat_pieces [of "take a l2" "index_block d" INODE_INDIRECT1_COUNT] a(1) by simp
  have D: "data_ids (l2_tree n l2 d) = ?C @ (if b = 0 then [] else take b (index_block d (l2 ! a)))"
    unfolding l2_tree_at [OF n b] by (simp add: C)
  show "length (data_ids (l2_tree n l2 d)) = n"
    unfolding D length_append lenC using b by (simp add: n)
  show "data_ids (l2_tree n l2 d) ! k =
      index_block d (l2 ! (k div INODE_INDIRECT1_COUNT)) ! (k mod INODE_INDIRECT1_COUNT)"
  proof (cases "k < a * INODE_INDIRECT1_COUNT")
    case True
    then have "k div INODE_INDIRECT1_COUNT < a"
      by (simp add: div_less_iff_less_mult layout_consts)
    moreover have "?C ! k = index_block d (take a l2 ! (k div INODE_INDIRECT1_COUNT)) ! (k mod INODE_INDIRECT1_COUNT)"
      using nth_concat_pieces [of "take a l2" "index_block d" INODE_INDIRECT1_COUNT k] True a(1) by simp
    ultimately show ?thesis
      using True lenC by (simp add: D nth_append)
  next
    case False
    then have "k div INODE_INDIRECT1_COUNT = a" "k mod INODE_INDIRECT1_COUNT = k - a * INODE_INDIRECT1_COUNT"
      using block_position [of a INODE_INDIRECT1_COUNT k b] assms(2) b by (simp_all add: n)
    moreover have "k - a * INODE_INDIRECT1_COUNT < b"
      using assms(2) False by (simp add: n)
    ultimately show ?thesis
      unfolding D nth_append lenC using False by auto
  qed
qed

section \<open>Well-formed disk inodes and their contents\<close>

definition itree :: "DiskInode \<Rightarrow> disk \<Rightarrow> tagged" where
  "itree di d = inode_tree di (data_blocks di) d"

definition inode_ok :: "DiskInode \<Rightarrow> disk \<Rightarrow> bool" where
  "inode_ok di d \<longleftrightarrow> wf_disk d \<and> wf_fields di \<and> di_size di \<le> MAX_BLOCKS * BLOCK_SZ \<and>
     blocks_ok (map snd (itree di d)) d"

definition block_ids :: "DiskInode \<Rightarrow> disk \<Rightarrow> nat list" where
  "block_ids di d = data_ids (itree di d)"

definition full_content :: "DiskInode \<Rightarrow> disk \<Rightarrow> bytes" where
  "full_content di d = concat (map (\<lambda>b. the (d b)) (block_ids di d))"

definition content :: "DiskInode \<Rightarrow> disk \<Rightarrow> bytes" where
  "content di d = take (di_size di) (full_content di d)"

lemma inode_tree_nth:
  assumes len: "length (di_direct di) = INODE_DIRECT_COUNT" and n: "n \<le> MAX_BLOCKS"
  shows "length (data_ids (inode_tree di n d)) = n"
    and "k < n \<Longrightarrow> data_ids (inode_tree di n d) ! k =
      (if k < DIRECT_BOUND then di_direct di ! k
       else if k < INDIRECT1_BOUND then index_block d (di_indirect1 di) ! (k - INODE_DIRECT_COUNT)
       else index_block d (index_block d (di_indirect2 di) ! ((k - INDIRECT1_BOUND) div INODE_INDIRECT1_COUNT))
         ! ((k - INDIRECT1_BOUND) mod INODE_INDIRECT1_COUNT))"
proof -
  let ?l2 = "index_block d (di_indirect2 di)"
  let ?n2 = "n - INODE_DIRECT_COUNT - INODE_INDIRECT1_COUNT"
  have D: "data_ids (inode_tree di n d) = take n (di_direct di) @
      (if n > INODE_DIRECT_COUNT then take (n - INODE_DIRECT_COUNT) (index_block d (di_indirect1 di)) @
        (if n - INODE_DIRECT_COUNT > INODE_INDIRECT1_COUNT then data_ids (l2_tree ?n2 ?l2 d) else [])
       else [])"
    by (simp add: inode_tree_def indirect1_tree_def indirect2_tree_def)
  have n2: "?n2 \<le> INODE_INDIRECT1_COUNT * length ?l2"
    using n by (simp add: MAX_BLOCKS_def layout_consts)
  have l2len: "n - INODE_DIRECT_COUNT > INODE_INDIRECT1_COUNT \<Longrightarrow> length (data_ids (l2_tree ?n2 ?l2 d)) = ?n2"
    using data_ids_l2(1) [OF n2, of 0] by simp
  show "length (data_ids (inode_tree di n d)) = n"
    using len l2len by (auto simp: D layout_consts)
  assume k: "k < n"
  show "data_ids (inode_tree di n d) ! k =
      (if k < DIRECT_BOUND then di_direct di ! k
       else if k < INDIRECT1_BOUND then index_block d (di_indirect1 di) ! (k - INODE_DIRECT_COUNT)
       else index_block d (?l2 ! ((k - INDIRECT1_BOUND) div INODE_INDIRECT1_COUNT))
         ! ((k - INDIRECT1_BOUND) mod INODE_INDIRECT1_COUNT))"
  proof (cases "k < INDIRECT1_BOUND")
    case True
    then show ?thesis
      using len k by (auto simp: D nth_append layout_consts)
  next
    case False
    then have "data_ids (inode_tree di n d) ! k = data_ids (l2_tree ?n2 ?l2 d) ! (k - INDIRECT1_BOUND)"
      using len k by (auto simp: D nth_append layout_consts)
    also have "\<dots> = index_block d (?l2 ! ((k - INDIRECT1_BOUND) div INODE_INDIRECT1_COUNT))
         ! ((k - INDIRECT1_BOUND) mod INODE_INDIRECT1_COUNT)"
      using False k by (intro data_ids_l2(2) [OF n2]) (simp add: layout_consts)
    finally show ?thesis
      using False by (simp add: layout_consts)
  qed
qed

lemma inode_okD:
  assumes "inode_ok di d"
  shows "wf_disk d" and "wf_fields di" and "di_size di \<le> MAX_BLOCKS * BLOCK_SZ"
    and "blocks_ok (map snd (itree di d)) d" and "data_blocks di \<le> MAX_BLOCKS"
    and "length (di_direct di) = INODE_DIRECT_COUNT"
  using assms data_blocks_bound(2) by (auto simp: inode_ok_def wf_fields_def data_blocks_def)

lemma length_block_ids: "inode_ok di d \<Longrightarrow> length (block_ids di d) = data_blocks di"
  by (simp add: block_ids_def itree_def inode_tree_nth(1) inode_okD)

lemma block_ids_dom: "inode_ok di d \<Longrightarrow> b \<in> set (block_ids di d) \<Longrightarrow> \<exists>blk. d b = Some blk \<and> length blk = BLOCK_SZ"
  using data_ids_subset [of "itree di d"] inode_okD(1,4) [of di d] wf_diskD
  by (fastforce simp: blocks_ok_def block_ids_def)

lemma block_ids_distinct: "inode_ok di d \<Longrightarrow> distinct (block_ids di d)"
  using inode_okD(4) by (auto simp: block_ids_def blocks_ok_def intro: data_ids_distinct)

lemma block_ids_pieces: "inode_ok di d \<Longrightarrow> \<forall>b \<in> set (block_ids di d). length (the (d b)) = BLOCK_SZ"
  using block_ids_dom by fastforce

lemma length_full_content: "inode_ok di d \<Longrightarrow> length (full_content di d) = data_blocks di * BLOCK_SZ"
  using length_concat_pieces [OF block_ids_pieces] by (simp add: full_content_def length_block_ids)

lemma size_le_blocks:
  assumes "sz \<le> MAX_BLOCKS * BLOCK_SZ"
  shows "sz \<le> data_blocks_of_size sz * BLOCK_SZ"
proof -
  have "sz + BLOCK_SZ - 1 < (data_blocks_of_size sz + 1) * BLOCK_SZ"
    unfolding data_blocks_bound(1) [OF assms]
    using dividend_less_div_times [of BLOCK_SZ "sz + BLOCK_SZ - 1"] by (simp add: add.commute)
  then show ?thesis
    by (simp add: layout_consts)
qed

lemma length_content [simp]: "inode_ok di d \<Longrightarrow> length (content di d) = di_size di"
  using size_le_blocks inode_okD(3)
  by (simp add: content_def length_full_content data_blocks_def min_absorb2)

lemma position_in_blocks:
  assumes "sz \<le> MAX_BLOCKS * BLOCK_SZ" and "pos < sz"
  shows "pos div BLOCK_SZ < data_blocks_of_size sz"
  using size_le_blocks [OF assms(1)] assms(2) by (simp add: div_less_iff_less_mult)

lemma index_in_tree:
  assumes "inode_ok di d" and "n = data_blocks di"
  shows "n > INODE_DIRECT_COUNT \<Longrightarrow> di_indirect1 di \<in> dom d"
    and "n > INDIRECT1_BOUND \<Longrightarrow> di_indirect2 di \<in> dom d"
    and "n > INDIRECT1_BOUND \<Longrightarrow> INODE_INDIRECT1_COUNT * a < n - INDIRECT1_BOUND \<Longrightarrow>
      index_block d (di_indirect2 di) ! a \<in> dom d"
proof -
  have T: "set (map snd (itree di d)) \<subseteq> dom d"
    using inode_okD(4) [OF assms(1)] by (auto simp: blocks_ok_def)
  show "n > INODE_DIRECT_COUNT \<Longrightarrow> di_indirect1 di \<in> dom d"
    using T by (simp add: itree_def inode_tree_def indirect1_tree_def l1_tree_def assms(2))
  show "n > INDIRECT1_BOUND \<Longrightarrow> di_indirect2 di \<in> dom d"
  proof -
    assume "n > INDIRECT1_BOUND"
    then have "INODE_INDIRECT1_COUNT < n - INODE_DIRECT_COUNT" and "INODE_DIRECT_COUNT < n"
      by (simp_all add: layout_consts)
    then have "(False, di_indirect2 di) \<in> set (itree di d)"
      by (simp add: itree_def inode_tree_def indirect1_tree_def indirect2_tree_def assms(2))
    with T show ?thesis by force
  qed
  assume n: "n > INDIRECT1_BOUND" and a: "INODE_INDIRECT1_COUNT * a < n - INDIRECT1_BOUND"
  let ?l2 = "index_block d (di_indirect2 di)" and ?m = "n - INDIRECT1_BOUND"
  have "set (l2_tree ?m ?l2 d) \<subseteq> set (itree di d)"
    using n by (auto simp: itree_def inode_tree_def indirect1_tree_def indirect2_tree_def assms(2) layout_consts)
  then have sub: "set (map snd (l2_tree ?m ?l2 d)) \<subseteq> dom d"
    using T by force
  obtain p q where m: "?m = p * INODE_INDIRECT1_COUNT + q" and q: "q < INODE_INDIRECT1_COUNT"
    by (rule index_split)
  have "a < p \<or> a = p \<and> q \<noteq> 0"
    using a q unfolding m by (auto simp: layout_consts)
  moreover have "p \<le> length ?l2"
    using m inode_okD(5) [OF assms(1)] by (simp add: assms(2) MAX_BLOCKS_def layout_consts)
  ultimately have "?l2 ! a \<in> set (take p ?l2) \<or> q \<noteq> 0 \<and> ?l2 ! a = ?l2 ! p"
    by (auto simp: in_set_conv_nth)
  then have "(False, ?l2 ! a) \<in> set (l2_tree ?m ?l2 d)"
    unfolding l2_tree_at [OF m q] by (auto simp: l1_tree_def)
  with sub show "?l2 ! a \<in> dom d"
    by force
qed

lemma get_block_id_eq:
  assumes ok: "inode_ok di d" and k: "k < data_blocks di"
  shows "get_block_id di k d = Some (block_ids di d ! k)"
proof -
  let ?l = "k - INDIRECT1_BOUND"
  have "block_ids di d ! k =
      (if k < DIRECT_BOUND then di_direct di ! k
       else if k < INDIRECT1_BOUND then index_block d (di_indirect1 di) ! (k - INODE_DIRECT_COUNT)
       else index_block d (index_block d (di_indirect2 di) ! (?l div INODE_INDIRECT1_COUNT))
         ! (?l mod INODE_INDIRECT1_COUNT))"
    unfolding block_ids_def itree_def
    by (rule inode_tree_nth(2) [OF inode_okD(6,5) [OF ok] k])
  moreover have "k \<ge> DIRECT_BOUND \<Longrightarrow> di_indirect1 di \<in> dom d"
    using index_in_tree(1) [OF ok refl] k by (simp add: layout_consts)
  moreover have "k \<ge> INDIRECT1_BOUND \<Longrightarrow> di_indirect2 di \<in> dom d"
    using index_in_tree(2) [OF ok refl] k by simp
  moreover have "k \<ge> INDIRECT1_BOUND \<Longrightarrow> index_block d (di_indirect2 di) ! (?l div INODE_INDIRECT1_COUNT) \<in> dom d"
    using k by (intro index_in_tree(3) [OF ok refl])
      (auto intro: le_less_trans [OF times_div_less_eq_dividend])
  moreover have "k \<ge> INDIRECT1_BOUND \<Longrightarrow> ?l div INODE_INDIRECT1_COUNT < INODE_INDIRECT1_COUNT"
    using k inode_okD(5) [OF ok] by (simp add: MAX_BLOCKS_def layout_consts)
  moreover have "?l mod INODE_INDIRECT1_COUNT < INODE_INDIRECT1_COUNT"
    by (simp add: layout_consts)
  ultimately show ?thesis
    using inode_okD(6) [OF ok]
    by (auto simp: get_block_id_def peek_block_def Let_def layout_consts)
qed

section \<open>Reading\<close>

lemma data_block_slice:
  assumes ok: "inode_ok di d" and start: "start < di_size di" and n: "start mod BLOCK_SZ + n \<le> BLOCK_SZ"
  shows "\<exists>b blk. get_block_id di (u32 (start div BLOCK_SZ)) d = Some b \<and> b = block_ids di d ! (start div BLOCK_SZ) \<and>
    d b = Some blk \<and> length blk = BLOCK_SZ \<and> slice (start mod BLOCK_SZ) n blk = slice start n (full_content di d)"
proof -
  let ?k = "start div BLOCK_SZ" and ?ids = "block_ids di d"
  have k: "?k < data_blocks di"
    using position_in_blocks [OF inode_okD(3) [OF ok] start] by (simp add: data_blocks_def)
  have "?k < 2 ^ 32"
    using k inode_okD(5) [OF ok] by (simp add: MAX_BLOCKS_def layout_consts)
  then have id: "get_block_id di (u32 ?k) d = Some (?ids ! ?k)"
    using get_block_id_eq [OF ok k] by (simp add: width_simps)
  have kl: "?k < length ?ids"
    using k by (simp add: length_block_ids [OF ok])
  then obtain blk where blk: "d (?ids ! ?k) = Some blk" "length blk = BLOCK_SZ"
    using block_ids_dom [OF ok, of "?ids ! ?k"] by auto
  have "Suc ?k * BLOCK_SZ \<le> length ?ids * BLOCK_SZ"
    using kl by (intro mult_le_mono1) simp
  obtain q r where s: "start = q * BLOCK_SZ + r" "r < BLOCK_SZ" "?k = q" "start mod BLOCK_SZ = r"
    by (rule position_split [OF BLOCK_SZ_pos])
  have room: "start + n \<le> length ?ids * BLOCK_SZ"
    using \<open>Suc ?k * BLOCK_SZ \<le> length ?ids * BLOCK_SZ\<close> n s(1) unfolding s(3,4) by simp
  have lenf: "length (full_content di d) = length ?ids * BLOCK_SZ"
    by (simp add: length_full_content [OF ok] length_block_ids [OF ok])
  have "slice (start mod BLOCK_SZ) n blk ! i = slice start n (full_content di d) ! i" if i: "i < n" for i
  proof -
    have "(start + i) div BLOCK_SZ = ?k" "(start + i) mod BLOCK_SZ = start mod BLOCK_SZ + i"
      using n i block_position [of q BLOCK_SZ "start + i" BLOCK_SZ] s(1) unfolding s(3,4) by simp_all
    then show ?thesis
      using nth_concat_pieces [OF block_ids_pieces [OF ok], of "start + i"] i room n blk lenf
      by (simp add: full_content_def)
  qed
  then have "slice (start mod BLOCK_SZ) n blk = slice start n (full_content di d)"
    using n room blk(2) lenf by (intro nth_equalityI) auto
  with id blk show ?thesis by blast
qed

lemma end_of_block:
  assumes "start < stop" and "eob = min ((start div BLOCK_SZ + 1) * BLOCK_SZ) stop"
  shows "start < eob" and "eob \<le> stop" and "start mod BLOCK_SZ + (eob - start) \<le> BLOCK_SZ"
    and "eob \<noteq> stop \<Longrightarrow> start div BLOCK_SZ + 1 = eob div BLOCK_SZ"
proof -
  obtain q r where s: "start = q * BLOCK_SZ + r" "r < BLOCK_SZ" "start div BLOCK_SZ = q" "start mod BLOCK_SZ = r"
    by (rule position_split [OF BLOCK_SZ_pos])
  show "start < eob" and "eob \<le> stop" and "start mod BLOCK_SZ + (eob - start) \<le> BLOCK_SZ"
    using assms s(1,2) unfolding s(3,4) by (auto simp: min_def split: if_splits)
  assume "eob \<noteq> stop"
  then have "eob = (start div BLOCK_SZ + 1) * BLOCK_SZ"
    using assms(2) by (auto simp: min_def split: if_splits)
  then show "start div BLOCK_SZ + 1 = eob div BLOCK_SZ"
    by simp
qed

lemma read_loop_step:
  assumes "get_block_id di (u32 sb) d = Some b" and "d b = Some blk"
    and "eob = min ((start div BLOCK_SZ + 1) * BLOCK_SZ) stop"
  shows "read_loop di start sb stop rs buf d =
    (let buf' = splice rs (slice (start mod BLOCK_SZ) (eob - start) blk) buf
     in if eob = stop then Some (rs + (eob - start), buf')
        else read_loop di eob (sb + 1) stop (rs + (eob - start)) buf' d)"
  using assms by (subst read_loop.simps) (simp add: Let_def peek_block_def)

lemma read_loop_eq:
  assumes "inode_ok di d" and "start < stop" and "stop \<le> di_size di" and "rs + (stop - start) \<le> length buf"
  shows "read_loop di start (start div BLOCK_SZ) stop rs buf d =
    Some (rs + (stop - start), splice rs (slice start (stop - start) (full_content di d)) buf)"
  using assms
proof (induction "stop - start" arbitrary: start rs buf rule: less_induct)
  case less
  let ?F = "full_content di d"
  define eob where "eob = min ((start div BLOCK_SZ + 1) * BLOCK_SZ) stop"
  note e = end_of_block [OF less.prems(2) eob_def]
  have st: "start < di_size di"
    using less.prems by simp
  obtain b blk where b: "get_block_id di (u32 (start div BLOCK_SZ)) d = Some b" "d b = Some blk"
    "slice (start mod BLOCK_SZ) (eob - start) blk = slice start (eob - start) ?F"
    using data_block_slice [OF less.prems(1) st e(3)] by blast
  have F: "stop \<le> length ?F"
    using length_full_content [OF less.prems(1)] size_le_blocks [OF inode_okD(3) [OF less.prems(1)]]
      less.prems(3) by (simp add: data_blocks_def)
  let ?buf = "splice rs (slice start (eob - start) ?F) buf"
  have sl: "length (slice start (eob - start) ?F) = eob - start"
    using F e by simp
  note step = read_loop_step [OF b(1,2) eob_def, of rs buf, unfolded b(3) Let_def]
  show ?case
  proof (cases "eob = stop")
    case True
    then show ?thesis
      by (simp add: step)
  next
    case False
    then have lt: "eob < stop" and dec: "stop - eob < stop - start"
      using e by simp_all
    have room: "rs + (eob - start) + (stop - eob) \<le> length ?buf"
      using less.prems(4) e sl by simp
    note IH = less.hyps [OF dec less.prems(1) lt less.prems(3) room]
    have "splice (rs + (eob - start)) (slice eob (stop - eob) ?F) ?buf =
        splice rs (slice start (eob - start) ?F @ slice (start + (eob - start)) (stop - eob) ?F) buf"
      using splice_splice_adjacent [of rs "slice start (eob - start) ?F" "slice eob (stop - eob) ?F" buf]
        sl F e less.prems(4) by simp
    also have "\<dots> = splice rs (slice start (stop - start) ?F) buf"
      using e by (simp only: slice_append_slice) simp
    finally show ?thesis
      using IH e False unfolding step e(4) [OF False] by simp
  qed
qed

lemma read_at_eq:
  assumes ok: "inode_ok di d" and len: "offset + length buf < 2 ^ 64"
  shows "read_at di offset buf d =
    (let n = min (length buf) (di_size di - offset)
     in Some (n, splice 0 (slice offset n (content di d)) buf))"
proof -
  let ?stop = "min (offset + length buf) (di_size di)"
  let ?n = "min (length buf) (di_size di - offset)"
  show ?thesis
  proof (cases "offset < ?stop")
    case True
    then have n: "?stop - offset = ?n"
      by auto
    have "slice offset ?n (content di d) = slice offset ?n (full_content di d)"
      by (simp add: content_def slice_def drop_take min_def)
    moreover have "\<not> ?stop \<le> offset"
      using True by (simp only: not_le)
    then have "read_at di offset buf d = read_loop di offset (offset div BLOCK_SZ) ?stop 0 buf d"
      using len by (simp only: read_at_def Let_def usize_id if_False)
    ultimately show ?thesis
      using read_loop_eq [OF ok True, of 0 buf] n by (simp add: Let_def)
  next
    case False
    then have "?n = 0" by auto
    with False len show ?thesis
      by (auto simp: read_at_def width_simps Let_def)
  qed
qed

section \<open>Writing\<close>

lemma inode_tree_cong:
  assumes "\<And>b. (False, b) \<in> set (inode_tree di n d) \<Longrightarrow> d b = d' b"
  shows "inode_tree di n d = inode_tree di n d'"
proof (cases "n > INODE_DIRECT_COUNT")
  case True
  then have "l1_tree d (n - INODE_DIRECT_COUNT) (di_indirect1 di) = l1_tree d' (n - INODE_DIRECT_COUNT) (di_indirect1 di)"
    using assms by (intro l1_tree_cong) (simp add: inode_tree_def indirect1_tree_def l1_tree_def)
  moreover have "indirect2_tree (di_indirect2 di) (n - INODE_DIRECT_COUNT) d =
      indirect2_tree (di_indirect2 di) (n - INODE_DIRECT_COUNT) d'"
    using True assms by (intro indirect2_tree_cong) (simp add: inode_tree_def indirect1_tree_def)
  ultimately show ?thesis
    by (simp add: inode_tree_def indirect1_tree_def)
qed (simp add: inode_tree_def indirect1_tree_def)

definition data_written :: "DiskInode \<Rightarrow> disk \<Rightarrow> nat \<Rightarrow> bytes \<Rightarrow> disk \<Rightarrow> bool" where
  \<comment> \<open>\<open>d'\<close> is \<open>d\<close> with the bytes \<open>p\<close> stored at \<open>pos\<close> of the inode's data\<close>
  "data_written di d pos p d' \<longleftrightarrow>
     inode_ok di d' \<and> itree di d' = itree di d \<and> dom d' = dom d \<and>
     (\<forall>b. b \<notin> set (block_ids di d) \<longrightarrow> d' b = d b) \<and>
     full_content di d' = splice pos p (full_content di d)"

lemma data_written_block:
  assumes ok: "inode_ok di d" and k: "k < length (block_ids di d)" and blk: "d (block_ids di d ! k) = Some blk"
    and p: "off + length p \<le> BLOCK_SZ"
  shows "data_written di d (k * BLOCK_SZ + off) p (d(block_ids di d ! k \<mapsto> splice off p blk))"
proof -
  let ?ids = "block_ids di d" and ?b = "block_ids di d ! k"
  let ?d = "d(?b \<mapsto> splice off p blk)"
  have len: "length blk = BLOCK_SZ"
    using blk wf_diskD [OF inode_okD(1) [OF ok]] by blast
  have "(False, ?b) \<notin> set (itree di d)"
    using inode_okD(4) [OF ok] k
    by (intro data_not_index) (simp_all add: blocks_ok_def block_ids_def [symmetric])
  then have T: "itree di d = itree di ?d"
    unfolding itree_def by (intro inode_tree_cong) auto
  have dom: "dom ?d = dom d"
    using blk by auto
  have ok': "inode_ok di ?d"
    using ok len p T dom by (simp add: inode_ok_def blocks_ok_def)
  have ids: "block_ids di ?d = ?ids"
    using T by (simp add: block_ids_def)
  have "full_content di ?d = splice (k * BLOCK_SZ + off) p (full_content di d)"
    unfolding full_content_def ids
    using blk by (intro concat_pieces_update block_ids_pieces block_ids_distinct ok k p) simp
  with ok' T dom k show ?thesis
    by (auto simp: data_written_def)
qed

lemma data_written_trans:
  assumes "data_written di d pos p d1" and "data_written di d1 (pos + length p) q d2"
    and "pos + length p + length q \<le> length (full_content di d)"
  shows "data_written di d pos (p @ q) d2"
  using assms splice_splice_adjacent [OF assms(3)]
  by (auto simp: data_written_def block_ids_def)

lemma write_loop_step:
  assumes "get_block_id di (u32 sb) d = Some b" and "d b = Some blk"
    and "eob = min ((start div BLOCK_SZ + 1) * BLOCK_SZ) stop"
  shows "write_loop di start sb stop ws buf d =
    (let d' = d(b \<mapsto> splice (start mod BLOCK_SZ) (slice ws (eob - start) buf) blk)
     in if eob = stop then Some (ws + (eob - start), d')
        else write_loop di eob (sb + 1) stop (ws + (eob - start)) buf d')"
  using assms by (subst write_loop.simps) (simp add: Let_def with_block_def)

lemma write_loop_eq:
  assumes "inode_ok di d" and "start < stop" and "stop \<le> di_size di" and "ws + (stop - start) \<le> length buf"
  shows "\<exists>d'. write_loop di start (start div BLOCK_SZ) stop ws buf d = Some (ws + (stop - start), d') \<and>
    data_written di d start (slice ws (stop - start) buf) d'"
  using assms
proof (induction "stop - start" arbitrary: start ws d rule: less_induct)
  case less
  define eob where "eob = min ((start div BLOCK_SZ + 1) * BLOCK_SZ) stop"
  note e = end_of_block [OF less.prems(2) eob_def]
  let ?p = "slice ws (eob - start) buf"
  have st: "start < di_size di"
    using less.prems by simp
  obtain b blk where b: "get_block_id di (u32 (start div BLOCK_SZ)) d = Some b"
    "b = block_ids di d ! (start div BLOCK_SZ)" "d b = Some blk"
    using data_block_slice [OF less.prems(1) st e(3)] by blast
  let ?d = "d(b \<mapsto> splice (start mod BLOCK_SZ) ?p blk)"
  have k: "start div BLOCK_SZ < length (block_ids di d)"
    using position_in_blocks [OF inode_okD(3) [OF less.prems(1)] st]
    by (simp add: length_block_ids [OF less.prems(1)] data_blocks_def)
  have pl: "length ?p = eob - start"
    using less.prems(4) e(1,2) by simp
  have w: "data_written di d start ?p ?d"
    using data_written_block [OF less.prems(1) k b(3) [unfolded b(2)], of "start mod BLOCK_SZ" ?p] e(3) pl
    by (simp add: b(2))
  note step = write_loop_step [OF b(1,3) eob_def, of ws buf, unfolded Let_def]
  show ?case
  proof (cases "eob = stop")
    case True
    then show ?thesis
      using w by (simp add: step)
  next
    case False
    then have lt: "eob < stop" and dec: "stop - eob < stop - start"
      using e by simp_all
    have room: "ws + (eob - start) + (stop - eob) \<le> length buf"
      using less.prems(4) e by simp
    have ok': "inode_ok di ?d"
      using w by (simp add: data_written_def)
    obtain d' where d': "write_loop di eob (eob div BLOCK_SZ) stop (ws + (eob - start)) buf ?d =
          Some (ws + (eob - start) + (stop - eob), d')"
        "data_written di ?d eob (slice (ws + (eob - start)) (stop - eob) buf) d'"
      using less.hyps [OF dec ok' lt less.prems(3) room] by blast
    have F: "stop \<le> length (full_content di d)"
      using length_full_content [OF less.prems(1)] size_le_blocks [OF inode_okD(3) [OF less.prems(1)]]
        less.prems(3) by (simp add: data_blocks_def)
    have "data_written di d start (?p @ slice (ws + (eob - start)) (stop - eob) buf) d'"
      using w d'(2) pl e F lt room by (intro data_written_trans [of di d start ?p ?d]) simp_all
    then show ?thesis
      using d'(1) e(1,2) False unfolding step slice_append_slice e(4) [OF False] by simp
  qed
qed

lemma write_at_eq:
  assumes ok: "inode_ok di d" and len: "offset + length buf < 2 ^ 64" and lt: "offset < di_size di" and ne: "buf \<noteq> []"
    and n: "n = min (length buf) (di_size di - offset)"
  shows "\<exists>d'. write_at di offset buf d = Some (n, d') \<and> data_written di d offset (take n buf) d'"
proof -
  let ?stop = "min (offset + length buf) (di_size di)"
  have lt: "offset < ?stop" and ns: "?stop - offset = n"
    using lt ne by (auto simp: n)
  have "0 + (?stop - offset) \<le> length buf"
    by auto
  from write_loop_eq [OF ok lt _ this] obtain d' where
    "write_loop di offset (offset div BLOCK_SZ) ?stop 0 buf d = Some (n, d')"
    "data_written di d offset (take n buf) d'"
    using ns by (auto simp: slice_def)
  moreover have "offset \<le> ?stop"
    using lt by simp
  ultimately show ?thesis
    using len by (simp only: write_at_def Let_def usize_id ensure_bind if_True) blast
qed

lemma data_written_content:
  assumes "data_written di d pos p d'" and "pos + length p \<le> di_size di" and "inode_ok di d"
  shows "content di d' = splice pos p (content di d)"
proof -
  have F: "di_size di \<le> length (full_content di d)"
    using length_content [OF assms(3)] by (simp add: content_def)
  have "take (di_size di) (splice pos p (full_content di d)) = splice pos p (take (di_size di) (full_content di d))"
    using assms(2) F by (intro nth_equalityI) (auto simp: nth_splice)
  then show ?thesis
    using assms(1) by (simp add: content_def data_written_def)
qed

section \<open>Clearing\<close>

lemma clear_direct_eq:
  assumes "c \<le> bound" and "bound \<le> length xs"
  shows "clear_direct c bound xs v = Some (splice c (replicate (bound - c) 0) xs, v @ slice c (bound - c) xs)"
  using assms
proof (induction "bound - c" arbitrary: c xs v)
  case 0
  then show ?case
    by (subst clear_direct.simps) (simp add: splice_def slice_def)
next
  case (Suc k)
  then have lt: "c < bound" and bc: "bound - c = Suc (bound - Suc c)"
    by simp_all
  have "splice (Suc c) (replicate (bound - Suc c) 0) (xs[c := 0]) = splice c (replicate (bound - c) 0) xs"
    using lt Suc.prems by (simp add: bc splice_def take_Suc_conv_app_nth)
  moreover have "(v @ [xs ! c]) @ slice (Suc c) (bound - Suc c) (xs[c := 0]) = v @ slice c (bound - c) xs"
    using lt Suc.prems by (simp add: bc slice_def Cons_nth_drop_Suc [symmetric])
  ultimately show ?case
    using Suc.hyps(1) [of "c + 1" "xs[c := 0]" "v @ [xs ! c]"] Suc.hyps(2) Suc.prems lt
    by (subst clear_direct.simps) simp
qed

lemma collect_eq:
  assumes "c \<le> bound" and "bound \<le> length xs"
  shows "collect c bound xs v = Some (v @ slice c (bound - c) xs)"
  using assms
proof (induction "bound - c" arbitrary: c v)
  case 0
  then show ?case
    by (subst collect.simps) simp
next
  case (Suc k)
  then have lt: "c < bound" and bc: "bound - c = Suc (bound - Suc c)"
    by simp_all
  have "(v @ [xs ! c]) @ slice (Suc c) (bound - Suc c) xs = v @ slice c (bound - c) xs"
    using lt Suc.prems by (simp add: bc slice_def Cons_nth_drop_Suc [symmetric])
  then show ?case
    using Suc.hyps(1) [of "c + 1" "v @ [xs ! c]"] Suc.hyps(2) Suc.prems lt
    by (subst collect.simps) simp
qed

lemma with_block_same:
  assumes "b \<in> dom d" and "\<And>blk. d b = Some blk \<Longrightarrow> f blk (d(b := None)) = Some ((r, blk), d(b := None))"
  shows "with_block b f d = Some (r, d)"
  using assms by (auto simp: with_block_def fun_upd_idem)

lemma collect_full_eq:
  assumes "set es \<subseteq> dom d"
  shows "collect_full es v d = Some (v @ map snd (concat (map (l1_tree d INODE_INDIRECT1_COUNT) es)), d)"
  using assms
proof (induction es arbitrary: v)
  case Nil
  then show ?case by simp
next
  case (Cons e es)
  have "with_block e (\<lambda>blk d. Some ((v @ [e] @ IndirectBlock_of_bytes blk, blk), d)) d =
      Some (v @ map snd (l1_tree d INODE_INDIRECT1_COUNT e), d)"
    using Cons.prems by (intro with_block_same) (auto simp: l1_tree_def comp_def)
  then show ?case
    using Cons by simp
qed

lemma clear_l2_eq:
  assumes n: "n \<le> INODE_INDIRECT2_COUNT" and x: "x \<in> dom d"
    and dom: "set (map snd (l2_tree n (index_block d x) d)) \<subseteq> dom d - {x}"
  shows "with_block x (\<lambda>blk d. do {
             let indirect2 = IndirectBlock_of_bytes blk;
             (v, d) \<leftarrow> collect_full (take (n div INODE_INDIRECT1_COUNT) indirect2) v d;
             (v, d) \<leftarrow>
               (if n mod INODE_INDIRECT1_COUNT > 0 then do {
                  entry \<leftarrow> index_get indirect2 (n div INODE_INDIRECT1_COUNT);
                  with_block entry
                    (\<lambda>blk d. Some ((v @ [entry] @ take (n mod INODE_INDIRECT1_COUNT) (IndirectBlock_of_bytes blk), blk), d)) d }
                else Some (v, d));
             Some ((v, blk), d) }) d =
    Some (v @ map snd (l2_tree n (index_block d x) d), d)"
proof (intro with_block_same [OF x], goal_cases)
  case (1 blk)
  let ?l2 = "IndirectBlock_of_bytes blk" and ?D = "d(x := None)"
  obtain a b where ab: "n = a * INODE_INDIRECT1_COUNT + b" "b < INODE_INDIRECT1_COUNT"
    by (rule index_split)
  then have div_mod: "n div INODE_INDIRECT1_COUNT = a" "n mod INODE_INDIRECT1_COUNT = b"
    by simp_all
  have l2: "index_block d x = ?l2"
    by (simp add: 1)
  have T: "l2_tree n ?l2 d = l2_tree n ?l2 ?D"
    using dom l2 by (intro l2_tree_cong) force
  have TD: "l2_tree n ?l2 ?D = concat (map (l1_tree ?D INODE_INDIRECT1_COUNT) (take a ?l2)) @
      (if b = 0 then [] else l1_tree ?D b (?l2 ! a))"
    by (rule l2_tree_at [OF ab])
  have sub: "snd ` set (l2_tree n ?l2 ?D) \<subseteq> dom ?D"
    using dom unfolding l2 T by auto
  have "set (take a ?l2) \<subseteq> snd ` set (l2_tree n ?l2 ?D)"
    unfolding TD by (force simp: l1_tree_def)
  then have full: "collect_full (take a ?l2) v ?D =
      Some (v @ map snd (concat (map (l1_tree ?D INODE_INDIRECT1_COUNT) (take a ?l2))), ?D)"
    using sub by (intro collect_full_eq) blast
  have a: "b \<noteq> 0 \<Longrightarrow> a < INODE_INDIRECT1_COUNT"
    using n ab by (simp add: layout_consts)
  have part: "with_block (?l2 ! a)
      (\<lambda>blk d. Some ((w @ [?l2 ! a] @ take b (IndirectBlock_of_bytes blk), blk), d)) ?D =
      Some (w @ map snd (l1_tree ?D b (?l2 ! a)), ?D)" if "b \<noteq> 0" for w
  proof (rule with_block_same)
    show "?l2 ! a \<in> dom ?D"
      using sub that unfolding TD by (auto simp: l1_tree_def)
  qed (simp add: l1_tree_def comp_def)
  show ?case
    unfolding Let_def div_mod
    using a full part [of "v @ map snd (concat (map (l1_tree ?D INODE_INDIRECT1_COUNT) (take a ?l2)))"]
    by (cases "b = 0") (simp_all add: l2 T TD)
qed

lemma clear_indirect2_eq:
  assumes n: "n > INODE_INDIRECT1_COUNT" "n - INODE_INDIRECT1_COUNT \<le> INODE_INDIRECT2_COUNT"
    and y: "di_indirect2 di \<in> dom d"
    and sub: "set (map snd (l2_tree (n - INODE_INDIRECT1_COUNT) (index_block d (di_indirect2 di)) d)) \<subseteq> dom d - {di_indirect2 di}"
  shows "clear_indirect2 n v di d =
    Some (v @ map snd (indirect2_tree (di_indirect2 di) n d), di\<lparr>di_indirect2 := 0\<rparr>, d)"
proof -
  note l2 = clear_l2_eq [OF n(2) y sub, of "v @ [di_indirect2 di]", unfolded Let_def]
  show ?thesis
    using n by (simp only: clear_indirect2_def Let_def if_True ensure_bind l2 bind.simps prod.case)
      (simp add: indirect2_tree_def)
qed

lemma clear_size_eq:
  assumes ok: "inode_ok di d"
  shows "\<exists>di'. clear_size di d = Some (map snd (itree di d), di', d) \<and> wf_fields di' \<and>
    di_size di' = 0 \<and> di_nlink di' = di_nlink di \<and> di_type di' = di_type di"
proof -
  let ?n = "data_blocks di"
  note D = inode_okD [OF ok]
  have dist: "distinct (map snd (itree di d))" and dom: "set (map snd (itree di d)) \<subseteq> dom d"
    using D(4) by (auto simp: blocks_ok_def)
  let ?dd = "splice 0 (replicate (min ?n INODE_DIRECT_COUNT) 0) (di_direct di)"
  let ?di = "di\<lparr>di_size := 0, di_direct := ?dd\<rparr>"
  let ?v = "take ?n (di_direct di)"
  have direct: "clear_direct 0 (min ?n INODE_DIRECT_COUNT) (di_direct di) [] = Some (?dd, ?v)"
    using clear_direct_eq [of 0 "min ?n INODE_DIRECT_COUNT" "di_direct di" "[]"] D(6)
    by (auto simp: slice_def min_def)
  have wf: "wf_fields ?di"
    using D(2,6) set_splice [of 0 "replicate (min ?n INODE_DIRECT_COUNT) 0" "di_direct di"]
    by (fastforce simp: wf_fields_def)
  have cs: "clear_size di d = clear_indirect1 ?n ?v ?di d"
    using direct by (simp add: clear_size_def Let_def)
  show ?thesis
  proof (cases "?n > INODE_DIRECT_COUNT")
    case False
    then have "itree di d = data_tags ?v"
      by (simp add: itree_def inode_tree_def indirect1_tree_def)
    then show ?thesis
      using False wf cs by (simp add: clear_indirect1_def comp_def)
  next
    case True
    let ?m = "?n - INODE_DIRECT_COUNT" and ?x = "di_indirect1 di" and ?y = "di_indirect2 di"
    have T: "itree di d = data_tags ?v @ l1_tree d ?m ?x @ indirect2_tree ?y ?m d"
      using True by (simp add: itree_def inode_tree_def indirect1_tree_def)
    let ?w = "?v @ map snd (l1_tree d ?m ?x)"
    have s: "slice 0 (min ?m INODE_INDIRECT1_COUNT) xs = take ?m xs" if "length xs = INODE_INDIRECT1_COUNT" for xs :: "nat list"
      using that by (auto simp: slice_def min_def)
    have l1: "with_block ?x (\<lambda>blk d. do {
          v \<leftarrow> collect 0 (min ?m INODE_INDIRECT1_COUNT) (IndirectBlock_of_bytes blk) (?v @ [?x]);
          Some ((v, blk), d) }) d = Some (?w, d)"
      using index_in_tree(1) [OF ok refl True]
      by (intro with_block_same) (auto simp: collect_eq s l1_tree_def comp_def)
    have c1: "clear_size di d = clear_indirect2 ?m ?w (?di\<lparr>di_indirect1 := 0\<rparr>) d"
      using True l1 by (simp add: cs clear_indirect1_def Let_def)
    show ?thesis
    proof (cases "?m > INODE_INDIRECT1_COUNT")
      case False
      then show ?thesis
        using wf by (simp add: c1 clear_indirect2_def T indirect2_tree_def comp_def wf_fields_def)
    next
      case m: True
      let ?k = "?m - INODE_INDIRECT1_COUNT"
      have T2: "indirect2_tree ?y ?m d = (False, ?y) # l2_tree ?k (index_block d ?y) d"
        using m by (simp add: indirect2_tree_def)
      have k: "?k \<le> INODE_INDIRECT2_COUNT"
        using D(5) by (simp add: MAX_BLOCKS_def layout_consts)
      have "distinct (?y # map snd (l2_tree ?k (index_block d ?y) d))"
        and "set (?y # map snd (l2_tree ?k (index_block d ?y) d)) \<subseteq> dom d"
        using dist dom unfolding T T2 map_append distinct_append set_append by simp_all
      then have y: "?y \<in> dom d" and sub: "set (map snd (l2_tree ?k (index_block d ?y) d)) \<subseteq> dom d - {?y}"
        by (simp_all only: distinct.simps list.set insert_subset subset_Diff_insert) simp_all
      have "clear_indirect2 ?m ?w (?di\<lparr>di_indirect1 := 0\<rparr>) d =
          Some (?w @ map snd (indirect2_tree ?y ?m d), ?di\<lparr>di_indirect1 := 0, di_indirect2 := 0\<rparr>, d)"
        using clear_indirect2_eq [of ?m "?di\<lparr>di_indirect1 := 0\<rparr>" d ?w] m k y sub by simp
      then show ?thesis
        using wf by (simp add: c1 T comp_def wf_fields_def)
    qed
  qed
qed

section \<open>Growth of the contents\<close>

lemma grows_data:
  assumes "grows T d u T' d'" and "blocks_ok (map snd T @ u) d" and "b \<in> set (data_ids T')"
  shows "d' b = d b"
proof -
  have "distinct (map snd T')"
    using assms(1,2) by (auto simp: grows_def blocks_ok_def)
  then have "(False, b) \<notin> set T'"
    using assms(3) by (rule data_not_index)
  then show ?thesis
    using assms(1) by (simp add: grows_def)
qed

lemma increase_size_content:
  assumes ok: "inode_ok di d" and sz: "di_size di < new_size" "new_size \<le> MAX_BLOCKS * BLOCK_SZ"
    and nb: "blocks_ok (map snd (itree di d) @ nb) d"
    and k: "blocks_num_needed di new_size = Some k" "k \<le> length nb"
  shows "\<exists>di' d' new. increase_size new_size nb di d = Some (di', d') \<and> inode_ok di' d' \<and>
    di_size di' = new_size \<and> di_nlink di' = di_nlink di \<and> di_type di' = di_type di \<and>
    grows (itree di d) d (take k nb) (itree di' d') d' \<and>
    set new \<subseteq> set nb \<and> full_content di' d' = full_content di d @ concat (map (\<lambda>b. the (d b)) new)"
proof -
  let ?n = "data_blocks di" and ?m = "data_blocks_of_size new_size"
  note D = inode_okD [OF ok]
  have kt: "k = tree_total ?m - tree_total ?n"
    using blocks_num_needed_eq [of di new_size] sz k(1) by simp
  have ok': "blocks_ok (map snd (inode_tree di ?n d) @ nb) d"
    using nb by (simp add: itree_def)
  have en: "tree_total ?m - tree_total ?n \<le> length nb"
    using k(2) kt by simp
  obtain di' d' where r: "increase_size new_size nb di d = Some (di', d')" "wf_fields di'"
    "di_size di' = new_size" "di_nlink di' = di_nlink di" "di_type di' = di_type di"
    and g: "grows (itree di d) d (take k nb) (itree di' d') d'"
    using increase_size_grows [OF D(1,2) sz refl refl ok' en] kt
    by (auto simp: itree_def data_blocks_def)
  from g obtain ts where T: "itree di' d' = itree di d @ ts" "map snd ts = take k nb"
    and g': "wf_disk d'" "dom d' = dom d"
    by (auto simp: grows_def)
  have bk: "blocks_ok (map snd (itree di d) @ take k nb) d"
    using nb by (auto simp: blocks_ok_append blocks_ok_take dest: in_set_takeD)
  have ok2: "inode_ok di' d'"
    using bk T g' r(2,3) sz(2) by (simp add: inode_ok_def blocks_ok_def)
  have ids: "block_ids di' d' = block_ids di d @ data_ids ts"
    by (simp add: block_ids_def T(1))
  have same: "b \<in> set (block_ids di' d') \<Longrightarrow> d' b = d b" for b
    using grows_data [OF g bk] by (simp add: block_ids_def)
  have "map (\<lambda>b. the (d' b)) (block_ids di' d') = map (\<lambda>b. the (d b)) (block_ids di' d')"
    using same by simp
  then have F: "full_content di' d' = full_content di d @ concat (map (\<lambda>b. the (d b)) (data_ids ts))"
    unfolding full_content_def by (simp only: ids map_append concat_append)
  have "set (data_ids ts) \<subseteq> set nb"
    using data_ids_subset [of ts] T(2) set_take_subset [of k nb] by auto
  with r(1,3-5) g ok2 F show ?thesis
    by blast
qed

definition zero_tail :: "DiskInode \<Rightarrow> disk \<Rightarrow> bool" where
  \<comment> \<open>the bytes of the last data block beyond the size are zero\<close>
  "zero_tail di d \<longleftrightarrow> set (drop (di_size di) (full_content di d)) \<subseteq> {0}"

lemma list_all_zero: "set xs \<subseteq> {0} \<longleftrightarrow> xs = replicate (length xs) 0"
proof
  show "set xs \<subseteq> {0} \<Longrightarrow> xs = replicate (length xs) 0"
    by (induction xs) auto
  show "xs = replicate (length xs) 0 \<Longrightarrow> set xs \<subseteq> {0}"
    by (metis in_set_replicate singletonI subsetI)
qed

lemma zero_extend:
  assumes "set (drop n F) \<subseteq> {0 :: byte}" and "set G \<subseteq> {0}" and "n \<le> length F" and "n \<le> m" and "m \<le> length (F @ G)"
  shows "take m (F @ G) = take n F @ replicate (m - n) 0" and "set (drop m (F @ G)) \<subseteq> {0}"
proof -
  have Z: "set (drop n F @ G) \<subseteq> {0}" and FG: "F @ G = take n F @ (drop n F @ G)"
    using assms(1,2) by simp_all
  have Z': "drop n F @ G = replicate (length F - n + length G) 0"
    using Z [unfolded list_all_zero] by simp
  show "take m (F @ G) = take n F @ replicate (m - n) 0"
    unfolding FG Z' using assms(3-5) by (auto simp: min_def)
  show "set (drop m (F @ G)) \<subseteq> {0}"
    unfolding FG Z' using assms(3,4) by (auto simp: drop_append)
qed

section \<open>Properties\<close>

definition sample_inode :: "nat \<Rightarrow> DiskInode" where
  "sample_inode n = \<lparr>di_size = n, di_nlink = 1, di_rsv = 0, di_direct = 5 # replicate 25 0,
     di_indirect1 = 0, di_indirect2 = 0, di_type = File\<rparr>"

definition sample_disk :: disk where
  "sample_disk = [5 \<mapsto> replicate BLOCK_SZ 7, 6 \<mapsto> replicate BLOCK_SZ 0]"

lemma sample_inode_ok:
  assumes "n \<in> {0, 300}"
  shows "inode_ok (sample_inode n) sample_disk"
    and "itree (sample_inode n) sample_disk = (if n = 0 then [] else [(True, 5)])"
proof -
  show T: "itree (sample_inode n) sample_disk = (if n = 0 then [] else [(True, 5)])"
    using assms by (auto simp: itree_def inode_tree_def indirect1_tree_def data_blocks_def
        data_blocks_of_size_def sample_inode_def layout_consts u32_def)
  have "wf_fields (sample_inode n)"
    using assms by (auto simp: wf_fields_def sample_inode_def layout_consts)
  moreover have "wf_disk sample_disk"
    by (simp add: sample_disk_def wf_disk_def)
  ultimately show "inode_ok (sample_inode n) sample_disk"
    using assms T
    by (auto simp: inode_ok_def blocks_ok_def sample_inode_def sample_disk_def MAX_BLOCKS_def layout_consts)
qed

text \<open>
  Growing an inode with enough fresh blocks of the device always returns. The tree of the inode
  is extended at its end by exactly the first \<open>blocks_num_needed\<close> blocks of \<open>new_blocks\<close>, in the
  order the comment of \<open>increase_size\<close> draws; the old contents are a prefix of the new ones, and
  no block outside the new tree is touched.
\<close>

theorem increase_size_appends_blocks:
  assumes "inode_ok di d" and "di_size di < new_size" and "new_size \<le> MAX_BLOCKS * BLOCK_SZ"
    and "blocks_ok (map snd (itree di d) @ new_blocks) d"
    and "blocks_num_needed di new_size = Some k" and "k \<le> length new_blocks"
  shows "\<exists>di' d'. increase_size new_size new_blocks di d = Some (di', d') \<and> inode_ok di' d' \<and>
    di_size di' = new_size \<and> di_nlink di' = di_nlink di \<and> di_type di' = di_type di \<and>
    map snd (itree di' d') = map snd (itree di d) @ take k new_blocks \<and>
    take (di_size di) (content di' d') = content di d \<and>
    (\<forall>b. b \<notin> set (map snd (itree di' d')) \<longrightarrow> d' b = d b)"
proof -
  obtain di' d' new where r: "increase_size new_size new_blocks di d = Some (di', d')" "inode_ok di' d'"
    "di_size di' = new_size" "di_nlink di' = di_nlink di" "di_type di' = di_type di"
    "grows (itree di d) d (take k new_blocks) (itree di' d') d'"
    "full_content di' d' = full_content di d @ concat (map (\<lambda>b. the (d b)) new)"
    using increase_size_content [OF assms] by blast
  have "di_size di \<le> length (full_content di d)"
    using length_content [OF assms(1)] by (simp add: content_def)
  then have "take (di_size di) (content di' d') = content di d"
    using r(3,7) assms(2) by (simp add: content_def)
  moreover have "map snd (itree di' d') = map snd (itree di d) @ take k new_blocks"
    and "\<forall>b. b \<notin> set (map snd (itree di' d')) \<longrightarrow> d' b = d b"
    using r(6) unfolding grows_def by (auto, force)
  ultimately show ?thesis
    using r(1-5) by blast
qed

theorem increase_size_appends_blocks_witness:
  "\<exists>di' d'. increase_size 600 [6] (sample_inode 300) sample_disk = Some (di', d') \<and>
     map snd (itree di' d') = [5, 6] \<and> di_size di' = 600"
proof -
  note s = sample_inode_ok [of 300, simplified]
  have "blocks_ok (map snd (itree (sample_inode 300) sample_disk) @ [6]) sample_disk"
    unfolding s(2) by (simp add: blocks_ok_def sample_disk_def)
  moreover have "blocks_num_needed (sample_inode 300) 600 = Some 1"
    by (simp add: blocks_num_needed_def total_blocks_def data_blocks_of_size_def sample_inode_def
        layout_consts u32_def u32_sub_def)
  moreover have "di_size (sample_inode 300) < 600" and "(600 :: nat) \<le> MAX_BLOCKS * BLOCK_SZ"
    by (simp_all add: sample_inode_def MAX_BLOCKS_def layout_consts)
  ultimately show ?thesis
    using increase_size_appends_blocks [OF s(1), of 600 "[6]" 1] s(2) by auto
qed

text \<open>
  Sparse growth reads as zeros: when the blocks handed out are zeroed and the inode's last
  block is zero beyond its size, growing extends the contents by zero bytes exactly, and the inode
  keeps that last-block property.
\<close>

theorem increase_size_zero_extends:
  assumes "inode_ok di d" and "di_size di < new_size" and "new_size \<le> MAX_BLOCKS * BLOCK_SZ"
    and "blocks_ok (map snd (itree di d) @ new_blocks) d"
    and "blocks_num_needed di new_size = Some k" and "k \<le> length new_blocks"
    and "zero_tail di d" and "\<forall>b \<in> set new_blocks. set (the (d b)) \<subseteq> {0}"
  shows "\<exists>di' d'. increase_size new_size new_blocks di d = Some (di', d') \<and> zero_tail di' d' \<and>
    content di' d' = content di d @ replicate (new_size - di_size di) 0"
proof -
  obtain di' d' new where r: "increase_size new_size new_blocks di d = Some (di', d')" "inode_ok di' d'"
    "di_size di' = new_size" "set new \<subseteq> set new_blocks"
    "full_content di' d' = full_content di d @ concat (map (\<lambda>b. the (d b)) new)"
    using increase_size_content [OF assms(1-6)] by blast
  have G: "set (concat (map (\<lambda>b. the (d b)) new)) \<subseteq> {0}"
    using assms(8) r(4) by auto
  have n: "di_size di \<le> length (full_content di d)"
    using length_content [OF assms(1)] by (simp add: content_def)
  have m: "new_size \<le> length (full_content di d @ concat (map (\<lambda>b. the (d b)) new))"
    using length_content [OF r(2)] r(3) by (simp add: content_def r(5) [symmetric])
  note z = zero_extend [OF assms(7) [unfolded zero_tail_def] G n less_imp_le [OF assms(2)] m]
  show ?thesis
    using r(1,3) z by (auto simp: zero_tail_def content_def r(5))
qed

theorem increase_size_zero_extends_witness:
  "\<exists>di' d'. increase_size 100 [6] (sample_inode 0) sample_disk = Some (di', d') \<and>
     content di' d' = replicate 100 0"
proof -
  note s = sample_inode_ok [of 0, simplified]
  have "blocks_ok (map snd (itree (sample_inode 0) sample_disk) @ [6]) sample_disk"
    unfolding s(2) by (simp add: blocks_ok_def sample_disk_def)
  moreover have "blocks_num_needed (sample_inode 0) 100 = Some 1"
    by (simp add: blocks_num_needed_def total_blocks_def data_blocks_of_size_def sample_inode_def
        layout_consts u32_def u32_sub_def)
  moreover have "di_size (sample_inode 0) < 100" and "(100 :: nat) \<le> MAX_BLOCKS * BLOCK_SZ"
    by (simp_all add: sample_inode_def MAX_BLOCKS_def layout_consts)
  moreover have e: "full_content (sample_inode 0) sample_disk = []"
    by (simp add: full_content_def block_ids_def s(2))
  then have "zero_tail (sample_inode 0) sample_disk" and "content (sample_inode 0) sample_disk = []"
    by (simp_all add: zero_tail_def content_def)
  moreover have "\<forall>b \<in> set [6]. set (the (sample_disk b)) \<subseteq> {0}"
    by (simp add: sample_disk_def)
  ultimately show ?thesis
    using increase_size_zero_extends [OF s(1), of 100 "[6]" 1] by (auto simp: sample_inode_def)
qed

text \<open>
  \<open>read_at\<close> of a well-formed inode always returns the number of bytes between the offset and
  the nearer of the end of the buffer and the end of the file, and fills the front of the buffer
  with exactly those bytes of the contents, across direct, single- and double-indirect blocks.
\<close>

theorem read_at_reads_content:
  assumes "inode_ok di d" and "offset + length buf < 2 ^ 64"
  shows "\<exists>n buf'. read_at di offset buf d = Some (n, buf') \<and> n = min (length buf) (di_size di - offset) \<and>
    take n buf' = slice offset n (content di d) \<and> drop n buf' = drop n buf"
proof -
  let ?n = "min (length buf) (di_size di - offset)"
  have "length (slice offset ?n (content di d)) = ?n"
    using assms(1) by simp
  then show ?thesis
    using read_at_eq [OF assms] by (simp add: splice_def Let_def)
qed

theorem read_at_reads_content_witness:
  "\<exists>n buf'. read_at (sample_inode 300) 290 (replicate 20 0) sample_disk = Some (n, buf') \<and> n = 10"
  using read_at_reads_content [OF sample_inode_ok(1) [of 300, simplified], of 290 "replicate 20 0"]
  by (auto simp: sample_inode_def)

text \<open>
  \<open>write_at\<close> of a non-empty buffer inside a well-formed inode returns the number of bytes that
  fit before the end of the file, replaces exactly those bytes of the contents, keeps the block
  tree, and writes no block but the inode's data blocks.
\<close>

theorem write_at_replaces_content:
  assumes "inode_ok di d" and "offset + length buf < 2 ^ 64" and "offset < di_size di" and "buf \<noteq> []"
  shows "\<exists>n d'. write_at di offset buf d = Some (n, d') \<and> n = min (length buf) (di_size di - offset) \<and>
    inode_ok di d' \<and> itree di d' = itree di d \<and>
    content di d' = splice offset (take n buf) (content di d) \<and>
    (\<forall>b. b \<notin> set (block_ids di d) \<longrightarrow> d' b = d b)"
proof -
  let ?n = "min (length buf) (di_size di - offset)"
  obtain d' where d': "write_at di offset buf d = Some (?n, d')" "data_written di d offset (take ?n buf) d'"
    using write_at_eq [OF assms refl] by blast
  have "content di d' = splice offset (take ?n buf) (content di d)"
    using assms(3) by (intro data_written_content [OF d'(2) _ assms(1)]) auto
  with d' show ?thesis
    by (auto simp: data_written_def)
qed

theorem write_at_replaces_content_witness:
  "\<exists>n d'. write_at (sample_inode 300) 290 [1, 2] sample_disk = Some (n, d') \<and> n = 2 \<and>
    content (sample_inode 300) d' = splice 290 [1, 2] (content (sample_inode 300) sample_disk)"
  using write_at_replaces_content [OF sample_inode_ok(1) [of 300, simplified], of 290 "[1, 2]"]
  by (auto simp: sample_inode_def)

lemma clear_size_tree:
  assumes "inode_ok di d"
  shows "\<exists>di'. clear_size di d = Some (map snd (itree di d), di', d) \<and> distinct (map snd (itree di d)) \<and>
    length (map snd (itree di d)) = total_blocks (di_size di) \<and> wf_fields di' \<and> di_size di' = 0 \<and>
    di_nlink di' = di_nlink di \<and> di_type di' = di_type di"
proof -
  note D = inode_okD [OF assms]
  have "length (itree di d) = tree_total (data_blocks di)"
    using length_l2_tree [of "data_blocks di - INODE_DIRECT_COUNT - INODE_INDIRECT1_COUNT" "index_block d (di_indirect2 di)" d]
      D(5,6)
    by (auto simp: itree_def inode_tree_def indirect1_tree_def indirect2_tree_def l1_tree_def tree_total_def
        MAX_BLOCKS_def layout_consts)
  then have "length (map snd (itree di d)) = total_blocks (di_size di)"
    using total_blocks_eq(1) [OF D(3)] by (simp add: data_blocks_def)
  then show ?thesis
    using clear_size_eq [OF assms] D(4) by (simp add: blocks_ok_def)
qed

text \<open>
  \<open>clear_size\<close> of a well-formed inode returns every block of its tree exactly once, data and
  index blocks alike, in the order in which growing took them in; their number is
  \<open>total_blocks\<close> of the old size, which is what \<open>clear_locked\<close> asserts. The inode is empty
  afterwards and the disk is unchanged.
\<close>

theorem clear_size_returns_tree:
  assumes "inode_ok di d"
  shows "\<exists>v di'. clear_size di d = Some (v, di', d) \<and> v = map snd (itree di d) \<and> distinct v \<and>
    length v = total_blocks (di_size di) \<and> inode_ok di' d \<and> di_size di' = 0 \<and> itree di' d = [] \<and>
    di_nlink di' = di_nlink di \<and> di_type di' = di_type di"
proof -
  obtain di' where c: "clear_size di d = Some (map snd (itree di d), di', d)" "wf_fields di'"
    "di_size di' = 0" "di_nlink di' = di_nlink di" "di_type di' = di_type di"
    "distinct (map snd (itree di d))" "length (map snd (itree di d)) = total_blocks (di_size di)"
    using clear_size_tree [OF assms] by blast
  have T: "itree di' d = []"
    using c(3) by (simp add: itree_def inode_tree_def indirect1_tree_def data_blocks_def
        data_blocks_of_size_def u32_def layout_consts)
  then have "inode_ok di' d"
    using c(2,3) inode_okD(1) [OF assms] by (simp add: inode_ok_def blocks_ok_def)
  with c T show ?thesis
    by blast
qed

theorem clear_size_returns_tree_witness:
  "\<exists>v di'. clear_size (sample_inode 300) sample_disk = Some (v, di', sample_disk) \<and> v = [5]"
  using clear_size_returns_tree [OF sample_inode_ok(1) [of 300, simplified]] sample_inode_ok(2) [of 300]
  by auto

end
