(* ===== verification/Efs.thy ===== *)
theory Efs
  imports Bitmap InodeData
begin

text \<open>
  The file system as a whole (\<^verbatim>\<open>easy-fs/src/efs.rs\<close>): super block, inode bitmap, inode area, data
  bitmap, data area, in this order on the device. The struct never changes after \<open>create\<close> or
  \<open>open\<close>; what changes is the disk, which the operations take and return. The spin lock around the
  struct is not modelled: every operation of the VFS layer holds it from its first to its last step
  and none takes it twice. \<open>block_cache_sync_all\<close> does not change the plain disk.
\<close>

record EasyFileSystem =
  inode_bitmap :: Bitmap
  data_bitmap :: Bitmap
  inode_area_start_block :: nat
  data_area_start_block :: nat

section \<open>Inodes inside a block\<close>

definition read_inode :: "nat \<Rightarrow> (DiskInode \<Rightarrow> disk \<Rightarrow> 'r option) \<Rightarrow> block \<Rightarrow> disk \<Rightarrow> 'r option" where
  \<comment> \<open>\<open>read(offset, |inode: &DiskInode| ..)\<close> on a locked block\<close>
  "read_inode off f blk d = do {
     ensure (off + INODE_SIZE \<le> BLOCK_SZ);
     di \<leftarrow> DiskInode_of_bytes (slice off INODE_SIZE blk);
     f di d }"

definition modify_inode ::
    "nat \<Rightarrow> (DiskInode \<Rightarrow> disk \<Rightarrow> (('r \<times> DiskInode) \<times> disk) option) \<Rightarrow> block \<Rightarrow> disk \<Rightarrow> (('r \<times> block) \<times> disk) option" where
  \<comment> \<open>\<open>modify(offset, |inode: &mut DiskInode| ..)\<close> on a locked block\<close>
  "modify_inode off f blk d = do {
     ensure (off + INODE_SIZE \<le> BLOCK_SZ);
     di \<leftarrow> DiskInode_of_bytes (slice off INODE_SIZE blk);
     ((r, di'), d') \<leftarrow> f di d;
     Some ((r, splice off (DiskInode_to_bytes di') blk), d') }"

section \<open>Operations\<close>

definition get_disk_inode_pos :: "EasyFileSystem \<Rightarrow> nat \<Rightarrow> nat \<times> nat" where
  "get_disk_inode_pos efs inode_id =
     (let INODES_PER_BLOCK = BLOCK_SZ div INODE_SIZE;
          bid = u32 (inode_area_start_block efs + inode_id div INODES_PER_BLOCK)
      in (bid, (inode_id mod INODES_PER_BLOCK) * INODE_SIZE))"

definition get_data_block_id :: "EasyFileSystem \<Rightarrow> nat \<Rightarrow> nat" where
  "get_data_block_id efs data_block_id = u32 (data_area_start_block efs + data_block_id)"

definition alloc_inode :: "EasyFileSystem \<Rightarrow> disk \<Rightarrow> (nat \<times> disk) option" where
  "alloc_inode efs d = do {
     (r, d') \<leftarrow> Bitmap_alloc (inode_bitmap efs) d;
     i \<leftarrow> r;
     Some (u32 i, d') }"

definition dealloc_inode :: "disk \<Rightarrow> disk option" where
  \<comment> \<open>\<open>unimplemented!()\<close>\<close>
  "dealloc_inode d = None"

definition alloc_data :: "EasyFileSystem \<Rightarrow> disk \<Rightarrow> (nat \<times> disk) option" where
  "alloc_data efs d = do {
     (r, d') \<leftarrow> Bitmap_alloc (data_bitmap efs) d;
     i \<leftarrow> r;
     Some (u32 (data_area_start_block efs + u32 i), d') }"

definition dealloc_data :: "EasyFileSystem \<Rightarrow> nat \<Rightarrow> disk \<Rightarrow> disk option" where
  "dealloc_data efs bid d = do {
     (_, d') \<leftarrow> with_block bid (\<lambda>blk d. Some (((), replicate BLOCK_SZ 0), d)) d;
     Bitmap_dealloc (data_bitmap efs) (u32_sub bid (data_area_start_block efs)) d' }"

section \<open>Creating and opening\<close>

fun clear_blocks :: "nat list \<Rightarrow> disk \<Rightarrow> disk option" where
  \<comment> \<open>\<open>for i in 0..total_blocks\<close>, filling each block with zeros\<close>
  "clear_blocks [] d = Some d"
| "clear_blocks (i # is) d = do {
     (_, d') \<leftarrow> with_block i (\<lambda>blk d. Some (((), replicate BLOCK_SZ 0), d)) d;
     clear_blocks is d' }"

definition efs_layout :: "nat \<Rightarrow> nat \<Rightarrow> SuperBlock \<times> EasyFileSystem" where
  \<comment> \<open>the sizes of the areas as \<open>create\<close> computes them\<close>
  "efs_layout tb ibb =
     (let ib = Bitmap_new 1 ibb;
          inode_num = maxmium ib;
          iab = u32 ((inode_num * INODE_SIZE + BLOCK_SZ - 1) div BLOCK_SZ);
          inode_total = u32 (ibb + iab);
          data_total = u32_sub (u32_sub tb 1) inode_total;
          dbb = u32 (data_total + 4096) div 4097;
          dab = u32_sub data_total dbb;
          db = Bitmap_new (1 + inode_total) dbb
      in (SuperBlock_initialize tb ibb iab dbb dab,
          \<lparr>inode_bitmap = ib, data_bitmap = db, inode_area_start_block = u32 (1 + ibb),
           data_area_start_block = u32 (1 + inode_total + dbb)\<rparr>))"

definition create :: "nat \<Rightarrow> nat \<Rightarrow> disk \<Rightarrow> (EasyFileSystem \<times> disk) option" where
  "create tb ibb d =
     (let (sb, efs) = efs_layout tb ibb in do {
        d \<leftarrow> clear_blocks [0..<tb] d;
        (_, d) \<leftarrow> with_block 0 (\<lambda>blk d. Some (((), splice 0 (SuperBlock_to_bytes sb) blk), d)) d;
        (ino, d) \<leftarrow> alloc_inode efs d;
        ensure (ino = 0);
        let (root_block, root_off) = get_disk_inode_pos efs 0;
        ensure (root_block = inode_area_start_block efs);
        ensure (root_off = 0);
        (_, d) \<leftarrow> with_block root_block
          (modify_inode root_off (\<lambda>di d. do {
             (di', d') \<leftarrow> initialize_dir 0 0 (alloc_data efs) (DiskInode_initialize Directory di) d;
             Some (((), di'), d') })) d;
        Some (efs, d) })"

definition open_fs :: "disk \<Rightarrow> EasyFileSystem option" where
  "open_fs d = peek_block 0 (\<lambda>blk _. do {
     let sb = SuperBlock_of_bytes blk;
     ensure (is_valid sb);
     let inode_total = u32 (inode_bitmap_blocks sb + inode_area_blocks sb);
     Some \<lparr>inode_bitmap = Bitmap_new 1 (inode_bitmap_blocks sb),
           data_bitmap = Bitmap_new (1 + inode_total) (data_bitmap_blocks sb),
           inode_area_start_block = u32 (1 + inode_bitmap_blocks sb),
           data_area_start_block = u32 (1 + inode_total + data_bitmap_blocks sb)\<rparr> }) d"

end
