(* ===== verification/Vfs.thy ===== *)
theory Vfs
  imports Efs
begin

text \<open>
  The VFS layer of easy-fs (\<^verbatim>\<open>easy-fs/src/vfs.rs\<close>): handles on disk inodes, directories as
  sequences of 32-byte entries, and the operations the kernel calls. The handle's \<open>Arc\<close>s to the
  file system and the device are the arguments \<open>efs\<close> and \<open>d\<close> here. Names and paths are byte lists.
\<close>

record Inode =
  inode_id :: nat
  inode_block_id :: nat
  inode_block_offset :: nat

definition Inode_new :: "nat \<Rightarrow> nat \<Rightarrow> nat \<Rightarrow> Inode" where
  "Inode_new i b off = \<lparr>inode_id = i, inode_block_id = b, inode_block_offset = off\<rparr>"

definition inode_handle :: "EasyFileSystem \<Rightarrow> nat \<Rightarrow> Inode" where
  \<comment> \<open>\<open>Self::new(id, block_id, block_offset, ..)\<close> with the position of the inode\<close>
  "inode_handle efs i = (let (b, off) = get_disk_inode_pos efs i in Inode_new i b off)"

definition root_inode :: "EasyFileSystem \<Rightarrow> Inode" where
  "root_inode efs = inode_handle efs 0"

definition read_disk_inode :: "Inode \<Rightarrow> (DiskInode \<Rightarrow> disk \<Rightarrow> 'r option) \<Rightarrow> disk \<Rightarrow> 'r option" where
  "read_disk_inode ino f d = peek_block (inode_block_id ino) (read_inode (inode_block_offset ino) f) d"

definition modify_disk_inode ::
    "Inode \<Rightarrow> (DiskInode \<Rightarrow> disk \<Rightarrow> (('r \<times> DiskInode) \<times> disk) option) \<Rightarrow> disk \<Rightarrow> ('r \<times> disk) option" where
  "modify_disk_inode ino f d = with_block (inode_block_id ino) (modify_inode (inode_block_offset ino) f) d"

section \<open>Searching a directory\<close>

definition read_entry :: "DiskInode \<Rightarrow> nat \<Rightarrow> disk \<Rightarrow> DirEntry option" where
  \<comment> \<open>\<open>assert_eq!(disk_inode.read_at(i * DIRENT_SZ, dirent.as_bytes_mut(), ..), DIRENT_SZ)\<close>\<close>
  "read_entry di i d = do {
     (n, bs) \<leftarrow> read_at di (i * DIRENT_SZ) (as_bytes DirEntry_new_empty) d;
     ensure (n = DIRENT_SZ);
     Some (DirEntry_of_bytes bs) }"

fun search_entries :: "(DirEntry \<Rightarrow> bool option) \<Rightarrow> DiskInode \<Rightarrow> nat list \<Rightarrow> disk \<Rightarrow> (nat \<times> DirEntry) option option" where
  \<comment> \<open>\<open>for i in 0..file_count\<close>, stopping at the first entry that satisfies the test\<close>
  "search_entries p di [] d = Some None"
| "search_entries p di (i # is) d = do {
     e \<leftarrow> read_entry di i d;
     b \<leftarrow> p e;
     (if b then Some (Some (i, e)) else search_entries p di is d) }"

definition file_count :: "DiskInode \<Rightarrow> nat" where
  "file_count di = di_size di div DIRENT_SZ"

definition has_name :: "bytes \<Rightarrow> DirEntry \<Rightarrow> bool option" where
  "has_name nm e = do { s \<leftarrow> DirEntry_name e; Some (s = nm) }"

definition find_inode_id :: "bytes \<Rightarrow> DiskInode \<Rightarrow> disk \<Rightarrow> nat option option" where
  "find_inode_id nm di d = do {
     ensure (is_dir di);
     r \<leftarrow> search_entries (has_name nm) di [0..<file_count di] d;
     Some (map_option (inode_number \<circ> snd) r) }"

definition get_dirent :: "(DirEntry \<Rightarrow> bool) \<Rightarrow> DiskInode \<Rightarrow> disk \<Rightarrow> DirEntry option option" where
  "get_dirent pred di d = do {
     ensure (is_dir di);
     r \<leftarrow> search_entries (\<lambda>e. Some (pred e)) di [0..<file_count di] d;
     Some (map_option snd r) }"

definition read_dirent :: "Inode \<Rightarrow> nat \<Rightarrow> (DirEntry \<Rightarrow> 'v) \<Rightarrow> disk \<Rightarrow> 'v option option" where
  "read_dirent self i f d = do {
     r \<leftarrow> read_disk_inode self (get_dirent (\<lambda>e. inode_number e = i)) d;
     Some (map_option f r) }"

fun collect_dirents :: "EasyFileSystem \<Rightarrow> DiskInode \<Rightarrow> nat list \<Rightarrow> disk \<Rightarrow> (bytes \<times> Inode) list option" where
  "collect_dirents efs di [] d = Some []"
| "collect_dirents efs di (i # is) d = do {
     e \<leftarrow> read_entry di i d;
     nm \<leftarrow> DirEntry_name e;
     v \<leftarrow> collect_dirents efs di is d;
     Some ((nm, inode_handle efs (inode_number e)) # v) }"

definition dirents :: "EasyFileSystem \<Rightarrow> Inode \<Rightarrow> nat \<Rightarrow> disk \<Rightarrow> (bytes \<times> Inode) list option" where
  "dirents efs self cursor d = read_disk_inode self
     (\<lambda>di d. do {
        ensure (is_dir di);
        (if cursor \<ge> file_count di then Some []
         else collect_dirents efs di [cursor..<file_count di] d) }) d"

fun collect_names :: "DiskInode \<Rightarrow> nat list \<Rightarrow> disk \<Rightarrow> bytes list option" where
  "collect_names di [] d = Some []"
| "collect_names di (i # is) d = do {
     e \<leftarrow> read_entry di i d;
     nm \<leftarrow> DirEntry_name e;
     v \<leftarrow> collect_names di is d;
     Some (nm # v) }"

definition ls :: "Inode \<Rightarrow> disk \<Rightarrow> bytes list option" where
  "ls self d = read_disk_inode self
     (\<lambda>di d. if is_file di then Some [] else collect_names di [0..<file_count di] d) d"

section \<open>Path lookup\<close>

fun split_slash :: "bytes \<Rightarrow> bytes list" where
  \<comment> \<open>\<open>path.split('/')\<close>\<close>
  "split_slash [] = [[]]"
| "split_slash (c # cs) =
     (if c = 47 then [] # split_slash cs
      else (case split_slash cs of [] \<Rightarrow> [[c]] | s # ss \<Rightarrow> (c # s) # ss))"

fun find_from :: "EasyFileSystem \<Rightarrow> bytes list \<Rightarrow> Inode \<Rightarrow> disk \<Rightarrow> Inode option option" where
  "find_from efs [] cur d = Some (Some cur)"
| "find_from efs (nm # nms) cur d = do {
     r \<leftarrow> read_disk_inode cur (\<lambda>di d. if is_file di then Some None else find_inode_id nm di d) d;
     (case r of
        Some v \<Rightarrow> find_from efs nms (inode_handle efs v) d
      | None \<Rightarrow> Some None) }"

definition find :: "EasyFileSystem \<Rightarrow> Inode \<Rightarrow> bytes \<Rightarrow> disk \<Rightarrow> Inode option option" where
  "find efs self path d = find_from efs (filter (\<lambda>s. s \<noteq> []) (split_slash path)) self d"

section \<open>Growing, creating, linking\<close>

definition Inode_increase_size :: "EasyFileSystem \<Rightarrow> nat \<Rightarrow> DiskInode \<Rightarrow> disk \<Rightarrow> (DiskInode \<times> disk) option" where
  "Inode_increase_size efs new_size di d =
     (if new_size \<le> di_size di then Some (di, d)
      else do {
        needed \<leftarrow> blocks_num_needed di new_size;
        (new_blocks, d) \<leftarrow> alloc_many (alloc_data efs) needed d;
        increase_size new_size new_blocks di d })"

definition append_dirent :: "EasyFileSystem \<Rightarrow> bytes \<Rightarrow> nat \<Rightarrow> DiskInode \<Rightarrow> disk \<Rightarrow> ((unit \<times> DiskInode) \<times> disk) option" where
  \<comment> \<open>the closure \<open>create_inode\<close> and \<open>link\<close> run on the directory\<close>
  "append_dirent efs nm i di d = do {
     let new_size = (file_count di + 1) * DIRENT_SZ;
     let n = file_count di;
     (di, d) \<leftarrow> Inode_increase_size efs (u32 new_size) di d;
     e \<leftarrow> DirEntry_new nm i;
     (_, d) \<leftarrow> write_at di (n * DIRENT_SZ) (as_bytes e) d;
     Some (((), di), d) }"

definition create_inode :: "EasyFileSystem \<Rightarrow> Inode \<Rightarrow> bytes \<Rightarrow> DiskInodeType \<Rightarrow> disk \<Rightarrow> (Inode option \<times> disk) option" where
  "create_inode efs self nm t d = do {
     r \<leftarrow> read_disk_inode self (\<lambda>di d. do { ensure (is_dir di); find_inode_id nm di d }) d;
     (if r \<noteq> None then Some (None, d)
      else do {
        (new_id, d) \<leftarrow> alloc_inode efs d;
        let ino = inode_handle efs new_id;
        (_, d) \<leftarrow> modify_disk_inode ino (\<lambda>di d. Some (((), DiskInode_initialize t di), d)) d;
        (_, d) \<leftarrow> modify_disk_inode self (append_dirent efs nm new_id) d;
        (_, d) \<leftarrow>
          (if t = Directory then
             modify_disk_inode ino (\<lambda>di d. do {
               (di, d) \<leftarrow> initialize_dir new_id (inode_id self) (alloc_data efs) di d;
               Some (((), di), d) }) d
           else Some ((), d));
        Some (Some ino, d) }) }"

definition Inode_create :: "EasyFileSystem \<Rightarrow> Inode \<Rightarrow> bytes \<Rightarrow> disk \<Rightarrow> (Inode option \<times> disk) option" where
  "Inode_create efs self nm d = create_inode efs self nm File d"

definition create_dir :: "EasyFileSystem \<Rightarrow> Inode \<Rightarrow> bytes \<Rightarrow> disk \<Rightarrow> (Inode option \<times> disk) option" where
  "create_dir efs self nm d = create_inode efs self nm Directory d"

definition clear_locked :: "EasyFileSystem \<Rightarrow> Inode \<Rightarrow> disk \<Rightarrow> disk option" where
  "clear_locked efs self d = do {
     (_, d) \<leftarrow> modify_disk_inode self
       (\<lambda>di d. do {
          let sz = di_size di;
          (v, di, d) \<leftarrow> clear_size di d;
          ensure (length v = total_blocks sz);
          d \<leftarrow> dealloc_many (dealloc_data efs) v d;
          Some (((), di), d) }) d;
     Some d }"

definition clear :: "EasyFileSystem \<Rightarrow> Inode \<Rightarrow> disk \<Rightarrow> disk option" where
  "clear efs self d = clear_locked efs self d"

definition Inode_read_at :: "Inode \<Rightarrow> nat \<Rightarrow> bytes \<Rightarrow> disk \<Rightarrow> (nat \<times> bytes) option" where
  "Inode_read_at self offset buf d = read_disk_inode self (\<lambda>di d. read_at di offset buf d) d"

definition Inode_write_at :: "EasyFileSystem \<Rightarrow> Inode \<Rightarrow> nat \<Rightarrow> bytes \<Rightarrow> disk \<Rightarrow> (nat \<times> disk) option" where
  "Inode_write_at efs self offset buf d = modify_disk_inode self
     (\<lambda>di d. do {
        ensure (is_file di);
        (di, d) \<leftarrow> Inode_increase_size efs (u32 (offset + length buf)) di d;
        (n, d) \<leftarrow> write_at di offset buf d;
        Some ((n, di), d) }) d"

definition get_size :: "Inode \<Rightarrow> disk \<Rightarrow> nat option" where
  "get_size self d = read_disk_inode self (\<lambda>di _. Some (di_size di)) d"

definition Inode_is_dir :: "Inode \<Rightarrow> disk \<Rightarrow> bool option" where
  "Inode_is_dir self d = read_disk_inode self (\<lambda>di _. Some (is_dir di)) d"

definition Inode_is_file :: "Inode \<Rightarrow> disk \<Rightarrow> bool option" where
  "Inode_is_file self d = read_disk_inode self (\<lambda>di _. Some (is_file di)) d"

definition nlink :: "Inode \<Rightarrow> disk \<Rightarrow> nat option" where
  "nlink self d = read_disk_inode self (\<lambda>di _. Some (di_nlink di)) d"

definition link :: "EasyFileSystem \<Rightarrow> Inode \<Rightarrow> bytes \<Rightarrow> Inode \<Rightarrow> disk \<Rightarrow> (Inode option \<times> disk) option" where
  "link efs self nm src d = do {
     r \<leftarrow> read_disk_inode self (\<lambda>di d. do { ensure (is_dir di); find_inode_id nm di d }) d;
     (if r \<noteq> None then Some (None, d)
      else do {
        (_, d) \<leftarrow> modify_disk_inode self (append_dirent efs nm (inode_id src)) d;
        (_, d) \<leftarrow> modify_disk_inode src
          (\<lambda>di d. Some (((), di\<lparr>di_nlink := u32 (di_nlink di + 1)\<rparr>), d)) d;
        Some (Some src, d) }) }"

definition remove_dirent :: "EasyFileSystem \<Rightarrow> bytes \<Rightarrow> DiskInode \<Rightarrow> disk \<Rightarrow> ((Inode option \<times> DiskInode) \<times> disk) option" where
  \<comment> \<open>the closure \<open>unlink\<close> runs on the directory: the last entry takes the place of the removed one\<close>
  "remove_dirent efs nm di d =
     (if \<not> is_dir di then Some ((None, di), d)
      else do {
        r \<leftarrow> search_entries (has_name nm) di [0..<file_count di] d;
        (case r of
           Some (i, dirent) \<Rightarrow> do {
             let target = inode_handle efs (inode_number dirent);
             (_, swap) \<leftarrow> read_at di ((file_count di - 1) * DIRENT_SZ) (as_bytes DirEntry_new_empty) d;
             (_, d) \<leftarrow> write_at di (i * DIRENT_SZ) swap d;
             Some ((Some target, di\<lparr>di_size := u32_sub (di_size di) DIRENT_SZ\<rparr>), d) }
         | None \<Rightarrow> Some ((None, di), d)) })"

definition unlink :: "EasyFileSystem \<Rightarrow> Inode \<Rightarrow> bytes \<Rightarrow> disk \<Rightarrow> (bool \<times> disk) option" where
  "unlink efs self nm d = do {
     (target, d) \<leftarrow> modify_disk_inode self (remove_dirent efs nm) d;
     (case target of
        Some t \<Rightarrow> do {
          (n, d) \<leftarrow> modify_disk_inode t
            (\<lambda>di d. let n = u32_sub (di_nlink di) 1 in Some ((n, di\<lparr>di_nlink := n\<rparr>), d)) d;
          (if n = 0 then do { d \<leftarrow> clear_locked efs t d; Some (True, d) }
           else Some (True, d)) }
      | None \<Rightarrow> Some (False, d)) }"

end
