(* ===== verification/FsInv.thy ===== *)
theory FsInv
  imports Vfs
begin

text \<open>
  The invariant of a mounted file system and the frame rule of its operations. \<open>fs_inv\<close> says that
  the areas of the device do not overlap, that every used inode is well formed and owns its blocks,
  that no two inodes share a block, that blocks nobody owns are zero, and that directories hold
  valid names of used inodes. An operation that works on one locked inode is an
  \<open>inode_step\<close>; \<open>fs_inv_step\<close> lifts it to the file system: the invariant is kept and every other
  inode keeps its contents.
\<close>

section \<open>Geometry\<close>

definition INODES_PER_BLOCK :: nat where
  "INODES_PER_BLOCK = BLOCK_SZ div INODE_SIZE"

lemma INODES_PER_BLOCK_eq: "INODES_PER_BLOCK = 4"
  by (simp add: INODES_PER_BLOCK_def BLOCK_SZ_def INODE_SIZE_def)

definition geometry :: "EasyFileSystem \<Rightarrow> nat \<Rightarrow> bool" where
  \<comment> \<open>\<open>nd\<close> data blocks lie on the device\<close>
  "geometry efs nd \<longleftrightarrow>
     start_block_id (inode_bitmap efs) = 1 \<and>
     inode_area_start_block efs = 1 + blocks (inode_bitmap efs) \<and>
     inode_area_start_block efs + maxmium (inode_bitmap efs) div INODES_PER_BLOCK \<le> start_block_id (data_bitmap efs) \<and>
     data_area_start_block efs = start_block_id (data_bitmap efs) + blocks (data_bitmap efs) \<and>
     nd \<le> maxmium (data_bitmap efs) \<and> data_area_start_block efs + nd \<le> 2 ^ 32 \<and>
     maxmium (inode_bitmap efs) \<le> 2 ^ 32"

definition data_area :: "EasyFileSystem \<Rightarrow> nat \<Rightarrow> nat set" where
  "data_area efs nd = {data_area_start_block efs ..< data_area_start_block efs + nd}"

definition allocated :: "EasyFileSystem \<Rightarrow> disk \<Rightarrow> nat set" where
  "allocated efs d = (\<lambda>i. data_area_start_block efs + i) ` bitmap_used (data_bitmap efs) d"

definition used_inodes :: "EasyFileSystem \<Rightarrow> disk \<Rightarrow> nat set" where
  "used_inodes efs d = bitmap_used (inode_bitmap efs) d"

definition free_zero :: "EasyFileSystem \<Rightarrow> nat \<Rightarrow> disk \<Rightarrow> bool" where
  "free_zero efs nd d \<longleftrightarrow> (\<forall>b \<in> data_area efs nd - allocated efs d. d b = Some (replicate BLOCK_SZ 0))"

definition free_blocks :: "EasyFileSystem \<Rightarrow> nat \<Rightarrow> disk \<Rightarrow> nat" where
  "free_blocks efs nd d = card (data_area efs nd - allocated efs d)"

abbreviation inode_block :: "EasyFileSystem \<Rightarrow> nat \<Rightarrow> nat" where
  "inode_block efs i \<equiv> inode_area_start_block efs + i div INODES_PER_BLOCK"

abbreviation inode_offset :: "nat \<Rightarrow> nat" where
  "inode_offset i \<equiv> i mod INODES_PER_BLOCK * INODE_SIZE"

definition inode_at :: "EasyFileSystem \<Rightarrow> disk \<Rightarrow> nat \<Rightarrow> DiskInode option" where
  "inode_at efs d i = do { blk \<leftarrow> d (inode_block efs i); DiskInode_of_bytes (slice (inode_offset i) INODE_SIZE blk) }"

lemma geometryD:
  assumes "geometry efs nd" and "i < maxmium (inode_bitmap efs)"
  shows "inode_block efs i < start_block_id (data_bitmap efs)"
    and "inode_block efs i \<notin> bitmap_area (inode_bitmap efs)"
    and "inode_block efs i \<notin> bitmap_area (data_bitmap efs)"
    and "inode_block efs i \<notin> data_area efs nd" and "inode_block efs i < 2 ^ 32"
proof -
  have "maxmium (inode_bitmap efs) mod INODES_PER_BLOCK = 0"
    by (simp add: maxmium_def BLOCK_BITS_def BLOCK_SZ_def INODES_PER_BLOCK_eq mod_mult_right_eq [symmetric])
  then have "i div INODES_PER_BLOCK < maxmium (inode_bitmap efs) div INODES_PER_BLOCK"
    using assms(2) by (auto simp: INODES_PER_BLOCK_eq elim!: dvdE simp flip: dvd_eq_mod_eq_0)
  then show "inode_block efs i < start_block_id (data_bitmap efs)"
    and "inode_block efs i \<notin> bitmap_area (inode_bitmap efs)"
    and "inode_block efs i \<notin> bitmap_area (data_bitmap efs)"
    and "inode_block efs i \<notin> data_area efs nd" and "inode_block efs i < 2 ^ 32"
    using assms(1) by (auto simp: geometry_def bitmap_area_def data_area_def)
qed

lemma geometry_areas:
  assumes "geometry efs nd"
  shows "bitmap_area (inode_bitmap efs) \<inter> data_area efs nd = {}"
    and "bitmap_area (data_bitmap efs) \<inter> data_area efs nd = {}"
    and "bitmap_area (inode_bitmap efs) \<inter> bitmap_area (data_bitmap efs) = {}"
  using assms by (auto simp: geometry_def bitmap_area_def data_area_def)

lemma inode_handle_eq:
  assumes "geometry efs nd" and "i < maxmium (inode_bitmap efs)"
  shows "inode_handle efs i = \<lparr>inode_id = i, inode_block_id = inode_block efs i, inode_block_offset = inode_offset i\<rparr>"
  using geometryD(5) [OF assms]
  by (simp add: inode_handle_def get_disk_inode_pos_def Let_def INODES_PER_BLOCK_def Inode_new_def u32_def)

lemma inode_offset_bound: "inode_offset i + INODE_SIZE \<le> BLOCK_SZ"
proof -
  have "i mod 4 < (4 :: nat)" by simp
  then have "i mod 4 * 128 + 128 \<le> (512 :: nat)" by linarith
  then show ?thesis
    by (simp add: INODES_PER_BLOCK_eq INODE_SIZE_def BLOCK_SZ_def)
qed

lemma inode_slots_disjoint:
  assumes "inode_block efs i = inode_block efs j" and "i \<noteq> j"
  shows "inode_offset i + INODE_SIZE \<le> inode_offset j \<or> inode_offset j + INODE_SIZE \<le> inode_offset i"
proof -
  have "i div 4 = j div 4" "i mod 4 \<noteq> j mod 4"
    using assms by (auto simp: INODES_PER_BLOCK_eq) (metis div_mult_mod_eq)
  then have "i mod 4 < j mod 4 \<or> j mod 4 < i mod 4"
    by auto
  then show ?thesis
    unfolding INODES_PER_BLOCK_eq INODE_SIZE_def by linarith
qed

section \<open>Writing an inode back to its slot\<close>

definition put_inode :: "EasyFileSystem \<Rightarrow> nat \<Rightarrow> DiskInode \<Rightarrow> block \<Rightarrow> disk \<Rightarrow> disk" where
  "put_inode efs i di blk d = d(inode_block efs i \<mapsto> splice (inode_offset i) (DiskInode_to_bytes di) blk)"

lemma inode_at_put:
  assumes "length blk = BLOCK_SZ" and "wf_fields di"
  shows "inode_at efs (put_inode efs i di blk d) j =
    (if j = i then Some di
     else if inode_block efs j = inode_block efs i then DiskInode_of_bytes (slice (inode_offset j) INODE_SIZE blk)
     else inode_at efs d j)"
proof -
  let ?off = "inode_offset i" and ?s = "splice (inode_offset i) (DiskInode_to_bytes di) blk"
  note off = inode_offset_bound [of i]
  have len: "length (DiskInode_to_bytes di) = 125"
    using assms(2) by simp
  have s: "slice ?off INODE_SIZE ?s = DiskInode_to_bytes di @ slice (?off + 125) 3 blk"
  proof -
    have "take ?off blk @ DiskInode_to_bytes di @ drop (?off + 125) blk = ?s"
      using len by (simp add: splice_def)
    moreover have "length (take ?off blk) = ?off"
      using off assms(1) by simp
    ultimately have "drop ?off ?s = DiskInode_to_bytes di @ drop (?off + 125) blk"
      by (metis append_eq_conv_conj)
    then show ?thesis
      using len by (simp add: slice_def INODE_SIZE_def)
  qed
  show ?thesis
  proof (cases "j = i")
    case True
    then show ?thesis
      using DiskInode_of_to_bytes [OF assms(2)] s by (simp add: inode_at_def put_inode_def)
  next
    case False
    show ?thesis
    proof (cases "inode_block efs j = inode_block efs i")
      case True
      then have "slice (inode_offset j) INODE_SIZE ?s = slice (inode_offset j) INODE_SIZE blk"
        using inode_slots_disjoint [OF True False] inode_offset_bound [of j] off assms len
        by (intro slice_simps) (auto simp: INODE_SIZE_def)
      with True False show ?thesis
        by (simp add: inode_at_def put_inode_def)
    next
      case other: False
      with False show ?thesis
        by (simp add: inode_at_def put_inode_def)
    qed
  qed
qed

lemma length_put_block:
  "length blk = BLOCK_SZ \<Longrightarrow> wf_fields di \<Longrightarrow> length (splice (inode_offset i) (DiskInode_to_bytes di) blk) = BLOCK_SZ"
  using inode_offset_bound [of i] by (simp add: INODE_SIZE_def)

lemma modify_disk_inode_eq:
  assumes "geometry efs nd" and "i < maxmium (inode_bitmap efs)"
    and "d (inode_block efs i) = Some blk" and "inode_at efs d i = Some di"
    and "f di (d(inode_block efs i := None)) = Some ((r, di'), d1)"
  shows "modify_disk_inode (inode_handle efs i) f d = Some (r, put_inode efs i di' blk d1)"
  using assms(3-5) inode_offset_bound [of i]
  by (simp add: modify_disk_inode_def inode_handle_eq [OF assms(1,2)] with_block_def modify_inode_def
      inode_at_def put_inode_def)

lemma read_disk_inode_eq:
  assumes "geometry efs nd" and "i < maxmium (inode_bitmap efs)" and "inode_at efs d i = Some di"
  shows "read_disk_inode (inode_handle efs i) f d = f di (d(inode_block efs i := None))"
  using assms(3) inode_offset_bound [of i]
  by (auto simp: read_disk_inode_def inode_handle_eq [OF assms(1,2)] peek_block_def read_inode_def inode_at_def)

section \<open>Allocation of data blocks\<close>

lemma data_area_index:
  "b \<in> data_area efs nd \<longleftrightarrow> (\<exists>i < nd. b = data_area_start_block efs + i)"
  by (auto simp: data_area_def intro!: exI [of _ "b - data_area_start_block efs"])

lemma allocated_index:
  "data_area_start_block efs + i \<in> allocated efs d \<longleftrightarrow> i \<in> bitmap_used (data_bitmap efs) d"
  by (auto simp: allocated_def)

lemma allocated_cong:
  assumes "\<And>b. b \<in> bitmap_area (data_bitmap efs) \<Longrightarrow> d b = d' b"
  shows "allocated efs d = allocated efs d'"
proof -
  have "bitmap_bit (data_bitmap efs) d i = bitmap_bit (data_bitmap efs) d' i" for i
  proof (cases "i < maxmium (data_bitmap efs)")
    case True
    then have "i div BLOCK_BITS + start_block_id (data_bitmap efs) \<in> bitmap_area (data_bitmap efs)"
      by (simp add: maxmium_div bitmap_area_def)
    then show ?thesis
      using assms by (simp add: bitmap_bit_def)
  qed (simp add: bitmap_bit_def)
  then show ?thesis
    by (simp add: allocated_def bitmap_used_def)
qed

lemma used_inodes_cong:
  assumes "\<And>b. b \<in> bitmap_area (inode_bitmap efs) \<Longrightarrow> d b = d' b"
  shows "used_inodes efs d = used_inodes efs d'"
proof -
  have "bitmap_bit (inode_bitmap efs) d i = bitmap_bit (inode_bitmap efs) d' i" for i
  proof (cases "i < maxmium (inode_bitmap efs)")
    case True
    then have "i div BLOCK_BITS + start_block_id (inode_bitmap efs) \<in> bitmap_area (inode_bitmap efs)"
      by (simp add: maxmium_div bitmap_area_def)
    then show ?thesis
      using assms by (simp add: bitmap_bit_def)
  qed (simp add: bitmap_bit_def)
  then show ?thesis
    by (simp add: used_inodes_def bitmap_used_def)
qed

lemma wf_bitmap_cong:
  assumes "\<And>b. b \<in> bitmap_area bm \<Longrightarrow> d b = d' b"
  shows "wf_bitmap bm d = wf_bitmap bm d'"
  using assms by (simp add: wf_bitmap_def bitmap_area_def)

lemma wf_disk_outside:
  assumes "wf_disk d" and "wf_bitmap bm d'" and "\<And>b. b \<notin> bitmap_area bm \<Longrightarrow> d' b = d b"
  shows "wf_disk d'"
proof
  fix b blk assume b: "d' b = Some blk"
  show "length blk = BLOCK_SZ"
  proof (cases "b \<in> bitmap_area bm")
    case True
    then have "b - start_block_id bm < blocks bm" "b - start_block_id bm + start_block_id bm = b"
      by (auto simp: bitmap_area_def)
    then show ?thesis
      using wf_bitmapD [OF assms(2)] b by fastforce
  next
    case False
    then show ?thesis
      using assms(1,3) b wf_diskD by metis
  qed
qed

lemma alloc_data_spec:
  assumes g: "geometry efs nd" and wf: "wf_bitmap (data_bitmap efs) d"
    and room: "data_area efs nd - allocated efs d \<noteq> {}"
  shows "\<exists>b d'. alloc_data efs d = Some (b, d') \<and> b \<in> data_area efs nd - allocated efs d \<and>
    allocated efs d' = insert b (allocated efs d) \<and> wf_bitmap (data_bitmap efs) d' \<and>
    dom d' = dom d \<and> (\<forall>b. b \<notin> bitmap_area (data_bitmap efs) \<longrightarrow> d' b = d b)"
proof -
  let ?bm = "data_bitmap efs" and ?s = "data_area_start_block efs"
  obtain r d' where r: "Bitmap_alloc ?bm d = Some (r, d')" "alloc_spec ?bm d r d'"
    using Bitmap_alloc_spec [OF wf] by blast
  obtain j where j: "j < nd" "j \<notin> bitmap_used ?bm d"
  proof -
    obtain b where "b \<in> data_area efs nd" "b \<notin> allocated efs d"
      using room by blast
    then show ?thesis
      using that by (auto simp: data_area_index allocated_index)
  qed
  have "nd \<le> maxmium ?bm"
    using g by (simp add: geometry_def)
  then have "j \<in> {..<maxmium ?bm} - bitmap_used ?bm d"
    using j by simp
  then have "bitmap_used ?bm d \<noteq> {..<maxmium ?bm}"
    by blast
  then obtain i where i: "r = Some i" "i \<notin> bitmap_used ?bm d" "{..<i} \<subseteq> bitmap_used ?bm d"
      "bitmap_used ?bm d' = insert i (bitmap_used ?bm d)"
    using r(2) by (cases r) (auto simp: alloc_spec_def)
  have "i \<le> j"
    using i(3) j(2) by (meson lessThan_iff not_le_imp_less subsetD)
  then have ind: "i < nd"
    using j(1) by simp
  moreover have "?s + nd \<le> 2 ^ 32"
    using g by (simp add: geometry_def)
  ultimately have "u32 (?s + u32 i) = ?s + i"
    by (simp add: u32_def)
  moreover have "?s + i \<in> data_area efs nd - allocated efs d"
    using ind i(2) by (simp add: data_area_def allocated_index)
  moreover have "allocated efs d' = insert (?s + i) (allocated efs d)"
    by (simp add: allocated_def i(4))
  ultimately show ?thesis
    using r i(1) by (simp add: alloc_data_def alloc_spec_def)
qed

lemma finite_data_area [simp]: "finite (data_area efs nd)"
  by (simp add: data_area_def)

lemma alloc_data_many:
  assumes "geometry efs nd" and "wf_bitmap (data_bitmap efs) d" and "k \<le> free_blocks efs nd d"
  shows "\<exists>bs d'. alloc_many (alloc_data efs) k d = Some (bs, d') \<and> length bs = k \<and> distinct bs \<and>
    set bs \<subseteq> data_area efs nd - allocated efs d \<and> allocated efs d' = allocated efs d \<union> set bs \<and>
    wf_bitmap (data_bitmap efs) d' \<and> dom d' = dom d \<and>
    (\<forall>b. b \<notin> bitmap_area (data_bitmap efs) \<longrightarrow> d' b = d b)"
  using assms(2,3)
proof (induction k arbitrary: d)
  case 0
  then show ?case by simp
next
  case (Suc k)
  have "data_area efs nd - allocated efs d \<noteq> {}"
    using Suc.prems(2) unfolding free_blocks_def by (metis card.empty not_less_eq_eq zero_le)
  from alloc_data_spec [OF assms(1) Suc.prems(1) this] obtain b d1 where
    b: "alloc_data efs d = Some (b, d1)" "b \<in> data_area efs nd - allocated efs d"
      "allocated efs d1 = insert b (allocated efs d)" "wf_bitmap (data_bitmap efs) d1" "dom d1 = dom d"
      "\<forall>b. b \<notin> bitmap_area (data_bitmap efs) \<longrightarrow> d1 b = d b"
    by blast
  have "data_area efs nd - allocated efs d1 = (data_area efs nd - allocated efs d) - {b}"
    using b(3) by auto
  then have "k \<le> free_blocks efs nd d1"
    using Suc.prems(2) b(2) by (simp add: free_blocks_def)
  from Suc.IH [OF b(4) this] obtain bs d' where
    r: "alloc_many (alloc_data efs) k d1 = Some (bs, d')" "length bs = k" "distinct bs"
      "set bs \<subseteq> data_area efs nd - allocated efs d1" "allocated efs d' = allocated efs d1 \<union> set bs"
      "wf_bitmap (data_bitmap efs) d'" "dom d' = dom d1"
      "\<forall>b. b \<notin> bitmap_area (data_bitmap efs) \<longrightarrow> d' b = d1 b"
    by blast
  have "alloc_many (alloc_data efs) (Suc k) d = Some (b # bs, d')"
    using b(1) r(1) by simp
  moreover have "distinct (b # bs)" "set (b # bs) \<subseteq> data_area efs nd - allocated efs d"
    "allocated efs d' = allocated efs d \<union> set (b # bs)"
    using r(3-5) b(2,3) by auto
  ultimately show ?case
    using r(2,6-8) b(5,6) by (intro exI [of _ "b # bs"] exI [of _ d']) simp
qed

lemma dealloc_data_spec:
  assumes g: "geometry efs nd" and wf: "wf_bitmap (data_bitmap efs) d"
    and b: "b \<in> data_area efs nd" "b \<in> allocated efs d" "b \<in> dom d"
  shows "\<exists>d'. dealloc_data efs b d = Some d' \<and> allocated efs d' = allocated efs d - {b} \<and>
    wf_bitmap (data_bitmap efs) d' \<and> dom d' = dom d \<and> d' b = Some (replicate BLOCK_SZ 0) \<and>
    (\<forall>b'. b' \<notin> bitmap_area (data_bitmap efs) \<and> b' \<noteq> b \<longrightarrow> d' b' = d b')"
proof -
  let ?bm = "data_bitmap efs" and ?s = "data_area_start_block efs"
  obtain i where i: "b = ?s + i" "i < nd"
    using b(1) by (auto simp: data_area_index)
  let ?d = "d(b \<mapsto> replicate BLOCK_SZ 0)"
  have out: "b \<notin> bitmap_area ?bm"
    using geometry_areas(2) [OF g] b(1) by auto
  have wf': "wf_bitmap ?bm ?d"
    using wf by (simp add: wf_bitmap_upd)
  have al: "allocated efs ?d = allocated efs d"
    using out by (intro allocated_cong) auto
  then have "i \<in> bitmap_used ?bm ?d"
    using b(2) by (simp add: i(1) allocated_index [symmetric])
  from Bitmap_dealloc_spec [OF wf' this] obtain d' where
    d': "Bitmap_dealloc ?bm i ?d = Some d'" "wf_bitmap ?bm d'" "dom d' = dom ?d"
      "\<forall>b. b \<notin> bitmap_area ?bm \<longrightarrow> d' b = ?d b" "bitmap_used ?bm d' = bitmap_used ?bm ?d - {i}"
    by blast
  have "?s + nd \<le> 2 ^ 32"
    using g by (simp add: geometry_def)
  then have "u32_sub b ?s = i"
    using i by (simp add: u32_sub_id)
  then have "dealloc_data efs b d = Some d'"
    using b(3) d'(1) by (auto simp: dealloc_data_def with_block_def)
  moreover have "allocated efs d' = allocated efs d - {b}"
    using d'(5) al by (auto simp: allocated_def i(1))
  moreover have "dom d' = dom d"
    using d'(3) b(3) by auto
  ultimately show ?thesis
    using d'(2,4) out by auto
qed

lemma dealloc_data_many:
  assumes "geometry efs nd" and "wf_bitmap (data_bitmap efs) d" and "distinct v"
    and "set v \<subseteq> data_area efs nd \<inter> allocated efs d \<inter> dom d"
  shows "\<exists>d'. dealloc_many (dealloc_data efs) v d = Some d' \<and> allocated efs d' = allocated efs d - set v \<and>
    wf_bitmap (data_bitmap efs) d' \<and> dom d' = dom d \<and>
    (\<forall>b \<in> set v. d' b = Some (replicate BLOCK_SZ 0)) \<and>
    (\<forall>b. b \<notin> bitmap_area (data_bitmap efs) \<and> b \<notin> set v \<longrightarrow> d' b = d b)"
  using assms(2-4)
proof (induction v arbitrary: d)
  case Nil
  then show ?case by simp
next
  case (Cons b v)
  then have "b \<in> data_area efs nd" "b \<in> allocated efs d" "b \<in> dom d"
    by auto
  from dealloc_data_spec [OF assms(1) Cons.prems(1) this] obtain d1 where
    d1: "dealloc_data efs b d = Some d1" "allocated efs d1 = allocated efs d - {b}"
      "wf_bitmap (data_bitmap efs) d1" "dom d1 = dom d" "d1 b = Some (replicate BLOCK_SZ 0)"
      "\<forall>b'. b' \<notin> bitmap_area (data_bitmap efs) \<and> b' \<noteq> b \<longrightarrow> d1 b' = d b'"
    by blast
  have "set v \<subseteq> data_area efs nd \<inter> allocated efs d1 \<inter> dom d1"
    using Cons.prems(2,3) d1(2,4) by auto
  from Cons.IH [OF d1(3) _ this] Cons.prems(2) obtain d' where
    d': "dealloc_many (dealloc_data efs) v d1 = Some d'" "allocated efs d' = allocated efs d1 - set v"
      "wf_bitmap (data_bitmap efs) d'" "dom d' = dom d1"
      "\<forall>b \<in> set v. d' b = Some (replicate BLOCK_SZ 0)"
      "\<forall>b. b \<notin> bitmap_area (data_bitmap efs) \<and> b \<notin> set v \<longrightarrow> d' b = d1 b"
    by auto
  have out: "b \<notin> bitmap_area (data_bitmap efs)"
    using geometry_areas(2) [OF assms(1)] Cons.prems(3) by auto
  have "\<forall>b' \<in> set (b # v). d' b' = Some (replicate BLOCK_SZ 0)"
    using d'(5,6) d1(5) out Cons.prems(2) by auto
  moreover have "\<forall>b'. b' \<notin> bitmap_area (data_bitmap efs) \<and> b' \<notin> set (b # v) \<longrightarrow> d' b' = d b'"
    using d'(6) d1(6) by auto
  moreover have "dealloc_many (dealloc_data efs) (b # v) d = Some d'"
    using d1(1) d'(1) by simp
  moreover have "allocated efs d' = allocated efs d - set (b # v)"
    using d'(2) d1(2) by auto
  ultimately show ?case
    using d'(3,4) d1(4) by blast
qed

section \<open>Ownership of blocks\<close>

definition tree_blocks :: "DiskInode \<Rightarrow> disk \<Rightarrow> nat set" where
  "tree_blocks di d = set (map snd (itree di d))"

lemma inode_frame:
  assumes "inode_ok di d" and "wf_disk d'" and "\<forall>b \<in> tree_blocks di d. d' b = d b"
  shows "inode_ok di d'" and "itree di d' = itree di d" and "full_content di d' = full_content di d"
    and "content di d' = content di d" and "tree_blocks di d' = tree_blocks di d"
proof -
  have "d b = d' b" if "(False, b) \<in> set (itree di d)" for b
    using assms(3) that by (force simp: tree_blocks_def)
  then show T: "itree di d' = itree di d"
    unfolding itree_def by (metis inode_tree_cong)
  have "blocks_ok (map snd (itree di d)) d'"
    using inode_okD(4) [OF assms(1)] assms(3) unfolding blocks_ok_def tree_blocks_def by (metis domIff)
  then show "inode_ok di d'"
    using assms(1,2) T by (simp add: inode_ok_def)
  have "map (\<lambda>b. the (d' b)) (block_ids di d) = map (\<lambda>b. the (d b)) (block_ids di d)"
  proof (rule map_cong [OF refl])
    fix b assume "b \<in> set (block_ids di d)"
    then have "b \<in> tree_blocks di d"
      using data_ids_subset [of "itree di d"] by (auto simp: block_ids_def tree_blocks_def)
    then show "the (d' b) = the (d b)"
      by (simp add: assms(3))
  qed
  then show F: "full_content di d' = full_content di d"
    unfolding full_content_def block_ids_def T by (simp only:)
  then show "content di d' = content di d"
    by (simp add: content_def)
  show "tree_blocks di d' = tree_blocks di d"
    by (simp add: tree_blocks_def T)
qed

definition dir_entries :: "DiskInode \<Rightarrow> disk \<Rightarrow> DirEntry list" where
  "dir_entries di d = map (\<lambda>k. DirEntry_of_bytes (slice (k * DIRENT_SZ) DIRENT_SZ (content di d))) [0..<file_count di]"

definition entry_name :: "DirEntry \<Rightarrow> bytes" where
  "entry_name e = the (DirEntry_name e)"

definition dir_ok :: "nat set \<Rightarrow> DiskInode \<Rightarrow> disk \<Rightarrow> bool" where
  "dir_ok U di d \<longleftrightarrow> di_size di mod DIRENT_SZ = 0 \<and>
     distinct (map entry_name (dir_entries di d)) \<and>
     (\<forall>e \<in> set (dir_entries di d). DirEntry_name e \<noteq> None \<and> inode_number e \<in> U)"

definition inode_good :: "EasyFileSystem \<Rightarrow> nat \<Rightarrow> nat set \<Rightarrow> DiskInode \<Rightarrow> disk \<Rightarrow> bool" where
  "inode_good efs nd U di d \<longleftrightarrow> inode_ok di d \<and>
     tree_blocks di d \<subseteq> allocated efs d \<inter> data_area efs nd \<and>
     (is_file di \<longrightarrow> zero_tail di d) \<and> (is_dir di \<longrightarrow> dir_ok U di d)"

definition own :: "EasyFileSystem \<Rightarrow> nat \<Rightarrow> DiskInode \<Rightarrow> disk \<Rightarrow> bool" where
  "own efs nd di d \<longleftrightarrow> geometry efs nd \<and> inode_ok di d \<and> wf_bitmap (data_bitmap efs) d \<and>
     data_area efs nd \<subseteq> dom d \<and> tree_blocks di d \<subseteq> allocated efs d \<inter> data_area efs nd \<and> free_zero efs nd d"

definition inode_step :: "EasyFileSystem \<Rightarrow> nat \<Rightarrow> DiskInode \<Rightarrow> disk \<Rightarrow> DiskInode \<Rightarrow> disk \<Rightarrow> bool" where
  \<comment> \<open>the blocks of the other inodes stay allocated and unchanged, and so does everything outside
    the data area but the data bitmap\<close>
  "inode_step efs nd di d di' d' \<longleftrightarrow> own efs nd di' d' \<and> dom d' = dom d \<and>
     allocated efs d - tree_blocks di d \<subseteq> allocated efs d' - tree_blocks di' d' \<and>
     (\<forall>b. b \<notin> bitmap_area (data_bitmap efs) \<and> (b \<notin> data_area efs nd \<or> b \<in> allocated efs d - tree_blocks di d) \<longrightarrow>
       d' b = d b)"

lemma inode_step_refl: "own efs nd di d \<Longrightarrow> inode_step efs nd di d di d"
  by (simp add: inode_step_def)

lemma inode_step_trans:
  assumes "inode_step efs nd di d di1 d1" and "inode_step efs nd di1 d1 di2 d2"
  shows "inode_step efs nd di d di2 d2"
  using assms unfolding inode_step_def by (auto dest: subsetD)

definition fs_inv :: "EasyFileSystem \<Rightarrow> nat \<Rightarrow> disk \<Rightarrow> bool" where
  "fs_inv efs nd d \<longleftrightarrow> geometry efs nd \<and> wf_disk d \<and> {..<data_area_start_block efs + nd} \<subseteq> dom d \<and>
     free_zero efs nd d \<and>
     (\<forall>i < maxmium (inode_bitmap efs). \<exists>di. inode_at efs d i = Some di \<and> (i \<notin> used_inodes efs d \<longrightarrow> di_size di = 0)) \<and>
     (\<forall>i \<in> used_inodes efs d. \<forall>di. inode_at efs d i = Some di \<longrightarrow> inode_good efs nd (used_inodes efs d) di d) \<and>
     (\<forall>i \<in> used_inodes efs d. \<forall>j \<in> used_inodes efs d. \<forall>di dj. i \<noteq> j \<longrightarrow>
        inode_at efs d i = Some di \<longrightarrow> inode_at efs d j = Some dj \<longrightarrow> tree_blocks di d \<inter> tree_blocks dj d = {})"

lemma used_inodes_bound: "i \<in> used_inodes efs d \<Longrightarrow> i < maxmium (inode_bitmap efs)"
  by (simp add: used_inodes_def bitmap_used_def bitmap_bit_def)

lemma fs_invD:
  assumes "fs_inv efs nd d"
  shows "geometry efs nd" and "wf_disk d" and "{..<data_area_start_block efs + nd} \<subseteq> dom d"
    and "free_zero efs nd d" and "\<And>i. i < maxmium (inode_bitmap efs) \<Longrightarrow>
      \<exists>di. inode_at efs d i = Some di \<and> (i \<notin> used_inodes efs d \<longrightarrow> di_size di = 0)"
    and "\<And>i di. i \<in> used_inodes efs d \<Longrightarrow> inode_at efs d i = Some di \<Longrightarrow> inode_good efs nd (used_inodes efs d) di d"
    and "\<And>i j di dj. i \<in> used_inodes efs d \<Longrightarrow> j \<in> used_inodes efs d \<Longrightarrow> i \<noteq> j \<Longrightarrow>
      inode_at efs d i = Some di \<Longrightarrow> inode_at efs d j = Some dj \<Longrightarrow> tree_blocks di d \<inter> tree_blocks dj d = {}"
  using assms by (auto simp: fs_inv_def)

lemma fs_inv_bitmaps:
  assumes "fs_inv efs nd d"
  shows "wf_bitmap (inode_bitmap efs) d" and "wf_bitmap (data_bitmap efs) d"
proof -
  note D = fs_invD [OF assms]
  have "\<exists>blk. d b = Some blk \<and> length blk = BLOCK_SZ" if "b < data_area_start_block efs + nd" for b
    using D(2,3) that wf_diskD by (metis domD lessThan_iff subsetD)
  then show "wf_bitmap (inode_bitmap efs) d" and "wf_bitmap (data_bitmap efs) d"
    using D(1) by (auto simp: wf_bitmap_def geometry_def)
qed

lemma allocated_del_inode:
  assumes "geometry efs nd" and "i < maxmium (inode_bitmap efs)"
  shows "allocated efs (d(inode_block efs i := x)) = allocated efs d"
  using geometryD(3) [OF assms] by (intro allocated_cong) auto

text \<open>A used inode owns its blocks while its own block is locked.\<close>

lemma fs_inv_own:
  assumes inv: "fs_inv efs nd d" and i: "i \<in> used_inodes efs d" and di: "inode_at efs d i = Some di"
  defines "d0 \<equiv> d(inode_block efs i := None)"
  shows "own efs nd di d0" and "content di d0 = content di d" and "tree_blocks di d0 = tree_blocks di d"
    and "itree di d0 = itree di d" and "full_content di d0 = full_content di d"
    and "inode_good efs nd (used_inodes efs d) di d0"
proof -
  note D = fs_invD [OF inv]
  note ib = geometryD [OF D(1) used_inodes_bound [OF i]]
  have good: "inode_good efs nd (used_inodes efs d) di d"
    by (rule D(6) [OF i di])
  have same: "\<forall>b \<in> tree_blocks di d. d0 b = d b"
    using good ib(4) by (auto simp: inode_good_def d0_def)
  have wf0: "wf_disk d0"
    using D(2) by (simp add: d0_def)
  have ok: "inode_ok di d"
    using good by (simp add: inode_good_def)
  note F = inode_frame [OF ok wf0 same]
  then show "content di d0 = content di d" and "tree_blocks di d0 = tree_blocks di d"
    and "itree di d0 = itree di d" and "full_content di d0 = full_content di d"
    by blast+
  have al: "allocated efs d0 = allocated efs d"
    unfolding d0_def by (rule allocated_del_inode [OF D(1) used_inodes_bound [OF i]])
  have "wf_bitmap (data_bitmap efs) d0"
  proof -
    have "wf_bitmap (data_bitmap efs) d = wf_bitmap (data_bitmap efs) d0"
      using ib(3) by (intro wf_bitmap_cong) (auto simp: d0_def)
    then show ?thesis
      using fs_inv_bitmaps(2) [OF inv] by simp
  qed
  moreover have "data_area efs nd \<subseteq> dom d0"
    using D(3) ib(4) by (auto simp: d0_def data_area_def)
  moreover have "free_zero efs nd d0"
    using D(4) ib(4) al by (auto simp: free_zero_def d0_def)
  ultimately show "own efs nd di d0"
    using D(1) F(1,5) al good by (simp add: own_def inode_good_def)
  have "dir_entries di d0 = dir_entries di d"
    using F(4) by (simp add: dir_entries_def)
  then show "inode_good efs nd (used_inodes efs d) di d0"
    using good F al by (simp add: inode_good_def zero_tail_def dir_ok_def)
qed

section \<open>From one inode to the file system\<close>

definition others_kept :: "EasyFileSystem \<Rightarrow> nat set \<Rightarrow> disk \<Rightarrow> disk \<Rightarrow> bool" where
  \<comment> \<open>the used inodes outside \<open>X\<close> keep their inode, their contents and their blocks\<close>
  "others_kept efs X d d' \<longleftrightarrow> (\<forall>j \<in> used_inodes efs d - X. \<forall>dj. inode_at efs d j = Some dj \<longrightarrow>
     inode_at efs d' j = Some dj \<and> content dj d' = content dj d \<and> tree_blocks dj d' = tree_blocks dj d)"

lemma dir_ok_cong: "content di d' = content di d \<Longrightarrow> dir_ok U di d' = dir_ok U di d"
  by (simp add: dir_ok_def dir_entries_def)

lemma inode_good_frame:
  assumes good: "inode_good efs nd U di d" and wf: "wf_disk d'"
    and same: "\<forall>b \<in> tree_blocks di d. d' b = d b"
    and al: "tree_blocks di d \<subseteq> allocated efs d'"
  shows "inode_good efs nd U di d'" and "content di d' = content di d" and "tree_blocks di d' = tree_blocks di d"
proof -
  have "inode_ok di d"
    using good by (simp add: inode_good_def)
  note F = inode_frame [OF this wf same]
  show "content di d' = content di d" and "tree_blocks di d' = tree_blocks di d"
    using F by blast+
  show "inode_good efs nd U di d'"
    using good F(1) al unfolding inode_good_def zero_tail_def F(3,5) dir_ok_cong [OF F(4)] by blast
qed

lemma fs_inv_step:
  assumes inv: "fs_inv efs nd d" and i: "i \<in> used_inodes efs d" and di: "inode_at efs d i = Some di"
    and blk: "d (inode_block efs i) = Some blk"
    and step: "inode_step efs nd di (d(inode_block efs i := None)) di' d1"
    and kind: "is_file di' \<longrightarrow> zero_tail di' d1" "is_dir di' \<longrightarrow> dir_ok (used_inodes efs d) di' d1"
    and d2: "d2 = put_inode efs i di' blk d1"
  shows "fs_inv efs nd d2" and "inode_at efs d2 i = Some di'" and "content di' d2 = content di' d1"
    and "used_inodes efs d2 = used_inodes efs d" and "others_kept efs {i} d d2"
    and "allocated efs d2 = allocated efs d1" and "tree_blocks di' d2 = tree_blocks di' d1"
proof -
  let ?ib = "inode_block efs i" and ?U = "used_inodes efs d"
  let ?d0 = "d(?ib := None)"
  note D = fs_invD [OF inv]
  note ib = geometryD [OF D(1) used_inodes_bound [OF i]]
  note A = geometry_areas [OF D(1)]
  note O = fs_inv_own [OF inv i di]
  have own: "own efs nd di' d1" and dom: "dom d1 = dom ?d0"
    using step by (auto simp: inode_step_def)
  then have ok1: "inode_ok di' d1" and wf1: "wf_disk d1" and fields: "wf_fields di'"
    by (auto simp: own_def inode_ok_def)
  have lblk: "length blk = BLOCK_SZ"
    using wf_diskD [OF D(2) blk] .
  have wf2: "wf_disk d2"
    using wf1 length_put_block [OF lblk fields] by (simp add: d2 put_inode_def)
  have d2b: "d2 b = d1 b" if "b \<noteq> ?ib" for b
    using that by (simp add: d2 put_inode_def)
  have al2: "allocated efs d2 = allocated efs d1"
    using ib(3) d2b by (intro allocated_cong) metis
  then show "allocated efs d2 = allocated efs d1" .
  have al0: "allocated efs ?d0 = allocated efs d"
    by (rule allocated_del_inode [OF D(1) used_inodes_bound [OF i]])
  have out1: "d1 b = ?d0 b" if "b \<notin> bitmap_area (data_bitmap efs)" "b \<notin> data_area efs nd" for b
    using step that by (auto simp: inode_step_def)
  have kept: "d2 b = d b" if "b \<in> allocated efs d - tree_blocks di d" "b \<in> data_area efs nd" for b
  proof -
    have nb: "b \<noteq> ?ib" "b \<notin> bitmap_area (data_bitmap efs)"
      using ib(4) A(2) that(2) by auto
    have "d1 b = ?d0 b"
      using step nb(2) that(1) O(3) al0 by (simp add: inode_step_def)
    then show ?thesis
      using nb(1) d2b by simp
  qed
  have al_kept: "allocated efs d - tree_blocks di d \<subseteq> allocated efs d2 - tree_blocks di' d1"
    using step O(3) al0 al2 by (simp add: inode_step_def)
  have U2: "used_inodes efs d2 = ?U"
    using ib(2) d2b out1 A(1,3) by (intro used_inodes_cong) (metis IntI empty_iff fun_upd_other)
  then show "used_inodes efs d2 = used_inodes efs d" .
  show at_i: "inode_at efs d2 i = Some di'"
    using inode_at_put [OF lblk fields] by (simp add: d2)
  have at_j: "inode_at efs d2 j = inode_at efs d j" if "j < maxmium (inode_bitmap efs)" "j \<noteq> i" for j
  proof (cases "inode_block efs j = ?ib")
    case True
    have "inode_at efs d j = DiskInode_of_bytes (slice (inode_offset j) INODE_SIZE blk)"
      unfolding inode_at_def True blk by simp
    moreover have "inode_at efs d2 j = DiskInode_of_bytes (slice (inode_offset j) INODE_SIZE blk)"
      using inode_at_put [OF lblk fields, of efs i d1 j] True that(2) by (simp only: d2 if_True if_False refl)
    ultimately show ?thesis by simp
  next
    case False
    have "d1 (inode_block efs j) = d (inode_block efs j)"
      using out1 [OF geometryD(3,4) [OF D(1) that(1)]] False by simp
    then show ?thesis
      using d2b [OF False] by (simp add: inode_at_def)
  qed
  have tree1: "tree_blocks di' d1 \<subseteq> allocated efs d1 \<inter> data_area efs nd"
    using own by (simp add: own_def)
  have good1: "inode_good efs nd ?U di' d1"
    using ok1 tree1 kind by (simp add: inode_good_def)
  have same_i: "\<forall>b \<in> tree_blocks di' d1. d2 b = d1 b"
    using tree1 ib(4) d2b by (metis IntE subsetD)
  note GI = inode_good_frame [OF good1 wf2 same_i]
  have goodi: "inode_good efs nd ?U di' d2" and treei: "tree_blocks di' d2 = tree_blocks di' d1"
    using GI(1,3) tree1 al2 by blast+
  then show "tree_blocks di' d2 = tree_blocks di' d1" by blast
  show "content di' d2 = content di' d1"
    using GI(2) tree1 al2 by blast
  have other: "inode_at efs d2 j = Some dj \<and> inode_good efs nd ?U dj d2 \<and> content dj d2 = content dj d \<and>
      tree_blocks dj d2 = tree_blocks dj d \<and> tree_blocks dj d \<subseteq> allocated efs d - tree_blocks di d"
    if j: "j \<in> ?U" "j \<noteq> i" and dj: "inode_at efs d j = Some dj" for j dj
  proof -
    have g: "inode_good efs nd ?U dj d"
      by (rule D(6) [OF j(1) dj])
    have sub: "tree_blocks dj d \<subseteq> (allocated efs d - tree_blocks di d) \<inter> data_area efs nd"
      using g D(7) [OF i j(1) j(2) [symmetric] di dj] by (auto simp: inode_good_def)
    have same: "\<forall>b \<in> tree_blocks dj d. d2 b = d b"
      using kept sub by blast
    have "tree_blocks dj d \<subseteq> allocated efs d2"
      using sub al_kept by blast
    from inode_good_frame [OF g wf2 same this] show ?thesis
      using at_j [OF used_inodes_bound [OF j(1)] j(2)] dj sub by auto
  qed
  show "others_kept efs {i} d d2"
    unfolding others_kept_def using other by blast
  have "{..<data_area_start_block efs + nd} \<subseteq> dom d2"
    using D(3) dom by (auto simp: d2 put_inode_def)
  moreover have "free_zero efs nd d2"
    using own ib(4) d2b al2 unfolding own_def free_zero_def by (metis Diff_iff)
  moreover have "\<forall>k < maxmium (inode_bitmap efs). \<exists>dk. inode_at efs d2 k = Some dk \<and> (k \<notin> ?U \<longrightarrow> di_size dk = 0)"
    using D(5) at_i at_j i by metis
  moreover have "inode_good efs nd ?U dk d2" if "k \<in> ?U" "inode_at efs d2 k = Some dk" for k dk
  proof (cases "k = i")
    case False
    then show ?thesis
      using other [OF that(1) False] at_j [OF used_inodes_bound [OF that(1)] False] that(2) by simp
  qed (use goodi at_i that in simp)
  moreover have "tree_blocks dk d2 \<inter> tree_blocks dl d2 = {}"
    if kl: "k \<in> ?U" "l \<in> ?U" "k \<noteq> l" "inode_at efs d2 k = Some dk" "inode_at efs d2 l = Some dl" for k l dk dl
  proof -
    have vs: "tree_blocks dj d2 \<inter> tree_blocks di' d2 = {}"
      if "j \<in> ?U" "j \<noteq> i" "inode_at efs d2 j = Some dj" for j dj
    proof -
      have "tree_blocks dj d2 \<subseteq> allocated efs d - tree_blocks di d"
        using other [OF that(1,2)] at_j [OF used_inodes_bound [OF that(1)] that(2)] that(3) by simp
      then show ?thesis
        using al_kept treei by blast
    qed
    show ?thesis
    proof (cases "k = i \<or> l = i")
      case True
      then show ?thesis
        using vs [of l dl] vs [of k dk] kl at_i by (auto simp: Int_commute)
    next
      case False
      then have "inode_at efs d k = Some dk" "inode_at efs d l = Some dl"
        using at_j used_inodes_bound kl by metis+
      then show ?thesis
        using other D(7) False kl by metis
    qed
  qed
  ultimately show "fs_inv efs nd d2"
    unfolding fs_inv_def U2 using D(1) wf2 by blast
qed

end
