(* ===== verification/FsOps.thy ===== *)
theory FsOps
  imports FsInv
begin

text \<open>
  The operations on one locked disk inode as \<open>inode_step\<close>s: growing it with blocks from the data
  bitmap, writing into it, clearing it and giving its blocks back, changing its link count, and
  shrinking a directory by its last entry.
\<close>

lemma ownD:
  assumes "own efs nd di d"
  shows "geometry efs nd" and "inode_ok di d" and "wf_bitmap (data_bitmap efs) d"
    and "data_area efs nd \<subseteq> dom d" and "tree_blocks di d \<subseteq> allocated efs d"
    and "tree_blocks di d \<subseteq> data_area efs nd" and "free_zero efs nd d" and "wf_disk d"
    and "di_size di \<le> MAX_BLOCKS * BLOCK_SZ" and "wf_fields di"
  using assms by (auto simp: own_def inode_ok_def)

section \<open>Growing\<close>

definition need_blocks :: "DiskInode \<Rightarrow> nat \<Rightarrow> nat" where
  \<comment> \<open>blocks a grow to \<open>new_size\<close> takes from the bitmap\<close>
  "need_blocks di new_size = tree_total (data_blocks_of_size new_size) - tree_total (data_blocks di)"

lemma need_blocks_eq:
  "di_size di \<le> sz \<Longrightarrow> sz \<le> MAX_BLOCKS * BLOCK_SZ \<Longrightarrow> blocks_num_needed di sz = Some (need_blocks di sz)"
  by (simp add: need_blocks_def blocks_num_needed_eq)

lemma alloc_frame:
  assumes own: "own efs nd di d" and wf: "wf_bitmap (data_bitmap efs) d1"
    and out: "\<forall>b. b \<notin> bitmap_area (data_bitmap efs) \<longrightarrow> d1 b = d b"
  shows "wf_disk d1" and "inode_ok di d1" and "itree di d1 = itree di d" and "full_content di d1 = full_content di d"
    and "\<forall>b \<in> data_area efs nd. d1 b = d b"
proof -
  note O = ownD [OF own]
  show area: "\<forall>b \<in> data_area efs nd. d1 b = d b"
    using out geometry_areas(2) [OF O(1)] by blast
  show wf1: "wf_disk d1"
    using wf_disk_outside [OF O(8) wf] out by blast
  have "\<forall>b \<in> tree_blocks di d. d1 b = d b"
    using area O(6) by blast
  from inode_frame [OF O(2) wf1 this] show "inode_ok di d1" and "itree di d1 = itree di d"
    and "full_content di d1 = full_content di d"
    by blast+
qed

lemma grow_step:
  assumes own: "own efs nd di d" and sz: "di_size di < ns" "ns \<le> MAX_BLOCKS * BLOCK_SZ"
    and room: "need_blocks di ns \<le> free_blocks efs nd d"
  shows "\<exists>di' d' bs. Inode_increase_size efs ns di d = Some (di', d') \<and> inode_step efs nd di d di' d' \<and>
    di_size di' = ns \<and> di_nlink di' = di_nlink di \<and> di_type di' = di_type di \<and>
    take (di_size di) (content di' d') = content di d \<and>
    (zero_tail di d \<longrightarrow> zero_tail di' d' \<and> content di' d' = content di d @ replicate (ns - di_size di) 0) \<and>
    length bs = need_blocks di ns \<and> distinct bs \<and> allocated efs d' = allocated efs d \<union> set bs \<and>
    set bs \<subseteq> data_area efs nd - allocated efs d \<and> tree_blocks di' d' = tree_blocks di d \<union> set bs"
proof -
  note O = ownD [OF own]
  let ?k = "need_blocks di ns"
  obtain bs d1 where a: "alloc_many (alloc_data efs) ?k d = Some (bs, d1)" "length bs = ?k" "distinct bs"
      "set bs \<subseteq> data_area efs nd - allocated efs d" "allocated efs d1 = allocated efs d \<union> set bs"
      "wf_bitmap (data_bitmap efs) d1" "dom d1 = dom d"
      "\<forall>b. b \<notin> bitmap_area (data_bitmap efs) \<longrightarrow> d1 b = d b"
    using alloc_data_many [OF O(1,3) room] by blast
  note F = alloc_frame [OF own a(6,8)]
  have need: "blocks_num_needed di ns = Some ?k"
    using sz by (simp add: need_blocks_eq)
  have "\<forall>b \<in> data_area efs nd. b < 2 ^ 32 \<and> b \<in> dom d1"
    using O(1,4) a(7) by (auto simp: geometry_def data_area_def)
  moreover have "distinct (map snd (itree di d1))"
    using inode_okD(4) [OF F(2)] by (simp add: blocks_ok_def)
  ultimately have ok: "blocks_ok (map snd (itree di d1) @ bs) d1"
    using a(3,4) O(5,6) unfolding blocks_ok_def F(3) tree_blocks_def by auto
  obtain di' d' new where r: "increase_size ns bs di d1 = Some (di', d')" "inode_ok di' d'"
    "di_size di' = ns" "di_nlink di' = di_nlink di" "di_type di' = di_type di"
    "grows (itree di d1) d1 (take ?k bs) (itree di' d') d'" "set new \<subseteq> set bs"
    "full_content di' d' = full_content di d1 @ concat (map (\<lambda>b. the (d1 b)) new)"
    using increase_size_content [OF F(2) sz ok need] a(2) by auto
  have T: "tree_blocks di' d' = tree_blocks di d \<union> set bs"
  proof -
    have "map snd (itree di' d') = map snd (itree di d) @ bs"
      using r(6) a(2) F(3) by (auto simp: grows_def)
    then show ?thesis
      by (simp only: tree_blocks_def set_append)
  qed
  have tarea: "tree_blocks di' d' \<subseteq> data_area efs nd"
    using T O(6) a(4) by blast
  have keep: "d' b = d1 b" if "b \<notin> tree_blocks di' d'" for b
    using r(6) that by (force simp: grows_def tree_blocks_def)
  have bm: "d' b = d1 b" if "b \<in> bitmap_area (data_bitmap efs)" for b
    using keep tarea that geometry_areas(2) [OF O(1)] by blast
  have al: "allocated efs d' = allocated efs d1"
    using bm by (intro allocated_cong) auto
  have wfb: "wf_bitmap (data_bitmap efs) d'"
    using a(6) wf_bitmap_cong [of "data_bitmap efs" d' d1] bm by blast
  have dom: "dom d' = dom d"
    using r(6) a(7) by (simp add: grows_def)
  have fz: "free_zero efs nd d'"
    unfolding free_zero_def
  proof
    fix b assume b: "b \<in> data_area efs nd - allocated efs d'"
    then have "b \<notin> tree_blocks di' d'" and "b \<notin> allocated efs d"
      using T O(5) al a(5) by auto
    then show "d' b = Some (replicate BLOCK_SZ 0)"
      using keep F(5) O(7) b by (simp add: free_zero_def)
  qed
  have "own efs nd di' d'"
    using O(1,4,5) r(2) wfb dom tarea fz T al a(5) by (auto simp: own_def)
  moreover have "allocated efs d - tree_blocks di d \<subseteq> allocated efs d' - tree_blocks di' d'"
    using T al a(4,5) by auto
  moreover have "d' b = d b" if "b \<notin> bitmap_area (data_bitmap efs)"
    "b \<notin> data_area efs nd \<or> b \<in> allocated efs d - tree_blocks di d" for b
  proof -
    have "b \<notin> tree_blocks di' d'"
      using that(2) tarea T a(4) by auto
    then show ?thesis
      using keep a(8) that(1) by simp
  qed
  ultimately have step: "inode_step efs nd di d di' d'"
    using dom by (simp add: inode_step_def)
  have len: "di_size di \<le> length (full_content di d)"
    using length_content [OF O(2)] by (simp add: content_def)
  have pre: "take (di_size di) (content di' d') = content di d"
    using r(3,8) sz(1) len by (simp add: content_def F(4))
  have zero: "zero_tail di' d' \<and> content di' d' = content di d @ replicate (ns - di_size di) 0" if z: "zero_tail di d"
  proof -
    have G: "set (concat (map (\<lambda>b. the (d1 b)) new)) \<subseteq> {0}"
    proof -
      have "set (the (d1 b)) \<subseteq> {0}" if "b \<in> set new" for b
      proof -
        have "b \<in> data_area efs nd - allocated efs d"
          using r(7) a(4) that by blast
        then have "d1 b = Some (replicate BLOCK_SZ 0)"
          using F(5) O(7) by (simp add: free_zero_def)
        then show ?thesis by auto
      qed
      then show ?thesis by auto
    qed
    have m: "ns \<le> length (full_content di d @ concat (map (\<lambda>b. the (d1 b)) new))"
      using length_content [OF r(2)] r(3,8) F(4) by (simp add: content_def)
    note e = zero_extend [OF z [unfolded zero_tail_def] G len less_imp_le [OF sz(1)] m]
    show ?thesis
      using e r(3,8) by (simp add: zero_tail_def content_def F(4))
  qed
  have "Inode_increase_size efs ns di d = Some (di', d')"
    using sz(1) need a(1) r(1) by (simp add: Inode_increase_size_def)
  then show ?thesis
    using step r(3-5) pre zero a(2-5) al T by blast
qed

section \<open>Writing\<close>

lemma write_step:
  assumes own: "own efs nd di d" and w: "data_written di d pos p d'"
  shows "inode_step efs nd di d di d'" and "allocated efs d' = allocated efs d"
    and "tree_blocks di d' = tree_blocks di d"
proof -
  note O = ownD [OF own]
  have W: "inode_ok di d'" "itree di d' = itree di d" "dom d' = dom d"
    "\<And>b. b \<notin> set (block_ids di d) \<Longrightarrow> d' b = d b"
    using w by (auto simp: data_written_def)
  have ids: "set (block_ids di d) \<subseteq> tree_blocks di d"
    using data_ids_subset by (simp add: block_ids_def tree_blocks_def)
  have keep: "d' b = d b" if "b \<notin> tree_blocks di d" for b
    using W(4) ids that by blast
  show T: "tree_blocks di d' = tree_blocks di d"
    using W(2) by (simp add: tree_blocks_def)
  have bm: "d' b = d b" if "b \<in> bitmap_area (data_bitmap efs)" for b
    using keep O(6) that geometry_areas(2) [OF O(1)] by blast
  show al: "allocated efs d' = allocated efs d"
    using bm by (intro allocated_cong) auto
  have wfb: "wf_bitmap (data_bitmap efs) d'"
    using O(3) wf_bitmap_cong [of "data_bitmap efs" d' d] bm by blast
  have fz: "free_zero efs nd d'"
    using O(5,7) keep al unfolding free_zero_def by (metis DiffD2 subsetD)
  have "own efs nd di d'"
    using O(1,4-6) W(1,3) wfb fz al T by (simp add: own_def)
  then show "inode_step efs nd di d di d'"
    using W(3) al T keep O(6) by (auto simp: inode_step_def)
qed

lemma data_written_zero_tail:
  assumes "data_written di d pos p d'" and "pos + length p \<le> di_size di" and "inode_ok di d" and "zero_tail di d"
  shows "zero_tail di d'"
proof -
  have F: "di_size di \<le> length (full_content di d)"
    using length_content [OF assms(3)] by (simp add: content_def)
  have "drop (di_size di) (splice pos p (full_content di d)) = drop (di_size di) (full_content di d)"
    using assms(2) F by (intro nth_equalityI) (auto simp: nth_splice)
  then show ?thesis
    using assms(1,4) by (simp add: zero_tail_def data_written_def)
qed

section \<open>Clearing\<close>

lemma itree_size_0: "di_size di = 0 \<Longrightarrow> itree di d = []"
  by (simp add: itree_def inode_tree_def indirect1_tree_def data_blocks_def
      data_blocks_of_size_def u32_def layout_consts)

lemma clear_step:
  assumes own: "own efs nd di d"
  shows "\<exists>di' d'. clear_size di d = Some (map snd (itree di d), di', d) \<and>
    length (map snd (itree di d)) = total_blocks (di_size di) \<and>
    dealloc_many (dealloc_data efs) (map snd (itree di d)) d = Some d' \<and>
    inode_step efs nd di d di' d' \<and> di_size di' = 0 \<and> di_nlink di' = di_nlink di \<and> di_type di' = di_type di \<and>
    allocated efs d' = allocated efs d - tree_blocks di d"
proof -
  note O = ownD [OF own]
  let ?v = "map snd (itree di d)"
  obtain di' where c: "clear_size di d = Some (?v, di', d)" "length ?v = total_blocks (di_size di)"
    "wf_fields di'" "di_size di' = 0" "di_nlink di' = di_nlink di" "di_type di' = di_type di" "distinct ?v"
    using clear_size_tree [OF O(2)] by blast
  have "set ?v \<subseteq> data_area efs nd \<inter> allocated efs d \<inter> dom d"
    using O(4-6) by (auto simp: tree_blocks_def)
  from dealloc_data_many [OF O(1,3) c(7) this] obtain d' where
    d': "dealloc_many (dealloc_data efs) ?v d = Some d'" "allocated efs d' = allocated efs d - set ?v"
      "wf_bitmap (data_bitmap efs) d'" "dom d' = dom d" "\<forall>b \<in> set ?v. d' b = Some (replicate BLOCK_SZ 0)"
      "\<forall>b. b \<notin> bitmap_area (data_bitmap efs) \<and> b \<notin> set ?v \<longrightarrow> d' b = d b"
    by blast
  have v: "set ?v = tree_blocks di d"
    by (simp add: tree_blocks_def)
  note T' = itree_size_0 [OF c(4), of d']
  have wfd: "wf_disk d'"
  proof
    fix b blk assume b: "d' b = Some blk"
    show "length blk = BLOCK_SZ"
    proof (cases "b \<in> bitmap_area (data_bitmap efs)")
      case True
      then have "b - start_block_id (data_bitmap efs) < blocks (data_bitmap efs)"
        "b - start_block_id (data_bitmap efs) + start_block_id (data_bitmap efs) = b"
        by (auto simp: bitmap_area_def)
      then show ?thesis
        using wf_bitmapD [OF d'(3)] b by fastforce
    next
      case False
      then show ?thesis
        using d'(5,6) b O(8) wf_diskD by (cases "b \<in> set ?v") fastforce+
    qed
  qed
  have area: "bitmap_area (data_bitmap efs) \<inter> data_area efs nd = {}"
    by (rule geometry_areas(2) [OF O(1)])
  have "free_zero efs nd d'"
    unfolding free_zero_def
  proof
    fix b assume b: "b \<in> data_area efs nd - allocated efs d'"
    show "d' b = Some (replicate BLOCK_SZ 0)"
    proof (cases "b \<in> set ?v")
      case False
      then have "d' b = d b" and "b \<notin> allocated efs d"
        using b area d'(2,6) by auto
      then show ?thesis
        using O(7) b by (simp add: free_zero_def)
    qed (use d'(5) in blast)
  qed
  moreover have "inode_ok di' d'"
    using c(3,4) wfd T' by (simp add: inode_ok_def blocks_ok_def)
  ultimately have "own efs nd di' d'"
    using O(1,4) d'(3,4) T' by (simp add: own_def tree_blocks_def)
  moreover have "allocated efs d - tree_blocks di d \<subseteq> allocated efs d' - tree_blocks di' d'"
    using d'(2) v T' by (simp add: tree_blocks_def)
  moreover have "\<forall>b. b \<notin> bitmap_area (data_bitmap efs) \<and> (b \<notin> data_area efs nd \<or> b \<in> allocated efs d - tree_blocks di d) \<longrightarrow> d' b = d b"
    using d'(6) v O(6) by blast
  ultimately have "inode_step efs nd di d di' d'"
    using d'(4) by (simp add: inode_step_def)
  then show ?thesis
    using c d'(1,2) v by auto
qed

end
