(* ===== verification/Directory.thy ===== *)
theory Directory
  imports FsOps "HOL-Library.Sublist"
begin

text \<open>
  Directories as lists of entries. The locale \<open>byte_file\<close> is what a directory needs of the inode it
  is stored in: a byte string that can be read and overwritten at any position. Disk inodes provide
  it, and inside the locale the string is read as a list of records of one size. On top of that come
  the directory operations: lookup, append, and the swap-remove of \<open>unlink\<close>.
\<close>

section \<open>Fixed-size records in a byte file\<close>

locale byte_file =
  fixes ok :: "'s \<Rightarrow> bool" and bytes_of :: "'s \<Rightarrow> bytes"
    and rd :: "nat \<Rightarrow> bytes \<Rightarrow> 's \<Rightarrow> (nat \<times> bytes) option"
    and wr :: "nat \<Rightarrow> bytes \<Rightarrow> 's \<Rightarrow> (nat \<times> 's) option"
  assumes size_bound: "ok s \<Longrightarrow> length (bytes_of s) < 2 ^ 63"
    and rd_law: "ok s \<Longrightarrow> off + length buf < 2 ^ 64 \<Longrightarrow> n = min (length buf) (length (bytes_of s) - off) \<Longrightarrow>
      rd off buf s = Some (n, splice 0 (slice off n (bytes_of s)) buf)"
    and wr_law: "ok s \<Longrightarrow> buf \<noteq> [] \<Longrightarrow> off + length buf \<le> length (bytes_of s) \<Longrightarrow>
      \<exists>s'. wr off buf s = Some (length buf, s') \<and> ok s' \<and> bytes_of s' = splice off buf (bytes_of s)"
begin

definition records :: "nat \<Rightarrow> 's \<Rightarrow> bytes list" where
  "records sz s = map (\<lambda>k. slice (k * sz) sz (bytes_of s)) [0..<length (bytes_of s) div sz]"

lemma record_room: "0 < sz \<Longrightarrow> k < length (bytes_of s) div sz \<Longrightarrow> k * sz + sz \<le> length (bytes_of s)"
  by (metis Suc_leI add.commute div_times_less_eq_dividend mult_Suc mult_le_mono1 order_trans)

lemma length_record: "0 < sz \<Longrightarrow> r \<in> set (records sz s) \<Longrightarrow> length r = sz"
  by (auto simp: records_def min_def dest!: record_room)

lemma rd_record:
  assumes "ok s" and "0 < sz" and "k < length (records sz s)" and "length buf = sz"
  shows "rd (k * sz) buf s = Some (sz, records sz s ! k)"
proof -
  have k: "k < length (bytes_of s) div sz"
    using assms(3) by (simp add: records_def)
  have room: "k * sz + sz \<le> length (bytes_of s)"
    by (rule record_room [OF assms(2) k])
  have "k * sz + length buf < 2 ^ 64"
    using room size_bound [OF assms(1)] assms(4) by simp
  from rd_law [OF assms(1) this, of sz] show ?thesis
    using room assms(4) k by (simp add: splice_def records_def)
qed

lemma wr_record:
  assumes "ok s" and "0 < sz" and "k < length (records sz s)" and "length r = sz"
  shows "\<exists>s'. wr (k * sz) r s = Some (sz, s') \<and> ok s' \<and> bytes_of s' = splice (k * sz) r (bytes_of s) \<and>
    records sz s' = (records sz s)[k := r]"
proof -
  have k: "k < length (bytes_of s) div sz"
    using assms(3) by (simp add: records_def)
  have room: "k * sz + sz \<le> length (bytes_of s)"
    by (rule record_room [OF assms(2) k])
  have ne: "r \<noteq> []"
    using assms(2,4) by auto
  obtain s' where s': "wr (k * sz) r s = Some (sz, s')" "ok s'" "bytes_of s' = splice (k * sz) r (bytes_of s)"
    using wr_law [OF assms(1) ne, of "k * sz"] room assms(4) by auto
  have "records sz s' ! j = (records sz s)[k := r] ! j" if j: "j < length (bytes_of s) div sz" for j
  proof (cases "j = k")
    case True
    have "slice (k * sz) sz (splice (k * sz) r (bytes_of s)) = r"
      using room assms(4) by (intro slice_splice_same) auto
    then show ?thesis
      using True k room s'(3) assms(4) by (simp add: records_def)
  next
    case False
    then have "j * sz + sz \<le> k * sz \<or> k * sz + sz \<le> j * sz"
      by (metis Suc_leI add.commute linorder_neqE_nat mult_Suc mult_le_mono1)
    then have "slice (j * sz) sz (splice (k * sz) r (bytes_of s)) = slice (j * sz) sz (bytes_of s)"
      using room assms(4) record_room [OF assms(2) j] by (intro slice_splice_other) auto
    then show ?thesis
      using False j room s'(3) assms(4) by (simp add: records_def)
  qed
  then have "records sz s' = (records sz s)[k := r]"
    using s'(3) room assms(4) by (intro nth_equalityI) (auto simp: records_def)
  with s' show ?thesis by blast
qed

end

interpretation inode: byte_file "inode_ok di" "content di" "read_at di" "write_at di" for di
proof unfold_locales
  fix s off buf n
  assume ok: "inode_ok di s"
  have len: "length (content di s) = di_size di" and sz: "di_size di \<le> MAX_BLOCKS * BLOCK_SZ"
    using ok by (simp_all add: inode_okD)
  show "length (content di s) < 2 ^ 63"
    using sz by (simp add: len MAX_BLOCKS_def layout_consts)
  show "off + length buf < 2 ^ 64 \<Longrightarrow> n = min (length buf) (length (content di s) - off) \<Longrightarrow>
      read_at di off buf s = Some (n, splice 0 (slice off n (content di s)) buf)"
    using read_at_eq [OF ok] by (simp add: len Let_def)
  assume buf: "buf \<noteq> []" "off + length buf \<le> length (content di s)"
  then have lt: "off < di_size di" and b: "off + length buf < 2 ^ 64" and n: "length buf = min (length buf) (di_size di - off)"
    using sz by (cases buf; simp add: len MAX_BLOCKS_def layout_consts)+
  obtain d' where d': "write_at di off buf s = Some (length buf, d')" "data_written di s off (take (length buf) buf) d'"
    using write_at_eq [OF ok b lt buf(1) n] by blast
  then show "\<exists>s'. write_at di off buf s = Some (length buf, s') \<and> inode_ok di s' \<and>
      content di s' = splice off buf (content di s)"
    using data_written_content [OF d'(2) _ ok] buf(2) len by (auto simp: data_written_def)
qed

section \<open>Entries\<close>

lemma dir_entries_records:
  "inode_ok di d \<Longrightarrow> dir_entries di d = map DirEntry_of_bytes (inode.records di DIRENT_SZ d)"
  by (simp add: dir_entries_def inode.records_def file_count_def comp_def)

lemma length_dir_entries [simp]: "length (dir_entries di d) = file_count di"
  by (simp add: dir_entries_def)

lemma read_entry_eq:
  assumes "inode_ok di d" and "i < file_count di"
  shows "read_entry di i d = Some (dir_entries di d ! i)"
proof -
  have i: "i < length (inode.records di DIRENT_SZ d)"
    using assms by (simp add: inode.records_def file_count_def)
  have "length (as_bytes DirEntry_new_empty) = DIRENT_SZ"
    by (simp add: as_bytes_def DirEntry_new_empty_def layout_consts)
  from inode.rd_record [OF assms(1) _ i this] show ?thesis
    using i by (simp add: read_entry_def dir_entries_records [OF assms(1)] layout_consts)
qed

lemma search_entries_eq:
  assumes "inode_ok di d" and "set is \<subseteq> {..<file_count di}"
    and "\<forall>i \<in> set is. p (dir_entries di d ! i) = Some (q (dir_entries di d ! i))"
  shows "search_entries p di is d =
    Some (List.find (\<lambda>(i, e). q e) (map (\<lambda>i. (i, dir_entries di d ! i)) is))"
  using assms(2,3) by (induction "is") (auto simp: read_entry_eq [OF assms(1)])

definition dir_list :: "DiskInode \<Rightarrow> disk \<Rightarrow> (bytes \<times> nat) list" where
  \<comment> \<open>a directory as the list of its names and inode numbers\<close>
  "dir_list di d = map (\<lambda>e. (entry_name e, inode_number e)) (dir_entries di d)"

lemma has_name_eq: "DirEntry_name e \<noteq> None \<Longrightarrow> has_name nm e = Some (entry_name e = nm)"
  by (auto simp: has_name_def entry_name_def)

lemma search_name:
  assumes "inode_ok di d" and "dir_ok U di d"
  shows "search_entries (has_name nm) di [0..<file_count di] d =
    Some (List.find (\<lambda>(i, e). entry_name e = nm) (map (\<lambda>i. (i, dir_entries di d ! i)) [0..<file_count di]))"
proof (rule search_entries_eq [OF assms(1)])
  show "set [0..<file_count di] \<subseteq> {..<file_count di}"
    by auto
  show "\<forall>i \<in> set [0..<file_count di]. has_name nm (dir_entries di d ! i) = Some (entry_name (dir_entries di d ! i) = nm)"
    using assms(2) by (auto simp: dir_ok_def intro!: has_name_eq)
qed

lemma find_map_of:
  "map_option (inode_number \<circ> snd) (List.find (\<lambda>(i, e). entry_name e = nm) (map (\<lambda>i. (i, es ! i)) is)) =
    map_of (map (\<lambda>i. (entry_name (es ! i), inode_number (es ! i))) is) nm"
  by (induction "is") auto

lemma dir_list_upt:
  "dir_list di d = map (\<lambda>i. (entry_name (dir_entries di d ! i), inode_number (dir_entries di d ! i))) [0..<file_count di]"
  by (intro nth_equalityI) (simp_all add: dir_list_def)

lemma find_inode_id_eq:
  assumes "inode_ok di d" and "dir_ok U di d" and "is_dir di"
  shows "find_inode_id nm di d = Some (map_of (dir_list di d) nm)"
  using assms by (simp add: find_inode_id_def search_name find_map_of dir_list_upt)

lemma collect_names_eq:
  assumes "inode_ok di d" and "dir_ok U di d" and "set is \<subseteq> {..<file_count di}"
  shows "collect_names di is d = Some (map (\<lambda>i. entry_name (dir_entries di d ! i)) is)"
  using assms(3)
proof (induction "is")
  case (Cons i "is")
  then have "DirEntry_name (dir_entries di d ! i) \<noteq> None"
    using assms(2) by (auto simp: dir_ok_def)
  with Cons show ?case
    by (auto simp: read_entry_eq [OF assms(1)] entry_name_def)
qed simp

lemma collect_dirents_eq:
  assumes "inode_ok di d" and "dir_ok U di d" and "set is \<subseteq> {..<file_count di}"
  shows "collect_dirents efs di is d = Some (map (\<lambda>i. (entry_name (dir_entries di d ! i),
    inode_handle efs (inode_number (dir_entries di d ! i)))) is)"
  using assms(3)
proof (induction "is")
  case (Cons i "is")
  then have "DirEntry_name (dir_entries di d ! i) \<noteq> None"
    using assms(2) by (auto simp: dir_ok_def)
  with Cons show ?case
    by (auto simp: read_entry_eq [OF assms(1)] entry_name_def)
qed simp

section \<open>Shrinking\<close>

lemma prefix_take_mono: "m \<le> n \<Longrightarrow> prefix (take m xs) (take n xs)"
  using take_is_prefix [of m "take n xs"] by (simp add: min_absorb1)

lemma l1_tree_prefix: "m \<le> n \<Longrightarrow> prefix (l1_tree d m b) (l1_tree d n b)"
  using map_mono_prefix [OF prefix_take_mono] by (simp add: l1_tree_def)

lemma l2_tree_Suc_prefix:
  assumes "Suc n \<le> INODE_INDIRECT1_COUNT * length l2"
  shows "prefix (l2_tree n l2 d) (l2_tree (Suc n) l2 d)"
proof -
  obtain a b where n: "n = a * INODE_INDIRECT1_COUNT + b" and b: "b < INODE_INDIRECT1_COUNT"
    by (rule index_split)
  have a: "a < length l2"
    using assms n by (simp add: layout_consts)
  have "l2_tree (Suc n) l2 d = l2_tree (a * INODE_INDIRECT1_COUNT) l2 d @ l1_tree d (Suc b) (l2 ! a)"
    using l2_tree_step [OF a, of "Suc b" d] b unfolding n by simp
  moreover have "l2_tree n l2 d = l2_tree (a * INODE_INDIRECT1_COUNT) l2 d @ (if b = 0 then [] else l1_tree d b (l2 ! a))"
    unfolding n using l2_tree_step [OF a, of b d] b by (cases "b = 0") simp_all
  ultimately show ?thesis
    using l1_tree_prefix [of b "Suc b" d "l2 ! a"] by auto
qed

lemma l2_tree_prefix:
  assumes "m \<le> n" and "n \<le> INODE_INDIRECT1_COUNT * length l2"
  shows "prefix (l2_tree m l2 d) (l2_tree n l2 d)"
  using assms
proof (induction "n - m" arbitrary: m)
  case 0
  then show ?case by simp
next
  case (Suc k)
  have "prefix (l2_tree m l2 d) (l2_tree (Suc m) l2 d)"
    using Suc by (intro l2_tree_Suc_prefix) simp
  also have "prefix (l2_tree (Suc m) l2 d) (l2_tree n l2 d)"
    using Suc by simp
  finally show ?case .
qed

lemma indirect2_tree_prefix:
  assumes "m \<le> n" and "n \<le> INODE_INDIRECT1_COUNT + INODE_INDIRECT2_COUNT"
  shows "prefix (indirect2_tree x m d) (indirect2_tree x n d)"
  using assms l2_tree_prefix [of "m - INODE_INDIRECT1_COUNT" "n - INODE_INDIRECT1_COUNT" "index_block d x" d]
  by (auto simp: indirect2_tree_def layout_consts)

lemma indirect1_tree_prefix:
  assumes "m \<le> n" and "n \<le> MAX_BLOCKS"
  shows "prefix (indirect1_tree di m d) (indirect1_tree di n d)"
proof (cases "m > INODE_DIRECT_COUNT")
  case True
  let ?m = "m - INODE_DIRECT_COUNT" and ?n = "n - INODE_DIRECT_COUNT" and ?x = "di_indirect1 di"
  have p: "prefix (indirect2_tree (di_indirect2 di) ?m d) (indirect2_tree (di_indirect2 di) ?n d)"
    using assms by (intro indirect2_tree_prefix) (simp_all add: MAX_BLOCKS_def layout_consts)
  show ?thesis
  proof (cases "?m \<le> INODE_INDIRECT1_COUNT")
    case m: True
    then show ?thesis
      using True assms(1) l1_tree_prefix [of ?m ?n d ?x]
      by (auto simp: indirect1_tree_def indirect2_tree_le intro: prefix_prefix)
  next
    case False
    then have "l1_tree d ?m ?x = l1_tree d ?n ?x"
      using assms(1) by (simp add: l1_tree_def)
    then show ?thesis
      using True assms(1) p by (simp add: indirect1_tree_def)
  qed
qed (simp add: indirect1_tree_def)

lemma inode_tree_prefix:
  assumes "m \<le> n" and "n \<le> MAX_BLOCKS" and "length (di_direct di) = INODE_DIRECT_COUNT"
  shows "prefix (inode_tree di m d) (inode_tree di n d)"
proof (cases "m \<le> INODE_DIRECT_COUNT")
  case True
  then show ?thesis
    using map_mono_prefix [OF prefix_take_mono [OF assms(1)], of "Pair True" "di_direct di"]
    by (auto simp: inode_tree_def indirect1_tree_def intro: prefix_prefix)
next
  case False
  then have "take m (di_direct di) = take n (di_direct di)"
    using assms(1,3) by simp
  then show ?thesis
    using indirect1_tree_prefix [OF assms(1,2)] by (simp add: inode_tree_def)
qed

lemma shrink_inode:
  assumes ok: "inode_ok di d" and s: "s \<le> di_size di" and di': "di' = di\<lparr>di_size := s\<rparr>"
  shows "inode_ok di' d" and "tree_blocks di' d \<subseteq> tree_blocks di d" and "content di' d = take s (content di d)"
proof -
  note D = inode_okD [OF ok]
  have n: "data_blocks di' \<le> data_blocks di"
    using s D(3) by (simp add: di' data_blocks_def data_blocks_mono)
  have "inode_tree di' n d = inode_tree di n d" for n
    by (simp add: di' inode_tree_fields)
  then have p: "prefix (itree di' d) (itree di d)"
    using inode_tree_prefix [OF n D(5,6)] by (simp add: itree_def)
  then obtain ts where T: "itree di d = itree di' d @ ts"
    by (auto simp: prefix_def)
  show "tree_blocks di' d \<subseteq> tree_blocks di d"
    by (auto simp: tree_blocks_def T)
  have "blocks_ok (map snd (itree di' d)) d"
    using D(4) unfolding T by (simp add: blocks_ok_append)
  then show ok': "inode_ok di' d"
    using D(1-3) s by (auto simp: inode_ok_def di' wf_fields_def)
  have "block_ids di d = block_ids di' d @ data_ids ts"
    by (simp add: block_ids_def T)
  then have F: "full_content di d = full_content di' d @ concat (map (\<lambda>b. the (d b)) (data_ids ts))"
    by (simp add: full_content_def)
  have "s \<le> length (full_content di' d)"
    using length_content [OF ok'] by (simp add: content_def di')
  then show "content di' d = take s (content di d)"
    using s by (simp add: content_def F di' min_def)
qed

lemma shrink_step:
  assumes own: "own efs nd di d" and s: "s \<le> di_size di" and di': "di' = di\<lparr>di_size := s\<rparr>"
  shows "inode_step efs nd di d di' d"
proof -
  note O = ownD [OF own]
  note S = shrink_inode [OF O(2) s di']
  have "own efs nd di' d"
    using O S by (auto simp: own_def)
  then show ?thesis
    using S(2) by (auto simp: inode_step_def)
qed

lemma nlink_step:
  assumes own: "own efs nd di d" and n: "n < 2 ^ 32" and di': "di' = di\<lparr>di_nlink := n\<rparr>"
  shows "inode_step efs nd di d di' d" and "content di' d = content di d" and "zero_tail di' d = zero_tail di d"
    and "dir_ok U di' d = dir_ok U di d" and "tree_blocks di' d = tree_blocks di d"
proof -
  note O = ownD [OF own]
  have T: "itree di' d = itree di d"
    by (simp add: di' itree_def data_blocks_def inode_tree_def indirect1_tree_def)
  then have F: "full_content di' d = full_content di d" and B: "tree_blocks di' d = tree_blocks di d"
    by (simp_all add: full_content_def block_ids_def tree_blocks_def)
  then show "tree_blocks di' d = tree_blocks di d" and C: "content di' d = content di d" and "zero_tail di' d = zero_tail di d"
    by (simp_all add: content_def zero_tail_def di')
  show "dir_ok U di' d = dir_ok U di d"
    by (simp add: dir_ok_def dir_entries_def C file_count_def) (simp add: di')
  have "inode_ok di' d"
    using O(2) n T by (simp add: inode_ok_def wf_fields_def di')
  then have "own efs nd di' d"
    using own B by (simp add: own_def)
  then show "inode_step efs nd di d di' d"
    using B by (auto simp: inode_step_def)
qed

section \<open>Appending\<close>

definition entries_of_bytes :: "bytes \<Rightarrow> DirEntry list" where
  "entries_of_bytes c = map (\<lambda>k. DirEntry_of_bytes (slice (k * DIRENT_SZ) DIRENT_SZ c)) [0..<length c div DIRENT_SZ]"

lemma dir_entries_bytes: "inode_ok di d \<Longrightarrow> dir_entries di d = entries_of_bytes (content di d)"
  by (simp add: dir_entries_def entries_of_bytes_def file_count_def)

lemma entries_append:
  assumes "length c mod DIRENT_SZ = 0" and "length r = DIRENT_SZ"
  shows "entries_of_bytes (c @ r) = entries_of_bytes c @ [DirEntry_of_bytes r]"
proof -
  obtain n where n: "length c = n * DIRENT_SZ"
    using assms(1) by (metis add.right_neutral div_mult_mod_eq)
  have d: "length c div DIRENT_SZ = n" "length (c @ r) div DIRENT_SZ = Suc n"
    using n assms(2) by (simp_all add: layout_consts)
  have "slice (k * DIRENT_SZ) DIRENT_SZ (c @ r) = slice (k * DIRENT_SZ) DIRENT_SZ c" if "k < n" for k
  proof -
    have "Suc k * DIRENT_SZ \<le> n * DIRENT_SZ"
      using that by (intro mult_le_mono1) simp
    then show ?thesis
      using n by (simp add: slice_def)
  qed
  then have "map (\<lambda>k. DirEntry_of_bytes (slice (k * DIRENT_SZ) DIRENT_SZ (c @ r))) [0..<n] =
      map (\<lambda>k. DirEntry_of_bytes (slice (k * DIRENT_SZ) DIRENT_SZ c)) [0..<n]"
    by simp
  moreover have "slice (n * DIRENT_SZ) DIRENT_SZ (c @ r) = r"
    using n assms(2) by (simp add: slice_def)
  ultimately show ?thesis
    unfolding entries_of_bytes_def d upt_Suc by simp
qed

lemma entries_butlast:
  assumes "length c mod DIRENT_SZ = 0"
  shows "entries_of_bytes (take (length c - DIRENT_SZ) c) = butlast (entries_of_bytes c)"
proof (cases "c = []")
  case True
  then show ?thesis by (simp add: entries_of_bytes_def)
next
  case False
  obtain n where n: "length c = n * DIRENT_SZ"
    using assms by (metis add.right_neutral div_mult_mod_eq)
  have "n \<noteq> 0"
    using False n by (metis length_0_conv mult_0)
  then have n1: "DIRENT_SZ \<le> length c"
    using n by (simp add: layout_consts)
  let ?c = "take (length c - DIRENT_SZ) c" and ?r = "drop (length c - DIRENT_SZ) c"
  have "length ?c mod DIRENT_SZ = 0" and "length ?r = DIRENT_SZ"
    using n1 assms by (simp_all add: mod_diff_right_eq le_mod_geq [symmetric] min_def)
  from entries_append [OF this] show ?thesis
    by simp
qed

lemma free_blocks_grow:
  assumes "allocated efs d' = allocated efs d \<union> set bs" and "set bs \<subseteq> data_area efs nd - allocated efs d"
    and "distinct bs"
  shows "free_blocks efs nd d' = free_blocks efs nd d - length bs"
proof -
  have "data_area efs nd - allocated efs d' = (data_area efs nd - allocated efs d) - set bs"
    using assms(1) by auto
  then show ?thesis
    using assms(2,3) by (simp add: free_blocks_def card_Diff_subset distinct_card)
qed

lemma append_bytes_step:
  assumes own: "own efs nd di d" and bs: "bs \<noteq> []" and sz: "di_size di + length bs \<le> MAX_BLOCKS * BLOCK_SZ"
    and room: "need_blocks di (di_size di + length bs) \<le> free_blocks efs nd d"
  shows "\<exists>di1 d1 d2. Inode_increase_size efs (di_size di + length bs) di d = Some (di1, d1) \<and>
    write_at di1 (di_size di) bs d1 = Some (length bs, d2) \<and> inode_step efs nd di d di1 d2 \<and>
    content di1 d2 = content di d @ bs \<and> di_size di1 = di_size di + length bs \<and>
    di_type di1 = di_type di \<and> di_nlink di1 = di_nlink di \<and>
    free_blocks efs nd d2 = free_blocks efs nd d - need_blocks di (di_size di + length bs)"
proof -
  let ?ns = "di_size di + length bs"
  have lt: "di_size di < ?ns"
    using bs by simp
  obtain di1 d1 v where g: "Inode_increase_size efs ?ns di d = Some (di1, d1)" "inode_step efs nd di d di1 d1"
    "di_size di1 = ?ns" "di_nlink di1 = di_nlink di" "di_type di1 = di_type di"
    "take (di_size di) (content di1 d1) = content di d"
    "length v = need_blocks di ?ns" "allocated efs d1 = allocated efs d \<union> set v" "distinct v"
    "set v \<subseteq> data_area efs nd - allocated efs d"
    using grow_step [OF own lt sz room] by blast
  have own1: "own efs nd di1 d1"
    using g(2) by (simp add: inode_step_def)
  have ok1: "inode_ok di1 d1"
    by (rule ownD(2) [OF own1])
  have b64: "di_size di + length bs < 2 ^ 64"
    using sz by (simp add: MAX_BLOCKS_def layout_consts)
  have lt1: "di_size di < di_size di1" and n: "length bs = min (length bs) (di_size di1 - di_size di)"
    using g(3) lt by simp_all
  obtain d2 where w: "write_at di1 (di_size di) bs d1 = Some (length bs, d2)" "data_written di1 d1 (di_size di) bs d2"
    using write_at_eq [OF ok1 b64 lt1 bs n] by auto
  note W = write_step [OF own1 w(2)]
  have len: "length (content di1 d1) = ?ns"
    using length_content [OF ok1] g(3) by simp
  have "content di1 d2 = splice (di_size di) bs (content di1 d1)"
    using data_written_content [OF w(2) _ ok1] g(3) by simp
  also have "\<dots> = content di d @ bs"
    using g(6) len by (simp add: splice_def)
  finally have c: "content di1 d2 = content di d @ bs" .
  have fr: "free_blocks efs nd d2 = free_blocks efs nd d - need_blocks di ?ns"
    using free_blocks_grow [OF g(8,10,9)] g(7) W(2) by (simp add: free_blocks_def)
  show ?thesis
    using g(1,3-5) w(1) inode_step_trans [OF g(2) W(1)] c fr by blast
qed

definition name_ok :: "bytes \<Rightarrow> bool" where
  \<comment> \<open>a file name: a UTF-8 string of at most 27 bytes without NUL\<close>
  "name_ok nm \<longleftrightarrow> length nm \<le> NAME_LENGTH_LIMIT \<and> 0 \<notin> set nm \<and> utf8_valid nm"

lemma name_ok_entry:
  assumes "name_ok nm" and "i < 2 ^ 32"
  obtains e where "DirEntry_new nm i = Some e" and "length (as_bytes e) = DIRENT_SZ"
    and "DirEntry_of_bytes (as_bytes e) = e" and "DirEntry_name e = Some nm" and "inode_number e = i"
proof -
  have "\<exists>e. DirEntry_new nm i = Some e \<and> inode_number e = i"
    using assms(1) by (simp add: DirEntry_new_def name_ok_def)
  then show ?thesis
    using that length_as_bytes DirEntry_of_as_bytes [OF _ assms(2)] DirEntry_name_new assms(1)
    unfolding name_ok_def by metis
qed

lemma dir_size_bytes: "file_count di * DIRENT_SZ = di_size di" if "di_size di mod DIRENT_SZ = 0"
  using that unfolding file_count_def by (metis add.right_neutral div_mult_mod_eq)

lemma append_dirent_step:
  assumes own: "own efs nd di d" and dir: "dir_ok U di d" and nm: "name_ok nm" and i: "i < 2 ^ 32"
    and sz: "di_size di + DIRENT_SZ \<le> MAX_BLOCKS * BLOCK_SZ"
    and room: "need_blocks di (di_size di + DIRENT_SZ) \<le> free_blocks efs nd d"
  shows "\<exists>di' d'. append_dirent efs nm i di d = Some (((), di'), d') \<and> inode_step efs nd di d di' d' \<and>
    di_type di' = di_type di \<and> di_nlink di' = di_nlink di \<and>
    dir_list di' d' = dir_list di d @ [(nm, i)] \<and>
    (i \<in> U \<longrightarrow> nm \<notin> fst ` set (dir_list di d) \<longrightarrow> dir_ok U di' d') \<and>
    free_blocks efs nd d' = free_blocks efs nd d - need_blocks di (di_size di + DIRENT_SZ)"
proof -
  obtain e where e: "DirEntry_new nm i = Some e" "length (as_bytes e) = DIRENT_SZ"
    "DirEntry_of_bytes (as_bytes e) = e" "DirEntry_name e = Some nm" "inode_number e = i"
    by (rule name_ok_entry [OF nm i])
  have m: "di_size di mod DIRENT_SZ = 0"
    using dir by (simp add: dir_ok_def)
  note fc = dir_size_bytes [OF m]
  have ne: "as_bytes e \<noteq> []"
    using e(2) by (auto simp: layout_consts)
  obtain di1 d1 d2 where r: "Inode_increase_size efs (di_size di + DIRENT_SZ) di d = Some (di1, d1)"
    "write_at di1 (di_size di) (as_bytes e) d1 = Some (DIRENT_SZ, d2)" "inode_step efs nd di d di1 d2"
    "content di1 d2 = content di d @ as_bytes e" "di_size di1 = di_size di + DIRENT_SZ"
    "di_type di1 = di_type di" "di_nlink di1 = di_nlink di"
    "free_blocks efs nd d2 = free_blocks efs nd d - need_blocks di (di_size di + DIRENT_SZ)"
    using append_bytes_step [OF own ne] sz room e(2) by auto
  have ok: "inode_ok di d" and ok1: "inode_ok di1 d2"
    using own r(3) by (simp_all add: inode_step_def own_def)
  have E: "dir_entries di1 d2 = dir_entries di d @ [e]"
    using entries_append [of "content di d" "as_bytes e"] e(2,3) r(4) m ok ok1
    by (simp add: dir_entries_bytes)
  have "u32 ((file_count di + 1) * DIRENT_SZ) = di_size di + DIRENT_SZ"
    using fc sz by (simp add: u32_def MAX_BLOCKS_def layout_consts)
  then have "append_dirent efs nm i di d = Some (((), di1), d2)"
    using r(1,2) e(1) fc by (simp add: append_dirent_def Let_def)
  moreover have "dir_list di1 d2 = dir_list di d @ [(nm, i)]"
    using E e(4,5) by (simp add: dir_list_def entry_name_def)
  moreover have "i \<in> U \<longrightarrow> nm \<notin> fst ` set (dir_list di d) \<longrightarrow> dir_ok U di1 d2"
    using dir e(4,5) r(5) E m by (auto simp: dir_ok_def dir_list_def entry_name_def image_iff)
  ultimately show ?thesis
    using r(3,6-8) by blast
qed

section \<open>Removing\<close>

lemma swap_remove_map:
  assumes d: "distinct (map fst xs)" and i: "i < length xs" and kv: "xs ! i = (k, v)"
  shows "map_of (butlast (xs[i := last xs])) = (map_of xs)(k := None)"
    and "distinct (map fst (butlast (xs[i := last xs])))" and "set (butlast (xs[i := last xs])) \<subseteq> set xs"
proof -
  let ?ys = "butlast (xs[i := last xs])"
  obtain us vs where xs: "xs = us @ (k, v) # vs" "length us = i"
    using id_take_nth_drop [OF i] i kv by (metis length_take min.absorb2 less_imp_le)
  have "set ?ys = set us \<union> set vs \<and> distinct (map fst ?ys)"
  proof (cases vs rule: rev_cases)
    case Nil
    then show ?thesis
      using xs d by (auto simp: list_update_append)
  next
    case (snoc ws z)
    then have "?ys = us @ z # ws"
      using xs by (simp add: list_update_append butlast_append)
    then show ?thesis
      using d xs(1) snoc by auto
  qed
  then have s: "set ?ys = set us \<union> set vs" and dy: "distinct (map fst ?ys)"
    by blast+
  show "distinct (map fst ?ys)"
    by (rule dy)
  show "set ?ys \<subseteq> set xs"
    using s xs(1) by auto
  have "map_of ?ys a = Some b \<longleftrightarrow> ((map_of xs)(k := None)) a = Some b" for a b
  proof -
    have "k \<notin> fst ` (set us \<union> set vs)"
      using d xs(1) by auto
    then have "(a, b) \<in> set ?ys \<longleftrightarrow> a \<noteq> k \<and> (a, b) \<in> set xs"
      unfolding s using xs(1) by force
    then show ?thesis
      using map_of_eq_Some_iff [OF dy, of a b] map_of_eq_Some_iff [OF d, of a b] by (simp only: fun_upd_def) auto
  qed
  then show "map_of ?ys = (map_of xs)(k := None)"
    by (metis option.exhaust ext)
qed

lemma find_index:
  assumes "List.find (\<lambda>(i, e). q e) (map (\<lambda>i. (i, es ! i)) [0..<n]) = Some (i, e)"
  shows "i < n" and "e = es ! i" and "q e"
  using assms by (auto simp: find_Some_iff)

lemma remove_dirent_step:
  assumes own: "own efs nd di d" and dir: "dir_ok U di d" "is_dir di"
    and found: "map_of (dir_list di d) nm = Some ino"
  shows "\<exists>di' d'. remove_dirent efs nm di d = Some ((Some (inode_handle efs ino), di'), d') \<and>
    inode_step efs nd di d di' d' \<and> di_type di' = di_type di \<and> di_nlink di' = di_nlink di \<and>
    map_of (dir_list di' d') = (map_of (dir_list di d))(nm := None) \<and>
    length (dir_list di d) = Suc (length (dir_list di' d')) \<and> dir_ok U di' d' \<and> allocated efs d' = allocated efs d"
proof -
  let ?n = "file_count di" and ?es = "dir_entries di d"
  have ok: "inode_ok di d"
    using own by (simp add: own_def)
  note D = inode_okD [OF ok]
  have dm: "di_size di mod DIRENT_SZ = 0"
    using dir by (simp add: dir_ok_def)
  note fc = dir_size_bytes [OF dm]
  let ?find = "List.find (\<lambda>(i, e). entry_name e = nm) (map (\<lambda>i. (i, ?es ! i)) [0..<?n])"
  have "map_option (inode_number \<circ> snd) ?find = Some ino"
    using found by (simp add: find_map_of dir_list_upt)
  then obtain i e where ie: "?find = Some (i, e)" "inode_number e = ino"
    by auto
  note fi = find_index [OF ie(1)]
  have se: "search_entries (has_name nm) di [0..<?n] d = Some (Some (i, e))"
    using search_name [OF ok dir(1)] ie(1) by simp
  let ?recs = "inode.records di DIRENT_SZ d"
  have rl: "length ?recs = ?n"
    using ok by (simp add: inode.records_def file_count_def)
  have sz0: "0 < DIRENT_SZ"
    by (simp add: layout_consts)
  have eb: "length (as_bytes DirEntry_new_empty) = DIRENT_SZ"
    by (simp add: as_bytes_def DirEntry_new_empty_def layout_consts)
  have n1: "?n - 1 < length ?recs" and n0: "0 < ?n" and il: "i < length ?recs"
    using fi(1) rl by simp_all
  have rd: "read_at di ((?n - 1) * DIRENT_SZ) (as_bytes DirEntry_new_empty) d = Some (DIRENT_SZ, last ?recs)"
    using inode.rd_record [OF ok sz0 n1 eb] rl n0 last_conv_nth [of ?recs] by fastforce
  have lr: "length (last ?recs) = DIRENT_SZ"
    using inode.length_record [OF sz0, of "last ?recs" di d] n0 rl by (cases ?recs) auto
  have lne: "last ?recs \<noteq> []"
    using lr by (auto simp: layout_consts)
  have room: "i * DIRENT_SZ + DIRENT_SZ \<le> di_size di"
    using inode.record_room [OF sz0, of i di d] fi(1) ok by (simp add: file_count_def)
  have lt: "i * DIRENT_SZ < di_size di" and b64: "i * DIRENT_SZ + length (last ?recs) < 2 ^ 64"
    and wn: "DIRENT_SZ = min (length (last ?recs)) (di_size di - i * DIRENT_SZ)"
    using room lr D(3) sz0 by (simp_all add: MAX_BLOCKS_def layout_consts)
  obtain d1 where w: "write_at di (i * DIRENT_SZ) (last ?recs) d = Some (DIRENT_SZ, d1)"
    "data_written di d (i * DIRENT_SZ) (last ?recs) d1"
    using write_at_eq [OF ok b64 lt lne wn] lr by auto
  have ok1: "inode_ok di d1"
    using w(2) by (simp add: data_written_def)
  obtain d1' where "write_at di (i * DIRENT_SZ) (last ?recs) d = Some (DIRENT_SZ, d1')"
    "inode.records di DIRENT_SZ d1' = ?recs[i := last ?recs]"
    using inode.wr_record [OF ok sz0 il lr] by blast
  then have recs1: "inode.records di DIRENT_SZ d1 = ?recs[i := last ?recs]"
    using w(1) by simp
  let ?di = "di\<lparr>di_size := di_size di - DIRENT_SZ\<rparr>"
  have szn: "DIRENT_SZ \<le> di_size di"
    using room by simp
  have u: "u32_sub (di_size di) DIRENT_SZ = di_size di - DIRENT_SZ"
    using szn D(2) by (intro u32_sub_id) (simp_all add: wf_fields_def)
  note W = write_step [OF own w(2)]
  have own1: "own efs nd di d1"
    using W(1) by (simp add: inode_step_def)
  have sh: "inode_step efs nd di d1 ?di d1"
    by (rule shrink_step [OF own1 _ refl]) simp
  note S = shrink_inode [OF ok1 _ refl, of "di_size di - DIRENT_SZ", simplified]
  have es1: "dir_entries di d1 = ?es[i := last ?es]"
  proof -
    have "?recs \<noteq> []"
      using n0 rl by auto
    then show ?thesis
      by (simp add: dir_entries_records [OF ok] dir_entries_records [OF ok1] recs1 map_update last_map)
  qed
  have "dir_entries ?di d1 = butlast (dir_entries di d1)"
    using entries_butlast [of "content di d1"] S(1,3) ok1 dm by (simp add: dir_entries_bytes)
  then have es2: "dir_entries ?di d1 = butlast (?es[i := last ?es])"
    by (simp add: es1)
  let ?f = "\<lambda>e. (entry_name e, inode_number e)"
  have ne: "?es \<noteq> []"
    using n0 length_dir_entries [of di d] by (metis less_numeral_extra(3) list.size(3))
  have dl: "dir_list ?di d1 = butlast ((dir_list di d)[i := last (dir_list di d)])"
    using ne by (simp add: dir_list_def es2 map_butlast map_update last_map)
  have dist: "distinct (map fst (dir_list di d))"
    using dir(1) by (simp add: dir_ok_def dir_list_def comp_def)
  have at_i: "i < length (dir_list di d)" "dir_list di d ! i = (nm, ino)"
    using fi ie(2) by (simp_all add: dir_list_def)
  note R = swap_remove_map [OF dist at_i, folded dl]
  have "set (dir_entries ?di d1) \<subseteq> set ?es"
    unfolding es2 using set_update_subset_insert [of ?es i "last ?es"] last_in_set [OF ne]
    by (auto dest: in_set_butlastD)
  moreover have "(di_size di - DIRENT_SZ) mod DIRENT_SZ = 0"
    using dm szn by (simp add: le_mod_geq [symmetric])
  ultimately have dok: "dir_ok U ?di d1"
    using dir(1) R(2) by (auto simp: dir_ok_def dir_list_def comp_def)
  have "remove_dirent efs nm di d = Some ((Some (inode_handle efs ino), ?di), d1)"
    using dir(2) se rd w(1) ie(2) by (simp add: remove_dirent_def Let_def u)
  moreover have "length (dir_list di d) = Suc (length (dir_list ?di d1))"
    using at_i(1) by (simp add: dl)
  ultimately show ?thesis
    using inode_step_trans [OF W(1) sh] W(2) R(1) dok by (intro exI [of _ ?di] exI [of _ d1]) simp
qed

end
