(* ===== verification/VfsProps.thy ===== *)
theory VfsProps
  imports Directory
begin

text \<open>
  The VFS operations on a file system in its invariant: reading and writing a file, clearing it,
  looking a name up in a directory, creating, linking and unlinking entries. Every operation
  returns, keeps \<open>fs_inv\<close>, has its effect on the inode it names and leaves the contents of all
  other inodes as they were.
\<close>

section \<open>A small file system for the examples\<close>

text \<open>
  One block of inode bitmap, 1024 blocks of inodes, one block of data bitmap and three data blocks;
  inode 0 is an empty file, inode 1 an empty directory.
\<close>

definition sample_fs :: EasyFileSystem where
  "sample_fs = \<lparr>inode_bitmap = Bitmap_new 1 1, data_bitmap = Bitmap_new 1026 1,
     inode_area_start_block = 2, data_area_start_block = 1027\<rparr>"

definition sample_fs_disk :: disk where
  "sample_fs_disk = (\<lambda>b. if b < 1030 then
     Some (if b = 1 then 3 # replicate 511 0
           else if b = 2 then replicate 252 0 @ [1] @ replicate 259 0 else replicate 512 0) else None)"

lemma le_nat_zeros: "\<forall>b \<in> set bs. b = 0 \<Longrightarrow> le_nat bs = 0"
  by (induction bs) auto

lemma u32_at_zeros:
  assumes "\<forall>j < n. bs ! j = 0" and "4 * k + 4 \<le> n" and "n \<le> length bs"
  shows "u32_at k bs = 0"
  unfolding u32_at_def using assms by (intro le_nat_zeros) (auto simp: in_set_conv_nth)

lemma sample_geometry: "geometry sample_fs 3"
  by (simp add: geometry_def sample_fs_def Bitmap_new_def maxmium_def BLOCK_BITS_def BLOCK_SZ_def
      INODES_PER_BLOCK_eq)

definition sample_empty :: "nat \<Rightarrow> DiskInode" where
  "sample_empty i = \<lparr>di_size = 0, di_nlink = 0, di_rsv = 0, di_direct = replicate 26 0, di_indirect1 = 0,
     di_indirect2 = 0, di_type = (if i = 1 then Directory else File)\<rparr>"

lemma sample_inode_at:
  assumes "i < 4096"
  shows "inode_at sample_fs sample_fs_disk i = Some (sample_empty i)"
proof -
  have ib: "inode_block sample_fs i = 2 + i div 4" "i div 4 < 1024" and off: "inode_offset i = i mod 4 * 128"
    using assms by (simp_all add: sample_fs_def INODES_PER_BLOCK_eq INODE_SIZE_def div_less_iff_less_mult)
  define blk where "blk = (if i div 4 = 0 then replicate 252 0 @ [1] @ replicate 259 0 else replicate 512 (0 :: byte))"
  have d: "sample_fs_disk (inode_block sample_fs i) = Some blk"
    using ib by (auto simp: sample_fs_disk_def blk_def)
  have len: "length blk = 512"
    by (simp add: blk_def)
  let ?s = "slice (inode_offset i) INODE_SIZE blk"
  have m: "i mod 4 * 128 + 128 \<le> 512"
    using inode_offset_bound [of i] by (simp add: INODES_PER_BLOCK_eq INODE_SIZE_def BLOCK_SZ_def)
  have nth: "?s ! k = blk ! (i mod 4 * 128 + k)" if "k < 128" for k
    using that m len off by (simp add: INODE_SIZE_def)
  have at: "blk ! j = (if i div 4 = 0 \<and> j = 252 then 1 else 0)" if "j < 512" for j
    using that by (auto simp: blk_def nth_append nth_Cons')
  have i1: "i div 4 = 0 \<and> i mod 4 * 128 + k = 252 \<longleftrightarrow> i = 1 \<and> k = 124" if "k < 128" for k
  proof
    assume h: "i div 4 = 0 \<and> i mod 4 * 128 + k = 252"
    then have "i < 4" by (simp add: div_eq_0_iff)
    then have "i * 128 + k = 252"
      using h by simp
    then show "i = 1 \<and> k = 124"
      using that by presburger
  qed auto
  have z: "\<forall>k < 124. ?s ! k = 0"
  proof (intro allI impI)
    fix k :: nat assume k: "k < 124"
    then show "?s ! k = 0"
      using nth [of k] at [of "i mod 4 * 128 + k"] i1 [of k] m by auto
  qed
  have ty: "?s ! 124 = (if i = 1 then 1 else 0)"
    using nth [of 124] at [of "i mod 4 * 128 + 124"] i1 [of 124] m by auto
  have u: "u32_at k ?s = 0" if "k < 31" for k
    using that z len m off by (intro u32_at_zeros [of 124]) (simp_all add: INODE_SIZE_def)
  have "map (\<lambda>k. u32_at (3 + k) ?s) [0..<INODE_DIRECT_COUNT] = replicate 26 0"
    by (intro nth_equalityI) (simp_all add: u layout_consts)
  then show ?thesis
    using ty u by (simp add: inode_at_def d DiskInode_of_bytes_def sample_empty_def)
qed

lemma sample_bits:
  shows "used_inodes sample_fs sample_fs_disk = {0, 1}" and "allocated sample_fs sample_fs_disk = {}"
proof -
  have z: "get_u64 (replicate 512 0) k = 0" for k
    by (simp add: get_u64_def slice_def le_nat_zeros)
  have "slice (8 * k) 8 (3 # replicate 511 0) = (if k = 0 then 3 # replicate 7 0 else slice (8 * k) 8 (replicate 512 (0 :: byte)))"
    if "k < 64" for k
    using that by (intro nth_equalityI) (auto simp: nth_Cons')
  then have g: "get_u64 (3 # replicate 511 0) k = (if k = 0 then 3 else 0)" if "k < 64" for k
    using that z [of k] le_nat_zeros [of "replicate 7 0"] by (simp add: get_u64_def)
  have b3: "bit (3 :: 64 word) j \<longleftrightarrow> j = 0 \<or> j = 1" for j
    by (cases "j < 2") (auto simp: bit_simps less_Suc_eq numeral_2_eq_2 bit_numeral_rec)
  have bb: "block_bit (3 # replicate 511 0) i \<longleftrightarrow> i = 0 \<or> i = 1" if "i < 4096" for i
  proof -
    have "i div 64 < 64"
      using that by (simp add: div_less_iff_less_mult)
    then have "block_bit (3 # replicate 511 0) i \<longleftrightarrow> i div 64 = 0 \<and> (i mod 64 = 0 \<or> i mod 64 = 1)"
      unfolding block_bit_def g [OF \<open>i div 64 < 64\<close>] using b3 [of "i mod 64"] by auto
    then show ?thesis
      by (auto simp: div_eq_0_iff)
  qed
  have "bitmap_bit (Bitmap_new 1 1) sample_fs_disk i \<longleftrightarrow> i = 0 \<or> i = 1" for i
    using bb [of i] by (auto simp: bitmap_bit_def Bitmap_new_def maxmium_def BLOCK_BITS_def BLOCK_SZ_def
          sample_fs_disk_def)
  then show "used_inodes sample_fs sample_fs_disk = {0, 1}"
    by (auto simp: used_inodes_def bitmap_used_def sample_fs_def)
  have "\<not> bitmap_bit (Bitmap_new 1026 1) sample_fs_disk i" for i
    by (auto simp: bitmap_bit_def Bitmap_new_def maxmium_def BLOCK_BITS_def BLOCK_SZ_def
          sample_fs_disk_def block_bit_def z)
  then show "allocated sample_fs sample_fs_disk = {}"
    by (simp add: allocated_def bitmap_used_def sample_fs_def)
qed

lemma sample_fs_inv: "fs_inv sample_fs 3 sample_fs_disk"
proof -
  have wf: "wf_disk sample_fs_disk"
    by (rule wf_diskI) (auto simp: sample_fs_disk_def BLOCK_SZ_def split: if_splits)
  have e: "itree (sample_empty i) d = []" for i d
    by (simp add: itree_size_0 sample_empty_def)
  have f: "wf_fields (sample_empty i)" "di_size (sample_empty i) = 0" for i
    by (simp_all add: wf_fields_def sample_empty_def layout_consts)
  have "inode_good sample_fs 3 U (sample_empty i) sample_fs_disk" for i U
    using wf f [of i] by (simp add: inode_good_def inode_ok_def blocks_ok_def e tree_blocks_def zero_tail_def
        full_content_def block_ids_def dir_ok_def dir_entries_def file_count_def)
  moreover have "maxmium (inode_bitmap sample_fs) = 4096"
    by (simp add: sample_fs_def Bitmap_new_def maxmium_def BLOCK_BITS_def BLOCK_SZ_def)
  moreover have "free_zero sample_fs 3 sample_fs_disk"
    by (auto simp: free_zero_def data_area_def sample_fs_def sample_fs_disk_def BLOCK_SZ_def)
  moreover have "{..<data_area_start_block sample_fs + 3} \<subseteq> dom sample_fs_disk"
    by (auto simp: sample_fs_def sample_fs_disk_def)
  ultimately show ?thesis
    using sample_geometry wf sample_inode_at sample_bits(1) f(2)
    by (auto simp: fs_inv_def e tree_blocks_def)
qed

lemma sample_free: "free_blocks sample_fs 3 sample_fs_disk = 3"
  by (simp add: free_blocks_def sample_bits(2) data_area_def)

section \<open>Growing to a size that may be reached already\<close>

lemma need_blocks_0: "ns \<le> di_size di \<Longrightarrow> di_size di \<le> MAX_BLOCKS * BLOCK_SZ \<Longrightarrow> need_blocks di ns = 0"
  by (simp add: need_blocks_def data_blocks_def tree_total_mono data_blocks_mono)

lemma grow_step_any:
  assumes own: "own efs nd di d" and ns: "ns \<le> MAX_BLOCKS * BLOCK_SZ"
    and room: "need_blocks di ns \<le> free_blocks efs nd d"
  shows "\<exists>di' d'. Inode_increase_size efs ns di d = Some (di', d') \<and> inode_step efs nd di d di' d' \<and>
    di_size di' = max (di_size di) ns \<and> di_nlink di' = di_nlink di \<and> di_type di' = di_type di \<and>
    take (di_size di) (content di' d') = content di d \<and>
    (zero_tail di d \<longrightarrow> zero_tail di' d' \<and> content di' d' = content di d @ replicate (ns - di_size di) 0) \<and>
    free_blocks efs nd d' = free_blocks efs nd d - need_blocks di ns"
proof (cases "di_size di < ns")
  case True
  then show ?thesis
    using grow_step [OF own True ns room] free_blocks_grow by (auto simp: max_def)
next
  case False
  then have "Inode_increase_size efs ns di d = Some (di, d)"
    by (simp add: Inode_increase_size_def)
  moreover have "take (di_size di) (content di d) = content di d"
    by (simp add: content_def)
  ultimately show ?thesis
    using False inode_step_refl [OF own] need_blocks_0 [of ns di] ownD(2) [OF own] by (auto simp: max_def inode_ok_def)
qed

lemma free_blocks_locked:
  "geometry efs nd \<Longrightarrow> i < maxmium (inode_bitmap efs) \<Longrightarrow>
     free_blocks efs nd (d(inode_block efs i := x)) = free_blocks efs nd d"
  by (simp add: free_blocks_def allocated_del_inode)

lemma used_inode:
  assumes "fs_inv efs nd d" and "i \<in> used_inodes efs d"
  obtains di blk where "inode_at efs d i = Some di" and "d (inode_block efs i) = Some blk"
    and "inode_good efs nd (used_inodes efs d) di d"
proof -
  obtain di where di: "inode_at efs d i = Some di"
    using fs_invD(5) [OF assms(1) used_inodes_bound [OF assms(2)]] by blast
  then obtain blk where "d (inode_block efs i) = Some blk"
    by (auto simp: inode_at_def)
  then show ?thesis
    using that di fs_invD(6) [OF assms di] by blast
qed

section \<open>Files\<close>

lemma write_at_effect:
  assumes inv: "fs_inv efs nd d" and i: "i \<in> used_inodes efs d"
    and di: "inode_at efs d i = Some di" "is_file di"
    and buf: "buf \<noteq> []" "offset + length buf \<le> MAX_BLOCKS * BLOCK_SZ"
    and room: "need_blocks di (offset + length buf) \<le> free_blocks efs nd d"
  shows "\<exists>d' di'. Inode_write_at efs (inode_handle efs i) offset buf d = Some (length buf, d') \<and>
    fs_inv efs nd d' \<and> inode_at efs d' i = Some di' \<and> is_file di' \<and>
    content di' d' = splice offset buf (content di d @ replicate (offset + length buf - di_size di) 0) \<and>
    used_inodes efs d' = used_inodes efs d \<and> others_kept efs {i} d d' \<and>
    di_size di' = max (di_size di) (offset + length buf) \<and>
    free_blocks efs nd d' = free_blocks efs nd d - need_blocks di (offset + length buf)"
proof -
  let ?d0 = "d(inode_block efs i := None)" and ?ns = "offset + length buf"
  note D = fs_invD [OF inv]
  note O = fs_inv_own [OF inv i di(1)]
  have b: "i < maxmium (inode_bitmap efs)"
    by (rule used_inodes_bound [OF i])
  obtain blk where blk: "d (inode_block efs i) = Some blk"
    using di(1) by (auto simp: inode_at_def)
  have ns: "u32 ?ns = ?ns"
    using buf(2) by (simp add: u32_def MAX_BLOCKS_def layout_consts)
  have zt: "zero_tail di ?d0"
    using O(6) di(2) by (simp add: inode_good_def)
  obtain di1 d1 where g: "Inode_increase_size efs ?ns di ?d0 = Some (di1, d1)"
    "inode_step efs nd di ?d0 di1 d1" "di_size di1 = max (di_size di) ?ns" "di_type di1 = di_type di"
    "zero_tail di1 d1" "content di1 d1 = content di ?d0 @ replicate (?ns - di_size di) 0"
    "free_blocks efs nd d1 = free_blocks efs nd ?d0 - need_blocks di ?ns"
    using grow_step_any [OF O(1) buf(2)] room zt free_blocks_locked [OF D(1) b] by auto
  have own1: "own efs nd di1 d1"
    using g(2) by (simp add: inode_step_def)
  have ok1: "inode_ok di1 d1"
    by (rule ownD(2) [OF own1])
  have n: "min (length buf) (di_size di1 - offset) = length buf"
    using g(3) by (auto simp: max_def)
  have lt: "offset < di_size di1"
    using g(3) buf(1) by (simp add: max_def)
  have "?ns < 2 ^ 64"
    using buf(2) by (simp add: MAX_BLOCKS_def layout_consts)
  from write_at_eq [OF ok1 this lt buf(1) n [symmetric]] obtain d2 where
    w: "write_at di1 offset buf d1 = Some (length buf, d2)" "data_written di1 d1 offset buf d2"
    by auto
  have fit: "offset + length buf \<le> di_size di1"
    using g(3) by simp
  note W = write_step [OF own1 w(2)]
  have step: "inode_step efs nd di ?d0 di1 d2"
    by (rule inode_step_trans [OF g(2) W(1)])
  have c2: "content di1 d2 = splice offset buf (content di d @ replicate (?ns - di_size di) 0)"
    using data_written_content [OF w(2) fit ok1] g(6) O(2) by simp
  have zt2: "zero_tail di1 d2"
    by (rule data_written_zero_tail [OF w(2) fit ok1 g(5)])
  have kind: "is_file di1" "\<not> is_dir di1"
    using g(4) di(2) by (simp_all add: is_file_def is_dir_def)
  let ?d' = "put_inode efs i di1 blk d2"
  note S = fs_inv_step [OF inv i di(1) blk step _ _ refl]
  have "free_blocks efs nd ?d' = free_blocks efs nd d - need_blocks di ?ns"
    using S(6) W(2) zt2 kind g(7) free_blocks_locked [OF D(1) b] by (simp add: free_blocks_def)
  moreover have "Inode_write_at efs (inode_handle efs i) offset buf d = Some (length buf, ?d')"
    unfolding Inode_write_at_def
    using g(1) w(1) di(2) by (intro modify_disk_inode_eq [OF D(1) b blk di(1)]) (simp add: ns)
  ultimately show ?thesis
    using S zt2 kind c2 g(3) by (intro exI [of _ ?d'] exI [of _ di1]) auto
qed

text \<open>
  C1. Writing a file through the VFS, at any offset and across any number of blocks, with enough
  free blocks: the call returns the length of the buffer, the file's contents become the old
  contents, zero-filled up to the offset when it lies beyond the end, with the buffer stored at the
  offset; every other inode keeps its inode and contents, and the invariant of the file system
  holds again (no block shared, no free block dirty).
\<close>

theorem write_at_file:
  assumes inv: "fs_inv efs nd d" and i: "i \<in> used_inodes efs d"
    and di: "inode_at efs d i = Some di" "is_file di"
    and buf: "buf \<noteq> []" "offset + length buf \<le> MAX_BLOCKS * BLOCK_SZ"
    and room: "need_blocks di (offset + length buf) \<le> free_blocks efs nd d"
  shows "\<exists>d' di'. Inode_write_at efs (inode_handle efs i) offset buf d = Some (length buf, d') \<and>
    fs_inv efs nd d' \<and> inode_at efs d' i = Some di' \<and> is_file di' \<and>
    content di' d' = splice offset buf (content di d @ replicate (offset + length buf - di_size di) 0) \<and>
    used_inodes efs d' = used_inodes efs d \<and> others_kept efs {i} d d'"
  using write_at_effect [OF assms] by blast

theorem write_at_file_witness:
  "\<exists>d' di'. Inode_write_at sample_fs (inode_handle sample_fs 0) 600 [1, 2, 3] sample_fs_disk = Some (3, d') \<and>
    fs_inv sample_fs 3 d' \<and> inode_at sample_fs d' 0 = Some di' \<and>
    content di' d' = splice 600 [1, 2, 3] (replicate 603 0)"
proof -
  have "is_file (sample_empty 0)" and "need_blocks (sample_empty 0) (600 + length [1, 2, 3 :: byte]) = 2"
    by (simp_all add: is_file_def sample_empty_def need_blocks_def tree_total_def data_blocks_def
        data_blocks_of_size_def u32_def layout_consts)
  moreover have "content (sample_empty 0) sample_fs_disk = []" and "di_size (sample_empty 0) = 0"
    by (simp_all add: content_def sample_empty_def)
  moreover have "600 + length [1, 2, 3 :: byte] \<le> MAX_BLOCKS * BLOCK_SZ"
    by (simp add: MAX_BLOCKS_def layout_consts)
  ultimately show ?thesis
    using write_at_file [OF sample_fs_inv _ sample_inode_at, of 0 "[1, 2, 3]" 600] sample_free
    by (auto simp: sample_bits(1))
qed

lemma read_at_effect:
  assumes inv: "fs_inv efs nd d" and i: "i \<in> used_inodes efs d" and di: "inode_at efs d i = Some di"
    and len: "offset + length buf < 2 ^ 64"
  shows "Inode_read_at (inode_handle efs i) offset buf d = (let n = min (length buf) (length (content di d) - offset)
     in Some (n, splice 0 (slice offset n (content di d)) buf))"
proof -
  let ?d0 = "d(inode_block efs i := None)"
  note D = fs_invD [OF inv]
  note O = fs_inv_own [OF inv i di]
  have ok: "inode_ok di ?d0"
    by (rule ownD(2) [OF O(1)])
  let ?n = "min (length buf) (di_size di - offset)"
  have "length (slice offset ?n (content di d)) = ?n" and sz: "length (content di d) = di_size di"
    using length_content [OF ok] O(2) by simp_all
  moreover have "Inode_read_at (inode_handle efs i) offset buf d =
      Some (?n, splice 0 (slice offset ?n (content di d)) buf)"
    unfolding Inode_read_at_def read_disk_inode_eq [OF D(1) used_inodes_bound [OF i] di]
    using read_at_eq [OF ok len] O(2) by (simp add: Let_def)
  ultimately show ?thesis
    by (simp add: Let_def)
qed

text \<open>
  Reading a file through the VFS returns the bytes of its contents from the offset on, as many
  as fit the buffer, and never panics on a file system in its invariant.
\<close>

theorem read_at_file:
  assumes inv: "fs_inv efs nd d" and i: "i \<in> used_inodes efs d" and di: "inode_at efs d i = Some di"
    and len: "offset + length buf < 2 ^ 64"
  shows "\<exists>n buf'. Inode_read_at (inode_handle efs i) offset buf d = Some (n, buf') \<and>
    n = min (length buf) (length (content di d) - offset) \<and>
    take n buf' = slice offset n (content di d) \<and> drop n buf' = drop n buf"
proof -
  let ?n = "min (length buf) (length (content di d) - offset)"
  have "length (slice offset ?n (content di d)) = ?n"
    by simp
  then show ?thesis
    using read_at_effect [OF assms] by (simp add: Let_def splice_def)
qed

theorem read_at_file_witness:
  "\<exists>n buf'. Inode_read_at (inode_handle sample_fs 0) 5 [7, 7] sample_fs_disk = Some (n, buf') \<and> n = 0"
proof -
  have "content (sample_empty 0) sample_fs_disk = []"
    by (simp add: content_def sample_empty_def)
  then show ?thesis
    using read_at_file [OF sample_fs_inv _ sample_inode_at, of 0 5 "[7, 7]"] by (auto simp: sample_bits(1))
qed

lemma clear_locked_effect:
  assumes inv: "fs_inv efs nd d" and i: "i \<in> used_inodes efs d" and di: "inode_at efs d i = Some di"
  shows "\<exists>d' di'. clear_locked efs (inode_handle efs i) d = Some d' \<and> fs_inv efs nd d' \<and>
    inode_at efs d' i = Some di' \<and> di_size di' = 0 \<and> content di' d' = [] \<and> di_nlink di' = di_nlink di \<and>
    di_type di' = di_type di \<and> allocated efs d' = allocated efs d - tree_blocks di d \<and>
    used_inodes efs d' = used_inodes efs d \<and> others_kept efs {i} d d'"
proof -
  let ?d0 = "d(inode_block efs i := None)"
  note D = fs_invD [OF inv]
  note O = fs_inv_own [OF inv i di]
  have b: "i < maxmium (inode_bitmap efs)"
    by (rule used_inodes_bound [OF i])
  obtain blk where blk: "d (inode_block efs i) = Some blk"
    using di by (auto simp: inode_at_def)
  let ?v = "map snd (itree di ?d0)"
  obtain di1 d1 where c: "clear_size di ?d0 = Some (?v, di1, ?d0)" "length ?v = total_blocks (di_size di)"
    "dealloc_many (dealloc_data efs) ?v ?d0 = Some d1" "inode_step efs nd di ?d0 di1 d1"
    "di_size di1 = 0" "di_nlink di1 = di_nlink di" "di_type di1 = di_type di"
    "allocated efs d1 = allocated efs ?d0 - tree_blocks di ?d0"
    using clear_step [OF O(1)] by blast
  have z: "content di1 d1 = []" "zero_tail di1 d1" "dir_ok U di1 d1" for U
    using c(5) itree_size_0 [OF c(5)]
    by (simp_all add: content_def zero_tail_def full_content_def block_ids_def dir_ok_def dir_entries_def file_count_def)
  let ?d' = "put_inode efs i di1 blk d1"
  note S = fs_inv_step [OF inv i di blk c(4) _ _ refl]
  have "modify_disk_inode (inode_handle efs i)
       (\<lambda>di d. do {
          let sz = di_size di;
          (v, di, d) \<leftarrow> clear_size di d;
          ensure (length v = total_blocks sz);
          d \<leftarrow> dealloc_many (dealloc_data efs) v d;
          Some (((), di), d) }) d = Some ((), ?d')"
    using c(1-3) by (intro modify_disk_inode_eq [OF D(1) b blk di]) (simp add: Let_def)
  then have "clear_locked efs (inode_handle efs i) d = Some ?d'"
    by (simp add: clear_locked_def)
  then show ?thesis
    using S z c(5-8) O(3) allocated_del_inode [OF D(1) b]
    by (intro exI [of _ ?d'] exI [of _ di1]) auto
qed

text \<open>
  C2. Clearing a file returns every block it used, data and index blocks, to the data bitmap, and
  no other block: the file is empty, the allocated blocks are the old ones less the file's, all
  other inodes are untouched, and the invariant holds, so in particular the blocks given back are
  zero.
\<close>

theorem clear_frees_exactly:
  assumes "fs_inv efs nd d" and "i \<in> used_inodes efs d" and "inode_at efs d i = Some di"
  shows "\<exists>d' di'. clear efs (inode_handle efs i) d = Some d' \<and> fs_inv efs nd d' \<and>
    inode_at efs d' i = Some di' \<and> content di' d' = [] \<and> di_type di' = di_type di \<and>
    allocated efs d' = allocated efs d - tree_blocks di d \<and> others_kept efs {i} d d'"
  using clear_locked_effect [OF assms] by (auto simp: clear_def)

theorem clear_frees_exactly_witness:
  "\<exists>d' di'. clear sample_fs (inode_handle sample_fs 0) sample_fs_disk = Some d' \<and> fs_inv sample_fs 3 d' \<and>
    inode_at sample_fs d' 0 = Some di' \<and> content di' d' = []"
  using clear_frees_exactly [OF sample_fs_inv _ sample_inode_at, of 0] by (auto simp: sample_bits(1))

end
