(* ===== verification/VfsDirs.thy ===== *)
theory VfsDirs
  imports VfsProps
begin

text \<open>
  Directory operations on a file system in its invariant: path lookup, creation of files and
  directories, hard links and their removal. A directory is read as a finite map from names to
  inode numbers.
\<close>

section \<open>Composing steps\<close>

definition dir_map :: "DiskInode \<Rightarrow> disk \<Rightarrow> bytes \<rightharpoonup> nat" where
  "dir_map di d = map_of (dir_list di d)"

lemma dir_list_cong: "content di d' = content di d \<Longrightarrow> dir_list di d' = dir_list di d"
  by (simp add: dir_list_def dir_entries_def)

lemma dir_map_cong: "content di d' = content di d \<Longrightarrow> dir_map di d' = dir_map di d"
  unfolding dir_map_def dir_list_def dir_entries_def by simp

lemma others_kept_trans:
  assumes "others_kept efs X d d1" and "others_kept efs Y d1 d2" and "used_inodes efs d \<subseteq> used_inodes efs d1"
  shows "others_kept efs (X \<union> Y) d d2"
  unfolding others_kept_def
proof (intro ballI allI impI)
  fix j dj assume j: "j \<in> used_inodes efs d - (X \<union> Y)" and dj: "inode_at efs d j = Some dj"
  then have 1: "inode_at efs d1 j = Some dj" "content dj d1 = content dj d" "tree_blocks dj d1 = tree_blocks dj d"
    using assms(1) by (auto simp: others_kept_def)
  have "j \<in> used_inodes efs d1 - Y"
    using j assms(3) by auto
  then have "inode_at efs d2 j = Some dj" "content dj d2 = content dj d1" "tree_blocks dj d2 = tree_blocks dj d1"
    using assms(2) 1(1) by (auto simp: others_kept_def)
  then show "inode_at efs d2 j = Some dj \<and> content dj d2 = content dj d \<and> tree_blocks dj d2 = tree_blocks dj d"
    using 1(2,3) by simp
qed

lemma others_keptD:
  "others_kept efs X d d' \<Longrightarrow> j \<in> used_inodes efs d \<Longrightarrow> j \<notin> X \<Longrightarrow> inode_at efs d j = Some dj \<Longrightarrow>
    inode_at efs d' j = Some dj \<and> content dj d' = content dj d \<and> tree_blocks dj d' = tree_blocks dj d"
  by (auto simp: others_kept_def)

lemma others_kept_mono: "others_kept efs X d d' \<Longrightarrow> X \<subseteq> Y \<Longrightarrow> others_kept efs Y d d'"
  by (auto simp: others_kept_def)

lemma dir_ok_mono: "dir_ok U di d \<Longrightarrow> U \<subseteq> V \<Longrightarrow> dir_ok V di d"
  by (auto simp: dir_ok_def)

lemma good_parts:
  assumes "inode_good efs nd U di d"
  shows "inode_ok di d" and "is_file di \<Longrightarrow> zero_tail di d" and "is_dir di \<Longrightarrow> dir_ok U di d"
  using assms by (auto simp: inode_good_def)

lemma empty_inode_good:
  assumes "wf_disk d" and "wf_fields di" and "di_size di = 0"
  shows "inode_good efs nd U di d" and "tree_blocks di d = {}" and "content di d = []"
  using assms itree_size_0 [OF assms(3)]
  by (simp_all add: inode_good_def inode_ok_def blocks_ok_def tree_blocks_def zero_tail_def full_content_def
      block_ids_def dir_ok_def dir_entries_def file_count_def content_def)

lemma inode_at_fields:
  assumes "wf_disk d" and "inode_at efs d i = Some di"
  shows "wf_fields di"
proof -
  obtain blk where blk: "d (inode_block efs i) = Some blk"
    "DiskInode_of_bytes (slice (inode_offset i) INODE_SIZE blk) = Some di"
    using assms(2) by (auto simp: inode_at_def)
  then have "length (slice (inode_offset i) INODE_SIZE blk) = INODE_SIZE"
    using wf_diskD [OF assms(1) blk(1)] inode_offset_bound [of i] by simp
  with blk(2) show ?thesis
    by (rule DiskInode_of_bytes_wf)
qed

section \<open>Taking a new inode\<close>

lemma fs_inv_alloc_inode:
  assumes inv: "fs_inv efs nd d" and room: "used_inodes efs d \<noteq> {..<maxmium (inode_bitmap efs)}"
  shows "\<exists>i d1. alloc_inode efs d = Some (i, d1) \<and> i \<notin> used_inodes efs d \<and> i < maxmium (inode_bitmap efs) \<and>
    fs_inv efs nd d1 \<and> used_inodes efs d1 = insert i (used_inodes efs d) \<and> others_kept efs {} d d1 \<and>
    free_blocks efs nd d1 = free_blocks efs nd d"
proof -
  let ?bm = "inode_bitmap efs" and ?U = "used_inodes efs d"
  note D = fs_invD [OF inv]
  obtain r d1 where r: "Bitmap_alloc ?bm d = Some (r, d1)" "alloc_spec ?bm d r d1"
    using Bitmap_alloc_spec [OF fs_inv_bitmaps(1) [OF inv]] by blast
  obtain i where i: "r = Some i" "i < maxmium ?bm" "i \<notin> ?U" "used_inodes efs d1 = insert i ?U"
    using r(2) room by (cases r) (auto simp: alloc_spec_def used_inodes_def)
  have out: "d1 b = d b" if "b \<notin> bitmap_area ?bm" for b
    using r(2) that by (simp add: alloc_spec_def)
  have wfb: "wf_bitmap ?bm d1" and dom: "dom d1 = dom d"
    using r(2) by (simp_all add: alloc_spec_def)
  have wf1: "wf_disk d1"
    by (rule wf_disk_outside [OF D(2) wfb out])
  have al: "allocated efs d1 = allocated efs d"
    using out geometry_areas(3) [OF D(1)] by (intro allocated_cong) blast
  have area: "d1 b = d b" if "b \<in> data_area efs nd" for b
    using out geometry_areas(1) [OF D(1)] that by blast
  have at: "inode_at efs d1 j = inode_at efs d j" if "j < maxmium ?bm" for j
    using out [OF geometryD(2) [OF D(1) that]] by (simp add: inode_at_def)
  have good: "inode_good efs nd (insert i ?U) dj d1 \<and> tree_blocks dj d1 = tree_blocks dj d \<and> content dj d1 = content dj d"
    if j: "j \<in> insert i ?U" and dj: "inode_at efs d j = Some dj" for j dj
  proof (cases "j \<in> ?U")
    case True
    have g: "inode_good efs nd ?U dj d"
      by (rule D(6) [OF True dj])
    then have same: "\<forall>b \<in> tree_blocks dj d. d1 b = d b" and ta: "tree_blocks dj d \<subseteq> allocated efs d1"
      using area al by (auto simp: inode_good_def)
    from inode_good_frame [OF g wf1 same ta] show ?thesis
      using dir_ok_mono [of ?U dj d1 "insert i ?U"] by (auto simp: inode_good_def)
  next
    case False
    then have "di_size dj = 0"
      using D(5) [of j] j i(2,3) dj by auto
    then show ?thesis
      using empty_inode_good [OF wf1 inode_at_fields [OF D(2) dj]]
        empty_inode_good [OF D(2) inode_at_fields [OF D(2) dj]] by simp
  qed
  have "{..<data_area_start_block efs + nd} \<subseteq> dom d1"
    using D(3) dom by simp
  moreover have "free_zero efs nd d1"
    using D(4) area al by (simp add: free_zero_def)
  moreover have "\<forall>j < maxmium ?bm. \<exists>dj. inode_at efs d1 j = Some dj \<and> (j \<notin> insert i ?U \<longrightarrow> di_size dj = 0)"
    using D(5) at by (metis insertCI)
  moreover have "inode_good efs nd (insert i ?U) dj d1" if "j \<in> insert i ?U" "inode_at efs d1 j = Some dj" for j dj
    using good [OF that(1)] at [of j] that i(2) used_inodes_bound by auto
  moreover have "tree_blocks dj d1 \<inter> tree_blocks dk d1 = {}"
    if jk: "j \<in> insert i ?U" "k \<in> insert i ?U" "j \<noteq> k" "inode_at efs d1 j = Some dj" "inode_at efs d1 k = Some dk" for j k dj dk
  proof -
    have a: "inode_at efs d j = Some dj" "inode_at efs d k = Some dk"
      using at [of j] at [of k] jk i(2) used_inodes_bound by auto
    have e: "di_size dx = 0 \<Longrightarrow> inode_at efs d x = Some dx \<Longrightarrow> tree_blocks dx d = {}" for x dx
      using empty_inode_good(2) [OF D(2) inode_at_fields [OF D(2)]] by blast
    have "tree_blocks dj d \<inter> tree_blocks dk d = {}"
    proof (cases "j = i \<or> k = i")
      case True
      then show ?thesis
        using e a D(5) [OF i(2)] i(3) by force
    next
      case False
      then show ?thesis
        using D(7) [of j k dj dk] jk a by auto
    qed
    then show ?thesis
      using good [OF jk(1) a(1)] good [OF jk(2) a(2)] by simp
  qed
  ultimately have "fs_inv efs nd d1"
    unfolding fs_inv_def i(4) using D(1) wf1 by blast
  moreover have "alloc_inode efs d = Some (i, d1)"
    using r(1) i(1,2) D(1) by (simp add: alloc_inode_def geometry_def u32_def)
  moreover have "others_kept efs {} d d1"
    using good at used_inodes_bound by (auto simp: others_kept_def)
  ultimately show ?thesis
    using i(2-4) al by (auto simp: free_blocks_def)
qed

lemma alloc_inode_slot:
  assumes inv: "fs_inv efs nd d" and a: "alloc_inode efs d = Some (i, d1)" and i: "i \<notin> used_inodes efs d"
    "i < maxmium (inode_bitmap efs)"
  shows "\<exists>di. inode_at efs d1 i = Some di \<and> di_size di = 0"
proof -
  note D = fs_invD [OF inv]
  obtain r where r: "Bitmap_alloc (inode_bitmap efs) d = Some (r, d1)" "alloc_spec (inode_bitmap efs) d r d1"
    using Bitmap_alloc_spec [OF fs_inv_bitmaps(1) [OF inv]] a by (auto simp: alloc_inode_def)
  have "inode_at efs d1 i = inode_at efs d i"
    using r(2) geometryD(2) [OF D(1) i(2)] by (simp add: inode_at_def alloc_spec_def)
  then show ?thesis
    using D(5) [OF i(2)] i(1) by auto
qed

section \<open>One locked inode\<close>

lemma fs_modify:
  assumes inv: "fs_inv efs nd d" and i: "i \<in> used_inodes efs d" and di: "inode_at efs d i = Some di"
    and f: "f di (d(inode_block efs i := None)) = Some ((r, di'), d1)"
    and step: "inode_step efs nd di (d(inode_block efs i := None)) di' d1"
    and kind: "is_file di' \<longrightarrow> zero_tail di' d1" "is_dir di' \<longrightarrow> dir_ok (used_inodes efs d) di' d1"
  shows "\<exists>d2. modify_disk_inode (inode_handle efs i) f d = Some (r, d2) \<and> fs_inv efs nd d2 \<and>
    inode_at efs d2 i = Some di' \<and> content di' d2 = content di' d1 \<and> used_inodes efs d2 = used_inodes efs d \<and>
    others_kept efs {i} d d2 \<and> free_blocks efs nd d2 = free_blocks efs nd d1 \<and>
    allocated efs d2 = allocated efs d1 \<and> tree_blocks di' d2 = tree_blocks di' d1"
proof -
  obtain blk where blk: "d (inode_block efs i) = Some blk"
    using di by (auto simp: inode_at_def)
  note S = fs_inv_step [OF inv i di blk step kind refl]
  have "modify_disk_inode (inode_handle efs i) f d = Some (r, put_inode efs i di' blk d1)"
    by (rule modify_disk_inode_eq [OF fs_invD(1) [OF inv] used_inodes_bound [OF i] blk di, of f]) (rule f)
  then show ?thesis
    using S by (auto simp: free_blocks_def)
qed

lemma fs_initialize:
  assumes inv: "fs_inv efs nd d" and i: "i \<in> used_inodes efs d"
    and di: "inode_at efs d i = Some di" "di_size di = 0"
  shows "\<exists>d2 di'. modify_disk_inode (inode_handle efs i) (\<lambda>di d. Some (((), DiskInode_initialize t di), d)) d = Some ((), d2) \<and>
    fs_inv efs nd d2 \<and> inode_at efs d2 i = Some di' \<and> di_size di' = 0 \<and> di_nlink di' = 1 \<and> di_type di' = t \<and>
    used_inodes efs d2 = used_inodes efs d \<and> others_kept efs {i} d d2 \<and> free_blocks efs nd d2 = free_blocks efs nd d"
proof -
  let ?d0 = "d(inode_block efs i := None)" and ?di = "DiskInode_initialize t di"
  note O = fs_inv_own [OF inv i di(1)]
  note W = ownD [OF O(1)]
  have f: "wf_fields ?di" "di_size ?di = 0"
    using W(10) by (simp_all add: DiskInode_initialize_def wf_fields_def)
  note E = empty_inode_good [OF W(8) f] and E0 = empty_inode_good [OF W(8,10) di(2)]
  have "own efs nd ?di ?d0"
    using O(1) E(2) good_parts(1) [OF E(1)] by (simp add: own_def)
  then have step: "inode_step efs nd di ?d0 ?di ?d0"
    using E(2) E0(2) by (simp add: inode_step_def)
  have kind: "is_file ?di \<longrightarrow> zero_tail ?di ?d0" "is_dir ?di \<longrightarrow> dir_ok (used_inodes efs d) ?di ?d0"
    using good_parts(2,3) [OF E(1)] by blast+
  note M = fs_modify [OF inv i di(1), of "\<lambda>di d. Some (((), DiskInode_initialize t di), d)", OF refl step kind]
  show ?thesis
    using M f(2) free_blocks_locked [OF fs_invD(1) [OF inv] used_inodes_bound [OF i]]
    by (auto simp: DiskInode_initialize_def)
qed

lemma fs_append_dirent:
  assumes inv: "fs_inv efs nd d" and p: "p \<in> used_inodes efs d" and dp: "inode_at efs d p = Some dp" "is_dir dp"
    and nm: "name_ok nm" "dir_map dp d nm = None" and i: "i \<in> used_inodes efs d"
    and sz: "di_size dp + DIRENT_SZ \<le> MAX_BLOCKS * BLOCK_SZ"
    and room: "need_blocks dp (di_size dp + DIRENT_SZ) \<le> free_blocks efs nd d"
  shows "\<exists>d2 dp'. modify_disk_inode (inode_handle efs p) (append_dirent efs nm i) d = Some ((), d2) \<and>
    fs_inv efs nd d2 \<and> inode_at efs d2 p = Some dp' \<and> is_dir dp' \<and> di_nlink dp' = di_nlink dp \<and>
    dir_map dp' d2 = (dir_map dp d)(nm \<mapsto> i) \<and> used_inodes efs d2 = used_inodes efs d \<and>
    others_kept efs {p} d d2 \<and> free_blocks efs nd d2 = free_blocks efs nd d - need_blocks dp (di_size dp + DIRENT_SZ)"
proof -
  let ?d0 = "d(inode_block efs p := None)" and ?U = "used_inodes efs d"
  note O = fs_inv_own [OF inv p dp(1)]
  have dir: "dir_ok ?U dp ?d0"
    using good_parts(3) [OF O(6) dp(2)] .
  have i32: "i < 2 ^ 32"
    using used_inodes_bound [OF i] fs_invD(1) [OF inv] by (simp add: geometry_def)
  note fl = free_blocks_locked [OF fs_invD(1) [OF inv] used_inodes_bound [OF p]]
  obtain dp' d1 where a: "append_dirent efs nm i dp ?d0 = Some (((), dp'), d1)" "inode_step efs nd dp ?d0 dp' d1"
    "di_type dp' = di_type dp" "di_nlink dp' = di_nlink dp" "dir_list dp' d1 = dir_list dp ?d0 @ [(nm, i)]"
    "nm \<notin> fst ` set (dir_list dp ?d0) \<longrightarrow> dir_ok ?U dp' d1"
    "free_blocks efs nd d1 = free_blocks efs nd ?d0 - need_blocks dp (di_size dp + DIRENT_SZ)"
    using append_dirent_step [OF O(1) dir nm(1) i32 sz] room i by (auto simp: fl)
  have dl: "dir_list dp ?d0 = dir_list dp d"
    by (rule dir_list_cong [OF O(2)])
  have fresh: "nm \<notin> fst ` set (dir_list dp ?d0)"
    using nm(2) by (simp add: dl dir_map_def map_of_eq_None_iff)
  have k: "is_file dp' \<longrightarrow> zero_tail dp' d1" "is_dir dp' \<longrightarrow> dir_ok ?U dp' d1" "is_dir dp'"
    using a(3,6) dp(2) fresh by (simp_all add: is_file_def is_dir_def)
  obtain d2 where m: "modify_disk_inode (inode_handle efs p) (append_dirent efs nm i) d = Some ((), d2)"
    "fs_inv efs nd d2" "inode_at efs d2 p = Some dp'" "content dp' d2 = content dp' d1"
    "used_inodes efs d2 = ?U" "others_kept efs {p} d d2" "free_blocks efs nd d2 = free_blocks efs nd d1"
    using fs_modify [OF inv p dp(1), of "append_dirent efs nm i", OF a(1,2) k(1,2)] by blast
  have "map_of (dir_list dp' d2) = (map_of (dir_list dp d))(nm \<mapsto> i)"
  proof
    fix x
    show "map_of (dir_list dp' d2) x = ((map_of (dir_list dp d))(nm \<mapsto> i)) x"
      using dir_list_cong [OF m(4)] a(5) nm(2) by (auto simp: dl dir_map_def map_add_def split: option.splits)
  qed
  then show ?thesis
    using m(1-3,5-7) a(4,7) k(3) by (simp add: dir_map_def fl)
qed

section \<open>Path lookup\<close>

fun resolve :: "EasyFileSystem \<Rightarrow> disk \<Rightarrow> bytes list \<Rightarrow> nat \<Rightarrow> nat option" where
  \<comment> \<open>what a path means: a walk through the directories, failing at files and missing names\<close>
  "resolve efs d [] i = Some i"
| "resolve efs d (nm # nms) i =
     (case inode_at efs d i of
        None \<Rightarrow> None
      | Some di \<Rightarrow> if is_dir di then (case dir_map di d nm of None \<Rightarrow> None | Some j \<Rightarrow> resolve efs d nms j) else None)"

lemma fs_lookup:
  assumes inv: "fs_inv efs nd d" and i: "i \<in> used_inodes efs d" and di: "inode_at efs d i = Some di" "is_dir di"
  shows "find_inode_id nm di (d(inode_block efs i := None)) = Some (dir_map di d nm)"
    and "dir_map di d nm = Some j \<Longrightarrow> j \<in> used_inodes efs d"
proof -
  note O = fs_inv_own [OF inv i di(1)]
  have dir: "dir_ok (used_inodes efs d) di (d(inode_block efs i := None))"
    using good_parts(3) [OF O(6) di(2)] .
  have dl: "dir_list di (d(inode_block efs i := None)) = dir_list di d"
    by (rule dir_list_cong [OF O(2)])
  show "find_inode_id nm di (d(inode_block efs i := None)) = Some (dir_map di d nm)"
    using find_inode_id_eq [OF good_parts(1) [OF O(6)] dir di(2)] by (simp add: dir_map_def dl)
  show "dir_map di d nm = Some j \<Longrightarrow> j \<in> used_inodes efs d"
    using dir unfolding dir_map_def dl [symmetric] by (auto simp: dir_list_def dir_ok_def dest!: map_of_SomeD)
qed

lemma find_from_resolve:
  assumes "fs_inv efs nd d" and "i \<in> used_inodes efs d"
  shows "find_from efs nms (inode_handle efs i) d = Some (map_option (inode_handle efs) (resolve efs d nms i))"
  using assms(2)
proof (induction nms arbitrary: i)
  case Nil
  then show ?case by simp
next
  case (Cons nm nms)
  note D = fs_invD [OF assms(1)]
  obtain di blk where di: "inode_at efs d i = Some di"
    using used_inode [OF assms(1) Cons.prems] by metis
  note rd = read_disk_inode_eq [OF D(1) used_inodes_bound [OF Cons.prems] di]
  show ?case
  proof (cases "is_dir di")
    case False
    then have "is_file di"
      by (cases "di_type di") (auto simp: is_file_def is_dir_def)
    then show ?thesis
      using False di by (simp add: rd)
  next
    case True
    then have "\<not> is_file di"
      by (auto simp: is_file_def is_dir_def)
    then show ?thesis
      using True di Cons.IH fs_lookup [OF assms(1) Cons.prems di True]
      by (auto simp: rd split: option.splits)
  qed
qed

section \<open>Fresh directories\<close>

lemma dot_names: "name_ok dot" "name_ok dotdot" "dot \<noteq> dotdot"
  by (simp_all add: name_ok_def dot_def dotdot_def layout_consts)

lemma initialize_dir_step:
  assumes own: "own efs nd di d" and dir: "is_dir di" "di_size di = 0"
    and U: "i \<in> U" "p \<in> U" and b32: "i < 2 ^ 32" "p < 2 ^ 32"
    and room: "need_blocks di (2 * DIRENT_SZ) \<le> free_blocks efs nd d"
  shows "\<exists>di' d'. initialize_dir i p (alloc_data efs) di d = Some (di', d') \<and> inode_step efs nd di d di' d' \<and>
    is_dir di' \<and> di_nlink di' = di_nlink di \<and> dir_list di' d' = [(dot, i), (dotdot, p)] \<and> dir_ok U di' d' \<and>
    di_size di' = 2 * DIRENT_SZ \<and> free_blocks efs nd d' = free_blocks efs nd d - need_blocks di (2 * DIRENT_SZ)"
proof -
  obtain e1 where e1: "DirEntry_new dot i = Some e1" "length (as_bytes e1) = DIRENT_SZ"
    "DirEntry_of_bytes (as_bytes e1) = e1" "DirEntry_name e1 = Some dot" "inode_number e1 = i"
    by (rule name_ok_entry [OF dot_names(1) b32(1)])
  obtain e2 where e2: "DirEntry_new dotdot p = Some e2" "length (as_bytes e2) = DIRENT_SZ"
    "DirEntry_of_bytes (as_bytes e2) = e2" "DirEntry_name e2 = Some dotdot" "inode_number e2 = p"
    by (rule name_ok_entry [OF dot_names(2) b32(2)])
  let ?bs = "as_bytes e1 @ as_bytes e2"
  have len: "length ?bs = 2 * DIRENT_SZ" and ne: "?bs \<noteq> []"
    using e1(2) e2(2) by (auto simp: layout_consts)
  have fit: "di_size di + length ?bs \<le> MAX_BLOCKS * BLOCK_SZ"
    using dir(2) len by (simp add: MAX_BLOCKS_def layout_consts)
  have room': "need_blocks di (di_size di + length ?bs) \<le> free_blocks efs nd d"
    using room dir(2) len by simp
  obtain di1 d1 d2 where r: "Inode_increase_size efs (2 * DIRENT_SZ) di d = Some (di1, d1)"
    "write_at di1 0 ?bs d1 = Some (length ?bs, d2)" "inode_step efs nd di d di1 d2"
    "content di1 d2 = content di d @ ?bs" "di_size di1 = 2 * DIRENT_SZ" "di_type di1 = di_type di"
    "di_nlink di1 = di_nlink di" "free_blocks efs nd d2 = free_blocks efs nd d - need_blocks di (2 * DIRENT_SZ)"
    using append_bytes_step [OF own ne fit room'] unfolding dir(2) len by auto
  have ok1: "inode_ok di1 d2"
    using r(3) by (simp add: inode_step_def own_def)
  have c: "content di1 d2 = ?bs"
    using r(4) dir(2) by (simp add: content_def)
  have "entries_of_bytes (as_bytes e1) = [e1]"
    using entries_append [of "[]" "as_bytes e1"] e1(2,3) by (simp add: entries_of_bytes_def)
  then have E: "dir_entries di1 d2 = [e1, e2]"
    using entries_append [of "as_bytes e1" "as_bytes e2"] e1(2) e2(2,3) c ok1 by (simp add: dir_entries_bytes)
  have ns: "u32 (DIRENT_SZ + DIRENT_SZ) = 2 * DIRENT_SZ" and gt: "\<not> 2 * DIRENT_SZ \<le> di_size di"
    using dir(2) by (simp_all add: u32_def layout_consts)
  have "initialize_dir i p (alloc_data efs) di d = Some (di1, d2)"
    using r(1,2) e1(1) e2(1) dir gt
    by (auto simp: initialize_dir_def Inode_increase_size_def Let_def ns)
  moreover have "dir_list di1 d2 = [(dot, i), (dotdot, p)]"
    using e1(4,5) e2(4,5) by (simp add: dir_list_def E entry_name_def)
  moreover have "dir_ok U di1 d2"
    using e1(4,5) e2(4,5) U r(5) dot_names(3) by (simp add: dir_ok_def E entry_name_def)
  moreover have "is_dir di1"
    using r(6) dir(1) by (simp add: is_dir_def)
  ultimately show ?thesis
    using r(3,5,7,8) by blast
qed

lemma fs_initialize_dir:
  assumes inv: "fs_inv efs nd d" and i: "i \<in> used_inodes efs d" "p \<in> used_inodes efs d"
    and di: "inode_at efs d i = Some di" "is_dir di" "di_size di = 0"
    and room: "need_blocks di (2 * DIRENT_SZ) \<le> free_blocks efs nd d"
  shows "\<exists>d2 di'. modify_disk_inode (inode_handle efs i) (\<lambda>di d. do {
        (di, d) \<leftarrow> initialize_dir i p (alloc_data efs) di d; Some (((), di), d) }) d = Some ((), d2) \<and>
    fs_inv efs nd d2 \<and> inode_at efs d2 i = Some di' \<and> is_dir di' \<and> di_nlink di' = di_nlink di \<and>
    dir_list di' d2 = [(dot, i), (dotdot, p)] \<and> used_inodes efs d2 = used_inodes efs d \<and> others_kept efs {i} d d2"
proof -
  let ?d0 = "d(inode_block efs i := None)" and ?U = "used_inodes efs d"
  let ?f = "\<lambda>di d. do { (di, d) \<leftarrow> initialize_dir i p (alloc_data efs) di d; Some (((), di), d) }"
  note O = fs_inv_own [OF inv i(1) di(1)]
  have b32: "i < 2 ^ 32" "p < 2 ^ 32"
    using used_inodes_bound i fs_invD(1) [OF inv] unfolding geometry_def by fastforce+
  note fl = free_blocks_locked [OF fs_invD(1) [OF inv] used_inodes_bound [OF i(1)]]
  obtain di' d1 where a: "initialize_dir i p (alloc_data efs) di ?d0 = Some (di', d1)" "inode_step efs nd di ?d0 di' d1"
    "is_dir di'" "di_nlink di' = di_nlink di" "dir_list di' d1 = [(dot, i), (dotdot, p)]" "dir_ok ?U di' d1"
    using initialize_dir_step [OF O(1) di(2,3) i b32] room by (auto simp: fl)
  have k: "is_file di' \<longrightarrow> zero_tail di' d1" "is_dir di' \<longrightarrow> dir_ok ?U di' d1"
    using a(3,6) by (auto simp: is_file_def is_dir_def)
  have f: "?f di ?d0 = Some (((), di'), d1)"
    using a(1) by simp
  obtain d2 where m: "modify_disk_inode (inode_handle efs i) ?f d = Some ((), d2)"
    "fs_inv efs nd d2" "inode_at efs d2 i = Some di'" "content di' d2 = content di' d1"
    "used_inodes efs d2 = ?U" "others_kept efs {i} d d2"
    using fs_modify [OF inv i(1) di(1), of ?f, OF f a(2) k] by blast
  have "dir_list di' d2 = [(dot, i), (dotdot, p)]"
    using dir_list_cong [OF m(4)] a(5) by simp
  then show ?thesis
    using m a(3,4) by blast
qed

lemma sample_dir:
  shows "is_dir (sample_empty 1)" and "di_size (sample_empty 1) = 0" and "name_ok [97]"
    and "di_size (sample_empty 1) + DIRENT_SZ \<le> MAX_BLOCKS * BLOCK_SZ"
    and "need_blocks (sample_empty 1) (di_size (sample_empty 1) + DIRENT_SZ) \<le> 1"
    and "dir_map (sample_empty 1) d [97] = None"
    and "0 \<in> used_inodes sample_fs sample_fs_disk" and "1 \<in> used_inodes sample_fs sample_fs_disk"
proof -
  show e: "is_dir (sample_empty 1)" "di_size (sample_empty 1) = 0"
    by (simp_all add: is_dir_def sample_empty_def)
  show "name_ok [97]"
    by (simp add: name_ok_def layout_consts)
  show "di_size (sample_empty 1) + DIRENT_SZ \<le> MAX_BLOCKS * BLOCK_SZ"
    unfolding e by (simp add: MAX_BLOCKS_def layout_consts)
  show "need_blocks (sample_empty 1) (di_size (sample_empty 1) + DIRENT_SZ) \<le> 1"
    unfolding e need_blocks_def data_blocks_def
    by (simp add: tree_total_def data_blocks_of_size_def u32_def layout_consts)
  show "dir_map (sample_empty 1) d [97] = None"
    by (simp add: dir_map_def dir_list_def dir_entries_def file_count_def sample_empty_def)
  show "0 \<in> used_inodes sample_fs sample_fs_disk" "1 \<in> used_inodes sample_fs sample_fs_disk"
    by (simp_all add: sample_bits(1))
qed

section \<open>Properties\<close>

text \<open>
  C6. Path lookup: on a file system in its invariant, \<open>find\<close> never panics, and answers the inode
  that walking the directories from the start along the non-empty components of the path reaches;
  it answers \<open>None\<close> exactly when a component is missing or a file stands in the way.
\<close>

theorem find_follows_path:
  assumes "fs_inv efs nd d" and "i \<in> used_inodes efs d"
  shows "find efs (inode_handle efs i) path d =
    Some (map_option (inode_handle efs) (resolve efs d (filter (\<lambda>s. s \<noteq> []) (split_slash path)) i))"
  using find_from_resolve [OF assms] by (simp add: find_def)

theorem find_follows_path_witness:
  "find sample_fs (inode_handle sample_fs 1) [47, 97, 47] sample_fs_disk = Some None"
proof -
  have "dir_list (sample_empty 1) sample_fs_disk = []"
    by (simp add: dir_list_def dir_entries_def file_count_def sample_empty_def)
  then show ?thesis
    using find_follows_path [OF sample_fs_inv, of 1 "[47, 97, 47]"] sample_inode_at [of 1]
    by (simp add: sample_bits(1) is_dir_def sample_empty_def dir_map_def)
qed

lemma create_existing_name:
  assumes inv: "fs_inv efs nd d" and p: "p \<in> used_inodes efs d" and dp: "inode_at efs d p = Some dp" "is_dir dp"
    and nm: "dir_map dp d nm = Some j"
  shows "create_inode efs (inode_handle efs p) nm t d = Some (None, d)"
  using fs_lookup(1) [OF inv p dp] nm dp(2)
  by (simp add: create_inode_def read_disk_inode_eq [OF fs_invD(1) [OF inv] used_inodes_bound [OF p] dp(1)])

lemma create_effect:
  assumes inv: "fs_inv efs nd d" and p: "p \<in> used_inodes efs d" and dp: "inode_at efs d p = Some dp" "is_dir dp"
    and nm: "name_ok nm" "dir_map dp d nm = None"
    and sz: "di_size dp + DIRENT_SZ \<le> MAX_BLOCKS * BLOCK_SZ"
    and inodes: "used_inodes efs d \<noteq> {..<maxmium (inode_bitmap efs)}"
    and room: "need_blocks dp (di_size dp + DIRENT_SZ) + (if t = Directory then 1 else 0) \<le> free_blocks efs nd d"
  shows "\<exists>i d' dp' di. create_inode efs (inode_handle efs p) nm t d = Some (Some (inode_handle efs i), d') \<and>
    i \<notin> used_inodes efs d \<and> used_inodes efs d' = insert i (used_inodes efs d) \<and> fs_inv efs nd d' \<and>
    inode_at efs d' p = Some dp' \<and> dir_map dp' d' = (dir_map dp d)(nm \<mapsto> i) \<and>
    inode_at efs d' i = Some di \<and> di_type di = t \<and> di_nlink di = 1 \<and>
    (if t = Directory then dir_list di d' = [(dot, i), (dotdot, p)] else content di d' = []) \<and>
    others_kept efs {p} d d' \<and> is_dir dp' \<and>
    (t = File \<longrightarrow> free_blocks efs nd d' = free_blocks efs nd d - need_blocks dp (di_size dp + DIRENT_SZ)) \<and>
    (\<forall>t'. create_inode efs (inode_handle efs p) nm t' d' = Some (None, d'))"
proof -
  let ?U = "used_inodes efs d"
  obtain i d1 where a: "alloc_inode efs d = Some (i, d1)" "i \<notin> ?U" "fs_inv efs nd d1"
    "used_inodes efs d1 = insert i ?U" "others_kept efs {} d d1" "free_blocks efs nd d1 = free_blocks efs nd d"
    "i < maxmium (inode_bitmap efs)"
    using fs_inv_alloc_inode [OF inv inodes] by blast
  have i1: "i \<in> used_inodes efs d1" and p1: "p \<in> used_inodes efs d1" and ip: "i \<noteq> p"
    using a(2,4) p by auto
  obtain d0 where d0: "inode_at efs d1 i = Some d0" "di_size d0 = 0"
    using alloc_inode_slot [OF inv a(1-2,7)] by blast
  obtain d2 di2 where b: "modify_disk_inode (inode_handle efs i) (\<lambda>di d. Some (((), DiskInode_initialize t di), d)) d1 = Some ((), d2)"
    "fs_inv efs nd d2" "inode_at efs d2 i = Some di2" "di_size di2 = 0" "di_nlink di2 = 1" "di_type di2 = t"
    "used_inodes efs d2 = used_inodes efs d1" "others_kept efs {i} d1 d2" "free_blocks efs nd d2 = free_blocks efs nd d1"
    using fs_initialize [OF a(3) i1 d0] by blast
  have k2: "others_kept efs {i} d d2"
    using others_kept_trans [OF a(5) b(8)] a(4) by auto
  have dp2: "inode_at efs d2 p = Some dp" "content dp d2 = content dp d"
    using others_keptD [OF k2 p _ dp(1)] ip by auto
  have p2: "p \<in> used_inodes efs d2" and i2: "i \<in> used_inodes efs d2"
    using p1 i1 b(7) by simp_all
  have nm2: "dir_map dp d2 nm = None" and dm2: "dir_map dp d2 = dir_map dp d"
    using nm(2) dir_map_cong [OF dp2(2)] by simp_all
  have room2: "need_blocks dp (di_size dp + DIRENT_SZ) \<le> free_blocks efs nd d2"
    using room a(6) b(9) by simp
  obtain d3 dp3 where c: "modify_disk_inode (inode_handle efs p) (append_dirent efs nm i) d2 = Some ((), d3)"
    "fs_inv efs nd d3" "inode_at efs d3 p = Some dp3" "is_dir dp3" "dir_map dp3 d3 = (dir_map dp d2)(nm \<mapsto> i)"
    "used_inodes efs d3 = used_inodes efs d2" "others_kept efs {p} d2 d3"
    "free_blocks efs nd d3 = free_blocks efs nd d2 - need_blocks dp (di_size dp + DIRENT_SZ)"
    using fs_append_dirent [OF b(2) p2 dp2(1) dp(2) nm(1) nm2 i2 sz room2] by blast
  have di3: "inode_at efs d3 i = Some di2" "content di2 d3 = content di2 d2"
    using others_keptD [OF c(7) i2 _ b(3)] ip by auto
  have k3: "others_kept efs {p, i} d d3"
    using others_kept_trans [OF k2 c(7)] a(4) b(7) by (auto simp: insert_commute)
  have lk: "read_disk_inode (inode_handle efs p) (\<lambda>di d. do { ensure (is_dir di); find_inode_id nm di d }) d = Some None"
    using fs_lookup(1) [OF inv p dp] nm(2) dp(2)
    by (simp add: read_disk_inode_eq [OF fs_invD(1) [OF inv] used_inodes_bound [OF p] dp(1)])
  have hid: "inode_id (inode_handle efs p) = p"
    by (simp add: inode_handle_eq [OF fs_invD(1) [OF inv] used_inodes_bound [OF p]])
  have U3: "used_inodes efs d3 = insert i ?U"
    using c(6) b(7) a(4) by simp
  have kp: "others_kept efs {p} d d'" if "others_kept efs {p, i} d d'" for d'
    using that a(2) by (auto simp: others_kept_def)
  have again: "\<forall>t'. create_inode efs (inode_handle efs p) nm t' d' = Some (None, d')"
    if "fs_inv efs nd d'" "used_inodes efs d' = insert i ?U" "inode_at efs d' p = Some dp3" "dir_map dp3 d' = (dir_map dp d)(nm \<mapsto> i)" for d'
    using create_existing_name [OF that(1) _ that(3) c(4), of nm i] that(2,4) p by simp
  show ?thesis
  proof (cases "t = Directory")
    case False
    then have "create_inode efs (inode_handle efs p) nm t d = Some (Some (inode_handle efs i), d3)"
      using lk a(1) b(1) c(1) by (simp add: create_inode_def Let_def)
    moreover have "content di2 d3 = []"
      using di3(2) b(4) by (simp add: content_def)
    ultimately show ?thesis
      using False a(2) U3 c(2,3,4,5) di3(1) b(5,6) kp [OF k3] again [OF c(2) U3 c(3)] c(8) b(9) a(6)
      by (intro exI [of _ i] exI [of _ d3] exI [of _ dp3] exI [of _ di2]) (simp add: dm2)
  next
    case True
    have dir2: "is_dir di2"
      using True b(6) by (simp add: is_dir_def)
    have "need_blocks di2 (2 * DIRENT_SZ) \<le> 1"
      using b(4) by (simp add: need_blocks_def tree_total_def data_blocks_of_size_def u32_def layout_consts)
    then have room3: "need_blocks di2 (2 * DIRENT_SZ) \<le> free_blocks efs nd d3"
      using room True c(8) b(9) a(6) by simp
    have i3: "i \<in> used_inodes efs d3" and p3: "p \<in> used_inodes efs d3"
      using U3 p by simp_all
    obtain d4 di4 where e: "modify_disk_inode (inode_handle efs i) (\<lambda>di d. do {
          (di, d) \<leftarrow> initialize_dir i p (alloc_data efs) di d; Some (((), di), d) }) d3 = Some ((), d4)"
      "fs_inv efs nd d4" "inode_at efs d4 i = Some di4" "is_dir di4" "di_nlink di4 = di_nlink di2"
      "dir_list di4 d4 = [(dot, i), (dotdot, p)]" "used_inodes efs d4 = used_inodes efs d3" "others_kept efs {i} d3 d4"
      using fs_initialize_dir [OF c(2) i3 p3 di3(1) dir2 b(4) room3] by blast
    have dp4: "inode_at efs d4 p = Some dp3" "content dp3 d4 = content dp3 d3"
      using others_keptD [OF e(8) p3 _ c(3)] ip by auto
    have "create_inode efs (inode_handle efs p) nm t d = Some (Some (inode_handle efs i), d4)"
      using True lk a(1) b(1) c(1) e(1) by (simp add: create_inode_def Let_def hid)
    moreover have "others_kept efs {p, i} d d4"
      using others_kept_mono [OF others_kept_trans [OF k3 e(8)]] U3 by auto
    moreover have "dir_map dp3 d4 = (dir_map dp d)(nm \<mapsto> i)"
      using dir_map_cong [OF dp4(2)] c(5) by (simp add: dm2)
    ultimately show ?thesis
      using True a(2) U3 c(4) e(2-7) dp4(1) b(5) kp again [OF e(2) _ dp4(1)]
      by (intro exI [of _ i] exI [of _ d4] exI [of _ dp3] exI [of _ di4]) (simp add: is_dir_def)
  qed
qed

text \<open>
  C3. Creating a file or a directory with a new valid name, when an inode and the blocks are free:
  the call returns a handle on an inode that was not in use, the parent directory maps the name to
  it and all other names as before, a new file is empty, a new directory holds \<open>.\<close> and \<open>..\<close>,
  every other inode keeps its contents, and the file-system invariant holds. Creating the same name
  again answers \<open>None\<close> and changes nothing.
\<close>

theorem create_adds_entry:
  assumes inv: "fs_inv efs nd d" and p: "p \<in> used_inodes efs d" and dp: "inode_at efs d p = Some dp" "is_dir dp"
    and nm: "name_ok nm" "dir_map dp d nm = None"
    and sz: "di_size dp + DIRENT_SZ \<le> MAX_BLOCKS * BLOCK_SZ"
    and inodes: "used_inodes efs d \<noteq> {..<maxmium (inode_bitmap efs)}"
    and room: "need_blocks dp (di_size dp + DIRENT_SZ) + (if t = Directory then 1 else 0) \<le> free_blocks efs nd d"
  shows "\<exists>i d' dp' di. create_inode efs (inode_handle efs p) nm t d = Some (Some (inode_handle efs i), d') \<and>
    i \<notin> used_inodes efs d \<and> used_inodes efs d' = insert i (used_inodes efs d) \<and> fs_inv efs nd d' \<and>
    inode_at efs d' p = Some dp' \<and> dir_map dp' d' = (dir_map dp d)(nm \<mapsto> i) \<and>
    inode_at efs d' i = Some di \<and> di_type di = t \<and> di_nlink di = 1 \<and>
    (if t = Directory then dir_list di d' = [(dot, i), (dotdot, p)] else content di d' = []) \<and>
    others_kept efs {p} d d' \<and>
    (\<forall>t'. create_inode efs (inode_handle efs p) nm t' d' = Some (None, d'))"
  using create_effect [OF assms] by blast

theorem create_adds_entry_witness:
  "\<exists>i d' dp'. create_inode sample_fs (inode_handle sample_fs 1) [97] Directory sample_fs_disk =
      Some (Some (inode_handle sample_fs i), d') \<and> fs_inv sample_fs 3 d' \<and>
    inode_at sample_fs d' 1 = Some dp' \<and> dir_map dp' d' [97] = Some i"
proof -
  have mx: "maxmium (inode_bitmap sample_fs) = 4096"
    by (simp add: sample_fs_def Bitmap_new_def maxmium_def BLOCK_BITS_def BLOCK_SZ_def)
  then have "2 \<in> {..<maxmium (inode_bitmap sample_fs)} - used_inodes sample_fs sample_fs_disk"
    by (simp add: sample_bits(1))
  then have full: "used_inodes sample_fs sample_fs_disk \<noteq> {..<maxmium (inode_bitmap sample_fs)}"
    by blast
  have at: "inode_at sample_fs sample_fs_disk 1 = Some (sample_empty 1)"
    by (simp add: sample_inode_at)
  have room: "need_blocks (sample_empty 1) (di_size (sample_empty 1) + DIRENT_SZ) +
      (if Directory = Directory then 1 else 0) \<le> free_blocks sample_fs 3 sample_fs_disk"
    unfolding sample_free using sample_dir(5) by simp
  from create_adds_entry [OF sample_fs_inv sample_dir(8) at sample_dir(1,3,6,4) full room]
  obtain i d' dp' where "create_inode sample_fs (inode_handle sample_fs 1) [97] Directory sample_fs_disk =
      Some (Some (inode_handle sample_fs i), d')" "fs_inv sample_fs 3 d'" "inode_at sample_fs d' 1 = Some dp'"
    "dir_map dp' d' = (dir_map (sample_empty 1) sample_fs_disk)([97] \<mapsto> i)"
    by blast
  then show ?thesis
    by (intro exI [of _ i] exI [of _ d'] exI [of _ dp']) simp
qed

lemma fs_set_nlink:
  assumes inv: "fs_inv efs nd d" and j: "j \<in> used_inodes efs d" and dj: "inode_at efs d j = Some dj"
    and n: "n < 2 ^ 32" and f: "f dj (d(inode_block efs j := None)) = Some ((r, dj\<lparr>di_nlink := n\<rparr>), d(inode_block efs j := None))"
  shows "\<exists>d2. modify_disk_inode (inode_handle efs j) f d = Some (r, d2) \<and> fs_inv efs nd d2 \<and>
    inode_at efs d2 j = Some (dj\<lparr>di_nlink := n\<rparr>) \<and> content (dj\<lparr>di_nlink := n\<rparr>) d2 = content dj d \<and>
    used_inodes efs d2 = used_inodes efs d \<and> others_kept efs {j} d d2 \<and>
    allocated efs d2 = allocated efs d \<and> tree_blocks (dj\<lparr>di_nlink := n\<rparr>) d2 = tree_blocks dj d"
proof -
  let ?d0 = "d(inode_block efs j := None)" and ?dj = "dj\<lparr>di_nlink := n\<rparr>"
  note O = fs_inv_own [OF inv j dj]
  note N = nlink_step [OF O(1) n refl]
  have k: "is_file ?dj \<longrightarrow> zero_tail ?dj ?d0" "is_dir ?dj \<longrightarrow> dir_ok (used_inodes efs d) ?dj ?d0"
    using good_parts(2,3) [OF O(6)] N(3,4) by (auto simp: is_file_def is_dir_def)
  show ?thesis
    using fs_modify [OF inv j dj, of f, OF f N(1) k] N(2,5) O(2,3) allocated_del_inode [OF fs_invD(1) [OF inv] used_inodes_bound [OF j]] by auto
qed

lemma content_nlink: "content (di\<lparr>di_nlink := n\<rparr>) d = content di d"
  by (simp add: content_def full_content_def block_ids_def itree_def data_blocks_def inode_tree_def indirect1_tree_def)

lemma dir_map_nlink: "dir_map (di\<lparr>di_nlink := n\<rparr>) d = dir_map di d"
  by (simp add: dir_map_def dir_list_def dir_entries_def content_nlink file_count_def)

text \<open>
  C5. A hard link with a new valid name: the directory maps the name to the inode of the source and
  all other names as before, the source's link count goes up by one (modulo the width of the field)
  while its contents stay, every other inode keeps its contents and the invariant holds.
\<close>

theorem link_adds_entry:
  assumes inv: "fs_inv efs nd d" and p: "p \<in> used_inodes efs d" and dp: "inode_at efs d p = Some dp" "is_dir dp"
    and nm: "name_ok nm" "dir_map dp d nm = None"
    and j: "j \<in> used_inodes efs d" "j \<noteq> p" "inode_at efs d j = Some dj"
    and sz: "di_size dp + DIRENT_SZ \<le> MAX_BLOCKS * BLOCK_SZ"
    and room: "need_blocks dp (di_size dp + DIRENT_SZ) \<le> free_blocks efs nd d"
  shows "\<exists>d' dp' dj'. link efs (inode_handle efs p) nm (inode_handle efs j) d = Some (Some (inode_handle efs j), d') \<and>
    fs_inv efs nd d' \<and> used_inodes efs d' = used_inodes efs d \<and>
    inode_at efs d' p = Some dp' \<and> dir_map dp' d' = (dir_map dp d)(nm \<mapsto> j) \<and>
    inode_at efs d' j = Some dj' \<and> di_nlink dj' = (di_nlink dj + 1) mod 2 ^ 32 \<and> content dj' d' = content dj d \<and>
    others_kept efs {p, j} d d'"
proof -
  note D = fs_invD [OF inv]
  obtain d1 dp1 where a: "modify_disk_inode (inode_handle efs p) (append_dirent efs nm j) d = Some ((), d1)"
    "fs_inv efs nd d1" "inode_at efs d1 p = Some dp1" "dir_map dp1 d1 = (dir_map dp d)(nm \<mapsto> j)"
    "used_inodes efs d1 = used_inodes efs d" "others_kept efs {p} d d1"
    using fs_append_dirent [OF inv p dp nm j(1) sz room] by blast
  have dj1: "inode_at efs d1 j = Some dj" "content dj d1 = content dj d"
    using others_keptD [OF a(6) j(1) _ j(3)] j(2) by auto
  have j1: "j \<in> used_inodes efs d1" and p1: "p \<in> used_inodes efs d1"
    using a(5) j(1) p by simp_all
  let ?n = "u32 (di_nlink dj + 1)" and ?f = "\<lambda>di d. Some (((), di\<lparr>di_nlink := u32 (di_nlink di + 1)\<rparr>), d)"
  obtain d2 where b: "modify_disk_inode (inode_handle efs j) ?f d1 = Some ((), d2)" "fs_inv efs nd d2"
    "inode_at efs d2 j = Some (dj\<lparr>di_nlink := ?n\<rparr>)" "content (dj\<lparr>di_nlink := ?n\<rparr>) d2 = content dj d1"
    "used_inodes efs d2 = used_inodes efs d1" "others_kept efs {j} d1 d2"
    using fs_set_nlink [OF a(2) j1 dj1(1) u32_less, of ?f "()" "di_nlink dj + 1"] by fastforce
  have dp2: "inode_at efs d2 p = Some dp1" "content dp1 d2 = content dp1 d1"
    using others_keptD [OF b(6) p1 _ a(3)] j(2) by auto
  have lk: "read_disk_inode (inode_handle efs p) (\<lambda>di d. do { ensure (is_dir di); find_inode_id nm di d }) d = Some None"
    using fs_lookup(1) [OF inv p dp] nm(2) dp(2)
    by (simp add: read_disk_inode_eq [OF D(1) used_inodes_bound [OF p] dp(1)])
  have hid: "inode_id (inode_handle efs j) = j"
    by (simp add: inode_handle_eq [OF D(1) used_inodes_bound [OF j(1)]])
  have "link efs (inode_handle efs p) nm (inode_handle efs j) d = Some (Some (inode_handle efs j), d2)"
    using lk a(1) b(1) by (simp add: link_def hid)
  moreover have "others_kept efs {p, j} d d2"
    using others_kept_mono [OF others_kept_trans [OF a(6) b(6)]] a(5) by auto
  ultimately show ?thesis
    using b(2-5) a(4,5) dp2 dj1(2) dir_map_cong [OF dp2(2)]
    by (intro exI [of _ d2] exI [of _ dp1] exI [of _ "dj\<lparr>di_nlink := ?n\<rparr>"]) (simp add: u32_def)
qed

theorem link_adds_entry_witness:
  "\<exists>d' dp'. link sample_fs (inode_handle sample_fs 1) [97] (inode_handle sample_fs 0) sample_fs_disk =
      Some (Some (inode_handle sample_fs 0), d') \<and> fs_inv sample_fs 3 d' \<and>
    inode_at sample_fs d' 1 = Some dp' \<and> dir_map dp' d' [97] = Some 0"
proof -
  have room: "need_blocks (sample_empty 1) (di_size (sample_empty 1) + DIRENT_SZ) \<le> free_blocks sample_fs 3 sample_fs_disk"
    unfolding sample_free using sample_dir(5) by simp
  have at: "inode_at sample_fs sample_fs_disk 1 = Some (sample_empty 1)"
    "inode_at sample_fs sample_fs_disk 0 = Some (sample_empty 0)"
    by (simp_all add: sample_inode_at)
  have ne: "(0::nat) \<noteq> 1"
    by simp
  from link_adds_entry [OF sample_fs_inv sample_dir(8) at(1) sample_dir(1,3,6) sample_dir(7) ne at(2) sample_dir(4) room]
  obtain d' dp' where "link sample_fs (inode_handle sample_fs 1) [97] (inode_handle sample_fs 0) sample_fs_disk =
      Some (Some (inode_handle sample_fs 0), d')" "fs_inv sample_fs 3 d'" "inode_at sample_fs d' 1 = Some dp'"
    "dir_map dp' d' = (dir_map (sample_empty 1) sample_fs_disk)([97] \<mapsto> 0)"
    by blast
  then show ?thesis
    by (intro exI [of _ d'] exI [of _ dp']) simp
qed

text \<open>
  C4. Removing a name from a directory whose entry refers to another inode: the call answers
  \<open>true\<close>, the directory forgets exactly that name, and the link count of the inode goes down by one.
  While links remain its contents and the set of allocated blocks are kept; with the last link the inode becomes empty and exactly the
  blocks of its tree, data and index blocks, are given back to the bitmap. Every other inode keeps its contents and its blocks and the
  invariant holds.
\<close>

theorem unlink_removes_entry:
  assumes inv: "fs_inv efs nd d" and p: "p \<in> used_inodes efs d" and dp: "inode_at efs d p = Some dp" "is_dir dp"
    and nm: "dir_map dp d nm = Some j" and j: "j \<noteq> p" "inode_at efs d j = Some dj" "0 < di_nlink dj"
  shows "\<exists>d' dp' dj'. unlink efs (inode_handle efs p) nm d = Some (True, d') \<and>
    fs_inv efs nd d' \<and> used_inodes efs d' = used_inodes efs d \<and>
    inode_at efs d' p = Some dp' \<and> dir_map dp' d' = (dir_map dp d)(nm := None) \<and>
    inode_at efs d' j = Some dj' \<and> di_nlink dj' = di_nlink dj - 1 \<and>
    content dj' d' = (if di_nlink dj = 1 then [] else content dj d) \<and>
    allocated efs d' = (if di_nlink dj = 1 then allocated efs d - tree_blocks dj d else allocated efs d) \<and>
    tree_blocks dj' d' = (if di_nlink dj = 1 then {} else tree_blocks dj d) \<and> others_kept efs {p, j} d d'"
proof -
  note D = fs_invD [OF inv]
  let ?d0 = "d(inode_block efs p := None)" and ?U = "used_inodes efs d"
  note O = fs_inv_own [OF inv p dp(1)]
  have dir: "dir_ok ?U dp ?d0"
    using good_parts(3) [OF O(6) dp(2)] .
  have dl: "dir_list dp ?d0 = dir_list dp d"
    by (rule dir_list_cong [OF O(2)])
  have ju: "j \<in> ?U"
    using fs_lookup(2) [OF inv p dp nm] .
  have found: "map_of (dir_list dp ?d0) nm = Some j"
    using nm by (simp add: dir_map_def dl)
  obtain dp1 d1 where r: "remove_dirent efs nm dp ?d0 = Some ((Some (inode_handle efs j), dp1), d1)"
    "inode_step efs nd dp ?d0 dp1 d1" "di_type dp1 = di_type dp"
    "map_of (dir_list dp1 d1) = (map_of (dir_list dp ?d0))(nm := None)" "dir_ok ?U dp1 d1" "allocated efs d1 = allocated efs ?d0"
    using remove_dirent_step [OF O(1) dir dp(2) found] by blast
  have k: "is_file dp1 \<longrightarrow> zero_tail dp1 d1" "is_dir dp1 \<longrightarrow> dir_ok ?U dp1 d1"
    using r(3,5) dp(2) by (simp_all add: is_file_def is_dir_def)
  obtain d2 where a: "modify_disk_inode (inode_handle efs p) (remove_dirent efs nm) d = Some (Some (inode_handle efs j), d2)"
    "fs_inv efs nd d2" "inode_at efs d2 p = Some dp1" "content dp1 d2 = content dp1 d1"
    "used_inodes efs d2 = ?U" "others_kept efs {p} d d2" "allocated efs d2 = allocated efs d1"
    using fs_modify [OF inv p dp(1), of "remove_dirent efs nm", OF r(1,2) k] by blast
  have dm2: "dir_map dp1 d2 = (dir_map dp d)(nm := None)"
    using dir_list_cong [OF a(4)] r(4) by (simp add: dir_map_def dl)
  have dj2: "inode_at efs d2 j = Some dj" "content dj d2 = content dj d" "tree_blocks dj d2 = tree_blocks dj d"
    using others_keptD [OF a(6) ju _ j(2)] j(1) by auto
  have al2: "allocated efs d2 = allocated efs d"
    using a(7) r(6) allocated_del_inode [OF D(1) used_inodes_bound [OF p]] by simp
  have ju2: "j \<in> used_inodes efs d2" and p2: "p \<in> used_inodes efs d2"
    using a(5) ju p by simp_all
  let ?f = "\<lambda>di d. let n = u32_sub (di_nlink di) 1 in Some ((n, di\<lparr>di_nlink := n\<rparr>), d)"
  have w: "di_nlink dj < 2 ^ 32"
    using inode_at_fields [OF D(2) j(2)] by (simp add: wf_fields_def)
  have n: "u32_sub (di_nlink dj) 1 = di_nlink dj - 1"
    using j(3) w by (intro u32_sub_id) simp_all
  let ?dj = "dj\<lparr>di_nlink := di_nlink dj - 1\<rparr>"
  obtain d3 where b: "modify_disk_inode (inode_handle efs j) ?f d2 = Some (di_nlink dj - 1, d3)" "fs_inv efs nd d3"
    "inode_at efs d3 j = Some ?dj" "content ?dj d3 = content dj d2"
    "used_inodes efs d3 = used_inodes efs d2" "others_kept efs {j} d2 d3"
    "allocated efs d3 = allocated efs d2" "tree_blocks ?dj d3 = tree_blocks dj d2"
  proof -
    have "?f dj (d2(inode_block efs j := None)) = Some ((di_nlink dj - 1, ?dj), d2(inode_block efs j := None))"
      unfolding Let_def n by simp
    moreover have "di_nlink dj - 1 < 2 ^ 32"
      using w by simp
    ultimately show ?thesis
      using fs_set_nlink [OF a(2) ju2 dj2(1), of "di_nlink dj - 1" ?f] that by blast
  qed
  have dp3: "inode_at efs d3 p = Some dp1" "content dp1 d3 = content dp1 d2"
    using others_keptD [OF b(6) p2 _ a(3)] j(1) by auto
  have k3: "others_kept efs {p, j} d d3"
    using others_kept_mono [OF others_kept_trans [OF a(6) b(6)]] a(5) by auto
  show ?thesis
  proof (cases "di_nlink dj = 1")
    case False
    then have "unlink efs (inode_handle efs p) nm d = Some (True, d3)"
      using a(1) b(1) j(3) by (simp add: unlink_def)
    then show ?thesis
      using False b(2-5,7,8) a(5) dp3 dm2 dir_map_cong [OF dp3(2)] dj2(2,3) al2 k3
      by (intro exI [of _ d3] exI [of _ dp1] exI [of _ ?dj]) simp
  next
    case True
    have ju3: "j \<in> used_inodes efs d3" and p3: "p \<in> used_inodes efs d3"
      using b(5) ju2 p2 by simp_all
    obtain d4 dj4 where c: "clear_locked efs (inode_handle efs j) d3 = Some d4" "fs_inv efs nd d4"
      "inode_at efs d4 j = Some dj4" "content dj4 d4 = []" "di_nlink dj4 = di_nlink ?dj"
      "used_inodes efs d4 = used_inodes efs d3" "others_kept efs {j} d3 d4"
      "di_size dj4 = 0" "allocated efs d4 = allocated efs d3 - tree_blocks ?dj d3"
      using clear_locked_effect [OF b(2) ju3 b(3)] by blast
    have dp4: "inode_at efs d4 p = Some dp1" "content dp1 d4 = content dp1 d3"
      using others_keptD [OF c(7) p3 _ dp3(1)] j(1) by auto
    have "unlink efs (inode_handle efs p) nm d = Some (True, d4)"
      using a(1) b(1) c(1) True by (simp add: unlink_def)
    moreover have "others_kept efs {p, j} d d4"
      using others_kept_mono [OF others_kept_trans [OF k3 c(7)]] a(5) b(5) by auto
    moreover have "tree_blocks dj4 d4 = {}"
      using itree_size_0 [OF c(8)] by (simp add: tree_blocks_def)
    ultimately show ?thesis
      using True c(2-6,9) b(5,7,8) a(5) al2 dj2(3) dp4 dm2 dir_map_cong [OF dp4(2)] dir_map_cong [OF dp3(2)]
      by (intro exI [of _ d4] exI [of _ dp1] exI [of _ dj4]) simp
  qed
qed

theorem unlink_removes_entry_witness:
  "\<exists>d d' dp'. unlink sample_fs (inode_handle sample_fs 1) [97] d = Some (True, d') \<and> fs_inv sample_fs 3 d \<and>
    fs_inv sample_fs 3 d' \<and> inode_at sample_fs d' 1 = Some dp' \<and> dir_map dp' d' [97] = None"
proof -
  have at: "inode_at sample_fs sample_fs_disk 1 = Some (sample_empty 1)"
    "inode_at sample_fs sample_fs_disk 0 = Some (sample_empty 0)"
    by (simp_all add: sample_inode_at)
  have room: "need_blocks (sample_empty 1) (di_size (sample_empty 1) + DIRENT_SZ) \<le> free_blocks sample_fs 3 sample_fs_disk"
    unfolding sample_free using sample_dir(5) by simp
  obtain d1 dp1 where a: "fs_inv sample_fs 3 d1" "inode_at sample_fs d1 1 = Some dp1" "is_dir dp1"
    "dir_map dp1 d1 = (dir_map (sample_empty 1) sample_fs_disk)([97] \<mapsto> 0)"
    "used_inodes sample_fs d1 = used_inodes sample_fs sample_fs_disk" "others_kept sample_fs {1} sample_fs_disk d1"
    using fs_append_dirent [OF sample_fs_inv sample_dir(8) at(1) sample_dir(1,3,6,7,4) room] by blast
  have d0: "inode_at sample_fs d1 0 = Some (sample_empty 0)"
    using others_keptD [OF a(6) sample_dir(7) _ at(2)] by simp
  have u: "0 \<in> used_inodes sample_fs d1" "1 \<in> used_inodes sample_fs d1"
    using a(5) sample_dir(7,8) by simp_all
  let ?f = "\<lambda>di d. Some (((), di\<lparr>di_nlink := 1\<rparr>), d)"
  obtain d2 where b: "fs_inv sample_fs 3 d2" "inode_at sample_fs d2 0 = Some ((sample_empty 0)\<lparr>di_nlink := 1\<rparr>)"
    "used_inodes sample_fs d2 = used_inodes sample_fs d1" "others_kept sample_fs {0} d1 d2"
    using fs_set_nlink [OF a(1) u(1) d0, of 1 ?f] by auto
  have p2: "inode_at sample_fs d2 1 = Some dp1" "content dp1 d2 = content dp1 d1"
    using others_keptD [OF b(4) u(2) _ a(2)] by auto
  have "dir_map dp1 d2 [97] = Some 0"
    using dir_map_cong [OF p2(2)] a(4) by simp
  moreover have "1 \<in> used_inodes sample_fs d2" "(0::nat) \<noteq> 1" "0 < di_nlink ((sample_empty 0)\<lparr>di_nlink := 1\<rparr>)"
    using b(3) u(2) by simp_all
  ultimately obtain d' dp' where "unlink sample_fs (inode_handle sample_fs 1) [97] d2 = Some (True, d')" "fs_inv sample_fs 3 d'"
    "inode_at sample_fs d' 1 = Some dp'" "dir_map dp' d' = (dir_map dp1 d2)([97] := None)"
    using unlink_removes_entry [OF b(1) _ p2(1) a(3) _ _ b(2)] by blast
  then show ?thesis
    using b(1) by (intro exI [of _ d2] exI [of _ d'] exI [of _ dp']) simp
qed

end
