(* ===== verification/Mkfs.thy ===== *)
theory Mkfs
  imports VfsDirs
begin

text \<open>
  Formatting a device (\<^verbatim>\<open>EasyFileSystem::create\<close>) establishes the invariant of the file system, with
  a root directory that holds \<open>.\<close> and \<open>..\<close>, and \<^verbatim>\<open>EasyFileSystem::open\<close> reads the same
  layout back from the super block.
\<close>

section \<open>Sizes\<close>

definition mkfs_sizes :: "nat \<Rightarrow> nat \<Rightarrow> bool" where
  \<comment> \<open>room for the super block, the inode bitmaps with their inodes, a data bitmap and a data block\<close>
  "mkfs_sizes tb ibb \<longleftrightarrow> 0 < ibb \<and> ibb \<le> 2 ^ 20 \<and> 1025 * ibb + 3 \<le> tb \<and> tb + 4096 \<le> 2 ^ 32"

definition mkfs_data :: "nat \<Rightarrow> nat \<Rightarrow> nat" where
  "mkfs_data tb ibb = tb - 1 - 1025 * ibb"

definition mkfs_bitmap :: "nat \<Rightarrow> nat \<Rightarrow> nat" where
  "mkfs_bitmap tb ibb = (mkfs_data tb ibb + 4096) div 4097"

lemma mkfs_bitmap_bounds:
  assumes "mkfs_sizes tb ibb"
  shows "mkfs_data tb ibb \<le> 4097 * mkfs_bitmap tb ibb" and "mkfs_bitmap tb ibb < mkfs_data tb ibb"
    and "0 < mkfs_bitmap tb ibb"
proof -
  have "2 \<le> mkfs_data tb ibb"
    using assms unfolding mkfs_sizes_def mkfs_data_def by linarith
  moreover have "4097 * mkfs_bitmap tb ibb \<le> mkfs_data tb ibb + 4096"
    "mkfs_data tb ibb + 4096 < 4097 * mkfs_bitmap tb ibb + 4097"
    using div_mult_mod_eq [of "mkfs_data tb ibb + 4096" 4097] mod_less_divisor [of 4097 "mkfs_data tb ibb + 4096"]
    unfolding mkfs_bitmap_def by linarith+
  ultimately show "mkfs_data tb ibb \<le> 4097 * mkfs_bitmap tb ibb" "mkfs_bitmap tb ibb < mkfs_data tb ibb"
    "0 < mkfs_bitmap tb ibb"
    by linarith+
qed

lemma efs_layout_eq:
  assumes "mkfs_sizes tb ibb"
  defines "dt \<equiv> mkfs_data tb ibb" and "dbb \<equiv> mkfs_bitmap tb ibb"
  shows "efs_layout tb ibb = (SuperBlock_initialize tb ibb (1024 * ibb) dbb (dt - dbb),
    \<lparr>inode_bitmap = Bitmap_new 1 ibb, data_bitmap = Bitmap_new (1 + 1025 * ibb) dbb,
     inode_area_start_block = 1 + ibb, data_area_start_block = 1 + 1025 * ibb + dbb\<rparr>)"
proof -
  have s: "0 < ibb" "1025 * ibb + 3 \<le> tb" "tb + 4096 \<le> 2 ^ 32" "ibb \<le> 2 ^ 20"
    using assms(1) by (simp_all add: mkfs_sizes_def)
  have iab: "(4096 * ibb * INODE_SIZE + BLOCK_SZ - 1) div BLOCK_SZ = 1024 * ibb"
  proof -
    have "4096 * ibb * INODE_SIZE + BLOCK_SZ - 1 = (1024 * ibb) * 512 + 511"
      unfolding INODE_SIZE_def BLOCK_SZ_def by simp
    moreover have "((1024 * ibb) * 512 + 511) div 512 = 1024 * ibb"
      by (rule div_block) simp
    ultimately show ?thesis
      by (simp only: BLOCK_SZ_def)
  qed
  have mx: "maxmium (Bitmap_new 1 ibb) = 4096 * ibb"
    by (simp add: maxmium_def Bitmap_new_def BLOCK_BITS_def BLOCK_SZ_def)
  have u: "u32 (1024 * ibb) = 1024 * ibb" "u32 (ibb + 1024 * ibb) = 1025 * ibb" "u32_sub tb 1 = tb - 1"
    "u32_sub (tb - 1) (1025 * ibb) = dt" "u32 (dt + 4096) = dt + 4096" "u32 (1 + ibb) = 1 + ibb"
    using s by (simp_all add: width_simps dt_def mkfs_data_def)
  have b: "dbb \<le> dt" "dt < 2 ^ 32" "u32 (1 + 1025 * ibb + dbb) = 1 + 1025 * ibb + dbb"
    using mkfs_bitmap_bounds(2) [OF assms(1)] s by (simp_all add: dt_def dbb_def width_simps mkfs_data_def)
  show ?thesis
    unfolding efs_layout_def Let_def mx iab u b(3)
    using b by (simp add: dbb_def mkfs_bitmap_def dt_def [symmetric] u32_sub_id b(3) [unfolded dbb_def mkfs_bitmap_def, folded dt_def])
qed

lemma mkfs_geometry:
  assumes "mkfs_sizes tb ibb" and "efs_layout tb ibb = (sb, efs)"
  defines "nd \<equiv> mkfs_data tb ibb - mkfs_bitmap tb ibb"
  shows "geometry efs nd" and "data_area_start_block efs + nd = tb" and "0 < nd"
    and "maxmium (inode_bitmap efs) = 4096 * ibb"
proof -
  note B = mkfs_bitmap_bounds [OF assms(1)]
  have s: "0 < ibb" "1025 * ibb + 3 \<le> tb" "tb + 4096 \<le> 2 ^ 32" "ibb \<le> 2 ^ 20"
    using assms(1) by (simp_all add: mkfs_sizes_def)
  have dt: "mkfs_data tb ibb = tb - 1 - 1025 * ibb"
    by (simp add: mkfs_data_def)
  have e: "efs = \<lparr>inode_bitmap = Bitmap_new 1 ibb, data_bitmap = Bitmap_new (1 + 1025 * ibb) (mkfs_bitmap tb ibb),
     inode_area_start_block = 1 + ibb, data_area_start_block = 1 + 1025 * ibb + mkfs_bitmap tb ibb\<rparr>"
    using assms(2) efs_layout_eq [OF assms(1)] by simp
  show tot: "data_area_start_block efs + nd = tb" and "0 < nd"
    using s B(2) by (simp_all add: e nd_def dt)
  show mx: "maxmium (inode_bitmap efs) = 4096 * ibb"
    by (simp add: e maxmium_def Bitmap_new_def BLOCK_BITS_def BLOCK_SZ_def)
  have "maxmium (data_bitmap efs) = 4096 * mkfs_bitmap tb ibb"
    by (simp add: e maxmium_def Bitmap_new_def BLOCK_BITS_def BLOCK_SZ_def)
  then have "nd \<le> maxmium (data_bitmap efs)"
    using B(1) by (simp add: nd_def)
  moreover have "1 + ibb + 4096 * ibb div 4 \<le> 1 + 1025 * ibb"
    by simp
  ultimately show "geometry efs nd"
    unfolding geometry_def mx tot using s by (simp add: e Bitmap_new_def INODES_PER_BLOCK_eq)
qed

section \<open>A blank disk\<close>

lemma clear_blocks_eq:
  assumes "set bs \<subseteq> dom d"
  shows "clear_blocks bs d = Some (\<lambda>b. if b \<in> set bs then Some (replicate BLOCK_SZ 0) else d b)"
  using assms
proof (induction bs arbitrary: d)
  case Nil
  then show ?case by simp
next
  case (Cons b bs)
  then obtain blk where "d b = Some blk"
    by auto
  moreover have "set bs \<subseteq> dom (d(b \<mapsto> replicate BLOCK_SZ 0))"
    using Cons.prems by auto
  ultimately have "clear_blocks (b # bs) d = Some (\<lambda>x. if x \<in> set bs then Some (replicate BLOCK_SZ 0) else (d(b \<mapsto> replicate BLOCK_SZ 0)) x)"
    using Cons.IH by (simp only: clear_blocks.simps with_block_def Option.bind.simps prod.case fun_upd_upd)
  then show ?case
    by (auto simp: fun_eq_iff)
qed

lemma zero_block_inode: "DiskInode_of_bytes (slice (inode_offset i) INODE_SIZE (replicate BLOCK_SZ 0)) = Some (sample_empty 0)"
proof -
  have "min INODE_SIZE (BLOCK_SZ - inode_offset i) = INODE_SIZE"
    using inode_offset_bound [of i] by linarith
  then have "slice (inode_offset i) INODE_SIZE (replicate BLOCK_SZ 0) = replicate INODE_SIZE (0 :: byte)"
    by (simp add: slice_def)
  moreover have "u32_at k (replicate INODE_SIZE 0) = 0" if "k < 31" for k
    using that by (intro u32_at_zeros [of 124]) (simp_all add: INODE_SIZE_def)
  moreover from this have "map (\<lambda>k. u32_at (3 + k) (replicate INODE_SIZE 0)) [0..<INODE_DIRECT_COUNT] = replicate 26 0"
    by (intro nth_equalityI) (simp_all add: layout_consts)
  ultimately show ?thesis
    by (simp add: DiskInode_of_bytes_def sample_empty_def INODE_SIZE_def)
qed

lemma zero_bitmap: "\<forall>b \<in> bitmap_area bm. d b = Some (replicate BLOCK_SZ 0) \<Longrightarrow> bitmap_used bm d = {}"
proof -
  assume z: "\<forall>b \<in> bitmap_area bm. d b = Some (replicate BLOCK_SZ 0)"
  have g: "get_u64 (replicate BLOCK_SZ 0) k = 0" for k
    by (simp add: get_u64_def slice_def le_nat_zeros)
  have "\<not> bitmap_bit bm d i" for i
    using z by (auto simp: bitmap_bit_def maxmium_div bitmap_area_def block_bit_def g)
  then show ?thesis
    by (simp add: bitmap_used_def)
qed

lemma blank_fs_inv:
  assumes g: "geometry efs nd" and wf: "wf_disk d" and dom0: "0 \<in> dom d"
    and z: "\<forall>b. 0 < b \<and> b < data_area_start_block efs + nd \<longrightarrow> d b = Some (replicate BLOCK_SZ 0)"
  shows "fs_inv efs nd d" and "used_inodes efs d = {}" and "allocated efs d = {}"
    and "\<forall>i < maxmium (inode_bitmap efs). inode_at efs d i = Some (sample_empty 0)"
proof -
  show U: "used_inodes efs d = {}"
    unfolding used_inodes_def using g z by (intro zero_bitmap) (auto simp: bitmap_area_def geometry_def)
  show A: "allocated efs d = {}"
    unfolding allocated_def using g z by (subst zero_bitmap) (auto simp: bitmap_area_def geometry_def)
  show at: "\<forall>i < maxmium (inode_bitmap efs). inode_at efs d i = Some (sample_empty 0)"
  proof (intro allI impI)
    fix i assume i: "i < maxmium (inode_bitmap efs)"
    have "0 < inode_block efs i" "inode_block efs i < data_area_start_block efs + nd"
      using g geometryD(1) [OF g i] by (auto simp: geometry_def)
    then show "inode_at efs d i = Some (sample_empty 0)"
      using z zero_block_inode by (simp add: inode_at_def)
  qed
  have "{..<data_area_start_block efs + nd} \<subseteq> dom d"
  proof
    fix b assume "b \<in> {..<data_area_start_block efs + nd}"
    then show "b \<in> dom d"
      using z dom0 by (cases "b = 0") auto
  qed
  moreover have "free_zero efs nd d"
    using z g by (auto simp: free_zero_def data_area_def geometry_def)
  ultimately show "fs_inv efs nd d"
    using g wf at U by (auto simp: fs_inv_def sample_empty_def)
qed


section \<open>Formatting and opening\<close>

lemma mkfs_root:
  assumes inv: "fs_inv efs nd d" and i: "i \<in> used_inodes efs d"
    and di: "inode_at efs d i = Some di" "di_size di = 0"
    and room: "need_blocks (DiskInode_initialize Directory di) (2 * DIRENT_SZ) \<le> free_blocks efs nd d"
  shows "\<exists>d2 di'. modify_disk_inode (inode_handle efs i) (\<lambda>di d. do {
        (di', d') \<leftarrow> initialize_dir i i (alloc_data efs) (DiskInode_initialize Directory di) d;
        Some (((), di'), d') }) d = Some ((), d2) \<and>
    fs_inv efs nd d2 \<and> inode_at efs d2 i = Some di' \<and> is_dir di' \<and> di_nlink di' = 1 \<and>
    dir_list di' d2 = [(dot, i), (dotdot, i)] \<and> used_inodes efs d2 = used_inodes efs d \<and> d2 0 = d 0 \<and>
    di_size di' = 2 * DIRENT_SZ \<and> free_blocks efs nd d2 = free_blocks efs nd d - need_blocks (DiskInode_initialize Directory di) (2 * DIRENT_SZ)"
proof -
  let ?d0 = "d(inode_block efs i := None)" and ?di = "DiskInode_initialize Directory di" and ?U = "used_inodes efs d"
  let ?f = "\<lambda>di d. do { (di', d') \<leftarrow> initialize_dir i i (alloc_data efs) (DiskInode_initialize Directory di) d;
    Some (((), di'), d') }"
  note D = fs_invD [OF inv]
  note O = fs_inv_own [OF inv i di(1)]
  note W = ownD [OF O(1)]
  have f: "wf_fields ?di" "di_size ?di = 0" "is_dir ?di"
    using W(10) by (simp_all add: DiskInode_initialize_def wf_fields_def is_dir_def)
  note E = empty_inode_good [OF W(8) f(1,2)] and E0 = empty_inode_good [OF W(8,10) di(2)]
  have own: "own efs nd ?di ?d0"
    using O(1) E(2) good_parts(1) [OF E(1)] by (simp add: own_def)
  then have step0: "inode_step efs nd di ?d0 ?di ?d0"
    using E(2) E0(2) by (simp add: inode_step_def)
  have b32: "i < 2 ^ 32"
    using used_inodes_bound [OF i] D(1) unfolding geometry_def by fastforce
  obtain di' d1 where a: "initialize_dir i i (alloc_data efs) ?di ?d0 = Some (di', d1)" "inode_step efs nd ?di ?d0 di' d1"
    "is_dir di'" "di_nlink di' = di_nlink ?di" "dir_list di' d1 = [(dot, i), (dotdot, i)]" "dir_ok ?U di' d1"
    "di_size di' = 2 * DIRENT_SZ" "free_blocks efs nd d1 = free_blocks efs nd d - need_blocks ?di (2 * DIRENT_SZ)"
    using initialize_dir_step [OF own f(3,2) i i b32 b32] room
    by (auto simp: free_blocks_locked [OF D(1) used_inodes_bound [OF i]])
  note step = inode_step_trans [OF step0 a(2)]
  have k: "is_file di' \<longrightarrow> zero_tail di' d1" "is_dir di' \<longrightarrow> dir_ok ?U di' d1"
    using a(3,6) by (auto simp: is_file_def is_dir_def)
  obtain blk where blk: "d (inode_block efs i) = Some blk"
    using di by (auto simp: inode_at_def)
  let ?d2 = "put_inode efs i di' blk d1"
  note S = fs_inv_step [OF inv i di(1) blk step k refl]
  have m: "modify_disk_inode (inode_handle efs i) ?f d = Some ((), ?d2)"
    by (rule modify_disk_inode_eq [OF D(1) used_inodes_bound [OF i] blk di(1)]) (simp add: a(1))
  have "d1 0 = ?d0 0"
    using step D(1) by (auto simp: inode_step_def bitmap_area_def data_area_def geometry_def)
  then have "?d2 0 = d 0"
    using D(1) by (auto simp: put_inode_def geometry_def)
  moreover have "dir_list di' ?d2 = [(dot, i), (dotdot, i)]"
    using dir_list_cong [OF S(3)] a(5) by simp
  moreover have "free_blocks efs nd ?d2 = free_blocks efs nd d1"
    by (simp add: free_blocks_def S(6))
  ultimately show ?thesis
    using m S(1,2,4) a(3,4,7,8) by (intro exI [of _ ?d2] exI [of _ di']) (simp add: DiskInode_initialize_def)
qed

lemma first_inode:
  assumes inv: "fs_inv efs nd d" and U: "used_inodes efs d = {}" and m: "0 < maxmium (inode_bitmap efs)"
  shows "\<exists>d1. alloc_inode efs d = Some (0, d1) \<and> fs_inv efs nd d1 \<and> used_inodes efs d1 = {0} \<and>
    free_blocks efs nd d1 = free_blocks efs nd d \<and> d1 0 = d 0"
proof -
  obtain i d1 where a: "alloc_inode efs d = Some (i, d1)" "fs_inv efs nd d1" "i < maxmium (inode_bitmap efs)"
    "used_inodes efs d1 = insert i (used_inodes efs d)" "free_blocks efs nd d1 = free_blocks efs nd d"
    using fs_inv_alloc_inode [OF inv] U m by auto
  obtain r where r: "Bitmap_alloc (inode_bitmap efs) d = Some (r, d1)" "alloc_spec (inode_bitmap efs) d r d1"
    using Bitmap_alloc_spec [OF fs_inv_bitmaps(1) [OF inv]] a(1) by (auto simp: alloc_inode_def)
  have "r = Some 0"
    using r(2) U m by (cases r) (auto simp: alloc_spec_def used_inodes_def)
  then have "i = 0"
    using a(1) r(1) by (simp add: alloc_inode_def u32_def)
  moreover have "d1 0 = d 0"
    using r(2) fs_invD(1) [OF inv] by (simp add: alloc_spec_def bitmap_area_def geometry_def)
  ultimately show ?thesis
    using a U by auto
qed

lemma mkfs_super:
  assumes "mkfs_sizes tb ibb" and "efs_layout tb ibb = (sb, efs)" and "d 0 = Some (splice 0 (SuperBlock_to_bytes sb) (replicate BLOCK_SZ 0))"
  shows "open_fs d = Some efs"
proof -
  note L = efs_layout_eq [OF assms(1)]
  have s: "0 < ibb" "1025 * ibb + 3 \<le> tb" "tb + 4096 \<le> 2 ^ 32"
    using assms(1) by (simp_all add: mkfs_sizes_def)
  have b: "mkfs_bitmap tb ibb < mkfs_data tb ibb" "mkfs_data tb ibb = tb - 1 - 1025 * ibb"
    using mkfs_bitmap_bounds(2) [OF assms(1)] by (simp_all add: mkfs_data_def)
  let ?rest = "drop (length (SuperBlock_to_bytes sb)) (replicate BLOCK_SZ 0)"
  have sb: "sb = SuperBlock_initialize tb ibb (1024 * ibb) (mkfs_bitmap tb ibb) (mkfs_data tb ibb - mkfs_bitmap tb ibb)"
    using assms(2) L by simp
  have e: "efs = \<lparr>inode_bitmap = Bitmap_new 1 ibb, data_bitmap = Bitmap_new (1 + 1025 * ibb) (mkfs_bitmap tb ibb),
     inode_area_start_block = 1 + ibb, data_area_start_block = 1 + 1025 * ibb + mkfs_bitmap tb ibb\<rparr>"
    using assms(2) L by simp
  have w: "tb < 2 ^ 32" "ibb < 2 ^ 32" "1024 * ibb < 2 ^ 32" "mkfs_bitmap tb ibb < 2 ^ 32" "mkfs_data tb ibb < 2 ^ 32"
    "1 + 1025 * ibb + mkfs_bitmap tb ibb < 2 ^ 32" "ibb + 1024 * ibb < 2 ^ 32" "1 + ibb < 2 ^ 32"
    using s b by linarith+
  have "SuperBlock_of_bytes (SuperBlock_to_bytes sb @ ?rest) = sb"
    using w by (intro SuperBlock_of_to_bytes) (simp_all add: sb SuperBlock_initialize_def EFS_MAGIC_def)
  then have "SuperBlock_of_bytes (splice 0 (SuperBlock_to_bytes sb) (replicate BLOCK_SZ 0)) = sb"
    by (simp add: splice_def)
  moreover have "u32 (ibb + 1024 * ibb) = 1025 * ibb" "u32 (1 + ibb) = 1 + ibb"
    "u32 (1 + 1025 * ibb + mkfs_bitmap tb ibb) = 1 + 1025 * ibb + mkfs_bitmap tb ibb"
    using w by (simp_all only: u32_id)
  ultimately show ?thesis
    using assms(3) unfolding open_fs_def peek_block_def
    by (simp only: Option.bind.simps Let_def ensure_bind) (simp add: sb is_valid_def SuperBlock_initialize_def e)
qed

lemma mkfs_effect:
  assumes sizes: "mkfs_sizes tb ibb" and wf: "wf_disk d" and dev: "{..<tb} \<subseteq> dom d"
  shows "\<exists>efs d' nd root. create tb ibb d = Some (efs, d') \<and> fs_inv efs nd d' \<and>
    data_area_start_block efs + nd = tb \<and> used_inodes efs d' = {0} \<and>
    inode_at efs d' 0 = Some root \<and> is_dir root \<and> dir_list root d' = [(dot, 0), (dotdot, 0)] \<and> open_fs d' = Some efs \<and>
    di_size root = 2 * DIRENT_SZ \<and> nd \<le> free_blocks efs nd d' + 1 \<and> nd = mkfs_data tb ibb - mkfs_bitmap tb ibb \<and>
    maxmium (inode_bitmap efs) = 4096 * ibb"
proof -
  obtain sb efs where L: "efs_layout tb ibb = (sb, efs)"
    by (cases "efs_layout tb ibb")
  let ?nd = "mkfs_data tb ibb - mkfs_bitmap tb ibb"
  note G = mkfs_geometry [OF sizes L]
  define z where "z = (\<lambda>b. if b \<in> {..<tb} then Some (replicate BLOCK_SZ 0) else d b)"
  let ?s = "splice 0 (SuperBlock_to_bytes sb) (replicate BLOCK_SZ 0)"
  let ?d0 = "z(0 \<mapsto> ?s)"
  have tb: "0 < tb"
    using sizes by (simp add: mkfs_sizes_def)
  have clear: "clear_blocks [0..<tb] d = Some z"
    using clear_blocks_eq [of "[0..<tb]" d] dev by (simp add: atLeast0LessThan z_def)
  have ls: "length ?s = BLOCK_SZ"
    by (simp add: SuperBlock_to_bytes_def BLOCK_SZ_def)
  have wf0: "wf_disk ?d0"
    using wf ls by (intro wf_disk_upd wf_diskI) (auto simp: z_def dest: wf_diskD split: if_splits)
  have zero: "\<forall>b. 0 < b \<and> b < data_area_start_block efs + ?nd \<longrightarrow> ?d0 b = Some (replicate BLOCK_SZ 0)"
    using G(2) by (simp add: z_def)
  have dom0: "0 \<in> dom ?d0"
    by simp
  note B = blank_fs_inv [OF G(1) wf0 dom0 zero]
  have m: "0 < maxmium (inode_bitmap efs)"
    using G(4) sizes by (simp add: mkfs_sizes_def)
  obtain d1 where a: "alloc_inode efs ?d0 = Some (0, d1)" "fs_inv efs ?nd d1" "used_inodes efs d1 = {0}"
    "free_blocks efs ?nd d1 = free_blocks efs ?nd ?d0" "d1 0 = ?d0 0"
    using first_inode [OF B(1,2) m] by blast
  have "0 \<notin> used_inodes efs ?d0"
    unfolding B(2) by simp
  then obtain di where di: "inode_at efs d1 0 = Some di" "di_size di = 0"
    using alloc_inode_slot [OF B(1) a(1) _ m] by blast
  have "free_blocks efs ?nd ?d0 = ?nd"
    unfolding free_blocks_def B(3) by (simp add: data_area_def)
  then have f1: "free_blocks efs ?nd d1 = ?nd"
    unfolding a(4) .
  moreover have need: "need_blocks (DiskInode_initialize Directory di) (2 * DIRENT_SZ) \<le> 1"
    by (simp add: need_blocks_def tree_total_def data_blocks_of_size_def u32_def layout_consts DiskInode_initialize_def)
  ultimately have room: "need_blocks (DiskInode_initialize Directory di) (2 * DIRENT_SZ) \<le> free_blocks efs ?nd d1"
    using G(3) by simp
  have u0: "0 \<in> used_inodes efs d1"
    using a(3) by simp
  obtain d2 root where r: "modify_disk_inode (inode_handle efs 0) (\<lambda>di d. do {
        (di', d') \<leftarrow> initialize_dir 0 0 (alloc_data efs) (DiskInode_initialize Directory di) d;
        Some (((), di'), d') }) d1 = Some ((), d2)" "fs_inv efs ?nd d2" "inode_at efs d2 0 = Some root" "is_dir root"
    "dir_list root d2 = [(dot, 0), (dotdot, 0)]" "used_inodes efs d2 = used_inodes efs d1" "d2 0 = d1 0"
    "di_size root = 2 * DIRENT_SZ" "free_blocks efs ?nd d2 = free_blocks efs ?nd d1 - need_blocks (DiskInode_initialize Directory di) (2 * DIRENT_SZ)"
    using mkfs_root [OF a(2) u0 di room] by blast
  have fr: "?nd \<le> free_blocks efs ?nd d2 + 1"
    using need by (simp add: r(9) f1)
  have z0: "z 0 = Some (replicate BLOCK_SZ 0)"
    using tb by (simp add: z_def)
  have pos: "get_disk_inode_pos efs 0 = (inode_area_start_block efs, 0)"
    using geometryD(5) [OF G(1) m] by (simp add: get_disk_inode_pos_def Let_def u32_def)
  have w0: "with_block 0 (\<lambda>blk d. Some (((), splice 0 (SuperBlock_to_bytes sb) blk), d)) z = Some ((), ?d0)"
    by (simp add: with_block_def z0)
  have "create tb ibb d = Some (efs, d2)"
    using r(1) a(1) clear w0
    by (simp add: create_def L pos modify_disk_inode_def inode_handle_eq [OF G(1) m])
  moreover have "open_fs d2 = Some efs"
    using a(5) r(7) by (intro mkfs_super [OF sizes L]) simp
  ultimately show ?thesis
    using r(2-6,8) a(3) G(2,4) fr by (intro exI [of _ efs] exI [of _ d2] exI [of _ ?nd] exI [of _ root]) simp
qed

text \<open>
  C7. Formatting: on a device whose blocks are all present, for every size that leaves room for the
  areas, \<open>create\<close> returns a file system in its invariant whose only inode is the root directory,
  holding \<open>.\<close> and \<open>..\<close>; the data area ends with the device, and opening the device
  afterwards gives the same layout.
\<close>

theorem create_establishes_fs:
  assumes sizes: "mkfs_sizes tb ibb" and wf: "wf_disk d" and dev: "{..<tb} \<subseteq> dom d"
  shows "\<exists>efs d' nd root. create tb ibb d = Some (efs, d') \<and> fs_inv efs nd d' \<and>
    data_area_start_block efs + nd = tb \<and> used_inodes efs d' = {0} \<and>
    inode_at efs d' 0 = Some root \<and> is_dir root \<and> dir_list root d' = [(dot, 0), (dotdot, 0)] \<and> open_fs d' = Some efs"
  using mkfs_effect [OF assms] by blast

theorem create_establishes_fs_witness:
  "\<exists>efs d' root. create 1030 1 (\<lambda>b. if b < 1030 then Some (replicate BLOCK_SZ 5) else None) = Some (efs, d') \<and>
    inode_at efs d' 0 = Some root \<and> is_dir root \<and> open_fs d' = Some efs"
proof -
  have "mkfs_sizes 1030 1"
    by (simp add: mkfs_sizes_def)
  moreover have "wf_disk (\<lambda>b. if b < 1030 then Some (replicate BLOCK_SZ 5) else None)"
    by (rule wf_diskI) (auto split: if_splits)
  moreover have "{..<1030} \<subseteq> dom (\<lambda>b. if b < (1030 :: nat) then Some (replicate BLOCK_SZ (5 :: byte)) else None)"
    by (auto split: if_splits)
  ultimately show ?thesis
    using create_establishes_fs by blast
qed

end
