(* ===== verification/Address.thy ===== *)
theory Address
  imports Prelude
begin

text \<open>
  Addresses and page numbers of the Sv39 scheme (\<^verbatim>\<open>os/src/mm/address.rs\<close>). The four newtypes around
  \<open>usize\<close> are natural numbers; masks and shifts are the bit operations of the source, and
  sums and left shifts are reduced modulo the width by \<open>usize\<close>.
\<close>

type_synonym PhysAddr = nat
type_synonym VirtAddr = nat
type_synonym PhysPageNum = nat
type_synonym VirtPageNum = nat

section \<open>Constants\<close>

definition PAGE_SIZE :: nat where "PAGE_SIZE = 0x1000"
definition PAGE_SIZE_BITS :: nat where "PAGE_SIZE_BITS = 12"
definition PA_WIDTH_SV39 :: nat where "PA_WIDTH_SV39 = 56"
definition VA_WIDTH_SV39 :: nat where "VA_WIDTH_SV39 = 39"
definition PPN_WIDTH_SV39 :: nat where "PPN_WIDTH_SV39 = PA_WIDTH_SV39 - PAGE_SIZE_BITS"
definition VPN_WIDTH_SV39 :: nat where "VPN_WIDTH_SV39 = VA_WIDTH_SV39 - PAGE_SIZE_BITS"
definition PA_MASK :: nat where "PA_MASK = push_bit PA_WIDTH_SV39 1 - 1"
definition VA_MASK :: nat where "VA_MASK = push_bit VA_WIDTH_SV39 1 - 1"
definition PPN_MASK :: nat where "PPN_MASK = push_bit PPN_WIDTH_SV39 1 - 1"
definition VPN_MASK :: nat where "VPN_MASK = push_bit VPN_WIDTH_SV39 1 - 1"
definition PG_OFS_MASK :: nat where "PG_OFS_MASK = PAGE_SIZE - 1"
definition TRAMPOLINE :: nat where "TRAMPOLINE = 2 ^ 64 - 1 - PAGE_SIZE + 1"
definition TRAP_CONTEXT :: nat where "TRAP_CONTEXT = TRAMPOLINE - PAGE_SIZE"

section \<open>Conversions\<close>

definition PhysAddr_from :: "nat \<Rightarrow> PhysAddr" where "PhysAddr_from v = v AND PA_MASK"
definition PhysPageNum_from :: "nat \<Rightarrow> PhysPageNum" where "PhysPageNum_from v = v AND PPN_MASK"
definition VirtAddr_from :: "nat \<Rightarrow> VirtAddr" where "VirtAddr_from v = v AND VA_MASK"
definition VirtPageNum_from :: "nat \<Rightarrow> VirtPageNum" where "VirtPageNum_from v = v AND VPN_MASK"

definition page_offset :: "nat \<Rightarrow> nat" where
  \<comment> \<open>the same for physical and virtual addresses, as are the next two\<close>
  "page_offset a = a AND PG_OFS_MASK"

definition addr_floor :: "nat \<Rightarrow> nat" where
  "addr_floor a = a div PAGE_SIZE"

definition addr_ceil :: "nat \<Rightarrow> nat" where
  "addr_ceil a = usize (a + PAGE_SIZE - 1) div PAGE_SIZE"

definition aligned :: "VirtAddr \<Rightarrow> bool" where
  "aligned va \<longleftrightarrow> page_offset va = 0"

definition page_addr :: "nat \<Rightarrow> nat" where
  \<comment> \<open>\<open>From<PhysPageNum> for PhysAddr\<close> and \<open>From<VirtPageNum> for VirtAddr\<close>\<close>
  "page_addr pn = usize (push_bit PAGE_SIZE_BITS pn)"

definition addr_page :: "nat \<Rightarrow> nat option" where
  \<comment> \<open>\<open>From<PhysAddr> for PhysPageNum\<close> and \<open>From<VirtAddr> for VirtPageNum\<close>: only aligned addresses\<close>
  "addr_page a = do { ensure (page_offset a = 0); Some (addr_floor a) }"

fun indexes_loop :: "nat \<Rightarrow> nat \<Rightarrow> nat list" where
  \<comment> \<open>\<open>for i in (0..n).rev() { idx[i] = vpn & 0x1ff; vpn >>= 9; }\<close>\<close>
  "indexes_loop 0 vpn = []"
| "indexes_loop (Suc n) vpn = indexes_loop n (drop_bit 9 vpn) @ [vpn AND 0x1ff]"

definition indexes :: "VirtPageNum \<Rightarrow> nat list" where
  "indexes vpn = indexes_loop 3 vpn"

definition step :: "nat \<Rightarrow> nat" where
  "step pn = usize (pn + 1)"

section \<open>Ranges of page numbers\<close>

record SimpleRange =
  range_l :: nat
  range_r :: nat

type_synonym VPNRange = SimpleRange

definition SimpleRange_new :: "nat \<Rightarrow> nat \<Rightarrow> SimpleRange option" where
  "SimpleRange_new s e = do { ensure (s \<le> e); Some \<lparr>range_l = s, range_r = e\<rparr> }"

definition range_contains :: "SimpleRange \<Rightarrow> nat \<Rightarrow> bool" where
  "range_contains rg v \<longleftrightarrow> range_l rg \<le> v \<and> v < range_r rg"

definition overlap_with :: "SimpleRange \<Rightarrow> SimpleRange \<Rightarrow> bool" where
  "overlap_with a b \<longleftrightarrow> (let other_l = step (range_l b); self_l = step (range_l a)
     in other_l \<le> range_r a \<and> self_l \<le> range_r b)"

type_synonym SimpleRangeIterator = "nat \<times> nat" \<comment> \<open>\<open>current\<close> and \<open>end\<close>\<close>

fun range_next :: "SimpleRangeIterator \<Rightarrow> (nat \<times> SimpleRangeIterator) option" where
  "range_next (current, fin) = (if current = fin then None else Some (current, (step current, fin)))"

fun range_drain :: "nat \<Rightarrow> SimpleRangeIterator \<Rightarrow> nat list \<times> SimpleRangeIterator" where
  \<comment> \<open>what a \<open>for\<close> loop over the iterator sees in at most \<open>n\<close> rounds\<close>
  "range_drain 0 it = ([], it)"
| "range_drain (Suc n) it = (case range_next it of None \<Rightarrow> ([], it)
     | Some (v, it') \<Rightarrow> let (vs, it'') = range_drain n it' in (v # vs, it''))"

definition range_pages :: "SimpleRange \<Rightarrow> nat list" where
  \<comment> \<open>the rounds of \<open>for vpn in range\<close>; \<open>range_drain_all\<close> shows that the iterator ends with them\<close>
  "range_pages rg = fst (range_drain (range_r rg - range_l rg) (range_l rg, range_r rg))"

section \<open>Lemmas\<close>

lemmas page_consts = PAGE_SIZE_def PAGE_SIZE_BITS_def PA_WIDTH_SV39_def VA_WIDTH_SV39_def PPN_WIDTH_SV39_def
  VPN_WIDTH_SV39_def

lemma and_mask_mod: "(n :: nat) AND (2 ^ k - 1) = n mod 2 ^ k"
proof -
  have "n AND (2 ^ k - 1) = n AND mask k"
    by (simp add: mask_eq_exp_minus_1)
  then show ?thesis
    by (simp add: take_bit_eq_mask [symmetric] take_bit_eq_mod)
qed

lemma PhysAddr_from_mod: "PhysAddr_from v = v mod 2 ^ 56"
  unfolding PhysAddr_from_def PA_MASK_def page_consts push_bit_eq_mult mult_1 by (rule and_mask_mod)

lemma VirtAddr_from_mod: "VirtAddr_from v = v mod 2 ^ 39"
  unfolding VirtAddr_from_def VA_MASK_def page_consts push_bit_eq_mult mult_1 by (rule and_mask_mod)

lemma PhysPageNum_from_mod: "PhysPageNum_from v = v mod 2 ^ 44"
  using and_mask_mod [of v 44] by (simp add: PhysPageNum_from_def PPN_MASK_def page_consts push_bit_eq_mult)

lemma VirtPageNum_from_mod: "VirtPageNum_from v = v mod 2 ^ 27"
  using and_mask_mod [of v 27] by (simp add: VirtPageNum_from_def VPN_MASK_def page_consts push_bit_eq_mult)

lemma page_offset_mod: "page_offset a = a mod 4096"
  using and_mask_mod [of a 12] by (simp add: page_offset_def PG_OFS_MASK_def page_consts)

lemma addr_floor_div: "addr_floor a = a div 4096"
  by (simp add: addr_floor_def PAGE_SIZE_def)

lemma page_addr_mult: "pn < 2 ^ 52 \<Longrightarrow> page_addr pn = pn * 4096"
  by (simp add: page_addr_def page_consts push_bit_eq_mult usize_def)

lemma addr_split: "addr_floor a * 4096 + page_offset a = a"
  by (simp add: addr_floor_div page_offset_mod)

lemma page_offset_less: "page_offset a < PAGE_SIZE"
  by (simp add: page_offset_mod PAGE_SIZE_def)

lemma addr_page_page_addr: "pn < 2 ^ 52 \<Longrightarrow> addr_page (page_addr pn) = Some pn"
  by (simp add: addr_page_def page_addr_mult page_offset_mod addr_floor_div)

lemma page_addr_addr_page: "a < 2 ^ 64 \<Longrightarrow> addr_page a = Some pn \<Longrightarrow> page_addr pn = a"
  using addr_split [of a] by (auto simp: addr_page_def page_addr_def page_consts push_bit_eq_mult usize_def addr_floor_div
      split: if_splits)

lemma addr_ceil_bounds:
  assumes "a + 4095 < 2 ^ 64"
  shows "a \<le> addr_ceil a * 4096" and "addr_ceil a * 4096 < a + 4096"
proof -
  have e: "addr_ceil a = (a + 4095) div 4096"
    using assms by (simp add: addr_ceil_def PAGE_SIZE_def usize_def)
  show "a \<le> addr_ceil a * 4096" "addr_ceil a * 4096 < a + 4096"
    using div_mult_mod_eq [of "a + 4095" 4096] mod_less_divisor [of 4096 "a + 4095"] unfolding e by linarith+
qed

lemma indexes_eq: "indexes vpn = [vpn div 2 ^ 18 mod 512, vpn div 2 ^ 9 mod 512, vpn mod 512]"
proof -
  have m: "v AND 511 = v mod 512" for v :: nat
    using and_mask_mod [of v 9] by simp
  have "indexes vpn = [drop_bit 9 (drop_bit 9 vpn) AND 511, drop_bit 9 vpn AND 511, vpn AND 511]"
    by (simp add: indexes_def numeral_3_eq_3)
  then show ?thesis
    by (simp add: m drop_bit_eq_div div_mult2_eq [symmetric])
qed

lemma indexes_length [simp]: "length (indexes vpn) = 3"
  by (simp add: indexes_eq)

lemma indexes_bound: "i \<in> set (indexes vpn) \<Longrightarrow> i < 512"
  by (auto simp: indexes_eq)

lemma numeral_pow_512: "(2 :: nat) ^ 18 = 262144" "(2 :: nat) ^ 9 = 512"
  by simp_all

lemma indexes_inj:
  assumes "indexes v = indexes w" and "v < 2 ^ 27" and "w < 2 ^ 27"
  shows "v = w"
proof -
  have d: "(v div 2 ^ 18 mod 512) * 2 ^ 18 + (v div 2 ^ 9 mod 512) * 2 ^ 9 + v mod 512 = v" if "v < 2 ^ 27" for v :: nat
  proof -
    have "v div 2 ^ 18 < 512"
      using that by (simp add: div_less_iff_less_mult)
    then have "v div 2 ^ 18 mod 512 = v div 512 div 512"
      by (simp add: div_mult2_eq [symmetric])
    moreover have "v div 512 div 512 * 512 + v div 512 mod 512 = v div 512" "v div 512 * 512 + v mod 512 = v"
      by (rule div_mult_mod_eq)+
    ultimately show ?thesis
      by (simp only: numeral_pow_512)
  qed
  have e: "v div 2 ^ 18 mod 512 = w div 2 ^ 18 mod 512" "v div 2 ^ 9 mod 512 = w div 2 ^ 9 mod 512" "v mod 512 = w mod 512"
    using assms(1) unfolding indexes_eq list.inject by blast+
  show ?thesis
    by (rule trans [OF d [OF assms(2), symmetric, unfolded e] d [OF assms(3)]])
qed

lemma range_drain_eq:
  assumes "l \<le> r" and "r < 2 ^ 64"
  shows "range_drain (r - l) (l, r) = ([l..<r], (r, r))"
  using assms
proof (induction "r - l" arbitrary: l)
  case 0
  then show ?case by simp
next
  case (Suc n)
  then have n: "n = r - Suc l" and l: "Suc l \<le> r"
    by auto
  have "step l = Suc l"
    using l Suc.prems(2) by (simp add: step_def usize_def)
  then have "range_drain (Suc n) (l, r) = ([l..<r], (r, r))"
    using Suc.hyps(1) [OF n l Suc.prems(2)] l by (simp add: n [symmetric] upt_conv_Cons)
  then show ?case
    using Suc.hyps(2) by simp
qed

lemma range_pages_eq: "range_l rg \<le> range_r rg \<Longrightarrow> range_r rg < 2 ^ 64 \<Longrightarrow> range_pages rg = [range_l rg..<range_r rg]"
  by (simp add: range_pages_def range_drain_eq)

lemma range_pages_set: "range_l rg \<le> range_r rg \<Longrightarrow> range_r rg < 2 ^ 64 \<Longrightarrow> set (range_pages rg) = {v. range_contains rg v}"
  by (auto simp: range_pages_eq range_contains_def)


section \<open>Properties\<close>

text \<open>
  Page numbers and addresses convert back and forth without loss: an aligned address is the
  address of its page, a page number below the width of the shift is the page of its address, an
  address is its page's address plus its offset, rounding up gives the least page boundary at or
  above the address, and two page numbers of the Sv39 width with the same three table indexes are
  equal. An address that is not aligned is refused.
\<close>

theorem address_round_trip:
  "(a < 2 ^ 64 \<and> page_offset a = 0 \<longrightarrow> addr_page a = Some (addr_floor a) \<and> page_addr (addr_floor a) = a) \<and>
   (page_offset a \<noteq> 0 \<longrightarrow> addr_page a = None) \<and>
   (pn < 2 ^ 52 \<longrightarrow> addr_page (page_addr pn) = Some pn) \<and>
   (a < 2 ^ 64 \<longrightarrow> page_addr (addr_floor a) + page_offset a = a) \<and>
   (a + 4095 < 2 ^ 64 \<longrightarrow> (\<forall>b. b mod PAGE_SIZE = 0 \<and> a \<le> b \<longleftrightarrow> b mod PAGE_SIZE = 0 \<and> page_addr (addr_ceil a) \<le> b)) \<and>
   (v < 2 ^ 27 \<and> w < 2 ^ 27 \<and> indexes v = indexes w \<longrightarrow> v = w)"
proof -
  have fl: "page_addr (addr_floor a) + page_offset a = a" if "a < 2 ^ 64"
    using that page_addr_mult [of "addr_floor a"] addr_split [of a] by (simp add: addr_floor_div div_less_iff_less_mult)
  have al: "page_addr (addr_floor a) = a" if "a < 2 ^ 64" "page_offset a = 0"
    using fl [OF that(1)] that(2) by simp
  have ce: "a \<le> b \<longleftrightarrow> page_addr (addr_ceil a) \<le> b" if a: "a + 4095 < 2 ^ 64" and b: "b mod PAGE_SIZE = 0" for b
  proof -
    note B = addr_ceil_bounds [OF a]
    have "addr_ceil a < 2 ^ 52"
      using a by (simp add: addr_ceil_def PAGE_SIZE_def usize_def div_less_iff_less_mult)
    then have p: "page_addr (addr_ceil a) = addr_ceil a * 4096"
      by (rule page_addr_mult)
    obtain k where k: "b = k * 4096"
      using b by (auto simp: PAGE_SIZE_def mult.commute)
    show ?thesis
    proof
      assume "a \<le> b"
      then have "addr_ceil a * 4096 < (k + 1) * 4096"
        using B(2) k by simp
      then have "addr_ceil a \<le> k"
        by simp
      then show "page_addr (addr_ceil a) \<le> b"
        by (simp add: p k)
    qed (use B(1) p in simp)
  qed
  show ?thesis
    using fl al ce addr_page_page_addr [of pn] indexes_inj [of v w] by (auto simp: addr_page_def)
qed

theorem address_round_trip_witness:
  "addr_page 0x80200000 = Some 0x80200 \<and> addr_page 0x80200001 = None \<and> page_addr (addr_ceil 0x80200001) = 0x80201000"
proof -
  have o: "page_offset 0x80200000 = 0" "page_offset 0x80200001 \<noteq> 0" "addr_floor 0x80200000 = 0x80200"
    by (simp_all add: page_offset_mod addr_floor_div)
  have "page_addr (addr_ceil 0x80200001) = 0x80201 * 4096"
    using page_addr_mult [of "0x80201"] by (simp add: addr_ceil_def PAGE_SIZE_def usize_def)
  then show ?thesis
    using address_round_trip [of "0x80200000"] address_round_trip [of "0x80200001"] o by simp
qed

text \<open>
  Two non-empty ranges of page numbers overlap, as \<open>overlap_with\<close> computes it from their
  bounds, exactly when the iterators of both meet a common page; an iterator stops after exactly
  the pages of its range, and constructing a range with its bounds reversed panics.
\<close>

theorem overlap_with_common_page:
  assumes "range_l a < range_r a" and "range_r a < 2 ^ 64" and "range_l b < range_r b" and "range_r b < 2 ^ 64"
  shows "(overlap_with a b \<longleftrightarrow> set (range_pages a) \<inter> set (range_pages b) \<noteq> {}) \<and>
    range_drain (range_r a - range_l a + n) (range_l a, range_r a) = ([range_l a..<range_r a], (range_r a, range_r a)) \<and>
    SimpleRange_new (range_r a) (range_l a) = None"
proof -
  have s: "step (range_l a) = Suc (range_l a)" "step (range_l b) = Suc (range_l b)"
    using assms by (simp_all add: step_def usize_def)
  have e: "range_pages a = [range_l a..<range_r a]" "range_pages b = [range_l b..<range_r b]"
    using assms by (simp_all add: range_pages_eq)
  have "overlap_with a b \<longleftrightarrow> max (range_l a) (range_l b) \<in> set (range_pages a) \<inter> set (range_pages b)"
    using assms unfolding overlap_with_def e by (auto simp: s)
  moreover have "max (range_l a) (range_l b) \<in> set (range_pages a) \<inter> set (range_pages b)"
    if "v \<in> set (range_pages a) \<inter> set (range_pages b)" for v
    using that unfolding e by auto
  ultimately have ov: "overlap_with a b \<longleftrightarrow> set (range_pages a) \<inter> set (range_pages b) \<noteq> {}"
    by blast
  have more: "range_drain (k + n) it = range_drain k it" if "snd (range_drain k it) = (r, r)" for k it r
    using that
  proof (induction k arbitrary: it)
    case 0
    then show ?case by (cases n) auto
  next
    case (Suc k)
    then show ?case
      by (auto simp: split: option.splits prod.splits)
  qed
  have "range_drain (range_r a - range_l a) (range_l a, range_r a) = ([range_l a..<range_r a], (range_r a, range_r a))"
    using assms by (intro range_drain_eq) simp_all
  with more have "range_drain (range_r a - range_l a + n) (range_l a, range_r a) = ([range_l a..<range_r a], (range_r a, range_r a))"
    by (metis snd_conv)
  with ov show ?thesis
    using assms by (simp add: SimpleRange_new_def)
qed

theorem overlap_with_common_page_witness:
  "overlap_with \<lparr>range_l = 1, range_r = 3\<rparr> \<lparr>range_l = 2, range_r = 9\<rparr> \<longleftrightarrow>
   set (range_pages \<lparr>range_l = 1, range_r = 3\<rparr>) \<inter> set (range_pages \<lparr>range_l = 2, range_r = 9\<rparr>) \<noteq> {}"
  using overlap_with_common_page [of "\<lparr>range_l = 1, range_r = 3\<rparr>" "\<lparr>range_l = 2, range_r = 9\<rparr>"] by simp

end
