(* ===== verification/FrameAllocator.thy ===== *)
theory FrameAllocator
  imports Address Allocator
begin

text \<open>
  The physical frame allocator (\<^verbatim>\<open>os/src/mm/frame_allocator.rs\<close>): frames from \<open>current\<close> up to
  \<open>end\<close> were never handed out, the recycled ones are a stack. Together with the physical memory
  it forms the state that page tables and address spaces are built on; a \<open>FrameTracker\<close> is the
  page number it owns, zeroed when it is made and given back when it is dropped.
\<close>

section \<open>The allocator\<close>

record StackFrameAllocator =
  fa_current :: nat
  fa_end :: nat
  fa_recycled :: "nat list"

definition StackFrameAllocator_new :: StackFrameAllocator where
  "StackFrameAllocator_new = \<lparr>fa_current = 0, fa_end = 0, fa_recycled = []\<rparr>"

definition fa_init :: "PhysPageNum \<Rightarrow> PhysPageNum \<Rightarrow> StackFrameAllocator \<Rightarrow> StackFrameAllocator" where
  "fa_init l r fa = fa\<lparr>fa_current := l, fa_end := r\<rparr>"

definition MEMORY_END :: nat where
  "MEMORY_END = 0x88000000"

definition init_frame_allocator :: "nat \<Rightarrow> StackFrameAllocator \<Rightarrow> StackFrameAllocator" where
  \<comment> \<open>\<open>ekernel\<close> is the end of the kernel image, a symbol of the linker\<close>
  "init_frame_allocator ekernel fa =
     fa_init (addr_ceil (PhysAddr_from ekernel)) (addr_floor (PhysAddr_from MEMORY_END)) fa"

definition fa_alloc :: "StackFrameAllocator \<Rightarrow> (PhysPageNum \<times> StackFrameAllocator) option" where
  "fa_alloc fa =
     (if fa_recycled fa \<noteq> [] then
        Some (PhysPageNum_from (last (fa_recycled fa)), fa\<lparr>fa_recycled := butlast (fa_recycled fa)\<rparr>)
      else if fa_current fa = fa_end fa then None
      else Some (PhysPageNum_from (fa_current fa), fa\<lparr>fa_current := usize (fa_current fa + 1)\<rparr>))"

definition fa_alloc_more :: "nat \<Rightarrow> StackFrameAllocator \<Rightarrow> (PhysPageNum list \<times> StackFrameAllocator) option" where
  "fa_alloc_more pages fa =
     (if fa_end fa \<le> usize (fa_current fa + pages) then None
      else let cur = usize (fa_current fa + pages)
           in Some (map (\<lambda>x. PhysPageNum_from (usize (cur + 2 ^ 64 - x))) [1..<pages + 1], fa\<lparr>fa_current := cur\<rparr>))"

definition fa_dealloc :: "PhysPageNum \<Rightarrow> StackFrameAllocator \<Rightarrow> StackFrameAllocator option" where
  "fa_dealloc ppn fa = do {
     ensure (\<not> (fa_current fa \<le> ppn \<or> ppn \<in> set (fa_recycled fa)));
     Some (fa\<lparr>fa_recycled := fa_recycled fa @ [ppn]\<rparr>) }"

section \<open>Invariant, and the contract of allocators\<close>

definition fa_inv :: "nat \<Rightarrow> StackFrameAllocator \<Rightarrow> bool" where
  \<comment> \<open>\<open>base\<close> is the first frame, the value \<open>init\<close> gave to \<open>current\<close>\<close>
  "fa_inv base fa \<longleftrightarrow> base \<le> fa_current fa \<and> fa_current fa \<le> fa_end fa \<and> fa_end fa \<le> 2 ^ 44 \<and>
     distinct (fa_recycled fa) \<and> set (fa_recycled fa) \<subseteq> {base..<fa_current fa}"

definition fa_used :: "nat \<Rightarrow> StackFrameAllocator \<Rightarrow> nat set" where
  "fa_used base fa = {base..<fa_current fa} - set (fa_recycled fa)"

definition fa_pool :: "nat \<Rightarrow> StackFrameAllocator \<Rightarrow> nat set" where
  "fa_pool base fa = {base..<fa_end fa}"

lemma PhysPageNum_from_id [simp]: "v < 2 ^ 44 \<Longrightarrow> PhysPageNum_from v = v"
  by (simp add: PhysPageNum_from_mod)

lemma butlast_facts:
  "xs \<noteq> [] \<Longrightarrow> distinct xs \<Longrightarrow> last xs \<in> set xs \<and> distinct (butlast xs) \<and> set (butlast xs) = set xs - {last xs}"
  by (induction xs rule: rev_induct) auto

lemma fa_alloc_recycled:
  assumes inv: "fa_inv base fa" and r: "fa_recycled fa \<noteq> []"
  shows "fa_alloc fa = Some (last (fa_recycled fa), fa\<lparr>fa_recycled := butlast (fa_recycled fa)\<rparr>)"
proof -
  have "last (fa_recycled fa) < 2 ^ 44"
    using inv butlast_facts [OF r] unfolding fa_inv_def by force
  then show ?thesis
    using r by (simp add: fa_alloc_def)
qed

lemma fa_alloc_fresh:
  assumes inv: "fa_inv base fa" and r: "fa_recycled fa = []" "fa_current fa \<noteq> fa_end fa"
  shows "fa_alloc fa = Some (fa_current fa, fa\<lparr>fa_current := fa_current fa + 1\<rparr>)"
proof -
  have "fa_current fa < 2 ^ 44"
    using inv r(2) unfolding fa_inv_def by linarith
  then show ?thesis
    using r by (simp add: fa_alloc_def usize_def)
qed

interpretation frames: id_allocator fa_alloc fa_dealloc "fa_used base" "fa_pool base" "fa_inv base" for base
proof unfold_locales
  fix fa i fa' assume inv: "fa_inv base fa" and a: "fa_alloc fa = Some (i, fa')"
  show "fa_inv base fa' \<and> i \<in> fa_pool base fa \<and> i \<notin> fa_used base fa \<and> fa_used base fa' = insert i (fa_used base fa) \<and>
    fa_pool base fa' = fa_pool base fa"
  proof (cases "fa_recycled fa = []")
    case True
    then have "fa_current fa \<noteq> fa_end fa"
      using a by (auto simp: fa_alloc_def)
    then show ?thesis
      using a inv True fa_alloc_fresh [OF inv True] by (auto simp: fa_inv_def fa_used_def fa_pool_def)
  next
    case False
    note B = butlast_facts [OF False]
    show ?thesis
      using a inv False fa_alloc_recycled [OF inv False] B by (auto simp: fa_inv_def fa_used_def fa_pool_def)
  qed
next
  fix fa assume "fa_inv base fa" and "fa_alloc fa = None"
  then show "fa_pool base fa \<subseteq> fa_used base fa"
    by (auto simp: fa_alloc_def fa_pool_def fa_used_def split: if_splits)
next
  fix fa i assume "fa_inv base fa" and "i \<in> fa_used base fa"
  then show "\<exists>fa'. fa_dealloc i fa = Some fa' \<and> fa_inv base fa' \<and> fa_used base fa' = fa_used base fa - {i} \<and>
    fa_pool base fa' = fa_pool base fa"
    by (auto simp: fa_dealloc_def fa_inv_def fa_used_def fa_pool_def)
next
  fix fa i assume "fa_inv base fa" and "i \<in> fa_pool base fa" and "i \<notin> fa_used base fa"
  then show "fa_dealloc i fa = None"
    by (auto simp: fa_dealloc_def fa_inv_def fa_used_def fa_pool_def)
qed

section \<open>Frames and memory\<close>

type_synonym page = bytes
type_synonym ram = "PhysPageNum \<rightharpoonup> page" \<comment> \<open>physical memory, by page\<close>

record mm =
  falloc :: StackFrameAllocator
  ram :: ram

definition frame_alloc :: "mm \<Rightarrow> (PhysPageNum option \<times> mm) option" where
  \<comment> \<open>\<open>FrameTracker::new\<close> clears the page; a frame outside the memory has no defined effect\<close>
  "frame_alloc s = (case fa_alloc (falloc s) of
      None \<Rightarrow> Some (None, s)
    | Some (ppn, fa) \<Rightarrow> do {
        _ \<leftarrow> ram s ppn;
        Some (Some ppn, s\<lparr>falloc := fa, ram := (ram s)(ppn \<mapsto> replicate PAGE_SIZE 0)\<rparr>) })"

fun clear_pages :: "PhysPageNum list \<Rightarrow> ram \<Rightarrow> ram option" where
  \<comment> \<open>\<open>FrameTracker::new\<close> on each page of a vector\<close>
  "clear_pages [] m = Some m"
| "clear_pages (p # ps) m = do { _ \<leftarrow> m p; clear_pages ps (m(p \<mapsto> replicate PAGE_SIZE 0)) }"

definition frame_alloc_more :: "nat \<Rightarrow> mm \<Rightarrow> (PhysPageNum list option \<times> mm) option" where
  "frame_alloc_more num s = (case fa_alloc_more num (falloc s) of
      None \<Rightarrow> Some (None, s)
    | Some (ps, fa) \<Rightarrow> do { m \<leftarrow> clear_pages ps (ram s); Some (Some ps, s\<lparr>falloc := fa, ram := m\<rparr>) })"

definition frame_dealloc :: "PhysPageNum \<Rightarrow> mm \<Rightarrow> mm option" where
  \<comment> \<open>also what dropping a \<open>FrameTracker\<close> does\<close>
  "frame_dealloc ppn s = do { fa \<leftarrow> fa_dealloc ppn (falloc s); Some (s\<lparr>falloc := fa\<rparr>) }"

definition mm_inv :: "nat \<Rightarrow> mm \<Rightarrow> bool" where
  "mm_inv base s \<longleftrightarrow> fa_inv base (falloc s) \<and>
     (\<forall>p \<in> fa_pool base (falloc s). \<exists>pg. ram s p = Some pg) \<and> (\<forall>p pg. ram s p = Some pg \<longrightarrow> length pg = PAGE_SIZE)"

definition mm_used :: "nat \<Rightarrow> mm \<Rightarrow> nat set" where
  "mm_used base s = fa_used base (falloc s)"

definition mm_free :: "nat \<Rightarrow> mm \<Rightarrow> nat" where
  "mm_free base s = card (fa_pool base (falloc s) - mm_used base s)"

lemma mm_used_pool: "mm_inv base s \<Longrightarrow> mm_used base s \<subseteq> fa_pool base (falloc s)"
  by (auto simp: mm_inv_def mm_used_def fa_used_def fa_pool_def fa_inv_def)

lemma mm_used_bound: "mm_inv base s \<Longrightarrow> p \<in> mm_used base s \<Longrightarrow> p < 2 ^ 44"
  by (auto simp: mm_inv_def mm_used_def fa_used_def fa_inv_def)

lemma mm_used_page:
  assumes "mm_inv base s" and "p \<in> mm_used base s"
  obtains pg where "ram s p = Some pg" and "length pg = PAGE_SIZE"
  using assms mm_used_pool [OF assms(1)] unfolding mm_inv_def by blast

text \<open>Taking one frame: fresh, zeroed, nothing else touched.\<close>

lemma frame_alloc_spec:
  assumes inv: "mm_inv base s" and room: "0 < mm_free base s"
  shows "\<exists>p s'. frame_alloc s = Some (Some p, s') \<and> mm_inv base s' \<and> p \<notin> mm_used base s \<and>
    mm_used base s' = insert p (mm_used base s) \<and> ram s' = (ram s)(p \<mapsto> replicate PAGE_SIZE 0) \<and>
    mm_free base s' = mm_free base s - 1 \<and> p < 2 ^ 44"
proof -
  have fa: "fa_inv base (falloc s)"
    using inv by (simp add: mm_inv_def)
  have "\<not> fa_pool base (falloc s) \<subseteq> fa_used base (falloc s)"
    using room unfolding mm_free_def mm_used_def by (metis Diff_eq_empty_iff card.empty less_irrefl)
  then obtain p fa where p: "fa_alloc (falloc s) = Some (p, fa)"
    using frames.alloc_full [OF fa] by (cases "fa_alloc (falloc s)") auto
  note A = frames.alloc_fresh [OF fa p]
  obtain pg where "ram s p = Some pg"
    using A inv by (auto simp: mm_inv_def)
  then have r: "frame_alloc s = Some (Some p, s\<lparr>falloc := fa, ram := (ram s)(p \<mapsto> replicate PAGE_SIZE 0)\<rparr>)"
    using p by (simp add: frame_alloc_def)
  have "fa_pool base (falloc s) - insert p (fa_used base (falloc s)) = fa_pool base (falloc s) - fa_used base (falloc s) - {p}"
    by auto
  then have "card (fa_pool base (falloc s) - insert p (fa_used base (falloc s))) =
      card (fa_pool base (falloc s) - fa_used base (falloc s)) - 1"
    using A by simp
  moreover have "p < 2 ^ 44"
    using A fa by (auto simp: fa_pool_def fa_inv_def)
  ultimately show ?thesis
    using r A inv by (auto simp: mm_inv_def mm_used_def mm_free_def)
qed

lemma frame_dealloc_spec:
  assumes "mm_inv base s" and "p \<in> mm_used base s"
  shows "\<exists>s'. frame_dealloc p s = Some s' \<and> mm_inv base s' \<and> mm_used base s' = mm_used base s - {p} \<and> ram s' = ram s"
  using frames.dealloc_used [of base "falloc s" p] assms
  by (auto simp: frame_dealloc_def mm_inv_def mm_used_def)


lemma clear_pages_eq:
  assumes "set ps \<subseteq> dom m"
  shows "clear_pages ps m = Some (\<lambda>p. if p \<in> set ps then Some (replicate PAGE_SIZE 0) else m p)"
  using assms
proof (induction ps arbitrary: m)
  case Nil
  then show ?case by simp
next
  case (Cons p ps)
  then obtain pg where "m p = Some pg"
    by auto
  moreover have "set ps \<subseteq> dom (m(p \<mapsto> replicate PAGE_SIZE 0))"
    using Cons.prems by auto
  ultimately have "clear_pages (p # ps) m =
      Some (\<lambda>x. if x \<in> set ps then Some (replicate PAGE_SIZE 0) else (m(p \<mapsto> replicate PAGE_SIZE 0)) x)"
    using Cons.IH by (simp only: clear_pages.simps Option.bind.simps)
  then show ?case
    by (auto simp: fun_eq_iff)
qed

lemma fa_alloc_more_spec:
  assumes "fa_inv base fa" and "fa_current fa + n < fa_end fa"
  shows "fa_alloc_more n fa = Some (rev [fa_current fa..<fa_current fa + n], fa\<lparr>fa_current := fa_current fa + n\<rparr>)"
proof -
  have b: "fa_current fa + n < 2 ^ 44"
    using assms by (simp add: fa_inv_def)
  then have u: "usize (fa_current fa + n) = fa_current fa + n"
    by (simp add: usize_def)
  have pn: "PhysPageNum_from (usize (fa_current fa + n + 2 ^ 64 - x)) = fa_current fa + n - x" if "x \<le> n" for x
  proof -
    have "fa_current fa + n + 2 ^ 64 - x = (fa_current fa + n - x) + 2 ^ 64"
      using that by simp
    then have "usize (fa_current fa + n + 2 ^ 64 - x) = fa_current fa + n - x"
      using b by (simp only: usize_def mod_add_self2) simp
    then show ?thesis
      using b by simp
  qed
  have "map (\<lambda>x. PhysPageNum_from (usize (fa_current fa + n + 2 ^ 64 - x))) [1..<n + 1] =
      map (\<lambda>x. fa_current fa + n - x) [1..<n + 1]"
    by (intro map_cong refl pn) auto
  also have "\<dots> = rev [fa_current fa..<fa_current fa + n]"
    by (intro nth_equalityI) (simp_all add: rev_nth del: upt_Suc)
  finally have "map (\<lambda>x. PhysPageNum_from (usize (fa_current fa + n + 2 ^ 64 - x))) [1..<n + 1] =
      rev [fa_current fa..<fa_current fa + n]" .
  then show ?thesis
    unfolding fa_alloc_more_def Let_def u using assms(2) by (simp del: upt_Suc)
qed

section \<open>Properties\<close>

text \<open>
  Any number of frames taken one after another are pairwise different, were not in use, and
  lie in the pool; giving all of them back succeeds and restores exactly the frames in use before;
  and a frame given back a second time makes the allocator panic.
\<close>

theorem frames_alloc_dealloc:
  assumes inv: "fa_inv base fa" and a: "alloc_many fa_alloc n fa = Some (ps, fa')"
  shows "distinct ps \<and> length ps = n \<and> set ps \<inter> fa_used base fa = {} \<and> set ps \<subseteq> fa_pool base fa \<and>
    (\<exists>fa''. dealloc_many fa_dealloc ps fa' = Some fa'' \<and> fa_inv base fa'' \<and> fa_used base fa'' = fa_used base fa \<and>
      (\<forall>p \<in> set ps. fa_dealloc p fa'' = None))"
proof -
  note F = frames.alloc_many_fresh [OF inv a]
  obtain fa'' where d: "dealloc_many fa_dealloc ps fa' = Some fa''" "fa_inv base fa''" "fa_used base fa'' = fa_used base fa"
    "fa_pool base fa'' = fa_pool base fa"
    using frames.alloc_then_dealloc_many [OF inv a] by blast
  have "fa_dealloc p fa'' = None" if "p \<in> set ps" for p
    using frames.dealloc_unused [OF d(2), of p] that F d(3,4) by blast
  then show ?thesis
    using F d alloc_many_length [OF a] by blast
qed

theorem frames_alloc_dealloc_witness:
  "\<exists>fa'. alloc_many fa_alloc 2 \<lparr>fa_current = 5, fa_end = 9, fa_recycled = [3]\<rparr> = Some ([3, 5], fa') \<and>
    (\<exists>fa''. dealloc_many fa_dealloc [3, 5] fa' = Some fa'' \<and> fa_dealloc 5 fa'' = None)"
proof -
  let ?fa = "\<lparr>fa_current = 5, fa_end = 9, fa_recycled = [3]\<rparr>"
  have inv: "fa_inv 2 ?fa"
    by (simp add: fa_inv_def)
  have a: "alloc_many fa_alloc 2 ?fa = Some ([3, 5], \<lparr>fa_current = 6, fa_end = 9, fa_recycled = []\<rparr>)"
  proof -
    have "alloc_many fa_alloc (Suc (Suc 0)) ?fa = Some ([3, 5], \<lparr>fa_current = 6, fa_end = 9, fa_recycled = []\<rparr>)"
      by (simp add: fa_alloc_def usize_def)
    then show ?thesis
      by (simp only: numeral_2_eq_2)
  qed
  show ?thesis
    using frames_alloc_dealloc [OF inv a] a by auto
qed

text \<open>
  \<open>alloc_more\<close> hands out the next \<open>n\<close> never used frames, contiguous and in descending
  order, zeroed, and changes no other page, when more than \<open>n\<close> of them remain; when fewer than or
  exactly \<open>n\<close> remain it answers \<open>None\<close> and changes nothing, recycled frames or not.
\<close>

theorem frame_alloc_more_contiguous:
  assumes inv: "mm_inv base s" and n: "fa_current (falloc s) + n < 2 ^ 64"
  shows "if fa_current (falloc s) + n < fa_end (falloc s)
    then \<exists>s'. frame_alloc_more n s = Some (Some (rev [fa_current (falloc s)..<fa_current (falloc s) + n]), s') \<and>
      mm_inv base s' \<and> {fa_current (falloc s)..<fa_current (falloc s) + n} \<inter> mm_used base s = {} \<and>
      mm_used base s' = mm_used base s \<union> {fa_current (falloc s)..<fa_current (falloc s) + n} \<and>
      (\<forall>p. ram s' p = (if p \<in> {fa_current (falloc s)..<fa_current (falloc s) + n} then Some (replicate PAGE_SIZE 0) else ram s p))
    else frame_alloc_more n s = Some (None, s)"
proof (cases "fa_current (falloc s) + n < fa_end (falloc s)")
  case False
  then show ?thesis
    using n by (simp add: frame_alloc_more_def fa_alloc_more_def usize_def)
next
  case True
  let ?c = "fa_current (falloc s)"
  have fa: "fa_inv base (falloc s)"
    using inv by (simp add: mm_inv_def)
  have sub: "{?c..<?c + n} \<subseteq> fa_pool base (falloc s)"
    using fa True by (auto simp: fa_inv_def fa_pool_def)
  let ?m = "\<lambda>p. if p \<in> {?c..<?c + n} then Some (replicate PAGE_SIZE 0) else ram s p"
  have "clear_pages (rev [?c..<?c + n]) (ram s) = Some ?m"
    using clear_pages_eq [of "rev [?c..<?c + n]" "ram s"] sub inv unfolding mm_inv_def by (auto simp: subset_iff)
  then have r: "frame_alloc_more n s = Some (Some (rev [?c..<?c + n]), s\<lparr>falloc := (falloc s)\<lparr>fa_current := ?c + n\<rparr>, ram := ?m\<rparr>)"
    by (simp add: frame_alloc_more_def fa_alloc_more_spec [OF fa True])
  have "fa_inv base ((falloc s)\<lparr>fa_current := ?c + n\<rparr>)"
    using fa True by (auto simp: fa_inv_def)
  moreover have "mm_used base s \<union> {?c..<?c + n} = fa_used base ((falloc s)\<lparr>fa_current := ?c + n\<rparr>)"
    using fa by (auto simp: mm_used_def fa_used_def fa_inv_def)
  ultimately show ?thesis
    using r True inv sub by (auto simp: mm_inv_def mm_used_def fa_used_def fa_pool_def)
qed

theorem frame_alloc_more_contiguous_witness:
  "let s = \<lparr>falloc = \<lparr>fa_current = 5, fa_end = 9, fa_recycled = []\<rparr>, ram = (\<lambda>p. Some (replicate PAGE_SIZE 7))\<rparr>
   in (\<exists>s'. frame_alloc_more 3 s = Some (Some [7, 6, 5], s')) \<and> frame_alloc_more 4 s = Some (None, s)"
proof -
  let ?s = "\<lparr>falloc = \<lparr>fa_current = 5, fa_end = 9, fa_recycled = []\<rparr>, ram = (\<lambda>p. Some (replicate PAGE_SIZE 7))\<rparr>"
  have inv: "mm_inv 2 ?s"
    by (auto simp: mm_inv_def fa_inv_def)
  have l: "rev [5..<8 :: nat] = [7, 6, 5]"
    by (simp add: upt_conv_Cons)
  show ?thesis
    using frame_alloc_more_contiguous [OF inv, of 3] frame_alloc_more_contiguous [OF inv, of 4] unfolding Let_def
    by (auto simp: l)
qed

end
