(* ===== verification/PageTable.thy ===== *)
theory PageTable
  imports FrameAllocator "HOL-Library.Sublist"
begin

text \<open>
  Three-level page tables (\<^verbatim>\<open>os/src/mm/page_table.rs\<close>). A table is a frame of physical memory seen as
  512 little-endian entries of 64 bits; a reference \<open>&mut PageTableEntry\<close> is the frame and the
  index of the entry. The table is read as a finite map from virtual page numbers to entries, and
  \<open>map\<close> and \<open>unmap\<close> are the update and the removal of one key of it.
\<close>

section \<open>Entries\<close>

definition PTE_V :: nat where "PTE_V = push_bit 0 1"
definition PTE_R :: nat where "PTE_R = push_bit 1 1"
definition PTE_W :: nat where "PTE_W = push_bit 2 1"
definition PTE_X :: nat where "PTE_X = push_bit 3 1"
definition PTE_U :: nat where "PTE_U = push_bit 4 1"
definition PTE_D :: nat where "PTE_D = push_bit 7 1"

definition flags_contains :: "nat \<Rightarrow> nat \<Rightarrow> bool" where
  "flags_contains fl f \<longleftrightarrow> fl AND f = f"

type_synonym PageTableEntry = nat \<comment> \<open>\<open>bits\<close>\<close>

definition PageTableEntry_new :: "PhysPageNum \<Rightarrow> nat \<Rightarrow> PageTableEntry" where
  "PageTableEntry_new ppn fl = usize (push_bit 10 ppn) OR fl"

definition PageTableEntry_empty :: PageTableEntry where
  "PageTableEntry_empty = 0"

definition pte_ppn :: "PageTableEntry \<Rightarrow> PhysPageNum" where
  "pte_ppn b = PhysPageNum_from (drop_bit 10 b AND (push_bit 44 1 - 1))"

definition pte_flags :: "PageTableEntry \<Rightarrow> nat" where
  "pte_flags b = b AND (push_bit 8 1 - 1)"

definition pte_valid :: "PageTableEntry \<Rightarrow> bool" where
  "pte_valid b \<longleftrightarrow> flags_contains (pte_flags b) PTE_V"

definition pte_readable :: "PageTableEntry \<Rightarrow> bool" where
  "pte_readable b \<longleftrightarrow> flags_contains (pte_flags b) PTE_R"

definition pte_writable :: "PageTableEntry \<Rightarrow> bool" where
  "pte_writable b \<longleftrightarrow> flags_contains (pte_flags b) PTE_W"

definition pte_executable :: "PageTableEntry \<Rightarrow> bool" where
  "pte_executable b \<longleftrightarrow> flags_contains (pte_flags b) PTE_X"

definition pte_is_dirty :: "PageTableEntry \<Rightarrow> bool" where
  "pte_is_dirty b \<longleftrightarrow> flags_contains (pte_flags b) PTE_D"

section \<open>Entries in memory\<close>

definition pte_get :: "page \<Rightarrow> nat \<Rightarrow> PageTableEntry" where
  \<comment> \<open>\<open>get_pte_array()[i]\<close>\<close>
  "pte_get pg i = le_nat (slice (8 * i) 8 pg)"

definition pte_set :: "nat \<Rightarrow> PageTableEntry \<Rightarrow> page \<Rightarrow> page" where
  "pte_set i b pg = splice (8 * i) (le_bytes 8 b) pg"

type_synonym pte_ref = "PhysPageNum \<times> nat"

fun read_pte :: "ram \<Rightarrow> pte_ref \<Rightarrow> PageTableEntry option" where
  "read_pte m (g, i) = do { pg \<leftarrow> m g; Some (pte_get pg i) }"

fun write_pte :: "ram \<Rightarrow> pte_ref \<Rightarrow> PageTableEntry \<Rightarrow> ram option" where
  "write_pte m (g, i) b = do { pg \<leftarrow> m g; Some (m(g \<mapsto> pte_set i b pg)) }"

section \<open>Page tables\<close>

record PageTable =
  root_ppn :: PhysPageNum
  pt_frames :: "PhysPageNum list"

definition PageTable_new :: "mm \<Rightarrow> (PageTable \<times> mm) option" where
  "PageTable_new s = do {
     (frame, s) \<leftarrow> frame_alloc s;
     p \<leftarrow> frame;
     Some (\<lparr>root_ppn = p, pt_frames = [p]\<rparr>, s) }"

definition PageTable_from_token :: "nat \<Rightarrow> PageTable" where
  "PageTable_from_token satp = \<lparr>root_ppn = PhysPageNum_from (satp AND PPN_MASK), pt_frames = []\<rparr>"

definition PageTable_token :: "PageTable \<Rightarrow> nat" where
  "PageTable_token pt = usize (push_bit 60 8) OR root_ppn pt"

definition PageTable_drop :: "PageTable \<Rightarrow> mm \<Rightarrow> mm option" where
  \<comment> \<open>dropping the vector of frame trackers\<close>
  "PageTable_drop pt s = dealloc_many frame_dealloc (pt_frames pt) s"

fun find_pte_loop :: "ram \<Rightarrow> PhysPageNum \<Rightarrow> nat list \<Rightarrow> pte_ref option option" where
  \<comment> \<open>the rounds of the loop over the remaining indexes\<close>
  "find_pte_loop m ppn [] = Some None"
| "find_pte_loop m ppn [i] = Some (Some (ppn, i))"
| "find_pte_loop m ppn (i # is) = do {
     pte \<leftarrow> read_pte m (ppn, i);
     if \<not> pte_valid pte then Some None else find_pte_loop m (pte_ppn pte) is }"

definition find_pte :: "PageTable \<Rightarrow> VirtPageNum \<Rightarrow> ram \<Rightarrow> pte_ref option option" where
  "find_pte pt vpn m = find_pte_loop m (root_ppn pt) (indexes vpn)"

fun find_pte_create_loop ::
    "nat list \<Rightarrow> PhysPageNum \<Rightarrow> PhysPageNum list \<Rightarrow> mm \<Rightarrow> (pte_ref option \<times> PhysPageNum list \<times> mm) option" where
  "find_pte_create_loop [] ppn fs s = Some (None, fs, s)"
| "find_pte_create_loop [i] ppn fs s = Some (Some (ppn, i), fs, s)"
| "find_pte_create_loop (i # is) ppn fs s = do {
     pte \<leftarrow> read_pte (ram s) (ppn, i);
     if \<not> pte_valid pte then do {
       (frame, s) \<leftarrow> frame_alloc s;
       p \<leftarrow> frame;
       let pte = PageTableEntry_new p PTE_V;
       m \<leftarrow> write_pte (ram s) (ppn, i) pte;
       find_pte_create_loop is (pte_ppn pte) (fs @ [p]) (s\<lparr>ram := m\<rparr>) }
     else find_pte_create_loop is (pte_ppn pte) fs s }"

definition find_pte_create :: "VirtPageNum \<Rightarrow> PageTable \<Rightarrow> mm \<Rightarrow> (pte_ref option \<times> PageTable \<times> mm) option" where
  "find_pte_create vpn pt s = do {
     (r, fs, s) \<leftarrow> find_pte_create_loop (indexes vpn) (root_ppn pt) (pt_frames pt) s;
     Some (r, pt\<lparr>pt_frames := fs\<rparr>, s) }"

definition PageTable_map :: "VirtPageNum \<Rightarrow> PhysPageNum \<Rightarrow> nat \<Rightarrow> PageTable \<Rightarrow> mm \<Rightarrow> (PageTable \<times> mm) option" where
  "PageTable_map vpn ppn fl pt s = do {
     (r, pt, s) \<leftarrow> find_pte_create vpn pt s;
     pr \<leftarrow> r;
     pte \<leftarrow> read_pte (ram s) pr;
     ensure (\<not> pte_valid pte);
     m \<leftarrow> write_pte (ram s) pr (PageTableEntry_new ppn (fl OR PTE_V));
     Some (pt, s\<lparr>ram := m\<rparr>) }"

definition PageTable_unmap :: "VirtPageNum \<Rightarrow> PageTable \<Rightarrow> ram \<Rightarrow> ram option" where
  "PageTable_unmap vpn pt m = do {
     r \<leftarrow> find_pte pt vpn m;
     pr \<leftarrow> r;
     pte \<leftarrow> read_pte m pr;
     ensure (pte_valid pte);
     write_pte m pr PageTableEntry_empty }"

definition translate :: "PageTable \<Rightarrow> VirtPageNum \<Rightarrow> ram \<Rightarrow> PageTableEntry option option" where
  "translate pt vpn m = do {
     r \<leftarrow> find_pte pt vpn m;
     case r of None \<Rightarrow> Some None | Some pr \<Rightarrow> do { pte \<leftarrow> read_pte m pr; Some (Some pte) } }"

definition translate_va :: "PageTable \<Rightarrow> VirtAddr \<Rightarrow> ram \<Rightarrow> PhysAddr option option" where
  "translate_va pt va m = do {
     r \<leftarrow> find_pte pt (addr_floor va) m;
     case r of None \<Rightarrow> Some None
     | Some pr \<Rightarrow> do { pte \<leftarrow> read_pte m pr;
         Some (Some (PhysAddr_from (usize (page_addr (pte_ppn pte) + page_offset va)))) } }"

section \<open>Lemmas on entries\<close>

lemma bit_or_low:
  assumes "fl < 2 ^ k"
  shows "(push_bit k p OR fl :: nat) = p * 2 ^ k + fl"
proof -
  have "fl = take_bit k fl"
    using assms by (simp add: take_bit_nat_eq_self)
  then have low: "n < k" if "bit fl n" for n
    using that by (metis bit_take_bit_iff)
  have "push_bit k p AND fl = 0"
    by (rule bit_eqI) (use low in \<open>auto simp: bit_simps not_le [symmetric]\<close>)
  then show ?thesis
    using disjunctive_add_eq_or [of "push_bit k p" fl] by (simp add: push_bit_eq_mult)
qed

lemma PageTableEntry_new_eq:
  assumes "ppn < 2 ^ 44" and "fl < 2 ^ 8"
  shows "PageTableEntry_new ppn fl = ppn * 2 ^ 10 + fl"
proof -
  have "push_bit 10 ppn < 2 ^ 64"
    using assms(1) by (simp add: push_bit_eq_mult)
  then show ?thesis
    using assms(2) bit_or_low [of fl 10 ppn] by (simp add: PageTableEntry_new_def usize_def)
qed

lemma pte_ppn_eq: "pte_ppn b = b div 2 ^ 10 mod 2 ^ 44"
  using and_mask_mod [of "drop_bit 10 b" 44]
  by (simp add: pte_ppn_def drop_bit_eq_div push_bit_eq_mult PhysPageNum_from_mod)

lemma pte_flags_eq: "pte_flags b = b mod 2 ^ 8"
  using and_mask_mod [of b 8] by (simp add: pte_flags_def push_bit_eq_mult)

lemma pte_valid_odd: "pte_valid b \<longleftrightarrow> odd b"
proof -
  have "pte_flags b AND 1 = b mod 2"
    unfolding pte_flags_eq by (simp add: and_one_eq mod_mod_cancel)
  then show ?thesis
    by (auto simp: pte_valid_def flags_contains_def PTE_V_def odd_iff_mod_2_eq_one)
qed

lemma pte_of_new:
  assumes "ppn < 2 ^ 44" and "fl < 2 ^ 8"
  shows "pte_ppn (PageTableEntry_new ppn fl) = ppn" and "pte_flags (PageTableEntry_new ppn fl) = fl"
    and "PageTableEntry_new ppn fl < 2 ^ 64"
proof -
  have "(fl + (ppn * 4) * 256) mod 256 = fl"
    using assms(2) by (subst mod_mult_self1) simp
  then have "(ppn * 1024 + fl) mod 256 = fl"
    by (simp add: ac_simps)
  then show "pte_flags (PageTableEntry_new ppn fl) = fl"
    using assms by (simp add: PageTableEntry_new_eq pte_flags_eq)
qed (use assms in \<open>simp_all add: PageTableEntry_new_eq pte_ppn_eq\<close>)

lemma or_V:
  assumes "fl < 2 ^ 8"
  shows "fl OR PTE_V < 2 ^ 8" and "odd (fl OR PTE_V)"
proof -
  have "fl OR 1 = take_bit 8 (fl OR 1)"
    using assms by (simp add: take_bit_nat_eq_self take_bit_or)
  then show "fl OR PTE_V < 2 ^ 8"
    using take_bit_nat_less_exp [of 8 "fl OR 1"] by (simp add: PTE_V_def)
  show "odd (fl OR PTE_V)"
    by (simp add: PTE_V_def even_or_iff)
qed

lemma pte_new_valid:
  assumes "ppn < 2 ^ 44" and "fl < 2 ^ 8" and "odd fl"
  shows "pte_valid (PageTableEntry_new ppn fl)"
  using assms by (simp add: pte_valid_odd PageTableEntry_new_eq)

lemma pte_get_set:
  assumes "length pg = PAGE_SIZE" and "i < 512" and "j < 512" and "b < 2 ^ 64"
  shows "pte_get (pte_set i b pg) j = (if i = j then b else pte_get pg j)"
proof (cases "i = j")
  case True
  then show ?thesis
    using assms slice_splice_same [of "8 * i" "le_bytes 8 b" pg 8]
    by (simp add: pte_get_def pte_set_def PAGE_SIZE_def le_nat_le_bytes)
next
  case False
  then have "8 * j + 8 \<le> 8 * i \<or> 8 * i + 8 \<le> 8 * j"
    by linarith
  then show ?thesis
    using assms False slice_splice_other [of "8 * i" "le_bytes 8 b" pg "8 * j" 8]
    by (simp add: pte_get_def pte_set_def PAGE_SIZE_def)
qed

lemma length_pte_set [simp]: "length pg = PAGE_SIZE \<Longrightarrow> i < 512 \<Longrightarrow> length (pte_set i b pg) = PAGE_SIZE"
  by (simp add: pte_set_def PAGE_SIZE_def)

lemma le_nat_all_zero: "\<forall>b \<in> set bs. b = 0 \<Longrightarrow> le_nat bs = 0"
  by (induction bs) auto

lemma pte_get_zero [simp]: "pte_get (replicate PAGE_SIZE 0) i = 0"
  by (simp add: pte_get_def slice_def le_nat_all_zero)

lemma pte_empty_invalid [simp]: "\<not> pte_valid 0"
  by (simp add: pte_valid_odd)

end
