(* ===== verification/PageTableMap.thy ===== *)
theory PageTableMap
  imports PageTable
begin

text \<open>
  Page tables as finite maps. A node of the table is addressed by the list of indexes that leads to
  it; the invariant says that different paths lead to different frames and that all of them belong
  to the table. Under it a write to one entry changes the one path it stands on and nothing else, so
  that \<open>map\<close>, \<open>unmap\<close> and \<open>translate\<close> are the update, removal and lookup of a finite map.
\<close>

section \<open>Nodes\<close>

definition child :: "ram \<Rightarrow> PhysPageNum \<Rightarrow> nat \<Rightarrow> PhysPageNum option" where
  "child m g i = do { pg \<leftarrow> m g; if pte_valid (pte_get pg i) then Some (pte_ppn (pte_get pg i)) else None }"

fun node :: "ram \<Rightarrow> PhysPageNum \<Rightarrow> nat list \<Rightarrow> PhysPageNum option" where
  "node m g [] = Some g"
| "node m g (i # is) = do { h \<leftarrow> child m g i; node m h is }"

lemma node_append: "node m g (p @ q) = do { h \<leftarrow> node m g p; node m h q }"
  by (induction p arbitrary: g) (auto split: Option.bind_splits)

lemma node_snoc: "node m g (p @ [i]) = do { h \<leftarrow> node m g p; child m h i }"
  by (simp add: node_append)

declare node.simps(2) [simp del]

definition path_ok :: "nat list \<Rightarrow> bool" where
  "path_ok p \<longleftrightarrow> length p \<le> 2 \<and> (\<forall>i \<in> set p. i < 512)"

definition pt_ok :: "ram \<Rightarrow> PageTable \<Rightarrow> bool" where
  "pt_ok m pt \<longleftrightarrow>
     (\<forall>p g. path_ok p \<and> node m (root_ppn pt) p = Some g \<longrightarrow>
        g \<in> set (pt_frames pt) \<and> (\<exists>pg. m g = Some pg \<and> length pg = PAGE_SIZE)) \<and>
     (\<forall>p q g. path_ok p \<and> path_ok q \<and> node m (root_ppn pt) p = Some g \<and> node m (root_ppn pt) q = Some g \<longrightarrow> p = q)"

definition pt_entry :: "ram \<Rightarrow> PageTable \<Rightarrow> VirtPageNum \<rightharpoonup> PageTableEntry" where
  \<comment> \<open>the valid entries\<close>
  "pt_entry m pt vpn = (case indexes vpn of
      [i, j, k] \<Rightarrow> do { g \<leftarrow> node m (root_ppn pt) [i, j]; pg \<leftarrow> m g;
        if pte_valid (pte_get pg k) then Some (pte_get pg k) else None }
    | _ \<Rightarrow> None)"

definition pt_map :: "ram \<Rightarrow> PageTable \<Rightarrow> VirtPageNum \<rightharpoonup> PageTableEntry" where
  \<comment> \<open>on the page numbers of the Sv39 width; larger ones are read modulo it\<close>
  "pt_map m pt = pt_entry m pt |` {..<2 ^ 27}"

lemma path_ok_simps: "path_ok []" "path_ok (p @ [i]) \<Longrightarrow> path_ok p"
  by (auto simp: path_ok_def)

lemma pt_okD:
  assumes "pt_ok m pt" and "path_ok p" and "node m (root_ppn pt) p = Some g"
  shows "g \<in> set (pt_frames pt)" and "\<exists>pg. m g = Some pg \<and> length pg = PAGE_SIZE"
    and "path_ok q \<Longrightarrow> node m (root_ppn pt) q = Some g \<Longrightarrow> q = p"
  using assms unfolding pt_ok_def by blast+

lemma indexes_cases:
  obtains i j k where "indexes vpn = [i, j, k]" and "i < 512" and "j < 512" and "k < 512"
  using that indexes_eq [of vpn] by (metis mod_less_divisor zero_less_numeral)

lemma pt_ok_pages_outside:
  assumes ok: "pt_ok m pt" and same: "\<forall>g \<in> set (pt_frames pt). m' g = m g" and p: "path_ok p"
  shows "node m' (root_ppn pt) p = node m (root_ppn pt) p"
  using p
proof (induction p rule: rev_induct)
  case Nil
  then show ?case by simp
next
  case (snoc i p)
  note IH = snoc.IH [OF path_ok_simps(2) [OF snoc.prems]]
  show ?case
  proof (cases "node m (root_ppn pt) p")
    case None
    then show ?thesis
      using IH by (simp add: node_snoc)
  next
    case (Some h)
    then have "m' h = m h"
      using same pt_okD(1) [OF ok path_ok_simps(2) [OF snoc.prems]] by blast
    then show ?thesis
      using IH Some by (simp add: node_snoc child_def)
  qed
qed

text \<open>Pages outside the table do not matter to it.\<close>

lemma pt_frame:
  assumes ok: "pt_ok m pt" and same: "\<forall>g \<in> set (pt_frames pt). m' g = m g"
  shows "pt_ok m' pt" and "pt_entry m' pt = pt_entry m pt"
proof -
  note N = pt_ok_pages_outside [OF ok same]
  show "pt_ok m' pt"
    using ok same N unfolding pt_ok_def by (metis (no_types, lifting))
  show "pt_entry m' pt = pt_entry m pt"
  proof
    fix v
    obtain i j k where ix: "indexes v = [i, j, k]" "i < 512" "j < 512"
      by (rule indexes_cases)
    then have p: "path_ok [i, j]"
      by (simp add: path_ok_def)
    show "pt_entry m' pt v = pt_entry m pt v"
    proof (cases "node m (root_ppn pt) [i, j]")
      case None
      then show ?thesis
        using N [OF p] ix(1) by (simp add: pt_entry_def)
    next
      case (Some g)
      then have "m' g = m g"
        using same pt_okD(1) [OF ok p] by blast
      then show ?thesis
        using N [OF p] ix(1) Some by (simp add: pt_entry_def)
    qed
  qed
qed

section \<open>Writing one entry\<close>

lemma node_write:
  assumes ok: "pt_ok m pt" and p: "path_ok p" "node m (root_ppn pt) p = Some g"
    and g: "m g = Some pg" and j: "j < 512" "b < 2 ^ 64"
    and q: "path_ok q" "\<not> prefix (p @ [j]) q" and m': "m' = m(g \<mapsto> pte_set j b pg)"
  shows "node m' (root_ppn pt) q = node m (root_ppn pt) q"
  using q
proof (induction q rule: rev_induct)
  case Nil
  then show ?case by simp
next
  case (snoc i q)
  have q: "path_ok q" and np: "\<not> prefix (p @ [j]) q" and i: "i < 512"
    using snoc.prems by (auto simp: path_ok_def)
  note IH = snoc.IH [OF q np]
  show ?case
  proof (cases "node m (root_ppn pt) q")
    case None
    then show ?thesis
      using IH by (simp add: node_snoc)
  next
    case (Some h)
    have "child m' h i = child m h i"
    proof (cases "h = g")
      case False
      then show ?thesis
        by (simp add: child_def m')
    next
      case True
      then have "q = p"
        using pt_okD(3) [OF ok p q] Some by simp
      then have "i \<noteq> j"
        using snoc.prems(2) by auto
      moreover have "length pg = PAGE_SIZE"
        using pt_okD(2) [OF ok p] g by simp
      ultimately show ?thesis
        using True g i j by (simp add: child_def pte_get_set m')
    qed
    then show ?thesis
      using IH Some by (simp add: node_snoc)
  qed
qed

lemma path_not_prefix: "length p = 2 \<Longrightarrow> path_ok q \<Longrightarrow> \<not> prefix (p @ [j]) q"
  by (auto simp: path_ok_def prefix_def)

text \<open>A write to a last-level entry changes the map at its key only.\<close>

lemma leaf_write:
  assumes ok: "pt_ok m pt" and v: "indexes v = [i, j, k]" and g: "node m (root_ppn pt) [i, j] = Some g" "m g = Some pg"
    and b: "b < 2 ^ 64" and v27: "v < 2 ^ 27" and m': "m' = m(g \<mapsto> pte_set k b pg)"
  shows "pt_ok m' pt" and "\<And>w. w < 2 ^ 27 \<Longrightarrow> pt_entry m' pt w = ((pt_entry m pt)(v := (if pte_valid b then Some b else None))) w"
proof -
  have ij: "i < 512" "j < 512" "k < 512"
    using indexes_bound [of _ v] v by auto
  then have p: "path_ok [i, j]"
    by (simp add: path_ok_def)
  have len: "length pg = PAGE_SIZE"
    using pt_okD(2) [OF ok p g(1)] g(2) by simp
  have N: "node m' (root_ppn pt) q = node m (root_ppn pt) q" if "path_ok q" for q
    by (rule node_write [OF ok p g ij(3) b that _ m']) (rule path_not_prefix [OF _ that], simp)
  show "pt_ok m' pt"
  proof -
    have "\<exists>y. m' x = Some y \<and> length y = PAGE_SIZE" if "\<exists>y. m x = Some y \<and> length y = PAGE_SIZE" for x
      using that len ij(3) by (auto simp: m')
    then show ?thesis
      using ok N unfolding pt_ok_def by (metis (no_types, lifting))
  qed
  fix w :: nat assume w27: "w < 2 ^ 27"
  obtain i' j' k' where w: "indexes w = [i', j', k']" "i' < 512" "j' < 512" "k' < 512"
    by (rule indexes_cases)
  have q: "path_ok [i', j']"
    using w by (simp add: path_ok_def)
  have same: "w = v \<longleftrightarrow> i' = i \<and> j' = j \<and> k' = k"
    using indexes_inj [OF _ w27 v27] w(1) v by auto
  show "pt_entry m' pt w = ((pt_entry m pt)(v := (if pte_valid b then Some b else None))) w"
  proof (cases "node m (root_ppn pt) [i', j']")
    case None
    then show ?thesis
      using N [OF q] g(1) same w(1) by (auto simp: pt_entry_def)
  next
    case (Some h)
    show ?thesis
    proof (cases "h = g")
      case False
      then have "w \<noteq> v"
        using Some g(1) same by auto
      then show ?thesis
        using N [OF q] False Some w(1) by (simp add: pt_entry_def m')
    next
      case True
      then have "i' = i" "j' = j"
        using pt_okD(3) [OF ok p g(1) q] Some by simp_all
      then show ?thesis
        using N [OF q] True Some w g(2) len ij(3) b same by (auto simp: pt_entry_def m' pte_get_set)
    qed
  qed
qed

text \<open>Hanging a new zeroed table into an invalid entry changes no key of the map.\<close>

lemma table_write:
  assumes ok: "pt_ok m pt" and p: "path_ok (p @ [j])" "node m (root_ppn pt) p = Some g" and g: "m g = Some pg"
    and inval: "\<not> pte_valid (pte_get pg j)" and h: "h \<notin> set (pt_frames pt)" "h < 2 ^ 44"
    and m': "m' = m(h \<mapsto> replicate PAGE_SIZE 0, g \<mapsto> pte_set j (PageTableEntry_new h PTE_V) pg)"
  defines "pt' \<equiv> pt\<lparr>pt_frames := pt_frames pt @ [h]\<rparr>"
  shows "pt_ok m' pt'" and "pt_entry m' pt' = pt_entry m pt" and "node m' (root_ppn pt) (p @ [j]) = Some h"
    and "\<forall>q. path_ok q \<and> \<not> prefix (p @ [j]) q \<longrightarrow> node m' (root_ppn pt) q = node m (root_ppn pt) q"
proof -
  let ?r = "root_ppn pt" and ?b = "PageTableEntry_new h PTE_V"
  define m1 where "m1 = m(h \<mapsto> replicate PAGE_SIZE 0)"
  have j: "j < 512" and p1: "path_ok p"
    using p(1) by (auto simp: path_ok_def)
  have V: "PTE_V < 2 ^ 8" "odd PTE_V"
    by (simp_all add: PTE_V_def)
  note B = pte_of_new [OF h(2) V(1)] pte_new_valid [OF h(2) V]
  have outside: "\<forall>g \<in> set (pt_frames pt). m1 g = m g"
    using h(1) by (auto simp: m1_def)
  note F = pt_frame [OF ok outside]
  have gh: "g \<noteq> h" "g \<in> set (pt_frames pt)"
    using pt_okD(1) [OF ok p1 p(2)] h(1) by auto
  have gp: "node m1 ?r p = Some g" "m1 g = Some pg" "length pg = PAGE_SIZE" "g \<noteq> h"
    using pt_ok_pages_outside [OF ok outside p1] p(2) g pt_okD(2) [OF ok p1 p(2)] gh outside by auto
  have m1: "m' = m1(g \<mapsto> pte_set j ?b pg)"
    using m' by (simp add: m1_def)
  have N: "node m' ?r q = node m ?r q" if "path_ok q" "\<not> prefix (p @ [j]) q" for q
    using node_write [OF F(1) p1 gp(1,2) j B(3) that m1] pt_ok_pages_outside [OF ok outside that(1)] by simp
  then show "\<forall>q. path_ok q \<and> \<not> prefix (p @ [j]) q \<longrightarrow> node m' ?r q = node m ?r q"
    by blast
  have Np: "node m' ?r p = Some g"
    using N [OF p1] p(2) by (simp add: prefix_def)
  show top: "node m' ?r (p @ [j]) = Some h"
    using Np gp(3) j B by (simp add: node_snoc child_def m1 pte_get_set)
  have h0: "child m' h i = None" for i
    using gp(4) by (simp add: child_def m')
  have deep: "node m' ?r (p @ [j] @ i # q) = None" for i q
    using top node_append [of m' ?r "p @ [j]" "i # q"] h0 by (simp add: node.simps(2))
  have old: "node m ?r (p @ [j] @ q) = None" for q
    using p(2) g inval by (simp add: node_append child_def node.simps(2))
  have cases: "q = p @ [j] \<or> node m' ?r q = node m ?r q" if "path_ok q" for q
  proof (cases "prefix (p @ [j]) q")
    case True
    then obtain r where q: "q = p @ [j] @ r"
      by (auto simp: prefix_def)
    show ?thesis
    proof (cases r)
      case Nil
      then show ?thesis using q by simp
    next
      case (Cons i r')
      then show ?thesis using q deep old by simp
    qed
  qed (use N [OF that] in simp)
  have new: "node m ?r q \<noteq> Some h" if "path_ok q" for q
    using pt_okD(1) [OF ok that] h(1) by blast
  have fr: "set (pt_frames pt') = insert h (set (pt_frames pt))" "root_ppn pt' = ?r"
    by (simp_all add: pt'_def)
  have pages: "\<exists>x. m' y = Some x \<and> length x = PAGE_SIZE" if "y = h \<or> (\<exists>x. m y = Some x \<and> length x = PAGE_SIZE)" for y
    using that gp(3) j by (auto simp: m')
  show "pt_ok m' pt'"
    unfolding pt_ok_def fr
  proof (intro conjI allI impI; elim conjE)
    fix q x assume q: "path_ok q" and x: "node m' ?r q = Some x"
    have "x = h \<or> node m ?r q = Some x"
      using cases [OF q] x top by auto
    then show "x \<in> insert h (set (pt_frames pt))" and "\<exists>y. m' x = Some y \<and> length y = PAGE_SIZE"
      using pt_okD(1,2) [OF ok q] pages by blast+
  next
    fix q q' x assume q: "path_ok q" "path_ok q'" and x: "node m' ?r q = Some x" "node m' ?r q' = Some x"
    show "q = q'"
      using cases [OF q(1)] cases [OF q(2)] x top new [OF q(1)] new [OF q(2)] pt_okD(3) [OF ok q(2) _ q(1)]
      by (metis option.inject)
  qed
  show "pt_entry m' pt' = pt_entry m pt"
  proof
    fix v
    obtain a b c where ix: "indexes v = [a, b, c]" "a < 512" "b < 512"
      by (rule indexes_cases)
    then have q: "path_ok [a, b]"
      by (simp add: path_ok_def)
    show "pt_entry m' pt' v = pt_entry m pt v"
    proof (cases "[a, b] = p @ [j]")
      case True
      then have "node m ?r [a, b] = None" "node m' ?r [a, b] = Some h"
        using old [of "[]"] top unfolding True by simp_all
      then show ?thesis
        using ix gp(4) fr(2) by (simp add: pt_entry_def m')
    next
      case False
      then have e: "node m' ?r [a, b] = node m ?r [a, b]"
        using cases [OF q] by auto
      have leaf: "m' x = m x" if "node m ?r [a, b] = Some x" for x
      proof -
        have "x \<noteq> g" if "length p < 2"
          using pt_okD(3) [OF ok q \<open>node m ?r [a, b] = Some x\<close> p1] p(2) that by auto
        moreover have "length p < 2"
          using p(1) by (simp add: path_ok_def)
        moreover have "x \<noteq> h"
          using new [OF q] that by auto
        ultimately show ?thesis
          by (simp add: m')
      qed
      show ?thesis
        using ix e leaf fr(2) by (cases "node m ?r [a, b]") (simp_all add: pt_entry_def)
    qed
  qed
qed


section \<open>Walking the table\<close>

lemma find_loop_node:
  assumes ok: "pt_ok m pt" and p: "node m (root_ppn pt) p = Some g" and q: "path_ok (p @ q)"
  shows "find_pte_loop m g (q @ [k]) = Some (map_option (\<lambda>h. (h, k)) (node m g q))"
  using p q
proof (induction q arbitrary: p g)
  case Nil
  then show ?case by simp
next
  case (Cons i q)
  have "path_ok p"
    using Cons.prems(2) by (simp add: path_ok_def)
  then obtain pg where pg: "m g = Some pg"
    using pt_okD(2) [OF ok _ Cons.prems(1)] by blast
  obtain x xs where c: "q @ [k] = x # xs"
    by (cases "q @ [k]") auto
  show ?case
  proof (cases "pte_valid (pte_get pg i)")
    case False
    then show ?thesis
      using pg c by (simp add: child_def node.simps(2))
  next
    case True
    have "node m (root_ppn pt) (p @ [i]) = Some (pte_ppn (pte_get pg i))"
      using Cons.prems(1) pg True by (simp add: node_snoc child_def)
    then have "find_pte_loop m (pte_ppn (pte_get pg i)) (q @ [k]) = Some (map_option (\<lambda>h. (h, k)) (node m (pte_ppn (pte_get pg i)) q))"
      using Cons.IH [of "p @ [i]"] Cons.prems(2) by simp
    then show ?thesis
      using pg True c by (simp add: child_def node.simps(2))
  qed
qed

lemma find_pte_node:
  assumes "pt_ok m pt" and "indexes v = [i, j, k]"
  shows "find_pte pt v m = Some (map_option (\<lambda>h. (h, k)) (node m (root_ppn pt) [i, j]))"
proof -
  have "path_ok ([] @ [i, j])"
    using indexes_bound [of _ v] assms(2) by (simp add: path_ok_def)
  then show ?thesis
    using find_loop_node [OF assms(1), of "[]" "root_ppn pt" "[i, j]" k] assms(2) by (simp add: find_pte_def)
qed

definition pt_inv :: "nat \<Rightarrow> PageTable \<Rightarrow> mm \<Rightarrow> bool" where
  \<comment> \<open>a table whose frames the allocator has handed out\<close>
  "pt_inv base pt s \<longleftrightarrow> mm_inv base s \<and> pt_ok (ram s) pt \<and> set (pt_frames pt) \<subseteq> mm_used base s \<and>
     distinct (pt_frames pt) \<and> root_ppn pt \<in> set (pt_frames pt)"

lemma pt_invD:
  assumes "pt_inv base pt s"
  shows "mm_inv base s" and "pt_ok (ram s) pt" and "set (pt_frames pt) \<subseteq> mm_used base s" and "distinct (pt_frames pt)"
    and "root_ppn pt \<in> set (pt_frames pt)"
  using assms by (simp_all add: pt_inv_def)

lemma mm_inv_write:
  assumes "mm_inv base s" and "length pg = PAGE_SIZE"
  shows "mm_inv base (s\<lparr>ram := (ram s)(p \<mapsto> pg)\<rparr>)"
  using assms by (auto simp: mm_inv_def)

lemma mm_frames_ram [simp]: "mm_used base (s\<lparr>ram := m\<rparr>) = mm_used base s" "mm_free base (s\<lparr>ram := m\<rparr>) = mm_free base s"
  by (simp_all add: mm_used_def mm_free_def)

text \<open>What creating the missing tables on a path changes.\<close>

definition pt_grows :: "nat \<Rightarrow> nat \<Rightarrow> PageTable \<Rightarrow> mm \<Rightarrow> PageTable \<Rightarrow> mm \<Rightarrow> bool" where
  "pt_grows base n pt s pt' s' \<longleftrightarrow> pt_inv base pt' s' \<and> root_ppn pt' = root_ppn pt \<and> set (pt_frames pt) \<subseteq> set (pt_frames pt') \<and>
     mm_used base s' = mm_used base s \<union> set (pt_frames pt') \<and> mm_free base s \<le> mm_free base s' + n \<and>
     set (pt_frames pt') \<inter> mm_used base s = set (pt_frames pt) \<and>
     (\<forall>x. x \<in> mm_used base s - set (pt_frames pt) \<longrightarrow> ram s' x = ram s x)"

definition pt_extends :: "nat \<Rightarrow> nat \<Rightarrow> PageTable \<Rightarrow> mm \<Rightarrow> PageTable \<Rightarrow> mm \<Rightarrow> bool" where
  "pt_extends base n pt s pt' s' \<longleftrightarrow> pt_grows base n pt s pt' s' \<and> pt_entry (ram s') pt' = pt_entry (ram s) pt"

lemma pt_grows_refl: "pt_inv base pt s \<Longrightarrow> pt_grows base n pt s pt s"
  by (auto simp: pt_grows_def pt_inv_def)

lemma pt_grows_trans:
  assumes "pt_grows base n pt s pt1 s1" and "pt_grows base k pt1 s1 pt2 s2"
  shows "pt_grows base (n + k) pt s pt2 s2"
  using assms unfolding pt_grows_def by (intro conjI) (auto 0 3)

lemma pt_extends_refl: "pt_inv base pt s \<Longrightarrow> pt_extends base n pt s pt s"
  by (simp add: pt_extends_def pt_grows_refl)

lemma pt_extends_trans:
  "pt_extends base n pt s pt1 s1 \<Longrightarrow> pt_extends base k pt1 s1 pt2 s2 \<Longrightarrow> pt_extends base (n + k) pt s pt2 s2"
  using pt_grows_trans by (auto simp: pt_extends_def)

lemma create_step:
  assumes inv: "pt_inv base pt s" and p: "path_ok (p @ [i])" "node (ram s) (root_ppn pt) p = Some g"
    and pg: "ram s g = Some pg" and inval: "\<not> pte_valid (pte_get pg i)" and room: "0 < mm_free base s"
  shows "\<exists>h s1 m. frame_alloc s = Some (Some h, s1) \<and> write_pte (ram s1) (g, i) (PageTableEntry_new h PTE_V) = Some m \<and>
    pte_ppn (PageTableEntry_new h PTE_V) = h \<and>
    pt_extends base 1 pt s (pt\<lparr>pt_frames := pt_frames pt @ [h]\<rparr>) (s1\<lparr>ram := m\<rparr>) \<and>
    node m (root_ppn pt) (p @ [i]) = Some h"
proof -
  note D = pt_invD [OF inv]
  obtain h s1 where h: "frame_alloc s = Some (Some h, s1)" "mm_inv base s1" "h \<notin> mm_used base s"
    "mm_used base s1 = insert h (mm_used base s)" "ram s1 = (ram s)(h \<mapsto> replicate PAGE_SIZE 0)"
    "mm_free base s1 = mm_free base s - 1" "h < 2 ^ 44"
    using frame_alloc_spec [OF D(1) room] by blast
  have i: "i < 512" "path_ok p"
    using p(1) by (auto simp: path_ok_def)
  have g: "g \<in> set (pt_frames pt)" "length pg = PAGE_SIZE"
    using pt_okD(1,2) [OF D(2) i(2) p(2)] pg by auto
  then have gh: "g \<noteq> h" "h \<notin> set (pt_frames pt)"
    using D(3) h(3) by auto
  let ?b = "PageTableEntry_new h PTE_V" and ?pt = "pt\<lparr>pt_frames := pt_frames pt @ [h]\<rparr>"
  define m where "m = (ram s)(h \<mapsto> replicate PAGE_SIZE 0, g \<mapsto> pte_set i ?b pg)"
  have w: "write_pte (ram s1) (g, i) ?b = Some m"
    using h(5) gh(1) pg by (simp add: m_def)
  have b: "pte_ppn ?b = h"
    using pte_of_new(1) [OF h(7), of PTE_V] by (simp add: PTE_V_def)
  note T = table_write [OF D(2) p pg inval gh(2) h(7) m_def]
  have "mm_inv base (s1\<lparr>ram := (ram s1)(g \<mapsto> pte_set i ?b pg)\<rparr>)"
    using h(2) g(2) i(1) by (intro mm_inv_write) simp_all
  then have "pt_inv base ?pt (s1\<lparr>ram := m\<rparr>)"
    using T(1) D(3-5) gh(2) h(4,5) by (auto simp: pt_inv_def m_def)
  then have "pt_extends base 1 pt s ?pt (s1\<lparr>ram := m\<rparr>)"
    using T(2) h(3,4,6) D(3) g(1) by (auto simp: pt_extends_def pt_grows_def m_def)
  then show ?thesis
    using h(1) w b T(3) by blast
qed

lemma create_loop_spec:
  assumes "pt_inv base pt s" and "node (ram s) (root_ppn pt) p = Some g" and "path_ok (p @ q)" and "length q \<le> mm_free base s"
  shows "\<exists>h fs s'. find_pte_create_loop (q @ [k]) g (pt_frames pt) s = Some (Some (h, k), fs, s') \<and>
    node (ram s') (root_ppn pt) (p @ q) = Some h \<and> pt_extends base (length q) pt s (pt\<lparr>pt_frames := fs\<rparr>) s'"
  using assms
proof (induction q arbitrary: p g pt s)
  case Nil
  then show ?case
    using pt_extends_refl [OF Nil(1)] by simp
next
  case (Cons i q)
  note D = pt_invD [OF Cons.prems(1)]
  have p: "path_ok (p @ [i])" "path_ok p"
    using Cons.prems(3) by (auto simp: path_ok_def)
  obtain pg where pg: "ram s g = Some pg"
    using pt_okD(2) [OF D(2) p(2) Cons.prems(2)] by blast
  obtain x xs where c: "q @ [k] = x # xs"
    by (cases "q @ [k]") auto
  show ?case
  proof (cases "pte_valid (pte_get pg i)")
    case True
    have "node (ram s) (root_ppn pt) (p @ [i]) = Some (pte_ppn (pte_get pg i))"
      using Cons.prems(2) pg True by (simp add: node_snoc child_def)
    with Cons.IH [OF Cons.prems(1), of "p @ [i]" "pte_ppn (pte_get pg i)"] Cons.prems(3,4) obtain h fs s' where
      r: "find_pte_create_loop (q @ [k]) (pte_ppn (pte_get pg i)) (pt_frames pt) s = Some (Some (h, k), fs, s')"
        "node (ram s') (root_ppn pt) (p @ i # q) = Some h" "pt_extends base (length q) pt s (pt\<lparr>pt_frames := fs\<rparr>) s'"
      by auto
    have "pt_extends base (length (i # q)) pt s (pt\<lparr>pt_frames := fs\<rparr>) s'"
      using r(3) by (auto simp: pt_extends_def pt_grows_def)
    then show ?thesis
      using r(1,2) True pg c by auto
  next
    case False
    have room: "0 < mm_free base s"
      using Cons.prems(4) by simp
    obtain h s1 m where a: "frame_alloc s = Some (Some h, s1)" "write_pte (ram s1) (g, i) (PageTableEntry_new h PTE_V) = Some m"
      "pte_ppn (PageTableEntry_new h PTE_V) = h" "pt_extends base 1 pt s (pt\<lparr>pt_frames := pt_frames pt @ [h]\<rparr>) (s1\<lparr>ram := m\<rparr>)"
      "node m (root_ppn pt) (p @ [i]) = Some h"
      using create_step [OF Cons.prems(1) p(1) Cons.prems(2) pg False room] by blast
    let ?pt = "pt\<lparr>pt_frames := pt_frames pt @ [h]\<rparr>" and ?s = "s1\<lparr>ram := m\<rparr>"
    have inv1: "pt_inv base ?pt ?s" and room1: "length q \<le> mm_free base ?s"
      using a(4) Cons.prems(4) by (auto simp: pt_extends_def pt_grows_def)
    obtain h' fs s' where r: "find_pte_create_loop (q @ [k]) h (pt_frames pt @ [h]) ?s = Some (Some (h', k), fs, s')"
        "node (ram s') (root_ppn pt) (p @ i # q) = Some h'" "pt_extends base (length q) ?pt ?s (pt\<lparr>pt_frames := fs\<rparr>) s'"
      using Cons.IH [OF inv1, of "p @ [i]" h] a(5) Cons.prems(3) room1 by auto
    have "pt_extends base (length (i # q)) pt s (pt\<lparr>pt_frames := fs\<rparr>) s'"
      using pt_extends_trans [OF a(4) r(3)] by simp
    then show ?thesis
      using r(1,2) a(1-3) False pg c by (auto simp: Let_def)
  qed
qed


section \<open>The operations as map operations\<close>

lemma pt_map_new_valid:
  assumes "ppn < 2 ^ 44" and "fl < 2 ^ 8"
  shows "pte_valid (PageTableEntry_new ppn (fl OR PTE_V))" and "PageTableEntry_new ppn (fl OR PTE_V) < 2 ^ 64"
  using pte_new_valid [OF assms(1)] pte_of_new(3) [OF assms(1)] or_V [OF assms(2)] by blast+

lemma PageTable_map_spec:
  assumes inv: "pt_inv base pt s" and v: "v < 2 ^ 27" and args: "ppn < 2 ^ 44" "fl < 2 ^ 8" and room: "2 \<le> mm_free base s"
  shows "pt_map (ram s) pt v \<noteq> None \<Longrightarrow> PageTable_map v ppn fl pt s = None"
    and "pt_map (ram s) pt v = None \<Longrightarrow> \<exists>pt' s'. PageTable_map v ppn fl pt s = Some (pt', s') \<and> pt_grows base 2 pt s pt' s' \<and>
      pt_map (ram s') pt' = (pt_map (ram s) pt)(v \<mapsto> PageTableEntry_new ppn (fl OR PTE_V))"
proof -
  let ?b = "PageTableEntry_new ppn (fl OR PTE_V)"
  obtain i j k where ix: "indexes v = [i, j, k]" "i < 512" "j < 512" "k < 512"
    by (rule indexes_cases)
  have p: "path_ok ([] @ [i, j])"
    using ix by (simp add: path_ok_def)
  have room': "length [i, j] \<le> mm_free base s" and two: "length [i, j] = 2"
    using room by simp_all
  obtain h fs s1 where c: "find_pte_create_loop (indexes v) (root_ppn pt) (pt_frames pt) s = Some (Some (h, k), fs, s1)"
    "node (ram s1) (root_ppn pt) [i, j] = Some h" "pt_extends base 2 pt s (pt\<lparr>pt_frames := fs\<rparr>) s1"
    using create_loop_spec [OF inv node.simps(1) p room', of k] unfolding two append.simps ix(1) by blast
  let ?pt = "pt\<lparr>pt_frames := fs\<rparr>"
  have g1: "pt_grows base 2 pt s ?pt s1" and e1: "pt_entry (ram s1) ?pt = pt_entry (ram s) pt"
    using c(3) by (simp_all add: pt_extends_def)
  have inv1: "pt_inv base ?pt s1"
    using g1 by (simp add: pt_grows_def)
  note D = pt_invD [OF inv1]
  obtain pg where pg: "ram s1 h = Some pg" "length pg = PAGE_SIZE"
    using pt_okD(2) [OF D(2)] p c(2) by (metis PageTable.select_convs(1) PageTable.surjective PageTable.update_convs(2) append_Nil)
  have ent: "pt_map (ram s) pt v = (if pte_valid (pte_get pg k) then Some (pte_get pg k) else None)"
    using e1 [symmetric] ix(1) c(2) pg(1) v by (simp add: pt_map_def pt_entry_def restrict_map_def)
  have r: "PageTable_map v ppn fl pt s = (if pte_valid (pte_get pg k) then None
      else Some (?pt, s1\<lparr>ram := (ram s1)(h \<mapsto> pte_set k ?b pg)\<rparr>))"
    using c(1) pg(1) by (simp add: PageTable_map_def find_pte_create_def)
  show "pt_map (ram s) pt v \<noteq> None \<Longrightarrow> PageTable_map v ppn fl pt s = None"
    using r ent by (auto split: if_splits)
  assume none: "pt_map (ram s) pt v = None"
  define m where "m = (ram s1)(h \<mapsto> pte_set k ?b pg)"
  have root: "node (ram s1) (root_ppn ?pt) [i, j] = Some h"
    using c(2) by simp
  note B = pt_map_new_valid [OF args]
  note L = leaf_write [OF D(2) ix(1) root pg(1) B(2) v m_def]
  have hf: "h \<in> set (pt_frames ?pt)"
    using pt_okD(1) [OF D(2) _ root] p by simp
  have "mm_inv base (s1\<lparr>ram := m\<rparr>)"
    using D(1) pg(2) ix(4) unfolding m_def by (intro mm_inv_write) simp_all
  then have "pt_grows base 2 pt s ?pt (s1\<lparr>ram := m\<rparr>)"
    using g1 L(1) hf by (auto simp: pt_grows_def pt_inv_def m_def)
  moreover have "pt_map m ?pt = (pt_map (ram s) pt)(v \<mapsto> ?b)"
    using L(2) B(1) v by (auto simp: pt_map_def restrict_map_def fun_eq_iff e1)
  ultimately show "\<exists>pt' s'. PageTable_map v ppn fl pt s = Some (pt', s') \<and> pt_grows base 2 pt s pt' s' \<and>
      pt_map (ram s') pt' = (pt_map (ram s) pt)(v \<mapsto> ?b)"
    using r ent none by (intro exI [of _ ?pt] exI [of _ "s1\<lparr>ram := m\<rparr>"]) (simp add: m_def split: if_splits)
qed

lemma translate_spec:
  assumes ok: "pt_ok m pt" and v: "v < 2 ^ 27"
  shows "pt_map m pt v = Some b \<Longrightarrow> translate pt v m = Some (Some b) \<and> pte_valid b"
    and "pt_map m pt v = None \<Longrightarrow> translate pt v m = Some None \<or> (\<exists>b. translate pt v m = Some (Some b) \<and> \<not> pte_valid b)"
    and "pt_map m pt v = Some b \<Longrightarrow> translate_va pt va m =
      (if addr_floor va = v then Some (Some (PhysAddr_from (usize (page_addr (pte_ppn b) + page_offset va)))) else translate_va pt va m)"
proof -
  obtain i j k where ix: "indexes v = [i, j, k]" "i < 512" "j < 512" "k < 512"
    by (rule indexes_cases)
  have p: "path_ok [i, j]"
    using ix by (simp add: path_ok_def)
  note F = find_pte_node [OF ok ix(1)]
  have pages: "\<exists>pg. m g = Some pg" if "node m (root_ppn pt) [i, j] = Some g" for g
    using pt_okD(2) [OF ok p that] by blast
  show "pt_map m pt v = Some b \<Longrightarrow> translate pt v m = Some (Some b) \<and> pte_valid b"
    using v ix(1) F by (auto simp: translate_def pt_map_def pt_entry_def restrict_map_def split: if_splits)
  show "pt_map m pt v = None \<Longrightarrow> translate pt v m = Some None \<or> (\<exists>b. translate pt v m = Some (Some b) \<and> \<not> pte_valid b)"
    using v ix(1) F pages by (cases "node m (root_ppn pt) [i, j]")
      (auto simp: translate_def pt_map_def pt_entry_def restrict_map_def split: if_splits)
  show "pt_map m pt v = Some b \<Longrightarrow> translate_va pt va m =
      (if addr_floor va = v then Some (Some (PhysAddr_from (usize (page_addr (pte_ppn b) + page_offset va)))) else translate_va pt va m)"
    using v ix(1) F by (auto simp: translate_va_def pt_map_def pt_entry_def restrict_map_def split: if_splits)
qed

lemma PageTable_unmap_spec:
  assumes inv: "pt_inv base pt s" and v: "v < 2 ^ 27"
  shows "pt_map (ram s) pt v = None \<Longrightarrow> PageTable_unmap v pt (ram s) = None"
    and "pt_map (ram s) pt v = Some b \<Longrightarrow> \<exists>m. PageTable_unmap v pt (ram s) = Some m \<and> pt_inv base pt (s\<lparr>ram := m\<rparr>) \<and>
      pt_map m pt = (pt_map (ram s) pt)(v := None) \<and> (\<forall>x. x \<notin> set (pt_frames pt) \<longrightarrow> m x = ram s x)"
proof -
  note D = pt_invD [OF inv]
  obtain i j k where ix: "indexes v = [i, j, k]" "i < 512" "j < 512" "k < 512"
    by (rule indexes_cases)
  have p: "path_ok [i, j]"
    using ix by (simp add: path_ok_def)
  note F = find_pte_node [OF D(2) ix(1)]
  have pages: "\<exists>pg. ram s g = Some pg" if "node (ram s) (root_ppn pt) [i, j] = Some g" for g
    using pt_okD(2) [OF D(2) p that] by blast
  show "pt_map (ram s) pt v = None \<Longrightarrow> PageTable_unmap v pt (ram s) = None"
    using v ix(1) F pages by (cases "node (ram s) (root_ppn pt) [i, j]")
      (auto simp: PageTable_unmap_def pt_map_def pt_entry_def restrict_map_def split: if_splits)
  assume b: "pt_map (ram s) pt v = Some b"
  then obtain g pg where g: "node (ram s) (root_ppn pt) [i, j] = Some g" "ram s g = Some pg" "pte_valid (pte_get pg k)"
    using v ix(1) by (auto simp: pt_map_def pt_entry_def restrict_map_def split: if_splits)
  have gf: "g \<in> set (pt_frames pt)" "length pg = PAGE_SIZE"
    using pt_okD(1,2) [OF D(2) p g(1)] g(2) by auto
  define m where "m = (ram s)(g \<mapsto> pte_set k PageTableEntry_empty pg)"
  have "PageTable_unmap v pt (ram s) = Some m"
    using F g by (simp add: PageTable_unmap_def m_def)
  moreover have e: "PageTableEntry_empty < 2 ^ 64" "\<not> pte_valid PageTableEntry_empty"
    by (simp_all add: PageTableEntry_empty_def)
  note L = leaf_write [OF D(2) ix(1) g(1,2) e(1) v m_def]
  moreover have "mm_inv base (s\<lparr>ram := m\<rparr>)"
    using D(1) gf(2) ix(4) unfolding m_def by (intro mm_inv_write) simp_all
  then have "pt_inv base pt (s\<lparr>ram := m\<rparr>)"
    using L(1) D by (simp add: pt_inv_def)
  moreover have "pt_map m pt = (pt_map (ram s) pt)(v := None)"
    using L(2) e(2) v by (auto simp: pt_map_def restrict_map_def fun_eq_iff)
  moreover have "\<forall>x. x \<notin> set (pt_frames pt) \<longrightarrow> m x = ram s x"
    using gf(1) by (auto simp: m_def)
  ultimately show "\<exists>m. PageTable_unmap v pt (ram s) = Some m \<and> pt_inv base pt (s\<lparr>ram := m\<rparr>) \<and>
      pt_map m pt = (pt_map (ram s) pt)(v := None) \<and> (\<forall>x. x \<notin> set (pt_frames pt) \<longrightarrow> m x = ram s x)"
    by blast
qed

lemma PageTable_new_spec:
  assumes inv: "mm_inv base s" and room: "0 < mm_free base s"
  shows "\<exists>pt s'. PageTable_new s = Some (pt, s') \<and> pt_inv base pt s' \<and> pt_map (ram s') pt = Map.empty \<and>
    set (pt_frames pt) \<inter> mm_used base s = {} \<and> mm_used base s' = mm_used base s \<union> set (pt_frames pt) \<and>
    mm_free base s' = mm_free base s - 1 \<and> (\<forall>x \<in> mm_used base s. ram s' x = ram s x)"
proof -
  obtain p s1 where p: "frame_alloc s = Some (Some p, s1)" "mm_inv base s1" "p \<notin> mm_used base s"
    "mm_used base s1 = insert p (mm_used base s)" "ram s1 = (ram s)(p \<mapsto> replicate PAGE_SIZE 0)" "mm_free base s1 = mm_free base s - 1"
    using frame_alloc_spec [OF inv room] by blast
  let ?pt = "\<lparr>root_ppn = p, pt_frames = [p]\<rparr>"
  have c: "child (ram s1) p i = None" for i
    by (simp add: child_def p(5))
  then have n: "node (ram s1) p q = (if q = [] then Some p else None)" for q
    by (cases q) (simp_all add: node.simps(2))
  have "ram s1 p = Some (replicate PAGE_SIZE 0)"
    by (simp add: p(5))
  then have "pt_ok (ram s1) ?pt"
    by (auto simp: pt_ok_def n split: if_splits)
  then have "pt_inv base ?pt s1"
    using p(2,4) by (simp add: pt_inv_def)
  moreover have "pt_entry (ram s1) ?pt = Map.empty"
    by (rule ext) (simp add: pt_entry_def n indexes_eq)
  ultimately show ?thesis
    using p by (intro exI [of _ ?pt] exI [of _ s1]) (auto simp: PageTable_new_def pt_map_def)
qed


section \<open>A small memory for the examples\<close>

definition sample_mm :: mm where
  \<comment> \<open>sixteen frames from 16 on, none handed out\<close>
  "sample_mm = \<lparr>falloc = \<lparr>fa_current = 16, fa_end = 32, fa_recycled = []\<rparr>,
     ram = (\<lambda>p. if 16 \<le> p \<and> p < 32 then Some (replicate PAGE_SIZE 0) else None)\<rparr>"

lemma sample_mm_inv: "mm_inv 16 sample_mm" "mm_free 16 sample_mm = 16" "mm_used 16 sample_mm = {}"
  by (auto simp: mm_inv_def sample_mm_def fa_inv_def fa_pool_def mm_free_def mm_used_def fa_used_def)

lemma sample_table:
  obtains p pt s where "pt_inv 16 pt s" and "pt_map (ram s) pt = Map.empty" and "p \<in> mm_used 16 s - set (pt_frames pt)"
    and "ram s p = Some (replicate PAGE_SIZE 0)" and "2 \<le> mm_free 16 s"
proof -
  obtain p s1 where p: "mm_inv 16 s1" "mm_used 16 s1 = {p}" "ram s1 p = Some (replicate PAGE_SIZE 0)" "mm_free 16 s1 = 15"
    using frame_alloc_spec [OF sample_mm_inv(1)] sample_mm_inv(2,3) by auto
  have "0 < mm_free 16 s1"
    using p(4) by simp
  from PageTable_new_spec [OF p(1) this] obtain pt s where "pt_inv 16 pt s" "pt_map (ram s) pt = Map.empty"
    "set (pt_frames pt) \<inter> {p} = {}" "mm_used 16 s = {p} \<union> set (pt_frames pt)" "mm_free 16 s = 14" "ram s p = ram s1 p"
    using p by auto
  then show thesis
    using p(3) by (intro that [where p = p and pt = pt and s = s]) simp_all
qed

section \<open>Properties\<close>

text \<open>
  C27. Mapping a page: on a table in its invariant with two frames free, \<open>map\<close> of a page that is not
  mapped succeeds, adds exactly this page with its frame, its flags and V to the map the table
  stands for, creates at most two tables from frames that were free, and changes no page in use
  outside the table; \<open>translate\<close> then finds the entry. Mapping a page twice panics.
\<close>

theorem PageTable_map_refines:
  assumes inv: "pt_inv base pt s" and v: "v < 2 ^ 27" and args: "ppn < 2 ^ 44" "fl < 2 ^ 8" and room: "2 \<le> mm_free base s"
  shows "case PageTable_map v ppn fl pt s of
      None \<Rightarrow> pt_map (ram s) pt v \<noteq> None
    | Some (pt', s') \<Rightarrow> pt_map (ram s) pt v = None \<and> pt_inv base pt' s' \<and>
        pt_map (ram s') pt' = (pt_map (ram s) pt)(v \<mapsto> PageTableEntry_new ppn (fl OR PTE_V)) \<and>
        mm_used base s' - mm_used base s = set (pt_frames pt') - set (pt_frames pt) \<and> mm_free base s \<le> mm_free base s' + 2 \<and>
        (\<forall>x \<in> mm_used base s - set (pt_frames pt). ram s' x = ram s x) \<and>
        (\<exists>b. translate pt' v (ram s') = Some (Some b) \<and> pte_ppn b = ppn \<and> pte_flags b = fl OR PTE_V)"
proof (cases "pt_map (ram s) pt v")
  case (Some b)
  then show ?thesis
    using PageTable_map_spec(1) [OF assms] by simp
next
  case None
  obtain pt' s' where r: "PageTable_map v ppn fl pt s = Some (pt', s')" "pt_grows base 2 pt s pt' s'"
    "pt_map (ram s') pt' = (pt_map (ram s) pt)(v \<mapsto> PageTableEntry_new ppn (fl OR PTE_V))"
    using PageTable_map_spec(2) [OF assms None] by blast
  have ok: "pt_ok (ram s') pt'"
    using r(2) by (simp add: pt_grows_def pt_inv_def)
  have "translate pt' v (ram s') = Some (Some (PageTableEntry_new ppn (fl OR PTE_V)))"
    using translate_spec(1) [OF ok v] r(3) by simp
  then show ?thesis
    using r None pte_of_new(1,2) [OF args(1) or_V(1) [OF args(2)]] by (auto simp: pt_grows_def)
qed

theorem PageTable_map_refines_witness:
  "\<exists>pt s pt' s'. PageTable_map 5 77 0x16 pt s = Some (pt', s') \<and> pt_map (ram s) pt = Map.empty \<and>
    pt_map (ram s') pt' = [5 \<mapsto> PageTableEntry_new 77 (0x16 OR PTE_V)]"
proof -
  obtain p pt s where a: "pt_inv 16 pt s" "pt_map (ram s) pt = Map.empty" "2 \<le> mm_free 16 s"
    by (rule sample_table)
  have b: "(5 :: nat) < 2 ^ 27" "(77 :: nat) < 2 ^ 44" "(0x16 :: nat) < 2 ^ 8"
    by simp_all
  from PageTable_map_refines [OF a(1) b a(3)] a(2) show ?thesis
    by (cases "PageTable_map 5 77 0x16 pt s") auto
qed

text \<open>
  Unmapping a page: on a table in its invariant \<open>unmap\<close> of a mapped page removes exactly this
  page from the map and changes no page outside the table's own frames; unmapping a page that is
  not mapped panics.
\<close>

theorem PageTable_unmap_refines:
  assumes inv: "pt_inv base pt s" and v: "v < 2 ^ 27"
  shows "case PageTable_unmap v pt (ram s) of
      None \<Rightarrow> pt_map (ram s) pt v = None
    | Some m \<Rightarrow> pt_map (ram s) pt v \<noteq> None \<and> pt_inv base pt (s\<lparr>ram := m\<rparr>) \<and>
        pt_map m pt = (pt_map (ram s) pt)(v := None) \<and> (\<forall>x. x \<notin> set (pt_frames pt) \<longrightarrow> m x = ram s x)"
  using PageTable_unmap_spec [OF assms] by (cases "pt_map (ram s) pt v") auto

theorem PageTable_unmap_refines_witness:
  "\<exists>pt s. pt_inv 16 pt s \<and> PageTable_unmap 5 pt (ram s) = None"
proof -
  obtain p pt s where a: "pt_inv 16 pt s" "pt_map (ram s) pt = Map.empty"
    by (rule sample_table)
  have "(5 :: nat) < 2 ^ 27"
    by simp
  from PageTable_unmap_refines [OF a(1) this] a show ?thesis
    by (cases "PageTable_unmap 5 pt (ram s)") auto
qed

end
