(* ===== verification/UserBuffer.thy ===== *)
theory UserBuffer
  imports PageTableMap Utf8
begin

text \<open>
  Access to user memory from the kernel (\<^verbatim>\<open>os/src/mm/page_table.rs\<close>, \<open>translated_byte_buffer\<close> and
  below): a buffer of the user is a list of slices of physical pages, a \<open>&'static mut [u8]\<close> being
  the page, the offset of its first byte and the offset after its last one. Loops whose end depends
  on the user's memory are partial functions; the theorems show when they return.
\<close>

record page_slice =
  ps_ppn :: PhysPageNum
  ps_lo :: nat
  ps_hi :: nat

section \<open>Translation of buffers and strings\<close>

partial_function (option) translated_byte_buffer_loop :: "PageTable \<Rightarrow> ram \<Rightarrow> nat \<Rightarrow> nat \<Rightarrow> page_slice list option" where
  "translated_byte_buffer_loop pt m start fin =
     (if start < fin then do {
        let start_va = VirtAddr_from start;
        let vpn = addr_floor start_va;
        pte \<leftarrow> translate pt vpn m;
        pte \<leftarrow> pte;
        let end_va = min (page_addr (step vpn)) (VirtAddr_from fin);
        let hi = (if page_offset end_va = 0 then PAGE_SIZE else page_offset end_va);
        ensure (page_offset start_va \<le> hi);
        rest \<leftarrow> translated_byte_buffer_loop pt m end_va fin;
        Some (\<lparr>ps_ppn = pte_ppn pte, ps_lo = page_offset start_va, ps_hi = hi\<rparr> # rest) }
      else Some [])"

definition translated_byte_buffer :: "nat \<Rightarrow> nat \<Rightarrow> nat \<Rightarrow> ram \<Rightarrow> page_slice list option" where
  "translated_byte_buffer token ptr len m =
     translated_byte_buffer_loop (PageTable_from_token token) m ptr (usize (ptr + len))"

partial_function (option) translated_str_loop :: "PageTable \<Rightarrow> ram \<Rightarrow> nat \<Rightarrow> nat \<Rightarrow> bytes \<Rightarrow> bytes option" where
  "translated_str_loop pt m vpn start_va s = do {
     pte \<leftarrow> translate pt vpn m;
     pte \<leftarrow> pte;
     pg \<leftarrow> m (pte_ppn pte);
     let bs = drop (page_offset start_va) pg;
     let sl = takeWhile (\<lambda>c. c \<noteq> 0) bs;
     ensure (utf8_valid sl);
     let s = s @ sl;
     if length sl < length bs then Some s
     else translated_str_loop pt m (step vpn) (page_addr (step vpn)) s }"

definition translated_str :: "nat \<Rightarrow> nat \<Rightarrow> ram \<Rightarrow> bytes option" where
  "translated_str token ptr m =
     (let start_va = VirtAddr_from ptr in
      translated_str_loop (PageTable_from_token token) m (addr_floor start_va) start_va [])"

definition translate_ref :: "nat \<Rightarrow> nat \<Rightarrow> ram \<Rightarrow> PhysAddr option" where
  \<comment> \<open>also \<open>translated_refmut\<close>: the physical address of the value\<close>
  "translate_ref token ptr m = do {
     r \<leftarrow> translate_va (PageTable_from_token token) (VirtAddr_from ptr) m;
     r }"

definition user_store :: "nat \<Rightarrow> nat \<Rightarrow> bytes \<Rightarrow> ram \<Rightarrow> ram option" where
  \<comment> \<open>\<open>*translated_refmut(token, ptr) = v\<close> for a value \<open>v\<close> that does not cross a page, given by its bytes\<close>
  "user_store token ptr bs m = do {
     pa \<leftarrow> translate_ref token ptr m;
     pg \<leftarrow> m (addr_floor pa);
     ensure (page_offset pa + length bs \<le> length pg);
     Some (m(addr_floor pa \<mapsto> splice (page_offset pa) bs pg)) }"

definition user_load :: "nat \<Rightarrow> nat \<Rightarrow> nat \<Rightarrow> ram \<Rightarrow> bytes option" where
  \<comment> \<open>\<open>*translate_ref(token, ptr)\<close> for a value of \<open>n\<close> bytes\<close>
  "user_load token ptr n m = do {
     pa \<leftarrow> translate_ref token ptr m;
     pg \<leftarrow> m (addr_floor pa);
     ensure (page_offset pa + n \<le> length pg);
     Some (slice (page_offset pa) n pg) }"

section \<open>User buffers\<close>

definition slice_len :: "page_slice \<Rightarrow> nat" where
  "slice_len sl = ps_hi sl - ps_lo sl"

definition UserBuffer_len :: "page_slice list \<Rightarrow> nat" where
  "UserBuffer_len bufs = sum_list (map slice_len bufs)"

record UserBufferIterator =
  ub_buffers :: "page_slice list"
  curr_buf :: nat
  pos_in_buf :: nat

type_synonym byte_ref = "PhysPageNum \<times> nat"

definition UserBuffer_into_iter :: "page_slice list \<Rightarrow> UserBufferIterator" where
  "UserBuffer_into_iter bufs = \<lparr>ub_buffers = bufs, curr_buf = 0, pos_in_buf = 0\<rparr>"

definition UserBuffer_next :: "UserBufferIterator \<Rightarrow> (byte_ref option \<times> UserBufferIterator) option" where
  "UserBuffer_next it =
     (if length (ub_buffers it) \<le> curr_buf it then Some (None, it)
      else let b = ub_buffers it ! curr_buf it in do {
        ensure (pos_in_buf it < slice_len b);
        let r = (ps_ppn b, ps_lo b + pos_in_buf it);
        if pos_in_buf it + 1 = slice_len b
        then Some (Some r, it\<lparr>curr_buf := curr_buf it + 1, pos_in_buf := 0\<rparr>)
        else Some (Some r, it\<lparr>pos_in_buf := pos_in_buf it + 1\<rparr>) })"

section \<open>The bytes a buffer stands for\<close>

definition slice_refs :: "page_slice \<Rightarrow> byte_ref list" where
  "slice_refs sl = map (\<lambda>off. (ps_ppn sl, off)) [ps_lo sl..<ps_hi sl]"

definition user_ref :: "(VirtPageNum \<rightharpoonup> PageTableEntry) \<Rightarrow> nat \<Rightarrow> byte_ref" where
  \<comment> \<open>where the byte at a user address is in physical memory\<close>
  "user_ref M a = (pte_ppn (the (M (a div 4096))), a mod 4096)"

definition mapped_bytes :: "(VirtPageNum \<rightharpoonup> PageTableEntry) \<Rightarrow> nat \<Rightarrow> nat \<Rightarrow> bool" where
  "mapped_bytes M a b \<longleftrightarrow> (\<forall>x \<in> {a..<b}. M (x div 4096) \<noteq> None)"

lemma page_piece:
  assumes "a < b" and "b \<le> (a div 4096 + 1) * 4096"
  shows "map (user_ref M) [a..<b] =
    map (\<lambda>off. (pte_ppn (the (M (a div 4096))), off)) [a mod 4096..<a mod 4096 + (b - a)]"
proof -
  have "user_ref M (a + i) = (pte_ppn (the (M (a div 4096))), a mod 4096 + i)" if "i < b - a" for i
  proof -
    have "a div 4096 * 4096 \<le> a + i"
      using div_mult_mod_eq [of a 4096] by linarith
    moreover have "a + i < a div 4096 * 4096 + 4096"
      using that assms(2) by (simp add: algebra_simps)
    ultimately have "(a + i) div 4096 = a div 4096" "(a + i) mod 4096 = a + i - a div 4096 * 4096"
      using block_position [of "a div 4096" 4096 "a + i" 4096] by auto
    moreover have "a + i - a div 4096 * 4096 = a mod 4096 + i"
      using div_mult_mod_eq [of a 4096] by linarith
    ultimately show ?thesis
      by (simp add: user_ref_def)
  qed
  then show ?thesis
    by (intro nth_equalityI) auto
qed

lemma next_boundary:
  assumes "a < 2 ^ 39" and "fin < 2 ^ 39"
  shows "VirtAddr_from a = a" and "VirtAddr_from fin = fin" and "addr_floor a < 2 ^ 27"
    and "page_addr (step (addr_floor a)) = (a div 4096 + 1) * 4096"
proof -
  have f: "a div 4096 < 2 ^ 27"
    using assms(1) by (simp add: div_less_iff_less_mult)
  then have "step (addr_floor a) = a div 4096 + 1"
    by (simp add: step_def addr_floor_div usize_def)
  then show "page_addr (step (addr_floor a)) = (a div 4096 + 1) * 4096"
    using f by (simp add: page_addr_mult)
  show "addr_floor a < 2 ^ 27"
    using f by (simp add: addr_floor_div)
qed (use assms in \<open>simp_all add: VirtAddr_from_mod\<close>)

lemma translate_root: "root_ppn pt0 = root_ppn pt \<Longrightarrow> translate pt0 v m = translate pt v m"
  by (simp add: translate_def find_pte_def)

lemma token_root:
  assumes "root_ppn pt < 2 ^ 44"
  shows "root_ppn (PageTable_from_token (PageTable_token pt)) = root_ppn pt"
proof -
  have "PageTable_token pt = 8 * 2 ^ 60 + root_ppn pt"
    using bit_or_low [of "root_ppn pt" 60 8] assms by (simp add: PageTable_token_def usize_def push_bit_eq_mult)
  moreover have "(8 * 2 ^ 60 + root_ppn pt) mod 2 ^ 44 = root_ppn pt"
  proof -
    have "(root_ppn pt + (8 * 2 ^ 16) * 2 ^ 44) mod 2 ^ 44 = root_ppn pt"
      using assms by (subst mod_mult_self1) simp
    then show ?thesis
      by (simp add: add.commute)
  qed
  ultimately show ?thesis
    using and_mask_mod [of _ 44] PhysPageNum_from_mod
    by (simp add: PageTable_from_token_def PPN_MASK_def page_consts push_bit_eq_mult)
qed

lemma translated_loop_spec:
  assumes root: "root_ppn pt0 = root_ppn pt" and ok: "pt_ok m pt" and fin: "fin < 2 ^ 39" and mapped: "mapped_bytes (pt_map m pt) start fin"
  shows "\<exists>segs. translated_byte_buffer_loop pt0 m start fin = Some segs \<and>
    concat (map slice_refs segs) = map (user_ref (pt_map m pt)) [start..<fin] \<and>
    (\<forall>sl \<in> set segs. ps_lo sl < ps_hi sl \<and> ps_hi sl \<le> PAGE_SIZE)"
  using mapped
proof (induction "fin - start" arbitrary: start rule: less_induct)
  case less
  show ?case
  proof (cases "start < fin")
    case False
    then show ?thesis
      by (simp add: translated_byte_buffer_loop.simps)
  next
    case True
    let ?nb = "(start div 4096 + 1) * 4096" and ?M = "pt_map m pt"
    have s39: "start < 2 ^ 39"
      using True fin by simp
    note B = next_boundary [OF s39 fin]
    define e where "e = min ?nb fin"
    have gt: "start < ?nb"
      using div_mult_mod_eq [of start 4096] mod_less_divisor [of 4096 start] by simp
    have e: "start < e" "e \<le> fin" "e \<le> ?nb"
      using gt True by (simp_all add: e_def)
    obtain b where b: "?M (start div 4096) = Some b"
      using less.prems True by (force simp: mapped_bytes_def)
    have t: "translate pt0 (addr_floor start) m = Some (Some b)"
      using translate_spec(1) [OF ok B(3)] b translate_root [OF root] by (simp add: addr_floor_div)
    define hi where "hi = (if page_offset e = 0 then PAGE_SIZE else page_offset e)"
    have hi: "hi = start mod 4096 + (e - start)"
    proof (cases "e = ?nb")
      case True
      then show ?thesis
        using div_mult_mod_eq [of start 4096] by (simp add: hi_def page_offset_mod PAGE_SIZE_def)
    next
      case False
      define q r where "q = start div 4096" and "r = start mod 4096"
      then have st: "start = q * 4096 + r"
        by simp
      have "?nb = q * 4096 + 4096"
        by (simp add: q_def)
      then have "e < q * 4096 + 4096" "q * 4096 \<le> e"
        using e(1,3) False st by linarith+
      then have "e mod 4096 = e - q * 4096"
        using block_position [of q 4096 e 4096] by simp
      then show ?thesis
        using e(1) unfolding hi_def page_offset_mod r_def [symmetric] st by simp
    qed
    obtain segs where IH: "translated_byte_buffer_loop pt0 m e fin = Some segs"
      "concat (map slice_refs segs) = map (user_ref ?M) [e..<fin]"
      "\<forall>sl \<in> set segs. ps_lo sl < ps_hi sl \<and> ps_hi sl \<le> PAGE_SIZE"
    proof -
      have "mapped_bytes ?M e fin"
        using less.prems e(1) by (auto simp: mapped_bytes_def)
      moreover have "fin - e < fin - start"
        using e(1) True by simp
      ultimately show ?thesis
        using less.hyps that by blast
    qed
    let ?sl = "\<lparr>ps_ppn = pte_ppn b, ps_lo = start mod 4096, ps_hi = hi\<rparr>"
    have ee: "min (page_addr (step (addr_floor start))) (VirtAddr_from fin) = e"
      by (simp add: B e_def)
    have "translated_byte_buffer_loop pt0 m start fin = Some (?sl # segs)"
      unfolding translated_byte_buffer_loop.simps [of pt0 m start] Let_def B(1) ee hi_def [symmetric]
      using True t IH(1) hi by (simp add: page_offset_mod)
    moreover have "slice_refs ?sl = map (user_ref ?M) [start..<e]"
      using page_piece [OF e(1,3), of ?M] b hi by (simp add: slice_refs_def)
    moreover have "[start..<e] @ [e..<fin] = [start..<fin]"
      using upt_add_eq_append [of start e "fin - e"] e by simp
    moreover have "hi \<le> PAGE_SIZE"
      using page_offset_less [of e] by (simp add: hi_def)
    ultimately show ?thesis
      using IH(2,3) hi e(1) by (intro exI [of _ "?sl # segs"]) (auto simp flip: map_append)
  qed
qed


section \<open>Iterating over a buffer\<close>

definition it_refs :: "UserBufferIterator \<Rightarrow> byte_ref list" where
  \<comment> \<open>what the iterator still has to yield\<close>
  "it_refs it = (case drop (curr_buf it) (ub_buffers it) of [] \<Rightarrow> []
     | b # bs \<Rightarrow> drop (pos_in_buf it) (slice_refs b) @ concat (map slice_refs bs))"

definition it_ok :: "UserBufferIterator \<Rightarrow> bool" where
  "it_ok it \<longleftrightarrow> (\<forall>b \<in> set (ub_buffers it). 0 < slice_len b) \<and>
     (curr_buf it < length (ub_buffers it) \<longrightarrow> pos_in_buf it < slice_len (ub_buffers it ! curr_buf it)) \<and>
     (length (ub_buffers it) \<le> curr_buf it \<longrightarrow> pos_in_buf it = 0)"

fun UserBuffer_drain :: "nat \<Rightarrow> UserBufferIterator \<Rightarrow> (byte_ref list \<times> UserBufferIterator) option" where
  \<comment> \<open>what a loop over the iterator sees in at most \<open>n\<close> rounds\<close>
  "UserBuffer_drain 0 it = Some ([], it)"
| "UserBuffer_drain (Suc n) it = do {
     (r, it') \<leftarrow> UserBuffer_next it;
     case r of None \<Rightarrow> Some ([], it')
     | Some x \<Rightarrow> do { (xs, it'') \<leftarrow> UserBuffer_drain n it'; Some (x # xs, it'') } }"

lemma slice_refs_drop:
  "i < slice_len b \<Longrightarrow> drop i (slice_refs b) = (ps_ppn b, ps_lo b + i) # drop (Suc i) (slice_refs b)"
  "slice_len b \<le> i \<Longrightarrow> drop i (slice_refs b) = []"
  using Cons_nth_drop_Suc [of i "slice_refs b"] by (auto simp: slice_refs_def slice_len_def)

lemma UserBuffer_next_refs:
  assumes "it_ok it"
  shows "\<exists>it'. UserBuffer_next it = Some (if it_refs it = [] then None else Some (hd (it_refs it)), it') \<and> it_ok it' \<and>
    it_refs it' = tl (it_refs it)"
proof (cases "curr_buf it < length (ub_buffers it)")
  case False
  then show ?thesis
    using assms by (simp add: UserBuffer_next_def it_refs_def)
next
  case True
  define b where "b = ub_buffers it ! curr_buf it"
  have d: "drop (curr_buf it) (ub_buffers it) = b # drop (Suc (curr_buf it)) (ub_buffers it)"
    using True by (simp add: b_def Cons_nth_drop_Suc)
  have pos: "pos_in_buf it < slice_len b"
    using assms True by (simp add: it_ok_def b_def)
  have refs: "it_refs it = (ps_ppn b, ps_lo b + pos_in_buf it) # drop (Suc (pos_in_buf it)) (slice_refs b) @
      concat (map slice_refs (drop (Suc (curr_buf it)) (ub_buffers it)))"
    using slice_refs_drop(1) [OF pos] by (simp add: it_refs_def d)
  show ?thesis
  proof (cases "pos_in_buf it + 1 = slice_len b")
    case False
    then show ?thesis
      using True pos assms refs d by (simp add: UserBuffer_next_def Let_def b_def [symmetric] it_refs_def it_ok_def)
  next
    case last: True
    let ?it = "it\<lparr>curr_buf := curr_buf it + 1, pos_in_buf := 0\<rparr>"
    have "it_refs ?it = concat (map slice_refs (drop (Suc (curr_buf it)) (ub_buffers it)))"
      by (simp add: it_refs_def split: list.splits)
    moreover have "drop (Suc (pos_in_buf it)) (slice_refs b) = []"
      using last by (intro slice_refs_drop(2)) simp
    moreover have "it_ok ?it"
      using assms by (auto simp: it_ok_def)
    ultimately show ?thesis
      using True pos refs last by (simp add: UserBuffer_next_def Let_def b_def [symmetric])
  qed
qed

lemma UserBuffer_drain_refs:
  assumes "it_ok it"
  shows "\<exists>it'. UserBuffer_drain n it = Some (take n (it_refs it), it') \<and> it_refs it' = drop n (it_refs it) \<and> it_ok it'"
  using assms
proof (induction n arbitrary: it)
  case 0
  then show ?case by simp
next
  case (Suc n)
  obtain it1 where n: "UserBuffer_next it = Some (if it_refs it = [] then None else Some (hd (it_refs it)), it1)" "it_ok it1"
    "it_refs it1 = tl (it_refs it)"
    using UserBuffer_next_refs [OF Suc.prems] by blast
  show ?case
    using n Suc.IH [OF n(2)] by (cases "it_refs it") auto
qed


section \<open>Strings\<close>

definition user_byte :: "(VirtPageNum \<rightharpoonup> PageTableEntry) \<Rightarrow> ram \<Rightarrow> nat \<Rightarrow> byte" where
  "user_byte M m a = the (m (fst (user_ref M a))) ! snd (user_ref M a)"

definition backed :: "(VirtPageNum \<rightharpoonup> PageTableEntry) \<Rightarrow> ram \<Rightarrow> bool" where
  "backed M m \<longleftrightarrow> (\<forall>v b. M v = Some b \<longrightarrow> (\<exists>pg. m (pte_ppn b) = Some pg \<and> length pg = PAGE_SIZE))"

lemma page_tail:
  assumes b: "M (a div 4096) = Some b" and pg: "m (pte_ppn b) = Some pg" "length pg = PAGE_SIZE"
  shows "drop (a mod 4096) pg = map (user_byte M m) [a..<(a div 4096 + 1) * 4096]"
proof -
  let ?nb = "(a div 4096 + 1) * 4096"
  have lt: "a < ?nb"
    using div_mult_mod_eq [of a 4096] mod_less_divisor [of 4096 a] by simp
  have len: "a mod 4096 + (?nb - a) = 4096"
    using div_mult_mod_eq [of a 4096] lt by simp
  have "map (user_byte M m) [a..<?nb] = map (\<lambda>(p, off). the (m p) ! off) (map (user_ref M) [a..<?nb])"
    by (simp add: user_byte_def case_prod_unfold)
  also have "\<dots> = map (\<lambda>off. pg ! off) [a mod 4096..<4096]"
    unfolding page_piece [OF lt order_refl] len using b pg(1) by simp
  also have "\<dots> = drop (a mod 4096) pg"
    using pg(2) by (intro nth_equalityI) (simp_all add: PAGE_SIZE_def)
  finally show ?thesis ..
qed

lemma takeWhile_map_upt:
  assumes "a \<le> z" and "z \<le> n" and "\<forall>x \<in> {a..<z}. f x \<noteq> (0 :: byte)" and "z < n \<Longrightarrow> f z = 0"
  shows "takeWhile (\<lambda>c. c \<noteq> 0) (map f [a..<n]) = map f [a..<z]"
proof -
  have "[a..<n] = [a..<z] @ [z..<n]"
    using upt_add_eq_append [of a z "n - z"] assms(1,2) by simp
  moreover have "takeWhile (\<lambda>c. c \<noteq> 0) (map f [z..<n]) = []"
    using assms(4) by (cases "z < n") (simp_all add: upt_conv_Cons)
  moreover have "takeWhile (\<lambda>c. c \<noteq> 0) (map f [a..<z] @ ys) = map f [a..<z] @ takeWhile (\<lambda>c. c \<noteq> 0) ys" for ys
    using assms(3) by (intro takeWhile_append2) auto
  ultimately show ?thesis
    by simp
qed

lemma translated_str_loop_spec:
  assumes root: "root_ppn pt0 = root_ppn pt" and ok: "pt_ok m pt" and backed: "backed (pt_map m pt) m" and z: "z < 2 ^ 39"
    and M: "M = pt_map m pt" and "a \<le> z" and "mapped_bytes M a (z + 1)"
    and "\<forall>x \<in> {a..<z}. user_byte M m x \<noteq> 0 \<and> user_byte M m x < 0x80" and "user_byte M m z = 0"
  shows "translated_str_loop pt0 m (a div 4096) a s = Some (s @ map (user_byte M m) [a..<z])"
  using assms(6-)
proof (induction "z - a" arbitrary: a s rule: less_induct)
  case less
  let ?nb = "(a div 4096 + 1) * 4096" and ?f = "user_byte M m"
  have a39: "a < 2 ^ 39"
    using less.prems(1) z by simp
  note B = next_boundary [OF a39 a39]
  obtain b where b: "M (a div 4096) = Some b"
    using less.prems(1,2) by (force simp: mapped_bytes_def)
  obtain pg where pg: "m (pte_ppn b) = Some pg" "length pg = PAGE_SIZE"
    using backed b by (auto simp: backed_def M)
  have t: "translate pt0 (a div 4096) m = Some (Some b)"
    using translate_spec(1) [OF ok B(3)] b translate_root [OF root] by (simp add: addr_floor_div M)
  have bs: "drop (page_offset a) pg = map ?f [a..<?nb]"
    using page_tail [of M a b m pg] b pg by (simp add: page_offset_mod)
  have len: "length pg - page_offset a = ?nb - a"
    using arg_cong [OF bs, of length] by simp
  have lt: "a < ?nb"
    using div_mult_mod_eq [of a 4096] mod_less_divisor [of 4096 a] by simp
  have loop: "translated_str_loop pt0 m (a div 4096) a s =
      (let sl = takeWhile (\<lambda>c. c \<noteq> 0) (map ?f [a..<?nb]) in
       if \<not> utf8_valid sl then None
       else if length sl < ?nb - a then Some (s @ sl)
       else translated_str_loop pt0 m (step (a div 4096)) (page_addr (step (a div 4096))) (s @ sl))"
    unfolding translated_str_loop.simps [of pt0 m "a div 4096" a] bs [symmetric] len [symmetric] Let_def using t pg(1) by simp
  have asc: "utf8_valid (map ?f [a..<k])" if "k \<le> z" for k
    using less.prems(3) that by (intro utf8_valid_ascii) auto
  show ?case
  proof (cases "z < ?nb")
    case True
    then have tw: "takeWhile (\<lambda>c. c \<noteq> 0) (map ?f [a..<?nb]) = map ?f [a..<z]"
      using less.prems by (intro takeWhile_map_upt) auto
    have "z - a < ?nb - a"
      using True less.prems(1) by linarith
    then show ?thesis
      unfolding loop Let_def tw using asc [OF order_refl] by simp
  next
    case False
    then have z': "?nb \<le> z"
      by simp
    have tw: "takeWhile (\<lambda>c. c \<noteq> 0) (map ?f [a..<?nb]) = map ?f [a..<?nb]"
      using less.prems(3) z' lt by (intro takeWhile_map_upt) auto
    have st: "step (a div 4096) = a div 4096 + 1" "page_addr (step (a div 4096)) = ?nb"
      using B(3,4) by (simp_all add: addr_floor_div step_def usize_def)
    moreover have "translated_str_loop pt0 m (?nb div 4096) ?nb (s @ map ?f [a..<?nb]) =
        Some ((s @ map ?f [a..<?nb]) @ map ?f [?nb..<z])"
      using less.prems z' lt by (intro less.hyps) (auto simp: mapped_bytes_def)
    moreover have "[a..<?nb] @ [?nb..<z] = [a..<z]"
      using upt_add_eq_append [of a ?nb "z - ?nb"] lt z' by simp
    moreover have "?nb div 4096 = a div 4096 + 1"
      by simp
    ultimately show ?thesis
      unfolding loop Let_def tw st using asc [OF z'] by (simp flip: map_append)
  qed
qed


section \<open>Properties\<close>

lemma pt_root_bound: "pt_inv base pt s \<Longrightarrow> root_ppn pt < 2 ^ 44"
  using pt_invD mm_used_bound by blast

lemma translated_segs:
  assumes inv: "pt_inv base pt s" and range: "ptr + len < 2 ^ 39" and mapped: "mapped_bytes (pt_map (ram s) pt) ptr (ptr + len)"
  obtains segs where "translated_byte_buffer (PageTable_token pt) ptr len (ram s) = Some segs"
    and "concat (map slice_refs segs) = map (user_ref (pt_map (ram s) pt)) [ptr..<ptr + len]"
    and "\<forall>sl \<in> set segs. ps_lo sl < ps_hi sl \<and> ps_hi sl \<le> PAGE_SIZE"
proof -
  note root = token_root [OF pt_root_bound [OF inv]]
  have "usize (ptr + len) = ptr + len"
    using range by (simp add: usize_def)
  then show thesis
    using that translated_loop_spec [OF root pt_invD(2) [OF inv] range mapped] unfolding translated_byte_buffer_def by auto
qed

text \<open>
  Translating a user buffer: for a range of the user's address space below \<open>2 ^ 39\<close> whose pages
  are all mapped, \<open>translated_byte_buffer\<close> returns; its slices are not empty, add up to the length
  of the buffer, and iterating over them as a \<open>UserBuffer\<close> yields the physical place of every byte of
  the range, in order, and then ends.
\<close>

theorem translated_byte_buffer_covers:
  assumes inv: "pt_inv base pt s" and range: "ptr + len < 2 ^ 39" and mapped: "mapped_bytes (pt_map (ram s) pt) ptr (ptr + len)"
  shows "\<exists>segs it. translated_byte_buffer (PageTable_token pt) ptr len (ram s) = Some segs \<and> UserBuffer_len segs = len \<and>
    (\<forall>sl \<in> set segs. ps_lo sl < ps_hi sl \<and> ps_hi sl \<le> PAGE_SIZE) \<and>
    UserBuffer_drain (len + n) (UserBuffer_into_iter segs) = Some (map (user_ref (pt_map (ram s) pt)) [ptr..<ptr + len], it)"
proof -
  obtain segs where r: "translated_byte_buffer (PageTable_token pt) ptr len (ram s) = Some segs"
    "concat (map slice_refs segs) = map (user_ref (pt_map (ram s) pt)) [ptr..<ptr + len]"
    "\<forall>sl \<in> set segs. ps_lo sl < ps_hi sl \<and> ps_hi sl \<le> PAGE_SIZE"
    by (rule translated_segs [OF assms])
  have "length (concat (map slice_refs segs)) = UserBuffer_len segs"
    by (simp add: UserBuffer_len_def length_concat slice_refs_def slice_len_def [abs_def] comp_def)
  then have len: "UserBuffer_len segs = len"
    using r(2) by simp
  have it: "it_ok (UserBuffer_into_iter segs)"
    using r(3) by (auto simp: it_ok_def UserBuffer_into_iter_def slice_len_def)
  have refs: "it_refs (UserBuffer_into_iter segs) = concat (map slice_refs segs)"
    by (simp add: it_refs_def UserBuffer_into_iter_def split: list.splits)
  show ?thesis
    using r len UserBuffer_drain_refs [OF it, of "len + n"] unfolding refs by auto
qed

lemma sample_mapped:
  obtains pt s where "pt_inv 16 pt s" and "\<exists>b. pt_map (ram s) pt = [1 \<mapsto> b] \<and> ram s (pte_ppn b) = Some (replicate PAGE_SIZE 0)"
proof -
  obtain p pt s where a: "pt_inv 16 pt s" "pt_map (ram s) pt = Map.empty" "p \<in> mm_used 16 s - set (pt_frames pt)"
    "ram s p = Some (replicate PAGE_SIZE 0)" "2 \<le> mm_free 16 s"
    by (rule sample_table)
  have p: "p < 2 ^ 44" "(1 :: nat) < 2 ^ 27" "(0x16 :: nat) < 2 ^ 8"
    using mm_used_bound [OF pt_invD(1) [OF a(1)]] a(3) by simp_all
  obtain pt' s' where m: "pt_grows 16 2 pt s pt' s'" "pt_map (ram s') pt' = [1 \<mapsto> PageTableEntry_new p (0x16 OR PTE_V)]"
    using PageTable_map_spec(2) [OF a(1) p(2,1,3) a(5)] a(2) by auto
  then have "pt_inv 16 pt' s'" "ram s' p = Some (replicate PAGE_SIZE 0)"
    using a(3,4) by (auto simp: pt_grows_def)
  moreover have "pte_ppn (PageTableEntry_new p (0x16 OR PTE_V)) = p"
    using pte_of_new(1) [OF p(1) or_V(1) [OF p(3)]] .
  ultimately show thesis
    using m(2) by (intro that [where pt = pt' and s = s'] exI [of _ "PageTableEntry_new p (0x16 OR PTE_V)"]) simp_all
qed

theorem translated_byte_buffer_covers_witness:
  "\<exists>pt s segs. pt_inv 16 pt s \<and> translated_byte_buffer (PageTable_token pt) 4100 7 (ram s) = Some segs \<and> UserBuffer_len segs = 7"
proof -
  obtain pt s b where a: "pt_inv 16 pt s" "pt_map (ram s) pt = [1 \<mapsto> b]"
    using sample_mapped by metis
  have "x div 4096 = 1" if "x \<in> {4100..<4100 + 7}" for x :: nat
    using that block_position(1) [of 1 4096 x 4096] by simp
  then have "mapped_bytes (pt_map (ram s) pt) 4100 (4100 + 7)"
    by (simp add: mapped_bytes_def a(2))
  moreover have "(4100 :: nat) + 7 < 2 ^ 39"
    by simp
  ultimately show ?thesis
    using translated_byte_buffer_covers [OF a(1), of 4100 7] a(1) by blast
qed

text \<open>
  Reading a string of the user: when the string ends with a zero byte below \<open>2 ^ 39\<close>, its pages
  are mapped and its bytes are ASCII, \<open>translated_str\<close> returns exactly the bytes before the zero,
  across any number of pages.
\<close>

theorem translated_str_reads:
  assumes inv: "pt_inv base pt s" and backed: "backed (pt_map (ram s) pt) (ram s)" and z: "ptr \<le> z" "z < 2 ^ 39"
    and mapped: "mapped_bytes (pt_map (ram s) pt) ptr (z + 1)"
    and str: "\<forall>x \<in> {ptr..<z}. user_byte (pt_map (ram s) pt) (ram s) x \<noteq> 0 \<and> user_byte (pt_map (ram s) pt) (ram s) x < 0x80"
      "user_byte (pt_map (ram s) pt) (ram s) z = 0"
  shows "translated_str (PageTable_token pt) ptr (ram s) = Some (map (user_byte (pt_map (ram s) pt) (ram s)) [ptr..<z])"
proof -
  have "VirtAddr_from ptr = ptr"
    using z by (simp add: VirtAddr_from_mod)
  then show ?thesis
    using translated_str_loop_spec [OF token_root [OF pt_root_bound [OF inv]] pt_invD(2) [OF inv] backed z(2) refl z(1) mapped str]
    by (simp add: translated_str_def addr_floor_div)
qed

theorem translated_str_reads_witness:
  "\<exists>pt s. pt_inv 16 pt s \<and> translated_str (PageTable_token pt) 4100 (ram s) = Some []"
proof -
  obtain pt s b where a: "pt_inv 16 pt s" "pt_map (ram s) pt = [1 \<mapsto> b]" "ram s (pte_ppn b) = Some (replicate PAGE_SIZE 0)"
    using sample_mapped by metis
  have "backed (pt_map (ram s) pt) (ram s)"
    using a(2,3) by (simp add: backed_def)
  moreover have "(4100 :: nat) div 4096 = 1"
    by simp
  moreover from this have "user_byte (pt_map (ram s) pt) (ram s) 4100 = 0"
    using a(2,3) by (simp add: user_byte_def user_ref_def PAGE_SIZE_def)
  moreover have "mapped_bytes (pt_map (ram s) pt) 4100 (4100 + 1)"
  proof -
    have "x = 4100" if "x \<in> {4100..<4100 + 1}" for x :: nat
      using that by simp
    then show ?thesis
      using a(2) by (auto simp: mapped_bytes_def)
  qed
  ultimately show ?thesis
    using translated_str_reads [OF a(1), of 4100 4100] a(1) by auto
qed

end
