(* ===== verification/Pipe.thy ===== *)
theory Pipe
  imports UserBuffer
begin

text \<open>
  Pipes (\<^verbatim>\<open>os/src/fs/pipe.rs\<close>). The ring buffer is shown to be a bounded first-in first-out queue
  (the locale \<open>bounded_queue\<close>). A \<open>read\<close> or \<open>write\<close> call gives up the processor when it can
  not go on; the state of such a call is a record, a turn of it is what it does from one suspension
  to the next, and a step relation interleaves the turns of any number of calls with the stores of
  user programs and the closing of the write end.
\<close>

section \<open>Queues of bounded capacity\<close>

fun put_many :: "('a \<Rightarrow> 'q \<Rightarrow> 'q option) \<Rightarrow> 'a list \<Rightarrow> 'q \<Rightarrow> 'q option" where
  "put_many put [] q = Some q"
| "put_many put (x # xs) q = do { q \<leftarrow> put x q; put_many put xs q }"

fun get_many :: "('q \<Rightarrow> ('a \<times> 'q) option) \<Rightarrow> nat \<Rightarrow> 'q \<Rightarrow> ('a list \<times> 'q) option" where
  "get_many get 0 q = Some ([], q)"
| "get_many get (Suc n) q = do { (x, q) \<leftarrow> get q; (xs, q) \<leftarrow> get_many get n q; Some (x # xs, q) }"

locale bounded_queue =
  fixes put :: "'a \<Rightarrow> 'q \<Rightarrow> 'q option"
    and get :: "'q \<Rightarrow> ('a \<times> 'q) option"
    and avail_read :: "'q \<Rightarrow> nat"
    and avail_write :: "'q \<Rightarrow> nat"
    and contents :: "'q \<Rightarrow> 'a list"
    and invar :: "'q \<Rightarrow> bool"
    and capacity :: nat
  assumes put_law: "invar q \<Longrightarrow> length (contents q) < capacity \<Longrightarrow>
      \<exists>q'. put x q = Some q' \<and> invar q' \<and> contents q' = contents q @ [x]"
    and get_law: "invar q \<Longrightarrow> contents q = x # xs \<Longrightarrow>
      \<exists>q'. get q = Some (x, q') \<and> invar q' \<and> contents q' = xs"
    and avail_read_law: "invar q \<Longrightarrow> avail_read q = length (contents q)"
    and avail_write_law: "invar q \<Longrightarrow> avail_write q = capacity - length (contents q)"
    and capacity_law: "invar q \<Longrightarrow> length (contents q) \<le> capacity"
begin

lemma put_many_contents:
  assumes "invar q" and "length (contents q) + length xs \<le> capacity"
  shows "\<exists>q'. put_many put xs q = Some q' \<and> invar q' \<and> contents q' = contents q @ xs"
  using assms
proof (induction xs arbitrary: q)
  case Nil
  then show ?case by simp
next
  case (Cons x xs)
  obtain q1 where "put x q = Some q1" "invar q1" "contents q1 = contents q @ [x]"
    using put_law [of q x] Cons.prems by auto
  then show ?case
    using Cons.IH [of q1] Cons.prems by auto
qed

lemma get_many_contents:
  assumes "invar q" and "n \<le> length (contents q)"
  shows "\<exists>q'. get_many get n q = Some (take n (contents q), q') \<and> invar q' \<and> contents q' = drop n (contents q)"
  using assms
proof (induction n arbitrary: q)
  case 0
  then show ?case by simp
next
  case (Suc n)
  then obtain x xs where q: "contents q = x # xs"
    by (cases "contents q") auto
  then obtain q1 where "get q = Some (x, q1)" "invar q1" "contents q1 = xs"
    using get_law Suc.prems by blast
  then show ?case
    using Suc.IH [of q1] Suc.prems q by auto
qed

lemma first_in_first_out:
  assumes "invar q" and "length xs \<le> avail_write q"
  shows "\<exists>q1 q2. put_many put xs q = Some q1 \<and> avail_read q1 = avail_read q + length xs \<and>
    get_many get (avail_read q + length xs) q1 = Some (contents q @ xs, q2) \<and> avail_read q2 = 0"
proof -
  have fits: "length (contents q) + length xs \<le> capacity"
    using assms avail_write_law [OF assms(1)] capacity_law [OF assms(1)] by simp
  obtain q1 where q1: "put_many put xs q = Some q1" "invar q1" "contents q1 = contents q @ xs"
    using put_many_contents [OF assms(1) fits] by auto
  then obtain q2 where "get_many get (length (contents q @ xs)) q1 = Some (contents q @ xs, q2)" "invar q2"
      "contents q2 = []"
    using get_many_contents [of q1 "length (contents q @ xs)"] by auto
  then show ?thesis
    using q1 assms(1) by (simp add: avail_read_law)
qed

end

section \<open>The ring buffer\<close>

definition RING_BUFFER_SIZE :: nat where "RING_BUFFER_SIZE = 32"

datatype RingBufferStatus = FULL | EMPTY | NORMAL

record PipeRingBuffer =
  rb_arr :: bytes
  rb_head :: nat
  rb_tail :: nat
  rb_status :: RingBufferStatus
  rb_write_end :: "nat option" \<comment> \<open>the object that the weak reference points to\<close>

definition PipeRingBuffer_new :: PipeRingBuffer where
  "PipeRingBuffer_new = \<lparr>rb_arr = replicate RING_BUFFER_SIZE 0, rb_head = 0, rb_tail = 0, rb_status = EMPTY,
     rb_write_end = None\<rparr>"

definition set_write_end :: "nat \<Rightarrow> PipeRingBuffer \<Rightarrow> PipeRingBuffer" where
  "set_write_end w rb = rb\<lparr>rb_write_end := Some w\<rparr>"

definition read_byte :: "PipeRingBuffer \<Rightarrow> (byte \<times> PipeRingBuffer) option" where
  "read_byte rb = do {
     let rb = rb\<lparr>rb_status := NORMAL\<rparr>;
     c \<leftarrow> index_get (rb_arr rb) (rb_head rb);
     let rb = rb\<lparr>rb_head := (rb_head rb + 1) mod RING_BUFFER_SIZE\<rparr>;
     let rb = (if rb_head rb = rb_tail rb then rb\<lparr>rb_status := EMPTY\<rparr> else rb);
     Some (c, rb) }"

definition write_byte :: "byte \<Rightarrow> PipeRingBuffer \<Rightarrow> PipeRingBuffer option" where
  "write_byte b rb = do {
     let rb = rb\<lparr>rb_status := NORMAL\<rparr>;
     arr \<leftarrow> index_set (rb_arr rb) (rb_tail rb) b;
     let rb = rb\<lparr>rb_arr := arr, rb_tail := (rb_tail rb + 1) mod RING_BUFFER_SIZE\<rparr>;
     Some (if rb_head rb = rb_tail rb then rb\<lparr>rb_status := FULL\<rparr> else rb) }"

definition available_read :: "PipeRingBuffer \<Rightarrow> nat" where
  "available_read rb =
     (if rb_status rb = EMPTY then 0
      else if rb_head rb < rb_tail rb then rb_tail rb - rb_head rb
      else rb_tail rb + RING_BUFFER_SIZE - rb_head rb)"

definition available_write :: "PipeRingBuffer \<Rightarrow> nat" where
  "available_write rb = (if rb_status rb = FULL then 0 else RING_BUFFER_SIZE - available_read rb)"

definition all_write_ends_closed :: "(nat \<Rightarrow> bool) \<Rightarrow> PipeRingBuffer \<Rightarrow> bool option" where
  \<comment> \<open>\<open>alive w\<close>: the object \<open>w\<close> still has a strong reference, so that \<open>upgrade\<close> succeeds\<close>
  "all_write_ends_closed alive rb = (case rb_write_end rb of Some w \<Rightarrow> Some (\<not> alive w) | None \<Rightarrow> None)"

section \<open>The ring buffer is a bounded queue\<close>

definition ring_inv :: "nat option \<Rightarrow> PipeRingBuffer \<Rightarrow> bool" where
  "ring_inv w rb \<longleftrightarrow> length (rb_arr rb) = RING_BUFFER_SIZE \<and> rb_head rb < RING_BUFFER_SIZE \<and>
     rb_tail rb < RING_BUFFER_SIZE \<and> (rb_status rb = NORMAL \<longleftrightarrow> rb_head rb \<noteq> rb_tail rb) \<and> rb_write_end rb = w"

definition ring_contents :: "PipeRingBuffer \<Rightarrow> bytes" where
  "ring_contents rb = map (\<lambda>i. rb_arr rb ! ((rb_head rb + i) mod RING_BUFFER_SIZE)) [0..<available_read rb]"

lemma available_read_le: "ring_inv w rb \<Longrightarrow> available_read rb \<le> RING_BUFFER_SIZE"
  by (auto simp: ring_inv_def available_read_def)

lemma available_read_full:
  "ring_inv w rb \<Longrightarrow> available_read rb = RING_BUFFER_SIZE \<longleftrightarrow> rb_status rb = FULL"
  by (cases "rb_status rb") (auto simp: ring_inv_def available_read_def RING_BUFFER_SIZE_def)

lemma mod_32_less: "(a :: nat) < 32 \<Longrightarrow> (a + 1) mod 32 = (if a = 31 then 0 else a + 1)"
  by auto

lemma tail_position:
  assumes "ring_inv w rb"
  shows "(rb_head rb + available_read rb) mod RING_BUFFER_SIZE = rb_tail rb"
  using assms by (cases "rb_status rb") (auto simp: ring_inv_def available_read_def RING_BUFFER_SIZE_def)

definition next_pos :: "nat \<Rightarrow> nat" where
  "next_pos i = (i + 1) mod RING_BUFFER_SIZE"

lemma next_pos_eq: "i < RING_BUFFER_SIZE \<Longrightarrow> next_pos i = (if i = 31 then 0 else i + 1)"
  by (simp add: next_pos_def RING_BUFFER_SIZE_def mod_32_less)

lemma write_byte_eq:
  "rb_tail rb < length (rb_arr rb) \<Longrightarrow> write_byte b rb = Some (rb\<lparr>rb_arr := (rb_arr rb)[rb_tail rb := b],
     rb_tail := next_pos (rb_tail rb), rb_status := (if rb_head rb = next_pos (rb_tail rb) then FULL else NORMAL)\<rparr>)"
  by (simp add: write_byte_def next_pos_def)

lemma read_byte_eq:
  "rb_head rb < length (rb_arr rb) \<Longrightarrow> read_byte rb = Some (rb_arr rb ! rb_head rb, rb\<lparr>
     rb_head := next_pos (rb_head rb), rb_status := (if next_pos (rb_head rb) = rb_tail rb then EMPTY else NORMAL)\<rparr>)"
  by (simp add: read_byte_def next_pos_def)

lemma next_pos_count:
  \<comment> \<open>one position further is one byte more, or one byte less\<close>
  assumes "h < RING_BUFFER_SIZE" and "t < RING_BUFFER_SIZE" and "h \<noteq> t"
  shows "(if h < t then t - h else t + RING_BUFFER_SIZE - h) + 1 =
      (if h < next_pos t then next_pos t - h else next_pos t + RING_BUFFER_SIZE - h)"
    and "next_pos h \<noteq> t \<Longrightarrow> (if h < t then t - h else t + RING_BUFFER_SIZE - h) =
      (if next_pos h < t then t - next_pos h else t + RING_BUFFER_SIZE - next_pos h) + 1"
    and "next_pos h = t \<Longrightarrow> (if h < t then t - h else t + RING_BUFFER_SIZE - h) = 1"
  using assms by (auto simp: next_pos_eq RING_BUFFER_SIZE_def split: if_splits)

lemma next_pos_less: "next_pos i < RING_BUFFER_SIZE"
  by (simp add: next_pos_def RING_BUFFER_SIZE_def)

lemma next_pos_empty:
  assumes "t < RING_BUFFER_SIZE"
  shows "next_pos t \<noteq> t" "(if t < next_pos t then next_pos t - t else next_pos t + RING_BUFFER_SIZE - t) = 1"
    "(if next_pos t < t then t - next_pos t else t + RING_BUFFER_SIZE - next_pos t) = RING_BUFFER_SIZE - 1"
  using assms by (auto simp: next_pos_eq RING_BUFFER_SIZE_def)

lemma write_byte_available:
  assumes inv: "ring_inv w rb" and room: "available_read rb < RING_BUFFER_SIZE"
  shows "\<exists>rb'. write_byte b rb = Some rb' \<and> ring_inv w rb' \<and> available_read rb' = available_read rb + 1 \<and>
    rb_head rb' = rb_head rb \<and> rb_arr rb' = (rb_arr rb)[rb_tail rb := b]"
proof -
  have b: "rb_head rb < RING_BUFFER_SIZE" "rb_tail rb < RING_BUFFER_SIZE" "length (rb_arr rb) = RING_BUFFER_SIZE"
    using inv by (auto simp: ring_inv_def)
  have nf: "rb_status rb \<noteq> FULL"
    using available_read_full [OF inv] room by auto
  show ?thesis
  proof (cases "rb_head rb = rb_tail rb")
    case True
    then have "rb_status rb = EMPTY"
      using inv nf by (cases "rb_status rb") (auto simp: ring_inv_def)
    then show ?thesis
      using True b inv next_pos_less next_pos_empty [OF b(2)] by (auto simp: write_byte_eq ring_inv_def available_read_def)
  next
    case False
    then have "rb_status rb = NORMAL"
      using inv by (simp add: ring_inv_def)
    then show ?thesis
      using False b inv next_pos_less next_pos_count(1) [OF b(1,2) False] by (simp add: write_byte_eq ring_inv_def available_read_def)
  qed
qed

lemma read_byte_available:
  assumes inv: "ring_inv w rb" and some: "0 < available_read rb"
  shows "\<exists>rb'. read_byte rb = Some (rb_arr rb ! rb_head rb, rb') \<and> ring_inv w rb' \<and>
    available_read rb' = available_read rb - 1 \<and> rb_head rb' = next_pos (rb_head rb) \<and> rb_arr rb' = rb_arr rb"
proof -
  have b: "rb_head rb < RING_BUFFER_SIZE" "rb_tail rb < RING_BUFFER_SIZE" "length (rb_arr rb) = RING_BUFFER_SIZE"
    using inv by (auto simp: ring_inv_def)
  have ne: "rb_status rb \<noteq> EMPTY"
    using some by (auto simp: available_read_def)
  show ?thesis
  proof (cases "rb_head rb = rb_tail rb")
    case True
    then have "rb_status rb = FULL"
      using inv ne by (cases "rb_status rb") (auto simp: ring_inv_def)
    then show ?thesis
      using True b inv next_pos_less next_pos_empty [OF b(2)] by (auto simp: read_byte_eq ring_inv_def available_read_def)
  next
    case False
    then have "rb_status rb = NORMAL"
      using inv by (simp add: ring_inv_def)
    then show ?thesis
      using False b inv next_pos_less next_pos_count(2,3) [OF b(1,2) False]
      by (cases "next_pos (rb_head rb) = rb_tail rb") (auto simp: read_byte_eq ring_inv_def available_read_def)
  qed
qed

lemma length_ring_contents [simp]: "length (ring_contents rb) = available_read rb"
  by (simp add: ring_contents_def)

interpretation ring: bounded_queue write_byte read_byte available_read available_write ring_contents "ring_inv w" RING_BUFFER_SIZE
  for w
proof
  fix q x
  assume a: "ring_inv w q" "length (ring_contents q) < RING_BUFFER_SIZE"
  then obtain q' where q': "write_byte x q = Some q'" "ring_inv w q'" "available_read q' = available_read q + 1"
      "rb_head q' = rb_head q" "rb_arr q' = (rb_arr q)[rb_tail q := x]"
    using write_byte_available [of w q x] by auto
  have other: "rb_tail q \<noteq> (rb_head q + i) mod RING_BUFFER_SIZE" if "i < available_read q" for i
  proof
    assume "rb_tail q = (rb_head q + i) mod RING_BUFFER_SIZE"
    then have "(rb_head q + available_read q) mod RING_BUFFER_SIZE = (rb_head q + i) mod RING_BUFFER_SIZE"
      using tail_position [OF a(1)] by simp
    then have "RING_BUFFER_SIZE dvd available_read q - i"
      using that mod_eq_dvd_iff_nat [of "rb_head q + i" "rb_head q + available_read q" RING_BUFFER_SIZE] by simp
    then show False
      using that a(2) by (auto dest: dvd_imp_le)
  qed
  have "rb_tail q < length (rb_arr q)"
    using a(1) by (simp add: ring_inv_def)
  then have "ring_contents q' = ring_contents q @ [x]"
    unfolding ring_contents_def q'(3-5) using other tail_position [OF a(1)] by simp
  then show "\<exists>q'. write_byte x q = Some q' \<and> ring_inv w q' \<and> ring_contents q' = ring_contents q @ [x]"
    using q' by blast
next
  fix q x xs
  assume a: "ring_inv w q" "ring_contents q = x # xs"
  have n: "available_read q = Suc (length xs)"
    using arg_cong [OF a(2), of length] by simp
  then obtain q' where q': "read_byte q = Some (rb_arr q ! rb_head q, q')" "ring_inv w q'" "available_read q' = length xs"
      "rb_head q' = next_pos (rb_head q)" "rb_arr q' = rb_arr q"
    using read_byte_available [OF a(1)] by auto
  have "x # xs = rb_arr q ! (rb_head q mod RING_BUFFER_SIZE) # ring_contents q'"
    unfolding a(2) [symmetric] ring_contents_def n q'(3-5)
    by (auto simp: upt_rec [of 0] map_Suc_upt [symmetric] next_pos_def mod_simps simp del: upt_Suc)
  then have "rb_arr q ! rb_head q = x" "ring_contents q' = xs"
    using a(1) by (auto simp: ring_inv_def)
  then show "\<exists>q'. read_byte q = Some (x, q') \<and> ring_inv w q' \<and> ring_contents q' = xs"
    using q' by blast
next
  fix q
  assume a: "ring_inv w q"
  show "available_read q = length (ring_contents q)"
    by simp
  show "available_write q = RING_BUFFER_SIZE - length (ring_contents q)"
    using available_read_full [OF a] by (auto simp: available_write_def)
  show "length (ring_contents q) \<le> RING_BUFFER_SIZE"
    using available_read_le [OF a] by simp
qed

section \<open>Calls of read and write\<close>

record Pipe =
  pipe_readable :: bool
  pipe_writable :: bool

definition read_end_with_buffer :: Pipe where
  "read_end_with_buffer = \<lparr>pipe_readable = True, pipe_writable = False\<rparr>"

definition write_end_with_buffer :: Pipe where
  "write_end_with_buffer = \<lparr>pipe_readable = False, pipe_writable = True\<rparr>"

definition make_pipe :: "nat \<Rightarrow> Pipe \<times> Pipe \<times> PipeRingBuffer" where
  \<comment> \<open>\<open>w\<close> is the new object of the write end; both ends share the buffer\<close>
  "make_pipe w = (read_end_with_buffer, write_end_with_buffer, set_write_end w PipeRingBuffer_new)"

definition load_byte :: "ram \<Rightarrow> byte_ref \<Rightarrow> byte option" where
  "load_byte m r = do { pg \<leftarrow> m (fst r); index_get pg (snd r) }"

definition store_byte :: "byte_ref \<Rightarrow> byte \<Rightarrow> ram \<Rightarrow> ram option" where
  "store_byte r b m = do { pg \<leftarrow> m (fst r); pg \<leftarrow> index_set pg (snd r) b; Some (m(fst r \<mapsto> pg)) }"

record pipe_call =
  \<comment> \<open>the locals \<open>buf_iter\<close>, \<open>already_read\<close> or \<open>already_write\<close>, and \<open>want_to_read\<close> or \<open>want_to_write\<close>\<close>
  pc_iter :: UserBufferIterator
  pc_already :: nat
  pc_want :: nat

definition pipe_call_enter :: "page_slice list \<Rightarrow> pipe_call" where
  "pipe_call_enter buf = \<lparr>pc_iter = UserBuffer_into_iter buf, pc_already = 0, pc_want = UserBuffer_len buf\<rparr>"

datatype call_outcome = Returned nat | Suspended pipe_call | Looping pipe_call

fun read_for :: "nat \<Rightarrow> PipeRingBuffer \<Rightarrow> pipe_call \<Rightarrow> ram \<Rightarrow> (call_outcome \<times> PipeRingBuffer \<times> ram) option" where
  \<comment> \<open>\<open>for _ in 0..loop_read\<close>\<close>
  "read_for 0 rb c m = Some (Looping c, rb, m)"
| "read_for (Suc n) rb c m = do {
     (r, it) \<leftarrow> UserBuffer_next (pc_iter c);
     case r of
       Some byte_ref \<Rightarrow> do {
         (b, rb) \<leftarrow> read_byte rb;
         m \<leftarrow> store_byte byte_ref b m;
         let c = c\<lparr>pc_iter := it, pc_already := pc_already c + 1\<rparr>;
         if pc_already c = pc_want c then Some (Returned (pc_want c), rb, m) else read_for n rb c m }
     | None \<Rightarrow> Some (Returned (pc_already c), rb, m) }"

definition read_round :: "(nat \<Rightarrow> bool) \<Rightarrow> PipeRingBuffer \<Rightarrow> pipe_call \<Rightarrow> ram \<Rightarrow> (call_outcome \<times> PipeRingBuffer \<times> ram) option" where
  "read_round alive rb c m = (let loop_read = available_read rb in
     if loop_read = 0 then do {
       closed \<leftarrow> all_write_ends_closed alive rb;
       if closed then Some (Returned (pc_already c), rb, m) else Some (Suspended c, rb, m) }
     else read_for loop_read rb c m)"

partial_function (option) read_turn ::
    "(nat \<Rightarrow> bool) \<Rightarrow> PipeRingBuffer \<Rightarrow> pipe_call \<Rightarrow> ram \<Rightarrow> (call_outcome \<times> PipeRingBuffer \<times> ram) option" where
  \<comment> \<open>the \<open>loop\<close>, up to a return or a suspension\<close>
  "read_turn alive rb c m = do {
     (r, rb, m) \<leftarrow> read_round alive rb c m;
     case r of Looping c \<Rightarrow> read_turn alive rb c m | _ \<Rightarrow> Some (r, rb, m) }"

fun write_for :: "nat \<Rightarrow> PipeRingBuffer \<Rightarrow> pipe_call \<Rightarrow> ram \<Rightarrow> (call_outcome \<times> PipeRingBuffer) option" where
  "write_for 0 rb c m = Some (Looping c, rb)"
| "write_for (Suc n) rb c m = do {
     (r, it) \<leftarrow> UserBuffer_next (pc_iter c);
     case r of
       Some byte_ref \<Rightarrow> do {
         b \<leftarrow> load_byte m byte_ref;
         rb \<leftarrow> write_byte b rb;
         let c = c\<lparr>pc_iter := it, pc_already := pc_already c + 1\<rparr>;
         if pc_already c = pc_want c then Some (Returned (pc_want c), rb) else write_for n rb c m }
     | None \<Rightarrow> Some (Returned (pc_already c), rb) }"

definition write_round :: "PipeRingBuffer \<Rightarrow> pipe_call \<Rightarrow> ram \<Rightarrow> (call_outcome \<times> PipeRingBuffer) option" where
  "write_round rb c m = (let loop_write = available_write rb in
     if loop_write = 0 then Some (Suspended c, rb) else write_for loop_write rb c m)"

partial_function (option) write_turn :: "PipeRingBuffer \<Rightarrow> pipe_call \<Rightarrow> ram \<Rightarrow> (call_outcome \<times> PipeRingBuffer) option" where
  "write_turn rb c m = do {
     (r, rb) \<leftarrow> write_round rb c m;
     case r of Looping c \<Rightarrow> write_turn rb c m | _ \<Rightarrow> Some (r, rb) }"

section \<open>Memory behind a buffer\<close>

definition refs_ok :: "ram \<Rightarrow> byte_ref list \<Rightarrow> bool" where
  "refs_ok m rs \<longleftrightarrow> (\<forall>r \<in> set rs. \<exists>pg. m (fst r) = Some pg \<and> snd r < length pg)"

definition byte_at :: "ram \<Rightarrow> byte_ref \<Rightarrow> byte" where
  "byte_at m r = the (m (fst r)) ! snd r"

definition poke :: "byte_ref \<Rightarrow> byte \<Rightarrow> ram \<Rightarrow> ram" where
  "poke r b m = m(fst r \<mapsto> (the (m (fst r)))[snd r := b])"

fun store_bytes :: "byte_ref list \<Rightarrow> bytes \<Rightarrow> ram \<Rightarrow> ram" where
  "store_bytes (r # rs) (b # bs) m = store_bytes rs bs (poke r b m)"
| "store_bytes _ _ m = m"

definition same_shape :: "ram \<Rightarrow> ram \<Rightarrow> bool" where
  "same_shape m m' \<longleftrightarrow> (\<forall>p. map_option length (m' p) = map_option length (m p))"

lemma refs_ok_Cons [simp]: "refs_ok m (r # rs) \<longleftrightarrow> (\<exists>pg. m (fst r) = Some pg \<and> snd r < length pg) \<and> refs_ok m rs"
  by (auto simp: refs_ok_def)

lemma refs_ok_drop: "refs_ok m rs \<Longrightarrow> refs_ok m (drop n rs)" "refs_ok m rs \<Longrightarrow> refs_ok m (take n rs)"
  by (auto simp: refs_ok_def dest: in_set_dropD in_set_takeD)

lemma load_byte_ok: "m (fst r) = Some pg \<Longrightarrow> snd r < length pg \<Longrightarrow> load_byte m r = Some (byte_at m r)"
  by (simp add: load_byte_def byte_at_def)

lemma store_byte_ok:
  "m (fst r) = Some pg \<Longrightarrow> snd r < length pg \<Longrightarrow> store_byte r b m = Some (poke r b m)"
  by (simp add: store_byte_def poke_def)

lemma same_shape_refs: "same_shape m m' \<Longrightarrow> refs_ok m rs \<Longrightarrow> refs_ok m' rs"
  unfolding same_shape_def refs_ok_def by (metis map_option_eq_Some option.simps(9))

lemma same_shape_trans: "same_shape m m1 \<Longrightarrow> same_shape m1 m2 \<Longrightarrow> same_shape m m2"
  by (simp add: same_shape_def)

lemma same_shape_refl [simp]: "same_shape m m"
  by (simp add: same_shape_def)

lemma same_shape_upd: "m p = Some pg \<Longrightarrow> length pg' = length pg \<Longrightarrow> same_shape m (m(p \<mapsto> pg'))"
  by (simp add: same_shape_def)

lemma poke_shape: "m (fst r) \<noteq> None \<Longrightarrow> same_shape m (poke r b m)"
  by (auto simp: poke_def intro: same_shape_upd)

lemma poke_refs: "m (fst r) \<noteq> None \<Longrightarrow> refs_ok m rs \<Longrightarrow> refs_ok (poke r b m) rs"
  using same_shape_refs [OF poke_shape] by blast

lemma byte_at_poke:
  "r' \<noteq> r \<Longrightarrow> byte_at (poke r b m) r' = byte_at m r'"
  "m (fst r) = Some pg \<Longrightarrow> snd r < length pg \<Longrightarrow> byte_at (poke r b m) r = b"
  by (cases r; cases r'; cases "fst r = fst r'"; auto simp: poke_def byte_at_def nth_list_update)+

lemma store_bytes_shape: "refs_ok m rs \<Longrightarrow> same_shape m (store_bytes rs bs m)"
proof (induction rs bs m rule: store_bytes.induct)
  case (1 r rs b bs m)
  then have "m (fst r) \<noteq> None" "refs_ok m rs"
    by auto
  then show ?case
    using 1(1) same_shape_trans [OF poke_shape] poke_refs by simp
qed auto

lemma byte_at_store: "refs_ok m rs \<Longrightarrow> r \<notin> set rs \<Longrightarrow> byte_at (store_bytes rs bs m) r = byte_at m r"
  by (induction rs bs m rule: store_bytes.induct) (auto simp: poke_refs byte_at_poke)

lemma byte_at_stored:
  "refs_ok m rs \<Longrightarrow> distinct rs \<Longrightarrow> length bs = length rs \<Longrightarrow> map (byte_at (store_bytes rs bs m)) rs = bs"
  by (induction rs bs m rule: store_bytes.induct) (auto simp: poke_refs byte_at_poke byte_at_store)

section \<open>What a turn does\<close>

definition call_ok :: "pipe_call \<Rightarrow> ram \<Rightarrow> bool" where
  "call_ok c m \<longleftrightarrow> it_ok (pc_iter c) \<and> pc_want c = pc_already c + length (it_refs (pc_iter c)) \<and>
     refs_ok m (it_refs (pc_iter c)) \<and> distinct (it_refs (pc_iter c))"

abbreviation call_refs :: "pipe_call \<Rightarrow> byte_ref list" where
  "call_refs c \<equiv> it_refs (pc_iter c)"

definition advanced :: "nat \<Rightarrow> pipe_call \<Rightarrow> pipe_call \<Rightarrow> bool" where
  \<comment> \<open>the call went on by \<open>k\<close> bytes\<close>
  "advanced k c c' \<longleftrightarrow> call_refs c' = drop k (call_refs c) \<and> pc_want c' = pc_want c \<and>
     pc_already c' = pc_already c + k \<and> it_ok (pc_iter c')"

lemma advanced_0 [simp]: "it_ok (pc_iter c) \<Longrightarrow> advanced 0 c c"
  by (simp add: advanced_def)

lemma advanced_trans: "advanced j c c1 \<Longrightarrow> advanced k c1 c2 \<Longrightarrow> advanced (j + k) c c2"
  by (simp add: advanced_def add.commute)

lemma advanced_ok: "call_ok c m \<Longrightarrow> advanced k c c' \<Longrightarrow> k \<le> length (call_refs c) \<Longrightarrow> same_shape m m' \<Longrightarrow> call_ok c' m'"
  by (auto simp: call_ok_def advanced_def intro: refs_ok_drop same_shape_refs)

lemma call_next:
  assumes "call_ok c m"
  shows "call_refs c = [] \<Longrightarrow> \<exists>it. UserBuffer_next (pc_iter c) = Some (None, it)"
    and "call_refs c = r # rs \<Longrightarrow> \<exists>it. UserBuffer_next (pc_iter c) = Some (Some r, it) \<and>
      advanced 1 c (c\<lparr>pc_iter := it, pc_already := pc_already c + 1\<rparr>)"
  using UserBuffer_next_refs [of "pc_iter c"] assms by (auto simp: call_ok_def advanced_def)

lemma read_for_spec:
  assumes "ring_inv w rb" and "call_ok c m" and "n \<le> length (ring_contents rb)" and "call_refs c \<noteq> []"
  shows "\<exists>r rb' m'. read_for n rb c m = Some (r, rb', m') \<and> ring_inv w rb' \<and>
    (let k = min n (length (call_refs c)) in
       ring_contents rb' = drop k (ring_contents rb) \<and>
       m' = store_bytes (take k (call_refs c)) (ring_contents rb) m \<and>
       (if length (call_refs c) \<le> n then r = Returned (pc_want c)
        else \<exists>c'. r = Looping c' \<and> advanced n c c'))"
  using assms
proof (induction n arbitrary: rb c m)
  case 0
  then show ?case by (auto simp: call_ok_def)
next
  case (Suc n)
  obtain b bs where q: "ring_contents rb = b # bs"
    using Suc.prems(3) by (cases "ring_contents rb") auto
  obtain rb1 where rb1: "read_byte rb = Some (b, rb1)" "ring_inv w rb1" "ring_contents rb1 = bs"
    using ring.get_law [OF Suc.prems(1) q] by auto
  obtain r rs where rs: "call_refs c = r # rs"
    using Suc.prems(4) by (cases "call_refs c") auto
  define c1 where "c1 it = c\<lparr>pc_iter := it, pc_already := pc_already c + 1\<rparr>" for it
  obtain it where it: "UserBuffer_next (pc_iter c) = Some (Some r, it)" "advanced 1 c (c1 it)"
    using call_next(2) [OF Suc.prems(2) rs] by (auto simp: c1_def)
  obtain pg where pg: "m (fst r) = Some pg" "snd r < length pg"
    using Suc.prems(2) rs by (auto simp: call_ok_def)
  have c1: "call_refs (c1 it) = rs" "call_ok (c1 it) (poke r b m)" "pc_want (c1 it) = pc_want c"
    using advanced_ok [OF Suc.prems(2) it(2) _ poke_shape [of m r b]] pg(1) it(2) rs by (auto simp: advanced_def)
  have step: "read_for (Suc n) rb c m = (if rs = [] then Some (Returned (pc_want c), rb1, poke r b m)
      else read_for n rb1 (c1 it) (poke r b m))"
    using it(1) rb1(1) store_byte_ok [of m r, OF pg] c1 by (auto simp: c1_def call_ok_def)
  show ?case
  proof (cases "rs = []")
    case True
    then show ?thesis
      using step rb1 rs q by simp
  next
    case False
    have "n \<le> length (ring_contents rb1)"
      using Suc.prems(3) q rb1(3) by (metis Suc_le_mono length_Cons)
    note IH = Suc.IH [OF rb1(2) c1(2) this]
    show ?thesis
      unfolding step using IH False rs q rb1(3) c1 advanced_trans [OF it(2)]
      by (cases "length rs \<le> n") (auto simp: Let_def)
  qed
qed

lemma write_for_spec:
  assumes "ring_inv w rb" and "call_ok c m" and "n + length (ring_contents rb) \<le> RING_BUFFER_SIZE" and "call_refs c \<noteq> []"
  shows "\<exists>r rb'. write_for n rb c m = Some (r, rb') \<and> ring_inv w rb' \<and>
    ring_contents rb' = ring_contents rb @ map (byte_at m) (take n (call_refs c)) \<and>
    (if length (call_refs c) \<le> n then r = Returned (pc_want c)
     else \<exists>c'. r = Looping c' \<and> advanced n c c')"
  using assms
proof (induction n arbitrary: rb c)
  case 0
  then show ?case by (auto simp: call_ok_def)
next
  case (Suc n)
  obtain r rs where rs: "call_refs c = r # rs"
    using Suc.prems(4) by (cases "call_refs c") auto
  obtain pg where pg: "m (fst r) = Some pg" "snd r < length pg"
    using Suc.prems(2) rs by (auto simp: call_ok_def)
  obtain rb1 where rb1: "write_byte (byte_at m r) rb = Some rb1" "ring_inv w rb1"
      "ring_contents rb1 = ring_contents rb @ [byte_at m r]"
    using ring.put_law [OF Suc.prems(1), of "byte_at m r"] Suc.prems(3) by auto
  define c1 where "c1 it = c\<lparr>pc_iter := it, pc_already := pc_already c + 1\<rparr>" for it
  obtain it where it: "UserBuffer_next (pc_iter c) = Some (Some r, it)" "advanced 1 c (c1 it)"
    using call_next(2) [OF Suc.prems(2) rs] by (auto simp: c1_def)
  have c1: "call_refs (c1 it) = rs" "call_ok (c1 it) m" "pc_want (c1 it) = pc_want c"
    using advanced_ok [OF Suc.prems(2) it(2)] it(2) rs by (auto simp: advanced_def)
  have step: "write_for (Suc n) rb c m = (if rs = [] then Some (Returned (pc_want c), rb1) else write_for n rb1 (c1 it) m)"
    using it(1) rb1(1) load_byte_ok [of m r, OF pg] c1 by (auto simp: c1_def call_ok_def)
  show ?case
  proof (cases "rs = []")
    case True
    then show ?thesis
      using step rb1 rs by simp
  next
    case False
    have "n + length (ring_contents rb1) \<le> RING_BUFFER_SIZE"
      using Suc.prems(3) rb1(3) by (simp flip: length_ring_contents)
    note IH = Suc.IH [OF rb1(2) c1(2) this]
    show ?thesis
      unfolding step using IH False rs rb1(3) c1 advanced_trans [OF it(2)]
      by (cases "length rs \<le> n") auto
  qed
qed

lemma read_turn_spec:
  assumes inv: "ring_inv (Some w) rb" and ok: "call_ok c m"
  defines "q \<equiv> ring_contents rb"
  defines "k \<equiv> min (length (call_refs c)) (length q)"
  shows "\<exists>r rb'. read_turn alive rb c m = Some (r, rb', store_bytes (take k (call_refs c)) q m) \<and>
    ring_inv (Some w) rb' \<and> ring_contents rb' = drop k q \<and>
    (if length (call_refs c) \<le> length q \<and> q \<noteq> [] then r = Returned (pc_want c)
     else if \<not> alive w then r = Returned (pc_already c + k)
     else \<exists>c'. r = Suspended c' \<and> advanced k c c')"
proof -
  have av: "available_read rb = length q" and we: "rb_write_end rb = Some w"
    using inv by (simp_all add: q_def ring_inv_def)
  have stop: "read_turn alive rb1 c1 m1 = Some (if alive w then Suspended c1 else Returned (pc_already c1), rb1, m1)"
    if "ring_inv (Some w) rb1" "ring_contents rb1 = []" for rb1 c1 m1
  proof -
    have "available_read rb1 = 0"
      using length_ring_contents [of rb1] that(2) by simp
    then show ?thesis
      using that(1) by (subst read_turn.simps) (simp add: read_round_def all_write_ends_closed_def ring_inv_def)
  qed
  show ?thesis
  proof (cases "q = []")
    case True
    then show ?thesis
      using stop [of rb c m] inv ok by (auto simp: q_def k_def call_ok_def)
  next
    case q: False
    then have rnd: "read_round alive rb c m = read_for (length q) rb c m"
      by (simp add: read_round_def av)
    show ?thesis
    proof (cases "call_refs c = []")
      case True
      then obtain it where "UserBuffer_next (pc_iter c) = Some (None, it)"
        using call_next(1) [OF ok] by auto
      then have "read_for (length q) rb c m = Some (Returned (pc_already c), rb, m)"
        using q by (cases "length q") auto
      then have "read_turn alive rb c m = Some (Returned (pc_already c), rb, m)"
        by (subst read_turn.simps) (simp add: rnd)
      then show ?thesis
        using True q inv ok by (auto simp: k_def q_def call_ok_def)
    next
      case False
      obtain r1 rb1 where f: "read_for (length q) rb c m = Some (r1, rb1, store_bytes (take k (call_refs c)) q m)"
          "ring_inv (Some w) rb1" "ring_contents rb1 = drop k q"
          "if length (call_refs c) \<le> length q then r1 = Returned (pc_want c)
           else \<exists>c'. r1 = Looping c' \<and> advanced (length q) c c'"
        using read_for_spec [OF inv ok _ False, of "length q"]
        by (auto simp: q_def k_def Let_def min.commute)
      show ?thesis
      proof (cases "length (call_refs c) \<le> length q")
        case True
        then show ?thesis
          using f q by (subst read_turn.simps) (simp add: rnd)
      next
        case more: False
        then obtain c1 where c1: "r1 = Looping c1" "advanced (length q) c c1" "k = length q"
          using f(4) by (auto simp: k_def)
        have "read_turn alive rb c m = read_turn alive rb1 c1 (store_bytes (take k (call_refs c)) q m)"
          using f(1) c1(1) by (subst read_turn.simps) (simp add: rnd)
        then show ?thesis
          using stop [OF f(2)] f c1 more by (auto simp: advanced_def)
      qed
    qed
  qed
qed

lemma write_turn_spec:
  assumes inv: "ring_inv w rb" and ok: "call_ok c m"
  defines "q \<equiv> ring_contents rb"
  defines "k \<equiv> min (length (call_refs c)) (RING_BUFFER_SIZE - length q)"
  shows "\<exists>r rb'. write_turn rb c m = Some (r, rb') \<and> ring_inv w rb' \<and>
    ring_contents rb' = q @ map (byte_at m) (take k (call_refs c)) \<and>
    (if length (call_refs c) \<le> RING_BUFFER_SIZE - length q \<and> length q < RING_BUFFER_SIZE then r = Returned (pc_want c)
     else \<exists>c'. r = Suspended c' \<and> advanced k c c')"
proof -
  have stop: "write_turn rb1 c1 m = Some (Suspended c1, rb1)"
    if "ring_inv w rb1" "length (ring_contents rb1) = RING_BUFFER_SIZE" for rb1 c1
    using ring.avail_write_law [OF that(1)] that(2)
    by (subst write_turn.simps) (simp add: write_round_def)
  have av: "available_write rb = RING_BUFFER_SIZE - length q" and le: "length q \<le> RING_BUFFER_SIZE"
    using ring.avail_write_law [OF inv] ring.capacity_law [OF inv] by (auto simp: q_def)
  show ?thesis
  proof (cases "length q = RING_BUFFER_SIZE")
    case True
    then show ?thesis
      using stop [of rb c] inv ok by (auto simp: q_def k_def call_ok_def)
  next
    case False
    then have room: "length q < RING_BUFFER_SIZE"
      using le by simp
    have rnd: "write_round rb c m = write_for (RING_BUFFER_SIZE - length q) rb c m"
      using av room by (simp add: write_round_def)
    show ?thesis
    proof (cases "call_refs c = []")
      case True
      then obtain it where "UserBuffer_next (pc_iter c) = Some (None, it)"
        using call_next(1) [OF ok] by auto
      then have "write_for (RING_BUFFER_SIZE - length q) rb c m = Some (Returned (pc_already c), rb)"
        using room by (cases "RING_BUFFER_SIZE - length q") auto
      then have "write_turn rb c m = Some (Returned (pc_already c), rb)"
        by (subst write_turn.simps) (simp add: rnd)
      then show ?thesis
        using True room inv ok by (auto simp: q_def call_ok_def)
    next
      case ne: False
      have tk: "take (RING_BUFFER_SIZE - length q) (call_refs c) = take k (call_refs c)"
        by (simp add: k_def min_def)
      obtain r1 rb1 where f: "write_for (RING_BUFFER_SIZE - length q) rb c m = Some (r1, rb1)"
          "ring_inv w rb1" "ring_contents rb1 = q @ map (byte_at m) (take k (call_refs c))"
          "if length (call_refs c) \<le> RING_BUFFER_SIZE - length q then r1 = Returned (pc_want c)
           else \<exists>c'. r1 = Looping c' \<and> advanced (RING_BUFFER_SIZE - length q) c c'"
        using write_for_spec [OF inv ok _ ne, of "RING_BUFFER_SIZE - length q"] le
        unfolding q_def [symmetric] tk by auto
      show ?thesis
      proof (cases "length (call_refs c) \<le> RING_BUFFER_SIZE - length q")
        case True
        then show ?thesis
          using f room by (subst write_turn.simps) (simp add: rnd)
      next
        case more: False
        then obtain c1 where c1: "r1 = Looping c1" "advanced k c c1"
          using f(4) by (auto simp: k_def)
        have "length (ring_contents rb1) = RING_BUFFER_SIZE"
          using f(3) more le by (simp add: k_def del: length_ring_contents)
        then have "write_turn rb c m = Some (Suspended c1, rb1)"
          using f(1) c1(1) stop [OF f(2)] by (subst write_turn.simps) (simp add: rnd)
        then show ?thesis
          using f c1 more by auto
      qed
    qed
  qed
qed

section \<open>A pipe with any number of calls\<close>

record pipe_sys =
  sys_rb :: PipeRingBuffer
  sys_ram :: ram
  sys_readers :: "pipe_call list" \<comment> \<open>suspended calls of \<open>read\<close>\<close>
  sys_writers :: "pipe_call list"
  sys_open :: bool \<comment> \<open>the write end has a strong reference\<close>
  sys_sent :: bytes \<comment> \<open>history: the bytes taken from the buffers of writers\<close>
  sys_received :: bytes \<comment> \<open>history: the bytes that appeared in the buffers of readers\<close>

definition moved :: "pipe_call \<Rightarrow> call_outcome \<Rightarrow> nat" where
  "moved c r = (case r of Returned n \<Rightarrow> n - pc_already c | Suspended c' \<Rightarrow> pc_already c' - pc_already c
     | Looping c' \<Rightarrow> pc_already c' - pc_already c)"

definition settle :: "nat \<Rightarrow> call_outcome \<Rightarrow> pipe_call list \<Rightarrow> pipe_call list" where
  "settle i r cs = (case r of Suspended c \<Rightarrow> cs[i := c] | _ \<Rightarrow> take i cs @ drop (Suc i) cs)"

definition pipe_sys_init :: "nat \<Rightarrow> ram \<Rightarrow> pipe_sys" where
  "pipe_sys_init w m = \<lparr>sys_rb = snd (snd (make_pipe w)), sys_ram = m, sys_readers = [], sys_writers = [],
     sys_open = True, sys_sent = [], sys_received = []\<rparr>"

inductive pipe_step :: "pipe_sys \<Rightarrow> pipe_sys \<Rightarrow> bool" where
  enter_read: "call_ok (pipe_call_enter buf) (sys_ram s) \<Longrightarrow>
    pipe_step s (s\<lparr>sys_readers := sys_readers s @ [pipe_call_enter buf]\<rparr>)"
| enter_write: "sys_open s \<Longrightarrow> call_ok (pipe_call_enter buf) (sys_ram s) \<Longrightarrow>
    pipe_step s (s\<lparr>sys_writers := sys_writers s @ [pipe_call_enter buf]\<rparr>)"
| turn_read: "i < length (sys_readers s) \<Longrightarrow> c = sys_readers s ! i \<Longrightarrow>
    read_turn (\<lambda>_. sys_open s) (sys_rb s) c (sys_ram s) = Some (r, rb, m) \<Longrightarrow>
    pipe_step s (s\<lparr>sys_rb := rb, sys_ram := m, sys_readers := settle i r (sys_readers s),
      sys_received := sys_received s @ map (byte_at m) (take (moved c r) (call_refs c))\<rparr>)"
| turn_write: "i < length (sys_writers s) \<Longrightarrow> c = sys_writers s ! i \<Longrightarrow>
    write_turn (sys_rb s) c (sys_ram s) = Some (r, rb) \<Longrightarrow>
    pipe_step s (s\<lparr>sys_rb := rb, sys_writers := settle i r (sys_writers s),
      sys_sent := sys_sent s @ map (byte_at (sys_ram s)) (take (moved c r) (call_refs c))\<rparr>)"
| user_store: "same_shape (sys_ram s) m \<Longrightarrow> pipe_step s (s\<lparr>sys_ram := m\<rparr>)"
| close_write_end: "sys_writers s = [] \<Longrightarrow> pipe_step s (s\<lparr>sys_open := False\<rparr>)"

definition pipe_inv :: "nat \<Rightarrow> pipe_sys \<Rightarrow> bool" where
  "pipe_inv w s \<longleftrightarrow> ring_inv (Some w) (sys_rb s) \<and> (\<forall>c \<in> set (sys_readers s). call_ok c (sys_ram s)) \<and>
     (\<forall>c \<in> set (sys_writers s). call_ok c (sys_ram s)) \<and> sys_sent s = sys_received s @ ring_contents (sys_rb s)"

lemma call_ok_shape: "same_shape m m' \<Longrightarrow> call_ok c m \<Longrightarrow> call_ok c m'"
  by (auto simp: call_ok_def intro: same_shape_refs)

lemma settle_set: "c \<in> set (settle i r cs) \<Longrightarrow> c \<in> set cs \<or> r = Suspended c"
  by (auto simp: settle_def split: call_outcome.splits dest: in_set_takeD in_set_dropD set_update_subset_insert [THEN subsetD])

lemma moved_advanced: "advanced k c c' \<Longrightarrow> moved c (Suspended c') = k"
  by (simp add: moved_def advanced_def)

lemma read_turn_moves:
  assumes "ring_inv (Some w) rb" and "call_ok c m" and "read_turn alive rb c m = Some (r, rb', m')"
  shows "ring_inv (Some w) rb' \<and> same_shape m m' \<and> (\<forall>c'. r = Suspended c' \<longrightarrow> call_ok c' m') \<and>
    map (byte_at m') (take (moved c r) (call_refs c)) @ ring_contents rb' = ring_contents rb"
proof -
  define q where "q = ring_contents rb"
  define k where "k = min (length (call_refs c)) (length q)"
  have t: "m' = store_bytes (take k (call_refs c)) q m" "ring_inv (Some w) rb'" "ring_contents rb' = drop k q"
      "if length (call_refs c) \<le> length q \<and> q \<noteq> [] then r = Returned (pc_want c)
       else if \<not> alive w then r = Returned (pc_already c + k) else \<exists>c'. r = Suspended c' \<and> advanced k c c'"
    using read_turn_spec [OF assms(1,2), of alive] assms(3) by (auto simp: q_def k_def simp del: length_ring_contents)
  have rk: "refs_ok m (take k (call_refs c))" "distinct (take k (call_refs c))" "k \<le> length q" "k \<le> length (call_refs c)"
    using assms(2) by (auto simp: call_ok_def k_def intro: refs_ok_drop)
  have shape: "same_shape m m'"
    using store_bytes_shape [OF rk(1)] t(1) by simp
  have st: "store_bytes rs (take (length rs) bs) m = store_bytes rs bs m" for rs bs m
    by (induction rs bs m rule: store_bytes.induct) auto
  have "store_bytes (take k (call_refs c)) (take k q) m = m'"
    using st [of "take k (call_refs c)" q m] t(1) rk(4) by simp
  then have "map (byte_at m') (take k (call_refs c)) = take k q"
    using byte_at_stored [OF rk(1,2), of "take k q"] rk(3,4) by simp
  moreover have "moved c r = k"
    using t(4) assms(2) by (auto simp: moved_def advanced_def call_ok_def k_def split: if_splits)
  moreover have "call_ok c' m'" if "r = Suspended c'" for c'
    using t(4) that advanced_ok [OF assms(2) _ rk(4) shape] by (auto split: if_splits)
  ultimately show ?thesis
    using t(2,3) shape by (simp add: q_def)
qed

lemma write_turn_moves:
  assumes "ring_inv w rb" and "call_ok c m" and "write_turn rb c m = Some (r, rb')"
  shows "ring_inv w rb' \<and> (\<forall>c'. r = Suspended c' \<longrightarrow> call_ok c' m) \<and>
    ring_contents rb' = ring_contents rb @ map (byte_at m) (take (moved c r) (call_refs c))"
proof -
  define k where "k = min (length (call_refs c)) (RING_BUFFER_SIZE - length (ring_contents rb))"
  have t: "ring_inv w rb'" "ring_contents rb' = ring_contents rb @ map (byte_at m) (take k (call_refs c))"
      "if length (call_refs c) \<le> RING_BUFFER_SIZE - length (ring_contents rb) \<and> length (ring_contents rb) < RING_BUFFER_SIZE
       then r = Returned (pc_want c) else \<exists>c'. r = Suspended c' \<and> advanced k c c'"
    using write_turn_spec [OF assms(1,2)] assms(3) by (auto simp: k_def)
  have "moved c r = k"
    using t(3) assms(2) by (auto simp: moved_def advanced_def call_ok_def k_def split: if_splits)
  moreover have "call_ok c' m" if "r = Suspended c'" for c'
    using t(3) that advanced_ok [OF assms(2), of k c' m] by (auto simp: k_def split: if_splits)
  ultimately show ?thesis
    using t(1,2) by simp
qed

lemma pipe_step_inv: "pipe_step s s' \<Longrightarrow> pipe_inv w s \<Longrightarrow> pipe_inv w s'"
proof (induction rule: pipe_step.induct)
  case (turn_read i s c r rb m)
  have "call_ok c (sys_ram s)" "ring_inv (Some w) (sys_rb s)"
    using turn_read by (auto simp: pipe_inv_def)
  note t = read_turn_moves [OF this(2,1) turn_read(3)]
  have "\<forall>c' \<in> set (settle i r (sys_readers s)). call_ok c' m"
    using t turn_read(4) settle_set [of _ i r "sys_readers s"] by (auto simp: pipe_inv_def intro: call_ok_shape)
  then show ?case
    using t turn_read(4) by (auto simp: pipe_inv_def intro: call_ok_shape)
next
  case (turn_write i s c r rb)
  have "call_ok c (sys_ram s)" "ring_inv (Some w) (sys_rb s)"
    using turn_write by (auto simp: pipe_inv_def)
  note t = write_turn_moves [OF this(2,1) turn_write(3)]
  have "\<forall>c' \<in> set (settle i r (sys_writers s)). call_ok c' (sys_ram s)"
    using t turn_write(4) settle_set [of _ i r "sys_writers s"] by (auto simp: pipe_inv_def)
  then show ?case
    using t turn_write(4) by (auto simp: pipe_inv_def)
qed (auto simp: pipe_inv_def intro: call_ok_shape)

lemma pipe_inv_init: "pipe_inv w (pipe_sys_init w m)"
  by (simp add: pipe_inv_def pipe_sys_init_def make_pipe_def set_write_end_def PipeRingBuffer_new_def ring_inv_def
      ring_contents_def available_read_def RING_BUFFER_SIZE_def)

lemma pipe_reachable_inv: "pipe_step\<^sup>*\<^sup>* (pipe_sys_init w m) s \<Longrightarrow> pipe_inv w s"
  by (induction rule: rtranclp_induct) (auto intro: pipe_inv_init pipe_step_inv)

section \<open>One writer and one reader taking turns\<close>

fun round_robin :: "nat \<Rightarrow> PipeRingBuffer \<Rightarrow> call_outcome \<Rightarrow> call_outcome \<Rightarrow> ram \<Rightarrow>
    (PipeRingBuffer \<times> call_outcome \<times> call_outcome \<times> ram) option" where
  \<comment> \<open>\<open>n\<close> times the writer, when it is suspended, and then the reader\<close>
  "round_robin 0 rb wr rd m = Some (rb, wr, rd, m)"
| "round_robin (Suc n) rb wr rd m = do {
     (wr, rb) \<leftarrow> (case wr of Suspended c \<Rightarrow> write_turn rb c m | _ \<Rightarrow> Some (wr, rb));
     (rd, rb, m) \<leftarrow> (case rd of Suspended c \<Rightarrow> read_turn (\<lambda>_. True) rb c m | _ \<Rightarrow> Some (rd, rb, m));
     round_robin n rb wr rd m }"

lemma round_robin_done: "round_robin n rb (Returned a) (Returned b) m = Some (rb, Returned a, Returned b, m)"
  by (induction n) auto

lemma one_round:
  assumes inv: "ring_inv (Some w) rb" "ring_contents rb = []"
    and ok: "call_ok cw m" "call_ok cr m" and len: "length (call_refs cr) = length (call_refs cw)" "call_refs cw \<noteq> []"
  defines "k \<equiv> min (length (call_refs cw)) RING_BUFFER_SIZE"
  shows "\<exists>rb' wr rd m'. round_robin (Suc n) rb (Suspended cw) (Suspended cr) m = round_robin n rb' wr rd m' \<and>
    ring_inv (Some w) rb' \<and> ring_contents rb' = [] \<and>
    m' = store_bytes (take k (call_refs cr)) (map (byte_at m) (take k (call_refs cw))) m \<and>
    (if length (call_refs cw) \<le> RING_BUFFER_SIZE then wr = Returned (pc_want cw) \<and> rd = Returned (pc_want cr)
     else \<exists>cw' cr'. wr = Suspended cw' \<and> rd = Suspended cr' \<and> advanced k cw cw' \<and> advanced k cr cr')"
proof -
  define q where "q = map (byte_at m) (take k (call_refs cw))"
  have lq: "length q = k" and k: "0 < k"
    using len(2) by (auto simp: q_def k_def RING_BUFFER_SIZE_def)
  obtain wr rb1 where w1: "write_turn rb cw m = Some (wr, rb1)" "ring_inv (Some w) rb1" "ring_contents rb1 = q"
      "if length (call_refs cw) \<le> RING_BUFFER_SIZE then wr = Returned (pc_want cw)
       else \<exists>c'. wr = Suspended c' \<and> advanced k cw c'"
    using write_turn_spec [OF inv(1) ok(1)] unfolding inv(2) list.size diff_zero append_Nil q_def k_def RING_BUFFER_SIZE_def by auto
  have km: "min (length (call_refs cr)) (length q) = k"
    using len lq by (simp add: k_def)
  obtain rd rb2 where r1: "read_turn (\<lambda>_. True) rb1 cr m = Some (rd, rb2, store_bytes (take k (call_refs cr)) q m)"
      "ring_inv (Some w) rb2" "ring_contents rb2 = []"
      "if length (call_refs cr) \<le> length q \<and> q \<noteq> [] then rd = Returned (pc_want cr) else \<exists>c'. rd = Suspended c' \<and> advanced k cr c'"
    using read_turn_spec [OF w1(2) ok(2), of "\<lambda>_. True"] unfolding w1(3) km not_True_eq_False if_False by (auto simp: lq)
  have "length (call_refs cr) \<le> length q \<and> q \<noteq> [] \<longleftrightarrow> length (call_refs cw) \<le> RING_BUFFER_SIZE"
    using lq k len by (auto simp: k_def)
  then have "if length (call_refs cw) \<le> RING_BUFFER_SIZE then wr = Returned (pc_want cw) \<and> rd = Returned (pc_want cr)
     else \<exists>cw' cr'. wr = Suspended cw' \<and> rd = Suspended cr' \<and> advanced k cw cw' \<and> advanced k cr cr'"
    using w1(4) r1(4) by (cases "length (call_refs cw) \<le> RING_BUFFER_SIZE") auto
  moreover have "round_robin (Suc n) rb (Suspended cw) (Suspended cr) m =
      round_robin n rb2 wr rd (store_bytes (take k (call_refs cr)) q m)"
    using w1(1) r1(1) by simp
  ultimately show ?thesis
    using r1(2,3) unfolding q_def by blast
qed

lemma round_robin_transfers:
  assumes "ring_inv (Some w) rb" "ring_contents rb = []"
    and "call_ok cw m" "call_ok cr m" and "length (call_refs cr) = length (call_refs cw)" "call_refs cw \<noteq> []"
    and "set (call_refs cw) \<inter> set (call_refs cr) = {}" and "length (call_refs cw) \<le> n * RING_BUFFER_SIZE"
  shows "\<exists>rb' m'. round_robin n rb (Suspended cw) (Suspended cr) m =
      Some (rb', Returned (pc_want cw), Returned (pc_want cr), m') \<and> available_read rb' = 0 \<and>
    map (byte_at m') (call_refs cr) = map (byte_at m) (call_refs cw) \<and>
    (\<forall>x. x \<notin> set (call_refs cr) \<longrightarrow> byte_at m' x = byte_at m x)"
  using assms
proof (induction n arbitrary: rb cw cr m)
  case 0
  then show ?case by simp
next
  case (Suc n)
  define k where "k = min (length (call_refs cw)) RING_BUFFER_SIZE"
  define R where "R = call_refs cr"
  define W where "W = call_refs cw"
  define m1 where "m1 = store_bytes (take k R) (map (byte_at m) (take k W)) m"
  obtain rb1 wr rd where o: "round_robin (Suc n) rb (Suspended cw) (Suspended cr) m = round_robin n rb1 wr rd m1"
    "ring_inv (Some w) rb1" "ring_contents rb1 = []"
    "if length W \<le> RING_BUFFER_SIZE then wr = Returned (pc_want cw) \<and> rd = Returned (pc_want cr)
     else \<exists>cw' cr'. wr = Suspended cw' \<and> rd = Suspended cr' \<and> advanced k cw cw' \<and> advanced k cr cr'"
    using one_round [OF Suc.prems(1-6), of n] unfolding m1_def R_def W_def k_def by blast
  have rk: "refs_ok m (take k R)" "distinct R" "refs_ok m R" "k \<le> length W" "length R = length W"
    using Suc.prems(4,5) by (auto simp: call_ok_def R_def W_def k_def intro: refs_ok_drop)
  have shape: "same_shape m m1"
    using store_bytes_shape [OF rk(1)] by (simp add: m1_def)
  have got: "map (byte_at m1) (take k R) = map (byte_at m) (take k W)"
    unfolding m1_def using rk by (intro byte_at_stored) (auto simp: distinct_take)
  have frame: "byte_at m1 x = byte_at m x" if "x \<notin> set (take k R)" for x
    unfolding m1_def using byte_at_store [OF rk(1) that] .
  have disj: "set (drop k W) \<inter> set (take k R) = {}" "set (take k R) \<inter> set (drop k R) = {}"
    using Suc.prems(7) set_take_disj_set_drop_if_distinct [OF rk(2), of k k]
    by (auto simp: R_def W_def dest: in_set_takeD in_set_dropD)
  show ?case
  proof (cases "length W \<le> RING_BUFFER_SIZE")
    case True
    then have "k = length W"
      by (simp add: k_def W_def)
    then show ?thesis
      using o True round_robin_done got frame rk(5) length_ring_contents [of rb1] by (auto simp: R_def W_def)
  next
    case False
    then obtain cw' cr' where c: "wr = Suspended cw'" "rd = Suspended cr'" "advanced k cw cw'" "advanced k cr cr'"
      using o(4) by auto
    have refs: "call_refs cw' = drop k W" "call_refs cr' = drop k R" "pc_want cw' = pc_want cw" "pc_want cr' = pc_want cr"
      using c(3,4) by (auto simp: advanced_def R_def W_def)
    have ok: "call_ok cw' m1" "call_ok cr' m1"
      using advanced_ok [OF Suc.prems(3) c(3) _ shape] advanced_ok [OF Suc.prems(4) c(4) _ shape] rk(4,5)
      by (auto simp: R_def W_def)
    have kk: "k = RING_BUFFER_SIZE" "k < length W"
      using False by (auto simp: k_def W_def)
    have "set (call_refs cw') \<inter> set (call_refs cr') = {}"
      using Suc.prems(7) by (auto simp: refs R_def W_def dest: in_set_dropD)
    moreover have "length (call_refs cw') \<le> n * RING_BUFFER_SIZE" "call_refs cw' \<noteq> []" "length (call_refs cr') = length (call_refs cw')"
      using Suc.prems(8) kk rk(5) by (auto simp: refs W_def)
    ultimately obtain rb' m' where r: "round_robin n rb1 wr rd m1 = Some (rb', Returned (pc_want cw), Returned (pc_want cr), m')"
        "available_read rb' = 0" "map (byte_at m') (drop k R) = map (byte_at m1) (drop k W)"
        "\<And>x. x \<notin> set (drop k R) \<Longrightarrow> byte_at m' x = byte_at m1 x"
      using Suc.IH [OF o(2,3) ok] unfolding refs c by auto
    have "map (byte_at m') (take k R) = map (byte_at m1) (take k R)"
      using r(4) disj(2) by (auto simp: disjoint_iff)
    moreover have "map (byte_at m1) (drop k W) = map (byte_at m) (drop k W)"
      using frame disj(1) by (auto simp: disjoint_iff)
    ultimately have "map (byte_at m') (take k R @ drop k R) = map (byte_at m) (take k W @ drop k W)"
      unfolding map_append using r(3) got by simp
    then have "map (byte_at m') R = map (byte_at m) W"
      unfolding append_take_drop_id .
    moreover have "byte_at m' x = byte_at m x" if "x \<notin> set R" for x
      using that r(4) [of x] frame [of x] by (metis in_set_takeD in_set_dropD)
    ultimately show ?thesis
      using o(1) r(1,2) by (auto simp: R_def W_def)
  qed
qed

lemma pipe_call_enter_refs:
  assumes "\<forall>b \<in> set buf. 0 < slice_len b"
  shows "call_refs (pipe_call_enter buf) = concat (map slice_refs buf)" and "it_ok (pc_iter (pipe_call_enter buf))"
    and "pc_want (pipe_call_enter buf) = length (concat (map slice_refs buf))" and "pc_already (pipe_call_enter buf) = 0"
proof -
  have l: "length (slice_refs b) = slice_len b" for b
    by (simp add: slice_refs_def slice_len_def)
  show "call_refs (pipe_call_enter buf) = concat (map slice_refs buf)"
    by (cases buf) (auto simp: pipe_call_enter_def UserBuffer_into_iter_def it_refs_def)
  show "it_ok (pc_iter (pipe_call_enter buf))"
    using assms by (auto simp: pipe_call_enter_def UserBuffer_into_iter_def it_ok_def)
  show "pc_want (pipe_call_enter buf) = length (concat (map slice_refs buf))"
    by (simp add: pipe_call_enter_def UserBuffer_len_def length_concat o_def l)
  show "pc_already (pipe_call_enter buf) = 0"
    by (simp add: pipe_call_enter_def)
qed

lemma call_ok_enter:
  assumes "\<forall>b \<in> set buf. 0 < slice_len b" and "refs_ok m (concat (map slice_refs buf))" and "distinct (concat (map slice_refs buf))"
  shows "call_ok (pipe_call_enter buf) m"
  using pipe_call_enter_refs [OF assms(1)] assms(2,3) by (simp add: call_ok_def)

section \<open>Properties\<close>

text \<open>
  C28. Whatever calls of \<open>read\<close> and \<open>write\<close> are in flight on a pipe and in whatever order they get the
  processor, the bytes taken from the buffers of the writers are, in order, the bytes that arrived in
  the buffers of the readers followed by at most \<open>RING_BUFFER_SIZE\<close> bytes still in the ring buffer.
  Every call in flight can take its turn, without a panic and without looping; a turn of a reader ends
  suspended only when the buffer is drained and the write end open, a turn of a writer only when the
  buffer is full.
\<close>

theorem pipe_delivers_in_order:
  assumes "pipe_step\<^sup>*\<^sup>* (pipe_sys_init w m) s"
  shows "(\<exists>rest. sys_sent s = sys_received s @ rest \<and> length rest = available_read (sys_rb s) \<and> length rest \<le> RING_BUFFER_SIZE) \<and>
    (\<forall>c \<in> set (sys_readers s). \<exists>r rb m'. read_turn (\<lambda>_. sys_open s) (sys_rb s) c (sys_ram s) = Some (r, rb, m') \<and>
       (case r of Returned n \<Rightarrow> n = pc_want c \<or> \<not> sys_open s \<and> available_read rb = 0
        | Suspended c' \<Rightarrow> sys_open s \<and> available_read rb = 0 | Looping c' \<Rightarrow> False)) \<and>
    (\<forall>c \<in> set (sys_writers s). \<exists>r rb. write_turn (sys_rb s) c (sys_ram s) = Some (r, rb) \<and>
       (case r of Returned n \<Rightarrow> n = pc_want c | Suspended c' \<Rightarrow> available_write rb = 0 | Looping c' \<Rightarrow> False))"
proof -
  have inv: "pipe_inv w s"
    using pipe_reachable_inv [OF assms] .
  then have ring: "ring_inv (Some w) (sys_rb s)"
    by (simp add: pipe_inv_def)
  have "\<exists>r rb m'. read_turn (\<lambda>_. sys_open s) (sys_rb s) c (sys_ram s) = Some (r, rb, m') \<and>
       (case r of Returned n \<Rightarrow> n = pc_want c \<or> \<not> sys_open s \<and> available_read rb = 0
        | Suspended c' \<Rightarrow> sys_open s \<and> available_read rb = 0 | Looping c' \<Rightarrow> False)" if "c \<in> set (sys_readers s)" for c
  proof -
    have ok: "call_ok c (sys_ram s)"
      using inv that by (simp add: pipe_inv_def)
    show ?thesis
      using read_turn_spec [OF ring ok, of "\<lambda>_. sys_open s"]
      by (fastforce simp flip: length_ring_contents split: if_splits)
  qed
  moreover have "\<exists>r rb. write_turn (sys_rb s) c (sys_ram s) = Some (r, rb) \<and>
       (case r of Returned n \<Rightarrow> n = pc_want c | Suspended c' \<Rightarrow> available_write rb = 0 | Looping c' \<Rightarrow> False)"
    if "c \<in> set (sys_writers s)" for c
  proof -
    have ok: "call_ok c (sys_ram s)"
      using inv that by (simp add: pipe_inv_def)
    show ?thesis
      using write_turn_spec [OF ring ok] ring.capacity_law [OF ring]
      by (fastforce simp: ring.avail_write_law simp del: length_ring_contents split: if_splits)
  qed
  ultimately show ?thesis
    using inv ring.capacity_law [OF ring] by (auto simp: pipe_inv_def)
qed

theorem pipe_delivers_in_order_witness:
  "\<exists>s r rb. pipe_step\<^sup>*\<^sup>* (pipe_sys_init 1 [0 \<mapsto> replicate PAGE_SIZE 7]) s \<and> length (sys_writers s) = 1 \<and>
     write_turn (sys_rb s) (sys_writers s ! 0) (sys_ram s) = Some (r, rb) \<and> (\<exists>rest. sys_sent s = sys_received s @ rest)"
proof -
  let ?m = "[0 \<mapsto> replicate PAGE_SIZE 7] :: ram"
  let ?b = "\<lparr>ps_ppn = 0, ps_lo = 10, ps_hi = 50\<rparr>"
  let ?s = "(pipe_sys_init 1 ?m)\<lparr>sys_writers := [pipe_call_enter [?b]]\<rparr>"
  have "call_ok (pipe_call_enter [?b]) ?m"
    by (intro call_ok_enter) (auto simp: slice_len_def slice_refs_def refs_ok_def PAGE_SIZE_def distinct_map inj_on_def)
  then have "pipe_step (pipe_sys_init 1 ?m) ?s"
    using enter_write [of "pipe_sys_init 1 ?m" "[?b]"] by (simp add: pipe_sys_init_def)
  then have st: "pipe_step\<^sup>*\<^sup>* (pipe_sys_init 1 ?m) ?s"
    by simp
  have c: "sys_writers ?s = [pipe_call_enter [?b]]"
    by simp
  have "\<exists>r rb. write_turn (sys_rb ?s) (sys_writers ?s ! 0) (sys_ram ?s) = Some (r, rb)"
    "\<exists>rest. sys_sent ?s = sys_received ?s @ rest"
    using pipe_delivers_in_order [OF st] unfolding c by (fastforce, blast)
  then show ?thesis
    using st c by (metis One_nat_def length_Cons list.size(3))
qed

text \<open>
  C29. A writer and a reader of buffers of equal length that share a new pipe and get the processor in turn
  both return, after at most one turn each per \<open>RING_BUFFER_SIZE\<close> bytes, with the length of the buffer;
  the reader's buffer then holds the bytes of the writer's, no other byte of memory has changed, and
  the pipe is empty.
\<close>

theorem pipe_transfers_buffer:
  assumes "\<forall>b \<in> set (src @ dst). 0 < slice_len b"
    and "refs_ok m (concat (map slice_refs (src @ dst)))" and "distinct (concat (map slice_refs (src @ dst)))"
    and "UserBuffer_len dst = UserBuffer_len src" and "0 < UserBuffer_len src" and "UserBuffer_len src \<le> n * RING_BUFFER_SIZE"
  shows "\<exists>rb m'. round_robin n (snd (snd (make_pipe w))) (Suspended (pipe_call_enter src)) (Suspended (pipe_call_enter dst)) m =
      Some (rb, Returned (UserBuffer_len src), Returned (UserBuffer_len src), m') \<and> available_read rb = 0 \<and>
    map (byte_at m') (concat (map slice_refs dst)) = map (byte_at m) (concat (map slice_refs src)) \<and>
    (\<forall>x. x \<notin> set (concat (map slice_refs dst)) \<longrightarrow> byte_at m' x = byte_at m x)"
proof -
  have inv: "ring_inv (Some w) (snd (snd (make_pipe w)))" "ring_contents (snd (snd (make_pipe w))) = []"
    using pipe_inv_init [of w m] by (simp_all add: pipe_inv_def pipe_sys_init_def)
  have len: "pc_want (pipe_call_enter buf) = UserBuffer_len buf" for buf
    by (simp add: pipe_call_enter_def)
  have s: "\<forall>b \<in> set src. 0 < slice_len b" "\<forall>b \<in> set dst. 0 < slice_len b"
    using assms(1) by auto
  note es = pipe_call_enter_refs [OF s(1)] and ed = pipe_call_enter_refs [OF s(2)]
  have ok: "call_ok (pipe_call_enter src) m" "call_ok (pipe_call_enter dst) m"
    using assms s by (auto intro!: call_ok_enter simp: refs_ok_def)
  have n: "length (concat (map slice_refs src)) = UserBuffer_len src" "length (concat (map slice_refs dst)) = UserBuffer_len src"
    using es(3) ed(3) len assms(4) by metis+
  have ne: "concat (map slice_refs src) \<noteq> []"
    using n(1) assms(5) by (metis length_0_conv less_irrefl)
  have disj: "set (concat (map slice_refs src)) \<inter> set (concat (map slice_refs dst)) = {}"
    using assms(3) unfolding map_append concat_append distinct_append by blast
  show ?thesis
    using round_robin_transfers [OF inv ok, of n] n ne disj assms(6) unfolding es(1) ed(1) len assms(4) by simp
qed

theorem pipe_transfers_buffer_witness:
  "\<exists>rb m'. round_robin 2 (snd (snd (make_pipe 1)))
      (Suspended (pipe_call_enter [\<lparr>ps_ppn = 0, ps_lo = 4090, ps_hi = 4096\<rparr>, \<lparr>ps_ppn = 5, ps_lo = 0, ps_hi = 34\<rparr>]))
      (Suspended (pipe_call_enter [\<lparr>ps_ppn = 0, ps_lo = 0, ps_hi = 40\<rparr>])) [0 \<mapsto> replicate PAGE_SIZE 7, 5 \<mapsto> replicate PAGE_SIZE 9] =
    Some (rb, Returned 40, Returned 40, m') \<and> byte_at m' (0, 6) = 9"
proof -
  let ?src = "[\<lparr>ps_ppn = 0, ps_lo = 4090, ps_hi = 4096\<rparr>, \<lparr>ps_ppn = 5, ps_lo = 0, ps_hi = 34\<rparr>]"
  let ?dst = "[\<lparr>ps_ppn = 0, ps_lo = 0, ps_hi = 40\<rparr>]"
  let ?m = "[0 \<mapsto> replicate PAGE_SIZE 7, 5 \<mapsto> replicate PAGE_SIZE 9] :: ram"
  have len: "UserBuffer_len ?src = 40" "UserBuffer_len ?dst = 40"
    by (simp_all add: UserBuffer_len_def slice_len_def)
  have refs: "concat (map slice_refs ?src) = map (Pair 0) [4090..<4096] @ map (Pair 5) [0..<34]"
    "concat (map slice_refs ?dst) = map (Pair 0) [0..<40]"
    by (simp_all add: slice_refs_def)
  have ok: "\<forall>b \<in> set (?src @ ?dst). 0 < slice_len b" "refs_ok ?m (concat (map slice_refs (?src @ ?dst)))"
    "distinct (concat (map slice_refs (?src @ ?dst)))"
    by (auto simp: slice_len_def refs_ok_def slice_refs_def PAGE_SIZE_def distinct_map inj_on_def)
  obtain rb m' where r: "round_robin 2 (snd (snd (make_pipe 1))) (Suspended (pipe_call_enter ?src)) (Suspended (pipe_call_enter ?dst)) ?m =
      Some (rb, Returned 40, Returned 40, m')" "map (byte_at m') (concat (map slice_refs ?dst)) = map (byte_at ?m) (concat (map slice_refs ?src))"
    using pipe_transfers_buffer [OF ok, of 2 1] by (auto simp: len RING_BUFFER_SIZE_def)
  have "map (byte_at m') (map (Pair 0) [0..<40]) ! 6 = map (byte_at ?m) (map (Pair 0) [4090..<4096] @ map (Pair 5) [0..<34]) ! 6"
    using r(2) unfolding refs by simp
  then have "byte_at m' (0, 6) = 9"
    by (simp add: nth_append byte_at_def PAGE_SIZE_def)
  then show ?thesis
    using r(1) by auto
qed

end
