(* ===== verification/OpenFile.thy ===== *)
theory OpenFile
  imports Mkfs Pipe
begin

text \<open>
  Open files of the kernel (\<^verbatim>\<open>os/src/fs/inode.rs\<close>): an \<open>OSInode\<close> is a handle on an inode of the file
  system with access rights and an offset; it reads into and writes from buffers of user
  memory, a list of slices of physical pages. The kernel has one file system, \<open>efs\<close>, and
  \<open>ROOT_INODE\<close> is its root.
\<close>

section \<open>Open files\<close>

record OSInode =
  os_readable :: bool
  os_writable :: bool
  os_offset :: nat
  os_inode :: Inode

definition OSInode_new :: "bool \<Rightarrow> bool \<Rightarrow> Inode \<Rightarrow> OSInode" where
  "OSInode_new r w ino = \<lparr>os_readable = r, os_writable = w, os_offset = 0, os_inode = ino\<rparr>"

definition read_all :: "OSInode \<Rightarrow> disk \<Rightarrow> (bytes \<times> OSInode) option" where
  "read_all f d = do {
     sz \<leftarrow> get_size (os_inode f) d;
     (len, v) \<leftarrow> Inode_read_at (os_inode f) (os_offset f) (replicate sz 0) d;
     ensure (sz = len);
     Some (v, f\<lparr>os_offset := usize (os_offset f + len)\<rparr>) }"

definition OSInode_copy :: "OSInode \<Rightarrow> OSInode" where
  "OSInode_copy f = \<lparr>os_readable = os_readable f, os_writable = os_writable f, os_offset = os_offset f, os_inode = os_inode f\<rparr>"

definition load_slice :: "page_slice \<Rightarrow> ram \<Rightarrow> bytes option" where
  \<comment> \<open>the bytes a slice of a page refers to\<close>
  "load_slice sl m = do {
     pg \<leftarrow> m (ps_ppn sl);
     ensure (ps_lo sl \<le> ps_hi sl \<and> ps_hi sl \<le> length pg);
     Some (slice (ps_lo sl) (slice_len sl) pg) }"

definition store_slice :: "page_slice \<Rightarrow> bytes \<Rightarrow> ram \<Rightarrow> ram option" where
  "store_slice sl bs m = do {
     pg \<leftarrow> m (ps_ppn sl);
     ensure (length bs = slice_len sl \<and> ps_hi sl \<le> length pg);
     Some (m(ps_ppn sl \<mapsto> splice (ps_lo sl) bs pg)) }"

fun OSInode_read_loop :: "page_slice list \<Rightarrow> nat \<Rightarrow> OSInode \<Rightarrow> disk \<Rightarrow> ram \<Rightarrow> (nat \<times> OSInode \<times> ram) option" where
  \<comment> \<open>\<open>tot\<close>: \<open>total_read_size\<close>\<close>
  "OSInode_read_loop [] tot f d m = Some (tot, f, m)"
| "OSInode_read_loop (sl # sls) tot f d m = do {
     buf \<leftarrow> load_slice sl m;
     (len, buf) \<leftarrow> Inode_read_at (os_inode f) (os_offset f) buf d;
     m \<leftarrow> store_slice sl buf m;
     if len = 0 then Some (tot, f, m)
     else OSInode_read_loop sls (usize (tot + len)) (f\<lparr>os_offset := usize (os_offset f + len)\<rparr>) d m }"

definition OSInode_read :: "page_slice list \<Rightarrow> OSInode \<Rightarrow> disk \<Rightarrow> ram \<Rightarrow> (nat \<times> OSInode \<times> ram) option" where
  "OSInode_read bufs f d m = OSInode_read_loop bufs 0 f d m"

fun OSInode_write_loop :: "EasyFileSystem \<Rightarrow> page_slice list \<Rightarrow> nat \<Rightarrow> OSInode \<Rightarrow> disk \<Rightarrow> ram \<Rightarrow> (nat \<times> OSInode \<times> disk) option" where
  "OSInode_write_loop efs [] tot f d m = Some (tot, f, d)"
| "OSInode_write_loop efs (sl # sls) tot f d m = do {
     buf \<leftarrow> load_slice sl m;
     (len, d) \<leftarrow> Inode_write_at efs (os_inode f) (os_offset f) buf d;
     ensure (len = slice_len sl);
     OSInode_write_loop efs sls (usize (tot + len)) (f\<lparr>os_offset := usize (os_offset f + len)\<rparr>) d m }"

definition OSInode_write :: "EasyFileSystem \<Rightarrow> page_slice list \<Rightarrow> OSInode \<Rightarrow> disk \<Rightarrow> ram \<Rightarrow> (nat \<times> OSInode \<times> disk) option" where
  "OSInode_write efs bufs f d m = OSInode_write_loop efs bufs 0 f d m"

section \<open>Opening files\<close>

type_synonym OpenFlags = "32 word"

definition RDONLY :: OpenFlags where "RDONLY = 0"
definition WRONLY :: OpenFlags where "WRONLY = push_bit 0 1"
definition RDRW :: OpenFlags where "RDRW = push_bit 1 1"
definition CREATE :: OpenFlags where "CREATE = push_bit 9 1"
definition TRUNC :: OpenFlags where "TRUNC = push_bit 10 1"

definition flags_contain :: "OpenFlags \<Rightarrow> OpenFlags \<Rightarrow> bool" where
  "flags_contain a b \<longleftrightarrow> a AND b = b"

definition OpenFlags_from_bits_truncate :: "32 word \<Rightarrow> OpenFlags" where
  "OpenFlags_from_bits_truncate w = w AND (RDONLY OR WRONLY OR RDRW OR CREATE OR TRUNC)"

definition read_write :: "OpenFlags \<Rightarrow> bool \<times> bool" where
  "read_write fl = (if fl = 0 then (True, False) else if flags_contain fl WRONLY then (False, True) else (True, True))"

definition rsplit_once :: "bytes \<Rightarrow> (bytes \<times> bytes) option" where
  \<comment> \<open>\<open>name.rsplit_once('/')\<close>\<close>
  "rsplit_once nm = (if 47 \<in> set nm
     then Some (rev (tl (dropWhile (\<lambda>c. c \<noteq> 47) (rev nm))), rev (takeWhile (\<lambda>c. c \<noteq> 47) (rev nm))) else None)"

definition split_parent :: "bytes \<Rightarrow> bytes \<times> bytes" where
  "split_parent nm = (case rsplit_once nm of Some v \<Rightarrow> v | None \<Rightarrow> (dot, nm))"

definition open_file_at :: "EasyFileSystem \<Rightarrow> Inode \<Rightarrow> bytes \<Rightarrow> OpenFlags \<Rightarrow> disk \<Rightarrow> (OSInode option \<times> disk) option" where
  "open_file_at efs base nm fl d =
     (let (readable, writable) = read_write fl; (path, fname) = split_parent nm in
      if flags_contain fl CREATE then do {
        r \<leftarrow> find efs base path d;
        case r of
          None \<Rightarrow> Some (None, d)
        | Some parent \<Rightarrow> do {
            r \<leftarrow> find efs parent fname d;
            case r of
              Some ino \<Rightarrow> do {
                d \<leftarrow> (if flags_contain fl TRUNC then clear efs ino d else Some d);
                Some (Some (OSInode_new readable writable ino), d) }
            | None \<Rightarrow> do {
                (r, d) \<leftarrow> Inode_create efs parent fname d;
                Some (map_option (OSInode_new readable writable) r, d) } } }
      else do {
        r \<leftarrow> find efs base nm d;
        case r of
          None \<Rightarrow> Some (None, d)
        | Some ino \<Rightarrow> do {
            d \<leftarrow> (if flags_contain fl TRUNC then clear efs ino d else Some d);
            Some (Some (OSInode_new readable writable ino), d) } })"

definition open_file :: "EasyFileSystem \<Rightarrow> bytes \<Rightarrow> OpenFlags \<Rightarrow> disk \<Rightarrow> (OSInode option \<times> disk) option" where
  "open_file efs nm fl d = open_file_at efs (root_inode efs) nm fl d"

definition unlink_file_at :: "EasyFileSystem \<Rightarrow> Inode \<Rightarrow> bytes \<Rightarrow> disk \<Rightarrow> (bool \<times> disk) option" where
  "unlink_file_at efs base nm d =
     (let (path, fname) = split_parent nm in do {
        r \<leftarrow> find efs base path d;
        case r of Some parent \<Rightarrow> unlink efs parent fname d | None \<Rightarrow> Some (False, d) })"

definition find_file :: "EasyFileSystem \<Rightarrow> bytes \<Rightarrow> disk \<Rightarrow> OSInode option option" where
  "find_file efs path d = do {
     ensure (path \<noteq> [] \<and> hd path = 47);
     r \<leftarrow> find efs (root_inode efs) path d;
     Some (map_option (OSInode_new True True) r) }"

section \<open>The path of a directory\<close>

definition name_of_inode :: "Inode \<Rightarrow> Inode \<Rightarrow> disk \<Rightarrow> bytes option" where
  "name_of_inode ino parent d = do {
     r \<leftarrow> read_dirent parent (inode_id ino) DirEntry_name d;
     nm \<leftarrow> r;
     nm }"

partial_function (option) name_for_inode_inner :: "EasyFileSystem \<Rightarrow> Inode \<Rightarrow> disk \<Rightarrow> bytes option" where
  "name_for_inode_inner efs ino d =
     (if inode_id ino = inode_id (root_inode efs) then Some []
      else do {
        p \<leftarrow> find efs ino dotdot d;
        parent \<leftarrow> p;
        nm \<leftarrow> name_of_inode ino parent d;
        ancestor_name \<leftarrow> name_for_inode_inner efs parent d;
        Some (ancestor_name @ [47] @ nm) })"

definition name_for_inode :: "EasyFileSystem \<Rightarrow> Inode \<Rightarrow> disk \<Rightarrow> bytes option" where
  "name_for_inode efs ino d = do {
     s \<leftarrow> name_for_inode_inner efs ino d;
     Some (if s = [] then [47] else s) }"


section \<open>Slices of user memory\<close>

definition segs_ok :: "page_slice list \<Rightarrow> ram \<Rightarrow> bool" where
  \<comment> \<open>what \<open>translated_byte_buffer\<close> returns\<close>
  "segs_ok sls m \<longleftrightarrow> (\<forall>sl \<in> set sls. ps_lo sl < ps_hi sl \<and> (\<exists>pg. m (ps_ppn sl) = Some pg \<and> ps_hi sl \<le> length pg))"

definition segs_refs :: "page_slice list \<Rightarrow> byte_ref list" where
  "segs_refs sls = concat (map slice_refs sls)"

lemma segs_refs_simps [simp]: "segs_refs [] = []" "segs_refs (sl # sls) = slice_refs sl @ segs_refs sls"
  by (simp_all add: segs_refs_def)

lemma length_slice_refs [simp]: "length (slice_refs sl) = slice_len sl"
  by (simp add: slice_refs_def slice_len_def)

lemma length_segs_refs: "length (segs_refs sls) = UserBuffer_len sls"
  by (induction sls) (simp_all add: UserBuffer_len_def)

lemma segs_ok_refs: "segs_ok sls m \<Longrightarrow> refs_ok m (segs_refs sls)"
  by (fastforce simp: segs_ok_def refs_ok_def segs_refs_def slice_refs_def)

lemma segs_ok_Cons: "segs_ok (sl # sls) m \<longleftrightarrow> segs_ok [sl] m \<and> segs_ok sls m"
  by (auto simp: segs_ok_def)

lemma segs_ok_shape: "same_shape m m' \<Longrightarrow> segs_ok sls m \<Longrightarrow> segs_ok sls m'"
  unfolding segs_ok_def same_shape_def by (metis map_option_eq_Some option.simps(9))

lemma load_slice_ok: "segs_ok [sl] m \<Longrightarrow> load_slice sl m = Some (map (byte_at m) (slice_refs sl))"
  by (auto simp: segs_ok_def load_slice_def slice_refs_def byte_at_def slice_len_def intro!: nth_equalityI)

lemma store_bytes_append:
  "length bs = length rs \<Longrightarrow> store_bytes (rs @ rs') (bs @ bs') m = store_bytes rs' bs' (store_bytes rs bs m)"
  by (induction rs bs m rule: store_bytes.induct) auto

lemma store_bytes_prefix: "length bs \<le> length rs \<Longrightarrow> store_bytes (rs @ rs') bs m = store_bytes rs bs m"
  by (induction rs bs m rule: store_bytes.induct) simp_all

lemma store_bytes_page:
  assumes "m p = Some pg" and "lo + length bs \<le> length pg"
  shows "store_bytes (map (\<lambda>off. (p, off)) [lo..<lo + n]) bs m = m(p \<mapsto> splice lo (take n bs) pg)"
  using assms
proof (induction n arbitrary: lo bs m pg)
  case 0
  then show ?case by (auto simp: fun_upd_idem)
next
  case (Suc n)
  show ?case
  proof (cases bs)
    case Nil
    then show ?thesis
      using Suc.prems by (cases "map (\<lambda>off. (p, off)) [lo..<lo + Suc n]") (auto simp: fun_upd_idem)
  next
    case (Cons b bs')
    let ?pg = "pg[lo := b]"
    have p: "poke (p, lo) b m = m(p \<mapsto> ?pg)"
      using Suc.prems by (simp add: poke_def)
    have "[lo..<lo + Suc n] = lo # [Suc lo..<Suc lo + n]"
      by (simp add: upt_conv_Cons)
    then have "store_bytes (map (\<lambda>off. (p, off)) [lo..<lo + Suc n]) bs m =
        store_bytes (map (\<lambda>off. (p, off)) [Suc lo..<Suc lo + n]) bs' (m(p \<mapsto> ?pg))"
      using Cons p by simp
    also have "\<dots> = (m(p \<mapsto> ?pg))(p \<mapsto> splice (Suc lo) (take n bs') ?pg)"
      using Suc.prems Cons by (intro Suc.IH) simp_all
    also have "splice (Suc lo) (take n bs') ?pg = splice lo (take (Suc n) bs) pg"
      using Suc.prems Cons by (intro nth_equalityI) (auto simp: nth_splice nth_list_update nth_Cons')
    finally show ?thesis
      by (simp only: fun_upd_upd)
  qed
qed

lemma store_slice_ok:
  assumes "segs_ok [sl] m" and "length bs = slice_len sl"
  shows "store_slice sl bs m = Some (store_bytes (slice_refs sl) bs m)"
proof -
  obtain pg where pg: "ps_lo sl < ps_hi sl" "m (ps_ppn sl) = Some pg" "ps_hi sl \<le> length pg"
    using assms(1) by (auto simp: segs_ok_def)
  have "store_bytes (slice_refs sl) bs m = m(ps_ppn sl \<mapsto> splice (ps_lo sl) (take (slice_len sl) bs) pg)"
    using store_bytes_page [of m "ps_ppn sl" pg "ps_lo sl" bs "slice_len sl"] pg assms(2)
    by (simp add: slice_refs_def slice_len_def)
  then show ?thesis
    using pg assms(2) by (simp add: store_slice_def)
qed

lemma store_own_bytes: "refs_ok m rs \<Longrightarrow> store_bytes rs (map (byte_at m) rs) m = m"
proof (induction rs)
  case (Cons r rs)
  obtain pg where pg: "m (fst r) = Some pg" "snd r < length pg"
    using Cons.prems by auto
  have "poke r (byte_at m r) m = m"
    using pg by (auto simp: poke_def byte_at_def)
  then show ?case
    using Cons by simp
qed simp

lemma store_partial:
  assumes "refs_ok m rs" and "length bs \<le> length rs" and "distinct rs"
  shows "store_bytes rs (splice 0 bs (map (byte_at m) rs)) m = store_bytes rs bs m"
proof -
  let ?n = "length bs"
  have "splice 0 bs (map (byte_at m) rs) = bs @ map (byte_at m) (drop ?n rs)"
    by (simp add: splice_def drop_map)
  then have "store_bytes rs (splice 0 bs (map (byte_at m) rs)) m =
      store_bytes (drop ?n rs) (map (byte_at m) (drop ?n rs)) (store_bytes (take ?n rs) bs m)"
    using store_bytes_append [of bs "take ?n rs" "drop ?n rs"] assms(2) by simp
  also have "map (byte_at m) (drop ?n rs) = map (byte_at (store_bytes (take ?n rs) bs m)) (drop ?n rs)"
  proof (rule map_cong)
    fix r assume "r \<in> set (drop ?n rs)"
    then have "r \<notin> set (take ?n rs)"
      using set_take_disj_set_drop_if_distinct [OF assms(3), of ?n ?n] by blast
    then show "byte_at m r = byte_at (store_bytes (take ?n rs) bs m) r"
      using byte_at_store [OF refs_ok_drop(2) [OF assms(1)]] by simp
  qed simp
  also have "store_bytes (drop ?n rs) \<dots> (store_bytes (take ?n rs) bs m) = store_bytes (take ?n rs) bs m"
    using same_shape_refs [OF store_bytes_shape [OF refs_ok_drop(2) [OF assms(1)]] refs_ok_drop(1) [OF assms(1)]]
    by (rule store_own_bytes)
  also have "\<dots> = store_bytes (take ?n rs @ drop ?n rs) bs m"
    using store_bytes_prefix [of bs "take ?n rs" "drop ?n rs" m] assms(2) by simp
  finally show ?thesis
    by simp
qed

section \<open>Reading\<close>

lemma slice_append: "slice off (a + b) xs = slice off a xs @ slice (off + a) b xs"
  by (simp add: slice_def take_add add.commute)

lemma OSInode_read_loop_spec:
  assumes inv: "fs_inv efs nd d" and i: "i \<in> used_inodes efs d" and di: "inode_at efs d i = Some di"
    and f: "os_inode f = inode_handle efs i" and segs: "segs_ok sls m" "distinct (segs_refs sls)"
    and len: "os_offset f + UserBuffer_len sls < 2 ^ 64" "tot + UserBuffer_len sls < 2 ^ 64"
    and n: "n = min (UserBuffer_len sls) (length (content di d) - os_offset f)"
  shows "OSInode_read_loop sls tot f d m =
    Some (tot + n, f\<lparr>os_offset := os_offset f + n\<rparr>, store_bytes (segs_refs sls) (slice (os_offset f) n (content di d)) m)"
  using f segs len n
proof (induction sls arbitrary: tot f m n)
  case Nil
  then show ?case by (simp add: UserBuffer_len_def)
next
  case (Cons sl sls)
  let ?c = "content di d" and ?off = "os_offset f" and ?rs = "slice_refs sl"
  have L: "UserBuffer_len (sl # sls) = slice_len sl + UserBuffer_len sls"
    by (simp add: UserBuffer_len_def)
  have sl: "segs_ok [sl] m" "segs_ok sls m" "0 < slice_len sl"
    using Cons.prems(2) by (auto simp: segs_ok_def slice_len_def)
  have ok: "refs_ok m ?rs"
    using segs_ok_refs [OF sl(1)] by simp
  define k where "k = min (slice_len sl) (length ?c - ?off)"
  have lk: "length (slice ?off k ?c) = k"
    by (simp add: k_def)
  define m1 where "m1 = store_bytes ?rs (slice ?off k ?c) m"
  have rd: "Inode_read_at (os_inode f) ?off (map (byte_at m) ?rs) d =
      Some (k, splice 0 (slice ?off k ?c) (map (byte_at m) ?rs))"
    using read_at_effect [OF inv i di, of ?off "map (byte_at m) ?rs"] Cons.prems(1,4) L by (simp add: Let_def k_def)
  have "store_slice sl (splice 0 (slice ?off k ?c) (map (byte_at m) ?rs)) m = Some m1"
    using store_slice_ok [OF sl(1)] store_partial [OF ok, of "slice ?off k ?c"] Cons.prems(3) lk
    by (simp add: k_def m1_def)
  moreover have "usize (?off + k) = ?off + k" "usize (tot + k) = tot + k"
    using Cons.prems(4,5) L by (simp_all add: usize_def k_def)
  ultimately have step: "OSInode_read_loop (sl # sls) tot f d m = (if k = 0 then Some (tot, f, m1)
      else OSInode_read_loop sls (tot + k) (f\<lparr>os_offset := ?off + k\<rparr>) d m1)"
    using load_slice_ok [OF sl(1)] rd by simp
  show ?case
  proof (cases "k = slice_len sl")
    case False
    then have "n = k"
      using Cons.prems(6) L by (auto simp: k_def)
    moreover have "store_bytes (?rs @ segs_refs sls) (slice ?off k ?c) m = m1"
      using store_bytes_prefix [of "slice ?off k ?c" ?rs] lk by (simp add: m1_def k_def)
    moreover have "OSInode_read_loop sls (tot + k) (f\<lparr>os_offset := ?off + k\<rparr>) d m1 = Some (tot + k, f\<lparr>os_offset := ?off + k\<rparr>, m1)"
      if "k \<noteq> 0"
      using Cons.IH [of "f\<lparr>os_offset := ?off + k\<rparr>" m1 "tot + k" 0] Cons.prems False L
        segs_ok_shape [OF store_bytes_shape [OF ok] sl(2)] by (auto simp: k_def m1_def)
    ultimately show ?thesis
      unfolding step by (cases "k = 0") (simp_all add: m1_def)
  next
    case True
    define n2 where "n2 = min (UserBuffer_len sls) (length ?c - (?off + k))"
    have n: "n = k + n2"
      using Cons.prems(6) L True by (auto simp: k_def n2_def)
    have "OSInode_read_loop sls (tot + k) (f\<lparr>os_offset := ?off + k\<rparr>) d m1 =
        Some (tot + k + n2, f\<lparr>os_offset := ?off + k + n2\<rparr>, store_bytes (segs_refs sls) (slice (?off + k) n2 ?c) m1)"
      using Cons.IH [of "f\<lparr>os_offset := ?off + k\<rparr>" m1 "tot + k" n2] Cons.prems True L
        segs_ok_shape [OF store_bytes_shape [OF ok] sl(2)] by (auto simp: n2_def m1_def)
    moreover have "store_bytes (?rs @ segs_refs sls) (slice ?off n ?c) m = store_bytes (segs_refs sls) (slice (?off + k) n2 ?c) m1"
      using store_bytes_append [of "slice ?off k ?c" ?rs] lk True by (simp add: n slice_append m1_def)
    ultimately show ?thesis
      unfolding step using True sl(3) n by (simp add: add.assoc)
  qed
qed

section \<open>Writing\<close>

lemma content_length:
  assumes "fs_inv efs nd d" and "i \<in> used_inodes efs d" and "inode_at efs d i = Some di"
  shows "length (content di d) = di_size di"
  using length_content [OF ownD(2) [OF fs_inv_own(1) [OF assms]]] fs_inv_own(2) [OF assms] by simp

lemma need_blocks_step:
  assumes sz: "di_size di \<le> MAX_BLOCKS * BLOCK_SZ" and mid: "mid \<le> fin" "fin \<le> MAX_BLOCKS * BLOCK_SZ"
    and di1: "di_size di1 = max (di_size di) mid" and room: "need_blocks di fin \<le> fr"
  shows "need_blocks di mid \<le> fr" and "need_blocks di1 fin \<le> fr - need_blocks di mid"
proof -
  have T: "tree_total (data_blocks_of_size a) \<le> tree_total (data_blocks_of_size b)" if "a \<le> b" "b \<le> MAX_BLOCKS * BLOCK_SZ" for a b
    using that by (intro tree_total_mono data_blocks_mono)
  note m = T [OF mid] 
  show "need_blocks di mid \<le> fr"
    using m room by (simp add: need_blocks_def)
  show "need_blocks di1 fin \<le> fr - need_blocks di mid"
  proof (cases "mid \<le> di_size di")
    case True
    then show ?thesis
      using T [OF True sz] room di1 by (simp add: need_blocks_def data_blocks_def max_def)
  next
    case False
    then have "tree_total (data_blocks_of_size (di_size di)) \<le> tree_total (data_blocks_of_size mid)"
      using mid by (intro T) simp_all
    then show ?thesis
      using False room di1 m by (simp add: need_blocks_def data_blocks_def max_def)
  qed
qed

lemma splice_more: "off + length src \<le> length dst \<Longrightarrow> splice off src dst @ ys = splice off src (dst @ ys)"
  by (simp add: splice_def)

lemma OSInode_write_loop_spec:
  assumes "fs_inv efs nd d" and "i \<in> used_inodes efs d" and "inode_at efs d i = Some di" and "is_file di"
    and "os_inode f = inode_handle efs i" and "segs_ok sls m"
    and "os_offset f + UserBuffer_len sls \<le> MAX_BLOCKS * BLOCK_SZ" and "tot + UserBuffer_len sls < 2 ^ 64"
    and "need_blocks di (os_offset f + UserBuffer_len sls) \<le> free_blocks efs nd d"
    and "sls \<noteq> [] \<or> os_offset f \<le> di_size di"
  shows "\<exists>d' di'. OSInode_write_loop efs sls tot f d m =
      Some (tot + UserBuffer_len sls, f\<lparr>os_offset := os_offset f + UserBuffer_len sls\<rparr>, d') \<and>
    fs_inv efs nd d' \<and> inode_at efs d' i = Some di' \<and> is_file di' \<and>
    content di' d' = splice (os_offset f) (map (byte_at m) (segs_refs sls))
      (content di d @ replicate (os_offset f + UserBuffer_len sls - di_size di) 0) \<and>
    used_inodes efs d' = used_inodes efs d \<and> others_kept efs {i} d d'"
  using assms
proof (induction sls arbitrary: tot f d di)
  case Nil
  then show ?case
    by (auto simp: UserBuffer_len_def others_kept_def intro!: exI [of _ d] exI [of _ di])
next
  case (Cons sl sls)
  let ?off = "os_offset f" and ?rs = "slice_refs sl"
  let ?buf = "map (byte_at m) ?rs" and ?mid = "?off + slice_len sl" and ?fin = "?off + UserBuffer_len (sl # sls)"
  have L: "UserBuffer_len (sl # sls) = slice_len sl + UserBuffer_len sls"
    by (simp add: UserBuffer_len_def)
  have sl: "segs_ok [sl] m" "segs_ok sls m" "0 < slice_len sl"
    using Cons.prems(6) by (auto simp: segs_ok_def slice_len_def)
  have bnd: "di_size di \<le> MAX_BLOCKS * BLOCK_SZ"
    using ownD(2) [OF fs_inv_own(1) [OF Cons.prems(1-3)]] by (simp add: inode_ok_def)
  have buf: "?buf \<noteq> []" "?off + length ?buf \<le> MAX_BLOCKS * BLOCK_SZ"
    using sl(3) Cons.prems(7) L by (auto simp flip: length_greater_0_conv)
  note room = need_blocks_step [OF bnd _ Cons.prems(7) _ Cons.prems(9), of ?mid]
  obtain d1 di1 where w: "Inode_write_at efs (inode_handle efs i) ?off ?buf d = Some (slice_len sl, d1)"
    "fs_inv efs nd d1" "inode_at efs d1 i = Some di1" "is_file di1"
    "content di1 d1 = splice ?off ?buf (content di d @ replicate (?mid - di_size di) 0)"
    "used_inodes efs d1 = used_inodes efs d" "others_kept efs {i} d d1"
    "di_size di1 = max (di_size di) ?mid" "free_blocks efs nd d1 = free_blocks efs nd d - need_blocks di ?mid"
    using write_at_effect [OF Cons.prems(1-4) buf] room(1) [of "di\<lparr>di_size := max (di_size di) ?mid\<rparr>"] L by auto
  let ?f1 = "f\<lparr>os_offset := ?mid\<rparr>"
  have u: "usize ?mid = ?mid" "usize (tot + slice_len sl) = tot + slice_len sl"
    using Cons.prems(7,8) L by (simp_all add: usize_def MAX_BLOCKS_def layout_consts)
  have step: "OSInode_write_loop efs (sl # sls) tot f d m = OSInode_write_loop efs sls (tot + slice_len sl) ?f1 d1 m"
    using load_slice_ok [OF sl(1)] w(1) Cons.prems(5) u by simp
  have need: "need_blocks di1 ?fin \<le> free_blocks efs nd d1"
    using room(2) [OF _ w(8)] w(9) L by simp
  obtain d2 di2 where r: "OSInode_write_loop efs sls (tot + slice_len sl) ?f1 d1 m =
      Some (tot + slice_len sl + UserBuffer_len sls, ?f1\<lparr>os_offset := ?mid + UserBuffer_len sls\<rparr>, d2)"
    "fs_inv efs nd d2" "inode_at efs d2 i = Some di2" "is_file di2"
    "content di2 d2 = splice ?mid (map (byte_at m) (segs_refs sls)) (content di1 d1 @ replicate (?mid + UserBuffer_len sls - di_size di1) 0)"
    "used_inodes efs d2 = used_inodes efs d1" "others_kept efs {i} d1 d2"
    using Cons.IH [of d1 di1 ?f1 "tot + slice_len sl"] w Cons.prems(2,5,7,8) sl(2) need L by (auto simp: add.assoc)
  have c: "length (content di d) = di_size di"
    by (rule content_length [OF Cons.prems(1-3)])
  have "content di1 d1 @ replicate (?mid + UserBuffer_len sls - di_size di1) 0 =
      splice ?off ?buf (content di d @ replicate (?mid - di_size di + (?fin - max (di_size di) ?mid)) 0)"
    unfolding w(5,8) using c by (subst splice_more) (auto simp: L replicate_add add.assoc)
  also have "?mid - di_size di + (?fin - max (di_size di) ?mid) = ?fin - di_size di"
    using L by auto
  finally have "content di2 d2 = splice ?off (?buf @ map (byte_at m) (segs_refs sls)) (content di d @ replicate (?fin - di_size di) 0)"
    unfolding r(5) using splice_splice_adjacent [of ?off ?buf "map (byte_at m) (segs_refs sls)"] c L by (simp add: length_segs_refs)
  then show ?case
    using r others_kept_mono [OF others_kept_trans [OF w(7) r(7)], of "{i}"] w(6) step L
    by (intro exI [of _ d2] exI [of _ di2]) (simp add: add.assoc)
qed

section \<open>Paths\<close>

lemma split_slash_neq: "split_slash xs \<noteq> []"
  by (induction xs) (auto split: list.splits)

lemma split_slash_append: "split_slash (a @ 47 # b) = split_slash a @ split_slash b"
  by (induction a) (auto simp: split_slash_neq split: list.splits)

lemma split_slash_name: "47 \<notin> set nm \<Longrightarrow> split_slash nm = [nm]"
  by (induction nm) auto

definition components :: "bytes \<Rightarrow> bytes list" where
  "components path = filter (\<lambda>s. s \<noteq> []) (split_slash path)"

lemma components_snoc: "nm \<noteq> [] \<Longrightarrow> 47 \<notin> set nm \<Longrightarrow> components (path @ 47 # nm) = components path @ [nm]"
  by (simp add: components_def split_slash_append split_slash_name)

lemma components_name: "nm \<noteq> [] \<Longrightarrow> 47 \<notin> set nm \<Longrightarrow> components nm = [nm]"
  by (simp add: components_def split_slash_name)

lemma find_components:
  assumes "fs_inv efs nd d" and "i \<in> used_inodes efs d"
  shows "find efs (inode_handle efs i) path d = Some (map_option (inode_handle efs) (resolve efs d (components path) i))"
  using find_from_resolve [OF assms] by (simp add: find_def components_def)

lemma resolve_append: "resolve efs d (xs @ ys) i = (case resolve efs d xs i of None \<Rightarrow> None | Some j \<Rightarrow> resolve efs d ys j)"
  by (induction xs arbitrary: i) (auto split: option.splits)

lemma resolve_used:
  assumes "fs_inv efs nd d" and "i \<in> used_inodes efs d" and "resolve efs d ns i = Some j"
  shows "j \<in> used_inodes efs d"
  using assms(2,3) by (induction ns arbitrary: i) (auto split: option.splits if_splits dest: fs_lookup(2) [OF assms(1)])

lemma rsplit_once_eq:
  assumes "rsplit_once nm = Some (path, fname)"
  shows "nm = path @ 47 # fname" and "47 \<notin> set fname"
proof -
  let ?r = "rev nm"
  have in_r: "47 \<in> set ?r"
    using assms by (auto simp: rsplit_once_def split: if_splits)
  then have "dropWhile (\<lambda>c. c \<noteq> 47) ?r \<noteq> []" "hd (dropWhile (\<lambda>c. c \<noteq> 47) ?r) = 47"
    using hd_dropWhile [of "\<lambda>c. c \<noteq> 47" ?r] by (auto simp: dropWhile_eq_Nil_conv)
  then have "dropWhile (\<lambda>c. c \<noteq> 47) ?r = 47 # tl (dropWhile (\<lambda>c. c \<noteq> 47) ?r)"
    by (metis list.collapse)
  then have "?r = takeWhile (\<lambda>c. c \<noteq> 47) ?r @ 47 # tl (dropWhile (\<lambda>c. c \<noteq> 47) ?r)"
    by (metis takeWhile_dropWhile_id)
  then have "nm = rev (takeWhile (\<lambda>c. c \<noteq> 47) ?r @ 47 # tl (dropWhile (\<lambda>c. c \<noteq> 47) ?r))"
    by (metis rev_rev_ident)
  then show "nm = path @ 47 # fname"
    using assms in_r by (simp add: rsplit_once_def)
  show "47 \<notin> set fname"
    using assms by (auto simp: rsplit_once_def split: if_splits dest: set_takeWhileD)
qed

lemma rsplit_once_None: "rsplit_once nm = None \<longleftrightarrow> 47 \<notin> set nm"
  by (simp add: rsplit_once_def)

section \<open>The names of directories\<close>

inductive located :: "EasyFileSystem \<Rightarrow> disk \<Rightarrow> bytes list \<Rightarrow> nat \<Rightarrow> bool" for efs d where
  \<comment> \<open>a directory that is reached from the root along these names, each name being the only one
    its parent has for it, and whose \<open>..\<close> leads back\<close>
  located_root: "located efs d [] 0"
| located_child: "located efs d ns p \<Longrightarrow> inode_at efs d p = Some dp \<Longrightarrow> is_dir dp \<Longrightarrow> dir_map dp d nm = Some i \<Longrightarrow>
    \<forall>nm'. dir_map dp d nm' = Some i \<longrightarrow> nm' = nm \<Longrightarrow> nm \<noteq> [] \<Longrightarrow> 47 \<notin> set nm \<Longrightarrow> i \<noteq> 0 \<Longrightarrow>
    inode_at efs d i = Some di \<Longrightarrow> is_dir di \<Longrightarrow> dir_map di d dotdot = Some p \<Longrightarrow> located efs d (ns @ [nm]) i"

definition path_of :: "bytes list \<Rightarrow> bytes" where
  "path_of ns = concat (map (\<lambda>nm. 47 # nm) ns)"

lemma path_of_snoc: "path_of (ns @ [nm]) = path_of ns @ 47 # nm"
  by (simp add: path_of_def)

lemma path_of_hd: "path_of ns \<noteq> [] \<Longrightarrow> hd (path_of ns) = 47"
  by (cases ns) (auto simp: path_of_def)

lemma path_of_Nil: "path_of ns = [] \<longleftrightarrow> ns = []"
  by (cases ns) (auto simp: path_of_def)

lemma located_resolve:
  assumes "located efs d ns i"
  shows "resolve efs d ns 0 = Some i" and "components (path_of ns) = ns"
  using assms
proof induction
  case (located_child ns p dp nm i di)
  case 1
  show ?case
    using located_child(2-4) located_child.IH(1) by (simp add: resolve_append)
  case 2
  show ?case
    using located_child(6,7) located_child.IH(2) by (simp add: path_of_snoc components_snoc)
qed (simp_all add: path_of_def components_def)

lemma name_of_child:
  assumes inv: "fs_inv efs nd d" and p: "p \<in> used_inodes efs d" "i \<in> used_inodes efs d"
    and dp: "inode_at efs d p = Some dp" "is_dir dp"
    and nm: "dir_map dp d nm = Some i" "\<forall>nm'. dir_map dp d nm' = Some i \<longrightarrow> nm' = nm"
  shows "name_of_inode (inode_handle efs i) (inode_handle efs p) d = Some nm"
proof -
  let ?d0 = "d(inode_block efs p := None)" and ?es = "\<lambda>d. map (\<lambda>k. (k, dir_entries dp d ! k)) [0..<file_count dp]"
  note D = fs_invD [OF inv] and O = fs_inv_own [OF inv p(1) dp(1)]
  have ok: "inode_ok dp ?d0"
    by (rule ownD(2) [OF O(1)])
  have dir: "dir_ok (used_inodes efs d) dp ?d0"
    using good_parts(3) [OF O(6) dp(2)] .
  have dl: "dir_list dp ?d0 = dir_list dp d"
    by (rule dir_list_cong [OF O(2)])
  have s: "search_entries (\<lambda>e. Some (inode_number e = i)) dp [0..<file_count dp] ?d0 =
      Some (List.find (\<lambda>(k, e). inode_number e = i) (?es ?d0))"
    by (rule search_entries_eq [OF ok]) auto
  have "(nm, i) \<in> set (dir_list dp ?d0)"
    using nm(1) unfolding dir_map_def dl by (rule map_of_SomeD)
  then obtain k where "k < file_count dp" "inode_number (dir_entries dp ?d0 ! k) = i"
    by (auto simp: dir_list_def in_set_conv_nth)
  then have "\<exists>x \<in> set (?es ?d0). (\<lambda>(k, e). inode_number e = i) x"
    by (auto intro!: bexI [of _ "(k, dir_entries dp ?d0 ! k)"])
  then obtain k' e where f: "List.find (\<lambda>(k, e). inode_number e = i) (?es ?d0) = Some (k', e)"
    by (cases "List.find (\<lambda>(k, e). inode_number e = i) (?es ?d0)") (auto simp: find_None_iff)
  then have e: "e \<in> set (dir_entries dp ?d0)" "inode_number e = i"
    by (auto simp: find_Some_iff)
  then have "map_of (dir_list dp ?d0) (entry_name e) = Some i"
    using dir by (intro map_of_is_SomeI) (auto simp: dir_ok_def dir_list_def comp_def)
  then have "entry_name e = nm"
    using nm(2) by (simp add: dir_map_def dl)
  moreover have "DirEntry_name e = Some (entry_name e)"
    using e(1) dir by (auto simp: dir_ok_def entry_name_def)
  ultimately show ?thesis
    using s f dp(2) inode_handle_eq [OF D(1) used_inodes_bound [OF p(2)]]
    by (simp add: name_of_inode_def read_dirent_def read_disk_inode_eq [OF D(1) used_inodes_bound [OF p(1)] dp(1)] get_dirent_def)
qed

lemma name_for_located:
  assumes inv: "fs_inv efs nd d" and root: "0 \<in> used_inodes efs d" and "located efs d ns i"
  shows "name_for_inode_inner efs (inode_handle efs i) d = Some (path_of ns)"
  using assms(3)
proof induction
  case located_root
  then show ?case
    by (simp add: name_for_inode_inner.simps [of efs "inode_handle efs 0"] root_inode_def path_of_def)
next
  case (located_child ns p dp nm i di)
  note D = fs_invD [OF inv]
  have p: "p \<in> used_inodes efs d" and i: "i \<in> used_inodes efs d"
    using resolve_used [OF inv root located_resolve(1) [OF located_child(1)]] fs_lookup(2) [OF inv _ located_child(2,3,4)] by blast+
  have "components dotdot = [dotdot]"
    by (rule components_name) (simp_all add: dotdot_def)
  then have "find efs (inode_handle efs i) dotdot d = Some (Some (inode_handle efs p))"
    using find_components [OF inv i, of dotdot] located_child(9-11) by simp
  moreover have "name_of_inode (inode_handle efs i) (inode_handle efs p) d = Some nm"
    using name_of_child [OF inv p i located_child(2-5)] .
  moreover have "inode_id (inode_handle efs i) \<noteq> inode_id (root_inode efs)"
    using inode_handle_eq [OF D(1) used_inodes_bound [OF i]] inode_handle_eq [OF D(1) used_inodes_bound [OF root]] located_child(8)
    by (simp add: root_inode_def)
  ultimately show ?case
    using located_child.IH by (simp add: name_for_inode_inner.simps [of efs "inode_handle efs i"] path_of_snoc)
qed

lemma located_created:
  assumes inv: "fs_inv efs nd d" and p: "p \<in> used_inodes efs d" and dp: "inode_at efs d p = Some dp" "is_dir dp"
    and i: "i \<notin> used_inodes efs d" "i \<noteq> 0" and nm: "nm \<noteq> []" "47 \<notin> set nm"
    and d': "located efs d' ns p" "inode_at efs d' p = Some dp'" "is_dir dp'" "dir_map dp' d' = (dir_map dp d)(nm \<mapsto> i)"
    "inode_at efs d' i = Some di" "is_dir di" "dir_list di d' = [(dot, i), (dotdot, p)]"
  shows "located efs d' (ns @ [nm]) i"
proof (rule located.located_child [OF d'(1-3)])
  show "dir_map dp' d' nm = Some i" "\<forall>nm'. dir_map dp' d' nm' = Some i \<longrightarrow> nm' = nm"
    using i(1) fs_lookup(2) [OF inv p dp] d'(4) by (auto split: if_splits)
  show "dir_map di d' dotdot = Some p"
    using d'(7) dot_names(3) by (simp add: dir_map_def)
qed (use nm i(2) d'(5,6) in auto)

section \<open>Files that are created\<close>

lemma resolve_mono:
  assumes "\<And>j dj. j \<in> used_inodes efs d \<Longrightarrow> inode_at efs d j = Some dj \<Longrightarrow> is_dir dj \<Longrightarrow>
      \<exists>dj'. inode_at efs d' j = Some dj' \<and> is_dir dj' \<and> dir_map dj d \<subseteq>\<^sub>m dir_map dj' d'"
    and "fs_inv efs nd d" and "i \<in> used_inodes efs d" and "resolve efs d ns i = Some j"
  shows "resolve efs d' ns i = Some j"
  using assms(3,4)
proof (induction ns arbitrary: i)
  case (Cons nm ns)
  obtain di k where k: "inode_at efs d i = Some di" "is_dir di" "dir_map di d nm = Some k" "resolve efs d ns k = Some j"
    using Cons.prems(2) by (auto split: option.splits if_splits)
  obtain di' where "inode_at efs d' i = Some di'" "is_dir di'" "dir_map di d \<subseteq>\<^sub>m dir_map di' d'"
    using assms(1) [OF Cons.prems(1) k(1,2)] by blast
  moreover from this(3) have "dir_map di' d' nm = Some k"
    using k(3) by (auto simp: map_le_def dom_def)
  moreover have "resolve efs d' ns k = Some j"
    using Cons.IH [OF fs_lookup(2) [OF assms(2) Cons.prems(1) k(1-3)] k(4)] .
  ultimately show ?case
    by simp
qed simp

lemma resolve_extended:
  assumes inv: "fs_inv efs nd d" and p: "p \<in> used_inodes efs d" and dp: "inode_at efs d p = Some dp" "is_dir dp"
    and nm: "dir_map dp d nm = None"
    and d': "inode_at efs d' p = Some dp'" "is_dir dp'" "dir_map dp' d' = (dir_map dp d)(nm \<mapsto> i)" "others_kept efs {p} d d'"
    and r: "b \<in> used_inodes efs d" "resolve efs d ns b = Some p"
  shows "resolve efs d' ns b = Some p" and "resolve efs d' (ns @ [nm]) b = Some i"
proof -
  show r': "resolve efs d' ns b = Some p"
  proof (rule resolve_mono [OF _ inv r])
    fix j dj assume j: "j \<in> used_inodes efs d" "inode_at efs d j = Some dj" "is_dir dj"
    show "\<exists>dj'. inode_at efs d' j = Some dj' \<and> is_dir dj' \<and> dir_map dj d \<subseteq>\<^sub>m dir_map dj' d'"
    proof (cases "j = p")
      case True
      then show ?thesis
        using j dp d' nm by (auto simp: map_le_def)
    next
      case False
      then show ?thesis
        using j others_keptD [OF d'(4) j(1) _ j(2)] dir_map_cong [of dj d' d] by auto
    qed
  qed
  then show "resolve efs d' (ns @ [nm]) b = Some i"
    using d'(1-3) by (simp add: resolve_append)
qed

lemma open_existing:
  assumes inv: "fs_inv efs nd d" and b: "b \<in> used_inodes efs d"
    and nm: "split_parent nm = (path, fname)" "fname \<noteq> []" "47 \<notin> set fname" "rsplit_once nm \<noteq> None \<or> p = b"
    and r: "resolve efs d (components path) b = Some p" "resolve efs d (components path @ [fname]) b = Some i"
    and fl: "\<not> flags_contain fl TRUNC"
  shows "open_file_at efs (inode_handle efs b) nm fl d =
    Some (Some (OSInode_new (fst (read_write fl)) (snd (read_write fl)) (inode_handle efs i)), d)"
proof -
  have p: "p \<in> used_inodes efs d"
    by (rule resolve_used [OF inv b r(1)])
  have pi: "resolve efs d [fname] p = Some i"
    using r by (simp only: resolve_append option.case)
  have "resolve efs d (components nm) b = Some i"
  proof (cases "rsplit_once nm")
    case None
    then show ?thesis
      using nm pi components_name [OF nm(2,3)] by (simp add: split_parent_def)
  next
    case (Some v)
    then have "nm = path @ 47 # fname"
      using rsplit_once_eq(1) nm(1) by (simp add: split_parent_def)
    then show ?thesis
      using r(2) components_snoc [OF nm(2,3)] by simp
  qed
  then show ?thesis
    using find_components [OF inv b] find_components [OF inv p, of fname] components_name [OF nm(2,3)] nm(1) r(1) pi fl
    by (cases "read_write fl") (simp add: open_file_at_def del: resolve.simps)
qed

lemma sample_mkfs:
  obtains efs nd d root where "fs_inv efs nd d" and "used_inodes efs d = {0}" and "inode_at efs d 0 = Some root" and "is_dir root"
    and "dir_map root d = [dot \<mapsto> 0, dotdot \<mapsto> 0]" and "2 \<le> free_blocks efs nd d"
    and "need_blocks root (di_size root + DIRENT_SZ) = 0" and "di_size root + DIRENT_SZ \<le> MAX_BLOCKS * BLOCK_SZ"
    and "0 \<in> used_inodes efs d" and "used_inodes efs d \<noteq> {..<maxmium (inode_bitmap efs)}"
proof -
  let ?d = "\<lambda>b. if b < 1030 then Some (replicate BLOCK_SZ 5) else None"
  have sizes: "mkfs_sizes 1030 1"
    by (simp add: mkfs_sizes_def)
  have dev: "wf_disk ?d" "{..<1030} \<subseteq> dom ?d"
    by (rule wf_diskI) (auto split: if_splits)
  obtain efs d nd root where m: "fs_inv efs nd d" "used_inodes efs d = {0}" "inode_at efs d 0 = Some root" "is_dir root"
    "dir_list root d = [(dot, 0), (dotdot, 0)]" "di_size root = 2 * DIRENT_SZ" "nd \<le> free_blocks efs nd d + 1"
    "nd = mkfs_data 1030 1 - mkfs_bitmap 1030 1" "maxmium (inode_bitmap efs) = 4096 * 1"
    using mkfs_effect [OF sizes dev] by blast
  have "nd = 3"
    by (simp add: m(8) mkfs_data_def mkfs_bitmap_def)
  moreover have "need_blocks root (di_size root + DIRENT_SZ) = 0" "di_size root + DIRENT_SZ \<le> MAX_BLOCKS * BLOCK_SZ"
    unfolding need_blocks_def data_blocks_def m(6)
    by (simp_all add: tree_total_def data_blocks_of_size_def u32_def layout_consts MAX_BLOCKS_def)
  moreover have "dir_map root d = [dot \<mapsto> 0, dotdot \<mapsto> 0]"
    by (auto simp: dir_map_def m(5))
  moreover have "1 \<in> {..<maxmium (inode_bitmap efs)}" "1 \<notin> used_inodes efs d"
    by (simp_all add: m(2,9))
  ultimately show thesis
    using m(1-4,7) by (intro that [of efs nd d root]) (simp_all, blast)
qed

section \<open>Properties\<close>

text \<open>
  C11. The path of a directory: for a directory that is reached from the root along names and whose
  \<open>..\<close> entries lead back, \<open>name_for_inode\<close> returns (it walks up to the root), the path it gives
  lists these names, and \<open>find_file\<close> on this path finds the directory again.
\<close>

theorem directory_path_round_trip:
  assumes "fs_inv efs nd d" and "0 \<in> used_inodes efs d" and "located efs d ns i"
  shows "\<exists>path f. name_for_inode efs (inode_handle efs i) d = Some path \<and> path = (if ns = [] then [47] else path_of ns) \<and>
    find_file efs path d = Some (Some f) \<and> os_inode f = inode_handle efs i"
proof -
  let ?path = "if ns = [] then [47] else path_of ns"
  have "name_for_inode efs (inode_handle efs i) d = Some ?path"
    using name_for_located [OF assms] path_of_Nil by (auto simp: name_for_inode_def)
  moreover have "?path \<noteq> [] \<and> hd ?path = 47"
    using path_of_hd path_of_Nil by auto
  moreover have "resolve efs d (components ?path) 0 = Some i"
    using located_resolve [OF assms(3)] by (auto simp: components_def)
  ultimately show ?thesis
    using find_components [OF assms(1,2), of ?path]
    by (intro exI [of _ ?path] exI [of _ "OSInode_new True True (inode_handle efs i)"])
      (simp add: find_file_def root_inode_def OSInode_new_def)
qed

theorem directory_path_round_trip_witness:
  "\<exists>efs d i f. name_for_inode efs (inode_handle efs i) d = Some [47, 97] \<and> find_file efs [47, 97] d = Some (Some f) \<and>
    os_inode f = inode_handle efs i \<and> i \<noteq> 0"
proof -
  obtain efs nd d root where m: "fs_inv efs nd d" "used_inodes efs d = {0}" "inode_at efs d 0 = Some root" "is_dir root"
    "dir_map root d = [dot \<mapsto> 0, dotdot \<mapsto> 0]" "2 \<le> free_blocks efs nd d" "need_blocks root (di_size root + DIRENT_SZ) = 0"
    "di_size root + DIRENT_SZ \<le> MAX_BLOCKS * BLOCK_SZ"
    and u: "0 \<in> used_inodes efs d" "used_inodes efs d \<noteq> {..<maxmium (inode_bitmap efs)}"
    by (rule sample_mkfs)
  have a: "name_ok [97]" "dir_map root d [97] = None"
    using sample_dir(3) by (simp_all add: m(5) dot_def dotdot_def)
  have room: "need_blocks root (di_size root + DIRENT_SZ) + (if Directory = Directory then 1 else 0) \<le> free_blocks efs nd d"
    using m(6,7) by simp
  obtain i d' dp' di where c: "i \<notin> used_inodes efs d" "used_inodes efs d' = insert i (used_inodes efs d)" "fs_inv efs nd d'"
    "inode_at efs d' 0 = Some dp'" "dir_map dp' d' = (dir_map root d)([97] \<mapsto> i)" "inode_at efs d' i = Some di" "di_type di = Directory"
    "dir_list di d' = [(dot, i), (dotdot, 0)]" "is_dir dp'"
    using create_effect [OF m(1) u(1) m(3,4) a m(8) u(2) room] by auto
  have "i \<noteq> 0"
    using c(1) u(1) by metis
  moreover have "located efs d' ([] @ [[97]]) i"
    by (rule located_created [OF m(1) u(1) m(3,4) c(1) _ _ _ located_root c(4,9,5,6) _ c(8)])
      (use c(7) \<open>i \<noteq> 0\<close> in \<open>simp_all add: is_dir_def\<close>)
  moreover have "0 \<in> used_inodes efs d'"
    using c(2) u(1) by simp
  ultimately show ?thesis
    using directory_path_round_trip [OF c(3), of "[] @ [[97]]" i] by (auto simp: path_of_def)
qed

text \<open>
  Opening with \<open>CREATE\<close> a name that does not exist, when its parent directory does and there is room: a
  new empty file is made, and the handle stands at its start. Opening the same path again, with or without
  \<open>CREATE\<close> but without \<open>TRUNC\<close>, gives a handle on the same inode and changes nothing on the disk.
\<close>

theorem open_create_then_open:
  assumes inv: "fs_inv efs nd d" and b: "b \<in> used_inodes efs d"
    and nm: "split_parent nm = (path, fname)" "fname \<noteq> []" "47 \<notin> set fname" "name_ok fname" "rsplit_once nm \<noteq> None \<or> p = b"
    and p: "resolve efs d (components path) b = Some p" "inode_at efs d p = Some dp" "is_dir dp" "dir_map dp d fname = None"
    and sz: "di_size dp + DIRENT_SZ \<le> MAX_BLOCKS * BLOCK_SZ"
    and inodes: "used_inodes efs d \<noteq> {..<maxmium (inode_bitmap efs)}"
    and room: "need_blocks dp (di_size dp + DIRENT_SZ) \<le> free_blocks efs nd d"
    and fl: "flags_contain fl CREATE" "\<not> flags_contain fl' TRUNC"
  shows "\<exists>i d' f f' di. open_file_at efs (inode_handle efs b) nm fl d = Some (Some f, d') \<and>
    f = OSInode_new (fst (read_write fl)) (snd (read_write fl)) (inode_handle efs i) \<and>
    i \<notin> used_inodes efs d \<and> fs_inv efs nd d' \<and> inode_at efs d' i = Some di \<and> is_file di \<and> content di d' = [] \<and>
    open_file_at efs (inode_handle efs b) nm fl' d' = Some (Some f', d') \<and> os_inode f' = inode_handle efs i \<and> os_offset f' = 0"
proof -
  have pu: "p \<in> used_inodes efs d"
    by (rule resolve_used [OF inv b p(1)])
  have fn: "resolve efs d (components fname) p = None"
    using components_name [OF nm(2,3)] p(2-4) by simp
  obtain i d' dp' di where c: "create_inode efs (inode_handle efs p) fname File d = Some (Some (inode_handle efs i), d')"
    "i \<notin> used_inodes efs d" "used_inodes efs d' = insert i (used_inodes efs d)" "fs_inv efs nd d'"
    "inode_at efs d' p = Some dp'" "dir_map dp' d' = (dir_map dp d)(fname \<mapsto> i)"
    "inode_at efs d' i = Some di" "di_type di = File" "content di d' = []" "others_kept efs {p} d d'" "is_dir dp'"
    using create_effect [OF inv pu p(2,3) nm(4) p(4) sz inodes, of File] room by auto
  have o1: "open_file_at efs (inode_handle efs b) nm fl d =
      Some (Some (OSInode_new (fst (read_write fl)) (snd (read_write fl)) (inode_handle efs i)), d')"
    using find_components [OF inv b] find_components [OF inv pu, of fname] p(1) fn nm(1) fl(1) c(1)
    by (cases "read_write fl") (simp add: open_file_at_def Inode_create_def)
  have b': "b \<in> used_inodes efs d'"
    using b c(3) by simp
  note r = resolve_extended [OF inv pu p(2-4) c(5,11,6,10) b p(1)]
  show ?thesis
    using o1 c open_existing [OF c(4) b' nm(1-3,5) r fl(2)]
    by (intro exI [of _ i]) (auto simp: is_file_def OSInode_new_def)
qed

theorem open_create_then_open_witness:
  "\<exists>efs d f d' f'. open_file_at efs (inode_handle efs 0) [97] CREATE d = Some (Some f, d') \<and>
    open_file_at efs (inode_handle efs 0) [97] RDONLY d' = Some (Some f', d') \<and> os_inode f' = os_inode f"
proof -
  obtain efs nd d root where m: "fs_inv efs nd d" "used_inodes efs d = {0}" "inode_at efs d 0 = Some root" "is_dir root"
    "dir_map root d = [dot \<mapsto> 0, dotdot \<mapsto> 0]" "2 \<le> free_blocks efs nd d" "need_blocks root (di_size root + DIRENT_SZ) = 0"
    "di_size root + DIRENT_SZ \<le> MAX_BLOCKS * BLOCK_SZ"
    and u: "0 \<in> used_inodes efs d" "used_inodes efs d \<noteq> {..<maxmium (inode_bitmap efs)}"
    by (rule sample_mkfs)
  have s: "split_parent [97] = (dot, [97])"
    by (simp add: split_parent_def rsplit_once_def)
  have r: "resolve efs d (components dot) 0 = Some 0"
    using components_name [of dot] m(3-5) by (simp add: dot_def dotdot_def)
  have a: "dir_map root d [97] = None"
    by (simp add: m(5) dot_def dotdot_def)
  have fl: "flags_contain CREATE CREATE" "\<not> flags_contain RDONLY TRUNC"
    by (simp_all add: flags_contain_def RDONLY_def TRUNC_def)
  obtain i d' f f' where "open_file_at efs (inode_handle efs 0) [97] CREATE d = Some (Some f, d')" "os_inode f = inode_handle efs i"
    "open_file_at efs (inode_handle efs 0) [97] RDONLY d' = Some (Some f', d')" "os_inode f' = inode_handle efs i"
    using open_create_then_open [OF m(1) u(1) s _ _ sample_dir(3) _ r m(3,4) a m(8) u(2) _ fl] m(7) by (auto simp: OSInode_new_def)
  then show ?thesis
    by metis
qed

text \<open>
  C9. Writing a buffer of user memory to a file and reading it back through another open file that stands at the
  same offset: the write returns the length of the buffer and moves the offset by it, the read returns the same
  length, the bytes of the second buffer become those of the first, no other byte of memory changes, and all other
  files keep their contents. Both buffers may be split over pages in different ways.
\<close>

theorem file_write_then_read:
  assumes inv: "fs_inv efs nd d" and i: "i \<in> used_inodes efs d" and di: "inode_at efs d i = Some di" "is_file di"
    and f: "os_inode f = inode_handle efs i" "os_inode g = inode_handle efs i" "os_offset g = os_offset f"
    and segs: "segs_ok sls m" "segs_ok sls' m" "distinct (segs_refs sls')" "UserBuffer_len sls' = UserBuffer_len sls" "sls \<noteq> []"
    and sz: "os_offset f + UserBuffer_len sls \<le> MAX_BLOCKS * BLOCK_SZ"
    and room: "need_blocks di (os_offset f + UserBuffer_len sls) \<le> free_blocks efs nd d"
  shows "\<exists>d' m'. OSInode_write efs sls f d m = Some (UserBuffer_len sls, f\<lparr>os_offset := os_offset f + UserBuffer_len sls\<rparr>, d') \<and>
    OSInode_read sls' g d' m = Some (UserBuffer_len sls, g\<lparr>os_offset := os_offset g + UserBuffer_len sls\<rparr>, m') \<and>
    map (byte_at m') (segs_refs sls') = map (byte_at m) (segs_refs sls) \<and>
    (\<forall>r. r \<notin> set (segs_refs sls') \<longrightarrow> byte_at m' r = byte_at m r) \<and>
    fs_inv efs nd d' \<and> others_kept efs {i} d d'"
proof -
  let ?n = "UserBuffer_len sls" and ?off = "os_offset f" and ?bs = "map (byte_at m) (segs_refs sls)"
  have b64: "?off + ?n < 2 ^ 64"
    using sz by (simp add: MAX_BLOCKS_def layout_consts)
  have len: "length ?bs = ?n"
    by (simp add: length_segs_refs)
  obtain d' di' where w: "OSInode_write_loop efs sls 0 f d m = Some (0 + ?n, f\<lparr>os_offset := ?off + ?n\<rparr>, d')"
    "fs_inv efs nd d'" "inode_at efs d' i = Some di'"
    "content di' d' = splice ?off ?bs (content di d @ replicate (?off + ?n - di_size di) 0)"
    "used_inodes efs d' = used_inodes efs d" "others_kept efs {i} d d'"
    using OSInode_write_loop_spec [OF inv i di f(1) segs(1) sz _ room, of 0] segs(5) b64 by auto
  have fit: "?off + ?n \<le> length (content di d @ replicate (?off + ?n - di_size di) 0)"
    using content_length [OF inv i di(1)] by simp
  then have c: "slice ?off ?n (content di' d') = ?bs" "length (content di' d') = length (content di d @ replicate (?off + ?n - di_size di) (0 :: byte))"
    unfolding w(4) using len by (simp_all add: slice_splice_same)
  have i': "i \<in> used_inodes efs d'"
    using i w(5) by simp
  have n: "?n = min (UserBuffer_len sls') (length (content di' d') - os_offset g)"
    using segs(4) f(3) c(2) fit by simp
  have r: "OSInode_read_loop sls' 0 g d' m = Some (0 + ?n, g\<lparr>os_offset := os_offset g + ?n\<rparr>, store_bytes (segs_refs sls') ?bs m)"
    using OSInode_read_loop_spec [OF w(2) i' w(3) f(2) segs(2,3) _ _ n, of 0] b64 segs(4) f(3) c(1) by simp
  have "map (byte_at (store_bytes (segs_refs sls') ?bs m)) (segs_refs sls') = ?bs"
    using segs(4) by (intro byte_at_stored [OF segs_ok_refs [OF segs(2)] segs(3)]) (simp add: length_segs_refs)
  then show ?thesis
    using w r byte_at_store [OF segs_ok_refs [OF segs(2)]] by (simp add: OSInode_write_def OSInode_read_def)
qed

theorem file_write_then_read_witness:
  "let m = [7 \<mapsto> [1, 2, 3, 0, 0, 0]]; sls = [\<lparr>ps_ppn = 7, ps_lo = 0, ps_hi = 2\<rparr>, \<lparr>ps_ppn = 7, ps_lo = 2, ps_hi = 3\<rparr>];
       sls' = [\<lparr>ps_ppn = 7, ps_lo = 3, ps_hi = 6\<rparr>]; f = OSInode_new True True (inode_handle sample_fs 0)
   in \<exists>d' m' f' g'. OSInode_write sample_fs sls f sample_fs_disk m = Some (3, f', d') \<and> OSInode_read sls' f d' m = Some (3, g', m') \<and>
     map (byte_at m') (segs_refs sls') = [1, 2, 3]"
proof -
  let ?m = "[7 \<mapsto> [1, 2, 3, 0, 0, 0 :: byte]]" and ?sls = "[\<lparr>ps_ppn = 7, ps_lo = 0, ps_hi = 2\<rparr>, \<lparr>ps_ppn = 7, ps_lo = 2, ps_hi = 3\<rparr>]"
  let ?sls' = "[\<lparr>ps_ppn = 7, ps_lo = 3, ps_hi = 6\<rparr>]" and ?f = "OSInode_new True True (inode_handle sample_fs 0)"
  have at: "inode_at sample_fs sample_fs_disk 0 = Some (sample_empty 0)"
    by (simp add: sample_inode_at)
  have n: "UserBuffer_len ?sls = 3" "UserBuffer_len ?sls' = 3"
    by (simp_all add: UserBuffer_len_def slice_len_def)
  have "is_file (sample_empty 0)" and "need_blocks (sample_empty 0) (os_offset ?f + UserBuffer_len ?sls) = 1"
    unfolding n by (simp_all add: is_file_def sample_empty_def need_blocks_def tree_total_def data_blocks_def
        data_blocks_of_size_def u32_def layout_consts OSInode_new_def)
  moreover have "os_offset ?f + UserBuffer_len ?sls \<le> MAX_BLOCKS * BLOCK_SZ"
    unfolding n by (simp add: MAX_BLOCKS_def layout_consts OSInode_new_def)
  moreover have "segs_ok ?sls ?m" "segs_ok ?sls' ?m" "distinct (segs_refs ?sls')"
    by (simp_all add: segs_ok_def slice_refs_def distinct_map inj_on_def)
  moreover have "map (byte_at ?m) (segs_refs ?sls) = [1, 2, 3]"
    by (simp add: slice_refs_def byte_at_def upt_rec)
  ultimately show ?thesis
    using file_write_then_read [OF sample_fs_inv sample_dir(7) at, of ?f ?f ?sls ?m ?sls'] sample_free n
    by (auto simp: Let_def OSInode_new_def)
qed

end
