(* ===== verification/Slots.thy ===== *)
theory Slots
  imports Prelude
begin

text \<open>
  Tables of optional entries, as the kernel keeps them for mutexes, semaphores, condition variables, sockets and
  listening ports: \<open>iter().position(..)\<close>, and a new entry in the first free slot or at the end.
\<close>

definition find_index :: "('a \<Rightarrow> bool) \<Rightarrow> 'a list \<Rightarrow> nat option" where
  \<comment> \<open>\<open>iter().position(..)\<close>\<close>
  "find_index p xs = List.find (\<lambda>i. p (xs ! i)) [0..<length xs]"

definition slot :: "'a option list \<Rightarrow> nat \<Rightarrow> 'a option" where
  \<comment> \<open>\<open>table.get(i)\<close> matched against \<open>Some(Some(v))\<close>\<close>
  "slot xs i = (if i < length xs then xs ! i else None)"

definition slot_new :: "'a \<Rightarrow> 'a option list \<Rightarrow> nat \<times> 'a option list" where
  \<comment> \<open>into the first free slot, or at the end\<close>
  "slot_new v xs = (case find_index (\<lambda>x. x = None) xs of
     Some i \<Rightarrow> (i, xs[i := Some v]) | None \<Rightarrow> (length xs, xs @ [Some v]))"

lemma find_index_Some:
  assumes "find_index f xs = Some i"
  shows "i < length xs" and "f (xs ! i)" and "j < i \<Longrightarrow> \<not> f (xs ! j)"
proof -
  show "i < length xs" "f (xs ! i)"
    using assms by (auto simp: find_index_def find_Some_iff)
  show "\<not> f (xs ! j)" if "j < i"
    using assms that by (fastforce simp: find_index_def find_Some_iff)
qed

lemma find_index_None: "find_index f xs = None \<longleftrightarrow> (\<forall>x \<in> set xs. \<not> f x)"
  by (fastforce simp: find_index_def find_None_iff in_set_conv_nth)

lemma find_index_unique:
  assumes "i < length xs" and "f (xs ! i)" and "\<And>j. j < length xs \<Longrightarrow> f (xs ! j) \<Longrightarrow> j = i"
  shows "find_index f xs = Some i"
proof (cases "find_index f xs")
  case None
  then show ?thesis
    using assms(1,2) by (auto simp: find_index_None)
next
  case (Some j)
  then show ?thesis
    using assms(3) find_index_Some(1,2) [OF Some] by simp
qed

lemma slot_new_at:
  assumes "slot_new v xs = (i, ys)"
  shows "slot xs i = None" and "slot ys j = (if j = i then Some v else slot xs j)" and "i < length ys" and "length xs \<le> length ys"
  using assms find_index_Some(1,2) [of "\<lambda>x. x = None" xs]
  by (auto simp: slot_new_def slot_def nth_append split: option.splits)

lemma slot_update: "i < length xs \<Longrightarrow> slot (xs[i := v]) j = (if j = i then v else slot xs j)"
  by (simp add: slot_def nth_list_update)

lemma slot_set: "slot xs i = Some v \<longleftrightarrow> i < length xs \<and> xs ! i = Some v"
  by (simp add: slot_def)

end
