(* ===== verification/Net.thy ===== *)
theory Net
  imports OpenFile Slots
begin

text \<open>
  The tables of the network: sockets (\<^verbatim>\<open>os/src/net/socket.rs\<close>), listening ports (\<^verbatim>\<open>os/src/net/port_table.rs\<close>) and the
  ends of connections that are kept as open files (\<^verbatim>\<open>os/src/net/tcp.rs\<close>, \<^verbatim>\<open>os/src/net/udp.rs\<close>), with the transfer
  between a socket and the pieces of a user buffer. The formats of packets belong to the crate \<open>lose_net_stack\<close>; its functions are
  the fields of a record that the handlers take as an argument. What the handlers do with processes is in
  the theory \<open>SysNet\<close>.
\<close>

section \<open>Sockets\<close>

record Socket =
  raddr :: nat
  lport :: nat
  rport :: nat
  so_buffers :: "bytes list"
  so_seq :: nat
  so_ack :: nat

type_synonym sockets = "Socket option list"

definition get_sa_by_index :: "nat \<Rightarrow> sockets \<Rightarrow> (nat \<times> nat) option option" where
  "get_sa_by_index idx T = do { ensure (idx < length T); Some (map_option (\<lambda>y. (so_seq y, so_ack y)) (T ! idx)) }"

definition set_sa_by_index :: "nat \<Rightarrow> nat \<Rightarrow> nat \<Rightarrow> sockets \<Rightarrow> sockets option" where
  "set_sa_by_index idx sq ak T = do {
     ensure (idx < length T);
     sock \<leftarrow> T ! idx;
     Some (T[idx := Some (sock\<lparr>so_seq := sq, so_ack := ak\<rparr>)]) }"

definition get_socket :: "nat \<Rightarrow> nat \<Rightarrow> nat \<Rightarrow> sockets \<Rightarrow> nat option" where
  "get_socket ra lp rp T = find_index (\<lambda>sl. case sl of Some sock \<Rightarrow> raddr sock = ra \<and> lport sock = lp \<and> rport sock = rp | None \<Rightarrow> False) T"

definition add_socket :: "nat \<Rightarrow> nat \<Rightarrow> nat \<Rightarrow> sockets \<Rightarrow> nat option \<times> sockets" where
  "add_socket ra lp rp T =
     (if get_socket ra lp rp T \<noteq> None then (None, T)
      else let (pos, T) = slot_new \<lparr>raddr = ra, lport = lp, rport = rp, so_buffers = [], so_seq = 0, so_ack = 0\<rparr> T in (Some pos, T))"

definition remove_socket :: "nat \<Rightarrow> sockets \<Rightarrow> sockets option" where
  "remove_socket idx T = do { ensure (idx < length T); Some (T[idx := None]) }"

definition push_data :: "nat \<Rightarrow> bytes \<Rightarrow> sockets \<Rightarrow> sockets option" where
  "push_data idx data T = do {
     ensure (idx < length T);
     sock \<leftarrow> T ! idx;
     Some (T[idx := Some (sock\<lparr>so_buffers := so_buffers sock @ [data]\<rparr>)]) }"

definition pop_data :: "nat \<Rightarrow> sockets \<Rightarrow> (bytes option \<times> sockets) option" where
  "pop_data idx T = do {
     ensure (idx < length T);
     sock \<leftarrow> T ! idx;
     Some (case so_buffers sock of
         [] \<Rightarrow> (None, T)
       | data # rest \<Rightarrow> (Some data, T[idx := Some (sock\<lparr>so_buffers := rest\<rparr>)])) }"

section \<open>Listening ports\<close>

record Port =
  port :: nat
  receivable :: bool
  schedule :: "nat option" \<comment> \<open>the task that waits in \<open>accept\<close>\<close>

type_synonym ports = "Port option list"

definition listen :: "nat \<Rightarrow> ports \<Rightarrow> nat option \<times> ports" where
  "listen p L = (let (pos, L) = slot_new \<lparr>port = p, receivable = True, schedule = None\<rparr> L in (Some pos, L))"

definition accept :: "nat \<Rightarrow> nat \<Rightarrow> ports \<Rightarrow> ports option" where
  "accept listen_idx t L = do {
     ensure (listen_idx < length L);
     p \<leftarrow> L ! listen_idx;
     Some (L[listen_idx := Some (p\<lparr>receivable := True, schedule := Some t\<rparr>)]) }"

definition port_acceptable :: "nat \<Rightarrow> ports \<Rightarrow> bool option" where
  "port_acceptable listen_idx L = do {
     ensure (listen_idx < length L);
     Some (case L ! listen_idx of Some v \<Rightarrow> receivable v | None \<Rightarrow> False) }"

definition PortFd_drop :: "nat \<Rightarrow> ports \<Rightarrow> ports option" where
  "PortFd_drop idx L = index_set L idx None"

section \<open>Packets\<close>

datatype TcpFlag = TcpS | TcpA | TcpF | TcpOther nat

record TCPPacket =
  t_source_ip :: nat
  t_source_mac :: bytes
  t_source_port :: nat
  t_dest_ip :: nat
  t_dest_mac :: bytes
  t_dest_port :: nat
  t_data_len :: nat
  t_seq :: nat
  t_ack :: nat
  t_flags :: "TcpFlag set"
  t_win :: nat
  t_urg :: nat
  t_data :: bytes

record UDPPacket =
  u_source_ip :: nat
  u_source_mac :: bytes
  u_source_port :: nat
  u_dest_ip :: nat
  u_dest_mac :: bytes
  u_dest_port :: nat
  u_data_len :: nat
  u_data :: bytes

datatype 'p Packet = PktARP 'p | PktUDP UDPPacket | PktTCP TCPPacket | PktOther

record 'p LoseStack =
  \<comment> \<open>address of the host and the functions of the crate \<open>lose_net_stack\<close>\<close>
  stack_ip :: nat
  stack_mac :: bytes
  analysis :: "bytes \<Rightarrow> 'p Packet"
  arp_reply :: "'p \<Rightarrow> nat \<Rightarrow> bytes \<Rightarrow> bytes option" \<comment> \<open>\<open>reply_packet(..)\<close> and \<open>build_data()\<close>\<close>
  tcp_reply :: "TCPPacket \<Rightarrow> TCPPacket" \<comment> \<open>\<open>TCPPacket::ack()\<close>\<close>
  tcp_build :: "TCPPacket \<Rightarrow> bytes"
  udp_build :: "UDPPacket \<Rightarrow> bytes"

section \<open>Connections as files\<close>

record TCP =
  tcp_target :: nat
  tcp_sport :: nat
  tcp_dport :: nat
  tcp_seq :: nat
  tcp_ack :: nat
  tcp_sock_idx :: nat

definition TCP_new :: "nat \<Rightarrow> nat \<Rightarrow> nat \<Rightarrow> nat \<Rightarrow> nat \<Rightarrow> sockets \<Rightarrow> (TCP \<times> sockets) option" where
  "TCP_new target sport dport sq ak T = do {
     let (r, T) = add_socket target sport dport T;
     sock_idx \<leftarrow> r;
     Some (\<lparr>tcp_target = target, tcp_sport = sport, tcp_dport = dport, tcp_seq = sq, tcp_ack = ak, tcp_sock_idx = sock_idx\<rparr>, T) }"

record UDP =
  udp_target :: nat
  udp_sport :: nat
  udp_dport :: nat
  udp_sock_idx :: nat

definition UDP_new :: "nat \<Rightarrow> nat \<Rightarrow> nat \<Rightarrow> sockets \<Rightarrow> (UDP \<times> sockets) option" where
  "UDP_new target sport dport T = do {
     let (r, T) = add_socket target sport dport T;
     sock_idx \<leftarrow> r;
     Some (\<lparr>udp_target = target, udp_sport = sport, udp_dport = dport, udp_sock_idx = sock_idx\<rparr>, T) }"

fun net_copy_out :: "bytes \<Rightarrow> nat \<Rightarrow> page_slice list \<Rightarrow> ram \<Rightarrow> (nat \<times> ram) option" where
  \<comment> \<open>\<open>for b in buf.buffers.iter_mut()\<close>\<close>
  "net_copy_out data copied [] m = Some (copied, m)"
| "net_copy_out data copied (b # bs) m = do {
     let to_copy = min (slice_len b) (length data - copied);
     old \<leftarrow> load_slice b m;
     m \<leftarrow> store_slice b (splice 0 (slice copied to_copy data) old) m;
     let copied = copied + to_copy;
     if copied = length data then Some (copied, m) else net_copy_out data copied bs m }"

fun net_copy_in :: "page_slice list \<Rightarrow> nat \<Rightarrow> bytes \<Rightarrow> ram \<Rightarrow> bytes option" where
  \<comment> \<open>\<open>for b in buf.buffers.iter()\<close>\<close>
  "net_copy_in [] copied data m = Some data"
| "net_copy_in (b # bs) copied data m = do {
     x \<leftarrow> load_slice b m;
     ensure (copied + slice_len b \<le> length data);
     net_copy_in bs (copied + slice_len b) (splice copied x data) m }"

definition broadcast_mac :: bytes where
  "broadcast_mac = replicate 6 255"

definition TCP_packet :: "'p LoseStack \<Rightarrow> TCP \<Rightarrow> bytes \<Rightarrow> sockets \<Rightarrow> TCPPacket option" where
  "TCP_packet st c data T = do {
     sa \<leftarrow> get_sa_by_index (tcp_sock_idx c) T;
     let (ak, sq) = (case sa of Some x \<Rightarrow> x | None \<Rightarrow> (0, 0));
     Some \<lparr>t_source_ip = stack_ip st, t_source_mac = stack_mac st, t_source_port = tcp_sport c, t_dest_ip = tcp_target c,
       t_dest_mac = broadcast_mac, t_dest_port = tcp_dport c, t_data_len = length data, t_seq = sq, t_ack = ak, t_flags = {TcpA},
       t_win = 65535, t_urg = 0, t_data = data\<rparr> }"

definition TCP_write :: "'p LoseStack \<Rightarrow> TCP \<Rightarrow> page_slice list \<Rightarrow> sockets \<Rightarrow> ram \<Rightarrow> (nat \<times> bytes) option" where
  \<comment> \<open>the result and the frame that is transmitted\<close>
  "TCP_write st c buf T m = do {
     data \<leftarrow> net_copy_in buf 0 (replicate (UserBuffer_len buf) 0) m;
     p \<leftarrow> TCP_packet st c data T;
     Some (length data, tcp_build st p) }"

definition UDP_packet :: "'p LoseStack \<Rightarrow> UDP \<Rightarrow> bytes \<Rightarrow> UDPPacket" where
  "UDP_packet st c data =
     \<lparr>u_source_ip = stack_ip st, u_source_mac = stack_mac st, u_source_port = udp_sport c, u_dest_ip = udp_target c,
       u_dest_mac = broadcast_mac, u_dest_port = udp_dport c, u_data_len = length data, u_data = data\<rparr>"

definition UDP_write :: "'p LoseStack \<Rightarrow> UDP \<Rightarrow> page_slice list \<Rightarrow> ram \<Rightarrow> (nat \<times> bytes) option" where
  "UDP_write st c buf m = do {
     data \<leftarrow> net_copy_in buf 0 (replicate (UserBuffer_len buf) 0) m;
     Some (length data, udp_build st (UDP_packet st c data)) }"

section \<open>The socket table as a map from endpoints to queues\<close>

definition endpoint :: "Socket \<Rightarrow> nat \<times> nat \<times> nat" where
  "endpoint s = (raddr s, lport s, rport s)"

definition sockets_ok :: "sockets \<Rightarrow> bool" where
  \<comment> \<open>no two sockets have the same endpoint\<close>
  "sockets_ok T \<longleftrightarrow> (\<forall>i j x y. slot T i = Some x \<and> slot T j = Some y \<and> endpoint x = endpoint y \<longrightarrow> i = j)"

definition queue_of :: "sockets \<Rightarrow> nat \<times> nat \<times> nat \<Rightarrow> bytes list option" where
  "queue_of T e = (case e of (ra, lp, rp) \<Rightarrow> do { i \<leftarrow> get_socket ra lp rp T; map_option so_buffers (slot T i) })"

lemma sockets_okD: "sockets_ok T \<Longrightarrow> slot T i = Some x \<Longrightarrow> slot T j = Some y \<Longrightarrow> endpoint x = endpoint y \<Longrightarrow> i = j"
  unfolding sockets_ok_def by blast

lemma get_socket_Some:
  assumes "get_socket ra lp rp T = Some i"
  shows "\<exists>x. slot T i = Some x \<and> endpoint x = (ra, lp, rp)"
  using find_index_Some(1,2) [OF assms [unfolded get_socket_def]] by (auto simp: slot_def endpoint_def split: option.splits)

lemma get_socket_None: "get_socket ra lp rp T = None \<longleftrightarrow> (\<forall>i x. slot T i = Some x \<longrightarrow> endpoint x \<noteq> (ra, lp, rp))"
  by (fastforce simp: get_socket_def find_index_None slot_def endpoint_def in_set_conv_nth split: option.splits if_splits)

lemma get_socket_eq:
  assumes "sockets_ok T"
  shows "get_socket ra lp rp T = Some i \<longleftrightarrow> (\<exists>x. slot T i = Some x \<and> endpoint x = (ra, lp, rp))"
proof
  assume "\<exists>x. slot T i = Some x \<and> endpoint x = (ra, lp, rp)"
  then obtain x where x: "slot T i = Some x" "endpoint x = (ra, lp, rp)"
    by blast
  then obtain j where j: "get_socket ra lp rp T = Some j"
    using get_socket_None [of ra lp rp T] by (cases "get_socket ra lp rp T") auto
  then show "get_socket ra lp rp T = Some i"
    using get_socket_Some [OF j] sockets_okD [OF assms x(1)] x(2) by auto
qed (rule get_socket_Some)

lemma queue_of_slot: "sockets_ok T \<Longrightarrow> slot T i = Some x \<Longrightarrow> queue_of T (endpoint x) = Some (so_buffers x)"
  using get_socket_eq [of T "raddr x" "lport x" "rport x" i] by (simp add: queue_of_def endpoint_def)

lemma queue_of_None: "queue_of T e = None \<longleftrightarrow> (\<forall>i x. slot T i = Some x \<longrightarrow> endpoint x \<noteq> e)"
proof (cases e)
  case (fields ra lp rp)
  show ?thesis
    using get_socket_None [of ra lp rp T] get_socket_Some [of ra lp rp T] unfolding fields by (auto simp: queue_of_def split: Option.bind_splits)
qed

lemma sockets_change:
  assumes ok: "sockets_ok T" and i: "slot T i = Some x" and T': "\<And>j. slot T' j = (if j = i then Some y else slot T j)" and e: "endpoint y = endpoint x"
  shows "sockets_ok T' \<and> queue_of T' = (queue_of T)(endpoint x \<mapsto> so_buffers y)"
proof -
  have ok': "sockets_ok T'"
    unfolding sockets_ok_def T' using ok i e sockets_okD [OF ok] by (auto split: if_splits)
  have "queue_of T' f = ((queue_of T)(endpoint x \<mapsto> so_buffers y)) f" for f
  proof (cases "\<exists>j z. slot T' j = Some z \<and> endpoint z = f")
    case True
    then obtain j z where z: "slot T' j = Some z" "endpoint z = f"
      by blast
    show ?thesis
    proof (cases "j = i")
      case True
      then show ?thesis
        using queue_of_slot [OF ok' z(1)] z T' e by auto
    next
      case False
      then have "slot T j = Some z" "f \<noteq> endpoint x"
        using z T' sockets_okD [OF ok _ i, of j z] by auto
      then show ?thesis
        using queue_of_slot [OF ok' z(1)] queue_of_slot [OF ok, of j z] z(2) by simp
    qed
  next
    case False
    then have "queue_of T' f = None" "f \<noteq> endpoint x"
      using T' [of i] e queue_of_None [of T' f] by auto
    moreover have "queue_of T f = None"
      using False T' i queue_of_None [of T f] \<open>f \<noteq> endpoint x\<close> by (metis option.inject)
    ultimately show ?thesis
      by simp
  qed
  then show ?thesis
    using ok' by blast
qed

lemma sockets_remove:
  assumes ok: "sockets_ok T" and i: "slot T i = Some x" and T': "\<And>j. slot T' j = (if j = i then None else slot T j)"
  shows "sockets_ok T' \<and> queue_of T' = (queue_of T)(endpoint x := None)"
proof -
  have ok': "sockets_ok T'"
    unfolding sockets_ok_def T' using sockets_okD [OF ok] by (auto split: if_splits)
  have "queue_of T' f = ((queue_of T)(endpoint x := None)) f" for f
  proof (cases "\<exists>j z. slot T' j = Some z \<and> endpoint z = f")
    case True
    then obtain j z where z: "slot T' j = Some z" "endpoint z = f"
      by blast
    then have "slot T j = Some z" "f \<noteq> endpoint x"
      using T' [of j] sockets_okD [OF ok _ i, of j z] by (auto split: if_splits)
    then show ?thesis
      using queue_of_slot [OF ok' z(1)] queue_of_slot [OF ok, of j z] z(2) by simp
  next
    case False
    then have "queue_of T' f = None" "f \<noteq> endpoint x \<Longrightarrow> queue_of T f = None"
      using queue_of_None [of T' f] queue_of_None [of T f] T' i by (metis, metis option.inject)
    then show ?thesis
      by auto
  qed
  then show ?thesis
    using ok' by blast
qed

lemma sockets_add:
  assumes ok: "sockets_ok T" and free: "queue_of T (endpoint y) = None" and i: "slot T i = None" and T': "\<And>j. slot T' j = (if j = i then Some y else slot T j)"
  shows "sockets_ok T' \<and> queue_of T' = (queue_of T)(endpoint y \<mapsto> so_buffers y)"
proof -
  have n: "endpoint z \<noteq> endpoint y" if "slot T j = Some z" for j z
    using that free queue_of_None [of T "endpoint y"] by blast
  have ok': "sockets_ok T'"
    unfolding sockets_ok_def T' using sockets_okD [OF ok] n by (auto split: if_splits) metis+
  have "queue_of T' f = ((queue_of T)(endpoint y \<mapsto> so_buffers y)) f" for f
  proof (cases "\<exists>j z. slot T' j = Some z \<and> endpoint z = f")
    case True
    then obtain j z where z: "slot T' j = Some z" "endpoint z = f"
      by blast
    show ?thesis
    proof (cases "j = i")
      case True
      then show ?thesis
        using queue_of_slot [OF ok' z(1)] z T' by auto
    next
      case False
      then have "slot T j = Some z" "f \<noteq> endpoint y"
        using z T' n by auto
      then show ?thesis
        using queue_of_slot [OF ok' z(1)] queue_of_slot [OF ok, of j z] z(2) by simp
    qed
  next
    case False
    then have "queue_of T' f = None" "queue_of T f = None" "f \<noteq> endpoint y"
      using queue_of_None [of T' f] queue_of_None [of T f] T' i by (metis, metis option.distinct(1), metis)
    then show ?thesis
      by simp
  qed
  then show ?thesis
    using ok' by blast
qed

section \<open>The operations\<close>

lemma add_socket_spec:
  assumes "sockets_ok T"
  shows "queue_of T (ra, lp, rp) \<noteq> None \<Longrightarrow> add_socket ra lp rp T = (None, T)"
    and "queue_of T (ra, lp, rp) = None \<Longrightarrow> \<exists>i T' x. add_socket ra lp rp T = (Some i, T') \<and> slot T' i = Some x \<and> endpoint x = (ra, lp, rp) \<and>
      slot T i = None \<and> so_seq x = 0 \<and> so_ack x = 0 \<and> sockets_ok T' \<and> queue_of T' = (queue_of T)((ra, lp, rp) \<mapsto> [])"
proof -
  have g: "get_socket ra lp rp T = None \<longleftrightarrow> queue_of T (ra, lp, rp) = None"
    by (simp add: get_socket_None queue_of_None)
  then show "queue_of T (ra, lp, rp) \<noteq> None \<Longrightarrow> add_socket ra lp rp T = (None, T)"
    by (simp add: add_socket_def)
  assume free: "queue_of T (ra, lp, rp) = None"
  define y where "y = \<lparr>raddr = ra, lport = lp, rport = rp, so_buffers = [], so_seq = 0, so_ack = 0\<rparr>"
  obtain i T' where s: "slot_new y T = (i, T')"
    by fastforce
  have e: "endpoint y = (ra, lp, rp)" "so_buffers y = []"
    by (simp_all add: y_def endpoint_def)
  have "sockets_ok T' \<and> queue_of T' = (queue_of T)((ra, lp, rp) \<mapsto> [])"
    using sockets_add [OF assms _ slot_new_at(1) [OF s] slot_new_at(2) [OF s]] free e by simp
  moreover have "add_socket ra lp rp T = (Some i, T')"
    using s g free by (simp add: add_socket_def y_def)
  ultimately show "\<exists>i T' x. add_socket ra lp rp T = (Some i, T') \<and> slot T' i = Some x \<and> endpoint x = (ra, lp, rp) \<and>
      slot T i = None \<and> so_seq x = 0 \<and> so_ack x = 0 \<and> sockets_ok T' \<and> queue_of T' = (queue_of T)((ra, lp, rp) \<mapsto> [])"
    using slot_new_at(1,2) [OF s] e by (intro exI [of _ i] exI [of _ T'] exI [of _ y]) (simp add: y_def)
qed

lemma slot_opD:
  assumes "slot T i = Some x"
  shows "i < length T" and "T ! i = Some x"
  using assms by (simp_all add: slot_set)

lemma push_data_spec:
  assumes ok: "sockets_ok T" and i: "slot T i = Some x"
  shows "\<exists>T'. push_data i d T = Some T' \<and> sockets_ok T' \<and> queue_of T' = (queue_of T)(endpoint x \<mapsto> so_buffers x @ [d]) \<and>
    slot T' = (slot T)(i \<mapsto> x\<lparr>so_buffers := so_buffers x @ [d]\<rparr>)"
proof -
  let ?y = "x\<lparr>so_buffers := so_buffers x @ [d]\<rparr>"
  have s: "slot (T[i := Some ?y]) j = (if j = i then Some ?y else slot T j)" for j
    using slot_opD(1) [OF i] by (rule slot_update)
  have "endpoint ?y = endpoint x"
    by (simp add: endpoint_def)
  from sockets_change [OF ok i s this] show ?thesis
    using slot_opD [OF i] s by (simp add: push_data_def fun_eq_iff)
qed

lemma pop_data_spec:
  assumes ok: "sockets_ok T" and i: "slot T i = Some x"
  shows "so_buffers x = [] \<Longrightarrow> pop_data i T = Some (None, T)"
    and "so_buffers x = d # ds \<Longrightarrow> \<exists>T'. pop_data i T = Some (Some d, T') \<and> sockets_ok T' \<and> queue_of T' = (queue_of T)(endpoint x \<mapsto> ds) \<and>
      slot T' = (slot T)(i \<mapsto> x\<lparr>so_buffers := ds\<rparr>)"
proof -
  show "so_buffers x = [] \<Longrightarrow> pop_data i T = Some (None, T)"
    using slot_opD [OF i] by (simp add: pop_data_def)
  assume d: "so_buffers x = d # ds"
  let ?y = "x\<lparr>so_buffers := ds\<rparr>"
  have s: "slot (T[i := Some ?y]) j = (if j = i then Some ?y else slot T j)" for j
    using slot_opD(1) [OF i] by (rule slot_update)
  have "endpoint ?y = endpoint x"
    by (simp add: endpoint_def)
  from sockets_change [OF ok i s this] show "\<exists>T'. pop_data i T = Some (Some d, T') \<and> sockets_ok T' \<and>
      queue_of T' = (queue_of T)(endpoint x \<mapsto> ds) \<and> slot T' = (slot T)(i \<mapsto> ?y)"
    using slot_opD [OF i] s d by (simp add: pop_data_def fun_eq_iff)
qed

lemma set_sa_spec:
  assumes ok: "sockets_ok T" and i: "slot T i = Some x"
  shows "\<exists>T'. set_sa_by_index i a b T = Some T' \<and> sockets_ok T' \<and> queue_of T' = queue_of T \<and> slot T' = (slot T)(i \<mapsto> x\<lparr>so_seq := a, so_ack := b\<rparr>)"
proof -
  let ?y = "x\<lparr>so_seq := a, so_ack := b\<rparr>"
  have s: "slot (T[i := Some ?y]) j = (if j = i then Some ?y else slot T j)" for j
    using slot_opD(1) [OF i] by (rule slot_update)
  have "endpoint ?y = endpoint x"
    by (simp add: endpoint_def)
  moreover have "(queue_of T)(endpoint x \<mapsto> so_buffers x) = queue_of T"
    using queue_of_slot [OF ok i] by auto
  ultimately show ?thesis
    using sockets_change [OF ok i s] slot_opD [OF i] s by (simp add: set_sa_by_index_def fun_eq_iff)
qed

lemma remove_socket_spec:
  assumes ok: "sockets_ok T" and i: "slot T i = Some x"
  shows "\<exists>T'. remove_socket i T = Some T' \<and> sockets_ok T' \<and> queue_of T' = (queue_of T)(endpoint x := None) \<and> slot T' i = None"
proof -
  have s: "slot (T[i := None]) j = (if j = i then None else slot T j)" for j
    using slot_opD(1) [OF i] by (rule slot_update)
  from sockets_remove [OF ok i s] show ?thesis
    using slot_opD [OF i] s by (simp add: remove_socket_def)
qed

section \<open>Transfers\<close>

lemma net_copy_out_spec:
  assumes "segs_ok sls m" and "distinct (segs_refs sls)" and "c \<le> length data" and "n = min (UserBuffer_len sls) (length data - c)"
  shows "net_copy_out data c sls m = Some (c + n, store_bytes (segs_refs sls) (slice c n data) m)"
  using assms
proof (induction sls arbitrary: c m n)
  case Nil
  then show ?case
    by (simp add: UserBuffer_len_def)
next
  case (Cons sl sls)
  let ?rs = "slice_refs sl"
  have L: "UserBuffer_len (sl # sls) = slice_len sl + UserBuffer_len sls"
    by (simp add: UserBuffer_len_def)
  have sl: "segs_ok [sl] m" "segs_ok sls m"
    using Cons.prems(1) by (auto simp: segs_ok_def)
  have ok: "refs_ok m ?rs"
    using segs_ok_refs [OF sl(1)] by simp
  define k where "k = min (slice_len sl) (length data - c)"
  have lk: "length (slice c k data) = k"
    by (simp add: k_def)
  define m1 where "m1 = store_bytes ?rs (slice c k data) m"
  have "store_slice sl (splice 0 (slice c k data) (map (byte_at m) ?rs)) m = Some m1"
    using store_slice_ok [OF sl(1)] store_partial [OF ok, of "slice c k data"] Cons.prems(2) lk by (simp add: k_def m1_def)
  then have step: "net_copy_out data c (sl # sls) m = (if c + k = length data then Some (c + k, m1) else net_copy_out data (c + k) sls m1)"
    using load_slice_ok [OF sl(1)] by (simp add: k_def Let_def)
  show ?case
  proof (cases "c + k = length data")
    case True
    then have "n = k"
      using Cons.prems(4) L by (auto simp: k_def)
    then show ?thesis
      unfolding step using True store_bytes_prefix [of "slice c k data" ?rs] lk by (simp add: m1_def k_def)
  next
    case False
    then have k: "k = slice_len sl"
      using Cons.prems(3) by (auto simp: k_def)
    define n2 where "n2 = min (UserBuffer_len sls) (length data - (c + k))"
    have n: "n = k + n2"
      using Cons.prems(4) L k by (auto simp: k_def n2_def)
    have "net_copy_out data (c + k) sls m1 = Some (c + k + n2, store_bytes (segs_refs sls) (slice (c + k) n2 data) m1)"
      using Cons.IH [of m1 "c + k" n2] Cons.prems(2,3) segs_ok_shape [OF store_bytes_shape [OF ok] sl(2)] by (auto simp: n2_def m1_def k_def)
    moreover have "store_bytes (?rs @ segs_refs sls) (slice c n data) m = store_bytes (segs_refs sls) (slice (c + k) n2 data) m1"
      using store_bytes_append [of "slice c k data" ?rs] lk k by (simp add: n slice_append m1_def)
    ultimately show ?thesis
      unfolding step using False n by (simp add: add.assoc)
  qed
qed

lemma net_copy_in_spec:
  assumes "segs_ok sls m" and "c + UserBuffer_len sls = length data"
  shows "net_copy_in sls c data m = Some (take c data @ map (byte_at m) (segs_refs sls))"
  using assms
proof (induction sls arbitrary: c data)
  case (Cons sl sls)
  have L: "UserBuffer_len (sl # sls) = slice_len sl + UserBuffer_len sls"
    by (simp add: UserBuffer_len_def)
  have sl: "segs_ok [sl] m" "segs_ok sls m"
    using Cons.prems(1) by (auto simp: segs_ok_def)
  let ?x = "map (byte_at m) (slice_refs sl)"
  have "take (c + slice_len sl) (splice c ?x data) = take c data @ ?x"
    using Cons.prems(2) L by (simp add: splice_def)
  then show ?case
    using Cons.IH [OF sl(2), of "c + slice_len sl" "splice c ?x data"] load_slice_ok [OF sl(1)] Cons.prems(2) L by simp
qed (simp add: UserBuffer_len_def)

lemmas net_copy_in_all = net_copy_in_spec [where c = 0, simplified]

end
