(* ===== verification/SysFs.thy ===== *)
theory SysFs
  imports Net
begin

text \<open>
  The file system calls (\<^verbatim>\<open>os/src/syscall/fs.rs\<close>) and the file-descriptor table of a process
  (\<open>alloc_fd\<close> in \<^verbatim>\<open>os/src/task/process.rs\<close>). Files are shared objects (\<open>Arc<dyn File>\<close>): a table holds
  references, and the open files and the buffers of pipes live in stores that are addressed by them. A call that
  goes on in a pipe, in the network or at the console is returned as the operation it continues with.
\<close>

section \<open>Files and tables\<close>

datatype File = Stdin | Stdout | FileOSInode nat | FilePipe Pipe nat | FileTcp TCP | FileUdp UDP | FilePortFd nat

record kfiles =
  kf_efs :: EasyFileSystem
  kf_disk :: disk
  kf_ram :: ram
  kf_inodes :: "OSInode list"
  kf_pipes :: "PipeRingBuffer list"

record pfiles =
  fd_table :: "File option list"
  cwd :: Inode
  user_token :: nat

definition fd_get :: "nat \<Rightarrow> pfiles \<Rightarrow> File option" where
  \<comment> \<open>\<open>fd_table.get(fd)\<close> matched against \<open>Some(Some(file))\<close>\<close>
  "fd_get fd p = (if fd < length (fd_table p) then fd_table p ! fd else None)"

definition alloc_fd :: "pfiles \<Rightarrow> nat \<times> pfiles" where
  "alloc_fd p = (case List.find (\<lambda>i. fd_table p ! i = None) [0..<length (fd_table p)] of
       Some fd \<Rightarrow> (fd, p)
     | None \<Rightarrow> (length (fd_table p), p\<lparr>fd_table := fd_table p @ [None]\<rparr>))"

definition set_fd :: "nat \<Rightarrow> File \<Rightarrow> pfiles \<Rightarrow> pfiles option" where
  "set_fd fd f p = do { t \<leftarrow> index_set (fd_table p) fd (Some f); Some (p\<lparr>fd_table := t\<rparr>) }"

definition file_readable :: "File \<Rightarrow> kfiles \<Rightarrow> bool option" where
  "file_readable f k = (case f of Stdin \<Rightarrow> Some True | Stdout \<Rightarrow> Some False
     | FileOSInode a \<Rightarrow> do { x \<leftarrow> index_get (kf_inodes k) a; Some (os_readable x) }
     | FilePipe e _ \<Rightarrow> Some (pipe_readable e)
     | FileTcp _ \<Rightarrow> Some True | FileUdp _ \<Rightarrow> Some True | FilePortFd _ \<Rightarrow> Some False)"

definition file_writable :: "File \<Rightarrow> kfiles \<Rightarrow> bool option" where
  "file_writable f k = (case f of Stdin \<Rightarrow> Some False | Stdout \<Rightarrow> Some True
     | FileOSInode a \<Rightarrow> do { x \<leftarrow> index_get (kf_inodes k) a; Some (os_writable x) }
     | FilePipe e _ \<Rightarrow> Some (pipe_writable e)
     | FileTcp _ \<Rightarrow> Some True | FileUdp _ \<Rightarrow> Some True | FilePortFd _ \<Rightarrow> Some False)"

section \<open>Reading and writing\<close>

datatype io_outcome = IoReturns int | IoPipe nat pipe_call | IoConsole "page_slice list" | IoTcp TCP "page_slice list" | IoUdp UDP "page_slice list"

definition sys_write :: "nat \<Rightarrow> nat \<Rightarrow> nat \<Rightarrow> pfiles \<Rightarrow> kfiles \<Rightarrow> (io_outcome \<times> kfiles) option" where
  "sys_write fd buf len p k =
     (case fd_get fd p of
        None \<Rightarrow> Some (IoReturns (- 1), k)
      | Some f \<Rightarrow> do {
          w \<leftarrow> file_writable f k;
          if \<not> w then Some (IoReturns (- 1), k)
          else do {
            bufs \<leftarrow> translated_byte_buffer (user_token p) buf len (kf_ram k);
            case f of
              FileOSInode a \<Rightarrow> do {
                x \<leftarrow> index_get (kf_inodes k) a;
                (n, x, d) \<leftarrow> OSInode_write (kf_efs k) bufs x (kf_disk k) (kf_ram k);
                Some (IoReturns (int n), k\<lparr>kf_inodes := (kf_inodes k)[a := x], kf_disk := d\<rparr>) }
            | FilePipe _ b \<Rightarrow> Some (IoPipe b (pipe_call_enter bufs), k)
            | FileTcp c \<Rightarrow> Some (IoTcp c bufs, k)
            | FileUdp c \<Rightarrow> Some (IoUdp c bufs, k)
            | _ \<Rightarrow> Some (IoConsole bufs, k) } })"

definition sys_read :: "nat \<Rightarrow> nat \<Rightarrow> nat \<Rightarrow> pfiles \<Rightarrow> kfiles \<Rightarrow> (io_outcome \<times> kfiles) option" where
  "sys_read fd buf len p k =
     (case fd_get fd p of
        None \<Rightarrow> Some (IoReturns (- 1), k)
      | Some f \<Rightarrow> do {
          r \<leftarrow> file_readable f k;
          if \<not> r then Some (IoReturns (- 1), k)
          else do {
            bufs \<leftarrow> translated_byte_buffer (user_token p) buf len (kf_ram k);
            case f of
              FileOSInode a \<Rightarrow> do {
                x \<leftarrow> index_get (kf_inodes k) a;
                (n, x, m) \<leftarrow> OSInode_read bufs x (kf_disk k) (kf_ram k);
                Some (IoReturns (int n), k\<lparr>kf_inodes := (kf_inodes k)[a := x], kf_ram := m\<rparr>) }
            | FilePipe _ b \<Rightarrow> Some (IoPipe b (pipe_call_enter bufs), k)
            | FileTcp c \<Rightarrow> Some (IoTcp c bufs, k)
            | FileUdp c \<Rightarrow> Some (IoUdp c bufs, k)
            | _ \<Rightarrow> Some (IoConsole bufs, k) } })"

section \<open>Paths\<close>

definition AT_FDCWD :: int where "AT_FDCWD = - 100"

definition fd_inode :: "File \<Rightarrow> kfiles \<Rightarrow> OSInode option option" where
  \<comment> \<open>\<open>downcast_arc::<OSInode>()\<close>\<close>
  "fd_inode f k = (case f of FileOSInode a \<Rightarrow> do { x \<leftarrow> index_get (kf_inodes k) a; Some (Some x) } | _ \<Rightarrow> Some None)"

definition base_inode :: "int \<Rightarrow> bytes \<Rightarrow> bool \<Rightarrow> bool \<Rightarrow> pfiles \<Rightarrow> kfiles \<Rightarrow> (int + Inode) option" where
  "base_inode fd abs_path open_read open_write p k =
     (if abs_path \<noteq> [] \<and> hd abs_path = 47 then Some (Inr (root_inode (kf_efs k)))
      else if fd = AT_FDCWD then do {
        path \<leftarrow> name_for_inode (kf_efs k) (cwd p) (kf_disk k);
        r \<leftarrow> find_file (kf_efs k) path (kf_disk k);
        case r of
          None \<Rightarrow> Some (Inl (- 1))
        | Some v \<Rightarrow> do {
            b \<leftarrow> Inode_is_dir (os_inode v) (kf_disk k);
            Some (if b then Inr (cwd p) else Inl (- 1)) } }
      else case fd_get (nat (fd mod 2 ^ 64)) p of
          None \<Rightarrow> Some (Inl (- 1))
        | Some f \<Rightarrow> do {
            r \<leftarrow> fd_inode f k;
            case r of
              None \<Rightarrow> Some (Inl (- 1))
            | Some x \<Rightarrow> do {
                b \<leftarrow> Inode_is_dir (os_inode x) (kf_disk k);
                Some (if \<not> b \<or> open_read \<and> \<not> os_readable x \<or> open_write \<and> \<not> os_writable x
                  then Inl (- 1) else Inr (os_inode x)) } })"

definition sys_openat :: "int \<Rightarrow> nat \<Rightarrow> 32 word \<Rightarrow> pfiles \<Rightarrow> kfiles \<Rightarrow> (int \<times> pfiles \<times> kfiles) option" where
  "sys_openat fd path fl p k =
     (let open_flags = OpenFlags_from_bits_truncate fl in do {
        let (r, w) = read_write open_flags;
        path \<leftarrow> translated_str (user_token p) path (kf_ram k);
        base \<leftarrow> base_inode fd path r w p k;
        case base of
          Inl e \<Rightarrow> Some (e, p, k)
        | Inr base \<Rightarrow> do {
            (x, d) \<leftarrow> open_file_at (kf_efs k) base path open_flags (kf_disk k);
            let k = k\<lparr>kf_disk := d\<rparr>;
            case x of
              None \<Rightarrow> Some (- 1, p, k)
            | Some x \<Rightarrow> do {
                let (fd, p) = alloc_fd p;
                p \<leftarrow> set_fd fd (FileOSInode (length (kf_inodes k))) p;
                Some (int fd, p, k\<lparr>kf_inodes := kf_inodes k @ [x]\<rparr>) } } })"

definition sys_close :: "nat \<Rightarrow> pfiles \<Rightarrow> int \<times> pfiles" where
  "sys_close fd p =
     (if fd < length (fd_table p)
      then (case fd_table p ! fd of
              Some _ \<Rightarrow> (0, p\<lparr>fd_table := (fd_table p)[fd := None]\<rparr>)
            | None \<Rightarrow> (- 1, p))
      else (- 1, p))"

fun getcwd_copy :: "nat \<Rightarrow> page_slice list \<Rightarrow> bytes \<Rightarrow> ram \<Rightarrow> ram option" where
  \<comment> \<open>\<open>for (i, dst) in dst_vs.into_iter().enumerate()\<close>\<close>
  "getcwd_copy i [] src m = Some m"
| "getcwd_copy i (dst # dsts) src m = do {
     old \<leftarrow> load_slice dst m;
     let dst_len = min (slice_len dst) (length src);
     let s = i * dst_len;
     ensure (s + dst_len \<le> length src);
     m \<leftarrow> store_slice dst (splice 0 (slice s dst_len src) old) m;
     getcwd_copy (i + 1) dsts src m }"

definition sys_getcwd :: "nat \<Rightarrow> nat \<Rightarrow> pfiles \<Rightarrow> kfiles \<Rightarrow> (int \<times> kfiles) option" where
  "sys_getcwd ptr len p k = do {
     path \<leftarrow> name_for_inode (kf_efs k) (cwd p) (kf_disk k);
     if length path + 1 > len then Some (- 1, k)
     else do {
       dst_vs \<leftarrow> translated_byte_buffer (user_token p) ptr len (kf_ram k);
       m \<leftarrow> getcwd_copy 0 dst_vs path (kf_ram k);
       Some (0, k\<lparr>kf_ram := m\<rparr>) } }"

fun mkdir_loop :: "EasyFileSystem \<Rightarrow> bytes list \<Rightarrow> Inode \<Rightarrow> disk \<Rightarrow> (int \<times> disk) option" where
  "mkdir_loop efs [] base d = Some (0, d)"
| "mkdir_loop efs (nm # nms) base d = do {
     (created, d) \<leftarrow> create_dir efs base nm d;
     case created of
       Some ino \<Rightarrow> mkdir_loop efs nms ino d
     | None \<Rightarrow> do {
         r \<leftarrow> find efs base nm d;
         existed \<leftarrow> r;
         b \<leftarrow> Inode_is_dir existed d;
         if \<not> b then Some (- 1, d) else mkdir_loop efs nms existed d } }"

definition sys_mkdirat :: "int \<Rightarrow> nat \<Rightarrow> pfiles \<Rightarrow> kfiles \<Rightarrow> (int \<times> kfiles) option" where
  "sys_mkdirat fd path p k = do {
     path \<leftarrow> translated_str (user_token p) path (kf_ram k);
     base \<leftarrow> base_inode fd path True True p k;
     case base of
       Inl e \<Rightarrow> Some (e, k)
     | Inr base \<Rightarrow> do {
         (r, d) \<leftarrow> mkdir_loop (kf_efs k) (filter (\<lambda>s. s \<noteq> []) (split_slash path)) base (kf_disk k);
         Some (r, k\<lparr>kf_disk := d\<rparr>) } }"

definition sys_chdir :: "nat \<Rightarrow> pfiles \<Rightarrow> kfiles \<Rightarrow> (int \<times> pfiles) option" where
  "sys_chdir path p k = do {
     path \<leftarrow> translated_str (user_token p) path (kf_ram k);
     base \<leftarrow> base_inode AT_FDCWD path True True p k;
     case base of
       Inl e \<Rightarrow> Some (e, p)
     | Inr base \<Rightarrow> do {
         r \<leftarrow> find (kf_efs k) base path (kf_disk k);
         case r of
           None \<Rightarrow> Some (- 1, p)
         | Some dir \<Rightarrow> do {
             b \<leftarrow> Inode_is_dir dir (kf_disk k);
             Some (if b then (0, p\<lparr>cwd := dir\<rparr>) else (- 1, p)) } } }"

definition sys_unlinkat :: "int \<Rightarrow> nat \<Rightarrow> pfiles \<Rightarrow> kfiles \<Rightarrow> (int \<times> kfiles) option" where
  "sys_unlinkat fd path p k =
     (if fd \<noteq> AT_FDCWD then Some (- 1, k)
      else do {
        path \<leftarrow> translated_str (user_token p) path (kf_ram k);
        base \<leftarrow> base_inode AT_FDCWD path True True p k;
        case base of
          Inl e \<Rightarrow> Some (e, k)
        | Inr base \<Rightarrow> do {
            (b, d) \<leftarrow> unlink_file_at (kf_efs k) base path (kf_disk k);
            Some (if b then 0 else - 1, k\<lparr>kf_disk := d\<rparr>) } })"

definition sys_linkat :: "int \<Rightarrow> nat \<Rightarrow> nat \<Rightarrow> pfiles \<Rightarrow> kfiles \<Rightarrow> (int \<times> kfiles) option" where
  "sys_linkat fd oldpath newpath p k =
     (if fd \<noteq> AT_FDCWD then Some (- 1, k)
      else do {
        oldpath \<leftarrow> translated_str (user_token p) oldpath (kf_ram k);
        newpath \<leftarrow> translated_str (user_token p) newpath (kf_ram k);
        oldbase \<leftarrow> base_inode AT_FDCWD oldpath True True p k;
        case oldbase of
          Inl e \<Rightarrow> Some (e, k)
        | Inr oldbase \<Rightarrow> do {
            newbase \<leftarrow> base_inode AT_FDCWD newpath True True p k;
            case newbase of
              Inl e \<Rightarrow> Some (e, k)
            | Inr newbase \<Rightarrow> do {
                r \<leftarrow> find (kf_efs k) oldbase oldpath (kf_disk k);
                case r of
                  None \<Rightarrow> Some (- 1, k)
                | Some old_inode \<Rightarrow> do {
                    let (path, fname) = split_parent newpath;
                    r \<leftarrow> find (kf_efs k) newbase path (kf_disk k);
                    case r of
                      None \<Rightarrow> Some (- 1, k)
                    | Some parent \<Rightarrow> do {
                        (r, d) \<leftarrow> link (kf_efs k) parent fname old_inode (kf_disk k);
                        Some (if r \<noteq> None then 0 else - 1, k\<lparr>kf_disk := d\<rparr>) } } } } })"

section \<open>File status, pipes, duplicates and directory listings\<close>

definition STAT_DIR :: nat where "STAT_DIR = 16384" \<comment> \<open>\<open>0o040000\<close>\<close>
definition STAT_FILE :: nat where "STAT_FILE = 32768" \<comment> \<open>\<open>0o100000\<close>\<close>

definition Stat_new :: "nat \<Rightarrow> nat \<Rightarrow> nat \<Rightarrow> nat \<Rightarrow> bytes" where
  \<comment> \<open>\<open>dev\<close>, \<open>ino\<close>, \<open>mode\<close>, \<open>nlink\<close>, \<open>size\<close> and \<open>pad\<close>, as they lie in memory\<close>
  "Stat_new ino mode lk sz = le_bytes 8 0 @ le_bytes 8 ino @ le_bytes 4 mode @ le_bytes 4 lk @ le_bytes 8 sz @ replicate 48 0"

fun copy_out :: "(nat \<Rightarrow> byte) \<Rightarrow> nat \<Rightarrow> page_slice list \<Rightarrow> bytes \<Rightarrow> ram \<Rightarrow> ram option" where
  \<comment> \<open>the value is copied piece by piece, each from \<open>i * len\<close> on, without a check: \<open>behind\<close> is what lies behind
    the value on the stack of the kernel\<close>
  "copy_out behind i [] src m = Some m"
| "copy_out behind i (dst # dsts) src m = do {
     let len = slice_len dst;
     m \<leftarrow> store_slice dst (map (\<lambda>j. if j < length src then src ! j else behind (j - length src)) [i * len..<i * len + len]) m;
     copy_out behind (i + 1) dsts src m }"

definition sys_fstat :: "(nat \<Rightarrow> byte) \<Rightarrow> nat \<Rightarrow> nat \<Rightarrow> pfiles \<Rightarrow> kfiles \<Rightarrow> (int \<times> kfiles) option" where
  "sys_fstat behind fd ptr p k =
     (case fd_get fd p of
        None \<Rightarrow> Some (- 1, k)
      | Some f \<Rightarrow> do {
          r \<leftarrow> fd_inode f k;
          case r of
            None \<Rightarrow> Some (- 1, k)
          | Some x \<Rightarrow> do {
              let ino = os_inode x; let d = kf_disk k;
              dir \<leftarrow> Inode_is_dir ino d;
              file \<leftarrow> Inode_is_file ino d;
              let mode = (if dir then STAT_DIR else if file then STAT_FILE else 0);
              sz \<leftarrow> get_size ino d;
              lk \<leftarrow> nlink ino d;
              dst_vs \<leftarrow> translated_byte_buffer (user_token p) ptr 80 (kf_ram k);
              m \<leftarrow> copy_out behind 0 dst_vs (Stat_new (inode_id ino) mode lk sz) (kf_ram k);
              Some (0, k\<lparr>kf_ram := m\<rparr>) } })"

definition sys_pipe :: "nat \<Rightarrow> pfiles \<Rightarrow> kfiles \<Rightarrow> (int \<times> pfiles \<times> kfiles) option" where
  "sys_pipe pipe p k = do {
     let b = length (kf_pipes k);
     let (pipe_read, pipe_write, rb) = make_pipe b;
     let k = k\<lparr>kf_pipes := kf_pipes k @ [rb]\<rparr>;
     let (read_fd, p) = alloc_fd p;
     p \<leftarrow> set_fd read_fd (FilePipe pipe_read b) p;
     let (write_fd, p) = alloc_fd p;
     p \<leftarrow> set_fd write_fd (FilePipe pipe_write b) p;
     m \<leftarrow> user_store (user_token p) pipe (le_bytes 8 read_fd) (kf_ram k);
     m \<leftarrow> user_store (user_token p) (usize (pipe + 8)) (le_bytes 8 write_fd) m;
     Some (0, p, k\<lparr>kf_ram := m\<rparr>) }"

definition sys_dup :: "nat \<Rightarrow> pfiles \<Rightarrow> (int \<times> pfiles) option" where
  "sys_dup fd p =
     (case fd_get fd p of
        None \<Rightarrow> Some (- 1, p)
      | Some f \<Rightarrow> do {
          let (new_fd, p) = alloc_fd p;
          p \<leftarrow> set_fd new_fd f p;
          Some (int new_fd, p) })"

definition FT_DIR :: byte where "FT_DIR = 1"
definition FT_REG :: byte where "FT_REG = 2"

definition Dirent_bytes :: "byte \<Rightarrow> bytes \<Rightarrow> nat \<Rightarrow> bytes" where
  \<comment> \<open>\<open>ftype\<close>, \<open>name\<close> and \<open>next_offset\<close> of a value of 32 bytes\<close>
  "Dirent_bytes ft nm next = ft # nm @ le_bytes 4 next"

fun put_dirents :: "nat \<Rightarrow> nat \<Rightarrow> nat \<Rightarrow> nat \<Rightarrow> (bytes \<times> Inode) list \<Rightarrow> disk \<Rightarrow> ram \<Rightarrow> ram option" where
  "put_dirents token ptr cursor i [] d m = Some m"
| "put_dirents token ptr cursor i ((ename, ino) # es) d m = do {
     dir \<leftarrow> Inode_is_dir ino d;
     file \<leftarrow> Inode_is_file ino d;
     let ft = (if dir then FT_DIR else if file then FT_REG else 0);
     ensure (length ename \<le> NAME_LENGTH_LIMIT);
     let nm = splice 0 ename (replicate NAME_LENGTH_LIMIT 0);
     m \<leftarrow> user_store token (usize (ptr + 32 * i)) (Dirent_bytes ft nm (u32 (cursor + i + 1))) m;
     put_dirents token ptr cursor (i + 1) es d m }"

definition sys_getdents :: "nat \<Rightarrow> nat \<Rightarrow> nat \<Rightarrow> pfiles \<Rightarrow> kfiles \<Rightarrow> (int \<times> kfiles) option" where
  "sys_getdents fd ptr len p k =
     (case fd_get fd p of
        None \<Rightarrow> Some (- 1, k)
      | Some f \<Rightarrow> do {
          r \<leftarrow> fd_inode f k;
          case r of
            None \<Rightarrow> Some (- 1, k)
          | Some x \<Rightarrow> do {
              let file = os_inode x;
              dir \<leftarrow> Inode_is_dir file (kf_disk k);
              if \<not> dir then Some (- 1, k)
              else do {
                last \<leftarrow> user_load (user_token p) (usize (ptr + 32 * usize_sub len 1)) 32 (kf_ram k);
                let cursor = le_nat (slice 28 4 last);
                es \<leftarrow> dirents (kf_efs k) file cursor (kf_disk k);
                let nread = min len (length es);
                m \<leftarrow> put_dirents (user_token p) ptr cursor 0 (take nread es) (kf_disk k) (kf_ram k);
                Some (int nread, k\<lparr>kf_ram := m\<rparr>) } } })"


section \<open>File descriptors\<close>

lemma alloc_fd_spec:
  assumes "alloc_fd p = (fd, p')"
  shows "fd_get fd p = None" and "\<forall>j < fd. fd_get j p \<noteq> None" and "fd < length (fd_table p')"
    and "fd_get j p' = fd_get j p" and "cwd p' = cwd p" and "user_token p' = user_token p"
proof -
  let ?t = "fd_table p" and ?find = "List.find (\<lambda>i. fd_table p ! i = None) [0..<length (fd_table p)]"
  consider (some) i where "?find = Some i" "fd = i" "p' = p"
    | (none) "?find = None" "fd = length ?t" "p' = p\<lparr>fd_table := ?t @ [None]\<rparr>"
    using assms by (auto simp: alloc_fd_def split: option.splits)
  then have "fd_get fd p = None \<and> (\<forall>j < fd. fd_get j p \<noteq> None) \<and> fd < length (fd_table p') \<and> fd_get j p' = fd_get j p \<and>
      cwd p' = cwd p \<and> user_token p' = user_token p"
  proof cases
    case some
    then show ?thesis
      by (auto simp: find_Some_iff fd_get_def)
  next
    case none
    then show ?thesis
      by (auto simp: find_None_iff fd_get_def nth_append)
  qed
  then show "fd_get fd p = None" "\<forall>j < fd. fd_get j p \<noteq> None" "fd < length (fd_table p')" "fd_get j p' = fd_get j p"
    "cwd p' = cwd p" "user_token p' = user_token p"
    by blast+
qed

lemma install_fd:
  assumes "alloc_fd p = (fd, p1)"
  shows "\<exists>p2. set_fd fd f p1 = Some p2 \<and> fd_get fd p2 = Some f \<and> (\<forall>j. j \<noteq> fd \<longrightarrow> fd_get j p2 = fd_get j p) \<and>
    cwd p2 = cwd p \<and> user_token p2 = user_token p"
proof -
  note A = alloc_fd_spec [OF assms]
  let ?p2 = "p1\<lparr>fd_table := (fd_table p1)[fd := Some f]\<rparr>"
  have "set_fd fd f p1 = Some ?p2" "fd_get fd ?p2 = Some f" "cwd ?p2 = cwd p" "user_token ?p2 = user_token p"
    using A(3,5,6) by (simp_all add: set_fd_def fd_get_def)
  moreover have "fd_get j ?p2 = fd_get j p" if "j \<noteq> fd" for j
  proof -
    have "fd_get j ?p2 = fd_get j p1"
      using that by (simp add: fd_get_def)
    then show ?thesis
      using A(4) by simp
  qed
  ultimately show ?thesis
    by blast
qed

lemma io_same_file:
  assumes "fd_get a p = fd_get b q" and "user_token p = user_token q"
  shows "sys_read a buf len p k = sys_read b buf len q k" and "sys_write a buf len p k = sys_write b buf len q k"
  unfolding sys_read_def sys_write_def assms by (rule refl)+

lemma close_frees: "fd_get fd p = Some f \<Longrightarrow> sys_close fd p = (0, p') \<Longrightarrow>
    fd_get fd p' = None \<and> (\<forall>j. j \<noteq> fd \<longrightarrow> fd_get j p' = fd_get j p) \<and> user_token p' = user_token p"
  by (auto simp: sys_close_def fd_get_def split: if_splits option.splits)

section \<open>User buffers of a process\<close>

definition pages_apart :: "(VirtPageNum \<rightharpoonup> PageTableEntry) \<Rightarrow> bool" where
  \<comment> \<open>no two pages of the user share a frame\<close>
  "pages_apart M \<longleftrightarrow> (\<forall>u v a b. M u = Some a \<and> M v = Some b \<and> pte_ppn a = pte_ppn b \<longrightarrow> u = v)"

lemma user_refs_distinct:
  assumes "pages_apart M" and "mapped_bytes M a b"
  shows "distinct (map (user_ref M) [a..<b])"
proof -
  have "inj_on (user_ref M) {a..<b}"
  proof (rule inj_onI)
    fix x y assume xy: "x \<in> {a..<b}" "y \<in> {a..<b}" "user_ref M x = user_ref M y"
    obtain u v where "M (x div 4096) = Some u" "M (y div 4096) = Some v"
      using assms(2) xy(1,2) by (fastforce simp: mapped_bytes_def)
    then have "x div 4096 = y div 4096" "x mod 4096 = y mod 4096"
      using assms(1) xy(3) by (auto simp: user_ref_def pages_apart_def)
    then show "x = y"
      by (metis div_mult_mod_eq)
  qed
  then show ?thesis
    by (simp add: distinct_map)
qed

lemma translated_segs_ok:
  assumes "concat (map slice_refs segs) = map (user_ref M) [a..<b]" and "mapped_bytes M a b" and "backed M m"
    and "\<forall>sl \<in> set segs. ps_lo sl < ps_hi sl \<and> ps_hi sl \<le> PAGE_SIZE"
  shows "segs_ok segs m"
  unfolding segs_ok_def
proof
  fix sl assume sl: "sl \<in> set segs"
  then have lo: "ps_lo sl < ps_hi sl" "ps_hi sl \<le> PAGE_SIZE"
    using assms(4) by auto
  then have "(ps_ppn sl, ps_lo sl) \<in> set (slice_refs sl)"
    by (simp add: slice_refs_def)
  then have "(ps_ppn sl, ps_lo sl) \<in> set (map (user_ref M) [a..<b])"
    unfolding assms(1) [symmetric] using sl by auto
  then obtain x where x: "x \<in> {a..<b}" "ps_ppn sl = pte_ppn (the (M (x div 4096)))"
    by (auto simp: user_ref_def)
  obtain e where e: "M (x div 4096) = Some e"
    using assms(2) x(1) by (fastforce simp: mapped_bytes_def)
  then obtain pg where "m (pte_ppn e) = Some pg" "length pg = PAGE_SIZE"
    using assms(3) by (auto simp: backed_def)
  then show "ps_lo sl < ps_hi sl \<and> (\<exists>pg. m (ps_ppn sl) = Some pg \<and> ps_hi sl \<le> length pg)"
    using lo x(2) e by simp
qed

lemma store_prefix_bytes:
  assumes "refs_ok m rs" and "distinct rs" and "length bs \<le> length rs"
  shows "map (byte_at (store_bytes rs bs m)) (take (length bs) rs) = bs"
    and "r \<notin> set (take (length bs) rs) \<Longrightarrow> byte_at (store_bytes rs bs m) r = byte_at m r"
proof -
  let ?rs = "take (length bs) rs"
  have e: "store_bytes rs bs m = store_bytes ?rs bs m"
    using store_bytes_prefix [of bs ?rs "drop (length bs) rs" m] assms(3) by simp
  have ok: "refs_ok m ?rs"
    by (rule refs_ok_drop(2) [OF assms(1)])
  show "map (byte_at (store_bytes rs bs m)) ?rs = bs"
    unfolding e using byte_at_stored [OF ok] assms(2,3) by simp
  show "r \<notin> set ?rs \<Longrightarrow> byte_at (store_bytes rs bs m) r = byte_at m r"
    unfolding e by (rule byte_at_store [OF ok])
qed

section \<open>Properties\<close>

text \<open>
  C10. The system call \<open>read\<close> on an open file, through the page table of the process: when the buffer is mapped to
  frames of its own, the call returns the number of bytes that are left in the file, at most the length asked for; the
  user's memory from the address on holds these bytes of the file, no other byte of memory changes, and the offset of the open file moves by
  this number.
\<close>

theorem sys_read_fills_user_memory:
  assumes inv: "fs_inv (kf_efs k) nd (kf_disk k)" and i: "i \<in> used_inodes (kf_efs k) (kf_disk k)"
    and di: "inode_at (kf_efs k) (kf_disk k) i = Some di"
    and fd: "fd_get fd p = Some (FileOSInode a)" "index_get (kf_inodes k) a = Some x" "os_readable x" "os_inode x = inode_handle (kf_efs k) i"
    and pt: "pt_inv base pt s" "kf_ram k = ram s" "user_token p = PageTable_token pt" "M = pt_map (ram s) pt"
    and buf: "ptr + len < 2 ^ 39" "mapped_bytes M ptr (ptr + len)" "backed M (ram s)" "pages_apart M"
    and off: "os_offset x + len < 2 ^ 64" and n: "n = min len (length (content di (kf_disk k)) - os_offset x)"
  shows "\<exists>k'. sys_read fd ptr len p k = Some (IoReturns (int n), k') \<and>
    map (\<lambda>j. byte_at (kf_ram k') (user_ref M j)) [ptr..<ptr + n] = slice (os_offset x) n (content di (kf_disk k)) \<and>
    (\<forall>r. r \<notin> user_ref M ` {ptr..<ptr + n} \<longrightarrow> byte_at (kf_ram k') r = byte_at (kf_ram k) r) \<and>
    kf_inodes k' = (kf_inodes k)[a := x\<lparr>os_offset := os_offset x + n\<rparr>] \<and> kf_disk k' = kf_disk k"
proof -
  let ?rs = "map (user_ref M) [ptr..<ptr + len]" and ?bs = "slice (os_offset x) n (content di (kf_disk k))"
  obtain segs where t: "translated_byte_buffer (PageTable_token pt) ptr len (ram s) = Some segs"
    "concat (map slice_refs segs) = ?rs" "\<forall>sl \<in> set segs. ps_lo sl < ps_hi sl \<and> ps_hi sl \<le> PAGE_SIZE"
    using translated_segs [OF pt(1) buf(1)] buf(2) unfolding pt(4) by metis
  have rs: "segs_refs segs = ?rs"
    using t(2) by (simp add: segs_refs_def)
  have ok: "segs_ok segs (kf_ram k)"
    using translated_segs_ok [OF t(2) buf(2,3) t(3)] pt(2) by simp
  have dist: "distinct (segs_refs segs)"
    unfolding rs by (rule user_refs_distinct [OF buf(4,2)])
  have len: "UserBuffer_len segs = len"
    using length_segs_refs [of segs] rs by simp
  have rd: "OSInode_read segs x (kf_disk k) (kf_ram k) = Some (n, x\<lparr>os_offset := os_offset x + n\<rparr>, store_bytes ?rs ?bs (kf_ram k))"
    using OSInode_read_loop_spec [OF inv i di fd(4) ok dist, of 0 n] off n len rs by (simp add: OSInode_read_def)
  have lb: "length ?bs = n" "n \<le> len"
    using n by simp_all
  have tk: "take n ?rs = map (user_ref M) [ptr..<ptr + n]"
    using lb(2) by (simp add: take_map)
  note P = store_prefix_bytes [OF segs_ok_refs [OF ok, unfolded rs] dist [unfolded rs], of ?bs, unfolded lb(1) tk]
  have "sys_read fd ptr len p k = Some (IoReturns (int n),
      k\<lparr>kf_inodes := (kf_inodes k)[a := x\<lparr>os_offset := os_offset x + n\<rparr>], kf_ram := store_bytes ?rs ?bs (kf_ram k)\<rparr>)"
    using fd t(1) rd pt(2,3) by (simp add: sys_read_def file_readable_def)
  then show ?thesis
    using P lb by (simp add: comp_def)
qed

theorem sys_read_fills_user_memory_witness:
  "\<exists>k p M k'. sys_read 3 4100 5 p k = Some (IoReturns 0, k') \<and> fd_get 3 p = Some (FileOSInode 0) \<and> kf_disk k' = sample_fs_disk"
proof -
  obtain pt s b where a: "pt_inv 16 pt s" "pt_map (ram s) pt = [1 \<mapsto> b]" "ram s (pte_ppn b) = Some (replicate PAGE_SIZE 0)"
    using sample_mapped by metis
  let ?x = "OSInode_new True False (inode_handle sample_fs 0)"
  let ?k = "\<lparr>kf_efs = sample_fs, kf_disk = sample_fs_disk, kf_ram = ram s, kf_inodes = [?x], kf_pipes = []\<rparr>"
  let ?p = "\<lparr>fd_table = [Some Stdin, Some Stdout, Some Stdout, Some (FileOSInode 0)], cwd = inode_handle sample_fs 1,
    user_token = PageTable_token pt\<rparr>"
  have "x div 4096 = 1" if "x \<in> {4100..<4100 + 5}" for x :: nat
    using that block_position(1) [of 1 4096 x 4096] by simp
  then have mapped: "mapped_bytes (pt_map (ram s) pt) 4100 (4100 + 5)"
    by (simp add: mapped_bytes_def a(2))
  have h: "backed (pt_map (ram s) pt) (ram s)" "pages_apart (pt_map (ram s) pt)"
    using a(2,3) by (auto simp: backed_def pages_apart_def split: if_splits)
  have fd: "fd_get 3 ?p = Some (FileOSInode 0)" "index_get (kf_inodes ?k) 0 = Some ?x" "os_readable ?x"
    "os_inode ?x = inode_handle (kf_efs ?k) 0"
    by (simp_all add: fd_get_def OSInode_new_def)
  have z: "0 = min 5 (length (content (sample_empty 0) (kf_disk ?k)) - os_offset ?x)"
    by (simp add: content_def sample_empty_def)
  have at: "fs_inv (kf_efs ?k) 3 (kf_disk ?k)" "0 \<in> used_inodes (kf_efs ?k) (kf_disk ?k)"
    "inode_at (kf_efs ?k) (kf_disk ?k) 0 = Some (sample_empty 0)"
    using sample_fs_inv sample_dir(7) sample_inode_at by simp_all
  have "\<exists>k'. sys_read 3 4100 5 ?p ?k = Some (IoReturns (int 0), k') \<and> kf_disk k' = kf_disk ?k"
    using sys_read_fills_user_memory [OF at fd a(1) _ _ refl _ mapped h _ z] by (auto simp: OSInode_new_def)
  then show ?thesis
    using fd(1) by (intro exI [of _ ?k] exI [of _ ?p]) auto
qed

text \<open>
  \<open>dup\<close> on an open descriptor returns the least number that is not in use, leaves every other descriptor as it was, and
  the two descriptors stand for the same open file: a read or a write has the same effect through either of them, offset included, whatever happened
  to the file in between, and closing one leaves the other. On an unknown descriptor \<open>dup\<close> answers \<open>-1\<close> and changes nothing.
\<close>

theorem dup_shares_open_file:
  "case fd_get fd p of
     None \<Rightarrow> sys_dup fd p = Some (- 1, p)
   | Some f \<Rightarrow> \<exists>nfd p'. sys_dup fd p = Some (int nfd, p') \<and> fd_get nfd p = None \<and> (\<forall>j < nfd. fd_get j p \<noteq> None) \<and>
       fd_get nfd p' = Some f \<and> (\<forall>j. j \<noteq> nfd \<longrightarrow> fd_get j p' = fd_get j p) \<and>
       (\<forall>buf len k. sys_read nfd buf len p' k = sys_read fd buf len p' k \<and> sys_write nfd buf len p' k = sys_write fd buf len p' k) \<and>
       (\<forall>p''. sys_close fd p' = (0, p'') \<longrightarrow> (\<forall>buf len k. sys_read nfd buf len p'' k = sys_read fd buf len p' k))"
proof (cases "fd_get fd p")
  case None
  then show ?thesis
    by (simp add: sys_dup_def)
next
  case (Some f)
  obtain nfd p1 where a: "alloc_fd p = (nfd, p1)"
    by (cases "alloc_fd p")
  note A = alloc_fd_spec [OF a]
  obtain p2 where b: "set_fd nfd f p1 = Some p2" "fd_get nfd p2 = Some f" "\<forall>j. j \<noteq> nfd \<longrightarrow> fd_get j p2 = fd_get j p"
    "user_token p2 = user_token p"
    using install_fd [OF a] by blast
  have ne: "fd \<noteq> nfd"
    using A(1) Some by auto
  have same: "fd_get nfd p2 = fd_get fd p2"
    using b(2,3) ne Some by simp
  have "sys_read nfd buf len p'' k = sys_read fd buf len p2 k" if "sys_close fd p2 = (0, p'')" for p'' buf len k
  proof -
    have "fd_get fd p2 = Some f"
      using b(3) ne Some by simp
    then show ?thesis
      using close_frees [OF _ that] b(2) ne by (intro io_same_file) auto
  qed
  then show ?thesis
    using Some a A(1,2) b io_same_file [OF same refl] by (auto simp: sys_dup_def)
qed

theorem dup_shares_open_file_witness:
  "\<exists>p'. sys_dup 1 \<lparr>fd_table = [Some Stdin, Some Stdout], cwd = inode_handle sample_fs 1, user_token = 0\<rparr> = Some (2, p') \<and>
    fd_get 2 p' = Some Stdout"
proof -
  let ?p = "\<lparr>fd_table = [Some Stdin, Some Stdout], cwd = inode_handle sample_fs 1, user_token = 0\<rparr>"
  have g: "fd_get 1 ?p = Some Stdout" "fd_get 0 ?p = Some Stdin" "fd_get 2 ?p = None"
    by (simp_all add: fd_get_def)
  obtain nfd p' where d: "sys_dup 1 ?p = Some (int nfd, p')" "fd_get nfd ?p = None" "\<forall>j < nfd. fd_get j ?p \<noteq> None"
    "fd_get nfd p' = Some Stdout"
    using dup_shares_open_file [of 1 ?p] unfolding g(1) by auto
  have "nfd \<noteq> 0" "nfd \<noteq> 1" "\<not> 2 < nfd"
    using d(2,3) g by (metis option.distinct(1))+
  then have "nfd = 2"
    by linarith
  then show ?thesis
    using d(1,4) by auto
qed

section \<open>The current directory\<close>

lemma getcwd_copy_cases:
  assumes "segs_ok [sl] m" and "path \<noteq> []"
  shows "length path \<le> slice_len sl \<Longrightarrow> \<exists>m'. getcwd_copy 0 [sl] path m = Some m' \<and>
      map (byte_at m') (take (length path) (slice_refs sl)) = path"
    and "length path < 2 * slice_len sl' \<Longrightarrow> getcwd_copy 0 (sl # sl' # rest) path m = None"
proof -
  let ?rs = "slice_refs sl"
  have ok: "refs_ok m ?rs" and di: "distinct ?rs"
    using segs_ok_refs [OF assms(1)] by (simp_all add: slice_refs_def distinct_map inj_on_def)
  show "\<exists>m'. getcwd_copy 0 [sl] path m = Some m' \<and> map (byte_at m') (take (length path) ?rs) = path" if "length path \<le> slice_len sl"
  proof -
    have "store_slice sl (splice 0 path (map (byte_at m) ?rs)) m = Some (store_bytes ?rs (splice 0 path (map (byte_at m) ?rs)) m)"
      using that by (intro store_slice_ok [OF assms(1)]) simp
    also have "store_bytes ?rs (splice 0 path (map (byte_at m) ?rs)) m = store_bytes ?rs path m"
      using that by (intro store_partial [OF ok _ di]) simp
    finally show ?thesis
      using load_slice_ok [OF assms(1)] store_prefix_bytes(1) [OF ok di, of path] that by (simp add: slice_def)
  qed
  have "length path < 2 * min (slice_len sl') (length path)" if "length path < 2 * slice_len sl'"
    using that assms(2) by (auto simp: min_def)
  then show "getcwd_copy 0 (sl # sl' # rest) path m = None" if "length path < 2 * slice_len sl'"
    using that by (auto simp: Let_def split: option.splits simp del: fun_upd_apply) (auto simp: bind_eq_None_conv)
qed

text \<open>
  Where \<open>getcwd\<close> works and where it does not: when the buffer lies in one page, the path is stored at its start; when
  the buffer is split over pages and the second piece is longer than half of the path, the copy indexes
  the path out of range, so that the kernel panics.
\<close>

theorem getcwd_copy_one_page_only:
  assumes "segs_ok [sl] m" and "path \<noteq> []"
  shows "(length path \<le> slice_len sl \<longrightarrow> (\<exists>m'. getcwd_copy 0 [sl] path m = Some m' \<and>
      map (byte_at m') (take (length path) (slice_refs sl)) = path)) \<and>
    (length path < 2 * slice_len sl' \<longrightarrow> getcwd_copy 0 (sl # sl' # rest) path m = None)"
  using getcwd_copy_cases [OF assms] by blast

theorem getcwd_copy_one_page_only_witness:
  "let m = [7 \<mapsto> [0, 0, 0, 0]]; sl = \<lparr>ps_ppn = 7, ps_lo = 0, ps_hi = 2\<rparr>; sl' = \<lparr>ps_ppn = 7, ps_lo = 2, ps_hi = 4\<rparr>
   in (\<exists>m'. getcwd_copy 0 [sl] [47] m = Some m' \<and> map (byte_at m') [(7, 0)] = [47]) \<and> getcwd_copy 0 [sl, sl'] [47] m = None"
proof -
  let ?m = "[7 \<mapsto> [0, 0, 0, 0 :: byte]]" and ?sl = "\<lparr>ps_ppn = 7, ps_lo = 0, ps_hi = 2\<rparr>"
  have ok: "segs_ok [?sl] ?m"
    by (simp add: segs_ok_def)
  have "take 1 (slice_refs ?sl) = [(7, 0)]"
    by (simp add: slice_refs_def upt_rec)
  then show ?thesis
    using getcwd_copy_one_page_only [OF ok, of "[47]"] by (simp add: Let_def slice_len_def del: getcwd_copy.simps)
qed

end
