(* ===== verification/MemorySet.thy ===== *)
theory MemorySet
  imports UserBuffer
begin

text \<open>
  Address spaces (\<^verbatim>\<open>os/src/mm/memory_set.rs\<close>): areas of consecutive pages over a page table. A
  \<open>BTreeMap\<close> is an association list in the order of its keys; values that Rust drops (a frame
  tracker removed from or replaced in a map, a cleared vector of areas) are given back to the frame
  allocator. The symbols of the linker script and the parsed ELF file are arguments.
\<close>

section \<open>Ordered maps\<close>

fun bt_insert :: "nat \<Rightarrow> 'v \<Rightarrow> (nat \<times> 'v) list \<Rightarrow> (nat \<times> 'v) list" where
  "bt_insert k v [] = [(k, v)]"
| "bt_insert k v ((k', v') # xs) =
     (if k < k' then (k, v) # (k', v') # xs else if k = k' then (k, v) # xs else (k', v') # bt_insert k v xs)"

definition bt_remove :: "nat \<Rightarrow> (nat \<times> 'v) list \<Rightarrow> (nat \<times> 'v) list" where
  "bt_remove k xs = filter (\<lambda>(k', _). k' \<noteq> k) xs"

definition drop_frame :: "PhysPageNum option \<Rightarrow> mm \<Rightarrow> mm option" where
  "drop_frame f s = (case f of None \<Rightarrow> Some s | Some p \<Rightarrow> frame_dealloc p s)"

section \<open>Areas\<close>

datatype MapType = Identical | Framed | Linear int

definition MAP_R :: nat where "MAP_R = push_bit 1 1"
definition MAP_W :: nat where "MAP_W = push_bit 2 1"
definition MAP_X :: nat where "MAP_X = push_bit 3 1"
definition MAP_U :: nat where "MAP_U = push_bit 4 1"

record MapArea =
  vpn_range :: VPNRange
  data_frames :: "(VirtPageNum \<times> PhysPageNum) list"
  map_type :: MapType
  map_perm :: nat

definition MapArea_new :: "VirtAddr \<Rightarrow> VirtAddr \<Rightarrow> MapType \<Rightarrow> nat \<Rightarrow> MapArea option" where
  "MapArea_new start_va end_va ty perm = do {
     rg \<leftarrow> SimpleRange_new (addr_floor start_va) (addr_ceil end_va);
     Some \<lparr>vpn_range = rg, data_frames = [], map_type = ty, map_perm = perm\<rparr> }"

definition from_another :: "MapArea \<Rightarrow> MapArea" where
  "from_another a = \<lparr>vpn_range = vpn_range a, data_frames = [], map_type = map_type a, map_perm = map_perm a\<rparr>"

definition map_one :: "VirtPageNum \<Rightarrow> MapArea \<Rightarrow> PageTable \<Rightarrow> mm \<Rightarrow> (MapArea \<times> PageTable \<times> mm) option" where
  "map_one vpn a pt s = do {
     (ppn, a, s) \<leftarrow> (case map_type a of
         Identical \<Rightarrow> Some (vpn, a, s)
       | Framed \<Rightarrow> do {
           (frame, s) \<leftarrow> frame_alloc s;
           p \<leftarrow> frame;
           let old = map_of (data_frames a) vpn;
           s \<leftarrow> drop_frame old s;
           Some (p, a\<lparr>data_frames := bt_insert vpn p (data_frames a)\<rparr>, s) }
       | Linear off \<Rightarrow> do {
           ensure (vpn < push_bit 27 1);
           Some (nat ((int vpn + off) mod 2 ^ 64), a, s) });
     (pt, s) \<leftarrow> PageTable_map vpn ppn (map_perm a) pt s;
     Some (a, pt, s) }"

definition unmap_one :: "VirtPageNum \<Rightarrow> MapArea \<Rightarrow> PageTable \<Rightarrow> mm \<Rightarrow> (MapArea \<times> mm) option" where
  "unmap_one vpn a pt s = do {
     (a, s) \<leftarrow> (if map_type a = Framed then do {
         s \<leftarrow> drop_frame (map_of (data_frames a) vpn) s;
         Some (a\<lparr>data_frames := bt_remove vpn (data_frames a)\<rparr>, s) }
       else Some (a, s));
     m \<leftarrow> PageTable_unmap vpn pt (ram s);
     Some (a, s\<lparr>ram := m\<rparr>) }"

fun map_loop :: "VirtPageNum list \<Rightarrow> MapArea \<Rightarrow> PageTable \<Rightarrow> mm \<Rightarrow> (MapArea \<times> PageTable \<times> mm) option" where
  "map_loop [] a pt s = Some (a, pt, s)"
| "map_loop (v # vs) a pt s = do { (a, pt, s) \<leftarrow> map_one v a pt s; map_loop vs a pt s }"

definition MapArea_map :: "MapArea \<Rightarrow> PageTable \<Rightarrow> mm \<Rightarrow> (MapArea \<times> PageTable \<times> mm) option" where
  "MapArea_map a pt s = map_loop (range_pages (vpn_range a)) a pt s"

fun unmap_loop :: "VirtPageNum list \<Rightarrow> MapArea \<Rightarrow> PageTable \<Rightarrow> mm \<Rightarrow> (MapArea \<times> mm) option" where
  "unmap_loop [] a pt s = Some (a, s)"
| "unmap_loop (v # vs) a pt s = do { (a, s) \<leftarrow> unmap_one v a pt s; unmap_loop vs a pt s }"

definition MapArea_unmap :: "MapArea \<Rightarrow> PageTable \<Rightarrow> mm \<Rightarrow> (MapArea \<times> mm) option" where
  "MapArea_unmap a pt s = unmap_loop (range_pages (vpn_range a)) a pt s"

function copy_data_loop :: "(VirtPageNum \<times> PhysPageNum) list \<Rightarrow> bytes \<Rightarrow> nat \<Rightarrow> VirtPageNum \<Rightarrow> ram \<Rightarrow> ram option" where
  "copy_data_loop df data start vpn m = do {
     let src = slice start (min (length data) (start + PAGE_SIZE) - start) data;
     p \<leftarrow> map_of df vpn;
     pg \<leftarrow> m p;
     let m = m(p \<mapsto> splice 0 src pg);
     let start = start + PAGE_SIZE;
     if length data \<le> start then Some m else copy_data_loop df data start (step vpn) m }"
  by auto
termination
  by (relation "measure (\<lambda>(_, data, start, _). length data - start)") (auto simp: PAGE_SIZE_def)

declare copy_data_loop.simps [simp del]

definition copy_data :: "MapArea \<Rightarrow> bytes \<Rightarrow> ram \<Rightarrow> ram option" where
  "copy_data a data m = do {
     ensure (map_type a = Framed);
     copy_data_loop (data_frames a) data 0 (range_l (vpn_range a)) m }"

section \<open>Address spaces\<close>

record MemorySet =
  page_table :: PageTable
  areas :: "MapArea list"

definition new_bare :: "mm \<Rightarrow> (MemorySet \<times> mm) option" where
  "new_bare s = do { (pt, s) \<leftarrow> PageTable_new s; Some (\<lparr>page_table = pt, areas = []\<rparr>, s) }"

definition map_trampoline :: "nat \<Rightarrow> MemorySet \<Rightarrow> mm \<Rightarrow> (MemorySet \<times> mm) option" where
  "map_trampoline tramp ms s = do {
     vpn \<leftarrow> addr_page (VirtAddr_from TRAMPOLINE);
     ppn \<leftarrow> addr_page (PhysAddr_from tramp);
     (pt, s) \<leftarrow> PageTable_map vpn ppn (PTE_R OR PTE_X) (page_table ms) s;
     Some (ms\<lparr>page_table := pt\<rparr>, s) }"

definition push :: "MapArea \<Rightarrow> bytes option \<Rightarrow> MemorySet \<Rightarrow> mm \<Rightarrow> (MemorySet \<times> mm) option" where
  "push a data ms s = do {
     (a, pt, s) \<leftarrow> MapArea_map a (page_table ms) s;
     m \<leftarrow> (case data of None \<Rightarrow> Some (ram s) | Some d \<Rightarrow> copy_data a d (ram s));
     Some (\<lparr>page_table = pt, areas = areas ms @ [a]\<rparr>, s\<lparr>ram := m\<rparr>) }"

definition insert_framed_area :: "VirtAddr \<Rightarrow> VirtAddr \<Rightarrow> nat \<Rightarrow> MemorySet \<Rightarrow> mm \<Rightarrow> (MemorySet \<times> mm) option" where
  "insert_framed_area start_va end_va perm ms s = do {
     a \<leftarrow> MapArea_new start_va end_va Framed perm;
     push a None ms s }"

definition MemorySet_token :: "MemorySet \<Rightarrow> nat" where
  "MemorySet_token ms = PageTable_token (page_table ms)"

definition MemorySet_translate :: "MemorySet \<Rightarrow> VirtPageNum \<Rightarrow> ram \<Rightarrow> PageTableEntry option option" where
  "MemorySet_translate ms vpn m = translate (page_table ms) vpn m"

definition drop_area :: "MapArea \<Rightarrow> mm \<Rightarrow> mm option" where
  \<comment> \<open>dropping an area drops its frames, in the order of their keys\<close>
  "drop_area a s = dealloc_many frame_dealloc (map snd (data_frames a)) s"

fun drop_areas :: "MapArea list \<Rightarrow> mm \<Rightarrow> mm option" where
  "drop_areas [] s = Some s"
| "drop_areas (a # as) s = do { s \<leftarrow> drop_area a s; drop_areas as s }"

definition remove_area_with_start_vpn :: "VirtPageNum \<Rightarrow> MemorySet \<Rightarrow> mm \<Rightarrow> (MemorySet \<times> mm) option" where
  "remove_area_with_start_vpn start_vpn ms s =
     (case List.find (\<lambda>i. range_l (vpn_range (areas ms ! i)) = start_vpn) [0..<length (areas ms)] of
        None \<Rightarrow> Some (ms, s)
      | Some idx \<Rightarrow> do {
          (a, s) \<leftarrow> MapArea_unmap (areas ms ! idx) (page_table ms) s;
          s \<leftarrow> drop_area a s;
          Some (ms\<lparr>areas := take idx (areas ms) @ drop (Suc idx) (areas ms)\<rparr>, s) })"

definition recycle_data_pages :: "MemorySet \<Rightarrow> mm \<Rightarrow> (MemorySet \<times> mm) option" where
  "recycle_data_pages ms s = do { s \<leftarrow> drop_areas (areas ms) s; Some (ms\<lparr>areas := []\<rparr>, s) }"

definition MemorySet_drop :: "MemorySet \<Rightarrow> mm \<Rightarrow> mm option" where
  \<comment> \<open>the fields in the order of their declaration\<close>
  "MemorySet_drop ms s = do { s \<leftarrow> PageTable_drop (page_table ms) s; drop_areas (areas ms) s }"

definition MemorySet_map :: "VirtPageNum \<Rightarrow> PhysPageNum \<Rightarrow> nat \<Rightarrow> MemorySet \<Rightarrow> mm \<Rightarrow> (MemorySet \<times> mm) option" where
  "MemorySet_map vpn ppn perm ms s = do {
     (pt, s) \<leftarrow> PageTable_map vpn ppn perm (page_table ms) s;
     Some (ms\<lparr>page_table := pt\<rparr>, s) }"

definition MemorySet_unmap :: "VirtPageNum \<Rightarrow> MemorySet \<Rightarrow> ram \<Rightarrow> ram option" where
  "MemorySet_unmap vpn ms m = PageTable_unmap vpn (page_table ms) m"

fun copy_pages :: "VirtPageNum list \<Rightarrow> MemorySet \<Rightarrow> MemorySet \<Rightarrow> ram \<Rightarrow> ram option" where
  \<comment> \<open>the inner loop of \<open>from_existed_user\<close>\<close>
  "copy_pages [] src dst m = Some m"
| "copy_pages (v # vs) src dst m = do {
     spte \<leftarrow> MemorySet_translate src v m;
     spte \<leftarrow> spte;
     dpte \<leftarrow> MemorySet_translate dst v m;
     dpte \<leftarrow> dpte;
     spg \<leftarrow> m (pte_ppn spte);
     dpg \<leftarrow> m (pte_ppn dpte);
     ensure (length dpg = length spg);
     copy_pages vs src dst (m(pte_ppn dpte \<mapsto> spg)) }"

fun copy_areas :: "MapArea list \<Rightarrow> MemorySet \<Rightarrow> MemorySet \<Rightarrow> mm \<Rightarrow> (MemorySet \<times> mm) option" where
  "copy_areas [] src ms s = Some (ms, s)"
| "copy_areas (a # as) src ms s = do {
     (ms, s) \<leftarrow> push (from_another a) None ms s;
     m \<leftarrow> copy_pages (range_pages (vpn_range a)) src ms (ram s);
     copy_areas as src ms (s\<lparr>ram := m\<rparr>) }"

definition from_existed_user :: "nat \<Rightarrow> MemorySet \<Rightarrow> mm \<Rightarrow> (MemorySet \<times> mm) option" where
  "from_existed_user tramp user_space s = do {
     (ms, s) \<leftarrow> new_bare s;
     (ms, s) \<leftarrow> map_trampoline tramp ms s;
     copy_areas (areas user_space) user_space ms s }"

section \<open>The kernel space and programs\<close>

definition MMIO :: "(nat \<times> nat) list" where
  "MMIO = [(0x00100000, 0x2000), (0x02000000, 0x10000), (0x0C000000, 0x210000), (0x10000000, 0x9000)]"

fun push_sections :: "(nat \<times> nat \<times> nat) list \<Rightarrow> MemorySet \<Rightarrow> mm \<Rightarrow> (MemorySet \<times> mm) option" where
  \<comment> \<open>\<open>push\<close> of identically mapped areas, given by start, end and permission\<close>
  "push_sections [] ms s = Some (ms, s)"
| "push_sections ((l, r, perm) # rest) ms s = do {
     a \<leftarrow> MapArea_new (VirtAddr_from l) (VirtAddr_from r) Identical perm;
     (ms, s) \<leftarrow> push a None ms s;
     push_sections rest ms s }"

record linker_symbols =
  stext :: nat
  etext :: nat
  srodata :: nat
  erodata :: nat
  sdata :: nat
  edata :: nat
  sbss_with_stack :: nat
  ebss :: nat
  ekernel :: nat
  strampoline :: nat

definition new_kernel :: "linker_symbols \<Rightarrow> mm \<Rightarrow> (MemorySet \<times> mm) option" where
  "new_kernel syms s = do {
     (ms, s) \<leftarrow> new_bare s;
     (ms, s) \<leftarrow> map_trampoline (strampoline syms) ms s;
     push_sections ([(stext syms, etext syms, MAP_R OR MAP_X), (srodata syms, erodata syms, MAP_R),
       (sdata syms, edata syms, MAP_R OR MAP_W), (sbss_with_stack syms, ebss syms, MAP_R OR MAP_W),
       (ekernel syms, MEMORY_END, MAP_R OR MAP_W)] @ map (\<lambda>(start, sz). (start, start + sz, MAP_R OR MAP_W)) MMIO) ms s }"

record ProgramHeader =
  ph_is_load :: bool
  ph_virtual_addr :: nat
  ph_mem_size :: nat
  ph_is_read :: bool
  ph_is_write :: bool
  ph_is_execute :: bool
  ph_offset :: nat
  ph_file_size :: nat

record ElfFile =
  \<comment> \<open>what the ELF parser gives for the data of a program\<close>
  elf_magic :: bytes
  elf_headers :: "ProgramHeader list"
  elf_input :: bytes
  elf_entry_point :: nat

definition ph_perm :: "ProgramHeader \<Rightarrow> nat" where
  "ph_perm ph = MAP_U OR (if ph_is_read ph then MAP_R else 0) OR (if ph_is_write ph then MAP_W else 0) OR
     (if ph_is_execute ph then MAP_X else 0)"

fun load_segments :: "ProgramHeader list \<Rightarrow> bytes \<Rightarrow> VirtPageNum \<Rightarrow> MemorySet \<Rightarrow> mm \<Rightarrow> (VirtPageNum \<times> MemorySet \<times> mm) option" where
  "load_segments [] inp max_end ms s = Some (max_end, ms, s)"
| "load_segments (ph # phs) inp max_end ms s =
     (if ph_is_load ph then do {
        a \<leftarrow> MapArea_new (VirtAddr_from (ph_virtual_addr ph)) (VirtAddr_from (usize (ph_virtual_addr ph + ph_mem_size ph)))
          Framed (ph_perm ph);
        let fin = usize (ph_offset ph + ph_file_size ph);
        ensure (ph_offset ph \<le> fin \<and> fin \<le> length inp);
        (ms, s) \<leftarrow> push a (Some (slice (ph_offset ph) (fin - ph_offset ph) inp)) ms s;
        load_segments phs inp (range_r (vpn_range a)) ms s }
      else load_segments phs inp max_end ms s)"

definition from_elf :: "nat \<Rightarrow> ElfFile option \<Rightarrow> mm \<Rightarrow> ((MemorySet \<times> nat \<times> nat) \<times> mm) option" where
  \<comment> \<open>\<open>None\<close> when the parser refuses the data\<close>
  "from_elf tramp elf s = do {
     (ms, s) \<leftarrow> new_bare s;
     (ms, s) \<leftarrow> map_trampoline tramp ms s;
     elf \<leftarrow> elf;
     ensure (elf_magic elf = [0x7f, 0x45, 0x4c, 0x46]);
     (max_end_vpn, ms, s) \<leftarrow> load_segments (elf_headers elf) (elf_input elf) 0 ms s;
     let user_stack_bottom = usize (page_addr max_end_vpn + PAGE_SIZE);
     Some ((ms, user_stack_bottom, elf_entry_point elf), s) }"

end
