(* ===== verification/MemorySetProps.thy ===== *)
theory MemorySetProps
  imports MemorySet
begin

text \<open>
  What the operations on address spaces do: mapping an area of frames adds zeroed frames of its own
  for every page of its range, loading data stores it at the start of the range, dropping an address
  space gives back exactly the frames it owns, and forking one copies every page into new frames.
\<close>

section \<open>Allocating beside a page table\<close>

lemma pt_map_frame:
  assumes "pt_ok m pt" and "\<forall>g \<in> set (pt_frames pt). m' g = m g"
  shows "pt_map m' pt = pt_map m pt"
  unfolding pt_map_def pt_frame(2) [OF assms] ..

lemma pt_inv_alloc:
  assumes inv: "pt_inv base pt s" and room: "0 < mm_free base s"
  shows "\<exists>p s1. frame_alloc s = Some (Some p, s1) \<and> pt_inv base pt s1 \<and> pt_map (ram s1) pt = pt_map (ram s) pt \<and>
    p \<notin> mm_used base s \<and> mm_used base s1 = insert p (mm_used base s) \<and> ram s1 = (ram s)(p \<mapsto> replicate PAGE_SIZE 0) \<and>
    mm_free base s1 = mm_free base s - 1 \<and> p < 2 ^ 44"
proof -
  note D = pt_invD [OF inv]
  obtain p s1 where p: "frame_alloc s = Some (Some p, s1)" "mm_inv base s1" "p \<notin> mm_used base s"
    "mm_used base s1 = insert p (mm_used base s)" "ram s1 = (ram s)(p \<mapsto> replicate PAGE_SIZE 0)"
    "mm_free base s1 = mm_free base s - 1" "p < 2 ^ 44"
    using frame_alloc_spec [OF D(1) room] by blast
  have same: "\<forall>g \<in> set (pt_frames pt). ram s1 g = ram s g"
    using p(3,5) D(3) by auto
  have "pt_inv base pt s1"
    using pt_frame(1) [OF D(2) same] p(2,4) D by (auto simp: pt_inv_def)
  moreover have "pt_map (ram s1) pt = pt_map (ram s) pt"
    by (rule pt_map_frame [OF D(2) same])
  ultimately show ?thesis
    using p by blast
qed

text \<open>Writing data pages leaves the table alone.\<close>

lemma pt_inv_write:
  assumes inv: "pt_inv base pt s" and p: "p \<notin> set (pt_frames pt)" "length pg = PAGE_SIZE"
  shows "pt_inv base pt (s\<lparr>ram := (ram s)(p \<mapsto> pg)\<rparr>)" and "pt_map ((ram s)(p \<mapsto> pg)) pt = pt_map (ram s) pt"
proof -
  note D = pt_invD [OF inv]
  have same: "\<forall>g \<in> set (pt_frames pt). ((ram s)(p \<mapsto> pg)) g = ram s g"
    using p(1) by auto
  show "pt_map ((ram s)(p \<mapsto> pg)) pt = pt_map (ram s) pt"
    by (rule pt_map_frame [OF D(2) same])
  have "pt_ok ((ram s)(p \<mapsto> pg)) pt"
    by (rule pt_frame(1) [OF D(2) same])
  then show "pt_inv base pt (s\<lparr>ram := (ram s)(p \<mapsto> pg)\<rparr>)"
    using D mm_inv_write [OF D(1) p(2)] by (simp add: pt_inv_def)
qed

section \<open>Mapping an area of frames\<close>

definition area_pte :: "nat \<Rightarrow> PhysPageNum \<Rightarrow> PageTableEntry" where
  "area_pte perm p = PageTableEntry_new p (perm OR PTE_V)"

definition frames_mapped ::
    "nat \<Rightarrow> nat \<Rightarrow> (VirtPageNum \<times> PhysPageNum) list \<Rightarrow> nat \<Rightarrow> PageTable \<Rightarrow> mm \<Rightarrow> PageTable \<Rightarrow> mm \<Rightarrow> bool" where
  \<comment> \<open>the pages of \<open>vps\<close> are mapped to new zeroed frames, beside at most \<open>n\<close> frames taken in all\<close>
  "frames_mapped base perm vps n pt s pt' s' \<longleftrightarrow> pt_inv base pt' s' \<and> root_ppn pt' = root_ppn pt \<and>
     pt_map (ram s') pt' = pt_map (ram s) pt ++ map_of (map (\<lambda>(v, p). (v, area_pte perm p)) vps) \<and>
     distinct (map snd vps) \<and> set (map snd vps) \<inter> (mm_used base s \<union> set (pt_frames pt')) = {} \<and>
     set (pt_frames pt) \<subseteq> set (pt_frames pt') \<and> set (pt_frames pt') \<inter> mm_used base s = set (pt_frames pt) \<and>
     mm_used base s' = mm_used base s \<union> set (pt_frames pt') \<union> set (map snd vps) \<and>
     mm_free base s \<le> mm_free base s' + n \<and> (\<forall>p \<in> set (map snd vps). ram s' p = Some (replicate PAGE_SIZE 0) \<and> p < 2 ^ 44) \<and>
     (\<forall>x \<in> mm_used base s - set (pt_frames pt). ram s' x = ram s x)"

lemma frames_mappedD:
  assumes "frames_mapped base perm vps n pt s pt' s'"
  shows "pt_inv base pt' s'" and "root_ppn pt' = root_ppn pt"
    and "pt_map (ram s') pt' = pt_map (ram s) pt ++ map_of (map (\<lambda>(v, p). (v, area_pte perm p)) vps)"
    and "distinct (map snd vps)" and "set (map snd vps) \<inter> (mm_used base s \<union> set (pt_frames pt')) = {}"
    and "set (pt_frames pt) \<subseteq> set (pt_frames pt')" and "set (pt_frames pt') \<inter> mm_used base s = set (pt_frames pt)"
    and "mm_used base s' = mm_used base s \<union> set (pt_frames pt') \<union> set (map snd vps)"
    and "mm_free base s \<le> mm_free base s' + n"
    and "\<forall>p \<in> set (map snd vps). ram s' p = Some (replicate PAGE_SIZE 0) \<and> p < 2 ^ 44"
    and "\<forall>x \<in> mm_used base s - set (pt_frames pt). ram s' x = ram s x"
  using assms unfolding frames_mapped_def by - (elim conjE, assumption)+

lemma map_one_framed:
  assumes inv: "pt_inv base pt s" and a: "map_type a = Framed" "map_perm a < 2 ^ 8" "map_of (data_frames a) v = None"
    and v: "v < 2 ^ 27" "pt_map (ram s) pt v = None" and room: "3 \<le> mm_free base s"
  shows "\<exists>p pt' s'. map_one v a pt s = Some (a\<lparr>data_frames := bt_insert v p (data_frames a)\<rparr>, pt', s') \<and>
    frames_mapped base (map_perm a) [(v, p)] 3 pt s pt' s'"
proof -
  obtain p s1 where p: "frame_alloc s = Some (Some p, s1)" "pt_inv base pt s1" "pt_map (ram s1) pt = pt_map (ram s) pt"
    "p \<notin> mm_used base s" "mm_used base s1 = insert p (mm_used base s)" "ram s1 = (ram s)(p \<mapsto> replicate PAGE_SIZE 0)"
    "mm_free base s1 = mm_free base s - 1" "p < 2 ^ 44"
    using pt_inv_alloc [OF inv] room by auto
  have r: "2 \<le> mm_free base s1" and n: "pt_map (ram s1) pt v = None"
    using room p(3,7) v(2) by simp_all
  obtain pt' s' where m: "PageTable_map v p (map_perm a) pt s1 = Some (pt', s')" "pt_grows base 2 pt s1 pt' s'"
    "pt_map (ram s') pt' = (pt_map (ram s1) pt)(v \<mapsto> PageTableEntry_new p (map_perm a OR PTE_V))"
    using PageTable_map_spec(2) [OF p(2) v(1) p(8) a(2) r n] by blast
  have "map_one v a pt s = Some (a\<lparr>data_frames := bt_insert v p (data_frames a)\<rparr>, pt', s')"
    using a p(1) m(1) by (simp add: map_one_def drop_frame_def)
  moreover have pf: "p \<notin> set (pt_frames pt)" "set (pt_frames pt) \<subseteq> mm_used base s"
    using pt_invD(3) [OF inv] p(4) by auto
  moreover have "frames_mapped base (map_perm a) [(v, p)] 3 pt s pt' s'"
    using m(2,3) p pf unfolding frames_mapped_def pt_grows_def area_pte_def by auto
  ultimately show ?thesis
    by blast
qed

lemma frames_mapped_trans:
  assumes "frames_mapped base perm vps n pt s pt1 s1" and "frames_mapped base perm vps' k pt1 s1 pt2 s2"
    and "set (map fst vps) \<inter> set (map fst vps') = {}"
  shows "frames_mapped base perm (vps @ vps') (n + k) pt s pt2 s2"
proof -
  let ?e = "map (\<lambda>(v, p). (v, area_pte perm p))"
  have "dom (map_of (?e vps)) \<inter> dom (map_of (?e vps')) = {}"
    using assms(3) by (auto simp: dom_map_of_conv_image_fst image_image case_prod_unfold)
  then have e: "map_of (?e vps) ++ map_of (?e vps') = map_of (?e (vps @ vps'))"
    by (metis map_add_comm map_append map_of_append)
  note A = frames_mappedD [OF assms(1)] and B = frames_mappedD [OF assms(2)]
  let ?U = "mm_used base s" and ?U1 = "mm_used base s1" and ?F = "set (pt_frames pt)" and ?F1 = "set (pt_frames pt1)"
    and ?F2 = "set (pt_frames pt2)" and ?P = "set (map snd vps)" and ?P' = "set (map snd vps')"
  have sets: "set (map snd (vps @ vps')) \<inter> (?U \<union> ?F2) = {}" "?F2 \<inter> ?U = ?F" "?P \<inter> ?P' = {}"
    "mm_used base s2 = ?U \<union> ?F2 \<union> set (map snd (vps @ vps'))"
    using A(5-8) B(5-8) unfolding map_append set_append by blast+
  have "ram s2 x = ram s x" if "x \<in> ?U - ?F" for x
  proof -
    have "x \<in> ?U1 - ?F1"
      using that A(5,7,8) by blast
    then show ?thesis
      using A(11) B(11) that by simp
  qed
  moreover have "ram s2 p = ram s1 p" if "p \<in> ?P" for p
  proof -
    have "p \<in> ?U1 - ?F1"
      using that A(5,7,8) by blast
    then show ?thesis
      using B(11) by blast
  qed
  moreover have "distinct (map snd (vps @ vps'))"
    using A(4) B(4) sets(3) by simp
  moreover have "pt_map (ram s2) pt2 = pt_map (ram s) pt ++ map_of (?e (vps @ vps'))"
    unfolding B(3) A(3) e [symmetric] by (simp only: map_add_assoc)
  moreover have "?F \<subseteq> ?F2"
    using A(6) B(6) by blast
  ultimately show ?thesis
    unfolding frames_mapped_def using A(2,9,10) B(1,2,9,10) sets(1,2,4) by (simp add: ball_Un)
qed

lemma bt_insert_last: "\<forall>k \<in> set (map fst xs). k < v \<Longrightarrow> bt_insert v p xs = xs @ [(v, p)]"
  by (induction xs) auto

lemma map_loop_framed:
  assumes "pt_inv base pt s" and "map_type a = Framed" and "map_perm a < 2 ^ 8"
    and "sorted_wrt (<) (map fst (data_frames a) @ vs)" and "\<forall>v \<in> set vs. v < 2 ^ 27 \<and> pt_map (ram s) pt v = None"
    and "3 * length vs \<le> mm_free base s"
  shows "\<exists>ps pt' s'. length ps = length vs \<and>
    map_loop vs a pt s = Some (a\<lparr>data_frames := data_frames a @ zip vs ps\<rparr>, pt', s') \<and>
    frames_mapped base (map_perm a) (zip vs ps) (3 * length vs) pt s pt' s'"
  using assms
proof (induction vs arbitrary: a pt s)
  case Nil
  then show ?case
    using pt_invD(3) [OF Nil(1)] by (auto simp: frames_mapped_def)
next
  case (Cons v vs)
  have lt: "\<forall>k \<in> set (map fst (data_frames a)). k < v"
    using Cons.prems(4) by (auto simp: sorted_wrt_append)
  then have new: "map_of (data_frames a) v = None"
    by (force simp: map_of_eq_None_iff)
  have room: "3 \<le> mm_free base s"
    using Cons.prems(6) by simp
  have v: "v < 2 ^ 27" "pt_map (ram s) pt v = None"
    using Cons.prems(5) by simp_all
  obtain p pt1 s1 where o: "map_one v a pt s = Some (a\<lparr>data_frames := bt_insert v p (data_frames a)\<rparr>, pt1, s1)"
    "frames_mapped base (map_perm a) [(v, p)] 3 pt s pt1 s1"
    using map_one_framed [OF Cons.prems(1-3) new v room] by blast
  let ?a = "a\<lparr>data_frames := data_frames a @ [(v, p)]\<rparr>"
  have a1: "a\<lparr>data_frames := bt_insert v p (data_frames a)\<rparr> = ?a"
    using bt_insert_last [OF lt] by simp
  have vvs: "v \<notin> set vs"
    using Cons.prems(4) by (auto simp: sorted_wrt_append)
  have f1: "pt_inv base pt1 s1" "pt_map (ram s1) pt1 = (pt_map (ram s) pt)(v \<mapsto> area_pte (map_perm a) p)"
    "mm_free base s \<le> mm_free base s1 + 3"
    using o(2) by (auto simp: frames_mapped_def)
  have "\<forall>w \<in> set vs. w < 2 ^ 27 \<and> pt_map (ram s1) pt1 w = None"
    using Cons.prems(5) f1(2) vvs by auto
  moreover have "sorted_wrt (<) (map fst (data_frames ?a) @ vs)"
    using Cons.prems(4) by simp
  moreover have "3 * length vs \<le> mm_free base s1"
    using Cons.prems(6) f1(3) by simp
  ultimately obtain ps pt' s' where r: "length ps = length vs" "map_loop vs ?a pt1 s1 = Some (?a\<lparr>data_frames := data_frames ?a @ zip vs ps\<rparr>, pt', s')"
    "frames_mapped base (map_perm ?a) (zip vs ps) (3 * length vs) pt1 s1 pt' s'"
    using Cons.IH [OF f1(1), of ?a] Cons.prems(2,3) by auto
  have "set (map fst [(v, p)]) \<inter> set (map fst (zip vs ps)) = {}"
    using vvs by (auto dest: set_zip_leftD)
  with frames_mapped_trans [OF o(2), of "zip vs ps"] r(3)
  have "frames_mapped base (map_perm a) (zip (v # vs) (p # ps)) (3 * length (v # vs)) pt s pt' s'"
    by simp
  moreover have "map_loop (v # vs) a pt s = Some (a\<lparr>data_frames := data_frames a @ zip (v # vs) (p # ps)\<rparr>, pt', s')"
    using o(1) r(2) a1 by simp
  ultimately show ?case
    using r(1) by (intro exI [of _ "p # ps"] exI [of _ pt'] exI [of _ s']) simp
qed


section \<open>Loading data\<close>

lemma slice_min: "slice start (min (length data) (start + n) - start) data = slice start n data"
  by (simp add: slice_def min_def)

definition loaded :: "bytes \<Rightarrow> nat \<Rightarrow> PhysPageNum list \<Rightarrow> ram \<Rightarrow> ram" where
  \<comment> \<open>the pages from number \<open>k\<close> on, with the data written over them\<close>
  "loaded data k ps m x = (case List.find (\<lambda>j. ps ! j = x) [k..<length ps] of
      None \<Rightarrow> m x | Some j \<Rightarrow> map_option (splice 0 (slice (j * PAGE_SIZE) PAGE_SIZE data)) (m x))"

lemma find_nth:
  assumes "distinct ps" and "k \<le> j" and "j < length ps"
  shows "List.find (\<lambda>i. ps ! i = ps ! j) [k..<length ps] = Some j"
  using assms unfolding find_Some_iff
  by (intro exI [of _ "j - k"]) (auto simp: nth_eq_iff_index_eq)

lemma find_none: "x \<notin> set ps \<Longrightarrow> List.find (\<lambda>i. ps ! i = x) [k..<length ps] = None"
  by (auto simp: find_None_iff)

lemma loaded_nth:
  assumes "distinct ps" and "j < length ps"
  shows "loaded data 0 ps m (ps ! j) = map_option (splice 0 (slice (j * PAGE_SIZE) PAGE_SIZE data)) (m (ps ! j))"
  using find_nth [OF assms(1) _ assms(2), of 0] by (simp add: loaded_def)

lemma loaded_other: "x \<notin> set ps \<Longrightarrow> loaded data k ps m x = m x"
  by (simp add: loaded_def find_none)

lemma loaded_Suc:
  assumes "distinct ps" and "k < length ps" and "m (ps ! k) = Some pg"
  shows "loaded data (Suc k) ps (m(ps ! k \<mapsto> splice 0 (slice (k * PAGE_SIZE) PAGE_SIZE data) pg)) = loaded data k ps m"
proof
  fix x
  have u: "[k..<length ps] = k # [Suc k..<length ps]"
    using assms(2) by (rule upt_conv_Cons)
  show "loaded data (Suc k) ps (m(ps ! k \<mapsto> splice 0 (slice (k * PAGE_SIZE) PAGE_SIZE data) pg)) x = loaded data k ps m x"
  proof (cases "x = ps ! k")
    case True
    have "List.find (\<lambda>j. ps ! j = ps ! k) [Suc k..<length ps] = None"
      using assms(1,2) by (auto simp: find_None_iff nth_eq_iff_index_eq)
    then show ?thesis
      using True assms(3) by (simp add: loaded_def u)
  next
    case False
    then show ?thesis
      by (simp add: loaded_def u split: option.splits)
  qed
qed

lemma loaded_beyond:
  assumes "length data \<le> k * PAGE_SIZE"
  shows "loaded data k ps m = m"
proof
  fix x
  have "slice (j * PAGE_SIZE) PAGE_SIZE data = []" if "k \<le> j" for j
  proof -
    have "length data \<le> j * PAGE_SIZE"
      using assms mult_le_mono1 [OF that] by (rule le_trans)
    then show ?thesis
      by (simp add: slice_def)
  qed
  moreover have "k \<le> j" if "List.find (\<lambda>j. ps ! j = x) [k..<length ps] = Some j" for j
    using that by (auto simp: find_Some_iff)
  ultimately show "loaded data k ps m x = m x"
    by (cases "m x") (auto simp: loaded_def split: option.splits)
qed

lemma copy_data_loop_spec:
  assumes dist: "distinct ps" and df: "df = zip [l..<l + length ps] ps" and len: "length data \<le> length ps * PAGE_SIZE"
    and l: "l + length ps \<le> 2 ^ 27" and pages: "\<forall>p \<in> set ps. m p \<noteq> None" and k: "k < length ps"
  shows "copy_data_loop df data (k * PAGE_SIZE) (l + k) m = Some (loaded data k ps m)"
  using pages k
proof (induction "length ps - k" arbitrary: k m rule: less_induct)
  case less
  obtain pg where pg: "m (ps ! k) = Some pg"
    using less.prems(1) nth_mem [OF less.prems(2)] by auto
  have "map_of df (l + k) = Some (ps ! k)"
  proof -
    have "distinct (map fst df)"
      by (simp add: df)
    moreover have "(l + k, ps ! k) \<in> set df"
      using less.prems(2) by (auto simp: df set_zip intro!: exI [of _ k])
    ultimately show ?thesis
      by (rule map_of_is_SomeI)
  qed
  moreover have "step (l + k) = l + Suc k"
    using l less.prems(2) by (simp add: step_def usize_def)
  moreover define m1 where "m1 = m(ps ! k \<mapsto> splice 0 (slice (k * PAGE_SIZE) PAGE_SIZE data) pg)"
  ultimately have r: "copy_data_loop df data (k * PAGE_SIZE) (l + k) m =
      (if length data \<le> Suc k * PAGE_SIZE then Some m1 else copy_data_loop df data (Suc k * PAGE_SIZE) (l + Suc k) m1)"
    unfolding copy_data_loop.simps [of df data "k * PAGE_SIZE"] Let_def slice_min by (simp add: pg add.commute)
  have L: "loaded data (Suc k) ps m1 = loaded data k ps m"
    unfolding m1_def using dist less.prems(2) pg by (rule loaded_Suc)
  show ?case
  proof (cases "length data \<le> Suc k * PAGE_SIZE")
    case True
    then show ?thesis
      using r L loaded_beyond [OF True] by simp
  next
    case False
    have "Suc k < length ps"
    proof (rule ccontr)
      assume "\<not> Suc k < length ps"
      then have "length ps * PAGE_SIZE \<le> Suc k * PAGE_SIZE"
        by (intro mult_le_mono1) simp
      with False len show False by simp
    qed
    then have "copy_data_loop df data (Suc k * PAGE_SIZE) (l + Suc k) m1 = Some (loaded data (Suc k) ps m1)"
      using less.prems by (intro less.hyps) (auto simp: m1_def)
    then show ?thesis
      using r L False by simp
  qed
qed

text \<open>On zeroed pages the pages together hold the data followed by zeros.\<close>

lemma loaded_zero_pages:
  assumes dist: "distinct ps" and z: "\<forall>p \<in> set ps. m p = Some (replicate PAGE_SIZE 0)" and len: "length data \<le> length ps * PAGE_SIZE"
  shows "concat (map (\<lambda>p. the (loaded data 0 ps m p)) ps) = data @ replicate (length ps * PAGE_SIZE - length data) 0"
    and "\<forall>p \<in> set ps. \<exists>pg. loaded data 0 ps m p = Some pg \<and> length pg = PAGE_SIZE"
proof -
  let ?f = "\<lambda>p. the (loaded data 0 ps m p)" and ?pg = "\<lambda>j. splice 0 (slice (j * PAGE_SIZE) PAGE_SIZE data) (replicate PAGE_SIZE 0)"
  have at: "loaded data 0 ps m (ps ! j) = Some (?pg j)" if "j < length ps" for j
    using loaded_nth [OF dist that] z that by simp
  have lpg: "length (?pg j) = PAGE_SIZE" for j
    by simp
  show "\<forall>p \<in> set ps. \<exists>pg. loaded data 0 ps m p = Some pg \<and> length pg = PAGE_SIZE"
    using at lpg by (metis in_set_conv_nth)
  have all: "\<forall>p \<in> set ps. length (?f p) = PAGE_SIZE"
    using at lpg by (metis in_set_conv_nth option.sel)
  show "concat (map ?f ps) = data @ replicate (length ps * PAGE_SIZE - length data) 0"
  proof (rule nth_equalityI)
    show "length (concat (map ?f ps)) = length (data @ replicate (length ps * PAGE_SIZE - length data) 0)"
      using len by (simp add: length_concat_pieces [OF all])
  next
    fix i assume "i < length (concat (map ?f ps))"
    then have i: "i < length ps * PAGE_SIZE"
      by (simp add: length_concat_pieces [OF all])
    have q: "i div PAGE_SIZE < length ps" and r: "i mod PAGE_SIZE < PAGE_SIZE"
      using i by (simp_all add: div_less_iff_less_mult PAGE_SIZE_def)
    have e: "i div PAGE_SIZE * PAGE_SIZE + i mod PAGE_SIZE = i"
      by simp
    have "concat (map ?f ps) ! i = ?pg (i div PAGE_SIZE) ! (i mod PAGE_SIZE)"
      using nth_concat_pieces [OF all i] at [OF q] by simp
    also have "\<dots> = (if i < length data then data ! i else 0)"
    proof -
      let ?src = "slice (i div PAGE_SIZE * PAGE_SIZE) PAGE_SIZE data"
      have ls: "i mod PAGE_SIZE < length ?src \<longleftrightarrow> i < length data"
        using r e unfolding length_slice by linarith
      have "?pg (i div PAGE_SIZE) ! (i mod PAGE_SIZE) = (if i mod PAGE_SIZE < length ?src then ?src ! (i mod PAGE_SIZE) else 0)"
        using r by (subst nth_splice) simp_all
      moreover have "?src ! (i mod PAGE_SIZE) = data ! i" if "i < length data"
        using nth_slice [of "i mod PAGE_SIZE" PAGE_SIZE "i div PAGE_SIZE * PAGE_SIZE" data] r that unfolding e by simp
      ultimately show ?thesis
        using ls by simp
    qed
    finally show "concat (map ?f ps) ! i = (data @ replicate (length ps * PAGE_SIZE - length data) 0) ! i"
      using i by (simp add: nth_append)
  qed
qed


section \<open>The invariant of an address space\<close>

definition ms_owned :: "MemorySet \<Rightarrow> PhysPageNum list" where
  "ms_owned ms = pt_frames (page_table ms) @ concat (map (\<lambda>a. map snd (data_frames a)) (areas ms))"

definition area_ok :: "(VirtPageNum \<rightharpoonup> PageTableEntry) \<Rightarrow> MapArea \<Rightarrow> bool" where
  \<comment> \<open>the areas of user spaces, all of them framed\<close>
  "area_ok M a \<longleftrightarrow> range_l (vpn_range a) \<le> range_r (vpn_range a) \<and> range_r (vpn_range a) < 2 ^ 27 \<and>
     map_type a = Framed \<and> map_perm a < 2 ^ 8 \<and>
     map fst (data_frames a) = [range_l (vpn_range a)..<range_r (vpn_range a)] \<and>
     (\<forall>(v, p) \<in> set (data_frames a). M v = Some (area_pte (map_perm a) p) \<and> p < 2 ^ 44)"

definition ms_inv :: "nat \<Rightarrow> MemorySet \<Rightarrow> mm \<Rightarrow> bool" where
  "ms_inv base ms s \<longleftrightarrow> pt_inv base (page_table ms) s \<and> distinct (ms_owned ms) \<and> set (ms_owned ms) \<subseteq> mm_used base s \<and>
     (\<forall>a \<in> set (areas ms). area_ok (pt_map (ram s) (page_table ms)) a)"

lemma ms_invD:
  assumes "ms_inv base ms s"
  shows "pt_inv base (page_table ms) s" and "distinct (ms_owned ms)" and "set (ms_owned ms) \<subseteq> mm_used base s"
    and "\<And>a. a \<in> set (areas ms) \<Longrightarrow> area_ok (pt_map (ram s) (page_table ms)) a"
  using assms by (simp_all add: ms_inv_def)

definition vm_page :: "MemorySet \<Rightarrow> ram \<Rightarrow> VirtPageNum \<Rightarrow> page option" where
  \<comment> \<open>the page a program sees at a virtual page number\<close>
  "vm_page ms m v = do { b \<leftarrow> pt_map m (page_table ms) v; m (pte_ppn b) }"

lemma area_pte_ppn: "p < 2 ^ 44 \<Longrightarrow> perm < 2 ^ 8 \<Longrightarrow> pte_ppn (area_pte perm p) = p"
  using pte_of_new(1) or_V(1) by (simp add: area_pte_def)

lemma vm_page_area:
  assumes "area_ok (pt_map m (page_table ms)) a" and "(v, p) \<in> set (data_frames a)"
  shows "vm_page ms m v = m p"
proof -
  have "pt_map m (page_table ms) v = Some (area_pte (map_perm a) p)" "p < 2 ^ 44" "map_perm a < 2 ^ 8"
    using assms by (auto simp: area_ok_def)
  then show ?thesis
    by (simp add: vm_page_def area_pte_ppn)
qed

lemma area_ok_mono:
  assumes "area_ok M a" and "\<forall>(v, p) \<in> set (data_frames a). M' v = M v"
  shows "area_ok M' a"
proof -
  have "M' v = Some (area_pte (map_perm a) p) \<and> p < 2 ^ 44" if "(v, p) \<in> set (data_frames a)" for v p
    using assms that unfolding area_ok_def by fastforce
  then show ?thesis
    using assms(1) by (auto simp: area_ok_def)
qed

text \<open>Dropping an address space.\<close>

lemma frame_dealloc_many:
  assumes "mm_inv base s" and "distinct ps" and "set ps \<subseteq> mm_used base s"
  shows "\<exists>s'. dealloc_many frame_dealloc ps s = Some s' \<and> mm_inv base s' \<and> mm_used base s' = mm_used base s - set ps \<and> ram s' = ram s"
  using assms
proof (induction ps arbitrary: s)
  case Nil
  then show ?case by simp
next
  case (Cons p ps)
  then obtain s1 where s1: "frame_dealloc p s = Some s1" "mm_inv base s1" "mm_used base s1 = mm_used base s - {p}" "ram s1 = ram s"
    using frame_dealloc_spec [of base s p] by auto
  moreover have "set ps \<subseteq> mm_used base s1"
    using Cons.prems s1(3) by auto
  ultimately show ?case
    using Cons.IH [of s1] Cons.prems by (auto simp: Diff_insert2 [symmetric])
qed

lemma dealloc_many_append:
  "dealloc_many f (xs @ ys) s = do { s \<leftarrow> dealloc_many f xs s; dealloc_many f ys s }"
  by (induction xs arbitrary: s) (auto split: Option.bind_splits)

lemma drop_areas_eq: "drop_areas as s = dealloc_many frame_dealloc (concat (map (\<lambda>a. map snd (data_frames a)) as)) s"
  by (induction as arbitrary: s) (auto simp: dealloc_many_append drop_area_def split: Option.bind_splits)

lemma MemorySet_drop_eq: "MemorySet_drop ms s = dealloc_many frame_dealloc (ms_owned ms) s"
  by (simp add: MemorySet_drop_def ms_owned_def dealloc_many_append PageTable_drop_def drop_areas_eq)

section \<open>Adding an area\<close>

lemma push_framed_spec:
  assumes inv: "ms_inv base ms s" and a: "data_frames a = []" "map_type a = Framed" "map_perm a < 2 ^ 8"
    and rg: "range_l (vpn_range a) \<le> range_r (vpn_range a)" "range_r (vpn_range a) < 2 ^ 27"
    and free: "\<forall>v. range_contains (vpn_range a) v \<longrightarrow> pt_map (ram s) (page_table ms) v = None"
    and room: "3 * (range_r (vpn_range a) - range_l (vpn_range a)) \<le> mm_free base s"
    and data: "\<And>d. data = Some d \<Longrightarrow> length d \<le> (range_r (vpn_range a) - range_l (vpn_range a)) * PAGE_SIZE \<and> range_l (vpn_range a) < range_r (vpn_range a)"
  defines "vs \<equiv> [range_l (vpn_range a)..<range_r (vpn_range a)]"
  shows "\<exists>ms' s' ps. push a data ms s = Some (ms', s') \<and> ms_inv base ms' s' \<and> length ps = length vs \<and> distinct ps \<and>
    areas ms' = areas ms @ [a\<lparr>data_frames := zip vs ps\<rparr>] \<and> set ps \<inter> mm_used base s = {} \<and>
    mm_used base s \<subseteq> mm_used base s' \<and> set (ms_owned ms') \<inter> mm_used base s = set (ms_owned ms) \<and>
    mm_used base s' = mm_used base s \<union> set (ms_owned ms') \<and>
    pt_map (ram s') (page_table ms') = pt_map (ram s) (page_table ms) ++ map_of (map (\<lambda>(v, p). (v, area_pte (map_perm a) p)) (zip vs ps)) \<and>
    mm_free base s \<le> mm_free base s' + 3 * length vs \<and>
    concat (map (\<lambda>p. the (ram s' p)) ps) = (let d = (case data of None \<Rightarrow> [] | Some d \<Rightarrow> d) in d @ replicate (length vs * PAGE_SIZE - length d) 0) \<and>
    (\<forall>x \<in> mm_used base s - set (pt_frames (page_table ms)). ram s' x = ram s x)"
proof -
  note D = ms_invD [OF inv]
  let ?pt = "page_table ms"
  have vs: "range_pages (vpn_range a) = vs" "length vs = range_r (vpn_range a) - range_l (vpn_range a)"
    using range_pages_eq [OF rg(1)] rg(2) by (simp_all add: vs_def)
  have srt: "sorted_wrt (<) (map fst (data_frames a) @ vs)"
    by (simp add: a(1) vs_def)
  have vfree: "\<forall>v \<in> set vs. v < 2 ^ 27 \<and> pt_map (ram s) ?pt v = None"
    using free rg by (auto simp: vs_def range_contains_def)
  obtain ps pt1 s1 where l: "length ps = length vs" "map_loop vs a ?pt s = Some (a\<lparr>data_frames := data_frames a @ zip vs ps\<rparr>, pt1, s1)"
    and F: "frames_mapped base (map_perm a) (zip vs ps) (3 * length vs) ?pt s pt1 s1"
    using map_loop_framed [OF D(1) a(2,3) srt vfree] room vs(2) by auto
  note F = frames_mappedD [OF F]
  have ps: "map snd (zip vs ps) = ps" "map fst (zip vs ps) = vs"
    using l(1) by simp_all
  note F = F [unfolded ps(1)]
  let ?a = "a\<lparr>data_frames := zip vs ps\<rparr>" and ?d = "case data of None \<Rightarrow> [] | Some d \<Rightarrow> d"
  let ?m = "loaded ?d 0 ps (ram s1)" and ?ms = "\<lparr>page_table = pt1, areas = areas ms @ [?a]\<rparr>"
  have zero: "\<forall>p \<in> set ps. ram s1 p = Some (replicate PAGE_SIZE 0)"
    using F(10) by blast
  have dl: "length ?d \<le> length ps * PAGE_SIZE"
    using data l(1) vs(2) by (auto split: option.splits)
  note L = loaded_zero_pages [OF F(4) zero dl]
  have cp: "(case data of None \<Rightarrow> Some (ram s1) | Some d \<Rightarrow> copy_data ?a d (ram s1)) = Some ?m"
  proof (cases data)
    case None
    then show ?thesis
      by (simp add: loaded_beyond)
  next
    case (Some d)
    have "copy_data_loop (zip vs ps) d (0 * PAGE_SIZE) (range_l (vpn_range a) + 0) (ram s1) = Some (loaded d 0 ps (ram s1))"
    proof (rule copy_data_loop_spec [OF F(4)])
      show "zip vs ps = zip [range_l (vpn_range a)..<range_l (vpn_range a) + length ps] ps"
        using rg(1) l(1) by (simp add: vs_def)
      show "length d \<le> length ps * PAGE_SIZE" "0 < length ps"
        using data [OF Some] l(1) vs(2) by auto
      show "range_l (vpn_range a) + length ps \<le> 2 ^ 27"
        using rg l(1) vs(2) by simp
      show "\<forall>p \<in> set ps. ram s1 p \<noteq> None"
        using zero by simp
    qed
    then show ?thesis
      using Some a(2) by (simp add: copy_data_def)
  qed
  have p: "push a data ms s = Some (?ms, s1\<lparr>ram := ?m\<rparr>)"
    using l(2) vs(1) a(1) cp by (simp add: push_def MapArea_map_def)
  have same: "\<forall>g \<in> set (pt_frames pt1). ?m g = ram s1 g"
    using F(5) by (auto intro!: loaded_other)
  note P = pt_invD [OF F(1)]
  have inv1: "pt_inv base pt1 (s1\<lparr>ram := ?m\<rparr>)" and M: "pt_map ?m pt1 = pt_map (ram s1) pt1"
  proof -
    have "length pg = PAGE_SIZE" if "?m x = Some pg" for x pg
      using that L(2) P(1) loaded_other [of x ps ?d 0 "ram s1"] by (cases "x \<in> set ps") (auto simp: mm_inv_def)
    moreover have "ram s1 x \<noteq> None \<Longrightarrow> ?m x \<noteq> None" for x
      using L(2) loaded_other [of x ps ?d 0 "ram s1"] by (cases "x \<in> set ps") auto
    ultimately have "mm_inv base (s1\<lparr>ram := ?m\<rparr>)"
      using P(1) unfolding mm_inv_def by fastforce
    then show "pt_inv base pt1 (s1\<lparr>ram := ?m\<rparr>)"
      using P pt_frame(1) [OF P(2) same] by (simp add: pt_inv_def)
    show "pt_map ?m pt1 = pt_map (ram s1) pt1"
      by (rule pt_map_frame [OF P(2) same])
  qed
  have own: "ms_owned ?ms = pt_frames pt1 @ concat (map (\<lambda>a. map snd (data_frames a)) (areas ms)) @ ps"
    using l(1) by (simp add: ms_owned_def)
  have old: "set (concat (map (\<lambda>a. map snd (data_frames a)) (areas ms))) \<subseteq> mm_used base s - set (pt_frames ?pt)"
    using D(2,3) unfolding ms_owned_def distinct_append set_append by blast
  define dfs where "dfs = concat (map (\<lambda>a. map snd (data_frames a)) (areas ms))"
  note old = old [folded dfs_def] and own = own [folded dfs_def]
  have own0: "ms_owned ms = pt_frames ?pt @ dfs"
    by (simp add: ms_owned_def dfs_def)
  have d: "set (pt_frames pt1) \<inter> set dfs = {}" "set dfs \<inter> set ps = {}" "set (pt_frames pt1) \<inter> set ps = {}"
    using old F(5,7) by blast+
  have dist: "distinct (ms_owned ?ms)"
    using D(2) d F(4) P(4) unfolding own own0 by auto
  have sub: "set (ms_owned ?ms) \<inter> mm_used base s = set (ms_owned ms)"
    using F(5,7) old unfolding own own0 set_append by blast
  have used: "mm_used base s1 = mm_used base s \<union> set (ms_owned ?ms)"
    using F(8) old by (auto simp: own)
  have okn: "area_ok (pt_map ?m pt1) ?a"
  proof -
    have dv: "distinct (map fst (map (\<lambda>(v, p). (v, area_pte (map_perm a) p)) (zip vs ps)))"
      using l(1) by (simp add: vs_def comp_def case_prod_unfold)
    have "pt_map ?m pt1 v = Some (area_pte (map_perm a) q) \<and> q < 2 ^ 44" if "(v, q) \<in> set (zip vs ps)" for v q
    proof -
      have "(v, area_pte (map_perm a) q) \<in> set (map (\<lambda>(v, p). (v, area_pte (map_perm a) p)) (zip vs ps))"
        using that by force
      then have "map_of (map (\<lambda>(v, p). (v, area_pte (map_perm a) p)) (zip vs ps)) v = Some (area_pte (map_perm a) q)"
        using dv by (intro map_of_is_SomeI)
      then show ?thesis
        using F(3,10) M that by (auto simp: map_add_def dest: set_zip_rightD)
    qed
    then show ?thesis
      using rg a l(1) by (auto simp: area_ok_def vs_def)
  qed
  have oko: "area_ok (pt_map ?m pt1) b" if "b \<in> set (areas ms)" for b
  proof (rule area_ok_mono [OF D(4) [OF that]], clarify)
    fix v q assume vq: "(v, q) \<in> set (data_frames b)"
    then have "pt_map (ram s) ?pt v \<noteq> None"
      using D(4) [OF that] by (auto simp: area_ok_def)
    then have "v \<notin> set vs"
      using vfree by auto
    then have "map_of (map (\<lambda>(v, p). (v, area_pte (map_perm a) p)) (zip vs ps)) v = None"
      by (auto simp: map_of_eq_None_iff dest: set_zip_leftD)
    then show "pt_map ?m pt1 v = pt_map (ram s) ?pt v"
      using F(3) M by (simp add: map_add_def)
  qed
  have "ms_inv base ?ms (s1\<lparr>ram := ?m\<rparr>)"
    using inv1 dist used okn oko by (auto simp: ms_inv_def)
  moreover have "\<forall>x \<in> mm_used base s - set (pt_frames ?pt). ?m x = ram s x"
  proof
    fix x assume x: "x \<in> mm_used base s - set (pt_frames ?pt)"
    then have "x \<notin> set ps"
      using F(5) by blast
    then show "?m x = ram s x"
      using F(11) x by (simp add: loaded_other)
  qed
  ultimately show ?thesis
    using p l(1) F(3,4,5,9) M L(1) used sub
    by (intro exI [of _ ?ms] exI [of _ "s1\<lparr>ram := ?m\<rparr>"] exI [of _ ps]) (auto simp: Let_def)
qed

end
