(* ===== verification/Fork.thy ===== *)
theory Fork
  imports MemorySetProps
begin

text \<open>
  Forking an address space (\<open>MemorySet::from_existed_user\<close>): the child has the same areas, its own
  frames and the same bytes on every page; the parent is left as it was.
\<close>

section \<open>Address spaces beside each other\<close>

lemma ms_keep:
  assumes inv: "ms_inv base ms s" and mm: "mm_inv base s'" and own: "set (ms_owned ms) \<subseteq> mm_used base s'"
    and same: "\<forall>g \<in> set (pt_frames (page_table ms)). ram s' g = ram s g"
  shows "ms_inv base ms s'" and "pt_map (ram s') (page_table ms) = pt_map (ram s) (page_table ms)"
proof -
  note D = ms_invD [OF inv] and P = pt_invD [OF ms_invD(1) [OF inv]]
  show M: "pt_map (ram s') (page_table ms) = pt_map (ram s) (page_table ms)"
    by (rule pt_map_frame [OF P(2) same])
  have "pt_inv base (page_table ms) s'"
    using mm own P(4,5) pt_frame(1) [OF P(2) same] by (auto simp: pt_inv_def ms_owned_def)
  then show "ms_inv base ms s'"
    using D(2,4) own by (simp add: ms_inv_def M)
qed

lemma table_owned: "set (pt_frames (page_table ms)) \<subseteq> set (ms_owned ms)"
  by (simp add: ms_owned_def)

lemma area_frame_owned: "a \<in> set (areas ms) \<Longrightarrow> (v, p) \<in> set (data_frames a) \<Longrightarrow> p \<in> set (ms_owned ms)"
  by (force simp: ms_owned_def)

lemma area_frame_not_table:
  assumes "ms_inv base ms s" and "a \<in> set (areas ms)" and "(v, p) \<in> set (data_frames a)"
  shows "p \<notin> set (pt_frames (page_table ms))"
proof -
  have "p \<in> set (concat (map (\<lambda>a. map snd (data_frames a)) (areas ms)))"
    using assms(2,3) by force
  then show ?thesis
    using ms_invD(2) [OF assms(1)] unfolding ms_owned_def distinct_append by blast
qed

lemma area_pages:
  assumes "area_ok M a" and "range_contains (vpn_range a) v"
  obtains p where "(v, p) \<in> set (data_frames a)"
proof -
  have "v \<in> set (map fst (data_frames a))"
    using assms by (auto simp: area_ok_def range_contains_def)
  then show thesis
    using that by auto
qed

lemma range_contains_area: "area_ok M a \<Longrightarrow> (v, p) \<in> set (data_frames a) \<Longrightarrow> range_contains (vpn_range a) v"
proof -
  assume ok: "area_ok M a" and vp: "(v, p) \<in> set (data_frames a)"
  have "v \<in> set (map fst (data_frames a))"
    using vp by force
  moreover have "map fst (data_frames a) = [range_l (vpn_range a)..<range_r (vpn_range a)]"
    using ok by (simp add: area_ok_def)
  ultimately show ?thesis
    by (simp add: range_contains_def del: set_map)
qed

section \<open>Copying pages\<close>

lemma copy_pages_spec:
  assumes "pt_ok m (page_table src)" and "pt_ok m (page_table dst)" and "distinct vs"
    and "\<forall>v \<in> set vs. v < 2 ^ 27 \<and> pt_map m (page_table src) v = Some (sb v) \<and> pt_map m (page_table dst) v = Some (db v)"
    and "inj_on (\<lambda>v. pte_ppn (db v)) (set vs)"
    and "\<forall>v \<in> set vs. pte_ppn (db v) \<notin> set (pt_frames (page_table src)) \<union> set (pt_frames (page_table dst)) \<union>
      (\<lambda>v. pte_ppn (sb v)) ` set vs"
    and "\<forall>v \<in> set vs. \<exists>p q. m (pte_ppn (sb v)) = Some p \<and> m (pte_ppn (db v)) = Some q \<and> length p = PAGE_SIZE \<and> length q = PAGE_SIZE"
  shows "\<exists>m'. copy_pages vs src dst m = Some m' \<and> (\<forall>v \<in> set vs. m' (pte_ppn (db v)) = m (pte_ppn (sb v))) \<and>
    (\<forall>x. x \<notin> (\<lambda>v. pte_ppn (db v)) ` set vs \<longrightarrow> m' x = m x)"
  using assms
proof (induction vs arbitrary: m)
  case Nil
  then show ?case by simp
next
  case (Cons v vs)
  obtain p q where pq: "m (pte_ppn (sb v)) = Some p" "m (pte_ppn (db v)) = Some q" "length p = PAGE_SIZE" "length q = PAGE_SIZE"
    using Cons.prems(7) by auto
  have t: "translate (page_table src) v m = Some (Some (sb v))" "translate (page_table dst) v m = Some (Some (db v))"
    using translate_spec(1) [OF Cons.prems(1)] translate_spec(1) [OF Cons.prems(2)] Cons.prems(4) by auto
  define m1 where "m1 = m(pte_ppn (db v) \<mapsto> p)"
  have c: "copy_pages (v # vs) src dst m = copy_pages vs src dst m1"
    using t pq by (simp add: MemorySet_translate_def m1_def)
  have nt: "pte_ppn (db v) \<notin> set (pt_frames (page_table src))" "pte_ppn (db v) \<notin> set (pt_frames (page_table dst))"
    "pte_ppn (db v) \<notin> (\<lambda>v. pte_ppn (sb v)) ` set (v # vs)"
    using Cons.prems(6) by auto
  have same: "\<forall>g \<in> set (pt_frames (page_table src)). m1 g = m g" "\<forall>g \<in> set (pt_frames (page_table dst)). m1 g = m g"
    using nt by (auto simp: m1_def)
  note S = pt_frame(1) [OF Cons.prems(1) same(1)] pt_map_frame [OF Cons.prems(1) same(1)]
  note T = pt_frame(1) [OF Cons.prems(2) same(2)] pt_map_frame [OF Cons.prems(2) same(2)]
  have vv: "pte_ppn (db w) \<noteq> pte_ppn (db v)" if "w \<in> set vs" for w
    using Cons.prems(3,5) that by (auto simp: inj_on_def)
  have keep: "m1 (pte_ppn (sb w)) = m (pte_ppn (sb w))" if "w \<in> set (v # vs)" for w
    using imageI [OF that, of "\<lambda>v. pte_ppn (sb v)"] nt(3) unfolding m1_def by (metis fun_upd_other)
  have "\<exists>m'. copy_pages vs src dst m1 = Some m' \<and> (\<forall>w \<in> set vs. m' (pte_ppn (db w)) = m1 (pte_ppn (sb w))) \<and>
    (\<forall>x. x \<notin> (\<lambda>v. pte_ppn (db v)) ` set vs \<longrightarrow> m' x = m1 x)"
  proof (rule Cons.IH [OF S(1) T(1)])
    show "\<forall>w \<in> set vs. \<exists>p q. m1 (pte_ppn (sb w)) = Some p \<and> m1 (pte_ppn (db w)) = Some q \<and> length p = PAGE_SIZE \<and> length q = PAGE_SIZE"
      using Cons.prems(7) keep vv by (simp add: m1_def)
  qed (use Cons.prems(3-6) S(2) T(2) in auto)
  then obtain m' where m': "copy_pages vs src dst m1 = Some m'" "\<forall>w \<in> set vs. m' (pte_ppn (db w)) = m1 (pte_ppn (sb w))"
    "\<forall>x. x \<notin> (\<lambda>v. pte_ppn (db v)) ` set vs \<longrightarrow> m' x = m1 x"
    by blast
  have "m' (pte_ppn (db v)) = m (pte_ppn (sb v))"
  proof -
    have "pte_ppn (db v) \<notin> (\<lambda>v. pte_ppn (db v)) ` set vs"
      using vv by (metis imageE)
    then show ?thesis
      using m'(3) pq(1) by (simp add: m1_def)
  qed
  then show ?case
    using c m' keep by (intro exI [of _ m']) (auto simp: m1_def)
qed

section \<open>Copying one area\<close>

definition forks :: "nat \<Rightarrow> MemorySet \<Rightarrow> MemorySet \<Rightarrow> mm \<Rightarrow> MemorySet \<Rightarrow> mm \<Rightarrow> nat set \<Rightarrow> nat \<Rightarrow> bool" where
  \<comment> \<open>the pages \<open>V\<close> of the source have been copied into the child, with at most \<open>n\<close> frames\<close>
  "forks base src ms s ms' s' V n \<longleftrightarrow> ms_inv base src s' \<and> ms_inv base ms' s' \<and> mm_used base s \<subseteq> mm_used base s' \<and>
     set (ms_owned ms') \<inter> mm_used base s = set (ms_owned ms) \<and> mm_free base s \<le> mm_free base s' + n \<and>
     (\<forall>x \<in> mm_used base s - set (pt_frames (page_table ms)). ram s' x = ram s x) \<and>
     set (areas ms) \<subseteq> set (areas ms') \<and>
     (\<forall>v. v \<notin> V \<longrightarrow> pt_map (ram s') (page_table ms') v = pt_map (ram s) (page_table ms) v) \<and>
     (\<forall>v \<in> V. vm_page ms' (ram s') v = vm_page src (ram s) v \<and> (\<exists>a \<in> set (areas ms'). range_contains (vpn_range a) v))"


lemma area_okD:
  assumes "area_ok M a"
  shows "range_l (vpn_range a) \<le> range_r (vpn_range a)" and "range_r (vpn_range a) < 2 ^ 27" and "map_type a = Framed"
    and "map_perm a < 2 ^ 8" and "map fst (data_frames a) = [range_l (vpn_range a)..<range_r (vpn_range a)]"
    and "\<And>v p. (v, p) \<in> set (data_frames a) \<Longrightarrow> M v = Some (area_pte (map_perm a) p) \<and> p < 2 ^ 44"
    and "range_pages (vpn_range a) = [range_l (vpn_range a)..<range_r (vpn_range a)]"
    and "\<And>v. range_contains (vpn_range a) v \<longleftrightarrow> v \<in> set (range_pages (vpn_range a))"
proof -
  show r: "range_l (vpn_range a) \<le> range_r (vpn_range a)" "range_r (vpn_range a) < 2 ^ 27"
    using assms by (simp_all add: area_ok_def)
  show "range_pages (vpn_range a) = [range_l (vpn_range a)..<range_r (vpn_range a)]"
    using r by (intro range_pages_eq) simp_all
  then show "range_contains (vpn_range a) v \<longleftrightarrow> v \<in> set (range_pages (vpn_range a))" for v
    by (simp add: range_contains_def)
qed (use assms in \<open>auto simp: area_ok_def\<close>)

lemma inj_on_frames:
  assumes "distinct (map fst xs)" and "distinct (map snd xs)" and "\<forall>(v, p) \<in> set xs. f v = p"
  shows "inj_on f (set (map fst xs))"
proof (rule inj_onI)
  fix v w assume "v \<in> set (map fst xs)" "w \<in> set (map fst xs)" and fvw: "f v = f w"
  then obtain p q where vp: "(v, p) \<in> set xs" "(w, q) \<in> set xs"
    by auto
  then have "f v = p" "f w = q"
    using bspec [OF assms(3) vp(1)] bspec [OF assms(3) vp(2)] by simp_all
  then have "p = q"
    using fvw by simp
  moreover have "inj_on snd (set xs)"
    using assms(2) by (simp add: distinct_map)
  ultimately have "(v, p) = (w, q)"
    using vp inj_onD [of snd "set xs" "(v, p)" "(w, q)"] by simp
  then show "v = w"
    by simp
qed

lemma copy_area_spec:
  assumes src: "ms_inv base src s" and ms: "ms_inv base ms s" and disj: "set (ms_owned src) \<inter> set (ms_owned ms) = {}"
    and a: "a \<in> set (areas src)" and free: "\<forall>v. range_contains (vpn_range a) v \<longrightarrow> pt_map (ram s) (page_table ms) v = None"
    and room: "3 * length (range_pages (vpn_range a)) \<le> mm_free base s"
  shows "\<exists>ms1 s1 m. push (from_another a) None ms s = Some (ms1, s1) \<and>
    copy_pages (range_pages (vpn_range a)) src ms1 (ram s1) = Some m \<and>
    forks base src ms s ms1 (s1\<lparr>ram := m\<rparr>) (set (range_pages (vpn_range a))) (3 * length (range_pages (vpn_range a)))"
proof -
  note S = ms_invD [OF src] and SP = pt_invD [OF ms_invD(1) [OF src]]
  note A = area_okD [OF S(4) [OF a]]
  let ?b = "from_another a" and ?vs = "range_pages (vpn_range a)"
  have b: "data_frames ?b = []" "map_type ?b = Framed" "map_perm ?b < 2 ^ 8" "vpn_range ?b = vpn_range a" "map_perm ?b = map_perm a"
    using A(3,4) by (simp_all add: from_another_def)
  have len: "length ?vs = range_r (vpn_range a) - range_l (vpn_range a)"
    by (simp add: A(7))
  obtain ms1 s1 ps where p: "push ?b None ms s = Some (ms1, s1)" "ms_inv base ms1 s1" "length ps = length ?vs" "distinct ps"
    "areas ms1 = areas ms @ [?b\<lparr>data_frames := zip ?vs ps\<rparr>]" "set ps \<inter> mm_used base s = {}"
    "mm_used base s \<subseteq> mm_used base s1" "set (ms_owned ms1) \<inter> mm_used base s = set (ms_owned ms)"
    "pt_map (ram s1) (page_table ms1) = pt_map (ram s) (page_table ms) ++ map_of (map (\<lambda>(v, p). (v, area_pte (map_perm a) p)) (zip ?vs ps))"
    "mm_free base s \<le> mm_free base s1 + 3 * length ?vs"
    "\<forall>x \<in> mm_used base s - set (pt_frames (page_table ms)). ram s1 x = ram s x"
  proof -
    have "range_l (vpn_range ?b) \<le> range_r (vpn_range ?b)" "range_r (vpn_range ?b) < 2 ^ 27"
      "\<forall>v. range_contains (vpn_range ?b) v \<longrightarrow> pt_map (ram s) (page_table ms) v = None"
      "3 * (range_r (vpn_range ?b) - range_l (vpn_range ?b)) \<le> mm_free base s"
      using A(1,2) free room len by (simp_all add: b(4))
    from push_framed_spec [OF ms b(1-3) this, of None, unfolded b(4,5), folded A(7)] show ?thesis
      by (metis (no_types, lifting) option.distinct(1) that)
  qed
  let ?nb = "?b\<lparr>data_frames := zip ?vs ps\<rparr>"
  have nb: "?nb \<in> set (areas ms1)"
    using p(5) by simp
  note N = ms_invD [OF p(2)] and NP = pt_invD [OF ms_invD(1) [OF p(2)]]
  note B = area_okD [OF N(4) [OF nb]]
  have nbf: "data_frames ?nb = zip ?vs ps" "map_perm ?nb = map_perm a"
    by (simp_all add: b(5))
  note B4 = B(4) [unfolded nbf(2)] and B6 = B(6) [unfolded nbf]
  have srcU: "set (ms_owned src) \<subseteq> mm_used base s - set (pt_frames (page_table ms))"
    using S(3) disj table_owned [of ms] by blast
  have src1: "ms_inv base src s1" "pt_map (ram s1) (page_table src) = pt_map (ram s) (page_table src)"
  proof -
    have "\<forall>g \<in> set (pt_frames (page_table src)). ram s1 g = ram s g"
      using srcU p(11) table_owned [of src] by blast
    moreover have "set (ms_owned src) \<subseteq> mm_used base s1"
      using srcU p(7) by blast
    ultimately show "ms_inv base src s1" "pt_map (ram s1) (page_table src) = pt_map (ram s) (page_table src)"
      using ms_keep [OF src NP(1)] by blast+
  qed
  note S1 = ms_invD [OF src1(1)] and SP1 = pt_invD [OF ms_invD(1) [OF src1(1)]]
  define sb where "sb v = the (pt_map (ram s1) (page_table src) v)" for v
  define db where "db v = the (pt_map (ram s1) (page_table ms1) v)" for v
  have sv: "pt_map (ram s1) (page_table src) v = Some (sb v) \<and> (v, pte_ppn (sb v)) \<in> set (data_frames a)" if "v \<in> set ?vs" for v
  proof -
    have "range_contains (vpn_range a) v"
      using that A(8) by simp
    then obtain q where q: "(v, q) \<in> set (data_frames a)"
      by (rule area_pages [OF S(4) [OF a]])
    then show ?thesis
      using A(4) A(6) [OF q] src1(2) by (simp add: sb_def area_pte_ppn)
  qed
  have dv: "pt_map (ram s1) (page_table ms1) v = Some (db v) \<and> (v, pte_ppn (db v)) \<in> set (zip ?vs ps)" if "v \<in> set ?vs" for v
  proof -
    have "v \<in> set (map fst (zip ?vs ps))"
      using that p(3) by simp
    then obtain q where q: "(v, q) \<in> set (zip ?vs ps)"
      by auto
    note e = B6 [OF q]
    have "db v = area_pte (map_perm a) q"
      using e by (simp add: db_def)
    then show ?thesis
      using e q area_pte_ppn [of q "map_perm a"] B4 by metis
  qed
  have dps: "(\<lambda>v. pte_ppn (db v)) ` set ?vs \<subseteq> set ps"
    using dv by (auto dest: set_zip_rightD)
  have psn: "set ps \<inter> (set (ms_owned src) \<union> set (pt_frames (page_table ms1))) = {}"
  proof -
    have "q \<notin> set (pt_frames (page_table ms1))" if "q \<in> set ps" for q
    proof -
      have "q \<in> set (map snd (zip ?vs ps))"
        using that p(3) by simp
      then obtain w where "(w, q) \<in> set (data_frames ?nb)"
        by auto
      then show ?thesis
        using area_frame_not_table [OF p(2) nb] by blast
    qed
    then show ?thesis
      using p(6) S(3) by blast
  qed
  have page1: "\<exists>pg. ram s1 x = Some pg \<and> length pg = PAGE_SIZE" if "x \<in> mm_used base s1" for x
    using mm_used_page [OF NP(1) that] by metis
  have sown: "pte_ppn (sb v) \<in> set (ms_owned src)" if "v \<in> set ?vs" for v
    using sv [OF that] area_frame_owned [OF a] by blast
  have dused: "pte_ppn (db v) \<in> mm_used base s1" if "v \<in> set ?vs" for v
    using area_frame_owned [OF nb, of v "pte_ppn (db v)"] dv [OF that] N(3) by auto
  have "\<exists>m. copy_pages ?vs src ms1 (ram s1) = Some m \<and> (\<forall>v \<in> set ?vs. m (pte_ppn (db v)) = ram s1 (pte_ppn (sb v))) \<and>
    (\<forall>x. x \<notin> (\<lambda>v. pte_ppn (db v)) ` set ?vs \<longrightarrow> m x = ram s1 x)"
  proof (rule copy_pages_spec [OF SP1(2) NP(2)])
    show "distinct ?vs"
      by (simp add: A(7))
    show "\<forall>v \<in> set ?vs. v < 2 ^ 27 \<and> pt_map (ram s1) (page_table src) v = Some (sb v) \<and> pt_map (ram s1) (page_table ms1) v = Some (db v)"
      using sv dv A(2) by (auto simp: A(7))
    show "inj_on (\<lambda>v. pte_ppn (db v)) (set ?vs)"
    proof -
      have "pte_ppn (db v) = q" if "(v, q) \<in> set (zip ?vs ps)" for v q
        using B6 [OF that] area_pte_ppn [of q "map_perm a"] B4 by (simp add: db_def)
      then have "\<forall>(v, q) \<in> set (zip ?vs ps). pte_ppn (db v) = q"
        by blast
      then show ?thesis
        using inj_on_frames [of "zip ?vs ps"] p(3,4) by (simp add: A(7))
    qed
    show "\<forall>v \<in> set ?vs. pte_ppn (db v) \<notin> set (pt_frames (page_table src)) \<union> set (pt_frames (page_table ms1)) \<union> (\<lambda>v. pte_ppn (sb v)) ` set ?vs"
    proof
      fix v assume "v \<in> set ?vs"
      then have "pte_ppn (db v) \<in> set ps"
        using dps by blast
      then have "pte_ppn (db v) \<notin> set (ms_owned src)" "pte_ppn (db v) \<notin> set (pt_frames (page_table ms1))"
        using psn by blast+
      moreover have "(\<lambda>v. pte_ppn (sb v)) ` set ?vs \<subseteq> set (ms_owned src)"
        using sown by (intro image_subsetI)
      ultimately show "pte_ppn (db v) \<notin> set (pt_frames (page_table src)) \<union> set (pt_frames (page_table ms1)) \<union> (\<lambda>v. pte_ppn (sb v)) ` set ?vs"
        using table_owned [of src] by blast
    qed
    show "\<forall>v \<in> set ?vs. \<exists>p q. ram s1 (pte_ppn (sb v)) = Some p \<and> ram s1 (pte_ppn (db v)) = Some q \<and> length p = PAGE_SIZE \<and> length q = PAGE_SIZE"
    proof
      fix v assume v: "v \<in> set ?vs"
      have "pte_ppn (sb v) \<in> mm_used base s1"
        using sown [OF v] S1(3) by (rule set_rev_mp)
      then show "\<exists>p q. ram s1 (pte_ppn (sb v)) = Some p \<and> ram s1 (pte_ppn (db v)) = Some q \<and> length p = PAGE_SIZE \<and> length q = PAGE_SIZE"
        using page1 [OF dused [OF v]] page1 by metis
    qed
  qed
  then obtain m where m: "copy_pages ?vs src ms1 (ram s1) = Some m" "\<forall>v \<in> set ?vs. m (pte_ppn (db v)) = ram s1 (pte_ppn (sb v))"
    "\<forall>x. x \<notin> (\<lambda>v. pte_ppn (db v)) ` set ?vs \<longrightarrow> m x = ram s1 x"
    by blast
  let ?s2 = "s1\<lparr>ram := m\<rparr>"
  have mm2: "mm_inv base ?s2"
  proof -
    have pg: "(\<exists>pg. m x = Some pg \<and> length pg = PAGE_SIZE) \<or> m x = ram s1 x" for x
    proof (cases "x \<in> (\<lambda>v. pte_ppn (db v)) ` set ?vs")
      case True
      then obtain v where v: "v \<in> set ?vs" "x = pte_ppn (db v)"
        by blast
      have "pte_ppn (sb v) \<in> mm_used base s1"
        using sown [OF v(1)] S1(3) by (rule set_rev_mp)
      then show ?thesis
        using page1 m(2) v by simp
    qed (use m(3) in blast)
    have "length y = PAGE_SIZE" if "m x = Some y" for x y
      using pg [of x] that NP(1) by (auto simp: mm_inv_def)
    moreover have "\<exists>y. m x = Some y" if "x \<in> fa_pool base (falloc s1)" for x
      using pg [of x] that NP(1) by (auto simp: mm_inv_def)
    ultimately show ?thesis
      using NP(1) by (simp add: mm_inv_def)
  qed
  have out: "m x = ram s1 x" if "x \<notin> set ps" for x
    using that m(3) dps by blast
  have ms2: "ms_inv base ms1 ?s2" "pt_map m (page_table ms1) = pt_map (ram s1) (page_table ms1)"
    using ms_keep [OF p(2) mm2] N(3) out psn by auto
  have src2: "ms_inv base src ?s2" "pt_map m (page_table src) = pt_map (ram s1) (page_table src)"
    using ms_keep [OF src1(1) mm2] S1(3) out psn table_owned [of src] by auto
  have copied: "vm_page ms1 m v = vm_page src (ram s) v" if "v \<in> set ?vs" for v
  proof -
    have "ram s1 (pte_ppn (sb v)) = ram s (pte_ppn (sb v))"
      using sown [OF that] srcU p(11) by blast
    then show ?thesis
      using sv [OF that] dv [OF that] m(2) that ms2(2) src1(2) by (simp add: vm_page_def)
  qed
  have others: "pt_map m (page_table ms1) v = pt_map (ram s) (page_table ms) v" if "v \<notin> set ?vs" for v
  proof -
    have "map_of (map (\<lambda>(v, p). (v, area_pte (map_perm a) p)) (zip ?vs ps)) v = None"
      using that by (auto simp: map_of_eq_None_iff dest: set_zip_leftD)
    then show ?thesis
      using ms2(2) p(9) by (simp add: map_add_def)
  qed
  have "\<forall>x \<in> mm_used base s - set (pt_frames (page_table ms)). m x = ram s x"
  proof
    fix x assume x: "x \<in> mm_used base s - set (pt_frames (page_table ms))"
    then have "x \<notin> set ps"
      using p(6) by blast
    then show "m x = ram s x"
      using out p(11) x by simp
  qed
  moreover have "\<forall>v \<in> set ?vs. \<exists>a \<in> set (areas ms1). range_contains (vpn_range a) v"
    using nb A(8) b(4) by (intro ballI bexI [of _ ?nb]) simp_all
  ultimately have "forks base src ms s ms1 ?s2 (set ?vs) (3 * length ?vs)"
    using ms2 src2 p(5,7,8,10) copied others unfolding forks_def by (simp add: subset_insertI)
  then show ?thesis
    using p(1) m(1) by blast
qed


section \<open>Copying all areas\<close>

lemma forks_trans:
  assumes f1: "forks base src ms s ms1 s1 V n" and f2: "forks base src ms1 s1 ms2 s2 W k" and VW: "V \<inter> W = {}"
    and src: "\<forall>v \<in> W. vm_page src (ram s1) v = vm_page src (ram s) v"
  shows "forks base src ms s ms2 s2 (V \<union> W) (n + k)"
proof -
  note A = f1 [unfolded forks_def] and B = f2 [unfolded forks_def]
  have i1: "ms_inv base ms1 s1"
    using A by simp
  have U: "mm_used base s \<subseteq> mm_used base s1" "mm_used base s1 \<subseteq> mm_used base s2"
    and O: "set (ms_owned ms1) \<inter> mm_used base s = set (ms_owned ms)" "set (ms_owned ms2) \<inter> mm_used base s1 = set (ms_owned ms1)"
    using A B by simp_all
  have own: "set (ms_owned ms2) \<inter> mm_used base s = set (ms_owned ms)"
    using U O by blast
  have pages: "ram s2 x = ram s x" if x: "x \<in> mm_used base s - set (pt_frames (page_table ms))" for x
  proof -
    have "x \<notin> set (pt_frames (page_table ms1)) \<or> x \<in> set (ms_owned ms)"
      using x O(1) table_owned [of ms1] by blast
    moreover have "x \<notin> set (pt_frames (page_table ms1))" if "x \<in> set (ms_owned ms)"
    proof -
      have "x \<in> set (concat (map (\<lambda>a. map snd (data_frames a)) (areas ms)))"
        using that x by (auto simp: ms_owned_def)
      then obtain a w where "a \<in> set (areas ms)" "(w, x) \<in> set (data_frames a)"
        by auto
      then show ?thesis
        using A area_frame_not_table [OF i1, of a w x] by blast
    qed
    ultimately have "x \<in> mm_used base s1 - set (pt_frames (page_table ms1))"
      using x U by blast
    then show ?thesis
      using A B x by simp
  qed
  have copied: "vm_page ms2 (ram s2) v = vm_page src (ram s) v" if v: "v \<in> V" for v
  proof -
    have "v \<notin> W" and e: "vm_page ms1 (ram s1) v = vm_page src (ram s) v"
      using v VW A by auto
    then have M: "pt_map (ram s2) (page_table ms2) v = pt_map (ram s1) (page_table ms1) v"
      using B by simp
    obtain a where a: "a \<in> set (areas ms1)" "range_contains (vpn_range a) v"
      using A v by blast
    note ok = ms_invD(4) [OF i1 a(1)]
    obtain p where p: "(v, p) \<in> set (data_frames a)"
      by (rule area_pages [OF ok a(2)])
    have "p \<in> mm_used base s1 - set (pt_frames (page_table ms1))"
      using area_frame_owned [OF a(1) p] ms_invD(3) [OF i1] area_frame_not_table [OF i1 a(1) p] by blast
    then have "ram s2 p = ram s1 p"
      using B by simp
    moreover have "vm_page ms1 (ram s1) v = ram s1 p" "pt_map (ram s1) (page_table ms1) v = Some (area_pte (map_perm a) p)"
      "pte_ppn (area_pte (map_perm a) p) = p"
      using vm_page_area [OF ok p] area_okD(6) [OF ok p] area_okD(4) [OF ok] by (simp_all add: area_pte_ppn)
    ultimately show ?thesis
      using M e by (simp add: vm_page_def)
  qed
  have sub: "set (areas ms1) \<subseteq> set (areas ms2)" "set (areas ms) \<subseteq> set (areas ms1)"
    using A B by simp_all
  have have_area: "\<exists>a \<in> set (areas ms2). range_contains (vpn_range a) v" if "v \<in> V \<union> W" for v
    using that A B sub(1) by blast
  have "\<forall>v. v \<notin> V \<union> W \<longrightarrow> pt_map (ram s2) (page_table ms2) v = pt_map (ram s) (page_table ms) v"
    using A B by simp
  moreover have "vm_page ms2 (ram s2) v = vm_page src (ram s) v" if "v \<in> W" for v
    using B src that by simp
  ultimately show ?thesis
    unfolding forks_def using A B U own pages copied have_area sub by auto
qed

lemma copy_areas_spec:
  assumes "ms_inv base src s" and "ms_inv base ms s" and "set (ms_owned src) \<inter> set (ms_owned ms) = {}"
    and "set as \<subseteq> set (areas src)" and "distinct (concat (map (\<lambda>a. range_pages (vpn_range a)) as))"
    and "\<forall>a \<in> set as. \<forall>v. range_contains (vpn_range a) v \<longrightarrow> pt_map (ram s) (page_table ms) v = None"
    and "3 * length (concat (map (\<lambda>a. range_pages (vpn_range a)) as)) \<le> mm_free base s"
  shows "\<exists>ms' s'. copy_areas as src ms s = Some (ms', s') \<and>
    forks base src ms s ms' s' (set (concat (map (\<lambda>a. range_pages (vpn_range a)) as))) (3 * length (concat (map (\<lambda>a. range_pages (vpn_range a)) as)))"
  using assms
proof (induction as arbitrary: ms s)
  case Nil
  then show ?case
    using ms_invD(3) [OF Nil.prems(2)] by (auto simp: forks_def)
next
  case (Cons a as)
  let ?vs = "range_pages (vpn_range a)" and ?ws = "concat (map (\<lambda>a. range_pages (vpn_range a)) as)"
  have a: "a \<in> set (areas src)"
    using Cons.prems(4) by simp
  note ok = area_okD [OF ms_invD(4) [OF Cons.prems(1) a]]
  have free: "\<forall>v. range_contains (vpn_range a) v \<longrightarrow> pt_map (ram s) (page_table ms) v = None"
    and room: "3 * length ?vs \<le> mm_free base s"
    using Cons.prems(6,7) by auto
  obtain ms1 s1 m where c: "push (from_another a) None ms s = Some (ms1, s1)" "copy_pages ?vs src ms1 (ram s1) = Some m"
    "forks base src ms s ms1 (s1\<lparr>ram := m\<rparr>) (set ?vs) (3 * length ?vs)"
    using copy_area_spec [OF Cons.prems(1-3) a free room] by blast
  let ?s2 = "s1\<lparr>ram := m\<rparr>"
  note F = c(3) [unfolded forks_def]
  have i: "ms_inv base src ?s2" "ms_inv base ms1 ?s2"
    using F by simp_all
  have d1: "set (ms_owned src) \<inter> set (ms_owned ms1) = {}"
    using F Cons.prems(3) ms_invD(3) [OF Cons.prems(1)] by blast
  have disj: "set ?vs \<inter> set ?ws = {}"
    using Cons.prems(5) by auto
  have free1: "\<forall>b \<in> set as. \<forall>v. range_contains (vpn_range b) v \<longrightarrow> pt_map (ram ?s2) (page_table ms1) v = None"
  proof (intro ballI allI impI)
    fix b v assume b: "b \<in> set as" and v: "range_contains (vpn_range b) v"
    have "b \<in> set (areas src)"
      using b Cons.prems(4) by auto
    then have "v \<in> set ?ws"
      using v b area_okD(8) [OF ms_invD(4) [OF Cons.prems(1)]] by auto
    then have "v \<notin> set ?vs"
      using disj by blast
    then show "pt_map (ram ?s2) (page_table ms1) v = None"
      using F Cons.prems(6) b v by simp
  qed
  have room1: "3 * length ?ws \<le> mm_free base ?s2"
    using F Cons.prems(7) by simp
  have "set as \<subseteq> set (areas src)" "distinct ?ws"
    using Cons.prems(4,5) by auto
  then obtain ms' s' where r: "copy_areas as src ms1 ?s2 = Some (ms', s')" "forks base src ms1 ?s2 ms' s' (set ?ws) (3 * length ?ws)"
    using Cons.IH [OF i d1 _ _ free1 room1] by blast
  have "vm_page src m v = vm_page src (ram s) v" if "v \<in> set ?ws" for v
  proof -
    obtain b where b: "b \<in> set as" "v \<in> set (range_pages (vpn_range b))"
      using \<open>v \<in> set ?ws\<close> by auto
    then have bs: "b \<in> set (areas src)"
      using Cons.prems(4) by auto
    note okb = ms_invD(4) [OF Cons.prems(1) bs] and okb2 = ms_invD(4) [OF i(1) bs]
    obtain p where p: "(v, p) \<in> set (data_frames b)"
      using area_pages [OF okb] area_okD(8) [OF okb] b(2) by blast
    have "p \<in> mm_used base s - set (pt_frames (page_table ms))"
      using area_frame_owned [OF bs p] ms_invD(3) [OF Cons.prems(1)] Cons.prems(3) table_owned [of ms] by blast
    then have "m p = ram s p"
      using F by simp
    then show ?thesis
      using vm_page_area [OF okb p] vm_page_area [OF okb2 p] by simp
  qed
  then have "forks base src ms s ms' s' (set ?vs \<union> set ?ws) (3 * length ?vs + 3 * length ?ws)"
    using forks_trans [OF c(3) r(2) disj] by simp
  then show ?case
    using c(1,2) r(1) by simp
qed


section \<open>The areas of the copy\<close>

definition area_shape :: "MapArea \<Rightarrow> VPNRange \<times> MapType \<times> nat" where
  \<comment> \<open>an area without its frames\<close>
  "area_shape a = (vpn_range a, map_type a, map_perm a)"

lemma map_one_shape: "map_one v a pt s = Some (a', pt', s') \<Longrightarrow> area_shape a' = area_shape a"
  by (auto simp: map_one_def area_shape_def Let_def split: Option.bind_splits MapType.splits if_splits)

lemma map_loop_shape: "map_loop vs a pt s = Some (a', pt', s') \<Longrightarrow> area_shape a' = area_shape a"
  by (induction vs a pt s rule: map_loop.induct) (auto dest: map_one_shape split: Option.bind_splits)

lemma push_shape: "push a data ms s = Some (ms', s') \<Longrightarrow> map area_shape (areas ms') = map area_shape (areas ms) @ [area_shape a]"
  by (auto simp: push_def MapArea_map_def dest: map_loop_shape split: Option.bind_splits)

lemma copy_areas_shape: "copy_areas as src ms s = Some (ms', s') \<Longrightarrow> map area_shape (areas ms') = map area_shape (areas ms) @ map area_shape as"
proof (induction as arbitrary: ms s)
  case (Cons a as)
  have "area_shape (from_another a) = area_shape a"
    by (simp add: from_another_def area_shape_def)
  then show ?case
    using Cons by (auto dest!: push_shape split: Option.bind_splits)
qed simp

lemma shape_flags:
  assumes "ms_inv base src s" and "ms_inv base ms' s'" and "map area_shape (areas ms') = map area_shape (areas src)"
    and "a \<in> set (areas src)" and "v \<in> set (range_pages (vpn_range a))"
  shows "\<exists>b c. pt_map (ram s) (page_table src) v = Some b \<and> pt_map (ram s') (page_table ms') v = Some c \<and>
    pte_flags c = pte_flags b \<and> pte_flags b = map_perm a OR PTE_V"
proof -
  have entry: "\<exists>b. pt_map (ram t) (page_table ms) v = Some b \<and> pte_flags b = map_perm x OR PTE_V"
    if "ms_inv base ms t" "x \<in> set (areas ms)" "vpn_range x = vpn_range a" for ms t x
  proof -
    note ok = ms_invD(4) [OF that(1,2)]
    have "range_contains (vpn_range x) v"
      using assms(5) area_okD(8) [OF ok] that(3) by simp
    then obtain p where p: "(v, p) \<in> set (data_frames x)"
      by (rule area_pages [OF ok])
    then show ?thesis
      using area_okD(6) [OF ok p] area_okD(4) [OF ok] pte_of_new(2) or_V(1) by (simp add: area_pte_def)
  qed
  have "area_shape a \<in> set (map area_shape (areas ms'))"
    using assms(3,4) by simp
  then obtain x where "x \<in> set (areas ms')" "vpn_range x = vpn_range a" "map_perm x = map_perm a"
    by (auto simp: area_shape_def)
  then show ?thesis
    using entry [OF assms(1,4) refl] entry [OF assms(2)] by metis
qed

section \<open>New address spaces\<close>

lemma new_bare_spec:
  assumes "mm_inv base s" and "0 < mm_free base s"
  shows "\<exists>ms s'. new_bare s = Some (ms, s') \<and> ms_inv base ms s' \<and> areas ms = [] \<and> pt_map (ram s') (page_table ms) = Map.empty \<and>
    set (ms_owned ms) \<inter> mm_used base s = {} \<and> mm_used base s \<subseteq> mm_used base s' \<and> mm_free base s' = mm_free base s - 1 \<and>
    (\<forall>x \<in> mm_used base s. ram s' x = ram s x)"
proof -
  obtain pt s' where p: "PageTable_new s = Some (pt, s')" "pt_inv base pt s'" "pt_map (ram s') pt = Map.empty"
    "set (pt_frames pt) \<inter> mm_used base s = {}" "mm_used base s' = mm_used base s \<union> set (pt_frames pt)"
    "mm_free base s' = mm_free base s - 1" "\<forall>x \<in> mm_used base s. ram s' x = ram s x"
    using PageTable_new_spec [OF assms] by blast
  let ?ms = "\<lparr>page_table = pt, areas = []\<rparr>"
  have "ms_inv base ?ms s'"
    using p(2) pt_invD(3,4) [OF p(2)] by (simp add: ms_inv_def ms_owned_def)
  then show ?thesis
    using p by (intro exI [of _ ?ms] exI [of _ s']) (auto simp: new_bare_def ms_owned_def)
qed

definition TRAMPOLINE_VPN :: nat where
  "TRAMPOLINE_VPN = 2 ^ 27 - 1"

lemma trampoline_vpn: "addr_page (VirtAddr_from TRAMPOLINE) = Some TRAMPOLINE_VPN"
proof -
  have "VirtAddr_from TRAMPOLINE = 2 ^ 39 - 4096"
    by (simp add: VirtAddr_from_mod TRAMPOLINE_def PAGE_SIZE_def)
  then show ?thesis
    by (simp add: addr_page_def page_offset_mod addr_floor_div TRAMPOLINE_VPN_def)
qed

lemma map_trampoline_spec:
  assumes inv: "ms_inv base ms s" and no: "areas ms = []" "pt_map (ram s) (page_table ms) = Map.empty"
    and tr: "tramp < 2 ^ 56" "tramp mod PAGE_SIZE = 0" and room: "2 \<le> mm_free base s"
  shows "\<exists>ms' s'. map_trampoline tramp ms s = Some (ms', s') \<and> ms_inv base ms' s' \<and> areas ms' = [] \<and>
    dom (pt_map (ram s') (page_table ms')) = {TRAMPOLINE_VPN} \<and> set (ms_owned ms') \<inter> mm_used base s = set (ms_owned ms) \<and>
    mm_used base s \<subseteq> mm_used base s' \<and> mm_free base s \<le> mm_free base s' + 2 \<and>
    (\<forall>x \<in> mm_used base s - set (ms_owned ms). ram s' x = ram s x) \<and>
    pt_map (ram s') (page_table ms') = [TRAMPOLINE_VPN \<mapsto> PageTableEntry_new (tramp div 4096) ((PTE_R OR PTE_X) OR PTE_V)]"
proof -
  have ppn: "addr_page (PhysAddr_from tramp) = Some (tramp div 4096)" "tramp div 4096 < 2 ^ 44"
    using tr by (simp_all add: PhysAddr_from_mod addr_page_def page_offset_mod addr_floor_div PAGE_SIZE_def div_less_iff_less_mult)
  have v: "TRAMPOLINE_VPN < 2 ^ 27" "PTE_R OR PTE_X < 2 ^ 8"
    by (simp_all add: TRAMPOLINE_VPN_def PTE_R_def PTE_X_def)
  have "pt_map (ram s) (page_table ms) TRAMPOLINE_VPN = None"
    using no(2) by simp
  then obtain pt' s' where p: "PageTable_map TRAMPOLINE_VPN (tramp div 4096) (PTE_R OR PTE_X) (page_table ms) s = Some (pt', s')"
    "pt_grows base 2 (page_table ms) s pt' s'"
    "pt_map (ram s') pt' = (pt_map (ram s) (page_table ms))(TRAMPOLINE_VPN \<mapsto> PageTableEntry_new (tramp div 4096) ((PTE_R OR PTE_X) OR PTE_V))"
    using PageTable_map_spec(2) [OF ms_invD(1) [OF inv] v(1) ppn(2) v(2) room] by blast
  note G = p(2) [unfolded pt_grows_def]
  let ?ms = "ms\<lparr>page_table := pt'\<rparr>"
  have own: "ms_owned ?ms = pt_frames pt'" "ms_owned ms = pt_frames (page_table ms)"
    by (simp_all add: ms_owned_def no(1))
  have "ms_inv base ?ms s'"
    using G pt_invD(4) [of base pt' s'] by (simp add: ms_inv_def own no(1))
  then show ?thesis
    using p G no by (intro exI [of _ ?ms] exI [of _ s']) (auto simp: map_trampoline_def trampoline_vpn ppn(1) own)
qed

section \<open>A small address space for the examples\<close>

lemma sample_space:
  obtains ms s where "ms_inv 16 ms s" and "areas ms = []" and "pt_map (ram s) (page_table ms) = Map.empty" and "mm_free 16 s = 15"
proof -
  have "0 < mm_free 16 sample_mm"
    by (simp add: sample_mm_inv(2))
  from new_bare_spec [OF sample_mm_inv(1) this] sample_mm_inv(2) show thesis
    using that by auto
qed

definition sample_area :: MapArea where
  "sample_area = \<lparr>vpn_range = \<lparr>range_l = 1, range_r = 2\<rparr>, data_frames = [], map_type = Framed, map_perm = 0x16\<rparr>"

lemma sample_area_facts:
  "MapArea_new 4096 8192 Framed 0x16 = Some sample_area" "range_pages (vpn_range sample_area) = [1]"
  by (simp_all add: MapArea_new_def SimpleRange_new_def sample_area_def addr_floor_div addr_ceil_def PAGE_SIZE_def usize_def range_pages_def)

lemma sample_pushed:
  obtains ms s a where "ms_inv 16 ms s" and "areas ms = [a]" and "range_pages (vpn_range a) = [1]" and "6 \<le> mm_free 16 s"
proof -
  obtain ms s where b: "ms_inv 16 ms s" "areas ms = []" "pt_map (ram s) (page_table ms) = Map.empty" "mm_free 16 s = 15"
    by (rule sample_space)
  have "\<exists>ms' s' ps. push sample_area None ms s = Some (ms', s') \<and> ms_inv 16 ms' s' \<and>
    areas ms' = areas ms @ [sample_area\<lparr>data_frames := zip [1..<2] ps\<rparr>] \<and> mm_free 16 s \<le> mm_free 16 s' + 3"
    using push_framed_spec [OF b(1), of sample_area None] b(3,4) by (auto simp: sample_area_def)
  then obtain ms' s' ps where "ms_inv 16 ms' s'" "areas ms' = [sample_area\<lparr>data_frames := zip [1..<2] ps\<rparr>]" "12 \<le> mm_free 16 s'"
    using b(2,4) by auto
  then show thesis
    using sample_area_facts(2) by (intro that [where ms = ms' and s = s' and a = "sample_area\<lparr>data_frames := zip [1..<2] ps\<rparr>"])
      (simp_all add: sample_area_def)
qed

section \<open>Properties\<close>

text \<open>
  C25. Forking an address space whose areas do not overlap, with three frames free for each of its
  pages and three more: the child is a well-formed address space with areas of the same ranges, types and permissions, every page of
  every area holds the same bytes and is mapped with the same flags, those of its area, in the child as in the parent, the trampoline
  is mapped readable and executable, and nothing else is mapped. The child owns none of the parent's frames, and the
  parent's pages and table are as they were.
\<close>

theorem fork_copies_address_space:
  assumes src: "ms_inv base src s" and rg: "distinct (concat (map (\<lambda>a. range_pages (vpn_range a)) (areas src)))"
    and tr: "tramp < 2 ^ 56" "tramp mod PAGE_SIZE = 0"
    and room: "3 * length (concat (map (\<lambda>a. range_pages (vpn_range a)) (areas src))) + 3 \<le> mm_free base s"
  shows "\<exists>child s'. from_existed_user tramp src s = Some (child, s') \<and> ms_inv base child s' \<and> ms_inv base src s' \<and>
    set (ms_owned child) \<inter> mm_used base s = {} \<and>
    (\<forall>v \<in> set (concat (map (\<lambda>a. range_pages (vpn_range a)) (areas src))). vm_page child (ram s') v = vm_page src (ram s) v) \<and>
    map (\<lambda>a. (vpn_range a, map_type a, map_perm a)) (areas child) = map (\<lambda>a. (vpn_range a, map_type a, map_perm a)) (areas src) \<and>
    (\<forall>a \<in> set (areas src). \<forall>v \<in> set (range_pages (vpn_range a)).
      \<exists>b c. pt_map (ram s) (page_table src) v = Some b \<and> pt_map (ram s') (page_table child) v = Some c \<and>
        pte_flags c = pte_flags b \<and> pte_flags b = map_perm a OR PTE_V) \<and>
    (\<forall>v. v \<notin> set (concat (map (\<lambda>a. range_pages (vpn_range a)) (areas src))) \<longrightarrow> pt_map (ram s') (page_table child) v =
      (if v = TRAMPOLINE_VPN then Some (PageTableEntry_new (tramp div 4096) ((PTE_R OR PTE_X) OR PTE_V)) else None)) \<and>
    (\<forall>x \<in> mm_used base s. ram s' x = ram s x)"
proof -
  have mm: "mm_inv base s" and r0: "0 < mm_free base s"
    using pt_invD(1) [OF ms_invD(1) [OF src]] room by simp_all
  obtain ms0 s0 where n: "new_bare s = Some (ms0, s0)" "ms_inv base ms0 s0" "areas ms0 = []" "pt_map (ram s0) (page_table ms0) = Map.empty"
    "set (ms_owned ms0) \<inter> mm_used base s = {}" "mm_used base s \<subseteq> mm_used base s0" "mm_free base s0 = mm_free base s - 1"
    "\<forall>x \<in> mm_used base s. ram s0 x = ram s x"
    using new_bare_spec [OF mm r0] by blast
  have r1: "2 \<le> mm_free base s0"
    using n(7) room by simp
  obtain ms1 s1 where t: "map_trampoline tramp ms0 s0 = Some (ms1, s1)" "ms_inv base ms1 s1" "areas ms1 = []"
    "dom (pt_map (ram s1) (page_table ms1)) = {TRAMPOLINE_VPN}" "set (ms_owned ms1) \<inter> mm_used base s0 = set (ms_owned ms0)"
    "mm_used base s0 \<subseteq> mm_used base s1" "mm_free base s0 \<le> mm_free base s1 + 2" "\<forall>x \<in> mm_used base s0 - set (ms_owned ms0). ram s1 x = ram s0 x"
    "pt_map (ram s1) (page_table ms1) = [TRAMPOLINE_VPN \<mapsto> PageTableEntry_new (tramp div 4096) ((PTE_R OR PTE_X) OR PTE_V)]"
    using map_trampoline_spec [OF n(2-4) tr r1] by blast
  have old: "ram s1 x = ram s x" if "x \<in> mm_used base s" for x
  proof -
    have "x \<in> mm_used base s0 - set (ms_owned ms0)"
      using that n(5,6) by blast
    then show ?thesis
      using t(8) n(8) that by simp
  qed
  have mm1: "mm_inv base s1"
    using pt_invD(1) [OF ms_invD(1) [OF t(2)]] .
  have own1: "set (ms_owned ms1) \<inter> mm_used base s = {}"
    using t(5) n(5,6) by blast
  have used1: "set (ms_owned src) \<subseteq> mm_used base s1"
    using ms_invD(3) [OF src] n(6) t(6) by blast
  have tab: "\<forall>g \<in> set (pt_frames (page_table src)). ram s1 g = ram s g"
    using ms_invD(3) [OF src] table_owned [of src] old by blast
  note src1 = ms_keep [OF src mm1 used1 tab]
  have d: "set (ms_owned src) \<inter> set (ms_owned ms1) = {}"
    using own1 ms_invD(3) [OF src] by blast
  have free: "\<forall>a \<in> set (areas src). \<forall>v. range_contains (vpn_range a) v \<longrightarrow> pt_map (ram s1) (page_table ms1) v = None"
  proof (intro ballI allI impI)
    fix a v assume a: "a \<in> set (areas src)" and v: "range_contains (vpn_range a) v"
    then have "v \<noteq> TRAMPOLINE_VPN"
      using area_okD(2) [OF ms_invD(4) [OF src a]] by (simp add: range_contains_def TRAMPOLINE_VPN_def)
    then have "v \<notin> dom (pt_map (ram s1) (page_table ms1))"
      using t(4) by simp
    then show "pt_map (ram s1) (page_table ms1) v = None"
      by (simp add: domIff)
  qed
  have r2: "3 * length (concat (map (\<lambda>a. range_pages (vpn_range a)) (areas src))) \<le> mm_free base s1"
    using room n(7) t(7) by simp
  obtain child s' where c: "copy_areas (areas src) src ms1 s1 = Some (child, s')"
    "forks base src ms1 s1 child s' (set (concat (map (\<lambda>a. range_pages (vpn_range a)) (areas src))))
      (3 * length (concat (map (\<lambda>a. range_pages (vpn_range a)) (areas src))))"
    using copy_areas_spec [OF src1(1) t(2) d order_refl rg free r2] by blast
  note F = c(2) [unfolded forks_def]
  have U: "mm_used base s \<subseteq> mm_used base s1"
    using n(6) t(6) by blast
  have "ram s' x = ram s x" if "x \<in> mm_used base s" for x
  proof -
    have "x \<in> mm_used base s1 - set (pt_frames (page_table ms1))"
      using that U own1 table_owned [of ms1] by blast
    then show ?thesis
      using F old [OF that] by simp
  qed
  moreover have "vm_page src (ram s1) v = vm_page src (ram s) v"
    if v: "v \<in> set (concat (map (\<lambda>a. range_pages (vpn_range a)) (areas src)))" for v
  proof -
    obtain a where a: "a \<in> set (areas src)" "v \<in> set (range_pages (vpn_range a))"
      using v by auto
    note ok = ms_invD(4) [OF src a(1)] and ok1 = ms_invD(4) [OF src1(1) a(1)]
    have "range_contains (vpn_range a) v"
      using area_okD(8) [OF ok] a(2) by simp
    then obtain p where p: "(v, p) \<in> set (data_frames a)"
      by (rule area_pages [OF ok])
    have "p \<in> mm_used base s"
      using area_frame_owned [OF a(1) p] ms_invD(3) [OF src] by blast
    then show ?thesis
      using vm_page_area [OF ok p] vm_page_area [OF ok1 p] old by simp
  qed
  moreover have "set (ms_owned child) \<inter> mm_used base s = {}"
    using F own1 U by blast
  moreover have shape: "map area_shape (areas child) = map area_shape (areas src)"
    using copy_areas_shape [OF c(1)] t(3) by simp
  note shape' = shape [unfolded area_shape_def [abs_def]]
  moreover have "pt_map (ram s') (page_table child) v =
      (if v = TRAMPOLINE_VPN then Some (PageTableEntry_new (tramp div 4096) ((PTE_R OR PTE_X) OR PTE_V)) else None)"
    if "v \<notin> set (concat (map (\<lambda>a. range_pages (vpn_range a)) (areas src)))" for v
    using F that t(9) by simp
  moreover have inv': "ms_inv base child s'"
    using F by simp
  note flags = shape_flags [OF src inv' shape]
  ultimately show ?thesis
    using F n(1) t(1) c(1) flags shape' by (intro exI [of _ child] exI [of _ s'] conjI) (simp_all add: from_existed_user_def)
qed

theorem fork_copies_address_space_witness:
  "\<exists>src s child s'. from_existed_user 0x80200000 src s = Some (child, s') \<and> length (areas src) = 1 \<and>
    vm_page child (ram s') 1 = vm_page src (ram s) 1"
proof -
  obtain ms s a where b: "ms_inv 16 ms s" "areas ms = [a]" "range_pages (vpn_range a) = [1]" "6 \<le> mm_free 16 s"
    by (rule sample_pushed)
  have e: "concat (map (\<lambda>a. range_pages (vpn_range a)) (areas ms)) = [1]"
    using b(2,3) by simp
  have "(0x80200000 :: nat) < 2 ^ 56" "(0x80200000 :: nat) mod PAGE_SIZE = 0"
    by (simp_all add: PAGE_SIZE_def)
  from fork_copies_address_space [OF b(1) _ this, unfolded e] obtain child s' where
    "from_existed_user 0x80200000 ms s = Some (child, s')" "\<forall>v \<in> set [1]. vm_page child (ram s') v = vm_page ms (ram s) v"
    using b(4) by auto
  then show ?thesis
    using b(2) by (intro exI [of _ ms] exI [of _ s] exI [of _ child] exI [of _ s']) simp
qed

text \<open>
  Loading a segment: pushing a framed area over unmapped pages, with data no longer than the
  area, maps every page of it to a zeroed frame of its own that was free, so that its pages hold
  the data from the first byte on and zeros behind it; the address space stays well formed, and no
  frame that was in use outside its page table changes.
\<close>

theorem push_loads_data:
  assumes inv: "ms_inv base ms s" and new: "MapArea_new start_va end_va Framed perm = Some a" and args: "perm < 2 ^ 8" "end_va \<le> (2 ^ 27 - 1) * 4096"
    and free: "\<forall>v. range_contains (vpn_range a) v \<longrightarrow> pt_map (ram s) (page_table ms) v = None"
    and room: "3 * length (range_pages (vpn_range a)) \<le> mm_free base s"
    and data: "d \<noteq> []" "length d \<le> length (range_pages (vpn_range a)) * PAGE_SIZE"
  shows "\<exists>ms' s'. push a (Some d) ms s = Some (ms', s') \<and> ms_inv base ms' s' \<and>
    concat (map (\<lambda>v. the (vm_page ms' (ram s') v)) (range_pages (vpn_range a))) =
      d @ replicate (length (range_pages (vpn_range a)) * PAGE_SIZE - length d) 0 \<and>
    mm_used base s' = mm_used base s \<union> set (ms_owned ms') \<and> set (ms_owned ms') \<inter> mm_used base s = set (ms_owned ms) \<and>
    (\<forall>x \<in> mm_used base s - set (pt_frames (page_table ms)). ram s' x = ram s x)"
proof -
  let ?vs = "range_pages (vpn_range a)"
  have a: "data_frames a = []" "map_type a = Framed" "map_perm a = perm" "range_l (vpn_range a) \<le> range_r (vpn_range a)"
    "range_r (vpn_range a) = addr_ceil end_va"
    using new by (auto simp: MapArea_new_def SimpleRange_new_def split: if_splits)
  have "addr_ceil end_va * 4096 < end_va + 4096"
    using args(2) by (intro addr_ceil_bounds(2)) simp
  then have r: "range_r (vpn_range a) < 2 ^ 27"
    using a(5) args(2) by simp
  then have vs: "?vs = [range_l (vpn_range a)..<range_r (vpn_range a)]" "length ?vs = range_r (vpn_range a) - range_l (vpn_range a)"
    using a(4) by (simp_all add: range_pages_eq)
  have dl: "length d \<le> (range_r (vpn_range a) - range_l (vpn_range a)) * PAGE_SIZE \<and> range_l (vpn_range a) < range_r (vpn_range a)"
    using data vs(2) by (cases "range_l (vpn_range a) < range_r (vpn_range a)") auto
  have perm8: "map_perm a < 2 ^ 8" and room': "3 * (range_r (vpn_range a) - range_l (vpn_range a)) \<le> mm_free base s"
    using a(3) args(1) room vs(2) by simp_all
  obtain ms' s' ps where p: "push a (Some d) ms s = Some (ms', s')" "ms_inv base ms' s'" "length ps = length ?vs"
    "areas ms' = areas ms @ [a\<lparr>data_frames := zip ?vs ps\<rparr>]" "set (ms_owned ms') \<inter> mm_used base s = set (ms_owned ms)"
    "mm_used base s' = mm_used base s \<union> set (ms_owned ms')"
    "concat (map (\<lambda>p. the (ram s' p)) ps) = d @ replicate (length ?vs * PAGE_SIZE - length d) 0"
    "\<forall>x \<in> mm_used base s - set (pt_frames (page_table ms)). ram s' x = ram s x"
    using push_framed_spec [OF inv a(1,2) perm8 a(4) r free room', of "Some d"] dl unfolding vs(1) [symmetric] by (auto simp: Let_def)
  have na: "a\<lparr>data_frames := zip ?vs ps\<rparr> \<in> set (areas ms')"
    using p(4) by simp
  have "vm_page ms' (ram s') (?vs ! i) = ram s' (ps ! i)" if "i < length ?vs" for i
  proof (rule vm_page_area [OF ms_invD(4) [OF p(2) na]])
    show "(?vs ! i, ps ! i) \<in> set (data_frames (a\<lparr>data_frames := zip ?vs ps\<rparr>))"
      using that p(3) by (auto simp: set_zip)
  qed
  then have "map (\<lambda>v. the (vm_page ms' (ram s') v)) ?vs = map (\<lambda>p. the (ram s' p)) ps"
    using p(3) by (intro nth_equalityI) simp_all
  then show ?thesis
    using p by auto
qed

theorem push_loads_data_witness:
  "\<exists>ms s ms' s'. push sample_area (Some [5, 6]) ms s = Some (ms', s') \<and>
    the (vm_page ms' (ram s') 1) = [5, 6] @ replicate 4094 0"
proof -
  obtain ms s where b: "ms_inv 16 ms s" "areas ms = []" "pt_map (ram s) (page_table ms) = Map.empty" "mm_free 16 s = 15"
    by (rule sample_space)
  have "\<forall>v. range_contains (vpn_range sample_area) v \<longrightarrow> pt_map (ram s) (page_table ms) v = None"
    by (simp add: b(3))
  then have "\<exists>ms' s'. push sample_area (Some [5, 6]) ms s = Some (ms', s') \<and>
      concat (map (\<lambda>v. the (vm_page ms' (ram s') v)) [1]) = [5, 6] @ replicate (length [1] * PAGE_SIZE - length [5, 6 :: byte]) 0"
    using push_loads_data [OF b(1) sample_area_facts(1), of "[5, 6]"] b(4) unfolding sample_area_facts(2) by (auto simp: PAGE_SIZE_def)
  then show ?thesis
    by (auto simp: PAGE_SIZE_def)
qed

text \<open>
  C26. Dropping an address space: every frame it owns, of its tables and of its areas, goes back to the
  allocator exactly once, no other frame does, and memory is not touched; \<open>recycle_data_pages\<close>
  gives back exactly the frames of the areas and keeps the tables.
\<close>

theorem MemorySet_drop_returns_frames:
  assumes "ms_inv base ms s"
  shows "\<exists>s' ms1 s1. MemorySet_drop ms s = Some s' \<and> mm_inv base s' \<and> mm_used base s' = mm_used base s - set (ms_owned ms) \<and> ram s' = ram s \<and>
    recycle_data_pages ms s = Some (ms1, s1) \<and> areas ms1 = [] \<and> page_table ms1 = page_table ms \<and> pt_inv base (page_table ms1) s1 \<and>
    mm_used base s1 = mm_used base s - (set (ms_owned ms) - set (pt_frames (page_table ms)))"
proof -
  note D = ms_invD [OF assms] and P = pt_invD [OF ms_invD(1) [OF assms]]
  let ?O = "concat (map (\<lambda>a. map snd (data_frames a)) (areas ms))"
  have O: "distinct ?O" "set (pt_frames (page_table ms)) \<inter> set ?O = {}" "set ?O \<subseteq> mm_used base s"
    "set (ms_owned ms) - set (pt_frames (page_table ms)) = set ?O"
    using D(2,3) unfolding ms_owned_def distinct_append set_append by blast+
  obtain s' where s': "dealloc_many frame_dealloc (ms_owned ms) s = Some s'" "mm_inv base s'" "mm_used base s' = mm_used base s - set (ms_owned ms)" "ram s' = ram s"
    using frame_dealloc_many [OF P(1) D(2,3)] by blast
  obtain s1 where s1: "dealloc_many frame_dealloc ?O s = Some s1" "mm_inv base s1" "mm_used base s1 = mm_used base s - set ?O" "ram s1 = ram s"
    using frame_dealloc_many [OF P(1) O(1,3)] by blast
  have "pt_inv base (page_table ms) s1"
  proof -
    have "set (pt_frames (page_table ms)) \<subseteq> mm_used base s1"
      using s1(3) P(3) O(2) by blast
    then show ?thesis
      using s1(2,4) P(2,4,5) by (simp add: pt_inv_def)
  qed
  then show ?thesis
    using s' s1 O(4) by (auto simp: MemorySet_drop_eq recycle_data_pages_def drop_areas_eq)
qed


theorem MemorySet_drop_returns_frames_witness:
  "\<exists>ms s s'. length (areas ms) = 1 \<and> MemorySet_drop ms s = Some s' \<and> mm_used 16 s' = mm_used 16 s - set (ms_owned ms)"
proof -
  obtain ms s a where b: "ms_inv 16 ms s" "areas ms = [a]"
    by (rule sample_pushed)
  from MemorySet_drop_returns_frames [OF b(1)] obtain s' where
    "MemorySet_drop ms s = Some s'" "mm_used 16 s' = mm_used 16 s - set (ms_owned ms)"
    by blast
  then show ?thesis
    using b(2) by (intro exI [of _ ms] exI [of _ s] exI [of _ s']) simp
qed

end
