(* ===== verification/TaskId.thy ===== *)
theory TaskId
  imports Fork
begin

text \<open>
  Identifiers and stacks of tasks (\<^verbatim>\<open>os/src/task/id.rs\<close>): the recycling allocator behind process,
  thread and kernel-stack identifiers, the place of every kernel stack in the kernel space, and the
  user stack and trap context that a thread owns in the address space of its process. Global objects
  (\<open>PID_ALLOCATOR\<close>, \<open>KSTACK_ALLOCATOR\<close>, \<open>KERNEL_SPACE\<close>) are arguments that are returned updated.
\<close>

section \<open>The recycling allocator\<close>

record RecycleAllocator =
  ra_current :: nat
  ra_recycled :: "nat list"

definition RecycleAllocator_new :: RecycleAllocator where
  "RecycleAllocator_new = \<lparr>ra_current = 0, ra_recycled = []\<rparr>"

definition ra_alloc :: "RecycleAllocator \<Rightarrow> nat \<times> RecycleAllocator" where
  "ra_alloc ra =
     (if ra_recycled ra \<noteq> [] then (last (ra_recycled ra), ra\<lparr>ra_recycled := butlast (ra_recycled ra)\<rparr>)
      else (ra_current ra, ra\<lparr>ra_current := usize (ra_current ra + 1)\<rparr>))"

definition ra_dealloc :: "nat \<Rightarrow> RecycleAllocator \<Rightarrow> RecycleAllocator option" where
  "ra_dealloc i ra = do {
     ensure (i < ra_current ra);
     ensure (i \<notin> set (ra_recycled ra));
     Some (ra\<lparr>ra_recycled := ra_recycled ra @ [i]\<rparr>) }"

definition IDLE_PID :: nat where "IDLE_PID = 0"

definition pid_alloc :: "RecycleAllocator \<Rightarrow> nat \<times> RecycleAllocator" where
  "pid_alloc pids = ra_alloc pids"

definition PidHandle_drop :: "nat \<Rightarrow> RecycleAllocator \<Rightarrow> RecycleAllocator option" where
  "PidHandle_drop pid pids = ra_dealloc pid pids"

section \<open>Kernel stacks\<close>

definition USER_STACK_SIZE :: nat where "USER_STACK_SIZE = 4096 * 2"
definition KERNEL_STACK_SIZE :: nat where "KERNEL_STACK_SIZE = 4096 * 2"

definition kernel_stack_position :: "nat \<Rightarrow> nat \<times> nat" where
  "kernel_stack_position kstack_id = (let top = usize_sub TRAMPOLINE (usize (kstack_id * (KERNEL_STACK_SIZE + PAGE_SIZE)));
       bottom = usize_sub top KERNEL_STACK_SIZE in (bottom, top))"

definition kstack_alloc :: "RecycleAllocator \<Rightarrow> MemorySet \<Rightarrow> mm \<Rightarrow> (nat \<times> RecycleAllocator \<times> MemorySet \<times> mm) option" where
  "kstack_alloc kstacks kernel_space s = do {
     let (kstack_id, kstacks) = ra_alloc kstacks;
     let (kstack_bottom, kstack_top) = kernel_stack_position kstack_id;
     (kernel_space, s) \<leftarrow> insert_framed_area (VirtAddr_from kstack_bottom) (VirtAddr_from kstack_top) (MAP_R OR MAP_W) kernel_space s;
     Some (kstack_id, kstacks, kernel_space, s) }"

definition KernelStack_drop :: "nat \<Rightarrow> MemorySet \<Rightarrow> mm \<Rightarrow> (MemorySet \<times> mm) option" where
  \<comment> \<open>the identifier is not given back to \<open>KSTACK_ALLOCATOR\<close>\<close>
  "KernelStack_drop kstack_id kernel_space s = do {
     let (kstack_bottom, _) = kernel_stack_position kstack_id;
     vpn \<leftarrow> addr_page (VirtAddr_from kstack_bottom);
     remove_area_with_start_vpn vpn kernel_space s }"

definition KernelStack_get_top :: "nat \<Rightarrow> nat" where
  "KernelStack_get_top kstack_id = snd (kernel_stack_position kstack_id)"

section \<open>Resources of a thread in the user space\<close>

record TaskUserRes =
  tur_tid :: nat
  tur_ustack_base :: nat

definition trap_cx_bottom_from_tid :: "nat \<Rightarrow> nat" where
  "trap_cx_bottom_from_tid tid = usize_sub TRAP_CONTEXT (usize (tid * PAGE_SIZE))"

definition ustack_bottom_from_tid :: "nat \<Rightarrow> nat \<Rightarrow> nat" where
  "ustack_bottom_from_tid ustack_base tid = usize (ustack_base + usize (tid * (PAGE_SIZE + USER_STACK_SIZE)))"

definition alloc_user_res :: "TaskUserRes \<Rightarrow> MemorySet \<Rightarrow> mm \<Rightarrow> (MemorySet \<times> mm) option" where
  "alloc_user_res r ms s = do {
     let ustack_bottom = ustack_bottom_from_tid (tur_ustack_base r) (tur_tid r);
     let ustack_top = usize (ustack_bottom + USER_STACK_SIZE);
     (ms, s) \<leftarrow> insert_framed_area (VirtAddr_from ustack_bottom) (VirtAddr_from ustack_top) (MAP_R OR MAP_W OR MAP_U) ms s;
     let trap_cx_bottom = trap_cx_bottom_from_tid (tur_tid r);
     let trap_cx_top = usize (trap_cx_bottom + PAGE_SIZE);
     insert_framed_area (VirtAddr_from trap_cx_bottom) (VirtAddr_from trap_cx_top) (MAP_R OR MAP_W) ms s }"

definition dealloc_user_res :: "TaskUserRes \<Rightarrow> MemorySet \<Rightarrow> mm \<Rightarrow> (MemorySet \<times> mm) option" where
  "dealloc_user_res r ms s = do {
     ustack_vpn \<leftarrow> addr_page (VirtAddr_from (ustack_bottom_from_tid (tur_ustack_base r) (tur_tid r)));
     (ms, s) \<leftarrow> remove_area_with_start_vpn ustack_vpn ms s;
     trap_cx_vpn \<leftarrow> addr_page (VirtAddr_from (trap_cx_bottom_from_tid (tur_tid r)));
     remove_area_with_start_vpn trap_cx_vpn ms s }"

definition TaskUserRes_new :: "nat \<Rightarrow> bool \<Rightarrow> RecycleAllocator \<Rightarrow> MemorySet \<Rightarrow> mm \<Rightarrow> (TaskUserRes \<times> RecycleAllocator \<times> MemorySet \<times> mm) option" where
  \<comment> \<open>\<open>tids\<close> and \<open>ms\<close> belong to the process\<close>
  "TaskUserRes_new ustack_base allow_user_res tids ms s = do {
     let (tid, tids) = ra_alloc tids;
     let res = \<lparr>tur_tid = tid, tur_ustack_base = ustack_base\<rparr>;
     (ms, s) \<leftarrow> (if allow_user_res then alloc_user_res res ms s else Some (ms, s));
     Some (res, tids, ms, s) }"

definition trap_cx_user_va :: "TaskUserRes \<Rightarrow> nat" where
  "trap_cx_user_va r = trap_cx_bottom_from_tid (tur_tid r)"

definition trap_cx_ppn :: "TaskUserRes \<Rightarrow> MemorySet \<Rightarrow> ram \<Rightarrow> PhysPageNum option" where
  "trap_cx_ppn r ms m = do {
     vpn \<leftarrow> addr_page (VirtAddr_from (trap_cx_bottom_from_tid (tur_tid r)));
     pte \<leftarrow> MemorySet_translate ms vpn m;
     pte \<leftarrow> pte;
     Some (pte_ppn pte) }"

definition ustack_top :: "TaskUserRes \<Rightarrow> nat" where
  "ustack_top r = usize (ustack_bottom_from_tid (tur_ustack_base r) (tur_tid r) + USER_STACK_SIZE)"

section \<open>The allocator keeps the contract of allocators\<close>

definition ra_inv :: "RecycleAllocator \<Rightarrow> bool" where
  "ra_inv ra \<longleftrightarrow> ra_current ra < 2 ^ 64 \<and> distinct (ra_recycled ra) \<and> set (ra_recycled ra) \<subseteq> {..<ra_current ra}"

definition ra_used :: "RecycleAllocator \<Rightarrow> nat set" where
  "ra_used ra = {..<ra_current ra} - set (ra_recycled ra)"

definition ra_try_alloc :: "RecycleAllocator \<Rightarrow> (nat \<times> RecycleAllocator) option" where
  \<comment> \<open>\<open>alloc\<close> as long as the counter does not wrap around, which takes all but one number in use\<close>
  "ra_try_alloc ra = (if ra_recycled ra = [] \<and> ra_current ra = 2 ^ 64 - 1 then None else Some (ra_alloc ra))"

lemma butlast_last_set:
  assumes "distinct xs" and "xs \<noteq> []"
  shows "set (butlast xs) = set xs - {last xs}" and "distinct (butlast xs)" and "last xs \<in> set xs"
proof -
  obtain ys y where "xs = ys @ [y]"
    using assms(2) by (metis append_butlast_last_id)
  then show "set (butlast xs) = set xs - {last xs}" "distinct (butlast xs)" "last xs \<in> set xs"
    using assms(1) by auto
qed

interpretation ids: id_allocator ra_try_alloc ra_dealloc ra_used "\<lambda>_. {..<2 ^ 64 - 1}" ra_inv
proof
  fix s i s'
  assume inv: "ra_inv s" and al: "ra_try_alloc s = Some (i, s')"
  show "ra_inv s' \<and> i \<in> {..<2 ^ 64 - 1} \<and> i \<notin> ra_used s \<and> ra_used s' = insert i (ra_used s) \<and>
      {..<2 ^ 64 - 1} = ({..<2 ^ 64 - 1} :: nat set)"
  proof (cases "ra_recycled s = []")
    case True
    then have "i = ra_current s" "s' = s\<lparr>ra_current := ra_current s + 1\<rparr>" "ra_current s < 2 ^ 64 - 1"
      using al inv by (auto simp: ra_try_alloc_def ra_alloc_def ra_inv_def usize_id split: if_splits)
    then show ?thesis
      using True inv by (auto simp: ra_inv_def ra_used_def)
  next
    case False
    then have "i = last (ra_recycled s)" "s' = s\<lparr>ra_recycled := butlast (ra_recycled s)\<rparr>"
      using al by (auto simp: ra_try_alloc_def ra_alloc_def split: if_splits)
    then show ?thesis
      using inv butlast_last_set [OF _ False] by (auto simp: ra_inv_def ra_used_def)
  qed
next
  fix s
  assume "ra_inv s" and "ra_try_alloc s = None"
  then show "{..<2 ^ 64 - 1} \<subseteq> ra_used s"
    by (auto simp: ra_try_alloc_def ra_used_def split: if_splits)
next
  fix s i
  assume "ra_inv s" and "i \<in> ra_used s"
  then show "\<exists>s'. ra_dealloc i s = Some s' \<and> ra_inv s' \<and> ra_used s' = ra_used s - {i} \<and>
      {..<2 ^ 64 - 1} = ({..<2 ^ 64 - 1} :: nat set)"
    by (auto simp: ra_dealloc_def ra_inv_def ra_used_def)
next
  fix s i
  assume "ra_inv s" and "i \<notin> ra_used s"
  then show "ra_dealloc i s = None"
    by (auto simp: ra_dealloc_def ra_used_def)
qed

section \<open>Where stacks and trap contexts are\<close>

lemma below_top:
  assumes "0 < x" and "x \<le> 2 ^ 39"
  shows "((2 ^ 64 - x) mod 2 ^ 39 :: nat) = 2 ^ 39 - x"
proof -
  have "(2 ^ 64 - x :: nat) = (2 ^ 39 - x) + (2 ^ 25 - 1) * 2 ^ 39"
    using assms by simp
  then have "((2 ^ 64 - x) mod 2 ^ 39 :: nat) = (2 ^ 39 - x) mod 2 ^ 39"
    by (simp only: mod_mult_self1)
  then show ?thesis
    using assms by simp
qed

lemma addr_ceil_mult:
  assumes "x \<le> 2 ^ 27"
  shows "addr_ceil (x * 4096) = x"
proof -
  have "usize (x * 4096 + 4096 - 1) = x * 4096 + 4095"
    using assms by (subst usize_id) simp_all
  then show ?thesis
    unfolding addr_ceil_def PAGE_SIZE_def using div_block [of 4095 4096 x] by simp
qed

lemma addr_floor_mult: "addr_floor (x * 4096) = x" "addr_page (x * 4096) = Some x"
  by (simp_all add: addr_page_def page_offset_mod addr_floor_div)

lemma below_top_page:
  assumes "0 < n" and "n \<le> 2 ^ 27"
  shows "VirtAddr_from (2 ^ 64 - n * 4096) = (2 ^ 27 - n) * 4096"
    and "addr_page (VirtAddr_from (2 ^ 64 - n * 4096)) = Some (2 ^ 27 - n)"
    and "addr_floor (VirtAddr_from (2 ^ 64 - n * 4096)) = 2 ^ 27 - n"
    and "addr_ceil (VirtAddr_from (2 ^ 64 - n * 4096)) = 2 ^ 27 - n"
proof -
  have "2 ^ 39 - n * 4096 = (2 ^ 27 - n) * 4096"
    by (simp add: diff_mult_distrib)
  then show v: "VirtAddr_from (2 ^ 64 - n * 4096) = (2 ^ 27 - n) * 4096"
    using assms below_top [of "n * 4096"] by (simp add: VirtAddr_from_mod)
  show "addr_page (VirtAddr_from (2 ^ 64 - n * 4096)) = Some (2 ^ 27 - n)"
    "addr_floor (VirtAddr_from (2 ^ 64 - n * 4096)) = 2 ^ 27 - n" "addr_ceil (VirtAddr_from (2 ^ 64 - n * 4096)) = 2 ^ 27 - n"
    unfolding v by (simp_all only: addr_floor_mult addr_ceil_mult diff_le_self)
qed

lemma kernel_stack_position_eq:
  assumes "3 * i + 3 \<le> 2 ^ 27"
  shows "kernel_stack_position i = (2 ^ 64 - (3 * i + 3) * 4096, 2 ^ 64 - (3 * i + 1) * 4096)"
proof -
  have "usize (i * (KERNEL_STACK_SIZE + PAGE_SIZE)) = 3 * i * 4096"
    using assms by (simp add: KERNEL_STACK_SIZE_def PAGE_SIZE_def usize_id)
  moreover have "usize_sub TRAMPOLINE (3 * i * 4096) = 2 ^ 64 - (3 * i + 1) * 4096"
    using assms by (simp add: TRAMPOLINE_def PAGE_SIZE_def usize_sub_id)
  moreover have "usize_sub (2 ^ 64 - (3 * i + 1) * 4096) KERNEL_STACK_SIZE = 2 ^ 64 - (3 * i + 3) * 4096"
    using assms by (simp add: KERNEL_STACK_SIZE_def usize_sub_id)
  ultimately show ?thesis
    by (simp add: kernel_stack_position_def Let_def)
qed

lemma trap_cx_bottom_eq: "tid + 2 \<le> 2 ^ 27 \<Longrightarrow> trap_cx_bottom_from_tid tid = 2 ^ 64 - (tid + 2) * 4096"
proof -
  assume a: "tid + 2 \<le> 2 ^ 27"
  have "usize (tid * PAGE_SIZE) = tid * 4096"
    using a by (simp add: PAGE_SIZE_def usize_id)
  then show ?thesis
    using a by (simp add: trap_cx_bottom_from_tid_def TRAP_CONTEXT_def TRAMPOLINE_def PAGE_SIZE_def usize_sub_id)
qed

lemma ustack_bottom_eq:
  assumes "n + 3 * tid + 2 \<le> 2 ^ 27"
  shows "ustack_bottom_from_tid (n * 4096) tid = (n + 3 * tid) * 4096"
  using assms by (simp add: ustack_bottom_from_tid_def PAGE_SIZE_def USER_STACK_SIZE_def usize_id)


lemma VirtAddr_from_page: "x < 2 ^ 27 \<Longrightarrow> VirtAddr_from (x * 4096) = x * 4096"
  by (simp add: VirtAddr_from_mod)

definition stack_pages :: "nat \<times> nat \<Rightarrow> nat set" where
  \<comment> \<open>the pages that \<open>insert_framed_area\<close> maps for the addresses from the first to the second\<close>
  "stack_pages bt = {addr_floor (VirtAddr_from (fst bt))..<addr_ceil (VirtAddr_from (snd bt))}"

lemma kernel_stack_pages:
  assumes "3 * i + 3 \<le> 2 ^ 27"
  shows "stack_pages (kernel_stack_position i) = {2 ^ 27 - (3 * i + 3)..<2 ^ 27 - (3 * i + 1)}"
  using assms below_top_page [of "3 * i + 3"] below_top_page [of "3 * i + 1"]
  by (simp only: kernel_stack_position_eq stack_pages_def fst_conv snd_conv)

section \<open>Removing an area\<close>

lemma unmap_loop_spec:
  assumes "pt_inv base pt s" and "map_type a = Framed" and "data_frames a = zip vs ps" and "length ps = length vs"
    and "distinct vs" and "distinct ps" and "set ps \<subseteq> mm_used base s - set (pt_frames pt)"
    and "\<forall>v \<in> set vs. v < 2 ^ 27 \<and> pt_map (ram s) pt v \<noteq> None"
  shows "\<exists>s'. unmap_loop vs a pt s = Some (a\<lparr>data_frames := []\<rparr>, s') \<and> pt_inv base pt s' \<and>
    pt_map (ram s') pt = pt_map (ram s) pt |` (- set vs) \<and> mm_used base s' = mm_used base s - set ps \<and>
    (\<forall>x. x \<notin> set (pt_frames pt) \<longrightarrow> ram s' x = ram s x)"
  using assms
proof (induction vs arbitrary: a ps s)
  case Nil
  then show ?case
    by (cases a) (auto simp: restrict_map_def)
next
  case (Cons v vs)
  obtain p ps' where ps: "ps = p # ps'"
    using Cons.prems(4) by (cases ps) auto
  obtain s1 where s1: "frame_dealloc p s = Some s1" "mm_inv base s1" "mm_used base s1 = mm_used base s - {p}" "ram s1 = ram s"
    using frame_dealloc_spec [of base s p] pt_invD(1) [OF Cons.prems(1)] Cons.prems(7) ps by auto
  have inv1: "pt_inv base pt s1"
    using pt_invD [OF Cons.prems(1)] s1 Cons.prems(7) ps by (auto simp: pt_inv_def)
  have v: "v < 2 ^ 27" "pt_map (ram s1) pt v \<noteq> None"
    using Cons.prems(8) s1(4) by auto
  then obtain b where b: "pt_map (ram s1) pt v = Some b"
    by auto
  obtain m where m: "PageTable_unmap v pt (ram s1) = Some m" "pt_inv base pt (s1\<lparr>ram := m\<rparr>)"
      "pt_map m pt = (pt_map (ram s1) pt)(v := None)" "\<forall>x. x \<notin> set (pt_frames pt) \<longrightarrow> m x = ram s1 x"
    using PageTable_unmap_spec(2) [OF inv1 v(1) b] by auto
  have rm: "bt_remove v (zip (v # vs) (p # ps')) = zip vs ps'"
  proof -
    have "filter (\<lambda>(k, _). k \<noteq> v) (zip vs ps') = zip vs ps'"
      using Cons.prems(5) by (auto simp: filter_id_conv dest: set_zip_leftD)
    then show ?thesis
      by (simp add: bt_remove_def)
  qed
  have one: "unmap_one v a pt s = Some (a\<lparr>data_frames := zip vs ps'\<rparr>, s1\<lparr>ram := m\<rparr>)"
    using Cons.prems(2,3) ps s1(1) m(1) rm by (simp add: unmap_one_def drop_frame_def)
  have "\<forall>w \<in> set vs. w < 2 ^ 27 \<and> pt_map (ram (s1\<lparr>ram := m\<rparr>)) pt w \<noteq> None"
    using Cons.prems(5,8) m(3) s1(4) by auto
  then have "\<exists>s'. unmap_loop vs (a\<lparr>data_frames := zip vs ps'\<rparr>) pt (s1\<lparr>ram := m\<rparr>) =
      Some (a\<lparr>data_frames := zip vs ps', data_frames := []\<rparr>, s') \<and> pt_inv base pt s' \<and>
      pt_map (ram s') pt = pt_map m pt |` (- set vs) \<and> mm_used base s' = mm_used base s1 - set ps' \<and>
      (\<forall>x. x \<notin> set (pt_frames pt) \<longrightarrow> ram s' x = m x)"
    using Cons.IH [OF m(2), of "a\<lparr>data_frames := zip vs ps'\<rparr>" ps'] Cons.prems s1(3) ps by auto
  then obtain s' where s': "unmap_loop vs (a\<lparr>data_frames := zip vs ps'\<rparr>) pt (s1\<lparr>ram := m\<rparr>) = Some (a\<lparr>data_frames := []\<rparr>, s')"
      "pt_inv base pt s'" "pt_map (ram s') pt = pt_map m pt |` (- set vs)" "mm_used base s' = mm_used base s1 - set ps'"
      "\<forall>x. x \<notin> set (pt_frames pt) \<longrightarrow> ram s' x = m x"
    by auto
  have "pt_map (ram s') pt = pt_map (ram s) pt |` (- set (v # vs))"
    using s'(3) m(3) s1(4) by (auto simp: restrict_map_def fun_eq_iff)
  then show ?case
    using one s' s1(3,4) m(4) ps by (intro exI [of _ s']) auto
qed

lemma find_area:
  assumes "areas ms = xs @ a # ys" and "\<forall>b \<in> set xs. range_l (vpn_range b) \<noteq> v" and "range_l (vpn_range a) = v"
  shows "List.find (\<lambda>i. range_l (vpn_range (areas ms ! i)) = v) [0..<length (areas ms)] = Some (length xs)"
proof -
  have "range_l (vpn_range (areas ms ! i)) \<noteq> v" if "i < length xs" for i
    using assms(1,2) that by (auto simp: nth_append)
  then show ?thesis
    unfolding find_Some_iff using assms by (intro exI [of _ "length xs"]) (auto simp: nth_append)
qed

lemma area_zip:
  assumes "area_ok M a"
  shows "data_frames a = zip [range_l (vpn_range a)..<range_r (vpn_range a)] (map snd (data_frames a))"
  using assms unfolding area_ok_def by (metis zip_map_fst_snd)

lemma remove_area_spec:
  assumes inv: "ms_inv base ms s" and split: "areas ms = xs @ a # ys"
    and first: "\<forall>b \<in> set xs. range_l (vpn_range b) \<noteq> range_l (vpn_range a)"
    and alone: "\<forall>b \<in> set (xs @ ys). \<forall>v. range_contains (vpn_range b) v \<longrightarrow> \<not> range_contains (vpn_range a) v"
  shows "\<exists>s'. remove_area_with_start_vpn (range_l (vpn_range a)) ms s = Some (ms\<lparr>areas := xs @ ys\<rparr>, s') \<and>
    ms_inv base (ms\<lparr>areas := xs @ ys\<rparr>) s' \<and>
    pt_map (ram s') (page_table ms) = pt_map (ram s) (page_table ms) |` (- {v. range_contains (vpn_range a) v}) \<and>
    mm_used base s' = mm_used base s - set (map snd (data_frames a)) \<and>
    (\<forall>x. x \<notin> set (pt_frames (page_table ms)) \<longrightarrow> ram s' x = ram s x)"
proof -
  note D = ms_invD [OF inv]
  let ?pt = "page_table ms" and ?vs = "[range_l (vpn_range a)..<range_r (vpn_range a)]" and ?ps = "map snd (data_frames a)"
  have a: "area_ok (pt_map (ram s) ?pt) a"
    using D(4) [of a] split by simp
  have ok: "range_l (vpn_range a) \<le> range_r (vpn_range a)" "range_r (vpn_range a) < 2 ^ 27" "map_type a = Framed"
      "map fst (data_frames a) = ?vs"
    using a by (auto simp: area_ok_def)
  have vs: "set ?vs = {v. range_contains (vpn_range a) v}"
    by (auto simp: range_contains_def)
  have len: "length ?ps = length ?vs"
    using arg_cong [OF ok(4), of length] by simp
  have own: "distinct ?ps" "set ?ps \<subseteq> mm_used base s - set (pt_frames ?pt)"
    using D(2,3) split by (auto simp: ms_owned_def)
  have mapped: "\<forall>v \<in> set ?vs. v < 2 ^ 27 \<and> pt_map (ram s) ?pt v \<noteq> None"
  proof
    fix v assume v: "v \<in> set ?vs"
    then have "v \<in> set (map fst (data_frames a))"
      using ok(4) by (simp del: set_map)
    then show "v < 2 ^ 27 \<and> pt_map (ram s) ?pt v \<noteq> None"
      using v ok(2) a by (auto simp: area_ok_def)
  qed
  obtain s1 where u: "unmap_loop ?vs a ?pt s = Some (a\<lparr>data_frames := []\<rparr>, s1)" "pt_inv base ?pt s1"
      "pt_map (ram s1) ?pt = pt_map (ram s) ?pt |` (- set ?vs)" "mm_used base s1 = mm_used base s - set ?ps"
      "\<forall>x. x \<notin> set (pt_frames ?pt) \<longrightarrow> ram s1 x = ram s x"
    using unmap_loop_spec [OF D(1) ok(3) area_zip [OF a] len distinct_upt own mapped] by auto
  have pages: "range_pages (vpn_range a) = ?vs"
    using range_pages_eq [OF ok(1)] ok(2) by simp
  have rm: "remove_area_with_start_vpn (range_l (vpn_range a)) ms s = Some (ms\<lparr>areas := xs @ ys\<rparr>, s1)"
    using find_area [OF split first refl] split u(1) pages
    by (simp add: remove_area_with_start_vpn_def MapArea_unmap_def drop_area_def nth_append)
  have "area_ok (pt_map (ram s1) ?pt) b" if b: "b \<in> set (xs @ ys)" for b
  proof -
    have bo: "area_ok (pt_map (ram s) ?pt) b"
      using D(4) [of b] b split by auto
    show ?thesis
    proof (rule area_ok_mono [OF bo], clarify)
      fix v q assume "(v, q) \<in> set (data_frames b)"
      then have "\<not> range_contains (vpn_range a) v"
        using alone b range_contains_area [OF bo] by blast
      then show "pt_map (ram s1) ?pt v = pt_map (ram s) ?pt v"
        unfolding u(3) vs by simp
    qed
  qed
  moreover have "distinct (ms_owned (ms\<lparr>areas := xs @ ys\<rparr>))" "set (ms_owned (ms\<lparr>areas := xs @ ys\<rparr>)) \<subseteq> mm_used base s1"
  proof -
    define A where "A = concat (map (\<lambda>a. map snd (data_frames a)) xs)"
    define C where "C = concat (map (\<lambda>a. map snd (data_frames a)) ys)"
    have o: "ms_owned ms = pt_frames ?pt @ A @ ?ps @ C" "ms_owned (ms\<lparr>areas := xs @ ys\<rparr>) = pt_frames ?pt @ A @ C"
      by (simp_all add: ms_owned_def split A_def C_def)
    show "distinct (ms_owned (ms\<lparr>areas := xs @ ys\<rparr>))"
      using D(2) unfolding o distinct_append set_append by blast
    show "set (ms_owned (ms\<lparr>areas := xs @ ys\<rparr>)) \<subseteq> mm_used base s1"
      using D(2,3) unfolding o u(4) distinct_append set_append by blast
  qed
  ultimately have "ms_inv base (ms\<lparr>areas := xs @ ys\<rparr>) s1"
    using u(2) by (auto simp: ms_inv_def)
  then show ?thesis
    using rm u(3-5) unfolding vs by blast
qed


section \<open>Inserting an area of frames\<close>

lemma insert_framed_area_spec:
  assumes inv: "ms_inv base ms s" and perm: "perm < 2 ^ 8" and lr: "l \<le> r" "r < 2 ^ 27"
    and free: "\<forall>v \<in> {l..<r}. pt_map (ram s) (page_table ms) v = None" and room: "3 * (r - l) \<le> mm_free base s"
  shows "\<exists>ms' s' a. insert_framed_area (l * 4096) (r * 4096) perm ms s = Some (ms', s') \<and> ms_inv base ms' s' \<and>
    areas ms' = areas ms @ [a] \<and> vpn_range a = \<lparr>range_l = l, range_r = r\<rparr> \<and> map_perm a = perm \<and>
    pt_map (ram s') (page_table ms') |` (- {l..<r}) = pt_map (ram s) (page_table ms) \<and>
    mm_used base s' = mm_used base s \<union> set (pt_frames (page_table ms')) \<union> set (map snd (data_frames a)) \<and>
    set (map snd (data_frames a)) \<inter> mm_used base s = {} \<and> set (pt_frames (page_table ms)) \<subseteq> set (pt_frames (page_table ms')) \<and>
    mm_free base s \<le> mm_free base s' + 3 * (r - l) \<and>
    (\<forall>p \<in> set (map snd (data_frames a)). ram s' p = Some (replicate PAGE_SIZE 0)) \<and>
    (\<forall>x \<in> mm_used base s - set (pt_frames (page_table ms)). ram s' x = ram s x)"
proof -
  let ?a = "\<lparr>vpn_range = \<lparr>range_l = l, range_r = r\<rparr>, data_frames = [], map_type = Framed, map_perm = perm\<rparr>"
  have n: "MapArea_new (l * 4096) (r * 4096) Framed perm = Some ?a"
    using lr by (simp add: MapArea_new_def SimpleRange_new_def addr_floor_mult addr_ceil_mult)
  obtain ms' s' ps where p: "push ?a None ms s = Some (ms', s')" "ms_inv base ms' s'" "length ps = r - l" "distinct ps"
      "areas ms' = areas ms @ [?a\<lparr>data_frames := zip [l..<r] ps\<rparr>]" "set ps \<inter> mm_used base s = {}"
      "mm_used base s' = mm_used base s \<union> set (ms_owned ms')" "set (ms_owned ms') \<inter> mm_used base s = set (ms_owned ms)"
      "pt_map (ram s') (page_table ms') = pt_map (ram s) (page_table ms) ++ map_of (map (\<lambda>(v, p). (v, area_pte perm p)) (zip [l..<r] ps))"
      "mm_free base s \<le> mm_free base s' + 3 * (r - l)" "concat (map (\<lambda>p. the (ram s' p)) ps) = replicate ((r - l) * PAGE_SIZE) 0"
      "\<forall>x \<in> mm_used base s - set (pt_frames (page_table ms)). ram s' x = ram s x"
    using push_framed_spec [OF inv, of ?a None] perm lr free room by (auto simp: range_contains_def)
  let ?b = "?a\<lparr>data_frames := zip [l..<r] ps\<rparr>"
  have ps: "map snd (data_frames ?b) = ps"
    using p(3) by simp
  note D = ms_invD [OF p(2)]
  have own: "ms_owned ms' = pt_frames (page_table ms') @ concat (map (\<lambda>a. map snd (data_frames a)) (areas ms)) @ ps"
    using ps by (simp add: ms_owned_def p(5))
  have "set (concat (map (\<lambda>a. map snd (data_frames a)) (areas ms))) \<subseteq> mm_used base s"
    using ms_invD(3) [OF inv] by (simp add: ms_owned_def)
  then have used: "mm_used base s' = mm_used base s \<union> set (pt_frames (page_table ms')) \<union> set ps"
    unfolding p(7) own set_append by blast
  have grow: "set (pt_frames (page_table ms)) \<subseteq> set (pt_frames (page_table ms'))"
  proof -
    have "set (ms_owned ms) \<subseteq> set (ms_owned ms')"
      using p(8) by blast
    then show ?thesis
      using ms_invD(2,3) [OF inv] p(6) unfolding own ms_owned_def [of ms] distinct_append set_append by blast
  qed
  have "map_of (map (\<lambda>(v, p). (v, area_pte perm p)) (zip [l..<r] ps)) v = None" if "v \<notin> {l..<r}" for v
    using that by (auto simp: map_of_eq_None_iff dest!: set_zip_leftD)
  then have M: "pt_map (ram s') (page_table ms') |` (- {l..<r}) = pt_map (ram s) (page_table ms)"
    unfolding p(9) using free by (auto simp: restrict_map_def map_add_def fun_eq_iff)
  have zero: "ram s' q = Some (replicate PAGE_SIZE 0)" if "q \<in> set ps" for q
  proof -
    have "q \<in> mm_used base s'"
      using used that by blast
    then obtain pg where pg: "ram s' q = Some pg" "length pg = PAGE_SIZE"
      using mm_used_pool [OF pt_invD(1) [OF D(1)]] pt_invD(1) [OF D(1)] unfolding mm_inv_def by blast
    have "set pg \<subseteq> set (concat (map (\<lambda>p. the (ram s' p)) ps))"
      using that pg(1) by force
    then have "\<forall>b \<in> set pg. b = 0"
      unfolding p(11) by auto
    then show ?thesis
      using pg by (metis replicate_eqI)
  qed
  show ?thesis
    using n p(1,2,5,6,10,12) used M zero ps grow
    by (intro exI [of _ ms'] exI [of _ s'] exI [of _ ?b]) (simp add: insert_framed_area_def)
qed


lemma perms_small: "MAP_R OR MAP_W OR MAP_U < 2 ^ 8" "MAP_R OR MAP_W < 2 ^ 8"
  by (simp_all add: MAP_R_def MAP_W_def MAP_U_def)

lemma user_res_addresses:
  assumes "n + 4 * tid + 4 \<le> 2 ^ 27"
  defines "u \<equiv> n + 3 * tid" and "t \<equiv> 2 ^ 27 - (tid + 2)"
  shows "VirtAddr_from (ustack_bottom_from_tid (n * 4096) tid) = u * 4096"
    and "VirtAddr_from (usize (ustack_bottom_from_tid (n * 4096) tid + USER_STACK_SIZE)) = (u + 2) * 4096"
    and "VirtAddr_from (trap_cx_bottom_from_tid tid) = t * 4096"
    and "VirtAddr_from (usize (trap_cx_bottom_from_tid tid + PAGE_SIZE)) = (t + 1) * 4096"
    and "u + 2 \<le> t" and "t + 1 < 2 ^ 27"
proof -
  show ut: "u + 2 \<le> t" "t + 1 < 2 ^ 27"
    using assms(1) by (auto simp: u_def t_def)
  have u: "ustack_bottom_from_tid (n * 4096) tid = u * 4096"
    using assms(1) ustack_bottom_eq [of n tid] by (simp add: u_def)
  show "VirtAddr_from (ustack_bottom_from_tid (n * 4096) tid) = u * 4096"
    using ut unfolding u by (intro VirtAddr_from_page) simp
  have "usize (u * 4096 + USER_STACK_SIZE) = (u + 2) * 4096"
    using ut by (simp add: USER_STACK_SIZE_def usize_id)
  then show "VirtAddr_from (usize (ustack_bottom_from_tid (n * 4096) tid + USER_STACK_SIZE)) = (u + 2) * 4096"
    using ut unfolding u by (simp only:) (intro VirtAddr_from_page, simp)
  have tb: "trap_cx_bottom_from_tid tid = 2 ^ 64 - (tid + 2) * 4096"
    using assms(1) by (intro trap_cx_bottom_eq) simp
  show "VirtAddr_from (trap_cx_bottom_from_tid tid) = t * 4096"
    unfolding tb t_def using assms(1) by (intro below_top_page(1)) simp_all
  have "usize (2 ^ 64 - (tid + 2) * 4096 + PAGE_SIZE) = 2 ^ 64 - (tid + 1) * 4096"
    using assms(1) by (simp add: PAGE_SIZE_def usize_id)
  moreover have "2 ^ 27 - (tid + 1) = t + 1"
    using assms(1) by (simp add: t_def)
  moreover have "VirtAddr_from (2 ^ 64 - (tid + 1) * 4096) = (2 ^ 27 - (tid + 1)) * 4096"
    using assms(1) by (intro below_top_page(1)) simp_all
  ultimately show "VirtAddr_from (usize (trap_cx_bottom_from_tid tid + PAGE_SIZE)) = (t + 1) * 4096"
    unfolding tb by simp
qed

lemma mapped_after_insert:
  assumes "ms_inv base ms' s'" and "a \<in> set (areas ms')" and "range_contains (vpn_range a) v"
  shows "\<exists>p. (v, p) \<in> set (data_frames a) \<and> pt_map (ram s') (page_table ms') v = Some (area_pte (map_perm a) p) \<and> p < 2 ^ 44"
proof -
  have ok: "area_ok (pt_map (ram s') (page_table ms')) a"
    using ms_invD(4) [OF assms(1,2)] .
  obtain p where "(v, p) \<in> set (data_frames a)"
    by (rule area_pages [OF ok assms(3)])
  then show ?thesis
    using ok by (auto simp: area_ok_def)
qed


lemma unmapped_alone:
  \<comment> \<open>areas cover no page that is not mapped\<close>
  assumes "ms_inv base ms s" and "b \<in> set (areas ms)" and "range_contains (vpn_range b) v"
  shows "pt_map (ram s) (page_table ms) v \<noteq> None"
  using mapped_after_insert [OF assms] by auto

lemma remove_page_map:
  assumes "M2 |` (- B) = M1" and "M1 |` (- A) = M" and "A \<inter> B = {}"
  shows "(M2 |` (- A)) |` (- B) = M"
  unfolding assms(2) [symmetric] assms(1) [symmetric] by (simp add: Int_commute)

lemma trap_cx_translate:
  assumes inv: "ms_inv base ms s" and t: "t < 2 ^ 27" "VirtAddr_from (trap_cx_bottom_from_tid (tur_tid r)) = t * 4096"
    and m: "pt_map (ram s) (page_table ms) t = Some (area_pte perm p)" "p < 2 ^ 44" "perm < 2 ^ 8"
  shows "trap_cx_ppn r ms (ram s) = Some p"
  using translate_spec(1) [OF pt_invD(2) [OF ms_invD(1) [OF inv]] t(1)] m
  by (simp add: trap_cx_ppn_def t(2) addr_floor_mult MemorySet_translate_def area_pte_ppn)

section \<open>Properties\<close>

text \<open>
  C39. Kernel stacks with different identifiers (as many as fit into the 39-bit address space) share no
  page; each has two pages, the page below each is a guard that belongs to no kernel stack, and none
  of them reaches the page of the trampoline.
\<close>

theorem kernel_stacks_apart:
  assumes "i < j" and "3 * j + 3 \<le> 2 ^ 27" and "3 * k + 3 \<le> 2 ^ 27"
  shows "stack_pages (kernel_stack_position i) \<inter> stack_pages (kernel_stack_position j) = {} \<and>
    card (stack_pages (kernel_stack_position i)) = 2 \<and>
    addr_floor (VirtAddr_from (fst (kernel_stack_position i))) - 1 \<notin> stack_pages (kernel_stack_position k) \<and>
    TRAMPOLINE_VPN \<notin> stack_pages (kernel_stack_position k)"
proof -
  have i: "3 * i + 3 \<le> 2 ^ 27" "3 * i + 3 < 2 ^ 27"
    using assms by simp_all
  have f: "addr_floor (VirtAddr_from (fst (kernel_stack_position i))) = 2 ^ 27 - (3 * i + 3)"
    using below_top_page(3) [of "3 * i + 3"] i by (simp only: kernel_stack_position_eq fst_conv)
  have g: "2 ^ 27 - (3 * i + 3) - 1 \<notin> {2 ^ 27 - (3 * k + 3)..<2 ^ 27 - (3 * k + 1)}"
  proof
    assume "2 ^ 27 - (3 * i + 3) - 1 \<in> {2 ^ 27 - (3 * k + 3)..<2 ^ 27 - (3 * k + 1)}"
    then have "3 * i + 4 \<le> 3 * k + 3 \<and> 3 * k + 1 < 3 * i + 4"
      using i(2) assms(3) by auto
    then show False
      by presburger
  qed
  show ?thesis
    using assms i g unfolding kernel_stack_pages [OF i(1)] kernel_stack_pages [OF assms(2)] kernel_stack_pages [OF assms(3)] f
    by (auto simp: TRAMPOLINE_VPN_def)
qed

theorem kernel_stacks_apart_witness:
  "stack_pages (kernel_stack_position 0) \<inter> stack_pages (kernel_stack_position 1) = {}"
  using kernel_stacks_apart [of 0 1 0] by simp

text \<open>
  The resources of a thread: in an address space where the pages of its user stack and of its trap
  context are free and no area starts there, allocating them maps two pages of stack that the user
  may read and write and a trap context that only the kernel may access, which \<open>trap_cx_ppn\<close> finds;
  deallocating them afterwards leaves the areas and the mapped pages as they were before and
  gives every frame back but those of the page tables.
\<close>

theorem thread_resources_round_trip:
  assumes inv: "ms_inv base ms s" and fit: "n + 4 * tid + 4 \<le> 2 ^ 27" and room: "9 \<le> mm_free base s"
    and r: "r = \<lparr>tur_tid = tid, tur_ustack_base = n * 4096\<rparr>" and u: "u = n + 3 * tid" and t: "t = 2 ^ 27 - (tid + 2)"
    and free: "\<forall>v \<in> {u, u + 1, t}. pt_map (ram s) (page_table ms) v = None"
    and start: "\<forall>b \<in> set (areas ms). range_l (vpn_range b) \<noteq> u \<and> range_l (vpn_range b) \<noteq> t"
  shows "\<exists>ms2 s2 ms3 s3. alloc_user_res r ms s = Some (ms2, s2) \<and> ms_inv base ms2 s2 \<and>
    (\<forall>v \<in> {u, u + 1}. \<exists>p. pt_map (ram s2) (page_table ms2) v = Some (area_pte (MAP_R OR MAP_W OR MAP_U) p)) \<and>
    (\<exists>p. pt_map (ram s2) (page_table ms2) t = Some (area_pte (MAP_R OR MAP_W) p) \<and> trap_cx_ppn r ms2 (ram s2) = Some p) \<and>
    dealloc_user_res r ms2 s2 = Some (ms3, s3) \<and> ms_inv base ms3 s3 \<and> areas ms3 = areas ms \<and>
    pt_map (ram s3) (page_table ms3) = pt_map (ram s) (page_table ms) \<and>
    mm_used base s3 = mm_used base s \<union> set (pt_frames (page_table ms3))"
proof -
  note A = user_res_addresses [OF fit, folded u t]
  have f1: "\<forall>v \<in> {u..<u + 2}. pt_map (ram s) (page_table ms) v = None"
    using free by (auto simp: numeral_2_eq_2 less_Suc_eq le_less)
  have lr: "u \<le> u + 2" "u + 2 < 2 ^ 27" "3 * (u + 2 - u) \<le> mm_free base s" "t \<le> t + 1"
    using A(5,6) room by simp_all
  from insert_framed_area_spec [OF inv perms_small(1) lr(1,2) f1 lr(3)]
  obtain ms1 s1 a1 where i1: "insert_framed_area (u * 4096) ((u + 2) * 4096) (MAP_R OR MAP_W OR MAP_U) ms s = Some (ms1, s1)"
      "ms_inv base ms1 s1" "areas ms1 = areas ms @ [a1]" "vpn_range a1 = \<lparr>range_l = u, range_r = u + 2\<rparr>"
      "map_perm a1 = MAP_R OR MAP_W OR MAP_U"
      "pt_map (ram s1) (page_table ms1) |` (- {u..<u + 2}) = pt_map (ram s) (page_table ms)"
      "mm_used base s1 = mm_used base s \<union> set (pt_frames (page_table ms1)) \<union> set (map snd (data_frames a1))"
      "set (map snd (data_frames a1)) \<inter> mm_used base s = {}" "mm_free base s \<le> mm_free base s1 + 3 * (u + 2 - u)"
    by blast
  have f2: "\<forall>v \<in> {t..<t + 1}. pt_map (ram s1) (page_table ms1) v = None"
  proof
    fix v assume "v \<in> {t..<t + 1}"
    then have "v = t" "v \<in> - {u..<u + 2}"
      using A(5) by auto
    then show "pt_map (ram s1) (page_table ms1) v = None"
      using fun_cong [OF i1(6), of v] free by simp
  qed
  have room1: "3 * (t + 1 - t) \<le> mm_free base s1"
    using i1(9) room by simp
  from insert_framed_area_spec [OF i1(2) perms_small(2) lr(4) A(6) f2 room1]
  obtain ms2 s2 a2 where i2: "insert_framed_area (t * 4096) ((t + 1) * 4096) (MAP_R OR MAP_W) ms1 s1 = Some (ms2, s2)"
      "ms_inv base ms2 s2" "areas ms2 = areas ms1 @ [a2]" "vpn_range a2 = \<lparr>range_l = t, range_r = t + 1\<rparr>"
      "map_perm a2 = MAP_R OR MAP_W"
      "pt_map (ram s2) (page_table ms2) |` (- {t..<t + 1}) = pt_map (ram s1) (page_table ms1)"
      "mm_used base s2 = mm_used base s1 \<union> set (pt_frames (page_table ms2)) \<union> set (map snd (data_frames a2))"
      "set (map snd (data_frames a2)) \<inter> mm_used base s1 = {}" "set (pt_frames (page_table ms1)) \<subseteq> set (pt_frames (page_table ms2))"
    by blast
  have al: "alloc_user_res r ms s = Some (ms2, s2)"
    using i1(1) i2(1) A(1-4) by (simp add: alloc_user_res_def r Let_def)
  have as2: "areas ms2 = areas ms @ a1 # [a2]"
    by (simp add: i1(3) i2(3))
  have c1: "range_contains (vpn_range a1) v \<longleftrightarrow> v \<in> {u..<u + 2}" for v
    by (auto simp: i1(4) range_contains_def)
  have c2: "range_contains (vpn_range a2) v \<longleftrightarrow> v \<in> {t..<t + 1}" for v
    by (auto simp: i2(4) range_contains_def)
  have e: "{v. range_contains (vpn_range a1) v} = {u..<u + 2}" "{v. range_contains (vpn_range a2) v} = {t..<t + 1}"
      "range_l (vpn_range a1) = u" "range_l (vpn_range a2) = t"
    by (auto simp: c1 c2) (simp_all add: i1(4) i2(4))
  have apart: "\<not> range_contains (vpn_range b) v" if "b \<in> set (areas ms)" "v \<in> {u..<u + 2} \<union> {t..<t + 1}" for b v
    using unmapped_alone [OF inv that(1), of v] that(2) f1 free by auto
  have al1: "\<forall>b \<in> set (areas ms @ [a2]). \<forall>v. range_contains (vpn_range b) v \<longrightarrow> \<not> range_contains (vpn_range a1) v"
    using apart A(5) unfolding c1 by (auto simp: c2)
  have st1: "\<forall>b \<in> set (areas ms). range_l (vpn_range b) \<noteq> range_l (vpn_range a1)"
    using start by (simp add: i1(4))
  from remove_area_spec [OF i2(2) as2 st1 al1]
  obtain s3 where r1: "remove_area_with_start_vpn u ms2 s2 = Some (ms2\<lparr>areas := areas ms @ [a2]\<rparr>, s3)"
      "ms_inv base (ms2\<lparr>areas := areas ms @ [a2]\<rparr>) s3"
      "pt_map (ram s3) (page_table ms2) = pt_map (ram s2) (page_table ms2) |` (- {u..<u + 2})"
      "mm_used base s3 = mm_used base s2 - set (map snd (data_frames a1))"
    unfolding e by blast
  have as3: "areas (ms2\<lparr>areas := areas ms @ [a2]\<rparr>) = areas ms @ a2 # []"
    by simp
  have al2: "\<forall>b \<in> set (areas ms @ []). \<forall>v. range_contains (vpn_range b) v \<longrightarrow> \<not> range_contains (vpn_range a2) v"
    using apart unfolding c2 by auto
  have st2: "\<forall>b \<in> set (areas ms). range_l (vpn_range b) \<noteq> range_l (vpn_range a2)"
    using start by (simp add: i2(4))
  let ?ms3 = "ms2\<lparr>areas := areas ms\<rparr>"
  from remove_area_spec [OF r1(2) as3 st2 al2]
  obtain s4 where r2: "remove_area_with_start_vpn t (ms2\<lparr>areas := areas ms @ [a2]\<rparr>) s3 = Some (?ms3, s4)" "ms_inv base ?ms3 s4"
      "pt_map (ram s4) (page_table ms2) = pt_map (ram s3) (page_table ms2) |` (- {t..<t + 1})"
      "mm_used base s4 = mm_used base s3 - set (map snd (data_frames a2))"
    unfolding e append_Nil2 by (auto simp del: set_map)
  have de: "dealloc_user_res r ms2 s2 = Some (?ms3, s4)"
    using r1(1) r2(1) A(1,3) by (simp add: dealloc_user_res_def r addr_floor_mult)
  have M: "pt_map (ram s4) (page_table ?ms3) = pt_map (ram s) (page_table ms)"
    using remove_page_map [OF i2(6) i1(6)] A(5) r1(3) r2(3) by auto
  have stack: "\<exists>p. pt_map (ram s2) (page_table ms2) v = Some (area_pte (MAP_R OR MAP_W OR MAP_U) p)" if "v \<in> {u, u + 1}" for v
    using mapped_after_insert [OF i2(2), of a1 v] that by (auto simp: as2 c1 i1(5))
  obtain p where p: "pt_map (ram s2) (page_table ms2) t = Some (area_pte (MAP_R OR MAP_W) p)" "p < 2 ^ 44"
    using mapped_after_insert [OF i2(2), of a2 t] by (auto simp: as2 c2 i2(5))
  have "trap_cx_ppn r ms2 (ram s2) = Some p"
    using trap_cx_translate [OF i2(2) _ _ p perms_small(2), of r] A(3,6) by (simp add: r)
  moreover have "mm_used base s4 = mm_used base s \<union> set (pt_frames (page_table ?ms3))"
  proof -
    have own: "set (pt_frames (page_table ms2)) \<inter> set (map snd (data_frames a1)) = {}" "set (pt_frames (page_table ms2)) \<inter> set (map snd (data_frames a2)) = {}"
      "set (map snd (data_frames a1)) \<inter> set (map snd (data_frames a2)) = {}"
      using ms_invD(2) [OF i2(2)] unfolding ms_owned_def as2 by auto
    show ?thesis
      unfolding r2(4) r1(4) i2(7) i1(7) using own i1(8) i2(8,9) i1(7) by auto
  qed
  ultimately show ?thesis
    using al i2(2) stack p(1) de r2(2) M by (intro exI [of _ ms2] exI [of _ s2] exI [of _ ?ms3] exI [of _ s4]) simp
qed


theorem thread_resources_round_trip_witness:
  "\<exists>ms s ms2 s2 ms3 s3. ms_inv 16 ms s \<and> alloc_user_res \<lparr>tur_tid = 1, tur_ustack_base = 16 * 4096\<rparr> ms s = Some (ms2, s2) \<and>
    dealloc_user_res \<lparr>tur_tid = 1, tur_ustack_base = 16 * 4096\<rparr> ms2 s2 = Some (ms3, s3) \<and> areas ms3 = []"
proof -
  obtain ms s where a: "ms_inv 16 ms s" "areas ms = []" "pt_map (ram s) (page_table ms) = Map.empty" "mm_free 16 s = 15"
    by (rule sample_space)
  have p: "(16 :: nat) + 4 * 1 + 4 \<le> 2 ^ 27" "9 \<le> mm_free 16 s"
    "\<forall>v \<in> {16 + 3 * 1, 16 + 3 * 1 + 1, 2 ^ 27 - (1 + 2)}. pt_map (ram s) (page_table ms) v = None"
    "\<forall>b \<in> set (areas ms). range_l (vpn_range b) \<noteq> 16 + 3 * 1 \<and> range_l (vpn_range b) \<noteq> 2 ^ 27 - (1 + 2)"
    using a by simp_all
  show ?thesis
    using thread_resources_round_trip [OF a(1) p(1,2) refl refl refl p(3,4)] a(1) unfolding a(2) by blast
qed

end
