(* ===== verification/Mmap.thy ===== *)
theory Mmap
  imports SysFs TaskId
begin

text \<open>
  Memory mappings: the reservations of a process and its file mappings (\<^verbatim>\<open>os/src/task/process.rs\<close>), the
  system calls \<open>mmap\<close> and \<open>munmap\<close> (\<^verbatim>\<open>os/src/syscall/mem.rs\<close>) and the page-fault handler that fills
  mappings on demand (\<^verbatim>\<open>os/src/task/mem.rs\<close>). Frames and memory are in the state \<open>mm\<close>; of the open files
  (\<open>kfiles\<close>) only the table and the disk are used here.
\<close>

section \<open>Reservations and ranges of files\<close>

definition MMAP_AREA_BASE :: nat where "MMAP_AREA_BASE = 0x100000000"

datatype MMapType = MMemory | MFile

record MMapReserve =
  mr_range :: VPNRange
  mr_perm :: nat
  mr_ty :: MMapType

type_synonym VirtAddressAllocator = VirtAddr \<comment> \<open>\<open>curr_va\<close>\<close>

definition VirtAddressAllocator_new :: "nat \<Rightarrow> VirtAddressAllocator" where
  "VirtAddressAllocator_new base = VirtAddr_from base"

definition va_alloc :: "nat \<Rightarrow> VirtAddressAllocator \<Rightarrow> VirtAddr \<times> VirtAddressAllocator" where
  "va_alloc len curr_va = (let fin = VirtAddr_from (usize (curr_va + len)) in (curr_va, page_addr (addr_ceil fin)))"

record MapRange =
  rg_start :: VirtAddr
  rg_end :: VirtAddr
  rg_len :: nat
  rg_offset :: nat

definition MapRange_new :: "nat \<Rightarrow> nat \<Rightarrow> nat \<Rightarrow> MapRange" where
  "MapRange_new start len offset =
     \<lparr>rg_start = VirtAddr_from start, rg_end = VirtAddr_from (usize (start + len)), rg_len = len, rg_offset = offset\<rparr>"

definition MapRange_contains_va :: "MapRange \<Rightarrow> VirtAddr \<Rightarrow> bool" where
  "MapRange_contains_va r va \<longleftrightarrow> rg_start r \<le> va \<and> va < rg_end r"

definition contains_range :: "MapRange \<Rightarrow> VPNRange \<Rightarrow> bool" where
  "contains_range r rng \<longleftrightarrow> addr_floor (rg_start r) \<le> range_l rng \<and> range_r rng \<le> addr_ceil (rg_end r)"

definition equals_range :: "MapRange \<Rightarrow> VPNRange \<Rightarrow> bool" where
  "equals_range r rng \<longleftrightarrow> addr_floor (rg_start r) = range_l rng \<and> addr_ceil (rg_end r) = range_r rng"

definition file_offset :: "MapRange \<Rightarrow> VirtPageNum \<Rightarrow> nat option" where
  "file_offset r vpn = (let va = page_addr vpn in do {
     ensure (rg_start r \<le> va \<and> va < rg_end r);
     Some (usize (rg_offset r + (va - rg_start r))) })"

section \<open>File mappings\<close>

record FileMapping =
  fm_file :: Inode
  fm_ranges :: "MapRange list"
  fm_frames :: "PhysPageNum list"
  fm_map :: "(nat \<times> VirtPageNum \<times> PhysPageNum) list" \<comment> \<open>by file offset\<close>
  fm_pt :: PageTable

definition FileMapping_new_empty :: "Inode \<Rightarrow> nat \<Rightarrow> FileMapping" where
  "FileMapping_new_empty file token =
     \<lparr>fm_file = file, fm_ranges = [], fm_frames = [], fm_map = [], fm_pt = PageTable_from_token token\<rparr>"

definition FileMapping_contains_va :: "FileMapping \<Rightarrow> VirtAddr \<Rightarrow> bool" where
  "FileMapping_contains_va fm va \<longleftrightarrow> (\<exists>r \<in> set (fm_ranges fm). MapRange_contains_va r va)"

definition FileMapping_map :: "VirtAddr \<Rightarrow> FileMapping \<Rightarrow> mm \<Rightarrow> ((PhysPageNum \<times> MapRange \<times> bool) option \<times> FileMapping \<times> mm) option" where
  "FileMapping_map va fm s =
     (case List.find (\<lambda>r. MapRange_contains_va r va) (fm_ranges fm) of
        None \<Rightarrow> Some (None, fm, s)
      | Some r \<Rightarrow> do {
          offset \<leftarrow> file_offset r (addr_floor va);
          case map_of (fm_map fm) offset of
            Some (_, ppn) \<Rightarrow> Some (Some (ppn, r, True), fm, s)
          | None \<Rightarrow> do {
              (frame, s) \<leftarrow> frame_alloc s;
              ppn \<leftarrow> frame;
              Some (Some (ppn, r, False),
                fm\<lparr>fm_frames := fm_frames fm @ [ppn], fm_map := bt_insert offset (addr_floor va, ppn) (fm_map fm)\<rparr>, s) } })"

definition sync_len :: "MapRange list \<Rightarrow> nat \<Rightarrow> nat option" where
  \<comment> \<open>\<open>va_len\<close>: the longest part of the page that a range covers; \<open>max().unwrap()\<close> of no ranges panics\<close>
  "sync_len rs offset = (if rs = [] then None else
     Some (Max (set (map (\<lambda>r. if rg_offset r \<le> offset \<and> offset < rg_offset r + rg_len r
       then min PAGE_SIZE (rg_offset r + rg_len r - offset) else 0) rs))))"

fun sync_loop :: "EasyFileSystem \<Rightarrow> FileMapping \<Rightarrow> nat \<Rightarrow> (nat \<times> VirtPageNum \<times> PhysPageNum) list \<Rightarrow> ram \<Rightarrow> disk \<Rightarrow> disk option" where
  "sync_loop efs fm file_size [] m d = Some d"
| "sync_loop efs fm file_size ((offset, vpn, ppn) # es) m d = do {
     r \<leftarrow> translate (fm_pt fm) vpn m;
     pte \<leftarrow> r;
     if \<not> pte_is_dirty pte then sync_loop efs fm file_size es m d
     else if file_size \<le> offset then sync_loop efs fm file_size es m d
     else do {
       va_len \<leftarrow> sync_len (fm_ranges fm) offset;
       let write_len = min va_len (file_size - offset);
       pg \<leftarrow> m ppn;
       (_, d) \<leftarrow> Inode_write_at efs (fm_file fm) offset (take write_len pg) d;
       sync_loop efs fm file_size es m d } }"

definition FileMapping_sync :: "EasyFileSystem \<Rightarrow> FileMapping \<Rightarrow> ram \<Rightarrow> disk \<Rightarrow> disk option" where
  "FileMapping_sync efs fm m d = do {
     file_size \<leftarrow> get_size (fm_file fm) d;
     sync_loop efs fm file_size (fm_map fm) m d }"

fun copy_mapped :: "FileMapping \<Rightarrow> (nat \<times> VirtPageNum \<times> PhysPageNum) list \<Rightarrow> MemorySet \<Rightarrow> mm \<Rightarrow>
    ((nat \<times> VirtPageNum \<times> PhysPageNum) list \<times> PhysPageNum list \<times> MemorySet \<times> mm) option" where
  \<comment> \<open>the loop of \<open>copy_to_user\<close>: the new map and the new frames\<close>
  "copy_mapped fm [] ms s = Some ([], [], ms, s)"
| "copy_mapped fm ((offset, vpn, orig_ppn) # es) ms s = do {
     (frame, s) \<leftarrow> frame_alloc s;
     ppn \<leftarrow> frame;
     r \<leftarrow> translate (fm_pt fm) vpn (ram s);
     orig_pte \<leftarrow> r;
     let perm = pte_flags orig_pte AND (MAP_R OR MAP_W OR MAP_X OR MAP_U);
     (ms, s) \<leftarrow> MemorySet_map vpn ppn perm ms s;
     pg \<leftarrow> ram s orig_ppn;
     let s = s\<lparr>ram := (ram s)(ppn \<mapsto> pg)\<rparr>;
     (mp, fs, ms, s) \<leftarrow> copy_mapped fm es ms s;
     Some ((offset, vpn, ppn) # mp, ppn # fs, ms, s) }"

definition copy_to_user :: "FileMapping \<Rightarrow> MemorySet \<Rightarrow> mm \<Rightarrow> (FileMapping \<times> MemorySet \<times> mm) option" where
  "copy_to_user fm ms s = do {
     (mp, fs, ms, s) \<leftarrow> copy_mapped fm (fm_map fm) ms s;
     Some (\<lparr>fm_file = fm_file fm, fm_ranges = fm_ranges fm, fm_frames = fs, fm_map = mp,
       fm_pt = PageTable_from_token (MemorySet_token ms)\<rparr>, ms, s) }"

definition FileMapping_drop :: "FileMapping \<Rightarrow> mm \<Rightarrow> mm option" where
  "FileMapping_drop fm s = dealloc_many frame_dealloc (fm_frames fm) s"

section \<open>The mappings of a process\<close>

record mmap_proc =
  memory_set :: MemorySet
  mmap_mapped :: "MMapReserve list"
  mmap_va_allocator :: VirtAddressAllocator
  file_mappings :: "FileMapping list"

fun copy_file_mappings :: "FileMapping list \<Rightarrow> MemorySet \<Rightarrow> mm \<Rightarrow> (FileMapping list \<times> MemorySet \<times> mm) option" where
  "copy_file_mappings [] ms s = Some ([], ms, s)"
| "copy_file_mappings (fm # fms) ms s = do {
     (fm, ms, s) \<leftarrow> copy_to_user fm ms s;
     (fms, ms, s) \<leftarrow> copy_file_mappings fms ms s;
     Some (fm # fms, ms, s) }"

definition find_file_mapping :: "Inode \<Rightarrow> 'a mmap_proc_scheme \<Rightarrow> nat option" where
  "find_file_mapping file P = find_index (\<lambda>fm. inode_id (fm_file fm) = inode_id file) (file_mappings P)"

fun any_valid :: "VirtPageNum list \<Rightarrow> MemorySet \<Rightarrow> ram \<Rightarrow> bool option" where
  "any_valid [] ms m = Some False"
| "any_valid (v # vs) ms m = do {
     r \<leftarrow> MemorySet_translate ms v m;
     case r of
       Some pte \<Rightarrow> if pte_valid pte then Some True else any_valid vs ms m
     | None \<Rightarrow> any_valid vs ms m }"

definition vpn_range_free :: "VPNRange \<Rightarrow> 'a mmap_proc_scheme \<Rightarrow> ram \<Rightarrow> bool option" where
  "vpn_range_free rg P m =
     (if \<exists>v \<in> set (mmap_mapped P). overlap_with rg (mr_range v) then Some False
      else do { b \<leftarrow> any_valid (range_pages rg) (memory_set P) m; Some (\<not> b) })"

section \<open>Page faults\<close>

definition handle_page_fault :: "nat \<Rightarrow> 'a mmap_proc_scheme \<Rightarrow> disk \<Rightarrow> mm \<Rightarrow> (bool \<times> 'a mmap_proc_scheme \<times> mm) option" where
  "handle_page_fault fault_addr P d s =
     (let fault_va = VirtAddr_from fault_addr; fault_vpn = addr_floor fault_va in do {
        r \<leftarrow> MemorySet_translate (memory_set P) fault_vpn (ram s);
        if (case r of Some pte \<Rightarrow> pte_valid pte | None \<Rightarrow> False) then Some (False, P, s)
        else case List.find (\<lambda>v. range_contains (mr_range v) fault_vpn) (mmap_mapped P) of
          None \<Rightarrow> Some (False, P, s)
        | Some v \<Rightarrow>
           (case mr_ty v of
              MMemory \<Rightarrow> do {
                (ms, s) \<leftarrow> insert_framed_area (page_addr (range_l (mr_range v))) (page_addr (range_r (mr_range v))) (mr_perm v)
                  (memory_set P) s;
                Some (True, P\<lparr>memory_set := ms\<rparr>, s) }
            | MFile \<Rightarrow>
               (case find_index (\<lambda>fm. FileMapping_contains_va fm fault_va) (file_mappings P) of
                  None \<Rightarrow> Some (False, P, s)
                | Some i \<Rightarrow> do {
                    let fm = file_mappings P ! i;
                    (r, fm, s) \<leftarrow> FileMapping_map fault_va fm s;
                    (ppn, rg, is_shared) \<leftarrow> r;
                    let P = P\<lparr>file_mappings := (file_mappings P)[i := fm]\<rparr>;
                    (ms, s) \<leftarrow> MemorySet_map fault_vpn ppn (mr_perm v) (memory_set P) s;
                    let P = P\<lparr>memory_set := ms\<rparr>;
                    if is_shared then Some (True, P, s)
                    else do {
                      file_size \<leftarrow> get_size (fm_file fm) d;
                      off \<leftarrow> file_offset rg fault_vpn;
                      ensure (off < file_size);
                      let read_len = min PAGE_SIZE (file_size - off);
                      pg \<leftarrow> ram s ppn;
                      (_, buf) \<leftarrow> Inode_read_at (fm_file fm) off (take read_len pg) d;
                      Some (True, P, s\<lparr>ram := (ram s)(ppn \<mapsto> buf @ drop read_len pg)\<rparr>) } })) })"

section \<open>System calls\<close>

definition map_fixed :: "nat \<Rightarrow> bool" where
  \<comment> \<open>\<open>MMapFlags::MAP_FIXED\<close>, bit 1 of the flags\<close>
  "map_fixed fl \<longleftrightarrow> bit fl 1"

definition map_file :: "nat \<Rightarrow> bool" where
  "map_file fl \<longleftrightarrow> bit fl 0"

definition place_mapping :: "nat \<Rightarrow> nat \<Rightarrow> nat \<Rightarrow> 'a mmap_proc_scheme \<Rightarrow> (VirtAddr \<times> VPNRange \<times> 'a mmap_proc_scheme) option" where
  \<comment> \<open>the start address and the pages of a new mapping\<close>
  "place_mapping start len fl P = do {
     let (start_va, va) = (if map_fixed fl then (VirtAddr_from start, mmap_va_allocator P) else va_alloc len (mmap_va_allocator P));
     rg \<leftarrow> SimpleRange_new (addr_floor start_va) (addr_ceil (VirtAddr_from (usize (start_va + len))));
     Some (start_va, rg, P\<lparr>mmap_va_allocator := va\<rparr>) }"

definition do_mmap_memory :: "nat \<Rightarrow> nat \<Rightarrow> nat \<Rightarrow> nat \<Rightarrow> 'a mmap_proc_scheme \<Rightarrow> mm \<Rightarrow> (int \<times> 'a mmap_proc_scheme) option" where
  "do_mmap_memory start len perm fl P s = do {
     (start_va, rg, P) \<leftarrow> place_mapping start len fl P;
     free \<leftarrow> vpn_range_free rg P (ram s);
     if \<not> free then Some (- 1, P)
     else Some (int (page_addr (range_l rg)),
       P\<lparr>mmap_mapped := mmap_mapped P @ [\<lparr>mr_range = rg, mr_perm = perm, mr_ty = MMemory\<rparr>]\<rparr>) }"

definition do_mmap_file :: "nat \<Rightarrow> nat \<Rightarrow> nat \<Rightarrow> nat \<Rightarrow> nat \<Rightarrow> nat \<Rightarrow> pfiles \<Rightarrow> kfiles \<Rightarrow> 'a mmap_proc_scheme \<Rightarrow> mm \<Rightarrow> (int \<times> 'a mmap_proc_scheme) option" where
  "do_mmap_file start len perm fl fd offset p k P s =
     (if fd \<le> 2 then Some (- 1, P)
      else case fd_get fd p of
        None \<Rightarrow> Some (- 1, P)
      | Some f \<Rightarrow> do {
          r \<leftarrow> fd_inode f k;
          case r of
            None \<Rightarrow> Some (- 1, P)
          | Some x \<Rightarrow> do {
              is_file \<leftarrow> Inode_is_file (os_inode x) (kf_disk k);
              if \<not> is_file then Some (- 1, P)
              else if perm AND MAP_R = MAP_R \<and> \<not> os_readable x \<or> perm AND MAP_W = MAP_W \<and> \<not> os_writable x then Some (- 1, P)
              else do {
                let file = os_inode x;
                file_size \<leftarrow> get_size file (kf_disk k);
                if len > file_size \<or> offset > file_size - len then Some (- 1, P)
                else do {
                  (start_va, rg, P) \<leftarrow> place_mapping start len fl P;
                  free \<leftarrow> vpn_range_free rg P (ram s);
                  if \<not> free then Some (- 1, P)
                  else do {
                    let P = P\<lparr>mmap_mapped := mmap_mapped P @ [\<lparr>mr_range = rg, mr_perm = perm, mr_ty = MFile\<rparr>]\<rparr>;
                    let mr = MapRange_new start_va len offset;
                    let fms = (case find_file_mapping file P of
                        Some i \<Rightarrow> (file_mappings P)[i := (file_mappings P ! i)\<lparr>fm_ranges := fm_ranges (file_mappings P ! i) @ [mr]\<rparr>]
                      | None \<Rightarrow> file_mappings P @ [(FileMapping_new_empty file (MemorySet_token (memory_set P)))\<lparr>fm_ranges := [mr]\<rparr>]);
                    Some (int (page_addr (range_l rg)), P\<lparr>file_mappings := fms\<rparr>) } } } } })"

definition sys_mmap :: "nat \<Rightarrow> nat \<Rightarrow> nat \<Rightarrow> nat \<Rightarrow> nat \<Rightarrow> nat \<Rightarrow> pfiles \<Rightarrow> kfiles \<Rightarrow> 'a mmap_proc_scheme \<Rightarrow> mm \<Rightarrow> (int \<times> 'a mmap_proc_scheme) option" where
  \<comment> \<open>\<open>VA_MAX - len\<close> does not wrap, as \<open>len\<close> is a \<open>usize\<close>\<close>
  "sys_mmap start len prot fl fd offset p k P s =
     (if map_fixed fl \<and> (start AND 0xfff \<noteq> 0 \<or> len = 0 \<or> 2 ^ 64 - 1 - len \<le> start) then Some (- 1, P)
      else if prot div 8 \<noteq> 0 \<or> prot mod 8 = 0 then Some (- 1, P)
      else let perm = push_bit 1 prot OR MAP_U in
        if map_file fl then do_mmap_file start len perm fl fd offset p k P s
        else do_mmap_memory start len perm fl P s)"

fun unmap_memory :: "VirtPageNum list \<Rightarrow> MemorySet \<Rightarrow> ram \<Rightarrow> (bool \<times> ram) option" where
  \<comment> \<open>\<open>False\<close>: the early return of \<open>-1\<close>\<close>
  "unmap_memory [] ms m = Some (True, m)"
| "unmap_memory (v # vs) ms m = do {
     r \<leftarrow> MemorySet_translate ms v m;
     case r of
       Some pte \<Rightarrow> if \<not> pte_valid pte then Some (False, m) else do { m \<leftarrow> MemorySet_unmap v ms m; unmap_memory vs ms m }
     | None \<Rightarrow> unmap_memory vs ms m }"

fun unmap_file :: "VirtPageNum list \<Rightarrow> MemorySet \<Rightarrow> ram \<Rightarrow> ram option" where
  "unmap_file [] ms m = Some m"
| "unmap_file (v # vs) ms m = do { m \<leftarrow> MemorySet_unmap v ms m; unmap_file vs ms m }"

definition drop_nth :: "nat \<Rightarrow> 'a list \<Rightarrow> 'a list" where
  \<comment> \<open>\<open>Vec::remove\<close>\<close>
  "drop_nth i xs = take i xs @ drop (Suc i) xs"

definition ranges_of :: "VPNRange \<Rightarrow> FileMapping list \<Rightarrow> (nat \<times> nat) list" where
  \<comment> \<open>the mapping and the range the nested loops find; more than one panics\<close>
  "ranges_of rg fms = concat (map (\<lambda>i. map (Pair i) (filter (\<lambda>j. contains_range (fm_ranges (fms ! i) ! j) rg) [0..<length (fm_ranges (fms ! i))]))
     [0..<length fms])"

definition sys_munmap :: "nat \<Rightarrow> nat \<Rightarrow> EasyFileSystem \<Rightarrow> 'a mmap_proc_scheme \<Rightarrow> disk \<Rightarrow> mm \<Rightarrow> (int \<times> 'a mmap_proc_scheme \<times> disk \<times> mm) option" where
  "sys_munmap start len efs P d s =
     (if start AND 0xfff \<noteq> 0 \<or> 2 ^ 64 - 1 - len \<le> start then Some (- 1, P, d, s)
      else do {
        rg \<leftarrow> SimpleRange_new (addr_floor (VirtAddr_from start)) (addr_ceil (VirtAddr_from (usize (start + len))));
        case find_index (\<lambda>v. mr_range v = rg) (mmap_mapped P) of
          None \<Rightarrow> Some (- 1, P, d, s)
        | Some idx \<Rightarrow>
           (case mr_ty (mmap_mapped P ! idx) of
              MMemory \<Rightarrow> do {
                (ok, m) \<leftarrow> unmap_memory (range_pages rg) (memory_set P) (ram s);
                if ok then Some (0, P\<lparr>mmap_mapped := drop_nth idx (mmap_mapped P)\<rparr>, d, s\<lparr>ram := m\<rparr>)
                else Some (- 1, P, d, s\<lparr>ram := m\<rparr>) }
            | MFile \<Rightarrow>
               (case ranges_of rg (file_mappings P) of
                  [(i, j)] \<Rightarrow> do {
                    let fm = file_mappings P ! i;
                    d \<leftarrow> FileMapping_sync efs fm (ram s) d;
                    let fm = (if equals_range (fm_ranges fm ! j) rg then fm\<lparr>fm_ranges := drop_nth j (fm_ranges fm)\<rparr> else fm);
                    (fms, s) \<leftarrow> (if fm_ranges fm = []
                      then do { s \<leftarrow> FileMapping_drop fm s; Some (drop_nth i (file_mappings P), s) }
                      else Some ((file_mappings P)[i := fm], s));
                    m \<leftarrow> unmap_file (range_pages rg) (memory_set P) (ram s);
                    Some (0, P\<lparr>file_mappings := fms, mmap_mapped := drop_nth idx (mmap_mapped P)\<rparr>, d, s\<lparr>ram := m\<rparr>) }
                | _ \<Rightarrow> None)) })"


section \<open>Lemmas\<close>

lemma page_addr_small: "v < 2 ^ 27 \<Longrightarrow> page_addr v = v * 4096"
  by (simp add: page_addr_mult)

lemma and_fff: "(a :: nat) AND 0xfff = a mod 4096"
  using take_bit_eq_mask [of 12 a] by (simp add: take_bit_eq_mod mask_eq_exp_minus_1)

lemma translate_unmapped:
  assumes "pt_ok m (page_table ms)" and "v < 2 ^ 27" and "pt_map m (page_table ms) v = None"
  obtains r where "MemorySet_translate ms v m = Some r" and "\<not> (case r of Some pte \<Rightarrow> pte_valid pte | None \<Rightarrow> False)"
  using translate_spec(2) [OF assms] that unfolding MemorySet_translate_def by (metis option.case(1) option.case(2))

lemma translate_mapped:
  assumes "pt_ok m (page_table ms)" and "v < 2 ^ 27" and "pt_map m (page_table ms) v = Some b"
  shows "MemorySet_translate ms v m = Some (Some b)" and "pte_valid b"
  using translate_spec(1) [OF assms] by (simp_all add: MemorySet_translate_def)

lemma any_valid_spec:
  assumes "pt_ok m (page_table ms)" and "\<forall>v \<in> set vs. v < 2 ^ 27"
  shows "any_valid vs ms m = Some (\<exists>v \<in> set vs. pt_map m (page_table ms) v \<noteq> None)"
  using assms(2)
proof (induction vs)
  case (Cons v vs)
  show ?case
  proof (cases "pt_map m (page_table ms) v")
    case None
    then obtain r where "MemorySet_translate ms v m = Some r" "\<not> (case r of Some pte \<Rightarrow> pte_valid pte | None \<Rightarrow> False)"
      using translate_unmapped [OF assms(1), of v] Cons.prems by auto
    then show ?thesis
      using None Cons by (auto split: option.splits)
  next
    case (Some b)
    then show ?thesis
      using translate_mapped [OF assms(1) _ Some] Cons.prems by auto
  qed
qed simp

lemma overlap_iff:
  assumes "range_l a < range_r a" and "range_l b < range_r b" and "range_r a < 2 ^ 64" and "range_r b < 2 ^ 64"
  shows "overlap_with a b \<longleftrightarrow> (\<exists>v. range_contains a v \<and> range_contains b v)"
proof -
  have s: "step (range_l a) = range_l a + 1" "step (range_l b) = range_l b + 1"
    using assms by (simp_all add: step_def usize_def)
  show ?thesis
    unfolding overlap_with_def s Let_def using assms
    by (auto simp: range_contains_def intro: exI [of _ "max (range_l a) (range_l b)"])
qed

lemma find_pte_neighbour:
  assumes ok: "pt_ok m pt" and v: "pt_map m pt v = Some b" and u: "u div 512 = v div 512"
  shows "\<exists>b'. translate pt u m = Some (Some b')"
proof -
  obtain i j k where iv: "indexes v = [i, j, k]" "i < 512" "j < 512" "k < 512"
    by (rule indexes_cases)
  obtain i' j' k' where iu: "indexes u = [i', j', k']" "k' < 512"
    by (rule indexes_cases)
  have "u div 2 ^ 18 = v div 2 ^ 18"
    using u div_mult2_eq [of u 512 512] div_mult2_eq [of v 512 512] by simp
  then have "i' = i" "j' = j"
    using iv(1) iu(1) u by (simp_all add: indexes_eq)
  have pv: "path_ok [i, j]"
    using iv by (simp add: path_ok_def)
  have "pt_entry m pt v = Some b"
    using v by (auto simp: pt_map_def restrict_map_def split: if_splits)
  then obtain g where g: "node m (root_ppn pt) [i, j] = Some g"
    by (auto simp: pt_entry_def iv(1) bind_eq_Some_conv)
  obtain pg where pg: "m g = Some pg" "length pg = PAGE_SIZE"
    using pt_okD(2) [OF ok pv g] by blast
  show ?thesis
    using find_pte_node [OF ok iu(1)] iu(2) g pg \<open>i' = i\<close> \<open>j' = j\<close>
    by (auto simp: translate_def)
qed

lemma fault_at_mapped_page:
  assumes "pt_ok (ram s) (page_table (memory_set P))" and "fault_addr < 2 ^ 39"
    and "pt_map (ram s) (page_table (memory_set P)) (fault_addr div 4096) = Some b"
  shows "handle_page_fault fault_addr P d s = Some (False, P, s)"
proof -
  have "fault_addr div 4096 < 2 ^ 27"
    using assms(2) by (simp add: div_less_iff_less_mult)
  moreover have "VirtAddr_from fault_addr = fault_addr"
    using assms(2) by (simp add: VirtAddr_from_mod)
  ultimately show ?thesis
    using translate_mapped [OF assms(1) _ assms(3)] by (simp add: handle_page_fault_def addr_floor_div)
qed

lemma unmap_memory_all:
  assumes "pt_inv base (page_table ms) s" and "\<forall>v \<in> set vs. v < 2 ^ 27 \<and> pt_map (ram s) (page_table ms) v \<noteq> None" and "distinct vs"
  shows "\<exists>m. unmap_memory vs ms (ram s) = Some (True, m) \<and> pt_inv base (page_table ms) (s\<lparr>ram := m\<rparr>) \<and>
    pt_map m (page_table ms) = pt_map (ram s) (page_table ms) |` (- set vs)"
  using assms
proof (induction vs arbitrary: s)
  case Nil
  then show ?case
    by simp
next
  case (Cons v vs)
  obtain b where b: "v < 2 ^ 27" "pt_map (ram s) (page_table ms) v = Some b"
    using Cons.prems(2) by auto
  obtain m where m: "PageTable_unmap v (page_table ms) (ram s) = Some m" "pt_inv base (page_table ms) (s\<lparr>ram := m\<rparr>)"
    "pt_map m (page_table ms) = (pt_map (ram s) (page_table ms))(v := None)"
    using PageTable_unmap_spec(2) [OF Cons.prems(1) b] by blast
  obtain m' where m': "unmap_memory vs ms m = Some (True, m')" "pt_inv base (page_table ms) (s\<lparr>ram := m'\<rparr>)"
    "pt_map m' (page_table ms) = pt_map m (page_table ms) |` (- set vs)"
    using Cons.IH [OF m(2)] Cons.prems(2,3) m(3) by fastforce
  have "unmap_memory (v # vs) ms (ram s) = Some (True, m')"
    using translate_mapped [OF pt_invD(2) [OF Cons.prems(1)] b] m(1) m'(1) by (simp add: MemorySet_unmap_def)
  then show ?case
    using m'(2,3) m(3) by (auto simp: restrict_map_def fun_eq_iff)
qed

lemma unmap_memory_neighbour:
  assumes "pt_ok m (page_table ms)" and "pt_map m (page_table ms) v = Some b" and "u div 512 = v div 512" and "u < 2 ^ 27"
    and "pt_map m (page_table ms) u = None"
  shows "unmap_memory (u # vs) ms m = Some (False, m)"
proof -
  obtain r where r: "MemorySet_translate ms u m = Some r" "\<not> (case r of Some pte \<Rightarrow> pte_valid pte | None \<Rightarrow> False)"
    by (rule translate_unmapped [OF assms(1,4,5)])
  obtain b' where "MemorySet_translate ms u m = Some (Some b')"
    using find_pte_neighbour [OF assms(1-3)] by (auto simp: MemorySet_translate_def)
  then show ?thesis
    using r by simp
qed

lemma page_span:
  assumes "start mod 4096 = 0" and "0 < len" and "start + len < 2 ^ 39" and "l = start div 4096" and "e = (start + len + 4095) div 4096"
  shows "l < e" and "e \<le> 2 ^ 27" and "VirtAddr_from start = start" and "addr_floor (VirtAddr_from start) = l"
    and "addr_ceil (VirtAddr_from (usize (start + len))) = e" and "page_addr l = start"
proof -
  have "start < e * 4096"
    using assms(2,5) div_mult_mod_eq [of "start + len + 4095" 4096] mod_less_divisor [of 4096 "start + len + 4095"] by linarith
  then show "l < e"
    using assms(4) by (simp add: div_less_iff_less_mult)
  show "e \<le> 2 ^ 27"
    using div_le_mono [of "start + len + 4095" "2 ^ 39 + 4094" 4096] assms(3,5) by simp
  have va: "VirtAddr_from start = start" "VirtAddr_from (usize (start + len)) = start + len" "addr_ceil (start + len) = e"
    using assms(3,5) by (simp_all add: VirtAddr_from_mod usize_def addr_ceil_def PAGE_SIZE_def)
  show "VirtAddr_from start = start" "addr_floor (VirtAddr_from start) = l" "addr_ceil (VirtAddr_from (usize (start + len))) = e"
    using va assms(4) by (simp_all add: addr_floor_div)
  show "page_addr l = start"
    using assms(1,3,4) by (subst page_addr_small) (auto simp: div_less_iff_less_mult)
qed

definition reservations_ok :: "'a mmap_proc_scheme \<Rightarrow> bool" where
  "reservations_ok P \<longleftrightarrow>
     (\<forall>r \<in> set (mmap_mapped P). range_l (mr_range r) < range_r (mr_range r) \<and> range_r (mr_range r) \<le> 2 ^ 27) \<and>
     sorted_wrt (\<lambda>r r'. \<forall>v. \<not> (range_contains (mr_range r) v \<and> range_contains (mr_range r') v)) (mmap_mapped P)"

definition reserved_pages :: "'a mmap_proc_scheme \<Rightarrow> VirtPageNum set" where
  "reserved_pages P = {v. \<exists>r \<in> set (mmap_mapped P). range_contains (mr_range r) v}"

lemma frames_function:
  assumes "map fst ps = [l..<e]" and "distinct (map snd ps)"
  shows "\<exists>f. ps = map (\<lambda>u. (u, f u)) [l..<e] \<and> inj_on f {l..<e}"
proof -
  have d: "distinct (map fst ps)"
    unfolding assms(1) by simp
  let ?f = "\<lambda>u. the (map_of ps u)"
  have "map (\<lambda>u. (u, ?f u)) (map fst ps) = ps"
    using map_of_is_SomeI [OF d] by (auto intro!: map_idI)
  then have ps: "ps = map (\<lambda>u. (u, ?f u)) [l..<e]"
    by (simp add: assms(1))
  then have "map snd ps = map ?f [l..<e]"
    by (metis (no_types, lifting) list.map_comp comp_def snd_conv map_eq_conv)
  then have "inj_on ?f {l..<e}"
    using assms(2) by (simp add: distinct_map)
  with ps show ?thesis
    by (intro exI [of _ ?f] conjI)
qed

section \<open>Properties\<close>

text \<open>
  C12. A page fault inside a reservation of memory that is not filled yet: the handler maps every page \<open>v\<close> of the reservation to
  a frame \<open>f v\<close> of its own that was free, is zeroed, and is mapped with exactly the permissions of the reservation and the valid flag. It takes
  no frames but these and those of the page table, leaves all other pages and the contents of all other frames in use as they were, and reports the
  fault as fixed; a second fault at the same address is not one of a missing page and is reported as not fixed.
\<close>

theorem page_fault_fills_reservation:
  assumes inv: "ms_inv base (memory_set P) s" and addr: "fault_addr < 2 ^ 39"
    and r: "List.find (\<lambda>r. range_contains (mr_range r) (fault_addr div 4096)) (mmap_mapped P) = Some r" "mr_ty r = MMemory" "mr_perm r < 2 ^ 8"
    and rg: "l = range_l (mr_range r)" "e = range_r (mr_range r)" "e < 2 ^ 27"
    and free: "\<forall>v \<in> {l..<e}. pt_map (ram s) (page_table (memory_set P)) v = None" and room: "3 * (e - l) \<le> mm_free base s"
  shows "\<exists>P' s' f. handle_page_fault fault_addr P d s = Some (True, P', s') \<and> ms_inv base (memory_set P') s' \<and>
    inj_on f {l..<e} \<and> f ` {l..<e} \<inter> mm_used base s = {} \<and>
    (\<forall>v \<in> {l..<e}. f v < 2 ^ 44 \<and> pt_map (ram s') (page_table (memory_set P')) v = Some (PageTableEntry_new (f v) (mr_perm r OR PTE_V)) \<and>
      vm_page (memory_set P') (ram s') v = Some (replicate PAGE_SIZE 0)) \<and>
    mm_used base s' = mm_used base s \<union> set (pt_frames (page_table (memory_set P'))) \<union> f ` {l..<e} \<and>
    (\<forall>x \<in> mm_used base s - set (pt_frames (page_table (memory_set P))). ram s' x = ram s x) \<and>
    (\<forall>v. v \<notin> {l..<e} \<longrightarrow> pt_map (ram s') (page_table (memory_set P')) v = pt_map (ram s) (page_table (memory_set P)) v) \<and>
    P' = P\<lparr>memory_set := memory_set P'\<rparr> \<and> handle_page_fault fault_addr P' d s' = Some (False, P', s')"
proof -
  let ?v = "fault_addr div 4096" and ?ms = "memory_set P"
  have va: "VirtAddr_from fault_addr = fault_addr"
    using addr by (simp add: VirtAddr_from_mod)
  have v: "l \<le> ?v" "?v < e"
    using r(1) rg by (auto simp: find_Some_iff range_contains_def)
  have pa: "page_addr l = l * 4096" "page_addr e = e * 4096"
    using v rg(3) by (intro page_addr_small; linarith)+
  have le: "l \<le> e"
    using v by simp
  obtain ms' s' a where i: "insert_framed_area (l * 4096) (e * 4096) (mr_perm r) ?ms s = Some (ms', s')" "ms_inv base ms' s'"
    "areas ms' = areas ?ms @ [a]" "vpn_range a = \<lparr>range_l = l, range_r = e\<rparr>"
    "pt_map (ram s') (page_table ms') |` (- {l..<e}) = pt_map (ram s) (page_table ?ms)"
    "\<forall>p \<in> set (map snd (data_frames a)). ram s' p = Some (replicate PAGE_SIZE 0)" "map_perm a = mr_perm r"
    "mm_used base s' = mm_used base s \<union> set (pt_frames (page_table ms')) \<union> set (map snd (data_frames a))"
    "set (map snd (data_frames a)) \<inter> mm_used base s = {}" "\<forall>x \<in> mm_used base s - set (pt_frames (page_table ?ms)). ram s' x = ram s x"
    using insert_framed_area_spec [OF inv r(3) le rg(3) free room] by blast
  have ok: "area_ok (pt_map (ram s') (page_table ms')) a"
    using ms_invD(4) [OF i(2)] i(3) by simp
  have fst: "map fst (data_frames a) = [l..<e]"
    using ok i(4) by (simp add: area_ok_def)
  have snd: "distinct (map snd (data_frames a))"
    using ms_invD(2) [OF i(2)] by (simp add: ms_owned_def i(3))
  obtain f where f: "data_frames a = map (\<lambda>u. (u, f u)) [l..<e]" "inj_on f {l..<e}"
    using frames_function [OF fst snd] by auto
  have fr: "set (map snd (data_frames a)) = f ` {l..<e}"
    by (simp add: f(1) image_image)
  have page: "vm_page ms' (ram s') u = Some (replicate PAGE_SIZE 0)"
    "pt_map (ram s') (page_table ms') u = Some (PageTableEntry_new (f u) (mr_perm r OR PTE_V))" "f u < 2 ^ 44" if "u \<in> {l..<e}" for u
  proof -
    have p: "(u, f u) \<in> set (data_frames a)"
      using that by (simp add: f(1))
    then show "vm_page ms' (ram s') u = Some (replicate PAGE_SIZE 0)"
      using vm_page_area [OF ok p] i(6) by force
    show "pt_map (ram s') (page_table ms') u = Some (PageTableEntry_new (f u) (mr_perm r OR PTE_V))" "f u < 2 ^ 44"
      using ok p i(7) by (auto simp: area_ok_def area_pte_def)
  qed
  have other: "pt_map (ram s') (page_table ms') u = pt_map (ram s) (page_table ?ms) u" if "u \<notin> {l..<e}" for u
    using fun_cong [OF i(5), of u] that by (simp add: restrict_map_def)
  obtain t where t: "MemorySet_translate ?ms ?v (ram s) = Some t" "\<not> (case t of Some pte \<Rightarrow> pte_valid pte | None \<Rightarrow> False)"
    using translate_unmapped [OF pt_invD(2) [OF ms_invD(1) [OF inv]], of ?v] free v rg(3) by auto
  let ?P = "P\<lparr>memory_set := ms'\<rparr>"
  have h1: "handle_page_fault fault_addr P d s = Some (True, ?P, s')"
    using t r i(1) rg pa by (simp add: handle_page_fault_def va addr_floor_div)
  have "vm_page ms' (ram s') ?v \<noteq> None"
    using page v by simp
  then obtain b where "pt_map (ram s') (page_table ms') ?v = Some b"
    by (auto simp: vm_page_def)
  then have "handle_page_fault fault_addr ?P d s' = Some (False, ?P, s')"
    using fault_at_mapped_page [of s' ?P fault_addr] pt_invD(2) [OF ms_invD(1) [OF i(2)]] addr by simp
  then show ?thesis
    using h1 i(2,8-10) f(2) page other unfolding fr by (intro exI [of _ ?P] exI [of _ s'] exI [of _ f]) simp
qed

theorem page_fault_fills_reservation_witness:
  "\<exists>(P :: mmap_proc) s P' s' d. handle_page_fault 4100 P d s = Some (True, P', s') \<and> vm_page (memory_set P') (ram s') 1 = Some (replicate PAGE_SIZE 0) \<and>
    handle_page_fault 4100 P' d s' = Some (False, P', s')"
proof -
  obtain ms s where a: "ms_inv 16 ms s" "areas ms = []" "pt_map (ram s) (page_table ms) = Map.empty" "mm_free 16 s = 15"
    by (rule sample_space)
  let ?r = "\<lparr>mr_range = \<lparr>range_l = 1, range_r = 3\<rparr>, mr_perm = MAP_R OR MAP_W OR MAP_U, mr_ty = MMemory\<rparr>"
  let ?P = "\<lparr>memory_set = ms, mmap_mapped = [?r], mmap_va_allocator = MMAP_AREA_BASE, file_mappings = []\<rparr>"
  have f: "List.find (\<lambda>r. range_contains (mr_range r) (4100 div 4096)) (mmap_mapped ?P) = Some ?r" "mr_ty ?r = MMemory" "mr_perm ?r < 2 ^ 8"
    using perms_small(1) by (simp_all add: range_contains_def)
  have h: "ms_inv 16 (memory_set ?P) s" "(4100 :: nat) < 2 ^ 39" "1 = range_l (mr_range ?r)" "3 = range_r (mr_range ?r)" "(3 :: nat) < 2 ^ 27"
    "\<forall>v \<in> {1..<3}. pt_map (ram s) (page_table (memory_set ?P)) v = None" "3 * (3 - 1) \<le> mm_free 16 s"
    using a by simp_all
  obtain P' s' where "handle_page_fault 4100 ?P Map.empty s = Some (True, P', s')"
    "\<forall>v \<in> {1..<3}. vm_page (memory_set P') (ram s') v = Some (replicate PAGE_SIZE 0)"
    "handle_page_fault 4100 P' Map.empty s' = Some (False, P', s')"
    using page_fault_fills_reservation [OF h(1,2) f h(3-7), where d = Map.empty] by (elim exE conjE) simp
  then show ?thesis
    by (intro exI [of _ ?P] exI [of _ s] exI [of _ P'] exI [of _ s'] exI [of _ Map.empty]) simp
qed

text \<open>
  C14. \<open>mmap\<close> of memory at a fixed, aligned address: the call succeeds exactly when no page of the range is reserved or mapped, and then
  reserves exactly these pages with the permissions asked for and the user flag, so that the reservations of the process stay
  disjoint; otherwise it answers \<open>-1\<close> and changes nothing.
\<close>

theorem mmap_fixed_reserves:
  assumes inv: "ms_inv base (memory_set P) s" and res: "reservations_ok P"
    and args: "start mod 4096 = 0" "0 < len" "start + len < 2 ^ 39" "prot \<in> {1..7}" "map_fixed fl" "\<not> map_file fl"
    and e: "e = (start + len + 4095) div 4096"
    and P': "P' = P\<lparr>mmap_mapped := mmap_mapped P @ [\<lparr>mr_range = \<lparr>range_l = start div 4096, range_r = e\<rparr>, mr_perm = 2 * prot OR MAP_U, mr_ty = MMemory\<rparr>]\<rparr>"
  shows "(if \<exists>v \<in> {start div 4096..<e}. v \<in> reserved_pages P \<or> pt_map (ram s) (page_table (memory_set P)) v \<noteq> None
     then sys_mmap start len prot fl fd off p k P s = Some (- 1, P)
     else sys_mmap start len prot fl fd off p k P s = Some (int start, P') \<and> reservations_ok P')"
proof -
  let ?l = "start div 4096" let ?rg = "\<lparr>range_l = ?l, range_r = e\<rparr>"
  note L = page_span [OF args(1-3) refl e] and le = page_span(1,2) [OF args(1-3) refl e]
  have place: "place_mapping start len fl P = Some (start, ?rg, P)"
    using L args(5) by (simp add: place_mapping_def SimpleRange_new_def)
  have pages: "range_pages ?rg = [?l..<e]"
    using le by (simp add: range_pages_eq)
  have over: "(\<exists>r \<in> set (mmap_mapped P). overlap_with ?rg (mr_range r)) \<longleftrightarrow> (\<exists>v \<in> {?l..<e}. v \<in> reserved_pages P)"
  proof -
    have "overlap_with ?rg (mr_range r) \<longleftrightarrow> (\<exists>v. range_contains ?rg v \<and> range_contains (mr_range r) v)" if "r \<in> set (mmap_mapped P)" for r
      using that res le by (intro overlap_iff) (auto simp: reservations_ok_def)
    then have "(\<exists>r \<in> set (mmap_mapped P). overlap_with ?rg (mr_range r)) \<longleftrightarrow>
      (\<exists>r \<in> set (mmap_mapped P). \<exists>v. range_contains ?rg v \<and> range_contains (mr_range r) v)"
      by (rule bex_cong [OF refl])
    then show ?thesis
      by (fastforce simp: reserved_pages_def range_contains_def)
  qed
  have val: "any_valid (range_pages ?rg) (memory_set P) (ram s) = Some (\<exists>v \<in> {?l..<e}. pt_map (ram s) (page_table (memory_set P)) v \<noteq> None)"
    using any_valid_spec [OF pt_invD(2) [OF ms_invD(1) [OF inv]], of "[?l..<e]"] le(2) by (simp add: pages)
  have free: "vpn_range_free ?rg P (ram s) =
    Some (\<not> (\<exists>v \<in> {?l..<e}. v \<in> reserved_pages P \<or> pt_map (ram s) (page_table (memory_set P)) v \<noteq> None))"
    unfolding vpn_range_free_def over val by auto
  have guards: "start AND 0xfff = 0" "\<not> 2 ^ 64 - 1 - len \<le> start" "prot div 8 = 0" "prot mod 8 \<noteq> 0" "push_bit 1 prot = 2 * prot"
    using args(1-4) by (auto simp: and_fff push_bit_eq_mult)
  have call: "sys_mmap start len prot fl fd off p k P s = do_mmap_memory start len (2 * prot OR MAP_U) fl P s"
    using guards args by (simp add: sys_mmap_def mult.commute)
  have keep: "reservations_ok P'" if "\<not> (\<exists>v \<in> {?l..<e}. v \<in> reserved_pages P)"
    using that res le unfolding P' by (auto simp: reservations_ok_def sorted_wrt_append reserved_pages_def range_contains_def)
  show ?thesis
    using keep by (auto simp: call do_mmap_memory_def place free L(6) P')
qed

theorem mmap_fixed_reserves_witness:
  "\<exists>(P :: mmap_proc) s P'. reservations_ok P' \<and> (\<forall>p k. sys_mmap 8192 5000 3 2 0 0 p k P s = Some (8192, P') \<and> sys_mmap 12288 2 2 2 0 0 p k P' s = Some (- 1, P'))"
proof -
  obtain ms s where a: "ms_inv 16 ms s" "areas ms = []" "pt_map (ram s) (page_table ms) = Map.empty"
    by (rule sample_space)
  let ?P = "\<lparr>memory_set = ms, mmap_mapped = [], mmap_va_allocator = MMAP_AREA_BASE, file_mappings = []\<rparr>"
  let ?P' = "?P\<lparr>mmap_mapped := mmap_mapped ?P @ [\<lparr>mr_range = \<lparr>range_l = 8192 div 4096, range_r = 4\<rparr>, mr_perm = 2 * 3 OR MAP_U, mr_ty = MMemory\<rparr>]\<rparr>"
  have f: "map_fixed 2" "\<not> map_file 2"
    by (simp_all add: map_fixed_def map_file_def bit_Suc_0_iff)
  have ok: "ms_inv 16 (memory_set ?P) s" "reservations_ok ?P" "ms_inv 16 (memory_set ?P') s"
    using a by (simp_all add: reservations_ok_def)
  have e: "4 = ((8192 :: nat) + 5000 + 4095) div 4096" "4 = ((12288 :: nat) + 2 + 4095) div 4096"
    by simp_all
  have 1: "sys_mmap 8192 5000 3 2 0 0 p k ?P s = Some (8192, ?P')" "reservations_ok ?P'" for p k
    using mmap_fixed_reserves [OF ok(1,2) _ _ _ _ f e(1) refl, where prot = 3 and fd = 0 and off = 0 and p = p and k = k] a
    by (simp_all add: reserved_pages_def)
  have taken: "\<exists>v \<in> {12288 div 4096..<4}. v \<in> reserved_pages ?P' \<or> pt_map (ram s) (page_table (memory_set ?P')) v \<noteq> None"
    by (rule bexI [of _ 3]) (simp_all add: reserved_pages_def range_contains_def)
  have 2: "sys_mmap 12288 2 2 2 0 0 p k ?P' s = Some (- 1, ?P')" for p k
    using mmap_fixed_reserves [OF ok(3) 1(2) _ _ _ _ f e(2) refl, where prot = 2 and fd = 0 and off = 0 and p = p and k = k]
    unfolding if_P [OF taken] by simp
  show ?thesis
    using 1 2 by (intro exI [of _ ?P] exI [of _ s] exI [of _ ?P']) simp
qed

text \<open>
  Without the fixed flag the address of a mapping of memory comes from a counter of the process, and nothing bounds the
  length: a length that takes the end of the mapping past the 39-bit address space makes the range of pages run backwards,
  which \<open>VPNRange::new\<close> answers with a panic of the kernel, whatever the state of the process.
\<close>

theorem mmap_long_length_panics:
  assumes "mmap_va_allocator P = 4096 * a" and "2 ^ 39 \<le> 4096 * a + len" and "a < 2 ^ 27" and "len \<le> 2 ^ 39 - 4096" and "prot \<in> {1..7}"
    and "\<not> map_fixed fl" and "\<not> map_file fl"
  shows "sys_mmap start len prot fl fd off p k P s = None"
proof -
  have a: "4096 * a < 2 ^ 39"
    using assms(3) by simp
  have va: "VirtAddr_from (usize (4096 * a + len)) = 4096 * a + len - 2 ^ 39"
    using a assms(2,4) by (simp add: VirtAddr_from_mod usize_def mod_if)
  have "addr_ceil (4096 * a + len - 2 ^ 39) < a"
  proof -
    have "addr_ceil (4096 * a + len - 2 ^ 39) * 4096 < 4096 * a + len - 2 ^ 39 + 4096"
      using a assms(4) by (intro addr_ceil_bounds) simp
    then show ?thesis
      using assms(2,4) by simp
  qed
  then have "place_mapping start len fl P = None"
    using assms(1,6) by (simp add: place_mapping_def va_alloc_def va SimpleRange_new_def addr_floor_div Let_def ensure_def)
  then show ?thesis
    using assms(5-7) by (simp add: sys_mmap_def do_mmap_memory_def)
qed

theorem mmap_long_length_panics_witness:
  "\<forall>p k ms s. sys_mmap 0 (2 ^ 39 - 4096) 1 0 0 0 p k \<lparr>memory_set = ms, mmap_mapped = [], mmap_va_allocator = VirtAddressAllocator_new MMAP_AREA_BASE, file_mappings = []\<rparr> s = None"
  by (intro allI, rule mmap_long_length_panics [where a = "0x100000"])
    (simp_all add: VirtAddressAllocator_new_def MMAP_AREA_BASE_def VirtAddr_from_mod map_fixed_def map_file_def)

text \<open>
  C15. \<open>munmap\<close> of a reservation of memory. When every page of it has been touched, so that the page-fault handler has mapped it, the
  call unmaps exactly these pages, removes the reservation and answers 0, but gives no frame back to the allocator. When the reservation was
  never touched and a page of the same 2 MiB region as its first page is mapped, the call fails with \<open>-1\<close> and the reservation stays:
  the entry of the first page is then found in the page table, but is not valid.
\<close>

theorem munmap_memory_outcome:
  assumes inv: "pt_inv base (page_table (memory_set P)) s" and args: "start mod 4096 = 0" "0 < len" "start + len < 2 ^ 39"
    and l: "l = start div 4096" "e = (start + len + 4095) div 4096" and res: "find_index (\<lambda>r. mr_range r = \<lparr>range_l = l, range_r = e\<rparr>) (mmap_mapped P) = Some i"
    "mr_ty (mmap_mapped P ! i) = MMemory"
    and M: "M = pt_map (ram s) (page_table (memory_set P))"
  shows "((\<forall>v \<in> {l..<e}. M v \<noteq> None) \<longrightarrow> (\<exists>m. sys_munmap start len efs P d s = Some (0, P\<lparr>mmap_mapped := drop_nth i (mmap_mapped P)\<rparr>, d, s\<lparr>ram := m\<rparr>) \<and>
      pt_inv base (page_table (memory_set P)) (s\<lparr>ram := m\<rparr>) \<and> pt_map m (page_table (memory_set P)) = M |` (- {l..<e}))) \<and>
    ((\<forall>v \<in> {l..<e}. M v = None) \<and> u div 512 = l div 512 \<and> M u \<noteq> None \<longrightarrow> sys_munmap start len efs P d s = Some (- 1, P, d, s))"
proof -
  let ?rg = "\<lparr>range_l = l, range_r = e\<rparr>" and ?ms = "memory_set P"
  note L = page_span [OF args l]
  have g: "start AND 0xfff = 0" "\<not> 2 ^ 64 - 1 - len \<le> start"
    using args by (auto simp: and_fff)
  have rg: "SimpleRange_new (addr_floor (VirtAddr_from start)) (addr_ceil (VirtAddr_from (usize (start + len)))) = Some ?rg"
    using L by (simp add: SimpleRange_new_def)
  have pages: "range_pages ?rg = l # [Suc l..<e]"
    using L by (simp add: range_pages_eq upt_conv_Cons)
  have call: "sys_munmap start len efs P d s = do {
      (ok, m) \<leftarrow> unmap_memory (l # [Suc l..<e]) ?ms (ram s);
      if ok then Some (0, P\<lparr>mmap_mapped := drop_nth i (mmap_mapped P)\<rparr>, d, s\<lparr>ram := m\<rparr>) else Some (- 1, P, d, s\<lparr>ram := m\<rparr>) }"
    unfolding sys_munmap_def rg using g res by (simp add: pages)
  have "\<exists>m. sys_munmap start len efs P d s = Some (0, P\<lparr>mmap_mapped := drop_nth i (mmap_mapped P)\<rparr>, d, s\<lparr>ram := m\<rparr>) \<and>
      pt_inv base (page_table ?ms) (s\<lparr>ram := m\<rparr>) \<and> pt_map m (page_table ?ms) = M |` (- {l..<e})" if "\<forall>v \<in> {l..<e}. M v \<noteq> None"
  proof -
    have "l # [Suc l..<e] = [l..<e]"
      using L by (simp add: upt_conv_Cons)
    then show ?thesis
      using unmap_memory_all [OF inv, of "[l..<e]"] that L unfolding call M by auto
  qed
  moreover have "sys_munmap start len efs P d s = Some (- 1, P, d, s)" if "\<forall>v \<in> {l..<e}. M v = None" "u div 512 = l div 512" "M u \<noteq> None"
  proof -
    from that(3) obtain b where "pt_map (ram s) (page_table ?ms) u = Some b"
      using M by auto
    then have "unmap_memory (l # [Suc l..<e]) ?ms (ram s) = Some (False, ram s)"
      using that(1,2) L(1,2) M by (intro unmap_memory_neighbour [OF pt_invD(2) [OF inv], of u b l]) auto
    then show ?thesis
      unfolding call by (simp del: unmap_memory.simps)
  qed
  ultimately show ?thesis
    by blast
qed

theorem munmap_memory_outcome_witness:
  "\<exists>efs0 (P :: mmap_proc) s P' s'. pt_map (ram s) (page_table (memory_set P)) 1 \<noteq> None \<and> sys_munmap 4096 8192 efs0 P Map.empty s = Some (0, P', Map.empty, s') \<and>
    pt_map (ram s') (page_table (memory_set P')) 1 = None \<and> sys_munmap 12288 2 efs0 P Map.empty s = Some (- 1, P, Map.empty, s)"
proof -
  fix efs0 :: EasyFileSystem
  obtain ms s where a: "ms_inv 16 ms s" "areas ms = []" "pt_map (ram s) (page_table ms) = Map.empty" "mm_free 16 s = 15"
    by (rule sample_space)
  let ?r = "\<lambda>l e. \<lparr>mr_range = \<lparr>range_l = l, range_r = e\<rparr>, mr_perm = MAP_R OR MAP_W OR MAP_U, mr_ty = MMemory\<rparr>"
  obtain ms' s' a' where i: "ms_inv 16 ms' s'" "areas ms' = [a']" "vpn_range a' = \<lparr>range_l = 1, range_r = 3\<rparr>"
    "pt_map (ram s') (page_table ms') |` (- {1..<3}) = pt_map (ram s) (page_table ms)"
    using insert_framed_area_spec [OF a(1) perms_small(1), of 1 3] a by auto
  let ?P = "\<lparr>memory_set = ms', mmap_mapped = [?r 1 3, ?r 3 4], mmap_va_allocator = MMAP_AREA_BASE, file_mappings = []\<rparr>"
  let ?M = "pt_map (ram s') (page_table (memory_set ?P))"
  have inv: "pt_inv 16 (page_table (memory_set ?P)) s'"
    using ms_invD(1) [OF i(1)] by simp
  have ok: "area_ok ?M a'"
    using ms_invD(4) [OF i(1)] i(2) by simp
  have mapped: "\<forall>v \<in> {1..<3}. ?M v \<noteq> None"
  proof
    fix v :: nat assume "v \<in> {1..<3}"
    then have "v \<in> set (map fst (data_frames a'))"
      using ok i(3) by (simp add: area_ok_def)
    then show "?M v \<noteq> None"
      using ok by (auto simp: area_ok_def)
  qed
  have "?M 3 = None"
    using fun_cong [OF i(4), of 3] a(3) by simp
  then have free: "\<forall>v \<in> {3..<4}. ?M v = None"
    by (simp add: numeral_eq_Suc less_Suc_eq_le)
  have f: "find_index (\<lambda>r. mr_range r = \<lparr>range_l = 1, range_r = 3\<rparr>) (mmap_mapped ?P) = Some 0"
    "find_index (\<lambda>r. mr_range r = \<lparr>range_l = 3, range_r = 4\<rparr>) (mmap_mapped ?P) = Some 1"
    "mr_ty (mmap_mapped ?P ! 0) = MMemory" "mr_ty (mmap_mapped ?P ! 1) = MMemory"
    by (simp_all add: find_index_def upt_rec numeral_2_eq_2)
  have ar: "1 = (4096 :: nat) div 4096" "3 = ((4096 :: nat) + 8192 + 4095) div 4096" "3 = (12288 :: nat) div 4096" "4 = ((12288 :: nat) + 2 + 4095) div 4096"
    "(4096 :: nat) mod 4096 = 0" "(0 :: nat) < 8192" "(4096 :: nat) + 8192 < 2 ^ 39" "(12288 :: nat) mod 4096 = 0" "(0 :: nat) < 2" "(12288 :: nat) + 2 < 2 ^ 39"
    by simp_all
  obtain m where m: "sys_munmap 4096 8192 efs0 ?P Map.empty s' = Some (0, ?P\<lparr>mmap_mapped := drop_nth 0 (mmap_mapped ?P)\<rparr>, Map.empty, s'\<lparr>ram := m\<rparr>)"
    "pt_map m (page_table (memory_set ?P)) = ?M |` (- {1..<3})"
    using munmap_memory_outcome [where efs = efs0 and d = Map.empty, OF inv ar(5,6,7,1,2) f(1,3) refl, THEN conjunct1, THEN mp, OF mapped] by blast
  have "sys_munmap 12288 2 efs0 ?P Map.empty s' = Some (- 1, ?P, Map.empty, s')"
    using munmap_memory_outcome [where efs = efs0 and d = Map.empty and u = 1, OF inv ar(8,9,10,3,4) f(2,4) refl, THEN conjunct2, THEN mp] free mapped by simp
  then show ?thesis
    using m mapped by (intro exI [of _ efs0] exI [of _ ?P] exI [of _ s'] exI [of _ "?P\<lparr>mmap_mapped := drop_nth 0 (mmap_mapped ?P)\<rparr>"] exI [of _ "s'\<lparr>ram := m\<rparr>"]) auto
qed

text \<open>
  C13. A page fault in a file mapping, at a page that is not loaded yet: the handler maps the page to a fresh frame with the permissions
  of the reservation, and the program then sees there the bytes of the file from the offset the mapping gives to the page on, up to the
  end of the page or of the file, and zeros after the end of the file; every other page stays as it was.
\<close>

theorem file_fault_loads_page:
  assumes inv: "pt_inv base (page_table (memory_set P)) s" and addr: "fault_addr < 2 ^ 39" "v = fault_addr div 4096"
    and M: "M = pt_map (ram s) (page_table (memory_set P))" "M v = None"
    and r: "List.find (\<lambda>r. range_contains (mr_range r) v) (mmap_mapped P) = Some r" "mr_ty r = MFile" "mr_perm r < 2 ^ 8"
    and fm: "find_index (\<lambda>fm. FileMapping_contains_va fm fault_addr) (file_mappings P) = Some i" "fm = file_mappings P ! i"
    and g: "List.find (\<lambda>r. MapRange_contains_va r fault_addr) (fm_ranges fm) = Some g" "rg_start g mod 4096 = 0"
    and off: "off = rg_offset g + (v * 4096 - rg_start g)" "map_of (fm_map fm) off = None" "off < length (content di d)" 
    and fs: "fs_inv efs nd d" "n \<in> used_inodes efs d" "inode_at efs d n = Some di" "fm_file fm = inode_handle efs n"
    and room: "3 \<le> mm_free base s"
  shows "\<exists>P' s' p. handle_page_fault fault_addr P d s = Some (True, P', s') \<and> pt_inv base (page_table (memory_set P')) s' \<and>
    p \<notin> mm_used base s \<and> pt_map (ram s') (page_table (memory_set P')) = M(v \<mapsto> PageTableEntry_new p (mr_perm r OR PTE_V)) \<and>
    (let bs = slice off PAGE_SIZE (content di d) in vm_page (memory_set P') (ram s') v = Some (bs @ replicate (PAGE_SIZE - length bs) 0)) \<and>
    (\<forall>x \<in> mm_used base s - set (pt_frames (page_table (memory_set P))). ram s' x = ram s x)"
proof -
  let ?ms = "memory_set P" and ?c = "content di d"
  have va: "VirtAddr_from fault_addr = fault_addr" "addr_floor fault_addr = v" "v < 2 ^ 27" "page_addr v = v * 4096"
    using addr by (auto simp: VirtAddr_from_mod addr_floor_div div_less_iff_less_mult page_addr_small)
  have len: "length ?c = di_size di" "length ?c < 2 ^ 63"
    using content_length [OF fs(1-3)] inode_okD(3) [OF ownD(2) [OF fs_inv_own(1) [OF fs(1-3)]]] by (simp_all add: MAX_BLOCKS_def layout_consts)
  have fo: "file_offset g v = Some off"
  proof -
    have c: "rg_start g \<le> fault_addr" "fault_addr < rg_end g"
      using g(1) by (auto simp: find_Some_iff MapRange_contains_va_def)
    have "rg_start g = rg_start g div 4096 * 4096"
      using g(2) div_mult_mod_eq [of "rg_start g" 4096] by simp
    moreover have "rg_start g div 4096 \<le> v"
      using c(1) addr(2) by (simp add: div_le_mono)
    ultimately have "rg_start g \<le> v * 4096"
      by linarith
    moreover have "v * 4096 < rg_end g"
      using c(2) div_times_less_eq_dividend [of fault_addr 4096] addr(2) by linarith
    ultimately show ?thesis
      using off(1,3) len(2) by (simp add: file_offset_def va(4) usize_def)
  qed
  obtain p s1 where p: "frame_alloc s = Some (Some p, s1)" "pt_inv base (page_table ?ms) s1" "pt_map (ram s1) (page_table ?ms) = M"
    "p \<notin> mm_used base s" "mm_used base s1 = insert p (mm_used base s)" "ram s1 = (ram s)(p \<mapsto> replicate PAGE_SIZE 0)"
    "mm_free base s1 = mm_free base s - 1" "p < 2 ^ 44"
    using pt_inv_alloc [OF inv] room M by auto
  let ?fm = "fm\<lparr>fm_frames := fm_frames fm @ [p], fm_map := bt_insert off (v, p) (fm_map fm)\<rparr>"
  have map: "FileMapping_map fault_addr fm s = Some (Some (p, g, False), ?fm, s1)"
    using g(1) off(2) p(1) by (simp add: FileMapping_map_def va fo)
  have "2 \<le> mm_free base s1" "pt_map (ram s1) (page_table ?ms) v = None"
    using room p(3,7) M by simp_all
  then obtain pt s2 where m: "PageTable_map v p (mr_perm r) (page_table ?ms) s1 = Some (pt, s2)" "pt_grows base 2 (page_table ?ms) s1 pt s2"
    "pt_map (ram s2) pt = M(v \<mapsto> PageTableEntry_new p (mr_perm r OR PTE_V))"
    using PageTable_map_spec(2) [OF p(2) va(3) p(8) r(3)] p(3) by auto
  have fr: "p \<notin> set (pt_frames (page_table ?ms))" "p \<notin> set (pt_frames pt)" "ram s2 p = Some (replicate PAGE_SIZE 0)"
    using pt_invD(3) [OF inv] p(4-6) m(2) by (auto simp: pt_grows_def)
  let ?k = "min PAGE_SIZE (length ?c - off)" let ?buf = "slice off ?k ?c"
  let ?pg = "?buf @ replicate (PAGE_SIZE - ?k) 0" let ?m3 = "(ram s2)(p \<mapsto> ?pg)"
  have rd: "Inode_read_at (fm_file fm) off (take ?k (replicate PAGE_SIZE 0)) d = Some (?k, ?buf)"
    using read_at_effect [OF fs(1-3), of off "replicate ?k 0"] len(2) off(3) by (simp add: fs(4) PAGE_SIZE_def splice_def slice_def Let_def)
  have sz: "get_size (fm_file fm) d = Some (length ?c)"
    using read_disk_inode_eq [OF fs_invD(1) [OF fs(1)] used_inodes_bound [OF fs(2)] fs(3)] len(1) by (simp add: get_size_def fs(4))
  let ?P = "P\<lparr>file_mappings := (file_mappings P)[i := ?fm], memory_set := ?ms\<lparr>page_table := pt\<rparr>\<rparr>"
  obtain t where t: "MemorySet_translate ?ms v (ram s) = Some t" "\<not> (case t of Some pte \<Rightarrow> pte_valid pte | None \<Rightarrow> False)"
    using translate_unmapped [OF pt_invD(2) [OF inv] va(3)] M by auto
  have h: "handle_page_fault fault_addr P d s = Some (True, ?P, s2\<lparr>ram := ?m3\<rparr>)"
    using t r fm map m(1) fr(3) sz fo off(3) rd by (simp add: handle_page_fault_def va MemorySet_map_def Let_def)
  have "length ?pg = PAGE_SIZE" "slice off PAGE_SIZE ?c = ?buf" "length ?buf = ?k"
    using off(3) by (simp_all add: slice_def min_def)
  then show ?thesis
    using h pt_inv_write [of base pt s2 p ?pg] m(2,3) fr p(4-6,8) pte_of_new(1) or_V(1) [OF r(3)]
    by (intro exI [of _ ?P] exI [of _ "s2\<lparr>ram := ?m3\<rparr>"] exI [of _ p]) (auto simp: vm_page_def pt_grows_def Let_def)
qed

theorem file_fault_loads_page_witness:
  "\<exists>(P :: mmap_proc) d s P' s' pg. handle_page_fault 4100 P d s = Some (True, P', s') \<and> vm_page (memory_set P') (ram s') 1 = Some pg \<and>
    drop 64 pg = replicate (PAGE_SIZE - 64) 0"
proof -
  obtain ms s where a: "ms_inv 16 ms s" "areas ms = []" "pt_map (ram s) (page_table ms) = Map.empty" "mm_free 16 s = 15"
    by (rule sample_space)
  let ?d = "\<lambda>b. if b < 1030 then Some (replicate BLOCK_SZ 5) else None"
  have dev: "mkfs_sizes 1030 1" "wf_disk ?d" "{..<1030} \<subseteq> dom ?d"
    by (simp add: mkfs_sizes_def) (rule wf_diskI, auto split: if_splits)
  obtain efs d nd root where f: "fs_inv efs nd d" "used_inodes efs d = {0}" "inode_at efs d 0 = Some root" "di_size root = 2 * DIRENT_SZ"
    using mkfs_effect [OF dev] by blast
  have c: "length (content root d) = 64"
    using content_length [OF f(1) _ f(3)] f(2,4) by (simp add: DIRENT_SZ_def)
  let ?r = "\<lparr>mr_range = \<lparr>range_l = 1, range_r = 2\<rparr>, mr_perm = MAP_R OR MAP_W OR MAP_U, mr_ty = MFile\<rparr>"
  let ?g = "MapRange_new 4096 64 0" let ?fm = "(FileMapping_new_empty (inode_handle efs 0) 0)\<lparr>fm_ranges := [?g]\<rparr>"
  let ?P = "\<lparr>memory_set = ms, mmap_mapped = [?r], mmap_va_allocator = MMAP_AREA_BASE, file_mappings = [?fm]\<rparr>"
  have g: "rg_start ?g = 4096" "rg_end ?g = 4160" "rg_offset ?g = 0"
    by (simp_all add: MapRange_new_def VirtAddr_from_mod usize_def)
  have h: "pt_inv 16 (page_table (memory_set ?P)) s" "(4100 :: nat) < 2 ^ 39" "1 = (4100 :: nat) div 4096"
    "pt_map (ram s) (page_table (memory_set ?P)) 1 = None"
    "List.find (\<lambda>r. range_contains (mr_range r) 1) (mmap_mapped ?P) = Some ?r" "mr_ty ?r = MFile" "mr_perm ?r < 2 ^ 8"
    using a ms_invD(1) [OF a(1)] perms_small(1) by (simp_all add: range_contains_def)
  have h2: "find_index (\<lambda>fm. FileMapping_contains_va fm 4100) (file_mappings ?P) = Some 0" "?fm = file_mappings ?P ! 0"
    "List.find (\<lambda>r. MapRange_contains_va r 4100) (fm_ranges ?fm) = Some ?g" "rg_start ?g mod 4096 = 0"
    "0 = rg_offset ?g + (1 * 4096 - rg_start ?g)" "map_of (fm_map ?fm) 0 = None" "0 < length (content root d)"
    "0 \<in> used_inodes efs d" "fm_file ?fm = inode_handle efs 0" "3 \<le> mm_free 16 s"
    using f(2) c a(4) by (simp_all add: find_index_def FileMapping_contains_va_def MapRange_contains_va_def g FileMapping_new_empty_def)
  obtain P' s' where r: "handle_page_fault 4100 ?P d s = Some (True, P', s')" "let bs = slice 0 PAGE_SIZE (content root d) in
    vm_page (memory_set P') (ram s') 1 = Some (bs @ replicate (PAGE_SIZE - length bs) 0)"
    using file_fault_loads_page [OF h(1-3) refl h(4-7) h2(1-7) f(1) h2(8) f(3) h2(9,10)] by blast
  have "slice 0 PAGE_SIZE (content root d) = content root d"
    using c by (simp add: slice_def PAGE_SIZE_def)
  then show ?thesis
    using r c by (intro exI [of _ ?P] exI [of _ d] exI [of _ s] exI [of _ P'] exI [of _ s']) (auto simp: Let_def)
qed

end
