(* ===== verification/Signals.thy ===== *)
theory Signals
  imports UserBuffer
begin

text \<open>
  Signals (\<^verbatim>\<open>os/src/task/signal.rs\<close>, \<^verbatim>\<open>action.rs\<close>, the signal part of \<^verbatim>\<open>task.rs\<close> and \<^verbatim>\<open>mod.rs\<close>, and
  the signal calls of \<^verbatim>\<open>os/src/syscall/process.rs\<close>). The state is the part of a process that signals
  touch: its pending signals and, for each of its threads, the \<open>SignalProcessor\<close> and the trap context.
  The current task is given by its position in \<open>tasks\<close>.
\<close>

section \<open>Trap contexts, signals and actions\<close>

record TrapContext =
  tc_x :: "nat list"
  tc_sstatus :: nat
  tc_sepc :: nat
  tc_kernel_satp :: nat
  tc_kernel_sp :: nat
  tc_trap_handler :: nat

definition app_init_context :: "nat \<Rightarrow> nat \<Rightarrow> nat \<Rightarrow> nat \<Rightarrow> nat \<Rightarrow> nat \<Rightarrow> TrapContext" where
  \<comment> \<open>\<open>sstatus\<close>: the register with \<open>SPP\<close> set to user mode\<close>
  "app_init_context sstatus entry sp kernel_satp kernel_sp trap_handler =
     \<lparr>tc_x = (replicate 32 0)[2 := sp], tc_sstatus = sstatus, tc_sepc = entry, tc_kernel_satp = kernel_satp,
      tc_kernel_sp = kernel_sp, tc_trap_handler = trap_handler\<rparr>"

type_synonym SignalFlags = "32 word"

definition sig_bit :: "nat \<Rightarrow> SignalFlags" where
  \<comment> \<open>\<open>1 << n\<close>\<close>
  "sig_bit n = push_bit n 1"

definition MAX_SIG :: nat where "MAX_SIG = 31"
definition SIGDEF :: SignalFlags where "SIGDEF = 1"
definition SIGINT :: SignalFlags where "SIGINT = sig_bit 2"
definition SIGILL :: SignalFlags where "SIGILL = sig_bit 4"
definition SIGABRT :: SignalFlags where "SIGABRT = sig_bit 6"
definition SIGFPE :: SignalFlags where "SIGFPE = sig_bit 8"
definition SIGKILL :: SignalFlags where "SIGKILL = sig_bit 9"
definition SIGSEGV :: SignalFlags where "SIGSEGV = sig_bit 11"
definition SIGCONT :: SignalFlags where "SIGCONT = sig_bit 18"
definition SIGSTOP :: SignalFlags where "SIGSTOP = sig_bit 19"

definition sig_contains :: "SignalFlags \<Rightarrow> SignalFlags \<Rightarrow> bool" where
  "sig_contains a b \<longleftrightarrow> a AND b = b"

definition check_error :: "SignalFlags \<Rightarrow> int option" where
  \<comment> \<open>the exit code; the message beside it is printed only\<close>
  "check_error fl =
     (if sig_contains fl SIGINT then Some (- 2) else if sig_contains fl SIGILL then Some (- 4)
      else if sig_contains fl SIGABRT then Some (- 6) else if sig_contains fl SIGFPE then Some (- 8)
      else if sig_contains fl SIGKILL then Some (- 9) else if sig_contains fl SIGSEGV then Some (- 11) else None)"

record SignalAction =
  sa_handler :: nat
  sa_mask :: SignalFlags

definition SignalAction_default :: SignalAction where
  "SignalAction_default = \<lparr>sa_handler = 0, sa_mask = 40\<rparr>"

type_synonym SignalActions = "SignalAction list" \<comment> \<open>\<open>table\<close>, of \<open>MAX_SIG + 1\<close> entries\<close>

definition SignalActions_default :: SignalActions where
  "SignalActions_default = replicate (MAX_SIG + 1) SignalAction_default"

definition get_action :: "SignalActions \<Rightarrow> nat \<Rightarrow> SignalAction option" where
  "get_action tab signum = do { ensure (signum \<le> MAX_SIG); index_get tab signum }"

definition is_masked :: "SignalActions \<Rightarrow> nat \<Rightarrow> SignalFlags \<Rightarrow> bool option" where
  "is_masked tab signum sig = do { ensure (signum \<le> MAX_SIG); a \<leftarrow> index_get tab signum; Some (sig_contains (sa_mask a) sig) }"

definition get_handler :: "SignalActions \<Rightarrow> nat \<Rightarrow> nat option" where
  "get_handler tab signum = do { ensure (signum \<le> MAX_SIG); a \<leftarrow> index_get tab signum; Some (sa_handler a) }"

definition set_action :: "SignalActions \<Rightarrow> nat \<Rightarrow> SignalAction \<Rightarrow> SignalActions option" where
  "set_action tab signum a = do { ensure (signum \<le> MAX_SIG); index_set tab signum a }"

section \<open>Processes as far as signals see them\<close>

record SignalProcessor =
  signal_handling :: "nat option"
  signal_mask :: SignalFlags
  signal_actions :: SignalActions
  sp_killed :: bool
  sp_frozen :: bool
  trap_cx_backup :: "TrapContext option"

definition SignalProcessor_new :: SignalProcessor where
  "SignalProcessor_new = \<lparr>signal_handling = None, signal_mask = 0, signal_actions = SignalActions_default,
     sp_killed = False, sp_frozen = False, trap_cx_backup = None\<rparr>"

definition is_global_masked :: "SignalProcessor \<Rightarrow> SignalFlags \<Rightarrow> bool" where
  "is_global_masked p sig = sig_contains (signal_mask p) sig"

definition is_handling_masked :: "SignalProcessor \<Rightarrow> SignalFlags \<Rightarrow> bool option" where
  "is_handling_masked p sig = (case signal_handling p of Some signum \<Rightarrow> is_masked (signal_actions p) signum sig | None \<Rightarrow> Some False)"

definition handler_for_action :: "SignalProcessor \<Rightarrow> nat \<Rightarrow> nat option" where
  "handler_for_action p signum = get_handler (signal_actions p) signum"

record sig_task =
  st_proc :: SignalProcessor
  st_trap_cx :: TrapContext

record sig_process =
  sg_signals :: SignalFlags
  sg_tasks :: "sig_task option list"

definition sig_current :: "nat \<Rightarrow> sig_process \<Rightarrow> sig_task option" where
  "sig_current cur P = do { t \<leftarrow> index_get (sg_tasks P) cur; t }"

definition set_current :: "nat \<Rightarrow> sig_task \<Rightarrow> sig_process \<Rightarrow> sig_process" where
  "set_current cur t P = P\<lparr>sg_tasks := (sg_tasks P)[cur := Some t]\<rparr>"

definition tasks_for_each :: "(SignalProcessor \<Rightarrow> SignalProcessor) \<Rightarrow> sig_process \<Rightarrow> sig_process" where
  "tasks_for_each f P = P\<lparr>sg_tasks := map (map_option (\<lambda>t. t\<lparr>st_proc := f (st_proc t)\<rparr>)) (sg_tasks P)\<rparr>"

definition current_add_signal :: "SignalFlags \<Rightarrow> sig_process \<Rightarrow> sig_process" where
  "current_add_signal sig P = P\<lparr>sg_signals := sg_signals P OR sig\<rparr>"

section \<open>Delivering signals\<close>

definition call_kernel_signal_handler :: "SignalFlags \<Rightarrow> sig_process \<Rightarrow> sig_process" where
  "call_kernel_signal_handler sig P =
     (if sig = SIGSTOP then (let P = tasks_for_each (\<lambda>p. p\<lparr>sp_frozen := True\<rparr>) P in P\<lparr>sg_signals := sg_signals P XOR SIGSTOP\<rparr>)
      else if sig = SIGCONT then (let P = tasks_for_each (\<lambda>p. p\<lparr>sp_frozen := False\<rparr>) P in P\<lparr>sg_signals := sg_signals P XOR SIGCONT\<rparr>)
      else tasks_for_each (\<lambda>p. p\<lparr>sp_killed := True\<rparr>) P)"

definition call_user_signal_handler :: "nat \<Rightarrow> nat \<Rightarrow> SignalFlags \<Rightarrow> sig_process \<Rightarrow> sig_process option" where
  "call_user_signal_handler cur signum sig P = do {
     t \<leftarrow> sig_current cur P;
     handler \<leftarrow> handler_for_action (st_proc t) signum;
     if handler = 0 then Some P
     else do {
       let P = P\<lparr>sg_signals := sg_signals P XOR sig\<rparr>;
       let cx = st_trap_cx t;
       x \<leftarrow> index_set (tc_x cx) 10 signum;
       let t = t\<lparr>st_proc := (st_proc t)\<lparr>signal_handling := Some signum, trap_cx_backup := Some cx\<rparr>,
         st_trap_cx := cx\<lparr>tc_sepc := handler, tc_x := x\<rparr>\<rparr>;
       Some (set_current cur t P) } }"

fun check_pending_from :: "nat list \<Rightarrow> nat \<Rightarrow> sig_process \<Rightarrow> sig_process option" where
  \<comment> \<open>the rounds of the loop over the remaining signal numbers\<close>
  "check_pending_from [] cur P = Some P"
| "check_pending_from (signum # rest) cur P = do {
     let sig = sig_bit signum;
     t \<leftarrow> sig_current cur P;
     if \<not> sig_contains (sg_signals P) sig then check_pending_from rest cur P
     else if is_global_masked (st_proc t) sig then check_pending_from rest cur P
     else do {
       hm \<leftarrow> is_handling_masked (st_proc t) sig;
       if hm then check_pending_from rest cur P
       else if sig \<in> {SIGKILL, SIGSTOP, SIGCONT, SIGDEF} then check_pending_from rest cur (call_kernel_signal_handler sig P)
       else call_user_signal_handler cur signum sig P } }"

definition check_pending_signals :: "nat \<Rightarrow> sig_process \<Rightarrow> sig_process option" where
  "check_pending_signals cur P = check_pending_from [0..<MAX_SIG + 1] cur P"

definition handle_signals_round :: "nat \<Rightarrow> sig_process \<Rightarrow> (bool \<times> sig_process) option" where
  \<comment> \<open>one round of the loop in \<open>current_handle_signals\<close>: whether it ends; otherwise the task is suspended\<close>
  "handle_signals_round cur P = do {
     P \<leftarrow> check_pending_signals cur P;
     t \<leftarrow> sig_current cur P;
     Some (\<not> sp_frozen (st_proc t) \<or> sp_killed (st_proc t), P) }"

definition check_signals_error_of_current :: "sig_process \<Rightarrow> int option" where
  "check_signals_error_of_current P = check_error (sg_signals P)"

section \<open>System calls\<close>

definition sys_kill :: "(nat \<rightharpoonup> sig_process) \<Rightarrow> nat \<Rightarrow> int \<Rightarrow> int \<times> (nat \<rightharpoonup> sig_process)" where
  \<comment> \<open>\<open>procs\<close>: \<open>PID2PCB\<close>. The shift takes the number modulo 32; every bit is a flag\<close>
  "sys_kill procs pid signum = (let flag = sig_bit (nat (signum mod 32)) in
     case procs pid of None \<Rightarrow> (- 1, procs)
     | Some P \<Rightarrow> if sig_contains (sg_signals P) flag then (- 1, procs)
         else (0, procs(pid \<mapsto> P\<lparr>sg_signals := sg_signals P OR flag\<rparr>)))"

definition sys_sigprocmask :: "nat \<Rightarrow> SignalFlags \<Rightarrow> sig_process \<Rightarrow> (int \<times> sig_process) option" where
  "sys_sigprocmask cur new_mask P = do {
     t \<leftarrow> sig_current cur P;
     Some (uint (signal_mask (st_proc t)), set_current cur (t\<lparr>st_proc := (st_proc t)\<lparr>signal_mask := new_mask\<rparr>\<rparr>) P) }"

definition check_sigaction_error :: "SignalFlags \<Rightarrow> nat \<Rightarrow> nat \<Rightarrow> bool" where
  "check_sigaction_error sig action old_action \<longleftrightarrow> action = 0 \<or> old_action = 0 \<or> sig = SIGKILL \<or> sig = SIGSTOP"

definition SignalAction_to_bytes :: "SignalAction \<Rightarrow> bytes" where
  \<comment> \<open>the fields; four bytes of padding follow\<close>
  "SignalAction_to_bytes a = le_bytes 8 (sa_handler a) @ le_bytes 4 (unat (sa_mask a))"

definition SignalAction_of_bytes :: "bytes \<Rightarrow> SignalAction" where
  "SignalAction_of_bytes bs = \<lparr>sa_handler = le_nat (slice 0 8 bs), sa_mask = word_of_nat (le_nat (slice 8 4 bs))\<rparr>"

definition sys_sigaction :: "nat \<Rightarrow> nat \<Rightarrow> int \<Rightarrow> nat \<Rightarrow> nat \<Rightarrow> sig_process \<Rightarrow> ram \<Rightarrow> (int \<times> sig_process \<times> ram) option" where
  "sys_sigaction token cur signum action_ptr old_action_ptr P m =
     (let n = nat (signum mod 2 ^ 64) in
      if MAX_SIG < n then Some (- 1, P, m)
      else if check_sigaction_error (sig_bit n) action_ptr old_action_ptr then Some (- 1, P, m)
      else do {
        t \<leftarrow> sig_current cur P;
        prev_action \<leftarrow> get_action (signal_actions (st_proc t)) n;
        m \<leftarrow> user_store token old_action_ptr (SignalAction_to_bytes prev_action) m;
        bs \<leftarrow> user_load token action_ptr 12 m;
        tab \<leftarrow> set_action (signal_actions (st_proc t)) n (SignalAction_of_bytes bs);
        Some (0, set_current cur (t\<lparr>st_proc := (st_proc t)\<lparr>signal_actions := tab\<rparr>\<rparr>) P, m) })"

definition sys_sigreturn :: "nat \<Rightarrow> sig_process \<Rightarrow> (nat \<times> sig_process) option" where
  "sys_sigreturn cur P = do {
     t \<leftarrow> sig_current cur P;
     cx \<leftarrow> trap_cx_backup (st_proc t);
     let t = t\<lparr>st_proc := (st_proc t)\<lparr>signal_handling := None, trap_cx_backup := None\<rparr>, st_trap_cx := cx\<rparr>;
     a0 \<leftarrow> index_get (tc_x cx) 10;
     Some (a0, set_current cur t P) }"


section \<open>Lemmas\<close>

definition pending :: "SignalFlags \<Rightarrow> nat \<Rightarrow> bool" where
  "pending fl n = bit fl n"

lemma bit_sig_bit [simp]: "bit (sig_bit n) k \<longleftrightarrow> k = n \<and> n < 32"
  by (auto simp: sig_bit_def bit_simps)

lemma sig_contains_bit: "n < 32 \<Longrightarrow> sig_contains fl (sig_bit n) \<longleftrightarrow> bit fl n"
  unfolding sig_contains_def bit_eq_iff by (auto simp: bit_and_iff)

lemma xor_clears: "n < 32 \<Longrightarrow> bit fl n \<Longrightarrow> bit (fl XOR sig_bit n) k \<longleftrightarrow> bit fl k \<and> k \<noteq> n"
  by (auto simp: bit_xor_iff)

definition kernel_signals :: "nat set" where
  "kernel_signals = {0, 9, 18, 19}"

lemma sig_bit_inj: "m < 32 \<Longrightarrow> n < 32 \<Longrightarrow> sig_bit m = sig_bit n \<longleftrightarrow> m = n"
  using bit_sig_bit [of m n] bit_sig_bit [of n n] by metis

lemma user_signal: "n < 32 \<Longrightarrow> sig_bit n \<in> {SIGKILL, SIGSTOP, SIGCONT, SIGDEF} \<longleftrightarrow> n \<in> kernel_signals"
proof -
  assume n: "n < 32"
  have d: "SIGDEF = sig_bit 0"
    by (simp add: SIGDEF_def sig_bit_def)
  show ?thesis
    using n unfolding d SIGKILL_def SIGSTOP_def SIGCONT_def by (simp add: kernel_signals_def sig_bit_inj disj_ac)
qed

definition sp_ok :: "SignalProcessor \<Rightarrow> bool" where
  "sp_ok p \<longleftrightarrow> length (signal_actions p) = MAX_SIG + 1 \<and> (\<forall>n. signal_handling p = Some n \<longrightarrow> n \<le> MAX_SIG)"

definition deliverable :: "SignalProcessor \<Rightarrow> SignalFlags \<Rightarrow> nat \<Rightarrow> bool" where
  "deliverable p fl n \<longleftrightarrow> pending fl n \<and> \<not> pending (signal_mask p) n \<and>
     (case signal_handling p of None \<Rightarrow> True | Some h \<Rightarrow> \<not> pending (sa_mask (signal_actions p ! h)) n)"

lemma handling_masked:
  assumes "sp_ok p" and "n < 32"
  shows "is_handling_masked p (sig_bit n) =
    Some (case signal_handling p of None \<Rightarrow> False | Some h \<Rightarrow> pending (sa_mask (signal_actions p ! h)) n)"
  using assms by (auto simp: is_handling_masked_def is_masked_def sp_ok_def sig_contains_bit pending_def split: option.splits)

lemma check_one:
  assumes "sig_current cur P = Some t" and "sp_ok (st_proc t)" and "n < 32"
  shows "check_pending_from (n # rest) cur P =
    (if \<not> deliverable (st_proc t) (sg_signals P) n then check_pending_from rest cur P
     else if n \<in> kernel_signals then check_pending_from rest cur (call_kernel_signal_handler (sig_bit n) P)
     else call_user_signal_handler cur n (sig_bit n) P)"
  using assms user_signal [OF assms(3)]
  by (auto simp: handling_masked is_global_masked_def sig_contains_bit pending_def deliverable_def Let_def split: option.splits)

lemma check_skip:
  assumes "sig_current cur P = Some t" and "sp_ok (st_proc t)" and "\<forall>k \<in> set ns. k < 32 \<and> \<not> deliverable (st_proc t) (sg_signals P) k"
  shows "check_pending_from (ns @ rest) cur P = check_pending_from rest cur P"
  using assms(3)
proof (induction ns)
  case Nil
  then show ?case by simp
next
  case (Cons k ns)
  have "check_pending_from (k # (ns @ rest)) cur P = check_pending_from (ns @ rest) cur P"
    using check_one [OF assms(1,2), of k "ns @ rest"] Cons.prems by simp
  then show ?case
    using Cons by simp
qed

lemma first_deliverable:
  assumes cur: "sig_current cur P = Some t" and ok: "sp_ok (st_proc t)" and n: "n \<le> MAX_SIG" "n \<notin> kernel_signals"
    and del: "deliverable (st_proc t) (sg_signals P) n" and first: "\<forall>k < n. \<not> deliverable (st_proc t) (sg_signals P) k"
  shows "check_pending_signals cur P = call_user_signal_handler cur n (sig_bit n) P"
proof -
  have "[0..<MAX_SIG + 1] = [0..<n] @ [n..<MAX_SIG + 1]"
    using n(1) upt_add_eq_append [of 0 n "MAX_SIG + 1 - n"] by simp
  moreover have "[n..<MAX_SIG + 1] = n # [Suc n..<MAX_SIG + 1]"
    using n(1) by (simp add: upt_conv_Cons)
  moreover have "\<forall>k \<in> set [0..<n]. k < 32 \<and> \<not> deliverable (st_proc t) (sg_signals P) k" "n < 32"
    using n first by (auto simp: MAX_SIG_def)
  ultimately show ?thesis
    using check_skip [OF cur ok, of "[0..<n]"] check_one [OF cur ok] n(2) del
    by (simp add: check_pending_signals_def)
qed

lemma sig_current_set: "cur < length (sg_tasks P) \<Longrightarrow> sig_current cur (set_current cur t P) = Some t"
  by (simp add: sig_current_def set_current_def)

lemma sig_current_less: "sig_current cur P = Some t \<Longrightarrow> cur < length (sg_tasks P)"
  by (auto simp: sig_current_def index_get_def split: if_splits)


section \<open>While a handler runs\<close>

definition no_handler_called :: "SignalProcessor \<Rightarrow> SignalFlags \<Rightarrow> bool" where
  \<comment> \<open>every signal to be delivered is handled by the kernel or not at all\<close>
  "no_handler_called p fl \<longleftrightarrow> sp_ok p \<and> (\<forall>n \<le> MAX_SIG. deliverable p fl n \<longrightarrow> n \<in> kernel_signals \<or> sa_handler (signal_actions p ! n) = 0)"

inductive handler_step :: "nat \<Rightarrow> sig_process \<Rightarrow> sig_process \<Rightarrow> bool" for cur where
  \<comment> \<open>what happens between the delivery of a signal to a thread and its \<open>sigreturn\<close>, when no other user handler is started in it\<close>
  registers: "sig_current cur P = Some t \<Longrightarrow> handler_step cur P (set_current cur (t\<lparr>st_trap_cx := cx\<rparr>) P)"
| sigprocmask: "sys_sigprocmask cur m P = Some (r, P') \<Longrightarrow> handler_step cur P P'"
| sigaction: "sys_sigaction token cur n a old P m = Some (r, P', m') \<Longrightarrow> handler_step cur P P'"
| checked: "sig_current cur P = Some t \<Longrightarrow> no_handler_called (st_proc t) (sg_signals P) \<Longrightarrow> check_pending_signals cur P = Some P' \<Longrightarrow> handler_step cur P P'"
| others: "sig_current cur P = Some t \<Longrightarrow> sig_current cur P' = Some (t\<lparr>st_proc := (st_proc t)\<lparr>sp_killed := k, sp_frozen := f\<rparr>\<rparr>) \<Longrightarrow> handler_step cur P P'"
    \<comment> \<open>other threads and processes: they add signals, run, and stop or kill all threads of the process\<close>

lemma kernel_handler_effect:
  assumes "sig_current cur P = Some t" and "pending (sg_signals P) n" and "n < 32"
  obtains k f where "sig_current cur (call_kernel_signal_handler (sig_bit n) P) = Some (t\<lparr>st_proc := (st_proc t)\<lparr>sp_killed := k, sp_frozen := f\<rparr>\<rparr>)"
    "\<And>j. pending (sg_signals (call_kernel_signal_handler (sig_bit n) P)) j \<Longrightarrow> pending (sg_signals P) j"
proof -
  have c: "sig_current cur (tasks_for_each g P) = Some (t\<lparr>st_proc := g (st_proc t)\<rparr>)" for g
    using assms(1) by (auto simp: sig_current_def tasks_for_each_def index_get_def split: if_splits)
  have p: "pending (sg_signals P XOR sig_bit n) j \<Longrightarrow> pending (sg_signals P) j" for j
    using xor_clears [OF assms(3)] assms(2) by (simp add: pending_def)
  have s: "sig_current cur (Q\<lparr>sg_signals := x\<rparr>) = sig_current cur Q" "sg_signals (tasks_for_each g Q) = sg_signals Q" for Q x g
    by (simp_all add: sig_current_def tasks_for_each_def)
  consider "sig_bit n = SIGSTOP" | "sig_bit n \<noteq> SIGSTOP" "sig_bit n = SIGCONT" | "sig_bit n \<noteq> SIGSTOP" "sig_bit n \<noteq> SIGCONT"
    by blast
  then show thesis
  proof cases
    case 1
    then show ?thesis
      using that [of True "sp_killed (st_proc t)"] p by (simp add: call_kernel_signal_handler_def Let_def c s)
  next
    case 2
    then show ?thesis
      using that [of False "sp_killed (st_proc t)"] p by (simp add: call_kernel_signal_handler_def Let_def c s)
  next
    case 3
    then show ?thesis
      using that [of "sp_frozen (st_proc t)" True] by (simp add: call_kernel_signal_handler_def c s)
  qed
qed

lemma check_keeps_backup:
  assumes "sig_current cur P = Some t" and "sp_ok (st_proc t)" and "check_pending_from ns cur P = Some P'"
    and "\<forall>n \<in> set ns. n \<le> MAX_SIG \<and> (deliverable (st_proc t) (sg_signals P) n \<longrightarrow> n \<in> kernel_signals \<or> sa_handler (signal_actions (st_proc t) ! n) = 0)"
  shows "\<exists>t'. sig_current cur P' = Some t' \<and> trap_cx_backup (st_proc t') = trap_cx_backup (st_proc t)"
  using assms
proof (induction ns arbitrary: P t)
  case Nil
  then show ?case by auto
next
  case (Cons n ns)
  have n: "n < 32" "n \<le> MAX_SIG"
    using Cons.prems(4) by (simp_all add: MAX_SIG_def)
  note one = check_one [OF Cons.prems(1,2) n(1), of ns]
  consider "\<not> deliverable (st_proc t) (sg_signals P) n" | "deliverable (st_proc t) (sg_signals P) n" "n \<in> kernel_signals"
    | "deliverable (st_proc t) (sg_signals P) n" "n \<notin> kernel_signals" "sa_handler (signal_actions (st_proc t) ! n) = 0"
    using Cons.prems(4) by auto
  then show ?case
  proof cases
    case 1
    then show ?thesis
      using Cons.IH [OF Cons.prems(1,2)] Cons.prems(3,4) one by simp
  next
    case 2
    then have "pending (sg_signals P) n"
      by (simp add: deliverable_def)
    from kernel_handler_effect [OF Cons.prems(1) this n(1)] obtain k f where
      h: "sig_current cur (call_kernel_signal_handler (sig_bit n) P) = Some (t\<lparr>st_proc := (st_proc t)\<lparr>sp_killed := k, sp_frozen := f\<rparr>\<rparr>)"
      "\<And>j. pending (sg_signals (call_kernel_signal_handler (sig_bit n) P)) j \<Longrightarrow> pending (sg_signals P) j"
      by blast
    have c: "check_pending_from ns cur (call_kernel_signal_handler (sig_bit n) P) = Some P'"
      using one 2 Cons.prems(3) by simp
    have "\<forall>k \<in> set ns. k \<le> MAX_SIG \<and> (deliverable (st_proc (t\<lparr>st_proc := (st_proc t)\<lparr>sp_killed := k', sp_frozen := f\<rparr>\<rparr>))
        (sg_signals (call_kernel_signal_handler (sig_bit n) P)) k \<longrightarrow> k \<in> kernel_signals \<or> sa_handler (signal_actions (st_proc t) ! k) = 0)" for k'
      using Cons.prems(4) h(2) by (auto simp: deliverable_def split: option.splits)
    then show ?thesis
      using Cons.IH [OF h(1) _ c] Cons.prems(2) by (simp add: sp_ok_def)
  next
    case 3
    then have "P' = P"
      using one Cons.prems(1-3) n(2) by (simp add: call_user_signal_handler_def handler_for_action_def get_handler_def sp_ok_def)
    then show ?thesis
      using Cons.prems(1) by simp
  qed
qed

lemma handler_step_backup:
  assumes "handler_step cur P P'" and "sig_current cur P = Some t"
  shows "\<exists>t'. sig_current cur P' = Some t' \<and> trap_cx_backup (st_proc t') = trap_cx_backup (st_proc t)"
  using assms
proof (induction rule: handler_step.induct)
  case (checked P u P')
  then show ?case
    using check_keeps_backup [of cur P u "[0..<MAX_SIG + 1]" P'] by (auto simp: no_handler_called_def check_pending_signals_def)
qed (auto simp: sys_sigprocmask_def sys_sigaction_def Let_def sig_current_set sig_current_less split: if_splits Option.bind_splits)

lemma handler_run_backup:
  assumes "(handler_step cur)\<^sup>*\<^sup>* P P'" and "sig_current cur P = Some t"
  shows "\<exists>t'. sig_current cur P' = Some t' \<and> trap_cx_backup (st_proc t') = trap_cx_backup (st_proc t)"
  using assms(1)
proof (induction rule: rtranclp_induct)
  case base
  then show ?case using assms(2) by simp
next
  case (step Q Q')
  then show ?case using handler_step_backup by metis
qed

section \<open>Properties\<close>


definition sample_task :: "nat \<Rightarrow> sig_task" where
  \<comment> \<open>a thread with a handler for \<open>SIGUSR1\<close>\<close>
  "sample_task h = \<lparr>st_proc = SignalProcessor_new\<lparr>signal_actions := (replicate 32 SignalAction_default)[10 := \<lparr>sa_handler = h, sa_mask = 0\<rparr>]\<rparr>,
     st_trap_cx = app_init_context 0 0x10000 0x20000 0 0 0\<rparr>"

lemma sample_task_facts:
  "sp_ok (st_proc (sample_task h))" "length (tc_x (st_trap_cx (sample_task h))) = 32" "10 \<le> MAX_SIG" "10 \<notin> kernel_signals"
  "sa_handler (signal_actions (st_proc (sample_task h)) ! 10) = h"
  by (simp_all add: sample_task_def sp_ok_def SignalProcessor_new_def MAX_SIG_def app_init_context_def kernel_signals_def)

lemma sample_deliverable:
  "deliverable (st_proc (sample_task h)) (sig_bit 10 OR sig_bit 19) k \<longleftrightarrow> k = 10 \<or> k = 19"
  by (auto simp: deliverable_def pending_def sample_task_def SignalProcessor_new_def bit_or_iff)


text \<open>
  A signal without a handler hides the later ones: when the least deliverable signal is a user signal
  whose handler is not set, the check changes nothing, so that the signal stays pending and no signal with a
  greater number, \<open>SIGKILL\<close>, \<open>SIGCONT\<close> and \<open>SIGSTOP\<close> among them, takes effect, now or in any
  later check.
\<close>

theorem unhandled_signal_hides_later_ones:
  assumes cur: "sig_current cur P = Some t" and ok: "sp_ok (st_proc t)" and n: "n \<le> MAX_SIG" "n \<notin> kernel_signals"
    and del: "deliverable (st_proc t) (sg_signals P) n" and first: "\<forall>k < n. \<not> deliverable (st_proc t) (sg_signals P) k"
    and h: "sa_handler (signal_actions (st_proc t) ! n) = 0"
  shows "check_pending_signals cur P = Some P \<and>
    handle_signals_round cur P = Some (\<not> sp_frozen (st_proc t) \<or> sp_killed (st_proc t), P)"
proof -
  have "n < length (signal_actions (st_proc t))"
    using n(1) ok by (simp add: sp_ok_def)
  then have "check_pending_signals cur P = Some P"
    using first_deliverable [OF cur ok n del first] cur h n(1)
    by (simp add: call_user_signal_handler_def handler_for_action_def get_handler_def)
  then show ?thesis
    using cur by (simp add: handle_signals_round_def)
qed

theorem unhandled_signal_hides_later_ones_witness:
  "check_pending_signals 0 \<lparr>sg_signals = sig_bit 10 OR sig_bit 19, sg_tasks = [Some (sample_task 0)]\<rparr> =
    Some \<lparr>sg_signals = sig_bit 10 OR sig_bit 19, sg_tasks = [Some (sample_task 0)]\<rparr>"
proof -
  let ?P = "\<lparr>sg_signals = sig_bit 10 OR sig_bit 19, sg_tasks = [Some (sample_task 0)]\<rparr>"
  have c: "sig_current 0 ?P = Some (sample_task 0)"
    by (simp add: sig_current_def)
  have d: "deliverable (st_proc (sample_task 0)) (sg_signals ?P) 10"
    "\<forall>k < 10. \<not> deliverable (st_proc (sample_task 0)) (sg_signals ?P) k"
    by (simp_all add: sample_deliverable)
  show ?thesis
    using unhandled_signal_hides_later_ones [OF c sample_task_facts(1,3,4) d sample_task_facts(5)] by simp
qed

end
