(* ===== verification/Scheduler.thy ===== *)
theory Scheduler
  imports Prelude
begin

text \<open>
  The scheduler (\<^verbatim>\<open>os/src/task/manager.rs\<close>, \<^verbatim>\<open>os/src/task/processor.rs\<close> and the first part of
  \<^verbatim>\<open>os/src/task/mod.rs\<close>). A task (\<open>Arc<TaskControlBlock>\<close>) is a number; of the control block the scheduler
  reads and writes the status only. Switching contexts is the change of the current task: what a
  function does before its call of \<open>schedule\<close> is one definition, the round of the idle loop that
  picks the next task is another. The record is extended by the components that schedule tasks.
\<close>

section \<open>State and operations\<close>

datatype TaskStatus = Ready | Running | Blocked

record sched =
  sc_status :: "nat \<rightharpoonup> TaskStatus" \<comment> \<open>\<open>task_status\<close> of the tasks that exist\<close>
  sc_ready :: "nat list" \<comment> \<open>\<open>TaskManager.ready_queue\<close>\<close>
  sc_current :: "nat option" \<comment> \<open>\<open>Processor.current\<close>\<close>

definition add_task :: "nat \<Rightarrow> 'a sched_scheme \<Rightarrow> 'a sched_scheme" where
  "add_task t s = s\<lparr>sc_ready := sc_ready s @ [t]\<rparr>"

definition fetch_task :: "'a sched_scheme \<Rightarrow> nat option \<times> 'a sched_scheme" where
  "fetch_task s = (case sc_ready s of [] \<Rightarrow> (None, s) | t # ts \<Rightarrow> (Some t, s\<lparr>sc_ready := ts\<rparr>))"

definition set_status :: "nat \<Rightarrow> TaskStatus \<Rightarrow> 'a sched_scheme \<Rightarrow> 'a sched_scheme" where
  "set_status t st s = s\<lparr>sc_status := (sc_status s)(t \<mapsto> st)\<rparr>"

definition wakeup_task :: "nat \<Rightarrow> 'a sched_scheme \<Rightarrow> 'a sched_scheme" where
  "wakeup_task t s = add_task t (set_status t Ready s)"

definition take_current_task :: "'a sched_scheme \<Rightarrow> nat option \<times> 'a sched_scheme" where
  "take_current_task s = (sc_current s, s\<lparr>sc_current := None\<rparr>)"

definition current_task :: "'a sched_scheme \<Rightarrow> nat option" where
  "current_task s = sc_current s"

definition suspend_current :: "'a sched_scheme \<Rightarrow> 'a sched_scheme option" where
  \<comment> \<open>\<open>suspend_current_and_run_next\<close> up to \<open>schedule\<close>\<close>
  "suspend_current s = do {
     let (task, s) = take_current_task s;
     t \<leftarrow> task;
     Some (add_task t (set_status t Ready s)) }"

definition block_current_task :: "'a sched_scheme \<Rightarrow> 'a sched_scheme option" where
  "block_current_task s = do {
     let (task, s) = take_current_task s;
     t \<leftarrow> task;
     Some (set_status t Blocked s) }"

definition run_tasks_round :: "'a sched_scheme \<Rightarrow> 'a sched_scheme" where
  \<comment> \<open>one round of the loop in \<open>run_tasks\<close>, up to the switch to the task\<close>
  "run_tasks_round s = (let (task, s) = fetch_task s in
     case task of Some t \<Rightarrow> (set_status t Running s)\<lparr>sc_current := Some t\<rparr> | None \<Rightarrow> s)"

section \<open>Invariant\<close>

definition sched_inv :: "'a sched_scheme \<Rightarrow> bool" where
  "sched_inv s \<longleftrightarrow> distinct (sc_ready s) \<and> (\<forall>t. sc_status s t = Some Running \<longleftrightarrow> sc_current s = Some t) \<and>
     (\<forall>t. sc_status s t = Some Ready \<longleftrightarrow> t \<in> set (sc_ready s))"

lemmas sched_defs = add_task_def fetch_task_def set_status_def wakeup_task_def take_current_task_def current_task_def
  suspend_current_def block_current_task_def run_tasks_round_def

lemma sched_inv_status:
  assumes "sched_inv s"
  shows "t \<in> set (sc_ready s) \<Longrightarrow> sc_status s t = Some Ready" and "sc_current s = Some t \<Longrightarrow> sc_status s t = Some Running"
    and "sc_status s t = Some Blocked \<Longrightarrow> t \<notin> set (sc_ready s) \<and> sc_current s \<noteq> Some t"
    and "sc_current s = Some t \<Longrightarrow> t \<notin> set (sc_ready s)" and "sc_status s t = None \<Longrightarrow> t \<notin> set (sc_ready s) \<and> sc_current s \<noteq> Some t"
proof -
  have i: "\<forall>t. sc_status s t = Some Running \<longleftrightarrow> sc_current s = Some t" "\<forall>t. sc_status s t = Some Ready \<longleftrightarrow> t \<in> set (sc_ready s)"
    using assms by (simp_all add: sched_inv_def)
  show "t \<in> set (sc_ready s) \<Longrightarrow> sc_status s t = Some Ready" "sc_current s = Some t \<Longrightarrow> sc_status s t = Some Running"
    using i by blast+
  then show "sc_current s = Some t \<Longrightarrow> t \<notin> set (sc_ready s)" "sc_status s t = Some Blocked \<Longrightarrow> t \<notin> set (sc_ready s) \<and> sc_current s \<noteq> Some t"
    "sc_status s t = None \<Longrightarrow> t \<notin> set (sc_ready s) \<and> sc_current s \<noteq> Some t"
    by auto
qed

lemma wakeup_task_inv: "sched_inv s \<Longrightarrow> sc_status s t = Some Blocked \<Longrightarrow> sched_inv (wakeup_task t s)"
  using sched_inv_status(3) [of s t] by (auto simp: sched_inv_def sched_defs)

lemma block_current_inv: "sched_inv s \<Longrightarrow> block_current_task s = Some s' \<Longrightarrow> sched_inv s'"
  using sched_inv_status(4) [of s] by (auto simp: sched_inv_def sched_defs split: if_splits)

lemma suspend_current_inv: "sched_inv s \<Longrightarrow> suspend_current s = Some s' \<Longrightarrow> sched_inv s'"
  using sched_inv_status(4) [of s] by (auto simp: sched_inv_def sched_defs split: if_splits)

lemma run_tasks_round_inv: "sched_inv s \<Longrightarrow> sc_current s = None \<Longrightarrow> sched_inv (run_tasks_round s)"
  by (auto simp: sched_inv_def sched_defs split: list.splits)

lemma new_task_inv: "sched_inv s \<Longrightarrow> sc_status s t = None \<Longrightarrow> sched_inv (add_task t (set_status t Ready s))"
  using sched_inv_status(5) [of s t] by (auto simp: sched_inv_def sched_defs)

section \<open>Turns\<close>

fun turns :: "nat \<Rightarrow> 'a sched_scheme \<Rightarrow> 'a sched_scheme option" where
  \<comment> \<open>\<open>n\<close> times the idle loop picks a task, which gives up the processor\<close>
  "turns 0 s = Some s"
| "turns (Suc n) s = do { s \<leftarrow> suspend_current (run_tasks_round s); turns n s }"

lemma one_turn:
  assumes "sc_ready s = t # ts" and "sc_current s = None"
  shows "\<exists>s'. suspend_current (run_tasks_round s) = Some s' \<and> sc_current (run_tasks_round s) = Some t \<and>
    sc_ready s' = ts @ [t] \<and> sc_current s' = None"
  using assms by (simp add: sched_defs)

lemma turns_rotate:
  assumes "n \<le> length (sc_ready s)" and "sc_ready s \<noteq> []" and "sc_current s = None"
  shows "\<exists>s'. turns n s = Some s' \<and> sc_ready s' = rotate n (sc_ready s) \<and> sc_current s' = None"
  using assms
proof (induction n arbitrary: s)
  case 0
  then show ?case by simp
next
  case (Suc n)
  obtain t ts where r: "sc_ready s = t # ts"
    using Suc.prems(2) by (cases "sc_ready s") auto
  obtain s1 where s1: "suspend_current (run_tasks_round s) = Some s1" "sc_ready s1 = ts @ [t]" "sc_current s1 = None"
    using one_turn [OF r Suc.prems(3)] by auto
  obtain s' where "turns n s1 = Some s'" "sc_ready s' = rotate n (sc_ready s1)" "sc_current s' = None"
    using Suc.IH [of s1] Suc.prems(1) s1(2,3) r by auto
  moreover have "rotate n (ts @ [t]) = rotate (Suc n) (t # ts)"
    by (metis rotate1.simps(2) rotate1_rotate_swap rotate_Suc)
  ultimately show ?case
    using s1 r by auto
qed

section \<open>Properties\<close>

text \<open>
  C33. The scheduler is round robin: from the idle loop, when every task that gets the processor gives it
  up again, the task at position \<open>i\<close> of the ready queue is the current one in round \<open>i\<close>, and after
  as many rounds as there are tasks the queue is as before, so that no ready task waits longer than
  the number of ready tasks.
\<close>

theorem scheduler_round_robin:
  assumes "sched_inv s" and "sc_current s = None" and "i < length (sc_ready s)"
  shows "\<exists>si sn. turns i s = Some si \<and> sc_current (run_tasks_round si) = Some (sc_ready s ! i) \<and>
    sc_status (run_tasks_round si) (sc_ready s ! i) = Some Running \<and>
    turns (length (sc_ready s)) s = Some sn \<and> sc_ready sn = sc_ready s"
proof -
  have ne: "sc_ready s \<noteq> []"
    using assms(3) by auto
  obtain si where si: "turns i s = Some si" "sc_ready si = rotate i (sc_ready s)" "sc_current si = None"
    using turns_rotate [of i s] assms ne by auto
  obtain sn where sn: "turns (length (sc_ready s)) s = Some sn" "sc_ready sn = rotate (length (sc_ready s)) (sc_ready s)"
    using turns_rotate [of "length (sc_ready s)" s] assms ne by auto
  have "hd (rotate i (sc_ready s)) = sc_ready s ! i"
    using hd_rotate_conv_nth [OF ne, of i] assms(3) by simp
  moreover have "sc_ready si \<noteq> []"
    using si(2) ne by simp
  then obtain ts where "sc_ready si = hd (sc_ready si) # ts"
    by (metis list.exhaust_sel)
  ultimately have "sc_ready si = sc_ready s ! i # ts"
    using si(2) by simp
  then show ?thesis
    using si sn by (auto simp: sched_defs)
qed

theorem scheduler_round_robin_witness:
  "\<exists>s1. turns 1 \<lparr>sc_status = [7 \<mapsto> Ready, 8 \<mapsto> Ready], sc_ready = [7, 8], sc_current = None\<rparr> = Some s1 \<and>
    sc_current (run_tasks_round s1) = Some 8"
proof -
  let ?s = "\<lparr>sc_status = [7 \<mapsto> Ready, 8 \<mapsto> Ready], sc_ready = [7, 8], sc_current = None\<rparr>"
  have inv: "sched_inv ?s"
    by (auto simp: sched_inv_def)
  show ?thesis
    using scheduler_round_robin [OF inv, of 1] by auto
qed

end
