(* ===== verification/Sync.thy ===== *)
theory Sync
  imports Scheduler
begin

text \<open>
  Synchronisation (\<^verbatim>\<open>os/src/sync/\<close>): masking of interrupts while shared data is borrowed, spinning and
  blocking mutexes, semaphores and condition variables. A call that blocks is the part up to the
  switch to another task; whether it has returned is part of the result, and it returns later, when the
  idle loop picks the task again. For the blocking mutex and the semaphore a step relation interleaves
  the calls of all tasks with everything else the scheduler may do.
\<close>

section \<open>Masking of interrupts and borrowing of cells\<close>

record IntrMaskingInfo =
  nested_level :: nat
  sie_before_masking :: bool
  sie :: bool \<comment> \<open>the bit \<open>sstatus.sie\<close> of the processor\<close>

definition IntrMaskingInfo_new :: "bool \<Rightarrow> IntrMaskingInfo" where
  "IntrMaskingInfo_new b = \<lparr>nested_level = 0, sie_before_masking = False, sie = b\<rparr>"

definition masking_enter :: "IntrMaskingInfo \<Rightarrow> IntrMaskingInfo" where
  "masking_enter i = (let before = sie i; i = i\<lparr>sie := False\<rparr>;
       i = (if nested_level i = 0 then i\<lparr>sie_before_masking := before\<rparr> else i)
     in i\<lparr>nested_level := usize (nested_level i + 1)\<rparr>)"

definition masking_exit :: "IntrMaskingInfo \<Rightarrow> IntrMaskingInfo" where
  "masking_exit i = (let i = i\<lparr>nested_level := usize_sub (nested_level i) 1\<rparr>
     in if nested_level i = 0 \<and> sie_before_masking i then i\<lparr>sie := True\<rparr> else i)"

record 'v UPIntrFreeCell =
  cell_value :: 'v
  cell_borrowed :: bool \<comment> \<open>the borrow flag of the \<open>RefCell\<close>\<close>

definition exclusive_access :: "'v UPIntrFreeCell \<Rightarrow> IntrMaskingInfo \<Rightarrow> ('v UPIntrFreeCell \<times> IntrMaskingInfo) option" where
  "exclusive_access c i = do {
     let i = masking_enter i;
     ensure (\<not> cell_borrowed c);
     Some (c\<lparr>cell_borrowed := True\<rparr>, i) }"

definition UPIntrRefMut_drop :: "'v UPIntrFreeCell \<Rightarrow> IntrMaskingInfo \<Rightarrow> 'v UPIntrFreeCell \<times> IntrMaskingInfo" where
  "UPIntrRefMut_drop c i = (c\<lparr>cell_borrowed := False\<rparr>, masking_exit i)"

definition exclusive_session :: "('v \<Rightarrow> 'r \<times> 'v) \<Rightarrow> 'v UPIntrFreeCell \<Rightarrow> IntrMaskingInfo \<Rightarrow> ('r \<times> 'v UPIntrFreeCell \<times> IntrMaskingInfo) option" where
  "exclusive_session f c i = do {
     (c, i) \<leftarrow> exclusive_access c i;
     let (r, v) = f (cell_value c);
     let (c, i) = UPIntrRefMut_drop (c\<lparr>cell_value := v\<rparr>) i;
     Some (r, c, i) }"

section \<open>Mutexes\<close>

definition MutexSpin_lock_round :: "bool \<Rightarrow> 'a sched_scheme \<Rightarrow> (bool \<times> bool \<times> 'a sched_scheme) option" where
  \<comment> \<open>one round of the loop: whether \<open>lock\<close> returns, \<open>locked\<close>, and the scheduler\<close>
  "MutexSpin_lock_round locked s = (if locked then do { s \<leftarrow> suspend_current s; Some (False, locked, s) } else Some (True, True, s))"

definition MutexSpin_unlock :: "bool \<Rightarrow> bool" where
  "MutexSpin_unlock locked = False"

record MutexBlocking =
  mb_locked :: bool
  mb_queue :: "nat list"

definition MutexBlocking_new :: MutexBlocking where
  "MutexBlocking_new = \<lparr>mb_locked = False, mb_queue = []\<rparr>"

definition MutexBlocking_lock :: "MutexBlocking \<Rightarrow> 'a sched_scheme \<Rightarrow> (bool \<times> MutexBlocking \<times> 'a sched_scheme) option" where
  \<comment> \<open>\<open>True\<close>: the call returns at once\<close>
  "MutexBlocking_lock m s =
     (if mb_locked m then do {
        t \<leftarrow> current_task s;
        s \<leftarrow> block_current_task s;
        Some (False, m\<lparr>mb_queue := mb_queue m @ [t]\<rparr>, s) }
      else Some (True, m\<lparr>mb_locked := True\<rparr>, s))"

definition MutexBlocking_unlock :: "MutexBlocking \<Rightarrow> 'a sched_scheme \<Rightarrow> (MutexBlocking \<times> 'a sched_scheme) option" where
  "MutexBlocking_unlock m s = do {
     ensure (mb_locked m);
     case mb_queue m of t # ts \<Rightarrow> Some (m\<lparr>mb_queue := ts\<rparr>, wakeup_task t s) | [] \<Rightarrow> Some (m\<lparr>mb_locked := False\<rparr>, s) }"

section \<open>Semaphores and condition variables\<close>

definition isize :: "int \<Rightarrow> int" where
  "isize i = (i + 2 ^ 63) mod 2 ^ 64 - 2 ^ 63"

record Semaphore =
  sem_count :: int
  sem_queue :: "nat list"

definition Semaphore_new :: "nat \<Rightarrow> Semaphore" where
  "Semaphore_new res_count = \<lparr>sem_count = isize (int res_count), sem_queue = []\<rparr>"

definition Semaphore_up :: "Semaphore \<Rightarrow> 'a sched_scheme \<Rightarrow> Semaphore \<times> 'a sched_scheme" where
  "Semaphore_up m s = (let m = m\<lparr>sem_count := isize (sem_count m + 1)\<rparr> in
     case sem_queue m of t # ts \<Rightarrow> (m\<lparr>sem_queue := ts\<rparr>, wakeup_task t s) | [] \<Rightarrow> (m, s))"

definition Semaphore_down :: "Semaphore \<Rightarrow> 'a sched_scheme \<Rightarrow> (bool \<times> Semaphore \<times> 'a sched_scheme) option" where
  "Semaphore_down m s = (let m = m\<lparr>sem_count := isize (sem_count m - 1)\<rparr> in
     if sem_count m < 0 then do {
       t \<leftarrow> current_task s;
       s \<leftarrow> block_current_task s;
       Some (False, m\<lparr>sem_queue := sem_queue m @ [t]\<rparr>, s) }
     else Some (True, m, s))"

record Condvar =
  cv_queue :: "nat list"

definition Condvar_new :: Condvar where
  "Condvar_new = \<lparr>cv_queue = []\<rparr>"

definition Condvar_signal :: "Condvar \<Rightarrow> 'a sched_scheme \<Rightarrow> Condvar \<times> 'a sched_scheme" where
  "Condvar_signal c s = (case cv_queue c of t # ts \<Rightarrow> (c\<lparr>cv_queue := ts\<rparr>, wakeup_task t s) | [] \<Rightarrow> (c, s))"

definition Condvar_wait :: "Condvar \<Rightarrow> MutexBlocking \<Rightarrow> 'a sched_scheme \<Rightarrow> (Condvar \<times> MutexBlocking \<times> 'a sched_scheme) option" where
  \<comment> \<open>up to the switch; \<open>mutex.lock()\<close> follows when the task runs again\<close>
  "Condvar_wait c m s = do {
     (m, s) \<leftarrow> MutexBlocking_unlock m s;
     t \<leftarrow> current_task s;
     let c = c\<lparr>cv_queue := cv_queue c @ [t]\<rparr>;
     s \<leftarrow> block_current_task s;
     Some (c, m, s) }"

definition wait_no_sched :: "Condvar \<Rightarrow> 'a sched_scheme \<Rightarrow> (Condvar \<times> 'a sched_scheme) option" where
  "wait_no_sched c s = do {
     t \<leftarrow> current_task s;
     let c = c\<lparr>cv_queue := cv_queue c @ [t]\<rparr>;
     s \<leftarrow> block_current_task s;
     Some (c, s) }"

section \<open>Open borrows\<close>

record 'v borrow_sys =
  bs_cells :: "nat \<Rightarrow> 'v UPIntrFreeCell"
  bs_mask :: IntrMaskingInfo
  bs_open :: "nat list" \<comment> \<open>the cells of the \<open>UPIntrRefMut\<close> values that exist\<close>
  bs_sie :: bool \<comment> \<open>the interrupt bit as it was set last while no such value existed\<close>

definition borrow_init :: "(nat \<Rightarrow> 'v) \<Rightarrow> bool \<Rightarrow> 'v borrow_sys" where
  "borrow_init v b = \<lparr>bs_cells = (\<lambda>c. \<lparr>cell_value = v c, cell_borrowed = False\<rparr>), bs_mask = IntrMaskingInfo_new b, bs_open = [], bs_sie = b\<rparr>"

inductive borrow_step :: "'v borrow_sys \<Rightarrow> 'v borrow_sys \<Rightarrow> bool" where
  \<comment> \<open>the values of \<open>UPIntrRefMut\<close> fit into memory, so there are fewer than \<open>2 ^ 64\<close>; the type of the result of a session plays no role\<close>
  access: "exclusive_access (bs_cells s c) (bs_mask s) = Some (x, i) \<Longrightarrow> length (bs_open s) + 1 < 2 ^ 64 \<Longrightarrow>
    borrow_step s (s\<lparr>bs_cells := (bs_cells s)(c := x), bs_mask := i, bs_open := c # bs_open s\<rparr>)"
| store: "c \<in> set (bs_open s) \<Longrightarrow> borrow_step s (s\<lparr>bs_cells := (bs_cells s)(c := (bs_cells s c)\<lparr>cell_value := v\<rparr>)\<rparr>)"
| drop: "c \<in> set (bs_open s) \<Longrightarrow> UPIntrRefMut_drop (bs_cells s c) (bs_mask s) = (x, i) \<Longrightarrow>
    borrow_step s (s\<lparr>bs_cells := (bs_cells s)(c := x), bs_mask := i, bs_open := remove1 c (bs_open s)\<rparr>)"
| session: "exclusive_session (f :: 'v \<Rightarrow> 'v \<times> 'v) (bs_cells s c) (bs_mask s) = Some (r, x, i) \<Longrightarrow> length (bs_open s) + 1 < 2 ^ 64 \<Longrightarrow>
    borrow_step s (s\<lparr>bs_cells := (bs_cells s)(c := x), bs_mask := i\<rparr>)"
| outside: "bs_open s = [] \<Longrightarrow> borrow_step s (s\<lparr>bs_mask := (bs_mask s)\<lparr>sie := b\<rparr>, bs_sie := b\<rparr>)"

definition mask_inv :: "bool \<Rightarrow> nat \<Rightarrow> IntrMaskingInfo \<Rightarrow> bool" where
  "mask_inv b n i \<longleftrightarrow> nested_level i = n \<and> (if n = 0 then sie i = b else \<not> sie i \<and> sie_before_masking i = b)"

lemma mask_inv_enter: "mask_inv b n i \<Longrightarrow> n + 1 < 2 ^ 64 \<Longrightarrow> mask_inv b (Suc n) (masking_enter i)"
  by (auto simp: mask_inv_def masking_enter_def Let_def usize_id)

lemma mask_inv_exit: "mask_inv b (Suc n) i \<Longrightarrow> n + 1 < 2 ^ 64 \<Longrightarrow> mask_inv b n (masking_exit i)"
  by (auto simp: mask_inv_def masking_exit_def Let_def usize_sub_id)

definition borrow_inv :: "'v borrow_sys \<Rightarrow> bool" where
  "borrow_inv s \<longleftrightarrow> distinct (bs_open s) \<and> (\<forall>c. cell_borrowed (bs_cells s c) \<longleftrightarrow> c \<in> set (bs_open s)) \<and>
     mask_inv (bs_sie s) (length (bs_open s)) (bs_mask s)"

lemma borrow_init_inv: "borrow_inv (borrow_init v b)"
  by (simp add: borrow_inv_def borrow_init_def mask_inv_def IntrMaskingInfo_new_def)

lemma borrow_step_inv: "borrow_step s s' \<Longrightarrow> borrow_inv s \<Longrightarrow> length (bs_open s) < 2 ^ 64 \<Longrightarrow> borrow_inv s' \<and> length (bs_open s') < 2 ^ 64"
proof (induction rule: borrow_step.induct)
  case (access s c x i)
  then show ?case
    using mask_inv_enter [of "bs_sie s" "length (bs_open s)" "bs_mask s"] by (auto simp: borrow_inv_def exclusive_access_def ensure_def Let_def split: if_splits)
next
  case (store c s v)
  then show ?case by (auto simp: borrow_inv_def)
next
  case (drop c s x i)
  obtain n where n: "length (bs_open s) = Suc n"
    using drop.hyps(1) by (cases "bs_open s") auto
  moreover have "length (remove1 c (bs_open s)) = n"
    using drop.hyps(1) n by (simp add: length_remove1)
  ultimately show ?case
    using drop mask_inv_exit [of "bs_sie s" n "bs_mask s"] by (auto simp: borrow_inv_def UPIntrRefMut_drop_def)
next
  case (session f s c r x i)
  then show ?case
    using mask_inv_exit [OF mask_inv_enter [of "bs_sie s" "length (bs_open s)" "bs_mask s"]]
    by (auto simp: borrow_inv_def exclusive_session_def exclusive_access_def UPIntrRefMut_drop_def ensure_def Let_def split: if_splits prod.splits)
next
  case (outside s b)
  then show ?case by (simp add: borrow_inv_def mask_inv_def)
qed

lemma borrow_reachable_inv: "borrow_step\<^sup>*\<^sup>* (borrow_init v b) s \<Longrightarrow> borrow_inv s"
proof -
  assume "borrow_step\<^sup>*\<^sup>* (borrow_init v b) s"
  then have "borrow_inv s \<and> length (bs_open s) < 2 ^ 64"
  proof (induction rule: rtranclp_induct)
    case base
    then show ?case by (simp add: borrow_init_inv) (simp add: borrow_init_def)
  next
    case (step s s')
    then show ?case using borrow_step_inv by blast
  qed
  then show ?thesis ..
qed

section \<open>What else the scheduler may do\<close>

inductive sched_env :: "nat set \<Rightarrow> 'a sched_scheme \<Rightarrow> 'a sched_scheme \<Rightarrow> bool" for W where
  \<comment> \<open>steps of other parts of the kernel, which wake no task of \<open>W\<close>\<close>
  env_suspend: "suspend_current s = Some s' \<Longrightarrow> sched_env W s s'"
| env_block: "block_current_task s = Some s' \<Longrightarrow> sched_env W s s'"
| env_wake: "sc_status s t = Some Blocked \<Longrightarrow> t \<notin> W \<Longrightarrow> sched_env W s (wakeup_task t s)"
| env_create: "sc_status s t = None \<Longrightarrow> sched_env W s (add_task t (set_status t Ready s))"

lemma sched_env_inv:
  assumes "sched_env W s s'" and "sched_inv s"
  shows "sched_inv s'" and "sched.more s' = sched.more s"
    and "t \<in> W \<Longrightarrow> sc_status s t = Some Blocked \<Longrightarrow> sc_status s' t = Some Blocked"
    and "sc_status s t = Some Ready \<Longrightarrow> sc_status s' t = Some Ready"
proof -
  show "sched_inv s'"
    using assms by (cases rule: sched_env.cases) (auto intro: suspend_current_inv block_current_inv wakeup_task_inv new_task_inv)
  show "sched.more s' = sched.more s"
    using assms(1) by (cases rule: sched_env.cases) (auto simp: sched_defs)
  show "t \<in> W \<Longrightarrow> sc_status s t = Some Blocked \<Longrightarrow> sc_status s' t = Some Blocked"
    using assms(1) sched_inv_status(2) [OF assms(2)]
    by (cases rule: sched_env.cases) (auto simp: sched_defs)
  show "sc_status s t = Some Ready \<Longrightarrow> sc_status s' t = Some Ready"
    using assms(1) sched_inv_status(2) [OF assms(2)]
    by (cases rule: sched_env.cases) (auto simp: sched_defs)
qed

section \<open>A blocking mutex in use\<close>

record lock_sys = sched +
  ls_mutex :: MutexBlocking
  ls_inside :: "nat set" \<comment> \<open>tasks whose \<open>lock\<close> has returned and which have not called \<open>unlock\<close>\<close>
  ls_locking :: "nat set" \<comment> \<open>tasks whose \<open>lock\<close> has blocked and not returned\<close>

definition lock_sys_init :: "'a sched_scheme \<Rightarrow> lock_sys" where
  "lock_sys_init s = \<lparr>sc_status = sc_status s, sc_ready = sc_ready s, sc_current = sc_current s,
     ls_mutex = MutexBlocking_new, ls_inside = {}, ls_locking = {}\<rparr>"

inductive lock_step :: "lock_sys \<Rightarrow> lock_sys \<Rightarrow> bool" where
  lock: "sc_current s = Some t \<Longrightarrow> MutexBlocking_lock (ls_mutex s) s = Some (ret, m, s') \<Longrightarrow>
    lock_step s (s'\<lparr>ls_mutex := m, ls_inside := (if ret then insert t (ls_inside s) else ls_inside s),
      ls_locking := (if ret then ls_locking s else insert t (ls_locking s))\<rparr>)"
| unlock: "sc_current s = Some t \<Longrightarrow> t \<in> ls_inside s \<Longrightarrow> MutexBlocking_unlock (ls_mutex s) s = Some (m, s') \<Longrightarrow>
    lock_step s (s'\<lparr>ls_mutex := m, ls_inside := ls_inside s - {t}\<rparr>)"
| pick: "sc_current s = None \<Longrightarrow> sc_ready s = t # ts \<Longrightarrow>
    lock_step s ((run_tasks_round s)\<lparr>ls_inside := (if t \<in> ls_locking s then insert t (ls_inside s) else ls_inside s),
      ls_locking := ls_locking s - {t}\<rparr>)"
| env: "sched_env (ls_locking s) s s' \<Longrightarrow> lock_step s s'"

definition lock_inv :: "lock_sys \<Rightarrow> bool" where
  "lock_inv s \<longleftrightarrow> sched_inv s \<and> distinct (mb_queue (ls_mutex s)) \<and> set (mb_queue (ls_mutex s)) \<subseteq> ls_locking s \<and>
     (\<forall>t \<in> set (mb_queue (ls_mutex s)). sc_status s t = Some Blocked) \<and>
     (if mb_locked (ls_mutex s)
      then \<exists>h. ls_inside s = {h} \<and> ls_locking s = set (mb_queue (ls_mutex s)) \<or>
         ls_inside s = {} \<and> h \<notin> set (mb_queue (ls_mutex s)) \<and> ls_locking s = insert h (set (mb_queue (ls_mutex s))) \<and>
           sc_status s h = Some Ready
      else ls_inside s = {} \<and> ls_locking s = {})"

lemma lock_invD:
  assumes "lock_inv s"
  shows "sched_inv s" and "distinct (mb_queue (ls_mutex s))" and "set (mb_queue (ls_mutex s)) \<subseteq> ls_locking s"
    and "\<And>t. t \<in> set (mb_queue (ls_mutex s)) \<Longrightarrow> sc_status s t = Some Blocked"
    and "\<not> mb_locked (ls_mutex s) \<Longrightarrow> ls_inside s = {} \<and> ls_locking s = {}"
    and "mb_locked (ls_mutex s) \<Longrightarrow> ls_inside s = {} \<Longrightarrow>
      \<exists>h. h \<notin> set (mb_queue (ls_mutex s)) \<and> ls_locking s = insert h (set (mb_queue (ls_mutex s))) \<and> sc_status s h = Some Ready"
    and "t \<in> ls_inside s \<Longrightarrow> mb_locked (ls_mutex s) \<and> ls_inside s = {t} \<and> ls_locking s = set (mb_queue (ls_mutex s))"
  using assms unfolding lock_inv_def by (auto split: if_splits)

lemma lock_sys_upd [simp]:
  "sched_inv (s\<lparr>ls_mutex := m\<rparr>) = sched_inv s" "sched_inv (s\<lparr>ls_inside := a\<rparr>) = sched_inv s" "sched_inv (s\<lparr>ls_locking := b\<rparr>) = sched_inv s"
  by (simp_all add: sched_inv_def)

lemma lock_step_lock:
  assumes inv: "lock_inv s" and cur: "sc_current s = Some t" and l: "MutexBlocking_lock (ls_mutex s) s = Some (ret, m, s')"
  shows "lock_inv (s'\<lparr>ls_mutex := m, ls_inside := (if ret then insert t (ls_inside s) else ls_inside s),
      ls_locking := (if ret then ls_locking s else insert t (ls_locking s))\<rparr>)"
proof (cases "mb_locked (ls_mutex s)")
  case False
  then show ?thesis
    using inv l lock_invD(3,5) [OF inv] by (auto simp: MutexBlocking_lock_def lock_inv_def)
next
  case True
  note D = lock_invD [OF inv]
  have s': "s' = s\<lparr>sc_current := None, sc_status := (sc_status s)(t \<mapsto> Blocked)\<rparr>" "\<not> ret" "block_current_task s = Some s'"
    "m = (ls_mutex s)\<lparr>mb_queue := mb_queue (ls_mutex s) @ [t]\<rparr>"
    using l True cur by (auto simp: MutexBlocking_lock_def sched_defs)
  have t: "sc_status s t = Some Running"
    using sched_inv_status(2) [OF D(1) cur] .
  have tq: "t \<notin> set (mb_queue (ls_mutex s))"
    using D(4) t by fastforce
  have i: "sched_inv s'"
    using block_current_inv [OF D(1) s'(3)] .
  show ?thesis
  proof (cases "ls_inside s = {}")
    case e: True
    obtain h where h: "h \<notin> set (mb_queue (ls_mutex s))" "ls_locking s = insert h (set (mb_queue (ls_mutex s)))" "sc_status s h = Some Ready"
      using D(6) [OF True e] by auto
    then have "h \<noteq> t"
      using t by auto
    then show ?thesis
      using i s' D(2,4) h e True tq by (auto simp: lock_inv_def)
  next
    case False
    then obtain h where "h \<in> ls_inside s"
      by auto
    then show ?thesis
      using i s' D(2,4) D(7) [of h] True tq by (auto simp: lock_inv_def)
  qed
qed

lemma lock_step_unlock:
  assumes inv: "lock_inv s" and t: "t \<in> ls_inside s" and u: "MutexBlocking_unlock (ls_mutex s) s = Some (m, s')"
  shows "lock_inv (s'\<lparr>ls_mutex := m, ls_inside := ls_inside s - {t}\<rparr>)"
proof -
  note D = lock_invD [OF inv] and T = lock_invD(7) [OF inv t]
  show ?thesis
  proof (cases "mb_queue (ls_mutex s)")
    case Nil
    then show ?thesis
      using u T D(1) by (auto simp: MutexBlocking_unlock_def lock_inv_def)
  next
    case (Cons h ts)
    then have s': "s' = wakeup_task h s" "m = (ls_mutex s)\<lparr>mb_queue := ts\<rparr>"
      using u T by (auto simp: MutexBlocking_unlock_def)
    have h: "sc_status s h = Some Blocked" "h \<notin> set ts" "distinct ts" "\<forall>x \<in> set ts. sc_status s x = Some Blocked"
      using D(2,4) Cons by auto
    then have "sched_inv s'" "sc_status s' h = Some Ready" "\<forall>x \<in> set ts. sc_status s' x = Some Blocked"
        "ls_inside s' = ls_inside s" "ls_locking s' = ls_locking s"
      using wakeup_task_inv [OF D(1)] s'(1) by (auto simp: sched_defs)
    then show ?thesis
      using T h Cons s'(2) unfolding lock_inv_def by auto
  qed
qed

lemma lock_step_pick:
  assumes inv: "lock_inv s" and p: "sc_current s = None" "sc_ready s = t # ts"
  shows "lock_inv ((run_tasks_round s)\<lparr>ls_inside := (if t \<in> ls_locking s then insert t (ls_inside s) else ls_inside s),
      ls_locking := ls_locking s - {t}\<rparr>)"
proof -
  note D = lock_invD [OF inv]
  let ?q = "set (mb_queue (ls_mutex s))" and ?s = "run_tasks_round s"
  have t: "sc_status s t = Some Ready"
    using sched_inv_status(1) [OF D(1), of t] p(2) by simp
  then have tq: "t \<notin> ?q"
    using D(4) by fastforce
  have r: "sched_inv ?s" "ls_mutex ?s = ls_mutex s" "ls_inside ?s = ls_inside s" "sc_status ?s = (sc_status s)(t \<mapsto> Running)"
    using run_tasks_round_inv [OF D(1) p(1)] p(2) by (auto simp: sched_defs)
  have b: "\<forall>x \<in> ?q. sc_status ?s x = Some Blocked"
    using D(4) tq r(4) by auto
  show ?thesis
  proof (cases "t \<in> ls_locking s")
    case True
    then have "mb_locked (ls_mutex s)" "ls_inside s = {}"
      using D(5) tq D(7) by fastforce+
    then show ?thesis
      using D(6) True tq D(2) r b by (auto simp: lock_inv_def)
  next
    case False
    then have nl: "ls_locking s - {t} = ls_locking s"
      by simp
    show ?thesis
    proof (cases "mb_locked (ls_mutex s) \<and> ls_inside s = {}")
      case True
      then obtain h where "h \<notin> ?q" "ls_locking s = insert h ?q" "sc_status s h = Some Ready" "h \<noteq> t"
        using D(6) False by auto
      then show ?thesis
        using True False D(2) r b by (auto simp: lock_inv_def)
    next
      case f: False
      show ?thesis
        using inv f False nl D(2,3) r b unfolding lock_inv_def by (auto split: if_splits)
    qed
  qed
qed

lemma lock_step_env:
  assumes "lock_inv s" and "sched_env (ls_locking s) s s'"
  shows "lock_inv s'"
proof -
  note D = lock_invD [OF assms(1)] and E = sched_env_inv [OF assms(2) lock_invD(1) [OF assms(1)]]
  have more: "ls_mutex s' = ls_mutex s" "ls_inside s' = ls_inside s" "ls_locking s' = ls_locking s"
    using E(2) by (cases s; cases s'; simp)+
  have "\<forall>t \<in> set (mb_queue (ls_mutex s)). sc_status s' t = Some Blocked"
    using D(3,4) E(3) by blast
  then show ?thesis
    using assms(1) E(1,4) unfolding lock_inv_def more by (auto split: if_splits)
qed

lemma lock_step_inv: "lock_step s s' \<Longrightarrow> lock_inv s \<Longrightarrow> lock_inv s'"
  by (induction rule: lock_step.induct)
    (blast intro: lock_step_lock lock_step_unlock lock_step_pick lock_step_env)+

lemma lock_inv_init: "sched_inv s \<Longrightarrow> lock_inv (lock_sys_init s)"
  by (simp add: lock_inv_def lock_sys_init_def MutexBlocking_new_def sched_inv_def)

lemma lock_reachable_inv: "lock_step\<^sup>*\<^sup>* (lock_sys_init s0) s \<Longrightarrow> sched_inv s0 \<Longrightarrow> lock_inv s"
  by (induction rule: rtranclp_induct) (auto intro: lock_inv_init lock_step_inv)


section \<open>A semaphore in use\<close>

record sem_sys = sched +
  ss_sem :: Semaphore
  ss_init :: nat
  ss_ups :: nat \<comment> \<open>calls of \<open>up\<close>\<close>
  ss_downs :: nat \<comment> \<open>calls of \<open>down\<close>, returned or not\<close>
  ss_passed :: nat \<comment> \<open>calls of \<open>down\<close> that have returned\<close>
  ss_blocked :: "nat set" \<comment> \<open>tasks in a call of \<open>down\<close> that has not returned\<close>

definition sem_sys_init :: "nat \<Rightarrow> 'a sched_scheme \<Rightarrow> sem_sys" where
  "sem_sys_init n s = \<lparr>sc_status = sc_status s, sc_ready = sc_ready s, sc_current = sc_current s,
     ss_sem = Semaphore_new n, ss_init = n, ss_ups = 0, ss_downs = 0, ss_passed = 0, ss_blocked = {}\<rparr>"

inductive sem_step :: "sem_sys \<Rightarrow> sem_sys \<Rightarrow> bool" where
  down: "sc_current s = Some t \<Longrightarrow> Semaphore_down (ss_sem s) s = Some (ret, m, s') \<Longrightarrow>
    sem_step s (s'\<lparr>ss_sem := m, ss_downs := ss_downs s + 1, ss_passed := (if ret then ss_passed s + 1 else ss_passed s),
      ss_blocked := (if ret then ss_blocked s else insert t (ss_blocked s))\<rparr>)"
| up: "Semaphore_up (ss_sem s) s = (m, s') \<Longrightarrow> sem_step s (s'\<lparr>ss_sem := m, ss_ups := ss_ups s + 1\<rparr>)"
| pick: "sc_current s = None \<Longrightarrow> sc_ready s = t # ts \<Longrightarrow>
    sem_step s ((run_tasks_round s)\<lparr>ss_passed := (if t \<in> ss_blocked s then ss_passed s + 1 else ss_passed s),
      ss_blocked := ss_blocked s - {t}\<rparr>)"
| env: "sched_env (ss_blocked s) s s' \<Longrightarrow> sem_step s s'"

definition sem_bounded :: "sem_sys \<Rightarrow> bool" where
  "sem_bounded s \<longleftrightarrow> ss_init s + ss_ups s < 2 ^ 63 \<and> ss_downs s < 2 ^ 63"

definition sem_inv :: "sem_sys \<Rightarrow> bool" where
  "sem_inv s \<longleftrightarrow> sched_inv s \<and> distinct (sem_queue (ss_sem s)) \<and> set (sem_queue (ss_sem s)) \<subseteq> ss_blocked s \<and>
     (\<forall>t \<in> set (sem_queue (ss_sem s)). sc_status s t = Some Blocked) \<and>
     (\<forall>t \<in> ss_blocked s - set (sem_queue (ss_sem s)). sc_status s t = Some Ready) \<and> finite (ss_blocked s) \<and>
     ss_downs s = ss_passed s + card (ss_blocked s) \<and>
     sem_count (ss_sem s) = int (ss_init s + ss_ups s) - int (ss_downs s) \<and>
     length (sem_queue (ss_sem s)) = ss_downs s - (ss_init s + ss_ups s)"

lemma sem_invD:
  assumes "sem_inv s"
  shows "sched_inv s" and "distinct (sem_queue (ss_sem s))" and "set (sem_queue (ss_sem s)) \<subseteq> ss_blocked s"
    and "\<And>t. t \<in> set (sem_queue (ss_sem s)) \<Longrightarrow> sc_status s t = Some Blocked"
    and "\<And>t. t \<in> ss_blocked s - set (sem_queue (ss_sem s)) \<Longrightarrow> sc_status s t = Some Ready"
    and "finite (ss_blocked s)" and "ss_downs s = ss_passed s + card (ss_blocked s)"
    and "sem_count (ss_sem s) = int (ss_init s + ss_ups s) - int (ss_downs s)"
    and "length (sem_queue (ss_sem s)) = ss_downs s - (ss_init s + ss_ups s)"
  using assms unfolding sem_inv_def by blast+

lemma isize_id: "- (2 ^ 63) \<le> i \<Longrightarrow> i < 2 ^ 63 \<Longrightarrow> isize i = i"
  by (simp add: isize_def)

lemma sem_sys_upd [simp]:
  "sched_inv (s\<lparr>ss_sem := m\<rparr>) = sched_inv s" "sched_inv (s\<lparr>ss_ups := n\<rparr>) = sched_inv s" "sched_inv (s\<lparr>ss_downs := n\<rparr>) = sched_inv s"
  "sched_inv (s\<lparr>ss_passed := n\<rparr>) = sched_inv s" "sched_inv (s\<lparr>ss_blocked := b\<rparr>) = sched_inv s"
  by (simp_all add: sched_inv_def)

lemma sem_step_down:
  assumes inv: "sem_inv s" and cur: "sc_current s = Some t" and d: "Semaphore_down (ss_sem s) s = Some (ret, m, s')"
    and bnd: "ss_init s + ss_ups s < 2 ^ 63" "ss_downs s + 1 < 2 ^ 63"
  shows "sem_inv (s'\<lparr>ss_sem := m, ss_downs := ss_downs s + 1, ss_passed := (if ret then ss_passed s + 1 else ss_passed s),
      ss_blocked := (if ret then ss_blocked s else insert t (ss_blocked s))\<rparr>)"
proof -
  note D = sem_invD [OF inv]
  have c: "isize (sem_count (ss_sem s) - 1) = int (ss_init s + ss_ups s) - int (ss_downs s + 1)"
    unfolding D(8) using bnd by (subst isize_id) auto
  show ?thesis
  proof (cases "ss_init s + ss_ups s < ss_downs s + 1")
    case False
    then have r: "ret" "s' = s" "m = (ss_sem s)\<lparr>sem_count := int (ss_init s + ss_ups s) - int (ss_downs s + 1)\<rparr>"
      using d c by (auto simp: Semaphore_down_def Let_def split: if_splits)
    then show ?thesis
      using False D(9) by (simp add: sem_inv_def D(1-7))
  next
    case True
    then have r: "\<not> ret" "s' = s\<lparr>sc_current := None, sc_status := (sc_status s)(t \<mapsto> Blocked)\<rparr>" "block_current_task s = Some s'"
      "m = (ss_sem s)\<lparr>sem_count := int (ss_init s + ss_ups s) - int (ss_downs s + 1), sem_queue := sem_queue (ss_sem s) @ [t]\<rparr>"
      using d c cur by (auto simp: Semaphore_down_def Let_def sched_defs split: if_splits)
    have t: "sc_status s t = Some Running"
      using sched_inv_status(2) [OF D(1) cur] .
    then have tb: "t \<notin> ss_blocked s" "t \<notin> set (sem_queue (ss_sem s))"
      using D(3,4,5) by fastforce+
    show ?thesis
      using block_current_inv [OF D(1) r(3)] r(1,2,4) D tb True unfolding sem_inv_def by auto
  qed
qed

lemma sem_step_up:
  assumes inv: "sem_inv s" and u: "Semaphore_up (ss_sem s) s = (m, s')"
    and bnd: "ss_init s + (ss_ups s + 1) < 2 ^ 63" "ss_downs s < 2 ^ 63"
  shows "sem_inv (s'\<lparr>ss_sem := m, ss_ups := ss_ups s + 1\<rparr>)"
proof -
  note D = sem_invD [OF inv]
  have c: "isize (sem_count (ss_sem s) + 1) = int (ss_init s + (ss_ups s + 1)) - int (ss_downs s)"
    unfolding D(8) using bnd by (subst isize_id) auto
  show ?thesis
  proof (cases "sem_queue (ss_sem s)")
    case Nil
    then show ?thesis
      using u c D by (auto simp: Semaphore_up_def Let_def sem_inv_def)
  next
    case (Cons h ts)
    then have r: "s' = wakeup_task h s" "m = (ss_sem s)\<lparr>sem_count := int (ss_init s + (ss_ups s + 1)) - int (ss_downs s), sem_queue := ts\<rparr>"
      using u c by (auto simp: Semaphore_up_def Let_def)
    have h: "sc_status s h = Some Blocked" "h \<notin> set ts" "distinct ts" "h \<in> ss_blocked s" "set ts \<subseteq> ss_blocked s"
        "\<forall>x \<in> set ts. sc_status s x = Some Blocked" "Suc (length ts) = ss_downs s - (ss_init s + ss_ups s)"
      using D(2,3,4,9) Cons by auto
    have o: "sched_inv s'" "\<forall>x \<in> set ts. sc_status s' x = Some Blocked" "\<forall>x \<in> ss_blocked s - set ts. sc_status s' x = Some Ready"
        "ss_blocked s' = ss_blocked s" "ss_init s' = ss_init s" "ss_downs s' = ss_downs s" "ss_passed s' = ss_passed s"
      using wakeup_task_inv [OF D(1) h(1)] h D(5) Cons r(1) by (auto simp: sched_defs)
    show ?thesis
      using o h D(6,7) r(2) unfolding sem_inv_def by auto
  qed
qed

lemma sem_step_pick:
  assumes inv: "sem_inv s" and p: "sc_current s = None" "sc_ready s = t # ts"
  shows "sem_inv ((run_tasks_round s)\<lparr>ss_passed := (if t \<in> ss_blocked s then ss_passed s + 1 else ss_passed s),
      ss_blocked := ss_blocked s - {t}\<rparr>)"
proof -
  note D = sem_invD [OF inv]
  let ?s = "run_tasks_round s"
  have t: "sc_status s t = Some Ready"
    using sched_inv_status(1) [OF D(1), of t] p(2) by simp
  then have tq: "t \<notin> set (sem_queue (ss_sem s))"
    using D(4) by fastforce
  have r: "sched_inv ?s" "ss_sem ?s = ss_sem s" "ss_init ?s = ss_init s" "ss_ups ?s = ss_ups s" "ss_downs ?s = ss_downs s"
      "sc_status ?s = (sc_status s)(t \<mapsto> Running)"
    using run_tasks_round_inv [OF D(1) p(1)] p(2) by (auto simp: sched_defs)
  have "ss_downs s = (if t \<in> ss_blocked s then ss_passed s + 1 else ss_passed s) + card (ss_blocked s - {t})"
    using D(6,7) card_Suc_Diff1 [OF D(6), of t] by auto
  then show ?thesis
    using D(2-6,8,9) tq r unfolding sem_inv_def by auto
qed

lemma sem_step_env:
  assumes "sem_inv s" and "sched_env (ss_blocked s) s s'"
  shows "sem_inv s'" and "sched.more s' = sched.more s"
proof -
  note D = sem_invD [OF assms(1)] and E = sched_env_inv [OF assms(2) sem_invD(1) [OF assms(1)]]
  show more: "sched.more s' = sched.more s"
    by (rule E(2))
  have m: "ss_sem s' = ss_sem s" "ss_init s' = ss_init s" "ss_ups s' = ss_ups s" "ss_downs s' = ss_downs s" "ss_passed s' = ss_passed s"
      "ss_blocked s' = ss_blocked s"
    using more by (cases s; cases s'; simp)+
  have "\<forall>t \<in> set (sem_queue (ss_sem s)). sc_status s' t = Some Blocked"
    using D(3,4) E(3) by blast
  then show "sem_inv s'"
    using D E(1,4) unfolding sem_inv_def m by auto
qed

lemma sem_step_counts:
  assumes "sem_step s s'"
  shows "ss_init s' = ss_init s" and "ss_ups s \<le> ss_ups s'" and "ss_downs s \<le> ss_downs s'"
proof -
  have "ss_init s' = ss_init s \<and> ss_ups s \<le> ss_ups s' \<and> ss_downs s \<le> ss_downs s'"
    using assms
  proof (cases rule: sem_step.cases)
    case (down t ret m s1)
    then have "sched.more s1 = sched.more s"
      by (auto simp: Semaphore_down_def Let_def sched_defs split: if_splits)
    then have "ss_init s1 = ss_init s" "ss_ups s1 = ss_ups s"
      by (cases s; cases s1; simp)+
    then show ?thesis
      using down by simp
  next
    case (up m s1)
    then have "sched.more s1 = sched.more s"
      by (auto simp: Semaphore_up_def Let_def sched_defs split: list.splits)
    then have "ss_init s1 = ss_init s" "ss_downs s1 = ss_downs s"
      by (cases s; cases s1; simp)+
    then show ?thesis
      using up by simp
  next
    case (pick t ts)
    then show ?thesis
      by (simp add: sched_defs)
  next
    case env
    then have "sched.more s' = sched.more s"
      by (cases rule: sched_env.cases) (auto simp: sched_defs)
    then show ?thesis
      by (cases s; cases s'; simp)
  qed
  then show "ss_init s' = ss_init s" "ss_ups s \<le> ss_ups s'" "ss_downs s \<le> ss_downs s'"
    by simp_all
qed

lemma sem_step_inv:
  assumes "sem_step s s'" and "sem_bounded s'" and inv: "sem_inv s"
  shows "sem_inv s'"
  using assms(1)
proof (cases rule: sem_step.cases)
  case (down t ret m s1)
  have "ss_init s + ss_ups s < 2 ^ 63" "ss_downs s + 1 < 2 ^ 63"
    using assms(2) sem_step_counts [OF assms(1)] down by (auto simp: sem_bounded_def)
  then show ?thesis
    using sem_step_down [OF inv] down by blast
next
  case (up m s1)
  have "ss_init s + (ss_ups s + 1) < 2 ^ 63" "ss_downs s < 2 ^ 63"
    using assms(2) sem_step_counts [OF assms(1)] up by (auto simp: sem_bounded_def)
  then show ?thesis
    using sem_step_up [OF inv] up by blast
next
  case (pick t ts)
  then show ?thesis
    using sem_step_pick [OF inv] by blast
next
  case env
  then show ?thesis
    using sem_step_env(1) [OF inv] by blast
qed

lemma sem_reachable_inv:
  assumes "sem_step\<^sup>*\<^sup>* (sem_sys_init n s0) s" and "sched_inv s0" and "sem_bounded s"
  shows "sem_inv s"
  using assms
proof (induction rule: rtranclp_induct)
  case base
  then show ?case
    by (simp add: sem_inv_def sem_sys_init_def Semaphore_new_def sched_inv_def sem_bounded_def isize_id)
next
  case (step s s')
  have "sem_bounded s"
    using step.prems(2) sem_step_counts [OF step.hyps(2)] by (auto simp: sem_bounded_def)
  then show ?case
    using step sem_step_inv by blast
qed


section \<open>Properties\<close>

text \<open>
  C32. Interrupts are masked as long as any cell is borrowed. Take any sequence of borrows of any cells, stores through them, releases in any order, sessions, and
  changes of the interrupt bit by other code while nothing is borrowed. While some borrow is open the interrupt bit is off; when none is
  open it has the value it was given outside of all borrows. A cell has at most one open borrow, and \<open>exclusive_access\<close> panics exactly
  on a cell with an open borrow.
\<close>

theorem interrupts_masked_while_borrowed:
  assumes "borrow_step\<^sup>*\<^sup>* (borrow_init v b) s"
  shows "(bs_open s \<noteq> [] \<longrightarrow> \<not> sie (bs_mask s)) \<and> (bs_open s = [] \<longrightarrow> sie (bs_mask s) = bs_sie s) \<and> distinct (bs_open s) \<and>
    (\<forall>c. exclusive_access (bs_cells s c) (bs_mask s) = None \<longleftrightarrow> c \<in> set (bs_open s))"
  using borrow_reachable_inv [OF assms] by (auto simp: borrow_inv_def mask_inv_def exclusive_access_def ensure_def)

theorem interrupts_masked_while_borrowed_witness:
  "\<exists>s :: nat borrow_sys. borrow_step\<^sup>*\<^sup>* (borrow_init (\<lambda>_. 0) True) s \<and> bs_open s = [7] \<and> \<not> sie (bs_mask s) \<and> exclusive_access (bs_cells s 7) (bs_mask s) = None"
proof -
  let ?i = "borrow_init (\<lambda>_. 0 :: nat) True"
  define s1 where "s1 = ?i\<lparr>bs_cells := (bs_cells ?i)(7 := (bs_cells ?i 7)\<lparr>cell_borrowed := True\<rparr>), bs_mask := masking_enter (bs_mask ?i), bs_open := [7]\<rparr>"
  define s2 where "s2 = s1\<lparr>bs_cells := (bs_cells s1)(8 := (bs_cells s1 8)\<lparr>cell_borrowed := True\<rparr>), bs_mask := masking_enter (bs_mask s1), bs_open := [8, 7]\<rparr>"
  define s3 where "s3 = s2\<lparr>bs_cells := (bs_cells s2)(8 := (bs_cells s2 8)\<lparr>cell_borrowed := False\<rparr>), bs_mask := masking_exit (bs_mask s2), bs_open := [7]\<rparr>"
  have "borrow_step ?i s1"
    using borrow_step.access [of ?i 7 "(bs_cells ?i 7)\<lparr>cell_borrowed := True\<rparr>" "masking_enter (bs_mask ?i)"]
    by (simp add: s1_def exclusive_access_def borrow_init_def)
  moreover have "borrow_step s1 s2"
    using borrow_step.access [of s1 8 "(bs_cells s1 8)\<lparr>cell_borrowed := True\<rparr>" "masking_enter (bs_mask s1)"]
    by (simp add: s2_def s1_def exclusive_access_def borrow_init_def)
  moreover have "borrow_step s2 s3"
    using borrow_step.drop [of 8 s2 "(bs_cells s2 8)\<lparr>cell_borrowed := False\<rparr>" "masking_exit (bs_mask s2)"]
    by (simp add: s3_def s2_def UPIntrRefMut_drop_def)
  ultimately have r: "borrow_step\<^sup>*\<^sup>* ?i s3"
    by (meson converse_rtranclp_into_rtranclp rtranclp.rtrancl_refl)
  moreover have "bs_open s3 = [7]"
    by (simp add: s3_def)
  ultimately show ?thesis
    using interrupts_masked_while_borrowed [OF r] by (intro exI [of _ s3]) simp
qed

text \<open>
  The blocking mutex: whatever tasks lock and unlock it, and however they are scheduled, at most one
  task is between a \<open>lock\<close> that returned and its \<open>unlock\<close>; the mutex is unlocked exactly when no task is
  inside or on its way in; every task whose \<open>lock\<close> has not returned either waits in the queue, blocked,
  or is the one that \<open>unlock\<close> chose, with nobody inside, and is ready to run, so that no wakeup is
  lost; and the holder's \<open>unlock\<close> does not panic.
\<close>

theorem mutex_mutual_exclusion:
  assumes "lock_step\<^sup>*\<^sup>* (lock_sys_init s0) s" and "sched_inv s0"
  shows "(\<forall>t u. t \<in> ls_inside s \<and> u \<in> ls_inside s \<longrightarrow> t = u) \<and>
    (\<not> mb_locked (ls_mutex s) \<longleftrightarrow> ls_inside s = {} \<and> ls_locking s = {}) \<and>
    (\<forall>t \<in> ls_locking s. t \<in> set (mb_queue (ls_mutex s)) \<and> sc_status s t = Some Blocked \<or>
       ls_inside s = {} \<and> ls_locking s - set (mb_queue (ls_mutex s)) = {t} \<and> t \<in> set (sc_ready s)) \<and>
    (\<forall>t \<in> ls_inside s. MutexBlocking_unlock (ls_mutex s) s \<noteq> None)"
proof -
  note inv = lock_reachable_inv [OF assms]
  note D = lock_invD [OF inv]
  have one: "t = u" if "t \<in> ls_inside s" "u \<in> ls_inside s" for t u
    using D(7) [OF that(1)] that(2) by auto
  have free: "\<not> mb_locked (ls_mutex s) \<longleftrightarrow> ls_inside s = {} \<and> ls_locking s = {}"
    using D(5,6) by auto
  have wait: "t \<in> set (mb_queue (ls_mutex s)) \<and> sc_status s t = Some Blocked \<or>
       ls_inside s = {} \<and> ls_locking s - set (mb_queue (ls_mutex s)) = {t} \<and> t \<in> set (sc_ready s)" if "t \<in> ls_locking s" for t
  proof (cases "t \<in> set (mb_queue (ls_mutex s))")
    case True
    then show ?thesis
      using D(4) by blast
  next
    case False
    then have "ls_inside s = {}" "mb_locked (ls_mutex s)"
      using D(7) D(5) that by blast+
    then obtain h where "h \<notin> set (mb_queue (ls_mutex s))" "ls_locking s = insert h (set (mb_queue (ls_mutex s)))" "sc_status s h = Some Ready"
      using D(6) by auto
    then show ?thesis
      using False that D(1) \<open>ls_inside s = {}\<close> by (auto simp: sched_inv_def)
  qed
  have "MutexBlocking_unlock (ls_mutex s) s \<noteq> None" if "t \<in> ls_inside s" for t
    using D(7) [OF that] by (auto simp: MutexBlocking_unlock_def split: list.splits)
  then show ?thesis
    using one free wait by blast
qed

definition sample_sched :: sched where
  \<comment> \<open>two tasks, the first on the processor\<close>
  "sample_sched = \<lparr>sc_status = [1 \<mapsto> Running, 2 \<mapsto> Ready], sc_ready = [2], sc_current = Some 1\<rparr>"

lemma sample_sched_inv: "sched_inv sample_sched"
  by (auto simp: sched_inv_def sample_sched_def)

theorem mutex_mutual_exclusion_witness:
  "\<exists>s. lock_step\<^sup>*\<^sup>* (lock_sys_init sample_sched) s \<and> ls_inside s = {1} \<and> MutexBlocking_unlock (ls_mutex s) s \<noteq> None"
proof -
  let ?s = "lock_sys_init sample_sched"
  let ?s' = "?s\<lparr>ls_mutex := \<lparr>mb_locked = True, mb_queue = []\<rparr>, ls_inside := {1}\<rparr>"
  have "MutexBlocking_lock (ls_mutex ?s) ?s = Some (True, \<lparr>mb_locked = True, mb_queue = []\<rparr>, ?s)" "sc_current ?s = Some 1"
    by (simp_all add: MutexBlocking_lock_def lock_sys_init_def MutexBlocking_new_def sample_sched_def)
  from lock_step.lock [OF this(2,1)] have "lock_step ?s ?s'"
    by (simp add: lock_sys_init_def)
  then have r: "lock_step\<^sup>*\<^sup>* ?s ?s'"
    by simp
  have i: "ls_inside ?s' = {1}"
    by simp
  have "MutexBlocking_unlock (ls_mutex ?s') ?s' \<noteq> None"
    using mutex_mutual_exclusion [OF r sample_sched_inv] unfolding i by (elim conjE) simp
  then show ?thesis
    using r i by (intro exI [of _ ?s']) simp
qed

text \<open>
  C31. The semaphore: with fewer than \<open>2 ^ 63\<close> calls, at most as many calls of \<open>down\<close> have returned as
  the initial count and the calls of \<open>up\<close> allow; when tasks wait in its queue, all of that number
  is used up by the calls that returned and by the tasks that were woken and are ready to run; and
  every call that has not returned belongs to a task that is blocked in the queue or ready.
\<close>

theorem semaphore_counts:
  assumes "sem_step\<^sup>*\<^sup>* (sem_sys_init n s0) s" and "sched_inv s0" and "n + ss_ups s < 2 ^ 63" and "ss_downs s < 2 ^ 63"
  shows "ss_passed s \<le> n + ss_ups s \<and>
    (sem_queue (ss_sem s) \<noteq> [] \<longrightarrow> ss_passed s + card (ss_blocked s - set (sem_queue (ss_sem s))) = n + ss_ups s) \<and>
    ss_downs s = ss_passed s + card (ss_blocked s) \<and>
    (\<forall>t \<in> ss_blocked s. t \<in> set (sem_queue (ss_sem s)) \<and> sc_status s t = Some Blocked \<or> t \<in> set (sc_ready s))"
proof -
  have i: "ss_init s = n"
    using assms(1) by (induction rule: rtranclp_induct) (auto simp: sem_sys_init_def dest: sem_step_counts(1))
  have inv: "sem_inv s"
    using sem_reachable_inv [OF assms(1,2)] assms(3,4) i by (simp add: sem_bounded_def)
  note D = sem_invD [OF inv]
  have q: "card (set (sem_queue (ss_sem s))) = ss_downs s - (n + ss_ups s)"
    using distinct_card [OF D(2)] D(9) i by simp
  have sp: "card (ss_blocked s) = card (set (sem_queue (ss_sem s))) + card (ss_blocked s - set (sem_queue (ss_sem s)))"
    using D(3,6) by (metis card_Diff_subset card_mono finite_set le_add_diff_inverse)
  have ne: "0 < ss_downs s - (n + ss_ups s)" if "sem_queue (ss_sem s) \<noteq> []"
    using that D(9) i by (metis length_greater_0_conv)
  have "t \<in> set (sem_queue (ss_sem s)) \<and> sc_status s t = Some Blocked \<or> t \<in> set (sc_ready s)" if "t \<in> ss_blocked s" for t
    using D(1,4,5) that by (cases "t \<in> set (sem_queue (ss_sem s))") (auto simp: sched_inv_def)
  then show ?thesis
    using q sp ne D(7) by auto
qed

theorem semaphore_counts_witness:
  "\<exists>s. sem_step\<^sup>*\<^sup>* (sem_sys_init 0 sample_sched) s \<and> ss_downs s = 1 \<and> ss_passed s = 0 \<and> sem_queue (ss_sem s) = [1]"
proof -
  let ?s = "sem_sys_init 0 sample_sched"
  let ?m = "\<lparr>sem_count = - 1, sem_queue = [1]\<rparr>"
  let ?b = "?s\<lparr>sc_current := None, sc_status := (sc_status ?s)(1 \<mapsto> Blocked)\<rparr>"
  let ?s' = "?b\<lparr>ss_sem := ?m, ss_downs := 1, ss_blocked := {1}\<rparr>"
  have c: "sc_current ?s = Some 1"
    by (simp add: sem_sys_init_def sample_sched_def)
  have "Semaphore_down (ss_sem ?s) ?s = Some (False, ?m, ?b)"
    using c by (simp add: Semaphore_down_def Semaphore_new_def sem_sys_init_def isize_def sched_defs sample_sched_def)
  from sem_step.down [OF c this] have "sem_step ?s ?s'"
    by (simp add: sem_sys_init_def)
  then have r: "sem_step\<^sup>*\<^sup>* ?s ?s'"
    by simp
  have f: "ss_downs ?s' = 1" "sem_queue (ss_sem ?s') = [1]" "ss_ups ?s' = 0"
    by (simp_all add: sem_sys_init_def)
  have "ss_passed ?s' \<le> 0 + ss_ups ?s'"
    using semaphore_counts [OF r sample_sched_inv] f by simp
  then show ?thesis
    using r f by (intro exI [of _ ?s']) simp
qed

end
