(* ===== verification/Timer.thy ===== *)
theory Timer
  imports Scheduler Sync "HOL-Library.Multiset"
begin

text \<open>
  Time and sleeping tasks (\<^verbatim>\<open>os/src/timer.rs\<close>). The binary heap of the standard library is the list of
  its elements; \<open>peek\<close> gives an element that is greatest in the order of the source, which compares
  the negated expiry times as \<open>isize\<close>. Which one of several greatest elements that is the library
  leaves open, and the properties do not depend on it. The value of the \<open>mtime\<close> register is an argument.
\<close>

section \<open>Clock\<close>

definition CLOCK_FREQ :: nat where "CLOCK_FREQ = 12500000"
definition MS_PER_SEC :: nat where "MS_PER_SEC = 1000"
definition US_PER_SEC :: nat where "US_PER_SEC = 1000000"
definition TICKS_PER_SEC :: nat where "TICKS_PER_SEC = 100"

definition get_time_ms :: "nat \<Rightarrow> nat" where
  "get_time_ms mtime = mtime div (CLOCK_FREQ div MS_PER_SEC)"

definition get_time_us :: "nat \<Rightarrow> nat" where
  "get_time_us mtime = mtime div (CLOCK_FREQ div US_PER_SEC)"

definition set_next_trigger :: "nat \<Rightarrow> nat" where
  \<comment> \<open>the argument of the SBI call\<close>
  "set_next_trigger mtime = usize (mtime + CLOCK_FREQ div TICKS_PER_SEC)"

section \<open>Timers\<close>

record TimerCondVar =
  expire_ms :: nat
  timer_task :: nat

definition timer_key :: "TimerCondVar \<Rightarrow> int" where
  \<comment> \<open>\<open>-(self.expire_ms as isize)\<close>\<close>
  "timer_key t = isize (- isize (int (expire_ms t)))"

fun heap_peek :: "TimerCondVar list \<Rightarrow> TimerCondVar option" where
  "heap_peek [] = None"
| "heap_peek (x # xs) = Some (case heap_peek xs of None \<Rightarrow> x | Some y \<Rightarrow> if timer_key y \<le> timer_key x then x else y)"

lemma heap_peek_in: "heap_peek h = Some t \<Longrightarrow> t \<in> set h"
  by (induction h arbitrary: t) (auto split: option.splits if_splits)

lemma heap_pop_shorter: "heap_peek h = Some t \<Longrightarrow> length (remove1 t h) < length h"
  using heap_peek_in [of h t] length_pos_if_in_set [of t h] by (simp add: length_remove1)

definition add_timer :: "nat \<Rightarrow> nat \<Rightarrow> TimerCondVar list \<Rightarrow> TimerCondVar list" where
  "add_timer e t timers = \<lparr>expire_ms = e, timer_task = t\<rparr> # timers"

function check_timer_loop :: "nat \<Rightarrow> TimerCondVar list \<Rightarrow> 'a sched_scheme \<Rightarrow> TimerCondVar list \<times> 'a sched_scheme" where
  "check_timer_loop current_ms timers s =
     (case heap_peek timers of
        Some t \<Rightarrow> if expire_ms t \<le> current_ms
          then check_timer_loop current_ms (remove1 t timers) (wakeup_task (timer_task t) s)
          else (timers, s)
      | None \<Rightarrow> (timers, s))"
  by auto
termination
  by (relation "measure (\<lambda>(_, timers, _). length timers)") (auto simp: heap_pop_shorter)

declare check_timer_loop.simps [simp del]

definition check_timer :: "nat \<Rightarrow> TimerCondVar list \<Rightarrow> 'a sched_scheme \<Rightarrow> TimerCondVar list \<times> 'a sched_scheme" where
  "check_timer mtime timers s = check_timer_loop (get_time_ms mtime) timers s"

section \<open>Lemmas\<close>

lemma timer_key_small: "expire_ms t < 2 ^ 63 \<Longrightarrow> timer_key t = - int (expire_ms t)"
  by (simp add: timer_key_def isize_id)

lemma heap_peek_None: "heap_peek h = None \<longleftrightarrow> h = []"
  by (cases h) auto

lemma heap_peek_max: "heap_peek h = Some t \<Longrightarrow> u \<in> set h \<Longrightarrow> timer_key u \<le> timer_key t"
  by (induction h arbitrary: t) (auto simp: heap_peek_None split: option.splits if_splits elim: order_trans)

lemma heap_peek_least:
  assumes "heap_peek h = Some t" and "\<forall>u \<in> set h. expire_ms u < 2 ^ 63" and "u \<in> set h"
  shows "expire_ms t \<le> expire_ms u"
proof -
  have "timer_key u \<le> timer_key t"
    using heap_peek_max [OF assms(1,3)] .
  then show ?thesis
    using assms heap_peek_in [OF assms(1)] by (simp add: timer_key_small)
qed

fun wake_all :: "nat list \<Rightarrow> 'a sched_scheme \<Rightarrow> 'a sched_scheme" where
  "wake_all [] s = s"
| "wake_all (t # ts) s = wake_all ts (wakeup_task t s)"

lemma filter_remove1_out: "\<not> P x \<Longrightarrow> filter P (remove1 x xs) = filter P xs"
  by (induction xs) auto

lemma check_timer_loop_wakes:
  assumes "\<forall>u \<in> set h. expire_ms u < 2 ^ 63"
  shows "\<exists>ws. check_timer_loop now h s = (filter (\<lambda>t. now < expire_ms t) h, wake_all (map timer_task ws) s) \<and>
    mset ws = mset (filter (\<lambda>t. expire_ms t \<le> now) h) \<and> sorted (map expire_ms ws)"
  using assms
proof (induction now h s rule: check_timer_loop.induct)
  case (1 now h s)
  show ?case
  proof (cases "heap_peek h")
    case None
    then have "h = []"
      by (simp add: heap_peek_None)
    then show ?thesis
      by (subst check_timer_loop.simps) simp
  next
    case (Some t)
    note least = heap_peek_least [OF Some 1(2)]
    show ?thesis
    proof (cases "expire_ms t \<le> now")
      case False
      then have "filter (\<lambda>t. now < expire_ms t) h = h" "filter (\<lambda>t. expire_ms t \<le> now) h = []"
        using least by (force simp: filter_id_conv filter_empty_conv)+
      then show ?thesis
        using Some False by (subst check_timer_loop.simps) (auto intro: exI [of _ "[]"])
    next
      case True
      have sub: "set (remove1 t h) \<subseteq> set h"
        by (rule set_remove1_subset)
      then obtain ws where ws: "check_timer_loop now (remove1 t h) (wakeup_task (timer_task t) s) =
          (filter (\<lambda>t. now < expire_ms t) (remove1 t h), wake_all (map timer_task ws) (wakeup_task (timer_task t) s))"
          "mset ws = mset (filter (\<lambda>t. expire_ms t \<le> now) (remove1 t h))" "sorted (map expire_ms ws)"
        using 1(1) [OF Some True] 1(2) by blast
      have "mset (filter (\<lambda>t. expire_ms t \<le> now) h) = add_mset t (mset ws)"
        unfolding ws(2) using True heap_peek_in [OF Some] by (simp add: filter_remove1 insert_DiffM)
      moreover have "expire_ms t \<le> expire_ms u" if "u \<in> set ws" for u
      proof -
        have "u \<in> set (filter (\<lambda>t. expire_ms t \<le> now) (remove1 t h))"
          using that ws(2) by (metis set_mset_mset)
        then show ?thesis
          using least sub by auto
      qed
      ultimately show ?thesis
        using Some True ws
        by (intro exI [of _ "t # ws"]) (subst check_timer_loop.simps, auto simp: filter_remove1_out)
    qed
  qed
qed

lemma wake_all_spec:
  "sc_ready (wake_all ts s) = sc_ready s @ ts"
  "sc_status (wake_all ts s) t = (if t \<in> set ts then Some Ready else sc_status s t)"
  "sc_current (wake_all ts s) = sc_current s"
  by (induction ts arbitrary: s) (auto simp: sched_defs)

section \<open>Properties\<close>

text \<open>
  Checking the timers, all of them with expiry times below \<open>2 ^ 63\<close>: the timers that have expired are
  removed and no other, and exactly their tasks become ready and are appended to the ready queue,
  once for each timer and in the order of the expiry times.
\<close>

theorem check_timer_wakes_expired:
  assumes "\<forall>u \<in> set h. expire_ms u < 2 ^ 63"
  shows "\<exists>ws s'. check_timer mtime h s = (filter (\<lambda>t. get_time_ms mtime < expire_ms t) h, s') \<and>
    mset ws = mset (filter (\<lambda>t. expire_ms t \<le> get_time_ms mtime) h) \<and> sorted (map expire_ms ws) \<and>
    sc_ready s' = sc_ready s @ map timer_task ws \<and> sc_current s' = sc_current s \<and>
    (\<forall>t. sc_status s' t = (if t \<in> timer_task ` set ws then Some Ready else sc_status s t))"
  using check_timer_loop_wakes [OF assms, of "get_time_ms mtime" s] by (fastforce simp: check_timer_def wake_all_spec)

theorem check_timer_wakes_expired_witness:
  "\<exists>s'. check_timer 1250000 [\<lparr>expire_ms = 200, timer_task = 2\<rparr>, \<lparr>expire_ms = 50, timer_task = 1\<rparr>]
      \<lparr>sc_status = [1 \<mapsto> Blocked, 2 \<mapsto> Blocked], sc_ready = [], sc_current = None\<rparr> = ([\<lparr>expire_ms = 200, timer_task = 2\<rparr>], s') \<and>
    sc_ready s' = [1]"
proof -
  let ?h = "[\<lparr>expire_ms = 200, timer_task = 2\<rparr>, \<lparr>expire_ms = 50, timer_task = 1\<rparr>]"
  let ?s = "\<lparr>sc_status = [1 \<mapsto> Blocked, 2 \<mapsto> Blocked], sc_ready = [], sc_current = None\<rparr>"
  have now: "get_time_ms 1250000 = 100"
    by (simp add: get_time_ms_def CLOCK_FREQ_def MS_PER_SEC_def)
  have h: "\<forall>u \<in> set ?h. expire_ms u < 2 ^ 63"
    by simp
  show ?thesis
    using check_timer_wakes_expired [OF h, of 1250000 ?s] unfolding now by (auto simp: mset_single_iff)
qed

text \<open>
  A timer with an expiry time from \<open>2 ^ 63\<close> on (other than \<open>2 ^ 63\<close> itself) starves the others: its negated value as \<open>isize\<close> is
  positive, so that it is the greatest element of the heap, has not expired, and ends the
  loop before any expired timer is seen.
\<close>

theorem huge_timer_starves_expired:
  assumes "\<lparr>expire_ms = e, timer_task = t\<rparr> \<in> set h" and "2 ^ 63 < e" and "e < 2 ^ 64"
    and "\<forall>u \<in> set h. expire_ms u < 2 ^ 63 \<or> u = \<lparr>expire_ms = e, timer_task = t\<rparr>" and "mtime < 2 ^ 64"
  shows "check_timer mtime h s = (h, s)"
proof -
  let ?t = "\<lparr>expire_ms = e, timer_task = t\<rparr>"
  have "(int e + 2 ^ 63) mod 2 ^ 64 = (int e - 2 ^ 63) mod 2 ^ 64"
    using mod_add_self2 [of "int e - 2 ^ 63" "2 ^ 64"] by (simp add: add.commute)
  also have "(int e - 2 ^ 63) mod 2 ^ 64 = int e - 2 ^ 63"
    using assms(2,3) by (intro mod_pos_pos_trivial) auto
  finally have "isize (int e) = int e - 2 ^ 64"
    by (simp add: isize_def)
  moreover have "isize (- (int e - 2 ^ 64)) = 2 ^ 64 - int e"
    using assms(2,3) by (subst isize_id) auto
  ultimately have key: "0 < timer_key ?t"
    using assms(3) by (simp add: timer_key_def)
  obtain p where p: "heap_peek h = Some p"
    using assms(1) heap_peek_None [of h] by (cases "heap_peek h") auto
  have "timer_key ?t \<le> timer_key p"
    using heap_peek_max [OF p assms(1)] .
  then have "\<not> expire_ms p < 2 ^ 63"
    using key timer_key_small [of p] by auto
  then have "p = ?t"
    using assms(4) heap_peek_in [OF p] by auto
  moreover have "get_time_ms mtime \<le> mtime"
    by (simp add: get_time_ms_def)
  moreover have "get_time_ms mtime < 2 ^ 63"
    using assms(5) by (simp add: get_time_ms_def CLOCK_FREQ_def MS_PER_SEC_def)
  ultimately show ?thesis
    using p assms(2) by (simp add: check_timer_def check_timer_loop.simps)
qed

theorem huge_timer_starves_expired_witness:
  "check_timer 1250000 [\<lparr>expire_ms = 50, timer_task = 1\<rparr>, \<lparr>expire_ms = 2 ^ 64 - 1, timer_task = 2\<rparr>]
      \<lparr>sc_status = [1 \<mapsto> Blocked, 2 \<mapsto> Blocked], sc_ready = [], sc_current = None\<rparr> =
    ([\<lparr>expire_ms = 50, timer_task = 1\<rparr>, \<lparr>expire_ms = 2 ^ 64 - 1, timer_task = 2\<rparr>],
     \<lparr>sc_status = [1 \<mapsto> Blocked, 2 \<mapsto> Blocked], sc_ready = [], sc_current = None\<rparr>)"
  by (rule huge_timer_starves_expired [of "2 ^ 64 - 1" 2]) simp_all

end
