(* ===== verification/Process.thy ===== *)
theory Process
  imports Mmap Signals Timer
begin

text \<open>
  Processes and their threads (\<^verbatim>\<open>os/src/task/process.rs\<close>, \<^verbatim>\<open>os/src/task/task.rs\<close>, \<^verbatim>\<open>os/src/task/context.rs\<close>, the table of
  processes in \<^verbatim>\<open>os/src/task/manager.rs\<close>, \<open>exit\<close> in \<^verbatim>\<open>os/src/task/mod.rs\<close>) and the system calls on them
  (\<^verbatim>\<open>os/src/syscall/process.rs\<close>, \<^verbatim>\<open>os/src/syscall/thread.rs\<close>).

  A process is named by its pid, which is its own as long as its control block exists; a task is named by a number
  that is never used twice. Strong references to a control block are the entries of the lists of children and of
  \<open>PID2PCB\<close>, and those that system calls hold on a kernel stack while they are suspended (\<open>k_held\<close>);
  dropping the last one frees what the block owns.
\<close>

section \<open>Contexts\<close>

record TaskContext =
  cx_ra :: nat
  cx_sp :: nat
  cx_s :: "nat list"

definition TaskContext_zero_init :: TaskContext where
  "TaskContext_zero_init = \<lparr>cx_ra = 0, cx_sp = 0, cx_s = replicate 12 0\<rparr>"

definition goto_trap_return :: "nat \<Rightarrow> nat \<Rightarrow> TaskContext" where
  "goto_trap_return trap_return kstack_ptr = \<lparr>cx_ra = trap_return, cx_sp = kstack_ptr, cx_s = replicate 12 0\<rparr>"

definition TrapContext_to_bytes :: "TrapContext \<Rightarrow> bytes" where
  \<comment> \<open>\<open>repr(C)\<close>: 37 words of 8 bytes\<close>
  "TrapContext_to_bytes c =
     concat (map (le_bytes 8) (tc_x c @ [tc_sstatus c, tc_sepc c, tc_kernel_satp c, tc_kernel_sp c, tc_trap_handler c]))"

definition TrapContext_of_bytes :: "bytes \<Rightarrow> TrapContext" where
  "TrapContext_of_bytes bs = (let w = \<lambda>i. le_nat (slice (8 * i) 8 bs) in
     \<lparr>tc_x = map w [0..<32], tc_sstatus = w 32, tc_sepc = w 33, tc_kernel_satp = w 34, tc_kernel_sp = w 35, tc_trap_handler = w 36\<rparr>)"

definition get_trap_cx :: "PhysPageNum \<Rightarrow> ram \<Rightarrow> TrapContext option" where
  "get_trap_cx ppn m = do { pg \<leftarrow> m ppn; Some (TrapContext_of_bytes pg) }"

definition put_trap_cx :: "PhysPageNum \<Rightarrow> TrapContext \<Rightarrow> ram \<Rightarrow> ram option" where
  \<comment> \<open>an assignment through the reference that \<open>get_trap_cx\<close> returns\<close>
  "put_trap_cx ppn c m = do { pg \<leftarrow> m ppn; Some (m(ppn \<mapsto> splice 0 (TrapContext_to_bytes c) pg)) }"

section \<open>Control blocks\<close>

record TaskControlBlock =
  tcb_process :: nat
  tcb_kstack :: nat
  tcb_res :: "TaskUserRes option"
  tcb_trap_cx_ppn :: PhysPageNum
  tcb_task_cx :: TaskContext
  tcb_exit_code :: "int option"
  tcb_signal_processor :: SignalProcessor

datatype DynMutex = DynSpin bool | DynBlocking MutexBlocking \<comment> \<open>\<open>dyn Mutex\<close>\<close>

record ProcessControlBlock = mmap_proc +
  pcb_is_zombie :: bool
  pcb_parent :: "nat option"
  pcb_children :: "nat list"
  pcb_exit_code :: int
  pcb_fd_table :: "File option list"
  pcb_mutex_list :: "DynMutex option list"
  pcb_semaphore_list :: "Semaphore option list"
  pcb_condvar_list :: "Condvar option list"
  pcb_signals :: SignalFlags
  pcb_tasks :: "nat option list"
  pcb_task_res_allocator :: RecycleAllocator
  pcb_cwd :: Inode

record kernel_image =
  \<comment> \<open>addresses of the kernel's code, and the register \<open>sstatus\<close> with \<open>SPP\<close> set to user mode\<close>
  ki_strampoline :: nat
  ki_trap_return :: nat
  ki_trap_handler :: nat
  ki_sstatus :: nat

record kernel = sched +
  k_image :: kernel_image
  k_mm :: mm
  k_kernel_space :: MemorySet
  k_pids :: RecycleAllocator
  k_kstacks :: RecycleAllocator
  k_procs :: "nat \<rightharpoonup> ProcessControlBlock"
  k_pid2pcb :: "nat set"
  k_held :: "nat \<Rightarrow> nat"
  k_initproc :: nat
  k_tasks :: "nat \<rightharpoonup> TaskControlBlock"
  k_next_task :: nat
  k_efs :: EasyFileSystem
  k_disk :: disk
  k_inodes :: "OSInode list"

definition set_proc :: "nat \<Rightarrow> ProcessControlBlock \<Rightarrow> kernel \<Rightarrow> kernel" where
  "set_proc pid P k = k\<lparr>k_procs := (k_procs k)(pid \<mapsto> P)\<rparr>"

definition set_task :: "nat \<Rightarrow> TaskControlBlock \<Rightarrow> kernel \<Rightarrow> kernel" where
  "set_task t T k = k\<lparr>k_tasks := (k_tasks k)(t \<mapsto> T)\<rparr>"

definition current_process :: "kernel \<Rightarrow> nat option" where
  "current_process k = do { t \<leftarrow> current_task k; T \<leftarrow> k_tasks k t; P \<leftarrow> k_procs k (tcb_process T); Some (tcb_process T) }"

definition current_trap_cx_user_va :: "kernel \<Rightarrow> nat option" where
  "current_trap_cx_user_va k = do { t \<leftarrow> current_task k; T \<leftarrow> k_tasks k t; r \<leftarrow> tcb_res T; Some (trap_cx_user_va r) }"

definition insert_into_pid2process :: "nat \<Rightarrow> kernel \<Rightarrow> kernel" where
  "insert_into_pid2process pid k = k\<lparr>k_pid2pcb := insert pid (k_pid2pcb k)\<rparr>"

definition pid2process :: "nat \<Rightarrow> kernel \<Rightarrow> nat option" where
  "pid2process pid k = (if pid \<in> k_pid2pcb k then Some pid else None)"

definition remove_from_pid2process :: "nat \<Rightarrow> kernel \<Rightarrow> kernel option" where
  "remove_from_pid2process pid k = do { ensure (pid \<in> k_pid2pcb k); Some (k\<lparr>k_pid2pcb := k_pid2pcb k - {pid}\<rparr>) }"

definition get_task :: "nat \<Rightarrow> ProcessControlBlock \<Rightarrow> nat option" where
  "get_task tid P = do { t \<leftarrow> index_get (pcb_tasks P) tid; t }"

section \<open>Creating tasks and processes\<close>

definition TaskControlBlock_new :: "nat \<Rightarrow> nat \<Rightarrow> bool \<Rightarrow> kernel \<Rightarrow> (nat \<times> kernel) option" where
  "TaskControlBlock_new pid ustack_base allow_user_res k = do {
     P \<leftarrow> k_procs k pid;
     (res, tids, ms, s) \<leftarrow> TaskUserRes_new ustack_base allow_user_res (pcb_task_res_allocator P) (memory_set P) (k_mm k);
     ppn \<leftarrow> trap_cx_ppn res ms (ram s);
     (kstack, kstacks, ks, s) \<leftarrow> kstack_alloc (k_kstacks k) (k_kernel_space k) s;
     let t = k_next_task k;
     let T = \<lparr>tcb_process = pid, tcb_kstack = kstack, tcb_res = Some res, tcb_trap_cx_ppn = ppn,
       tcb_task_cx = goto_trap_return (ki_trap_return (k_image k)) (KernelStack_get_top kstack), tcb_exit_code = None,
       tcb_signal_processor = SignalProcessor_new\<rparr>;
     let k = set_proc pid (P\<lparr>pcb_task_res_allocator := tids, memory_set := ms\<rparr>) k;
     Some (t, set_status t Ready (set_task t T
       (k\<lparr>k_mm := s, k_kstacks := kstacks, k_kernel_space := ks, k_next_task := Suc t\<rparr>))) }"

definition blank_process :: "MemorySet \<Rightarrow> Inode \<Rightarrow> ProcessControlBlock" where
  \<comment> \<open>the fields that \<open>new\<close> and \<open>fork\<close> initialise alike\<close>
  "blank_process ms dir = \<lparr>memory_set = ms, mmap_mapped = [], mmap_va_allocator = VirtAddressAllocator_new MMAP_AREA_BASE,
     file_mappings = [], pcb_is_zombie = False, pcb_parent = None, pcb_children = [], pcb_exit_code = 0, pcb_fd_table = [],
     pcb_mutex_list = [], pcb_semaphore_list = [], pcb_condvar_list = [], pcb_signals = 0, pcb_tasks = [],
     pcb_task_res_allocator = RecycleAllocator_new, pcb_cwd = dir\<rparr>"

definition init_trap_cx :: "nat \<Rightarrow> nat \<Rightarrow> TaskControlBlock \<Rightarrow> kernel \<Rightarrow> TrapContext" where
  "init_trap_cx entry sp T k = app_init_context (ki_sstatus (k_image k)) entry sp (MemorySet_token (k_kernel_space k))
     (KernelStack_get_top (tcb_kstack T)) (ki_trap_handler (k_image k))"

definition write_trap_cx :: "TaskControlBlock \<Rightarrow> TrapContext \<Rightarrow> kernel \<Rightarrow> kernel option" where
  "write_trap_cx T c k = do {
     m \<leftarrow> put_trap_cx (tcb_trap_cx_ppn T) c (ram (k_mm k));
     Some (k\<lparr>k_mm := (k_mm k)\<lparr>ram := m\<rparr>\<rparr>) }"

definition push_task :: "nat \<Rightarrow> nat \<Rightarrow> kernel \<Rightarrow> kernel option" where
  "push_task pid t k = do { P \<leftarrow> k_procs k pid; Some (set_proc pid (P\<lparr>pcb_tasks := pcb_tasks P @ [Some t]\<rparr>) k) }"

definition ProcessControlBlock_new :: "ElfFile option \<Rightarrow> kernel \<Rightarrow> (nat \<times> kernel) option" where
  "ProcessControlBlock_new elf k = do {
     ((ms, ustack_base, entry_point), s) \<leftarrow> from_elf (ki_strampoline (k_image k)) elf (k_mm k);
     let (pid, pids) = pid_alloc (k_pids k);
     let P = (blank_process ms (root_inode (k_efs k)))\<lparr>pcb_fd_table := [Some Stdin, Some Stdout, Some Stdout]\<rparr>;
     (t, k) \<leftarrow> TaskControlBlock_new pid ustack_base True (set_proc pid P (k\<lparr>k_mm := s, k_pids := pids\<rparr>));
     T \<leftarrow> k_tasks k t;
     res \<leftarrow> tcb_res T;
     k \<leftarrow> write_trap_cx T (init_trap_cx entry_point (ustack_top res) T k) k;
     k \<leftarrow> push_task pid t k;
     Some (pid, add_task t (insert_into_pid2process pid k)) }"

fun copy_fd_table :: "File option list \<Rightarrow> OSInode list \<Rightarrow> (File option list \<times> OSInode list) option" where
  "copy_fd_table [] inodes = Some ([], inodes)"
| "copy_fd_table (fd # fds) inodes = do {
     (fd, inodes) \<leftarrow> (case fd of
         Some (FileOSInode a) \<Rightarrow> do { x \<leftarrow> index_get inodes a; Some (Some (FileOSInode (length inodes)), inodes @ [OSInode_copy x]) }
       | _ \<Rightarrow> Some (fd, inodes));
     (fds, inodes) \<leftarrow> copy_fd_table fds inodes;
     Some (fd # fds, inodes) }"

definition fork :: "nat \<Rightarrow> kernel \<Rightarrow> (nat \<times> kernel) option" where
  "fork pid k = do {
     P \<leftarrow> k_procs k pid;
     ensure (length (pcb_tasks P) = 1);
     (ms, s) \<leftarrow> from_existed_user (ki_strampoline (k_image k)) (memory_set P) (k_mm k);
     let (cpid, pids) = pid_alloc (k_pids k);
     (fds, inodes) \<leftarrow> copy_fd_table (pcb_fd_table P) (k_inodes k);
     (fms, ms, s) \<leftarrow> copy_file_mappings (file_mappings P) ms s;
     let C = (blank_process ms (pcb_cwd P))\<lparr>pcb_parent := Some pid, pcb_fd_table := fds, mmap_mapped := mmap_mapped P,
       mmap_va_allocator := mmap_va_allocator P, file_mappings := fms\<rparr>;
     let k = set_proc pid (P\<lparr>pcb_children := pcb_children P @ [cpid]\<rparr>)
       (set_proc cpid C (k\<lparr>k_mm := s, k_pids := pids, k_inodes := inodes\<rparr>));
     t0 \<leftarrow> get_task 0 P;
     T0 \<leftarrow> k_tasks k t0;
     res \<leftarrow> tcb_res T0;
     (t, k) \<leftarrow> TaskControlBlock_new cpid (tur_ustack_base res) False k;
     k \<leftarrow> push_task cpid t k;
     T \<leftarrow> k_tasks k t;
     cx \<leftarrow> get_trap_cx (tcb_trap_cx_ppn T) (ram (k_mm k));
     k \<leftarrow> write_trap_cx T (cx\<lparr>tc_kernel_sp := KernelStack_get_top (tcb_kstack T)\<rparr>) k;
     Some (cpid, add_task t (insert_into_pid2process cpid k)) }"

definition sys_fork :: "kernel \<Rightarrow> (int \<times> kernel) option" where
  "sys_fork k = do {
     pid \<leftarrow> current_process k;
     (new_pid, k) \<leftarrow> fork pid k;
     C \<leftarrow> k_procs k new_pid;
     t \<leftarrow> get_task 0 C;
     T \<leftarrow> k_tasks k t;
     cx \<leftarrow> get_trap_cx (tcb_trap_cx_ppn T) (ram (k_mm k));
     k \<leftarrow> write_trap_cx T (cx\<lparr>tc_x := (tc_x cx)[10 := 0]\<rparr>) k;
     Some (int new_pid, k) }"

section \<open>Replacing the program\<close>

fun map_option_list :: "('a \<Rightarrow> 'b option) \<Rightarrow> 'a list \<Rightarrow> 'b list option" where
  "map_option_list f [] = Some []"
| "map_option_list f (x # xs) = do { y \<leftarrow> f x; ys \<leftarrow> map_option_list f xs; Some (y # ys) }"

definition phys_store :: "PhysAddr \<Rightarrow> bytes \<Rightarrow> ram \<Rightarrow> ram option" where
  \<comment> \<open>an assignment through a reference that \<open>translated_refmut\<close> has returned\<close>
  "phys_store pa bs m = do {
     pg \<leftarrow> m (addr_floor pa);
     ensure (page_offset pa + length bs \<le> length pg);
     Some (m(addr_floor pa \<mapsto> splice (page_offset pa) bs pg)) }"

fun store_string :: "nat \<Rightarrow> nat \<Rightarrow> bytes \<Rightarrow> ram \<Rightarrow> ram option" where
  \<comment> \<open>byte by byte, with the terminator\<close>
  "store_string token p [] m = user_store token p [0] m"
| "store_string token p (c # cs) m = do { m \<leftarrow> user_store token p [c] m; store_string token (usize (p + 1)) cs m }"

fun push_args :: "nat \<Rightarrow> bytes list \<Rightarrow> PhysAddr list \<Rightarrow> nat \<Rightarrow> ram \<Rightarrow> (nat \<times> ram) option" where
  \<comment> \<open>the strings and their addresses, from the first argument on\<close>
  "push_args token [] refs user_sp m = Some (user_sp, m)"
| "push_args token (a # as) refs user_sp m = do {
     let user_sp = usize_sub user_sp (length a + 1);
     (r, refs) \<leftarrow> next_unwrap refs;
     m \<leftarrow> phys_store r (le_bytes 8 user_sp) m;
     m \<leftarrow> store_string token user_sp a m;
     push_args token as refs user_sp m }"

definition exec_stack :: "nat \<Rightarrow> bytes list \<Rightarrow> nat \<Rightarrow> ram \<Rightarrow> (nat \<times> nat \<times> ram) option" where
  \<comment> \<open>the arguments on the user stack: \<open>argv_base\<close> and the stack pointer\<close>
  "exec_stack token args user_sp m = do {
     let argv_base = usize_sub user_sp ((length args + 1) * 8);
     argv \<leftarrow> map_option_list (\<lambda>i. translate_ref token (usize (argv_base + i * 8)) m) [0..<length args + 1];
     m \<leftarrow> phys_store (argv ! length args) (le_bytes 8 0) m;
     (user_sp, m) \<leftarrow> push_args token args argv argv_base m;
     Some (argv_base, usize_sub user_sp (user_sp mod 8), m) }"

definition exec :: "nat \<Rightarrow> ElfFile option \<Rightarrow> bytes list \<Rightarrow> kernel \<Rightarrow> kernel option" where
  "exec pid elf args k = do {
     P \<leftarrow> k_procs k pid;
     ensure (length (pcb_tasks P) = 1);
     ((ms, ustack_base, entry_point), s) \<leftarrow> from_elf (ki_strampoline (k_image k)) elf (k_mm k);
     s \<leftarrow> MemorySet_drop (memory_set P) s;
     t \<leftarrow> get_task 0 P;
     T \<leftarrow> k_tasks k t;
     res \<leftarrow> tcb_res T;
     let res = res\<lparr>tur_ustack_base := ustack_base\<rparr>;
     (ms, s) \<leftarrow> alloc_user_res res ms s;
     ppn \<leftarrow> trap_cx_ppn res ms (ram s);
     let T = T\<lparr>tcb_res := Some res, tcb_trap_cx_ppn := ppn\<rparr>;
     (argv_base, user_sp, m) \<leftarrow> exec_stack (MemorySet_token ms) args (ustack_top res) (ram s);
     let k = set_task t T (set_proc pid (P\<lparr>memory_set := ms\<rparr>) (k\<lparr>k_mm := s\<lparr>ram := m\<rparr>\<rparr>));
     let cx = init_trap_cx entry_point user_sp T k;
     write_trap_cx T (cx\<lparr>tc_x := (tc_x cx)[10 := length args, 11 := argv_base]\<rparr>) k }"

partial_function (option) load_args :: "nat \<Rightarrow> nat \<Rightarrow> ram \<Rightarrow> bytes list \<Rightarrow> bytes list option" where
  \<comment> \<open>the strings of an array of pointers that ends with a null pointer\<close>
  "load_args token args m acc = do {
     bs \<leftarrow> user_load token args 8 m;
     if le_nat bs = 0 then Some acc
     else do {
       a \<leftarrow> translated_str token (le_nat bs) m;
       load_args token (usize (args + 8)) m (acc @ [a]) } }"

definition sys_exec :: "(bytes \<Rightarrow> ElfFile option) \<Rightarrow> nat \<Rightarrow> nat \<Rightarrow> kernel \<Rightarrow> (int \<times> kernel) option" where
  \<comment> \<open>\<open>elf_parser\<close>: \<open>ElfFile::new\<close> of the crate \<open>xmas_elf\<close>\<close>
  "sys_exec elf_parser path args k = do {
     pid \<leftarrow> current_process k;
     P \<leftarrow> k_procs k pid;
     let token = MemorySet_token (memory_set P);
     path \<leftarrow> translated_str token path (ram (k_mm k));
     args_vec \<leftarrow> load_args token args (ram (k_mm k)) [];
     (r, d) \<leftarrow> open_file (k_efs k) path RDONLY (k_disk k);
     case r of
       None \<Rightarrow> Some (- 1, k\<lparr>k_disk := d\<rparr>)
     | Some f \<Rightarrow> do {
         (elf_data, _) \<leftarrow> read_all f d;
         k \<leftarrow> exec pid (elf_parser elf_data) args_vec (k\<lparr>k_disk := d\<rparr>);
         Some (int (length args_vec), k) } }"

section \<open>The end of tasks and processes\<close>

definition task_referenced :: "nat \<Rightarrow> kernel \<Rightarrow> bool" where
  \<comment> \<open>by the scheduler; a blocked task is in the queue it waits in\<close>
  "task_referenced t k \<longleftrightarrow> t \<in> set (sc_ready k) \<or> sc_current k = Some t \<or> sc_status k t = Some Blocked"

definition drop_task_res :: "nat \<Rightarrow> TaskUserRes \<Rightarrow> kernel \<Rightarrow> kernel option" where
  \<comment> \<open>\<open>Drop for TaskUserRes\<close>, in the address space of its process\<close>
  "drop_task_res pid r k = do {
     P \<leftarrow> k_procs k pid;
     (ms, s) \<leftarrow> dealloc_user_res r (memory_set P) (k_mm k);
     Some (set_proc pid (P\<lparr>memory_set := ms\<rparr>) (k\<lparr>k_mm := s\<rparr>)) }"

fun drop_task_ress :: "nat \<Rightarrow> TaskUserRes list \<Rightarrow> kernel \<Rightarrow> kernel option" where
  "drop_task_ress pid [] k = Some k"
| "drop_task_ress pid (r # rs) k = do { k \<leftarrow> drop_task_res pid r k; drop_task_ress pid rs k }"

definition release_task :: "nat \<Rightarrow> kernel \<Rightarrow> kernel option" where
  \<comment> \<open>the list of its process gives up a task; the last reference drops it\<close>
  "release_task t k =
     (if task_referenced t k then Some k
      else do {
        T \<leftarrow> k_tasks k t;
        (ks, s) \<leftarrow> KernelStack_drop (tcb_kstack T) (k_kernel_space k) (k_mm k);
        let k = k\<lparr>k_kernel_space := ks, k_mm := s, k_tasks := (k_tasks k)(t := None), sc_status := (sc_status k)(t := None)\<rparr>;
        case tcb_res T of None \<Rightarrow> Some k | Some r \<Rightarrow> drop_task_res (tcb_process T) r k })"

fun release_tasks :: "nat option list \<Rightarrow> kernel \<Rightarrow> kernel option" where
  "release_tasks [] k = Some k"
| "release_tasks (t # ts) k = do {
     k \<leftarrow> (case t of None \<Rightarrow> Some k | Some t \<Rightarrow> release_task t k);
     release_tasks ts k }"

fun reparent :: "nat list \<Rightarrow> kernel \<Rightarrow> kernel option" where
  "reparent [] k = Some k"
| "reparent (c # cs) k = do {
     C \<leftarrow> k_procs k c;
     let k = set_proc c (C\<lparr>pcb_parent := Some (k_initproc k)\<rparr>) k;
     I \<leftarrow> k_procs k (k_initproc k);
     reparent cs (set_proc (k_initproc k) (I\<lparr>pcb_children := pcb_children I @ [c]\<rparr>) k) }"

fun take_ress :: "nat option list \<Rightarrow> kernel \<Rightarrow> (TaskUserRes list \<times> kernel) option" where
  \<comment> \<open>\<open>task_inner.res.take()\<close> of every task\<close>
  "take_ress [] k = Some ([], k)"
| "take_ress (None # ts) k = take_ress ts k"
| "take_ress (Some t # ts) k = do {
     T \<leftarrow> k_tasks k t;
     (rs, k) \<leftarrow> take_ress ts (set_task t (T\<lparr>tcb_res := None\<rparr>) k);
     Some ((case tcb_res T of None \<Rightarrow> rs | Some r \<Rightarrow> r # rs), k) }"

fun sync_mappings :: "EasyFileSystem \<Rightarrow> FileMapping list \<Rightarrow> ram \<Rightarrow> disk \<Rightarrow> disk option" where
  "sync_mappings efs [] m d = Some d"
| "sync_mappings efs (fm # fms) m d = do { d \<leftarrow> FileMapping_sync efs fm m d; sync_mappings efs fms m d }"

definition exit_process :: "nat \<Rightarrow> int \<Rightarrow> kernel \<Rightarrow> kernel option" where
  \<comment> \<open>the end of the main thread of a process other than the idle process\<close>
  "exit_process pid exit_code k = do {
     k \<leftarrow> remove_from_pid2process pid k;
     P \<leftarrow> k_procs k pid;
     ensure (k_initproc k \<noteq> pid);
     let k = set_proc pid (P\<lparr>pcb_is_zombie := True, pcb_exit_code := exit_code\<rparr>) k;
     k \<leftarrow> reparent (pcb_children P) k;
     (recycle_res, k) \<leftarrow> take_ress (pcb_tasks P) k;
     k \<leftarrow> drop_task_ress pid recycle_res k;
     P \<leftarrow> k_procs k pid;
     (ms, s) \<leftarrow> recycle_data_pages (memory_set P) (k_mm k);
     d \<leftarrow> sync_mappings (k_efs k) (file_mappings P) (ram s) (k_disk k);
     let k = set_proc pid (P\<lparr>pcb_children := [], memory_set := ms, pcb_fd_table := [], pcb_tasks := take 1 (pcb_tasks P)\<rparr>)
       (k\<lparr>k_mm := s, k_disk := d\<rparr>);
     release_tasks (rev (drop 1 (pcb_tasks P))) k }"

datatype exit_outcome = Switches | ShutsDown bool

definition exit_current :: "int \<Rightarrow> kernel \<Rightarrow> (exit_outcome \<times> kernel) option" where
  \<comment> \<open>\<open>exit_current_and_run_next\<close> up to \<open>schedule\<close>\<close>
  "exit_current exit_code k = do {
     let (task, k) = take_current_task k;
     t \<leftarrow> task;
     T \<leftarrow> k_tasks k t;
     let pid = tcb_process T;
     P \<leftarrow> k_procs k pid;
     res \<leftarrow> tcb_res T;
     k \<leftarrow> drop_task_res pid res (set_task t (T\<lparr>tcb_exit_code := Some exit_code, tcb_res := None\<rparr>) k);
     if tur_tid res \<noteq> 0 then Some (Switches, k)
     else if pid = IDLE_PID then Some (ShutsDown (exit_code \<noteq> 0), k)
     else do { k \<leftarrow> exit_process pid exit_code k; Some (Switches, k) } }"

fun drop_mappings :: "FileMapping list \<Rightarrow> mm \<Rightarrow> mm option" where
  "drop_mappings [] s = Some s"
| "drop_mappings (fm # fms) s = do { s \<leftarrow> FileMapping_drop fm s; drop_mappings fms s }"

definition pcb_strong_count :: "nat \<Rightarrow> kernel \<Rightarrow> nat" where
  \<comment> \<open>references to the control block other than the caller's\<close>
  "pcb_strong_count pid k = sum_list (map (\<lambda>q. case k_procs k q of None \<Rightarrow> 0 | Some Q \<Rightarrow> count_list (pcb_children Q) pid)
       [0..<ra_current (k_pids k)]) + (if pid \<in> k_pid2pcb k then 1 else 0) + (if pid = k_initproc k then 1 else 0) + k_held k pid"

definition ProcessControlBlock_drop :: "nat \<Rightarrow> kernel \<Rightarrow> kernel option" where
  "ProcessControlBlock_drop pid k = do {
     P \<leftarrow> k_procs k pid;
     pids \<leftarrow> PidHandle_drop pid (k_pids k);
     s \<leftarrow> MemorySet_drop (memory_set P) (k_mm k);
     k \<leftarrow> release_tasks (pcb_tasks P) (k\<lparr>k_pids := pids, k_mm := s, k_procs := (k_procs k)(pid := None)\<rparr>);
     s \<leftarrow> drop_mappings (file_mappings P) (k_mm k);
     Some (k\<lparr>k_mm := s\<rparr>) }"

definition i32_bytes :: "int \<Rightarrow> bytes" where
  "i32_bytes c = le_bytes 4 (nat (c mod 2 ^ 32))"

definition sys_waitpid :: "int \<Rightarrow> nat \<Rightarrow> kernel \<Rightarrow> (int \<times> kernel) option" where
  "sys_waitpid pid exit_code_ptr k = do {
     self \<leftarrow> current_process k;
     P \<leftarrow> k_procs k self;
     case find_index (\<lambda>p. pid = - 1 \<or> p = nat (pid mod 2 ^ 64)) (pcb_children P) of
       None \<Rightarrow> Some (- 1, k)
     | Some idx \<Rightarrow> do {
         let p = pcb_children P ! idx;
         C \<leftarrow> k_procs k p;
         if \<not> pcb_is_zombie C then Some (- 2, k)
         else do {
           let k = set_proc self (P\<lparr>pcb_children := drop_nth idx (pcb_children P)\<rparr>) k;
           ensure (pcb_strong_count p k = 0);
           m \<leftarrow> user_store (MemorySet_token (memory_set P)) exit_code_ptr (i32_bytes (pcb_exit_code C)) (ram (k_mm k));
           k \<leftarrow> ProcessControlBlock_drop p (k\<lparr>k_mm := (k_mm k)\<lparr>ram := m\<rparr>\<rparr>);
           Some (int p, k) } } }"

section \<open>Threads\<close>

definition sys_thread_create :: "nat \<Rightarrow> nat \<Rightarrow> kernel \<Rightarrow> (int \<times> kernel) option" where
  "sys_thread_create entry arg k = do {
     t0 \<leftarrow> current_task k;
     T0 \<leftarrow> k_tasks k t0;
     res0 \<leftarrow> tcb_res T0;
     (t, k) \<leftarrow> TaskControlBlock_new (tcb_process T0) (tur_ustack_base res0) True k;
     let k = add_task t k;
     T \<leftarrow> k_tasks k t;
     res \<leftarrow> tcb_res T;
     P \<leftarrow> k_procs k (tcb_process T0);
     let ts = pcb_tasks P @ replicate (tur_tid res + 1 - length (pcb_tasks P)) None;
     let k = set_proc (tcb_process T0) (P\<lparr>pcb_tasks := ts[tur_tid res := Some t]\<rparr>) k;
     k \<leftarrow> release_tasks [ts ! tur_tid res] k;
     let cx = init_trap_cx entry (ustack_top res) T k;
     k \<leftarrow> write_trap_cx T (cx\<lparr>tc_x := (tc_x cx)[10 := arg]\<rparr>) k;
     Some (int (tur_tid res), k) }"

definition sys_gettid :: "kernel \<Rightarrow> int option" where
  "sys_gettid k = do { t \<leftarrow> current_task k; T \<leftarrow> k_tasks k t; res \<leftarrow> tcb_res T; Some (int (tur_tid res)) }"

definition sys_waittid :: "nat \<Rightarrow> kernel \<Rightarrow> (int \<times> kernel) option" where
  "sys_waittid tid k = do {
     t0 \<leftarrow> current_task k;
     T0 \<leftarrow> k_tasks k t0;
     P \<leftarrow> k_procs k (tcb_process T0);
     res0 \<leftarrow> tcb_res T0;
     if tur_tid res0 = tid then Some (- 1, k)
     else case (if tid < length (pcb_tasks P) then pcb_tasks P ! tid else None) of
       None \<Rightarrow> Some (- 1, k)
     | Some t \<Rightarrow> do {
         T \<leftarrow> k_tasks k t;
         case tcb_exit_code T of
           None \<Rightarrow> Some (- 2, k)
         | Some exit_code \<Rightarrow> do {
             tids \<leftarrow> ra_dealloc tid (pcb_task_res_allocator P);
             k \<leftarrow> release_task t (set_proc (tcb_process T0) (P\<lparr>pcb_tasks := (pcb_tasks P)[tid := None], pcb_task_res_allocator := tids\<rparr>) k);
             Some (exit_code, k) } } }"

definition sys_exit :: "int \<Rightarrow> kernel \<Rightarrow> (exit_outcome \<times> kernel) option" where
  "sys_exit exit_code k = exit_current exit_code k"

definition sys_yield :: "kernel \<Rightarrow> (int \<times> kernel) option" where
  \<comment> \<open>the result when the task runs again\<close>
  "sys_yield k = do { k \<leftarrow> suspend_current k; Some (0, k) }"

definition sys_getpid :: "kernel \<Rightarrow> int option" where
  "sys_getpid k = map_option int (current_process k)"

definition sys_get_time :: "(nat \<Rightarrow> byte) \<Rightarrow> nat \<Rightarrow> nat \<Rightarrow> kernel \<Rightarrow> (int \<times> kernel) option" where
  \<comment> \<open>\<open>us\<close>: what \<open>get_time_us\<close> reads\<close>
  "sys_get_time behind us ts k = do {
     pid \<leftarrow> current_process k;
     P \<leftarrow> k_procs k pid;
     dst_vs \<leftarrow> translated_byte_buffer (MemorySet_token (memory_set P)) ts 16 (ram (k_mm k));
     m \<leftarrow> copy_out behind 0 dst_vs (le_bytes 8 (us div 1000000) @ le_bytes 8 (us mod 1000000)) (ram (k_mm k));
     Some (0, k\<lparr>k_mm := (k_mm k)\<lparr>ram := m\<rparr>\<rparr>) }"

end
