(* ===== verification/ProcessTree.thy ===== *)
theory ProcessTree
  imports Process
begin

text \<open>
  The tree of processes. The calls \<open>fork\<close>, \<open>exit\<close> and \<open>waitpid\<close> refine three operations on a plain tree of
  processes. The invariant of the tree shows when the assertion of \<open>waitpid\<close> on the number of references holds: exactly when no thread of
  the zombie is still suspended inside a system call.
\<close>

section \<open>The abstract tree\<close>

record node =
  n_zombie :: bool
  n_parent :: "nat option"
  n_children :: "nat list"
  n_code :: int

type_synonym tree = "nat \<rightharpoonup> node"

definition node_of :: "ProcessControlBlock \<Rightarrow> node" where
  "node_of P = \<lparr>n_zombie = pcb_is_zombie P, n_parent = pcb_parent P, n_children = pcb_children P, n_code = pcb_exit_code P\<rparr>"

definition tree_of :: "kernel \<Rightarrow> tree" where
  "tree_of k p = map_option node_of (k_procs k p)"

definition tree_fork :: "nat \<Rightarrow> nat \<Rightarrow> tree \<Rightarrow> tree" where
  "tree_fork p c T = T(p := map_option (\<lambda>N. N\<lparr>n_children := n_children N @ [c]\<rparr>) (T p),
     c \<mapsto> \<lparr>n_zombie = False, n_parent = Some p, n_children = [], n_code = 0\<rparr>)"

definition adopt :: "nat \<Rightarrow> nat list \<Rightarrow> nat \<Rightarrow> node \<Rightarrow> node" where
  \<comment> \<open>the process \<open>ip\<close> gets the children \<open>cs\<close>\<close>
  "adopt ip cs q N = (if q = ip then N\<lparr>n_children := n_children N @ cs\<rparr> else if q \<in> set cs then N\<lparr>n_parent := Some ip\<rparr> else N)"

definition tree_exit :: "nat \<Rightarrow> nat \<Rightarrow> int \<Rightarrow> tree \<Rightarrow> tree" where
  \<comment> \<open>the children of \<open>p\<close> go to the process \<open>ip\<close>\<close>
  "tree_exit ip p code T q = (let cs = (case T p of None \<Rightarrow> [] | Some N \<Rightarrow> n_children N) in
     map_option (\<lambda>N. if q = p then N\<lparr>n_zombie := True, n_code := code, n_children := []\<rparr>
       else adopt ip cs q N) (T q))"

definition tree_reap :: "nat \<Rightarrow> nat \<Rightarrow> tree \<Rightarrow> tree" where
  "tree_reap p c T = T(p := map_option (\<lambda>N. N\<lparr>n_children := remove1 c (n_children N)\<rparr>) (T p), c := None)"

section \<open>Calls that leave the tree alone\<close>

definition same_tree :: "kernel \<Rightarrow> kernel \<Rightarrow> bool" where
  "same_tree k k' \<longleftrightarrow> tree_of k' = tree_of k \<and> k_pid2pcb k' = k_pid2pcb k \<and> k_pids k' = k_pids k \<and> k_initproc k' = k_initproc k \<and>
     k_held k' = k_held k"

lemma set_proc_simps [simp]:
  "k_pid2pcb (set_proc p P k) = k_pid2pcb k" "k_pids (set_proc p P k) = k_pids k" "k_initproc (set_proc p P k) = k_initproc k"
  "k_held (set_proc p P k) = k_held k" "k_mm (set_proc p P k) = k_mm k" "k_procs (set_proc p P k) = (k_procs k)(p \<mapsto> P)"
  by (simp_all add: set_proc_def)

lemma tree_of_updates [simp]:
  "tree_of (k\<lparr>sc_ready := q\<rparr>) = tree_of k" "tree_of (k\<lparr>k_pid2pcb := S\<rparr>) = tree_of k" "tree_of (k\<lparr>k_mm := s\<rparr>) = tree_of k"
  "tree_of (k\<lparr>k_disk := d\<rparr>) = tree_of k" "tree_of (k\<lparr>k_held := h\<rparr>) = tree_of k" "tree_of (k\<lparr>sc_current := cur\<rparr>) = tree_of k"
  by (simp_all add: tree_of_def fun_eq_iff)

lemma same_tree_refl [simp]: "same_tree k k"
  by (simp add: same_tree_def)

lemma same_tree_trans: "same_tree k1 k2 \<Longrightarrow> same_tree k2 k3 \<Longrightarrow> same_tree k1 k3"
  by (simp add: same_tree_def)

lemma same_tree_set_proc:
  "k_procs k p = Some P \<Longrightarrow> node_of P' = node_of P \<Longrightarrow> same_tree k (set_proc p P' k)"
  by (auto simp: same_tree_def tree_of_def set_proc_def fun_eq_iff)

lemma node_of_simps [simp]:
  "node_of (P\<lparr>memory_set := ms\<rparr>) = node_of P"
  "node_of (P\<lparr>pcb_tasks := ts\<rparr>) = node_of P"
  "node_of (P\<lparr>pcb_task_res_allocator := tids\<rparr>) = node_of P"
  "node_of (P\<lparr>pcb_fd_table := fds\<rparr>) = node_of P"
  by (simp_all add: node_of_def)

lemma drop_task_res_tree: "drop_task_res p r k = Some k' \<Longrightarrow> same_tree k k'"
  by (auto simp: drop_task_res_def same_tree_def tree_of_def set_proc_def fun_eq_iff split: prod.splits)

lemma drop_task_ress_tree: "drop_task_ress p rs k = Some k' \<Longrightarrow> same_tree k k'"
  by (induction rs arbitrary: k) (auto dest: drop_task_res_tree intro: same_tree_trans)

lemma same_treeI:
  "k_procs k' = k_procs k \<Longrightarrow> k_pid2pcb k' = k_pid2pcb k \<Longrightarrow> k_pids k' = k_pids k \<Longrightarrow> k_initproc k' = k_initproc k \<Longrightarrow>
    k_held k' = k_held k \<Longrightarrow> same_tree k k'"
  by (simp add: same_tree_def tree_of_def fun_eq_iff)

lemma release_task_tree: "release_task t k = Some k' \<Longrightarrow> same_tree k k'"
proof -
  have u: "same_tree k (k\<lparr>k_kernel_space := ks, k_mm := s, k_tasks := ts, sc_status := st\<rparr>)" for ks s ts st
    by (rule same_treeI) simp_all
  show "release_task t k = Some k' \<Longrightarrow> same_tree k k'"
    by (auto simp: release_task_def Let_def u dest!: drop_task_res_tree intro: same_tree_trans [OF u] split: if_splits option.splits prod.splits)
qed

lemma release_tasks_tree: "release_tasks ts k = Some k' \<Longrightarrow> same_tree k k'"
  by (induction ts arbitrary: k) (auto dest: release_task_tree intro: same_tree_trans split: option.splits)

lemma set_task_tree [simp]: "same_tree k (set_task t T k)"
  by (rule same_treeI) (simp_all add: set_task_def)

lemma take_ress_tree: "take_ress ts k = Some (rs, k') \<Longrightarrow> same_tree k k'"
  by (induction ts k arbitrary: rs rule: take_ress.induct) (auto intro: same_tree_trans [OF set_task_tree] split: prod.splits)

lemma write_trap_cx_tree: "write_trap_cx T c k = Some k' \<Longrightarrow> same_tree k k'"
  by (auto simp: write_trap_cx_def same_tree_def tree_of_def fun_eq_iff)

lemma push_task_tree: "push_task p t k = Some k' \<Longrightarrow> same_tree k k'"
  by (auto simp: push_task_def intro: same_tree_set_proc)

lemma TaskControlBlock_new_tree: "TaskControlBlock_new p ub al k = Some (t, k') \<Longrightarrow> same_tree k k'"
  by (auto simp: TaskControlBlock_new_def same_tree_def tree_of_def set_proc_def set_task_def set_status_def fun_eq_iff Let_def split: prod.splits)

lemmas same_tree_intros = drop_task_res_tree drop_task_ress_tree release_task_tree release_tasks_tree take_ress_tree write_trap_cx_tree
  push_task_tree TaskControlBlock_new_tree

section \<open>Refinement\<close>

lemma tree_fork_step:
  assumes "c \<noteq> p" and "k_procs k p = Some P"
  shows "tree_of (set_proc p (P\<lparr>pcb_children := pcb_children P @ [c]\<rparr>) (set_proc c ((blank_process ms dir)\<lparr>pcb_parent := Some p, pcb_fd_table := fds,
      mmap_mapped := mp, mmap_va_allocator := va, file_mappings := fms\<rparr>) (k\<lparr>k_mm := s, k_pids := pids, k_inodes := inodes\<rparr>))) = tree_fork p c (tree_of k)"
  using assms by (auto simp: tree_of_def tree_fork_def set_proc_def node_of_def blank_process_def fun_eq_iff)

lemma fork_refines:
  assumes "fork p k = Some (c, k')" and "fst (pid_alloc (k_pids k)) \<noteq> p"
  shows "c = fst (pid_alloc (k_pids k)) \<and> tree_of k' = tree_fork p c (tree_of k) \<and> k_pid2pcb k' = insert c (k_pid2pcb k) \<and>
    k_pids k' = snd (pid_alloc (k_pids k)) \<and> k_initproc k' = k_initproc k \<and> k_held k' = k_held k"
proof -
  obtain cpid pids where pa: "pid_alloc (k_pids k) = (cpid, pids)"
    by fastforce
  have "cpid \<noteq> p"
    using assms(2) pa by simp
  show ?thesis
    using assms(1) \<open>cpid \<noteq> p\<close> unfolding fork_def pa
    by (auto simp: Let_def tree_fork_step same_tree_def pa add_task_def insert_into_pid2process_def
        dest!: TaskControlBlock_new_tree push_task_tree write_trap_cx_tree split: if_splits prod.splits)
qed

lemma reparent_refines:
  assumes "reparent cs k = Some k'" and "k_initproc k \<notin> set cs" and "distinct cs"
  shows "tree_of k' = (\<lambda>q. map_option (adopt (k_initproc k) cs q) (tree_of k q)) \<and>
    k_pid2pcb k' = k_pid2pcb k \<and> k_pids k' = k_pids k \<and> k_initproc k' = k_initproc k \<and> k_held k' = k_held k"
  using assms
proof (induction cs arbitrary: k)
  case Nil
  then show ?case
    by (auto simp: fun_eq_iff adopt_def intro!: option.map_ident_strong [symmetric])
next
  case (Cons c cs)
  let ?i = "k_initproc k"
  obtain C I where C: "k_procs k c = Some C" "k_procs k ?i = Some I"
    "reparent cs (set_proc ?i (I\<lparr>pcb_children := pcb_children I @ [c]\<rparr>) (set_proc c (C\<lparr>pcb_parent := Some ?i\<rparr>) k)) = Some k'"
    using Cons.prems by (auto simp: Let_def)
  let ?k = "set_proc ?i (I\<lparr>pcb_children := pcb_children I @ [c]\<rparr>) (set_proc c (C\<lparr>pcb_parent := Some ?i\<rparr>) k)"
  have "tree_of ?k = (tree_of k)(?i \<mapsto> (node_of I)\<lparr>n_children := pcb_children I @ [c]\<rparr>, c \<mapsto> (node_of C)\<lparr>n_parent := Some ?i\<rparr>)"
    using Cons.prems(2) by (auto simp: tree_of_def node_of_def fun_eq_iff)
  then show ?case
    using Cons.IH [OF C(3), unfolded set_proc_simps] Cons.prems(2,3) C(1,2) by (auto simp: fun_eq_iff tree_of_def node_of_def adopt_def intro!: map_option_cong)
qed

lemma exit_process_refines:
  assumes "exit_process p code k = Some k'" and "k_initproc k \<notin> set (n_children (the (tree_of k p)))" and "distinct (n_children (the (tree_of k p)))"
    and "p \<notin> set (n_children (the (tree_of k p)))"
  shows "p \<in> k_pid2pcb k \<and> p \<noteq> k_initproc k \<and> tree_of k' = tree_exit (k_initproc k) p code (tree_of k) \<and> k_pid2pcb k' = k_pid2pcb k - {p} \<and>
    k_pids k' = k_pids k \<and> k_initproc k' = k_initproc k \<and> k_held k' = k_held k"
proof -
  obtain P where P: "k_procs k p = Some P"
    using assms(1) by (auto simp: exit_process_def remove_from_pid2process_def split: if_splits)
  have n: "n_children (the (tree_of k p)) = pcb_children P" "tree_of k p = Some (node_of P)"
    using P by (simp_all add: tree_of_def node_of_def)
  let ?k1 = "set_proc p (P\<lparr>pcb_is_zombie := True, pcb_exit_code := code\<rparr>) (k\<lparr>k_pid2pcb := k_pid2pcb k - {p}\<rparr>)"
  obtain k2 rs k3 k4 P4 ms s d where e: "p \<in> k_pid2pcb k" "k_initproc k \<noteq> p" "reparent (pcb_children P) ?k1 = Some k2"
    "take_ress (pcb_tasks P) k2 = Some (rs, k3)" "drop_task_ress p rs k3 = Some k4" "k_procs k4 p = Some P4"
    "release_tasks (rev (drop 1 (pcb_tasks P4))) (set_proc p (P4\<lparr>pcb_children := [], memory_set := ms, pcb_fd_table := [], pcb_tasks := take 1 (pcb_tasks P4)\<rparr>)
       (k4\<lparr>k_mm := s, k_disk := d\<rparr>)) = Some k'"
    using assms(1) P by (auto simp: exit_process_def remove_from_pid2process_def Let_def split: if_splits prod.splits)
  note R = reparent_refines [OF e(3), unfolded set_proc_simps]
  have r: "tree_of k2 = (\<lambda>q. map_option (adopt (k_initproc k) (pcb_children P) q) (((tree_of k)(p \<mapsto> (node_of P)\<lparr>n_zombie := True, n_code := code\<rparr>)) q))"
    "k_pid2pcb k2 = k_pid2pcb k - {p}" "k_pids k2 = k_pids k" "k_initproc k2 = k_initproc k" "k_held k2 = k_held k"
    using R assms(2,3) n P by (auto simp: tree_of_def node_of_def fun_eq_iff)
  have s4: "same_tree k2 k4"
    by (rule same_tree_trans [OF take_ress_tree [OF e(4)] drop_task_ress_tree [OF e(5)]])
  moreover have "tree_of k4 p = Some (node_of P4)"
    using e(6) by (simp add: tree_of_def)
  ultimately have "tree_of k2 p = Some (node_of P4)"
    by (simp add: same_tree_def)
  then have z: "pcb_is_zombie P4" "pcb_exit_code P4 = code" "pcb_parent P4 = pcb_parent P"
    using e(2) assms(4) n by (auto simp: r(1) node_of_def adopt_def)
  have "tree_of (set_proc p (P4\<lparr>pcb_children := [], memory_set := ms, pcb_fd_table := [], pcb_tasks := take 1 (pcb_tasks P4)\<rparr>)
       (k4\<lparr>k_mm := s, k_disk := d\<rparr>)) = (tree_of k2)(p \<mapsto> \<lparr>n_zombie = True, n_parent = pcb_parent P, n_children = [], n_code = code\<rparr>)"
    using s4 z by (auto simp: same_tree_def tree_of_def node_of_def fun_eq_iff)
  moreover have "\<dots> = tree_exit (k_initproc k) p code (tree_of k)"
    using n e(2) assms(4) by (auto simp: r(1) tree_exit_def fun_eq_iff Let_def node_of_def)
  ultimately show ?thesis
    using release_tasks_tree [OF e(7)] s4 e(1,2) r by (simp add: same_tree_def)
qed

section \<open>The invariant of the tree\<close>

definition tree_ok :: "nat \<Rightarrow> tree \<Rightarrow> bool" where
  \<comment> \<open>every process but \<open>ip\<close> is a child of exactly one process, the one its parent field names; zombies have no children\<close>
  "tree_ok ip T \<longleftrightarrow> (\<exists>I. T ip = Some I \<and> \<not> n_zombie I) \<and>
     (\<forall>p N. T p = Some N \<longrightarrow> distinct (n_children N) \<and> set (n_children N) \<subseteq> dom T - {ip, p} \<and> (n_zombie N \<longrightarrow> n_children N = [])) \<and>
     (\<forall>p N c C. T p = Some N \<and> T c = Some C \<and> c \<in> set (n_children N) \<longrightarrow> n_parent C = Some p) \<and>
     (\<forall>c C. T c = Some C \<and> c \<noteq> ip \<longrightarrow> (\<exists>p N. T p = Some N \<and> c \<in> set (n_children N)))"

lemma tree_okD:
  assumes "tree_ok ip T" and "T p = Some N"
  shows "distinct (n_children N)" and "set (n_children N) \<subseteq> dom T - {ip, p}" and "n_zombie N \<Longrightarrow> n_children N = []" and "p = ip \<Longrightarrow> \<not> n_zombie N"
    and "\<And>c C. T c = Some C \<Longrightarrow> c \<in> set (n_children N) \<Longrightarrow> n_parent C = Some p" and "p \<noteq> ip \<Longrightarrow> \<exists>q M. T q = Some M \<and> p \<in> set (n_children M)"
proof -
  show "p = ip \<Longrightarrow> \<not> n_zombie N"
    using assms unfolding tree_ok_def by force
  have all: "\<forall>p N. T p = Some N \<longrightarrow> distinct (n_children N) \<and> set (n_children N) \<subseteq> dom T - {ip, p} \<and> (n_zombie N \<longrightarrow> n_children N = [])"
    "\<forall>p N c C. T p = Some N \<and> T c = Some C \<and> c \<in> set (n_children N) \<longrightarrow> n_parent C = Some p"
    "\<forall>c C. T c = Some C \<and> c \<noteq> ip \<longrightarrow> (\<exists>p N. T p = Some N \<and> c \<in> set (n_children N))"
    using assms(1) unfolding tree_ok_def by blast+
  show "distinct (n_children N)" "set (n_children N) \<subseteq> dom T - {ip, p}" "n_zombie N \<Longrightarrow> n_children N = []"
    "\<And>c C. T c = Some C \<Longrightarrow> c \<in> set (n_children N) \<Longrightarrow> n_parent C = Some p" "p \<noteq> ip \<Longrightarrow> \<exists>q M. T q = Some M \<and> p \<in> set (n_children M)"
    using all assms(2) by blast+
qed

lemma tree_okI:
  assumes "\<exists>I. T ip = Some I \<and> \<not> n_zombie I" and "\<And>p N. T p = Some N \<Longrightarrow> distinct (n_children N)"
    and "\<And>p N. T p = Some N \<Longrightarrow> set (n_children N) \<subseteq> dom T - {ip, p}" and "\<And>p N. T p = Some N \<Longrightarrow> n_zombie N \<Longrightarrow> n_children N = []"
    and "\<And>p N c C. T p = Some N \<Longrightarrow> T c = Some C \<Longrightarrow> c \<in> set (n_children N) \<Longrightarrow> n_parent C = Some p"
    and "\<And>p N. T p = Some N \<Longrightarrow> p \<noteq> ip \<Longrightarrow> \<exists>q M. T q = Some M \<and> p \<in> set (n_children M)"
  shows "tree_ok ip T"
  using assms unfolding tree_ok_def by blast

lemma tree_ok_unique:
  assumes "tree_ok ip T" and "T p = Some N" and "T q = Some M" and "c \<in> set (n_children N)" and "c \<in> set (n_children M)"
  shows "p = q"
proof -
  obtain C where "T c = Some C"
    using tree_okD(2) [OF assms(1,2)] assms(4) by auto
  then show ?thesis
    using tree_okD(5) [OF assms(1,2) _ assms(4)] tree_okD(5) [OF assms(1,3) _ assms(5)] by fastforce
qed

lemma tree_ok_fork:
  assumes ok: "tree_ok ip T" and p: "T p = Some N" "\<not> n_zombie N" and c: "T c = None"
  shows "tree_ok ip (tree_fork p c T)"
proof -
  have cp: "c \<noteq> p" "c \<noteq> ip"
    using p c ok by (auto simp: tree_ok_def)
  have old: "c \<notin> set (n_children M)" if "T q = Some M" for q M
    using tree_okD(2) [OF ok that] c by auto
  have T': "tree_fork p c T = T(p \<mapsto> N\<lparr>n_children := n_children N @ [c]\<rparr>, c \<mapsto> \<lparr>n_zombie = False, n_parent = Some p, n_children = [], n_code = 0\<rparr>)"
    using p by (simp add: tree_fork_def)
  have I: "\<exists>I. T ip = Some I \<and> \<not> n_zombie I"
    using ok by (simp add: tree_ok_def)
  show ?thesis
  proof (rule tree_okI)
    show "\<exists>I. tree_fork p c T ip = Some I \<and> \<not> n_zombie I"
      using I p cp by (auto simp: T')
  next
    fix q M assume M: "tree_fork p c T q = Some M"
    consider "q = c" "n_children M = []" "\<not> n_zombie M" | "q = p" "n_children M = n_children N @ [c]" "\<not> n_zombie M" | "q \<noteq> c" "T q = Some M"
      using M p by (auto simp: T' split: if_splits)
    then have "distinct (n_children M) \<and> set (n_children M) \<subseteq> dom (tree_fork p c T) - {ip, q} \<and> (n_zombie M \<longrightarrow> n_children M = [])"
    proof (cases)
      case 2
      then show ?thesis
        using old [OF p(1)] tree_okD(1,2) [OF ok p(1)] cp by (auto simp: T')
    next
      case 3
      then show ?thesis
        using tree_okD(1-3) [OF ok 3(2)] by (auto simp: T')
    qed simp
    then show "distinct (n_children M)" "set (n_children M) \<subseteq> dom (tree_fork p c T) - {ip, q}" "n_zombie M \<Longrightarrow> n_children M = []"
      by simp_all
    show "n_parent D = Some q" if "tree_fork p c T d = Some D" "d \<in> set (n_children M)" for d D
    proof (cases "d = c")
      case True
      then have "q = p"
        using M that(2) old by (auto simp: T' split: if_splits)
      then show ?thesis
        using True that(1) by (auto simp: T')
    next
      case False
      from that(1) False p obtain C where C: "T d = Some C" "n_parent C = n_parent D"
        by (auto simp: T' split: if_splits)
      from M that(2) False p obtain M0 where "T q = Some M0" "d \<in> set (n_children M0)"
        by (auto simp: T' split: if_splits)
      then show ?thesis
        using tree_okD(5) [OF ok _ C(1)] C(2) by simp
    qed
    show "\<exists>q' M'. tree_fork p c T q' = Some M' \<and> q \<in> set (n_children M')" if "q \<noteq> ip"
    proof (cases "q = c")
      case False
      then obtain C where "T q = Some C"
        using M p by (auto simp: T' split: if_splits)
      from tree_okD(6) [OF ok this that] obtain q' M' where "T q' = Some M'" "q \<in> set (n_children M')"
        by blast
      then show ?thesis
        using p c cp by (cases "q' = p"; cases "q' = c") (force simp: T')+
    qed (use cp in \<open>auto simp: T' intro!: exI [of _ p]\<close>)
  qed
qed

lemma tree_ok_exit:
  assumes ok: "tree_ok ip T" and p: "T p = Some N" "p \<noteq> ip"
  shows "tree_ok ip (tree_exit ip p code T)"
proof -
  let ?T = "tree_exit ip p code T" and ?cs = "n_children N"
  obtain I where I: "T ip = Some I" "\<not> n_zombie I"
    using ok by (auto simp: tree_ok_def)
  have at: "?T q = map_option (\<lambda>M. if q = p then M\<lparr>n_zombie := True, n_code := code, n_children := []\<rparr> else adopt ip ?cs q M) (T q)" for q
    using p by (simp add: tree_exit_def)
  have dom: "dom ?T = dom T"
    by (auto simp: at)
  note tree_okD(1,2) [OF ok p(1)]
  have apart: "set (n_children I) \<inter> set ?cs = {}"
    using tree_ok_unique [OF ok I(1) p(1)] p(2) by auto
  have ch: "n_children M' = (if q = p then [] else if q = ip then n_children M @ ?cs else n_children M)" "n_zombie M' \<longleftrightarrow> q = p \<or> n_zombie M"
    "n_parent M' = (if q \<in> set ?cs then Some ip else n_parent M)"
    if "?T q = Some M'" "T q = Some M" for q M M'
    using that tree_okD(2) [OF ok p(1)] by (cases "q = p"; cases "q = ip"; cases "q \<in> set ?cs"; auto simp: at adopt_def)+
  show ?thesis
  proof (rule tree_okI)
    show "\<exists>I. ?T ip = Some I \<and> \<not> n_zombie I"
      using I p(2) by (auto simp: at adopt_def)
  next
    fix q M' assume M': "?T q = Some M'"
    then obtain M where M: "T q = Some M"
      by (auto simp: at)
    note C = ch [OF M' M] and D = tree_okD [OF ok M]
    show "distinct (n_children M')" "set (n_children M') \<subseteq> dom ?T - {ip, q}"
      using C(1) D(1,2) tree_okD(1,2) [OF ok p(1)] apart M I(1) unfolding dom by (auto split: if_splits)
    show "n_zombie M' \<Longrightarrow> n_children M' = []"
      using C D(3,4) by (auto split: if_splits)
    show "n_parent D = Some q" if d: "?T d = Some D" "d \<in> set (n_children M')" for d D
    proof -
      obtain D0 where D0: "T d = Some D0"
        using d(1) by (auto simp: at)
      show ?thesis
      proof (cases "d \<in> set ?cs")
        case True
        have "q = ip"
          using True d(2) C(1) tree_ok_unique [OF ok M p(1), of d] by (auto split: if_splits)
        then show ?thesis
          using ch(3) [OF d(1) D0] True by simp
      next
        case False
        then have "d \<in> set (n_children M)"
          using d(2) C(1) by (auto split: if_splits)
        then show ?thesis
          using D(5) [OF D0] ch(3) [OF d(1) D0] False by simp
      qed
    qed
    show "\<exists>q' M''. ?T q' = Some M'' \<and> q \<in> set (n_children M'')" if "q \<noteq> ip"
    proof -
      from D(6) [OF that] obtain r R where r: "T r = Some R" "q \<in> set (n_children R)"
        by blast
      define o' where "o' = (if r = p then ip else r)"
      obtain R0 where R0: "T o' = Some R0"
        using r(1) I(1) by (cases "r = p") (auto simp: o'_def)
      obtain R' where R': "?T o' = Some R'"
        using R0 by (auto simp: at)
      have "q \<in> set (n_children R')"
        using ch(1) [OF R' R0] r R0 p by (auto simp: o'_def split: if_splits)
      then show ?thesis
        using R' by blast
    qed
  qed
qed

lemma tree_ok_reap:
  assumes ok: "tree_ok ip T" and p: "T p = Some N" and c: "c \<in> set (n_children N)" "T c = Some C" "n_zombie C"
  shows "tree_ok ip (tree_reap p c T)"
proof -
  let ?T = "tree_reap p c T"
  have cp: "c \<noteq> p" "c \<noteq> ip"
    using tree_okD(2) [OF ok p] c(1) by auto
  have T': "?T = T(p \<mapsto> N\<lparr>n_children := remove1 c (n_children N)\<rparr>, c := None)"
    using p by (simp add: tree_reap_def)
  have ch: "\<exists>M. T q = Some M \<and> n_zombie M' = n_zombie M \<and> n_parent M' = n_parent M \<and> distinct (n_children M') \<and>
      set (n_children M') = set (n_children M) - {c} \<and> q \<noteq> c" if "?T q = Some M'" for q M'
  proof (cases "q = p")
    case True
    then show ?thesis
      using that p cp tree_okD(1) [OF ok p] by (auto simp: T')
  next
    case False
    then have "T q = Some M'" "q \<noteq> c"
      using that by (auto simp: T' split: if_splits)
    moreover have "c \<notin> set (n_children M')"
      using tree_ok_unique [OF ok \<open>T q = Some M'\<close> p _ c(1)] False by blast
    ultimately show ?thesis
      using tree_okD(1) [OF ok] by auto
  qed
  have dom: "dom ?T = dom T - {c}"
    using p by (auto simp: T')
  show ?thesis
  proof (rule tree_okI)
    obtain I where "T ip = Some I" "\<not> n_zombie I"
      using ok by (auto simp: tree_ok_def)
    then show "\<exists>I. ?T ip = Some I \<and> \<not> n_zombie I"
      using p cp by (auto simp: T')
  next
    fix q M' assume M': "?T q = Some M'"
    then obtain M where M: "T q = Some M" "n_zombie M' = n_zombie M" "n_parent M' = n_parent M" "distinct (n_children M')"
      "set (n_children M') = set (n_children M) - {c}" "q \<noteq> c"
      using ch by blast
    note D = tree_okD [OF ok M(1)]
    show "distinct (n_children M')" "set (n_children M') \<subseteq> dom ?T - {ip, q}"
      using M(4,5) D(2) unfolding dom by auto
    show "n_zombie M' \<Longrightarrow> n_children M' = []"
      using D(3) M(2,5) by auto
    show "n_parent E = Some q" if "?T e = Some E" "e \<in> set (n_children M')" for e E
      using ch [OF that(1)] that(2) M(5) D(5) by auto
    show "\<exists>q' M''. ?T q' = Some M'' \<and> q \<in> set (n_children M'')" if "q \<noteq> ip"
    proof -
      from D(6) [OF that] obtain r R where r: "T r = Some R" "q \<in> set (n_children R)"
        by blast
      have "r \<noteq> c"
        using tree_okD(3) [OF ok c(2,3)] r c(2) by auto
      then have "r \<in> dom ?T"
        using r(1) dom by auto
      then obtain R' where "?T r = Some R'" "set (n_children R') = set (n_children R) - {c}"
        using r(1) ch [of r] by force
      then show ?thesis
        using r(2) M(6) by blast
    qed
  qed
qed

section \<open>The invariant of the process table\<close>

definition procs_inv :: "kernel \<Rightarrow> bool" where
  "procs_inv k \<longleftrightarrow> tree_ok (k_initproc k) (tree_of k) \<and> ra_inv (k_pids k) \<and> dom (tree_of k) = ra_used (k_pids k) \<and>
     k_pid2pcb k = {p. \<exists>N. tree_of k p = Some N \<and> \<not> n_zombie N}"

lemma procs_invD:
  assumes "procs_inv k"
  shows "tree_ok (k_initproc k) (tree_of k)" and "ra_inv (k_pids k)" and "dom (tree_of k) = ra_used (k_pids k)"
    and "\<And>p. p \<in> k_pid2pcb k \<longleftrightarrow> (\<exists>N. tree_of k p = Some N \<and> \<not> n_zombie N)"
  using assms by (auto simp: procs_inv_def)

lemma procs_invI:
  assumes "tree_ok (k_initproc k) (tree_of k)" and "ra_inv (k_pids k)" and "dom (tree_of k) = ra_used (k_pids k)"
    and "\<And>p. p \<in> k_pid2pcb k \<longleftrightarrow> (\<exists>N. tree_of k p = Some N \<and> \<not> n_zombie N)"
  shows "procs_inv k"
  using assms by (auto simp: procs_inv_def)

lemma same_tree_inv: "same_tree k k' \<Longrightarrow> procs_inv k \<Longrightarrow> procs_inv k'"
  by (simp add: same_tree_def procs_inv_def)

lemma fork_inv:
  assumes "procs_inv k" and "fork p k = Some (c, k')" and "p \<in> k_pid2pcb k" and "ra_current (k_pids k) < 2 ^ 64 - 1"
  shows "procs_inv k' \<and> c \<notin> dom (tree_of k) \<and> tree_of k' = tree_fork p c (tree_of k)"
proof -
  note D = procs_invD [OF assms(1)]
  obtain N where N: "tree_of k p = Some N" "\<not> n_zombie N"
    using D(4) assms(3) by blast
  obtain c' pids where a: "pid_alloc (k_pids k) = (c', pids)"
    by fastforce
  then have "ra_try_alloc (k_pids k) = Some (c', pids)"
    using assms(4) by (simp add: ra_try_alloc_def pid_alloc_def)
  note A = ids.alloc_fresh [OF D(2) this]
  have fresh: "tree_of k c' = None" "c' \<noteq> p"
    using A D(3) N by auto
  have F: "c = c'" "tree_of k' = tree_fork p c (tree_of k)" "k_pid2pcb k' = insert c (k_pid2pcb k)" "k_pids k' = pids" "k_initproc k' = k_initproc k"
    using fork_refines [OF assms(2)] fresh(2) a by simp_all
  have "tree_ok (k_initproc k) (tree_of k')"
    using tree_ok_fork [OF D(1) N] fresh(1) F by simp
  moreover have "dom (tree_of k') = insert c (dom (tree_of k))"
    using N F by (auto simp: tree_fork_def split: if_splits)
  moreover have "q \<in> k_pid2pcb k' \<longleftrightarrow> (\<exists>M. tree_of k' q = Some M \<and> \<not> n_zombie M)" for q
    using D(4) [of q] F(1-3) N fresh by (auto simp: tree_fork_def)
  ultimately show ?thesis
    using A D(3) F fresh by (auto simp: procs_inv_def)
qed

lemma exit_process_inv:
  assumes "procs_inv k" and "exit_process p code k = Some k'"
  shows "procs_inv k' \<and> tree_of k' = tree_exit (k_initproc k) p code (tree_of k)"
proof -
  note D = procs_invD [OF assms(1)]
  obtain P where "k_procs k p = Some P"
    using assms(2) by (auto simp: exit_process_def remove_from_pid2process_def split: if_splits)
  then obtain N where N: "tree_of k p = Some N"
    by (simp add: tree_of_def)
  have "k_initproc k \<notin> set (n_children (the (tree_of k p)))" "distinct (n_children (the (tree_of k p)))" "p \<notin> set (n_children (the (tree_of k p)))"
    using tree_okD(1,2) [OF D(1) N] N by auto
  note E = exit_process_refines [OF assms(2) this]
  have "tree_of k' = tree_exit (k_initproc k) p code (tree_of k)"
    using E by blast
  then have "dom (tree_of k') = dom (tree_of k)"
    by (auto simp: tree_exit_def Let_def dom_def)
  moreover have "q \<in> k_pid2pcb k' \<longleftrightarrow> (\<exists>M. tree_of k' q = Some M \<and> \<not> n_zombie M)" for q
  proof -
    have "k_pid2pcb k' = k_pid2pcb k - {p}"
      using E by blast
    then show ?thesis
      using D(4) [of q] N unfolding \<open>tree_of k' = _\<close> by (cases "tree_of k q") (auto simp: tree_exit_def adopt_def)
  qed
  ultimately show ?thesis
    using E tree_ok_exit [OF D(1) N, of code] D(2,3) by (intro conjI procs_invI) simp_all
qed

lemma drop_nth_remove1: "distinct xs \<Longrightarrow> i < length xs \<Longrightarrow> drop_nth i xs = remove1 (xs ! i) xs"
  by (induction xs arbitrary: i) (auto simp: drop_nth_def nth_Cons split: nat.splits)

lemma strong_count_reap:
  assumes inv: "procs_inv k" and P: "k_procs k self = Some P" and i: "i < length (pcb_children P)" "c = pcb_children P ! i"
    and C: "k_procs k c = Some C" "pcb_is_zombie C"
  shows "pcb_strong_count c (set_proc self (P\<lparr>pcb_children := drop_nth i (pcb_children P)\<rparr>) k) = k_held k c"
proof -
  note D = procs_invD [OF inv]
  have N: "tree_of k self = Some (node_of P)" "n_children (node_of P) = pcb_children P"
    using P by (simp_all add: tree_of_def node_of_def)
  note T = tree_okD [OF D(1) N(1), unfolded N(2)]
  have mem: "c \<in> set (pcb_children P)"
    using i by simp
  have d: "drop_nth i (pcb_children P) = remove1 c (pcb_children P)"
    using drop_nth_remove1 [OF T(1) i(1)] i(2) by simp
  have ns: "c \<noteq> self" "c \<noteq> k_initproc k"
    using T(2) mem by auto
  have other: "c \<notin> set (pcb_children Q)" if "k_procs k q = Some Q" "q \<noteq> self" for q Q
    using tree_ok_unique [OF D(1) _ N(1), of q "node_of Q" c] that mem by (auto simp: tree_of_def node_of_def)
  have z: "c \<notin> k_pid2pcb k"
    using D(4) [of c] C by (auto simp: tree_of_def node_of_def)
  have gone: "count_list (remove1 c (pcb_children P)) c = 0"
    by (rule count_notin) (simp add: T(1))
  have "(case k_procs (set_proc self (P\<lparr>pcb_children := drop_nth i (pcb_children P)\<rparr>) k) q of None \<Rightarrow> 0 | Some Q \<Rightarrow> count_list (pcb_children Q) c) = 0" for q
    using other [of q] gone by (auto simp: d count_notin split: option.splits)
  then show ?thesis
    using z ns(2) by (simp add: pcb_strong_count_def)
qed

lemma ProcessControlBlock_drop_tree:
  assumes "ProcessControlBlock_drop c k = Some k'"
  shows "tree_of k' = (tree_of k)(c := None) \<and> PidHandle_drop c (k_pids k) = Some (k_pids k') \<and> k_pid2pcb k' = k_pid2pcb k \<and>
    k_initproc k' = k_initproc k \<and> k_held k' = k_held k"
proof -
  have "tree_of (k\<lparr>k_pids := pids, k_mm := s, k_procs := (k_procs k)(c := None)\<rparr>) = (tree_of k)(c := None)" for pids s
    by (auto simp: tree_of_def fun_eq_iff)
  then show ?thesis
    using assms by (auto simp: ProcessControlBlock_drop_def same_tree_def dest!: release_tasks_tree)
qed

lemma reap_inv:
  assumes inv: "procs_inv k" and P: "k_procs k self = Some P" and i: "i < length (pcb_children P)" "c = pcb_children P ! i"
    and C: "k_procs k c = Some C" "pcb_is_zombie C"
    and d: "ProcessControlBlock_drop c ((set_proc self (P\<lparr>pcb_children := drop_nth i (pcb_children P)\<rparr>) k)\<lparr>k_mm := s\<rparr>) = Some k'"
  shows "procs_inv k' \<and> tree_of k' = tree_reap self c (tree_of k) \<and> ra_used (k_pids k') = ra_used (k_pids k) - {c}"
proof -
  note D = procs_invD [OF inv]
  have N: "tree_of k self = Some (node_of P)" "n_children (node_of P) = pcb_children P" "tree_of k c = Some (node_of C)" "n_zombie (node_of C)"
    using P C by (simp_all add: tree_of_def node_of_def)
  have mem: "c \<in> set (n_children (node_of P))"
    using i N(2) by simp
  have ch: "drop_nth i (pcb_children P) = remove1 c (pcb_children P)" "c \<noteq> self"
    using drop_nth_remove1 [OF _ i(1)] i(2) tree_okD(1,2) [OF D(1) N(1)] N(2) mem by auto
  note R = ProcessControlBlock_drop_tree [OF d]
  have tr: "tree_of k' = tree_reap self c (tree_of k)"
    using R P ch by (auto simp: tree_reap_def tree_of_def node_of_def fun_eq_iff)
  have "c \<in> ra_used (k_pids k)"
    using D(3) N(3) by auto
  then obtain pids where "ra_dealloc c (k_pids k) = Some pids" "ra_inv pids" "ra_used pids = ra_used (k_pids k) - {c}"
    using ids.dealloc_used [OF D(2)] by blast
  then have pids: "ra_inv (k_pids k')" "ra_used (k_pids k') = ra_used (k_pids k) - {c}"
    using R by (simp_all add: PidHandle_drop_def)
  have "tree_ok (k_initproc k') (tree_of k')"
    using tree_ok_reap [OF D(1) N(1) mem N(3,4)] R tr by simp
  moreover have "dom (tree_of k') = dom (tree_of k) - {c}"
    using N(1) by (auto simp: tr tree_reap_def split: if_splits)
  moreover have "q \<in> k_pid2pcb k' \<longleftrightarrow> (\<exists>M. tree_of k' q = Some M \<and> \<not> n_zombie M)" for q
    using D(4) [of q] N(1,3,4) R [THEN conjunct2, THEN conjunct2, THEN conjunct1] by (auto simp: tr tree_reap_def)
  ultimately show ?thesis
    using pids tr D(3) by (intro conjI procs_invI) simp_all
qed

section \<open>Steps of the system\<close>

lemma sys_fork_inv:
  assumes "procs_inv k" and "sys_fork k = Some (r, k')" and "current_process k = Some p" and "p \<in> k_pid2pcb k" and "ra_current (k_pids k) < 2 ^ 64 - 1"
  shows "procs_inv k'"
proof -
  obtain c k1 T cx where "fork p k = Some (c, k1)" "write_trap_cx T cx k1 = Some k'"
    using assms(2,3) by (auto simp: sys_fork_def)
  then show ?thesis
    using fork_inv [OF assms(1) _ assms(4,5)] same_tree_inv [OF write_trap_cx_tree] by blast
qed

lemma exit_current_inv:
  assumes "procs_inv k" and "exit_current code k = Some (r, k')"
  shows "procs_inv k'"
proof -
  obtain t T k1 res where e: "k_tasks k t = Some T" "drop_task_res (tcb_process T) res (set_task t (T\<lparr>tcb_exit_code := Some code, tcb_res := None\<rparr>) (k\<lparr>sc_current := None\<rparr>)) = Some k1"
    "k' = k1 \<or> exit_process (tcb_process T) code k1 = Some k'"
    using assms(2) by (auto simp: exit_current_def take_current_task_def Let_def split: if_splits)
  have "same_tree k (k\<lparr>sc_current := None\<rparr>)"
    by (rule same_treeI) simp_all
  then have "procs_inv k1"
    using same_tree_inv [OF same_tree_trans [OF same_tree_trans [OF _ set_task_tree] drop_task_res_tree [OF e(2)]] assms(1)] by blast
  then show ?thesis
    using e(3) exit_process_inv by blast
qed

lemma sys_waitpid_inv:
  assumes "procs_inv k" and "sys_waitpid pid ptr k = Some (r, k')"
  shows "procs_inv k'"
proof -
  obtain self P where P: "current_process k = Some self" "k_procs k self = Some P"
    using assms(2) by (auto simp: sys_waitpid_def)
  show ?thesis
  proof (cases "k' = k")
    case False
    then obtain i C s where i: "find_index (\<lambda>p. pid = - 1 \<or> p = nat (pid mod 2 ^ 64)) (pcb_children P) = Some i"
      "k_procs k (pcb_children P ! i) = Some C" "pcb_is_zombie C"
      "ProcessControlBlock_drop (pcb_children P ! i) ((set_proc self (P\<lparr>pcb_children := drop_nth i (pcb_children P)\<rparr>) k)\<lparr>k_mm := s\<rparr>) = Some k'"
      using assms(2) P by (auto simp: sys_waitpid_def Let_def split: option.splits if_splits)
    show ?thesis
      using reap_inv [OF assms(1) P(2) find_index_Some(1) [OF i(1)] refl i(2-4)] by blast
  qed (use assms(1) in simp)
qed

lemma thread_calls_inv:
  assumes "procs_inv k"
  shows "sys_thread_create entry arg k = Some (r, k') \<Longrightarrow> procs_inv k'" and "sys_waittid tid k = Some (r, k') \<Longrightarrow> procs_inv k'"
    and "exec p elf args k = Some k' \<Longrightarrow> procs_inv k'"
proof -
  have add: "same_tree k (add_task t k)" for t and k :: kernel
    by (rule same_treeI) (simp_all add: add_task_def)
  assume "sys_thread_create entry arg k = Some (r, k')"
  then obtain p ub t k1 P ts ts' k2 T cx where e: "TaskControlBlock_new p ub True k = Some (t, k1)" "k_procs (add_task t k1) p = Some P"
    "release_tasks ts (set_proc p (P\<lparr>pcb_tasks := ts'\<rparr>) (add_task t k1)) = Some k2" "write_trap_cx T cx k2 = Some k'"
    unfolding sys_thread_create_def Let_def by (elim bind_SomeE) (auto simp del: release_tasks.simps)
  have "same_tree (add_task t k1) (set_proc p (P\<lparr>pcb_tasks := ts'\<rparr>) (add_task t k1))"
    using e(2) by (intro same_tree_set_proc) simp_all
  from same_tree_trans [OF TaskControlBlock_new_tree [OF e(1)] same_tree_trans [OF add same_tree_trans [OF this same_tree_trans [OF release_tasks_tree [OF e(3)] write_trap_cx_tree [OF e(4)]]]]]
  show "procs_inv k'"
    using same_tree_inv assms by blast
next
  assume "sys_waittid tid k = Some (r, k')"
  then have "k' = k \<or> (\<exists>p P ts tids t. k_procs k p = Some P \<and> release_task t (set_proc p (P\<lparr>pcb_tasks := ts, pcb_task_res_allocator := tids\<rparr>) k) = Some k')"
    by (auto simp: sys_waittid_def split: if_splits option.splits)
  then show "procs_inv k'"
  proof (elim disjE exE conjE)
    fix p P ts tids t
    assume "k_procs k p = Some P" "release_task t (set_proc p (P\<lparr>pcb_tasks := ts, pcb_task_res_allocator := tids\<rparr>) k) = Some k'"
    then show ?thesis
      by (intro same_tree_inv [OF same_tree_trans [OF same_tree_set_proc release_task_tree] assms]) simp_all
  qed (use assms in simp)
next
  have upd: "same_tree k (k\<lparr>k_mm := s\<rparr>)" for s
    by (rule same_treeI) simp_all
  assume "exec p elf args k = Some k'"
  then obtain P ms s t T T' cx where e: "k_procs k p = Some P"
    "write_trap_cx T' cx (set_task t T (set_proc p (P\<lparr>memory_set := ms\<rparr>) (k\<lparr>k_mm := s\<rparr>))) = Some k'"
    by (auto simp: exec_def Let_def split: if_splits prod.splits)
  have "same_tree (k\<lparr>k_mm := s\<rparr>) (set_proc p (P\<lparr>memory_set := ms\<rparr>) (k\<lparr>k_mm := s\<rparr>))"
    using e(1) by (intro same_tree_set_proc) simp_all
  from same_tree_trans [OF upd same_tree_trans [OF this same_tree_trans [OF set_task_tree write_trap_cx_tree [OF e(2)]]]]
  show "procs_inv k'"
    using same_tree_inv assms by blast
qed

inductive proc_step :: "kernel \<Rightarrow> kernel \<Rightarrow> bool" where
  fork: "sys_fork k = Some (r, k') \<Longrightarrow> current_process k = Some p \<Longrightarrow> p \<in> k_pid2pcb k \<Longrightarrow> ra_current (k_pids k) < 2 ^ 64 - 1 \<Longrightarrow> proc_step k k'"
| exec: "exec p elf args k = Some k' \<Longrightarrow> proc_step k k'"
| exit: "exit_current code k = Some (Switches, k') \<Longrightarrow> proc_step k k'"
| waitpid: "sys_waitpid pid ptr k = Some (r, k') \<Longrightarrow> proc_step k k'"
| thread_create: "sys_thread_create entry arg k = Some (r, k') \<Longrightarrow> proc_step k k'"
| waittid: "sys_waittid tid k = Some (r, k') \<Longrightarrow> proc_step k k'"
| switch: "suspend_current k = Some k' \<or> block_current_task k = Some k' \<or> k' = run_tasks_round k \<Longrightarrow> proc_step k k'"
| held: "k' = k\<lparr>k_held := h\<rparr> \<Longrightarrow> proc_step k k'" \<comment> \<open>a call is suspended, or goes on\<close>

lemma switch_inv:
  assumes "procs_inv k" and "suspend_current k = Some k' \<or> block_current_task k = Some k' \<or> k' = run_tasks_round k"
  shows "procs_inv k'"
  using assms(2)
  by (intro same_tree_inv [OF same_treeI assms(1)])
    (auto simp: suspend_current_def block_current_task_def run_tasks_round_def take_current_task_def add_task_def set_status_def fetch_task_def split: list.splits)

lemma proc_step_inv: "proc_step k k' \<Longrightarrow> procs_inv k \<Longrightarrow> procs_inv k'"
proof (induction rule: proc_step.induct)
  case (held k' h k)
  have "tree_of k' = tree_of k"
    using held(1) by (simp add: tree_of_def fun_eq_iff)
  then show ?case
    using held by (simp add: procs_inv_def)
qed (blast intro: sys_fork_inv exit_current_inv sys_waitpid_inv thread_calls_inv switch_inv)+

section \<open>A small process table\<close>

definition sample_process :: "nat option \<Rightarrow> nat list \<Rightarrow> bool \<Rightarrow> ProcessControlBlock" where
  "sample_process par cs z = (blank_process \<lparr>page_table = \<lparr>root_ppn = 0, pt_frames = []\<rparr>, areas = []\<rparr> (root_inode sample_fs))
     \<lparr>pcb_parent := par, pcb_children := cs, pcb_is_zombie := z\<rparr>"

definition sample_kernel :: kernel where
  \<comment> \<open>the initial process, running, with two children, the second of which has exited\<close>
  "sample_kernel = \<lparr>sc_status = [7 \<mapsto> Running], sc_ready = [], sc_current = Some 7,
     k_image = \<lparr>ki_strampoline = 0x80200000, ki_trap_return = 0x80200100, ki_trap_handler = 0x80200200, ki_sstatus = 0\<rparr>,
     k_mm = sample_mm, k_kernel_space = \<lparr>page_table = \<lparr>root_ppn = 0, pt_frames = []\<rparr>, areas = []\<rparr>,
     k_pids = \<lparr>ra_current = 3, ra_recycled = []\<rparr>, k_kstacks = RecycleAllocator_new,
     k_procs = [0 \<mapsto> sample_process None [1, 2] False, 1 \<mapsto> sample_process (Some 0) [] False, 2 \<mapsto> sample_process (Some 0) [] True],
     k_pid2pcb = {0, 1}, k_held = (\<lambda>_. 0), k_initproc = 0,
     k_tasks = [7 \<mapsto> \<lparr>tcb_process = 0, tcb_kstack = 0, tcb_res = Some \<lparr>tur_tid = 0, tur_ustack_base = 0x10000\<rparr>, tcb_trap_cx_ppn = 0,
       tcb_task_cx = TaskContext_zero_init, tcb_exit_code = None, tcb_signal_processor = SignalProcessor_new\<rparr>],
     k_next_task = 8, k_efs = sample_fs, k_disk = sample_fs_disk, k_inodes = []\<rparr>"

lemma sample_kernel_inv: "procs_inv sample_kernel"
proof (rule procs_invI)
  have T: "tree_of sample_kernel = [0 \<mapsto> \<lparr>n_zombie = False, n_parent = None, n_children = [1, 2], n_code = 0\<rparr>,
      1 \<mapsto> \<lparr>n_zombie = False, n_parent = Some 0, n_children = [], n_code = 0\<rparr>, 2 \<mapsto> \<lparr>n_zombie = True, n_parent = Some 0, n_children = [], n_code = 0\<rparr>]"
    by (auto simp: tree_of_def sample_kernel_def sample_process_def blank_process_def node_of_def fun_eq_iff)
  show "tree_ok (k_initproc sample_kernel) (tree_of sample_kernel)"
    unfolding T by (rule tree_okI) (auto simp: sample_kernel_def split: if_splits)
  show "ra_inv (k_pids sample_kernel)"
    by (simp add: sample_kernel_def ra_inv_def)
  show "dom (tree_of sample_kernel) = ra_used (k_pids sample_kernel)"
    unfolding T by (auto simp: sample_kernel_def ra_used_def)
  show "p \<in> k_pid2pcb sample_kernel \<longleftrightarrow> (\<exists>N. tree_of sample_kernel p = Some N \<and> \<not> n_zombie N)" for p
    unfolding T by (auto simp: sample_kernel_def)
qed

section \<open>Properties\<close>

text \<open>
  C16. The process table under every sequence of calls and task switches: every process but the initial one is the child of exactly one
  process, the one its parent field names; zombies have no children; the pids in use are those of the existing processes; and
  \<open>PID2PCB\<close> has exactly the processes that have not exited. Hence the assertion of \<open>waitpid\<close>, that nothing else refers to
  the zombie it takes from the list of children, can fail only for a process with a thread that is still suspended inside a system call.
\<close>

theorem process_table_invariant:
  assumes "procs_inv k0" and "proc_step\<^sup>*\<^sup>* k0 k" and "k_procs k self = Some P" and "i < length (pcb_children P)" and "c = pcb_children P ! i"
    and "k_procs k c = Some C" and "pcb_is_zombie C"
  shows "procs_inv k \<and> (pcb_strong_count c (set_proc self (P\<lparr>pcb_children := drop_nth i (pcb_children P)\<rparr>) k) = 0 \<longleftrightarrow> k_held k c = 0)"
proof -
  have "procs_inv k"
    using assms(2,1) by (induction rule: rtranclp_induct) (auto intro: proc_step_inv)
  then show ?thesis
    using strong_count_reap [OF _ assms(3-7)] by simp
qed

theorem process_table_invariant_witness:
  "\<exists>k P. proc_step\<^sup>*\<^sup>* sample_kernel k \<and> procs_inv k \<and> k_procs k 0 = Some P \<and>
    pcb_strong_count 2 (set_proc 0 (P\<lparr>pcb_children := drop_nth 1 (pcb_children P)\<rparr>) k) = 0"
proof -
  have "proc_step sample_kernel (run_tasks_round sample_kernel)"
    by (rule proc_step.switch) simp
  moreover have k: "run_tasks_round sample_kernel = sample_kernel"
    by (simp add: run_tasks_round_def fetch_task_def sample_kernel_def)
  ultimately have "proc_step\<^sup>*\<^sup>* sample_kernel sample_kernel"
    by auto
  moreover have P: "k_procs sample_kernel 0 = Some (sample_process None [1, 2] False)" "k_procs sample_kernel 2 = Some (sample_process (Some 0) [] True)"
    "pcb_children (sample_process None [1, 2] False) = [1, 2]" "pcb_is_zombie (sample_process (Some 0) [] True)" "k_held sample_kernel 2 = 0"
    by (simp_all add: sample_kernel_def sample_process_def)
  ultimately show ?thesis
    using process_table_invariant [OF sample_kernel_inv, of sample_kernel 0 _ 1 2, OF _ P(1) _ _ P(2) P(4)] by auto
qed

text \<open>
  C17. \<open>waitpid\<close> on all its branches. It looks at the first child that matches: with none it answers \<open>-1\<close>, with one that runs \<open>-2\<close>,
  in both cases without any change. A zombie is removed from the table and from the list of children, its exit code
  is stored for the caller, its pid becomes free and the call answers the pid.
\<close>

theorem waitpid_outcome:
  assumes inv: "procs_inv k" and cur: "current_process k = Some self" "k_procs k self = Some P"
    and f: "f = find_index (\<lambda>p. pid = - 1 \<or> p = nat (pid mod 2 ^ 64)) (pcb_children P)"
  shows "case f of None \<Rightarrow> sys_waitpid pid ptr k = Some (- 1, k)
    | Some i \<Rightarrow> (\<exists>C. k_procs k (pcb_children P ! i) = Some C \<and>
        (if \<not> pcb_is_zombie C then sys_waitpid pid ptr k = Some (- 2, k)
         else k_held k (pcb_children P ! i) = 0 \<longrightarrow>
           (\<forall>m. user_store (MemorySet_token (memory_set P)) ptr (i32_bytes (pcb_exit_code C)) (ram (k_mm k)) = Some m \<longrightarrow>
             (let c = pcb_children P ! i;
                  r = ProcessControlBlock_drop c ((set_proc self (P\<lparr>pcb_children := drop_nth i (pcb_children P)\<rparr>) k)\<lparr>k_mm := (k_mm k)\<lparr>ram := m\<rparr>\<rparr>)
              in sys_waitpid pid ptr k = map_option (\<lambda>k'. (int c, k')) r \<and>
                (\<forall>k'. r = Some k' \<longrightarrow> procs_inv k' \<and> tree_of k' = tree_reap self c (tree_of k) \<and>
                  ra_used (k_pids k') = ra_used (k_pids k) - {c})))))"
proof (cases f)
  case None
  then show ?thesis
    using cur f by (simp add: sys_waitpid_def)
next
  case (Some i)
  let ?c = "pcb_children P ! i"
  have i: "i < length (pcb_children P)"
    using Some f find_index_Some(1) by metis
  have "set (n_children (node_of P)) \<subseteq> dom (tree_of k) - {k_initproc k, self}"
    using tree_okD(2) [OF procs_invD(1) [OF inv]] cur(2) by (simp add: tree_of_def)
  moreover have "?c \<in> set (n_children (node_of P))"
    using i by (simp add: node_of_def)
  ultimately have "?c \<in> dom (tree_of k)"
    by blast
  then obtain C where C: "k_procs k ?c = Some C"
    by (auto simp: tree_of_def)
  show ?thesis
  proof (cases "pcb_is_zombie C")
    case False
    then show ?thesis
      using C Some cur f by (simp add: sys_waitpid_def)
  next
    case True
    note S = strong_count_reap [OF inv cur(2) i refl C True]
    have "sys_waitpid pid ptr k = map_option (\<lambda>k'. (int ?c, k'))
        (ProcessControlBlock_drop ?c ((set_proc self (P\<lparr>pcb_children := drop_nth i (pcb_children P)\<rparr>) k)\<lparr>k_mm := (k_mm k)\<lparr>ram := m\<rparr>\<rparr>))"
      if "k_held k ?c = 0" "user_store (MemorySet_token (memory_set P)) ptr (i32_bytes (pcb_exit_code C)) (ram (k_mm k)) = Some m" for m
      using that C Some cur f True S by (simp add: sys_waitpid_def Let_def map_conv_bind_option comp_def)
    then show ?thesis
      using C Some True reap_inv [OF inv cur(2) i refl C True] unfolding Some option.case Let_def by auto
  qed
qed

theorem waitpid_outcome_witness:
  "\<forall>ptr. sys_waitpid 1 ptr sample_kernel = Some (- 2, sample_kernel) \<and> sys_waitpid 5 ptr sample_kernel = Some (- 1, sample_kernel)"
proof -
  have cur: "current_process sample_kernel = Some 0" "k_procs sample_kernel 0 = Some (sample_process None [1, 2] False)"
    by (simp_all add: sample_kernel_def current_process_def current_task_def)
  have f: "find_index (\<lambda>p. (1 :: int) = - 1 \<or> p = nat (1 mod 2 ^ 64)) (pcb_children (sample_process None [1, 2] False)) = Some 0"
    "find_index (\<lambda>p. (5 :: int) = - 1 \<or> p = nat (5 mod 2 ^ 64)) (pcb_children (sample_process None [1, 2] False)) = None"
    by (simp_all add: find_index_def upt_rec sample_process_def)
  show ?thesis
    using waitpid_outcome [OF sample_kernel_inv cur refl, of 1] waitpid_outcome [OF sample_kernel_inv cur refl, of 5] unfolding f
    by (simp add: sample_kernel_def sample_process_def)
qed

text \<open>
  Waiting for any child (\<open>pid = -1\<close>) looks at the first child only: as long as it runs, the call answers \<open>-2\<close>, however many of the
  other children have exited. The initial process, whose first child is the shell, therefore never removes the orphans it adopts while the shell runs.
\<close>

theorem wait_any_blocked_by_first_child:
  assumes "current_process k = Some self" and "k_procs k self = Some P" and "pcb_children P = c # cs" and "k_procs k c = Some C" and "\<not> pcb_is_zombie C"
  shows "sys_waitpid (- 1) ptr k = Some (- 2, k)"
proof -
  have "find_index (\<lambda>p. (- 1 :: int) = - 1 \<or> p = nat (- 1 mod 2 ^ 64)) (pcb_children P) = Some 0"
    using assms(3) by (simp add: find_index_def upt_conv_Cons del: upt_Suc)
  then show ?thesis
    using assms by (simp add: sys_waitpid_def)
qed

theorem wait_any_blocked_by_first_child_witness:
  "\<forall>ptr. sys_waitpid (- 1) ptr sample_kernel = Some (- 2, sample_kernel) \<and> pcb_is_zombie (the (k_procs sample_kernel 2))"
proof -
  have "current_process sample_kernel = Some 0" "k_procs sample_kernel 0 = Some (sample_process None [1, 2] False)"
    "pcb_children (sample_process None [1, 2] False) = 1 # [2]" "k_procs sample_kernel 1 = Some (sample_process (Some 0) [] False)"
    "\<not> pcb_is_zombie (sample_process (Some 0) [] False)" "pcb_is_zombie (the (k_procs sample_kernel 2))"
    by (simp_all add: sample_kernel_def sample_process_def current_process_def current_task_def)
  then show ?thesis
    using wait_any_blocked_by_first_child by blast
qed

section \<open>Threads that outlive their process\<close>

definition keeps_ready :: "kernel \<Rightarrow> kernel \<Rightarrow> bool" where
  "keeps_ready k k' \<longleftrightarrow> sc_ready k' = sc_ready k \<and> (\<forall>t \<in> set (sc_ready k). k_tasks k' t = k_tasks k t) \<and>
     (\<forall>p. map_option pcb_tasks (k_procs k' p) = map_option pcb_tasks (k_procs k p))"

lemma keeps_ready_refl [simp]: "keeps_ready k k"
  by (simp add: keeps_ready_def)

lemma keeps_ready_trans: "keeps_ready k1 k2 \<Longrightarrow> keeps_ready k2 k3 \<Longrightarrow> keeps_ready k1 k3"
  by (simp add: keeps_ready_def)

lemma keeps_ready_set_proc: "k_procs k p = Some P \<Longrightarrow> pcb_tasks P' = pcb_tasks P \<Longrightarrow> keeps_ready k (set_proc p P' k)"
  by (simp add: keeps_ready_def set_proc_def)

lemma drop_task_res_ready: "drop_task_res p r k = Some k' \<Longrightarrow> keeps_ready k k'"
  by (auto simp: drop_task_res_def keeps_ready_def set_proc_def)

lemma drop_task_ress_ready: "drop_task_ress p rs k = Some k' \<Longrightarrow> keeps_ready k k'"
  by (induction rs arbitrary: k) (auto dest: drop_task_res_ready intro: keeps_ready_trans)

lemma reparent_ready: "reparent cs k = Some k' \<Longrightarrow> keeps_ready k k'"
proof (induction cs arbitrary: k)
  case (Cons c cs)
  let ?i = "k_initproc k"
  obtain C I where e: "k_procs k c = Some C" "k_procs (set_proc c (C\<lparr>pcb_parent := Some ?i\<rparr>) k) ?i = Some I"
    "reparent cs (set_proc ?i (I\<lparr>pcb_children := pcb_children I @ [c]\<rparr>) (set_proc c (C\<lparr>pcb_parent := Some ?i\<rparr>) k)) = Some k'"
    using Cons.prems by (auto simp: Let_def simp del: set_proc_simps(6))
  show ?case
    by (rule keeps_ready_trans [OF keeps_ready_set_proc [OF e(1)] keeps_ready_trans [OF keeps_ready_set_proc [OF e(2)] Cons.IH [OF e(3)]]]) simp_all
qed simp

lemma release_task_ready: "release_task t k = Some k' \<Longrightarrow> keeps_ready k k'"
proof -
  have u: "keeps_ready k (k\<lparr>k_kernel_space := ks, k_mm := s, k_tasks := (k_tasks k)(t := None), sc_status := st\<rparr>)" if "t \<notin> set (sc_ready k)" for ks s st
    using that by (auto simp: keeps_ready_def)
  show "release_task t k = Some k' \<Longrightarrow> keeps_ready k k'"
    by (auto simp: release_task_def Let_def task_referenced_def u dest!: drop_task_res_ready intro: keeps_ready_trans [OF u] split: if_splits option.splits)
qed

lemma release_tasks_ready: "release_tasks ts k = Some k' \<Longrightarrow> keeps_ready k k'"
  by (induction ts arbitrary: k) (auto dest: release_task_ready intro: keeps_ready_trans split: option.splits)

lemma take_ress_ready:
  "take_ress ts k = Some (rs, k') \<Longrightarrow> sc_ready k' = sc_ready k \<and> k_procs k' = k_procs k \<and> (\<forall>u. Some u \<in> set ts \<longrightarrow> k_tasks k u \<noteq> None) \<and>
    (\<forall>u. k_tasks k' u = (if Some u \<in> set ts then map_option (\<lambda>T. T\<lparr>tcb_res := None\<rparr>) (k_tasks k u) else k_tasks k u))"
proof (induction ts k arbitrary: rs rule: take_ress.induct)
  case (3 t ts k)
  obtain T rs' where e: "k_tasks k t = Some T" "take_ress ts (set_task t (T\<lparr>tcb_res := None\<rparr>) k) = Some (rs', k')"
    using "3.prems" by auto
  show ?case
    using "3.IH" [OF e] e(1) by (auto simp: set_task_def split: if_splits)
qed auto

lemma exit_process_threads:
  assumes "exit_process p code k = Some k'" and "k_procs k p = Some P" and "Some u \<in> set (pcb_tasks P)" and "u \<in> set (sc_ready k)"
  shows "sc_ready k' = sc_ready k \<and> (\<exists>U. k_tasks k' u = Some U \<and> tcb_res U = None)"
proof -
  let ?k1 = "set_proc p (P\<lparr>pcb_is_zombie := True, pcb_exit_code := code\<rparr>) (k\<lparr>k_pid2pcb := k_pid2pcb k - {p}\<rparr>)"
  obtain k2 rs k3 k4 P4 ms s d where e: "reparent (pcb_children P) ?k1 = Some k2"
    "take_ress (pcb_tasks P) k2 = Some (rs, k3)" "drop_task_ress p rs k3 = Some k4" "k_procs k4 p = Some P4"
    "release_tasks (rev (drop 1 (pcb_tasks P4))) (set_proc p (P4\<lparr>pcb_children := [], memory_set := ms, pcb_fd_table := [], pcb_tasks := take 1 (pcb_tasks P4)\<rparr>)
       (k4\<lparr>k_mm := s, k_disk := d\<rparr>)) = Some k'"
    using assms(1,2) by (auto simp: exit_process_def remove_from_pid2process_def Let_def split: if_splits prod.splits)
  have r2: "sc_ready k2 = sc_ready k" "k_tasks k2 u = k_tasks k u"
    using reparent_ready [OF e(1)] assms(4) by (simp_all add: keeps_ready_def set_proc_def)
  have "k_tasks k u \<noteq> None"
    by (metis take_ress_ready [OF e(2)] r2(2) assms(3))
  then obtain U where U: "k_tasks k3 u = Some U" "tcb_res U = None" "sc_ready k3 = sc_ready k"
    using take_ress_ready [OF e(2)] r2 assms(3) by auto
  then show ?thesis
    using drop_task_ress_ready [OF e(3)] release_tasks_ready [OF e(5)] assms(4) by (simp add: keeps_ready_def set_proc_def)
qed

text \<open>
  C19. The end of the main thread ends the process, but leaves its other threads in the ready queue: each of them that was ready is still
  in the queue, now without its user resources. When the scheduler picks one and it is about to return to user mode, \<open>trap_return\<close> asks for
  the address of its trap context, which is the \<open>unwrap\<close> of nothing: the kernel panics.
\<close>

theorem exit_leaves_ready_threads:
  assumes "exit_current code k = Some (Switches, k')" and "sc_current k = Some t" and "k_tasks k t = Some T" and "tcb_res T = Some res" and "tur_tid res = 0"
    and "k_procs k (tcb_process T) = Some P" and "Some u \<in> set (pcb_tasks P)" and "u \<noteq> t" and "sc_ready k = u # ts"
  shows "sc_ready k' = u # ts \<and> sc_current (run_tasks_round k') = Some u \<and> current_trap_cx_user_va (run_tasks_round k') = None"
proof -
  let ?p = "tcb_process T" let ?k0 = "set_task t (T\<lparr>tcb_exit_code := Some code, tcb_res := None\<rparr>) (k\<lparr>sc_current := None\<rparr>)"
  obtain k1 where e: "drop_task_res ?p res ?k0 = Some k1" "exit_process ?p code k1 = Some k'"
    using assms(1-6) by (auto simp: exit_current_def take_current_task_def Let_def split: if_splits)
  have "keeps_ready ?k0 k1"
    by (rule drop_task_res_ready [OF e(1)])
  then have r1: "sc_ready k1 = u # ts" "map_option pcb_tasks (k_procs k1 ?p) = Some (pcb_tasks P)"
    using assms(6,9) by (simp_all add: keeps_ready_def set_task_def)
  then obtain P1 where P1: "k_procs k1 ?p = Some P1" "pcb_tasks P1 = pcb_tasks P"
    by auto
  obtain U where "sc_ready k' = u # ts" "k_tasks k' u = Some U" "tcb_res U = None"
    using exit_process_threads [OF e(2) P1(1), of u] P1(2) assms(7) r1(1) by auto
  then show ?thesis
    by (simp add: run_tasks_round_def fetch_task_def set_status_def current_trap_cx_user_va_def current_task_def)
qed

definition sample_threads :: kernel where
  \<comment> \<open>process 1 runs its main thread; its second thread is ready\<close>
  "sample_threads = sample_kernel\<lparr>sc_current := Some 8, sc_ready := [9],
     k_procs := [0 \<mapsto> sample_process None [1] False, 1 \<mapsto> (sample_process (Some 0) [] False)\<lparr>pcb_tasks := [Some 8, Some 9]\<rparr>],
     k_tasks := (\<lambda>t. if t \<in> {8, 9} then Some \<lparr>tcb_process = 1, tcb_kstack = t, tcb_res = Some \<lparr>tur_tid = t - 8, tur_ustack_base = 0x10000\<rparr>,
       tcb_trap_cx_ppn = 0, tcb_task_cx = TaskContext_zero_init, tcb_exit_code = None, tcb_signal_processor = SignalProcessor_new\<rparr> else None)\<rparr>"

lemma dealloc_user_res_none:
  assumes "areas ms = []" and "n + 4 * tid + 4 \<le> 2 ^ 27"
  shows "dealloc_user_res \<lparr>tur_tid = tid, tur_ustack_base = n * 4096\<rparr> ms s = Some (ms, s)"
proof -
  have "addr_page (VirtAddr_from (ustack_bottom_from_tid (n * 4096) tid)) = Some (n + 3 * tid)"
    "addr_page (VirtAddr_from (trap_cx_bottom_from_tid tid)) = Some (2 ^ 27 - (tid + 2))"
    by (simp_all only: user_res_addresses(1,3) [OF assms(2)] addr_floor_mult)
  then show ?thesis
    using assms(1) by (simp add: dealloc_user_res_def remove_area_with_start_vpn_def)
qed

theorem exit_leaves_ready_threads_witness:
  "\<exists>k'. exit_current 0 sample_threads = Some (Switches, k') \<and> current_trap_cx_user_va (run_tasks_round k') = None"
proof -
  have d: "dealloc_user_res \<lparr>tur_tid = t, tur_ustack_base = 0x10000\<rparr> ms s = Some (ms, s)" if "areas ms = []" "t \<le> 1" for t ms s
    using dealloc_user_res_none [OF that(1), of 16 t] that(2) by simp
  have "exit_current 0 sample_threads \<noteq> None"
    by (simp add: exit_current_def take_current_task_def sample_threads_def sample_kernel_def sample_process_def blank_process_def Let_def drop_task_res_def
        set_task_def set_proc_def d exit_process_def remove_from_pid2process_def IDLE_PID_def recycle_data_pages_def release_task_def task_referenced_def)
  then obtain r k' where e: "exit_current 0 sample_threads = Some (r, k')"
    by auto
  then have "r = Switches"
    by (auto simp: exit_current_def take_current_task_def sample_threads_def sample_kernel_def Let_def IDLE_PID_def)
  moreover have "sc_current sample_threads = Some 8"
    by (simp add: sample_threads_def)
  ultimately show ?thesis
    using exit_leaves_ready_threads [of 0 sample_threads k' 8 _ _ _ 9 "[]"] e
    by (auto simp: sample_threads_def sample_process_def)
qed

end
