(* ===== verification/ExecArgs.thy ===== *)
theory ExecArgs
  imports ProcessTree
begin

text \<open>
  Arguments of a new program: \<open>exec\<close> lays the strings and the array of their addresses out on the user stack. The memory of
  a program is seen as a function from addresses to bytes; storing a value overlays it.
\<close>

section \<open>The memory of a program\<close>

definition user_space :: "nat \<Rightarrow> PageTable \<Rightarrow> mm \<Rightarrow> (VirtPageNum \<rightharpoonup> PageTableEntry) \<Rightarrow> bool" where
  \<comment> \<open>the pages of \<open>M\<close> are frames of their own, apart from the page table\<close>
  "user_space base pt s M \<longleftrightarrow> pt_inv base pt s \<and> pt_map (ram s) pt = M \<and> backed M (ram s) \<and> pages_apart M \<and>
     (\<forall>v b. M v = Some b \<longrightarrow> pte_ppn b \<notin> set (pt_frames pt))"

lemma user_spaceD:
  assumes "user_space base pt s M"
  shows "pt_inv base pt s" and "pt_map (ram s) pt = M" and "backed M (ram s)" and "pages_apart M"
    and "\<And>v b. M v = Some b \<Longrightarrow> pte_ppn b \<notin> set (pt_frames pt)"
  using assms by (simp_all add: user_space_def)

definition overlay :: "nat \<Rightarrow> bytes \<Rightarrow> (nat \<Rightarrow> byte) \<Rightarrow> nat \<Rightarrow> byte" where
  "overlay a bs f x = (if a \<le> x \<and> x < a + length bs then bs ! (x - a) else f x)"

definition views :: "(VirtPageNum \<rightharpoonup> PageTableEntry) \<Rightarrow> ram \<Rightarrow> (nat \<Rightarrow> byte) \<Rightarrow> bool" where
  "views M m f \<longleftrightarrow> (\<forall>x. M (x div 4096) \<noteq> None \<longrightarrow> user_byte M m x = f x)"

lemma overlay_append: "overlay (a + length bs) cs (overlay a bs f) = overlay a (bs @ cs) f"
  by (auto simp: overlay_def nth_append fun_eq_iff)

lemma map_overlay: "length bs = n \<Longrightarrow> map (overlay a bs f) [a..<a + n] = bs"
  by (rule nth_equalityI) (auto simp: overlay_def)

lemma translate_ref_user:
  assumes us: "user_space base pt s M" and a: "a < 2 ^ 39" "M (a div 4096) = Some b"
  shows "translate_ref (PageTable_token pt) a (ram s) = Some (pte_ppn b * 4096 + a mod 4096)"
proof -
  note U = user_spaceD [OF us]
  have root: "root_ppn (PageTable_from_token (PageTable_token pt)) = root_ppn pt"
    by (rule token_root [OF pt_root_bound [OF U(1)]])
  have fp: "find_pte (PageTable_from_token (PageTable_token pt)) v m = find_pte pt v m" for v m
    using root by (simp add: find_pte_def)
  have v: "a div 4096 < 2 ^ 27"
    using a(1) by (simp add: div_less_iff_less_mult)
  have m: "pt_map (ram s) pt (a div 4096) = Some b"
    using U(2) a(2) by simp
  have "VirtAddr_from a = a" "addr_floor a = a div 4096"
    using a(1) by (simp_all add: VirtAddr_from_mod addr_floor_div)
  moreover have "translate_va pt a (ram s) = Some (Some (PhysAddr_from (usize (page_addr (pte_ppn b) + page_offset a))))"
    using translate_spec(3) [OF pt_invD(2) [OF U(1)] v m, of a] \<open>addr_floor a = _\<close> by simp
  moreover have "PhysAddr_from (usize (page_addr (pte_ppn b) + page_offset a)) = pte_ppn b * 4096 + a mod 4096"
  proof -
    have "pte_ppn b < 2 ^ 44"
      by (simp add: pte_ppn_eq)
    then have "pte_ppn b * 4096 + a mod 4096 < 2 ^ 56" "page_addr (pte_ppn b) = pte_ppn b * 4096"
      using mod_less_divisor [of 4096 a] by (simp_all add: page_addr_mult)
    then show ?thesis
      by (simp add: PhysAddr_from_mod usize_def page_offset_mod)
  qed
  ultimately show ?thesis
    by (simp add: translate_ref_def translate_va_def fp)
qed

lemma user_write:
  assumes us: "user_space base pt s M" and a: "M (a div 4096) = Some b" "a mod 4096 + length bs \<le> 4096" and f: "views M (ram s) f"
  shows "\<exists>m. phys_store (pte_ppn b * 4096 + a mod 4096) bs (ram s) = Some m \<and> user_space base pt (s\<lparr>ram := m\<rparr>) M \<and> views M m (overlay a bs f)"
proof -
  note U = user_spaceD [OF us]
  let ?p = "pte_ppn b" and ?o = "a mod 4096"
  obtain pg where pg: "ram s ?p = Some pg" "length pg = PAGE_SIZE"
    using U(3) a(1) by (auto simp: backed_def)
  let ?pg = "splice ?o bs pg" let ?m = "(ram s)(?p \<mapsto> ?pg)"
  have fl: "addr_floor (?p * 4096 + ?o) = ?p" "page_offset (?p * 4096 + ?o) = ?o"
    by (simp_all add: addr_floor_div page_offset_mod)
  have st: "phys_store (?p * 4096 + ?o) bs (ram s) = Some ?m"
    using pg a(2) by (simp add: phys_store_def fl PAGE_SIZE_def)
  have len: "length ?pg = PAGE_SIZE"
    using pg(2) a(2) by (simp add: PAGE_SIZE_def)
  have "user_space base pt (s\<lparr>ram := ?m\<rparr>) M"
    using pt_inv_write [OF U(1) U(5) [OF a(1)] len] U(2-5) len by (auto simp: user_space_def backed_def)
  moreover have "user_byte M ?m x = overlay a bs f x" if "M (x div 4096) \<noteq> None" for x
  proof -
    from that obtain c where c: "M (x div 4096) = Some c"
      by auto
    have fx: "user_byte M (ram s) x = f x"
      using f that by (simp add: views_def)
    show ?thesis
    proof (cases "x div 4096 = a div 4096")
      case True
      have cb: "c = b"
        using c a(1) True by simp
      have xa: "x = a - ?o + x mod 4096" "a = a - ?o + ?o" "?o \<le> a"
        using True div_mult_mod_eq [of x 4096] div_mult_mod_eq [of a 4096] by (simp_all add: minus_mod_eq_div_mult)
      have xl: "x mod 4096 < 4096"
        by simp
      have "user_byte M ?m x = ?pg ! (x mod 4096)" "f x = pg ! (x mod 4096)"
        using c cb fx pg(1) by (simp_all add: user_byte_def user_ref_def)
      moreover have "a \<le> x \<longleftrightarrow> ?o \<le> x mod 4096" "x < a + length bs \<longleftrightarrow> x mod 4096 < ?o + length bs" "x - a = x mod 4096 - ?o"
        using xa by linarith+
      ultimately show ?thesis
        using xl pg(2) a(2) by (simp add: overlay_def nth_splice PAGE_SIZE_def)
    next
      case False
      then have "pte_ppn c \<noteq> ?p"
        using U(4) c a(1) unfolding pages_apart_def by blast
      moreover have "\<not> (a \<le> x \<and> x < a + length bs)"
      proof
        assume "a \<le> x \<and> x < a + length bs"
        then have ax: "a \<le> x" "x < a + length bs"
          by simp_all
        have "a div 4096 \<le> x div 4096"
          by (rule div_le_mono [OF ax(1)])
        moreover have "x < a div 4096 * 4096 + 4096"
          using ax(2) a(2) div_mult_mod_eq [of a 4096] by linarith
        moreover have "x div 4096 * 4096 \<le> x"
          by simp
        ultimately show False
          using False by linarith
      qed
      ultimately show ?thesis
        using c fx by (auto simp: user_byte_def user_ref_def overlay_def)
    qed
  qed
  ultimately show ?thesis
    using st by (auto simp: views_def)
qed

lemma user_store_write:
  assumes us: "user_space base pt s M" and a: "a < 2 ^ 39" "M (a div 4096) \<noteq> None" "a mod 4096 + length bs \<le> 4096" and f: "views M (ram s) f"
  shows "\<exists>m. user_store (PageTable_token pt) a bs (ram s) = Some m \<and> user_space base pt (s\<lparr>ram := m\<rparr>) M \<and> views M m (overlay a bs f)"
proof -
  obtain b where b: "M (a div 4096) = Some b"
    using a(2) by auto
  show ?thesis
    using user_write [OF us b a(3) f] translate_ref_user [OF us a(1) b] by (simp add: user_store_def phys_store_def)
qed

lemma store_string_spec:
  assumes "user_space base pt s M" and "p + length cs < 2 ^ 39" and "mapped_bytes M p (p + length cs + 1)" and "views M (ram s) f"
  shows "\<exists>m. store_string (PageTable_token pt) p cs (ram s) = Some m \<and> user_space base pt (s\<lparr>ram := m\<rparr>) M \<and> views M m (overlay p (cs @ [0]) f)"
  using assms
proof (induction cs arbitrary: p s f)
  case Nil
  have "p mod 4096 + length [0 :: byte] \<le> 4096"
    by (simp add: Suc_le_eq)
  then show ?case
    using user_store_write [OF Nil(1) _ _ _ Nil(4), of p "[0]"] Nil(2,3) by (simp add: mapped_bytes_def)
next
  case (Cons c cs)
  have o: "p mod 4096 + length [c] \<le> 4096"
    by (simp add: Suc_le_eq)
  have "M (p div 4096) \<noteq> None" "p < 2 ^ 39"
    using Cons.prems(2,3) by (auto simp: mapped_bytes_def)
  then obtain m where m: "user_store (PageTable_token pt) p [c] (ram s) = Some m" "user_space base pt (s\<lparr>ram := m\<rparr>) M" "views M m (overlay p [c] f)"
    using user_store_write [OF Cons.prems(1) _ _ o Cons.prems(4)] by blast
  have u: "usize (p + 1) = p + 1"
    using Cons.prems(2) by (simp add: usize_def)
  have "p + 1 + length cs < 2 ^ 39" "mapped_bytes M (p + 1) (p + 1 + length cs + 1)" "views M (ram (s\<lparr>ram := m\<rparr>)) (overlay p [c] f)"
    using Cons.prems(2,3) m(3) by (auto simp: mapped_bytes_def)
  from Cons.IH [OF m(2) this] obtain m' where m': "store_string (PageTable_token pt) (p + 1) cs m = Some m'" "user_space base pt (s\<lparr>ram := m'\<rparr>) M"
    "views M m' (overlay (p + 1) (cs @ [0]) (overlay p [c] f))"
    by auto
  have "overlay (p + 1) (cs @ [0]) (overlay p [c] f) = overlay p ((c # cs) @ [0]) f"
    using overlay_append [of p "[c]" "cs @ [0]" f] by simp
  then show ?case
    using m(1) m' u by (simp del: One_nat_def)
qed

section \<open>The layout of the arguments\<close>

fun args_view :: "bytes list \<Rightarrow> nat \<Rightarrow> nat \<Rightarrow> (nat \<Rightarrow> byte) \<Rightarrow> nat \<Rightarrow> byte" where
  \<comment> \<open>the addresses of the strings from \<open>cell\<close> upwards, the strings from \<open>sp\<close> downwards\<close>
  "args_view [] cell sp f = f"
| "args_view (a # as) cell sp f = (let p = sp - (length a + 1) in
     args_view as (cell + 8) p (overlay p (a @ [0]) (overlay cell (le_bytes 8 p) f)))"

definition args_size :: "bytes list \<Rightarrow> nat" where
  "args_size as = sum_list (map (\<lambda>a. length a + 1) as)"

lemma args_size_simps [simp]: "args_size [] = 0" "args_size (a # as) = length a + 1 + args_size as"
  by (simp_all add: args_size_def)

lemma args_view_outside:
  assumes "args_size as \<le> sp" and "\<not> (cell \<le> x \<and> x < cell + 8 * length as)" and "\<not> (sp - args_size as \<le> x \<and> x < sp)"
  shows "args_view as cell sp f x = f x"
  using assms
proof (induction as arbitrary: cell sp f)
  case (Cons a as)
  let ?p = "sp - (length a + 1)"
  have "args_view as (cell + 8) ?p (overlay ?p (a @ [0]) (overlay cell (le_bytes 8 ?p) f)) x = overlay ?p (a @ [0]) (overlay cell (le_bytes 8 ?p) f) x"
    using Cons.prems by (intro Cons.IH) auto
  moreover have "overlay ?p (a @ [0]) (overlay cell (le_bytes 8 ?p) f) x = f x"
    using Cons.prems by (auto simp: overlay_def)
  ultimately show ?case
    by (simp add: Let_def)
qed simp

lemma args_view_entry:
  assumes "args_size as \<le> sp" and "sp \<le> cell" and "i < length as" and "p = sp - args_size (take (Suc i) as)"
  shows "map (args_view as cell sp f) [cell + 8 * i..<cell + 8 * i + 8] = le_bytes 8 p \<and>
    map (args_view as cell sp f) [p..<p + (length (as ! i) + 1)] = as ! i @ [0]"
  using assms
proof (induction as arbitrary: cell sp f i)
  case (Cons a as)
  let ?p = "sp - (length a + 1)" and ?g = "overlay (sp - (length a + 1)) (a @ [0]) (overlay cell (le_bytes 8 (sp - (length a + 1))) f)"
  have v: "args_view (a # as) cell sp f = args_view as (cell + 8) ?p ?g"
    by (simp add: Let_def)
  have b: "args_size as \<le> ?p" "?p \<le> cell + 8"
    using Cons.prems(1,2) by auto
  show ?case
  proof (cases i)
    case 0
    have out: "args_view as (cell + 8) ?p ?g x = ?g x" if "x < cell + 8" "?p \<le> x" for x
      using that by (intro args_view_outside [OF b(1)]) auto
    have p: "p = ?p"
      using Cons.prems(4) 0 by simp
    have "map (args_view as (cell + 8) ?p ?g) [cell..<cell + 8] = map ?g [cell..<cell + 8]"
      using Cons.prems(2) by (intro map_cong refl out) auto
    also have "\<dots> = map (overlay cell (le_bytes 8 ?p) f) [cell..<cell + 8]"
      using Cons.prems(1,2) by (intro map_cong refl) (auto simp: overlay_def)
    also have "\<dots> = le_bytes 8 ?p"
      by (rule map_overlay) simp
    finally have 1: "map (args_view as (cell + 8) ?p ?g) [cell..<cell + 8] = le_bytes 8 ?p" .
    have "map (args_view as (cell + 8) ?p ?g) [?p..<?p + (length a + 1)] = map ?g [?p..<?p + (length a + 1)]"
      using Cons.prems(1,2) by (intro map_cong refl out) auto
    also have "\<dots> = a @ [0]"
      by (rule map_overlay) simp
    finally show ?thesis
      using 1 0 p unfolding v by simp
  next
    case (Suc j)
    have "p = ?p - args_size (take (Suc j) as)"
      using Cons.prems(4) Suc by simp
    then show ?thesis
      using Cons.IH [OF b, of j ?g] Cons.prems(3) Suc unfolding v by (simp add: add.assoc add.commute)
  qed
qed simp

lemma slot_in_page:
  assumes "(a :: nat) mod 8 = 0"
  shows "a mod 4096 + 8 \<le> 4096"
proof -
  have "a mod 4096 mod 8 = 0"
    using assms by (simp add: mod_mod_cancel)
  then obtain k where "a mod 4096 = 8 * k"
    by (auto simp: mod_eq_0_iff_dvd elim: dvdE)
  then show ?thesis
    using mod_less_divisor [of 4096 a] by simp
qed

lemma push_args_spec:
  assumes "user_space base pt s M" and "args_size as \<le> sp" and "sp < 2 ^ 39" and "mapped_bytes M (sp - args_size as) sp"
    and "refs = map (\<lambda>i. pte_ppn (the (M ((cell + 8 * i) div 4096))) * 4096 + (cell + 8 * i) mod 4096) [0..<length as + n]"
    and "\<forall>i < length as. M ((cell + 8 * i) div 4096) \<noteq> None" and "cell mod 8 = 0" and "views M (ram s) f"
  shows "\<exists>m. push_args (PageTable_token pt) as refs sp (ram s) = Some (sp - args_size as, m) \<and> user_space base pt (s\<lparr>ram := m\<rparr>) M \<and>
    views M m (args_view as cell sp f)"
  using assms
proof (induction as arbitrary: s sp refs cell f)
  case Nil
  then show ?case
    by (auto intro!: exI [of _ "ram s"])
next
  case (Cons a as)
  let ?p = "sp - (length a + 1)"
  obtain b where b: "M (cell div 4096) = Some b"
    using Cons.prems(6) by force
  have sub: "usize_sub sp (length a + 1) = ?p"
    using Cons.prems(2,3) by (simp add: usize_sub_id)
  define refs' where "refs' = map (\<lambda>i. pte_ppn (the (M ((cell + 8 + 8 * i) div 4096))) * 4096 + (cell + 8 + 8 * i) mod 4096) [0..<length as + n]"
  have refs: "refs = (pte_ppn b * 4096 + cell mod 4096) # refs'"
    using b unfolding Cons.prems(5) refs'_def by (simp add: upt_conv_Cons map_Suc_upt [symmetric] comp_def add.assoc del: upt_Suc)
  obtain m1 where m1: "phys_store (pte_ppn b * 4096 + cell mod 4096) (le_bytes 8 ?p) (ram s) = Some m1" "user_space base pt (s\<lparr>ram := m1\<rparr>) M"
    "views M m1 (overlay cell (le_bytes 8 ?p) f)"
    using user_write [OF Cons.prems(1) b _ Cons.prems(8), of "le_bytes 8 ?p"] slot_in_page [OF Cons.prems(7)] by auto
  have "?p + length a < 2 ^ 39" "mapped_bytes M ?p (?p + length a + 1)"
    using Cons.prems(2-4) by (auto simp: mapped_bytes_def)
  then obtain m2 where m2: "store_string (PageTable_token pt) ?p a m1 = Some m2" "user_space base pt (s\<lparr>ram := m2\<rparr>) M"
    "views M m2 (overlay ?p (a @ [0]) (overlay cell (le_bytes 8 ?p) f))"
    using store_string_spec [OF m1(2) _ _, of ?p a] m1(3) by auto
  have "args_size as \<le> ?p" "?p < 2 ^ 39" "mapped_bytes M (?p - args_size as) ?p" "\<forall>i < length as. M ((cell + 8 + 8 * i) div 4096) \<noteq> None" "(cell + 8) mod 8 = 0"
    using Cons.prems(2-4,7) Cons.prems(6) [rule_format, of "Suc _"] by (auto simp: mapped_bytes_def add.assoc)
  then obtain m where m: "push_args (PageTable_token pt) as refs' ?p m2 = Some (?p - args_size as, m)" "user_space base pt (s\<lparr>ram := m\<rparr>) M"
    "views M m (args_view as (cell + 8) ?p (overlay ?p (a @ [0]) (overlay cell (le_bytes 8 ?p) f)))"
    using Cons.IH [OF m2(2), of ?p refs' "cell + 8"] m2(3) unfolding refs'_def by auto
  have "push_args (PageTable_token pt) (a # as) refs sp (ram s) = Some (sp - args_size (a # as), m)"
    using m1(1) m2(1) m(1) sub by (simp add: refs Let_def)
  then show ?case
    using m(2,3) by (auto simp: Let_def)
qed

lemma map_option_list_Some:
  assumes "\<And>x. x \<in> set xs \<Longrightarrow> f x = Some (g x)"
  shows "map_option_list f xs = Some (map g xs)"
  using assms by (induction xs) auto

section \<open>The layout of the arguments\<close>

text \<open>
  The arguments of a new program. With a user stack that is mapped far enough below its aligned top, \<open>exec\<close> puts below the top
  an array of one address for each argument and a null address, and below it the arguments themselves: each address is that of its argument,
  which ends with a zero byte; the stack pointer of the program is the next multiple of eight at or below the arguments, and
  no other byte of the program's memory changes.
\<close>

lemma exec_stack_layout:
  assumes us: "user_space base pt s M" and top: "tp mod 8 = 0" "tp \<le> 2 ^ 39" and sz: "size_all = 8 * (length args + 1) + args_size args" "size_all \<le> tp"
    and mapped: "mapped_bytes M (tp - size_all) tp" and argv: "argv = tp - 8 * (length args + 1)"
  shows "\<exists>sp m. exec_stack (PageTable_token pt) args tp (ram s) = Some (argv, sp, m) \<and> sp mod 8 = 0 \<and> sp \<le> tp - size_all \<and> tp - size_all < sp + 8 \<and>
    (\<forall>i < length args. let p = argv - args_size (take (Suc i) args) in
       map (user_byte M m) [argv + 8 * i..<argv + 8 * i + 8] = le_bytes 8 p \<and>
       map (user_byte M m) [p..<p + (length (args ! i) + 1)] = args ! i @ [0]) \<and>
    map (user_byte M m) [tp - 8..<tp] = le_bytes 8 0 \<and>
    (\<forall>x. M (x div 4096) \<noteq> None \<and> x \<notin> {tp - size_all..<tp} \<longrightarrow> user_byte M m x = user_byte M (ram s) x)"
proof -
  let ?n = "length args" and ?t = "PageTable_token pt" and ?f = "user_byte M (ram s)"
  let ?ref = "\<lambda>i. pte_ppn (the (M ((argv + 8 * i) div 4096))) * 4096 + (argv + 8 * i) mod 4096"
  have av: "8 * (?n + 1) \<le> tp" "argv + 8 * (?n + 1) = tp" "argv mod 8 = 0" "args_size args \<le> argv" "tp - size_all = argv - args_size args"
    using sz top(1) argv by (auto simp: mod_diff_eq mod_0_imp_dvd dvd_imp_mod_0)
  have sub: "usize_sub tp ((?n + 1) * 8) = argv"
    using usize_sub_id [of "(?n + 1) * 8" tp] av(1) top(2) argv by (simp add: mult.commute)
  have cell: "M ((argv + 8 * i) div 4096) \<noteq> None" "argv + 8 * i < 2 ^ 39" "(argv + 8 * i) mod 8 = 0" if "i \<le> ?n" for i
    using that mapped av top(2) by (auto simp: mapped_bytes_def)
  have tr: "translate_ref ?t (usize (argv + i * 8)) (ram s) = Some (?ref i)" if "i \<le> ?n" for i
    using translate_ref_user [OF us cell(2) [OF that]] cell [OF that] by (auto simp: usize_def mult.commute)
  have refs: "map_option_list (\<lambda>i. translate_ref ?t (usize (argv + i * 8)) (ram s)) [0..<?n + 1] = Some (map ?ref [0..<?n + 1])"
    by (rule map_option_list_Some) (use tr in auto)
  obtain b where b: "M ((argv + 8 * ?n) div 4096) = Some b"
    using cell(1) [of ?n] by auto
  have v0: "views M (ram s) ?f"
    by (simp add: views_def)
  obtain m0 where m0: "phys_store (?ref ?n) (le_bytes 8 0) (ram s) = Some m0" "user_space base pt (s\<lparr>ram := m0\<rparr>) M" "views M m0 (overlay (argv + 8 * ?n) (le_bytes 8 0) ?f)"
    using user_write [OF us b _ v0, of "le_bytes 8 0"] slot_in_page [OF cell(3) [of ?n]] b by auto
  have mb: "mapped_bytes M (argv - args_size args) argv" "argv < 2 ^ 39" "\<forall>i < ?n. M ((argv + 8 * i) div 4096) \<noteq> None"
    using mapped cell cell(2) [of 0] av by (auto simp: mapped_bytes_def)
  let ?g = "overlay (argv + 8 * ?n) (le_bytes 8 0) ?f" let ?v = "args_view args argv argv ?g"
  obtain m where m: "push_args ?t args (map ?ref [0..<?n + 1]) argv m0 = Some (argv - args_size args, m)" "views M m ?v"
    using push_args_spec [OF m0(2) av(4) mb(2,1) refl mb(3) av(3), where n = 1] m0(3) by auto
  let ?e = "argv - args_size args"
  have sp: "usize_sub ?e (?e mod 8) = ?e - ?e mod 8"
    using mb(2) by (intro usize_sub_id) auto
  have stack: "exec_stack ?t args tp (ram s) = Some (argv, ?e - ?e mod 8, m)"
    using sub refs m0(1) m(1) sp by (simp add: exec_stack_def Let_def nth_append)
  have same: "map (user_byte M m) [a..<c] = map ?v [a..<c]" if "?e \<le> a" "c \<le> tp" for a c
    using m(2) mapped that av(5) by (auto simp: views_def mapped_bytes_def)
  have le: "args_size (take k args) \<le> args_size args" for k
    unfolding args_size_def by (subst (2) append_take_drop_id [of k args, symmetric], subst map_append, simp)
  have ent: "let p = argv - args_size (take (Suc i) args) in
       map (user_byte M m) [argv + 8 * i..<argv + 8 * i + 8] = le_bytes 8 p \<and>
       map (user_byte M m) [p..<p + (length (args ! i) + 1)] = args ! i @ [0]" if i: "i < ?n" for i
  proof -
    let ?p = "argv - args_size (take (Suc i) args)"
    have "args_size (take (Suc i) args) = args_size (take i args) + (length (args ! i) + 1)"
      using i by (simp add: take_Suc_conv_app_nth args_size_def)
    then have "?e \<le> ?p" "?p + (length (args ! i) + 1) \<le> tp" "?e \<le> argv + 8 * i" "argv + 8 * i + 8 \<le> tp"
      using le [of "Suc i"] av(2,4) i by auto
    then show ?thesis
      using args_view_entry [OF av(4) order_refl i refl, of ?g] unfolding Let_def by (simp only: same)
  qed
  have null: "map (user_byte M m) [tp - 8..<tp] = le_bytes 8 0"
  proof -
    have t8: "tp - 8 = argv + 8 * ?n" "tp = argv + 8 * ?n + 8"
      using av(2) by auto
    have "map (user_byte M m) [tp - 8..<tp] = map ?v [tp - 8..<tp]"
      using t8 by (intro same) auto
    also have "\<dots> = map ?g [tp - 8..<tp]"
      using t8 by (intro map_cong refl args_view_outside [OF av(4)]) auto
    also have "\<dots> = le_bytes 8 0"
      unfolding t8(2) using map_overlay [of "le_bytes 8 0" 8 "argv + 8 * ?n" ?f] by simp
    finally show ?thesis .
  qed
  have rest: "user_byte M m x = ?f x" if "M (x div 4096) \<noteq> None" "x \<notin> {tp - size_all..<tp}" for x
  proof -
    have "?v x = ?g x"
      using that(2) av by (intro args_view_outside [OF av(4)]) auto
    moreover have "?g x = ?f x"
      using that(2) av by (auto simp: overlay_def)
    ultimately show ?thesis
      using m(2) that(1) by (simp add: views_def)
  qed
  have "(?e - ?e mod 8) mod 8 = 0" "?e < ?e - ?e mod 8 + 8"
    by (simp_all add: minus_mod_eq_mult_div)
  then show ?thesis
    using stack ent null rest av(5) diff_le_self [of ?e "?e mod 8"] by (intro exI [of _ "?e - ?e mod 8"] exI [of _ m]) simp
qed

lemma sample_user_space:
  obtains pt s b where "user_space 16 pt s [1 \<mapsto> b]"
proof -
  obtain p pt s where a: "pt_inv 16 pt s" "pt_map (ram s) pt = Map.empty" "p \<in> mm_used 16 s - set (pt_frames pt)"
    "ram s p = Some (replicate PAGE_SIZE 0)" "2 \<le> mm_free 16 s"
    by (rule sample_table)
  have p: "p < 2 ^ 44" "(1 :: nat) < 2 ^ 27" "(0x16 :: nat) < 2 ^ 8"
    using mm_used_bound [OF pt_invD(1) [OF a(1)]] a(3) by simp_all
  let ?b = "PageTableEntry_new p (0x16 OR PTE_V)"
  obtain pt' s' where m: "pt_grows 16 2 pt s pt' s'" "pt_map (ram s') pt' = [1 \<mapsto> ?b]"
    using PageTable_map_spec(2) [OF a(1) p(2,1,3) a(5)] a(2) by auto
  have "pte_ppn ?b = p"
    using pte_of_new(1) [OF p(1) or_V(1) [OF p(3)]] .
  then have "user_space 16 pt' s' [1 \<mapsto> ?b]"
    using m a(3,4) by (auto simp: user_space_def pt_grows_def backed_def pages_apart_def split: if_splits)
  then show thesis
    by (rule that)
qed

end
