(* ===== verification/SysSync.thy ===== *)
theory SysSync
  imports ExecArgs
begin

text \<open>
  The system calls on mutexes, semaphores, condition variables and sleeping (\<^verbatim>\<open>os/src/syscall/sync.rs\<close>), over the lists
  that each process keeps of them. A call runs up to the point where it gives up the processor; what it is waiting for then
  says how it goes on when the task runs again. The calls of all threads of all processes, the timer interrupt
  and the idle loop are the steps of one relation, whose invariant says that every mutex has at most one
  holder, that nobody waits for a free mutex, and that a blocked thread is in the queue of what it waits for.
\<close>

section \<open>Lists of the objects of a process\<close>

definition set_mutex :: "nat \<times> nat \<Rightarrow> DynMutex \<Rightarrow> kernel \<Rightarrow> kernel" where
  "set_mutex m M k = (case k_procs k (fst m) of
     Some P \<Rightarrow> set_proc (fst m) (P\<lparr>pcb_mutex_list := (pcb_mutex_list P)[snd m := Some M]\<rparr>) k | None \<Rightarrow> k)"

definition set_sem :: "nat \<times> nat \<Rightarrow> Semaphore \<Rightarrow> kernel \<Rightarrow> kernel" where
  "set_sem m M k = (case k_procs k (fst m) of
     Some P \<Rightarrow> set_proc (fst m) (P\<lparr>pcb_semaphore_list := (pcb_semaphore_list P)[snd m := Some M]\<rparr>) k | None \<Rightarrow> k)"

definition set_condvar :: "nat \<times> nat \<Rightarrow> Condvar \<Rightarrow> kernel \<Rightarrow> kernel" where
  "set_condvar m M k = (case k_procs k (fst m) of
     Some P \<Rightarrow> set_proc (fst m) (P\<lparr>pcb_condvar_list := (pcb_condvar_list P)[snd m := Some M]\<rparr>) k | None \<Rightarrow> k)"

definition mutex_at :: "nat \<times> nat \<Rightarrow> kernel \<Rightarrow> DynMutex option" where
  \<comment> \<open>a mutex is named by the pid and its index in the list of the process\<close>
  "mutex_at m k = do { P \<leftarrow> k_procs k (fst m); slot (pcb_mutex_list P) (snd m) }"

definition sem_at :: "nat \<times> nat \<Rightarrow> kernel \<Rightarrow> Semaphore option" where
  "sem_at m k = do { P \<leftarrow> k_procs k (fst m); slot (pcb_semaphore_list P) (snd m) }"

definition condvar_at :: "nat \<times> nat \<Rightarrow> kernel \<Rightarrow> Condvar option" where
  "condvar_at m k = do { P \<leftarrow> k_procs k (fst m); slot (pcb_condvar_list P) (snd m) }"

section \<open>The calls\<close>

datatype waiting = \<comment> \<open>what a call that has given up the processor waits for\<close>
    InMutex "nat \<times> nat" \<comment> \<open>returns with the lock held\<close>
  | Spinning "nat \<times> nat" \<comment> \<open>tries again\<close>
  | InSem "nat \<times> nat" \<comment> \<open>returns\<close>
  | InCond "nat \<times> nat" "nat \<times> nat" \<comment> \<open>calls \<open>lock\<close> of the mutex and returns\<close>
  | InTimer \<comment> \<open>returns\<close>

datatype call_result = Returns int | Suspends waiting

definition dyn_lock :: "nat \<times> nat \<Rightarrow> kernel \<Rightarrow> (call_result \<times> kernel) option" where
  "dyn_lock m k = do {
     M \<leftarrow> mutex_at m k;
     case M of
       DynSpin locked \<Rightarrow> do {
         (ret, locked, k) \<leftarrow> MutexSpin_lock_round locked k;
         Some (if ret then Returns 0 else Suspends (Spinning m), set_mutex m (DynSpin locked) k) }
     | DynBlocking b \<Rightarrow> do {
         (ret, b, k) \<leftarrow> MutexBlocking_lock b k;
         Some (if ret then Returns 0 else Suspends (InMutex m), set_mutex m (DynBlocking b) k) } }"

definition dyn_unlock :: "nat \<times> nat \<Rightarrow> kernel \<Rightarrow> kernel option" where
  "dyn_unlock m k = do {
     M \<leftarrow> mutex_at m k;
     case M of
       DynSpin locked \<Rightarrow> Some (set_mutex m (DynSpin (MutexSpin_unlock locked)) k)
     | DynBlocking b \<Rightarrow> do { (b, k) \<leftarrow> MutexBlocking_unlock b k; Some (set_mutex m (DynBlocking b) k) } }"

definition sys_sleep :: "nat \<Rightarrow> nat \<Rightarrow> TimerCondVar list \<Rightarrow> kernel \<Rightarrow> (call_result \<times> TimerCondVar list \<times> kernel) option" where
  \<comment> \<open>\<open>mtime\<close>: the counter \<open>get_time_ms\<close> reads\<close>
  "sys_sleep mtime ms timers k = do {
     let expire = usize (get_time_ms mtime + ms);
     t \<leftarrow> current_task k;
     let timers = add_timer expire t timers;
     k \<leftarrow> block_current_task k;
     Some (Suspends InTimer, timers, k) }"

definition sys_mutex_create :: "bool \<Rightarrow> kernel \<Rightarrow> (int \<times> kernel) option" where
  "sys_mutex_create blocking k = do {
     pid \<leftarrow> current_process k;
     P \<leftarrow> k_procs k pid;
     let mutex = (if blocking then DynBlocking MutexBlocking_new else DynSpin False);
     let (i, ms) = slot_new mutex (pcb_mutex_list P);
     Some (int i, set_proc pid (P\<lparr>pcb_mutex_list := ms\<rparr>) k) }"

definition sys_mutex_lock :: "nat \<Rightarrow> kernel \<Rightarrow> (call_result \<times> kernel) option" where
  "sys_mutex_lock mutex_id k = do {
     pid \<leftarrow> current_process k;
     case mutex_at (pid, mutex_id) k of
       Some _ \<Rightarrow> dyn_lock (pid, mutex_id) k
     | None \<Rightarrow> Some (Returns (- 1), k) }"

definition sys_mutex_unlock :: "nat \<Rightarrow> kernel \<Rightarrow> (int \<times> kernel) option" where
  "sys_mutex_unlock mutex_id k = do {
     pid \<leftarrow> current_process k;
     case mutex_at (pid, mutex_id) k of
       Some _ \<Rightarrow> do { k \<leftarrow> dyn_unlock (pid, mutex_id) k; Some (0, k) }
     | None \<Rightarrow> Some (- 1, k) }"

definition sys_semaphore_create :: "nat \<Rightarrow> kernel \<Rightarrow> (int \<times> kernel) option" where
  "sys_semaphore_create res_count k = do {
     pid \<leftarrow> current_process k;
     P \<leftarrow> k_procs k pid;
     let (i, ms) = slot_new (Semaphore_new res_count) (pcb_semaphore_list P);
     Some (int i, set_proc pid (P\<lparr>pcb_semaphore_list := ms\<rparr>) k) }"

definition sys_semaphore_up :: "nat \<Rightarrow> kernel \<Rightarrow> (int \<times> kernel) option" where
  "sys_semaphore_up sem_id k = do {
     pid \<leftarrow> current_process k;
     case sem_at (pid, sem_id) k of
       Some x \<Rightarrow> (let (x, k) = Semaphore_up x k in Some (0, set_sem (pid, sem_id) x k))
     | None \<Rightarrow> Some (- 1, k) }"

definition sys_semaphore_down :: "nat \<Rightarrow> kernel \<Rightarrow> (call_result \<times> kernel) option" where
  "sys_semaphore_down sem_id k = do {
     pid \<leftarrow> current_process k;
     case sem_at (pid, sem_id) k of
       Some x \<Rightarrow> do {
         (ret, x, k) \<leftarrow> Semaphore_down x k;
         Some (if ret then Returns 0 else Suspends (InSem (pid, sem_id)), set_sem (pid, sem_id) x k) }
     | None \<Rightarrow> Some (Returns (- 1), k) }"

definition sys_condvar_create :: "kernel \<Rightarrow> (int \<times> kernel) option" where
  "sys_condvar_create k = do {
     pid \<leftarrow> current_process k;
     P \<leftarrow> k_procs k pid;
     let (i, ms) = slot_new Condvar_new (pcb_condvar_list P);
     Some (int i, set_proc pid (P\<lparr>pcb_condvar_list := ms\<rparr>) k) }"

definition sys_condvar_signal :: "nat \<Rightarrow> kernel \<Rightarrow> (int \<times> kernel) option" where
  "sys_condvar_signal condvar_id k = do {
     pid \<leftarrow> current_process k;
     case condvar_at (pid, condvar_id) k of
       Some x \<Rightarrow> (let (x, k) = Condvar_signal x k in Some (0, set_condvar (pid, condvar_id) x k))
     | None \<Rightarrow> Some (- 1, k) }"

definition sys_condvar_wait :: "nat \<Rightarrow> nat \<Rightarrow> kernel \<Rightarrow> (call_result \<times> kernel) option" where
  "sys_condvar_wait condvar_id mutex_id k = do {
     pid \<leftarrow> current_process k;
     case mutex_at (pid, mutex_id) k of
       None \<Rightarrow> Some (Returns (- 1), k)
     | Some _ \<Rightarrow> (case condvar_at (pid, condvar_id) k of
         None \<Rightarrow> Some (Returns (- 1), k)
       | Some x \<Rightarrow> do {
           k \<leftarrow> dyn_unlock (pid, mutex_id) k;
           (x, k) \<leftarrow> wait_no_sched x k;
           Some (Suspends (InCond (pid, condvar_id) (pid, mutex_id)), set_condvar (pid, condvar_id) x k) }) }"

definition resume :: "waiting \<Rightarrow> kernel \<Rightarrow> (call_result \<times> kernel) option" where
  \<comment> \<open>what is left of the call, once the task runs again\<close>
  "resume w k = (case w of InCond _ m \<Rightarrow> dyn_lock m k | Spinning m \<Rightarrow> dyn_lock m k | _ \<Rightarrow> Some (Returns 0, k))"

section \<open>Queues\<close>

datatype place = AtMutex "nat \<times> nat" | AtSem "nat \<times> nat" | AtCond "nat \<times> nat" | AtTimer

fun place_of :: "waiting \<Rightarrow> place option" where
  "place_of (InMutex m) = Some (AtMutex m)"
| "place_of (Spinning m) = None"
| "place_of (InSem x) = Some (AtSem x)"
| "place_of (InCond c m) = Some (AtCond c)"
| "place_of InTimer = Some AtTimer"

definition queues :: "TimerCondVar list \<Rightarrow> kernel \<Rightarrow> place \<Rightarrow> nat list" where
  "queues timers k p = (case p of
     AtMutex m \<Rightarrow> (case mutex_at m k of Some (DynBlocking b) \<Rightarrow> mb_queue b | _ \<Rightarrow> [])
   | AtSem x \<Rightarrow> (case sem_at x k of Some y \<Rightarrow> sem_queue y | None \<Rightarrow> [])
   | AtCond c \<Rightarrow> (case condvar_at c k of Some y \<Rightarrow> cv_queue y | None \<Rightarrow> [])
   | AtTimer \<Rightarrow> map timer_task timers)"

definition mutex_locked :: "kernel \<Rightarrow> nat \<times> nat \<Rightarrow> bool" where
  "mutex_locked k m = (case mutex_at m k of Some (DynBlocking b) \<Rightarrow> mb_locked b | Some (DynSpin l) \<Rightarrow> l | None \<Rightarrow> False)"

definition wait_inv :: "(place \<Rightarrow> nat list) \<Rightarrow> (nat \<rightharpoonup> TaskStatus) \<Rightarrow> (nat \<rightharpoonup> waiting) \<Rightarrow> bool" where
  "wait_inv q st pend \<longleftrightarrow>
     (\<forall>p. distinct (q p) \<and> (\<forall>t \<in> set (q p). \<exists>w. pend t = Some w \<and> place_of w = Some p)) \<and>
     (\<forall>t w. pend t = Some w \<longrightarrow> st t = Some (if \<exists>p. place_of w = Some p \<and> t \<in> set (q p) then Blocked else Ready))"

definition owners :: "(place \<Rightarrow> nat list) \<Rightarrow> (nat \<rightharpoonup> waiting) \<Rightarrow> (nat \<times> nat \<Rightarrow> nat set) \<Rightarrow> nat \<times> nat \<Rightarrow> nat set" where
  \<comment> \<open>those between \<open>lock\<close> and \<open>unlock\<close>, and the one the lock has been handed to\<close>
  "owners q pend inside m = inside m \<union> {t. pend t = Some (InMutex m) \<and> t \<notin> set (q (AtMutex m))}"

definition own_inv :: "(nat \<times> nat \<Rightarrow> bool) \<Rightarrow> (place \<Rightarrow> nat list) \<Rightarrow> (nat \<rightharpoonup> waiting) \<Rightarrow> (nat \<times> nat \<Rightarrow> nat set) \<Rightarrow> bool" where
  "own_inv lk q pend inside \<longleftrightarrow>
     (\<forall>m. if lk m then \<exists>h. owners q pend inside m = {h} else owners q pend inside m = {} \<and> q (AtMutex m) = [])"

lemma wait_invD:
  assumes "wait_inv q st pend"
  shows "distinct (q p)" and "t \<in> set (q p) \<Longrightarrow> st t = Some Blocked \<and> (\<exists>w. pend t = Some w \<and> place_of w = Some p)"
    and "pend t = Some w \<Longrightarrow> st t = Some Blocked \<or> st t = Some Ready"
    and "t \<in> set (q p) \<Longrightarrow> t \<in> set (q p') \<Longrightarrow> p = p'"
    and "pend t = Some w \<Longrightarrow> st t = Some Blocked \<Longrightarrow> \<exists>p. place_of w = Some p \<and> t \<in> set (q p)"
proof -
  have "st t = Some (if \<exists>p. place_of w = Some p \<and> t \<in> set (q p) then Blocked else Ready)" if "pend t = Some w"
    using assms that unfolding wait_inv_def by blast
  then show "pend t = Some w \<Longrightarrow> st t = Some Blocked \<Longrightarrow> \<exists>p. place_of w = Some p \<and> t \<in> set (q p)"
    by (simp split: if_splits)
  show "distinct (q p)" "pend t = Some w \<Longrightarrow> st t = Some Blocked \<or> st t = Some Ready"
    using assms by (auto simp: wait_inv_def)
  show "t \<in> set (q p) \<Longrightarrow> st t = Some Blocked \<and> (\<exists>w. pend t = Some w \<and> place_of w = Some p)"
    using assms unfolding wait_inv_def by fastforce
  show "t \<in> set (q p) \<Longrightarrow> t \<in> set (q p') \<Longrightarrow> p = p'"
    using assms unfolding wait_inv_def by (metis option.inject)
qed

lemma wait_inv_free:
  assumes "wait_inv q st pend" and "st t \<noteq> Some Blocked"
  shows "t \<notin> set (q p)" and "st t \<noteq> Some Ready \<Longrightarrow> pend t = None"
proof -
  show "t \<notin> set (q p)"
    using wait_invD(2) [OF assms(1)] assms(2) by blast
  show "st t \<noteq> Some Ready \<Longrightarrow> pend t = None"
    using wait_invD(3) [OF assms(1), of t] assms(2) by (cases "pend t") auto
qed

lemma wait_inv_enqueue:
  assumes "wait_inv q st pend" and "st t = Some Running" and "place_of w = Some p" and "distinct xs" and "set xs = insert t (set (q p))"
  shows "wait_inv (q(p := xs)) (st(t \<mapsto> Blocked)) (pend(t \<mapsto> w))"
  using assms wait_inv_free [OF assms(1), of t] unfolding wait_inv_def by (auto split: if_splits)

lemma wait_inv_block:
  assumes "wait_inv q st pend" and "st t = Some Running" and "place_of w = Some p"
  shows "wait_inv (q(p := q p @ [t])) (st(t \<mapsto> Blocked)) (pend(t \<mapsto> w))"
  using wait_inv_enqueue [OF assms, of "q p @ [t]"] wait_inv_free(1) [OF assms(1), of t] wait_invD(1) [OF assms(1)] assms(2) by simp

lemma wait_inv_spin:
  assumes "wait_inv q st pend" and "st t = Some Running" and "place_of w = None"
  shows "wait_inv q (st(t \<mapsto> Ready)) (pend(t \<mapsto> w))"
  using assms wait_inv_free [OF assms(1), of t] unfolding wait_inv_def by (auto split: if_splits)

lemma wait_inv_wake:
  assumes "wait_inv q st pend" and "t \<in> set (q p)" and "distinct xs" and "set xs = set (q p) - {t}"
  shows "wait_inv (q(p := xs)) (st(t \<mapsto> Ready)) pend"
proof -
  have o: "t \<notin> set (q p')" if "p' \<noteq> p" for p'
    using wait_invD(4) [OF assms(1,2)] that by blast
  show ?thesis
    using assms o unfolding wait_inv_def by (auto split: if_splits)
qed

lemma wait_inv_run:
  assumes "wait_inv q st pend" and "st t = Some Ready"
  shows "wait_inv q (st(t \<mapsto> Running)) (pend(t := None))"
  using assms wait_inv_free(1) [OF assms(1), of t] unfolding wait_inv_def by auto

lemma wait_inv_env:
  assumes "wait_inv q st pend" and "\<And>t. pend t \<noteq> None \<Longrightarrow> st' t = st t"
  shows "wait_inv q st' pend"
  using assms unfolding wait_inv_def by (metis option.distinct(1))

lemma own_invD:
  assumes "own_inv lk q pend inside"
  shows "lk m \<Longrightarrow> \<exists>h. owners q pend inside m = {h}" and "\<not> lk m \<Longrightarrow> owners q pend inside m = {} \<and> q (AtMutex m) = []"
    and "t \<in> inside m \<Longrightarrow> lk m \<and> owners q pend inside m = {t}"
  using assms unfolding own_inv_def owners_def by (metis, metis, metis (no_types, lifting) UnI1 empty_iff singletonD)

lemma own_inv_cong:
  assumes "own_inv lk q pend inside" and "\<And>m. lk' m = lk m" and "\<And>m. owners q' pend' inside' m = owners q pend inside m"
    and "\<And>m. q (AtMutex m) = [] \<Longrightarrow> \<not> lk m \<Longrightarrow> q' (AtMutex m) = []"
  shows "own_inv lk' q' pend' inside'"
  using assms unfolding own_inv_def by auto

lemma own_inv_at:
  assumes "own_inv lk q pend inside"
    and "\<And>m'. m' \<noteq> m \<Longrightarrow> lk' m' = lk m' \<and> owners q' pend' inside' m' = owners q pend inside m' \<and> q' (AtMutex m') = q (AtMutex m')"
    and "if lk' m then \<exists>h. owners q' pend' inside' m = {h} else owners q' pend' inside' m = {} \<and> q' (AtMutex m) = []"
  shows "own_inv lk' q' pend' inside'"
  unfolding own_inv_def
proof
  fix m'
  show "if lk' m' then \<exists>h. owners q' pend' inside' m' = {h} else owners q' pend' inside' m' = {} \<and> q' (AtMutex m') = []"
    using own_invD(1,2) [OF assms(1), of m'] assms(2) [of m'] assms(3) by (cases "m' = m"; cases "lk m'") simp_all
qed

lemma own_inv_acquire:
  assumes "own_inv lk q pend inside" and "\<not> lk m"
  shows "own_inv (lk(m := True)) q pend (inside(m := insert t (inside m)))"
  by (rule own_inv_at [OF assms(1), where m = m]) (use own_invD(2) [OF assms] in \<open>auto simp: owners_def\<close>)

lemma own_inv_enqueue:
  assumes "own_inv lk q pend inside" and "lk m" and "pend t = None"
  shows "own_inv lk (q(AtMutex m := q (AtMutex m) @ [t])) (pend(t \<mapsto> InMutex m)) inside"
proof (rule own_inv_cong [OF assms(1)])
  show "owners (q(AtMutex m := q (AtMutex m) @ [t])) (pend(t \<mapsto> InMutex m)) inside m' = owners q pend inside m'" for m'
    using assms(3) by (auto simp: owners_def)
qed (use assms(2) in auto)

lemma own_inv_wait:
  assumes "own_inv lk q pend inside" and "pend t = None" and "\<And>m. w \<noteq> InMutex m" and "\<And>m. q' (AtMutex m) = q (AtMutex m)"
  shows "own_inv lk q' (pend(t \<mapsto> w)) inside"
proof (rule own_inv_cong [OF assms(1)])
  show "owners q' (pend(t \<mapsto> w)) inside m = owners q pend inside m" for m
    using assms(2-4) by (auto simp: owners_def)
qed (use assms(4) in auto)

lemma own_inv_queues:
  assumes "own_inv lk q pend inside" and "\<And>m. q' (AtMutex m) = q (AtMutex m)"
  shows "own_inv lk q' pend inside"
  by (rule own_inv_cong [OF assms(1)]) (auto simp: owners_def assms(2))

lemma own_inv_sole:
  assumes "own_inv lk q pend inside" and "t \<in> inside m" and "pend t = None"
  shows "lk m" and "inside m = {t}" and "pend x = Some (InMutex m) \<Longrightarrow> x \<in> set (q (AtMutex m))"
proof -
  note o = own_invD(3) [OF assms(1,2)]
  then show "lk m" "inside m = {t}"
    using assms(2) by (auto simp: owners_def)
  assume x: "pend x = Some (InMutex m)"
  then have "x \<noteq> t"
    using assms(3) by auto
  then have "x \<notin> owners q pend inside m"
    using o by simp
  then show "x \<in> set (q (AtMutex m))"
    using x by (simp add: owners_def)
qed

lemma own_inv_release:
  assumes "own_inv lk q pend inside" and "t \<in> inside m" and "pend t = None" and "q (AtMutex m) = []"
  shows "own_inv (lk(m := False)) q pend (inside(m := inside m - {t}))"
  by (rule own_inv_at [OF assms(1), where m = m])
    (use own_inv_sole [OF assms(1-3)] assms(4) in \<open>auto simp: owners_def\<close>)

lemma own_inv_hand_over:
  assumes "own_inv lk q pend inside" and "t \<in> inside m" and "pend t = None" and "q (AtMutex m) = u # us"
    and "pend u = Some (InMutex m)" and "u \<notin> set us"
  shows "own_inv lk (q(AtMutex m := us)) pend (inside(m := inside m - {t}))"
proof (rule own_inv_at [OF assms(1), where m = m])
  note o = own_inv_sole [OF assms(1-3)]
  have "owners (q(AtMutex m := us)) pend (inside(m := inside m - {t})) m = {u}"
    using o(2) o(3) assms(4-6) by (auto simp: owners_def)
  then show "if lk m then \<exists>h. owners (q(AtMutex m := us)) pend (inside(m := inside m - {t})) m = {h}
      else owners (q(AtMutex m := us)) pend (inside(m := inside m - {t})) m = {} \<and> (q(AtMutex m := us)) (AtMutex m) = []"
    using o(1) by simp
qed (auto simp: owners_def)

lemma own_inv_enter:
  assumes "own_inv lk q pend inside" and "pend t = Some (InMutex m)" and "t \<notin> set (q (AtMutex m))"
  shows "own_inv lk q (pend(t := None)) (inside(m := insert t (inside m)))"
  by (rule own_inv_cong [OF assms(1)]) (use assms(2,3) in \<open>auto simp: owners_def\<close>)

lemma own_inv_return:
  assumes "own_inv lk q pend inside" and "\<And>m. pend t \<noteq> Some (InMutex m)"
  shows "own_inv lk q (pend(t := None)) inside"
  by (rule own_inv_cong [OF assms(1)]) (use assms(2) in \<open>auto simp: owners_def\<close>)

section \<open>Updates of the lists\<close>

lemma mutex_at_set [simp]:
  "mutex_at m k = Some M0 \<Longrightarrow> mutex_at m' (set_mutex m M k) = (if m' = m then Some M else mutex_at m' k)"
  "mutex_at m' (set_sem m X k) = mutex_at m' k" "mutex_at m' (set_condvar m C k) = mutex_at m' k"
  by (auto simp: mutex_at_def set_mutex_def set_sem_def set_condvar_def set_proc_def slot_def prod_eq_iff
      split: option.splits if_splits)

lemma sem_at_set [simp]:
  "sem_at m k = Some M0 \<Longrightarrow> sem_at m' (set_sem m M k) = (if m' = m then Some M else sem_at m' k)"
  "sem_at m' (set_mutex m X k) = sem_at m' k" "sem_at m' (set_condvar m C k) = sem_at m' k"
  by (auto simp: sem_at_def set_mutex_def set_sem_def set_condvar_def set_proc_def slot_def prod_eq_iff
      split: option.splits if_splits)

lemma condvar_at_set [simp]:
  "condvar_at m k = Some M0 \<Longrightarrow> condvar_at m' (set_condvar m M k) = (if m' = m then Some M else condvar_at m' k)"
  "condvar_at m' (set_mutex m X k) = condvar_at m' k" "condvar_at m' (set_sem m C k) = condvar_at m' k"
  by (auto simp: condvar_at_def set_mutex_def set_sem_def set_condvar_def set_proc_def slot_def prod_eq_iff
      split: option.splits if_splits)

lemma sched_set [simp]:
  "sc_status (set_mutex m M k) = sc_status k" "sc_ready (set_mutex m M k) = sc_ready k" "sc_current (set_mutex m M k) = sc_current k"
  "sc_status (set_sem m X k) = sc_status k" "sc_ready (set_sem m X k) = sc_ready k" "sc_current (set_sem m X k) = sc_current k"
  "sc_status (set_condvar m C k) = sc_status k" "sc_ready (set_condvar m C k) = sc_ready k" "sc_current (set_condvar m C k) = sc_current k"
  by (simp_all add: set_mutex_def set_sem_def set_condvar_def set_proc_def split: option.split)

lemma objects_cong:
  assumes "k_procs k' = k_procs k"
  shows "mutex_at m k' = mutex_at m k" and "sem_at m k' = sem_at m k" and "condvar_at m k' = condvar_at m k"
    and "queues ts k' = queues ts k" and "mutex_locked k' = mutex_locked k"
proof -
  show "mutex_at m k' = mutex_at m k" "sem_at m k' = sem_at m k" "condvar_at m k' = condvar_at m k" for m
    using assms by (simp_all add: mutex_at_def sem_at_def condvar_at_def)
  then show "queues ts k' = queues ts k" "mutex_locked k' = mutex_locked k"
    by (simp_all add: queues_def mutex_locked_def fun_eq_iff split: place.split)
qed

lemma queues_set:
  "mutex_at m k = Some M0 \<Longrightarrow> queues ts (set_mutex m M k) =
    (queues ts k)(AtMutex m := (case M of DynBlocking b \<Rightarrow> mb_queue b | DynSpin _ \<Rightarrow> []))"
  "sem_at m k = Some X0 \<Longrightarrow> queues ts (set_sem m X k) = (queues ts k)(AtSem m := sem_queue X)"
  "condvar_at m k = Some C0 \<Longrightarrow> queues ts (set_condvar m C k) = (queues ts k)(AtCond m := cv_queue C)"
  by (auto simp: queues_def fun_eq_iff split: place.splits)

lemma mutex_locked_set:
  "mutex_at m k = Some M0 \<Longrightarrow> mutex_locked (set_mutex m M k) =
    (mutex_locked k)(m := (case M of DynBlocking b \<Rightarrow> mb_locked b | DynSpin l \<Rightarrow> l))"
  "mutex_locked (set_sem m X k) = mutex_locked k" "mutex_locked (set_condvar m C k) = mutex_locked k"
  by (auto simp: mutex_locked_def fun_eq_iff)

lemma sched_procs [simp]:
  "k_procs (wakeup_task t k) = k_procs k" "suspend_current k = Some k' \<Longrightarrow> k_procs k' = k_procs k"
  "block_current_task k = Some k' \<Longrightarrow> k_procs k' = k_procs k" "k_procs (run_tasks_round k) = k_procs k"
  by (auto simp: sched_defs split: list.splits)

section \<open>All calls together\<close>

record sync_sys =
  su_kernel :: kernel
  su_timers :: "TimerCondVar list"
  su_inside :: "nat \<times> nat \<Rightarrow> nat set" \<comment> \<open>tasks that hold the mutex: \<open>lock\<close> has returned, \<open>unlock\<close> has not been called\<close>
  su_waiting :: "nat \<rightharpoonup> waiting" \<comment> \<open>calls that have given up the processor and not returned\<close>

fun lock_of :: "waiting \<Rightarrow> (nat \<times> nat) option" where
  "lock_of (InMutex m) = Some m"
| "lock_of (Spinning m) = Some m"
| "lock_of (InCond c m) = Some m"
| "lock_of _ = None"

definition note_lock :: "nat \<times> nat \<Rightarrow> nat \<Rightarrow> call_result \<Rightarrow> sync_sys \<Rightarrow> sync_sys" where
  "note_lock m t r s = (if r = Returns 0 then s\<lparr>su_inside := (su_inside s)(m := insert t (su_inside s m))\<rparr> else s)"

definition note_unlock :: "nat \<times> nat \<Rightarrow> nat \<Rightarrow> sync_sys \<Rightarrow> sync_sys" where
  "note_unlock m t s = s\<lparr>su_inside := (su_inside s)(m := su_inside s m - {t})\<rparr>"

definition note_wait :: "nat \<Rightarrow> call_result \<Rightarrow> sync_sys \<Rightarrow> sync_sys" where
  "note_wait t r s = (case r of Returns _ \<Rightarrow> s | Suspends w \<Rightarrow> s\<lparr>su_waiting := (su_waiting s)(t \<mapsto> w)\<rparr>)"

inductive sync_step :: "sync_sys \<Rightarrow> sync_sys \<Rightarrow> bool" where
  lock: "sc_current (su_kernel s) = Some t \<Longrightarrow> current_process (su_kernel s) = Some pid \<Longrightarrow>
    sys_mutex_lock mid (su_kernel s) = Some (r, k') \<Longrightarrow>
    sync_step s (note_wait t r (note_lock (pid, mid) t r (s\<lparr>su_kernel := k'\<rparr>)))"
| unlock: "sc_current (su_kernel s) = Some t \<Longrightarrow> current_process (su_kernel s) = Some pid \<Longrightarrow> t \<in> su_inside s (pid, mid) \<Longrightarrow>
    sys_mutex_unlock mid (su_kernel s) = Some (r, k') \<Longrightarrow>
    sync_step s (note_unlock (pid, mid) t (s\<lparr>su_kernel := k'\<rparr>))"
| cond_wait: "sc_current (su_kernel s) = Some t \<Longrightarrow> current_process (su_kernel s) = Some pid \<Longrightarrow> t \<in> su_inside s (pid, mid) \<Longrightarrow>
    sys_condvar_wait cid mid (su_kernel s) = Some (Suspends w, k') \<Longrightarrow>
    sync_step s (note_wait t (Suspends w) (note_unlock (pid, mid) t (s\<lparr>su_kernel := k'\<rparr>)))"
| cond_wait_fails: "sys_condvar_wait cid mid (su_kernel s) = Some (Returns r, k') \<Longrightarrow> sync_step s (s\<lparr>su_kernel := k'\<rparr>)"
| cond_signal: "sys_condvar_signal cid (su_kernel s) = Some (r, k') \<Longrightarrow> sync_step s (s\<lparr>su_kernel := k'\<rparr>)"
| up: "sys_semaphore_up sid (su_kernel s) = Some (r, k') \<Longrightarrow> sync_step s (s\<lparr>su_kernel := k'\<rparr>)"
| down: "sc_current (su_kernel s) = Some t \<Longrightarrow> sys_semaphore_down sid (su_kernel s) = Some (r, k') \<Longrightarrow>
    sync_step s (note_wait t r (s\<lparr>su_kernel := k'\<rparr>))"
| sleep: "sc_current (su_kernel s) = Some t \<Longrightarrow> sys_sleep mtime ms (su_timers s) (su_kernel s) = Some (r, timers', k') \<Longrightarrow>
    sync_step s (note_wait t r (s\<lparr>su_kernel := k', su_timers := timers'\<rparr>))"
| tick: "check_timer mtime (su_timers s) (su_kernel s) = (timers', k') \<Longrightarrow> sync_step s (s\<lparr>su_kernel := k', su_timers := timers'\<rparr>)"
| create_mutex: "sys_mutex_create blocking (su_kernel s) = Some (r, k') \<Longrightarrow> sync_step s (s\<lparr>su_kernel := k'\<rparr>)"
| create_sem: "sys_semaphore_create res_count (su_kernel s) = Some (r, k') \<Longrightarrow> sync_step s (s\<lparr>su_kernel := k'\<rparr>)"
| create_condvar: "sys_condvar_create (su_kernel s) = Some (r, k') \<Longrightarrow> sync_step s (s\<lparr>su_kernel := k'\<rparr>)"
| pick: "sc_current (su_kernel s) = None \<Longrightarrow> sc_ready (su_kernel s) = t # ts \<Longrightarrow> su_waiting s t = None \<Longrightarrow>
    sync_step s (s\<lparr>su_kernel := run_tasks_round (su_kernel s)\<rparr>)"
| pick_waiting: "sc_current (su_kernel s) = None \<Longrightarrow> sc_ready (su_kernel s) = t # ts \<Longrightarrow> su_waiting s t = Some w \<Longrightarrow>
    resume w (run_tasks_round (su_kernel s)) = Some (r, k') \<Longrightarrow>
    s' = s\<lparr>su_kernel := k', su_waiting := (su_waiting s)(t := None)\<rparr> \<Longrightarrow>
    sync_step s (note_wait t r (case lock_of w of Some m \<Rightarrow> note_lock m t r s' | None \<Rightarrow> s'))"
| env: "sched_env (dom (su_waiting s)) (su_kernel s) k' \<Longrightarrow> sync_step s (s\<lparr>su_kernel := k'\<rparr>)"

definition sync_inv :: "sync_sys \<Rightarrow> bool" where
  "sync_inv s \<longleftrightarrow> sched_inv (su_kernel s) \<and>
     wait_inv (queues (su_timers s) (su_kernel s)) (sc_status (su_kernel s)) (su_waiting s) \<and>
     own_inv (mutex_locked (su_kernel s)) (queues (su_timers s) (su_kernel s)) (su_waiting s) (su_inside s)"

lemma sync_invD:
  assumes "sync_inv s"
  shows "sched_inv (su_kernel s)" and "wait_inv (queues (su_timers s) (su_kernel s)) (sc_status (su_kernel s)) (su_waiting s)"
    and "own_inv (mutex_locked (su_kernel s)) (queues (su_timers s) (su_kernel s)) (su_waiting s) (su_inside s)"
    and "sc_current (su_kernel s) = Some t \<Longrightarrow> sc_status (su_kernel s) t = Some Running \<and> su_waiting s t = None"
proof -
  show *: "sched_inv (su_kernel s)" "wait_inv (queues (su_timers s) (su_kernel s)) (sc_status (su_kernel s)) (su_waiting s)"
    "own_inv (mutex_locked (su_kernel s)) (queues (su_timers s) (su_kernel s)) (su_waiting s) (su_inside s)"
    using assms by (simp_all add: sync_inv_def)
  show "sc_current (su_kernel s) = Some t \<Longrightarrow> sc_status (su_kernel s) t = Some Running \<and> su_waiting s t = None"
    using sched_inv_status(2) [OF *(1)] wait_inv_free(2) [OF *(2), of t] by simp
qed

lemmas note_defs = note_lock_def note_unlock_def note_wait_def

lemma block_status: "sc_current k = Some t \<Longrightarrow> block_current_task k = Some k' \<Longrightarrow> sc_status k' = (sc_status k)(t \<mapsto> Blocked)"
  by (auto simp: sched_defs)

lemma suspend_status: "sc_current k = Some t \<Longrightarrow> suspend_current k = Some k' \<Longrightarrow> sc_status k' = (sc_status k)(t \<mapsto> Ready)"
  by (auto simp: sched_defs)

lemma wakeup_status: "sc_status (wakeup_task t k) = (sc_status k)(t \<mapsto> Ready)"
  by (simp add: sched_defs)

lemma sched_inv_set [simp]:
  "sched_inv (set_mutex m M k) = sched_inv k" "sched_inv (set_sem m X k) = sched_inv k" "sched_inv (set_condvar m C k) = sched_inv k"
  by (simp_all add: sched_inv_def)

lemma dyn_lock_inv:
  assumes inv: "sync_inv s" and cur: "sc_current (su_kernel s) = Some t" and l: "dyn_lock m (su_kernel s) = Some (r, k')"
  shows "sync_inv (note_wait t r (note_lock m t r (s\<lparr>su_kernel := k'\<rparr>)))"
proof -
  note D = sync_invD(1-3) [OF inv] and T = sync_invD(4) [OF inv cur]
  let ?k = "su_kernel s"
  obtain M where M: "mutex_at m ?k = Some M"
    using l by (auto simp: dyn_lock_def split: Option.bind_splits)
  show ?thesis
  proof (cases "mutex_locked ?k m")
    case False
    then have k': "r = Returns 0" "\<exists>M'. k' = set_mutex m M' ?k \<and> queues (su_timers s) k' = queues (su_timers s) ?k \<and> mutex_locked k' = (mutex_locked ?k)(m := True)"
      using l M by (auto simp: dyn_lock_def mutex_locked_def [of _ m] MutexSpin_lock_round_def MutexBlocking_lock_def queues_set(1) [OF M] mutex_locked_set(1) [OF M]
          queues_def fun_eq_iff split: DynMutex.splits place.splits)
    then show ?thesis
      using D own_inv_acquire [OF D(3) False, of t] by (auto simp: sync_inv_def note_defs)
  next
    case True
    show ?thesis
    proof (cases M)
      case (DynSpin l)
      then obtain k1 where k1: "suspend_current ?k = Some k1" "r = Suspends (Spinning m)" "k' = set_mutex m (DynSpin True) k1"
        using l M True by (auto simp: dyn_lock_def mutex_locked_def MutexSpin_lock_round_def split: Option.bind_splits)
      have M1: "mutex_at m k1 = Some M"
        using M k1(1) by (simp add: mutex_at_def)
      have "queues (su_timers s) k' = queues (su_timers s) ?k" "mutex_locked k' = mutex_locked ?k"
        using True M DynSpin k1(3) objects_cong(4,5) [of k1 ?k] k1(1) by (auto simp: queues_set(1) [OF M1] mutex_locked_set(1) [OF M1] fun_eq_iff queues_def)
      then show ?thesis
        using D T k1 suspend_current_inv [OF D(1) k1(1)] wait_inv_spin [OF D(2), of t "Spinning m"] own_inv_wait [OF D(3), of t "Spinning m"]
          suspend_status [OF cur k1(1)] by (simp add: sync_inv_def note_defs)
    next
      case (DynBlocking b)
      then obtain k1 where k1: "block_current_task ?k = Some k1" "r = Suspends (InMutex m)" "k' = set_mutex m (DynBlocking (b\<lparr>mb_queue := mb_queue b @ [t]\<rparr>)) k1" "mb_locked b"
        using l M True cur by (auto simp: dyn_lock_def mutex_locked_def MutexBlocking_lock_def current_task_def split: Option.bind_splits)
      have M1: "mutex_at m k1 = Some M"
        using M k1(1) by (simp add: mutex_at_def)
      have q: "queues (su_timers s) ?k (AtMutex m) = mb_queue b"
        using M DynBlocking by (simp add: queues_def)
      have "queues (su_timers s) k' = (queues (su_timers s) ?k)(AtMutex m := queues (su_timers s) ?k (AtMutex m) @ [t])" "mutex_locked k' = mutex_locked ?k"
        using True M DynBlocking k1(3,4) objects_cong(4,5) [of k1 ?k] k1(1) q by (auto simp: queues_set(1) [OF M1] mutex_locked_set(1) [OF M1] fun_eq_iff)
      then show ?thesis
        using D T k1 block_current_inv [OF D(1) k1(1)] wait_inv_block [OF D(2), of t "InMutex m"] own_inv_enqueue [OF D(3) True, of t]
          block_status [OF cur k1(1)] by (simp add: sync_inv_def note_defs)
    qed
  qed
qed

lemma dyn_unlock_inv:
  assumes inv: "sync_inv s" and cur: "sc_current (su_kernel s) = Some t" and i: "t \<in> su_inside s m" and u: "dyn_unlock m (su_kernel s) = Some k'"
  shows "sync_inv (note_unlock m t (s\<lparr>su_kernel := k'\<rparr>))" and "sc_current k' = Some t" and "condvar_at c k' = condvar_at c (su_kernel s)"
proof -
  note D = sync_invD(1-3) [OF inv] and T = sync_invD(4) [OF inv cur]
  let ?k = "su_kernel s" and ?q = "queues (su_timers s) (su_kernel s)"
  obtain M where M: "mutex_at m ?k = Some M"
    using u by (auto simp: dyn_unlock_def split: Option.bind_splits)
  have lk: "mutex_locked ?k m"
    using own_invD(3) [OF D(3) i] by simp
  have free: "sync_inv (note_unlock m t (s\<lparr>su_kernel := k'\<rparr>))" if q: "?q (AtMutex m) = []" and k': "k' = set_mutex m M' ?k" "mutex_locked k' m = False" "queues (su_timers s) k' (AtMutex m) = []" for M'
  proof -
    have "mutex_locked k' = (mutex_locked ?k)(m := False)" "queues (su_timers s) k' = ?q"
      using k' q by (auto simp: mutex_locked_set(1) [OF M] queues_set(1) [OF M] fun_eq_iff)
    then show ?thesis
      using D own_inv_release [OF D(3) i _ q] T k'(1) by (simp add: sync_inv_def note_defs)
  qed
  have *: "sync_inv (note_unlock m t (s\<lparr>su_kernel := k'\<rparr>)) \<and> sc_current k' = Some t \<and> condvar_at c k' = condvar_at c ?k"
  proof (cases M)
    case (DynSpin l)
    then have k': "k' = set_mutex m (DynSpin False) ?k"
      using u M by (simp add: dyn_unlock_def MutexSpin_unlock_def)
    then show ?thesis
      using free [OF _ k'] M DynSpin cur by (simp add: queues_def mutex_locked_def)
  next
    case (DynBlocking b)
    show ?thesis
    proof (cases "mb_queue b")
      case Nil
      then have k': "k' = set_mutex m (DynBlocking (b\<lparr>mb_locked := False\<rparr>)) ?k"
        using u M DynBlocking by (auto simp: dyn_unlock_def MutexBlocking_unlock_def split: Option.bind_splits if_splits)
      then show ?thesis
        using free [OF _ k'] M DynBlocking Nil cur by (simp add: queues_def mutex_locked_def)
    next
      case (Cons h hs)
      then have k': "k' = set_mutex m (DynBlocking (b\<lparr>mb_queue := hs\<rparr>)) (wakeup_task h ?k)"
        using u M DynBlocking by (auto simp: dyn_unlock_def MutexBlocking_unlock_def split: Option.bind_splits if_splits)
      have M1: "mutex_at m (wakeup_task h ?k) = Some M"
        using M by (simp add: mutex_at_def)
      have q: "?q (AtMutex m) = h # hs"
        using M DynBlocking Cons by (simp add: queues_def)
      then have h: "sc_status ?k h = Some Blocked" "su_waiting s h = Some (InMutex m)" "distinct (h # hs)"
        using wait_invD(1) [OF D(2), of "AtMutex m"] wait_invD(2) [OF D(2), of h "AtMutex m"] by (auto elim!: place_of.elims)
      have "queues (su_timers s) k' = ?q(AtMutex m := hs)" "mutex_locked k' = mutex_locked ?k"
        using k' lk M DynBlocking objects_cong(4,5) [of "wakeup_task h ?k" ?k]
        by (auto simp: queues_set(1) [OF M1] mutex_locked_set(1) [OF M1] fun_eq_iff mutex_locked_def [of ?k m])
      moreover have "wait_inv (?q(AtMutex m := hs)) ((sc_status ?k)(h \<mapsto> Ready)) (su_waiting s)"
        by (rule wait_inv_wake [OF D(2)]) (use h(3) in \<open>simp_all add: q\<close>)
      moreover have "own_inv (mutex_locked ?k) (?q(AtMutex m := hs)) (su_waiting s) ((su_inside s)(m := su_inside s m - {t}))"
        using own_inv_hand_over [OF D(3) i _ q h(2)] T h(3) by simp
      ultimately have "sync_inv (note_unlock m t (s\<lparr>su_kernel := k'\<rparr>))"
        using k' wakeup_task_inv [OF D(1) h(1)] by (simp add: sync_inv_def note_defs wakeup_status)
      then show ?thesis
        using k' cur by (simp add: condvar_at_def sched_defs set_mutex_def set_proc_def split: option.splits)
    qed
  qed
  then show "sync_inv (note_unlock m t (s\<lparr>su_kernel := k'\<rparr>))" "sc_current k' = Some t" "condvar_at c k' = condvar_at c ?k"
    by simp_all
qed

lemma sync_inv_same:
  assumes "sync_inv s" and "sched_inv k'" and "sc_status k' = sc_status (su_kernel s)" and "queues (su_timers s) k' = queues (su_timers s) (su_kernel s)"
    and "mutex_locked k' = mutex_locked (su_kernel s)"
  shows "sync_inv (s\<lparr>su_kernel := k'\<rparr>)"
  using assms by (simp add: sync_inv_def)

lemma sync_inv_wake:
  assumes inv: "sync_inv s" and p: "\<And>m. p \<noteq> AtMutex m" and t: "t \<in> set (queues (su_timers s) (su_kernel s) p)"
    and xs: "distinct xs" "set xs = set (queues (su_timers s) (su_kernel s) p) - {t}"
    and q: "queues ts' k' = (queues (su_timers s) (su_kernel s))(p := xs)" and l: "mutex_locked k' = mutex_locked (su_kernel s)"
    and k': "sc_status k' = (sc_status (su_kernel s))(t \<mapsto> Ready)" "sched_inv (wakeup_task t (su_kernel s)) \<Longrightarrow> sched_inv k'"
  shows "sync_inv (s\<lparr>su_kernel := k', su_timers := ts'\<rparr>)"
proof -
  note D = sync_invD(1-3) [OF inv]
  have "sc_status (su_kernel s) t = Some Blocked"
    using wait_invD(2) [OF D(2) t] by simp
  moreover have "AtMutex m \<noteq> p" for m
    using p [of m] by auto
  ultimately show ?thesis
    using wakeup_task_inv [OF D(1)] k' wait_inv_wake [OF D(2) t xs] own_inv_queues [OF D(3), of "(queues (su_timers s) (su_kernel s))(p := xs)"] q l
    by (simp add: sync_inv_def)
qed

lemma sync_inv_block:
  assumes inv: "sync_inv s" and cur: "sc_current (su_kernel s) = Some t" and w: "place_of w = Some p" and p: "\<And>m. p \<noteq> AtMutex m"
    and q: "queues ts' k' = (queues (su_timers s) (su_kernel s))(p := xs)" and l: "mutex_locked k' = mutex_locked (su_kernel s)"
    and xs: "distinct xs" "set xs = insert t (set (queues (su_timers s) (su_kernel s) p))"
    and k': "sc_status k' = (sc_status (su_kernel s))(t \<mapsto> Blocked)" "sched_inv k'"
  shows "sync_inv (note_wait t (Suspends w) (s\<lparr>su_kernel := k', su_timers := ts'\<rparr>))"
proof -
  note D = sync_invD(1-3) [OF inv] and T = sync_invD(4) [OF inv cur]
  have "wait_inv ((queues (su_timers s) (su_kernel s))(p := xs)) ((sc_status (su_kernel s))(t \<mapsto> Blocked)) ((su_waiting s)(t \<mapsto> w))"
    using wait_inv_enqueue [OF D(2) _ w xs] T by simp
  moreover have "w \<noteq> InMutex m" "AtMutex m \<noteq> p" for m
    using w p [of m] by auto
  ultimately show ?thesis
    using T k' own_inv_wait [OF D(3), of t w "(queues (su_timers s) (su_kernel s))(p := xs)"] q l by (simp add: sync_inv_def note_defs)
qed

lemma create_inv:
  assumes "sync_inv s" and "k_procs (su_kernel s) pid = Some P"
  shows "slot_new v (pcb_mutex_list P) = (i, ms) \<Longrightarrow> v = DynBlocking MutexBlocking_new \<or> v = DynSpin False \<Longrightarrow>
      sync_inv (s\<lparr>su_kernel := set_proc pid (P\<lparr>pcb_mutex_list := ms\<rparr>) (su_kernel s)\<rparr>)"
    and "slot_new (Semaphore_new n) (pcb_semaphore_list P) = (i, xs) \<Longrightarrow>
      sync_inv (s\<lparr>su_kernel := set_proc pid (P\<lparr>pcb_semaphore_list := xs\<rparr>) (su_kernel s)\<rparr>)"
    and "slot_new Condvar_new (pcb_condvar_list P) = (i, cs) \<Longrightarrow>
      sync_inv (s\<lparr>su_kernel := set_proc pid (P\<lparr>pcb_condvar_list := cs\<rparr>) (su_kernel s)\<rparr>)"
proof -
  have sched: "sched_inv (set_proc pid P' (su_kernel s))" "sc_status (set_proc pid P' (su_kernel s)) = sc_status (su_kernel s)" for P'
    using sync_invD(1) [OF assms(1)] by (simp_all add: set_proc_def sched_inv_def)
  show "sync_inv (s\<lparr>su_kernel := set_proc pid (P\<lparr>pcb_mutex_list := ms\<rparr>) (su_kernel s)\<rparr>)"
    if "slot_new v (pcb_mutex_list P) = (i, ms)" "v = DynBlocking MutexBlocking_new \<or> v = DynSpin False"
    using slot_new_at [OF that(1)] that(2) assms(2)
    by (intro sync_inv_same [OF assms(1) sched])
      (auto simp: queues_def mutex_locked_def mutex_at_def sem_at_def condvar_at_def set_proc_def MutexBlocking_new_def fun_eq_iff split: place.splits)
  show "sync_inv (s\<lparr>su_kernel := set_proc pid (P\<lparr>pcb_semaphore_list := xs\<rparr>) (su_kernel s)\<rparr>)"
    if "slot_new (Semaphore_new n) (pcb_semaphore_list P) = (i, xs)"
    using slot_new_at [OF that] assms(2)
    by (intro sync_inv_same [OF assms(1) sched])
      (auto simp: queues_def mutex_locked_def mutex_at_def sem_at_def condvar_at_def set_proc_def Semaphore_new_def fun_eq_iff split: place.splits)
  show "sync_inv (s\<lparr>su_kernel := set_proc pid (P\<lparr>pcb_condvar_list := cs\<rparr>) (su_kernel s)\<rparr>)"
    if "slot_new Condvar_new (pcb_condvar_list P) = (i, cs)"
    using slot_new_at [OF that] assms(2)
    by (intro sync_inv_same [OF assms(1) sched])
      (auto simp: queues_def mutex_locked_def mutex_at_def sem_at_def condvar_at_def set_proc_def Condvar_new_def fun_eq_iff split: place.splits)
qed

lemma check_timer_inv:
  assumes "sync_inv (s\<lparr>su_kernel := k, su_timers := timers\<rparr>)" and "check_timer_loop now timers k = (timers', k')"
  shows "sync_inv (s\<lparr>su_kernel := k', su_timers := timers'\<rparr>)"
  using assms
proof (induction now timers k rule: check_timer_loop.induct)
  case (1 now timers k)
  show ?case
  proof (cases "\<exists>x. heap_peek timers = Some x \<and> expire_ms x \<le> now")
    case False
    then show ?thesis
      using 1(2,3) by (subst (asm) check_timer_loop.simps) (auto split: option.splits if_splits)
  next
    case True
    then obtain x where x: "heap_peek timers = Some x" "expire_ms x \<le> now"
      by blast
    let ?s = "s\<lparr>su_kernel := k, su_timers := timers\<rparr>" and ?q = "map timer_task (remove1 x timers)"
    have xin: "x \<in> set timers"
      using heap_peek_in [OF x(1)] .
    have d: "distinct (map timer_task timers)"
      using wait_invD(1) [OF sync_invD(2) [OF 1(2)], of AtTimer] by (simp add: queues_def)
    have ts: "distinct ?q" "set ?q = set (map timer_task timers) - {timer_task x}"
      using d xin by (auto simp: distinct_map inj_on_def distinct_remove1 set_remove1_eq)
    have "sync_inv (?s\<lparr>su_kernel := wakeup_task (timer_task x) k, su_timers := remove1 x timers\<rparr>)"
    proof (rule sync_inv_wake [OF 1(2), of AtTimer "timer_task x" ?q])
      show "queues (remove1 x timers) (wakeup_task (timer_task x) k) =
          (queues (su_timers ?s) (su_kernel ?s))(AtTimer := ?q)"
        using objects_cong(1-3) [of "wakeup_task (timer_task x) k" k] by (simp add: queues_def fun_eq_iff split: place.split)
      show "mutex_locked (wakeup_task (timer_task x) k) = mutex_locked (su_kernel ?s)"
        using objects_cong(5) [of "wakeup_task (timer_task x) k" k] by simp
    qed (use ts xin in \<open>simp_all add: queues_def wakeup_status\<close>)
    then have "sync_inv (s\<lparr>su_kernel := wakeup_task (timer_task x) k, su_timers := remove1 x timers\<rparr>)"
      by simp
    then show ?thesis
      using 1(1) [OF x] 1(3) x by (subst (asm) (2) check_timer_loop.simps) simp
  qed
qed

lemma cond_wait_inv:
  assumes inv: "sync_inv s" and cur: "sc_current (su_kernel s) = Some t" "current_process (su_kernel s) = Some pid"
    and i: "t \<in> su_inside s (pid, mid)" and w: "sys_condvar_wait cid mid (su_kernel s) = Some (Suspends w, k')"
  shows "sync_inv (note_wait t (Suspends w) (note_unlock (pid, mid) t (s\<lparr>su_kernel := k'\<rparr>)))"
proof -
  obtain x k1 k2 where k1: "condvar_at (pid, cid) (su_kernel s) = Some x" "dyn_unlock (pid, mid) (su_kernel s) = Some k1"
      "block_current_task k1 = Some k2" "k' = set_condvar (pid, cid) (x\<lparr>cv_queue := cv_queue x @ [t]\<rparr>) k2" "w = InCond (pid, cid) (pid, mid)"
    using w cur dyn_unlock_inv(2) [OF inv cur(1) i]
    by (auto simp: sys_condvar_wait_def wait_no_sched_def current_task_def split: option.splits Option.bind_splits)
  let ?s = "note_unlock (pid, mid) t (s\<lparr>su_kernel := k1\<rparr>)" and ?p = "AtCond (pid, cid)"
  note u = dyn_unlock_inv [OF inv cur(1) i k1(2)]
  note W = sync_invD(2) [OF u(1)] and T = sync_invD(4) [OF u(1), of t]
  have x: "condvar_at (pid, cid) k2 = Some x" "condvar_at (pid, cid) k1 = Some x"
    using u(3) [of "(pid, cid)"] k1(1) objects_cong(3) [of k2 k1] k1(3) by simp_all
  have s1: "su_kernel ?s = k1" "su_timers ?s = su_timers s"
    by (simp_all add: note_unlock_def)
  have q: "queues (su_timers s) k1 ?p = cv_queue x"
    using x by (simp add: queues_def)
  have t: "t \<notin> set (cv_queue x)" "distinct (cv_queue x)"
    using wait_inv_free(1) [OF W, of t ?p] wait_invD(1) [OF W, of ?p] T u(2) q s1 by auto
  have "sync_inv (note_wait t (Suspends w) (?s\<lparr>su_kernel := k', su_timers := su_timers s\<rparr>))"
  proof (rule sync_inv_block [OF u(1), of t w ?p _ _ "cv_queue x @ [t]"])
    show "queues (su_timers s) k' = (queues (su_timers ?s) (su_kernel ?s))(?p := cv_queue x @ [t])"
      using k1(4) queues_set(3) [OF x(1)] objects_cong(4) [of k2 k1] k1(3) s1 by simp
    show "mutex_locked k' = mutex_locked (su_kernel ?s)"
      using k1(4) mutex_locked_set(3) objects_cong(5) [of k2 k1] k1(3) s1 by simp
  qed (use u(2) s1 q t k1 block_status [OF u(2) k1(3)] block_current_inv [OF sync_invD(1) [OF u(1)]] in auto)
  then show ?thesis
    by (cases s) (simp add: note_unlock_def)
qed

lemma signal_inv:
  assumes inv: "sync_inv s" and u: "sys_condvar_signal cid (su_kernel s) = Some (r, k')"
  shows "sync_inv (s\<lparr>su_kernel := k'\<rparr>)"
proof (cases "k' = su_kernel s")
  case True
  then show ?thesis
    using inv by simp
next
  case False
  let ?k = "su_kernel s"
  obtain pid x where x: "condvar_at (pid, cid) ?k = Some x" "k' = set_condvar (pid, cid) (fst (Condvar_signal x ?k)) (snd (Condvar_signal x ?k))"
    using u False by (auto simp: sys_condvar_signal_def case_prod_beta split: option.splits Option.bind_splits)
  have q: "queues (su_timers s) ?k (AtCond (pid, cid)) = cv_queue x"
    using x(1) by (simp add: queues_def)
  show ?thesis
  proof (cases "cv_queue x")
    case Nil
    then have "k' = set_condvar (pid, cid) x ?k"
      using x(2) by (simp add: Condvar_signal_def)
    then show ?thesis
      using queues_set(3) [OF x(1)] q sync_invD(1) [OF inv]
      by (intro sync_inv_same [OF inv]) (auto simp: mutex_locked_set)
  next
    case (Cons t ts)
    let ?k1 = "wakeup_task t ?k"
    have k': "k' = set_condvar (pid, cid) (x\<lparr>cv_queue := ts\<rparr>) ?k1"
      using x(2) Cons by (simp add: Condvar_signal_def)
    have x1: "condvar_at (pid, cid) ?k1 = Some x"
      using x(1) objects_cong(3) [of ?k1 ?k] by simp
    have "sync_inv (s\<lparr>su_kernel := k', su_timers := su_timers s\<rparr>)"
    proof (rule sync_inv_wake [OF inv, of "AtCond (pid, cid)" t ts])
      show "distinct ts" "set ts = set (queues (su_timers s) ?k (AtCond (pid, cid))) - {t}"
        using wait_invD(1) [OF sync_invD(2) [OF inv], of "AtCond (pid, cid)"] q Cons by auto
      show "queues (su_timers s) k' = (queues (su_timers s) ?k)(AtCond (pid, cid) := ts)"
        using queues_set(3) [OF x1] objects_cong(4) [of ?k1 ?k] k' by simp
      show "mutex_locked k' = mutex_locked ?k"
        using objects_cong(5) [of ?k1 ?k] k' by (simp add: mutex_locked_set)
    qed (use q Cons k' in \<open>simp_all add: wakeup_status\<close>)
    then show ?thesis
      by simp
  qed
qed

lemma up_inv:
  assumes inv: "sync_inv s" and u: "sys_semaphore_up sid (su_kernel s) = Some (r, k')"
  shows "sync_inv (s\<lparr>su_kernel := k'\<rparr>)"
proof (cases "k' = su_kernel s")
  case True
  then show ?thesis
    using inv by simp
next
  case False
  let ?k = "su_kernel s"
  obtain pid x where x: "sem_at (pid, sid) ?k = Some x" "k' = set_sem (pid, sid) (fst (Semaphore_up x ?k)) (snd (Semaphore_up x ?k))"
    using u False by (auto simp: sys_semaphore_up_def case_prod_beta split: option.splits Option.bind_splits)
  have q: "queues (su_timers s) ?k (AtSem (pid, sid)) = sem_queue x"
    using x(1) by (simp add: queues_def)
  show ?thesis
  proof (cases "sem_queue x")
    case Nil
    then have "k' = set_sem (pid, sid) (x\<lparr>sem_count := isize (sem_count x + 1)\<rparr>) ?k"
      using x(2) by (simp add: Semaphore_up_def Let_def)
    then show ?thesis
      using queues_set(2) [OF x(1)] q sync_invD(1) [OF inv]
      by (intro sync_inv_same [OF inv]) (auto simp: mutex_locked_set)
  next
    case (Cons t ts)
    let ?k1 = "wakeup_task t ?k"
    have k': "k' = set_sem (pid, sid) (x\<lparr>sem_count := isize (sem_count x + 1), sem_queue := ts\<rparr>) ?k1"
      using x(2) Cons by (simp add: Semaphore_up_def Let_def)
    have x1: "sem_at (pid, sid) ?k1 = Some x"
      using x(1) objects_cong(2) [of ?k1 ?k] by simp
    have "sync_inv (s\<lparr>su_kernel := k', su_timers := su_timers s\<rparr>)"
    proof (rule sync_inv_wake [OF inv, of "AtSem (pid, sid)" t ts])
      show "distinct ts" "set ts = set (queues (su_timers s) ?k (AtSem (pid, sid))) - {t}"
        using wait_invD(1) [OF sync_invD(2) [OF inv], of "AtSem (pid, sid)"] q Cons by auto
      show "queues (su_timers s) k' = (queues (su_timers s) ?k)(AtSem (pid, sid) := ts)"
        using queues_set(2) [OF x1] objects_cong(4) [of ?k1 ?k] k' by simp
      show "mutex_locked k' = mutex_locked ?k"
        using objects_cong(5) [of ?k1 ?k] k' by (simp add: mutex_locked_set)
    qed (use q Cons k' in \<open>simp_all add: wakeup_status\<close>)
    then show ?thesis
      by simp
  qed
qed

lemma down_inv:
  assumes inv: "sync_inv s" and cur: "sc_current (su_kernel s) = Some t" and d: "sys_semaphore_down sid (su_kernel s) = Some (r, k')"
  shows "sync_inv (note_wait t r (s\<lparr>su_kernel := k'\<rparr>))"
proof (cases "\<exists>w. r = Suspends w")
  case False
  then obtain i where r: "r = Returns i"
    by (cases r) auto
  then have "k' = su_kernel s \<or> (\<exists>pid x n. sem_at (pid, sid) (su_kernel s) = Some x \<and> k' = set_sem (pid, sid) (x\<lparr>sem_count := n\<rparr>) (su_kernel s))"
    using d by (fastforce simp: sys_semaphore_down_def Semaphore_down_def Let_def split: option.splits Option.bind_splits if_splits)
  then have "sync_inv (s\<lparr>su_kernel := k'\<rparr>)"
  proof (elim disjE exE conjE)
    fix pid x n
    assume x: "sem_at (pid, sid) (su_kernel s) = Some x" "k' = set_sem (pid, sid) (x\<lparr>sem_count := n\<rparr>) (su_kernel s)"
    have "queues (su_timers s) (su_kernel s) (AtSem (pid, sid)) = sem_queue x"
      using x by (simp add: queues_def)
    then show ?thesis
      using x queues_set(2) [OF x(1)] sync_invD(1) [OF inv] by (intro sync_inv_same [OF inv]) (auto simp: mutex_locked_set)
  qed (use inv in simp)
  then show ?thesis
    by (simp add: note_wait_def r)
next
  case True
  let ?k = "su_kernel s"
  obtain pid x y k1 where x: "sem_at (pid, sid) ?k = Some x" "block_current_task ?k = Some k1" "k' = set_sem (pid, sid) y k1"
      "sem_queue y = sem_queue x @ [t]" "r = Suspends (InSem (pid, sid))"
    using d True cur by (fastforce simp: sys_semaphore_down_def Semaphore_down_def Let_def current_task_def split: option.splits Option.bind_splits if_splits)
  let ?p = "AtSem (pid, sid)"
  note W = sync_invD(2) [OF inv] and T = sync_invD(4) [OF inv cur]
  have x1: "sem_at (pid, sid) k1 = Some x"
    using x(1) objects_cong(2) [of k1 ?k] x(2) by simp
  have q: "queues (su_timers s) ?k ?p = sem_queue x"
    using x(1) by (simp add: queues_def)
  have t: "t \<notin> set (sem_queue x)" "distinct (sem_queue x)"
    using wait_inv_free(1) [OF W, of t ?p] wait_invD(1) [OF W, of ?p] T q by auto
  have "sync_inv (note_wait t (Suspends (InSem (pid, sid))) (s\<lparr>su_kernel := k', su_timers := su_timers s\<rparr>))"
  proof (rule sync_inv_block [OF inv cur, of _ ?p _ _ "sem_queue x @ [t]"])
    show "queues (su_timers s) k' = (queues (su_timers s) ?k)(?p := sem_queue x @ [t])"
      using x(3,4) queues_set(2) [OF x1] objects_cong(4) [of k1 ?k] x(2) by simp
    show "mutex_locked k' = mutex_locked ?k"
      using x(3) objects_cong(5) [of k1 ?k] x(2) by (simp add: mutex_locked_set)
  qed (use q t x block_status [OF cur x(2)] block_current_inv [OF sync_invD(1) [OF inv] x(2)] in auto)
  then show ?thesis
    using x(5) by simp
qed

lemma sleep_inv:
  assumes inv: "sync_inv s" and cur: "sc_current (su_kernel s) = Some t"
    and d: "sys_sleep mtime ms (su_timers s) (su_kernel s) = Some (r, timers', k')"
  shows "sync_inv (note_wait t r (s\<lparr>su_kernel := k', su_timers := timers'\<rparr>))"
proof -
  let ?k = "su_kernel s"
  note W = sync_invD(2) [OF inv] and T = sync_invD(4) [OF inv cur]
  have r: "r = Suspends InTimer" "block_current_task ?k = Some k'" "map timer_task timers' = t # map timer_task (su_timers s)"
    using d cur by (auto simp: sys_sleep_def add_timer_def current_task_def Let_def split: Option.bind_splits)
  have q: "queues (su_timers s) ?k AtTimer = map timer_task (su_timers s)"
    by (simp add: queues_def)
  have "t \<notin> set (map timer_task (su_timers s))" "distinct (map timer_task (su_timers s))"
    using wait_inv_free(1) [OF W, of t AtTimer] wait_invD(1) [OF W, of AtTimer] T q by auto
  then show ?thesis
    unfolding r(1) using q r block_status [OF cur r(2)] block_current_inv [OF sync_invD(1) [OF inv] r(2)]
      objects_cong [of k' ?k] by (intro sync_inv_block [OF inv cur, of _ AtTimer _ _ "map timer_task timers'"])
      (auto simp: queues_def fun_eq_iff split: place.split)
qed

lemma pick_inv:
  assumes inv: "sync_inv s" and p: "sc_current (su_kernel s) = None" "sc_ready (su_kernel s) = t # ts"
  defines "s' \<equiv> s\<lparr>su_kernel := run_tasks_round (su_kernel s), su_waiting := (su_waiting s)(t := None)\<rparr>"
  shows "(\<And>m. su_waiting s t \<noteq> Some (InMutex m)) \<Longrightarrow> sync_inv s'"
    and "su_waiting s t = Some (InMutex m) \<Longrightarrow> sync_inv (s'\<lparr>su_inside := (su_inside s)(m := insert t (su_inside s m))\<rparr>)"
    and "sc_current (su_kernel s') = Some t"
proof -
  note D = sync_invD(1-3) [OF inv]
  have t: "sc_status (su_kernel s) t = Some Ready"
    using sched_inv_status(1) [OF D(1), of t] p(2) by simp
  have st: "sc_status (run_tasks_round (su_kernel s)) = (sc_status (su_kernel s))(t \<mapsto> Running)"
    using p(2) by (simp add: sched_defs)
  have tq: "t \<notin> set (queues (su_timers s) (su_kernel s) q)" for q
    using wait_inv_free(1) [OF D(2), of t] t by simp
  show "sc_current (su_kernel s') = Some t"
    using p(2) by (simp add: s'_def sched_defs)
  show "sync_inv s'" if "\<And>m. su_waiting s t \<noteq> Some (InMutex m)"
    using run_tasks_round_inv [OF D(1) p(1)] wait_inv_run [OF D(2) t] own_inv_return [OF D(3) that]
      objects_cong(4,5) [of "run_tasks_round (su_kernel s)" "su_kernel s"] by (simp add: s'_def sync_inv_def st)
  show "sync_inv (s'\<lparr>su_inside := (su_inside s)(m := insert t (su_inside s m))\<rparr>)" if "su_waiting s t = Some (InMutex m)"
    using run_tasks_round_inv [OF D(1) p(1)] wait_inv_run [OF D(2) t] own_inv_enter [OF D(3) that tq]
      objects_cong(4,5) [of "run_tasks_round (su_kernel s)" "su_kernel s"] by (simp add: s'_def sync_inv_def st)
qed

lemma pick_waiting_inv:
  assumes inv: "sync_inv s" and p: "sc_current (su_kernel s) = None" "sc_ready (su_kernel s) = t # ts" "su_waiting s t = Some w"
    and r: "resume w (run_tasks_round (su_kernel s)) = Some (r, k')" and s': "s' = s\<lparr>su_kernel := k', su_waiting := (su_waiting s)(t := None)\<rparr>"
  shows "sync_inv (note_wait t r (case lock_of w of Some m \<Rightarrow> note_lock m t r s' | None \<Rightarrow> s'))"
proof -
  let ?s = "s\<lparr>su_kernel := run_tasks_round (su_kernel s), su_waiting := (su_waiting s)(t := None)\<rparr>"
  note P = pick_inv [OF inv p(1,2)]
  have relock: ?thesis if "lock_of w = Some m" "dyn_lock m (run_tasks_round (su_kernel s)) = Some (r, k')" "\<And>m'. w \<noteq> InMutex m'" for m
  proof -
    have "sync_inv (note_wait t r (note_lock m t r (?s\<lparr>su_kernel := k'\<rparr>)))"
      using dyn_lock_inv [OF P(1) P(3)] that p(3) by simp
    moreover have "?s\<lparr>su_kernel := k'\<rparr> = s'"
      by (cases s) (simp add: s')
    ultimately show ?thesis
      using that(1) by simp
  qed
  show ?thesis
  proof (cases w)
    case (InMutex m)
    then have "r = Returns 0" "k' = run_tasks_round (su_kernel s)"
      using r by (simp_all add: resume_def)
    then show ?thesis
      using P(2) [of m] p(3) InMutex by (simp add: note_defs s')
  next
    case (InSem x)
    then have "r = Returns 0" "k' = run_tasks_round (su_kernel s)"
      using r by (simp_all add: resume_def)
    then show ?thesis
      using P(1) p(3) InSem by (simp add: note_defs s')
  next
    case InTimer
    then have "r = Returns 0" "k' = run_tasks_round (su_kernel s)"
      using r by (simp_all add: resume_def)
    then show ?thesis
      using P(1) p(3) InTimer by (simp add: note_defs s')
  qed (use relock r in \<open>simp_all add: resume_def\<close>)
qed

lemma sync_step_inv: "sync_step s s' \<Longrightarrow> sync_inv s \<Longrightarrow> sync_inv s'"
proof (induction rule: sync_step.induct)
  case (lock s t pid mid r k')
  show ?case
  proof (cases "mutex_at (pid, mid) (su_kernel s)")
    case None
    then have "r = Returns (- 1)" "k' = su_kernel s"
      using lock(2,3) by (simp_all add: sys_mutex_lock_def)
    then show ?thesis
      using lock(4) by (simp add: note_defs)
  next
    case (Some M)
    then show ?thesis
      using lock(2,3) dyn_lock_inv [OF lock(4,1)] by (simp add: sys_mutex_lock_def)
  qed
next
  case (unlock s t pid mid r k')
  have "mutex_at (pid, mid) (su_kernel s) \<noteq> None"
    using own_invD(3) [OF sync_invD(3) [OF unlock(5)] unlock(3)] by (auto simp: mutex_locked_def split: option.splits)
  then show ?case
    using unlock(2,4) dyn_unlock_inv(1) [OF unlock(5,1,3)] by (auto simp: sys_mutex_unlock_def split: Option.bind_splits)
next
  case (cond_wait_fails cid mid s r k')
  then have "k' = su_kernel s"
    by (auto simp: sys_condvar_wait_def split: option.splits Option.bind_splits)
  then show ?case
    using cond_wait_fails(2) by simp
next
  case (tick mtime s timers' k')
  then show ?case
    using check_timer_inv [where s = s and k = "su_kernel s" and timers = "su_timers s"] by (simp add: check_timer_def)
next
  case (create_mutex blocking s r k')
  then show ?case
    using create_inv(1) by (auto simp: sys_mutex_create_def Let_def split: Option.bind_splits prod.splits if_splits)
next
  case (create_sem n s r k')
  then show ?case
    using create_inv(2) by (auto simp: sys_semaphore_create_def Let_def split: Option.bind_splits prod.splits)
next
  case (create_condvar s r k')
  then show ?case
    using create_inv(3) by (auto simp: sys_condvar_create_def Let_def split: Option.bind_splits prod.splits)
next
  case (pick s t ts)
  then have "(su_waiting s)(t := None) = su_waiting s"
    by auto
  then show ?case
    using pick_inv(1) [OF pick(4,1,2)] pick(3) by simp
next
  case (env s k')
  note D = sync_invD(1-3) [OF env(2)] and E = sched_env_inv [OF env(1) sync_invD(1) [OF env(2)]]
  have "k_procs k' = k_procs (su_kernel s)"
    using E(2) by (cases k'; cases "su_kernel s"; simp)
  moreover have "sc_status k' t = sc_status (su_kernel s) t" if "su_waiting s t \<noteq> None" for t
    using wait_invD(3) [OF D(2), of t] E(3,4) [of t] that by force
  ultimately show ?case
    using D E(1) objects_cong(4,5) [of k' "su_kernel s"] wait_inv_env [OF D(2), of "sc_status k'"] by (simp add: sync_inv_def)
qed (blast intro: cond_wait_inv signal_inv up_inv down_inv sleep_inv pick_waiting_inv)+

definition sync_start :: "sync_sys \<Rightarrow> bool" where
  \<comment> \<open>nobody holds a mutex or waits\<close>
  "sync_start s \<longleftrightarrow> sched_inv (su_kernel s) \<and> (\<forall>p. queues (su_timers s) (su_kernel s) p = []) \<and> (\<forall>m. \<not> mutex_locked (su_kernel s) m) \<and>
     (\<forall>m. su_inside s m = {}) \<and> su_waiting s = Map.empty"

lemma sync_start_inv: "sync_start s \<Longrightarrow> sync_inv s"
  by (simp add: sync_start_def sync_inv_def wait_inv_def own_inv_def owners_def)

lemma sync_reachable_inv: "sync_step\<^sup>*\<^sup>* s0 s \<Longrightarrow> sync_start s0 \<Longrightarrow> sync_inv s"
  by (induction rule: rtranclp_induct) (auto intro: sync_start_inv sync_step_inv)

section \<open>Properties\<close>

text \<open>
  C30. The calls of all threads on mutexes, semaphores, condition variables and timers, in any order and with any scheduling, where only
  holders unlock a mutex or wait on a condition variable with it: no two threads are ever between \<open>lock\<close> and \<open>unlock\<close> of
  the same mutex, spinning or blocking, also after a wait on a condition variable; a mutex that is held is locked; nobody is queued at a free mutex; and a
  thread that is blocked in one of the calls is in the queue of what it waits for, so that no wake-up is lost.
\<close>

theorem sync_calls_exclusive:
  assumes "sync_start s0" and "sync_step\<^sup>*\<^sup>* s0 s"
  shows "(\<forall>m t u. t \<in> su_inside s m \<and> u \<in> su_inside s m \<longrightarrow> t = u) \<and>
    (\<forall>m. if mutex_locked (su_kernel s) m then True else su_inside s m = {} \<and> queues (su_timers s) (su_kernel s) (AtMutex m) = []) \<and>
    (\<forall>t w. su_waiting s t = Some w \<and> sc_status (su_kernel s) t = Some Blocked \<longrightarrow>
      (\<exists>p. place_of w = Some p \<and> t \<in> set (queues (su_timers s) (su_kernel s) p)))"
proof -
  have "sync_inv s"
    using sync_reachable_inv [OF assms(2,1)] .
  note W = sync_invD(2) [OF this] and O = sync_invD(3) [OF this]
  have "t = u" if "t \<in> su_inside s m" "u \<in> su_inside s m" for m t u
    using own_invD(3) [OF O that(1)] own_invD(3) [OF O that(2)] by simp
  moreover have "su_inside s m = {} \<and> queues (su_timers s) (su_kernel s) (AtMutex m) = []" if "\<not> mutex_locked (su_kernel s) m" for m
    using own_invD(2) [OF O that] by (simp add: owners_def)
  moreover have "\<exists>p. place_of w = Some p \<and> t \<in> set (queues (su_timers s) (su_kernel s) p)"
    if "su_waiting s t = Some w" "sc_status (su_kernel s) t = Some Blocked" for t w
    using wait_invD(5) [OF W that] .
  ultimately show ?thesis
    by auto
qed

definition sample_sync :: sync_sys where
  \<comment> \<open>two threads of a process with one blocking mutex\<close>
  "sample_sync = \<lparr>su_kernel = sample_threads\<lparr>sc_status := [8 \<mapsto> Running, 9 \<mapsto> Ready],
       k_procs := [1 \<mapsto> (sample_process (Some 0) [] False)\<lparr>pcb_tasks := [Some 8, Some 9], pcb_mutex_list := [Some (DynBlocking MutexBlocking_new)]\<rparr>]\<rparr>,
     su_timers = [], su_inside = (\<lambda>_. {}), su_waiting = Map.empty\<rparr>"

lemma sample_sync_start: "sync_start sample_sync"
proof -
  have "queues [] (su_kernel sample_sync) p = []" for p
    by (auto simp: queues_def sample_sync_def sample_threads_def mutex_at_def sem_at_def condvar_at_def slot_def sample_process_def blank_process_def
        MutexBlocking_new_def split: place.splits)
  moreover have "\<not> mutex_locked (su_kernel sample_sync) m" for m
    by (auto simp: mutex_locked_def sample_sync_def mutex_at_def slot_def MutexBlocking_new_def)
  moreover have "sched_inv (su_kernel sample_sync)"
    by (simp add: sched_inv_def sample_sync_def sample_threads_def)
  ultimately show ?thesis
    by (simp add: sync_start_def) (simp add: sample_sync_def)
qed

theorem sync_calls_exclusive_witness:
  "\<exists>s. sync_step\<^sup>*\<^sup>* sample_sync s \<and> su_inside s (1, 0) = {8} \<and> (\<forall>t \<in> su_inside s (1, 0). t = 8)"
proof -
  let ?k = "su_kernel sample_sync"
  let ?k' = "set_mutex (1, 0) (DynBlocking (MutexBlocking_new\<lparr>mb_locked := True\<rparr>)) ?k"
  have cur: "sc_current ?k = Some 8" "current_process ?k = Some 1" "mutex_at (1, 0) ?k = Some (DynBlocking MutexBlocking_new)"
    by (simp_all add: sample_sync_def sample_threads_def current_process_def current_task_def mutex_at_def slot_def)
  have "sys_mutex_lock 0 ?k = Some (Returns 0, ?k')"
    using cur by (simp add: sys_mutex_lock_def dyn_lock_def MutexBlocking_lock_def MutexBlocking_new_def)
  note step = sync_step.lock [OF cur(1,2) this]
  define s where "s = note_wait 8 (Returns 0) (note_lock (1, 0) 8 (Returns 0) (sample_sync\<lparr>su_kernel := ?k'\<rparr>))"
  have "su_inside sample_sync = (\<lambda>_. {})"
    by (simp add: sample_sync_def)
  then have i: "su_inside s (1, 0) = {8}"
    by (simp add: s_def note_defs)
  have r: "sync_step\<^sup>*\<^sup>* sample_sync s"
    using step by (simp add: s_def)
  show ?thesis
    using sync_calls_exclusive [OF sample_sync_start r] i r by (intro exI [of _ s]) simp
qed

text \<open>
  Unlocking a blocking mutex that nobody holds stops the kernel: the assertion in \<open>unlock\<close> is reached by any program that calls
  \<open>mutex_unlock\<close> once too often, or waits on a condition variable with a mutex that is free.
\<close>

theorem unlock_of_free_mutex_panics:
  assumes "current_process k = Some pid" and "mutex_at (pid, mid) k = Some (DynBlocking b)" and "\<not> mb_locked b"
  shows "sys_mutex_unlock mid k = None \<and> (condvar_at (pid, cid) k = Some x \<longrightarrow> sys_condvar_wait cid mid k = None)"
  using assms by (simp add: sys_mutex_unlock_def sys_condvar_wait_def dyn_unlock_def MutexBlocking_unlock_def)

theorem unlock_of_free_mutex_panics_witness: "sys_mutex_unlock 0 (su_kernel sample_sync) = None"
proof -
  have "current_process (su_kernel sample_sync) = Some 1" "mutex_at (1, 0) (su_kernel sample_sync) = Some (DynBlocking MutexBlocking_new)"
    by (simp_all add: sample_sync_def sample_threads_def current_process_def current_task_def mutex_at_def slot_def)
  from unlock_of_free_mutex_panics [OF this] show ?thesis
    by (simp add: MutexBlocking_new_def)
qed

end
