(* ===== verification/SysNet.thy ===== *)
theory SysNet
  imports SysSync
begin

text \<open>
  The handling of network packets (\<open>net_interrupt_handler\<close> in \<^verbatim>\<open>os/src/net/mod.rs\<close>), the acceptance of connections
  (\<^verbatim>\<open>os/src/net/port_table.rs\<close>), reading from connections (\<^verbatim>\<open>os/src/net/tcp.rs\<close>, \<^verbatim>\<open>os/src/net/udp.rs\<close>) and the system
  calls \<open>connect\<close>, \<open>listen\<close> and \<open>accept\<close> (\<^verbatim>\<open>os/src/syscall/net.rs\<close>). The frames that arrive while a call polls the device are an
  argument; a call that has seen all of them waits for the next one.
\<close>

section \<open>State\<close>

record net_sys =
  nt_kernel :: kernel
  nt_sockets :: sockets
  nt_ports :: ports
  nt_sent :: "bytes list" \<comment> \<open>frames given to \<open>NET_DEVICE.transmit\<close>\<close>

definition transmit :: "bytes \<Rightarrow> net_sys \<Rightarrow> net_sys" where
  "transmit f s = s\<lparr>nt_sent := nt_sent s @ [f]\<rparr>"

definition pfiles_of :: "ProcessControlBlock \<Rightarrow> pfiles" where
  "pfiles_of P = \<lparr>fd_table = pcb_fd_table P, cwd = pcb_cwd P, user_token = MemorySet_token (memory_set P)\<rparr>"

section \<open>Connections and packets\<close>

definition accept_connection :: "TCPPacket \<Rightarrow> nat \<Rightarrow> net_sys \<Rightarrow> net_sys option" where
  "accept_connection tp t s = do {
     T \<leftarrow> k_tasks (nt_kernel s) t;
     P \<leftarrow> k_procs (nt_kernel s) (tcb_process T);
     let (fd, p) = alloc_fd (pfiles_of P);
     (c, socks) \<leftarrow> TCP_new (t_source_ip tp) (t_dest_port tp) (t_source_port tp) (t_seq tp) (t_ack tp) (nt_sockets s);
     p \<leftarrow> set_fd fd (FileTcp c) p;
     let k = set_proc (tcb_process T) (P\<lparr>pcb_fd_table := fd_table p\<rparr>) (nt_kernel s);
     cx \<leftarrow> get_trap_cx (tcb_trap_cx_ppn T) (ram (k_mm k));
     k \<leftarrow> write_trap_cx T (cx\<lparr>tc_x := (tc_x cx)[10 := fd]\<rparr>) k;
     Some (s\<lparr>nt_kernel := k, nt_sockets := socks\<rparr>) }"

definition receiving :: "nat \<Rightarrow> Port option \<Rightarrow> bool" where
  "receiving p x = (case x of Some v \<Rightarrow> port v = p \<and> receivable v | None \<Rightarrow> False)"

definition check_accept :: "nat \<Rightarrow> TCPPacket \<Rightarrow> net_sys \<Rightarrow> (bool \<times> net_sys) option" where
  "check_accept p tp s =
     (case find_index (receiving p) (nt_ports s) of
        None \<Rightarrow> Some (False, s)
      | Some i \<Rightarrow> do {
          listen_port \<leftarrow> nt_ports s ! i;
          case schedule listen_port of
            None \<Rightarrow> Some (False, s)
          | Some t \<Rightarrow> do {
              s \<leftarrow> accept_connection tp t (s\<lparr>nt_ports := (nt_ports s)[i := Some (listen_port\<lparr>schedule := None, receivable := False\<rparr>)]\<rparr>);
              Some (True, s) } })"

definition tcp_deliver :: "TCPPacket \<Rightarrow> net_sys \<Rightarrow> net_sys option" where
  "tcp_deliver t s = (case get_socket (t_source_ip t) (t_dest_port t) (t_source_port t) (nt_sockets s) of
       Some i \<Rightarrow> do {
         T \<leftarrow> push_data i (t_data t) (nt_sockets s);
         T \<leftarrow> set_sa_by_index i (t_seq t) (t_ack t) T;
         Some (s\<lparr>nt_sockets := T\<rparr>) }
     | None \<Rightarrow> Some s)"

definition handle_packet :: "'p LoseStack \<Rightarrow> 'p Packet \<Rightarrow> net_sys \<Rightarrow> net_sys option" where
  "handle_packet st pkt s = (case pkt of
       PktARP a \<Rightarrow> do { r \<leftarrow> arp_reply st a (stack_ip st) (stack_mac st); Some (transmit r s) }
     | PktUDP u \<Rightarrow>
         (case get_socket (u_source_ip u) (u_dest_port u) (u_source_port u) (nt_sockets s) of
            Some i \<Rightarrow> do { T \<leftarrow> push_data i (u_data u) (nt_sockets s); Some (s\<lparr>nt_sockets := T\<rparr>) }
          | None \<Rightarrow> Some s)
     | PktTCP t \<Rightarrow>
         if TcpS \<in> t_flags t then do {
           (b, s) \<leftarrow> check_accept (t_dest_port t) t s;
           Some (if b then transmit (tcp_build st ((tcp_reply st t)\<lparr>t_flags := {TcpS, TcpA}\<rparr>)) s else s) }
         else if TcpF \<in> t_flags t then
           (let reply = tcp_reply st t; s = transmit (tcp_build st reply) s;
                last = tcp_reply st reply; last = last\<lparr>t_flags := insert TcpF (t_flags last)\<rparr>;
                s = transmit (tcp_build st last) s
            in tcp_deliver t s)
         else if TcpA \<in> t_flags t \<and> t_data_len t = 0 then Some s
         else tcp_deliver t s
     | PktOther \<Rightarrow> Some s)"

definition net_interrupt_handler :: "'p LoseStack \<Rightarrow> bytes \<Rightarrow> net_sys \<Rightarrow> net_sys option" where
  \<comment> \<open>\<open>frame\<close>: the bytes that \<open>NET_DEVICE.receive\<close> stored in the buffer of 1024\<close>
  "net_interrupt_handler st frame s = do { ensure (length frame \<le> 1024); handle_packet st (analysis st frame) s }"

section \<open>Reading, writing and dropping\<close>

definition set_ram :: "ram \<Rightarrow> kernel \<Rightarrow> kernel" where
  "set_ram m k = k\<lparr>k_mm := (k_mm k)\<lparr>ram := m\<rparr>\<rparr>"

fun net_read :: "'p LoseStack \<Rightarrow> nat \<Rightarrow> page_slice list \<Rightarrow> bytes list \<Rightarrow> net_sys \<Rightarrow> (nat option \<times> bytes list \<times> net_sys) option" where
  \<comment> \<open>the loop of \<open>TCP::read\<close> and of \<open>UDP::read\<close>: the result, the frames not yet received, and the state;
      the result is \<open>None\<close> while the call waits for a frame\<close>
  "net_read st idx bufs frames s = do {
     (r, T) \<leftarrow> pop_data idx (nt_sockets s);
     case r of
       Some data \<Rightarrow> do {
         (copied, m) \<leftarrow> net_copy_out data 0 bufs (ram (k_mm (nt_kernel s)));
         Some (Some copied, frames, s\<lparr>nt_sockets := T, nt_kernel := set_ram m (nt_kernel s)\<rparr>) }
     | None \<Rightarrow> (case frames of
         [] \<Rightarrow> Some (None, [], s)
       | f # fs \<Rightarrow> do { s \<leftarrow> net_interrupt_handler st f s; net_read st idx bufs fs s }) }"

declare net_read.simps [simp del]

definition TCP_read :: "'p LoseStack \<Rightarrow> TCP \<Rightarrow> page_slice list \<Rightarrow> bytes list \<Rightarrow> net_sys \<Rightarrow> (nat option \<times> bytes list \<times> net_sys) option" where
  "TCP_read st c = net_read st (tcp_sock_idx c)"

definition UDP_read :: "'p LoseStack \<Rightarrow> UDP \<Rightarrow> page_slice list \<Rightarrow> bytes list \<Rightarrow> net_sys \<Rightarrow> (nat option \<times> bytes list \<times> net_sys) option" where
  "UDP_read st c = net_read st (udp_sock_idx c)"

definition File_drop :: "File \<Rightarrow> net_sys \<Rightarrow> net_sys option" where
  \<comment> \<open>when the last reference to the file goes\<close>
  "File_drop f s = (case f of
       FileTcp c \<Rightarrow> do { T \<leftarrow> remove_socket (tcp_sock_idx c) (nt_sockets s); Some (s\<lparr>nt_sockets := T\<rparr>) }
     | FileUdp c \<Rightarrow> do { T \<leftarrow> remove_socket (udp_sock_idx c) (nt_sockets s); Some (s\<lparr>nt_sockets := T\<rparr>) }
     | FilePortFd i \<Rightarrow> do { L \<leftarrow> PortFd_drop i (nt_ports s); Some (s\<lparr>nt_ports := L\<rparr>) }
     | _ \<Rightarrow> Some s)"

section \<open>System calls\<close>

definition sys_connect :: "nat \<Rightarrow> nat \<Rightarrow> nat \<Rightarrow> net_sys \<Rightarrow> (int \<times> net_sys) option" where
  "sys_connect ra lp rp s = do {
     pid \<leftarrow> current_process (nt_kernel s);
     P \<leftarrow> k_procs (nt_kernel s) pid;
     let (fd, p) = alloc_fd (pfiles_of P);
     (c, socks) \<leftarrow> UDP_new ra lp rp (nt_sockets s);
     p \<leftarrow> set_fd fd (FileUdp c) p;
     Some (int fd, s\<lparr>nt_kernel := set_proc pid (P\<lparr>pcb_fd_table := fd_table p\<rparr>) (nt_kernel s), nt_sockets := socks\<rparr>) }"

definition sys_listen :: "nat \<Rightarrow> net_sys \<Rightarrow> (int \<times> net_sys) option" where
  "sys_listen pt s = (case listen pt (nt_ports s) of
       (None, L) \<Rightarrow> Some (- 1, s\<lparr>nt_ports := L\<rparr>)
     | (Some port_idx, L) \<Rightarrow> do {
         pid \<leftarrow> current_process (nt_kernel s);
         P \<leftarrow> k_procs (nt_kernel s) pid;
         let (fd, p) = alloc_fd (pfiles_of P);
         p \<leftarrow> set_fd fd (FilePortFd port_idx) p;
         Some (int port_idx, s\<lparr>nt_ports := L, nt_kernel := set_proc pid (P\<lparr>pcb_fd_table := fd_table p\<rparr>) (nt_kernel s)\<rparr>) })"

fun accept_loop :: "'p LoseStack \<Rightarrow> nat \<Rightarrow> bytes list \<Rightarrow> net_sys \<Rightarrow> (bool \<times> bytes list \<times> net_sys) option" where
  "accept_loop st port_idx [] s = Some (False, [], s)"
| "accept_loop st port_idx (f # fs) s = do {
     s \<leftarrow> net_interrupt_handler st f s;
     b \<leftarrow> port_acceptable port_idx (nt_ports s);
     if \<not> b then Some (True, fs, s) else accept_loop st port_idx fs s }"

definition sys_accept :: "'p LoseStack \<Rightarrow> nat \<Rightarrow> bytes list \<Rightarrow> net_sys \<Rightarrow> (int option \<times> bytes list \<times> net_sys) option" where
  "sys_accept st port_idx frames s = do {
     t \<leftarrow> current_task (nt_kernel s);
     L \<leftarrow> accept port_idx t (nt_ports s);
     (finished, fs, s) \<leftarrow> accept_loop st port_idx frames (s\<lparr>nt_ports := L\<rparr>);
     if \<not> finished then Some (None, fs, s)
     else do {
       T \<leftarrow> k_tasks (nt_kernel s) t;
       cx \<leftarrow> get_trap_cx (tcb_trap_cx_ppn T) (ram (k_mm (nt_kernel s)));
       x \<leftarrow> index_get (tc_x cx) 10;
       Some (Some (isize (int x)), fs, s) } }"

section \<open>Files and sockets\<close>

definition net_files :: "kernel \<Rightarrow> File set" where
  "net_files k = {f. \<exists>pid P. k_procs k pid = Some P \<and> Some f \<in> set (pcb_fd_table P)}"

fun file_socket :: "File \<Rightarrow> (nat \<times> nat \<times> nat \<times> nat) option" where
  "file_socket (FileTcp c) = Some (tcp_sock_idx c, tcp_target c, tcp_sport c, tcp_dport c)"
| "file_socket (FileUdp c) = Some (udp_sock_idx c, udp_target c, udp_sport c, udp_dport c)"
| "file_socket _ = None"

definition net_inv :: "net_sys \<Rightarrow> bool" where
  \<comment> \<open>the sockets are those of the open connections, each with its own slot and endpoint\<close>
  "net_inv s \<longleftrightarrow> sockets_ok (nt_sockets s) \<and>
     {(i, endpoint x) |i x. slot (nt_sockets s) i = Some x} = {c. \<exists>f \<in> net_files (nt_kernel s). file_socket f = Some c} \<and>
     (\<forall>f \<in> net_files (nt_kernel s). \<forall>g \<in> net_files (nt_kernel s). \<forall>i e e'. file_socket f = Some (i, e) \<and> file_socket g = Some (i, e') \<longrightarrow> f = g)"

lemma net_invD:
  assumes "net_inv s"
  shows "sockets_ok (nt_sockets s)"
    and "f \<in> net_files (nt_kernel s) \<Longrightarrow> file_socket f = Some (i, e) \<Longrightarrow> \<exists>x. slot (nt_sockets s) i = Some x \<and> endpoint x = e"
    and "slot (nt_sockets s) i = Some x \<Longrightarrow> \<exists>f \<in> net_files (nt_kernel s). file_socket f = Some (i, endpoint x)"
    and "f \<in> net_files (nt_kernel s) \<Longrightarrow> g \<in> net_files (nt_kernel s) \<Longrightarrow> file_socket f = Some (i, e) \<Longrightarrow> file_socket g = Some (i, e') \<Longrightarrow> f = g"
proof -
  note d = assms [unfolded net_inv_def]
  show "sockets_ok (nt_sockets s)"
    using d by blast
  have e: "(i, e) \<in> {(i, endpoint x) |i x. slot (nt_sockets s) i = Some x} \<longleftrightarrow> (\<exists>f \<in> net_files (nt_kernel s). file_socket f = Some (i, e))" for i e
    using d by (auto simp only:)
  show "f \<in> net_files (nt_kernel s) \<Longrightarrow> file_socket f = Some (i, e) \<Longrightarrow> \<exists>x. slot (nt_sockets s) i = Some x \<and> endpoint x = e"
    using e [of i e] by auto
  show "slot (nt_sockets s) i = Some x \<Longrightarrow> \<exists>f \<in> net_files (nt_kernel s). file_socket f = Some (i, endpoint x)"
    using e [of i "endpoint x"] by auto
  show "f \<in> net_files (nt_kernel s) \<Longrightarrow> g \<in> net_files (nt_kernel s) \<Longrightarrow> file_socket f = Some (i, e) \<Longrightarrow> file_socket g = Some (i, e') \<Longrightarrow> f = g"
    using d by blast
qed

lemma net_inv_same:
  assumes inv: "net_inv s" and ok: "sockets_ok (nt_sockets s')"
    and sl: "\<And>i. map_option endpoint (slot (nt_sockets s') i) = map_option endpoint (slot (nt_sockets s) i)"
    and nf: "\<And>f. file_socket f \<noteq> None \<Longrightarrow> f \<in> net_files (nt_kernel s') \<longleftrightarrow> f \<in> net_files (nt_kernel s)"
  shows "net_inv s'"
proof -
  have "{(i, endpoint x) |i x. slot T i = Some x} = {(i, e). map_option endpoint (slot T i) = Some e}" for T
    by auto
  then have "{(i, endpoint x) |i x. slot (nt_sockets s') i = Some x} = {(i, endpoint x) |i x. slot (nt_sockets s) i = Some x}"
    using sl by (simp only:)
  moreover have "{c. \<exists>f \<in> net_files (nt_kernel s'). file_socket f = Some c} = {c. \<exists>f \<in> net_files (nt_kernel s). file_socket f = Some c}"
    using nf by (metis option.distinct(1))
  ultimately show ?thesis
    using inv ok nf unfolding net_inv_def by (metis (no_types, lifting) option.distinct(1))
qed

lemma net_inv_add:
  assumes inv: "net_inv s" and ok: "sockets_ok (nt_sockets s')" and f: "file_socket f = Some (i, e)" and free: "slot (nt_sockets s) i = None"
    and sl: "\<And>j. slot (nt_sockets s') j = (if j = i then Some x else slot (nt_sockets s) j)" "endpoint x = e"
    and nf: "net_files (nt_kernel s') = insert f (net_files (nt_kernel s))"
  shows "net_inv s'"
proof -
  note D = net_invD [OF inv]
  have "{(i, endpoint x) |i x. slot (nt_sockets s') i = Some x} = insert (i, e) {(i, endpoint x) |i x. slot (nt_sockets s) i = Some x}"
    using sl free by (auto split: if_splits)
  also have "\<dots> = {c. \<exists>f \<in> net_files (nt_kernel s'). file_socket f = Some c}"
    using inv f unfolding net_inv_def nf by auto
  finally have eq: "{(i, endpoint x) |i x. slot (nt_sockets s') i = Some x} = {c. \<exists>f \<in> net_files (nt_kernel s'). file_socket f = Some c}" .
  have new: "file_socket g \<noteq> Some (i, e')" if "g \<in> net_files (nt_kernel s)" for g e'
    using D(2) [OF that] free by fastforce
  have "g = h" if "g \<in> net_files (nt_kernel s')" "h \<in> net_files (nt_kernel s')" "file_socket g = Some (j, a)" "file_socket h = Some (j, b)" for g h j a b
    using that f new D(4) unfolding nf by (metis insertE option.inject prod.inject)
  then show ?thesis
    using ok eq unfolding net_inv_def by blast
qed

lemma net_inv_remove:
  assumes inv: "net_inv s" and ok: "sockets_ok (nt_sockets s')" and f: "f \<in> net_files (nt_kernel s)" "file_socket f = Some (i, e)"
    and sl: "\<And>j. slot (nt_sockets s') j = (if j = i then None else slot (nt_sockets s) j)"
    and nf: "net_files (nt_kernel s') = net_files (nt_kernel s) - {f}"
  shows "net_inv s'"
proof -
  note D = net_invD [OF inv]
  have "{(j, endpoint x) |j x. slot (nt_sockets s') j = Some x} = {(j, endpoint x) |j x. slot (nt_sockets s) j = Some x} - {i} \<times> UNIV"
    using sl by (auto split: if_splits)
  also have "\<dots> = {c. \<exists>f \<in> net_files (nt_kernel s). file_socket f = Some c} - {i} \<times> UNIV"
    using inv unfolding net_inv_def by simp
  also have "\<dots> = {c. \<exists>f \<in> net_files (nt_kernel s'). file_socket f = Some c}"
    using f D(4) [OF _ f(1) _ f(2)] unfolding nf by fastforce
  finally have eq: "{(j, endpoint x) |j x. slot (nt_sockets s') j = Some x} = {c. \<exists>f \<in> net_files (nt_kernel s'). file_socket f = Some c}" .
  show ?thesis
    using ok eq inv unfolding net_inv_def nf by blast
qed

lemma fd_files:
  assumes "alloc_fd p = (fd, p1)"
  shows "\<exists>p2. set_fd fd f p1 = Some p2 \<and> (\<forall>g. Some g \<in> set (fd_table p2) \<longleftrightarrow> g = f \<or> Some g \<in> set (fd_table p)) \<and> fd_table p2 ! fd = Some f"
proof (cases "List.find (\<lambda>i. fd_table p ! i = None) [0..<length (fd_table p)]")
  case None
  then have "fd = length (fd_table p)" "fd_table p1 = fd_table p @ [None]"
    using assms by (auto simp: alloc_fd_def)
  then show ?thesis
    by (auto simp: set_fd_def list_update_append)
next
  case (Some i)
  then have p: "fd = i" "p1 = p"
    using assms by (auto simp: alloc_fd_def)
  have i: "i < length (fd_table p)" "fd_table p ! i = None"
    using Some by (auto simp: find_Some_iff)
  have "Some g \<in> set ((fd_table p)[i := Some f]) \<longleftrightarrow> g = f \<or> Some g \<in> set (fd_table p)" for g
    using i by (metis in_set_conv_nth length_list_update nth_list_update option.distinct(1) option.inject set_update_memI)
  then show ?thesis
    using i p by (simp add: set_fd_def)
qed

lemma net_files_set_proc:
  assumes "k_procs k pid = Some P" and "\<And>g. Some g \<in> set tb \<longleftrightarrow> g = f \<or> Some g \<in> set (pcb_fd_table P)"
  shows "net_files (set_proc pid (P\<lparr>pcb_fd_table := tb\<rparr>) k) = insert f (net_files k)"
proof (rule set_eqI)
  fix g
  have "g \<in> net_files (set_proc pid (P\<lparr>pcb_fd_table := tb\<rparr>) k) \<longleftrightarrow> Some g \<in> set tb \<or> (\<exists>p Q. p \<noteq> pid \<and> k_procs k p = Some Q \<and> Some g \<in> set (pcb_fd_table Q))"
    by (auto simp: net_files_def set_proc_def)
  moreover have "g \<in> net_files k \<longleftrightarrow> Some g \<in> set (pcb_fd_table P) \<or> (\<exists>p Q. p \<noteq> pid \<and> k_procs k p = Some Q \<and> Some g \<in> set (pcb_fd_table Q))"
    using assms(1) unfolding net_files_def mem_Collect_eq by (metis option.inject)
  ultimately show "g \<in> net_files (set_proc pid (P\<lparr>pcb_fd_table := tb\<rparr>) k) \<longleftrightarrow> g \<in> insert f (net_files k)"
    using assms(2) by auto
qed

lemma net_files_cong: "k_procs k' = k_procs k \<Longrightarrow> net_files k' = net_files k"
  by (simp add: net_files_def)

section \<open>The invariant under packets and calls\<close>

lemma endpoint_upd [simp]: "endpoint (x\<lparr>so_buffers := b\<rparr>) = endpoint x" "endpoint (x\<lparr>so_seq := a\<rparr>) = endpoint x" "endpoint (x\<lparr>so_ack := a\<rparr>) = endpoint x"
  by (simp_all add: endpoint_def)

lemma get_socket_slot: "get_socket ra lp rp T = Some i \<Longrightarrow> \<exists>x. slot T i = Some x"
  using get_socket_Some by blast

lemma push_inv:
  assumes inv: "net_inv s" and i: "slot (nt_sockets s) i = Some x"
  shows "\<exists>T. push_data i d (nt_sockets s) = Some T \<and> net_inv (s\<lparr>nt_sockets := T\<rparr>) \<and> slot T i = Some (x\<lparr>so_buffers := so_buffers x @ [d]\<rparr>)"
proof -
  obtain T where T: "push_data i d (nt_sockets s) = Some T" "sockets_ok T" "slot T = (slot (nt_sockets s))(i \<mapsto> x\<lparr>so_buffers := so_buffers x @ [d]\<rparr>)"
    using push_data_spec [OF net_invD(1) [OF inv] i] by blast
  then have "net_inv (s\<lparr>nt_sockets := T\<rparr>)"
    using i by (intro net_inv_same [OF inv]) auto
  then show ?thesis
    using T by simp
qed

lemma transmit_inv: "net_inv (transmit f s) = net_inv s"
  by (simp add: net_inv_def transmit_def)

lemma tcp_deliver_inv:
  assumes inv: "net_inv s"
  shows "\<exists>s'. tcp_deliver t s = Some s' \<and> net_inv s' \<and> nt_ports s' = nt_ports s"
proof (cases "get_socket (t_source_ip t) (t_dest_port t) (t_source_port t) (nt_sockets s)")
  case None
  then show ?thesis
    using inv by (simp add: tcp_deliver_def)
next
  case (Some i)
  then obtain x where x: "slot (nt_sockets s) i = Some x"
    using get_socket_slot by blast
  obtain T where T: "push_data i (t_data t) (nt_sockets s) = Some T" "net_inv (s\<lparr>nt_sockets := T\<rparr>)" "slot T i = Some (x\<lparr>so_buffers := so_buffers x @ [t_data t]\<rparr>)"
    using push_inv [OF inv x] by blast
  have ok: "sockets_ok T"
    using net_invD(1) [OF T(2)] by simp
  obtain T' where T': "set_sa_by_index i (t_seq t) (t_ack t) T = Some T'" "sockets_ok T'"
      "slot T' = (slot T)(i \<mapsto> x\<lparr>so_buffers := so_buffers x @ [t_data t]\<rparr>\<lparr>so_seq := t_seq t, so_ack := t_ack t\<rparr>)"
    using set_sa_spec [OF ok T(3)] by blast
  have "net_inv (s\<lparr>nt_sockets := T'\<rparr>)"
    using T' T(3) by (intro net_inv_same [OF T(2)]) auto
  then show ?thesis
    using Some T(1) T'(1) by (simp add: tcp_deliver_def)
qed

lemma add_socket_slots:
  assumes ok: "sockets_ok T" and a: "add_socket ra lp rp T = (Some i, T')"
  shows "slot T i = None" and "sockets_ok T'" and "\<exists>x. endpoint x = (ra, lp, rp) \<and> (\<forall>j. slot T' j = (if j = i then Some x else slot T j))"
proof -
  define y where "y = \<lparr>raddr = ra, lport = lp, rport = rp, so_buffers = [], so_seq = 0, so_ack = 0\<rparr>"
  have s: "slot_new y T = (i, T')"
    using a by (cases "slot_new y T") (auto simp: add_socket_def y_def split: if_splits)
  show "slot T i = None"
    by (rule slot_new_at(1) [OF s])
  show "\<exists>x. endpoint x = (ra, lp, rp) \<and> (\<forall>j. slot T' j = (if j = i then Some x else slot T j))"
    using slot_new_at(2) [OF s] by (intro exI [of _ y]) (simp add: y_def endpoint_def)
  show "sockets_ok T'"
    using add_socket_spec [OF ok, of ra lp rp] a by (cases "queue_of T (ra, lp, rp)") auto
qed

lemma TCP_new_slots:
  assumes ok: "sockets_ok T" and "TCP_new target sport dport sq ak T = Some (c, T')"
  shows "\<exists>i x. file_socket (FileTcp c) = Some (i, target, sport, dport) \<and> slot T i = None \<and> sockets_ok T' \<and> endpoint x = (target, sport, dport) \<and>
    (\<forall>j. slot T' j = (if j = i then Some x else slot T j))"
proof -
  obtain i where i: "add_socket target sport dport T = (Some i, T')" "file_socket (FileTcp c) = Some (i, target, sport, dport)"
    using assms(2) by (cases "add_socket target sport dport T") (auto simp: TCP_new_def Let_def split: Option.bind_splits)
  then show ?thesis
    using add_socket_slots [OF ok i(1)] by blast
qed

lemma UDP_new_slots:
  assumes ok: "sockets_ok T" and "UDP_new target sport dport T = Some (c, T')"
  shows "\<exists>i x. file_socket (FileUdp c) = Some (i, target, sport, dport) \<and> slot T i = None \<and> sockets_ok T' \<and> endpoint x = (target, sport, dport) \<and>
    (\<forall>j. slot T' j = (if j = i then Some x else slot T j))"
proof -
  obtain i where i: "add_socket target sport dport T = (Some i, T')" "file_socket (FileUdp c) = Some (i, target, sport, dport)"
    using assms(2) by (cases "add_socket target sport dport T") (auto simp: UDP_new_def Let_def split: Option.bind_splits)
  then show ?thesis
    using add_socket_slots [OF ok i(1)] by blast
qed

lemma new_file_inv:
  assumes inv: "net_inv s" and P: "k_procs (nt_kernel s) pid = Some P" and fd: "alloc_fd (pfiles_of P) = (fd, p1)" "set_fd fd f p1 = Some p2"
    and k': "k_procs k' = k_procs (set_proc pid (P\<lparr>pcb_fd_table := fd_table p2\<rparr>) (nt_kernel s))"
  shows "file_socket f = Some (i, e) \<Longrightarrow> slot (nt_sockets s) i = None \<Longrightarrow> sockets_ok T' \<Longrightarrow> endpoint x = e \<Longrightarrow>
      (\<forall>j. slot T' j = (if j = i then Some x else slot (nt_sockets s) j)) \<Longrightarrow> net_inv (s\<lparr>nt_kernel := k', nt_sockets := T'\<rparr>)"
    and "file_socket f = None \<Longrightarrow> net_inv (s\<lparr>nt_kernel := k'\<rparr>)"
proof -
  have "Some g \<in> set (fd_table p2) \<longleftrightarrow> g = f \<or> Some g \<in> set (pcb_fd_table P)" for g
    using fd_files [OF fd(1), of f] fd(2) by (simp add: pfiles_of_def)
  then have nf: "net_files k' = insert f (net_files (nt_kernel s))"
    using net_files_set_proc [OF P] net_files_cong [OF k'] by simp
  show "net_inv (s\<lparr>nt_kernel := k', nt_sockets := T'\<rparr>)" if "file_socket f = Some (i, e)" "slot (nt_sockets s) i = None" "sockets_ok T'" "endpoint x = e"
      "\<forall>j. slot T' j = (if j = i then Some x else slot (nt_sockets s) j)"
    by (rule net_inv_add [OF inv _ that(1,2)]) (use that nf in auto)
  show "net_inv (s\<lparr>nt_kernel := k'\<rparr>)" if "file_socket f = None"
    by (rule net_inv_same [OF inv]) (use that nf net_invD(1) [OF inv] in auto)
qed

lemma write_trap_cx_procs: "write_trap_cx T cx k = Some k' \<Longrightarrow> k_procs k' = k_procs k"
  by (auto simp: write_trap_cx_def split: Option.bind_splits)

lemma accept_connection_inv:
  assumes inv: "net_inv s" and a: "accept_connection tp t s = Some s'"
  shows "net_inv s'" and "nt_ports s' = nt_ports s"
proof -
  obtain T P fd p1 c socks p2 k' cx where d: "k_tasks (nt_kernel s) t = Some T" "k_procs (nt_kernel s) (tcb_process T) = Some P" "alloc_fd (pfiles_of P) = (fd, p1)"
      "TCP_new (t_source_ip tp) (t_dest_port tp) (t_source_port tp) (t_seq tp) (t_ack tp) (nt_sockets s) = Some (c, socks)" "set_fd fd (FileTcp c) p1 = Some p2"
      "write_trap_cx T cx (set_proc (tcb_process T) (P\<lparr>pcb_fd_table := fd_table p2\<rparr>) (nt_kernel s)) = Some k'" "s' = s\<lparr>nt_kernel := k', nt_sockets := socks\<rparr>"
    using a by (auto simp: accept_connection_def Let_def split: Option.bind_splits prod.splits)
  show "net_inv s'"
    using TCP_new_slots [OF net_invD(1) [OF inv] d(4)] new_file_inv(1) [OF inv d(2,3,5) write_trap_cx_procs [OF d(6)]] d(7) by blast
  show "nt_ports s' = nt_ports s"
    using d(7) by simp
qed

lemma ports_inv: "net_inv (s\<lparr>nt_ports := L\<rparr>) = net_inv s"
  by (simp add: net_inv_def)

lemma handle_packet_inv:
  assumes inv: "net_inv s" and h: "handle_packet st pkt s = Some s'"
  shows "net_inv s'"
proof (cases pkt)
  case (PktARP a)
  then show ?thesis
    using h inv by (auto simp: handle_packet_def transmit_inv split: Option.bind_splits)
next
  case (PktUDP u)
  show ?thesis
  proof (cases "get_socket (u_source_ip u) (u_dest_port u) (u_source_port u) (nt_sockets s)")
    case None
    then show ?thesis
      using h inv PktUDP by (simp add: handle_packet_def)
  next
    case (Some i)
    then obtain x where "slot (nt_sockets s) i = Some x"
      using get_socket_slot by blast
    then show ?thesis
      using h PktUDP Some push_inv [OF inv, of i x "u_data u"] by (auto simp: handle_packet_def)
  qed
next
  case (PktTCP t)
  have "net_inv s1" if "check_accept p t s = Some (b, s1)" for p b s1
  proof -
    have "net_inv s2" if "accept_connection t u (s\<lparr>nt_ports := L\<rparr>) = Some s2" for u L s2
      using accept_connection_inv(1) [OF _ that] inv by (simp add: ports_inv)
    then show ?thesis
      using that inv by (auto simp: check_accept_def split: option.splits Option.bind_splits)
  qed
  moreover have "net_inv s1" if "tcp_deliver t s0 = Some s1" "net_inv s0" for s0 s1
    using tcp_deliver_inv [OF that(2), of t] that(1) by auto
  ultimately show ?thesis
    using h inv PktTCP by (auto simp: handle_packet_def Let_def transmit_inv split: Option.bind_splits if_splits)
qed (use h inv in \<open>simp add: handle_packet_def\<close>)

lemma net_interrupt_handler_inv: "net_inv s \<Longrightarrow> net_interrupt_handler st f s = Some s' \<Longrightarrow> net_inv s'"
  using handle_packet_inv by (auto simp: net_interrupt_handler_def split: if_splits)

lemma pop_inv:
  assumes inv: "net_inv s" and p: "pop_data i (nt_sockets s) = Some (r, T)"
  shows "net_inv (s\<lparr>nt_sockets := T\<rparr>)"
proof -
  obtain x where x: "slot (nt_sockets s) i = Some x"
    using p by (auto simp: pop_data_def slot_def split: if_splits Option.bind_splits)
  show ?thesis
  proof (cases "so_buffers x")
    case Nil
    then show ?thesis
      using pop_data_spec(1) [OF net_invD(1) [OF inv] x] p inv by simp
  next
    case (Cons d ds)
    then have "sockets_ok T" "slot T = (slot (nt_sockets s))(i \<mapsto> x\<lparr>so_buffers := ds\<rparr>)"
      using pop_data_spec(2) [OF net_invD(1) [OF inv] x Cons] p by auto
    then show ?thesis
      using x by (intro net_inv_same [OF inv]) auto
  qed
qed

lemma net_inv_procs: "k_procs k' = k_procs (nt_kernel s) \<Longrightarrow> net_inv (s\<lparr>nt_kernel := k'\<rparr>) = net_inv s"
  using net_files_cong [of k' "nt_kernel s"] by (simp add: net_inv_def)

lemma net_read_inv:
  assumes "net_inv s" and "net_read st idx bufs frames s = Some (r, fs, s')"
  shows "net_inv s'"
  using assms
proof (induction st idx bufs frames s rule: net_read.induct)
  case (1 st idx bufs frames s)
  obtain q T where q: "pop_data idx (nt_sockets s) = Some (q, T)"
    using 1(3) by (subst (asm) net_read.simps) (auto split: Option.bind_splits)
  show ?case
  proof (cases q)
    case (Some d)
    then obtain m where "s' = s\<lparr>nt_sockets := T, nt_kernel := set_ram m (nt_kernel s)\<rparr>"
      using 1(3) q by (subst (asm) net_read.simps) (auto split: Option.bind_splits)
    then show ?thesis
      using pop_inv [OF 1(2) q] net_inv_procs [of "set_ram m (nt_kernel s)" "s\<lparr>nt_sockets := T\<rparr>"] by (simp add: set_ram_def)
  next
    case None
    show ?thesis
    proof (cases frames)
      case Nil
      then show ?thesis
        using 1(2,3) q None by (subst (asm) net_read.simps) simp
    next
      case (Cons f fs0)
      then obtain s1 where s1: "net_interrupt_handler st f s = Some s1" "net_read st idx bufs fs0 s1 = Some (r, fs, s')"
        using 1(3) q None by (subst (asm) net_read.simps) (auto split: Option.bind_splits)
      show ?thesis
        using 1(1) [OF q _ None Cons s1(1) net_interrupt_handler_inv [OF 1(2) s1(1)] s1(2)] by simp
    qed
  qed
qed

lemma accept_loop_inv:
  "net_inv s \<Longrightarrow> accept_loop st idx frames s = Some (r, fs, s') \<Longrightarrow> net_inv s'"
  by (induction st idx frames s rule: accept_loop.induct)
    (auto split: Option.bind_splits if_splits dest: net_interrupt_handler_inv)

lemma sys_accept_inv:
  assumes "net_inv s" and "sys_accept st idx frames s = Some (r, fs, s')"
  shows "net_inv s'"
proof -
  obtain L b fs1 s1 where "accept_loop st idx frames (s\<lparr>nt_ports := L\<rparr>) = Some (b, fs1, s1)" "s' = s1"
    using assms(2) by (auto simp: sys_accept_def split: Option.bind_splits if_splits)
  then show ?thesis
    using accept_loop_inv [of "s\<lparr>nt_ports := L\<rparr>"] assms(1) by (simp add: ports_inv)
qed

lemma sys_connect_inv:
  assumes inv: "net_inv s" and c: "sys_connect ra lp rp s = Some (r, s')"
  shows "net_inv s'"
proof -
  obtain pid P fd p1 c socks p2 where d: "k_procs (nt_kernel s) pid = Some P" "alloc_fd (pfiles_of P) = (fd, p1)" "UDP_new ra lp rp (nt_sockets s) = Some (c, socks)"
      "set_fd fd (FileUdp c) p1 = Some p2" "s' = s\<lparr>nt_kernel := set_proc pid (P\<lparr>pcb_fd_table := fd_table p2\<rparr>) (nt_kernel s), nt_sockets := socks\<rparr>"
    using c by (auto simp: sys_connect_def Let_def split: Option.bind_splits prod.splits)
  then show ?thesis
    using UDP_new_slots [OF net_invD(1) [OF inv] d(3)] new_file_inv(1) [OF inv d(1,2,4) refl] by blast
qed

lemma sys_listen_inv:
  assumes inv: "net_inv s" and c: "sys_listen pt s = Some (r, s')"
  shows "net_inv s'"
proof -
  obtain pid P fd p1 i L p2 where d: "k_procs (nt_kernel s) pid = Some P" "alloc_fd (pfiles_of P) = (fd, p1)"
      "set_fd fd (FilePortFd i) p1 = Some p2" "s' = s\<lparr>nt_ports := L, nt_kernel := set_proc pid (P\<lparr>pcb_fd_table := fd_table p2\<rparr>) (nt_kernel s)\<rparr>"
    using c by (auto simp: sys_listen_def listen_def Let_def split: Option.bind_splits prod.splits)
  then have "s' = s\<lparr>nt_kernel := set_proc pid (P\<lparr>pcb_fd_table := fd_table p2\<rparr>) (nt_kernel s)\<rparr>\<lparr>nt_ports := L\<rparr>"
    by (cases s) simp
  then show ?thesis
    using new_file_inv(2) [OF inv d(1-3) refl] by (simp add: ports_inv)
qed

lemma close_inv:
  assumes inv: "net_inv s" and f: "f \<in> net_files (nt_kernel s)" "net_files k' = net_files (nt_kernel s) - {f}"
    and d: "File_drop f (s\<lparr>nt_kernel := k'\<rparr>) = Some s'"
  shows "net_inv s'"
proof (cases "file_socket f")
  case None
  then have "g \<in> net_files k' \<longleftrightarrow> g \<in> net_files (nt_kernel s)" if "file_socket g \<noteq> None" for g
    using that by (cases "g = f") (simp_all add: f(2))
  then have "net_inv (s\<lparr>nt_kernel := k'\<rparr>)"
    using net_inv_same [OF inv, of "s\<lparr>nt_kernel := k'\<rparr>"] net_invD(1) [OF inv] by simp
  then show ?thesis
    using d None by (auto simp: File_drop_def ports_inv split: File.splits Option.bind_splits)
next
  case (Some c)
  then obtain i e where c: "file_socket f = Some (i, e)"
    by (cases c) auto
  then obtain x where x: "slot (nt_sockets s) i = Some x" "endpoint x = e"
    using net_invD(2) [OF inv f(1)] by blast
  have dr: "remove_socket i (nt_sockets s) = Some (nt_sockets s')" "nt_kernel s' = k'"
    using d c by (cases f; auto simp: File_drop_def split: Option.bind_splits)+
  have "sockets_ok (nt_sockets s')"
    using remove_socket_spec [OF net_invD(1) [OF inv] x(1)] dr by auto
  moreover have "slot (nt_sockets s') j = (if j = i then None else slot (nt_sockets s) j)" for j
    using dr(1) slot_opD(1) [OF x(1)] slot_update [of i "nt_sockets s" None j] by (auto simp: remove_socket_def)
  ultimately show ?thesis
    using net_inv_remove [OF inv _ f(1) c] dr(2) f(2) by blast
qed

inductive net_step :: "'p LoseStack \<Rightarrow> net_sys \<Rightarrow> net_sys \<Rightarrow> bool" for st where
  packet: "net_interrupt_handler st f s = Some s' \<Longrightarrow> net_step st s s'"
| connect: "sys_connect ra lp rp s = Some (r, s') \<Longrightarrow> net_step st s s'"
| listen: "sys_listen p s = Some (r, s') \<Longrightarrow> net_step st s s'"
| accept: "sys_accept st idx frames s = Some (r, fs, s') \<Longrightarrow> net_step st s s'"
| read: "net_read st idx bufs frames s = Some (r, fs, s') \<Longrightarrow> net_step st s s'"
| close: "f \<in> net_files (nt_kernel s) \<Longrightarrow> net_files k' = net_files (nt_kernel s) - {f} \<Longrightarrow> File_drop f (s\<lparr>nt_kernel := k'\<rparr>) = Some s' \<Longrightarrow> net_step st s s'"
| other: "(\<And>f. file_socket f \<noteq> None \<Longrightarrow> f \<in> net_files k' \<longleftrightarrow> f \<in> net_files (nt_kernel s)) \<Longrightarrow> net_step st s (s\<lparr>nt_kernel := k'\<rparr>)"

lemma net_step_inv: "net_step st s s' \<Longrightarrow> net_inv s \<Longrightarrow> net_inv s'"
proof (induction rule: net_step.induct)
  case (other k' s)
  then show ?case
    using net_inv_same [OF other(2), of "s\<lparr>nt_kernel := k'\<rparr>"] net_invD(1) [OF other(2)] by simp
qed (blast intro: net_interrupt_handler_inv sys_connect_inv sys_listen_inv sys_accept_inv net_read_inv close_inv)+

section \<open>Data for an endpoint\<close>

definition frame_payload :: "'p LoseStack \<Rightarrow> nat \<times> nat \<times> nat \<Rightarrow> bytes \<Rightarrow> bytes list" where
  \<comment> \<open>what a frame carries for the endpoint; datagrams and segments are not told apart\<close>
  "frame_payload st e f = (case analysis st f of
     PktUDP u \<Rightarrow> if (u_source_ip u, u_dest_port u, u_source_port u) = e then [u_data u] else []
   | PktTCP t \<Rightarrow> if (t_source_ip t, t_dest_port t, t_source_port t) = e \<and> TcpS \<notin> t_flags t \<and>
         (TcpF \<in> t_flags t \<or> TcpA \<notin> t_flags t \<or> t_data_len t \<noteq> 0) then [t_data t] else []
   | _ \<Rightarrow> [])"

definition payloads :: "'p LoseStack \<Rightarrow> nat \<times> nat \<times> nat \<Rightarrow> bytes list \<Rightarrow> bytes list" where
  "payloads st e frames = concat (map (frame_payload st e) frames)"

definition frame_ok :: "'p LoseStack \<Rightarrow> bytes \<Rightarrow> bool" where
  \<comment> \<open>the frame fits into the buffer, and an ARP request can be answered\<close>
  "frame_ok st f \<longleftrightarrow> length f \<le> 1024 \<and> (\<forall>a. analysis st f = PktARP a \<longrightarrow> arp_reply st a (stack_ip st) (stack_mac st) \<noteq> None)"

definition nobody_accepts :: "ports \<Rightarrow> bool" where
  \<comment> \<open>no task waits in \<open>accept\<close>\<close>
  "nobody_accepts L \<longleftrightarrow> (\<forall>v. Some v \<in> set L \<longrightarrow> schedule v = None)"

lemma check_accept_nobody: "nobody_accepts (nt_ports s) \<Longrightarrow> check_accept p t s = Some (False, s)"
proof (cases "find_index (receiving p) (nt_ports s)")
  case (Some i)
  assume n: "nobody_accepts (nt_ports s)"
  note F = find_index_Some(1,2) [OF Some]
  then obtain v where v: "nt_ports s ! i = Some v"
    by (auto simp: receiving_def split: option.splits)
  then have "schedule v = None"
    using n F(1) nth_mem [OF F(1)] by (simp add: nobody_accepts_def)
  then show ?thesis
    using Some v by (simp add: check_accept_def)
qed (simp add: check_accept_def)

lemma queue_data:
  assumes ok: "sockets_ok T" and x: "slot T i = Some x" and g: "get_socket ra lp rp T = Some j"
  obtains T' x' y where "push_data j d T = Some T'" "sockets_ok T'" "slot T' i = Some x'" "endpoint x' = endpoint x"
    "so_buffers x' = so_buffers x @ (if (ra, lp, rp) = endpoint x then [d] else [])" "slot T' j = Some y"
proof -
  obtain y where y: "slot T j = Some y" "endpoint y = (ra, lp, rp)"
    using get_socket_eq [OF ok] g by blast
  obtain T' where T: "push_data j d T = Some T'" "sockets_ok T'" "slot T' = (slot T)(j \<mapsto> y\<lparr>so_buffers := so_buffers y @ [d]\<rparr>)"
    using push_data_spec [OF ok y(1)] by blast
  show thesis
  proof (cases "j = i")
    case True
    then show ?thesis
      using T x y by (intro that [of T' "x\<lparr>so_buffers := so_buffers x @ [d]\<rparr>"]) auto
  next
    case False
    then have "endpoint x \<noteq> endpoint y"
      using sockets_okD [OF ok x y(1)] by auto
    then show ?thesis
      using T x y False by (intro that [of T' x]) auto
  qed
qed

lemma endpoint_sa [simp]: "endpoint (x\<lparr>so_seq := a, so_ack := b\<rparr>) = endpoint x"
  by (simp add: endpoint_def)

lemma no_socket: "slot T i = Some x \<Longrightarrow> get_socket ra lp rp T = None \<Longrightarrow> (ra, lp, rp) \<noteq> endpoint x"
  using get_socket_None by metis

lemma tcp_deliver_step:
  assumes ok: "sockets_ok (nt_sockets s)" and x: "slot (nt_sockets s) i = Some x"
  shows "\<exists>s1 x'. tcp_deliver t s = Some s1 \<and> nt_kernel s1 = nt_kernel s \<and> nt_ports s1 = nt_ports s \<and> sockets_ok (nt_sockets s1) \<and>
    slot (nt_sockets s1) i = Some x' \<and> endpoint x' = endpoint x \<and>
    so_buffers x' = so_buffers x @ (if (t_source_ip t, t_dest_port t, t_source_port t) = endpoint x then [t_data t] else [])"
proof (cases "get_socket (t_source_ip t) (t_dest_port t) (t_source_port t) (nt_sockets s)")
  case None
  then show ?thesis
    using ok x no_socket [OF x None] by (simp add: tcp_deliver_def)
next
  case (Some j)
  obtain T x' y where T: "push_data j (t_data t) (nt_sockets s) = Some T" "sockets_ok T" "slot T i = Some x'" "endpoint x' = endpoint x"
    "so_buffers x' = so_buffers x @ (if (t_source_ip t, t_dest_port t, t_source_port t) = endpoint x then [t_data t] else [])" "slot T j = Some y"
    by (rule queue_data [OF ok x Some])
  obtain T' where T': "set_sa_by_index j (t_seq t) (t_ack t) T = Some T'" "sockets_ok T'"
    "slot T' = (slot T)(j \<mapsto> y\<lparr>so_seq := t_seq t, so_ack := t_ack t\<rparr>)"
    using set_sa_spec [OF T(2,6)] by blast
  have "\<exists>z. slot T' i = Some z \<and> endpoint z = endpoint x \<and> so_buffers z = so_buffers x'"
    using T(3,4,6) T'(3) by (cases "j = i") auto
  then show ?thesis
    using Some T(1,5) T'(1,2) by (auto simp: tcp_deliver_def)
qed

lemma frame_step:
  assumes ok: "sockets_ok (nt_sockets s)" and x: "slot (nt_sockets s) i = Some x" and f: "frame_ok st f" and n: "nobody_accepts (nt_ports s)"
  shows "\<exists>s1 x'. net_interrupt_handler st f s = Some s1 \<and> nt_kernel s1 = nt_kernel s \<and> nt_ports s1 = nt_ports s \<and> sockets_ok (nt_sockets s1) \<and>
    slot (nt_sockets s1) i = Some x' \<and> endpoint x' = endpoint x \<and> so_buffers x' = so_buffers x @ frame_payload st (endpoint x) f"
proof -
  have h: "net_interrupt_handler st f s = handle_packet st (analysis st f) s"
    using f by (simp add: net_interrupt_handler_def frame_ok_def)
  show ?thesis
  proof (cases "analysis st f")
    case (PktARP a)
    then show ?thesis
      using f ok x unfolding h by (auto simp: frame_ok_def handle_packet_def transmit_def frame_payload_def)
  next
    case (PktUDP u)
    show ?thesis
    proof (cases "get_socket (u_source_ip u) (u_dest_port u) (u_source_port u) (nt_sockets s)")
      case None
      then show ?thesis
        using PktUDP ok x no_socket [OF x None] unfolding h by (simp add: handle_packet_def frame_payload_def)
    next
      case (Some j)
      obtain T x' where "push_data j (u_data u) (nt_sockets s) = Some T" "sockets_ok T" "slot T i = Some x'" "endpoint x' = endpoint x"
        "so_buffers x' = so_buffers x @ (if (u_source_ip u, u_dest_port u, u_source_port u) = endpoint x then [u_data u] else [])"
        by (rule queue_data [OF ok x Some])
      then show ?thesis
        using PktUDP Some unfolding h by (simp add: handle_packet_def frame_payload_def)
    qed
  next
    case (PktTCP t)
    consider "TcpS \<in> t_flags t" | "TcpS \<notin> t_flags t" "TcpF \<in> t_flags t" | "TcpS \<notin> t_flags t" "TcpF \<notin> t_flags t" "TcpA \<in> t_flags t" "t_data_len t = 0"
      | "TcpS \<notin> t_flags t" "TcpF \<notin> t_flags t" "TcpA \<notin> t_flags t \<or> t_data_len t \<noteq> 0"
      by blast
    then show ?thesis
    proof cases
      case 1
      then show ?thesis
        using PktTCP ok x check_accept_nobody [OF n] unfolding h by (simp add: handle_packet_def frame_payload_def)
    next
      case 2
      let ?s = "s\<lparr>nt_sent := nt_sent s @ [tcp_build st (tcp_reply st t)] @
        [tcp_build st ((tcp_reply st (tcp_reply st t))\<lparr>t_flags := insert TcpF (t_flags (tcp_reply st (tcp_reply st t)))\<rparr>)]\<rparr>"
      have "handle_packet st (PktTCP t) s = tcp_deliver t ?s"
        using 2 by (simp add: handle_packet_def transmit_def Let_def)
      then show ?thesis
        using tcp_deliver_step [of ?s i x t] ok x 2 PktTCP unfolding h by (simp add: frame_payload_def)
    next
      case 3
      then show ?thesis
        using PktTCP ok x unfolding h by (simp add: handle_packet_def frame_payload_def)
    next
      case 4
      then have "handle_packet st (PktTCP t) s = tcp_deliver t s"
        by (auto simp: handle_packet_def)
      then show ?thesis
        using tcp_deliver_step [OF ok x, of t] 4 PktTCP unfolding h by (simp add: frame_payload_def)
    qed
  next
    case PktOther
    then show ?thesis
      using ok x unfolding h by (simp add: handle_packet_def frame_payload_def)
  qed
qed

lemma net_read_spec:
  assumes "sockets_ok (nt_sockets s)" and "slot (nt_sockets s) i = Some x" and "endpoint x = e" and "nobody_accepts (nt_ports s)"
    and "\<forall>f \<in> set frames. frame_ok st f"
    and "segs_ok bufs (ram (k_mm (nt_kernel s)))" and "distinct (segs_refs bufs)" and "so_buffers x @ payloads st e frames = d # ds"
    and "n = min (UserBuffer_len bufs) (length d)"
  shows "\<exists>fs s' x'. net_read st i bufs frames s = Some (Some n, fs, s') \<and> slot (nt_sockets s') i = Some x' \<and> endpoint x' = e \<and>
    so_buffers x' @ payloads st e fs = ds \<and> ram (k_mm (nt_kernel s')) = store_bytes (segs_refs bufs) (take n d) (ram (k_mm (nt_kernel s)))"
  using assms(1-6,8)
proof (induction frames arbitrary: s x)
  case Nil
  then have q: "so_buffers x = d # ds"
    by (simp add: payloads_def)
  from pop_data_spec(2) [OF Nil.prems(1,2) q] obtain T where T: "pop_data i (nt_sockets s) = Some (Some d, T)" "slot T = (slot (nt_sockets s))(i \<mapsto> x\<lparr>so_buffers := ds\<rparr>)"
    by blast
  show ?case
    using T net_copy_out_spec [OF Nil.prems(6) assms(7), of 0 d n] assms(9) Nil.prems(3)
    by (subst net_read.simps) (simp add: set_ram_def slice_def payloads_def)
next
  case (Cons f frames)
  show ?case
  proof (cases "so_buffers x")
    case Nil
    obtain s1 y where y: "net_interrupt_handler st f s = Some s1" "nt_kernel s1 = nt_kernel s" "nt_ports s1 = nt_ports s" "sockets_ok (nt_sockets s1)"
        "slot (nt_sockets s1) i = Some y" "endpoint y = e" "so_buffers y = frame_payload st e f"
      using frame_step [OF Cons.prems(1,2), of st f] Cons.prems(3,4,5) Nil by auto
    have "so_buffers y @ payloads st e frames = d # ds"
      using Cons.prems(7) Nil y(7) by (simp add: payloads_def)
    then show ?thesis
      using Cons.IH [of s1 y] y Cons.prems(4-6) pop_data_spec(1) [OF Cons.prems(1,2) Nil]
      by (subst net_read.simps) simp
  next
    case q: (Cons d' ds')
    then have d: "d' = d" "ds' @ payloads st e (f # frames) = ds"
      using Cons.prems(7) by simp_all
    from pop_data_spec(2) [OF Cons.prems(1,2) q] obtain T where T: "pop_data i (nt_sockets s) = Some (Some d, T)"
        "slot T = (slot (nt_sockets s))(i \<mapsto> x\<lparr>so_buffers := ds'\<rparr>)"
      using d(1) by blast
    show ?thesis
      using T net_copy_out_spec [OF Cons.prems(6) assms(7), of 0 d n] assms(9) Cons.prems(3) d(2)
      by (subst net_read.simps) (simp add: set_ram_def slice_def)
  qed
qed

section \<open>Listeners\<close>

definition starving :: "nat \<Rightarrow> nat \<Rightarrow> nat \<Rightarrow> ports \<Rightarrow> bool" where
  \<comment> \<open>\<open>i\<close> is the first that listens on the port and nobody accepts there; \<open>j\<close> listens on the port too\<close>
  "starving p i j L \<longleftrightarrow> find_index (receiving p) L = Some i \<and> (\<exists>v. L ! i = Some v \<and> schedule v = None) \<and> receiving p (slot L j)"

lemma find_index_other:
  assumes "find_index f xs = Some i" and "\<not> f (xs ! q)" and "\<not> f y"
  shows "find_index f (xs[q := y]) = Some i"
proof -
  have "f (xs[q := y] ! j) = f (xs ! j)" if "j < length xs" for j
    using assms(2,3) that by (cases "q = j") simp_all
  then have "find_index f xs = find_index f (xs[q := y])"
    unfolding find_index_def by (intro find_cong) auto
  then show ?thesis
    using assms(1) by simp
qed

lemma find_index_later:
  assumes "find_index f xs = Some i" and "i < j"
  shows "find_index f (xs[j := y]) = Some i"
  using assms unfolding find_index_def by (fastforce simp: find_Some_iff)

lemma check_accept_starving:
  assumes "starving p i j (nt_ports s)" and "check_accept pt t s = Some (b, s')"
  shows "starving p i j (nt_ports s') \<and> (pt = p \<longrightarrow> \<not> b)"
proof (cases "pt = p")
  case True
  then show ?thesis
    using assms by (auto simp: starving_def check_accept_def)
next
  case False
  show ?thesis
  proof (cases "nt_ports s' = nt_ports s")
    case True
    then show ?thesis
      using assms(1) False by simp
  next
    case changed: False
    obtain q v u s1 where q: "find_index (receiving pt) (nt_ports s) = Some q" "nt_ports s ! q = Some v" "schedule v = Some u"
        "accept_connection t u (s\<lparr>nt_ports := (nt_ports s)[q := Some (v\<lparr>schedule := None, receivable := False\<rparr>)]\<rparr>) = Some s'"
      using assms(2) changed by (auto simp: check_accept_def split: option.splits Option.bind_splits)
    let ?L = "(nt_ports s)[q := Some (v\<lparr>schedule := None, receivable := False\<rparr>)]"
    have "nt_ports s' = ?L"
      using q(4) by (auto simp: accept_connection_def Let_def split: Option.bind_splits prod.splits)
    moreover have "\<not> receiving p (nt_ports s ! q)"
      using find_index_Some(2) [OF q(1)] False by (auto simp: receiving_def split: option.splits)
    moreover have "\<not> receiving p (Some (v\<lparr>schedule := None, receivable := False\<rparr>))"
      by (simp add: receiving_def)
    moreover have "find_index (receiving p) (nt_ports s) = Some i" "receiving p (slot (nt_ports s) j)"
      using assms(1) by (simp_all add: starving_def)
    moreover from this have "q \<noteq> i" "q \<noteq> j"
      using find_index_Some(2) [of "receiving p" "nt_ports s" i] calculation(2) by (auto simp: slot_def receiving_def split: if_splits)
    ultimately show ?thesis
      using assms(1) find_index_other [of "receiving p" "nt_ports s" i q] False
      by (auto simp: starving_def slot_def)
  qed
qed

lemma handle_packet_starving:
  assumes "starving p i j (nt_ports s)" and "handle_packet st pkt s = Some s'"
  shows "starving p i j (nt_ports s')"
proof -
  have d: "nt_ports s2 = nt_ports s1" if "tcp_deliver t s1 = Some s2" for t s1 s2
    using that by (auto simp: tcp_deliver_def split: option.splits Option.bind_splits)
  show ?thesis
    using assms check_accept_starving [OF assms(1)]
    by (auto simp: handle_packet_def transmit_def Let_def split: Packet.splits option.splits Option.bind_splits if_splits dest!: d)
qed

lemma accept_loop_starving:
  "starving p i j (nt_ports s) \<Longrightarrow> accept_loop st j frames s = Some (b, fs, s') \<Longrightarrow> \<not> b"
proof (induction st j frames s rule: accept_loop.induct)
  case (2 st j f frames s)
  obtain s1 where s1: "net_interrupt_handler st f s = Some s1"
    using 2(3) by (auto split: Option.bind_splits)
  then have st: "starving p i j (nt_ports s1)"
    using handle_packet_starving [OF 2(2)] by (auto simp: net_interrupt_handler_def split: if_splits)
  then have "port_acceptable j (nt_ports s1) = Some True"
    by (auto simp: starving_def receiving_def slot_def port_acceptable_def split: if_splits option.splits)
  then show ?case
    using 2(1) [OF s1 _ _ st] 2(3) s1 by auto
qed simp

section \<open>Properties\<close>

text \<open>
  C34. Connections and sockets under every sequence of packets, network calls and other calls: the occupied slots of the socket table are exactly those of the
  connections that are open in some process, so that reading from and writing to an open connection finds its socket; a new connection is possible
  exactly when no open connection has the same remote address and ports, and otherwise \<open>connect\<close> panics.
\<close>

theorem connections_have_sockets:
  assumes "net_inv s0" and "(net_step st)\<^sup>*\<^sup>* s0 s"
  shows "(\<forall>f i ra lp rp. f \<in> net_files (nt_kernel s) \<and> file_socket f = Some (i, ra, lp, rp) \<longrightarrow>
      get_socket ra lp rp (nt_sockets s) = Some i \<and> pop_data i (nt_sockets s) \<noteq> None \<and> (\<exists>sa. get_sa_by_index i (nt_sockets s) = Some (Some sa))) \<and>
    (\<forall>ra lp rp. UDP_new ra lp rp (nt_sockets s) = None \<longleftrightarrow> (\<exists>f \<in> net_files (nt_kernel s). \<exists>i. file_socket f = Some (i, ra, lp, rp)))"
proof (intro conjI allI impI)
  have inv: "net_inv s"
    using assms(2,1) by (induction rule: rtranclp_induct) (auto intro: net_step_inv)
  note D = net_invD [OF inv]
  fix ra lp rp
  show "UDP_new ra lp rp (nt_sockets s) = None \<longleftrightarrow> (\<exists>f \<in> net_files (nt_kernel s). \<exists>i. file_socket f = Some (i, ra, lp, rp))"
  proof -
    have "UDP_new ra lp rp (nt_sockets s) = None \<longleftrightarrow> get_socket ra lp rp (nt_sockets s) \<noteq> None"
      by (cases "slot_new \<lparr>raddr = ra, lport = lp, rport = rp, so_buffers = [], so_seq = 0, so_ack = 0\<rparr> (nt_sockets s)")
        (auto simp: UDP_new_def add_socket_def)
    also have "\<dots> \<longleftrightarrow> (\<exists>i x. slot (nt_sockets s) i = Some x \<and> endpoint x = (ra, lp, rp))"
      using get_socket_None [of ra lp rp "nt_sockets s"] by simp
    also have "\<dots> \<longleftrightarrow> (\<exists>f \<in> net_files (nt_kernel s). \<exists>i. file_socket f = Some (i, ra, lp, rp))"
      using D(2,3) by metis
    finally show ?thesis .
  qed
  fix f i
  assume f: "f \<in> net_files (nt_kernel s) \<and> file_socket f = Some (i, ra, lp, rp)"
  then obtain x where x: "slot (nt_sockets s) i = Some x" "endpoint x = (ra, lp, rp)"
    using D(2) by blast
  show "get_socket ra lp rp (nt_sockets s) = Some i"
    using get_socket_eq [OF D(1)] x by blast
  show "pop_data i (nt_sockets s) \<noteq> None" "\<exists>sa. get_sa_by_index i (nt_sockets s) = Some (Some sa)"
    using slot_opD [OF x(1)] by (auto simp: pop_data_def get_sa_by_index_def)
qed

definition sample_stack :: "bytes LoseStack" where
  \<comment> \<open>frames are datagrams from one peer: two ports and the data\<close>
  "sample_stack = \<lparr>stack_ip = 167772687, stack_mac = [82, 84, 0, 18, 52, 86], analysis = (\<lambda>f. if length f < 2 then PktOther
     else PktUDP \<lparr>u_source_ip = 167772674, u_source_mac = [], u_source_port = unat (f ! 0), u_dest_ip = 167772687, u_dest_mac = [], u_dest_port = unat (f ! 1),
       u_data_len = length f - 2, u_data = drop 2 f\<rparr>),
     arp_reply = (\<lambda>_ _ _. None), tcp_reply = (\<lambda>t. t), tcp_build = t_data, udp_build = u_data\<rparr>"

definition sample_net :: net_sys where
  "sample_net = \<lparr>nt_kernel = sample_kernel, nt_sockets = [], nt_ports = [], nt_sent = []\<rparr>"

lemma sample_net_inv: "net_inv sample_net"
  by (auto simp: net_inv_def sample_net_def sockets_ok_def slot_def net_files_def sample_kernel_def sample_process_def blank_process_def split: if_splits)

theorem connections_have_sockets_witness:
  "\<exists>s f. (net_step sample_stack)\<^sup>*\<^sup>* sample_net s \<and> f \<in> net_files (nt_kernel s) \<and> file_socket f = Some (0, 5, 7, 9) \<and> UDP_new 5 7 9 (nt_sockets s) = None"
proof -
  let ?P = "sample_process None [1, 2] False"
  let ?c = "\<lparr>udp_target = 5, udp_sport = 7, udp_dport = 9, udp_sock_idx = 0\<rparr>"
  let ?k = "set_proc 0 (?P\<lparr>pcb_fd_table := [Some (FileUdp ?c)]\<rparr>) sample_kernel"
  have cur: "current_process sample_kernel = Some 0" "k_procs sample_kernel 0 = Some ?P" "pcb_fd_table ?P = []"
    by (simp_all add: sample_kernel_def current_process_def current_task_def sample_process_def blank_process_def)
  have c: "sys_connect 5 7 9 sample_net = Some (0, sample_net\<lparr>nt_kernel := ?k, nt_sockets := [Some \<lparr>raddr = 5, lport = 7, rport = 9, so_buffers = [], so_seq = 0, so_ack = 0\<rparr>]\<rparr>)"
    using cur by (simp add: sys_connect_def sample_net_def alloc_fd_def pfiles_of_def set_fd_def index_set_def UDP_new_def add_socket_def get_socket_def find_index_def slot_new_def)
  then obtain s where "sys_connect 5 7 9 sample_net = Some (0, s)" "nt_kernel s = ?k"
    by simp
  then have s: "(net_step sample_stack)\<^sup>*\<^sup>* sample_net s" "nt_kernel s = ?k"
    by (blast intro: net_step.connect)+
  have f: "FileUdp ?c \<in> net_files (nt_kernel s)" "file_socket (FileUdp ?c) = Some (0, 5, 7, 9)"
    using s(2) by (auto simp: net_files_def set_proc_def intro!: exI [of _ 0])
  then show ?thesis
    using connections_have_sockets [OF sample_net_inv s(1)] s(1) by (intro exI [of _ s] exI [of _ "FileUdp ?c"]) blast
qed


definition sample_mixed :: "bytes LoseStack" where
  \<comment> \<open>as before, with frames that start with zero as segments of the same peer, and one-byte frames as ARP requests\<close>
  "sample_mixed = sample_stack\<lparr>analysis := (\<lambda>f. if length f = 1 then PktARP f else if 3 \<le> length f \<and> f ! 0 = 0 then
     PktTCP \<lparr>t_source_ip = 167772674, t_source_mac = [], t_source_port = unat (f ! 1), t_dest_ip = 167772687, t_dest_mac = [], t_dest_port = unat (f ! 2),
       t_data_len = length f - 3, t_seq = 0, t_ack = 0, t_flags = {TcpA}, t_win = 0, t_urg = 0, t_data = drop 3 f\<rparr> else analysis sample_stack f),
     arp_reply := (\<lambda>a _ _. Some a)\<rparr>"


text \<open>
  A connection request of a peer that is connected already to the port where a task waits in \<open>accept\<close> stops the kernel: no second socket can be added
  for the endpoint, and \<open>TCP::new\<close> unwraps the failure. A repeated request, or one after the peer has restarted, is enough.
\<close>

theorem syn_of_connected_peer_panics:
  assumes "TcpS \<in> t_flags t" and "find_index (receiving (t_dest_port t)) (nt_ports s) = Some i" and "nt_ports s ! i = Some v" and "schedule v = Some u"
    and "get_socket (t_source_ip t) (t_dest_port t) (t_source_port t) (nt_sockets s) = Some j"
  shows "handle_packet st (PktTCP t) s = None"
proof -
  have "TCP_new (t_source_ip t) (t_dest_port t) (t_source_port t) (t_seq t) (t_ack t) (nt_sockets s) = None"
    using assms(5) by (simp add: TCP_new_def add_socket_def)
  then have "accept_connection t u (s\<lparr>nt_ports := L\<rparr>) = None" for L
    by (auto simp: accept_connection_def Let_def split: Option.bind_splits prod.splits)
  then show ?thesis
    using assms(1-4) by (simp add: handle_packet_def check_accept_def)
qed

theorem syn_of_connected_peer_panics_witness:
  "\<exists>t s. t_flags t = {TcpS} \<and> handle_packet sample_stack (PktTCP t) s = None"
proof -
  let ?t = "\<lparr>t_source_ip = 3, t_source_mac = [], t_source_port = 9, t_dest_ip = 1, t_dest_mac = [], t_dest_port = 80, t_data_len = 0, t_seq = 5, t_ack = 6,
    t_flags = {TcpS}, t_win = 0, t_urg = 0, t_data = []\<rparr>"
  let ?s = "sample_net\<lparr>nt_ports := [Some \<lparr>port = 80, receivable = True, schedule = Some 7\<rparr>],
    nt_sockets := [Some \<lparr>raddr = 3, lport = 80, rport = 9, so_buffers = [], so_seq = 0, so_ack = 0\<rparr>]\<rparr>"
  have "find_index (receiving 80) (nt_ports ?s) = Some 0" "get_socket 3 80 9 (nt_sockets ?s) = Some 0"
    by (simp_all add: find_index_def receiving_def get_socket_def)
  then have "handle_packet sample_stack (PktTCP ?t) ?s = None"
    by (intro syn_of_connected_peer_panics [where i = 0 and j = 0 and u = 7 and v = "\<lparr>port = 80, receivable = True, schedule = Some 7\<rparr>"]) simp_all
  then show ?thesis
    by (intro exI [of _ ?t] exI [of _ ?s]) simp
qed

text \<open>
  Two listeners on one port: as long as nobody accepts at the first one, a task that accepts at the second one never gets a connection, whatever
  packets arrive. \<open>listen\<close> does not refuse a port that is in use.
\<close>

theorem second_listener_starves:
  assumes "find_index (receiving p) (nt_ports s) = Some i" and "nt_ports s ! i = Some v" and "schedule v = None"
    and "i < j" and "slot (nt_ports s) j = Some w" and "port w = p" and "sys_accept st j frames s = Some (r, fs, s')"
  shows "r = None"
proof -
  obtain t L b fs1 s1 where a: "accept j t (nt_ports s) = Some L" "accept_loop st j frames (s\<lparr>nt_ports := L\<rparr>) = Some (b, fs1, s1)" "\<not> b \<Longrightarrow> r = None"
    using assms(7) by (auto simp: sys_accept_def split: Option.bind_splits if_splits)
  have j: "j < length (nt_ports s)" "L = (nt_ports s)[j := Some (w\<lparr>receivable := True, schedule := Some t\<rparr>)]"
    using a(1) slot_opD [OF assms(5)] by (auto simp: accept_def)
  have "starving p i j L"
    using find_index_later [OF assms(1,4)] assms(2-4,6) j by (simp add: starving_def slot_def receiving_def)
  then show ?thesis
    using accept_loop_starving [OF _ a(2), of p i] a(3) by simp
qed

theorem second_listener_starves_witness:
  "\<exists>s fs s'. length (filter (receiving 80) (nt_ports s)) = 2 \<and> sys_accept sample_stack 1 [[9, 7, 65]] s = Some (None, fs, s')"
proof -
  let ?s = "sample_net\<lparr>nt_ports := [Some \<lparr>port = 80, receivable = True, schedule = None\<rparr>, Some \<lparr>port = 80, receivable = True, schedule = None\<rparr>]\<rparr>"
  obtain r fs s' where a: "sys_accept sample_stack 1 [[9, 7, 65]] ?s = Some (r, fs, s')"
    by (simp add: sys_accept_def current_task_def sample_net_def sample_kernel_def accept_def net_interrupt_handler_def handle_packet_def sample_stack_def
        get_socket_def find_index_def port_acceptable_def)
  have "r = None"
    by (rule second_listener_starves [OF _ _ _ _ _ _ a, where i = 0 and p = 80 and v = "\<lparr>port = 80, receivable = True, schedule = None\<rparr>"
          and w = "\<lparr>port = 80, receivable = True, schedule = None\<rparr>"])
      (simp_all add: find_index_def receiving_def slot_def)
  then show ?thesis
    using a by (intro exI [of _ ?s] exI [of _ fs] exI [of _ s']) (simp add: receiving_def)
qed

text \<open>
  What a TCP connection sends: before the first segment after the request has arrived, both numbers are zero, and afterwards the acknowledgement is the sequence number
  of the last segment itself, not the number after its data.
\<close>

lemma tcp_write_numbers:
  assumes "sockets_ok (nt_sockets s)" and "slot (nt_sockets s) (tcp_sock_idx c) = Some x"
    and "endpoint x = (t_source_ip t, t_dest_port t, t_source_port t)" and "tcp_deliver t s = Some s'"
  shows "\<exists>p. TCP_packet st c data (nt_sockets s') = Some p \<and> t_ack p = t_seq t \<and> t_seq p = t_ack t"
proof -
  let ?i = "tcp_sock_idx c"
  have g: "get_socket (t_source_ip t) (t_dest_port t) (t_source_port t) (nt_sockets s) = Some ?i"
    using get_socket_eq [OF assms(1)] assms(2,3) by blast
  obtain T where T: "push_data ?i (t_data t) (nt_sockets s) = Some T" "sockets_ok T" "slot T ?i = Some (x\<lparr>so_buffers := so_buffers x @ [t_data t]\<rparr>)"
    using push_data_spec [OF assms(1,2)] by fastforce
  obtain T' where T': "set_sa_by_index ?i (t_seq t) (t_ack t) T = Some T'"
      "slot T' ?i = Some (x\<lparr>so_buffers := so_buffers x @ [t_data t]\<rparr>\<lparr>so_seq := t_seq t, so_ack := t_ack t\<rparr>)"
    using set_sa_spec [OF T(2,3)] by fastforce
  have "nt_sockets s' = T'"
    using assms(4) g T(1) T'(1) by (auto simp: tcp_deliver_def)
  then show ?thesis
    using slot_opD [OF T'(2)] by (simp add: TCP_packet_def get_sa_by_index_def)
qed

end
