(* ===== verification/Devices.thy ===== *)
theory Devices
  imports SysFs Sync Utf8
begin

text \<open>
  Devices: the interrupt controller (\<^verbatim>\<open>os/src/drivers/plic.rs\<close>), the UART and the keyboard as buffers that an interrupt fills
  (\<^verbatim>\<open>os/src/drivers/chardev/ns16550a.rs\<close>, \<^verbatim>\<open>os/src/drivers/input/mod.rs\<close>), requests to the block device
  (\<^verbatim>\<open>os/src/drivers/block/virtio_blk.rs\<close>), the dispatch of interrupts (\<^verbatim>\<open>os/src/boards/qemu.rs\<close>), and the console
  (\<^verbatim>\<open>os/src/fs/stdio.rs\<close>, \<^verbatim>\<open>os/src/console.rs\<close>). What the hardware holds when an interrupt is handled is an argument.
\<close>

section \<open>Interrupt controller\<close>

datatype IntrTargetPriority = Machine | Supervisor

type_synonym registers = "nat \<Rightarrow> 32 word" \<comment> \<open>memory-mapped registers by their address\<close>

definition supported_number :: nat where "supported_number = 2"

definition priority_ptr :: "nat \<Rightarrow> nat \<Rightarrow> nat option" where
  "priority_ptr base src = do { ensure (0 < src \<and> src \<le> 132); Some (base + src * 4) }"

definition hart_id_with_priority :: "nat \<Rightarrow> IntrTargetPriority \<Rightarrow> nat" where
  "hart_id_with_priority hart_id p = hart_id * supported_number + (case p of Machine \<Rightarrow> 0 | Supervisor \<Rightarrow> 1)"

definition enable_ptr :: "nat \<Rightarrow> nat \<Rightarrow> IntrTargetPriority \<Rightarrow> nat \<Rightarrow> nat \<times> nat" where
  "enable_ptr base hart_id p src = (base + 0x2000 + 0x80 * hart_id_with_priority hart_id p + 4 * (src div 32), src mod 32)"

definition threshold_ptr :: "nat \<Rightarrow> nat \<Rightarrow> IntrTargetPriority \<Rightarrow> nat" where
  "threshold_ptr base hart_id p = base + 0x200000 + 0x1000 * hart_id_with_priority hart_id p"

definition claim_comp_ptr :: "nat \<Rightarrow> nat \<Rightarrow> IntrTargetPriority \<Rightarrow> nat" where
  "claim_comp_ptr base hart_id p = base + 0x200004 + 0x1000 * hart_id_with_priority hart_id p"

definition set_priority :: "nat \<Rightarrow> nat \<Rightarrow> nat \<Rightarrow> registers \<Rightarrow> registers option" where
  "set_priority base src prio r = do { ensure (prio < 8); a \<leftarrow> priority_ptr base src; Some (r(a := word_of_nat prio)) }"

definition get_priority :: "nat \<Rightarrow> nat \<Rightarrow> registers \<Rightarrow> 32 word option" where
  "get_priority base src r = do { a \<leftarrow> priority_ptr base src; Some (r a AND 7) }"

definition plic_enable :: "nat \<Rightarrow> nat \<Rightarrow> IntrTargetPriority \<Rightarrow> nat \<Rightarrow> registers \<Rightarrow> registers" where
  "plic_enable base hart_id p src r = (let (a, shift) = enable_ptr base hart_id p src in r(a := r a OR push_bit shift 1))"

definition plic_disable :: "nat \<Rightarrow> nat \<Rightarrow> IntrTargetPriority \<Rightarrow> nat \<Rightarrow> registers \<Rightarrow> registers" where
  "plic_disable base hart_id p src r = (let (a, shift) = enable_ptr base hart_id p src in r(a := r a AND NOT (push_bit shift 1)))"

definition set_threshold :: "nat \<Rightarrow> nat \<Rightarrow> IntrTargetPriority \<Rightarrow> nat \<Rightarrow> registers \<Rightarrow> registers option" where
  "set_threshold base hart_id p threshold r = do { ensure (threshold < 8); Some (r(threshold_ptr base hart_id p := word_of_nat threshold)) }"

definition get_threshold :: "nat \<Rightarrow> nat \<Rightarrow> IntrTargetPriority \<Rightarrow> registers \<Rightarrow> 32 word" where
  "get_threshold base hart_id p r = r (threshold_ptr base hart_id p) AND 7"

definition plic_claim :: "nat \<Rightarrow> nat \<Rightarrow> IntrTargetPriority \<Rightarrow> registers \<Rightarrow> 32 word" where
  "plic_claim base hart_id p r = r (claim_comp_ptr base hart_id p)"

definition plic_complete :: "nat \<Rightarrow> nat \<Rightarrow> IntrTargetPriority \<Rightarrow> 32 word \<Rightarrow> registers \<Rightarrow> registers" where
  "plic_complete base hart_id p completion r = r(claim_comp_ptr base hart_id p := completion)"

definition VIRT_PLIC :: nat where "VIRT_PLIC = 0x0C000000"

fun enable_sources :: "nat list \<Rightarrow> registers \<Rightarrow> registers option" where
  \<comment> \<open>the loop of \<open>device_init\<close>\<close>
  "enable_sources [] r = Some r"
| "enable_sources (src # rest) r = do {
     r \<leftarrow> set_priority VIRT_PLIC src 1 (plic_enable VIRT_PLIC 0 Supervisor src r);
     enable_sources rest r }"

definition device_init :: "registers \<Rightarrow> registers option" where
  "device_init r = do {
     r \<leftarrow> set_threshold VIRT_PLIC 0 Supervisor 0 r;
     r \<leftarrow> set_threshold VIRT_PLIC 0 Machine 1 r;
     enable_sources [5, 8, 10] r }"

section \<open>UART\<close>

definition RX_AVAILABLE :: byte where "RX_AVAILABLE = push_bit 0 1"
definition DATA_AVAILABLE :: byte where "DATA_AVAILABLE = push_bit 0 1"
definition THR_EMPTY :: byte where "THR_EMPTY = push_bit 5 1"
definition DATA_TERMINAL_READY :: byte where "DATA_TERMINAL_READY = push_bit 0 1"
definition REQUEST_TO_SEND :: byte where "REQUEST_TO_SEND = push_bit 1 1"
definition AUX_OUTPUT2 :: byte where "AUX_OUTPUT2 = push_bit 3 1"

record uart_regs =
  \<comment> \<open>the registers that the driver writes, and the bytes written to \<open>thr\<close>\<close>
  ur_ier :: byte
  ur_mcr :: byte
  ur_thr :: bytes

definition NS16550aRaw_init :: "uart_regs \<Rightarrow> uart_regs" where
  "NS16550aRaw_init r = (let r = r\<lparr>ur_mcr := 0 OR DATA_TERMINAL_READY OR REQUEST_TO_SEND OR AUX_OUTPUT2\<rparr> in r\<lparr>ur_ier := RX_AVAILABLE\<rparr>)"

fun NS16550aRaw_write :: "byte list \<Rightarrow> byte \<Rightarrow> uart_regs \<Rightarrow> uart_regs option" where
  \<comment> \<open>with the values that the successive readings of \<open>lsr\<close> give; \<open>None\<close>: still waiting for \<open>THR_EMPTY\<close>\<close>
  "NS16550aRaw_write [] ch r = None"
| "NS16550aRaw_write (lsr # rest) ch r = (if lsr AND THR_EMPTY = THR_EMPTY then Some (r\<lparr>ur_thr := ur_thr r @ [ch]\<rparr>) else NS16550aRaw_write rest ch r)"

lemma NS16550aRaw_write_sends_once:
  "NS16550aRaw_write lsrs ch r = (if \<exists>l \<in> set lsrs. bit l 5 then Some (r\<lparr>ur_thr := ur_thr r @ [ch]\<rparr>) else None)"
proof (induction lsrs)
  case (Cons l lsrs)
  have "l AND THR_EMPTY = THR_EMPTY \<longleftrightarrow> bit l 5"
  proof -
    have b: "bit THR_EMPTY n \<longleftrightarrow> n = 5" for n
      unfolding THR_EMPTY_def by (auto simp: bit_push_bit_iff bit_1_iff simp del: push_bit_of_1)
    show ?thesis
      unfolding bit_eq_iff [of "l AND THR_EMPTY"] bit_and_iff b by (auto dest: spec [of _ 5])
  qed
  then show ?case
    using Cons by simp
qed simp

record NS16550a =
  uart_buffer :: bytes
  uart_condvar :: Condvar

definition NS16550a_new :: NS16550a where
  "NS16550a_new = \<lparr>uart_buffer = [], uart_condvar = Condvar_new\<rparr>"

definition read_buffer_is_empty :: "NS16550a \<Rightarrow> bool" where
  "read_buffer_is_empty u \<longleftrightarrow> uart_buffer u = []"

fun NS16550aRaw_read :: "bytes \<Rightarrow> byte option \<times> bytes" where
  \<comment> \<open>the bytes the hardware has received: \<open>DATA_AVAILABLE\<close> is set while there is one, and reading \<open>rbr\<close> takes it\<close>
  "NS16550aRaw_read [] = (None, [])"
| "NS16550aRaw_read (b # hw) = (Some b, hw)"

definition uart_read_round :: "NS16550a \<Rightarrow> 'a sched_scheme \<Rightarrow> (byte option \<times> NS16550a \<times> 'a sched_scheme) option" where
  \<comment> \<open>one round of the loop of \<open>read\<close>: the byte it returns, or \<open>None\<close> when it gives up the processor\<close>
  "uart_read_round u s = (case uart_buffer u of
       ch # rest \<Rightarrow> Some (Some ch, u\<lparr>uart_buffer := rest\<rparr>, s)
     | [] \<Rightarrow> do { (c, s) \<leftarrow> wait_no_sched (uart_condvar u) s; Some (None, u\<lparr>uart_condvar := c\<rparr>, s) })"

lemma NS16550aRaw_read_less: "NS16550aRaw_read hw = (Some b, hw') \<Longrightarrow> length hw' < length hw"
  by (cases hw) auto

function uart_drain :: "bytes \<Rightarrow> bytes \<Rightarrow> nat \<Rightarrow> nat \<times> bytes" where
  \<comment> \<open>\<open>while let Some(ch) = inner.ns16550a.read()\<close>\<close>
  "uart_drain hw buf count = (case NS16550aRaw_read hw of
     (Some ch, hw') \<Rightarrow> uart_drain hw' (buf @ [ch]) (count + 1)
   | (None, _) \<Rightarrow> (count, buf))"
  by auto
termination
  by (relation "measure (\<lambda>(hw, _, _). length hw)") (auto dest!: NS16550aRaw_read_less [OF sym])

declare uart_drain.simps [simp del]

definition uart_handle_irq :: "bytes \<Rightarrow> NS16550a \<Rightarrow> 'a sched_scheme \<Rightarrow> NS16550a \<times> 'a sched_scheme" where
  "uart_handle_irq hw u s = (let (count, buf) = uart_drain hw (uart_buffer u) 0; u = u\<lparr>uart_buffer := buf\<rparr> in
     if count > 0 then let (c, s) = Condvar_signal (uart_condvar u) s in (u\<lparr>uart_condvar := c\<rparr>, s) else (u, s))"

section \<open>Keyboard\<close>

record VirtIOInput =
  kb_events :: "nat list"
  kb_condvar :: Condvar

definition kb_is_empty :: "VirtIOInput \<Rightarrow> bool" where
  "kb_is_empty k \<longleftrightarrow> kb_events k = []"

definition kb_encode :: "nat \<times> nat \<times> nat \<Rightarrow> nat" where
  \<comment> \<open>\<open>event_type << 48 | code << 32 | value\<close> on \<open>u64\<close>\<close>
  "kb_encode e = (case e of (event_type, code, value) \<Rightarrow> push_bit 48 event_type OR push_bit 32 code OR value)"

definition kb_read_round :: "VirtIOInput \<Rightarrow> 'a sched_scheme \<Rightarrow> (nat option \<times> VirtIOInput \<times> 'a sched_scheme) option" where
  "kb_read_round k s = (case kb_events k of
       e # rest \<Rightarrow> Some (Some e, k\<lparr>kb_events := rest\<rparr>, s)
     | [] \<Rightarrow> do { (c, s) \<leftarrow> wait_no_sched (kb_condvar k) s; Some (None, k\<lparr>kb_condvar := c\<rparr>, s) })"

fun kb_drain :: "(nat \<times> nat \<times> nat) list \<Rightarrow> nat list \<Rightarrow> nat \<Rightarrow> nat \<times> nat list" where
  \<comment> \<open>\<open>while let Some(event) = inner.virtio_input.pop_pending_event()\<close>\<close>
  "kb_drain [] evs count = (count, evs)"
| "kb_drain (e # hw) evs count = kb_drain hw (evs @ [kb_encode e]) (count + 1)"

definition kb_handle_irq :: "(nat \<times> nat \<times> nat) list \<Rightarrow> VirtIOInput \<Rightarrow> 'a sched_scheme \<Rightarrow> VirtIOInput \<times> 'a sched_scheme" where
  "kb_handle_irq hw k s = (let (count, evs) = kb_drain hw (kb_events k) 0; k = k\<lparr>kb_events := evs\<rparr> in
     if count > 0 then let (c, s) = Condvar_signal (kb_condvar k) s in (k\<lparr>kb_condvar := c\<rparr>, s) else (k, s))"

definition sys_event_get :: "VirtIOInput \<Rightarrow> 'a sched_scheme \<Rightarrow> (int option \<times> VirtIOInput \<times> 'a sched_scheme) option" where
  "sys_event_get k s = (if \<not> kb_is_empty k then do { (e, k, s) \<leftarrow> kb_read_round k s; Some (map_option (\<lambda>e. isize (int e)) e, k, s) }
     else Some (Some 0, k, s))"

definition sys_key_pressed :: "NS16550a \<Rightarrow> int" where
  "sys_key_pressed u = (if \<not> read_buffer_is_empty u then 1 else 0)"

section \<open>Block device\<close>

type_synonym blk_condvars = "nat \<rightharpoonup> Condvar"

definition VirtIOBlock_new :: "nat \<Rightarrow> blk_condvars" where
  "VirtIOBlock_new channels = (\<lambda>i. if i < channels then Some Condvar_new else None)"

definition blk_request :: "nat \<Rightarrow> blk_condvars \<Rightarrow> 'a sched_scheme \<Rightarrow> (blk_condvars \<times> 'a sched_scheme) option" where
  \<comment> \<open>a non-blocking \<open>read_block\<close> or \<open>write_block\<close> up to \<open>schedule\<close>; \<open>token\<close>: what the queue of the device answers\<close>
  "blk_request token cv s = do { c \<leftarrow> cv token; (c, s) \<leftarrow> wait_no_sched c s; Some (cv(token \<mapsto> c), s) }"

fun blk_handle_irq :: "nat list \<Rightarrow> blk_condvars \<Rightarrow> 'a sched_scheme \<Rightarrow> (blk_condvars \<times> 'a sched_scheme) option" where
  \<comment> \<open>\<open>while let Ok(token) = blk.pop_used()\<close>\<close>
  "blk_handle_irq [] cv s = Some (cv, s)"
| "blk_handle_irq (token # used) cv s = do {
     c \<leftarrow> cv token;
     let (c, s) = Condvar_signal c s;
     blk_handle_irq used (cv(token \<mapsto> c)) s }"

section \<open>Dispatch of interrupts\<close>

record devices =
  dv_uart :: NS16550a
  dv_keyboard :: VirtIOInput
  dv_block :: blk_condvars

datatype hw_event = HwKeyboard "(nat \<times> nat \<times> nat) list" | HwBlock "nat list" | HwUart bytes | HwOther nat
  \<comment> \<open>the source that \<open>claim\<close> answers (5, 8, 10 or another) and what the device holds\<close>

definition irq_handler :: "hw_event \<Rightarrow> devices \<Rightarrow> 'a sched_scheme \<Rightarrow> (devices \<times> 'a sched_scheme) option" where
  "irq_handler ev d s = (case ev of
       HwKeyboard hw \<Rightarrow> let (k, s) = kb_handle_irq hw (dv_keyboard d) s in Some (d\<lparr>dv_keyboard := k\<rparr>, s)
     | HwBlock used \<Rightarrow> do { (cv, s) \<leftarrow> blk_handle_irq used (dv_block d) s; Some (d\<lparr>dv_block := cv\<rparr>, s) }
     | HwUart hw \<Rightarrow> let (u, s) = uart_handle_irq hw (dv_uart d) s in Some (d\<lparr>dv_uart := u\<rparr>, s)
     | HwOther _ \<Rightarrow> None)"

section \<open>Console\<close>

fun utf8_chars :: "bytes \<Rightarrow> nat list" where
  \<comment> \<open>\<open>chars()\<close> of valid UTF-8\<close>
  "utf8_chars [] = []"
| "utf8_chars (b # bs) =
     (if b < 0x80 then unat b # utf8_chars bs
      else if b < 0xE0 then (case bs of b1 # r \<Rightarrow> ((unat b - 0xC0) * 64 + (unat b1 - 0x80)) # utf8_chars r | _ \<Rightarrow> [])
      else if b < 0xF0 then (case bs of b1 # b2 # r \<Rightarrow>
        ((unat b - 0xE0) * 4096 + (unat b1 - 0x80) * 64 + (unat b2 - 0x80)) # utf8_chars r | _ \<Rightarrow> [])
      else (case bs of b1 # b2 # b3 # r \<Rightarrow>
        ((unat b - 0xF0) * 262144 + (unat b1 - 0x80) * 4096 + (unat b2 - 0x80) * 64 + (unat b3 - 0x80)) # utf8_chars r | _ \<Rightarrow> []))"

definition write_str :: "bytes \<Rightarrow> bytes" where
  \<comment> \<open>what is sent to the UART: \<open>c as u8\<close> for each character\<close>
  "write_str str = map word_of_nat (utf8_chars str)"

fun Stdout_write_loop :: "page_slice list \<Rightarrow> bytes \<Rightarrow> ram \<Rightarrow> bytes option" where
  "Stdout_write_loop [] sent m = Some sent"
| "Stdout_write_loop (b # bs) sent m = do {
     x \<leftarrow> load_slice b m;
     ensure (utf8_valid x);
     Stdout_write_loop bs (sent @ write_str x) m }"

definition Stdout_write :: "page_slice list \<Rightarrow> ram \<Rightarrow> (nat \<times> bytes) option" where
  "Stdout_write user_buf m = do { sent \<leftarrow> Stdout_write_loop user_buf [] m; Some (UserBuffer_len user_buf, sent) }"

definition Stdin_read_round :: "page_slice list \<Rightarrow> NS16550a \<Rightarrow> ram \<Rightarrow> 'a sched_scheme \<Rightarrow> (nat option \<times> NS16550a \<times> ram \<times> 'a sched_scheme) option" where
  "Stdin_read_round user_buf u m s = do {
     ensure (UserBuffer_len user_buf = 1);
     (ch, u, s) \<leftarrow> uart_read_round u s;
     case ch of
       None \<Rightarrow> Some (None, u, m, s)
     | Some ch \<Rightarrow> do {
         b \<leftarrow> index_get user_buf 0;
         m \<leftarrow> store_slice b [ch] m;
         Some (Some 1, u, m, s) } }"

section \<open>Buffered input\<close>

datatype 'h input_op = OpIrq "'h list" | OpRead | OpSwitch \<comment> \<open>an interrupt, a round of \<open>read\<close> of the current task, a round of the idle loop\<close>

definition idle_round :: "'a sched_scheme \<Rightarrow> 'a sched_scheme" where
  "idle_round s = (if sc_current s = None then run_tasks_round s else s)"

fun run_input :: "('d \<Rightarrow> 'a sched_scheme \<Rightarrow> ('e option \<times> 'd \<times> 'a sched_scheme) option) \<Rightarrow> ('h list \<Rightarrow> 'd \<Rightarrow> 'a sched_scheme \<Rightarrow> 'd \<times> 'a sched_scheme) \<Rightarrow>
    'h input_op list \<Rightarrow> 'd \<Rightarrow> 'a sched_scheme \<Rightarrow> ('e list \<times> 'd \<times> 'a sched_scheme) option" where
  \<comment> \<open>the events that the rounds of \<open>read\<close> return\<close>
  "run_input rd irq [] d s = Some ([], d, s)"
| "run_input rd irq (OpIrq hw # ops) d s = (let (d, s) = irq hw d s in run_input rd irq ops d s)"
| "run_input rd irq (OpRead # ops) d s =
     (if sc_current s = None then run_input rd irq ops d s
      else do {
        (e, d, s) \<leftarrow> rd d s;
        (es, d, s) \<leftarrow> run_input rd irq ops d s;
        Some (case e of Some e \<Rightarrow> (e # es, d, s) | None \<Rightarrow> (es, d, s)) })"
| "run_input rd irq (OpSwitch # ops) d s = run_input rd irq ops d (idle_round s)"

fun arrived :: "('h \<Rightarrow> 'e) \<Rightarrow> 'h input_op list \<Rightarrow> 'e list" where
  "arrived enc [] = []"
| "arrived enc (OpIrq hw # ops) = map enc hw @ arrived enc ops"
| "arrived enc (_ # ops) = arrived enc ops"

locale buffered_input =
  fixes buf :: "'d \<Rightarrow> 'e list" and cv :: "'d \<Rightarrow> Condvar"
    and rd :: "'d \<Rightarrow> 'a sched_scheme \<Rightarrow> ('e option \<times> 'd \<times> 'a sched_scheme) option"
    and irq :: "'h list \<Rightarrow> 'd \<Rightarrow> 'a sched_scheme \<Rightarrow> 'd \<times> 'a sched_scheme" and enc :: "'h \<Rightarrow> 'e"
  assumes read_some: "buf d = e # es \<Longrightarrow> \<exists>d'. rd d s = Some (Some e, d', s) \<and> buf d' = es \<and> cv d' = cv d"
    and read_none: "buf d = [] \<Longrightarrow> sc_current s = Some t \<Longrightarrow>
      \<exists>d' s'. rd d s = Some (None, d', s') \<and> buf d' = [] \<and> cv_queue (cv d') = cv_queue (cv d) @ [t] \<and> block_current_task s = Some s'"
    and irq_none: "irq [] d s = (d, s)"
    and irq_some: "hw \<noteq> [] \<Longrightarrow> irq hw d s = (d', s') \<Longrightarrow> buf d' = buf d @ map enc hw \<and> Condvar_signal (cv d) s = (cv d', s')"
begin

lemma irq_buf: "irq hw d s = (d', s') \<Longrightarrow> buf d' = buf d @ map enc hw"
  using irq_none [of d s] irq_some [of hw d s] by (cases "hw = []") auto

lemma run_in_order:
  "\<exists>es d' s'. run_input rd irq ops d s = Some (es, d', s') \<and> es @ buf d' = buf d @ arrived enc ops"
proof (induction ops arbitrary: d s)
  case (Cons op ops)
  show ?case
  proof (cases op)
    case (OpIrq hw)
    obtain d1 s1 where i: "irq hw d s = (d1, s1)"
      by fastforce
    then show ?thesis
      using Cons.IH [of d1 s1] irq_buf [OF i] OpIrq by simp
  next
    case OpSwitch
    then show ?thesis
      using Cons.IH by simp
  next
    case OpRead
    show ?thesis
    proof (cases "sc_current s")
      case None
      then show ?thesis
        using Cons.IH OpRead by simp
    next
      case (Some t)
      show ?thesis
      proof (cases "buf d")
        case Nil
        then obtain d1 s1 where "rd d s = Some (None, d1, s1)" "buf d1 = []"
          using read_none [OF Nil Some] by blast
        then show ?thesis
          using Cons.IH [of d1 s1] Nil Some OpRead by auto
      next
        case q: (Cons e es)
        then obtain d1 where "rd d s = Some (Some e, d1, s)" "buf d1 = es"
          using read_some [OF q] by blast
        then show ?thesis
          using Cons.IH [of d1 s] q Some OpRead by auto
      qed
    qed
  qed
qed simp

lemma second_reader_sleeps:
  assumes "cv_queue (cv d) = t # u # ts" and "t \<noteq> u" and "sc_status s u = Some Blocked" and "buf d = []" and "2 \<le> length hw"
    and "irq hw d s = (d1, s1)" and "rd d1 s2 = Some (e, d2, s3)"
  shows "sc_status s1 t = Some Ready \<and> sc_status s1 u = Some Blocked \<and> e = Some (enc (hd hw)) \<and> buf d2 \<noteq> [] \<and> u \<in> set (cv_queue (cv d2))"
proof -
  obtain h1 h2 hs where hw: "hw = h1 # h2 # hs"
    using assms(5) by (cases hw; cases "tl hw"; simp)
  have i: "buf d1 = enc h1 # enc h2 # map enc hs" "Condvar_signal (cv d) s = (cv d1, s1)"
    using irq_some [OF _ assms(6)] assms(4) hw by auto
  have "cv d1 = (cv d)\<lparr>cv_queue := u # ts\<rparr>" and s1: "s1 = wakeup_task t s"
    using i(2) assms(1) by (simp_all add: Condvar_signal_def)
  then have q1: "cv_queue (cv d1) = u # ts"
    by simp
  obtain d' where "rd d1 s2 = Some (Some (enc h1), d', s2)" "buf d' = enc h2 # map enc hs" "cv d' = cv d1"
    using read_some [OF i(1)] by blast
  then show ?thesis
    using assms(2,3,7) s1 q1 hw by (auto simp: sched_defs)
qed

end

lemma uart_drain_all: "uart_drain hw buf count = (count + length hw, buf @ hw)"
proof (induction hw arbitrary: buf count)
  case Nil
  then show ?case
    by (subst uart_drain.simps) simp
next
  case (Cons b hw)
  then show ?case
    by (subst uart_drain.simps) simp
qed

lemma kb_drain_all: "kb_drain hw evs count = (count + length hw, evs @ map kb_encode hw)"
  by (induction hw arbitrary: evs count) auto

interpretation uart: buffered_input uart_buffer uart_condvar uart_read_round uart_handle_irq id
proof (unfold_locales, goal_cases)
  case (1 d e es s)
  then show ?case
    by (simp add: uart_read_round_def)
next
  case (2 d s t)
  then show ?case
    by (simp add: uart_read_round_def wait_no_sched_def sched_defs)
next
  case (3 d s)
  then show ?case
    by (simp add: uart_handle_irq_def uart_drain_all)
next
  case (4 hw d s d' s')
  then show ?case
    by (auto simp: uart_handle_irq_def uart_drain_all case_prod_beta split: prod.splits intro: prod_eqI)
qed

interpretation keyboard: buffered_input kb_events kb_condvar kb_read_round kb_handle_irq kb_encode
proof (unfold_locales, goal_cases)
  case (1 d e es s)
  then show ?case
    by (simp add: kb_read_round_def)
next
  case (2 d s t)
  then show ?case
    by (simp add: kb_read_round_def wait_no_sched_def sched_defs)
next
  case (3 d s)
  then show ?case
    by (simp add: kb_handle_irq_def kb_drain_all)
next
  case (4 hw d s d' s')
  then show ?case
    by (auto simp: kb_handle_irq_def kb_drain_all case_prod_beta split: prod.splits intro: prod_eqI)
qed

section \<open>Output\<close>

lemma utf8_chars_ascii: "\<forall>b \<in> set bs. b < 0x80 \<Longrightarrow> utf8_chars bs = map unat bs"
  by (induction bs) auto

lemma write_str_ascii: "\<forall>b \<in> set bs. b < 0x80 \<Longrightarrow> write_str bs = bs"
  by (simp add: write_str_def utf8_chars_ascii comp_def)

lemma write_str_low_byte: "utf8_valid [0xC3, 0xA9] \<and> write_str [0xC3, 0xA9] = [0xE9] \<and> utf8_valid [0xC4, 0x80] \<and> write_str [0xC4, 0x80] = [0]"
  by (simp add: write_str_def utf8_cont_def)

lemma Stdout_write_loop_ascii:
  assumes "segs_ok sls m" and "\<forall>r \<in> set (segs_refs sls). byte_at m r < 0x80"
  shows "Stdout_write_loop sls sent m = Some (sent @ map (byte_at m) (segs_refs sls))"
  using assms
proof (induction sls arbitrary: sent)
  case (Cons sl sls)
  have sl: "segs_ok [sl] m" "segs_ok sls m"
    using Cons.prems(1) by (auto simp: segs_ok_def)
  have "\<forall>b \<in> set (map (byte_at m) (slice_refs sl)). b < 0x80"
    using Cons.prems(2) by auto
  then show ?case
    using Cons.IH [OF sl(2)] Cons.prems(2) load_slice_ok [OF sl(1)] by (simp add: utf8_valid_ascii write_str_ascii)
qed simp

section \<open>Properties\<close>

text \<open>
  C36. Input from the UART and from the keyboard: whatever the order of interrupts, reads and task switches, no operation panics, and what the reads have returned,
  followed by what is still buffered, is what was buffered before followed by what arrived, in order. The two devices are interpretations of one contract.
\<close>

theorem input_in_order:
  "(\<exists>es u' s'. run_input uart_read_round uart_handle_irq ops u (s :: 'a sched_scheme) = Some (es, u', s') \<and> es @ uart_buffer u' = uart_buffer u @ arrived id ops) \<and>
   (\<exists>es k' s'. run_input kb_read_round kb_handle_irq kops k (s :: 'a sched_scheme) = Some (es, k', s') \<and> es @ kb_events k' = kb_events k @ arrived kb_encode kops)"
  by (intro conjI uart.run_in_order keyboard.run_in_order)

text \<open>
  An interrupt of the UART wakes one reader, however many bytes have arrived: with two readers asleep and two bytes, the second one stays blocked
  although a byte is left for it, until another interrupt comes.
\<close>

theorem uart_second_reader_sleeps:
  fixes s s2 :: "'a sched_scheme"
  assumes "cv_queue (uart_condvar u0) = t # u # ts" and "t \<noteq> u" and "sc_status s u = Some Blocked" and "uart_buffer u0 = []" and "2 \<le> length hw"
    and "uart_handle_irq hw u0 s = (u1, s1)" and "uart_read_round u1 s2 = Some (e, u2, s3)"
  shows "sc_status s1 t = Some Ready \<and> sc_status s1 u = Some Blocked \<and> e = Some (hd hw) \<and> uart_buffer u2 \<noteq> [] \<and> u \<in> set (cv_queue (uart_condvar u2))"
  using uart.second_reader_sleeps [OF assms] by simp

theorem uart_second_reader_sleeps_witness:
  "\<exists>u1 s1 e u2 s3. uart_handle_irq [65, 66] \<lparr>uart_buffer = [], uart_condvar = \<lparr>cv_queue = [7, 8]\<rparr>\<rparr>
      \<lparr>sc_status = [7 \<mapsto> Blocked, 8 \<mapsto> Blocked], sc_ready = [], sc_current = None\<rparr> = (u1, s1) \<and>
    uart_read_round u1 (run_tasks_round s1) = Some (e, u2, s3) \<and> e = Some 65 \<and> uart_buffer u2 \<noteq> [] \<and> sc_status s1 8 = Some Blocked"
proof -
  let ?u = "\<lparr>uart_buffer = [], uart_condvar = \<lparr>cv_queue = [7, 8]\<rparr>\<rparr>" and ?s = "\<lparr>sc_status = [7 \<mapsto> Blocked, 8 \<mapsto> Blocked], sc_ready = [], sc_current = None\<rparr>"
  obtain u1 s1 where i: "uart_handle_irq [65, 66] ?u ?s = (u1, s1)"
    by fastforce
  have "uart_buffer u1 = [65, 66]"
    using uart.irq_buf [OF i] by simp
  then obtain e u2 s3 where r: "uart_read_round u1 (run_tasks_round s1) = Some (e, u2, s3)"
    by (simp add: uart_read_round_def)
  show ?thesis
    using uart_second_reader_sleeps [OF _ _ _ _ _ i r, of 7 8 "[]"] i r by auto
qed

text \<open>
  Writing ASCII text to the console: the bytes of the user's buffer are sent to the UART unchanged, whatever pages it lies in, and their number is returned.
\<close>

theorem stdout_sends_ascii:
  assumes "segs_ok user_buf m" and "\<forall>r \<in> set (segs_refs user_buf). byte_at m r < 0x80"
  shows "Stdout_write user_buf m = Some (length (segs_refs user_buf), map (byte_at m) (segs_refs user_buf))"
  using Stdout_write_loop_ascii [OF assms, of "[]"] by (simp add: Stdout_write_def length_segs_refs)

theorem stdout_sends_ascii_witness:
  "Stdout_write [\<lparr>ps_ppn = 7, ps_lo = 1, ps_hi = 3\<rparr>, \<lparr>ps_ppn = 8, ps_lo = 0, ps_hi = 1\<rparr>] [7 \<mapsto> [0, 79, 75], 8 \<mapsto> [10]] = Some (3, [79, 75, 10])"
proof -
  let ?b = "[\<lparr>ps_ppn = 7, ps_lo = 1, ps_hi = 3\<rparr>, \<lparr>ps_ppn = 8, ps_lo = 0, ps_hi = 1\<rparr>]" and ?m = "[7 \<mapsto> [0, 79, 75], 8 \<mapsto> [10 :: byte]]"
  have r: "segs_refs ?b = [(7, 1), (7, 2), (8, 0)]"
    by (simp add: slice_refs_def upt_rec numeral_eq_Suc)
  have ok: "segs_ok ?b ?m"
    by (simp add: segs_ok_def)
  have bytes: "byte_at ?m (7, 1) = 79" "byte_at ?m (7, 2) = 75" "byte_at ?m (8, 0) = 10"
    by (simp_all add: byte_at_def numeral_eq_Suc)
  have "\<forall>r \<in> set (segs_refs ?b). byte_at ?m r < 0x80"
    unfolding r using bytes by simp
  from stdout_sends_ascii [OF ok this] show ?thesis
    unfolding r using bytes by simp
qed

text \<open>
  A character whose bytes lie in two pages: each piece is checked on its own, so writing valid text panics.
\<close>

lemma stdout_split_character_panics:
  "utf8_valid [0xC3, 0xA9] \<and> Stdout_write [\<lparr>ps_ppn = 7, ps_lo = 0, ps_hi = 1\<rparr>, \<lparr>ps_ppn = 8, ps_lo = 0, ps_hi = 1\<rparr>] [7 \<mapsto> [0xC3], 8 \<mapsto> [0xA9]] = None"
  by (simp add: Stdout_write_def load_slice_def utf8_cont_def slice_def slice_len_def)

text \<open>
  Initialisation of the interrupt controller: exactly the keyboard, the block device and the UART are enabled for supervisor mode, with priority 1 and threshold 0.
\<close>

lemma device_init_enables:
  "\<exists>r'. device_init r = Some r' \<and> r' 0x0C002080 = r 0x0C002080 OR push_bit 5 1 OR push_bit 8 1 OR push_bit 10 1 \<and>
    get_priority VIRT_PLIC 5 r' = Some 1 \<and> get_priority VIRT_PLIC 8 r' = Some 1 \<and> get_priority VIRT_PLIC 10 r' = Some 1 \<and>
    get_threshold VIRT_PLIC 0 Supervisor r' = 0 \<and> get_threshold VIRT_PLIC 0 Machine r' = 1"
  by (simp add: device_init_def set_threshold_def set_priority_def priority_ptr_def plic_enable_def enable_ptr_def threshold_ptr_def get_priority_def get_threshold_def
      hart_id_with_priority_def supported_number_def VIRT_PLIC_def Let_def or.assoc)

end
