(* ===== verification/Abi.thy ===== *)
theory Abi
  imports SysNet Devices
begin

text \<open>
  The interface between user programs and the kernel: the wrappers of the user library (\<^verbatim>\<open>user/src/syscall.rs\<close>), which put the number and the arguments
  of a system call into registers, and the dispatch of the kernel (\<^verbatim>\<open>os/src/syscall/mod.rs\<close>), which reads them. Both sides have their own table of
  numbers and their own conversions of arguments to and from machine words.
\<close>

named_theorems syscall_ids \<open>the numbers of the system calls on both sides\<close>

section \<open>Calls\<close>

datatype Syscall =
    CGetcwd nat nat
  | CDup nat
  | CConnect nat nat nat
  | CListen nat
  | CAccept nat
  | CMkdirat int nat
  | CUnlinkat int nat
  | CLinkat int nat nat
  | CChdir nat
  | COpenat int nat nat
  | CClose nat
  | CPipe nat
  | CGetdents nat nat nat
  | CRead nat nat nat
  | CWrite nat nat nat
  | CFstat nat nat
  | CExit int
  | CSleep nat
  | CYield
  | CKill nat int
  | CSigaction int nat nat
  | CSigprocmask nat
  | CSigreturn
  | CGet_time nat
  | CGetpid
  | CMunmap nat nat
  | CFork
  | CExec nat nat
  | CMmap nat nat nat
  | CWaitpid int nat
  | CThread_create nat nat
  | CGettid
  | CWaittid nat
  | CMutex_create bool
  | CMutex_lock nat
  | CMutex_unlock nat
  | CSemaphore_create nat
  | CSemaphore_up nat
  | CSemaphore_down nat
  | CCondvar_create
  | CCondvar_signal nat
  | CCondvar_wait nat nat
  | CEvent_get
  | CKey_pressed

definition as_i32 :: "nat \<Rightarrow> int" where
  \<comment> \<open>\<open>as i32\<close>\<close>
  "as_i32 n = (int n + 2 ^ 31) mod 2 ^ 32 - 2 ^ 31"

definition as_usize :: "int \<Rightarrow> nat" where
  \<comment> \<open>\<open>as usize\<close> of a signed value\<close>
  "as_usize i = nat (i mod 2 ^ 64)"

section \<open>Numbers in the kernel\<close>

definition SYSCALL_GETCWD :: nat where [syscall_ids]: "SYSCALL_GETCWD = 17"
definition SYSCALL_DUP :: nat where [syscall_ids]: "SYSCALL_DUP = 24"
definition SYSCALL_CONNECT :: nat where [syscall_ids]: "SYSCALL_CONNECT = 29"
definition SYSCALL_LISTEN :: nat where [syscall_ids]: "SYSCALL_LISTEN = 30"
definition SYSCALL_ACCEPT :: nat where [syscall_ids]: "SYSCALL_ACCEPT = 31"
definition SYSCALL_MKDIRAT :: nat where [syscall_ids]: "SYSCALL_MKDIRAT = 34"
definition SYSCALL_UNLINKAT :: nat where [syscall_ids]: "SYSCALL_UNLINKAT = 35"
definition SYSCALL_LINKAT :: nat where [syscall_ids]: "SYSCALL_LINKAT = 37"
definition SYSCALL_CHDIR :: nat where [syscall_ids]: "SYSCALL_CHDIR = 49"
definition SYSCALL_OPENAT :: nat where [syscall_ids]: "SYSCALL_OPENAT = 56"
definition SYSCALL_CLOSE :: nat where [syscall_ids]: "SYSCALL_CLOSE = 57"
definition SYSCALL_PIPE :: nat where [syscall_ids]: "SYSCALL_PIPE = 59"
definition SYSCALL_GETDENTS :: nat where [syscall_ids]: "SYSCALL_GETDENTS = 61"
definition SYSCALL_READ :: nat where [syscall_ids]: "SYSCALL_READ = 63"
definition SYSCALL_WRITE :: nat where [syscall_ids]: "SYSCALL_WRITE = 64"
definition SYSCALL_FSTAT :: nat where [syscall_ids]: "SYSCALL_FSTAT = 80"
definition SYSCALL_EXIT :: nat where [syscall_ids]: "SYSCALL_EXIT = 93"
definition SYSCALL_SLEEP :: nat where [syscall_ids]: "SYSCALL_SLEEP = 101"
definition SYSCALL_YIELD :: nat where [syscall_ids]: "SYSCALL_YIELD = 124"
definition SYSCALL_KILL :: nat where [syscall_ids]: "SYSCALL_KILL = 129"
definition SYSCALL_SIGACTION :: nat where [syscall_ids]: "SYSCALL_SIGACTION = 134"
definition SYSCALL_SIGPROCMASK :: nat where [syscall_ids]: "SYSCALL_SIGPROCMASK = 135"
definition SYSCALL_SIGRETURN :: nat where [syscall_ids]: "SYSCALL_SIGRETURN = 139"
definition SYSCALL_GET_TIME :: nat where [syscall_ids]: "SYSCALL_GET_TIME = 169"
definition SYSCALL_GETPID :: nat where [syscall_ids]: "SYSCALL_GETPID = 172"
definition SYSCALL_MUNMAP :: nat where [syscall_ids]: "SYSCALL_MUNMAP = 215"
definition SYSCALL_FORK :: nat where [syscall_ids]: "SYSCALL_FORK = 220"
definition SYSCALL_EXEC :: nat where [syscall_ids]: "SYSCALL_EXEC = 221"
definition SYSCALL_MMAP :: nat where [syscall_ids]: "SYSCALL_MMAP = 222"
definition SYSCALL_WAITPID :: nat where [syscall_ids]: "SYSCALL_WAITPID = 260"
definition SYSCALL_THREAD_CREATE :: nat where [syscall_ids]: "SYSCALL_THREAD_CREATE = 1000"
definition SYSCALL_GETTID :: nat where [syscall_ids]: "SYSCALL_GETTID = 1001"
definition SYSCALL_WAITTID :: nat where [syscall_ids]: "SYSCALL_WAITTID = 1002"
definition SYSCALL_MUTEX_CREATE :: nat where [syscall_ids]: "SYSCALL_MUTEX_CREATE = 1010"
definition SYSCALL_MUTEX_LOCK :: nat where [syscall_ids]: "SYSCALL_MUTEX_LOCK = 1011"
definition SYSCALL_MUTEX_UNLOCK :: nat where [syscall_ids]: "SYSCALL_MUTEX_UNLOCK = 1012"
definition SYSCALL_SEMAPHORE_CREATE :: nat where [syscall_ids]: "SYSCALL_SEMAPHORE_CREATE = 1020"
definition SYSCALL_SEMAPHORE_UP :: nat where [syscall_ids]: "SYSCALL_SEMAPHORE_UP = 1021"
definition SYSCALL_SEMAPHORE_DOWN :: nat where [syscall_ids]: "SYSCALL_SEMAPHORE_DOWN = 1022"
definition SYSCALL_CONDVAR_CREATE :: nat where [syscall_ids]: "SYSCALL_CONDVAR_CREATE = 1030"
definition SYSCALL_CONDVAR_SIGNAL :: nat where [syscall_ids]: "SYSCALL_CONDVAR_SIGNAL = 1031"
definition SYSCALL_CONDVAR_WAIT :: nat where [syscall_ids]: "SYSCALL_CONDVAR_WAIT = 1032"
definition SYSCALL_EVENT_GET :: nat where [syscall_ids]: "SYSCALL_EVENT_GET = 3000"
definition SYSCALL_KEY_PRESSED :: nat where [syscall_ids]: "SYSCALL_KEY_PRESSED = 3001"

section \<open>Dispatch in the kernel\<close>

definition syscall_decode :: "nat \<times> nat \<times> nat \<times> nat \<Rightarrow> Syscall option" where
  \<comment> \<open>the call that \<open>syscall\<close> makes; \<open>None\<close>: the panic on an unknown number\<close>
  "syscall_decode r = (case r of (syscall_id, a0, a1, a2) \<Rightarrow>
     if syscall_id = SYSCALL_GETCWD then Some (CGetcwd a0 a1)
     else if syscall_id = SYSCALL_DUP then Some (CDup a0)
     else if syscall_id = SYSCALL_CONNECT then Some (CConnect (a0 mod 2 ^ 32) (a1 mod 2 ^ 16) (a2 mod 2 ^ 16))
     else if syscall_id = SYSCALL_LISTEN then Some (CListen (a0 mod 2 ^ 16))
     else if syscall_id = SYSCALL_ACCEPT then Some (CAccept a0)
     else if syscall_id = SYSCALL_MKDIRAT then Some (CMkdirat (isize (int a0)) a1)
     else if syscall_id = SYSCALL_UNLINKAT then Some (CUnlinkat (isize (int a0)) a1)
     else if syscall_id = SYSCALL_LINKAT then Some (CLinkat (isize (int a0)) a1 a2)
     else if syscall_id = SYSCALL_CHDIR then Some (CChdir a0)
     else if syscall_id = SYSCALL_OPENAT then Some (COpenat (isize (int a0)) a1 (a2 mod 2 ^ 32))
     else if syscall_id = SYSCALL_CLOSE then Some (CClose a0)
     else if syscall_id = SYSCALL_PIPE then Some (CPipe a0)
     else if syscall_id = SYSCALL_GETDENTS then Some (CGetdents a0 a1 a2)
     else if syscall_id = SYSCALL_READ then Some (CRead a0 a1 a2)
     else if syscall_id = SYSCALL_WRITE then Some (CWrite a0 a1 a2)
     else if syscall_id = SYSCALL_FSTAT then Some (CFstat a0 a1)
     else if syscall_id = SYSCALL_EXIT then Some (CExit (as_i32 a0))
     else if syscall_id = SYSCALL_SLEEP then Some (CSleep a0)
     else if syscall_id = SYSCALL_YIELD then Some CYield
     else if syscall_id = SYSCALL_KILL then Some (CKill a0 (as_i32 a1))
     else if syscall_id = SYSCALL_SIGACTION then Some (CSigaction (as_i32 a0) a1 a2)
     else if syscall_id = SYSCALL_SIGPROCMASK then Some (CSigprocmask (a0 mod 2 ^ 32))
     else if syscall_id = SYSCALL_SIGRETURN then Some CSigreturn
     else if syscall_id = SYSCALL_GET_TIME then Some (CGet_time a0)
     else if syscall_id = SYSCALL_GETPID then Some CGetpid
     else if syscall_id = SYSCALL_MUNMAP then Some (CMunmap a0 a1)
     else if syscall_id = SYSCALL_FORK then Some CFork
     else if syscall_id = SYSCALL_EXEC then Some (CExec a0 a1)
     else if syscall_id = SYSCALL_MMAP then Some (CMmap a0 a1 a2)
     else if syscall_id = SYSCALL_WAITPID then Some (CWaitpid (isize (int a0)) a1)
     else if syscall_id = SYSCALL_THREAD_CREATE then Some (CThread_create a0 a1)
     else if syscall_id = SYSCALL_GETTID then Some CGettid
     else if syscall_id = SYSCALL_WAITTID then Some (CWaittid a0)
     else if syscall_id = SYSCALL_MUTEX_CREATE then Some (CMutex_create (a0 = 1))
     else if syscall_id = SYSCALL_MUTEX_LOCK then Some (CMutex_lock a0)
     else if syscall_id = SYSCALL_MUTEX_UNLOCK then Some (CMutex_unlock a0)
     else if syscall_id = SYSCALL_SEMAPHORE_CREATE then Some (CSemaphore_create a0)
     else if syscall_id = SYSCALL_SEMAPHORE_UP then Some (CSemaphore_up a0)
     else if syscall_id = SYSCALL_SEMAPHORE_DOWN then Some (CSemaphore_down a0)
     else if syscall_id = SYSCALL_CONDVAR_CREATE then Some CCondvar_create
     else if syscall_id = SYSCALL_CONDVAR_SIGNAL then Some (CCondvar_signal a0)
     else if syscall_id = SYSCALL_CONDVAR_WAIT then Some (CCondvar_wait a0 a1)
     else if syscall_id = SYSCALL_EVENT_GET then Some CEvent_get
     else if syscall_id = SYSCALL_KEY_PRESSED then Some CKey_pressed
     else None)"

section \<open>Numbers and wrappers in the user library\<close>

definition USER_GETCWD :: nat where [syscall_ids]: "USER_GETCWD = 17"
definition USER_DUP :: nat where [syscall_ids]: "USER_DUP = 24"
definition USER_CONNECT :: nat where [syscall_ids]: "USER_CONNECT = 29"
definition USER_LISTEN :: nat where [syscall_ids]: "USER_LISTEN = 30"
definition USER_ACCEPT :: nat where [syscall_ids]: "USER_ACCEPT = 31"
definition USER_MKDIRAT :: nat where [syscall_ids]: "USER_MKDIRAT = 34"
definition USER_UNLINKAT :: nat where [syscall_ids]: "USER_UNLINKAT = 35"
definition USER_LINKAT :: nat where [syscall_ids]: "USER_LINKAT = 37"
definition USER_CHDIR :: nat where [syscall_ids]: "USER_CHDIR = 49"
definition USER_OPENAT :: nat where [syscall_ids]: "USER_OPENAT = 56"
definition USER_CLOSE :: nat where [syscall_ids]: "USER_CLOSE = 57"
definition USER_PIPE :: nat where [syscall_ids]: "USER_PIPE = 59"
definition USER_GETDENTS :: nat where [syscall_ids]: "USER_GETDENTS = 61"
definition USER_READ :: nat where [syscall_ids]: "USER_READ = 63"
definition USER_WRITE :: nat where [syscall_ids]: "USER_WRITE = 64"
definition USER_FSTAT :: nat where [syscall_ids]: "USER_FSTAT = 80"
definition USER_EXIT :: nat where [syscall_ids]: "USER_EXIT = 93"
definition USER_SLEEP :: nat where [syscall_ids]: "USER_SLEEP = 101"
definition USER_YIELD :: nat where [syscall_ids]: "USER_YIELD = 124"
definition USER_KILL :: nat where [syscall_ids]: "USER_KILL = 129"
definition USER_SIGACTION :: nat where [syscall_ids]: "USER_SIGACTION = 134"
definition USER_SIGPROCMASK :: nat where [syscall_ids]: "USER_SIGPROCMASK = 135"
definition USER_SIGRETURN :: nat where [syscall_ids]: "USER_SIGRETURN = 139"
definition USER_GET_TIME :: nat where [syscall_ids]: "USER_GET_TIME = 169"
definition USER_GETPID :: nat where [syscall_ids]: "USER_GETPID = 172"
definition USER_MUNMAP :: nat where [syscall_ids]: "USER_MUNMAP = 215"
definition USER_FORK :: nat where [syscall_ids]: "USER_FORK = 220"
definition USER_EXEC :: nat where [syscall_ids]: "USER_EXEC = 221"
definition USER_MMAP :: nat where [syscall_ids]: "USER_MMAP = 222"
definition USER_WAITPID :: nat where [syscall_ids]: "USER_WAITPID = 260"
definition USER_THREAD_CREATE :: nat where [syscall_ids]: "USER_THREAD_CREATE = 1000"
definition USER_GETTID :: nat where [syscall_ids]: "USER_GETTID = 1001"
definition USER_WAITTID :: nat where [syscall_ids]: "USER_WAITTID = 1002"
definition USER_MUTEX_CREATE :: nat where [syscall_ids]: "USER_MUTEX_CREATE = 1010"
definition USER_MUTEX_LOCK :: nat where [syscall_ids]: "USER_MUTEX_LOCK = 1011"
definition USER_MUTEX_UNLOCK :: nat where [syscall_ids]: "USER_MUTEX_UNLOCK = 1012"
definition USER_SEMAPHORE_CREATE :: nat where [syscall_ids]: "USER_SEMAPHORE_CREATE = 1020"
definition USER_SEMAPHORE_UP :: nat where [syscall_ids]: "USER_SEMAPHORE_UP = 1021"
definition USER_SEMAPHORE_DOWN :: nat where [syscall_ids]: "USER_SEMAPHORE_DOWN = 1022"
definition USER_CONDVAR_CREATE :: nat where [syscall_ids]: "USER_CONDVAR_CREATE = 1030"
definition USER_CONDVAR_SIGNAL :: nat where [syscall_ids]: "USER_CONDVAR_SIGNAL = 1031"
definition USER_CONDVAR_WAIT :: nat where [syscall_ids]: "USER_CONDVAR_WAIT = 1032"

definition user_ecall :: "nat \<Rightarrow> nat \<Rightarrow> nat \<Rightarrow> nat \<Rightarrow> nat \<times> nat \<times> nat \<times> nat" where
  \<comment> \<open>\<open>x17\<close>, \<open>x10\<close>, \<open>x11\<close> and \<open>x12\<close> at the \<open>ecall\<close>\<close>
  "user_ecall i a0 a1 a2 = (i, a0, a1, a2)"

definition user_sys_getcwd :: "nat \<Rightarrow> nat \<Rightarrow> nat \<times> nat \<times> nat \<times> nat" where
  "user_sys_getcwd a0 a1 = user_ecall USER_GETCWD a0 a1 0"

definition user_sys_dup :: "nat \<Rightarrow> nat \<times> nat \<times> nat \<times> nat" where
  "user_sys_dup a0 = user_ecall USER_DUP a0 0 0"

definition user_sys_connect :: "nat \<Rightarrow> nat \<Rightarrow> nat \<Rightarrow> nat \<times> nat \<times> nat \<times> nat" where
  "user_sys_connect a0 a1 a2 = user_ecall USER_CONNECT a0 a1 a2"

definition user_sys_listen :: "nat \<Rightarrow> nat \<times> nat \<times> nat \<times> nat" where
  "user_sys_listen a0 = user_ecall USER_LISTEN a0 0 0"

definition user_sys_accept :: "nat \<Rightarrow> nat \<times> nat \<times> nat \<times> nat" where
  "user_sys_accept a0 = user_ecall USER_ACCEPT a0 0 0"

definition user_sys_mkdirat :: "int \<Rightarrow> nat \<Rightarrow> nat \<times> nat \<times> nat \<times> nat" where
  "user_sys_mkdirat a0 a1 = user_ecall USER_MKDIRAT (as_usize a0) a1 0"

definition user_sys_unlinkat :: "int \<Rightarrow> nat \<Rightarrow> nat \<times> nat \<times> nat \<times> nat" where
  "user_sys_unlinkat a0 a1 = user_ecall USER_UNLINKAT (as_usize a0) a1 0"

definition user_sys_linkat :: "int \<Rightarrow> nat \<Rightarrow> nat \<Rightarrow> nat \<times> nat \<times> nat \<times> nat" where
  "user_sys_linkat a0 a1 a2 = user_ecall USER_LINKAT (as_usize a0) a1 a2"

definition user_sys_chdir :: "nat \<Rightarrow> nat \<times> nat \<times> nat \<times> nat" where
  "user_sys_chdir a0 = user_ecall USER_CHDIR a0 0 0"

definition user_sys_openat :: "int \<Rightarrow> nat \<Rightarrow> nat \<Rightarrow> nat \<times> nat \<times> nat \<times> nat" where
  "user_sys_openat a0 a1 a2 = user_ecall USER_OPENAT (as_usize a0) a1 a2"

definition user_sys_close :: "nat \<Rightarrow> nat \<times> nat \<times> nat \<times> nat" where
  "user_sys_close a0 = user_ecall USER_CLOSE a0 0 0"

definition user_sys_pipe :: "nat \<Rightarrow> nat \<times> nat \<times> nat \<times> nat" where
  "user_sys_pipe a0 = user_ecall USER_PIPE a0 0 0"

definition user_sys_getdents :: "nat \<Rightarrow> nat \<Rightarrow> nat \<Rightarrow> nat \<times> nat \<times> nat \<times> nat" where
  "user_sys_getdents a0 a1 a2 = user_ecall USER_GETDENTS a0 a1 a2"

definition user_sys_read :: "nat \<Rightarrow> nat \<Rightarrow> nat \<Rightarrow> nat \<times> nat \<times> nat \<times> nat" where
  "user_sys_read a0 a1 a2 = user_ecall USER_READ a0 a1 a2"

definition user_sys_write :: "nat \<Rightarrow> nat \<Rightarrow> nat \<Rightarrow> nat \<times> nat \<times> nat \<times> nat" where
  "user_sys_write a0 a1 a2 = user_ecall USER_WRITE a0 a1 a2"

definition user_sys_fstat :: "nat \<Rightarrow> nat \<Rightarrow> nat \<times> nat \<times> nat \<times> nat" where
  "user_sys_fstat a0 a1 = user_ecall USER_FSTAT a0 a1 0"

definition user_sys_exit :: "int \<Rightarrow> nat \<times> nat \<times> nat \<times> nat" where
  "user_sys_exit a0 = user_ecall USER_EXIT (as_usize a0) 0 0"

definition user_sys_sleep :: "nat \<Rightarrow> nat \<times> nat \<times> nat \<times> nat" where
  "user_sys_sleep a0 = user_ecall USER_SLEEP a0 0 0"

definition user_sys_yield :: "nat \<times> nat \<times> nat \<times> nat" where
  "user_sys_yield = user_ecall USER_YIELD 0 0 0"

definition user_sys_kill :: "nat \<Rightarrow> int \<Rightarrow> nat \<times> nat \<times> nat \<times> nat" where
  "user_sys_kill a0 a1 = user_ecall USER_KILL a0 (as_usize a1) 0"

definition user_sys_sigaction :: "int \<Rightarrow> nat \<Rightarrow> nat \<Rightarrow> nat \<times> nat \<times> nat \<times> nat" where
  "user_sys_sigaction a0 a1 a2 = user_ecall USER_SIGACTION (as_usize a0) a1 a2"

definition user_sys_sigprocmask :: "nat \<Rightarrow> nat \<times> nat \<times> nat \<times> nat" where
  "user_sys_sigprocmask a0 = user_ecall USER_SIGPROCMASK a0 0 0"

definition user_sys_sigreturn :: "nat \<times> nat \<times> nat \<times> nat" where
  "user_sys_sigreturn = user_ecall USER_SIGRETURN 0 0 0"

definition user_sys_get_time :: "nat \<Rightarrow> nat \<times> nat \<times> nat \<times> nat" where
  "user_sys_get_time a0 = user_ecall USER_GET_TIME a0 0 0"

definition user_sys_getpid :: "nat \<times> nat \<times> nat \<times> nat" where
  "user_sys_getpid = user_ecall USER_GETPID 0 0 0"

definition user_sys_munmap :: "nat \<Rightarrow> nat \<Rightarrow> nat \<times> nat \<times> nat \<times> nat" where
  "user_sys_munmap a0 a1 = user_ecall USER_MUNMAP a0 a1 0"

definition user_sys_fork :: "nat \<times> nat \<times> nat \<times> nat" where
  "user_sys_fork = user_ecall USER_FORK 0 0 0"

definition user_sys_exec :: "nat \<Rightarrow> nat \<Rightarrow> nat \<times> nat \<times> nat \<times> nat" where
  "user_sys_exec a0 a1 = user_ecall USER_EXEC a0 a1 0"

definition user_sys_mmap :: "nat \<Rightarrow> nat \<Rightarrow> nat \<Rightarrow> nat \<times> nat \<times> nat \<times> nat" where
  "user_sys_mmap a0 a1 a2 = user_ecall USER_MMAP a0 a1 a2"

definition user_sys_waitpid :: "int \<Rightarrow> nat \<Rightarrow> nat \<times> nat \<times> nat \<times> nat" where
  "user_sys_waitpid a0 a1 = user_ecall USER_WAITPID (as_usize a0) a1 0"

definition user_sys_thread_create :: "nat \<Rightarrow> nat \<Rightarrow> nat \<times> nat \<times> nat \<times> nat" where
  "user_sys_thread_create a0 a1 = user_ecall USER_THREAD_CREATE a0 a1 0"

definition user_sys_gettid :: "nat \<times> nat \<times> nat \<times> nat" where
  "user_sys_gettid = user_ecall USER_GETTID 0 0 0"

definition user_sys_waittid :: "nat \<Rightarrow> nat \<times> nat \<times> nat \<times> nat" where
  "user_sys_waittid a0 = user_ecall USER_WAITTID a0 0 0"

definition user_sys_mutex_create :: "bool \<Rightarrow> nat \<times> nat \<times> nat \<times> nat" where
  "user_sys_mutex_create a0 = user_ecall USER_MUTEX_CREATE (if a0 then 1 else 0) 0 0"

definition user_sys_mutex_lock :: "nat \<Rightarrow> nat \<times> nat \<times> nat \<times> nat" where
  "user_sys_mutex_lock a0 = user_ecall USER_MUTEX_LOCK a0 0 0"

definition user_sys_mutex_unlock :: "nat \<Rightarrow> nat \<times> nat \<times> nat \<times> nat" where
  "user_sys_mutex_unlock a0 = user_ecall USER_MUTEX_UNLOCK a0 0 0"

definition user_sys_semaphore_create :: "nat \<Rightarrow> nat \<times> nat \<times> nat \<times> nat" where
  "user_sys_semaphore_create a0 = user_ecall USER_SEMAPHORE_CREATE a0 0 0"

definition user_sys_semaphore_up :: "nat \<Rightarrow> nat \<times> nat \<times> nat \<times> nat" where
  "user_sys_semaphore_up a0 = user_ecall USER_SEMAPHORE_UP a0 0 0"

definition user_sys_semaphore_down :: "nat \<Rightarrow> nat \<times> nat \<times> nat \<times> nat" where
  "user_sys_semaphore_down a0 = user_ecall USER_SEMAPHORE_DOWN a0 0 0"

definition user_sys_condvar_create :: "nat \<times> nat \<times> nat \<times> nat" where
  "user_sys_condvar_create = user_ecall USER_CONDVAR_CREATE 0 0 0"

definition user_sys_condvar_signal :: "nat \<Rightarrow> nat \<times> nat \<times> nat \<times> nat" where
  "user_sys_condvar_signal a0 = user_ecall USER_CONDVAR_SIGNAL a0 0 0"

definition user_sys_condvar_wait :: "nat \<Rightarrow> nat \<Rightarrow> nat \<times> nat \<times> nat \<times> nat" where
  "user_sys_condvar_wait a0 a1 = user_ecall USER_CONDVAR_WAIT a0 a1 0"

primrec user_call :: "Syscall \<Rightarrow> (nat \<times> nat \<times> nat \<times> nat) option" where
  \<comment> \<open>the wrapper for the call, if the library has one\<close>
  "user_call (CGetcwd a0 a1) = Some (user_sys_getcwd a0 a1)"
| "user_call (CDup a0) = Some (user_sys_dup a0)"
| "user_call (CConnect a0 a1 a2) = Some (user_sys_connect a0 a1 a2)"
| "user_call (CListen a0) = Some (user_sys_listen a0)"
| "user_call (CAccept a0) = Some (user_sys_accept a0)"
| "user_call (CMkdirat a0 a1) = Some (user_sys_mkdirat a0 a1)"
| "user_call (CUnlinkat a0 a1) = Some (user_sys_unlinkat a0 a1)"
| "user_call (CLinkat a0 a1 a2) = Some (user_sys_linkat a0 a1 a2)"
| "user_call (CChdir a0) = Some (user_sys_chdir a0)"
| "user_call (COpenat a0 a1 a2) = Some (user_sys_openat a0 a1 a2)"
| "user_call (CClose a0) = Some (user_sys_close a0)"
| "user_call (CPipe a0) = Some (user_sys_pipe a0)"
| "user_call (CGetdents a0 a1 a2) = Some (user_sys_getdents a0 a1 a2)"
| "user_call (CRead a0 a1 a2) = Some (user_sys_read a0 a1 a2)"
| "user_call (CWrite a0 a1 a2) = Some (user_sys_write a0 a1 a2)"
| "user_call (CFstat a0 a1) = Some (user_sys_fstat a0 a1)"
| "user_call (CExit a0) = Some (user_sys_exit a0)"
| "user_call (CSleep a0) = Some (user_sys_sleep a0)"
| "user_call CYield = Some user_sys_yield"
| "user_call (CKill a0 a1) = Some (user_sys_kill a0 a1)"
| "user_call (CSigaction a0 a1 a2) = Some (user_sys_sigaction a0 a1 a2)"
| "user_call (CSigprocmask a0) = Some (user_sys_sigprocmask a0)"
| "user_call CSigreturn = Some user_sys_sigreturn"
| "user_call (CGet_time a0) = Some (user_sys_get_time a0)"
| "user_call CGetpid = Some user_sys_getpid"
| "user_call (CMunmap a0 a1) = Some (user_sys_munmap a0 a1)"
| "user_call CFork = Some user_sys_fork"
| "user_call (CExec a0 a1) = Some (user_sys_exec a0 a1)"
| "user_call (CMmap a0 a1 a2) = Some (user_sys_mmap a0 a1 a2)"
| "user_call (CWaitpid a0 a1) = Some (user_sys_waitpid a0 a1)"
| "user_call (CThread_create a0 a1) = Some (user_sys_thread_create a0 a1)"
| "user_call CGettid = Some user_sys_gettid"
| "user_call (CWaittid a0) = Some (user_sys_waittid a0)"
| "user_call (CMutex_create a0) = Some (user_sys_mutex_create a0)"
| "user_call (CMutex_lock a0) = Some (user_sys_mutex_lock a0)"
| "user_call (CMutex_unlock a0) = Some (user_sys_mutex_unlock a0)"
| "user_call (CSemaphore_create a0) = Some (user_sys_semaphore_create a0)"
| "user_call (CSemaphore_up a0) = Some (user_sys_semaphore_up a0)"
| "user_call (CSemaphore_down a0) = Some (user_sys_semaphore_down a0)"
| "user_call CCondvar_create = Some user_sys_condvar_create"
| "user_call (CCondvar_signal a0) = Some (user_sys_condvar_signal a0)"
| "user_call (CCondvar_wait a0 a1) = Some (user_sys_condvar_wait a0 a1)"
| "user_call CEvent_get = None"
| "user_call CKey_pressed = None"

fun call_fits :: "Syscall \<Rightarrow> bool" where
  \<comment> \<open>the arguments are values of their types\<close>
  "call_fits (CConnect a0 a1 a2) \<longleftrightarrow> a0 < 2 ^ 32 \<and> a1 < 2 ^ 16 \<and> a2 < 2 ^ 16"
| "call_fits (CListen a0) \<longleftrightarrow> a0 < 2 ^ 16"
| "call_fits (CMkdirat a0 a1) \<longleftrightarrow> - (2 ^ 63) \<le> a0 \<and> a0 < 2 ^ 63"
| "call_fits (CUnlinkat a0 a1) \<longleftrightarrow> - (2 ^ 63) \<le> a0 \<and> a0 < 2 ^ 63"
| "call_fits (CLinkat a0 a1 a2) \<longleftrightarrow> - (2 ^ 63) \<le> a0 \<and> a0 < 2 ^ 63"
| "call_fits (COpenat a0 a1 a2) \<longleftrightarrow> - (2 ^ 63) \<le> a0 \<and> a0 < 2 ^ 63 \<and> a2 < 2 ^ 32"
| "call_fits (CExit a0) \<longleftrightarrow> - (2 ^ 31) \<le> a0 \<and> a0 < 2 ^ 31"
| "call_fits (CKill a0 a1) \<longleftrightarrow> - (2 ^ 31) \<le> a1 \<and> a1 < 2 ^ 31"
| "call_fits (CSigaction a0 a1 a2) \<longleftrightarrow> - (2 ^ 31) \<le> a0 \<and> a0 < 2 ^ 31"
| "call_fits (CSigprocmask a0) \<longleftrightarrow> a0 < 2 ^ 32"
| "call_fits (CWaitpid a0 a1) \<longleftrightarrow> - (2 ^ 63) \<le> a0 \<and> a0 < 2 ^ 63"
| "call_fits _ \<longleftrightarrow> True"

lemmas user_wrappers = user_ecall_def user_sys_getcwd_def user_sys_dup_def user_sys_connect_def user_sys_listen_def user_sys_accept_def user_sys_mkdirat_def user_sys_unlinkat_def user_sys_linkat_def user_sys_chdir_def user_sys_openat_def user_sys_close_def user_sys_pipe_def user_sys_getdents_def user_sys_read_def user_sys_write_def user_sys_fstat_def user_sys_exit_def user_sys_sleep_def user_sys_yield_def user_sys_kill_def user_sys_sigaction_def user_sys_sigprocmask_def user_sys_sigreturn_def user_sys_get_time_def user_sys_getpid_def user_sys_munmap_def user_sys_fork_def user_sys_exec_def user_sys_mmap_def user_sys_waitpid_def user_sys_thread_create_def user_sys_gettid_def user_sys_waittid_def user_sys_mutex_create_def user_sys_mutex_lock_def user_sys_mutex_unlock_def user_sys_semaphore_create_def user_sys_semaphore_up_def user_sys_semaphore_down_def user_sys_condvar_create_def user_sys_condvar_signal_def user_sys_condvar_wait_def

section \<open>Unpacking\<close>

fun unpack_loop :: "nat \<Rightarrow> page_slice list \<Rightarrow> bytes \<Rightarrow> ram \<Rightarrow> bytes option" where
  \<comment> \<open>each piece is copied to \<open>i * len\<close> without a check; a piece that reaches beyond the array overwrites the stack of the kernel, and what
    happens then is undefined\<close>
  "unpack_loop i [] ret m = Some ret"
| "unpack_loop i (sl # sls) ret m = do {
     let len = slice_len sl;
     x \<leftarrow> load_slice sl m;
     ensure (i * len + len \<le> length ret);
     unpack_loop (i + 1) sls (splice (i * len) x ret) m }"

definition unpack_args :: "nat \<Rightarrow> nat \<Rightarrow> nat \<Rightarrow> ram \<Rightarrow> nat list option" where
  "unpack_args n token args_ptr m = do {
     vs \<leftarrow> translated_byte_buffer token args_ptr (n * 8) m;
     bs \<leftarrow> unpack_loop 0 vs (replicate (n * 8) 0) m;
     Some (map (\<lambda>i. le_nat (slice (i * 8) 8 bs)) [0..<n]) }"

section \<open>Conversions\<close>

lemma as_i32_usize: "- (2 ^ 31) \<le> i \<Longrightarrow> i < 2 ^ 31 \<Longrightarrow> as_i32 (as_usize i) = i"
proof -
  assume i: "- (2 ^ 31) \<le> i" "i < 2 ^ 31"
  have "(i mod 2 ^ 64 + 2 ^ 31) mod 2 ^ 32 = (i + 2 ^ 31) mod 2 ^ 32"
    by (metis (no_types) add.commute mod_add_right_eq mod_mod_cancel le_imp_power_dvd numeral_le_iff semiring_norm(71,69,68) order_refl)
  then show ?thesis
    using i by (simp add: as_i32_def as_usize_def)
qed

lemma isize_usize: "- (2 ^ 63) \<le> i \<Longrightarrow> i < 2 ^ 63 \<Longrightarrow> isize (int (as_usize i)) = i"
  by (simp add: isize_def as_usize_def mod_add_left_eq)

lemma unpack_one_piece:
  assumes "segs_ok [sl] m" and "slice_len sl = n"
  shows "unpack_loop 0 [sl] (replicate n 0) m = Some (map (byte_at m) (slice_refs sl))"
  using load_slice_ok [OF assms(1)] assms(2) by (simp add: splice_def)

lemma unpack_two_pieces:
  assumes "segs_ok [sl, sl'] m" and "slice_len sl + slice_len sl' = n" and "slice_len sl < slice_len sl'"
  shows "unpack_loop 0 [sl, sl'] (replicate n 0) m = None"
proof -
  have "segs_ok [sl] m" "segs_ok [sl'] m"
    using assms(1) by (auto simp: segs_ok_def)
  then show ?thesis
    using load_slice_ok [of sl m] load_slice_ok [of sl' m] assms(2,3) by (simp add: Let_def)
qed

section \<open>Properties\<close>

text \<open>
  C23. The two sides of the interface agree: for every system call that the user library offers, with arguments that are values of their types, the registers that the
  wrapper sets make the kernel perform that call with those arguments. Signed descriptors, process ids, exit codes and signal numbers, among them negative
  ones, arrive unchanged.
\<close>

theorem abi_round_trip:
  assumes "user_call c = Some r" and "call_fits c"
  shows "syscall_decode r = Some c"
  using assms by (cases c) (simp_all add: user_wrappers syscall_decode_def syscall_ids as_i32_usize [simplified] isize_usize [simplified], auto simp: syscall_ids as_i32_usize [simplified] isize_usize [simplified])

theorem abi_round_trip_witness:
  "syscall_decode (user_sys_waitpid (- 1) 4096) = Some (CWaitpid (- 1) 4096) \<and> syscall_decode (user_sys_exit (- 11)) = Some (CExit (- 11))"
  using abi_round_trip [of "CWaitpid (- 1) 4096"] abi_round_trip [of "CExit (- 11)"] by simp

text \<open>
  A number that is not in the table stops the kernel.
\<close>

lemma unknown_syscall_panics: "syscall_decode (2, a0, a1, a2) = None"
  by (simp add: syscall_decode_def syscall_ids)

end
