(* ===== verification/Trap.thy ===== *)
theory Trap
  imports Abi
begin

text \<open>
  Traps from user programs (\<^verbatim>\<open>os/src/trap/mod.rs\<close>) over the whole kernel: the dispatch of system calls to the operations of the
  other theories, page faults, illegal instructions, timer and device interrupts, the delivery of signals on the way back, and the return to
  the user. A trap is handled up to the point where the task gives up the processor. What a call sees of the outside (the clock, the frames that
  arrive, the functions of the crates for ELF files and packets, stale bytes on the stack of the kernel) is an argument.
\<close>

section \<open>The machine\<close>

record machine =
  mc_net :: net_sys \<comment> \<open>with the kernel\<close>
  mc_timers :: "TimerCondVar list"
  mc_pipes :: "PipeRingBuffer list"
  mc_devices :: devices
  mc_console :: bytes \<comment> \<open>what has been sent to the UART\<close>
  mc_sie :: bool \<comment> \<open>the bit \<open>SIE\<close> of \<open>sstatus\<close>\<close>
  mc_stvec :: nat
  mc_sscratch :: nat
  mc_next_trigger :: nat \<comment> \<open>the time given to the firmware's timer\<close>

record 'p world =
  w_stack :: "'p LoseStack"
  w_elf :: "bytes \<Rightarrow> ElfFile option"
  w_mtime :: nat
  w_frames :: "bytes list"
  w_alltraps :: nat \<comment> \<open>addresses of the assembly entries and of \<open>trap_from_kernel\<close>\<close>
  w_alltraps_k :: nat
  w_restore :: nat
  w_trap_from_kernel :: nat
  w_behind :: "nat \<Rightarrow> byte" \<comment> \<open>what lies behind a local value on the stack of the kernel\<close>

definition mc_kernel :: "machine \<Rightarrow> kernel" where
  "mc_kernel m = nt_kernel (mc_net m)"

definition put_kernel :: "kernel \<Rightarrow> machine \<Rightarrow> machine" where
  "put_kernel k m = m\<lparr>mc_net := (mc_net m)\<lparr>nt_kernel := k\<rparr>\<rparr>"

datatype sys_result = Ret int | YieldsThen int | BlockedIn waiting | IoIn io_outcome | Ends exit_outcome | NetWaits
  \<comment> \<open>with \<open>YieldsThen\<close> the call returns once the task runs again\<close>

section \<open>Access to the parts\<close>

definition with_kernel :: "(kernel \<Rightarrow> (int \<times> kernel) option) \<Rightarrow> machine \<Rightarrow> (sys_result \<times> machine) option" where
  "with_kernel f m = do { (r, k) \<leftarrow> f (mc_kernel m); Some (Ret r, put_kernel k m) }"

definition with_sync :: "(kernel \<Rightarrow> (call_result \<times> kernel) option) \<Rightarrow> machine \<Rightarrow> (sys_result \<times> machine) option" where
  "with_sync f m = do { (r, k) \<leftarrow> f (mc_kernel m); Some (case r of Returns i \<Rightarrow> Ret i | Suspends w \<Rightarrow> BlockedIn w, put_kernel k m) }"

definition kfiles_of :: "machine \<Rightarrow> kfiles" where
  "kfiles_of m = \<lparr>kf_efs = k_efs (mc_kernel m), kf_disk = k_disk (mc_kernel m), kf_ram = ram (k_mm (mc_kernel m)), kf_inodes = k_inodes (mc_kernel m),
     kf_pipes = mc_pipes m\<rparr>"

definition put_files :: "nat \<Rightarrow> ProcessControlBlock \<Rightarrow> pfiles \<Rightarrow> kfiles \<Rightarrow> machine \<Rightarrow> machine" where
  "put_files pid P p kf m = (let k = set_proc pid (P\<lparr>pcb_fd_table := fd_table p, pcb_cwd := cwd p\<rparr>) (set_ram (kf_ram kf) (mc_kernel m)) in
     (put_kernel (k\<lparr>k_disk := kf_disk kf, k_inodes := kf_inodes kf\<rparr>) m)\<lparr>mc_pipes := kf_pipes kf\<rparr>)"

definition with_files :: "(pfiles \<Rightarrow> kfiles \<Rightarrow> (int \<times> pfiles \<times> kfiles) option) \<Rightarrow> machine \<Rightarrow> (sys_result \<times> machine) option" where
  "with_files f m = do {
     pid \<leftarrow> current_process (mc_kernel m);
     P \<leftarrow> k_procs (mc_kernel m) pid;
     (r, p, kf) \<leftarrow> f (pfiles_of P) (kfiles_of m);
     Some (Ret r, put_files pid P p kf m) }"

definition file_referenced :: "File \<Rightarrow> kernel \<Rightarrow> bool" where
  \<comment> \<open>pids in use are below the first one never used\<close>
  "file_referenced f k \<longleftrightarrow> (\<exists>pid \<in> {..<ra_current (k_pids k)}. case k_procs k pid of Some P \<Rightarrow> Some f \<in> set (pcb_fd_table P) | None \<Rightarrow> False)"

fun drop_files :: "File list \<Rightarrow> net_sys \<Rightarrow> net_sys option" where
  \<comment> \<open>\<open>Drop\<close> of the files to which no reference is left\<close>
  "drop_files [] s = Some s"
| "drop_files (f # fs) s = do {
     s \<leftarrow> (if file_referenced f (nt_kernel s) then Some s else File_drop f s);
     drop_files fs s }"

definition open_files :: "nat \<Rightarrow> kernel \<Rightarrow> File list" where
  "open_files pid k = (case k_procs k pid of Some P \<Rightarrow> remdups (map the (filter (\<lambda>f. f \<noteq> None) (pcb_fd_table P))) | None \<Rightarrow> [])"

section \<open>Signals\<close>

definition current_tid :: "kernel \<Rightarrow> ProcessControlBlock \<Rightarrow> nat option" where
  "current_tid k P = do { t \<leftarrow> current_task k; find_index (\<lambda>x. x = Some t) (pcb_tasks P) }"

definition sig_task_of :: "kernel \<Rightarrow> nat \<Rightarrow> sig_task option" where
  \<comment> \<open>trap contexts are read for the current task only; those of others may be gone\<close>
  "sig_task_of k t = do { T \<leftarrow> k_tasks k t; Some \<lparr>st_proc = tcb_signal_processor T,
     st_trap_cx = (case get_trap_cx (tcb_trap_cx_ppn T) (ram (k_mm k)) of Some cx \<Rightarrow> cx | None \<Rightarrow> app_init_context 0 0 0 0 0 0)\<rparr> }"

definition sig_view :: "kernel \<Rightarrow> ProcessControlBlock \<Rightarrow> sig_process" where
  "sig_view k P = \<lparr>sg_signals = pcb_signals P, sg_tasks = map (\<lambda>x. do { t \<leftarrow> x; sig_task_of k t }) (pcb_tasks P)\<rparr>"

fun put_processors :: "nat option list \<Rightarrow> sig_task option list \<Rightarrow> kernel \<Rightarrow> kernel" where
  "put_processors (Some t # ts) (Some x # xs) k = put_processors ts xs
     (case k_tasks k t of Some T \<Rightarrow> set_task t (T\<lparr>tcb_signal_processor := st_proc x\<rparr>) k | None \<Rightarrow> k)"
| "put_processors (_ # ts) (_ # xs) k = put_processors ts xs k"
| "put_processors _ _ k = k"

definition current_trap_cx :: "kernel \<Rightarrow> TrapContext option" where
  "current_trap_cx k = do { t \<leftarrow> current_task k; T \<leftarrow> k_tasks k t; get_trap_cx (tcb_trap_cx_ppn T) (ram (k_mm k)) }"

definition put_current_trap_cx :: "TrapContext \<Rightarrow> kernel \<Rightarrow> kernel option" where
  "put_current_trap_cx cx k = do { t \<leftarrow> current_task k; T \<leftarrow> k_tasks k t; write_trap_cx T cx k }"

definition put_signals :: "nat \<Rightarrow> ProcessControlBlock \<Rightarrow> nat \<Rightarrow> sig_process \<Rightarrow> kernel \<Rightarrow> kernel option" where
  "put_signals pid P cur S k = do {
     t \<leftarrow> sig_current cur S;
     put_current_trap_cx (st_trap_cx t) (put_processors (pcb_tasks P) (sg_tasks S) (set_proc pid (P\<lparr>pcb_signals := sg_signals S\<rparr>) k)) }"

definition with_signals :: "(nat \<Rightarrow> sig_process \<Rightarrow> ('r \<times> sig_process) option) \<Rightarrow> kernel \<Rightarrow> ('r \<times> kernel) option" where
  "with_signals f k = do {
     pid \<leftarrow> current_process k;
     P \<leftarrow> k_procs k pid;
     cur \<leftarrow> current_tid k P;
     (r, S) \<leftarrow> f cur (sig_view k P);
     k \<leftarrow> put_signals pid P cur S k;
     Some (r, k) }"

definition kernel_kill :: "nat \<Rightarrow> int \<Rightarrow> kernel \<Rightarrow> (int \<times> kernel) option" where
  "kernel_kill pid signum k =
     (let procs = (\<lambda>p. if p \<in> k_pid2pcb k then map_option (sig_view k) (k_procs k p) else None);
          (r, procs') = sys_kill procs pid signum
      in Some (r, case (k_procs k pid, procs' pid) of
           (Some P, Some S) \<Rightarrow> set_proc pid (P\<lparr>pcb_signals := sg_signals S\<rparr>) k | _ \<Rightarrow> k))"

definition kernel_sigaction :: "int \<Rightarrow> nat \<Rightarrow> nat \<Rightarrow> kernel \<Rightarrow> (int \<times> kernel) option" where
  "kernel_sigaction signum action old_action k = do {
     pid \<leftarrow> current_process k;
     P \<leftarrow> k_procs k pid;
     cur \<leftarrow> current_tid k P;
     (r, S, m) \<leftarrow> sys_sigaction (MemorySet_token (memory_set P)) cur signum action old_action (sig_view k P) (ram (k_mm k));
     Some (r, put_processors (pcb_tasks P) (sg_tasks S) (set_ram m k)) }"

section \<open>Dispatch\<close>

definition with_proc :: "(ProcessControlBlock \<Rightarrow> kernel \<Rightarrow> (int \<times> ProcessControlBlock \<times> kernel) option) \<Rightarrow> kernel \<Rightarrow> (int \<times> kernel) option" where
  "with_proc f k = do {
     pid \<leftarrow> current_process k;
     P \<leftarrow> k_procs k pid;
     (r, P, k) \<leftarrow> f P k;
     Some (r, set_proc pid P k) }"

definition run_read :: "'p world \<Rightarrow> nat \<Rightarrow> nat \<Rightarrow> nat \<Rightarrow> machine \<Rightarrow> (sys_result \<times> machine) option" where
  "run_read w fd buf len m = do {
     pid \<leftarrow> current_process (mc_kernel m);
     P \<leftarrow> k_procs (mc_kernel m) pid;
     (r, kf) \<leftarrow> sys_read fd buf len (pfiles_of P) (kfiles_of m);
     let m = put_files pid P (pfiles_of P) kf m;
     let net = (\<lambda>outcome. do {
       (n, _, s) \<leftarrow> outcome;
       Some (case n of Some n \<Rightarrow> Ret (int n) | None \<Rightarrow> NetWaits, m\<lparr>mc_net := s\<rparr>) });
     case r of
       IoReturns i \<Rightarrow> Some (Ret i, m)
     | IoPipe b c \<Rightarrow> Some (IoIn (IoPipe b c), m)
     | IoTcp c bufs \<Rightarrow> net (TCP_read (w_stack w) c bufs (w_frames w) (mc_net m))
     | IoUdp c bufs \<Rightarrow> net (UDP_read (w_stack w) c bufs (w_frames w) (mc_net m))
     | IoConsole bufs \<Rightarrow> do {
         (n, u, mem, k) \<leftarrow> Stdin_read_round bufs (dv_uart (mc_devices m)) (ram (k_mm (mc_kernel m))) (mc_kernel m);
         Some (case n of Some n \<Rightarrow> Ret (int n) | None \<Rightarrow> IoIn (IoConsole bufs),
           (put_kernel (set_ram mem k) m)\<lparr>mc_devices := (mc_devices m)\<lparr>dv_uart := u\<rparr>\<rparr>) } }"

definition run_write :: "'p world \<Rightarrow> nat \<Rightarrow> nat \<Rightarrow> nat \<Rightarrow> machine \<Rightarrow> (sys_result \<times> machine) option" where
  "run_write w fd buf len m = do {
     pid \<leftarrow> current_process (mc_kernel m);
     P \<leftarrow> k_procs (mc_kernel m) pid;
     (r, kf) \<leftarrow> sys_write fd buf len (pfiles_of P) (kfiles_of m);
     let m = put_files pid P (pfiles_of P) kf m;
     let mem = ram (k_mm (mc_kernel m));
     case r of
       IoReturns i \<Rightarrow> Some (Ret i, m)
     | IoPipe b c \<Rightarrow> Some (IoIn (IoPipe b c), m)
     | IoTcp c bufs \<Rightarrow> do { (n, f) \<leftarrow> TCP_write (w_stack w) c bufs (nt_sockets (mc_net m)) mem; Some (Ret (int n), m\<lparr>mc_net := transmit f (mc_net m)\<rparr>) }
     | IoUdp c bufs \<Rightarrow> do { (n, f) \<leftarrow> UDP_write (w_stack w) c bufs mem; Some (Ret (int n), m\<lparr>mc_net := transmit f (mc_net m)\<rparr>) }
     | IoConsole bufs \<Rightarrow> do { (n, sent) \<leftarrow> Stdout_write bufs mem; Some (Ret (int n), m\<lparr>mc_console := mc_console m @ sent\<rparr>) } }"

definition run_close :: "nat \<Rightarrow> machine \<Rightarrow> (sys_result \<times> machine) option" where
  "run_close fd m = do {
     pid \<leftarrow> current_process (mc_kernel m);
     P \<leftarrow> k_procs (mc_kernel m) pid;
     let (r, p) = sys_close fd (pfiles_of P);
     let m = put_files pid P p (kfiles_of m) m;
     s \<leftarrow> drop_files (case fd_get fd (pfiles_of P) of Some f \<Rightarrow> [f] | None \<Rightarrow> []) (mc_net m);
     Some (Ret r, m\<lparr>mc_net := s\<rparr>) }"

definition run_exit :: "int \<Rightarrow> machine \<Rightarrow> (sys_result \<times> machine) option" where
  "run_exit code m = do {
     pid \<leftarrow> current_process (mc_kernel m);
     (r, k) \<leftarrow> sys_exit code (mc_kernel m);
     s \<leftarrow> drop_files (open_files pid (mc_kernel m)) ((mc_net m)\<lparr>nt_kernel := k\<rparr>);
     Some (Ends r, m\<lparr>mc_net := s\<rparr>) }"

definition run_mmap :: "nat \<Rightarrow> nat \<Rightarrow> nat \<Rightarrow> machine \<Rightarrow> (sys_result \<times> machine) option" where
  "run_mmap start len args m = with_kernel (with_proc (\<lambda>P k. do {
     a \<leftarrow> unpack_args 4 (MemorySet_token (memory_set P)) args (ram (k_mm k));
     (r, P) \<leftarrow> sys_mmap start len (a ! 0) (a ! 1) (a ! 2) (a ! 3) (pfiles_of P) (kfiles_of m) P (k_mm k);
     Some (r, P, k) })) m"

definition syscall_run :: "'p world \<Rightarrow> Syscall \<Rightarrow> machine \<Rightarrow> (sys_result \<times> machine) option" where
  "syscall_run w c m = (case c of
     CGetcwd buf len \<Rightarrow> with_files (\<lambda>p kf. do { (r, kf) \<leftarrow> sys_getcwd buf len p kf; Some (r, p, kf) }) m
   | CDup fd \<Rightarrow> with_files (\<lambda>p kf. do { (r, p) \<leftarrow> sys_dup fd p; Some (r, p, kf) }) m
   | CConnect ra lp rp \<Rightarrow> do { (r, s) \<leftarrow> sys_connect ra lp rp (mc_net m); Some (Ret r, m\<lparr>mc_net := s\<rparr>) }
   | CListen pt \<Rightarrow> do { (r, s) \<leftarrow> sys_listen pt (mc_net m); Some (Ret r, m\<lparr>mc_net := s\<rparr>) }
   | CAccept idx \<Rightarrow> do { (r, _, s) \<leftarrow> sys_accept (w_stack w) idx (w_frames w) (mc_net m);
       Some (case r of Some i \<Rightarrow> Ret i | None \<Rightarrow> NetWaits, m\<lparr>mc_net := s\<rparr>) }
   | CMkdirat fd path \<Rightarrow> with_files (\<lambda>p kf. do { (r, kf) \<leftarrow> sys_mkdirat fd path p kf; Some (r, p, kf) }) m
   | CUnlinkat fd path \<Rightarrow> with_files (\<lambda>p kf. do { (r, kf) \<leftarrow> sys_unlinkat fd path p kf; Some (r, p, kf) }) m
   | CLinkat fd old new \<Rightarrow> with_files (\<lambda>p kf. do { (r, kf) \<leftarrow> sys_linkat fd old new p kf; Some (r, p, kf) }) m
   | CChdir path \<Rightarrow> with_files (\<lambda>p kf. do { (r, p) \<leftarrow> sys_chdir path p kf; Some (r, p, kf) }) m
   | COpenat fd path fl \<Rightarrow> with_files (sys_openat fd path (word_of_nat fl)) m
   | CClose fd \<Rightarrow> run_close fd m
   | CPipe ptr \<Rightarrow> with_files (sys_pipe ptr) m
   | CGetdents fd ptr len \<Rightarrow> with_files (\<lambda>p kf. do { (r, kf) \<leftarrow> sys_getdents fd ptr len p kf; Some (r, p, kf) }) m
   | CRead fd buf len \<Rightarrow> run_read w fd buf len m
   | CWrite fd buf len \<Rightarrow> run_write w fd buf len m
   | CFstat fd ptr \<Rightarrow> with_files (\<lambda>p kf. do { (r, kf) \<leftarrow> sys_fstat (w_behind w) fd ptr p kf; Some (r, p, kf) }) m
   | CExit code \<Rightarrow> run_exit code m
   | CSleep ms \<Rightarrow> do { (r, ts, k) \<leftarrow> sys_sleep (w_mtime w) ms (mc_timers m) (mc_kernel m);
       Some (case r of Returns i \<Rightarrow> Ret i | Suspends wt \<Rightarrow> BlockedIn wt, (put_kernel k m)\<lparr>mc_timers := ts\<rparr>) }
   | CYield \<Rightarrow> do { (r, k) \<leftarrow> sys_yield (mc_kernel m); Some (YieldsThen r, put_kernel k m) }
   | CKill pid signum \<Rightarrow> with_kernel (kernel_kill pid signum) m
   | CSigaction signum act old \<Rightarrow> with_kernel (kernel_sigaction signum act old) m
   | CSigprocmask msk \<Rightarrow> with_kernel (with_signals (\<lambda>cur. sys_sigprocmask cur (word_of_nat msk))) m
   | CSigreturn \<Rightarrow> with_kernel (with_signals (\<lambda>cur S. do { (r, S) \<leftarrow> sys_sigreturn cur S; Some (isize (int r), S) })) m
   | CGet_time ts \<Rightarrow> with_kernel (sys_get_time (w_behind w) (get_time_us (w_mtime w)) ts) m
   | CGetpid \<Rightarrow> with_kernel (\<lambda>k. do { r \<leftarrow> sys_getpid k; Some (r, k) }) m
   | CMunmap start len \<Rightarrow> with_kernel (with_proc (\<lambda>P k. do {
       (r, P, d, s) \<leftarrow> sys_munmap start len (k_efs k) P (k_disk k) (k_mm k); Some (r, P, k\<lparr>k_disk := d, k_mm := s\<rparr>) })) m
   | CFork \<Rightarrow> with_kernel sys_fork m
   | CExec path args \<Rightarrow> with_kernel (sys_exec (w_elf w) path args) m
   | CMmap start len args \<Rightarrow> run_mmap start len args m
   | CWaitpid pid ptr \<Rightarrow> with_kernel (sys_waitpid pid ptr) m
   | CThread_create entry arg \<Rightarrow> with_kernel (sys_thread_create entry arg) m
   | CGettid \<Rightarrow> with_kernel (\<lambda>k. do { r \<leftarrow> sys_gettid k; Some (r, k) }) m
   | CWaittid tid \<Rightarrow> with_kernel (sys_waittid tid) m
   | CMutex_create b \<Rightarrow> with_kernel (sys_mutex_create b) m
   | CMutex_lock i \<Rightarrow> with_sync (sys_mutex_lock i) m
   | CMutex_unlock i \<Rightarrow> with_kernel (sys_mutex_unlock i) m
   | CSemaphore_create n \<Rightarrow> with_kernel (sys_semaphore_create n) m
   | CSemaphore_up i \<Rightarrow> with_kernel (sys_semaphore_up i) m
   | CSemaphore_down i \<Rightarrow> with_sync (sys_semaphore_down i) m
   | CCondvar_create \<Rightarrow> with_kernel sys_condvar_create m
   | CCondvar_signal i \<Rightarrow> with_kernel (sys_condvar_signal i) m
   | CCondvar_wait i j \<Rightarrow> with_sync (sys_condvar_wait i j) m
   | CEvent_get \<Rightarrow> do { (r, kb, k) \<leftarrow> sys_event_get (dv_keyboard (mc_devices m)) (mc_kernel m);
       Some (case r of Some i \<Rightarrow> Ret i | None \<Rightarrow> IoIn (IoConsole []), (put_kernel k m)\<lparr>mc_devices := (mc_devices m)\<lparr>dv_keyboard := kb\<rparr>\<rparr>) }
   | CKey_pressed \<Rightarrow> Some (Ret (sys_key_pressed (dv_uart (mc_devices m))), m))"


section \<open>Entry and return\<close>

definition set_kernel_trap_entry :: "'p world \<Rightarrow> machine \<Rightarrow> machine" where
  "set_kernel_trap_entry w m = m\<lparr>mc_stvec := w_alltraps_k w - w_alltraps w + TRAMPOLINE, mc_sscratch := w_trap_from_kernel w\<rparr>"

definition set_user_trap_entry :: "machine \<Rightarrow> machine" where
  "set_user_trap_entry m = m\<lparr>mc_stvec := TRAMPOLINE\<rparr>"

definition enable_supervisor_interrupt :: "machine \<Rightarrow> machine" where
  "enable_supervisor_interrupt m = m\<lparr>mc_sie := True\<rparr>"

definition disable_supervisor_interrupt :: "machine \<Rightarrow> machine" where
  "disable_supervisor_interrupt m = m\<lparr>mc_sie := False\<rparr>"

definition current_user_token :: "kernel \<Rightarrow> nat option" where
  "current_user_token k = do { pid \<leftarrow> current_process k; P \<leftarrow> k_procs k pid; Some (MemorySet_token (memory_set P)) }"

datatype trap = UserEnvCall | Fault nat \<comment> \<open>the six access and page faults, with \<open>stval\<close>\<close> | IllegalInstruction | SupervisorTimer
  | SupervisorExternal hw_event | OtherTrap nat

datatype trap_outcome =
  Restores nat nat nat \<comment> \<open>the jump to \<open>__restore\<close>, with the address of the context and the token in \<open>a0\<close> and \<open>a1\<close>\<close>
  | WaitsIn sys_result \<comment> \<open>the task gave up the processor within the call\<close>
  | Preempted | Frozen | Exits exit_outcome

definition trap_return :: "'p world \<Rightarrow> machine \<Rightarrow> (trap_outcome \<times> machine) option" where
  "trap_return w m = do {
     let m = set_user_trap_entry (disable_supervisor_interrupt m);
     trap_cx_ptr \<leftarrow> current_trap_cx_user_va (mc_kernel m);
     user_satp \<leftarrow> current_user_token (mc_kernel m);
     Some (Restores (w_restore w - w_alltraps w + TRAMPOLINE) trap_cx_ptr user_satp, m) }"

definition add_signal :: "SignalFlags \<Rightarrow> machine \<Rightarrow> machine option" where
  "add_signal fl m = do {
     pid \<leftarrow> current_process (mc_kernel m);
     P \<leftarrow> k_procs (mc_kernel m) pid;
     Some (put_kernel (set_proc pid (P\<lparr>pcb_signals := sg_signals (current_add_signal fl (sig_view (mc_kernel m) P))\<rparr>) (mc_kernel m)) m) }"

definition trap_tail :: "'p world \<Rightarrow> machine \<Rightarrow> (trap_outcome \<times> machine) option" where
  \<comment> \<open>from the delivery of signals on; a frozen task gives up the processor and comes back here\<close>
  "trap_tail w m = do {
     (done, k) \<leftarrow> with_signals handle_signals_round (mc_kernel m);
     let m = put_kernel k m;
     if \<not> done then do { k \<leftarrow> suspend_current k; Some (Frozen, put_kernel k m) }
     else do {
       pid \<leftarrow> current_process k;
       P \<leftarrow> k_procs k pid;
       case check_signals_error_of_current (sig_view k P) of
         Some errno \<Rightarrow> do { (r, m) \<leftarrow> run_exit errno m;
           case r of Ends e \<Rightarrow> Some (Exits e, m) | _ \<Rightarrow> None }
       | None \<Rightarrow> trap_return w m } }"

definition syscall_finish :: "'p world \<Rightarrow> int \<Rightarrow> machine \<Rightarrow> (trap_outcome \<times> machine) option" where
  \<comment> \<open>what follows the return of a system call, at once or after the task has waited\<close>
  "syscall_finish w ret m = do {
     cx \<leftarrow> current_trap_cx (mc_kernel m);
     x \<leftarrow> index_set (tc_x cx) 10 (as_usize ret);
     k \<leftarrow> put_current_trap_cx (cx\<lparr>tc_x := x\<rparr>) (mc_kernel m);
     trap_tail w (put_kernel k m) }"

definition syscall_enter :: "machine \<Rightarrow> (Syscall \<times> machine) option" where
  \<comment> \<open>the context is advanced past the \<open>ecall\<close> and the call decoded\<close>
  "syscall_enter m = do {
     cx \<leftarrow> current_trap_cx (mc_kernel m);
     let cx = cx\<lparr>tc_sepc := (tc_sepc cx + 4) mod 2 ^ 64\<rparr>;
     k \<leftarrow> put_current_trap_cx cx (mc_kernel m);
     c \<leftarrow> syscall_decode (tc_x cx ! 17, tc_x cx ! 10, tc_x cx ! 11, tc_x cx ! 12);
     Some (c, enable_supervisor_interrupt (put_kernel k m)) }"

definition check_timers :: "'p world \<Rightarrow> machine \<Rightarrow> machine" where
  "check_timers w m = (let (ts, k) = check_timer (w_mtime w) (mc_timers m) (mc_kernel m) in (put_kernel k m)\<lparr>mc_timers := ts\<rparr>)"

definition device_interrupt :: "hw_event \<Rightarrow> machine \<Rightarrow> machine option" where
  "device_interrupt ev m = do { (d, k) \<leftarrow> irq_handler ev (mc_devices m) (mc_kernel m); Some ((put_kernel k m)\<lparr>mc_devices := d\<rparr>) }"

definition page_fault :: "nat \<Rightarrow> machine \<Rightarrow> (bool \<times> machine) option" where
  "page_fault stval m = do {
     let k = mc_kernel m;
     pid \<leftarrow> current_process k;
     P \<leftarrow> k_procs k pid;
     (b, P, s) \<leftarrow> handle_page_fault stval P (k_disk k) (k_mm k);
     Some (b, put_kernel (set_proc pid P (k\<lparr>k_mm := s\<rparr>)) m) }"

definition trap_handler :: "'p world \<Rightarrow> trap \<Rightarrow> machine \<Rightarrow> (trap_outcome \<times> machine) option" where
  "trap_handler w cause m = do {
     let m = set_kernel_trap_entry w m;
     case cause of
       UserEnvCall \<Rightarrow> do {
         (c, m) \<leftarrow> syscall_enter m;
         (r, m) \<leftarrow> syscall_run w c m;
         case r of Ret ret \<Rightarrow> syscall_finish w ret m | Ends e \<Rightarrow> Some (Exits e, m) | _ \<Rightarrow> Some (WaitsIn r, m) }
     | Fault stval \<Rightarrow> do {
         (fixed, m) \<leftarrow> page_fault stval m;
         m \<leftarrow> (if fixed then Some m else add_signal SIGSEGV m);
         trap_tail w m }
     | IllegalInstruction \<Rightarrow> do { m \<leftarrow> add_signal SIGILL m; trap_tail w m }
     | SupervisorTimer \<Rightarrow> do {
         let m = check_timers w (m\<lparr>mc_next_trigger := set_next_trigger (w_mtime w)\<rparr>);
         k \<leftarrow> suspend_current (mc_kernel m);
         Some (Preempted, put_kernel k m) }
     | SupervisorExternal ev \<Rightarrow> do { m \<leftarrow> device_interrupt ev m; trap_tail w m }
     | OtherTrap _ \<Rightarrow> None }"

definition trap_from_kernel :: "'p world \<Rightarrow> trap \<Rightarrow> machine \<Rightarrow> machine option" where
  "trap_from_kernel w cause m = (case cause of
     SupervisorExternal ev \<Rightarrow> device_interrupt ev m
   | SupervisorTimer \<Rightarrow> Some (check_timers w (m\<lparr>mc_next_trigger := set_next_trigger (w_mtime w)\<rparr>))
   | _ \<Rightarrow> None)"


section \<open>Trap contexts in memory\<close>

definition cx_words :: "TrapContext \<Rightarrow> nat list" where
  "cx_words c = tc_x c @ [tc_sstatus c, tc_sepc c, tc_kernel_satp c, tc_kernel_sp c, tc_trap_handler c]"

definition cx_ok :: "TrapContext \<Rightarrow> bool" where
  \<comment> \<open>a value of the type: 32 registers, every word a \<open>usize\<close>\<close>
  "cx_ok c \<longleftrightarrow> length (tc_x c) = 32 \<and> (\<forall>v \<in> set (cx_words c). v < 2 ^ 64)"

lemma slice_words: "i < length ws \<Longrightarrow> slice (8 * i) 8 (concat (map (le_bytes 8) ws) @ rest) = le_bytes 8 (ws ! i)"
proof (induction ws arbitrary: i)
  case Nil
  then show ?case by simp
next
  case (Cons w ws)
  then show ?case
    by (cases i) (simp_all add: slice_def)
qed

lemma length_words [simp]: "length (concat (map (le_bytes 8) ws)) = 8 * length ws"
  by (induction ws) simp_all

lemma words_of_slices: "8 * n \<le> length bs \<Longrightarrow> concat (map (\<lambda>i. le_bytes 8 (le_nat (slice (8 * i) 8 bs))) [0..<n]) = take (8 * n) bs"
proof (induction n)
  case 0
  then show ?case by simp
next
  case (Suc n)
  have "length (slice (8 * n) 8 bs) = 8"
    using Suc.prems by (simp add: slice_def)
  then have "le_bytes 8 (le_nat (slice (8 * n) 8 bs)) = slice (8 * n) 8 bs"
    using le_bytes_le_nat [of "slice (8 * n) 8 bs"] by simp
  then show ?case
    using Suc by (simp add: slice_def take_add add.commute [of 8])
qed

lemma length_to_bytes: "length (tc_x c) = 32 \<Longrightarrow> length (TrapContext_to_bytes c) = 296"
  unfolding TrapContext_to_bytes_def length_words by simp

lemma of_bytes_ok: "cx_ok (TrapContext_of_bytes bs)"
proof -
  have "le_nat (slice (i) 8 bs) < 2 ^ 64" for i
  proof -
    have "le_nat (slice (i) 8 bs) < 256 ^ length (slice (i) 8 bs)"
      by (rule le_nat_bound)
    also have "\<dots> \<le> 256 ^ 8"
      by (rule power_increasing) (simp_all add: slice_def)
    finally show ?thesis
      by simp
  qed
  then show ?thesis
    by (auto simp: cx_ok_def cx_words_def TrapContext_of_bytes_def Let_def)
qed

lemma of_to_bytes:
  assumes "cx_ok c"
  shows "TrapContext_of_bytes (TrapContext_to_bytes c @ rest) = c"
proof -
  let ?w = "\<lambda>i. le_nat (slice (8 * i) 8 (TrapContext_to_bytes c @ rest))"
  have len: "length (tc_x c) = 32" "length (cx_words c) = 37"
    using assms by (simp_all add: cx_ok_def cx_words_def)
  have w: "?w i = cx_words c ! i" if "i < 37" for i
  proof -
    have "cx_words c ! i < 2 ^ 64"
      using assms that len by (auto simp: cx_ok_def)
    then show ?thesis
      using that len unfolding TrapContext_to_bytes_def cx_words_def [symmetric] slice_words [of i "cx_words c", unfolded len(2), OF that]
      by (simp add: le_nat_le_bytes)
  qed
  have "map ?w [0..<32] = tc_x c"
    using len(1) by (intro nth_equalityI) (simp_all add: w, simp add: cx_words_def nth_append)
  moreover have "?w 32 = tc_sstatus c" "?w 33 = tc_sepc c" "?w 34 = tc_kernel_satp c" "?w 35 = tc_kernel_sp c" "?w 36 = tc_trap_handler c"
    using len(1) by (subst w; simp add: cx_words_def nth_append)+
  ultimately show ?thesis
    by (simp add: TrapContext_of_bytes_def Let_def)
qed

lemma to_of_bytes:
  assumes "296 \<le> length bs"
  shows "TrapContext_to_bytes (TrapContext_of_bytes bs) = take 296 bs"
proof -
  have "[0..<37] = [0..<32] @ [32, 33, 34, 35, 36::nat]"
    by (simp add: upt_rec)
  then have "TrapContext_to_bytes (TrapContext_of_bytes bs) = concat (map (\<lambda>i. le_bytes 8 (le_nat (slice (8 * i) 8 bs))) [0..<37])"
    by (simp add: TrapContext_to_bytes_def TrapContext_of_bytes_def Let_def comp_def del: upt.simps)
  then show ?thesis
    using words_of_slices [of 37 bs] assms by simp
qed

lemma put_get_trap_cx:
  assumes "m ppn = Some pg" and "296 \<le> length pg" and "cx_ok c"
  shows "\<exists>pg'. put_trap_cx ppn c m = Some (m(ppn \<mapsto> pg')) \<and> length pg' = length pg \<and> TrapContext_of_bytes pg' = c \<and>
    pg' = splice 0 (TrapContext_to_bytes c) pg"
  using assms length_to_bytes [of c] of_to_bytes [OF assms(3)]
  by (auto simp: put_trap_cx_def splice_def cx_ok_def)

lemma put_same_trap_cx:
  assumes "m ppn = Some pg" and "296 \<le> length pg"
  shows "put_trap_cx ppn (TrapContext_of_bytes pg) m = Some m"
  using assms of_bytes_ok [of pg] by (simp add: put_trap_cx_def to_of_bytes splice_def fun_upd_idem)


section \<open>The current task\<close>

definition runs :: "kernel \<Rightarrow> nat \<Rightarrow> TaskControlBlock \<Rightarrow> nat \<Rightarrow> ProcessControlBlock \<Rightarrow> nat \<Rightarrow> bool" where
  \<comment> \<open>task \<open>t\<close>, with its resources and its context in memory, in place \<open>i\<close> of the tasks of process \<open>pid\<close> and nowhere else\<close>
  "runs k t T pid P i \<longleftrightarrow> current_task k = Some t \<and> k_tasks k t = Some T \<and> tcb_process T = pid \<and> k_procs k pid = Some P \<and>
     tcb_res T \<noteq> None \<and> (\<exists>pg. ram (k_mm k) (tcb_trap_cx_ppn T) = Some pg \<and> 296 \<le> length pg) \<and>
     i < length (pcb_tasks P) \<and> pcb_tasks P ! i = Some t \<and> (\<forall>j < length (pcb_tasks P). j \<noteq> i \<longrightarrow> pcb_tasks P ! j \<noteq> Some t)"

lemma runs_current:
  assumes "runs k t T pid P i"
  shows "current_process k = Some pid" "k_procs k pid = Some P" "current_tid k P = Some i" "current_task k = Some t" "k_tasks k t = Some T"
proof -
  show "current_process k = Some pid" "k_procs k pid = Some P" "current_task k = Some t" "k_tasks k t = Some T"
    using assms by (auto simp: runs_def current_process_def)
  have "find_index (\<lambda>x. x = Some t) (pcb_tasks P) = Some i"
    using assms by (intro find_index_unique) (auto simp: runs_def)
  then show "current_tid k P = Some i"
    using assms by (simp add: current_tid_def runs_def)
qed

lemma runs_trap_cx:
  assumes "runs k t T pid P i"
  shows "\<exists>cx. current_trap_cx k = Some cx \<and> cx_ok cx"
  using assms by (auto simp: runs_def current_trap_cx_def get_trap_cx_def of_bytes_ok)

lemma runs_sig_current:
  assumes "runs k t T pid P i" and "current_trap_cx k = Some cx"
  shows "sig_current i (sig_view k P) = Some \<lparr>st_proc = tcb_signal_processor T, st_trap_cx = cx\<rparr>"
  using assms by (auto simp: runs_def sig_current_def sig_view_def sig_task_of_def current_trap_cx_def get_trap_cx_def index_get_def)

definition context_stored :: "PhysPageNum \<Rightarrow> TrapContext \<Rightarrow> kernel \<Rightarrow> kernel \<Rightarrow> bool" where
  \<comment> \<open>the states differ in the bytes of a trap context at the start of the page \<open>p\<close>, and in nothing else\<close>
  "context_stored p cx k k' \<longleftrightarrow> (\<exists>pg. ram (k_mm k) p = Some pg \<and>
     k' = k\<lparr>k_mm := (k_mm k)\<lparr>ram := (ram (k_mm k))(p \<mapsto> splice 0 (TrapContext_to_bytes cx) pg)\<rparr>\<rparr>)"

lemma context_stored_trans:
  assumes "context_stored p cx k k1" and "context_stored p cx' k1 k2" and "length (tc_x cx) = 32" and "length (tc_x cx') = 32"
  shows "context_stored p cx' k k2"
  using assms(1,2) length_to_bytes [OF assms(3)] length_to_bytes [OF assms(4)] by (auto simp: context_stored_def splice_def)

lemma put_current_trap_cx_runs:
  assumes "runs k t T pid P i" and "cx_ok cx"
  obtains m where "put_current_trap_cx cx k = Some (k\<lparr>k_mm := (k_mm k)\<lparr>ram := m\<rparr>\<rparr>)" "runs (k\<lparr>k_mm := (k_mm k)\<lparr>ram := m\<rparr>\<rparr>) t T pid P i"
    "current_trap_cx (k\<lparr>k_mm := (k_mm k)\<lparr>ram := m\<rparr>\<rparr>) = Some cx" "context_stored (tcb_trap_cx_ppn T) cx k (k\<lparr>k_mm := (k_mm k)\<lparr>ram := m\<rparr>\<rparr>)"
proof -
  from assms(1) obtain pg where pg: "ram (k_mm k) (tcb_trap_cx_ppn T) = Some pg" "296 \<le> length pg"
    by (auto simp: runs_def)
  from put_get_trap_cx [of "ram (k_mm k)", OF pg assms(2)] obtain pg' where
    p: "put_trap_cx (tcb_trap_cx_ppn T) cx (ram (k_mm k)) = Some ((ram (k_mm k))(tcb_trap_cx_ppn T \<mapsto> pg'))" "length pg' = length pg"
      "TrapContext_of_bytes pg' = cx" "pg' = splice 0 (TrapContext_to_bytes cx) pg"
    by blast
  show thesis
    by (rule that [of "(ram (k_mm k))(tcb_trap_cx_ppn T \<mapsto> pg')"])
      (use assms(1) p(1-3) pg p(4) [symmetric] in \<open>auto simp: put_current_trap_cx_def write_trap_cx_def runs_def current_task_def current_trap_cx_def get_trap_cx_def
          context_stored_def\<close>)
qed

lemma put_same_current_trap_cx:
  assumes "runs k t T pid P i" and "current_trap_cx k = Some cx"
  shows "put_current_trap_cx cx k = Some k"
  using assms put_same_trap_cx [of "ram (k_mm k)" "tcb_trap_cx_ppn T"]
  by (auto simp: runs_def put_current_trap_cx_def write_trap_cx_def current_trap_cx_def get_trap_cx_def)

lemma put_processors_same:
  assumes "\<forall>u y U. (Some u, Some y) \<in> set (zip ts xs) \<longrightarrow> k_tasks k u = Some U \<longrightarrow> tcb_signal_processor U = st_proc y"
  shows "put_processors ts xs k = k"
  using assms
proof (induction ts xs k rule: put_processors.induct)
  case (1 t ts x xs k)
  have "(case k_tasks k t of Some T \<Rightarrow> set_task t (T\<lparr>tcb_signal_processor := st_proc x\<rparr>) k | None \<Rightarrow> k) = k"
    using "1.prems" by (auto simp: set_task_def fun_upd_idem split: option.split)
  then show ?case
    using 1 by auto
qed auto

lemma put_processors_append:
  "length as = length xs \<Longrightarrow> put_processors (as @ bs) (xs @ ys) k = put_processors bs ys (put_processors as xs k)"
proof (induction as arbitrary: xs k)
  case Nil
  then show ?case by simp
next
  case (Cons a as)
  then obtain x xs' where "xs = x # xs'" "length as = length xs'"
    by (cases xs) auto
  then show ?case
    using Cons.IH [of xs'] by (cases a; cases x) auto
qed

lemma put_processors_view: "put_processors ts (map (\<lambda>x. x \<bind> sig_task_of k) ts) k = k"
  by (rule put_processors_same) (auto simp: set_zip sig_task_of_def split: bind_splits)

lemma put_processors_one:
  assumes "i < length ts" and "ts ! i = Some t" and "\<forall>j < length ts. j \<noteq> i \<longrightarrow> ts ! j \<noteq> Some t" and "k_tasks k t = Some T"
  shows "put_processors ts ((map (\<lambda>x. x \<bind> sig_task_of k) ts)[i := Some y]) k = set_task t (T\<lparr>tcb_signal_processor := st_proc y\<rparr>) k"
proof -
  let ?v = "\<lambda>x. x \<bind> sig_task_of k"
  let ?k = "set_task t (T\<lparr>tcb_signal_processor := st_proc y\<rparr>) k"
  have ts: "ts = take i ts @ Some t # drop (Suc i) ts"
    using assms(1,2) by (metis id_take_nth_drop)
  have xs: "(map ?v ts)[i := Some y] = map ?v (take i ts) @ Some y # map ?v (drop (Suc i) ts)"
    using assms(1) by (simp add: upd_conv_take_nth_drop take_map drop_map)
  have "Some t \<notin> set (drop (Suc i) ts)"
    using assms(3) by (auto simp: in_set_conv_nth)
  then have "put_processors (drop (Suc i) ts) (map ?v (drop (Suc i) ts)) ?k = ?k"
    by (intro put_processors_same) (auto simp: set_zip sig_task_of_def set_task_def in_set_conv_nth split: bind_splits if_splits)
  then show ?thesis
    unfolding xs by (subst ts) (simp add: put_processors_append put_processors_view assms(4))
qed

lemma put_signals_current:
  assumes "runs k t T pid P i"
  shows "put_signals pid P i (set_current i y (sig_view k P)) k =
    put_current_trap_cx (st_trap_cx y) (set_task t (T\<lparr>tcb_signal_processor := st_proc y\<rparr>) k)"
proof -
  have k: "set_proc pid P k = k" "i < length (pcb_tasks P)"
    using assms by (auto simp: runs_def set_proc_def fun_upd_idem)
  have "put_processors (pcb_tasks P) ((map (\<lambda>x. x \<bind> sig_task_of k) (pcb_tasks P))[i := Some y]) k =
    set_task t (T\<lparr>tcb_signal_processor := st_proc y\<rparr>) k"
    using assms by (intro put_processors_one) (auto simp: runs_def)
  then show ?thesis
    using k by (simp add: put_signals_def set_current_def sig_current_def sig_view_def)
qed

lemma with_signals_same:
  assumes "runs k t T pid P i" and "f i (sig_view k P) = Some (r, sig_view k P)"
  shows "with_signals f k = Some (r, k)"
proof -
  from runs_trap_cx [OF assms(1)] obtain cx where cx: "current_trap_cx k = Some cx"
    by auto
  let ?y = "\<lparr>st_proc = tcb_signal_processor T, st_trap_cx = cx\<rparr>"
  have c: "sig_current i (sig_view k P) = Some ?y"
    using runs_sig_current [OF assms(1) cx] .
  then have "set_current i ?y (sig_view k P) = sig_view k P"
    by (auto simp: set_current_def sig_current_def index_get_def list_update_same_conv split: if_splits)
  moreover have "set_task t (T\<lparr>tcb_signal_processor := tcb_signal_processor T\<rparr>) k = k"
    using runs_current(5) [OF assms(1)] by (simp add: set_task_def fun_upd_idem)
  ultimately have "put_signals pid P i (sig_view k P) k = Some k"
    using put_signals_current [OF assms(1), of ?y] put_same_current_trap_cx [OF assms(1) cx] by simp
  then show ?thesis
    using assms(2) runs_current [OF assms(1)] by (simp add: with_signals_def)
qed

definition quiet :: "SignalProcessor \<Rightarrow> SignalFlags \<Rightarrow> bool" where
  \<comment> \<open>no signal is to be delivered, none of the fatal ones is pending, and the task is not stopped\<close>
  "quiet p fl \<longleftrightarrow> sp_ok p \<and> (\<forall>n \<le> MAX_SIG. \<not> deliverable p fl n) \<and> (\<not> sp_frozen p \<or> sp_killed p) \<and> check_error fl = None"

lemma quiet_round:
  assumes "sig_current i S = Some y" and "quiet (st_proc y) (sg_signals S)"
  shows "handle_signals_round i S = Some (True, S)"
proof -
  have "\<forall>n \<in> set [0..<MAX_SIG + 1]. n < 32 \<and> \<not> deliverable (st_proc y) (sg_signals S) n"
    using assms(2) by (auto simp: quiet_def MAX_SIG_def)
  then have "check_pending_signals i S = Some S"
    using check_skip [OF assms(1), of "[0..<MAX_SIG + 1]" "[]"] assms(2) by (simp add: check_pending_signals_def quiet_def)
  then show ?thesis
    using assms by (simp add: handle_signals_round_def quiet_def)
qed

lemma mc_kernel_put [simp]: "mc_kernel (put_kernel k m) = k" "put_kernel k (put_kernel k' m) = put_kernel k m" "put_kernel (mc_kernel m) m = m"
  by (simp_all add: mc_kernel_def put_kernel_def)

lemma trap_tail_quiet:
  assumes "runs (mc_kernel m) t T pid P i" and "quiet (tcb_signal_processor T) (pcb_signals P)"
  shows "trap_tail w m = trap_return w m"
proof -
  from runs_trap_cx [OF assms(1)] obtain cx where cx: "current_trap_cx (mc_kernel m) = Some cx"
    by auto
  have "handle_signals_round i (sig_view (mc_kernel m) P) = Some (True, sig_view (mc_kernel m) P)"
    using quiet_round [OF runs_sig_current [OF assms(1) cx]] assms(2) by (simp add: sig_view_def)
  then have "with_signals handle_signals_round (mc_kernel m) = Some (True, mc_kernel m)"
    by (rule with_signals_same [OF assms(1)])
  then show ?thesis
    using runs_current [OF assms(1)] assms(2) by (simp add: trap_tail_def check_signals_error_of_current_def sig_view_def quiet_def)
qed

lemma trap_return_runs:
  assumes "runs (mc_kernel m) t T pid P i"
  shows "trap_return w m = Some (Restores (w_restore w - w_alltraps w + TRAMPOLINE) (trap_cx_user_va (the (tcb_res T)))
    (MemorySet_token (memory_set P)), m\<lparr>mc_sie := False, mc_stvec := TRAMPOLINE\<rparr>)"
  using assms runs_current [OF assms]
  by (auto simp: trap_return_def current_trap_cx_user_va_def current_user_token_def set_user_trap_entry_def disable_supervisor_interrupt_def
      mc_kernel_def runs_def)

lemma mc_kernel_entry [simp]:
  "mc_kernel (set_kernel_trap_entry w m) = mc_kernel m" "mc_kernel (m\<lparr>mc_sie := b\<rparr>) = mc_kernel m" "mc_kernel (m\<lparr>mc_stvec := a\<rparr>) = mc_kernel m"
  by (simp_all add: mc_kernel_def set_kernel_trap_entry_def)

lemma syscall_finish_runs:
  assumes "runs (mc_kernel m) t T pid P i" and "quiet (tcb_signal_processor T) (pcb_signals P)" and "current_trap_cx (mc_kernel m) = Some cx"
  obtains m' where "syscall_finish w ret m = Some (Restores (w_restore w - w_alltraps w + TRAMPOLINE) (trap_cx_user_va (the (tcb_res T)))
      (MemorySet_token (memory_set P)), m')" "context_stored (tcb_trap_cx_ppn T) (cx\<lparr>tc_x := (tc_x cx)[10 := as_usize ret]\<rparr>) (mc_kernel m) (mc_kernel m')"
    "m' = (put_kernel (mc_kernel m') m)\<lparr>mc_sie := False, mc_stvec := TRAMPOLINE\<rparr>"
    "current_trap_cx (mc_kernel m') = Some (cx\<lparr>tc_x := (tc_x cx)[10 := as_usize ret]\<rparr>)"
proof -
  have "cx_ok cx"
    using runs_trap_cx [OF assms(1)] assms(3) by simp
  then have l: "length (tc_x cx) = 32" and "cx_ok (cx\<lparr>tc_x := (tc_x cx)[10 := as_usize ret]\<rparr>)"
    using set_update_subset_insert [of "tc_x cx" 10 "as_usize ret"] by (auto simp: cx_ok_def cx_words_def as_usize_def)
  note ctx = this
  let ?k = "\<lambda>mem. (mc_kernel m)\<lparr>k_mm := (k_mm (mc_kernel m))\<lparr>ram := mem\<rparr>\<rparr>"
  from put_current_trap_cx_runs [OF assms(1) ctx(2)] obtain mem where
    mem: "put_current_trap_cx (cx\<lparr>tc_x := (tc_x cx)[10 := as_usize ret]\<rparr>) (mc_kernel m) =
      Some (?k mem)"
    "runs (?k mem) t T pid P i" "current_trap_cx (?k mem) = Some (cx\<lparr>tc_x := (tc_x cx)[10 := as_usize ret]\<rparr>)"
    "context_stored (tcb_trap_cx_ppn T) (cx\<lparr>tc_x := (tc_x cx)[10 := as_usize ret]\<rparr>) (mc_kernel m) (?k mem)"
    by blast
  show thesis
    by (rule that [of "(put_kernel (?k mem) m)\<lparr>mc_sie := False, mc_stvec := TRAMPOLINE\<rparr>"])
      (use assms(2,3) l mem trap_tail_quiet [of "put_kernel (?k mem) m" t T pid P i w] trap_return_runs [of "put_kernel (?k mem) m" t T pid P i w]
       in \<open>auto simp: syscall_finish_def\<close>)
qed

lemma syscall_enter_runs:
  assumes "runs (mc_kernel m) t T pid P i" and "current_trap_cx (mc_kernel m) = Some cx"
    and "syscall_decode (tc_x cx ! 17, tc_x cx ! 10, tc_x cx ! 11, tc_x cx ! 12) = Some c"
  obtains m' where "syscall_enter m = Some (c, m')" "runs (mc_kernel m') t T pid P i"
    "context_stored (tcb_trap_cx_ppn T) (cx\<lparr>tc_sepc := (tc_sepc cx + 4) mod 2 ^ 64\<rparr>) (mc_kernel m) (mc_kernel m')"
    "m' = (put_kernel (mc_kernel m') m)\<lparr>mc_sie := True\<rparr>"
    "current_trap_cx (mc_kernel m') = Some (cx\<lparr>tc_sepc := (tc_sepc cx + 4) mod 2 ^ 64\<rparr>)"
proof -
  have "cx_ok cx"
    using runs_trap_cx [OF assms(1)] assms(2) by simp
  then have "cx_ok (cx\<lparr>tc_sepc := (tc_sepc cx + 4) mod 2 ^ 64\<rparr>)"
    by (auto simp: cx_ok_def cx_words_def)
  note ctx = this
  let ?k = "\<lambda>mem. (mc_kernel m)\<lparr>k_mm := (k_mm (mc_kernel m))\<lparr>ram := mem\<rparr>\<rparr>"
  from put_current_trap_cx_runs [OF assms(1) ctx] obtain mem where
    mem: "put_current_trap_cx (cx\<lparr>tc_sepc := (tc_sepc cx + 4) mod 2 ^ 64\<rparr>) (mc_kernel m) =
      Some (?k mem)"
    "runs (?k mem) t T pid P i" "current_trap_cx (?k mem) = Some (cx\<lparr>tc_sepc := (tc_sepc cx + 4) mod 2 ^ 64\<rparr>)"
    "context_stored (tcb_trap_cx_ppn T) (cx\<lparr>tc_sepc := (tc_sepc cx + 4) mod 2 ^ 64\<rparr>) (mc_kernel m) (?k mem)"
    by blast
  show thesis
    by (rule that [of "(put_kernel (?k mem) m)\<lparr>mc_sie := True\<rparr>"])
      (use assms(2,3) mem in \<open>auto simp: syscall_enter_def Let_def enable_supervisor_interrupt_def\<close>)
qed

lemma as_usize_isize: "n < 2 ^ 64 \<Longrightarrow> as_usize (isize (int n)) = n"
  unfolding as_usize_def isize_def mod_diff_left_eq by simp

lemma decode_getpid: "syscall_decode (SYSCALL_GETPID, a, b, c) = Some CGetpid"
  by (simp add: syscall_decode_def syscall_ids)

lemma decode_sigreturn: "syscall_decode (SYSCALL_SIGRETURN, a, b, c) = Some CSigreturn"
  by (simp add: syscall_decode_def syscall_ids)

section \<open>Properties\<close>

text \<open>
  C21. A system call through the trap handler: when the running thread executes \<open>ecall\<close> with the number of \<open>getpid\<close> in \<open>a7\<close> and no
  signal is to be handled, the handler jumps to \<open>__restore\<close> with the thread's own trap context and its process's page table, interrupts
  disabled and traps directed to the trampoline. The context that is restored is the one saved at the trap, with the pid in \<open>a0\<close> and the
  program counter past the \<open>ecall\<close>. Nothing else has changed: the state afterwards is the one before, with these bytes of the context in its frame
  and the three registers that the trap handler sets; no other byte of memory, and no process, file, pipe, timer, device or socket.
\<close>

theorem getpid_through_trap:
  assumes r: "runs (mc_kernel m) t T pid P i" and q: "quiet (tcb_signal_processor T) (pcb_signals P)"
    and cx: "current_trap_cx (mc_kernel m) = Some cx" and a7: "tc_x cx ! 17 = SYSCALL_GETPID" and pid: "pid < 2 ^ 64"
  shows "\<exists>m'. trap_handler w UserEnvCall m = Some (Restores (w_restore w - w_alltraps w + TRAMPOLINE) (trap_cx_user_va (the (tcb_res T)))
      (MemorySet_token (memory_set P)), m') \<and>
    current_trap_cx (mc_kernel m') = Some (cx\<lparr>tc_sepc := (tc_sepc cx + 4) mod 2 ^ 64, tc_x := (tc_x cx)[10 := pid]\<rparr>) \<and>
    context_stored (tcb_trap_cx_ppn T) (cx\<lparr>tc_sepc := (tc_sepc cx + 4) mod 2 ^ 64, tc_x := (tc_x cx)[10 := pid]\<rparr>) (mc_kernel m) (mc_kernel m') \<and>
    m' = (put_kernel (mc_kernel m') m)\<lparr>mc_sie := False, mc_stvec := TRAMPOLINE, mc_sscratch := w_trap_from_kernel w\<rparr>"
proof -
  let ?m = "set_kernel_trap_entry w m"
  have d: "syscall_decode (tc_x cx ! 17, tc_x cx ! 10, tc_x cx ! 11, tc_x cx ! 12) = Some CGetpid"
    using a7 by (simp add: decode_getpid)
  from syscall_enter_runs [of ?m, unfolded mc_kernel_entry, OF r cx d] obtain m1 where
    e: "syscall_enter ?m = Some (CGetpid, m1)" "runs (mc_kernel m1) t T pid P i"
      "context_stored (tcb_trap_cx_ppn T) (cx\<lparr>tc_sepc := (tc_sepc cx + 4) mod 2 ^ 64\<rparr>) (mc_kernel m) (mc_kernel m1)"
      "current_trap_cx (mc_kernel m1) = Some (cx\<lparr>tc_sepc := (tc_sepc cx + 4) mod 2 ^ 64\<rparr>)"
      "m1 = (put_kernel (mc_kernel m1) ?m)\<lparr>mc_sie := True\<rparr>"
    by blast
  have s: "syscall_run w CGetpid m1 = Some (Ret (int pid), m1)"
    using runs_current(1) [OF e(2)] by (simp add: syscall_run_def with_kernel_def sys_getpid_def)
  from syscall_finish_runs [OF e(2) q e(4), of w "int pid"] obtain m2 where
    f: "syscall_finish w (int pid) m1 = Some (Restores (w_restore w - w_alltraps w + TRAMPOLINE) (trap_cx_user_va (the (tcb_res T)))
        (MemorySet_token (memory_set P)), m2)"
      "context_stored (tcb_trap_cx_ppn T) (cx\<lparr>tc_sepc := (tc_sepc cx + 4) mod 2 ^ 64, tc_x := (tc_x cx)[10 := pid]\<rparr>) (mc_kernel m1) (mc_kernel m2)"
      "m2 = (put_kernel (mc_kernel m2) m1)\<lparr>mc_sie := False, mc_stvec := TRAMPOLINE\<rparr>"
      "current_trap_cx (mc_kernel m2) = Some (cx\<lparr>tc_sepc := (tc_sepc cx + 4) mod 2 ^ 64, tc_x := (tc_x cx)[10 := pid]\<rparr>)"
    using pid by (auto simp: as_usize_def)
  have l: "length (tc_x cx) = 32"
    using runs_trap_cx [OF r] cx by (auto simp: cx_ok_def)
  have "(put_kernel k ((put_kernel k' ?m)\<lparr>mc_sie := True\<rparr>))\<lparr>mc_sie := False, mc_stvec := TRAMPOLINE\<rparr> =
    (put_kernel k m)\<lparr>mc_sie := False, mc_stvec := TRAMPOLINE, mc_sscratch := w_trap_from_kernel w\<rparr>" for k k'
    by (cases m) (simp add: put_kernel_def set_kernel_trap_entry_def)
  then have "m2 = (put_kernel (mc_kernel m2) m)\<lparr>mc_sie := False, mc_stvec := TRAMPOLINE, mc_sscratch := w_trap_from_kernel w\<rparr>"
    using f(3) e(5) by metis
  then show ?thesis
    using e(1) s f(1,4) context_stored_trans [OF e(3) f(2)] l by (intro exI [of _ m2]) (simp add: trap_handler_def)
qed

text \<open>
  C20. Returning from a signal handler: when a thread whose context was saved at the delivery of a signal makes the call \<open>sigreturn\<close>, and no
  other signal is to be handled, the trap handler returns to the user with exactly the saved context, \<open>a0\<close> and the program
  counter included, although the handler of system calls advances the program counter and writes the result of the call to \<open>a0\<close>. The thread
  is no longer within a signal handler.
\<close>

theorem sigreturn_through_trap:
  assumes r: "runs (mc_kernel m) t T pid P i" and bk: "trap_cx_backup (tcb_signal_processor T) = Some bk" "cx_ok bk"
    and cx: "current_trap_cx (mc_kernel m) = Some cx" and a7: "tc_x cx ! 17 = SYSCALL_SIGRETURN"
    and q: "quiet ((tcb_signal_processor T)\<lparr>signal_handling := None, trap_cx_backup := None\<rparr>) (pcb_signals P)"
  shows "\<exists>m'. trap_handler w UserEnvCall m = Some (Restores (w_restore w - w_alltraps w + TRAMPOLINE) (trap_cx_user_va (the (tcb_res T)))
      (MemorySet_token (memory_set P)), m') \<and>
    current_trap_cx (mc_kernel m') = Some bk \<and>
    k_tasks (mc_kernel m') = (k_tasks (mc_kernel m))
      (t \<mapsto> T\<lparr>tcb_signal_processor := (tcb_signal_processor T)\<lparr>signal_handling := None, trap_cx_backup := None\<rparr>\<rparr>)"
proof -
  let ?m = "set_kernel_trap_entry w m"
  let ?p = "(tcb_signal_processor T)\<lparr>signal_handling := None, trap_cx_backup := None\<rparr>"
  let ?T = "T\<lparr>tcb_signal_processor := ?p\<rparr>"
  have d: "syscall_decode (tc_x cx ! 17, tc_x cx ! 10, tc_x cx ! 11, tc_x cx ! 12) = Some CSigreturn"
    using a7 by (simp add: decode_sigreturn)
  from syscall_enter_runs [of ?m, unfolded mc_kernel_entry, OF r cx d] obtain m1 where
    e: "syscall_enter ?m = Some (CSigreturn, m1)" "runs (mc_kernel m1) t T pid P i"
      "context_stored (tcb_trap_cx_ppn T) (cx\<lparr>tc_sepc := (tc_sepc cx + 4) mod 2 ^ 64\<rparr>) (mc_kernel m) (mc_kernel m1)"
      "current_trap_cx (mc_kernel m1) = Some (cx\<lparr>tc_sepc := (tc_sepc cx + 4) mod 2 ^ 64\<rparr>)"
    by blast
  let ?k = "set_task t ?T (mc_kernel m1)"
  have "runs ?k t ?T pid P i"
    using e(2) by (auto simp: runs_def set_task_def current_task_def)
  note kr = this
  let ?k2 = "\<lambda>mem. ?k\<lparr>k_mm := (k_mm ?k)\<lparr>ram := mem\<rparr>\<rparr>"
  from put_current_trap_cx_runs [OF kr bk(2)] obtain mem where
    p: "put_current_trap_cx bk ?k = Some (?k2 mem)" "runs (?k2 mem) t ?T pid P i" "current_trap_cx (?k2 mem) = Some bk"
    by blast
  have l: "length (tc_x bk) = 32" "tc_x bk ! 10 < 2 ^ 64"
    using bk(2) by (auto simp: cx_ok_def cx_words_def)
  have "with_signals (\<lambda>cur S. do { (r, S) \<leftarrow> sys_sigreturn cur S; Some (isize (int r), S) }) (mc_kernel m1) = Some (isize (int (tc_x bk ! 10)), (?k2 mem))"
    using runs_current [OF e(2)] runs_sig_current [OF e(2,4)] bk(1) l(1) put_signals_current [OF e(2), of "\<lparr>st_proc = ?p, st_trap_cx = bk\<rparr>"] p(1)
    by (simp add: with_signals_def sys_sigreturn_def)
  then have s: "syscall_run w CSigreturn m1 = Some (Ret (isize (int (tc_x bk ! 10))), put_kernel (?k2 mem) m1)"
    by (simp add: syscall_run_def with_kernel_def)
  have a0: "as_usize (isize (int (tc_x bk ! 10))) = tc_x bk ! 10"
    using l(2) as_usize_isize by simp
  from syscall_finish_runs [of "put_kernel (?k2 mem) m1", simplified mc_kernel_put, OF p(2) _ p(3), of w "isize (int (tc_x bk ! 10))"] q obtain m2 where
    f: "syscall_finish w (isize (int (tc_x bk ! 10))) (put_kernel (?k2 mem) m1) =
        Some (Restores (w_restore w - w_alltraps w + TRAMPOLINE) (trap_cx_user_va (the (tcb_res T))) (MemorySet_token (memory_set P)), m2)"
      "context_stored (tcb_trap_cx_ppn T) (bk\<lparr>tc_x := (tc_x bk)[10 := as_usize (isize (int (tc_x bk ! 10)))]\<rparr>) (?k2 mem) (mc_kernel m2)"
      "current_trap_cx (mc_kernel m2) = Some bk"
    by (auto simp: a0)
  have "k_tasks (mc_kernel m2) = (k_tasks (mc_kernel m))(t \<mapsto> ?T)"
    using e(3) f(2) by (auto simp: context_stored_def set_task_def)
  then show ?thesis
    using e s f by (simp add: trap_handler_def)
qed

lemma one_pending_unhandled:
  assumes "sig_current i S = Some y" and "sp_ok (st_proc y)" and "sg_signals S = sig_bit n" and "n \<le> MAX_SIG" and "n \<notin> kernel_signals"
    and "sa_handler (signal_actions (st_proc y) ! n) = 0"
  shows "check_pending_signals i S = Some S"
proof -
  have other: "\<not> deliverable (st_proc y) (sg_signals S) k" if "k \<noteq> n" for k
    using that assms(3) by (simp add: deliverable_def pending_def)
  show ?thesis
  proof (cases "deliverable (st_proc y) (sg_signals S) n")
    case True
    moreover have "n < length (signal_actions (st_proc y))"
      using assms(2,4) by (simp add: sp_ok_def)
    ultimately show ?thesis
      using first_deliverable [OF assms(1,2,4,5) True] other assms(1,4,6)
      by (simp add: call_user_signal_handler_def handler_for_action_def get_handler_def)
  next
    case False
    then have "\<not> deliverable (st_proc y) (sg_signals S) k" for k
      using other by (cases "k = n") auto
    then have "\<forall>k \<in> set [0..<MAX_SIG + 1]. k < 32 \<and> \<not> deliverable (st_proc y) (sg_signals S) k"
      by (simp add: MAX_SIG_def)
    then show ?thesis
      using check_skip [OF assms(1,2), of "[0..<MAX_SIG + 1]" "[]"] by (simp add: check_pending_signals_def)
  qed
qed

lemma check_error_one: "check_error (sig_bit 4) = Some (- 4)" "check_error (sig_bit 11) = Some (- 11)"
  by (simp_all add: check_error_def sig_contains_bit SIGINT_def SIGILL_def SIGABRT_def SIGFPE_def SIGKILL_def SIGSEGV_def)

lemma add_signal_fatal:
  assumes r: "runs (mc_kernel m) t T pid P i" and p: "pcb_signals P = 0" and ok: "sp_ok (tcb_signal_processor T)" "\<not> sp_frozen (tcb_signal_processor T)"
    and n: "n \<in> {4, 11}" "sa_handler (signal_actions (tcb_signal_processor T) ! n) = 0"
  shows "\<exists>m'. add_signal (sig_bit n) m = Some m' \<and> m' = put_kernel (set_proc pid (P\<lparr>pcb_signals := sig_bit n\<rparr>) (mc_kernel m)) m \<and>
    trap_tail w m' = do { (r, m') \<leftarrow> run_exit (- int n) m'; case r of Ends e \<Rightarrow> Some (Exits e, m') | _ \<Rightarrow> None }"
proof -
  let ?P = "P\<lparr>pcb_signals := sig_bit n\<rparr>"
  let ?k = "set_proc pid ?P (mc_kernel m)"
  have a: "add_signal (sig_bit n) m = Some (put_kernel ?k m)"
    using runs_current [OF r] p by (simp add: add_signal_def current_add_signal_def sig_view_def)
  have r2: "runs ?k t T pid ?P i"
    using r by (auto simp: runs_def set_proc_def current_task_def)
  from runs_trap_cx [OF this] obtain cx where cx: "current_trap_cx ?k = Some cx"
    by auto
  have "check_pending_signals i (sig_view ?k ?P) = Some (sig_view ?k ?P)"
    using one_pending_unhandled [OF runs_sig_current [OF r2 cx]] ok n by (auto simp: sig_view_def MAX_SIG_def kernel_signals_def)
  then have "handle_signals_round i (sig_view ?k ?P) = Some (True, sig_view ?k ?P)"
    using runs_sig_current [OF r2 cx] ok by (simp add: handle_signals_round_def)
  then have w: "with_signals handle_signals_round ?k = Some (True, ?k)"
    by (rule with_signals_same [OF r2])
  have "check_signals_error_of_current (sig_view ?k ?P) = Some (- int n)"
    using n(1) check_error_one by (auto simp: check_signals_error_of_current_def sig_view_def)
  then show ?thesis
    using a w runs_current [OF r2] by (simp add: trap_tail_def)
qed

text \<open>
  C22. A fault that demand paging cannot resolve ends the thread: when \<open>handle_page_fault\<close> answers that the address is not one
  of a reserved page, no signal is pending and the process has no handler for \<open>SIGSEGV\<close>, then the trap handler does exactly what
  \<open>exit\<close> with code \<open>-11\<close> does, with the signal recorded as pending; it does so too when \<open>SIGSEGV\<close> is masked.
\<close>

theorem bad_fault_exits:
  assumes r: "runs (mc_kernel m) t T pid P i" and p: "pcb_signals P = 0" and ok: "sp_ok (tcb_signal_processor T)" "\<not> sp_frozen (tcb_signal_processor T)"
    and h: "sa_handler (signal_actions (tcb_signal_processor T) ! 11) = 0"
    and bad: "handle_page_fault addr P (k_disk (mc_kernel m)) (k_mm (mc_kernel m)) = Some (False, P, k_mm (mc_kernel m))"
  shows "trap_handler w (Fault addr) m = do {
    (r, m') \<leftarrow> run_exit (- 11) (put_kernel (set_proc pid (P\<lparr>pcb_signals := SIGSEGV\<rparr>) (mc_kernel m)) (set_kernel_trap_entry w m));
    case r of Ends e \<Rightarrow> Some (Exits e, m') | _ \<Rightarrow> None }"
proof -
  have "page_fault addr (set_kernel_trap_entry w m) = Some (False, set_kernel_trap_entry w m)"
    using bad runs_current [OF r] mc_kernel_put(3) [of "set_kernel_trap_entry w m"] by (simp add: page_fault_def set_proc_def fun_upd_idem)
  then show ?thesis
    using add_signal_fatal [of "set_kernel_trap_entry w m" t T pid P i 11 w] r p ok h by (auto simp: trap_handler_def SIGSEGV_def)
qed

section \<open>A small machine\<close>

definition sample_cx :: "nat \<Rightarrow> TrapContext" where
  \<comment> \<open>about to make the call with this number\<close>
  "sample_cx n = (app_init_context 0 0x10000 0x20000 0 0 0)\<lparr>tc_x := (replicate 32 0)[17 := n]\<rparr>"

definition sample_tcb :: "SignalProcessor \<Rightarrow> TaskControlBlock" where
  "sample_tcb p = \<lparr>tcb_process = 1, tcb_kstack = 0, tcb_res = Some \<lparr>tur_tid = 0, tur_ustack_base = 0x10000\<rparr>, tcb_trap_cx_ppn = 5,
     tcb_task_cx = TaskContext_zero_init, tcb_exit_code = None, tcb_signal_processor = p\<rparr>"

definition sample_user :: "nat \<Rightarrow> SignalProcessor \<Rightarrow> machine" where
  "sample_user n p = \<lparr>mc_net = sample_net\<lparr>nt_kernel := sample_kernel\<lparr>k_tasks := [7 \<mapsto> sample_tcb p],
       k_procs := [1 \<mapsto> (sample_process None [] False)\<lparr>pcb_tasks := [Some 7]\<rparr>],
       k_mm := (k_mm sample_kernel)\<lparr>ram := [0 \<mapsto> replicate PAGE_SIZE 0, 5 \<mapsto> TrapContext_to_bytes (sample_cx n) @ replicate 3800 0]\<rparr>\<rparr>\<rparr>,
     mc_timers = [], mc_pipes = [], mc_devices = \<lparr>dv_uart = NS16550a_new, dv_keyboard = \<lparr>kb_events = [], kb_condvar = Condvar_new\<rparr>, dv_block = Map.empty\<rparr>,
     mc_console = [], mc_sie = False, mc_stvec = TRAMPOLINE, mc_sscratch = 0, mc_next_trigger = 0\<rparr>"

definition sample_world :: "bytes world" where
  "sample_world = \<lparr>w_stack = sample_stack, w_elf = (\<lambda>_. None), w_mtime = 0, w_frames = [], w_alltraps = 0x80201000, w_alltraps_k = 0x80201100,
     w_restore = 0x80201200, w_trap_from_kernel = 0x80202000, w_behind = (\<lambda>_. 0)\<rparr>"

lemma sample_cx_ok: "n < 2 ^ 64 \<Longrightarrow> cx_ok (sample_cx n)"
  using set_update_subset_insert [of "replicate 32 0" 17 n]
  by (auto simp: sample_cx_def app_init_context_def cx_ok_def cx_words_def)

lemma sample_user_runs:
  assumes "n < 2 ^ 64"
  shows "runs (mc_kernel (sample_user n p)) 7 (sample_tcb p) 1 ((sample_process None [] False)\<lparr>pcb_tasks := [Some 7]\<rparr>) 0"
    "current_trap_cx (mc_kernel (sample_user n p)) = Some (sample_cx n)"
proof -
  have "length (TrapContext_to_bytes (sample_cx n)) = 296"
    by (rule length_to_bytes) (simp add: sample_cx_def)
  then show "runs (mc_kernel (sample_user n p)) 7 (sample_tcb p) 1 ((sample_process None [] False)\<lparr>pcb_tasks := [Some 7]\<rparr>) 0"
    "current_trap_cx (mc_kernel (sample_user n p)) = Some (sample_cx n)"
    using of_to_bytes [OF sample_cx_ok [OF assms]]
    by (simp_all add: runs_def sample_user_def mc_kernel_def current_task_def sample_kernel_def sample_tcb_def current_trap_cx_def get_trap_cx_def)
qed

lemma quiet_none: "sp_ok p \<Longrightarrow> \<not> sp_frozen p \<Longrightarrow> quiet p 0"
  by (simp add: quiet_def deliverable_def pending_def check_error_def sig_contains_bit SIGINT_def SIGILL_def SIGABRT_def SIGFPE_def SIGKILL_def SIGSEGV_def)

theorem getpid_through_trap_witness:
  "\<exists>m'. trap_handler sample_world UserEnvCall (sample_user SYSCALL_GETPID SignalProcessor_new) =
      Some (Restores (0x200 + TRAMPOLINE) (trap_cx_bottom_from_tid 0) (MemorySet_token (memory_set (sample_process None [] False))), m') \<and>
    current_trap_cx (mc_kernel m') = Some ((sample_cx SYSCALL_GETPID)\<lparr>tc_sepc := 0x10004, tc_x := (replicate 32 0)[17 := SYSCALL_GETPID, 10 := 1]\<rparr>)"
proof -
  have n: "SYSCALL_GETPID < 2 ^ 64"
    by (simp add: syscall_ids)
  have q: "quiet SignalProcessor_new 0"
    by (rule quiet_none) (simp_all add: SignalProcessor_new_def SignalActions_default_def sp_ok_def MAX_SIG_def)
  show ?thesis
    using getpid_through_trap [OF sample_user_runs(1) [OF n, of SignalProcessor_new] _ sample_user_runs(2) [OF n], of sample_world] q
    by (auto simp: sample_tcb_def sample_world_def sample_process_def blank_process_def sample_cx_def app_init_context_def trap_cx_user_va_def)
qed

theorem sigreturn_through_trap_witness:
  "\<exists>m'. trap_handler sample_world UserEnvCall (sample_user SYSCALL_SIGRETURN
      (SignalProcessor_new\<lparr>signal_handling := Some 10, trap_cx_backup := Some (sample_cx 64)\<rparr>)) =
      Some (Restores (0x200 + TRAMPOLINE) (trap_cx_bottom_from_tid 0) (MemorySet_token (memory_set (sample_process None [] False))), m') \<and>
    current_trap_cx (mc_kernel m') = Some (sample_cx 64)"
proof -
  have n: "SYSCALL_SIGRETURN < 2 ^ 64"
    by (simp add: syscall_ids)
  have q: "quiet (SignalProcessor_new\<lparr>signal_handling := None, trap_cx_backup := None\<rparr>) 0"
    by (rule quiet_none) (simp_all add: SignalProcessor_new_def SignalActions_default_def sp_ok_def MAX_SIG_def)
  show ?thesis
    using sigreturn_through_trap [OF sample_user_runs(1) [OF n, of "SignalProcessor_new\<lparr>signal_handling := Some 10, trap_cx_backup := Some (sample_cx 64)\<rparr>"]
      _ sample_cx_ok [of 64] sample_user_runs(2) [OF n], of sample_world] q
    by (auto simp: sample_tcb_def sample_world_def sample_process_def blank_process_def trap_cx_user_va_def sample_cx_def)
qed


theorem bad_fault_exits_witness:
  "trap_handler sample_world (Fault 0) (sample_user 0 SignalProcessor_new) = do {
    (r, m') \<leftarrow> run_exit (- 11) (put_kernel (set_proc 1 ((sample_process None [] False)\<lparr>pcb_tasks := [Some 7], pcb_signals := SIGSEGV\<rparr>)
      (mc_kernel (sample_user 0 SignalProcessor_new))) (set_kernel_trap_entry sample_world (sample_user 0 SignalProcessor_new)));
    case r of Ends e \<Rightarrow> Some (Exits e, m') | _ \<Rightarrow> None }"
proof -
  let ?P = "(sample_process None [] False)\<lparr>pcb_tasks := [Some 7]\<rparr>"
  let ?k = "mc_kernel (sample_user 0 SignalProcessor_new)"
  have p: "sp_ok SignalProcessor_new" "\<not> sp_frozen SignalProcessor_new" "sa_handler (signal_actions SignalProcessor_new ! 11) = 0" "pcb_signals ?P = 0"
    by (simp_all add: SignalProcessor_new_def SignalActions_default_def SignalAction_default_def sp_ok_def MAX_SIG_def sample_process_def blank_process_def)
  have "indexes 0 = [0, 0, 0]"
    by (simp add: indexes_def eval_nat_numeral)
  moreover have "ram (k_mm ?k) 0 = Some (replicate PAGE_SIZE 0)"
    by (simp add: sample_user_def mc_kernel_def)
  ultimately have "MemorySet_translate (memory_set ?P) 0 (ram (k_mm ?k)) = Some None"
    by (simp add: MemorySet_translate_def translate_def find_pte_def sample_process_def blank_process_def)
  then have "handle_page_fault 0 ?P (k_disk ?k) (k_mm ?k) = Some (False, ?P, k_mm ?k)"
    by (simp add: handle_page_fault_def VirtAddr_from_def addr_floor_def sample_process_def blank_process_def)
  then show ?thesis
    using bad_fault_exits [OF sample_user_runs(1) [of 0 SignalProcessor_new], of 0 sample_world] p by (simp add: sample_tcb_def)
qed

end
