(* ===== verification/UserLib.thy ===== *)
theory UserLib
  imports Trap
begin

text \<open>
  The user library (\<^verbatim>\<open>user/src/lib.rs\<close>, \<^verbatim>\<open>user/src/net.rs\<close>): the entry point of programs that reads the arguments the kernel laid
  out, the wrappers of the system calls as the registers they leave for the \<open>ecall\<close>, the loops that wait for processes and threads, and the
  structures that the kernel fills. A program sees its memory as a function from addresses to bytes.
\<close>

section \<open>Program start\<close>

definition read_usize :: "(nat \<Rightarrow> byte) \<Rightarrow> nat \<Rightarrow> nat" where
  "read_usize mem a = le_nat (map mem [a..<a + 8])"

partial_function (option) find_zero :: "(nat \<Rightarrow> byte) \<Rightarrow> nat \<Rightarrow> nat \<Rightarrow> nat option" where
  \<comment> \<open>\<open>(0..).find(...)\<close>, from \<open>i\<close> on; \<open>None\<close> when there is no zero byte\<close>
  "find_zero mem p i = (if mem (p + i) = 0 then Some i else find_zero mem p (i + 1))"

declare find_zero.simps [code]

fun start_args :: "nat list \<Rightarrow> nat \<Rightarrow> (nat \<Rightarrow> byte) \<Rightarrow> bytes list option" where
  \<comment> \<open>the loop of \<open>_start\<close> over the remaining indices\<close>
  "start_args [] argv mem = Some []"
| "start_args (i # is) argv mem = do {
     let str_start = read_usize mem (argv + i * 8);
     len \<leftarrow> find_zero mem str_start 0;
     let arg = map mem [str_start..<str_start + len];
     ensure (utf8_valid arg);
     v \<leftarrow> start_args is argv mem;
     Some (arg # v) }"

definition user_start :: "nat \<Rightarrow> nat \<Rightarrow> (nat \<Rightarrow> byte) \<Rightarrow> bytes list option" where
  \<comment> \<open>the arguments \<open>_start\<close> gives to \<open>main\<close>\<close>
  "user_start argc argv mem = start_args [0..<argc] argv mem"

section \<open>Wrappers\<close>

type_synonym registers4 = "nat \<times> nat \<times> nat \<times> nat" \<comment> \<open>\<open>a7\<close>, \<open>a0\<close>, \<open>a1\<close>, \<open>a2\<close> at the \<open>ecall\<close>\<close>

definition lib_open :: "nat \<Rightarrow> nat \<Rightarrow> registers4" where
  "lib_open path fl = user_sys_openat AT_FDCWD path fl"

definition lib_openat :: "nat \<Rightarrow> nat \<Rightarrow> nat \<Rightarrow> registers4" where
  "lib_openat fd path fl = user_sys_openat (isize (int fd)) path fl"

definition lib_close :: "nat \<Rightarrow> registers4" where
  "lib_close fd = user_sys_close fd"

definition lib_read :: "nat \<Rightarrow> nat \<Rightarrow> nat \<Rightarrow> registers4" where
  "lib_read fd buf len = user_sys_read fd buf len"

definition lib_write :: "nat \<Rightarrow> nat \<Rightarrow> nat \<Rightarrow> registers4" where
  "lib_write fd buf len = user_sys_write fd buf len"

definition lib_exit :: "int \<Rightarrow> registers4" where
  "lib_exit code = user_sys_exit code"

definition lib_yield :: "registers4" where
  "lib_yield = user_sys_yield"

definition lib_sleep :: "nat \<Rightarrow> registers4" where
  "lib_sleep ms = user_sys_sleep ms"

definition lib_munmap :: "nat \<Rightarrow> nat \<Rightarrow> registers4" where
  "lib_munmap start len = user_sys_munmap start len"

definition lib_getpid :: "registers4" where
  "lib_getpid = user_sys_getpid"

definition lib_fork :: "registers4" where
  "lib_fork = user_sys_fork"

definition lib_exec :: "nat \<Rightarrow> nat \<Rightarrow> registers4" where
  "lib_exec prog args = user_sys_exec prog args"

definition lib_waitpid_n :: "nat \<Rightarrow> nat \<Rightarrow> registers4" where
  "lib_waitpid_n pid ptr = user_sys_waitpid (isize (int pid)) ptr"

definition lib_getcwd :: "nat \<Rightarrow> nat \<Rightarrow> registers4" where
  "lib_getcwd buf len = user_sys_getcwd buf len"

definition lib_mkdir :: "nat \<Rightarrow> registers4" where
  "lib_mkdir path = user_sys_mkdirat AT_FDCWD path"

definition lib_mkdirat :: "nat \<Rightarrow> nat \<Rightarrow> registers4" where
  "lib_mkdirat fd path = user_sys_mkdirat (isize (int fd)) path"

definition lib_chdir :: "nat \<Rightarrow> registers4" where
  "lib_chdir path = user_sys_chdir path"

definition lib_unlink :: "nat \<Rightarrow> registers4" where
  "lib_unlink path = user_sys_unlinkat AT_FDCWD path"

definition lib_link :: "nat \<Rightarrow> nat \<Rightarrow> registers4" where
  "lib_link old new = user_sys_linkat AT_FDCWD old new"

definition lib_fstat :: "nat \<Rightarrow> nat \<Rightarrow> registers4" where
  "lib_fstat fd ptr = user_sys_fstat fd ptr"

definition lib_pipe :: "nat \<Rightarrow> registers4" where
  "lib_pipe ptr = user_sys_pipe ptr"

definition lib_dup :: "nat \<Rightarrow> registers4" where
  "lib_dup fd = user_sys_dup fd"

definition lib_kill :: "nat \<Rightarrow> int \<Rightarrow> registers4" where
  "lib_kill pid signum = user_sys_kill pid signum"

definition lib_sigaction :: "int \<Rightarrow> nat option \<Rightarrow> nat option \<Rightarrow> registers4" where
  "lib_sigaction signum action old = user_sys_sigaction signum (case action of Some a \<Rightarrow> a | None \<Rightarrow> 0) (case old of Some a \<Rightarrow> a | None \<Rightarrow> 0)"

definition lib_sigprocmask :: "nat \<Rightarrow> registers4" where
  "lib_sigprocmask msk = user_sys_sigprocmask msk"

definition lib_sigreturn :: "registers4" where
  "lib_sigreturn = user_sys_sigreturn"

definition lib_getdents :: "nat \<Rightarrow> nat \<Rightarrow> nat \<Rightarrow> registers4" where
  "lib_getdents fd ptr len = user_sys_getdents fd ptr len"

definition lib_thread_create :: "nat \<Rightarrow> nat \<Rightarrow> registers4" where
  "lib_thread_create entry arg = user_sys_thread_create entry arg"

definition lib_gettid :: "registers4" where
  "lib_gettid = user_sys_gettid"

definition lib_mutex_create :: "registers4" where
  "lib_mutex_create = user_sys_mutex_create False"

definition lib_mutex_blocking_create :: "registers4" where
  "lib_mutex_blocking_create = user_sys_mutex_create True"

definition lib_mutex_lock :: "nat \<Rightarrow> registers4" where
  "lib_mutex_lock i = user_sys_mutex_lock i"

definition lib_mutex_unlock :: "nat \<Rightarrow> registers4" where
  "lib_mutex_unlock i = user_sys_mutex_unlock i"

definition lib_semaphore_create :: "nat \<Rightarrow> registers4" where
  "lib_semaphore_create n = user_sys_semaphore_create n"

definition lib_semaphore_acquire :: "nat \<Rightarrow> registers4" where
  "lib_semaphore_acquire i = user_sys_semaphore_down i"

definition lib_semaphore_release :: "nat \<Rightarrow> registers4" where
  "lib_semaphore_release i = user_sys_semaphore_up i"

definition lib_condvar_create :: "registers4" where
  "lib_condvar_create = user_sys_condvar_create"

definition lib_condvar_wait :: "nat \<Rightarrow> nat \<Rightarrow> registers4" where
  "lib_condvar_wait i j = user_sys_condvar_wait i j"

definition lib_condvar_signal :: "nat \<Rightarrow> registers4" where
  "lib_condvar_signal i = user_sys_condvar_signal i"

definition lib_connect :: "nat \<Rightarrow> nat \<Rightarrow> nat \<Rightarrow> registers4" where
  "lib_connect ip sport dport = user_sys_connect ip sport dport"

definition lib_listen :: "nat \<Rightarrow> registers4" where
  "lib_listen sport = user_sys_listen sport"

definition lib_accept :: "nat \<Rightarrow> registers4" where
  "lib_accept fd = user_sys_accept fd"

definition lib_mmap :: "nat \<Rightarrow> nat \<Rightarrow> nat \<Rightarrow> nat \<Rightarrow> nat \<Rightarrow> nat \<Rightarrow> nat \<Rightarrow> registers4 \<times> bytes" where
  \<comment> \<open>the last four arguments go through an array, at the address \<open>arr\<close>\<close>
  "lib_mmap arr start len prot fl fd offset = (user_sys_mmap start len arr, concat (map (le_bytes 8) [prot, fl, fd, offset]))"

lemmas lib_wrappers = lib_open_def lib_openat_def lib_close_def lib_read_def lib_write_def lib_exit_def lib_yield_def lib_sleep_def lib_munmap_def lib_getpid_def lib_fork_def lib_exec_def lib_waitpid_n_def lib_getcwd_def lib_mkdir_def lib_mkdirat_def lib_chdir_def lib_unlink_def lib_link_def lib_fstat_def lib_pipe_def lib_dup_def lib_kill_def lib_sigaction_def lib_sigprocmask_def lib_sigreturn_def lib_getdents_def lib_thread_create_def lib_gettid_def lib_mutex_create_def lib_mutex_blocking_create_def lib_mutex_lock_def lib_mutex_unlock_def lib_semaphore_create_def lib_semaphore_acquire_def lib_semaphore_release_def lib_condvar_create_def lib_condvar_wait_def lib_condvar_signal_def lib_connect_def lib_listen_def lib_accept_def

section \<open>Waiting\<close>

partial_function (option) wait_loop ::
    "(kernel \<Rightarrow> kernel option) \<Rightarrow> (kernel \<Rightarrow> (int \<times> kernel) option) \<Rightarrow> kernel \<Rightarrow> (int \<times> kernel) option" where
  \<comment> \<open>\<open>others\<close>: what happens from the switch to another task until this one runs again\<close>
  "wait_loop others call k = do {
     (r, k) \<leftarrow> call k;
     if r = - 2 then do { (_, k) \<leftarrow> sys_yield k; k \<leftarrow> others k; wait_loop others call k }
     else Some (r, k) }"

definition lib_wait :: "(kernel \<Rightarrow> kernel option) \<Rightarrow> nat \<Rightarrow> kernel \<Rightarrow> (int \<times> kernel) option" where
  "lib_wait others ptr = wait_loop others (sys_waitpid (- 1) ptr)"

definition lib_waitpid :: "(kernel \<Rightarrow> kernel option) \<Rightarrow> nat \<Rightarrow> nat \<Rightarrow> kernel \<Rightarrow> (int \<times> kernel) option" where
  "lib_waitpid others pid ptr = wait_loop others (sys_waitpid (isize (int pid)) ptr)"

definition lib_waittid :: "(kernel \<Rightarrow> kernel option) \<Rightarrow> nat \<Rightarrow> kernel \<Rightarrow> (int \<times> kernel) option" where
  "lib_waittid others tid = wait_loop others (sys_waittid tid)"

section \<open>Structures\<close>

record TimeVal = tv_sec :: nat tv_usec :: nat

definition TimeVal_of_bytes :: "bytes \<Rightarrow> TimeVal" where
  "TimeVal_of_bytes bs = \<lparr>tv_sec = le_nat (slice 0 8 bs), tv_usec = le_nat (slice 8 8 bs)\<rparr>"

definition lib_get_time :: "int \<Rightarrow> TimeVal \<Rightarrow> int" where
  \<comment> \<open>with the answer of the system call and what it stored\<close>
  "lib_get_time ret ts = (if ret = 0 then isize (int (usize ((tv_sec ts AND 0xffff) * 1000 + tv_usec ts div 1000))) else - 1)"

record Stat = stat_dev :: nat stat_ino :: nat stat_mode :: nat stat_nlink :: nat stat_size :: nat

definition Stat_of_bytes :: "bytes \<Rightarrow> Stat" where
  "Stat_of_bytes bs = \<lparr>stat_dev = le_nat (slice 0 8 bs), stat_ino = le_nat (slice 8 8 bs), stat_mode = le_nat (slice 16 4 bs),
     stat_nlink = le_nat (slice 20 4 bs), stat_size = le_nat (slice 24 8 bs)\<rparr>"

record Dirent = dt_ftype :: byte dt_name :: bytes dt_next_offset :: nat

definition Dirent_of_bytes :: "bytes \<Rightarrow> Dirent" where
  "Dirent_of_bytes bs = \<lparr>dt_ftype = bs ! 0, dt_name = slice 1 27 bs, dt_next_offset = le_nat (slice 28 4 bs)\<rparr>"

definition Dirent_name :: "Dirent \<Rightarrow> bytes option" where
  "Dirent_name e = (let len = (case find_index (\<lambda>v. v = 0) (dt_name e) of Some idx \<Rightarrow> idx | None \<Rightarrow> length (dt_name e));
     nm = take len (dt_name e) in if utf8_valid nm then Some nm else None)"


section \<open>Lemmas\<close>

lemma find_zero_first:
  assumes "i \<le> n" and "\<forall>j \<in> {i..<n}. mem (p + j) \<noteq> 0" and "mem (p + n) = 0"
  shows "find_zero mem p i = Some n"
  using assms
proof (induction "n - i" arbitrary: i)
  case 0
  then show ?case
    by (subst find_zero.simps) simp
next
  case (Suc d)
  then have "find_zero mem p (i + 1) = Some n"
    by (intro Suc.hyps(1)) auto
  then show ?case
    using Suc by (subst find_zero.simps) simp
qed

lemma map_upt_nth: "map f [a..<a + n] = xs \<Longrightarrow> j < n \<Longrightarrow> f (a + j) = xs ! j"
  by auto

lemma start_args_strings:
  assumes "\<forall>i \<in> set is. i < length args \<and> 0 \<notin> set (args ! i) \<and> utf8_valid (args ! i) \<and>
    p i < 2 ^ 64 \<and> map mem [argv + 8 * i..<argv + 8 * i + 8] = le_bytes 8 (p i) \<and> map mem [p i..<p i + (length (args ! i) + 1)] = args ! i @ [0]"
  shows "start_args is argv mem = Some (map ((!) args) is)"
  using assms
proof (induction "is")
  case Nil
  then show ?case by simp
next
  case (Cons i "is")
  let ?n = "length (args ! i)"
  have i: "0 \<notin> set (args ! i)" "utf8_valid (args ! i)" "p i < 2 ^ 64" "map mem [argv + 8 * i..<argv + 8 * i + 8] = le_bytes 8 (p i)"
    "map mem [p i..<p i + (?n + 1)] = args ! i @ [0]"
    using Cons.prems by auto
  have r: "read_usize mem (argv + i * 8) = p i"
    using i(3) unfolding read_usize_def mult.commute [of i] i(4) by (simp add: le_nat_le_bytes)
  have at: "mem (p i + j) = (args ! i @ [0]) ! j" if "j < ?n + 1" for j
    using map_upt_nth [OF i(5) that] .
  have "find_zero mem (p i) 0 = Some ?n"
    using i(1) at by (intro find_zero_first) (auto simp: nth_append in_set_conv_nth)
  moreover have "map mem [p i..<p i + ?n] = args ! i"
    using at by (intro nth_equalityI) (auto simp: nth_append)
  ultimately show ?case
    using Cons i(2) by (simp add: r)
qed

lemma wait_loop_returns:
  assumes "\<forall>i < n. \<exists>k1 x k2. call (ks i) = Some (- 2, k1) \<and> sys_yield k1 = Some (x, k2) \<and> others k2 = Some (ks (Suc i))"
    and "call (ks n) = Some (r, k')" and "r \<noteq> - 2"
  shows "wait_loop others call (ks 0) = Some (r, k')"
  using assms
proof (induction n arbitrary: ks)
  case 0
  then show ?case
    by (subst wait_loop.simps) simp
next
  case (Suc n)
  have "\<forall>i < n. \<exists>k1 x k2. call (ks (Suc i)) = Some (- 2, k1) \<and> sys_yield k1 = Some (x, k2) \<and> others k2 = Some (ks (Suc (Suc i)))"
    using Suc.prems(1) by simp
  then have "wait_loop others call (ks 1) = Some (r, k')"
    using Suc.IH [of "\<lambda>i. ks (Suc i)"] Suc.prems(2,3) by simp
  moreover obtain k1 x k2 where "call (ks 0) = Some (- 2, k1)" "sys_yield k1 = Some (x, k2)" "others k2 = Some (ks 1)"
    using Suc.prems(1) by (metis One_nat_def zero_less_Suc)
  ultimately show ?case
    by (subst wait_loop.simps) simp
qed

lemma Stat_round_trip:
  assumes "ino < 2 ^ 64" and "mode < 2 ^ 32" and "lk < 2 ^ 32" and "sz < 2 ^ 64"
  shows "Stat_of_bytes (Stat_new ino mode lk sz) = \<lparr>stat_dev = 0, stat_ino = ino, stat_mode = mode, stat_nlink = lk, stat_size = sz\<rparr>"
  using assms by (simp add: Stat_of_bytes_def Stat_new_def slice_def le_nat_le_bytes)

lemma Dirent_round_trip:
  assumes "length nm \<le> 27" and "0 \<notin> set nm" and "utf8_valid nm" and "next < 2 ^ 32"
  shows "Dirent_of_bytes (Dirent_bytes ft (splice 0 nm (replicate 27 0)) next) =
      \<lparr>dt_ftype = ft, dt_name = nm @ replicate (27 - length nm) 0, dt_next_offset = next\<rparr> \<and>
    Dirent_name (Dirent_of_bytes (Dirent_bytes ft (splice 0 nm (replicate 27 0)) next)) = Some nm"
proof -
  have e: "Dirent_of_bytes (Dirent_bytes ft (splice 0 nm (replicate 27 0)) next) =
      \<lparr>dt_ftype = ft, dt_name = nm @ replicate (27 - length nm) 0, dt_next_offset = next\<rparr>"
    using assms(1,4) by (simp add: Dirent_of_bytes_def Dirent_bytes_def splice_def slice_def le_nat_le_bytes)
  have "find_index (\<lambda>v. v = 0) (nm @ replicate (27 - length nm) 0) = (if length nm = 27 then None else Some (length nm))"
  proof (cases "length nm = 27")
    case True
    then show ?thesis
      using assms(2) by (auto simp: find_index_None)
  next
    case False
    then have n: "length nm < 27"
      using assms(1) by simp
    obtain i where i: "find_index (\<lambda>v. v = 0) (nm @ replicate (27 - length nm) 0) = Some i"
      using n find_index_None [of "\<lambda>v. v = 0" "nm @ replicate (27 - length nm) 0"] by fastforce
    have "\<not> i < length nm"
      using find_index_Some(1,2) [OF i] assms(2) by (metis nth_append nth_mem)
    moreover have "\<not> length nm < i"
      using find_index_Some(3) [OF i, of "length nm"] n by (auto simp: nth_append)
    ultimately show ?thesis
      using i False by simp
  qed
  then show ?thesis
    using e assms(1,3) by (auto simp: Dirent_name_def Let_def)
qed

section \<open>Properties\<close>

text \<open>
  C18. The arguments of a new program, from the kernel to \<open>main\<close>. With a user stack that is mapped far enough below its aligned top, and
  arguments that are UTF-8 strings without zero bytes, \<open>exec\<close> lays them out on the stack so that the entry point of the user library
  reads back exactly these arguments from the count and the address it gets in \<open>a0\<close> and \<open>a1\<close>. The stack pointer of the program is
  the next multiple of eight at or below the arguments, and no byte of its memory outside this area changes.
\<close>

theorem exec_passes_arguments:
  assumes us: "user_space base pt s M" and top: "tp mod 8 = 0" "tp \<le> 2 ^ 39" and sz: "size_all = 8 * (length args + 1) + args_size args" "size_all \<le> tp"
    and mapped: "mapped_bytes M (tp - size_all) tp" and strs: "\<forall>a \<in> set args. 0 \<notin> set a \<and> utf8_valid a"
  shows "\<exists>argv sp m. exec_stack (PageTable_token pt) args tp (ram s) = Some (argv, sp, m) \<and>
    user_start (length args) argv (user_byte M m) = Some args \<and> sp mod 8 = 0 \<and> sp \<le> tp - size_all \<and> tp - size_all < sp + 8 \<and>
    (\<forall>x. M (x div 4096) \<noteq> None \<and> x \<notin> {tp - size_all..<tp} \<longrightarrow> user_byte M m x = user_byte M (ram s) x)"
proof -
  let ?argv = "tp - 8 * (length args + 1)"
  let ?p = "\<lambda>i. ?argv - args_size (take (Suc i) args)"
  from exec_stack_layout [OF us top sz mapped refl] obtain sp m where
    e: "exec_stack (PageTable_token pt) args tp (ram s) = Some (?argv, sp, m)" "sp mod 8 = 0" "sp \<le> tp - size_all" "tp - size_all < sp + 8"
      "\<forall>x. M (x div 4096) \<noteq> None \<and> x \<notin> {tp - size_all..<tp} \<longrightarrow> user_byte M m x = user_byte M (ram s) x"
    and a: "\<forall>i < length args. let p = ?argv - args_size (take (Suc i) args) in
       map (user_byte M m) [?argv + 8 * i..<?argv + 8 * i + 8] = le_bytes 8 p \<and>
       map (user_byte M m) [p..<p + (length (args ! i) + 1)] = args ! i @ [0]"
    by (elim exE conjE)
  have "start_args [0..<length args] ?argv (user_byte M m) = Some (map ((!) args) [0..<length args])"
    by (rule start_args_strings [where p = ?p]) (use a strs top(2) in \<open>auto simp: Let_def\<close>)
  then have "user_start (length args) ?argv (user_byte M m) = Some args"
    by (simp add: user_start_def map_nth)
  then show ?thesis
    using e by (intro exI [of _ ?argv] exI [of _ sp] exI [of _ m]) simp
qed

theorem exec_passes_arguments_witness:
  "\<exists>(pt :: PageTable) (s :: mm) b argv m. exec_stack (PageTable_token pt) [[97, 98], [99]] 8192 (ram s) = Some (argv, 8160, m) \<and>
    user_start 2 argv (user_byte [1 \<mapsto> b] m) = Some [[97, 98], [99]]"
proof -
  obtain pt s b where us: "user_space 16 pt s [1 \<mapsto> b]"
    by (rule sample_user_space)
  have "x div 4096 = 1" if "x \<in> {8163..<8192}" for x :: nat
    using that block_position(1) [of 1 4096 x 4096] by simp
  then have mapped: "mapped_bytes [1 \<mapsto> b] (8192 - 29) 8192"
    by (simp add: mapped_bytes_def)
  have sz: "29 = 8 * (length [[97, 98], [99 :: byte]] + 1) + args_size [[97, 98], [99]]" "(8192 :: nat) mod 8 = 0" "(8192 :: nat) \<le> 2 ^ 39" "(29 :: nat) \<le> 8192"
    by simp_all
  have strs: "\<forall>a \<in> set [[97, 98], [99 :: byte]]. 0 \<notin> set a \<and> utf8_valid a"
    by simp
  from exec_passes_arguments [OF us sz(2,3,1,4) mapped strs]
  obtain argv sp m where e: "exec_stack (PageTable_token pt) [[97, 98], [99]] 8192 (ram s) = Some (argv, sp, m)" "sp mod 8 = 0" "sp \<le> 8192 - 29" "8192 - 29 < sp + 8"
    "user_start (length [[97, 98], [99 :: byte]]) argv (user_byte [1 \<mapsto> b] m) = Some [[97, 98], [99]]"
    by (elim exE conjE)
  have "sp = 8160"
    using e(2-4) by auto
  then show ?thesis
    using e(1,5) by (intro exI [of _ pt] exI [of _ s] exI [of _ b] exI [of _ argv] exI [of _ m]) (simp add: numeral_2_eq_2)
qed


text \<open>
  The user's clock wraps: what \<open>get_time\<close> returns from the seconds and microseconds that the kernel stored for the time \<open>us\<close> is
  the time in milliseconds modulo 65 536 000, because the seconds are cut to 16 bits. Its results therefore go back to zero every 18.2 hours.
\<close>

theorem get_time_wraps:
  assumes "us < 2 ^ 64"
  shows "lib_get_time 0 (TimeVal_of_bytes (le_bytes 8 (us div 1000000) @ le_bytes 8 (us mod 1000000))) = int (us div 1000 mod 65536000)"
proof -
  have "us div 1000000 < 2 ^ 64"
    using assms by simp
  then have t: "TimeVal_of_bytes (le_bytes 8 (us div 1000000) @ le_bytes 8 (us mod 1000000)) = \<lparr>tv_sec = us div 1000000, tv_usec = us mod 1000000\<rparr>"
    by (simp add: TimeVal_of_bytes_def slice_def le_nat_le_bytes)
  have "us div 1000000 AND 0xffff = us div 1000000 mod 65536"
    using take_bit_eq_mask [of 16 "us div 1000000"] by (simp add: take_bit_eq_mod mask_eq_exp_minus_1)
  moreover have "us div 1000000 mod 65536 * 1000 + us mod 1000000 div 1000 = us div 1000 mod 65536000"
  proof -
    have "us div 1000 mod (1000 * 65536) = 1000 * (us div 1000 div 1000 mod 65536) + us div 1000 mod 1000"
      by (rule mod_mult2_eq)
    moreover have "us mod 1000000 div 1000 = us div 1000 mod 1000"
      using mod_mult2_eq [of us 1000 1000] by simp
    ultimately show ?thesis
      by (simp add: div_mult2_eq [symmetric])
  qed
  moreover have "us div 1000 mod 65536000 < 65536000"
    by simp
  then have "usize (us div 1000 mod 65536000) = us div 1000 mod 65536000" "isize (int (us div 1000 mod 65536000)) = int (us div 1000 mod 65536000)"
    by (simp_all add: usize_def isize_def)
  ultimately show ?thesis
    by (simp add: lib_get_time_def t)
qed

theorem get_time_wraps_witness: "lib_get_time 0 (TimeVal_of_bytes (le_bytes 8 65536 @ le_bytes 8 0)) = 0"
  using get_time_wraps [of 65536000000] by simp

text \<open>
  A thread that exits with code \<open>-2\<close> cannot be waited for: the kernel answers \<open>waittid\<close> with the exit code and forgets the
  thread, the user library takes \<open>-2\<close> for a thread that still runs and asks again, and the second answer is the error \<open>-1\<close>. The thread
  is gone and its exit code lost.
\<close>

theorem waittid_loses_exit_code:
  assumes cur: "current_task k = Some t0" "k_tasks k t0 = Some T0" "k_procs k (tcb_process T0) = Some P" "tcb_res T0 = Some res" "tur_tid res \<noteq> tid"
    and ended: "tid < length (pcb_tasks P)" "pcb_tasks P ! tid = Some t" "k_tasks k t = Some T" "tcb_exit_code T = Some (- 2)"
    and first: "sys_waittid tid k = Some (r, k1)" and again: "sys_yield k1 = Some (x, k2)" "others k2 = Some k3"
    and cur3: "current_task k3 = Some t0" "k_tasks k3 t0 = Some T0" "k_procs k3 (tcb_process T0) = Some P3"
    and gone: "pcb_tasks P3 = (pcb_tasks P)[tid := None]"
  shows "lib_waittid others tid k = Some (- 1, k3)"
proof -
  have "r = - 2"
    using cur ended first by (auto split: bind_splits simp: sys_waittid_def)
  moreover have "sys_waittid tid k3 = Some (- 1, k3)"
    using cur(4,5) cur3 gone ended(1) by (auto simp: sys_waittid_def)
  then have "wait_loop others (sys_waittid tid) k3 = Some (- 1, k3)"
    by (subst wait_loop.simps) simp
  ultimately show ?thesis
    using first again unfolding lib_waittid_def by (subst wait_loop.simps) simp
qed

definition sample_waiter :: kernel where
  \<comment> \<open>the main thread of process 1 runs; its second thread has exited with code \<open>-2\<close>\<close>
  "sample_waiter = sample_kernel\<lparr>sc_current := Some 8, sc_ready := [],
     k_procs := [1 \<mapsto> (sample_process (Some 0) [] False)\<lparr>pcb_tasks := [Some 8, Some 9], pcb_task_res_allocator := \<lparr>ra_current = 2, ra_recycled = []\<rparr>\<rparr>],
     k_tasks := [8 \<mapsto> sample_tcb SignalProcessor_new, 9 \<mapsto> (sample_tcb SignalProcessor_new)\<lparr>tcb_res := None, tcb_exit_code := Some (- 2)\<rparr>]\<rparr>"

lemma sample_waittid: "\<exists>k1. sys_waittid 1 sample_waiter = Some (- 2, k1) \<and> sc_current k1 = Some 8 \<and> sc_ready k1 = [] \<and>
    k_tasks k1 = [8 \<mapsto> sample_tcb SignalProcessor_new] \<and> (\<exists>P. k_procs k1 = [1 \<mapsto> P] \<and> pcb_tasks P = [Some 8, None])"
proof -
  have "KernelStack_drop 0 (k_kernel_space sample_kernel) s = Some (k_kernel_space sample_kernel, s)" for s
  proof -
    have "addr_page (VirtAddr_from (fst (kernel_stack_position 0))) = Some (2 ^ 27 - 3)"
      by (simp add: kernel_stack_position_eq addr_page_def VirtAddr_from_def VA_MASK_def VA_WIDTH_SV39_def page_offset_def PG_OFS_MASK_def addr_floor_def PAGE_SIZE_def
          PAGE_SIZE_BITS_def)
    then show ?thesis
      by (simp add: KernelStack_drop_def sample_kernel_def remove_area_with_start_vpn_def split_beta)
  qed
  moreover have "sc_status sample_kernel 9 = None"
    by (simp add: sample_kernel_def)
  ultimately show ?thesis
    by (simp add: sample_waiter_def sample_tcb_def sys_waittid_def release_task_def task_referenced_def current_task_def ra_dealloc_def set_proc_def)
      (intro exI conjI, rule refl, simp)
qed

theorem waittid_loses_exit_code_witness:
  "\<exists>k3. lib_waittid (\<lambda>k. Some (run_tasks_round k)) 1 sample_waiter = Some (- 1, k3)"
proof -
  from sample_waittid obtain k1 P where k1: "sys_waittid 1 sample_waiter = Some (- 2, k1)" "sc_current k1 = Some 8" "sc_ready k1 = []"
    "k_tasks k1 = [8 \<mapsto> sample_tcb SignalProcessor_new]" "k_procs k1 = [1 \<mapsto> P]" "pcb_tasks P = [Some 8, None]"
    by blast
  obtain k2 where k2: "sys_yield k1 = Some (0, k2)" "k2 = add_task 8 (set_status 8 Ready (k1\<lparr>sc_current := None\<rparr>))"
    using k1(2) by (simp add: sys_yield_def suspend_current_def take_current_task_def)
  have k3: "current_task (run_tasks_round k2) = Some 8" "k_tasks (run_tasks_round k2) = [8 \<mapsto> sample_tcb SignalProcessor_new]" "k_procs (run_tasks_round k2) = [1 \<mapsto> P]"
    using k1 by (simp_all add: k2(2) run_tasks_round_def fetch_task_def add_task_def set_status_def current_task_def)
  have w: "current_task sample_waiter = Some 8" "k_tasks sample_waiter 8 = Some (sample_tcb SignalProcessor_new)"
    "k_tasks sample_waiter 9 = Some ((sample_tcb SignalProcessor_new)\<lparr>tcb_res := None, tcb_exit_code := Some (- 2)\<rparr>)"
    "tcb_process (sample_tcb SignalProcessor_new) = 1" "tcb_res (sample_tcb SignalProcessor_new) = Some \<lparr>tur_tid = 0, tur_ustack_base = 0x10000\<rparr>"
    "\<exists>Q. k_procs sample_waiter 1 = Some Q \<and> pcb_tasks Q = [Some 8, Some 9]"
    by (simp_all add: sample_waiter_def current_task_def sample_tcb_def)
  then obtain Q where Q: "k_procs sample_waiter 1 = Some Q" "pcb_tasks Q = [Some 8, Some 9]"
    by blast
  show ?thesis
    using waittid_loses_exit_code [of sample_waiter 8 "sample_tcb SignalProcessor_new" _ _ 1 9 _ "- 2" k1 0 k2 "\<lambda>k. Some (run_tasks_round k)" "run_tasks_round k2" P]
      k1 k2(1) k3 w(1-5) Q by auto
qed

end
