(* ===== verification/Shell.thy ===== *)
theory Shell
  imports UserLib "HOL-Library.List_Lexorder"
begin

text \<open>
  The shell (\<^verbatim>\<open>user/src/bin/user_shell.rs\<close>): the line editor with completion, the parser of command lines with redirections and pipes, the built-in
  commands, and what the shell and its children do to their file descriptors before a program is started. Strings are lists of code points. The
  echo of the line editor on the console is left out. Addresses of strings in the memory of the shell are an argument.
\<close>

section \<open>Strings\<close>

type_synonym str = "nat list"

definition is_ascii_whitespace :: "nat \<Rightarrow> bool" where
  "is_ascii_whitespace c \<longleftrightarrow> c \<in> {9, 10, 12, 13, 32}"

definition is_whitespace :: "nat \<Rightarrow> bool" where
  \<comment> \<open>the property \<open>White_Space\<close> of Unicode\<close>
  "is_whitespace c \<longleftrightarrow> 9 \<le> c \<and> c \<le> 13 \<or> c \<in> {0x20, 0x85, 0xA0, 0x1680, 0x2028, 0x2029, 0x202F, 0x205F, 0x3000} \<or> 0x2000 \<le> c \<and> c \<le> 0x200A"

definition str_trim :: "str \<Rightarrow> str" where
  "str_trim s = rev (dropWhile is_whitespace (rev (dropWhile is_whitespace s)))"

fun split_on :: "(nat \<Rightarrow> bool) \<Rightarrow> str \<Rightarrow> str list" where
  \<comment> \<open>\<open>split\<close>: the pieces between the separators, empty ones included\<close>
  "split_on p [] = [[]]"
| "split_on p (c # cs) = (if p c then [] # split_on p cs else (case split_on p cs of w # ws \<Rightarrow> (c # w) # ws | [] \<Rightarrow> [[c]]))"

definition split_ascii_whitespace :: "str \<Rightarrow> str list" where
  "split_ascii_whitespace s = filter (\<lambda>w. w \<noteq> []) (split_on is_ascii_whitespace s)"

fun split_once :: "(nat \<Rightarrow> bool) \<Rightarrow> str \<Rightarrow> (str \<times> str) option" where
  "split_once p [] = None"
| "split_once p (c # cs) = (if p c then Some ([], cs) else (case split_once p cs of Some (a, b) \<Rightarrow> Some (c # a, b) | None \<Rightarrow> None))"

definition with_nul :: "str \<Rightarrow> str" where
  \<comment> \<open>\<open>s.push('\0')\<close>\<close>
  "with_nul s = s @ [0]"

section \<open>Commands\<close>

record ProcessArguments =
  pa_input :: str
  pa_output :: str
  pa_args :: "str list"

definition take_redirection :: "nat \<Rightarrow> str list \<Rightarrow> (str \<times> str list) option" where
  \<comment> \<open>the search for the sign and the removal of the sign and its file; \<open>None\<close>: nothing follows the sign\<close>
  "take_redirection sign args = (case find_index (\<lambda>a. a = [sign, 0]) args of
       None \<Rightarrow> Some ([], args)
     | Some idx \<Rightarrow> do { f \<leftarrow> index_get args (idx + 1); Some (f, take idx args @ drop (idx + 2) args) })"

definition ProcessArguments_new :: "str \<Rightarrow> ProcessArguments option" where
  "ProcessArguments_new cmd = do {
     let args = map with_nul (split_ascii_whitespace cmd);
     (inp, args) \<leftarrow> take_redirection 60 args;
     (out, args) \<leftarrow> take_redirection 62 args;
     Some \<lparr>pa_input = inp, pa_output = out, pa_args = args\<rparr> }"

fun map_commands :: "str list \<Rightarrow> ProcessArguments list option" where
  "map_commands [] = Some []"
| "map_commands (c # cs) = do { a \<leftarrow> ProcessArguments_new c; as \<leftarrow> map_commands cs; Some (a # as) }"

definition parse_pipeline :: "str \<Rightarrow> ProcessArguments list option" where
  "parse_pipeline inp = map_commands (split_on (\<lambda>c. c = 124) inp)"

fun pipeline_valid_loop :: "nat \<Rightarrow> nat \<Rightarrow> ProcessArguments list \<Rightarrow> bool \<Rightarrow> bool" where
  "pipeline_valid_loop i n [] valid = valid"
| "pipeline_valid_loop i n (a # as) valid = pipeline_valid_loop (i + 1) n as
     (if i = 0 then (if pa_output a \<noteq> [] then False else valid)
      else if i = n - 1 then (if pa_input a \<noteq> [] then False else valid)
      else if \<not> (pa_input a = [] \<and> pa_output a = []) then False else valid)"

definition pipeline_valid :: "ProcessArguments list \<Rightarrow> bool" where
  "pipeline_valid as = (if length as = 1 then True else pipeline_valid_loop 0 (length as) as True)"

section \<open>Built-in commands\<close>

definition trim_end_nul :: "str \<Rightarrow> str" where
  "trim_end_nul s = rev (dropWhile (\<lambda>c. c = 0) (rev s))"

datatype builtin_error = UNKNOWN_BUILTIN | WRONG_NUM_ARGS | ErrorCd | ErrorPwd

definition exec_builtin :: "(str \<Rightarrow> nat) \<Rightarrow> nat \<Rightarrow> str \<Rightarrow> str list \<Rightarrow> pfiles \<Rightarrow> kfiles \<Rightarrow> ((builtin_error option) \<times> pfiles \<times> kfiles) option" where
  \<comment> \<open>\<open>addr\<close>: where strings lie in the memory of the shell; \<open>buf\<close>: the array for the path\<close>
  "exec_builtin addr buf cmd args p k =
     (if trim_end_nul cmd = [99, 100] then
        (if length args > 1 then Some (Some WRONG_NUM_ARGS, p, k)
         else do {
           let path = (case args of [] \<Rightarrow> [47, 0] | a # _ \<Rightarrow> a);
           (r, p) \<leftarrow> sys_chdir (addr path) p k;
           Some (if r = - 1 then Some ErrorCd else None, p, k) })
      else if trim_end_nul cmd = [112, 119, 100] then do {
        (r, k) \<leftarrow> sys_getcwd buf 256 p k;
        if r = - 1 then Some (Some ErrorPwd, p, k)
        else do {
          bs \<leftarrow> user_load (user_token p) buf 256 (kf_ram k);
          ensure (utf8_valid bs);
          Some (None, p, k) } }
      else Some (Some UNKNOWN_BUILTIN, p, k))"

definition builtin_parts :: "str \<Rightarrow> str \<times> str list" where
  "builtin_parts inp = (let (cmd, rest) = (case split_once is_ascii_whitespace inp of Some x \<Rightarrow> x | None \<Rightarrow> (inp, []))
     in (cmd, map with_nul (split_ascii_whitespace rest)))"

section \<open>Completion and the line editor\<close>

definition BS :: byte where "BS = 0x08"
definition HT :: byte where "HT = 0x09"
definition LF :: byte where "LF = 0x0a"
definition CR :: byte where "CR = 0x0d"
definition DL :: byte where "DL = 0x7f"

type_synonym Completer = "str list" \<comment> \<open>the \<open>BTreeSet\<close>: in order and without duplicates\<close>

definition Completer_new :: Completer where
  "Completer_new = []"

definition can_insert :: "str \<Rightarrow> Completer \<Rightarrow> Completer" where
  "can_insert s can = (if s \<in> set can then can else insort s can)"

definition load_ad_hoc :: "str list \<Rightarrow> Completer \<Rightarrow> Completer" where
  \<comment> \<open>\<open>extend\<close>; \<open>load_root\<close> does the same with the names of the files in the root directory\<close>
  "load_ad_hoc ss can = fold can_insert ss can"

definition hint_for :: "str \<Rightarrow> Completer \<Rightarrow> str list" where
  "hint_for s can = filter (\<lambda>v. take (length s) v = s) can"

fun complete :: "str list \<Rightarrow> nat \<Rightarrow> str \<Rightarrow> bytes \<Rightarrow> str \<times> bytes" where
  \<comment> \<open>\<open>for hint in hints.iter().cycle()\<close>, from round \<open>j\<close> on: the text that stays, and the input from the character that ended completion\<close>
  "complete hints j par [] = (drop (length par) (hints ! (j mod length hints)), [])"
| "complete hints j par (c # cs) = (if c = HT then complete hints (j + 1) par cs else (drop (length par) (hints ! (j mod length hints)), c # cs))"

lemma complete_length: "length (snd (complete hints j par cs)) \<le> length cs"
  by (induction cs arbitrary: j) (auto intro: le_SucI)

function read_line :: "Completer \<Rightarrow> str \<Rightarrow> bytes \<Rightarrow> (str \<times> bytes) option" where
  \<comment> \<open>the loop \<open>'repl\<close> up to the end of the line, with the input that follows; \<open>None\<close>: more input is awaited\<close>
  "read_line can line [] = None"
| "read_line can line (c # cs) =
     (if c = HT then
        (case split_ascii_whitespace line of
           [] \<Rightarrow> read_line can line cs
         | w # ws \<Rightarrow> (let par = last (w # ws); hints = hint_for par can in
             if hints = [] then read_line can line cs
             else read_line can (line @ fst (complete hints 0 par cs)) (snd (complete hints 0 par cs))))
      else if c = LF \<or> c = CR then Some (line, cs)
      else if c = BS \<or> c = DL then read_line can (if line \<noteq> [] then butlast line else line) cs
      else read_line can (line @ [unat c]) cs)"
  by pat_completeness auto
termination
  by (relation "measure (\<lambda>(_, _, cs). length cs)") (auto simp: less_Suc_eq_le complete_length)

declare read_line.simps [simp del]

section \<open>File descriptors of a pipeline\<close>

fun create_pipes :: "nat \<Rightarrow> nat \<Rightarrow> (nat \<times> nat) list \<Rightarrow> pfiles \<Rightarrow> kfiles \<Rightarrow> ((nat \<times> nat) list \<times> pfiles \<times> kfiles) option" where
  \<comment> \<open>\<open>n\<close> more rounds; the array \<open>pipe_fd\<close> lies at \<open>ptr\<close>\<close>
  "create_pipes 0 ptr fds p k = Some (fds, p, k)"
| "create_pipes (Suc n) ptr fds p k = do {
     (_, p, k) \<leftarrow> sys_pipe ptr p k;
     r \<leftarrow> user_load (user_token p) ptr 8 (kf_ram k);
     w \<leftarrow> user_load (user_token p) (usize (ptr + 8)) 8 (kf_ram k);
     create_pipes n ptr (fds @ [(le_nat r, le_nat w)]) p k }"

fun close_pipes :: "(nat \<times> nat) list \<Rightarrow> pfiles \<Rightarrow> pfiles" where
  "close_pipes [] p = p"
| "close_pipes ((r, w) # fds) p = close_pipes fds (snd (sys_close w (snd (sys_close r p))))"

definition redirect :: "(str \<Rightarrow> nat) \<Rightarrow> str \<Rightarrow> 32 word \<Rightarrow> nat \<Rightarrow> pfiles \<Rightarrow> kfiles \<Rightarrow> (bool \<times> pfiles \<times> kfiles) option" where
  \<comment> \<open>whether the child goes on\<close>
  "redirect addr file fl target p k =
     (if file = [] then Some (True, p, k)
      else do {
        (fd, p, k) \<leftarrow> sys_openat AT_FDCWD (addr file) fl p k;
        if fd = - 1 then Some (False, p, k)
        else do {
          let fd = as_usize fd;
          let p = snd (sys_close target p);
          (r, p) \<leftarrow> sys_dup fd p;
          ensure (r = int target);
          Some (True, snd (sys_close fd p), k) } })"

definition dup_to :: "nat \<Rightarrow> nat \<Rightarrow> pfiles \<Rightarrow> pfiles option" where
  "dup_to fd target p = do {
     let p = snd (sys_close target p);
     (r, p) \<leftarrow> sys_dup fd p;
     ensure (r = int target);
     Some p }"

definition plumb :: "nat \<Rightarrow> nat \<Rightarrow> (nat \<times> nat) list \<Rightarrow> pfiles \<Rightarrow> pfiles option" where
  "plumb i n fds p = do {
     p \<leftarrow> (if i > 0 then do { (r, _) \<leftarrow> index_get fds (i - 1); dup_to r 0 p } else Some p);
     p \<leftarrow> (if i < n - 1 then do { (_, w) \<leftarrow> index_get fds i; dup_to w 1 p } else Some p);
     Some (close_pipes fds p) }"

datatype child_outcome = ChildReturns int | ChildExecs "str list" pfiles kfiles \<comment> \<open>up to the call of \<open>exec\<close>\<close>

definition shell_child :: "(str \<Rightarrow> nat) \<Rightarrow> nat \<Rightarrow> nat \<Rightarrow> (nat \<times> nat) list \<Rightarrow> ProcessArguments \<Rightarrow> pfiles \<Rightarrow> kfiles \<Rightarrow> child_outcome option" where
  "shell_child addr i n fds a p k = do {
     (ok, p, k) \<leftarrow> redirect addr (pa_input a) 0 0 p k;
     if \<not> ok then Some (ChildReturns (- 4))
     else do {
       (ok, p, k) \<leftarrow> redirect addr (pa_output a) (push_bit 0 1 OR push_bit 9 1 OR push_bit 10 1) 1 p k;
       if \<not> ok then Some (ChildReturns (- 4))
       else do {
         p \<leftarrow> plumb i n fds p;
         ensure (pa_args a \<noteq> []);
         Some (ChildExecs (pa_args a) p k) } } }"


section \<open>Lines\<close>

datatype line_outcome = NextLine | BuiltinFailed builtin_error | InvalidCommand | Pipeline "ProcessArguments list"

definition interpret_line :: "(str \<Rightarrow> nat) \<Rightarrow> nat \<Rightarrow> str \<Rightarrow> pfiles \<Rightarrow> kfiles \<Rightarrow> (line_outcome \<times> pfiles \<times> kfiles) option" where
  "interpret_line addr buf line p k = (let inp = str_trim line in
     if inp = [] then Some (NextLine, p, k)
     else do {
       let (cmd, args) = builtin_parts inp;
       (e, p, k) \<leftarrow> exec_builtin addr buf cmd args p k;
       case e of
         None \<Rightarrow> Some (NextLine, p, k)
       | Some UNKNOWN_BUILTIN \<Rightarrow> do {
           as \<leftarrow> parse_pipeline inp;
           Some (if pipeline_valid as then Pipeline as else InvalidCommand, p, k) }
       | Some e \<Rightarrow> Some (BuiltinFailed e, p, k) })"

fun wait_children :: "(kernel \<Rightarrow> kernel option) \<Rightarrow> nat \<Rightarrow> nat list \<Rightarrow> kernel \<Rightarrow> kernel option" where
  \<comment> \<open>\<open>ptr\<close>: the address of \<open>exit_code\<close>\<close>
  "wait_children others ptr [] k = Some k"
| "wait_children others ptr (pid # pids) k = do {
     (r, k) \<leftarrow> lib_waitpid others pid ptr k;
     ensure (r = int pid);
     wait_children others ptr pids k }"

section \<open>Lemmas on file descriptors\<close>

lemma sys_close_table: "fd_table (snd (sys_close fd p)) = (fd_table p)[fd := None]"
  by (auto simp: sys_close_def split: option.split intro: list_update_beyond [symmetric] list_update_id [symmetric])
    (metis list_update_id)

lemma sys_close_fields [simp]: "cwd (snd (sys_close fd p)) = cwd p" "user_token (snd (sys_close fd p)) = user_token p"
  by (auto simp: sys_close_def split: option.split)

lemma fd_get_close: "fd_get x (snd (sys_close fd p)) = (if x = fd then None else fd_get x p)"
  by (auto simp: fd_get_def sys_close_table)

lemma length_close [simp]: "length (fd_table (snd (sys_close fd p))) = length (fd_table p)"
  by (simp add: sys_close_table)

lemma fd_get_close_pipes: "fd_get x (close_pipes fds p) = (if x \<in> fst ` set fds \<union> snd ` set fds then None else fd_get x p)"
  by (induction fds p rule: close_pipes.induct) (auto simp: fd_get_close)

lemma dup_to_spec:
  assumes "fd_get fd p = Some f" and "fd \<noteq> target" and "\<forall>j < target. fd_get j p \<noteq> None" and "target < length (fd_table p)"
  obtains p' where "dup_to fd target p = Some p'" "\<And>x. fd_get x p' = (if x = target then Some f else fd_get x p)"
    "length (fd_table p) \<le> length (fd_table p')"
proof -
  let ?q = "snd (sys_close target p)"
  obtain n q where a: "alloc_fd ?q = (n, q)"
    by fastforce
  note A = alloc_fd_spec [OF a]
  have "\<not> n < target"
    using A(1) assms(3) by (auto simp: fd_get_close)
  moreover have "\<not> target < n"
    using A(2) by (auto simp: fd_get_close)
  ultimately have n: "n = target"
    by simp
  have l: "length (fd_table p) \<le> length (fd_table q)"
    using a by (auto simp: alloc_fd_def split: option.splits)
  let ?p = "q\<lparr>fd_table := (fd_table q)[target := Some f]\<rparr>"
  have "dup_to fd target p = Some ?p"
    using assms(1,2) a n A(3) by (simp add: dup_to_def sys_dup_def fd_get_close set_fd_def)
  moreover have "fd_get x ?p = (if x = target then Some f else fd_get x p)" for x
    using A(3) A(4) [of x] n by (auto simp: fd_get_def [of _ ?p] nth_list_update) (auto simp: fd_get_def [of _ q] fd_get_close split: if_splits)
  ultimately show thesis
    using that l by simp
qed

lemma plumb_spec:
  assumes i: "i < n" and len: "length fds = n - 1" and std: "fd_get 0 p = Some a" "fd_get 1 p = Some b"
    and ends: "\<forall>j < n - 1. 2 < fst (fds ! j) \<and> 2 < snd (fds ! j) \<and> fd_get (fst (fds ! j)) p = Some (R j) \<and> fd_get (snd (fds ! j)) p = Some (W j)"
  obtains p' where "plumb i n fds p = Some p'" "fd_get 0 p' = Some (if i = 0 then a else R (i - 1))"
    "fd_get 1 p' = Some (if i = n - 1 then b else W i)" "\<And>x. 1 < x \<Longrightarrow> fd_get x p' = (if x \<in> fst ` set fds \<union> snd ` set fds then None else fd_get x p)"
proof -
  have l: "1 < length (fd_table p)"
    using std(2) by (auto simp: fd_get_def split: if_splits)
  obtain p1 where p1: "(if i > 0 then do { (r, _) \<leftarrow> index_get fds (i - 1); dup_to r 0 p } else Some p) = Some p1"
    "\<And>x. fd_get x p1 = (if x = 0 \<and> 0 < i then Some (R (i - 1)) else fd_get x p)" "1 < length (fd_table p1)"
  proof (cases "0 < i")
    case True
    then have j: "i - 1 < n - 1"
      using i by simp
    obtain r w where rw: "fds ! (i - 1) = (r, w)"
      by fastforce
    have "fd_get r p = Some (R (i - 1))" "r \<noteq> 0"
      using ends j rw by (metis fst_conv, metis fst_conv not_less_zero)
    moreover have "\<forall>j < 0. fd_get j p \<noteq> None" "0 < length (fd_table p)"
      using l by auto
    ultimately obtain q where "dup_to r 0 p = Some q" "\<And>x. fd_get x q = (if x = 0 then Some (R (i - 1)) else fd_get x p)" "length (fd_table p) \<le> length (fd_table q)"
      by (rule dup_to_spec) blast
    then show thesis
      using that [of q] True l rw j len by (auto simp: index_get_def)
  next
    case False
    then show thesis
      using that l by simp
  qed
  obtain p2 where p2: "(if i < n - 1 then do { (_, w) \<leftarrow> index_get fds i; dup_to w 1 p1 } else Some p1) = Some p2"
    "\<And>x. fd_get x p2 = (if x = 1 \<and> i < n - 1 then Some (W i) else fd_get x p1)"
  proof (cases "i < n - 1")
    case True
    obtain r w where rw: "fds ! i = (r, w)"
      by fastforce
    have "2 < w" "fd_get w p = Some (W i)"
      using ends True rw by (metis snd_conv)+
    then have "fd_get w p1 = Some (W i)" "w \<noteq> 1"
      by (auto simp: p1(2))
    moreover have "\<forall>j < 1. fd_get j p1 \<noteq> None" "1 < length (fd_table p1)"
      using p1(2,3) std(1) by auto
    ultimately obtain q where "dup_to w 1 p1 = Some q" "\<And>x. fd_get x q = (if x = 1 then Some (W i) else fd_get x p1)"
      by (rule dup_to_spec) blast
    then show thesis
      using that [of q] True rw len by (auto simp: index_get_def)
  next
    case False
    then show thesis
      using that by simp
  qed
  have big: "2 < x" if "x \<in> fst ` set fds \<union> snd ` set fds" for x
    using that ends len by (auto simp: in_set_conv_nth) (metis fst_conv, metis snd_conv)
  show thesis
  proof (rule that [of "close_pipes fds p2"])
    show "plumb i n fds p = Some (close_pipes fds p2)"
      using p1(1) p2(1) by (simp add: plumb_def)
    show "fd_get 0 (close_pipes fds p2) = Some (if i = 0 then a else R (i - 1))" "fd_get 1 (close_pipes fds p2) = Some (if i = n - 1 then b else W i)"
      using big [of 0] big [of 1] i std by (auto simp: fd_get_close_pipes p1(2) p2(2))
    show "fd_get x (close_pipes fds p2) = (if x \<in> fst ` set fds \<union> snd ` set fds then None else fd_get x p)" if "1 < x" for x
      using that by (simp add: fd_get_close_pipes p1(2) p2(2))
  qed
qed

section \<open>Lemmas on the pipes of a pipeline\<close>

lemma user_load_view:
  assumes us: "user_space base pt s M" and a: "a < 2 ^ 39" "M (a div 4096) \<noteq> None" "a mod 4096 + n \<le> 4096"
  shows "user_load (PageTable_token pt) a n (ram s) = Some (map (user_byte M (ram s)) [a..<a + n])"
proof -
  note U = user_spaceD [OF us]
  obtain b where b: "M (a div 4096) = Some b"
    using a(2) by auto
  let ?p = "pte_ppn b" and ?o = "a mod 4096"
  obtain pg where pg: "ram s ?p = Some pg" "length pg = PAGE_SIZE"
    using U(3) b by (auto simp: backed_def)
  have fl: "addr_floor (?p * 4096 + ?o) = ?p" "page_offset (?p * 4096 + ?o) = ?o"
    by (simp_all add: addr_floor_div page_offset_mod)
  have "slice ?o n pg = map (user_byte M (ram s)) [a..<a + n]"
  proof (rule nth_equalityI)
    show "length (slice ?o n pg) = length (map (user_byte M (ram s)) [a..<a + n])"
      using a(3) pg(2) by (simp add: slice_def PAGE_SIZE_def)
    fix j assume "j < length (slice ?o n pg)"
    then have j: "j < n"
      by (simp add: slice_def)
    have "(a + j) div 4096 = a div 4096" "(a + j) mod 4096 = ?o + j"
      using j a(3) div_add1_eq [of a j 4096] mod_add_eq [of a 4096 j] by (simp_all add: mod_if)
    then show "slice ?o n pg ! j = map (user_byte M (ram s)) [a..<a + n] ! j"
      using j pg a(3) b by (simp add: slice_def user_byte_def user_ref_def PAGE_SIZE_def)
  qed
  then show ?thesis
    using translate_ref_user [OF us a(1) b] pg a(3) by (simp add: user_load_def fl PAGE_SIZE_def)
qed

lemma map_overlay_below: "c \<le> a \<Longrightarrow> map (overlay a bs f) [b..<c] = map f [b..<c]"
  by (auto simp: overlay_def)

lemma alloc_fd_full: "None \<notin> set (fd_table p) \<Longrightarrow> alloc_fd p = (length (fd_table p), p\<lparr>fd_table := fd_table p @ [None]\<rparr>)"
  by (auto simp: alloc_fd_def find_Some_iff in_set_conv_nth split: option.split)

definition pipe_ends :: "nat \<Rightarrow> File list" where
  "pipe_ends b = [FilePipe read_end_with_buffer b, FilePipe write_end_with_buffer b]"

lemma length_pipe_ends [simp]: "length (pipe_ends b) = 2"
  by (simp add: pipe_ends_def)

lemma sys_pipe_full:
  assumes us: "user_space base pt s M" and ptr: "ptr < 2 ^ 39 - 16" "M (ptr div 4096) \<noteq> None" "ptr mod 4096 + 16 \<le> 4096"
    and full: "None \<notin> set (fd_table p)" "length (fd_table p) < 2 ^ 64 - 1" and tok: "user_token p = PageTable_token pt" and k: "kf_ram k = ram s"
  obtains p' k' where "sys_pipe ptr p k = Some (0, p', k')" "fd_table p' = fd_table p @ map Some (pipe_ends (length (kf_pipes k)))"
    "user_token p' = user_token p" "length (kf_pipes k') = length (kf_pipes k) + 1" "user_space base pt (s\<lparr>ram := kf_ram k'\<rparr>) M"
    "user_load (user_token p') ptr 8 (kf_ram k') = Some (le_bytes 8 (length (fd_table p)))"
    "user_load (user_token p') (usize (ptr + 8)) 8 (kf_ram k') = Some (le_bytes 8 (length (fd_table p) + 1))"
proof -
  let ?L = "length (fd_table p)" and ?t = "PageTable_token pt" and ?B = "length (kf_pipes k)"
  let ?p1 = "p\<lparr>fd_table := fd_table p @ [Some (FilePipe read_end_with_buffer ?B)]\<rparr>"
  have d: "(ptr + 8) div 4096 = ptr div 4096" "(ptr + 8) mod 4096 = ptr mod 4096 + 8"
    using ptr(3) div_add1_eq [of ptr 8 4096] mod_add_eq [of ptr 4096 8] by (simp_all add: mod_if)
  have u: "usize (ptr + 8) = ptr + 8"
    using ptr(1) by (simp add: usize_def)
  obtain m1 where m1: "user_store ?t ptr (le_bytes 8 ?L) (ram s) = Some m1" "user_space base pt (s\<lparr>ram := m1\<rparr>) M"
    "views M m1 (overlay ptr (le_bytes 8 ?L) (user_byte M (ram s)))"
    using user_store_write [OF us, of ptr "le_bytes 8 ?L"] ptr by (auto simp: views_def)
  obtain m2 where m2: "user_store ?t (ptr + 8) (le_bytes 8 (?L + 1)) m1 = Some m2" "user_space base pt (s\<lparr>ram := m2\<rparr>) M"
    "views M m2 (overlay (ptr + 8) (le_bytes 8 (?L + 1)) (overlay ptr (le_bytes 8 ?L) (user_byte M (ram s))))"
    using user_store_write [OF m1(2), of "ptr + 8" "le_bytes 8 (?L + 1)"] m1(3) ptr d by auto
  let ?f = "overlay (ptr + 8) (le_bytes 8 (?L + 1)) (overlay ptr (le_bytes 8 ?L) (user_byte M (ram s)))"
  have in_page: "x div 4096 = ptr div 4096" if "x \<in> {ptr..<ptr + 16}" for x
  proof -
    have "x = ptr + (x - ptr)" "x - ptr < 16"
      using that by auto
    then show ?thesis
      using ptr(3) div_add1_eq [of ptr "x - ptr" 4096] by simp
  qed
  have see: "map (user_byte M m2) [a..<c] = map ?f [a..<c]" if "ptr \<le> a" "c \<le> ptr + 16" for a c
  proof (rule map_cong [OF refl])
    fix x assume "x \<in> set [a..<c]"
    then have "M (x div 4096) \<noteq> None"
      using in_page [of x] ptr(2) that by simp
    then show "user_byte M m2 x = ?f x"
      using m2(3) unfolding views_def by blast
  qed
  have "map ?f [ptr..<ptr + 8] = le_bytes 8 ?L"
    by (simp only: map_overlay_below order_refl map_overlay length_le_bytes)
  then have l1: "user_load ?t ptr 8 m2 = Some (le_bytes 8 ?L)"
    using user_load_view [OF m2(2), of ptr 8] ptr see [of ptr "ptr + 8"] by (simp del: upt.simps upt_rec_numeral)
  have "map ?f [ptr + 8..<ptr + 8 + 8] = le_bytes 8 (?L + 1)"
    by (rule map_overlay) simp
  then have l2: "user_load ?t (ptr + 8) 8 m2 = Some (le_bytes 8 (?L + 1))"
    using user_load_view [OF m2(2), of "ptr + 8" 8] ptr d see [of "ptr + 8" "ptr + 16"] by (simp add: add.assoc)
  let ?p' = "p\<lparr>fd_table := fd_table p @ map Some (pipe_ends ?B)\<rparr>"
  let ?k' = "k\<lparr>kf_pipes := kf_pipes k @ [snd (snd (make_pipe ?B))], kf_ram := m2\<rparr>"
  have "alloc_fd ?p1 = (?L + 1, ?p1\<lparr>fd_table := fd_table ?p1 @ [None]\<rparr>)"
    using alloc_fd_full [of ?p1] full(1) by simp
  then have "sys_pipe ptr p k = Some (0, ?p', ?k')"
    using alloc_fd_full [OF full(1)] m1(1) m2(1) tok k u
    by (simp add: sys_pipe_def make_pipe_def set_fd_def pipe_ends_def list_update_append Let_def)
  then show thesis
    using that [of ?p' ?k'] m2(2) l1 l2 u tok by simp
qed

lemma create_pipes_spec:
  assumes us: "user_space base pt s M" and ptr: "ptr < 2 ^ 39 - 16" "M (ptr div 4096) \<noteq> None" "ptr mod 4096 + 16 \<le> 4096"
    and full: "None \<notin> set (fd_table p)" "length (fd_table p) + 2 * n < 2 ^ 64 - 1" and tok: "user_token p = PageTable_token pt" and k: "kf_ram k = ram s"
  shows "\<exists>p' k'. create_pipes n ptr fds p k = Some (fds @ map (\<lambda>j. (length (fd_table p) + 2 * j, length (fd_table p) + 2 * j + 1)) [0..<n], p', k') \<and>
    fd_table p' = fd_table p @ map Some (concat (map (\<lambda>j. pipe_ends (length (kf_pipes k) + j)) [0..<n]))"
  using assms
proof (induction n arbitrary: s p k fds)
  case 0
  then show ?case by simp
next
  case (Suc n)
  have l: "length (fd_table p) < 2 ^ 64 - 1" "length (fd_table p) + 1 < 2 ^ 64"
    using Suc.prems(6) by auto
  obtain p1 k1 where p1: "sys_pipe ptr p k = Some (0, p1, k1)" "fd_table p1 = fd_table p @ map Some (pipe_ends (length (kf_pipes k)))"
    "user_token p1 = user_token p" "length (kf_pipes k1) = length (kf_pipes k) + 1" "user_space base pt (s\<lparr>ram := kf_ram k1\<rparr>) M"
    "user_load (user_token p1) ptr 8 (kf_ram k1) = Some (le_bytes 8 (length (fd_table p)))"
    "user_load (user_token p1) (usize (ptr + 8)) 8 (kf_ram k1) = Some (le_bytes 8 (length (fd_table p) + 1))"
    using sys_pipe_full [OF Suc.prems(1-5) l(1) Suc.prems(7,8)] by blast
  have v: "le_nat (le_bytes 8 (length (fd_table p))) = length (fd_table p)" "le_nat (le_bytes 8 (length (fd_table p) + 1)) = length (fd_table p) + 1"
    using l by (simp_all add: le_nat_le_bytes)
  have len: "length (fd_table p1) = length (fd_table p) + 2"
    by (simp add: p1(2) pipe_ends_def)
  have full1: "None \<notin> set (fd_table p1)"
    using Suc.prems(5) by (auto simp: p1(2))
  have "[0..<Suc n] = 0 # map Suc [0..<n]"
    by (simp add: map_Suc_upt upt_conv_Cons del: upt_Suc)
  then have e: "map f [0..<Suc n] = f 0 # map (\<lambda>j. f (Suc j)) [0..<n]" for f :: "nat \<Rightarrow> 'z"
    by simp
  from Suc.IH [OF p1(5) Suc.prems(2-4) full1, of k1 "fds @ [(length (fd_table p), length (fd_table p) + 1)]"] obtain p' k' where
    "create_pipes n ptr (fds @ [(length (fd_table p), length (fd_table p) + 1)]) p1 k1 =
      Some ((fds @ [(length (fd_table p), length (fd_table p) + 1)]) @ map (\<lambda>j. (length (fd_table p1) + 2 * j, length (fd_table p1) + 2 * j + 1)) [0..<n], p', k')"
    "fd_table p' = fd_table p1 @ map Some (concat (map (\<lambda>j. pipe_ends (length (kf_pipes k1) + j)) [0..<n]))"
    using Suc.prems(6,7) len p1(3) by auto
  then show ?case
    using p1 v unfolding e by (simp add: len)
qed

lemma nth_pipe_ends:
  "i < n \<Longrightarrow> concat (map (\<lambda>j. pipe_ends (B + j)) [0..<n]) ! (2 * i) = FilePipe read_end_with_buffer (B + i) \<and>
    concat (map (\<lambda>j. pipe_ends (B + j)) [0..<n]) ! (2 * i + 1) = FilePipe write_end_with_buffer (B + i)"
  "length (concat (map (\<lambda>j. pipe_ends (B + j)) [0..<n])) = 2 * n"
proof -
  show l: "length (concat (map (\<lambda>j. pipe_ends (B + j)) [0..<n])) = 2 * n" for n
    by (induction n) simp_all
  show "concat (map (\<lambda>j. pipe_ends (B + j)) [0..<n]) ! (2 * i) = FilePipe read_end_with_buffer (B + i) \<and>
    concat (map (\<lambda>j. pipe_ends (B + j)) [0..<n]) ! (2 * i + 1) = FilePipe write_end_with_buffer (B + i)" if "i < n"
    using that
  proof (induction n)
    case (Suc n)
    then show ?case
      using l [of n] by (cases "i < n") (auto simp: nth_append pipe_ends_def less_Suc_eq)
  qed simp
qed

section \<open>Lemmas on command lines\<close>

definition word_ok :: "str \<Rightarrow> bool" where
  "word_ok w \<longleftrightarrow> w \<noteq> [] \<and> (\<forall>c \<in> set w. \<not> is_ascii_whitespace c)"

fun unwords :: "str list \<Rightarrow> str" where
  "unwords [] = []"
| "unwords [w] = w"
| "unwords (w # ws) = w @ 32 # unwords ws"

lemma split_on_word: "\<forall>c \<in> set w. \<not> p c \<Longrightarrow> split_on p w = [w]"
  by (induction w) auto

lemma split_on_sep: "\<forall>c \<in> set w. \<not> p c \<Longrightarrow> p c \<Longrightarrow> split_on p (w @ c # rest) = w # split_on p rest"
  by (induction w) auto

lemma split_unwords: "\<forall>w \<in> set ws. word_ok w \<Longrightarrow> split_ascii_whitespace (unwords ws) = ws"
proof (induction ws rule: unwords.induct)
  case (2 w)
  then show ?case
    by (simp add: split_ascii_whitespace_def split_on_word word_ok_def)
next
  case (3 w v ws)
  have "is_ascii_whitespace 32"
    by (simp add: is_ascii_whitespace_def)
  then have "split_on is_ascii_whitespace (w @ 32 # unwords (v # ws)) = w # split_on is_ascii_whitespace (unwords (v # ws))"
    using 3 by (intro split_on_sep) (auto simp: word_ok_def)
  then show ?case
    using 3 by (simp add: split_ascii_whitespace_def word_ok_def)
qed (simp add: split_ascii_whitespace_def)

lemma sign_words: "word_ok [60]" "word_ok [62]"
  by (simp_all add: word_ok_def is_ascii_whitespace_def)

lemma take_redirection_none: "[sign] \<notin> set ws \<Longrightarrow> take_redirection sign (map with_nul ws) = Some ([], map with_nul ws)"
proof -
  assume "[sign] \<notin> set ws"
  then have "find_index (\<lambda>a. a = [sign, 0]) (map with_nul ws) = None"
    by (auto simp: find_index_None with_nul_def)
  then show ?thesis
    by (simp add: take_redirection_def)
qed

lemma take_redirection_some:
  assumes "[sign] \<notin> set ws"
  shows "take_redirection sign (map with_nul ws @ [sign, 0] # f # rest) = Some (f, map with_nul ws @ rest)"
proof -
  let ?xs = "map with_nul ws @ [sign, 0] # f # rest"
  obtain i where i: "find_index (\<lambda>a. a = [sign, 0]) ?xs = Some i"
    using find_index_None [of "\<lambda>a. a = [sign, 0]" ?xs] by fastforce
  have "\<not> i < length ws"
  proof
    assume l: "i < length ws"
    then have "with_nul (ws ! i) = [sign, 0]"
      using find_index_Some(2) [OF i] by (simp add: nth_append)
    then show False
      using l assms nth_mem [OF l] by (simp add: with_nul_def)
  qed
  moreover have "\<not> length ws < i"
    using find_index_Some(3) [OF i, of "length ws"] by (auto simp: nth_append)
  ultimately have "i = length ws"
    by simp
  then show ?thesis
    using i by (simp add: take_redirection_def nth_append index_get_def)
qed

lemma read_line_plain:
  assumes "\<forall>c \<in> set cs. c \<notin> {HT, LF, CR, BS, DL}"
  shows "read_line can line (cs @ rest) = read_line can (line @ map unat cs) rest"
  using assms by (induction cs arbitrary: line) (simp_all add: read_line.simps)

lemma complete_tabs: "c \<noteq> HT \<Longrightarrow> complete hints j par (replicate n HT @ c # cs) = (drop (length par) (hints ! ((j + n) mod length hints)), c # cs)"
  by (induction n arbitrary: j) simp_all

lemma tab_not_end: "LF \<noteq> HT"
  by (simp add: LF_def HT_def)

lemma split_ws_last:
  assumes "word_ok w"
  shows "split_ascii_whitespace w = [w]"
  using split_unwords [of "[w]"] assms by simp

section \<open>Properties\<close>

text \<open>
  C37. The file descriptors of a pipeline. A shell with three open descriptors creates the pipes for \<open>n\<close> programs without redirections; the array it
  uses lies in one page of its memory. Then the child for program \<open>i\<close>, which inherits the descriptors, calls \<open>exec\<close> with the arguments of the
  program, with the read end of the pipe from program \<open>i - 1\<close> as descriptor 0 (the first program keeps the shell's), the write end of
  the pipe to program \<open>i + 1\<close> as descriptor 1 (the last program keeps the shell's), the shell's descriptor 2, and no other descriptor: no
  end of another pipe stays open. The shell itself is left with its three descriptors.
\<close>

theorem pipeline_plumbing:
  assumes us: "user_space base pt s M" and ptr: "ptr < 2 ^ 39 - 16" "M (ptr div 4096) \<noteq> None" "ptr mod 4096 + 16 \<le> 4096"
    and p: "fd_table p = [Some a, Some b, Some c]" "user_token p = PageTable_token pt" and k: "kf_ram k = ram s"
    and procs: "length procs = n" "0 < n" "n < 2 ^ 62" "\<forall>x \<in> set procs. pa_input x = [] \<and> pa_output x = [] \<and> pa_args x \<noteq> []"
  shows "\<exists>fds p1 k1. create_pipes (n - 1) ptr [] p k = Some (fds, p1, k1) \<and>
    (\<forall>i < n. \<exists>p2. shell_child addr i n fds (procs ! i) p1 k1 = Some (ChildExecs (pa_args (procs ! i)) p2 k1) \<and>
      fd_get 0 p2 = Some (if i = 0 then a else FilePipe read_end_with_buffer (length (kf_pipes k) + (i - 1))) \<and>
      fd_get 1 p2 = Some (if i = n - 1 then b else FilePipe write_end_with_buffer (length (kf_pipes k) + i)) \<and>
      fd_get 2 p2 = Some c \<and> (\<forall>x > 2. fd_get x p2 = None)) \<and>
    (\<forall>x. fd_get x (close_pipes fds p1) = fd_get x p)"
proof -
  let ?fds = "map (\<lambda>j. (3 + 2 * j, 3 + 2 * j + 1)) [0..<n - 1]"
  let ?E = "concat (map (\<lambda>j. pipe_ends (length (kf_pipes k) + j)) [0..<n - 1])"
  have full: "None \<notin> set (fd_table p)" "length (fd_table p) + 2 * (n - 1) < 2 ^ 64 - 1" "length (fd_table p) = 3"
    using p(1) procs(3) by auto
  from create_pipes_spec [OF us ptr full(1,2) p(2) k, of "[]"] obtain p1 k1 where
    c: "create_pipes (n - 1) ptr [] p k = Some (?fds, p1, k1)" "fd_table p1 = fd_table p @ map Some ?E"
    by (auto simp: full(3))
  have E: "length ?E = 2 * (n - 1)"
    by (rule nth_pipe_ends(2))
  have get: "fd_get x p1 = (if x < 3 then fd_get x p else if x - 3 < 2 * (n - 1) then Some (?E ! (x - 3)) else None)" for x
    using E full(3) by (auto simp: fd_get_def c(2) nth_append)
  have fdset: "x \<in> fst ` set ?fds \<union> snd ` set ?fds \<longleftrightarrow> 3 \<le> x \<and> x - 3 < 2 * (n - 1)" for x
  proof -
    have "3 \<le> x \<and> x - 3 < 2 * (n - 1) \<longleftrightarrow> (\<exists>j < n - 1. x = 3 + 2 * j \<or> x = 3 + 2 * j + 1)"
      by presburger
    moreover have "x \<in> fst ` set ?fds \<union> snd ` set ?fds \<longleftrightarrow> (\<exists>j < n - 1. x = 3 + 2 * j \<or> x = 3 + 2 * j + 1)"
      unfolding set_map image_image by (auto simp: image_iff)
    ultimately show ?thesis
      by blast
  qed
  have ends: "\<forall>j < n - 1. 2 < fst (?fds ! j) \<and> 2 < snd (?fds ! j) \<and>
      fd_get (fst (?fds ! j)) p1 = Some (FilePipe read_end_with_buffer (length (kf_pipes k) + j)) \<and>
      fd_get (snd (?fds ! j)) p1 = Some (FilePipe write_end_with_buffer (length (kf_pipes k) + j))"
    using nth_pipe_ends(1) [of _ "n - 1" "length (kf_pipes k)"] by (auto simp: get)
  have std: "fd_get 0 p1 = Some a" "fd_get 1 p1 = Some b" "fd_get 2 p1 = Some c"
    using p(1) by (simp_all add: get fd_get_def [of _ p])
  have len: "length ?fds = n - 1"
    by simp
  have child: "\<exists>p2. shell_child addr i n ?fds (procs ! i) p1 k1 = Some (ChildExecs (pa_args (procs ! i)) p2 k1) \<and>
      fd_get 0 p2 = Some (if i = 0 then a else FilePipe read_end_with_buffer (length (kf_pipes k) + (i - 1))) \<and>
      fd_get 1 p2 = Some (if i = n - 1 then b else FilePipe write_end_with_buffer (length (kf_pipes k) + i)) \<and>
      fd_get 2 p2 = Some c \<and> (\<forall>x > 2. fd_get x p2 = None)" if i: "i < n" for i
  proof -
    obtain p2 where p2: "plumb i n ?fds p1 = Some p2"
      "fd_get 0 p2 = Some (if i = 0 then a else FilePipe read_end_with_buffer (length (kf_pipes k) + (i - 1)))"
      "fd_get 1 p2 = Some (if i = n - 1 then b else FilePipe write_end_with_buffer (length (kf_pipes k) + i))"
      "\<And>x. 1 < x \<Longrightarrow> fd_get x p2 = (if x \<in> fst ` set ?fds \<union> snd ` set ?fds then None else fd_get x p1)"
      by (rule plumb_spec [OF i len std(1,2) ends]) blast
    have "pa_input (procs ! i) = []" "pa_output (procs ! i) = []" "pa_args (procs ! i) \<noteq> []"
      using procs i by auto
    then have "shell_child addr i n ?fds (procs ! i) p1 k1 = Some (ChildExecs (pa_args (procs ! i)) p2 k1)"
      using p2(1) by (simp add: shell_child_def redirect_def)
    moreover have "fd_get 2 p2 = Some c" "fd_get x p2 = None" if "2 < x" for x
      using that p2(4) [of 2] p2(4) [of x] std(3) unfolding fdset by (simp_all add: get)
    ultimately show ?thesis
      using p2(2,3) by blast
  qed
  have "fd_get x (close_pipes ?fds p1) = fd_get x p" for x
    unfolding fd_get_close_pipes fdset using full(3) by (simp add: get fd_get_def [of x p])
  then show ?thesis
    using c(1) child by blast
qed

text \<open>
  C38. Command lines are read back: the line made of the words of a command, a redirection of its input and one of its output, separated by blanks, is
  parsed to exactly these words and these two files, each ended by a zero character for the kernel; without a redirection the
  file is empty. The words must not contain white space and must not be one of the signs themselves.
\<close>

theorem command_line_round_trip:
  assumes ws: "\<forall>w \<in> set ws. word_ok w \<and> w \<noteq> [60] \<and> w \<noteq> [62]"
    and inp: "case inp of Some f \<Rightarrow> word_ok f \<and> f \<noteq> [62] | None \<Rightarrow> True" and out: "case out of Some f \<Rightarrow> word_ok f \<and> f \<noteq> [60] | None \<Rightarrow> True"
  shows "ProcessArguments_new (unwords (ws @ (case inp of Some f \<Rightarrow> [[60], f] | None \<Rightarrow> []) @ (case out of Some f \<Rightarrow> [[62], f] | None \<Rightarrow> []))) =
    Some \<lparr>pa_input = (case inp of Some f \<Rightarrow> with_nul f | None \<Rightarrow> []), pa_output = (case out of Some f \<Rightarrow> with_nul f | None \<Rightarrow> []), pa_args = map with_nul ws\<rparr>"
proof -
  let ?o = "case out of Some f \<Rightarrow> [[62], f] | None \<Rightarrow> []"
  let ?all = "ws @ (case inp of Some f \<Rightarrow> [[60], f] | None \<Rightarrow> []) @ ?o"
  have sp: "split_ascii_whitespace (unwords ?all) = ?all"
    by (intro split_unwords) (use assms in \<open>cases inp; cases out; auto simp: sign_words\<close>)
  have n60: "[60] \<notin> set ws" "[60] \<notin> set (ws @ ?o)" and n62: "[62] \<notin> set ws"
    using ws out by (auto split: option.splits)
  have i: "take_redirection 60 (map with_nul ?all) = Some (case inp of Some f \<Rightarrow> with_nul f | None \<Rightarrow> [], map with_nul (ws @ ?o))"
    using take_redirection_none [OF n60(2)] take_redirection_some [OF n60(1), of _ "map with_nul ?o"]
    by (cases inp) (simp_all add: with_nul_def)
  have o: "take_redirection 62 (map with_nul (ws @ ?o)) = Some (case out of Some f \<Rightarrow> with_nul f | None \<Rightarrow> [], map with_nul ws)"
    using take_redirection_none [OF n62] take_redirection_some [OF n62, of _ "[]"]
    by (cases out) (simp_all add: with_nul_def)
  show ?thesis
    using i o by (simp add: ProcessArguments_new_def sp)
qed

theorem command_line_round_trip_witness:
  "ProcessArguments_new [99, 97, 116, 32, 60, 32, 97] = Some \<lparr>pa_input = [97, 0], pa_output = [], pa_args = [[99, 97, 116, 0]]\<rparr>"
  using command_line_round_trip [of "[[99, 97, 116]]" "Some [97]" None] by (simp add: word_ok_def is_ascii_whitespace_def with_nul_def)

text \<open>
  A redirection without a file makes the shell panic: a command that ends with the sign \<open><\<close> has no result, whatever the words before it,
  because the parser takes the element behind the sign without a check.
\<close>

theorem dangling_redirection_panics:
  assumes "\<forall>w \<in> set ws. word_ok w \<and> w \<noteq> [60]"
  shows "ProcessArguments_new (unwords (ws @ [[60]])) = None"
proof -
  have "split_ascii_whitespace (unwords (ws @ [[60]])) = ws @ [[60]]"
    using assms sign_words by (intro split_unwords) auto
  moreover have "find_index (\<lambda>a. a = [60, 0]) (map with_nul (ws @ [[60]])) = Some (length ws)"
  proof (rule find_index_unique)
    fix j assume "j < length (map with_nul (ws @ [[60]]))" "map with_nul (ws @ [[60]]) ! j = [60, 0]"
    then show "j = length ws"
      using assms nth_mem [of j ws] by (cases "j < length ws") (auto simp: with_nul_def nth_append)
  qed (simp_all add: with_nul_def nth_append)
  ultimately show ?thesis
    by (simp add: ProcessArguments_new_def take_redirection_def index_get_def)
qed

theorem dangling_redirection_panics_witness: "ProcessArguments_new [99, 97, 116, 32, 60] = None"
  using dangling_redirection_panics [of "[[99, 97, 116]]"] by (simp add: word_ok_def is_ascii_whitespace_def)

text \<open>
  Completion cycles through the candidates: after a word is typed, pressing the tabulator \<open>n + 1\<close> times and then the end of the line
  gives the line with the \<open>n\<close>-th candidate that begins with the word, counted modulo their number; without a candidate the line
  is the word itself.
\<close>

theorem completion_cycles:
  assumes w: "word_ok (map unat cs)" "\<forall>c \<in> set cs. c \<notin> {HT, LF, CR, BS, DL}"
  shows "read_line can [] (cs @ replicate (Suc n) HT @ LF # rest) =
    Some (case hint_for (map unat cs) can of [] \<Rightarrow> map unat cs | h # hs \<Rightarrow> (h # hs) ! (n mod length (h # hs)), rest)"
proof -
  let ?w = "map unat cs" and ?hints = "hint_for (map unat cs) can"
  have end_line: "read_line can line (LF # rest) = Some (line, rest)" for line
    by (simp add: read_line.simps LF_def HT_def)
  have "read_line can [] (cs @ replicate (Suc n) HT @ LF # rest) = read_line can ?w (HT # replicate n HT @ LF # rest)"
    using read_line_plain [OF w(2)] by simp
  also have "\<dots> = Some (case ?hints of [] \<Rightarrow> ?w | h # hs \<Rightarrow> (h # hs) ! (n mod length (h # hs)), rest)"
  proof (cases ?hints)
    case Nil
    have "read_line can ?w (replicate m HT @ LF # rest) = Some (?w, rest)" for m
      using Nil split_ws_last [OF w(1)] end_line by (induction m) (simp_all add: read_line.simps(2) [of _ _ HT])
    from this [of "Suc n"] show ?thesis
      using Nil by simp
  next
    case (Cons h hs)
    let ?h = "?hints ! (n mod length ?hints)"
    have "?h \<in> set ?hints"
      using Cons by (intro nth_mem) simp
    then have "take (length ?w) ?h = ?w"
      by (simp add: hint_for_def)
    then have "?w @ drop (length ?w) ?h = ?h"
      by (metis append_take_drop_id)
    then show ?thesis
      using Cons split_ws_last [OF w(1)] complete_tabs [of LF ?hints 0 ?w n rest] end_line
      by (simp add: read_line.simps(2) [of _ _ HT] Let_def tab_not_end)
  qed
  finally show ?thesis .
qed

theorem completion_cycles_witness:
  "read_line [[99, 97, 116], [99, 100], [108, 115]] [] [99, 9, 9, 10] = Some ([99, 100], [])"
  using completion_cycles [of "[99]" "[[99, 97, 116], [99, 100], [108, 115]]" 1 "[]"]
  by (simp add: word_ok_def is_ascii_whitespace_def hint_for_def HT_def LF_def CR_def BS_def DL_def)


theorem pipeline_plumbing_witness:
  "\<exists>(k :: kfiles) p fds p1 k1 p2. fd_table p = [Some Stdin, Some Stdout, Some Stdout] \<and> create_pipes 1 4096 [] p k = Some (fds, p1, k1) \<and>
    shell_child (\<lambda>_. 0) 0 2 fds \<lparr>pa_input = [], pa_output = [], pa_args = [[108, 115, 0]]\<rparr> p1 k1 = Some (ChildExecs [[108, 115, 0]] p2 k1) \<and>
    fd_get 0 p2 = Some Stdin \<and> fd_get 1 p2 = Some (FilePipe write_end_with_buffer (length (kf_pipes k)))"
proof -
  obtain pt s b where us: "user_space 16 pt s [1 \<mapsto> b]"
    by (rule sample_user_space)
  let ?k = "(kfiles_of (sample_user 0 SignalProcessor_new))\<lparr>kf_ram := ram s\<rparr>"
  let ?p = "(pfiles_of (sample_process None [] False))\<lparr>fd_table := [Some Stdin, Some Stdout, Some Stdout], user_token := PageTable_token pt\<rparr>"
  let ?a = "\<lparr>pa_input = [], pa_output = [], pa_args = [[108, 115, 0]]\<rparr> :: ProcessArguments"
  from pipeline_plumbing [OF us, of 4096 ?p Stdin Stdout Stdout ?k "[?a, ?a]" 2 "\<lambda>_. 0"] obtain fds p1 k1 where
    c: "create_pipes 1 4096 [] ?p ?k = Some (fds, p1, k1)" and ch: "\<forall>i < 2. \<exists>p2. shell_child (\<lambda>_. 0) i 2 fds ([?a, ?a] ! i) p1 k1 =
        Some (ChildExecs (pa_args ([?a, ?a] ! i)) p2 k1) \<and>
      fd_get 0 p2 = Some (if i = 0 then Stdin else FilePipe read_end_with_buffer (length (kf_pipes ?k) + (i - 1))) \<and>
      fd_get 1 p2 = Some (if i = 2 - 1 then Stdout else FilePipe write_end_with_buffer (length (kf_pipes ?k) + i)) \<and>
      fd_get 2 p2 = Some Stdout \<and> (\<forall>x > 2. fd_get x p2 = None)"
    by auto
  from ch [rule_format, of 0] obtain p2 where "shell_child (\<lambda>_. 0) 0 2 fds ?a p1 k1 = Some (ChildExecs [[108, 115, 0]] p2 k1)"
    "fd_get 0 p2 = Some Stdin" "fd_get 1 p2 = Some (FilePipe write_end_with_buffer (length (kf_pipes ?k)))"
    by auto
  then show ?thesis
    using c by (intro exI [of _ ?k] exI [of _ ?p] exI [of _ fds] exI [of _ p1] exI [of _ k1] exI [of _ p2]) simp
qed

end
