(* ===== verification/Pack.thy ===== *)
theory Pack
  imports OpenFile Slots
begin

text \<open>
  The tool that builds the file-system image (\<^verbatim>\<open>easy-fs-fuse/src/main.rs\<close>): a host file as a block device, and the copying of the built
  programs into a fresh file system. The host's directories are arguments: the names in the source directory, and the contents of
  the files in the target directory. That the host's file operations fail is left out.
\<close>

section \<open>A file as a block device\<close>

definition BlockFile_read_block :: "nat \<Rightarrow> bytes \<Rightarrow> bytes option" where
  \<comment> \<open>a short read fails the assertion\<close>
  "BlockFile_read_block bid file = (let r = slice (bid * BLOCK_SZ) BLOCK_SZ file in do { ensure (length r = BLOCK_SZ); Some r })"

definition BlockFile_write_block :: "nat \<Rightarrow> bytes \<Rightarrow> bytes \<Rightarrow> bytes option" where
  \<comment> \<open>writing behind the end fills the gap with zeros\<close>
  "BlockFile_write_block bid buf file = do {
     ensure (length buf = BLOCK_SZ);
     let file = file @ replicate (bid * BLOCK_SZ + length buf - length file) 0;
     Some (splice (bid * BLOCK_SZ) buf file) }"

definition file_disk :: "bytes \<Rightarrow> disk" where
  "file_disk file = (\<lambda>b. BlockFile_read_block b file)"

section \<open>Packing\<close>

definition rfind_dot :: "bytes \<Rightarrow> nat option" where
  "rfind_dot fname = (case find_index (\<lambda>c. c = 46) (rev fname) of Some i \<Rightarrow> Some (length fname - 1 - i) | None \<Rightarrow> None)"

definition app_name :: "bytes \<Rightarrow> bytes" where
  \<comment> \<open>the file name without its extension\<close>
  "app_name fname = (case rfind_dot fname of Some i \<Rightarrow> take i fname | None \<Rightarrow> fname)"

fun pack_apps :: "EasyFileSystem \<Rightarrow> (bytes \<rightharpoonup> bytes) \<Rightarrow> bytes list \<Rightarrow> disk \<Rightarrow> disk option" where
  \<comment> \<open>\<open>for app in apps\<close>: programs that were not built are skipped\<close>
  "pack_apps efs target [] d = Some d"
| "pack_apps efs target (app # apps) d = (case target app of
       None \<Rightarrow> pack_apps efs target apps d
     | Some all_data \<Rightarrow> do {
         (r, d) \<leftarrow> Inode_create efs (root_inode efs) app d;
         ino \<leftarrow> r;
         (_, d) \<leftarrow> Inode_write_at efs ino 0 all_data d;
         pack_apps efs target apps d })"

definition easy_fs_pack :: "bytes list \<Rightarrow> (bytes \<rightharpoonup> bytes) \<Rightarrow> disk \<Rightarrow> (EasyFileSystem \<times> disk) option" where
  "easy_fs_pack source target d = do {
     (efs, d) \<leftarrow> create (32 * 2048) 1 d;
     d \<leftarrow> pack_apps efs target (map app_name source) d;
     Some (efs, d) }"

section \<open>The block device\<close>

lemma read_write_block:
  assumes "length buf = BLOCK_SZ" and "length file = n * BLOCK_SZ" and "b < n"
  shows "\<exists>file'. BlockFile_write_block b buf file = Some file' \<and> length file' = length file \<and>
    file_disk file' = (file_disk file)(b \<mapsto> buf)"
proof -
  have le: "b * BLOCK_SZ + BLOCK_SZ \<le> length file"
    using assms(2,3) mult_le_mono1 [of "Suc b" n BLOCK_SZ] by simp
  let ?file = "splice (b * BLOCK_SZ) buf file"
  have "BlockFile_read_block x ?file = (if x = b then Some buf else BlockFile_read_block x file)" for x
  proof (cases "x = b")
    case True
    then show ?thesis
      using assms(1) le by (simp add: BlockFile_read_block_def slice_splice_same Let_def)
  next
    case False
    show ?thesis
    proof (cases "x * BLOCK_SZ + BLOCK_SZ \<le> length file")
      case True
      have "x * BLOCK_SZ + BLOCK_SZ \<le> b * BLOCK_SZ \<or> b * BLOCK_SZ + BLOCK_SZ \<le> x * BLOCK_SZ"
        using False mult_le_mono1 [of "Suc x" b BLOCK_SZ] mult_le_mono1 [of "Suc b" x BLOCK_SZ] by (cases "x < b") auto
      then have "slice (x * BLOCK_SZ) BLOCK_SZ ?file = slice (x * BLOCK_SZ) BLOCK_SZ file"
        using True le assms(1) by (intro slice_splice_other) auto
      then show ?thesis
        using False by (simp add: BlockFile_read_block_def)
    next
      case short: False
      then have "length (slice (x * BLOCK_SZ) BLOCK_SZ ?file) \<noteq> BLOCK_SZ" "length (slice (x * BLOCK_SZ) BLOCK_SZ file) \<noteq> BLOCK_SZ"
        using le assms(1) by (auto simp: slice_def BLOCK_SZ_def)
      then show ?thesis
        using False unfolding BlockFile_read_block_def Let_def by (simp only: ensure_bind if_False)
    qed
  qed
  then show ?thesis
    using assms(1) le by (auto simp: BlockFile_write_block_def file_disk_def Let_def)
qed

lemma file_disk_device:
  assumes "length file = n * BLOCK_SZ"
  shows "wf_disk (file_disk file)" and "{..<n} \<subseteq> dom (file_disk file)"
proof -
  show "wf_disk (file_disk file)"
    by (rule wf_diskI) (auto simp: file_disk_def BlockFile_read_block_def Let_def split: bind_splits if_splits)
  have "length (slice (b * BLOCK_SZ) BLOCK_SZ file) = BLOCK_SZ" if "b < n" for b
    using assms that mult_le_mono1 [of "Suc b" n BLOCK_SZ] by (simp add: slice_def)
  then show "{..<n} \<subseteq> dom (file_disk file)"
    by (auto simp: file_disk_def BlockFile_read_block_def Let_def)
qed


section \<open>Programs in the image\<close>

definition blocks_for :: "nat \<Rightarrow> nat" where
  \<comment> \<open>the blocks of a file of this size, index blocks included\<close>
  "blocks_for sz = tree_total (data_blocks_of_size sz)"

definition packed :: "EasyFileSystem \<Rightarrow> nat \<Rightarrow> (bytes \<times> bytes) list \<Rightarrow> DiskInode \<Rightarrow> disk \<Rightarrow> bool" where
  \<comment> \<open>the root directory, with inode \<open>dp\<close>, holds exactly these files\<close>
  "packed efs nd files dp d \<longleftrightarrow> fs_inv efs nd d \<and> 0 \<in> used_inodes efs d \<and> inode_at efs d 0 = Some dp \<and> is_dir dp \<and>
     card (used_inodes efs d) = Suc (length files) \<and> distinct (map fst files) \<and> dom (dir_map dp d) = {dot, dotdot} \<union> fst ` set files \<and>
     (\<forall>(nm, data) \<in> set files. nm \<notin> {dot, dotdot} \<and> (\<exists>i di. dir_map dp d nm = Some i \<and> i \<in> used_inodes efs d - {0} \<and>
        inode_at efs d i = Some di \<and> is_file di \<and> content di d = data)) \<and>
     nd \<le> free_blocks efs nd d + (\<Sum>(nm, data) \<leftarrow> files. blocks_for (length data)) + blocks_for (di_size dp)"

lemma blocks_for_mono: "a \<le> b \<Longrightarrow> b \<le> MAX_BLOCKS * BLOCK_SZ \<Longrightarrow> blocks_for a \<le> blocks_for b"
  unfolding blocks_for_def by (intro tree_total_mono data_blocks_mono)

lemma need_blocks_for: "need_blocks di sz = blocks_for sz - blocks_for (di_size di)"
  by (simp add: need_blocks_def blocks_for_def data_blocks_def)

lemma dir_size_card:
  assumes "fs_inv efs nd d" and "i \<in> used_inodes efs d" and "inode_at efs d i = Some di" and "is_dir di"
  shows "di_size di = DIRENT_SZ * card (dom (dir_map di d))"
proof -
  have ok: "dir_ok (used_inodes efs d) di d"
    using fs_invD(6) [OF assms(1-3)] assms(4) by (simp add: inode_good_def)
  have "distinct (map fst (dir_list di d))"
    using ok by (simp add: dir_ok_def dir_list_def comp_def)
  then have "card (dom (dir_map di d)) = length (dir_list di d)"
    by (simp add: dir_map_def dom_map_of_conv_image_fst) (metis distinct_card length_map set_map)
  moreover have "di_size di = DIRENT_SZ * file_count di"
    using ok by (auto simp: dir_ok_def file_count_def)
  ultimately show ?thesis
    by (simp add: dir_list_def)
qed

lemma packed_dir_size:
  assumes "packed efs nd files dp d"
  shows "di_size dp = DIRENT_SZ * (2 + length files)"
proof -
  have "di_size dp = DIRENT_SZ * card ({dot, dotdot} \<union> fst ` set files)"
    using assms dir_size_card [of efs nd d 0 dp] by (simp add: packed_def)
  moreover have "card ({dot, dotdot} \<union> fst ` set files) = card {dot, dotdot} + card (fst ` set files)"
    using assms by (intro card_Un_disjoint) (auto simp: packed_def)
  moreover have "card {dot, dotdot} = 2" "card (fst ` set files) = length files"
    using assms by (simp_all add: packed_def dot_def dotdot_def) (metis distinct_card length_map set_map)
  ultimately show ?thesis
    by simp
qed

lemma pack_one:
  assumes pk: "packed efs nd files dp d" and nm: "name_ok nm" "nm \<notin> {dot, dotdot} \<union> fst ` set files"
    and data: "data \<noteq> []" "length data \<le> MAX_BLOCKS * BLOCK_SZ" and n: "length files < 4095" "maxmium (inode_bitmap efs) = 4096"
    and room: "(\<Sum>(nm, data) \<leftarrow> files. blocks_for (length data)) + blocks_for (length data) + blocks_for (DIRENT_SZ * (3 + length files)) \<le> nd"
  shows "\<exists>i d1 d2 dp'. Inode_create efs (root_inode efs) nm d = Some (Some (inode_handle efs i), d1) \<and>
    Inode_write_at efs (inode_handle efs i) 0 data d1 = Some (length data, d2) \<and> packed efs nd (files @ [(nm, data)]) dp' d2"
proof -
  note P = pk [unfolded packed_def]
  have inv: "fs_inv efs nd d" and u0: "0 \<in> used_inodes efs d" and dp: "inode_at efs d 0 = Some dp" "is_dir dp"
    and cu: "card (used_inodes efs d) = Suc (length files)" and dom: "dom (dir_map dp d) = {dot, dotdot} \<union> fst ` set files"
    and fr: "nd \<le> free_blocks efs nd d + (\<Sum>(nm, data) \<leftarrow> files. blocks_for (length data)) + blocks_for (di_size dp)"
    using P by simp_all
  have sz: "di_size dp = DIRENT_SZ * (2 + length files)"
    by (rule packed_dir_size [OF pk])
  have grow: "di_size dp + DIRENT_SZ = DIRENT_SZ * (3 + length files)" "DIRENT_SZ * (3 + length files) \<le> MAX_BLOCKS * BLOCK_SZ"
    using n(1) by (simp_all add: sz algebra_simps) (simp add: MAX_BLOCKS_def layout_consts)
  have fits: "di_size dp + DIRENT_SZ \<le> MAX_BLOCKS * BLOCK_SZ"
    using grow by simp
  have mono: "blocks_for (di_size dp) \<le> blocks_for (di_size dp + DIRENT_SZ)"
    using grow by (intro blocks_for_mono) auto
  have none: "dir_map dp d nm = None"
    using nm(2) dom by (metis domIff)
  have inodes: "used_inodes efs d \<noteq> {..<maxmium (inode_bitmap efs)}"
  proof
    assume "used_inodes efs d = {..<maxmium (inode_bitmap efs)}"
    then have "Suc (length files) = maxmium (inode_bitmap efs)"
      using cu card_lessThan [of "maxmium (inode_bitmap efs)"] by simp
    then show False
      using n by simp
  qed
  have room1: "need_blocks dp (di_size dp + DIRENT_SZ) + (if File = Directory then 1 else 0) \<le> free_blocks efs nd d"
    using fr room grow(1) by (simp add: need_blocks_for)
  obtain i d1 dp1 di where c: "create_inode efs (inode_handle efs 0) nm File d = Some (Some (inode_handle efs i), d1)"
    "i \<notin> used_inodes efs d" "used_inodes efs d1 = insert i (used_inodes efs d)" "fs_inv efs nd d1"
    "inode_at efs d1 0 = Some dp1" "dir_map dp1 d1 = (dir_map dp d)(nm \<mapsto> i)" "inode_at efs d1 i = Some di" "di_type di = File"
    "if File = Directory then dir_list di d1 = [(dot, i), (dotdot, 0)] else content di d1 = []" "others_kept efs {0} d d1" "is_dir dp1"
    "File = File \<longrightarrow> free_blocks efs nd d1 = free_blocks efs nd d - need_blocks dp (di_size dp + DIRENT_SZ)"
    using create_effect [OF inv u0 dp nm(1) none fits inodes room1] by blast
  note c = c(1-8) c(9) [simplified] c(10,11) c(12) [simplified]
  have i1: "i \<in> used_inodes efs d1" and u1: "0 \<in> used_inodes efs d1"
    using c(2,3) u0 by auto
  have i0: "i \<noteq> 0"
    using c(2) u0 by metis
  have d0: "di_size di = 0" "is_file di"
    using content_length [OF c(4) i1 c(7)] c(8,9) by (simp_all add: is_file_def)
  have fr1: "nd \<le> free_blocks efs nd d1 + (\<Sum>(nm, data) \<leftarrow> files. blocks_for (length data)) + blocks_for (di_size dp + DIRENT_SZ)"
    using fr c(12) mono room1 by (simp add: need_blocks_for)
  have room2: "need_blocks di (0 + length data) \<le> free_blocks efs nd d1"
    using fr1 room grow(1) by (simp add: need_blocks_for)
  obtain d2 di2 where w: "Inode_write_at efs (inode_handle efs i) 0 data d1 = Some (length data, d2)" "fs_inv efs nd d2"
    "inode_at efs d2 i = Some di2" "is_file di2" "content di2 d2 = splice 0 data (content di d1 @ replicate (0 + length data - di_size di) 0)"
    "used_inodes efs d2 = used_inodes efs d1" "others_kept efs {i} d1 d2"
    "free_blocks efs nd d2 = free_blocks efs nd d1 - need_blocks di (0 + length data)"
    using write_at_effect [OF c(4) i1 c(7) d0(2) data(1) _ room2] data(2) by (auto simp del: add_0)
  have data2: "content di2 d2 = data"
    by (simp add: w(5) c(9) d0(1) splice_def)
  have dp2: "inode_at efs d2 0 = Some dp1" "dir_map dp1 d2 = (dir_map dp d)(nm \<mapsto> i)"
    using others_keptD [OF w(7) u1 _ c(5)] i0 dir_map_cong [of dp1 d2 d1] c(6) by auto
  have old: "\<exists>j dj. dir_map dp1 d2 x = Some j \<and> j \<in> used_inodes efs d2 - {0} \<and> inode_at efs d2 j = Some dj \<and> is_file dj \<and> content dj d2 = y"
    if xy: "(x, y) \<in> set files" for x y
  proof -
    from P xy obtain j dj where j: "dir_map dp d x = Some j" "j \<in> used_inodes efs d" "j \<noteq> 0" "inode_at efs d j = Some dj" "is_file dj" "content dj d = y"
      by fast
    have "x \<noteq> nm"
      using xy nm(2) by force
    moreover have j1: "inode_at efs d1 j = Some dj" "content dj d1 = y"
      using others_keptD [OF c(10) j(2) _ j(4)] j(3,6) by auto
    moreover have "j \<in> used_inodes efs d1" "j \<notin> {i}"
      using j(2) c(2,3) by auto
    ultimately show ?thesis
      using others_keptD [OF w(7) _ _ j1(1)] j dp2(2) w(6) by auto
  qed
  have "packed efs nd (files @ [(nm, data)]) dp1 d2"
    unfolding packed_def
  proof (intro conjI)
    show "card (used_inodes efs d2) = Suc (length (files @ [(nm, data)]))"
      using w(6) c(2,3) cu by (simp add: card_insert_if card_ge_0_finite)
    show "dom (dir_map dp1 d2) = {dot, dotdot} \<union> fst ` set (files @ [(nm, data)])"
      using dom by (auto simp: dp2(2))
    show "\<forall>(x, y) \<in> set (files @ [(nm, data)]). x \<notin> {dot, dotdot} \<and> (\<exists>j dj. dir_map dp1 d2 x = Some j \<and> j \<in> used_inodes efs d2 - {0} \<and>
        inode_at efs d2 j = Some dj \<and> is_file dj \<and> content dj d2 = y)"
      using old P nm(2) w(3,4,6) data2 i0 i1 dp2(2) by fastforce
    have "di_size dp1 = di_size dp + DIRENT_SZ"
    proof -
      have "card (dom (dir_map dp1 d1)) = Suc (card (dom (dir_map dp d)))"
        using none finite_dom_map_of [of "dir_list dp d"] by (simp add: c(6) card_insert_if dir_map_def [of dp d] domIff)
      then show ?thesis
        using dir_size_card [OF c(4) u1 c(5,11)] dir_size_card [OF inv u0 dp] by simp
    qed
    then show "nd \<le> free_blocks efs nd d2 + (\<Sum>(nm, data) \<leftarrow> files @ [(nm, data)]. blocks_for (length data)) + blocks_for (di_size dp1)"
      using fr1 w(8) room2 by (simp add: need_blocks_for d0(1))
  qed (use w c dp2 P nm(2) u1 in auto)
  then show ?thesis
    using c(1) w(1) by (intro exI [of _ i] exI [of _ d1] exI [of _ d2] exI [of _ dp1]) (simp add: Inode_create_def root_inode_def)
qed

definition built :: "(bytes \<rightharpoonup> bytes) \<Rightarrow> bytes list \<Rightarrow> (bytes \<times> bytes) list" where
  "built target apps = map (\<lambda>a. (a, the (target a))) (filter (\<lambda>a. target a \<noteq> None) apps)"

lemma built_Cons [simp]: "built target [] = []"
  "built target (a # as) = (case target a of None \<Rightarrow> built target as | Some x \<Rightarrow> (a, x) # built target as)"
  by (auto simp: built_def split: option.split)

lemma pack_apps_spec:
  assumes "packed efs nd files dp d" and "distinct (map fst (files @ built target apps))"
    and "\<forall>(nm, data) \<in> set (built target apps). name_ok nm \<and> nm \<notin> {dot, dotdot} \<and> data \<noteq> [] \<and> length data \<le> MAX_BLOCKS * BLOCK_SZ"
    and "length (files @ built target apps) \<le> 4095" and "maxmium (inode_bitmap efs) = 4096"
    and "(\<Sum>(nm, data) \<leftarrow> files @ built target apps. blocks_for (length data)) + blocks_for (DIRENT_SZ * (2 + length (files @ built target apps))) \<le> nd"
  shows "\<exists>d' dp'. pack_apps efs target apps d = Some d' \<and> packed efs nd (files @ built target apps) dp' d'"
  using assms
proof (induction apps arbitrary: files dp d)
  case Nil
  then show ?case by auto
next
  case (Cons app apps)
  show ?case
  proof (cases "target app")
    case None
    then show ?thesis
      using Cons by simp
  next
    case (Some data)
    let ?rest = "built target apps"
    have b: "built target (app # apps) = (app, data) # ?rest"
      using Some by simp
    have nm: "name_ok app" "app \<notin> {dot, dotdot} \<union> fst ` set files" and dt: "data \<noteq> []" "length data \<le> MAX_BLOCKS * BLOCK_SZ"
      using Cons.prems(2,3) unfolding b by auto
    have len: "length files < 4095"
      using Cons.prems(4) unfolding b by simp
    have "DIRENT_SZ * (2 + length (files @ built target (app # apps))) \<le> MAX_BLOCKS * BLOCK_SZ"
      using Cons.prems(4) by (simp add: MAX_BLOCKS_def layout_consts)
    then have "blocks_for (DIRENT_SZ * (3 + length files)) \<le> blocks_for (DIRENT_SZ * (2 + length (files @ built target (app # apps))))"
      unfolding b by (rule blocks_for_mono [rotated]) (rule mult_le_mono2, simp)
    then have room: "(\<Sum>(nm, data) \<leftarrow> files. blocks_for (length data)) + blocks_for (length data) + blocks_for (DIRENT_SZ * (3 + length files)) \<le> nd"
      using Cons.prems(6) unfolding b by simp
    obtain i d1 d2 dp2 where s: "Inode_create efs (root_inode efs) app d = Some (Some (inode_handle efs i), d1)"
      "Inode_write_at efs (inode_handle efs i) 0 data d1 = Some (length data, d2)" "packed efs nd (files @ [(app, data)]) dp2 d2"
      using pack_one [OF Cons.prems(1) nm dt len Cons.prems(5) room] by blast
    have "\<exists>d' dp'. pack_apps efs target apps d2 = Some d' \<and> packed efs nd ((files @ [(app, data)]) @ ?rest) dp' d'"
      using Cons.prems(2-6) unfolding b by (intro Cons.IH [OF s(3)]) simp_all
    then show ?thesis
      using s(1,2) Some by (auto simp: b)
  qed
qed

section \<open>Properties\<close>

text \<open>
  C8. The image builder copies the programs faithfully: when the built programs have distinct valid names that are not \<open>.\<close> or \<open>..\<close>, are not empty,
  and fit (at most 4095 of them; their blocks with index blocks, and those of the directory, at most 64494), then
  packing into a host file of 32 MiB succeeds; the result is a file system in its invariant whose root directory holds, beside \<open>.\<close> and
  \<open>..\<close>, exactly the programs that were built, each as a file with exactly the bytes of the program.
\<close>

theorem pack_copies_programs:
  assumes image: "length file = 32 * 2048 * BLOCK_SZ"
    and names: "distinct (map fst (built target (map app_name source)))" "length (built target (map app_name source)) \<le> 4095"
    and progs: "\<forall>(nm, data) \<in> set (built target (map app_name source)). name_ok nm \<and> nm \<notin> {dot, dotdot} \<and> data \<noteq> [] \<and> length data \<le> MAX_BLOCKS * BLOCK_SZ"
    and room: "(\<Sum>(nm, data) \<leftarrow> built target (map app_name source). blocks_for (length data)) +
      blocks_for (DIRENT_SZ * (2 + length (built target (map app_name source)))) \<le> 64494"
  shows "\<exists>efs d nd root. easy_fs_pack source target (file_disk file) = Some (efs, d) \<and> fs_inv efs nd d \<and>
    inode_at efs d 0 = Some root \<and> is_dir root \<and> dom (dir_map root d) = {dot, dotdot} \<union> fst ` set (built target (map app_name source)) \<and>
    (\<forall>(nm, data) \<in> set (built target (map app_name source)). \<exists>i di. dir_map root d nm = Some i \<and> inode_at efs d i = Some di \<and> is_file di \<and> content di d = data)"
proof -
  let ?b = "built target (map app_name source)"
  have sizes: "mkfs_sizes (32 * 2048) 1"
    by (simp add: mkfs_sizes_def)
  obtain efs d0 nd root where m: "create (32 * 2048) 1 (file_disk file) = Some (efs, d0)" "fs_inv efs nd d0" "used_inodes efs d0 = {0}"
    "inode_at efs d0 0 = Some root" "is_dir root" "dir_list root d0 = [(dot, 0), (dotdot, 0)]" "di_size root = 2 * DIRENT_SZ"
    "nd \<le> free_blocks efs nd d0 + 1" "nd = mkfs_data (32 * 2048) 1 - mkfs_bitmap (32 * 2048) 1" "maxmium (inode_bitmap efs) = 4096 * 1"
    using mkfs_effect [OF sizes file_disk_device [OF image]] by blast
  have nd: "nd = 64494"
    by (simp add: m(9) mkfs_data_def mkfs_bitmap_def)
  have "blocks_for (2 * DIRENT_SZ) = 1"
    by (simp add: blocks_for_def tree_total_def data_blocks_of_size_def u32_def layout_consts)
  moreover have "dom (dir_map root d0) = {dot, dotdot}"
    by (auto simp: dir_map_def m(6))
  ultimately have "packed efs nd [] root d0"
    using m by (simp add: packed_def)
  from pack_apps_spec [OF this, of target "map app_name source"] obtain d dp where
    p: "pack_apps efs target (map app_name source) d0 = Some d" and pk: "packed efs nd ?b dp d"
    using names progs room m(10) nd by auto
  have all: "\<forall>(nm, data) \<in> set ?b. \<exists>i di. dir_map dp d nm = Some i \<and> inode_at efs d i = Some di \<and> is_file di \<and> content di d = data"
  proof clarify
    fix nm data assume "(nm, data) \<in> set ?b"
    then show "\<exists>i di. dir_map dp d nm = Some i \<and> inode_at efs d i = Some di \<and> is_file di \<and> content di d = data"
      using pk unfolding packed_def by fast
  qed
  have "fs_inv efs nd d" "inode_at efs d 0 = Some dp" "is_dir dp" "dom (dir_map dp d) = {dot, dotdot} \<union> fst ` set ?b"
    using pk unfolding packed_def by simp_all
  moreover have "easy_fs_pack source target (file_disk file) = Some (efs, d)"
    using m(1) p by (simp add: easy_fs_pack_def)
  ultimately show ?thesis
    using all by blast
qed

theorem pack_copies_programs_witness:
  "\<exists>efs d root i di. easy_fs_pack [[108, 115, 46, 114, 115], [120]] [[108, 115] \<mapsto> [127, 69, 76, 70]] (file_disk (replicate (32 * 2048 * BLOCK_SZ) 0)) = Some (efs, d) \<and>
    inode_at efs d 0 = Some root \<and> dir_map root d [108, 115] = Some i \<and> inode_at efs d i = Some di \<and> content di d = [127, 69, 76, 70]"
proof -
  let ?s = "[[108, 115, 46, 114, 115], [120 :: byte]]" and ?t = "[[108, 115 :: byte] \<mapsto> [127, 69, 76, 70 :: byte]]"
  have "app_name [108, 115, 46, 114, 115] = [108, 115]" "app_name [120] = [120]"
    by (simp_all add: app_name_def rfind_dot_def find_index_def upt_rec)
  then have b: "built ?t (map app_name ?s) = [([108, 115], [127, 69, 76, 70])]"
    by simp
  have "name_ok [108, 115]" "[108, 115] \<notin> {dot, dotdot}"
    by (simp_all add: name_ok_def dot_def dotdot_def layout_consts)
  moreover have "blocks_for (Suc (Suc (Suc (Suc 0)))) + blocks_for (DIRENT_SZ * 3) \<le> 64494" "4 \<le> MAX_BLOCKS * BLOCK_SZ"
    by (simp_all add: blocks_for_def tree_total_def data_blocks_of_size_def u32_def layout_consts MAX_BLOCKS_def)
  ultimately have p: "\<forall>(nm, data) \<in> set (built ?t (map app_name ?s)). name_ok nm \<and> nm \<notin> {dot, dotdot} \<and> data \<noteq> [] \<and> length data \<le> MAX_BLOCKS * BLOCK_SZ"
    "(\<Sum>(nm, data) \<leftarrow> built ?t (map app_name ?s). blocks_for (length data)) + blocks_for (DIRENT_SZ * (2 + length (built ?t (map app_name ?s)))) \<le> 64494"
    "distinct (map fst (built ?t (map app_name ?s)))" "length (built ?t (map app_name ?s)) \<le> 4095"
    unfolding b by simp_all
  have "length (replicate (32 * 2048 * BLOCK_SZ) (0 :: byte)) = 32 * 2048 * BLOCK_SZ"
    by (rule length_replicate)
  from pack_copies_programs [OF this p(3,4,1,2)] obtain efs d nd root where
    r: "easy_fs_pack ?s ?t (file_disk (replicate (32 * 2048 * BLOCK_SZ) 0)) = Some (efs, d)" "inode_at efs d 0 = Some root"
      "\<forall>(nm, data) \<in> set (built ?t (map app_name ?s)). \<exists>i di. dir_map root d nm = Some i \<and> inode_at efs d i = Some di \<and> is_file di \<and> content di d = data"
    by (elim exE conjE)
  from r(3) obtain i di where "dir_map root d [108, 115] = Some i" "inode_at efs d i = Some di" "content di d = [127, 69, 76, 70]"
    unfolding b by auto
  then show ?thesis
    using r(1,2) by (intro exI [of _ efs] exI [of _ d] exI [of _ root] exI [of _ i] exI [of _ di] conjI)
qed

end
