(* ===== verification/Spec2Isabelle.thy ===== *)
theory Spec2Isabelle
  imports Shell Pack
begin

text \<open>
  A verification of \<^bold>\<open>rcore-os\<close>: a small Unix-like kernel for RISC-V (\<^verbatim>\<open>src/os\<close>) with its own file
  system (\<^verbatim>\<open>src/easy-fs\<close>), the tool that builds its disk image (\<^verbatim>\<open>src/easy-fs-fuse\<close>), and the library and the
  shell of its user programs (\<^verbatim>\<open>src/user\<close>).

  \<^bold>\<open>How the program is put together.\<close> The kernel keeps its files on a block device through \<^verbatim>\<open>easy-fs\<close>: a
  cache of sixteen blocks over the device (\<^verbatim>\<open>block_cache.rs\<close>), bitmaps that allocate inodes and data
  blocks (\<^verbatim>\<open>bitmap.rs\<close>), the on-disk structures with direct, indirect and doubly indirect blocks
  (\<^verbatim>\<open>layout.rs\<close>), the file system that ties them together (\<^verbatim>\<open>efs.rs\<close>) and the operations on inodes and
  directories (\<^verbatim>\<open>vfs.rs\<close>). Its memory is managed by a stack of free frames (\<^verbatim>\<open>mm/frame_allocator.rs\<close>),
  three-level page tables that live in these frames (\<^verbatim>\<open>mm/page_table.rs\<close>) and address spaces made of
  areas (\<^verbatim>\<open>mm/memory_set.rs\<close>). Processes (\<^verbatim>\<open>task/process.rs\<close>) own an address space, memory mappings
  that a page fault fills (\<^verbatim>\<open>task/mem.rs\<close>), open files and threads. Threads get their stacks and trap
  contexts in the address space (\<^verbatim>\<open>task/id.rs\<close>), are scheduled round robin (\<^verbatim>\<open>task/manager.rs\<close>,
  \<^verbatim>\<open>processor.rs\<close>, \<^verbatim>\<open>mod.rs\<close>), and communicate by pipes (\<^verbatim>\<open>fs/pipe.rs\<close>), mutexes, semaphores and
  condition variables (\<^verbatim>\<open>sync/\<close>), timers (\<^verbatim>\<open>timer.rs\<close>), signals (\<^verbatim>\<open>task/signal.rs\<close>, \<^verbatim>\<open>action.rs\<close>) and
  connections of the network (\<^verbatim>\<open>net/\<close>). A trap (\<^verbatim>\<open>trap/mod.rs\<close>) brings the processor from a program into the kernel,
  where a system call is decoded and dispatched (\<^verbatim>\<open>syscall/\<close>), a fault is repaired or answered by a
  signal, or an interrupt of the timer or of a device (\<^verbatim>\<open>drivers/\<close>, \<^verbatim>\<open>boards/qemu.rs\<close>) is served. On the other
  side the user library (\<^verbatim>\<open>user/src/lib.rs\<close>, \<^verbatim>\<open>syscall.rs\<close>) reads the arguments of a program and
  issues the calls, and the shell (\<^verbatim>\<open>user/src/bin/user_shell.rs\<close>) starts programs and connects them.

  \<^bold>\<open>Conventions.\<close> An operation of the code is a function of the same name (with the type in front where
  names clash: \<open>Inode_read_at\<close> is \<^verbatim>\<open>Inode::read_at\<close>) that takes and returns the state explicitly. The
  value \<open>None\<close> of the outer option stands for a panic: a failed \<^verbatim>\<open>assert!\<close>, \<^verbatim>\<open>unwrap\<close> on nothing, an
  index out of range, an access to memory or to a block that is not there; it also stands for a write through a raw
  pointer outside of its object, which Rust leaves undefined. So a theorem that says that
  an operation gives \<open>Some\<close> says that it returns. Machine integers are natural numbers; where the
  width matters the wrap-around is written out (\<open>u32\<close>, \<open>usize_sub\<close>, \<open>isize\<close>), and bit fields are words.
  A loop is a function that recurses over what the loop runs through; a loop that suspends
  the task is modelled by its rounds, and the properties speak about sequences of rounds. A system call
  that gives up the processor is modelled up to that point, and its result says how it goes on.
  What comes from outside the repository is an argument: the result of the ELF parser, the functions
  of the crate that reads and builds packets, the value of the clock, the bytes a device holds, stale bytes on the
  stack of the kernel, the files of the host.

  \<^bold>\<open>The theories.\<close>

  \<^item> \<open>Prelude\<close>: bytes, little-endian numbers, slices of lists, the arithmetic of machine integers.
    \<open>Utf8\<close>: validity of UTF-8, which \<^verbatim>\<open>DirEntry::name\<close> and \<^verbatim>\<open>translated_str\<close> check. \<open>Slots\<close>: tables with
    reusable entries, in which the kernel keeps mutexes, semaphores, sockets and ports.
  \<^item> \<open>BlockCache\<close>: the cache with its queue, eviction, dirty flags and locks, and its refinement to a plain
    disk, a map from block numbers to blocks. The rest of the file system is stated over the plain disk.
    \<open>Allocator\<close>: the contract of an allocator as a locale, which the bitmaps (\<open>Bitmap\<close>), the frames and the
    identifiers of tasks fulfil.
  \<^item> \<open>Layout\<close>: super block, inodes, directory entries and their encodings, and every operation of a disk
    inode. \<open>InodeTree\<close>, \<open>InodeData\<close>: the blocks of an inode as one list (the abstraction of the tree of direct and
    indirect blocks) and its contents as one list of bytes; growing, reading, writing and clearing in
    these terms.
  \<^item> \<open>Efs\<close>, \<open>Vfs\<close>: the file system and its operations. \<open>FsInv\<close>: the invariant of a file system: every
    block in use belongs to one inode, is marked in the bitmap, and lies in its area. \<open>FsOps\<close>: how
    growing and clearing keep it. \<open>Directory\<close>: directories as lists of entries. \<open>VfsProps\<close>, \<open>VfsDirs\<close>:
    the properties of reading, writing, clearing, creating, linking, unlinking and path lookup.
    \<open>Mkfs\<close>: formatting a device establishes the invariant. \<open>Pack\<close>: the tool that formats an image and
    copies the built programs into it.
  \<^item> \<open>Address\<close>, \<open>FrameAllocator\<close>, \<open>PageTable\<close>, \<open>MemorySet\<close>: memory management over a model of physical
    memory, a map from page numbers to pages of 4096 bytes, in which the page tables themselves lie.
    \<open>PageTableMap\<close>: a page table refines a finite map. \<open>UserBuffer\<close>: the translated buffers, strings and
    references through which the kernel reaches user memory. \<open>MemorySetProps\<close>, \<open>Fork\<close>: pushing areas,
    copying and dropping address spaces.
  \<^item> \<open>TaskId\<close>, \<open>Scheduler\<close>, \<open>Sync\<close>, \<open>Timer\<close>, \<open>Signals\<close>, \<open>Pipe\<close>: threads and their communication.
  \<^item> \<open>OpenFile\<close>: open files with their offsets. \<open>Net\<close>: sockets, ports and connections. \<open>SysFs\<close>: the
    descriptor table and the file system calls, over stores of shared files and pipes. \<open>Mmap\<close>: reservations,
    file mappings and the page-fault handler. \<open>Process\<close>: control blocks and the calls on processes and
    threads, with the strong references that decide when a block is freed. \<open>ProcessTree\<close>: fork, exit and
    waitpid refine operations on a plain tree. \<open>ExecArgs\<close>: the arguments on a new user stack.
    \<open>SysSync\<close>, \<open>SysNet\<close>: the calls on synchronisation objects and connections, and the packet handler.
  \<^item> \<open>Devices\<close>: interrupt controller, UART, keyboard, requests of the block device, console. \<open>Abi\<close>: the numbers
    and registers of system calls on both sides. \<open>Trap\<close>: the record \<open>machine\<close>, which holds the
    state of the whole kernel, the dispatch of every system call on it and the trap handler. \<open>UserLib\<close>: the
    entry point and the wrappers of the user library. \<open>Shell\<close>: line editor, parser and pipelines.

  \<^bold>\<open>What the properties show.\<close> For the file system: reading returns and writing stores exactly the
  requested bytes at any offset, across the direct and indirect blocks; every operation keeps the invariant and
  leaves other files alone; a name is created once; unlinking the last name gives exactly the blocks of the
  file back to the bitmap; the cache is transparent and syncing makes the device equal to the abstract disk; a packed image holds
  every program under its name. For memory: a page
  table is a map, mapping and unmapping touch one key; frames are handed out once and given back when an
  address space is dropped; a forked address space has the same contents with the same permissions in other frames; a mapping reserves
  its range, and the first access fills the page with the bytes of the file or the reservation with fresh zeroed frames of the
  permissions asked for. For
  processes: the table of processes stays consistent; waitpid reaps exactly a zombie child, and its assertion on the
  number of references holds exactly when no thread of the zombie is still suspended inside a call; when the main thread exits, the
  other ready threads of the process stay in the queue without resources, and the kernel panics when one of them is picked; a program finds the
  arguments that another one passed to exec. For
  tasks: every ready task runs within one round of the queue; mutual exclusion, absence of lost wake-ups and the count
  of semaphores hold under every interleaving, up to the system calls of several processes; pipes deliver bytes in
  order and both sides return; interrupts are off while any cell is borrowed; whatever a signal handler does, it returns to the interrupted
  context, also through the trap handler; input of devices and data for a connection are delivered in order. For the interface: what the user library encodes the kernel
  decodes as the same call, \<open>getpid\<close> comes back with its result in \<open>a0\<close> behind the \<open>ecall\<close> and changes nothing else, and a fault outside of
  every mapping does what \<open>exit\<close> with code \<open>-11\<close> does. For the shell: a pipeline connects neighbours by pipes and no other descriptors stay
  open, and parsing a printed command line gives the words back.
  Some lemmas record where the code does not do what it seems to be meant to do (signals behind
  an unhandled one, timers with a huge expiry time, the last frames of memory, exit codes of threads that read as "try
  again", the wrap-around of \<^verbatim>\<open>get_time\<close>, a redirection without a file name).

  \<^bold>\<open>Bounds.\<close> No definition runs on fuel. The loops that may run for ever (over user memory, over the path up
  to the root, in a turn of a pipe, waiting for a process) are \<open>partial_function\<close>s into an option, and the
  theorems about them say when they return. Offsets plus lengths are below \<open>2 ^ 32\<close> where the code
  computes in 32 bits, and files stay below the capacity of the doubly indirect block.

  \<^bold>\<open>Not modelled.\<close> The assembly of the trap entry and of the context switch, the TLB and \<^verbatim>\<open>satp\<close>, and the calls of the
  firmware are below what the Rust code says. The queues of virtio devices, the formats of packets and
  of ELF files and the heap allocator are crates of their own; what the code needs of them is an argument. The
  order of the start-up, logging and tracing keep no state that another part reads. The demonstration
  programs under \<^verbatim>\<open>user/src/bin\<close> other than the shell exercise the system calls and promise nothing. Of the shell
  the echo of the line editor and the listing of the root directory, and of the image builder the
  failure of file operations of the host, are left out.
\<close>

end
